(* ===== verification/Prelude.thy ===== *)
theory Prelude
  imports Main "HOL-Library.Word" "HOL-Library.Monad_Syntax"
begin

unbundle bit_operations_syntax

text \<open>
  What every theory of the kernel development shares: the integer types of the processor
  port, bounds-checked array reads, facts on the bits of 8-bit words, and the theorem
  collections that the component proofs feed to the simplifier.

  A C array is a function from indices together with the number of its elements. A read
  outside the array is undefined behaviour in C; here it is the value \<open>None\<close>
  (a \<^emph>\<open>fault\<close>), and so is every dereference of a pointer to nothing. A kernel function
  that may fault returns an option, and the code is translated with the \<open>do\<close> notation of
  the option monad.
\<close>

section \<open>Integer types of the port (OS\_CPU.H)\<close>

type_synonym INT8U = "8 word"
type_synonym INT8S = "8 word"
type_synonym INT16U = "16 word"
type_synonym INT32U = "32 word"
type_synonym BOOLEAN = "8 word"
type_synonym OS_STK = "16 word"

section \<open>Theorem collections\<close>

named_theorems kdefs \<open>definitions of the kernel functions\<close>
named_theorems ksel \<open>what an accessor returns after an update\<close>

section \<open>Arrays and faults\<close>

definition idx :: "nat \<Rightarrow> (nat \<Rightarrow> 'a) \<Rightarrow> nat \<Rightarrow> 'a option" where
  "idx n a i = (if i < n then Some (a i) else None)"

lemma idx_Some [simp]: "idx n a i = Some v \<longleftrightarrow> i < n \<and> a i = v"
  by (auto simp: idx_def)

lemma idx_None [simp]: "idx n a i = None \<longleftrightarrow> n \<le> i"
  by (auto simp: idx_def)

lemma idx_in [simp]: "i < n \<Longrightarrow> idx n a i = Some (a i)"
  by simp

lemma bind_Some_iff [simp]:
  "Option.bind m f = Some r \<longleftrightarrow> (\<exists>v. m = Some v \<and> f v = Some r)"
  by (cases m) auto

section \<open>Bits of 8-bit words\<close>

lemma word8_eq_0_iff: "(w :: INT8U) = 0 \<longleftrightarrow> (\<forall>j < 8. \<not> bit w j)"
  by (auto simp: bit_eq_iff dest: bit_imp_le_length)

lemma word8_bit_lt: "bit (w :: INT8U) j \<Longrightarrow> j < 8"
  using bit_imp_le_length by fastforce

lemma unat_lt_256 [simp]: "unat (w :: INT8U) < 256"
  using unsigned_less [of w] by simp

lemma unat_ucast_16_32: "unat (ucast (i :: INT16U) :: INT32U) = unat i"
  using unsigned_less [of i, where ?'a = nat] by (simp add: unsigned_ucast_eq take_bit_nat_eq_self)

lemma bit_exp_word8 [simp]: "bit (2 ^ k :: INT8U) j \<longleftrightarrow> j = k \<and> k < 8"
  by (auto simp: bit_exp_iff)

lemma word8_and_exp: "j < 8 \<Longrightarrow> (w :: INT8U) AND 2 ^ j = 0 \<longleftrightarrow> \<not> bit w j"
  by (auto simp: word8_eq_0_iff bit_and_iff)

lemma word8_bit_not: "bit (NOT w :: INT8U) j \<longleftrightarrow> j < 8 \<and> \<not> bit w j"
  by (auto simp: bit_not_iff)

end
