(* ===== verification/Kernel_Config.thy ===== *)
theory Kernel_Config
  imports Prelude
begin

text \<open>
  The configuration of the kernel (samples/ex2l/OS\_CFG.H, the sample that enables every
  service) and the constants of UCOS\_II.H: task states, event types, task options and the
  error codes that the services return. Sizes that index arrays are natural numbers; codes
  that are stored in a byte are bytes.
\<close>

section \<open>OS\_CFG.H\<close>

definition OS_MAX_EVENTS :: nat where "OS_MAX_EVENTS = 20"
definition OS_MAX_MEM_PART :: nat where "OS_MAX_MEM_PART = 2"
definition OS_MAX_QS :: nat where "OS_MAX_QS = 2"
definition OS_MAX_TASKS :: nat where "OS_MAX_TASKS = 11"
definition OS_LOWEST_PRIO :: nat where "OS_LOWEST_PRIO = 20"
definition OS_TASK_IDLE_STK_SIZE :: nat where "OS_TASK_IDLE_STK_SIZE = 512"
definition OS_TASK_STAT_STK_SIZE :: nat where "OS_TASK_STAT_STK_SIZE = 512"
definition OS_TICKS_PER_SEC :: INT32U where "OS_TICKS_PER_SEC = 200"

section \<open>UCOS\_II.H: derived sizes and priorities\<close>

definition OS_VERSION :: INT16U where "OS_VERSION = 200"
definition OS_PRIO_SELF :: INT8U where "OS_PRIO_SELF = 0xFF"
definition OS_N_SYS_TASKS :: nat where "OS_N_SYS_TASKS = 2"
definition OS_STAT_PRIO :: nat where "OS_STAT_PRIO = OS_LOWEST_PRIO - 1"
definition OS_IDLE_PRIO :: nat where "OS_IDLE_PRIO = OS_LOWEST_PRIO"
definition OS_EVENT_TBL_SIZE :: nat where "OS_EVENT_TBL_SIZE = OS_LOWEST_PRIO div 8 + 1"
definition OS_RDY_TBL_SIZE :: nat where "OS_RDY_TBL_SIZE = OS_LOWEST_PRIO div 8 + 1"
definition OS_TASK_IDLE_ID :: INT16U where "OS_TASK_IDLE_ID = 65535"
definition OS_TASK_STAT_ID :: INT16U where "OS_TASK_STAT_ID = 65534"

definition N_TCB :: nat where "N_TCB = OS_MAX_TASKS + OS_N_SYS_TASKS"

lemmas config_defs =
  OS_MAX_EVENTS_def OS_MAX_MEM_PART_def OS_MAX_QS_def OS_MAX_TASKS_def OS_LOWEST_PRIO_def
  OS_TICKS_PER_SEC_def OS_PRIO_SELF_def OS_N_SYS_TASKS_def OS_STAT_PRIO_def OS_IDLE_PRIO_def
  OS_EVENT_TBL_SIZE_def OS_RDY_TBL_SIZE_def N_TCB_def

text \<open>What the proofs use of the configuration; it holds of every configuration that respects
  the limits stated in OS\_CFG.H (a lowest priority of at most 63).\<close>

lemma tbl_size_le [simp]: "OS_RDY_TBL_SIZE \<le> 8" "OS_EVENT_TBL_SIZE = OS_RDY_TBL_SIZE"
  by (simp_all add: config_defs)

lemma lowest_prio_bounds [simp]:
  "OS_LOWEST_PRIO div 8 < OS_RDY_TBL_SIZE" "OS_LOWEST_PRIO < 64"
  by (simp_all add: config_defs)

lemma prio_in_table: "p \<le> OS_LOWEST_PRIO \<Longrightarrow> p div 8 < OS_RDY_TBL_SIZE"
  using lowest_prio_bounds(1) by (meson div_le_mono le_less_trans)

section \<open>Task status bits, event types, task options\<close>

definition OS_STAT_RDY :: INT8U where "OS_STAT_RDY = 0x00"
definition OS_STAT_SEM :: INT8U where "OS_STAT_SEM = 0x01"
definition OS_STAT_MBOX :: INT8U where "OS_STAT_MBOX = 0x02"
definition OS_STAT_Q :: INT8U where "OS_STAT_Q = 0x04"
definition OS_STAT_SUSPEND :: INT8U where "OS_STAT_SUSPEND = 0x08"

definition OS_EVENT_TYPE_MBOX :: INT8U where "OS_EVENT_TYPE_MBOX = 1"
definition OS_EVENT_TYPE_Q :: INT8U where "OS_EVENT_TYPE_Q = 2"
definition OS_EVENT_TYPE_SEM :: INT8U where "OS_EVENT_TYPE_SEM = 3"

definition OS_TASK_OPT_STK_CHK :: INT16U where "OS_TASK_OPT_STK_CHK = 0x0001"
definition OS_TASK_OPT_STK_CLR :: INT16U where "OS_TASK_OPT_STK_CLR = 0x0002"
definition OS_TASK_OPT_SAVE_FP :: INT16U where "OS_TASK_OPT_SAVE_FP = 0x0004"

lemmas stat_defs = OS_STAT_RDY_def OS_STAT_SEM_def OS_STAT_MBOX_def OS_STAT_Q_def
  OS_STAT_SUSPEND_def

lemmas type_defs = OS_EVENT_TYPE_MBOX_def OS_EVENT_TYPE_Q_def OS_EVENT_TYPE_SEM_def

section \<open>Error codes\<close>

definition OS_NO_ERR :: INT8U where "OS_NO_ERR = 0"
definition OS_ERR_EVENT_TYPE :: INT8U where "OS_ERR_EVENT_TYPE = 1"
definition OS_ERR_PEND_ISR :: INT8U where "OS_ERR_PEND_ISR = 2"
definition OS_TIMEOUT :: INT8U where "OS_TIMEOUT = 10"
definition OS_TASK_NOT_EXIST :: INT8U where "OS_TASK_NOT_EXIST = 11"
definition OS_MBOX_FULL :: INT8U where "OS_MBOX_FULL = 20"
definition OS_Q_FULL :: INT8U where "OS_Q_FULL = 30"
definition OS_PRIO_EXIST :: INT8U where "OS_PRIO_EXIST = 40"
definition OS_PRIO_ERR :: INT8U where "OS_PRIO_ERR = 41"
definition OS_PRIO_INVALID :: INT8U where "OS_PRIO_INVALID = 42"
definition OS_SEM_OVF :: INT8U where "OS_SEM_OVF = 50"
definition OS_TASK_DEL_ERR :: INT8U where "OS_TASK_DEL_ERR = 60"
definition OS_TASK_DEL_IDLE :: INT8U where "OS_TASK_DEL_IDLE = 61"
definition OS_TASK_DEL_REQ :: INT8U where "OS_TASK_DEL_REQ = 62"
definition OS_TASK_DEL_ISR :: INT8U where "OS_TASK_DEL_ISR = 63"
definition OS_NO_MORE_TCB :: INT8U where "OS_NO_MORE_TCB = 70"
definition OS_TIME_NOT_DLY :: INT8U where "OS_TIME_NOT_DLY = 80"
definition OS_TIME_INVALID_MINUTES :: INT8U where "OS_TIME_INVALID_MINUTES = 81"
definition OS_TIME_INVALID_SECONDS :: INT8U where "OS_TIME_INVALID_SECONDS = 82"
definition OS_TIME_INVALID_MILLI :: INT8U where "OS_TIME_INVALID_MILLI = 83"
definition OS_TIME_ZERO_DLY :: INT8U where "OS_TIME_ZERO_DLY = 84"
definition OS_TASK_SUSPEND_PRIO :: INT8U where "OS_TASK_SUSPEND_PRIO = 90"
definition OS_TASK_SUSPEND_IDLE :: INT8U where "OS_TASK_SUSPEND_IDLE = 91"
definition OS_TASK_RESUME_PRIO :: INT8U where "OS_TASK_RESUME_PRIO = 100"
definition OS_TASK_NOT_SUSPENDED :: INT8U where "OS_TASK_NOT_SUSPENDED = 101"
definition OS_MEM_INVALID_PART :: INT8U where "OS_MEM_INVALID_PART = 110"
definition OS_MEM_INVALID_BLKS :: INT8U where "OS_MEM_INVALID_BLKS = 111"
definition OS_MEM_INVALID_SIZE :: INT8U where "OS_MEM_INVALID_SIZE = 112"
definition OS_MEM_NO_FREE_BLKS :: INT8U where "OS_MEM_NO_FREE_BLKS = 113"
definition OS_MEM_FULL :: INT8U where "OS_MEM_FULL = 114"
definition OS_TASK_OPT_ERR :: INT8U where "OS_TASK_OPT_ERR = 130"

text \<open>The codes are pairwise different, so a returned code tells which branch was taken.\<close>

lemmas err_defs = OS_NO_ERR_def OS_ERR_EVENT_TYPE_def OS_ERR_PEND_ISR_def OS_TIMEOUT_def
  OS_TASK_NOT_EXIST_def OS_MBOX_FULL_def OS_Q_FULL_def OS_PRIO_EXIST_def OS_PRIO_ERR_def
  OS_PRIO_INVALID_def OS_SEM_OVF_def OS_TASK_DEL_ERR_def OS_TASK_DEL_IDLE_def
  OS_TASK_DEL_REQ_def OS_TASK_DEL_ISR_def OS_NO_MORE_TCB_def OS_TIME_NOT_DLY_def
  OS_TIME_INVALID_MINUTES_def OS_TIME_INVALID_SECONDS_def OS_TIME_INVALID_MILLI_def
  OS_TIME_ZERO_DLY_def OS_TASK_SUSPEND_PRIO_def OS_TASK_SUSPEND_IDLE_def
  OS_TASK_RESUME_PRIO_def OS_TASK_NOT_SUSPENDED_def OS_MEM_INVALID_PART_def
  OS_MEM_INVALID_BLKS_def OS_MEM_INVALID_SIZE_def OS_MEM_NO_FREE_BLKS_def OS_MEM_FULL_def
  OS_TASK_OPT_ERR_def

lemma error_codes_distinct:
  "distinct [OS_NO_ERR, OS_ERR_EVENT_TYPE, OS_ERR_PEND_ISR, OS_TIMEOUT, OS_TASK_NOT_EXIST,
     OS_MBOX_FULL, OS_Q_FULL, OS_PRIO_EXIST, OS_PRIO_ERR, OS_PRIO_INVALID, OS_SEM_OVF,
     OS_TASK_DEL_ERR, OS_TASK_DEL_IDLE, OS_TASK_DEL_REQ, OS_TASK_DEL_ISR, OS_NO_MORE_TCB,
     OS_TIME_NOT_DLY, OS_TIME_INVALID_MINUTES, OS_TIME_INVALID_SECONDS,
     OS_TIME_INVALID_MILLI, OS_TIME_ZERO_DLY, OS_TASK_SUSPEND_PRIO, OS_TASK_SUSPEND_IDLE,
     OS_TASK_RESUME_PRIO, OS_TASK_NOT_SUSPENDED, OS_MEM_INVALID_PART, OS_MEM_INVALID_BLKS,
     OS_MEM_INVALID_SIZE, OS_MEM_NO_FREE_BLKS, OS_MEM_FULL, OS_TASK_OPT_ERR]"
  by (simp add: err_defs)

end
