(* ===== verification/Priority_Table.thy ===== *)
theory Priority_Table
  imports Kernel_Config
begin

text \<open>
  The two-level bit map that uC/OS-II uses for its ready list and for the wait list of
  every event: a table with one bit per priority, eight priorities to a byte, and a group
  byte with one bit per byte of the table. The constant tables \<open>OSMapTbl\<close> and
  \<open>OSUnMapTbl\<close> are the ones of OS\_CORE.C. The code repeats three idioms on a pair of a group
  and a table, which are named here: entering a priority, removing one, and finding the
  highest one (the lowest number). The abstraction \<open>prios\<close> is the set of priorities in
  the map; the locale \<open>priority_set\<close> states what a client may rely on.
\<close>

section \<open>The constant tables of OS\_CORE.C\<close>

definition OSMapTbl :: "INT8U list" where
  "OSMapTbl = [0x01, 0x02, 0x04, 0x08, 0x10, 0x20, 0x40, 0x80]"

definition OSUnMapTbl :: "INT8U list" where
  "OSUnMapTbl = [
    0, 0, 1, 0, 2, 0, 1, 0, 3, 0, 1, 0, 2, 0, 1, 0,
    4, 0, 1, 0, 2, 0, 1, 0, 3, 0, 1, 0, 2, 0, 1, 0,
    5, 0, 1, 0, 2, 0, 1, 0, 3, 0, 1, 0, 2, 0, 1, 0,
    4, 0, 1, 0, 2, 0, 1, 0, 3, 0, 1, 0, 2, 0, 1, 0,
    6, 0, 1, 0, 2, 0, 1, 0, 3, 0, 1, 0, 2, 0, 1, 0,
    4, 0, 1, 0, 2, 0, 1, 0, 3, 0, 1, 0, 2, 0, 1, 0,
    5, 0, 1, 0, 2, 0, 1, 0, 3, 0, 1, 0, 2, 0, 1, 0,
    4, 0, 1, 0, 2, 0, 1, 0, 3, 0, 1, 0, 2, 0, 1, 0,
    7, 0, 1, 0, 2, 0, 1, 0, 3, 0, 1, 0, 2, 0, 1, 0,
    4, 0, 1, 0, 2, 0, 1, 0, 3, 0, 1, 0, 2, 0, 1, 0,
    5, 0, 1, 0, 2, 0, 1, 0, 3, 0, 1, 0, 2, 0, 1, 0,
    4, 0, 1, 0, 2, 0, 1, 0, 3, 0, 1, 0, 2, 0, 1, 0,
    6, 0, 1, 0, 2, 0, 1, 0, 3, 0, 1, 0, 2, 0, 1, 0,
    4, 0, 1, 0, 2, 0, 1, 0, 3, 0, 1, 0, 2, 0, 1, 0,
    5, 0, 1, 0, 2, 0, 1, 0, 3, 0, 1, 0, 2, 0, 1, 0,
    4, 0, 1, 0, 2, 0, 1, 0, 3, 0, 1, 0, 2, 0, 1, 0]"

text \<open>Indexed reads of the two tables: the second has an entry for every byte.\<close>

definition map_tbl :: "nat \<Rightarrow> INT8U option" where
  "map_tbl y = (if y < length OSMapTbl then Some (OSMapTbl ! y) else None)"

definition unmap_tbl :: "INT8U \<Rightarrow> INT8U" where
  "unmap_tbl w = OSUnMapTbl ! unat w"

lemma length_OSMapTbl: "length OSMapTbl = 8"
  by (simp add: OSMapTbl_def)

lemma length_OSUnMapTbl: "length OSUnMapTbl = 256"
  by (simp add: OSUnMapTbl_def)

lemma OSMapTbl_nth: "y < 8 \<Longrightarrow> OSMapTbl ! y = 2 ^ y"
proof -
  assume "y < 8"
  then have "y \<in> {0, 1, 2, 3, 4, 5, 6, 7}" by auto
  then show ?thesis by (auto simp: OSMapTbl_def)
qed

lemma map_tbl_eq: "map_tbl y = (if y < 8 then Some (2 ^ y) else None)"
  by (simp add: map_tbl_def length_OSMapTbl OSMapTbl_nth)

text \<open>The resolution table is checked entry by entry: modulo the next power of two, a byte
  other than 0 is the mask of its entry, so the entry is the position of the lowest bit.\<close>

definition lowest_bit_ok :: "int \<Rightarrow> INT8U \<Rightarrow> bool" where
  "lowest_bit_ok n w \<longleftrightarrow>
     (let r = unat w in r < 8 \<and> (n = 0 \<or> n mod 2 ^ Suc r = 2 ^ r))"

fun entries_ok :: "int \<Rightarrow> INT8U list \<Rightarrow> bool" where
  "entries_ok n [] = True"
| "entries_ok n (w # ws) = (lowest_bit_ok n w \<and> entries_ok (n + 1) ws)"

lemma entries_ok_nth:
  "entries_ok n ws \<Longrightarrow> k < length ws \<Longrightarrow> lowest_bit_ok (n + int k) (ws ! k)"
proof (induction ws arbitrary: n k)
  case (Cons w ws)
  show ?case
  proof (cases k)
    case (Suc j)
    with Cons.prems Cons.IH [of "n + 1" j] show ?thesis by (simp add: add.assoc)
  qed (use Cons.prems in simp)
qed simp

lemma OSUnMapTbl_ok: "entries_ok 0 OSUnMapTbl"
  by (simp add: OSUnMapTbl_def lowest_bit_ok_def)

lemma unmap_tbl_ok: "lowest_bit_ok (uint w) (unmap_tbl w)"
  using entries_ok_nth [OF OSUnMapTbl_ok, of "unat w"]
  by (simp add: length_OSUnMapTbl unmap_tbl_def)

lemma unmap_tbl_lt [simp]: "unat (unmap_tbl w) < 8"
  using unmap_tbl_ok [of w] by (simp add: lowest_bit_ok_def Let_def)

lemma unmap_tbl_bits:
  assumes "w \<noteq> 0" and "j \<le> unat (unmap_tbl w)"
  shows "bit w j \<longleftrightarrow> j = unat (unmap_tbl w)"
proof -
  let ?r = "unat (unmap_tbl w)"
  have "take_bit (Suc ?r) (uint w) = 2 ^ ?r"
    using unmap_tbl_ok [of w] assms(1)
    by (simp add: lowest_bit_ok_def Let_def take_bit_eq_mod uint_0_iff del: power_Suc)
  then have "bit (take_bit (Suc ?r) (uint w)) j = bit (2 ^ ?r :: int) j" by simp
  moreover have "j < 8" using assms(2) unmap_tbl_lt [of w] by linarith
  ultimately show ?thesis
    using assms(2) by (auto simp: bit_take_bit_iff bit_uint_iff bit_exp_iff)
qed

lemma unmap_tbl_bit: "w \<noteq> 0 \<Longrightarrow> bit w (unat (unmap_tbl w))"
  by (simp add: unmap_tbl_bits)

lemma unmap_tbl_least: "bit w j \<Longrightarrow> unat (unmap_tbl w) \<le> j"
proof (rule ccontr)
  assume b: "bit w j" and nle: "\<not> unat (unmap_tbl w) \<le> j"
  then have "w \<noteq> 0" by auto
  with b nle show False using unmap_tbl_bits [of w j] by simp
qed

section \<open>The two-level map\<close>

type_synonym prio_map = "INT8U \<times> (nat \<Rightarrow> INT8U)"

definition tbl_enter :: "nat \<Rightarrow> nat \<Rightarrow> INT8U \<Rightarrow> INT8U \<Rightarrow> prio_map \<Rightarrow> prio_map option" where
  "tbl_enter n y bitx bity m = do {
     b \<leftarrow> idx n (snd m) y;
     Some (fst m OR bity, (snd m)(y := b OR bitx))
   }"

definition tbl_remove :: "nat \<Rightarrow> nat \<Rightarrow> INT8U \<Rightarrow> INT8U \<Rightarrow> prio_map \<Rightarrow> prio_map option" where
  "tbl_remove n y bitx bity m = do {
     b \<leftarrow> idx n (snd m) y;
     let b' = b AND NOT bitx;
     Some (if b' = 0 then fst m AND NOT bity else fst m, (snd m)(y := b'))
   }"

definition tbl_highest :: "nat \<Rightarrow> prio_map \<Rightarrow> INT8U option" where
  "tbl_highest n m = do {
     let y = unmap_tbl (fst m);
     b \<leftarrow> idx n (snd m) (unat y);
     Some (push_bit 3 y + unmap_tbl b)
   }"

text \<open>The set of priorities in the map, and the invariant that ties the group byte to the
  table: its bit for a byte is set exactly when the byte is not zero.\<close>

definition prios :: "nat \<Rightarrow> prio_map \<Rightarrow> nat set" where
  "prios n m = {p. p div 8 < n \<and> bit (snd m (p div 8)) (p mod 8)}"

definition tbl_wf :: "nat \<Rightarrow> prio_map \<Rightarrow> bool" where
  "tbl_wf n m \<longleftrightarrow> n \<le> 8 \<and> (\<forall>y < 8. bit (fst m) y \<longleftrightarrow> y < n \<and> snd m y \<noteq> 0)"

lemma tbl_wfD: "tbl_wf n m \<Longrightarrow> bit (fst m) y \<longleftrightarrow> y < n \<and> snd m y \<noteq> 0"
  by (auto simp: tbl_wf_def dest: word8_bit_lt)

lemma finite_prios [simp]: "finite (prios n m)"
proof (rule finite_subset)
  show "prios n m \<subseteq> {..< 8 * n}" by (auto simp: prios_def)
qed simp

lemma prios_lt: "p \<in> prios n m \<Longrightarrow> p div 8 < n"
  by (simp add: prios_def)

lemma prios_empty_iff: "tbl_wf n m \<Longrightarrow> prios n m = {} \<longleftrightarrow> fst m = 0"
proof -
  assume wf: "tbl_wf n m"
  have "prios n m = {} \<longleftrightarrow> (\<forall>y < n. snd m y = 0)"
  proof
    assume e: "prios n m = {}"
    show "\<forall>y < n. snd m y = 0"
    proof (intro allI impI)
      fix y assume "y < n"
      have "\<not> bit (snd m y) j" if "j < 8" for j
      proof -
        have "8 * y + j \<notin> prios n m" using e by simp
        with that \<open>y < n\<close> show ?thesis by (simp add: prios_def)
      qed
      then show "snd m y = 0" by (simp add: word8_eq_0_iff)
    qed
  next
    assume "\<forall>y < n. snd m y = 0"
    then show "prios n m = {}" by (auto simp: prios_def)
  qed
  also have "\<dots> \<longleftrightarrow> fst m = 0"
    using wf by (auto simp: word8_eq_0_iff [of "fst m"] tbl_wf_def)
  finally show ?thesis .
qed

lemma tbl_enter_ok:
  assumes "tbl_wf n m" and "p div 8 < n"
  shows "\<exists>m'. tbl_enter n (p div 8) (2 ^ (p mod 8)) (2 ^ (p div 8)) m = Some m'
           \<and> tbl_wf n m' \<and> prios n m' = insert p (prios n m)"
proof -
  let ?b = "snd m (p div 8) OR 2 ^ (p mod 8)"
  let ?m = "(fst m OR 2 ^ (p div 8), (snd m)(p div 8 := ?b))"
  have lt: "p div 8 < 8" "n \<le> 8" using assms by (auto simp: tbl_wf_def)
  have nz: "?b \<noteq> 0"
    by (auto simp: word8_eq_0_iff bit_or_iff intro!: exI [of _ "p mod 8"])
  have "tbl_wf n ?m"
    using assms lt nz by (auto simp: tbl_wf_def bit_or_iff)
  moreover have "prios n ?m = insert p (prios n m)"
    using assms(2) by (auto simp: prios_def bit_or_iff split: if_splits)
                      (metis div_mult_mod_eq)
  ultimately show ?thesis using assms(2) by (simp add: tbl_enter_def)
qed

lemma tbl_remove_ok:
  assumes "tbl_wf n m" and "p div 8 < n"
  shows "\<exists>m'. tbl_remove n (p div 8) (2 ^ (p mod 8)) (2 ^ (p div 8)) m = Some m'
           \<and> tbl_wf n m' \<and> prios n m' = prios n m - {p}"
proof -
  let ?b = "snd m (p div 8) AND NOT (2 ^ (p mod 8))"
  let ?m = "(if ?b = 0 then fst m AND NOT (2 ^ (p div 8)) else fst m,
             (snd m)(p div 8 := ?b))"
  have lt: "p div 8 < 8" "n \<le> 8" using assms by (auto simp: tbl_wf_def)
  have "snd m (p div 8) \<noteq> 0" if "?b \<noteq> 0" using that by auto
  then have "tbl_wf n ?m"
    using assms lt by (auto simp: tbl_wf_def bit_and_iff word8_bit_not)
  moreover have "prios n ?m = prios n m - {p}"
    using assms(2) by (auto simp: prios_def bit_and_iff word8_bit_not split: if_splits)
                      (metis div_mult_mod_eq)
  ultimately show ?thesis using assms(2) by (simp add: tbl_remove_def Let_def)
qed

lemma shift3_add: "unat y < 8 \<Longrightarrow> unat x < 8 \<Longrightarrow>
  unat (push_bit 3 y + x :: INT8U) = 8 * unat y + unat x"
  by (simp add: push_bit_eq_mult unat_word_ariths)

lemma lex8_le:
  "(a :: nat) \<le> q div 8 \<Longrightarrow> (q div 8 = a \<Longrightarrow> b \<le> q mod 8) \<Longrightarrow> b < 8 \<Longrightarrow> 8 * a + b \<le> q"
proof -
  assume le: "a \<le> q div 8" and eq: "q div 8 = a \<Longrightarrow> b \<le> q mod 8" and b: "b < 8"
  have q: "8 * (q div 8) + q mod 8 = q" by simp
  show "8 * a + b \<le> q"
  proof (cases "q div 8 = a")
    case True
    with eq q show ?thesis by linarith
  next
    case False
    with le have "8 * a + 8 \<le> 8 * (q div 8)" by simp
    with q b show ?thesis by linarith
  qed
qed

lemma tbl_highest_ok:
  assumes "tbl_wf n m" and "prios n m \<noteq> {}"
  shows "\<exists>w. tbl_highest n m = Some w \<and> unat w = Min (prios n m)"
proof -
  let ?y = "unmap_tbl (fst m)" and ?x = "unmap_tbl (snd m (unat (unmap_tbl (fst m))))"
  have "fst m \<noteq> 0" using assms by (simp add: prios_empty_iff)
  then have y: "unat ?y < n" "snd m (unat ?y) \<noteq> 0"
    using tbl_wfD [OF assms(1)] unmap_tbl_bit by auto
  let ?p = "8 * unat ?y + unat ?x"
  have p: "?p div 8 = unat ?y" "?p mod 8 = unat ?x" by simp_all
  have "?p \<in> prios n m"
    using y unmap_tbl_bit by (simp add: prios_def p)
  moreover have "?p \<le> q" if q: "q \<in> prios n m" for q
  proof -
    have "bit (snd m (q div 8)) (q mod 8)" "q div 8 < n" using q by (auto simp: prios_def)
    moreover from this have "bit (fst m) (q div 8)"
      using tbl_wfD [OF assms(1)] by force
    ultimately have "unat ?y \<le> q div 8"
      and "q div 8 = unat ?y \<Longrightarrow> unat ?x \<le> q mod 8"
      by (auto intro: unmap_tbl_least)
    moreover have "unat ?x < 8" by simp
    ultimately show ?thesis
      by (rule lex8_le)
  qed
  ultimately have "Min (prios n m) = ?p" by (intro Min_eqI) auto
  then show ?thesis using y by (simp add: tbl_highest_def Let_def shift3_add)
qed

section \<open>What a client relies on\<close>

text \<open>
  The interface of a priority set: entering and removing a valid priority never fails and
  does what it says on the abstract set, the emptiness test is exact, and the highest
  priority is the least number in the set. The lemmas of the locale are the ones the event
  and scheduler proofs use: what is highest after a change, and that taking the highest
  priority until the set is empty serves the members in increasing order.
\<close>

locale priority_set =
  fixes valid :: "nat \<Rightarrow> bool"
    and enter :: "nat \<Rightarrow> 'q \<Rightarrow> 'q option"
    and remove :: "nat \<Rightarrow> 'q \<Rightarrow> 'q option"
    and highest :: "'q \<Rightarrow> nat option"
    and is_empty :: "'q \<Rightarrow> bool"
    and members :: "'q \<Rightarrow> nat set"
    and invar :: "'q \<Rightarrow> bool"
  assumes enter_ok: "invar q \<Longrightarrow> valid p \<Longrightarrow>
      \<exists>q'. enter p q = Some q' \<and> invar q' \<and> members q' = insert p (members q)"
    and remove_ok: "invar q \<Longrightarrow> valid p \<Longrightarrow>
      \<exists>q'. remove p q = Some q' \<and> invar q' \<and> members q' = members q - {p}"
    and highest_ok: "invar q \<Longrightarrow> members q \<noteq> {} \<Longrightarrow> highest q = Some (Min (members q))"
    and empty_ok: "invar q \<Longrightarrow> is_empty q \<longleftrightarrow> members q = {}"
    and members_valid: "invar q \<Longrightarrow> p \<in> members q \<Longrightarrow> valid p"
    and members_finite: "invar q \<Longrightarrow> finite (members q)"
begin

lemma enterD:
  "invar q \<Longrightarrow> valid p \<Longrightarrow> enter p q = Some q' \<Longrightarrow>
    invar q' \<and> members q' = insert p (members q)"
  using enter_ok by fastforce

lemma removeD:
  "invar q \<Longrightarrow> valid p \<Longrightarrow> remove p q = Some q' \<Longrightarrow>
    invar q' \<and> members q' = members q - {p}"
  using remove_ok by fastforce

lemma highest_after_enter:
  assumes "invar q" and "valid p" and "enter p q = Some q'"
  shows "highest q' = Some (if is_empty q then p else min p (Min (members q)))"
proof -
  have q': "invar q'" "members q' = insert p (members q)"
    using enterD [OF assms] by auto
  then have "highest q' = Some (Min (insert p (members q)))"
    using highest_ok by fastforce
  with assms(1) members_finite [OF assms(1)] show ?thesis
    by (auto simp: empty_ok)
qed

lemma enter_remove_absent:
  assumes "invar q" "valid p" "p \<notin> members q" "enter p q = Some q'" "remove p q' = Some q''"
  shows "members q'' = members q"
  using enterD [OF assms(1,2,4)] removeD [OF _ assms(2,5)] assms(3) by auto

text \<open>Taking the highest priority until none is left.\<close>

fun drain :: "nat \<Rightarrow> 'q \<Rightarrow> nat list option" where
  "drain 0 q = (if is_empty q then Some [] else None)"
| "drain (Suc n) q =
     (if is_empty q then Some []
      else do {
        p \<leftarrow> highest q;
        q' \<leftarrow> remove p q;
        ps \<leftarrow> drain n q';
        Some (p # ps)
      })"

lemma drain_sorted:
  "invar q \<Longrightarrow> card (members q) \<le> n \<Longrightarrow>
    drain n q = Some (sorted_list_of_set (members q))"
proof (induction n arbitrary: q)
  case 0
  then show ?case using members_finite by (simp add: empty_ok)
next
  case (Suc n)
  show ?case
  proof (cases "members q = {}")
    case True
    with Suc.prems show ?thesis by (simp add: empty_ok)
  next
    case False
    let ?p = "Min (members q)"
    have fin: "finite (members q)" using Suc.prems members_finite by blast
    then have p: "?p \<in> members q" using False by simp
    then obtain q' where q': "remove ?p q = Some q'" "invar q'" "members q' = members q - {?p}"
      using remove_ok [OF Suc.prems(1)] members_valid [OF Suc.prems(1)] by blast
    have "card (members q') \<le> n" using Suc.prems(2) q'(3) p fin by simp
    then have "drain n q' = Some (sorted_list_of_set (members q'))"
      using Suc.IH q'(2) by blast
    with False q' Suc.prems(1) fin show ?thesis
      by (simp add: empty_ok highest_ok sorted_list_of_set_nonempty)
  qed
qed

end

text \<open>The two-level map provides the interface, for the table size of the kernel.\<close>

definition enter_prio :: "nat \<Rightarrow> prio_map \<Rightarrow> prio_map option" where
  "enter_prio p = tbl_enter OS_RDY_TBL_SIZE (p div 8) (2 ^ (p mod 8)) (2 ^ (p div 8))"

definition remove_prio :: "nat \<Rightarrow> prio_map \<Rightarrow> prio_map option" where
  "remove_prio p = tbl_remove OS_RDY_TBL_SIZE (p div 8) (2 ^ (p mod 8)) (2 ^ (p div 8))"

definition highest_prio :: "prio_map \<Rightarrow> nat option" where
  "highest_prio m = map_option unat (tbl_highest OS_RDY_TBL_SIZE m)"

abbreviation prio_members :: "prio_map \<Rightarrow> nat set" where
  "prio_members \<equiv> prios OS_RDY_TBL_SIZE"

abbreviation prio_map_ok :: "prio_map \<Rightarrow> bool" where
  "prio_map_ok \<equiv> tbl_wf OS_RDY_TBL_SIZE"

interpretation pmap: priority_set "\<lambda>p. p div 8 < OS_RDY_TBL_SIZE" enter_prio remove_prio
  highest_prio "\<lambda>m. fst m = 0" prio_members prio_map_ok
proof unfold_locales
  fix m p
  assume wf: "prio_map_ok m" and p: "p div 8 < OS_RDY_TBL_SIZE"
  show "\<exists>m'. enter_prio p m = Some m' \<and> prio_map_ok m' \<and> prio_members m' = insert p (prio_members m)"
    using tbl_enter_ok [OF wf p] by (simp add: enter_prio_def)
  show "\<exists>m'. remove_prio p m = Some m' \<and> prio_map_ok m' \<and> prio_members m' = prio_members m - {p}"
    using tbl_remove_ok [OF wf p] by (simp add: remove_prio_def)
next
  fix m
  assume "prio_map_ok m" and "prio_members m \<noteq> {}"
  then show "highest_prio m = Some (Min (prio_members m))"
    using tbl_highest_ok by (fastforce simp: highest_prio_def)
qed (auto simp: prios_empty_iff prios_lt)

end
