(* ===== verification/Kernel_State.thy ===== *)
theory Kernel_State
  imports Priority_Table
begin

text \<open>
  The data of the kernel: pointers, control blocks and the global variables of UCOS\_II.H and
  of the kernel files. A pointer is null, the reservation mark \<open>(OS_TCB *)1\<close>, the address of an
  entry of one of the four pools of control blocks, or an address of application memory.
  Application memory is kept in two typed stores, one of cells that hold a pointer (the queue
  storage areas and the links that the memory manager writes into free blocks) and one of
  16-bit stack entries. Reading or writing through a pointer that is not of the right kind, or
  that points outside its pool, is a fault.
\<close>

section \<open>Pointers\<close>

type_synonym addr = int

datatype ptr =
    PNull
  | POne
  | PTcb nat
  | PEvent nat
  | PQueue nat
  | PMem nat
  | PAddr addr

section \<open>Control blocks\<close>

record OS_EVENT =
  OSEventPtr :: ptr
  OSEventTbl :: "nat \<Rightarrow> INT8U"
  OSEventCnt :: INT16U
  OSEventType :: INT8U
  OSEventGrp :: INT8U

record OS_TCB =
  OSTCBStkPtr :: ptr
  OSTCBExtPtr :: ptr
  OSTCBStkBottom :: ptr
  OSTCBStkSize :: INT32U
  OSTCBOpt :: INT16U
  OSTCBId :: INT16U
  OSTCBNext :: ptr
  OSTCBPrev :: ptr
  OSTCBEventPtr :: ptr
  OSTCBMsg :: ptr
  OSTCBDly :: INT16U
  OSTCBStat :: INT8U
  OSTCBPrio :: INT8U
  OSTCBX :: INT8U
  OSTCBY :: INT8U
  OSTCBBitX :: INT8U
  OSTCBBitY :: INT8U
  OSTCBDelReq :: BOOLEAN

record OS_Q =
  OSQPtr :: ptr
  OSQStart :: addr
  OSQEnd :: addr
  OSQIn :: addr
  OSQOut :: addr
  OSQSize :: INT16U
  OSQEntries :: INT16U

record OS_MEM =
  OSMemAddr :: ptr
  OSMemFreeList :: ptr
  OSMemBlkSize :: INT32U
  OSMemNBlks :: INT32U
  OSMemNFree :: INT32U

section \<open>Global variables\<close>

text \<open>A global whose name is also a field of a control block has the suffix \<open>_g\<close>.\<close>

record os =
  OSCtxSwCtr :: INT32U
  OSEventFreeList :: ptr
  OSEventTbl_g :: "nat \<Rightarrow> OS_EVENT"
  OSIdleCtr :: INT32U
  OSCPUUsage :: INT8S
  OSIdleCtrMax :: INT32U
  OSIdleCtrRun :: INT32U
  OSStatRdy :: BOOLEAN
  OSIntNesting :: INT8U
  OSLockNesting :: INT8U
  OSPrioCur :: INT8U
  OSPrioHighRdy :: INT8U
  OSRdyGrp :: INT8U
  OSRdyTbl :: "nat \<Rightarrow> INT8U"
  OSRunning :: BOOLEAN
  OSTaskCtr :: INT8U
  OSTCBCur :: ptr
  OSTCBFreeList :: ptr
  OSTCBHighRdy :: ptr
  OSTCBList :: ptr
  OSTCBPrioTbl :: "nat \<Rightarrow> ptr"
  OSTime :: INT32U
  OSTCBTbl :: "nat \<Rightarrow> OS_TCB"
  OSIntExitY :: INT8U
  OSQFreeList :: ptr
  OSQTbl :: "nat \<Rightarrow> OS_Q"
  OSMemFreeList_g :: ptr
  OSMemTbl :: "nat \<Rightarrow> OS_MEM"
  mem_ptr :: "addr \<Rightarrow> ptr"
  mem_stk :: "addr \<Rightarrow> OS_STK"

section \<open>Dereferencing\<close>

definition tcb_at :: "os \<Rightarrow> ptr \<Rightarrow> OS_TCB option" where
  "tcb_at s p = (case p of PTcb i \<Rightarrow> idx N_TCB (OSTCBTbl s) i | _ \<Rightarrow> None)"

definition event_at :: "os \<Rightarrow> ptr \<Rightarrow> OS_EVENT option" where
  "event_at s p = (case p of PEvent e \<Rightarrow> idx OS_MAX_EVENTS (OSEventTbl_g s) e | _ \<Rightarrow> None)"

definition queue_at :: "os \<Rightarrow> ptr \<Rightarrow> OS_Q option" where
  "queue_at s p = (case p of PQueue q \<Rightarrow> idx OS_MAX_QS (OSQTbl s) q | _ \<Rightarrow> None)"

definition mcb_at :: "os \<Rightarrow> ptr \<Rightarrow> OS_MEM option" where
  "mcb_at s p = (case p of PMem k \<Rightarrow> idx OS_MAX_MEM_PART (OSMemTbl s) k | _ \<Rightarrow> None)"

definition prio_at :: "os \<Rightarrow> INT8U \<Rightarrow> ptr option" where
  "prio_at s prio = idx (OS_LOWEST_PRIO + 1) (OSTCBPrioTbl s) (unat prio)"

text \<open>Stores through a pointer; each is used after the dereference that checks it.\<close>

definition put_tcb :: "ptr \<Rightarrow> OS_TCB \<Rightarrow> os \<Rightarrow> os" where
  "put_tcb p t s = (case p of PTcb i \<Rightarrow> s\<lparr>OSTCBTbl := (OSTCBTbl s)(i := t)\<rparr> | _ \<Rightarrow> s)"

definition put_event :: "ptr \<Rightarrow> OS_EVENT \<Rightarrow> os \<Rightarrow> os" where
  "put_event p e s = (case p of PEvent i \<Rightarrow> s\<lparr>OSEventTbl_g := (OSEventTbl_g s)(i := e)\<rparr> | _ \<Rightarrow> s)"

definition put_queue :: "ptr \<Rightarrow> OS_Q \<Rightarrow> os \<Rightarrow> os" where
  "put_queue p q s = (case p of PQueue i \<Rightarrow> s\<lparr>OSQTbl := (OSQTbl s)(i := q)\<rparr> | _ \<Rightarrow> s)"

definition put_mcb :: "ptr \<Rightarrow> OS_MEM \<Rightarrow> os \<Rightarrow> os" where
  "put_mcb p m s = (case p of PMem i \<Rightarrow> s\<lparr>OSMemTbl := (OSMemTbl s)(i := m)\<rparr> | _ \<Rightarrow> s)"

definition put_prio :: "INT8U \<Rightarrow> ptr \<Rightarrow> os \<Rightarrow> os" where
  "put_prio prio p s = s\<lparr>OSTCBPrioTbl := (OSTCBPrioTbl s)(unat prio := p)\<rparr>"

text \<open>The ready list and the wait list of an event as priority maps.\<close>

definition rdy :: "os \<Rightarrow> prio_map" where
  "rdy s = (OSRdyGrp s, OSRdyTbl s)"

definition set_rdy :: "prio_map \<Rightarrow> os \<Rightarrow> os" where
  "set_rdy m s = s\<lparr>OSRdyGrp := fst m, OSRdyTbl := snd m\<rparr>"

definition waiting :: "OS_EVENT \<Rightarrow> prio_map" where
  "waiting e = (OSEventGrp e, OSEventTbl e)"

definition set_waiting :: "prio_map \<Rightarrow> OS_EVENT \<Rightarrow> OS_EVENT" where
  "set_waiting m e = e\<lparr>OSEventGrp := fst m, OSEventTbl := snd m\<rparr>"

section \<open>Facts on the accessors\<close>

lemma tcb_at_Some: "tcb_at s p = Some t \<longleftrightarrow> (\<exists>i. p = PTcb i \<and> i < N_TCB \<and> OSTCBTbl s i = t)"
  by (cases p) (auto simp: tcb_at_def)

lemma event_at_Some:
  "event_at s p = Some e \<longleftrightarrow> (\<exists>i. p = PEvent i \<and> i < OS_MAX_EVENTS \<and> OSEventTbl_g s i = e)"
  by (cases p) (auto simp: event_at_def)

lemma queue_at_Some:
  "queue_at s p = Some q \<longleftrightarrow> (\<exists>i. p = PQueue i \<and> i < OS_MAX_QS \<and> OSQTbl s i = q)"
  by (cases p) (auto simp: queue_at_def)

lemma mcb_at_Some:
  "mcb_at s p = Some m \<longleftrightarrow> (\<exists>i. p = PMem i \<and> i < OS_MAX_MEM_PART \<and> OSMemTbl s i = m)"
  by (cases p) (auto simp: mcb_at_def)

lemma prio_at_Some:
  "prio_at s w = Some p \<longleftrightarrow> unat w \<le> OS_LOWEST_PRIO \<and> OSTCBPrioTbl s (unat w) = p"
  by (auto simp: prio_at_def)

lemmas at_Some = tcb_at_Some event_at_Some queue_at_Some mcb_at_Some prio_at_Some

lemma tcb_at_PTcb [simp]: "i < N_TCB \<Longrightarrow> tcb_at s (PTcb i) = Some (OSTCBTbl s i)"
  by (simp add: tcb_at_def)

lemma event_at_PEvent [simp]:
  "i < OS_MAX_EVENTS \<Longrightarrow> event_at s (PEvent i) = Some (OSEventTbl_g s i)"
  by (simp add: event_at_def)

lemma queue_at_PQueue [simp]: "i < OS_MAX_QS \<Longrightarrow> queue_at s (PQueue i) = Some (OSQTbl s i)"
  by (simp add: queue_at_def)

lemma mcb_at_PMem [simp]: "i < OS_MAX_MEM_PART \<Longrightarrow> mcb_at s (PMem i) = Some (OSMemTbl s i)"
  by (simp add: mcb_at_def)

lemma put_at [simp]:
  "put_tcb (PTcb i) t s = s\<lparr>OSTCBTbl := (OSTCBTbl s)(i := t)\<rparr>"
  "put_event (PEvent j) e s = s\<lparr>OSEventTbl_g := (OSEventTbl_g s)(j := e)\<rparr>"
  "put_queue (PQueue k) q s = s\<lparr>OSQTbl := (OSQTbl s)(k := q)\<rparr>"
  "put_mcb (PMem l) m s = s\<lparr>OSMemTbl := (OSMemTbl s)(l := m)\<rparr>"
  by (simp_all add: put_tcb_def put_event_def put_queue_def put_mcb_def)

lemma rdy_set_rdy [simp]: "rdy (set_rdy m s) = m"
  by (simp add: rdy_def set_rdy_def)

lemma waiting_set_waiting [simp]: "waiting (set_waiting m e) = m"
  by (simp add: waiting_def set_waiting_def)

lemma set_waiting_sel [simp]:
  "OSEventPtr (set_waiting m e) = OSEventPtr e"
  "OSEventCnt (set_waiting m e) = OSEventCnt e"
  "OSEventType (set_waiting m e) = OSEventType e"
  by (simp_all add: set_waiting_def)

section \<open>Linked lists\<close>

text \<open>The nodes that a link leads to, in order, up to the null pointer; \<open>mk\<close> is the address of a
  node and \<open>nxt\<close> its link.\<close>

fun chain :: "('a \<Rightarrow> ptr) \<Rightarrow> ('a \<Rightarrow> ptr) \<Rightarrow> ptr \<Rightarrow> 'a list \<Rightarrow> bool" where
  "chain mk nxt p [] \<longleftrightarrow> p = PNull"
| "chain mk nxt p (a # as) \<longleftrightarrow> p = mk a \<and> chain mk nxt (nxt a) as"

lemma chain_cong: "(\<And>a. a \<in> set as \<Longrightarrow> nxt a = nxt' a) \<Longrightarrow> chain mk nxt p as = chain mk nxt' p as"
  by (induction as arbitrary: p) auto

lemma chain_update [simp]: "b \<notin> set as \<Longrightarrow> chain mk (nxt(b := q)) p as = chain mk nxt p as"
  by (rule chain_cong) auto

lemma chain_PNull: "(\<And>a. mk a \<noteq> PNull) \<Longrightarrow> chain mk nxt PNull as \<longleftrightarrow> as = []"
  by (cases as) (auto dest: sym)

lemma chain_unique:
  assumes "inj mk" and "\<And>a. mk a \<noteq> PNull" and "chain mk nxt p as" and "chain mk nxt p bs"
  shows "as = bs"
  using assms(3,4)
proof (induction as arbitrary: p bs)
  case Nil
  then show ?case using assms(2) by (cases bs) (auto dest: sym)
next
  case (Cons a as)
  then show ?case using assms(1,2) by (cases bs) (auto dest: injD)
qed

end
