(* ===== verification/Kernel_Core.thy ===== *)
theory Kernel_Core
  imports Kernel_State
begin

text \<open>
  OS\_CORE.C: the event primitives shared by semaphores, mailboxes and queues, the context
  switch, the scheduler, interrupt entry and exit, scheduler locking, the start of
  multitasking, the initialisation of a task control block and the system tick. The part of
  the context switch that is written in assembly (OS\_CPU\_A.ASM) is modelled by its effect on
  the kernel's variables; saving and restoring the processor registers is outside the model.

  The code between \<open>OS_ENTER_CRITICAL\<close> and \<open>OS_EXIT_CRITICAL\<close> runs with interrupts
  disabled, so it is one step.
\<close>

section \<open>Entering and removing a task\<close>

text \<open>The two statements by which the code puts a task in, or takes it out of, the ready list or
  the wait list of an event, with the position and masks kept in the task's control block.\<close>

definition rdy_enter :: "OS_TCB \<Rightarrow> os \<Rightarrow> os option" where
  "rdy_enter t s = do {
     m \<leftarrow> tbl_enter OS_RDY_TBL_SIZE (unat (OSTCBY t)) (OSTCBBitX t) (OSTCBBitY t) (rdy s);
     Some (set_rdy m s)
   }"

definition rdy_remove :: "OS_TCB \<Rightarrow> os \<Rightarrow> os option" where
  "rdy_remove t s = do {
     m \<leftarrow> tbl_remove OS_RDY_TBL_SIZE (unat (OSTCBY t)) (OSTCBBitX t) (OSTCBBitY t) (rdy s);
     Some (set_rdy m s)
   }"

definition wait_enter :: "OS_TCB \<Rightarrow> ptr \<Rightarrow> os \<Rightarrow> os option" where
  "wait_enter t pevent s = do {
     e \<leftarrow> event_at s pevent;
     m \<leftarrow> tbl_enter OS_EVENT_TBL_SIZE (unat (OSTCBY t)) (OSTCBBitX t) (OSTCBBitY t) (waiting e);
     Some (put_event pevent (set_waiting m e) s)
   }"

definition wait_remove :: "OS_TCB \<Rightarrow> ptr \<Rightarrow> os \<Rightarrow> os option" where
  "wait_remove t pevent s = do {
     e \<leftarrow> event_at s pevent;
     m \<leftarrow> tbl_remove OS_EVENT_TBL_SIZE (unat (OSTCBY t)) (OSTCBBitX t) (OSTCBBitY t) (waiting e);
     Some (put_event pevent (set_waiting m e) s)
   }"

section \<open>Event primitives\<close>

definition OSEventTaskRdy :: "ptr \<Rightarrow> ptr \<Rightarrow> INT8U \<Rightarrow> os \<Rightarrow> os option" where
  "OSEventTaskRdy pevent msg msk s = do {
     e \<leftarrow> event_at s pevent;
     let y = unmap_tbl (OSEventGrp e);
     bity \<leftarrow> map_tbl (unat y);
     b \<leftarrow> idx OS_EVENT_TBL_SIZE (OSEventTbl e) (unat y);
     let x = unmap_tbl b;
     bitx \<leftarrow> map_tbl (unat x);
     let prio = push_bit 3 y + x;
     m \<leftarrow> tbl_remove OS_EVENT_TBL_SIZE (unat y) bitx bity (waiting e);
     let s1 = put_event pevent (set_waiting m e) s;
     ptcb \<leftarrow> prio_at s1 prio;
     t \<leftarrow> tcb_at s1 ptcb;
     let t' = t\<lparr>OSTCBDly := 0, OSTCBEventPtr := PNull, OSTCBMsg := msg,
               OSTCBStat := OSTCBStat t AND NOT msk\<rparr>;
     let s2 = put_tcb ptcb t' s1;
     if OSTCBStat t' = OS_STAT_RDY
     then do {
       r \<leftarrow> tbl_enter OS_RDY_TBL_SIZE (unat y) bitx bity (rdy s2);
       Some (set_rdy r s2)
     }
     else Some s2
   }"

definition OSEventTaskWait :: "ptr \<Rightarrow> os \<Rightarrow> os option" where
  "OSEventTaskWait pevent s = do {
     t \<leftarrow> tcb_at s (OSTCBCur s);
     let s1 = put_tcb (OSTCBCur s) (t\<lparr>OSTCBEventPtr := pevent\<rparr>) s;
     s2 \<leftarrow> rdy_remove t s1;
     wait_enter t pevent s2
   }"

definition OSEventTO :: "ptr \<Rightarrow> os \<Rightarrow> os option" where
  "OSEventTO pevent s = do {
     t \<leftarrow> tcb_at s (OSTCBCur s);
     s1 \<leftarrow> wait_remove t pevent s;
     Some (put_tcb (OSTCBCur s) (t\<lparr>OSTCBStat := OS_STAT_RDY, OSTCBEventPtr := PNull\<rparr>) s1)
   }"

definition OSEventWaitListInit :: "ptr \<Rightarrow> os \<Rightarrow> os option" where
  "OSEventWaitListInit pevent s = do {
     e \<leftarrow> event_at s pevent;
     Some (put_event pevent
       (e\<lparr>OSEventGrp := 0,
          OSEventTbl := (\<lambda>i. if i < OS_EVENT_TBL_SIZE then 0 else OSEventTbl e i)\<rparr>) s)
   }"

section \<open>Context switch and scheduler\<close>

text \<open>\<open>OS_TASK_SW\<close> and \<open>OSIntCtxSw\<close> save the registers of the current task, call the (empty)
  switch hook, and make the task at \<open>OSTCBHighRdy\<close> current. \<open>OSTaskSwHook\<close> is the hook.\<close>

definition OSTaskSwHook :: "os \<Rightarrow> os" where
  "OSTaskSwHook s = s"

definition OSCtxSw :: "os \<Rightarrow> os" where
  "OSCtxSw s = (let s = OSTaskSwHook s
                in s\<lparr>OSTCBCur := OSTCBHighRdy s, OSPrioCur := OSPrioHighRdy s\<rparr>)"

definition OSIntCtxSw :: "os \<Rightarrow> os" where
  "OSIntCtxSw s = (let s = OSTaskSwHook s
                   in s\<lparr>OSTCBCur := OSTCBHighRdy s, OSPrioCur := OSPrioHighRdy s\<rparr>)"

definition OSStartHighRdy :: "os \<Rightarrow> os" where
  "OSStartHighRdy s = (let s = OSTaskSwHook s in s\<lparr>OSRunning := OSRunning s + 1\<rparr>)"

definition OSSched :: "os \<Rightarrow> os option" where
  "OSSched s =
     (if OSLockNesting s OR OSIntNesting s = 0
      then do {
        high \<leftarrow> tbl_highest OS_RDY_TBL_SIZE (rdy s);
        let s1 = s\<lparr>OSPrioHighRdy := high\<rparr>;
        if high \<noteq> OSPrioCur s1
        then do {
          ptcb \<leftarrow> prio_at s1 high;
          Some (OSCtxSw (s1\<lparr>OSTCBHighRdy := ptcb, OSCtxSwCtr := OSCtxSwCtr s1 + 1\<rparr>))
        }
        else Some s1
      }
      else Some s)"

definition OSIntEnter :: "os \<Rightarrow> os" where
  "OSIntEnter s = s\<lparr>OSIntNesting := OSIntNesting s + 1\<rparr>"

definition OSIntExit :: "os \<Rightarrow> os option" where
  "OSIntExit s =
     (let s1 = s\<lparr>OSIntNesting := OSIntNesting s - 1\<rparr>
      in if OSIntNesting s1 OR OSLockNesting s1 = 0
         then do {
           let s2 = s1\<lparr>OSIntExitY := unmap_tbl (OSRdyGrp s1)\<rparr>;
           b \<leftarrow> idx OS_RDY_TBL_SIZE (OSRdyTbl s2) (unat (OSIntExitY s2));
           let s3 = s2\<lparr>OSPrioHighRdy := push_bit 3 (OSIntExitY s2) + unmap_tbl b\<rparr>;
           if OSPrioHighRdy s3 \<noteq> OSPrioCur s3
           then do {
             ptcb \<leftarrow> prio_at s3 (OSPrioHighRdy s3);
             Some (OSIntCtxSw (s3\<lparr>OSTCBHighRdy := ptcb, OSCtxSwCtr := OSCtxSwCtr s3 + 1\<rparr>))
           }
           else Some s3
         }
         else Some s1)"

definition OSSchedLock :: "os \<Rightarrow> os" where
  "OSSchedLock s =
     (if OSRunning s = 1 then s\<lparr>OSLockNesting := OSLockNesting s + 1\<rparr> else s)"

definition OSSchedUnlock :: "os \<Rightarrow> os option" where
  "OSSchedUnlock s =
     (if OSRunning s = 1
      then if OSLockNesting s > 0
           then let s1 = s\<lparr>OSLockNesting := OSLockNesting s - 1\<rparr>
                in if OSLockNesting s1 OR OSIntNesting s1 = 0 then OSSched s1 else Some s1
           else Some s
      else Some s)"

definition OSStart :: "os \<Rightarrow> os option" where
  "OSStart s =
     (if OSRunning s = 0
      then do {
        high \<leftarrow> tbl_highest OS_RDY_TBL_SIZE (rdy s);
        ptcb \<leftarrow> prio_at s high;
        Some (OSStartHighRdy
          (s\<lparr>OSPrioHighRdy := high, OSPrioCur := high,
             OSTCBHighRdy := ptcb, OSTCBCur := ptcb\<rparr>))
      }
      else Some s)"

section \<open>Initialisation of a task control block\<close>

text \<open>The size of the stack is passed as a 16-bit number and stored in 32 bits.\<close>

definition OSTCBInit ::
    "INT8U \<Rightarrow> ptr \<Rightarrow> ptr \<Rightarrow> INT16U \<Rightarrow> INT16U \<Rightarrow> ptr \<Rightarrow> INT16U \<Rightarrow> os \<Rightarrow> (INT8U \<times> os) option" where
  "OSTCBInit prio ptos pbos tid stk_size pext opt s =
     (let ptcb = OSTCBFreeList s
      in if ptcb \<noteq> PNull
         then do {
           t0 \<leftarrow> tcb_at s ptcb;
           let s1 = s\<lparr>OSTCBFreeList := OSTCBNext t0\<rparr>;
           let y = drop_bit 3 prio;
           let x = prio AND 0x07;
           bity \<leftarrow> map_tbl (unat y);
           bitx \<leftarrow> map_tbl (unat x);
           let t1 = t0\<lparr>OSTCBStkPtr := ptos, OSTCBPrio := prio, OSTCBStat := OS_STAT_RDY,
                      OSTCBDly := 0, OSTCBExtPtr := pext, OSTCBStkSize := ucast stk_size,
                      OSTCBStkBottom := pbos, OSTCBOpt := opt, OSTCBId := tid,
                      OSTCBDelReq := OS_NO_ERR, OSTCBY := y, OSTCBBitY := bity,
                      OSTCBX := x, OSTCBBitX := bitx, OSTCBEventPtr := PNull,
                      OSTCBMsg := PNull\<rparr>;
           _ \<leftarrow> prio_at s1 prio;
           let s2 = put_prio prio ptcb s1;
           let t2 = t1\<lparr>OSTCBNext := OSTCBList s2, OSTCBPrev := PNull\<rparr>;
           let s3 = put_tcb ptcb t2 s2;
           s4 \<leftarrow> (if OSTCBList s3 \<noteq> PNull
                 then do {
                   h \<leftarrow> tcb_at s3 (OSTCBList s3);
                   Some (put_tcb (OSTCBList s3) (h\<lparr>OSTCBPrev := ptcb\<rparr>) s3)
                 }
                 else Some s3);
           let s5 = s4\<lparr>OSTCBList := ptcb\<rparr>;
           t5 \<leftarrow> tcb_at s5 ptcb;
           s6 \<leftarrow> rdy_enter t5 s5;
           Some (OS_NO_ERR, s6)
         }
         else Some (OS_NO_MORE_TCB, s))"

section \<open>The system tick\<close>

definition OSTimeTickHook :: "os \<Rightarrow> os" where
  "OSTimeTickHook s = s"

text \<open>The body of the loop, for the task at \<open>ptcb\<close>.\<close>

definition tick_task :: "ptr \<Rightarrow> os \<Rightarrow> os option" where
  "tick_task ptcb s = do {
     t \<leftarrow> tcb_at s ptcb;
     if OSTCBDly t \<noteq> 0
     then do {
       let t1 = t\<lparr>OSTCBDly := OSTCBDly t - 1\<rparr>;
       let s1 = put_tcb ptcb t1 s;
       if OSTCBDly t1 = 0
       then if OSTCBStat t1 AND OS_STAT_SUSPEND = 0
            then rdy_enter t1 s1
            else Some (put_tcb ptcb (t1\<lparr>OSTCBDly := 1\<rparr>) s1)
       else Some s1
     }
     else Some s
   }"

text \<open>The walk along the task list. A list whose nodes are all different has at most \<open>N_TCB\<close>
  nodes and the walk changes no link, so a walk of more than \<open>N_TCB\<close> steps has met a node
  twice and never ends: running out of fuel is the value \<open>None\<close>.\<close>

fun tick_walk :: "nat \<Rightarrow> ptr \<Rightarrow> os \<Rightarrow> os option" where
  "tick_walk 0 ptcb s = None"
| "tick_walk (Suc n) ptcb s = do {
     t \<leftarrow> tcb_at s ptcb;
     if unat (OSTCBPrio t) \<noteq> OS_IDLE_PRIO
     then do {
       s1 \<leftarrow> tick_task ptcb s;
       t1 \<leftarrow> tcb_at s1 ptcb;
       tick_walk n (OSTCBNext t1) s1
     }
     else Some s
   }"

definition OSTimeTick :: "os \<Rightarrow> os option" where
  "OSTimeTick s = do {
     let s0 = OSTimeTickHook s;
     s1 \<leftarrow> tick_walk N_TCB (OSTCBList s0) s0;
     Some (s1\<lparr>OSTime := OSTime s1 + 1\<rparr>)
   }"

text \<open>The tick interrupt handler increments the nesting counter itself; its dealings with the
  interrupt controller and the DOS timer are outside the model.\<close>

definition OSTickISR :: "os \<Rightarrow> os option" where
  "OSTickISR s = do {
     s1 \<leftarrow> OSTimeTick (s\<lparr>OSIntNesting := OSIntNesting s + 1\<rparr>);
     OSIntExit s1
   }"

definition OSVersion :: INT16U where
  "OSVersion = OS_VERSION"

end
