(* ===== verification/Kernel_Inv.thy ===== *)
theory Kernel_Inv
  imports Kernel_Core
begin

text \<open>
  The invariant of the kernel's scheduling data. It relates four variables: the ready list, the
  table of tasks by priority, the task control blocks and the event control blocks. Every task
  in the priority table has the right position and masks in its control block; a ready task is
  neither delayed nor suspended, and a task that is not ready is delayed, suspended or waiting
  for an event (no task is lost); the wait list of an event and the event pointers of the tasks
  say the same thing, and the status byte has the bit of the type of the event waited for; the
  idle task is always ready. Most operations change one task, so one lemma, \<open>kinv_update\<close>,
  carries their proofs.
\<close>

section \<open>The invariant\<close>

definition ev_bit :: "INT8U \<Rightarrow> INT8U" where
  "ev_bit ty = (if ty = OS_EVENT_TYPE_SEM then OS_STAT_SEM
                else if ty = OS_EVENT_TYPE_MBOX then OS_STAT_MBOX
                else if ty = OS_EVENT_TYPE_Q then OS_STAT_Q
                else OS_STAT_RDY)"

definition prio_fields :: "OS_TCB \<Rightarrow> nat \<Rightarrow> bool" where
  "prio_fields t p \<longleftrightarrow> unat (OSTCBPrio t) = p \<and> unat (OSTCBY t) = p div 8 \<and> unat (OSTCBX t) = p mod 8
     \<and> OSTCBBitX t = 2 ^ (p mod 8) \<and> OSTCBBitY t = 2 ^ (p div 8)"

definition suspended :: "OS_TCB \<Rightarrow> bool" where
  "suspended t \<longleftrightarrow> OSTCBStat t AND OS_STAT_SUSPEND \<noteq> 0"

abbreviation waiters_in :: "(nat \<Rightarrow> OS_EVENT) \<Rightarrow> nat \<Rightarrow> nat set" where
  "waiters_in E e \<equiv> prio_members (waiting (E e))"

text \<open>The status bit that a task must have for what its event pointer says.\<close>

definition link_bit :: "(nat \<Rightarrow> OS_EVENT) \<Rightarrow> OS_TCB \<Rightarrow> INT8U" where
  "link_bit E t = (case OSTCBEventPtr t of PEvent e \<Rightarrow> ev_bit (OSEventType (E e)) | _ \<Rightarrow> OS_STAT_RDY)"

definition task_ok :: "prio_map \<Rightarrow> (nat \<Rightarrow> OS_EVENT) \<Rightarrow> nat \<Rightarrow> OS_TCB \<Rightarrow> bool" where
  "task_ok m E p t \<longleftrightarrow>
     prio_fields t p \<and>
     (p \<in> prio_members m \<longrightarrow> OSTCBDly t = 0 \<and> \<not> suspended t) \<and>
     (p \<notin> prio_members m \<longrightarrow> OSTCBDly t \<noteq> 0 \<or> suspended t \<or> OSTCBEventPtr t \<noteq> PNull) \<and>
     OSTCBStat t \<in> {link_bit E t, link_bit E t OR OS_STAT_SUSPEND} \<and>
     (OSTCBEventPtr t \<noteq> PNull \<longrightarrow>
        (\<exists>e < OS_MAX_EVENTS. OSTCBEventPtr t = PEvent e \<and> p \<in> waiters_in E e
           \<and> link_bit E t \<noteq> OS_STAT_RDY))"

definition kinv_of ::
    "prio_map \<Rightarrow> (nat \<Rightarrow> ptr) \<Rightarrow> (nat \<Rightarrow> OS_TCB) \<Rightarrow> (nat \<Rightarrow> OS_EVENT) \<Rightarrow> bool" where
  "kinv_of m P T E \<longleftrightarrow>
     prio_map_ok m \<and> OS_IDLE_PRIO \<in> prio_members m \<and>
     (\<forall>p \<in> prio_members m. p \<le> OS_LOWEST_PRIO \<and> P p \<noteq> PNull) \<and>
     (\<forall>e < OS_MAX_EVENTS. prio_map_ok (waiting (E e)) \<and>
        (\<forall>p \<in> waiters_in E e. p \<le> OS_LOWEST_PRIO \<and> (\<exists>i. P p = PTcb i \<and> OSTCBEventPtr (T i) = PEvent e))) \<and>
     (\<forall>p \<le> OS_LOWEST_PRIO. P p \<noteq> PNull \<longrightarrow> (\<exists>i < N_TCB. P p = PTcb i \<and> task_ok m E p (T i)))"

definition kinv :: "os \<Rightarrow> bool" where
  "kinv s \<longleftrightarrow> kinv_of (rdy s) (OSTCBPrioTbl s) (OSTCBTbl s) (OSEventTbl_g s)"

abbreviation ready :: "os \<Rightarrow> nat set" where
  "ready s \<equiv> prio_members (rdy s)"

abbreviation waiters :: "os \<Rightarrow> nat \<Rightarrow> nat set" where
  "waiters s \<equiv> waiters_in (OSEventTbl_g s)"

definition live :: "os \<Rightarrow> nat \<Rightarrow> nat \<Rightarrow> bool" where
  "live s p i \<longleftrightarrow> p \<le> OS_LOWEST_PRIO \<and> i < N_TCB \<and> OSTCBPrioTbl s p = PTcb i"

section \<open>Frame\<close>

lemma set_rdy_frame [simp]:
  "OSTCBPrioTbl (set_rdy m s) = OSTCBPrioTbl s" "OSTCBTbl (set_rdy m s) = OSTCBTbl s"
  "OSEventTbl_g (set_rdy m s) = OSEventTbl_g s" "OSTCBCur (set_rdy m s) = OSTCBCur s"
  "OSTCBHighRdy (set_rdy m s) = OSTCBHighRdy s"
  "OSPrioCur (set_rdy m s) = OSPrioCur s" "OSPrioHighRdy (set_rdy m s) = OSPrioHighRdy s"
  "OSLockNesting (set_rdy m s) = OSLockNesting s" "OSIntNesting (set_rdy m s) = OSIntNesting s"
  "OSRunning (set_rdy m s) = OSRunning s" "OSTCBList (set_rdy m s) = OSTCBList s"
  "OSTCBFreeList (set_rdy m s) = OSTCBFreeList s" "OSEventFreeList (set_rdy m s) = OSEventFreeList s"
  "OSQTbl (set_rdy m s) = OSQTbl s" "OSQFreeList (set_rdy m s) = OSQFreeList s"
  "OSMemTbl (set_rdy m s) = OSMemTbl s" "OSMemFreeList_g (set_rdy m s) = OSMemFreeList_g s"
  "mem_ptr (set_rdy m s) = mem_ptr s" "mem_stk (set_rdy m s) = mem_stk s"
  "OSTaskCtr (set_rdy m s) = OSTaskCtr s" "OSTime (set_rdy m s) = OSTime s"
  by (simp_all add: set_rdy_def)

lemma rdy_frame [simp]:
  "rdy (s\<lparr>OSTCBTbl := a\<rparr>) = rdy s" "rdy (s\<lparr>OSEventTbl_g := b\<rparr>) = rdy s"
  "rdy (s\<lparr>OSTCBPrioTbl := c\<rparr>) = rdy s" "rdy (s\<lparr>OSTCBCur := d\<rparr>) = rdy s"
  "rdy (s\<lparr>OSTCBHighRdy := d\<rparr>) = rdy s" "rdy (s\<lparr>OSPrioCur := f\<rparr>) = rdy s"
  "rdy (s\<lparr>OSPrioHighRdy := f\<rparr>) = rdy s" "rdy (s\<lparr>OSCtxSwCtr := g\<rparr>) = rdy s"
  "rdy (s\<lparr>OSLockNesting := f\<rparr>) = rdy s" "rdy (s\<lparr>OSIntNesting := f\<rparr>) = rdy s"
  "rdy (s\<lparr>OSRunning := f\<rparr>) = rdy s" "rdy (s\<lparr>OSTCBList := d\<rparr>) = rdy s"
  "rdy (s\<lparr>OSTCBFreeList := d\<rparr>) = rdy s" "rdy (s\<lparr>OSEventFreeList := d\<rparr>) = rdy s"
  "rdy (s\<lparr>OSQTbl := h\<rparr>) = rdy s" "rdy (s\<lparr>OSQFreeList := d\<rparr>) = rdy s"
  "rdy (s\<lparr>OSMemTbl := k\<rparr>) = rdy s" "rdy (s\<lparr>OSMemFreeList_g := d\<rparr>) = rdy s"
  "rdy (s\<lparr>mem_ptr := l\<rparr>) = rdy s" "rdy (s\<lparr>mem_stk := n\<rparr>) = rdy s"
  "rdy (s\<lparr>OSTaskCtr := f\<rparr>) = rdy s" "rdy (s\<lparr>OSTime := g\<rparr>) = rdy s"
  "rdy (s\<lparr>OSIntExitY := f\<rparr>) = rdy s" "rdy (s\<lparr>OSIdleCtr := g\<rparr>) = rdy s"
  "rdy (s\<lparr>OSIdleCtrMax := g\<rparr>) = rdy s" "rdy (s\<lparr>OSIdleCtrRun := g\<rparr>) = rdy s"
  "rdy (s\<lparr>OSStatRdy := f\<rparr>) = rdy s" "rdy (s\<lparr>OSCPUUsage := f\<rparr>) = rdy s"
  by (simp_all add: rdy_def)

lemma kinv_frame:
  "OSRdyGrp s' = OSRdyGrp s \<Longrightarrow> OSRdyTbl s' = OSRdyTbl s \<Longrightarrow> OSTCBPrioTbl s' = OSTCBPrioTbl s \<Longrightarrow>
   OSTCBTbl s' = OSTCBTbl s \<Longrightarrow> OSEventTbl_g s' = OSEventTbl_g s \<Longrightarrow> kinv s' = kinv s"
  by (simp add: kinv_def rdy_def)

lemma prio_fields_upd [simp]:
  "prio_fields (t\<lparr>OSTCBDly := a\<rparr>) = prio_fields t" "prio_fields (t\<lparr>OSTCBStat := b\<rparr>) = prio_fields t"
  "prio_fields (t\<lparr>OSTCBEventPtr := c\<rparr>) = prio_fields t" "prio_fields (t\<lparr>OSTCBMsg := c\<rparr>) = prio_fields t"
  "prio_fields (t\<lparr>OSTCBNext := c\<rparr>) = prio_fields t" "prio_fields (t\<lparr>OSTCBPrev := c\<rparr>) = prio_fields t"
  "prio_fields (t\<lparr>OSTCBDelReq := b\<rparr>) = prio_fields t"
  by (simp_all add: prio_fields_def fun_eq_iff)

lemma suspended_upd [simp]:
  "suspended (t\<lparr>OSTCBDly := a\<rparr>) = suspended t" "suspended (t\<lparr>OSTCBEventPtr := c\<rparr>) = suspended t"
  "suspended (t\<lparr>OSTCBMsg := c\<rparr>) = suspended t" "suspended (t\<lparr>OSTCBNext := c\<rparr>) = suspended t"
  "suspended (t\<lparr>OSTCBPrev := c\<rparr>) = suspended t" "suspended (t\<lparr>OSTCBDelReq := b\<rparr>) = suspended t"
  by (simp_all add: suspended_def)

lemma link_bit_upd [simp]:
  "link_bit E (t\<lparr>OSTCBDly := a\<rparr>) = link_bit E t" "link_bit E (t\<lparr>OSTCBStat := b\<rparr>) = link_bit E t"
  "link_bit E (t\<lparr>OSTCBMsg := c\<rparr>) = link_bit E t" "link_bit E (t\<lparr>OSTCBNext := c\<rparr>) = link_bit E t"
  "link_bit E (t\<lparr>OSTCBPrev := c\<rparr>) = link_bit E t" "link_bit E (t\<lparr>OSTCBDelReq := b\<rparr>) = link_bit E t"
  by (simp_all add: link_bit_def)

section \<open>What the invariant gives\<close>

lemma ev_bit_cases: "ev_bit ty \<in> {OS_STAT_RDY, OS_STAT_SEM, OS_STAT_MBOX, OS_STAT_Q}"
  by (simp add: ev_bit_def)

lemma link_bit_cases: "link_bit E t \<in> {OS_STAT_RDY, OS_STAT_SEM, OS_STAT_MBOX, OS_STAT_Q}"
  using ev_bit_cases by (auto simp: link_bit_def split: ptr.splits)

text \<open>The status byte is zero exactly for a task that neither waits nor is suspended.\<close>

lemma stat_bits:
  assumes "b \<in> {OS_STAT_RDY, OS_STAT_SEM, OS_STAT_MBOX, OS_STAT_Q}"
  shows "b AND OS_STAT_SUSPEND = 0" "(b OR OS_STAT_SUSPEND) AND OS_STAT_SUSPEND \<noteq> 0"
    "(b OR OS_STAT_SUSPEND) AND NOT OS_STAT_SUSPEND = b" "b AND NOT OS_STAT_SUSPEND = b"
    "b AND NOT b = 0" "(b OR OS_STAT_SUSPEND) AND NOT b = OS_STAT_SUSPEND"
    "b OR OS_STAT_SUSPEND \<noteq> OS_STAT_RDY"
    "(b OR OS_STAT_SUSPEND) OR OS_STAT_SUSPEND = b OR OS_STAT_SUSPEND"
  using assms by (auto simp: stat_defs)

text \<open>Whether a task is suspended can be read off a status byte of the right form.\<close>

lemma suspended_iff:
  assumes b: "b \<in> {OS_STAT_RDY, OS_STAT_SEM, OS_STAT_MBOX, OS_STAT_Q}"
    and t: "OSTCBStat t \<in> {b, b OR OS_STAT_SUSPEND}"
  shows "OSTCBStat t = (if suspended t then b OR OS_STAT_SUSPEND else b)"
proof -
  consider "OSTCBStat t = b" | "OSTCBStat t = b OR OS_STAT_SUSPEND" using t by blast
  then show ?thesis
  proof cases
    case 1
    with stat_bits(1) [OF b] have "\<not> suspended t" by (simp only: suspended_def not_not)
    with 1 show ?thesis by simp
  next
    case 2
    with stat_bits(2) [OF b] have "suspended t" by (simp only: suspended_def not_False_eq_True)
    with 2 show ?thesis by simp
  qed
qed

lemma kinvD_rdy: "kinv s \<Longrightarrow> prio_map_ok (rdy s)"
  by (simp add: kinv_def kinv_of_def)

lemma kinvD_wait: "kinv s \<Longrightarrow> e < OS_MAX_EVENTS \<Longrightarrow> prio_map_ok (waiting (OSEventTbl_g s e))"
  by (simp add: kinv_def kinv_of_def)

lemma kinvD_idle: "kinv s \<Longrightarrow> OS_IDLE_PRIO \<in> ready s"
  by (simp add: kinv_def kinv_of_def)

lemma kinvD_live:
  assumes "kinv s" and "p \<le> OS_LOWEST_PRIO" and "OSTCBPrioTbl s p \<noteq> PNull"
  obtains i where "live s p i" and "task_ok (rdy s) (OSEventTbl_g s) p (OSTCBTbl s i)"
  using assms by (auto simp: kinv_def kinv_of_def live_def)

lemma kinvD_task:
  "kinv s \<Longrightarrow> live s p i \<Longrightarrow> task_ok (rdy s) (OSEventTbl_g s) p (OSTCBTbl s i)"
  by (auto simp: kinv_def kinv_of_def live_def)

lemma kinvD_ready:
  assumes "kinv s" and "p \<in> ready s"
  obtains i where "live s p i"
proof -
  have "p \<le> OS_LOWEST_PRIO" "OSTCBPrioTbl s p \<noteq> PNull"
    using assms by (auto simp: kinv_def kinv_of_def)
  with assms(1) that show thesis by (blast elim: kinvD_live)
qed

lemma kinvD_waiters:
  assumes "kinv s" and "e < OS_MAX_EVENTS" and "p \<in> waiters s e"
  obtains i where "live s p i" and "OSTCBEventPtr (OSTCBTbl s i) = PEvent e"
proof -
  obtain i where "p \<le> OS_LOWEST_PRIO" "OSTCBPrioTbl s p = PTcb i" "OSTCBEventPtr (OSTCBTbl s i) = PEvent e"
    using assms by (force simp: kinv_def kinv_of_def)
  with that kinvD_live [OF assms(1)] show thesis by (force simp: live_def)
qed

lemma live_unique: "live s p i \<Longrightarrow> live s p j \<Longrightarrow> i = j"
  by (simp add: live_def)

lemma task_ok_prio: "task_ok m E p t \<Longrightarrow> prio_fields t p"
  by (simp add: task_ok_def)

lemma live_prio: "kinv s \<Longrightarrow> live s p i \<Longrightarrow> prio_fields (OSTCBTbl s i) p"
  using kinvD_task task_ok_prio by blast

lemma prio_fields_unique: "prio_fields t p \<Longrightarrow> prio_fields t q \<Longrightarrow> p = q"
  by (simp add: prio_fields_def)

lemma live_inj: "kinv s \<Longrightarrow> live s p i \<Longrightarrow> live s q i \<Longrightarrow> p = q"
  using live_prio prio_fields_unique by blast

lemma kinv_of_task:
  "kinv_of m P T E \<Longrightarrow> q \<le> OS_LOWEST_PRIO \<Longrightarrow> P q \<noteq> PNull \<Longrightarrow>
    \<exists>j < N_TCB. P q = PTcb j \<and> task_ok m E q (T j)"
  unfolding kinv_of_def by blast

lemma kinv_of_ready:
  "kinv_of m P T E \<Longrightarrow> q \<in> prio_members m \<Longrightarrow> q \<le> OS_LOWEST_PRIO \<and> P q \<noteq> PNull"
  unfolding kinv_of_def by blast

lemma kinv_of_wait:
  "kinv_of m P T E \<Longrightarrow> e < OS_MAX_EVENTS \<Longrightarrow> q \<in> waiters_in E e \<Longrightarrow>
    q \<le> OS_LOWEST_PRIO \<and> (\<exists>i. P q = PTcb i \<and> OSTCBEventPtr (T i) = PEvent e)"
  unfolding kinv_of_def by blast

lemma kinv_of_idle: "kinv_of m P T E \<Longrightarrow> OS_IDLE_PRIO \<in> prio_members m"
  unfolding kinv_of_def by blast

section \<open>One task changes\<close>

text \<open>The sufficient condition that every operation on one task is checked against: the ready
  list and the wait lists change at its priority only, and its new control block agrees with
  them.\<close>

lemma kinv_of_update:
  assumes K: "kinv_of m P T E"
    and p: "p \<le> OS_LOWEST_PRIO" "P p = PTcb i"
    and m': "prio_map_ok m'" "prio_members m' - {p} = prio_members m - {p}"
    and E': "\<And>e. e < OS_MAX_EVENTS \<Longrightarrow> prio_map_ok (waiting (E' e))
                \<and> waiters_in E' e - {p} = waiters_in E e - {p} \<and> OSEventType (E' e) = OSEventType (E e)"
    and t': "task_ok m' E' p t'"
    and w': "\<And>e. e < OS_MAX_EVENTS \<Longrightarrow> p \<in> waiters_in E' e \<Longrightarrow> OSTCBEventPtr t' = PEvent e"
    and idle: "p = OS_IDLE_PRIO \<Longrightarrow> p \<in> prio_members m'"
  shows "kinv_of m' P (T(i := t')) E'"
proof -
  have mem: "q \<in> prio_members m' \<longleftrightarrow> q \<in> prio_members m" if "q \<noteq> p" for q
    using m'(2) that by blast
  have wmem: "q \<in> waiters_in E' e \<longleftrightarrow> q \<in> waiters_in E e" if "q \<noteq> p" "e < OS_MAX_EVENTS" for q e
    using E' [OF that(2)] that(1) by blast
  have iN: "i < N_TCB" and ti: "prio_fields (T i) p"
    using kinv_of_task [OF K p(1)] p(2) by (auto dest: task_ok_prio)
  have other: "j \<noteq> i" if q: "P q = PTcb j" "q \<le> OS_LOWEST_PRIO" "q \<noteq> p" for q j
  proof -
    have "prio_fields (T j) q"
      using kinv_of_task [OF K q(2)] q(1) by (auto dest: task_ok_prio)
    with ti q(3) show ?thesis using prio_fields_unique by blast
  qed
  have "prio_map_ok m'" by fact
  moreover have "OS_IDLE_PRIO \<in> prio_members m'"
    using kinv_of_idle [OF K] idle mem [of OS_IDLE_PRIO] by (cases "p = OS_IDLE_PRIO") simp_all
  moreover have "q \<le> OS_LOWEST_PRIO \<and> P q \<noteq> PNull" if "q \<in> prio_members m'" for q
    using that mem kinv_of_ready [OF K] p by (cases "q = p") auto
  moreover have "q \<le> OS_LOWEST_PRIO \<and> (\<exists>j. P q = PTcb j \<and> OSTCBEventPtr ((T(i := t')) j) = PEvent e)"
    if e: "e < OS_MAX_EVENTS" and q: "q \<in> waiters_in E' e" for e q
  proof (cases "q = p")
    case True
    then show ?thesis using p w' [OF e] q by auto
  next
    case False
    then have "q \<in> waiters_in E e" using wmem e q by blast
    then obtain j where "q \<le> OS_LOWEST_PRIO" "P q = PTcb j" "OSTCBEventPtr (T j) = PEvent e"
      using kinv_of_wait [OF K e] by blast
    moreover from this False have "j \<noteq> i" using other by blast
    ultimately show ?thesis by auto
  qed
  moreover have "\<exists>j < N_TCB. P q = PTcb j \<and> task_ok m' E' q ((T(i := t')) j)"
    if q: "q \<le> OS_LOWEST_PRIO" "P q \<noteq> PNull" for q
  proof (cases "q = p")
    case True
    then show ?thesis using p iN t' by auto
  next
    case False
    from kinv_of_task [OF K q] obtain j
      where j: "j < N_TCB" "P q = PTcb j" "task_ok m E q (T j)" by blast
    moreover have "j \<noteq> i" using other j q False by blast
    moreover have "link_bit E' (T j) = link_bit E (T j)"
      using j(3) E' by (auto simp: task_ok_def link_bit_def split: ptr.splits)
    then have "task_ok m' E' q (T j)"
      using j(3) mem [OF False] wmem [OF False] unfolding task_ok_def by metis
    ultimately show ?thesis by auto
  qed
  ultimately show ?thesis unfolding kinv_of_def using E' by blast
qed

text \<open>The two forms in which it is used: with one event's wait list changed, and with none.\<close>

lemma kinv_update_wait:
  assumes K: "kinv s" and L: "live s p i" and e: "e < OS_MAX_EVENTS"
    and s': "OSTCBPrioTbl s' = OSTCBPrioTbl s" "OSTCBTbl s' = (OSTCBTbl s)(i := t')"
      "OSEventTbl_g s' = (OSEventTbl_g s)(e := e')"
    and r: "prio_map_ok (rdy s')" "ready s' - {p} = ready s - {p}"
    and w: "prio_map_ok (waiting e')" "prio_members (waiting e') - {p} = waiters s e - {p}"
      "OSEventType e' = OSEventType (OSEventTbl_g s e)"
    and t': "task_ok (rdy s') ((OSEventTbl_g s)(e := e')) p t'"
    and link: "p \<in> prio_members (waiting e') \<Longrightarrow> OSTCBEventPtr t' = PEvent e"
    and other: "\<And>d. d < OS_MAX_EVENTS \<Longrightarrow> d \<noteq> e \<Longrightarrow> p \<notin> waiters s d"
    and idle: "p = OS_IDLE_PRIO \<Longrightarrow> p \<in> ready s'"
  shows "kinv s'"
  unfolding kinv_def s'
proof (rule kinv_of_update [where p = p and m = "rdy s" and E = "OSEventTbl_g s"])
  show "kinv_of (rdy s) (OSTCBPrioTbl s) (OSTCBTbl s) (OSEventTbl_g s)"
    using K by (simp add: kinv_def)
next
  fix d
  assume "d < OS_MAX_EVENTS" "p \<in> waiters_in ((OSEventTbl_g s)(e := e')) d"
  with link other show "OSTCBEventPtr t' = PEvent d" by (cases "d = e") auto
qed (use L r w t' idle kinvD_wait [OF K] in \<open>auto simp: live_def\<close>)

lemma kinv_update:
  assumes K: "kinv s" and L: "live s p i"
    and s': "OSTCBPrioTbl s' = OSTCBPrioTbl s" "OSTCBTbl s' = (OSTCBTbl s)(i := t')"
      "OSEventTbl_g s' = OSEventTbl_g s"
    and r: "prio_map_ok (rdy s')" "ready s' - {p} = ready s - {p}"
    and t': "task_ok (rdy s') (OSEventTbl_g s) p t'"
    and link: "OSTCBEventPtr t' = OSTCBEventPtr (OSTCBTbl s i)"
    and idle: "p = OS_IDLE_PRIO \<Longrightarrow> p \<in> ready s'"
  shows "kinv s'"
  unfolding kinv_def s'
proof (rule kinv_of_update [where p = p and m = "rdy s" and E = "OSEventTbl_g s"])
  fix e
  assume "e < OS_MAX_EVENTS" "p \<in> waiters s e"
  then show "OSTCBEventPtr t' = PEvent e"
    using K L link live_unique by (metis kinvD_waiters)
next
  show "kinv_of (rdy s) (OSTCBPrioTbl s) (OSTCBTbl s) (OSEventTbl_g s)"
    using K by (simp add: kinv_def)
qed (use L r t' idle kinvD_wait [OF K] in \<open>auto simp: live_def\<close>)

end
