(* ===== verification/Scheduling.thy ===== *)
theory Scheduling
  imports Kernel_Inv
begin

text \<open>
  The operations of OS\_CORE.C under the invariant: the ready list and the wait lists change by
  one priority, no operation faults, the scheduler makes the highest priority ready task
  current, an event readies the highest priority task that waits for it, and the tick readies
  exactly the tasks whose delay runs out. The lemmas named \<open>..._ok\<close> state the result of an
  operation once; the services of the other theories use only them.
\<close>

section \<open>One priority enters or leaves\<close>

lemma rdy_enter_ok:
  assumes "prio_fields t p" and "p \<le> OS_LOWEST_PRIO" and "prio_map_ok (rdy s)"
  obtains m where "rdy_enter t s = Some (set_rdy m s)" and "prio_map_ok m"
    and "prio_members m = insert p (ready s)"
  using tbl_enter_ok [OF assms(3), of p] prio_in_table [OF assms(2)] assms(1)
  by (auto simp: rdy_enter_def prio_fields_def)

lemma rdy_remove_ok:
  assumes "prio_fields t p" and "p \<le> OS_LOWEST_PRIO" and "prio_map_ok (rdy s)"
  obtains m where "rdy_remove t s = Some (set_rdy m s)" and "prio_map_ok m"
    and "prio_members m = ready s - {p}"
  using tbl_remove_ok [OF assms(3), of p] prio_in_table [OF assms(2)] assms(1)
  by (auto simp: rdy_remove_def prio_fields_def)

lemma wait_enter_ok:
  assumes "prio_fields t p" and "p \<le> OS_LOWEST_PRIO" and "e < OS_MAX_EVENTS"
    and "prio_map_ok (waiting (OSEventTbl_g s e))"
  obtains m where "wait_enter t (PEvent e) s
      = Some (s\<lparr>OSEventTbl_g := (OSEventTbl_g s)(e := set_waiting m (OSEventTbl_g s e))\<rparr>)"
    and "prio_map_ok m" and "prio_members m = insert p (waiters s e)"
  using tbl_enter_ok [OF assms(4), of p] prio_in_table [OF assms(2)] assms(1,3)
  by (auto simp: wait_enter_def prio_fields_def)

lemma wait_remove_ok:
  assumes "prio_fields t p" and "p \<le> OS_LOWEST_PRIO" and "e < OS_MAX_EVENTS"
    and "prio_map_ok (waiting (OSEventTbl_g s e))"
  obtains m where "wait_remove t (PEvent e) s
      = Some (s\<lparr>OSEventTbl_g := (OSEventTbl_g s)(e := set_waiting m (OSEventTbl_g s e))\<rparr>)"
    and "prio_map_ok m" and "prio_members m = waiters s e - {p}"
  using tbl_remove_ok [OF assms(4), of p] prio_in_table [OF assms(2)] assms(1,3)
  by (auto simp: wait_remove_def prio_fields_def)

section \<open>The scheduler\<close>

definition cur_ok :: "os \<Rightarrow> bool" where
  "cur_ok s \<longleftrightarrow> (\<exists>i. live s (unat (OSPrioCur s)) i \<and> OSTCBCur s = PTcb i)"

definition highest_ready :: "os \<Rightarrow> nat" where
  "highest_ready s = Min (ready s)"

lemma highest_ready_in: "kinv s \<Longrightarrow> highest_ready s \<in> ready s"
  unfolding highest_ready_def by (rule Min_in) (auto dest: kinvD_idle)

lemma highest_ready_live:
  assumes "kinv s"
  obtains i where "live s (highest_ready s) i"
  using assms highest_ready_in kinvD_ready by blast

lemma highest_tbl:
  assumes "kinv s"
  obtains h where "tbl_highest OS_RDY_TBL_SIZE (rdy s) = Some h" and "unat h = highest_ready s"
  using tbl_highest_ok [OF kinvD_rdy [OF assms]] kinvD_idle [OF assms]
  by (auto simp: highest_ready_def)

lemma word_or_eq_0: "(a :: INT8U) OR b = 0 \<longleftrightarrow> a = 0 \<and> b = 0"
  by (rule or_eq_0_iff)

definition unlocked :: "os \<Rightarrow> bool" where
  "unlocked s \<longleftrightarrow> OSLockNesting s = 0 \<and> OSIntNesting s = 0"

text \<open>The state after a switch to the task \<open>i\<close> at priority \<open>h\<close>.\<close>

definition switched :: "INT8U \<Rightarrow> ptr \<Rightarrow> os \<Rightarrow> os" where
  "switched h ptcb s = s\<lparr>OSPrioHighRdy := h, OSTCBHighRdy := ptcb, OSCtxSwCtr := OSCtxSwCtr s + 1,
     OSTCBCur := ptcb, OSPrioCur := h\<rparr>"

lemma OSSched_ok:
  assumes K: "kinv s" and U: "unlocked s"
  obtains h i where "unat h = highest_ready s" and "live s (unat h) i"
    and "OSSched s = Some (if h = OSPrioCur s then s\<lparr>OSPrioHighRdy := h\<rparr> else switched h (PTcb i) s)"
proof -
  obtain h where h: "tbl_highest OS_RDY_TBL_SIZE (rdy s) = Some h" "unat h = highest_ready s"
    using highest_tbl [OF K] .
  obtain i where i: "live s (unat h) i" using highest_ready_live [OF K] h(2) by metis
  have "OSSched s = Some (if h = OSPrioCur s then s\<lparr>OSPrioHighRdy := h\<rparr> else switched h (PTcb i) s)"
    using U h(1) i
    by (auto simp: OSSched_def unlocked_def live_def prio_at_def OSCtxSw_def OSTaskSwHook_def
        switched_def Let_def)
  with h(2) i that show thesis by blast
qed

lemma OSSched_locked: "\<not> unlocked s \<Longrightarrow> OSSched s = Some s"
  by (auto simp: OSSched_def unlocked_def word_or_eq_0)

text \<open>What a call of the scheduler changes: the current task and the bookkeeping of the switch.\<close>

definition same_but_sched :: "os \<Rightarrow> os \<Rightarrow> bool" where
  "same_but_sched s s' \<longleftrightarrow>
     s' = s\<lparr>OSPrioHighRdy := OSPrioHighRdy s', OSTCBHighRdy := OSTCBHighRdy s',
            OSCtxSwCtr := OSCtxSwCtr s', OSTCBCur := OSTCBCur s', OSPrioCur := OSPrioCur s',
            OSIntExitY := OSIntExitY s'\<rparr>"

lemma same_but_schedE:
  assumes "same_but_sched s s'"
  obtains a b c d f g where "s' = s\<lparr>OSPrioHighRdy := a, OSTCBHighRdy := b, OSCtxSwCtr := c,
    OSTCBCur := d, OSPrioCur := f, OSIntExitY := g\<rparr>"
  using assms unfolding same_but_sched_def by blast

lemma same_but_sched_frame:
  assumes "same_but_sched s s'"
  shows "rdy s' = rdy s" "OSTCBPrioTbl s' = OSTCBPrioTbl s" "OSTCBTbl s' = OSTCBTbl s"
    "OSEventTbl_g s' = OSEventTbl_g s" "OSLockNesting s' = OSLockNesting s"
    "OSIntNesting s' = OSIntNesting s" "OSRunning s' = OSRunning s" "OSTCBList s' = OSTCBList s"
    "OSTCBFreeList s' = OSTCBFreeList s" "OSEventFreeList s' = OSEventFreeList s"
    "OSQTbl s' = OSQTbl s" "OSQFreeList s' = OSQFreeList s" "OSMemTbl s' = OSMemTbl s"
    "OSMemFreeList_g s' = OSMemFreeList_g s" "mem_ptr s' = mem_ptr s" "mem_stk s' = mem_stk s"
    "OSTaskCtr s' = OSTaskCtr s" "OSTime s' = OSTime s"
  by (rule same_but_schedE [OF assms], simp)+

lemma same_but_sched_kinv: "same_but_sched s s' \<Longrightarrow> kinv s' = kinv s"
  by (simp add: kinv_def same_but_sched_frame)

lemma same_but_sched_live: "same_but_sched s s' \<Longrightarrow> live s' p i = live s p i"
  by (simp add: live_def same_but_sched_frame)

lemma same_but_sched_unlocked: "same_but_sched s s' \<Longrightarrow> unlocked s' = unlocked s"
  by (simp add: unlocked_def same_but_sched_frame)

lemma same_but_sched_highest: "same_but_sched s s' \<Longrightarrow> highest_ready s' = highest_ready s"
  by (simp add: highest_ready_def same_but_sched_frame)

lemma same_but_sched_refl: "same_but_sched s s"
  by (simp add: same_but_sched_def)

text \<open>The postcondition of every service that ends with a call of the scheduler: it returns, and
  with the scheduler unlocked the task that runs next is the one of highest priority.\<close>

lemma OSSched_post:
  assumes K: "kinv s" and C: "unlocked s \<and> OSPrioCur s \<noteq> of_nat (highest_ready s) \<or> cur_ok s"
  obtains s' where "OSSched s = Some s'" and "same_but_sched s s'" and "kinv s'" and "cur_ok s'"
    and "unlocked s \<longrightarrow> unat (OSPrioCur s') = highest_ready s"
proof (cases "unlocked s")
  case True
  obtain h i where h: "unat h = highest_ready s" "live s (unat h) i"
    and r: "OSSched s = Some (if h = OSPrioCur s then s\<lparr>OSPrioHighRdy := h\<rparr> else switched h (PTcb i) s)"
    using OSSched_ok [OF K True] .
  let ?s = "if h = OSPrioCur s then s\<lparr>OSPrioHighRdy := h\<rparr> else switched h (PTcb i) s"
  have sb: "same_but_sched s ?s"
    by (simp add: same_but_sched_def switched_def)
  have "of_nat (unat h) = h" by simp
  then have eq: "h = OSPrioCur s \<longleftrightarrow> OSPrioCur s = of_nat (highest_ready s)"
    using h(1) by metis
  have "cur_ok ?s"
  proof (cases "h = OSPrioCur s")
    case True
    then have "cur_ok s" using C eq by blast
    with True show ?thesis by (simp add: cur_ok_def live_def)
  next
    case False
    with h(2) show ?thesis by (auto simp: cur_ok_def live_def switched_def)
  qed
  moreover have "unat (OSPrioCur ?s) = highest_ready s"
    using h(1) by (auto simp: switched_def)
  ultimately show thesis
    using that r sb K same_but_sched_kinv by blast
next
  case False
  with assms same_but_sched_refl OSSched_locked that show thesis by blast
qed

section \<open>Interrupts\<close>

text \<open>\<open>OSIntExit\<close> with one interrupt left does what \<open>OSSched\<close> does at task level.\<close>

lemma OSIntExit_eq:
  "OSIntExit s = (let s1 = s\<lparr>OSIntNesting := OSIntNesting s - 1\<rparr> in
     if unlocked s1
     then map_option (\<lambda>s'. s'\<lparr>OSIntExitY := unmap_tbl (OSRdyGrp s)\<rparr>) (OSSched s1)
     else Some s1)"
  by (auto simp: OSIntExit_def OSSched_def unlocked_def Let_def word_or_eq_0 tbl_highest_def
      rdy_def OSIntCtxSw_def OSCtxSw_def OSTaskSwHook_def idx_def prio_at_def or.commute)

lemma kinv_nesting [simp]:
  "kinv (s\<lparr>OSIntNesting := n\<rparr>) = kinv s" "kinv (s\<lparr>OSLockNesting := n\<rparr>) = kinv s"
  "cur_ok (s\<lparr>OSIntNesting := n\<rparr>) = cur_ok s" "cur_ok (s\<lparr>OSLockNesting := n\<rparr>) = cur_ok s"
  "kinv (s\<lparr>OSIntExitY := n\<rparr>) = kinv s" "cur_ok (s\<lparr>OSIntExitY := n\<rparr>) = cur_ok s"
  "highest_ready (s\<lparr>OSIntNesting := n\<rparr>) = highest_ready s"
  "highest_ready (s\<lparr>OSLockNesting := n\<rparr>) = highest_ready s"
  by (simp_all add: kinv_def cur_ok_def live_def highest_ready_def)

lemma OSIntExit_post:
  assumes K: "kinv s" and C: "cur_ok s"
  obtains s' where "OSIntExit s = Some s'" and "same_but_sched (s\<lparr>OSIntNesting := OSIntNesting s - 1\<rparr>) s'"
    and "kinv s'" and "cur_ok s'"
    and "unlocked s' \<longrightarrow> unat (OSPrioCur s') = highest_ready s'"
proof -
  let ?s = "s\<lparr>OSIntNesting := OSIntNesting s - 1\<rparr>"
  show thesis
  proof (cases "unlocked ?s")
    case True
    from K C have "kinv ?s" "cur_ok ?s" by simp_all
    then obtain s' where s': "OSSched ?s = Some s'" "same_but_sched ?s s'" "kinv s'" "cur_ok s'"
      "unat (OSPrioCur s') = highest_ready ?s"
      using OSSched_post True by metis
    let ?t = "s'\<lparr>OSIntExitY := unmap_tbl (OSRdyGrp s)\<rparr>"
    have sb: "same_but_sched ?s ?t" using s'(2) by (rule same_but_schedE) (simp add: same_but_sched_def)
    then have "unat (OSPrioCur ?t) = highest_ready ?t"
      using s'(5) same_but_sched_highest by simp
    with s' sb True that [of ?t] show thesis by (simp add: OSIntExit_eq Let_def)
  next
    case False
    with K C that [of ?s] same_but_sched_refl show thesis by (simp add: OSIntExit_eq Let_def)
  qed
qed

section \<open>Event primitives\<close>

text \<open>What the position in the wait list says about the masks that \<open>OSEventTaskRdy\<close> uses.\<close>

lemma prio_split:
  "unat (push_bit 3 y + x :: INT8U) = p \<Longrightarrow> unat y < 8 \<Longrightarrow> unat x < 8 \<Longrightarrow>
    unat y = p div 8 \<and> unat x = p mod 8"
  using shift3_add [of y x] by auto

lemma waiting_highest:
  assumes "prio_map_ok m" and "prio_members m \<noteq> {}"
  defines "y \<equiv> unmap_tbl (fst m)"
  defines "x \<equiv> unmap_tbl (snd m (unat y))"
  shows "unat (push_bit 3 y + x) = Min (prio_members m)"
    "unat y = Min (prio_members m) div 8" "unat x = Min (prio_members m) mod 8"
    "unat y < OS_RDY_TBL_SIZE"
proof -
  obtain w where w: "tbl_highest OS_RDY_TBL_SIZE m = Some w" "unat w = Min (prio_members m)"
    using tbl_highest_ok [OF assms(1,2)] by blast
  then show r: "unat (push_bit 3 y + x) = Min (prio_members m)" "unat y < OS_RDY_TBL_SIZE"
    by (auto simp: tbl_highest_def Let_def x_def y_def)
  show "unat y = Min (prio_members m) div 8" "unat x = Min (prio_members m) mod 8"
    using prio_split [OF r(1)] by (auto simp: x_def y_def)
qed

definition readied :: "ptr \<Rightarrow> INT8U \<Rightarrow> OS_TCB \<Rightarrow> OS_TCB" where
  "readied msg msk t = t\<lparr>OSTCBDly := 0, OSTCBEventPtr := PNull, OSTCBMsg := msg,
     OSTCBStat := OSTCBStat t AND NOT msk\<rparr>"

lemma OSEventTaskRdy_ok:
  assumes K: "kinv s" and e: "e < OS_MAX_EVENTS" and W: "waiters s e \<noteq> {}"
  obtains p i w r where "p = Min (waiters s e)" and "live s p i"
    and "prio_map_ok w" and "prio_members w = waiters s e - {p}"
    and "prio_map_ok r"
    and "prio_members r = (if OSTCBStat (readied msg msk (OSTCBTbl s i)) = OS_STAT_RDY
                           then insert p (ready s) else ready s)"
    and "OSEventTaskRdy (PEvent e) msg msk s = Some (set_rdy r
       (s\<lparr>OSEventTbl_g := (OSEventTbl_g s)(e := set_waiting w (OSEventTbl_g s e)),
          OSTCBTbl := (OSTCBTbl s)(i := readied msg msk (OSTCBTbl s i))\<rparr>))"
proof -
  let ?m = "waiting (OSEventTbl_g s e)"
  let ?p = "Min (waiters s e)"
  have wf: "prio_map_ok ?m" using kinvD_wait [OF K e] .
  have "?p \<in> waiters s e" using W by simp
  then obtain i where i: "live s ?p i" using kinvD_waiters [OF K e] by metis
  note hi = waiting_highest [OF wf W]
  have pN: "?p div 8 < OS_RDY_TBL_SIZE" "?p div 8 < 8"
    using prio_in_table i hi(2) unmap_tbl_lt by (auto simp: live_def) (metis unmap_tbl_lt)
  obtain w where w: "tbl_remove OS_RDY_TBL_SIZE (?p div 8) (2 ^ (?p mod 8)) (2 ^ (?p div 8)) ?m = Some w"
      "prio_map_ok w" "prio_members w = waiters s e - {?p}"
    using tbl_remove_ok [OF wf pN(1)] by blast
  obtain r where r: "tbl_enter OS_RDY_TBL_SIZE (?p div 8) (2 ^ (?p mod 8)) (2 ^ (?p div 8)) (rdy s) = Some r"
      "prio_map_ok r" "prio_members r = insert ?p (ready s)"
    using tbl_enter_ok [OF kinvD_rdy [OF K] pN(1)] by blast
  let ?y = "unmap_tbl (OSEventGrp (OSEventTbl_g s e))"
  let ?x = "unmap_tbl (OSEventTbl (OSEventTbl_g s e) (unat ?y))"
  have yx: "unat (push_bit 3 ?y + ?x) = ?p" "unat ?y = ?p div 8" "unat ?x = ?p mod 8"
    using hi by (simp_all add: waiting_def)
  let ?t = "readied msg msk (OSTCBTbl s i)"
  let ?s = "s\<lparr>OSEventTbl_g := (OSEventTbl_g s)(e := set_waiting w (OSEventTbl_g s e)),
               OSTCBTbl := (OSTCBTbl s)(i := ?t)\<rparr>"
  have "OSEventTaskRdy (PEvent e) msg msk s
    = Some (if OSTCBStat ?t = OS_STAT_RDY then set_rdy r ?s else ?s)"
    using e i pN w(1) r(1) yx
    by (simp add: OSEventTaskRdy_def Let_def map_tbl_eq live_def prio_at_def readied_def
        del: unmap_tbl_lt)
  moreover have "set_rdy (rdy ?s) ?s = ?s" by (simp add: set_rdy_def rdy_def)
  ultimately show thesis
    using that [of ?p i w "if OSTCBStat ?t = OS_STAT_RDY then r else rdy s"] i w(2,3) r(2,3)
      kinvD_rdy [OF K]
    by (auto split: if_splits)
qed

text \<open>What an operation on one task's wait and ready state leaves alone.\<close>

definition same_but_task :: "os \<Rightarrow> os \<Rightarrow> bool" where
  "same_but_task s s' \<longleftrightarrow>
     s' = s\<lparr>OSRdyGrp := OSRdyGrp s', OSRdyTbl := OSRdyTbl s', OSEventTbl_g := OSEventTbl_g s',
            OSTCBTbl := OSTCBTbl s'\<rparr>"

lemma same_but_taskE:
  assumes "same_but_task s s'"
  obtains a b c d where "s' = s\<lparr>OSRdyGrp := a, OSRdyTbl := b, OSEventTbl_g := c, OSTCBTbl := d\<rparr>"
  using assms unfolding same_but_task_def by blast

lemma same_but_task_frame:
  assumes "same_but_task s s'"
  shows "OSTCBPrioTbl s' = OSTCBPrioTbl s" "OSTCBCur s' = OSTCBCur s" "OSPrioCur s' = OSPrioCur s"
    "OSLockNesting s' = OSLockNesting s" "OSIntNesting s' = OSIntNesting s"
    "OSRunning s' = OSRunning s" "OSTCBList s' = OSTCBList s"
    "OSTCBFreeList s' = OSTCBFreeList s" "OSEventFreeList s' = OSEventFreeList s"
    "OSQTbl s' = OSQTbl s" "OSQFreeList s' = OSQFreeList s" "OSMemTbl s' = OSMemTbl s"
    "OSMemFreeList_g s' = OSMemFreeList_g s" "mem_ptr s' = mem_ptr s" "mem_stk s' = mem_stk s"
    "OSTaskCtr s' = OSTaskCtr s" "OSTime s' = OSTime s"
  by (rule same_but_taskE [OF assms], simp)+

lemma same_but_task_refl: "same_but_task s s"
  by (simp add: same_but_task_def)

lemma same_but_task_trans: "same_but_task s s' \<Longrightarrow> same_but_task s' s'' \<Longrightarrow> same_but_task s s''"
  by (erule same_but_taskE)+ (simp add: same_but_task_def)

lemma same_but_task_cur: "same_but_task s s' \<Longrightarrow> cur_ok s' = cur_ok s"
  by (simp add: cur_ok_def live_def same_but_task_frame)

lemma same_but_task_live: "same_but_task s s' \<Longrightarrow> live s' p i = live s p i"
  by (simp add: live_def same_but_task_frame)

lemma same_but_task_unlocked: "same_but_task s s' \<Longrightarrow> unlocked s' = unlocked s"
  by (simp add: unlocked_def same_but_task_frame)

lemma waiters_upd [simp]: "prio_members (waiting ((E(e := set_waiting w (E e))) d))
    = (if d = e then prio_members w else waiters_in E d)"
  by simp

text \<open>What the invariant says of a task that waits, and of one that does not.\<close>

lemma waiter_stat:
  assumes K: "kinv s" and e: "e < OS_MAX_EVENTS" and L: "live s p i" and W: "p \<in> waiters s e"
  defines "b \<equiv> ev_bit (OSEventType (OSEventTbl_g s e))"
  shows "OSTCBEventPtr (OSTCBTbl s i) = PEvent e" "b \<noteq> OS_STAT_RDY"
    "OSTCBStat (OSTCBTbl s i) \<in> {b, b OR OS_STAT_SUSPEND}"
proof -
  show P: "OSTCBEventPtr (OSTCBTbl s i) = PEvent e"
    using K e W L live_unique by (metis kinvD_waiters)
  then show "b \<noteq> OS_STAT_RDY" "OSTCBStat (OSTCBTbl s i) \<in> {b, b OR OS_STAT_SUSPEND}"
    using kinvD_task [OF K L] by (auto simp: task_ok_def link_bit_def b_def)
qed

lemma waits_for_one:
  assumes "kinv s" and "live s p i" and "d < OS_MAX_EVENTS" and "p \<in> waiters s d"
  shows "OSTCBEventPtr (OSTCBTbl s i) = PEvent d"
  using assms live_unique by (metis kinvD_waiters)

lemma OSEventTaskRdy_post:
  assumes K: "kinv s" and e: "e < OS_MAX_EVENTS" and W: "waiters s e \<noteq> {}"
    and msk: "msk = ev_bit (OSEventType (OSEventTbl_g s e))"
  obtains s' p i where "OSEventTaskRdy (PEvent e) msg msk s = Some s'"
    and "p = Min (waiters s e)" and "live s p i" and "kinv s'" and "same_but_task s s'"
    and "OSTCBTbl s' = (OSTCBTbl s)(i := readied msg msk (OSTCBTbl s i))"
    and "ready s' = (if suspended (OSTCBTbl s i) then ready s else insert p (ready s))"
    and "waiters s' = (waiters s)(e := waiters s e - {p})"
    and "\<forall>d. d \<noteq> e \<longrightarrow> OSEventTbl_g s' d = OSEventTbl_g s d"
    and "OSEventPtr (OSEventTbl_g s' e) = OSEventPtr (OSEventTbl_g s e)"
    and "OSEventCnt (OSEventTbl_g s' e) = OSEventCnt (OSEventTbl_g s e)"
    and "OSEventType (OSEventTbl_g s' e) = OSEventType (OSEventTbl_g s e)"
proof -
  obtain p i w r where p: "p = Min (waiters s e)" and L: "live s p i"
    and w: "prio_map_ok w" "prio_members w = waiters s e - {p}" and r: "prio_map_ok r"
      "prio_members r = (if OSTCBStat (readied msg msk (OSTCBTbl s i)) = OS_STAT_RDY
                         then insert p (ready s) else ready s)"
    and eq: "OSEventTaskRdy (PEvent e) msg msk s = Some (set_rdy r
       (s\<lparr>OSEventTbl_g := (OSEventTbl_g s)(e := set_waiting w (OSEventTbl_g s e)),
          OSTCBTbl := (OSTCBTbl s)(i := readied msg msk (OSTCBTbl s i))\<rparr>))"
    using OSEventTaskRdy_ok [OF K e W, where msg = msg and msk = msk] .
  let ?t = "OSTCBTbl s i"
  have pw: "p \<in> waiters s e" using p W by simp
  note st = waiter_stat [OF K e L pw]
  have rd: "OSTCBStat (readied msg msk ?t) = (if suspended ?t then OS_STAT_SUSPEND else OS_STAT_RDY)"
  proof (cases "suspended ?t")
    case True
    with suspended_iff [OF ev_bit_cases st(3)]
    have "OSTCBStat ?t = msk OR OS_STAT_SUSPEND" by (simp only: msk if_True)
    with True show ?thesis
      using stat_bits(6) [OF ev_bit_cases, folded msk] by (simp add: readied_def msk)
  next
    case False
    with suspended_iff [OF ev_bit_cases st(3)]
    have "OSTCBStat ?t = msk" by (simp only: msk if_False)
    with False show ?thesis by (simp add: readied_def OS_STAT_RDY_def)
  qed
  have rd0: "OSTCBStat (readied msg msk ?t) = OS_STAT_RDY \<longleftrightarrow> \<not> suspended ?t"
    using rd by (simp add: stat_defs)
  have nr: "suspended ?t \<Longrightarrow> p \<notin> ready s"
    using kinvD_task [OF K L] by (auto simp: task_ok_def)
  let ?E = "(OSEventTbl_g s)(e := set_waiting w (OSEventTbl_g s e))"
  let ?s = "set_rdy r (s\<lparr>OSEventTbl_g := ?E,
      OSTCBTbl := (OSTCBTbl s)(i := readied msg msk ?t)\<rparr>)"
  have "suspended (readied msg msk ?t) = suspended ?t" "link_bit ?E (readied msg msk ?t) = OS_STAT_RDY"
    using rd by (simp_all add: suspended_def [of "readied msg msk ?t"] stat_defs)
      (simp add: link_bit_def readied_def OS_STAT_RDY_def)
  then have "task_ok r ?E p (readied msg msk ?t)"
    using live_prio [OF K L] r(2) rd rd0 nr stat_bits [of OS_STAT_RDY]
    unfolding task_ok_def by (simp add: readied_def OS_STAT_RDY_def)
  then have "kinv ?s"
    using w r(1,2) rd0 waits_for_one [OF K L] st(1) kinvD_idle [OF K]
    by (intro kinv_update_wait [OF K L e, where e' = "set_waiting w (OSEventTbl_g s e)"
          and t' = "readied msg msk ?t"]) auto
  moreover have "same_but_task s ?s" by (simp add: same_but_task_def set_rdy_def)
  moreover have "waiters ?s = (waiters s)(e := waiters s e - {p})"
    by (rule ext) (simp add: w(2))
  moreover have "ready ?s = (if suspended ?t then ready s else insert p (ready s))"
    using r(2) rd0 by simp
  ultimately show thesis
    using that [OF eq p L] by (auto simp del: waiters_upd)
qed

section \<open>Waiting and giving up\<close>

text \<open>A running task that neither waits nor is suspended has a zero status byte.\<close>

lemma ready_stat:
  assumes "kinv s" and "live s p i" and "p \<in> ready s" and "OSTCBEventPtr (OSTCBTbl s i) = PNull"
  shows "OSTCBStat (OSTCBTbl s i) = OS_STAT_RDY" "OSTCBDly (OSTCBTbl s i) = 0"
proof -
  have ok: "task_ok (rdy s) (OSEventTbl_g s) p (OSTCBTbl s i)" using kinvD_task assms(1,2) .
  have l: "link_bit (OSEventTbl_g s) (OSTCBTbl s i) = OS_STAT_RDY"
    using assms(4) by (simp add: link_bit_def)
  have "\<not> suspended (OSTCBTbl s i)" using ok assms(3) by (simp add: task_ok_def)
  moreover have "OSTCBStat (OSTCBTbl s i) \<in> {OS_STAT_RDY, OS_STAT_RDY OR OS_STAT_SUSPEND}"
    using ok l by (simp add: task_ok_def)
  ultimately show "OSTCBStat (OSTCBTbl s i) = OS_STAT_RDY"
    using suspended_iff [of OS_STAT_RDY] by force
  show "OSTCBDly (OSTCBTbl s i) = 0" using ok assms(3) by (simp add: task_ok_def)
qed

definition blocked :: "ptr \<Rightarrow> INT8U \<Rightarrow> INT16U \<Rightarrow> OS_TCB \<Rightarrow> OS_TCB" where
  "blocked pevent b timeout t =
     t\<lparr>OSTCBStat := OSTCBStat t OR b, OSTCBDly := timeout, OSTCBEventPtr := pevent\<rparr>"

lemma OSEventTaskWait_post:
  assumes K: "kinv s" and e: "e < OS_MAX_EVENTS" and L: "live s p i" and C: "OSTCBCur s = PTcb i"
    and R: "p \<in> ready s" and np: "OSTCBEventPtr (OSTCBTbl s i) = PNull" and nidle: "p \<noteq> OS_IDLE_PRIO"
    and b: "b = ev_bit (OSEventType (OSEventTbl_g s e))" "b \<noteq> OS_STAT_RDY"
  defines "t \<equiv> OSTCBTbl s i"
  obtains s' where
    "OSEventTaskWait (PEvent e)
       (s\<lparr>OSTCBTbl := (OSTCBTbl s)(i := t\<lparr>OSTCBStat := OSTCBStat t OR b, OSTCBDly := timeout\<rparr>)\<rparr>) = Some s'"
    and "kinv s'" and "same_but_task s s'"
    and "OSTCBTbl s' = (OSTCBTbl s)(i := blocked (PEvent e) b timeout t)"
    and "ready s' = ready s - {p}"
    and "waiters s' = (waiters s)(e := insert p (waiters s e))"
    and "\<forall>d. d \<noteq> e \<longrightarrow> OSEventTbl_g s' d = OSEventTbl_g s d"
    and "OSEventPtr (OSEventTbl_g s' e) = OSEventPtr (OSEventTbl_g s e)"
    and "OSEventCnt (OSEventTbl_g s' e) = OSEventCnt (OSEventTbl_g s e)"
    and "OSEventType (OSEventTbl_g s' e) = OSEventType (OSEventTbl_g s e)"
proof -
  let ?t0 = "t\<lparr>OSTCBStat := OSTCBStat t OR b, OSTCBDly := timeout\<rparr>"
  let ?t1 = "blocked (PEvent e) b timeout t"
  let ?s0 = "s\<lparr>OSTCBTbl := (OSTCBTbl s)(i := ?t0)\<rparr>"
  let ?s1 = "s\<lparr>OSTCBTbl := (OSTCBTbl s)(i := ?t1)\<rparr>"
  have iN: "i < N_TCB" and pL: "p \<le> OS_LOWEST_PRIO" using L by (auto simp: live_def)
  have f: "prio_fields ?t0 p" using live_prio [OF K L] by (simp add: t_def)
  obtain r where r: "rdy_remove ?t0 ?s1 = Some (set_rdy r ?s1)" "prio_map_ok r"
      "prio_members r = ready s - {p}"
    using rdy_remove_ok [OF f pL, of ?s1] kinvD_rdy [OF K] by auto
  let ?s2 = "set_rdy r ?s1"
  obtain w where w: "wait_enter ?t0 (PEvent e) ?s2
      = Some (?s2\<lparr>OSEventTbl_g := (OSEventTbl_g s)(e := set_waiting w (OSEventTbl_g s e))\<rparr>)"
      "prio_map_ok w" "prio_members w = insert p (waiters s e)"
    using wait_enter_ok [OF f pL e, of ?s2] kinvD_wait [OF K e] by auto
  let ?E = "(OSEventTbl_g s)(e := set_waiting w (OSEventTbl_g s e))"
  let ?s3 = "?s2\<lparr>OSEventTbl_g := ?E\<rparr>"
  have eq: "OSEventTaskWait (PEvent e) ?s0 = Some ?s3"
    using C iN r(1) w(1) by (simp add: OSEventTaskWait_def blocked_def)
  have st: "OSTCBStat ?t1 = b"
    using ready_stat(1) [OF K L R np] by (simp add: blocked_def t_def OS_STAT_RDY_def)
  have "task_ok r ?E p ?t1"
    using f e r(3) w(3) st b unfolding task_ok_def
    by (auto simp: blocked_def link_bit_def)
  moreover have "p \<notin> waiters s d" if "d < OS_MAX_EVENTS" for d
    using waits_for_one [OF K L that] np by auto
  ultimately have "kinv ?s3"
    using w(2,3) r(2,3) nidle
    by (intro kinv_update_wait [OF K L e, where e' = "set_waiting w (OSEventTbl_g s e)" and t' = ?t1])
       (auto simp: blocked_def)
  moreover have "same_but_task s ?s3" by (simp add: same_but_task_def set_rdy_def)
  moreover have "waiters ?s3 = (waiters s)(e := insert p (waiters s e))"
    by (rule ext) (simp add: w(3))
  ultimately show thesis using that [OF eq] r(3) by simp
qed

lemma OSEventTO_post:
  assumes K: "kinv s" and e: "e < OS_MAX_EVENTS" and L: "live s p i" and C: "OSTCBCur s = PTcb i"
    and R: "p \<in> ready s" and np: "OSTCBEventPtr (OSTCBTbl s i) = PEvent e"
  obtains s' where "OSEventTO (PEvent e) s = Some s'" and "kinv s'" and "same_but_task s s'"
    and "OSTCBTbl s' = (OSTCBTbl s)(i := (OSTCBTbl s i)\<lparr>OSTCBStat := OS_STAT_RDY, OSTCBEventPtr := PNull\<rparr>)"
    and "ready s' = ready s" and "waiters s' = (waiters s)(e := waiters s e - {p})"
    and "\<forall>d. d \<noteq> e \<longrightarrow> OSEventTbl_g s' d = OSEventTbl_g s d"
    and "OSEventPtr (OSEventTbl_g s' e) = OSEventPtr (OSEventTbl_g s e)"
    and "OSEventCnt (OSEventTbl_g s' e) = OSEventCnt (OSEventTbl_g s e)"
    and "OSEventType (OSEventTbl_g s' e) = OSEventType (OSEventTbl_g s e)"
proof -
  let ?t = "OSTCBTbl s i"
  let ?t1 = "?t\<lparr>OSTCBStat := OS_STAT_RDY, OSTCBEventPtr := PNull\<rparr>"
  have iN: "i < N_TCB" and pL: "p \<le> OS_LOWEST_PRIO" using L by (auto simp: live_def)
  note f = live_prio [OF K L]
  obtain w where w: "wait_remove ?t (PEvent e) s
      = Some (s\<lparr>OSEventTbl_g := (OSEventTbl_g s)(e := set_waiting w (OSEventTbl_g s e))\<rparr>)"
      "prio_map_ok w" "prio_members w = waiters s e - {p}"
    using wait_remove_ok [OF f pL e] kinvD_wait [OF K e] by auto
  let ?E = "(OSEventTbl_g s)(e := set_waiting w (OSEventTbl_g s e))"
  let ?s = "s\<lparr>OSEventTbl_g := ?E, OSTCBTbl := (OSTCBTbl s)(i := ?t1)\<rparr>"
  have eq: "OSEventTO (PEvent e) s = Some ?s"
    using C iN w(1) by (simp add: OSEventTO_def)
  have d0: "OSTCBDly ?t = 0" using kinvD_task [OF K L] R by (simp add: task_ok_def)
  have "task_ok (rdy s) ?E p ?t1"
    using f d0 R unfolding task_ok_def by (simp add: link_bit_def suspended_def stat_defs)
  moreover have "p \<notin> waiters s d" if "d < OS_MAX_EVENTS" "d \<noteq> e" for d
    using waits_for_one [OF K L that(1)] np that(2) by auto
  ultimately have "kinv ?s"
    using w(2,3) R kinvD_rdy [OF K]
    by (intro kinv_update_wait [OF K L e, where e' = "set_waiting w (OSEventTbl_g s e)" and t' = ?t1]) auto
  moreover have "same_but_task s ?s" by (simp add: same_but_task_def)
  moreover have "waiters ?s = (waiters s)(e := waiters s e - {p})"
    by (rule ext) (simp add: w(3))
  ultimately show thesis using that [OF eq] by simp
qed

section \<open>A task made ready by the end of its delay\<close>

text \<open>Three operations ready one task that is not suspended and whose delay is over: the tick,
  \<open>OSTimeDlyResume\<close> and \<open>OSTaskResume\<close>.\<close>

lemma kinv_make_ready:
  assumes K: "kinv s" and L: "live s p i"
    and t': "prio_fields t' p" "OSTCBDly t' = 0" "\<not> suspended t'"
      "OSTCBEventPtr t' = OSTCBEventPtr (OSTCBTbl s i)"
      "OSTCBStat t' \<in> {link_bit (OSEventTbl_g s) t', link_bit (OSEventTbl_g s) t' OR OS_STAT_SUSPEND}"
  obtains r where "rdy_enter t' (s\<lparr>OSTCBTbl := (OSTCBTbl s)(i := t')\<rparr>)
      = Some (set_rdy r (s\<lparr>OSTCBTbl := (OSTCBTbl s)(i := t')\<rparr>))"
    and "prio_members r = insert p (ready s)"
    and "kinv (set_rdy r (s\<lparr>OSTCBTbl := (OSTCBTbl s)(i := t')\<rparr>))"
proof -
  let ?s = "s\<lparr>OSTCBTbl := (OSTCBTbl s)(i := t')\<rparr>"
  have pL: "p \<le> OS_LOWEST_PRIO" using L by (auto simp: live_def)
  obtain r where r: "rdy_enter t' ?s = Some (set_rdy r ?s)" "prio_map_ok r"
      "prio_members r = insert p (ready s)"
    using rdy_enter_ok [OF t'(1) pL, of ?s] kinvD_rdy [OF K] by auto
  have lb: "link_bit (OSEventTbl_g s) t' = link_bit (OSEventTbl_g s) (OSTCBTbl s i)"
    using t'(4) by (simp add: link_bit_def)
  have "task_ok r (OSEventTbl_g s) p t'"
    using kinvD_task [OF K L] t' r(3) unfolding task_ok_def lb by auto
  then have "kinv (set_rdy r ?s)"
    using r(2,3) t'(4) by (intro kinv_update [OF K L, where t' = t']) auto
  with r that show thesis by blast
qed

end
