(* ===== verification/Task_Lists.thy ===== *)
theory Task_Lists
  imports Scheduling
begin

text \<open>
  The list of created tasks, the list of free control blocks, and what walks them or moves a
  block between them: the tick (\<open>OSTimeTick\<close>), the initialisation of a control block
  (\<open>OSTCBInit\<close>) and the unlinking in \<open>OSTaskDel\<close>. The two lists are disjoint and hold every block
  of the pool; the created tasks are the ones in the priority table, linked in both directions,
  and the idle task, created first, is the last of them. That is why the tick's walk, which
  stops at the idle task's priority, visits every other task and ends.
\<close>

section \<open>The invariant of the two lists\<close>

fun back_links :: "(nat \<Rightarrow> OS_TCB) \<Rightarrow> ptr \<Rightarrow> nat list \<Rightarrow> bool" where
  "back_links T p [] = True"
| "back_links T p (i # is) \<longleftrightarrow> OSTCBPrev (T i) = p \<and> back_links T (PTcb i) is"

abbreviation tcb_chain :: "(nat \<Rightarrow> OS_TCB) \<Rightarrow> ptr \<Rightarrow> nat list \<Rightarrow> bool" where
  "tcb_chain T \<equiv> chain PTcb (\<lambda>i. OSTCBNext (T i))"

definition tlists :: "os \<Rightarrow> nat list \<Rightarrow> nat list \<Rightarrow> bool" where
  "tlists s xs ys \<longleftrightarrow>
     tcb_chain (OSTCBTbl s) (OSTCBList s) xs \<and> back_links (OSTCBTbl s) PNull xs \<and>
     tcb_chain (OSTCBTbl s) (OSTCBFreeList s) ys \<and>
     distinct (xs @ ys) \<and> set (xs @ ys) = {..< N_TCB} \<and>
     (\<forall>i. i \<in> set xs \<longleftrightarrow> (\<exists>p. live s p i)) \<and>
     xs \<noteq> [] \<and> live s OS_IDLE_PRIO (last xs)"

definition tinv :: "os \<Rightarrow> bool" where
  "tinv s \<longleftrightarrow> (\<exists>xs ys. tlists s xs ys)"

lemma back_links_cong:
  "(\<And>i. i \<in> set is \<Longrightarrow> OSTCBPrev (T' i) = OSTCBPrev (T i)) \<Longrightarrow> back_links T' p is = back_links T p is"
  by (induction "is" arbitrary: p) auto

lemma tlists_frame:
  assumes "OSTCBPrioTbl s' = OSTCBPrioTbl s" "OSTCBList s' = OSTCBList s"
    "OSTCBFreeList s' = OSTCBFreeList s"
    "\<And>i. OSTCBNext (OSTCBTbl s' i) = OSTCBNext (OSTCBTbl s i)"
    "\<And>i. OSTCBPrev (OSTCBTbl s' i) = OSTCBPrev (OSTCBTbl s i)"
  shows "tlists s' xs ys = tlists s xs ys"
  using assms back_links_cong [of xs "OSTCBTbl s'" "OSTCBTbl s"] by (simp add: tlists_def live_def)

lemma tinv_frame:
  assumes "OSTCBPrioTbl s' = OSTCBPrioTbl s" "OSTCBList s' = OSTCBList s"
    "OSTCBFreeList s' = OSTCBFreeList s"
    "\<And>i. OSTCBNext (OSTCBTbl s' i) = OSTCBNext (OSTCBTbl s i)"
    "\<And>i. OSTCBPrev (OSTCBTbl s' i) = OSTCBPrev (OSTCBTbl s i)"
  shows "tinv s' = tinv s"
  using tlists_frame [OF assms] by (simp add: tinv_def)

lemma tlists_list_frame:
  assumes "tlists s xs ys" "OSTCBPrioTbl s' = OSTCBPrioTbl s" "OSTCBTbl s' = (OSTCBTbl s)(i := t)"
    "OSTCBList s' = OSTCBList s" "OSTCBFreeList s' = OSTCBFreeList s"
    "OSTCBNext t = OSTCBNext (OSTCBTbl s i)" "OSTCBPrev t = OSTCBPrev (OSTCBTbl s i)"
  shows "tlists s' xs ys"
  using assms(1) tlists_frame [of s' s] assms(2-) by simp

lemma same_but_sched_tinv: "same_but_sched s s' \<Longrightarrow> tinv s' = tinv s"
  by (rule tinv_frame) (simp_all add: same_but_sched_frame)

lemma tlists_lt: "tlists s xs ys \<Longrightarrow> i \<in> set xs \<or> i \<in> set ys \<Longrightarrow> i < N_TCB"
  unfolding tlists_def by auto

section \<open>The tick\<close>

text \<open>What one tick does to a task's control block, and to the ready list.\<close>

definition ticked :: "OS_TCB \<Rightarrow> OS_TCB" where
  "ticked t = (if OSTCBDly t = 0 \<or> OSTCBDly t = 1 \<and> suspended t then t
               else t\<lparr>OSTCBDly := OSTCBDly t - 1\<rparr>)"

definition expires :: "OS_TCB \<Rightarrow> bool" where
  "expires t \<longleftrightarrow> OSTCBDly t = 1 \<and> \<not> suspended t"

lemma ticked_sel [simp]:
  "OSTCBNext (ticked t) = OSTCBNext t" "OSTCBPrev (ticked t) = OSTCBPrev t"
  "OSTCBEventPtr (ticked t) = OSTCBEventPtr t" "OSTCBStat (ticked t) = OSTCBStat t"
  "OSTCBPrio (ticked t) = OSTCBPrio t" "OSTCBMsg (ticked t) = OSTCBMsg t"
  "prio_fields (ticked t) = prio_fields t" "suspended (ticked t) = suspended t"
  "link_bit E (ticked t) = link_bit E t"
  by (simp_all add: ticked_def)

lemma tick_task_post:
  assumes K: "kinv s" and L: "live s p i"
  obtains s' where "tick_task (PTcb i) s = Some s'" and "kinv s'" and "same_but_task s s'"
    and "OSTCBTbl s' = (OSTCBTbl s)(i := ticked (OSTCBTbl s i))"
    and "ready s' = (if expires (OSTCBTbl s i) then insert p (ready s) else ready s)"
    and "OSEventTbl_g s' = OSEventTbl_g s"
proof -
  let ?t = "OSTCBTbl s i"
  let ?s = "\<lambda>t. s\<lparr>OSTCBTbl := (OSTCBTbl s)(i := t)\<rparr>"
  have iN: "i < N_TCB" and pL: "p \<le> OS_LOWEST_PRIO" using L by (auto simp: live_def)
  note ok = kinvD_task [OF K L]
  show thesis
  proof (cases "expires ?t")
    case True
    then have t: "OSTCBDly ?t = 1" "\<not> suspended ?t" "ticked ?t = ?t\<lparr>OSTCBDly := 0\<rparr>"
      by (simp_all add: expires_def ticked_def)
    obtain r where r: "rdy_enter (ticked ?t) (?s (ticked ?t)) = Some (set_rdy r (?s (ticked ?t)))"
      "prio_members r = insert p (ready s)" "kinv (set_rdy r (?s (ticked ?t)))"
      using kinv_make_ready [OF K L, of "ticked ?t"] ok t unfolding task_ok_def by auto
    have "tick_task (PTcb i) s = Some (set_rdy r (?s (ticked ?t)))"
      using iN t r(1) by (simp add: tick_task_def suspended_def Let_def)
    moreover have "same_but_task s (set_rdy r (?s (ticked ?t)))"
      by (simp add: same_but_task_def set_rdy_def)
    ultimately show thesis using that r(2,3) True by simp
  next
    case False
    have eta: "?t\<lparr>OSTCBDly := 1\<rparr> = ?t" if "OSTCBDly ?t = 1" using that by simp
    consider "OSTCBDly ?t = 0" | "OSTCBDly ?t = 1" "suspended ?t" | "OSTCBDly ?t \<noteq> 0" "OSTCBDly ?t \<noteq> 1"
      using False by (auto simp: expires_def)
    then have u: "tick_task (PTcb i) s = Some (?s (ticked ?t))"
    proof cases
      case 1
      then show ?thesis using iN by (simp add: tick_task_def ticked_def)
    next
      case 2
      then have "ticked ?t = ?t" by (simp add: ticked_def)
      moreover have "tick_task (PTcb i) s = Some (?s (?t\<lparr>OSTCBDly := 1\<rparr>))"
        using 2 iN by (simp add: tick_task_def suspended_def Let_def)
      ultimately show ?thesis using eta [OF 2(1)] by (simp only:)
    next
      case 3
      then have "ticked ?t = ?t\<lparr>OSTCBDly := OSTCBDly ?t - 1\<rparr>" "OSTCBDly ?t - 1 \<noteq> 0"
        by (simp_all add: ticked_def)
      with 3(1) iN show ?thesis by (simp add: tick_task_def Let_def)
    qed
    have "OSTCBDly (ticked ?t) = 0 \<longleftrightarrow> OSTCBDly ?t = 0"
      using False by (auto simp: ticked_def expires_def)
    then have "task_ok (rdy s) (OSEventTbl_g s) p (ticked ?t)"
      using ok unfolding task_ok_def by simp
    then have "kinv (?s (ticked ?t))"
      using kinvD_rdy [OF K] kinvD_idle [OF K]
      by (intro kinv_update [OF K L, where t' = "ticked ?t"]) auto
    moreover have "same_but_task s (?s (ticked ?t))" by (simp add: same_but_task_def)
    ultimately show thesis using that [OF u] False by simp
  qed
qed

text \<open>The walk over the rest of the list ticks every task on it but the idle task.\<close>

lemma tick_walk_post:
  assumes "kinv s" and "tcb_chain (OSTCBTbl s) h xs" and "distinct xs" and "xs \<noteq> []"
    and "\<And>i. i \<in> set xs \<Longrightarrow> \<exists>p. live s p i" and "live s OS_IDLE_PRIO (last xs)"
    and "length xs \<le> n"
  shows "\<exists>s'. tick_walk n h s = Some s' \<and> kinv s' \<and> same_but_task s s'
    \<and> OSTCBTbl s' = (\<lambda>i. if i \<in> set xs then ticked (OSTCBTbl s i) else OSTCBTbl s i)
    \<and> ready s' = ready s \<union> {p. \<exists>i \<in> set xs. live s p i \<and> expires (OSTCBTbl s i)}
    \<and> OSEventTbl_g s' = OSEventTbl_g s"
  using assms
proof (induction n arbitrary: s h xs)
  case 0
  then show ?case by simp
next
  case (Suc n)
  note K = Suc.prems(1)
  obtain i zs where xs: "xs = i # zs" using Suc.prems(4) by (cases xs) auto
  then have h: "h = PTcb i" and nx: "tcb_chain (OSTCBTbl s) (OSTCBNext (OSTCBTbl s i)) zs"
    and fresh: "i \<notin> set zs" "distinct zs"
    using Suc.prems(2,3) by auto
  obtain p where L: "live s p i" using Suc.prems(5) xs by auto
  have iN: "i < N_TCB" using L by (simp add: live_def)
  have pr: "unat (OSTCBPrio (OSTCBTbl s i)) = p"
    using live_prio [OF K L] by (simp add: prio_fields_def)
  show ?case
  proof (cases "p = OS_IDLE_PRIO")
    case True
    then have "i = last xs" using L Suc.prems(6) live_unique by blast
    then have [simp]: "zs = []" using xs fresh(1) by (metis last_ConsR last_in_set)
    have d0: "OSTCBDly (OSTCBTbl s i) = 0"
      using kinvD_task [OF K L] kinvD_idle [OF K] True by (simp add: task_ok_def)
    then have "tick_walk (Suc n) h s = Some s" and "ticked (OSTCBTbl s i) = OSTCBTbl s i"
      and "\<not> expires (OSTCBTbl s i)"
      using True pr h iN by (auto simp: ticked_def expires_def)
    moreover have "(\<lambda>j. if j \<in> set xs then ticked (OSTCBTbl s j) else OSTCBTbl s j) = OSTCBTbl s"
      using calculation(2) xs by auto
    ultimately show ?thesis using K xs same_but_task_refl [of s]
      by (intro exI [of _ s]) (auto simp del: tick_walk.simps)
  next
    case False
    obtain s1 where s1: "tick_task (PTcb i) s = Some s1" "kinv s1" "same_but_task s s1"
      "OSTCBTbl s1 = (OSTCBTbl s)(i := ticked (OSTCBTbl s i))"
      "ready s1 = (if expires (OSTCBTbl s i) then insert p (ready s) else ready s)"
      "OSEventTbl_g s1 = OSEventTbl_g s"
      using tick_task_post [OF K L] .
    have "zs \<noteq> []" using False L Suc.prems(6) xs live_inj [OF K] by force
    have lv: "live s1 = live s" using same_but_task_live [OF s1(3)] by (intro ext)
    have "(\<lambda>j. OSTCBNext (OSTCBTbl s1 j)) = (\<lambda>j. OSTCBNext (OSTCBTbl s j))"
      unfolding s1(4) by (rule ext) simp
    then have nx1: "tcb_chain (OSTCBTbl s1) (OSTCBNext (OSTCBTbl s i)) zs"
      using nx by (simp only:)
    have "\<exists>s'. tick_walk n (OSTCBNext (OSTCBTbl s i)) s1 = Some s' \<and> kinv s' \<and> same_but_task s1 s'
      \<and> OSTCBTbl s' = (\<lambda>j. if j \<in> set zs then ticked (OSTCBTbl s1 j) else OSTCBTbl s1 j)
      \<and> ready s' = ready s1 \<union> {p. \<exists>j \<in> set zs. live s1 p j \<and> expires (OSTCBTbl s1 j)}
      \<and> OSEventTbl_g s' = OSEventTbl_g s1"
      using Suc.prems xs \<open>zs \<noteq> []\<close> lv by (intro Suc.IH [OF s1(2) nx1 fresh(2)]) auto
    then obtain s' where s': "tick_walk n (OSTCBNext (OSTCBTbl s i)) s1 = Some s'" "kinv s'"
      "same_but_task s1 s'"
      "OSTCBTbl s' = (\<lambda>j. if j \<in> set zs then ticked (OSTCBTbl s1 j) else OSTCBTbl s1 j)"
      "ready s' = ready s1 \<union> {p. \<exists>j \<in> set zs. live s p j \<and> expires (OSTCBTbl s1 j)}"
      "OSEventTbl_g s' = OSEventTbl_g s1"
      using lv by auto
    have "tick_walk (Suc n) h s = tick_walk n (OSTCBNext (OSTCBTbl s i)) s1"
      using h iN pr False s1(1,4) by simp
    then have "tick_walk (Suc n) h s = Some s'" using s'(1) by simp
    moreover have "OSTCBTbl s' = (\<lambda>j. if j \<in> set xs then ticked (OSTCBTbl s j) else OSTCBTbl s j)"
      using s'(4) s1(4) xs fresh by auto
    moreover have "ready s' = ready s \<union> {q. \<exists>j \<in> set xs. live s q j \<and> expires (OSTCBTbl s j)}"
    proof -
      have e1: "(\<exists>j \<in> set zs. live s q j \<and> expires (OSTCBTbl s1 j))
          \<longleftrightarrow> (\<exists>j \<in> set zs. live s q j \<and> expires (OSTCBTbl s j))" for q
      proof (rule bex_cong [OF refl])
        fix j assume "j \<in> set zs"
        then have "OSTCBTbl s1 j = OSTCBTbl s j" unfolding s1(4) using fresh(1) by auto
        then show "(live s q j \<and> expires (OSTCBTbl s1 j)) = (live s q j \<and> expires (OSTCBTbl s j))"
          by simp
      qed
      have lq: "live s q i \<longleftrightarrow> q = p" for q using L live_inj [OF K L] by blast
      have e2: "(\<exists>j \<in> set xs. live s q j \<and> expires (OSTCBTbl s j))
          \<longleftrightarrow> expires (OSTCBTbl s i) \<and> q = p \<or> (\<exists>j \<in> set zs. live s q j \<and> expires (OSTCBTbl s j))" for q
        by (simp add: xs lq conj_commute)
      have "ready s' = ready s1 \<union> {q. \<exists>j \<in> set zs. live s q j \<and> expires (OSTCBTbl s j)}"
        unfolding s'(5) e1 by (rule refl)
      moreover have "ready s1 = ready s \<union> {q. expires (OSTCBTbl s i) \<and> q = p}"
        unfolding s1(5) by (simp split: if_split)
      ultimately show ?thesis unfolding e2 by blast
    qed
    moreover have "same_but_task s s'" using s1(3) s'(3) by (rule same_but_task_trans)
    moreover have "OSEventTbl_g s' = OSEventTbl_g s" using s1(6) s'(6) by simp
    ultimately show ?thesis using s'(2) by blast
  qed
qed

lemma tlists_length: "tlists s xs ys \<Longrightarrow> length xs \<le> N_TCB"
proof -
  assume "tlists s xs ys"
  then have "distinct xs" "set xs \<subseteq> {..< N_TCB}" unfolding tlists_def by auto
  then show ?thesis using card_mono [of "{..< N_TCB}" "set xs"] by (simp add: distinct_card)
qed

lemma same_but_task_tinv:
  "same_but_task s s' \<Longrightarrow> (\<And>i. OSTCBNext (OSTCBTbl s' i) = OSTCBNext (OSTCBTbl s i)) \<Longrightarrow>
    (\<And>i. OSTCBPrev (OSTCBTbl s' i) = OSTCBPrev (OSTCBTbl s i)) \<Longrightarrow> tinv s' = tinv s"
  by (rule tinv_frame) (simp_all add: same_but_task_frame)

lemma OSTimeTick_post:
  assumes K: "kinv s" and I: "tinv s"
  obtains s1 where "OSTimeTick s = Some (s1\<lparr>OSTime := OSTime s + 1\<rparr>)" and "kinv s1"
    and "same_but_task s s1" and "tinv s1"
    and "\<forall>p i. live s p i \<longrightarrow> OSTCBTbl s1 i = ticked (OSTCBTbl s i)"
    and "ready s1 = ready s \<union> {p. \<exists>i. live s p i \<and> expires (OSTCBTbl s i)}"
    and "OSEventTbl_g s1 = OSEventTbl_g s"
proof -
  obtain xs ys where xs: "tlists s xs ys" using I by (auto simp: tinv_def)
  then have c: "tcb_chain (OSTCBTbl s) (OSTCBList s) xs" "distinct xs" "xs \<noteq> []"
    "\<And>i. i \<in> set xs \<longleftrightarrow> (\<exists>p. live s p i)" "live s OS_IDLE_PRIO (last xs)"
    by (auto simp: tlists_def)
  obtain s1 where s1: "tick_walk N_TCB (OSTCBList s) s = Some s1" "kinv s1" "same_but_task s s1"
    "OSTCBTbl s1 = (\<lambda>i. if i \<in> set xs then ticked (OSTCBTbl s i) else OSTCBTbl s i)"
    "ready s1 = ready s \<union> {p. \<exists>i \<in> set xs. live s p i \<and> expires (OSTCBTbl s i)}"
    "OSEventTbl_g s1 = OSEventTbl_g s"
    using tick_walk_post [OF K c(1-3) _ c(5) tlists_length [OF xs]] c(4) by blast
  have "OSTime s1 = OSTime s" using same_but_task_frame(17) [OF s1(3)] .
  then have "OSTimeTick s = Some (s1\<lparr>OSTime := OSTime s + 1\<rparr>)"
    using s1(1) by (simp add: OSTimeTick_def OSTimeTickHook_def Let_def)
  moreover have "tinv s1"
    using same_but_task_tinv [OF s1(3)] s1(4) I by simp
  moreover have "ready s1 = ready s \<union> {p. \<exists>i. live s p i \<and> expires (OSTCBTbl s i)}"
    using s1(5) c(4) by blast
  moreover have "OSTCBTbl s1 i = ticked (OSTCBTbl s i)" if "live s p i" for p i
    using that s1(4) c(4) by auto
  ultimately show thesis using that [OF _ s1(2,3) _ _ _ s1(6)] by blast
qed

end
