(* ===== verification/Event_Contract.thy ===== *)
theory Event_Contract
  imports Task_Lists
begin

text \<open>
  What semaphores, mailboxes and queues have in common. All three make the calling task wait
  with the same statements and ready a waiting task with the same call, so the contract of a
  post that finds a waiting task and of a pend that has to wait is stated once, in the locales
  \<open>event_post\<close> and \<open>event_pend\<close>; the theories of the three services interpret them on their own
  functions. The pool of free event control blocks, from which all three are created, is here
  too.
\<close>

section \<open>Calls that may block\<close>

text \<open>A call that has to wait gives up the processor inside \<open>OSSched\<close>. If another task becomes
  current the call has not returned: its second half runs when the scheduler makes the caller
  current again, and is a definition of its own. If the caller stays current (the scheduler is
  locked) the second half follows at once.\<close>

datatype 'a outcome = Returned 'a | Blocked

definition continue :: "os \<Rightarrow> os \<Rightarrow> (os \<Rightarrow> ('a \<times> os) option) \<Rightarrow> ('a outcome \<times> os) option" where
  "continue s s' second_half =
     (if OSTCBCur s' = OSTCBCur s
      then do { (v, s'') \<leftarrow> second_half s'; Some (Returned v, s'') }
      else Some (Blocked, s'))"

text \<open>The statements by which the three pend functions make the current task wait.\<close>

definition event_block :: "INT8U \<Rightarrow> INT16U \<Rightarrow> ptr \<Rightarrow> os \<Rightarrow> os option" where
  "event_block b timeout pevent s = do {
     t \<leftarrow> tcb_at s (OSTCBCur s);
     let s1 = put_tcb (OSTCBCur s) (t\<lparr>OSTCBStat := OSTCBStat t OR b, OSTCBDly := timeout\<rparr>) s;
     s2 \<leftarrow> OSEventTaskWait pevent s1;
     OSSched s2
   }"

text \<open>The statements by which the three create functions take a free event control block.\<close>

definition event_alloc :: "os \<Rightarrow> (ptr \<times> os) option" where
  "event_alloc s =
     (if OSEventFreeList s \<noteq> PNull
      then do {
        e \<leftarrow> event_at s (OSEventFreeList s);
        Some (OSEventFreeList s, s\<lparr>OSEventFreeList := OSEventPtr e\<rparr>)
      }
      else Some (PNull, s))"

lemma waiters_at: "waiters s = f \<Longrightarrow> waiters s d = f d"
  by (rule fun_cong)

section \<open>The running task\<close>

text \<open>A state in which a task executes application code: it is the highest priority ready task,
  neither an interrupt handler runs nor the scheduler is locked, and it is not in the middle of
  a wait.\<close>

definition task_level :: "os \<Rightarrow> bool" where
  "task_level s \<longleftrightarrow> kinv s \<and> tinv s \<and> cur_ok s \<and> unlocked s \<and> unat (OSPrioCur s) = highest_ready s"

definition cur_task :: "os \<Rightarrow> OS_TCB" where
  "cur_task s = (case OSTCBCur s of PTcb i \<Rightarrow> OSTCBTbl s i)"

text \<open>The postcondition of a service that ends in a call of the scheduler.\<close>

definition stable :: "os \<Rightarrow> bool" where
  "stable s \<longleftrightarrow> kinv s \<and> tinv s \<and> cur_ok s \<and> (unlocked s \<longrightarrow> unat (OSPrioCur s) = highest_ready s)"

lemma task_level_stable: "task_level s \<Longrightarrow> stable s"
  by (simp add: task_level_def stable_def)

lemma task_level_iff: "task_level s \<longleftrightarrow> stable s \<and> unlocked s"
  by (auto simp: task_level_def stable_def)

lemma task_levelE:
  assumes "task_level s"
  obtains p i where "p = unat (OSPrioCur s)" and "p = highest_ready s" and "live s p i"
    and "OSTCBCur s = PTcb i" and "p \<in> ready s" and "cur_task s = OSTCBTbl s i"
  using assms highest_ready_in by (auto simp: task_level_def cur_ok_def cur_task_def)

section \<open>A post that readies a task\<close>

text \<open>Readying the task and calling the scheduler, as every post does.\<close>

lemma ready_and_sched:
  assumes S: "stable s" and e: "e < OS_MAX_EVENTS" and W: "waiters s e \<noteq> {}"
    and b: "b = ev_bit (OSEventType (OSEventTbl_g s e))"
  obtains s1 s2 p i where "OSEventTaskRdy (PEvent e) msg b s = Some s1" and "OSSched s1 = Some s2"
    and "p = Min (waiters s e)" and "live s p i" and "stable s2"
    and "OSTCBTbl s2 = (OSTCBTbl s)(i := readied msg b (OSTCBTbl s i))"
    and "ready s2 = (if suspended (OSTCBTbl s i) then ready s else insert p (ready s))"
    and "waiters s2 = (waiters s)(e := waiters s e - {p})"
    and "same_but_task s s1" and "same_but_sched s1 s2"
    and "\<forall>d. d \<noteq> e \<longrightarrow> OSEventTbl_g s2 d = OSEventTbl_g s d"
    and "OSEventPtr (OSEventTbl_g s2 e) = OSEventPtr (OSEventTbl_g s e)"
    and "OSEventCnt (OSEventTbl_g s2 e) = OSEventCnt (OSEventTbl_g s e)"
    and "OSEventType (OSEventTbl_g s2 e) = OSEventType (OSEventTbl_g s e)"
proof -
  have K: "kinv s" and T: "tinv s" and C: "cur_ok s" using S by (auto simp: stable_def)
  obtain s1 p i where r: "OSEventTaskRdy (PEvent e) msg b s = Some s1"
    "p = Min (waiters s e)" "live s p i" "kinv s1" "same_but_task s s1"
    "OSTCBTbl s1 = (OSTCBTbl s)(i := readied msg b (OSTCBTbl s i))"
    "ready s1 = (if suspended (OSTCBTbl s i) then ready s else insert p (ready s))"
    "waiters s1 = (waiters s)(e := waiters s e - {p})"
    "\<forall>d. d \<noteq> e \<longrightarrow> OSEventTbl_g s1 d = OSEventTbl_g s d"
    "OSEventPtr (OSEventTbl_g s1 e) = OSEventPtr (OSEventTbl_g s e)"
    "OSEventCnt (OSEventTbl_g s1 e) = OSEventCnt (OSEventTbl_g s e)"
    "OSEventType (OSEventTbl_g s1 e) = OSEventType (OSEventTbl_g s e)"
    using OSEventTaskRdy_post [OF K e W b] by blast
  have C1: "cur_ok s1" using C same_but_task_cur [OF r(5)] by simp
  obtain s2 where s2: "OSSched s1 = Some s2" "same_but_sched s1 s2" "kinv s2" "cur_ok s2"
    "unlocked s1 \<longrightarrow> unat (OSPrioCur s2) = highest_ready s1"
    using OSSched_post [OF r(4)] C1 by blast
  have "tinv s1"
    using T same_but_task_tinv [OF r(5)] r(6) by (simp add: readied_def)
  then have "stable s2"
    using s2 same_but_sched_tinv same_but_sched_unlocked same_but_sched_highest
    by (simp add: stable_def)
  with r(1-3,5-12) s2(1,2) that show thesis
    by (simp add: same_but_sched_frame [OF s2(2)])
qed

text \<open>The contract of the post functions: the type code of their events, and what they do when a
  task waits.\<close>

locale event_post =
  fixes post :: "nat \<Rightarrow> ptr \<Rightarrow> os \<Rightarrow> (INT8U \<times> os) option"
    and ety :: INT8U
    and carries :: "ptr \<Rightarrow> ptr"
  assumes wakes: "e < OS_MAX_EVENTS \<Longrightarrow> OSEventType (OSEventTbl_g s e) = ety \<Longrightarrow>
      OSEventGrp (OSEventTbl_g s e) \<noteq> 0 \<Longrightarrow>
      post e msg s = do {
        s1 \<leftarrow> OSEventTaskRdy (PEvent e) (carries msg) (ev_bit ety) s;
        s2 \<leftarrow> OSSched s1;
        Some (OS_NO_ERR, s2)
      }"
    and rejects: "e < OS_MAX_EVENTS \<Longrightarrow> OSEventType (OSEventTbl_g s e) \<noteq> ety \<Longrightarrow>
      post e msg s = Some (OS_ERR_EVENT_TYPE, s)"
begin

text \<open>A post to an event that has waiting tasks never fails, gives the event to the one of highest
  priority and to no other, and leaves the highest priority ready task running.\<close>

lemma post_wakes_highest:
  assumes S: "stable s" and e: "e < OS_MAX_EVENTS" and W: "waiters s e \<noteq> {}"
    and ty: "OSEventType (OSEventTbl_g s e) = ety"
  obtains s2 p i where "post e msg s = Some (OS_NO_ERR, s2)" and "p = Min (waiters s e)"
    and "live s p i" and "stable s2"
    and "OSTCBTbl s2 = (OSTCBTbl s)(i := readied (carries msg) (ev_bit ety) (OSTCBTbl s i))"
    and "ready s2 = (if suspended (OSTCBTbl s i) then ready s else insert p (ready s))"
    and "waiters s2 = (waiters s)(e := waiters s e - {p})"
    and "\<forall>d. d \<noteq> e \<longrightarrow> OSEventTbl_g s2 d = OSEventTbl_g s d"
    and "OSEventPtr (OSEventTbl_g s2 e) = OSEventPtr (OSEventTbl_g s e)"
    and "OSEventCnt (OSEventTbl_g s2 e) = OSEventCnt (OSEventTbl_g s e)"
    and "OSEventType (OSEventTbl_g s2 e) = OSEventType (OSEventTbl_g s e)"
    and "\<exists>s1. same_but_task s s1 \<and> same_but_sched s1 s2"
proof -
  have "kinv s" using S by (simp add: stable_def)
  then have g: "OSEventGrp (OSEventTbl_g s e) \<noteq> 0"
    using W prios_empty_iff [OF kinvD_wait [OF _ e]] by (simp add: waiting_def)
  obtain s1 s2 p i where r: "OSEventTaskRdy (PEvent e) (carries msg) (ev_bit ety) s = Some s1"
    "OSSched s1 = Some s2" "p = Min (waiters s e)" "live s p i" "stable s2"
    "OSTCBTbl s2 = (OSTCBTbl s)(i := readied (carries msg) (ev_bit ety) (OSTCBTbl s i))"
    "ready s2 = (if suspended (OSTCBTbl s i) then ready s else insert p (ready s))"
    "waiters s2 = (waiters s)(e := waiters s e - {p})"
    "same_but_task s s1" "same_but_sched s1 s2"
    "\<forall>d. d \<noteq> e \<longrightarrow> OSEventTbl_g s2 d = OSEventTbl_g s d"
    "OSEventPtr (OSEventTbl_g s2 e) = OSEventPtr (OSEventTbl_g s e)"
    "OSEventCnt (OSEventTbl_g s2 e) = OSEventCnt (OSEventTbl_g s e)"
    "OSEventType (OSEventTbl_g s2 e) = OSEventType (OSEventTbl_g s e)"
    using ready_and_sched [OF S e W, of "ev_bit ety"] ty by blast
  have "post e msg s = Some (OS_NO_ERR, s2)"
    using wakes [OF e ty g] r(1,2) by simp
  moreover have "\<exists>s1. same_but_task s s1 \<and> same_but_sched s1 s2" using r(9,10) by blast
  ultimately show thesis by (rule that [OF _ r(3-8,11-14)])
qed

end

section \<open>A pend that waits\<close>

lemma unlocked_event_block:
  assumes T: "task_level s" and e: "e < OS_MAX_EVENTS" and np: "OSTCBEventPtr (cur_task s) = PNull"
    and nidle: "unat (OSPrioCur s) \<noteq> OS_IDLE_PRIO"
    and b: "b = ev_bit (OSEventType (OSEventTbl_g s e))" "b \<noteq> OS_STAT_RDY"
  obtains s' i where "event_block b timeout (PEvent e) s = Some s'" and "task_level s'"
    and "OSTCBCur s = PTcb i" and "OSTCBCur s' \<noteq> OSTCBCur s"
    and "OSTCBTbl s' = (OSTCBTbl s)(i := blocked (PEvent e) b timeout (OSTCBTbl s i))"
    and "ready s' = ready s - {unat (OSPrioCur s)}"
    and "waiters s' = (waiters s)(e := insert (unat (OSPrioCur s)) (waiters s e))"
    and "\<forall>d. d \<noteq> e \<longrightarrow> OSEventTbl_g s' d = OSEventTbl_g s d"
    and "OSEventPtr (OSEventTbl_g s' e) = OSEventPtr (OSEventTbl_g s e)"
    and "OSEventCnt (OSEventTbl_g s' e) = OSEventCnt (OSEventTbl_g s e)"
    and "OSEventType (OSEventTbl_g s' e) = OSEventType (OSEventTbl_g s e)"
    and "\<exists>s1. same_but_task s s1 \<and> same_but_sched s1 s'"
proof -
  obtain p i where p: "p = unat (OSPrioCur s)" "p = highest_ready s" and L: "live s p i"
    and C: "OSTCBCur s = PTcb i" and R: "p \<in> ready s" and ct: "cur_task s = OSTCBTbl s i"
    using task_levelE [OF T] .
  have K: "kinv s" and TI: "tinv s" and CO: "cur_ok s" and U: "unlocked s"
    using T by (auto simp: task_level_def)
  obtain s1 where s1: "OSEventTaskWait (PEvent e) (s\<lparr>OSTCBTbl := (OSTCBTbl s)(i :=
        (OSTCBTbl s i)\<lparr>OSTCBStat := OSTCBStat (OSTCBTbl s i) OR b, OSTCBDly := timeout\<rparr>)\<rparr>) = Some s1"
    "kinv s1" "same_but_task s s1"
    "OSTCBTbl s1 = (OSTCBTbl s)(i := blocked (PEvent e) b timeout (OSTCBTbl s i))"
    "ready s1 = ready s - {p}" "waiters s1 = (waiters s)(e := insert p (waiters s e))"
    "\<forall>d. d \<noteq> e \<longrightarrow> OSEventTbl_g s1 d = OSEventTbl_g s d"
    "OSEventPtr (OSEventTbl_g s1 e) = OSEventPtr (OSEventTbl_g s e)"
    "OSEventCnt (OSEventTbl_g s1 e) = OSEventCnt (OSEventTbl_g s e)"
    "OSEventType (OSEventTbl_g s1 e) = OSEventType (OSEventTbl_g s e)"
    using OSEventTaskWait_post [OF K e L C R np [unfolded ct] nidle [folded p(1)] b, where timeout = timeout] .
  have C1: "cur_ok s1" using CO same_but_task_cur [OF s1(3)] by simp
  obtain s2 where s2: "OSSched s1 = Some s2" "same_but_sched s1 s2" "kinv s2" "cur_ok s2"
    "unlocked s1 \<longrightarrow> unat (OSPrioCur s2) = highest_ready s1"
    using OSSched_post [OF s1(2)] C1 by blast
  have U1: "unlocked s1" using U same_but_task_unlocked [OF s1(3)] by simp
  have "tinv s1" using TI same_but_task_tinv [OF s1(3)] s1(4) by (simp add: blocked_def)
  then have T2: "task_level s2"
    using s2 U1 same_but_sched_tinv same_but_sched_unlocked same_but_sched_highest
    by (simp add: task_level_def)
  have "unat (OSPrioCur s2) \<in> ready s1"
    using s2(5) U1 highest_ready_in [OF s1(2)] by simp
  then have ne: "unat (OSPrioCur s2) \<noteq> p" using s1(5) by auto
  have "OSTCBCur s2 \<noteq> PTcb i"
  proof
    assume "OSTCBCur s2 = PTcb i"
    then have "live s2 (unat (OSPrioCur s2)) i" using s2(4) by (auto simp: cur_ok_def)
    moreover have "live s2 p i"
      using L same_but_task_live [OF s1(3)] same_but_sched_live [OF s2(2)] by simp
    ultimately show False using live_inj [OF s2(3)] ne by blast
  qed
  moreover have "event_block b timeout (PEvent e) s = Some s2"
    using C L s1(1) s2(1) by (simp add: event_block_def live_def)
  ultimately show thesis
    using that [OF _ T2 C] C s1(3-10) s2(2) p(1)
    by (simp add: same_but_sched_frame [OF s2(2)] del: fun_upd_apply) blast
qed

text \<open>The contract of the pend functions: the type code of their events, when an event has
  something to give, and what they do when it has not.\<close>

locale event_pend =
  fixes pend :: "nat \<Rightarrow> INT16U \<Rightarrow> os \<Rightarrow> ('r outcome \<times> os) option"
    and ety :: INT8U
    and available :: "os \<Rightarrow> nat \<Rightarrow> bool"
    and second_half :: "os \<Rightarrow> nat \<Rightarrow> os \<Rightarrow> ('r \<times> os) option"
  assumes waits: "e < OS_MAX_EVENTS \<Longrightarrow> OSEventType (OSEventTbl_g s e) = ety \<Longrightarrow>
      \<not> available s e \<Longrightarrow> OSIntNesting s = 0 \<Longrightarrow>
      pend e timeout s = do {
        s' \<leftarrow> event_block (ev_bit ety) timeout (PEvent e) s;
        continue s s' (second_half s e)
      }"
    and ety_bit: "ev_bit ety \<noteq> OS_STAT_RDY"
begin

text \<open>A pend on an event that has nothing to give always blocks: the caller leaves the ready list,
  joins the wait list with its timeout, and another task runs.\<close>

lemma pend_blocks:
  assumes T: "task_level s" and e: "e < OS_MAX_EVENTS" and np: "OSTCBEventPtr (cur_task s) = PNull"
    and nidle: "unat (OSPrioCur s) \<noteq> OS_IDLE_PRIO"
    and ty: "OSEventType (OSEventTbl_g s e) = ety" and na: "\<not> available s e"
  obtains s' i where "pend e timeout s = Some (Blocked, s')" and "task_level s'"
    and "OSTCBCur s = PTcb i" and "OSTCBCur s' \<noteq> OSTCBCur s"
    and "OSTCBTbl s' = (OSTCBTbl s)(i := blocked (PEvent e) (ev_bit ety) timeout (OSTCBTbl s i))"
    and "ready s' = ready s - {unat (OSPrioCur s)}"
    and "waiters s' = (waiters s)(e := insert (unat (OSPrioCur s)) (waiters s e))"
proof -
  have "OSIntNesting s = 0" using T by (simp add: task_level_def unlocked_def)
  note w = waits [OF e ty na this]
  have b: "ev_bit ety = ev_bit (OSEventType (OSEventTbl_g s e))" by (simp add: ty)
  show thesis
  proof (rule unlocked_event_block [OF T e np nidle b ety_bit, where timeout = timeout])
    fix s' i
    assume r: "event_block (ev_bit ety) timeout (PEvent e) s = Some s'" "OSTCBCur s' \<noteq> OSTCBCur s"
    then have "pend e timeout s = Some (Blocked, s')" by (simp add: w continue_def)
    moreover assume "task_level s'" "OSTCBCur s = PTcb i"
      "OSTCBTbl s' = (OSTCBTbl s)(i := blocked (PEvent e) (ev_bit ety) timeout (OSTCBTbl s i))"
      "ready s' = ready s - {unat (OSPrioCur s)}"
      "waiters s' = (waiters s)(e := insert (unat (OSPrioCur s)) (waiters s e))"
    ultimately show thesis using r(2) by (intro that)
  qed
qed

end

section \<open>The pool of free event control blocks\<close>

definition elist :: "os \<Rightarrow> nat list \<Rightarrow> bool" where
  "elist s es \<longleftrightarrow>
     chain PEvent (\<lambda>e. OSEventPtr (OSEventTbl_g s e)) (OSEventFreeList s) es \<and> distinct es \<and>
     (\<forall>e \<in> set es. e < OS_MAX_EVENTS \<and> OSEventType (OSEventTbl_g s e) = 0 \<and> waiters s e = {})"

definition einv :: "os \<Rightarrow> bool" where
  "einv s \<longleftrightarrow> (\<exists>es. elist s es)"

text \<open>A change to an event in use leaves the pool alone.\<close>

lemma elist_used:
  assumes "elist s es" and "OSEventType (OSEventTbl_g s e) \<noteq> 0"
    and "\<forall>d. d \<noteq> e \<longrightarrow> OSEventTbl_g s' d = OSEventTbl_g s d" and "OSEventFreeList s' = OSEventFreeList s"
  shows "elist s' es"
proof -
  have "OSEventTbl_g s' d = OSEventTbl_g s d" if "d \<in> set es" for d
    using assms(1-3) that unfolding elist_def by metis
  then show ?thesis
    using assms(1,4) chain_cong [of es "\<lambda>e. OSEventPtr (OSEventTbl_g s' e)"] by (simp add: elist_def)
qed

lemma einv_used:
  "einv s \<Longrightarrow> OSEventType (OSEventTbl_g s e) \<noteq> 0 \<Longrightarrow>
   (\<forall>d. d \<noteq> e \<longrightarrow> OSEventTbl_g s' d = OSEventTbl_g s d) \<Longrightarrow> OSEventFreeList s' = OSEventFreeList s \<Longrightarrow>
   einv s'"
  unfolding einv_def using elist_used by blast

lemma event_alloc_post:
  assumes "elist s es"
  shows "event_alloc s = (case es of [] \<Rightarrow> Some (PNull, s)
    | e # es' \<Rightarrow> Some (PEvent e, s\<lparr>OSEventFreeList := OSEventPtr (OSEventTbl_g s e)\<rparr>))"
  using assms by (auto simp: event_alloc_def elist_def split: list.splits)

end
