(* ===== verification/Sample_State.thy ===== *)
theory Sample_State
  imports Event_Contract
begin

text \<open>
  A concrete kernel state, at which the theorems of the other theories are applied to show that
  their hypotheses can hold together. Ten tasks exist: the idle task (priority 20), the
  statistics task (19), the running task (5), four tasks that wait for a semaphore (7), a
  mailbox (9), a queue (10) and a timed semaphore (11), one delayed task (12), one suspended task
  (13) and one that is both delayed and suspended (14). The invariants are bounded statements on
  such a state and are checked by evaluation, after the rewriting into lists of this theory.
\<close>

section \<open>Deciding the invariants\<close>

lemma all_less_list: "(\<forall>i < n. P i) \<longleftrightarrow> list_all P [0..<n]"
  by (auto simp: list_all_iff)

lemma prio_members_list:
  "prio_members m = set (filter (\<lambda>p. bit (snd m (p div 8)) (p mod 8)) [0 ..< 8 * OS_RDY_TBL_SIZE])"
  by (auto simp: prios_def)

definition tbl_wf_list :: "prio_map \<Rightarrow> bool" where
  "tbl_wf_list m \<longleftrightarrow> list_all (\<lambda>y. bit (fst m) y \<longleftrightarrow> y < OS_RDY_TBL_SIZE \<and> snd m y \<noteq> 0) [0..<8]"

lemma tbl_wf_list: "prio_map_ok m \<longleftrightarrow> tbl_wf_list m"
  by (simp add: tbl_wf_def tbl_wf_list_def all_less_list)

definition members_list :: "prio_map \<Rightarrow> nat list" where
  "members_list m = filter (\<lambda>p. bit (snd m (p div 8)) (p mod 8)) [0 ..< 8 * OS_RDY_TBL_SIZE]"

lemma members_list: "prio_members m = set (members_list m)"
  unfolding members_list_def by (rule prio_members_list)

definition task_ok_list :: "prio_map \<Rightarrow> (nat \<Rightarrow> OS_EVENT) \<Rightarrow> nat \<Rightarrow> OS_TCB \<Rightarrow> bool" where
  "task_ok_list m E p t \<longleftrightarrow>
     (let ms = members_list m in
     prio_fields t p \<and>
     (if p \<in> set ms then OSTCBDly t = 0 \<and> \<not> suspended t
      else OSTCBDly t \<noteq> 0 \<or> suspended t \<or> OSTCBEventPtr t \<noteq> PNull) \<and>
     OSTCBStat t \<in> {link_bit E t, link_bit E t OR OS_STAT_SUSPEND} \<and>
     (case OSTCBEventPtr t of PNull \<Rightarrow> True
      | PEvent e \<Rightarrow> e < OS_MAX_EVENTS \<and> p \<in> set (members_list (waiting (E e))) \<and> link_bit E t \<noteq> OS_STAT_RDY
      | _ \<Rightarrow> False))"

lemma task_ok_list: "task_ok m E p t \<longleftrightarrow> task_ok_list m E p t"
  unfolding task_ok_def task_ok_list_def members_list Let_def by (auto split: ptr.splits)

definition kinv_list ::
    "prio_map \<Rightarrow> (nat \<Rightarrow> ptr) \<Rightarrow> (nat \<Rightarrow> OS_TCB) \<Rightarrow> (nat \<Rightarrow> OS_EVENT) \<Rightarrow> bool" where
  "kinv_list m P T E \<longleftrightarrow>
     tbl_wf_list m \<and> OS_IDLE_PRIO \<in> set (members_list m) \<and>
     list_all (\<lambda>p. p \<le> OS_LOWEST_PRIO \<and> P p \<noteq> PNull) (members_list m) \<and>
     list_all (\<lambda>e. tbl_wf_list (waiting (E e)) \<and>
        list_all (\<lambda>p. p \<le> OS_LOWEST_PRIO
          \<and> (case P p of PTcb i \<Rightarrow> OSTCBEventPtr (T i) = PEvent e | _ \<Rightarrow> False))
          (members_list (waiting (E e)))) [0 ..< OS_MAX_EVENTS] \<and>
     list_all (\<lambda>p. case P p of PNull \<Rightarrow> True | PTcb i \<Rightarrow> i < N_TCB \<and> task_ok_list m E p (T i) | _ \<Rightarrow> False)
       [0 ..< Suc OS_LOWEST_PRIO]"

lemma kinv_list: "kinv_of m P T E \<longleftrightarrow> kinv_list m P T E"
proof -
  have a: "(\<exists>i. q = PTcb i \<and> R i) \<longleftrightarrow> (case q of PTcb i \<Rightarrow> R i | _ \<Rightarrow> False)" for q and R :: "nat \<Rightarrow> bool"
    by (cases q) auto
  have b: "(q \<noteq> PNull \<longrightarrow> (\<exists>i < N_TCB. q = PTcb i \<and> R i))
      \<longleftrightarrow> (case q of PNull \<Rightarrow> True | PTcb i \<Rightarrow> i < N_TCB \<and> R i | _ \<Rightarrow> False)" for q and R :: "nat \<Rightarrow> bool"
    by (cases q) auto
  show ?thesis
    unfolding kinv_of_def kinv_list_def a b members_list tbl_wf_list task_ok_list
    by (auto simp: list_all_iff less_Suc_eq_le)
qed

definition live_list :: "os \<Rightarrow> nat \<Rightarrow> bool" where
  "live_list s i \<longleftrightarrow> list_ex (\<lambda>p. OSTCBPrioTbl s p = PTcb i) [0 ..< Suc OS_LOWEST_PRIO]"

definition tlists_list :: "os \<Rightarrow> nat list \<Rightarrow> nat list \<Rightarrow> bool" where
  "tlists_list s xs ys \<longleftrightarrow>
     tcb_chain (OSTCBTbl s) (OSTCBList s) xs \<and> back_links (OSTCBTbl s) PNull xs \<and>
     tcb_chain (OSTCBTbl s) (OSTCBFreeList s) ys \<and>
     distinct (xs @ ys) \<and> list_all (\<lambda>i. i \<in> set (xs @ ys)) [0 ..< N_TCB] \<and>
     list_all (\<lambda>i. i < N_TCB) (xs @ ys) \<and>
     list_all (\<lambda>i. i \<in> set xs \<longleftrightarrow> live_list s i) [0 ..< N_TCB] \<and>
     xs \<noteq> [] \<and> OSTCBPrioTbl s OS_IDLE_PRIO = PTcb (last xs)"

lemma tlists_list:
  assumes "tlists_list s xs ys"
  shows "tlists s xs ys"
proof -
  have a: "list_all (\<lambda>i. i \<in> set (xs @ ys)) [0 ..< N_TCB]" "list_all (\<lambda>i. i < N_TCB) (xs @ ys)"
    "list_all (\<lambda>i. i \<in> set xs \<longleftrightarrow> live_list s i) [0 ..< N_TCB]" "xs \<noteq> []"
    "OSTCBPrioTbl s OS_IDLE_PRIO = PTcb (last xs)"
    and c: "tcb_chain (OSTCBTbl s) (OSTCBList s) xs" "back_links (OSTCBTbl s) PNull xs"
     "tcb_chain (OSTCBTbl s) (OSTCBFreeList s) ys" "distinct (xs @ ys)"
    using assms unfolding tlists_list_def by blast+
  have r: "set (xs @ ys) = {..< N_TCB}"
    using a(1,2) unfolding list_all_iff by auto
  have "i \<in> set xs \<longleftrightarrow> (\<exists>p. live s p i)" for i
  proof (cases "i < N_TCB")
    case True
    then have "i \<in> set xs \<longleftrightarrow> live_list s i" using a(3) by (simp add: list_all_iff)
    also have "\<dots> \<longleftrightarrow> (\<exists>p. live s p i)"
      using True by (auto simp: live_list_def list_ex_iff live_def less_Suc_eq_le simp del: upt_Suc)
    finally show ?thesis .
  next
    case False
    with r have "i \<notin> set xs" by auto
    with False show ?thesis by (simp add: live_def)
  qed
  moreover have "last xs < N_TCB" using r last_in_set [OF a(4)] by auto
  with a(5) have "live s OS_IDLE_PRIO (last xs)" by (simp add: live_def OS_IDLE_PRIO_def)
  ultimately show ?thesis unfolding tlists_def using a(4) c r by blast
qed

section \<open>The state\<close>

definition sample_tcb :: "nat \<Rightarrow> INT16U \<Rightarrow> INT8U \<Rightarrow> ptr \<Rightarrow> ptr \<Rightarrow> ptr \<Rightarrow> OS_TCB" where
  "sample_tcb prio dly stat pevent nxt prv =
     \<lparr>OSTCBStkPtr = PNull, OSTCBExtPtr = PNull, OSTCBStkBottom = PNull, OSTCBStkSize = 0,
      OSTCBOpt = 0, OSTCBId = 0, OSTCBNext = nxt, OSTCBPrev = prv, OSTCBEventPtr = pevent,
      OSTCBMsg = PNull, OSTCBDly = dly, OSTCBStat = stat, OSTCBPrio = of_nat prio,
      OSTCBX = of_nat (prio mod 8), OSTCBY = of_nat (prio div 8), OSTCBBitX = 2 ^ (prio mod 8),
      OSTCBBitY = 2 ^ (prio div 8), OSTCBDelReq = 0\<rparr>"

definition sample_event :: "ptr \<Rightarrow> INT16U \<Rightarrow> INT8U \<Rightarrow> INT8U \<Rightarrow> INT8U \<Rightarrow> OS_EVENT" where
  "sample_event p cnt ty grp row1 =
     \<lparr>OSEventPtr = p, OSEventTbl = (\<lambda>i. 0)(if grp = 1 then 0 else 1 := row1),
      OSEventCnt = cnt, OSEventType = ty, OSEventGrp = grp\<rparr>"

definition sample_queue :: "addr \<Rightarrow> addr \<Rightarrow> addr \<Rightarrow> INT16U \<Rightarrow> OS_Q" where
  "sample_queue start inp outp n =
     \<lparr>OSQPtr = PNull, OSQStart = start, OSQEnd = start + 16, OSQIn = inp, OSQOut = outp,
      OSQSize = 4, OSQEntries = n\<rparr>"

definition sample_mem :: OS_MEM where
  "sample_mem = \<lparr>OSMemAddr = PNull, OSMemFreeList = PNull, OSMemBlkSize = 0, OSMemNBlks = 0,
                 OSMemNFree = 0\<rparr>"

definition sample_tcbs :: "OS_TCB list" where
  "sample_tcbs =
     [sample_tcb 20 0 0 PNull PNull (PTcb 1),
      sample_tcb 19 0 0 PNull (PTcb 0) (PTcb 2),
      sample_tcb 5 0 0 PNull (PTcb 1) (PTcb 3),
      sample_tcb 7 0 1 (PEvent 0) (PTcb 2) (PTcb 4),
      sample_tcb 9 0 2 (PEvent 2) (PTcb 3) (PTcb 5),
      sample_tcb 10 0 4 (PEvent 5) (PTcb 4) (PTcb 6),
      sample_tcb 11 3 1 (PEvent 6) (PTcb 5) (PTcb 7),
      sample_tcb 12 1 0 PNull (PTcb 6) (PTcb 8),
      sample_tcb 13 0 8 PNull (PTcb 7) (PTcb 9),
      sample_tcb 14 1 8 PNull (PTcb 8) PNull,
      sample_tcb 0 0 0 PNull (PTcb 11) PNull,
      sample_tcb 0 0 0 PNull (PTcb 12) PNull,
      sample_tcb 0 0 0 PNull PNull PNull]"

definition sample_events :: "OS_EVENT list" where
  "sample_events =
     [sample_event PNull 0 OS_EVENT_TYPE_SEM 1 0x80,
      sample_event PNull 3 OS_EVENT_TYPE_SEM 0 0,
      sample_event PNull 0 OS_EVENT_TYPE_MBOX 2 0x02,
      sample_event PNull 0 OS_EVENT_TYPE_MBOX 0 0,
      sample_event (PQueue 0) 0 OS_EVENT_TYPE_Q 0 0,
      sample_event (PQueue 1) 0 OS_EVENT_TYPE_Q 2 0x04,
      sample_event PNull 0 OS_EVENT_TYPE_SEM 2 0x08,
      sample_event (PAddr 700) 0 OS_EVENT_TYPE_MBOX 0 0,
      sample_event PNull 65535 OS_EVENT_TYPE_SEM 0 0]"

definition sample :: os where
  "sample =
     \<lparr>OSCtxSwCtr = 0, OSEventFreeList = PEvent 9,
      OSEventTbl_g = (\<lambda>e. if e < length sample_events then sample_events ! e
                          else sample_event (if e < 19 then PEvent (e + 1) else PNull) 0 0 0 0),
      OSIdleCtr = 0, OSCPUUsage = 0, OSIdleCtrMax = 0, OSIdleCtrRun = 0, OSStatRdy = 0,
      OSIntNesting = 0, OSLockNesting = 0, OSPrioCur = 5, OSPrioHighRdy = 5,
      OSRdyGrp = 0x05, OSRdyTbl = (\<lambda>i. 0)(0 := 0x20, 2 := 0x18), OSRunning = 1, OSTaskCtr = 10,
      OSTCBCur = PTcb 2, OSTCBFreeList = PTcb 10, OSTCBHighRdy = PTcb 2, OSTCBList = PTcb 9,
      OSTCBPrioTbl = (\<lambda>p. PNull)(20 := PTcb 0, 19 := PTcb 1, 5 := PTcb 2, 7 := PTcb 3, 9 := PTcb 4,
        10 := PTcb 5, 11 := PTcb 6, 12 := PTcb 7, 13 := PTcb 8, 14 := PTcb 9),
      OSTime = 100, OSTCBTbl = (\<lambda>i. if i < length sample_tcbs then sample_tcbs ! i
                                    else sample_tcb 0 0 0 PNull PNull PNull),
      OSIntExitY = 0, OSQFreeList = PNull,
      OSQTbl = (\<lambda>q. if q = 0 then sample_queue 1000 1008 1000 2 else sample_queue 2000 2000 2000 0),
      OSMemFreeList_g = PNull, OSMemTbl = (\<lambda>k. sample_mem),
      mem_ptr = (\<lambda>a. PNull)(1000 := PAddr 501, 1004 := PAddr 502), mem_stk = (\<lambda>a. 0)\<rparr>"

lemma sample_kinv: "kinv sample"
  unfolding kinv_def kinv_list by code_simp

lemma sample_tlists: "tlists sample [9, 8, 7, 6, 5, 4, 3, 2, 1, 0] [10, 11, 12]"
  by (rule tlists_list) code_simp

lemma sample_tinv: "tinv sample"
  unfolding tinv_def using sample_tlists by blast

lemma sample_ready: "ready sample = {5, 19, 20}"
  unfolding members_list by code_simp

lemma sample_highest: "highest_ready sample = 5"
  by (simp add: highest_ready_def sample_ready)

lemma sample_task_level: "task_level sample"
proof -
  have "live sample 5 2" "OSTCBCur sample = PTcb 2" "unat (OSPrioCur sample) = 5" "unlocked sample"
    by (simp_all add: live_def unlocked_def sample_def config_defs)
  then show ?thesis
    using sample_kinv sample_tinv sample_highest by (auto simp: task_level_def cur_ok_def)
qed

lemma sample_stable: "stable sample"
  using sample_task_level by (rule task_level_stable)

lemma sample_waiters:
  "waiters sample 0 = {7}" "waiters sample 1 = {}" "waiters sample 2 = {9}" "waiters sample 5 = {10}"
  "waiters sample 6 = {11}"
  unfolding members_list by code_simp+

lemma sample_types:
  "OSEventType (OSEventTbl_g sample 0) = OS_EVENT_TYPE_SEM"
  "OSEventType (OSEventTbl_g sample 1) = OS_EVENT_TYPE_SEM"
  "OSEventType (OSEventTbl_g sample 2) = OS_EVENT_TYPE_MBOX"
  "OSEventType (OSEventTbl_g sample 5) = OS_EVENT_TYPE_Q"
  "OSEventType (OSEventTbl_g sample 6) = OS_EVENT_TYPE_SEM"
  by code_simp+

lemma sample_live: "live sample 5 2" "OSTCBCur sample = PTcb 2" "5 \<in> ready sample"
  by (simp add: live_def sample_def config_defs) (simp add: sample_def, simp add: sample_ready)

lemma sample_cur: "OSTCBEventPtr (cur_task sample) = PNull" "unat (OSPrioCur sample) \<noteq> OS_IDLE_PRIO"
    "unat (OSPrioCur sample) = 5"
  unfolding cur_task_def by code_simp+

end
