(* ===== verification/Core_Properties.thy ===== *)
theory Core_Properties
  imports Sample_State
begin

text \<open>
  The properties of the priority tables, the scheduler, the interrupt exit and the tick, each
  followed by its application to a concrete state.
\<close>

section \<open>Priority tables\<close>

text \<open>\<open>OSUnMapTbl\<close> gives, for every byte other than 0, the position of its lowest set bit, and
  \<open>OSMapTbl\<close> gives the mask of every bit position: the two constant tables are inverse to each
  other on single bits.\<close>
theorem priority_tables_correct:
  "unat (unmap_tbl w) < 8 \<and>
   (w = 0 \<or> bit w (unat (unmap_tbl w)) \<and> {j. j < unat (unmap_tbl w) \<and> bit w j} = {}) \<and>
   (\<exists>m. map_tbl (unat (unmap_tbl w)) = Some m \<and> unat (unmap_tbl m) = unat (unmap_tbl w)
      \<and> (w AND (m - 1) = 0))"
proof -
  let ?r = "unat (unmap_tbl w)"
  have r8: "?r < 8" by simp
  have nz: "(2 ^ ?r :: INT8U) \<noteq> 0"
    using r8 by (simp add: word8_eq_0_iff)
  have "unat (unmap_tbl (2 ^ ?r)) = ?r"
    using unmap_tbl_bit [OF nz] r8 by simp
  moreover have "w AND (2 ^ ?r - 1) = 0"
  proof (cases "w = 0")
    case False
    have "\<not> bit w j" if "j < ?r" for j
      using unmap_tbl_bits [OF False, of j] that by simp
    then show ?thesis
      by (auto simp: word8_eq_0_iff bit_and_iff mask_eq_exp_minus_1 [symmetric] bit_mask_iff)
  qed simp
  moreover have "{j. j < ?r \<and> bit w j} = {}"
    using unmap_tbl_least [of w] by (auto simp: not_less [symmetric])
  ultimately show ?thesis
    using r8 unmap_tbl_bit [of w] by (auto simp: map_tbl_eq)
qed

text \<open>C16: Entering and removing a priority act on the two-level table as insertion into and deletion
  from a set of priorities, never fail inside the table, keep the group byte in step with the
  rows, and the highest priority that the table lookups find is the least member of the set.\<close>
theorem priority_map_refines_set:
  assumes "prio_map_ok m" and "p \<le> OS_LOWEST_PRIO"
  shows "\<exists>m1 m2. enter_prio p m = Some m1 \<and> prio_map_ok m1 \<and> prio_members m1 = insert p (prio_members m)
    \<and> remove_prio p m = Some m2 \<and> prio_map_ok m2 \<and> prio_members m2 = prio_members m - {p}
    \<and> highest_prio m1 = Some (Min (insert p (prio_members m)))"
proof -
  have v: "p div 8 < OS_RDY_TBL_SIZE" using assms(2) by (rule prio_in_table)
  obtain m1 where m1: "enter_prio p m = Some m1" "prio_map_ok m1" "prio_members m1 = insert p (prio_members m)"
    using pmap.enter_ok [OF assms(1) v] by blast
  obtain m2 where m2: "remove_prio p m = Some m2" "prio_map_ok m2" "prio_members m2 = prio_members m - {p}"
    using pmap.remove_ok [OF assms(1) v] by blast
  have "highest_prio m1 = Some (Min (insert p (prio_members m)))"
    using pmap.highest_ok [OF m1(2)] m1(3) by simp
  with m1 m2 show ?thesis by blast
qed

theorem priority_map_refines_set_witness:
  "prio_map_ok (rdy sample) \<and> (\<exists>m1. enter_prio 4 (rdy sample) = Some m1
     \<and> prio_members m1 = {4, 5, 19, 20} \<and> highest_prio m1 = Some 4)"
proof -
  have "prio_map_ok (rdy sample)" "(4 :: nat) \<le> OS_LOWEST_PRIO"
    using kinvD_rdy [OF sample_kinv] by (simp_all add: config_defs)
  from priority_map_refines_set [OF this] this(1) show ?thesis
    by (auto simp: sample_ready)
qed

section \<open>The scheduler\<close>

text \<open>C5: With the scheduler unlocked and outside interrupts, \<open>OSSched\<close> never faults and leaves
  running the task of the highest priority that is ready: \<open>OSPrioCur\<close> is the least number in the
  ready list, \<open>OSTCBCur\<close> is the entry of the priority table for it, and nothing but the current
  task and the bookkeeping of the switch has changed.\<close>
theorem OSSched_runs_highest:
  assumes "kinv s" and "cur_ok s" and "unlocked s"
  shows "\<exists>s'. OSSched s = Some s' \<and> unat (OSPrioCur s') = Min (ready s)
    \<and> OSTCBCur s' = OSTCBPrioTbl s (Min (ready s)) \<and> same_but_sched s s' \<and> kinv s'
    \<and> OSCtxSwCtr s' = OSCtxSwCtr s + (if OSPrioCur s' = OSPrioCur s then 0 else 1)"
proof -
  obtain h i where h: "unat h = highest_ready s" "live s (unat h) i"
    and r: "OSSched s = Some (if h = OSPrioCur s then s\<lparr>OSPrioHighRdy := h\<rparr> else switched h (PTcb i) s)"
    using OSSched_ok [OF assms(1,3)] .
  let ?s = "if h = OSPrioCur s then s\<lparr>OSPrioHighRdy := h\<rparr> else switched h (PTcb i) s"
  have sb: "same_but_sched s ?s" by (simp add: same_but_sched_def switched_def)
  then have "kinv ?s" using assms(1) same_but_sched_kinv by blast
  moreover have "OSTCBCur ?s = OSTCBPrioTbl s (Min (ready s))"
    using assms(2) h by (auto simp: cur_ok_def live_def switched_def highest_ready_def)
  moreover have "unat (OSPrioCur ?s) = Min (ready s)"
    using h(1) by (auto simp: switched_def highest_ready_def)
  moreover have "OSCtxSwCtr ?s = OSCtxSwCtr s + (if OSPrioCur ?s = OSPrioCur s then 0 else 1)"
    by (simp add: switched_def)
  ultimately show ?thesis using r sb by blast
qed

theorem OSSched_runs_highest_witness:
  "\<exists>s'. OSSched (sample\<lparr>OSRdyTbl := (OSRdyTbl sample)(0 := 0), OSRdyGrp := 0x04,
        OSTCBTbl := (OSTCBTbl sample)(2 := (OSTCBTbl sample 2)\<lparr>OSTCBDly := 9\<rparr>)\<rparr>) = Some s'
     \<and> unat (OSPrioCur s') = 19 \<and> OSTCBCur s' = PTcb 1"
proof -
  let ?s = "sample\<lparr>OSRdyTbl := (OSRdyTbl sample)(0 := 0), OSRdyGrp := 0x04,
        OSTCBTbl := (OSTCBTbl sample)(2 := (OSTCBTbl sample 2)\<lparr>OSTCBDly := 9\<rparr>)\<rparr>"
  have k: "kinv ?s" unfolding kinv_def kinv_list by code_simp
  have r: "ready ?s = {19, 20}" unfolding members_list by code_simp
  have c: "cur_ok ?s" "unlocked ?s"
    by (auto simp: cur_ok_def live_def unlocked_def sample_def config_defs)
  have p: "OSTCBPrioTbl ?s 19 = PTcb 1" by code_simp
  have "Min {19, 20 :: nat} = 19" by simp
  with OSSched_runs_highest [OF k c] p show ?thesis unfolding r by metis
qed

text \<open>While the scheduler is locked or an interrupt handler runs, a call of \<open>OSSched\<close> changes
  nothing; locking and unlocking once from a task returns to the same lock depth, the same tasks
  and the highest priority task running.\<close>
theorem sched_lock_round_trip:
  assumes "stable s" and "OSRunning s = 1" and "OSLockNesting s < 255"
  shows "OSSched (OSSchedLock s) = Some (OSSchedLock s) \<and>
    (\<exists>s'. OSSchedUnlock (OSSchedLock s) = Some s' \<and> same_but_sched s s' \<and> stable s')"
proof -
  let ?n = "OSLockNesting s"
  have n: "?n + 1 \<noteq> 0" "?n + 1 > 0" "?n + 1 - 1 = ?n"
  proof -
    have "unat ?n < 255" using assms(3) by (simp add: word_less_nat_alt)
    then have "unat (?n + 1) = unat ?n + 1" by (simp add: unat_word_ariths)
    then show "?n + 1 \<noteq> 0" by auto
    then show "?n + 1 > 0" by (simp add: word_gt_0)
  qed simp
  let ?l = "s\<lparr>OSLockNesting := ?n + 1\<rparr>"
  have l: "OSSchedLock s = ?l" using assms(2) by (simp add: OSSchedLock_def)
  have lk: "OSSched ?l = Some ?l"
    using n(1) by (intro OSSched_locked) (simp add: unlocked_def)
  have K: "kinv s" "cur_ok s" "tinv s" using assms(1) by (auto simp: stable_def)
  obtain s' where s': "OSSched s = Some s'" "same_but_sched s s'" "kinv s'" "cur_ok s'"
    "unlocked s \<longrightarrow> unat (OSPrioCur s') = highest_ready s"
    using OSSched_post [OF K(1)] K(2) by blast
  have e: "?l\<lparr>OSLockNesting := OSLockNesting ?l - 1\<rparr> = s" using n(3) by simp
  have u: "OSSchedUnlock ?l = (if unlocked s then OSSched s else Some s)"
    unfolding OSSchedUnlock_def Let_def e unlocked_def word_or_eq_0 using assms(2) n(2) by simp
  have "OSSchedUnlock ?l = Some s'"
    using u s'(1) OSSched_locked [of s] by (cases "unlocked s") simp_all
  moreover have "stable s'"
    using s'(2-5) K(3) same_but_sched_tinv same_but_sched_unlocked same_but_sched_highest
    by (simp add: stable_def)
  ultimately show ?thesis using l lk s'(2) by metis
qed

theorem sched_lock_round_trip_witness:
  "OSSched (OSSchedLock sample) = Some (OSSchedLock sample) \<and>
    (\<exists>s'. OSSchedUnlock (OSSchedLock sample) = Some s' \<and> same_but_sched sample s' \<and> stable s')"
proof -
  have "OSRunning sample = 1" "OSLockNesting sample < 255" by (simp_all add: sample_def)
  from sched_lock_round_trip [OF sample_stable this] show ?thesis .
qed

section \<open>Interrupts and the tick\<close>

text \<open>\<open>OSIntExit\<close> reschedules only when the last nested interrupt ends: an inner exit just
  decrements the nesting counter, and the outermost one leaves the highest priority ready task
  current when the scheduler is not locked.\<close>
theorem OSIntExit_reschedules_last:
  assumes "kinv s" and "cur_ok s" and "OSIntNesting s \<noteq> 0"
  shows "\<exists>s'. OSIntExit s = Some s' \<and> kinv s' \<and> cur_ok s' \<and> unat (OSIntNesting s') = unat (OSIntNesting s) - 1
    \<and> ready s' = ready s
    \<and> (if OSIntNesting s = 1 \<and> OSLockNesting s = 0 then unat (OSPrioCur s') = Min (ready s)
       else OSTCBCur s' = OSTCBCur s)"
proof -
  let ?n = "OSIntNesting s - 1" and ?s = "s\<lparr>OSIntNesting := OSIntNesting s - 1\<rparr>"
  obtain s' where s': "OSIntExit s = Some s'" "same_but_sched ?s s'" "kinv s'" "cur_ok s'"
    "unlocked s' \<longrightarrow> unat (OSPrioCur s') = highest_ready s'"
    using OSIntExit_post [OF assms(1,2)] by blast
  note f = same_but_sched_frame [OF s'(2)]
  have n0: "?n = 0 \<longleftrightarrow> OSIntNesting s = 1" by simp
  have "unat (OSIntNesting s') = unat (OSIntNesting s) - 1"
    using assms(3) f by (simp add: unat_minus_one)
  moreover have "ready s' = ready s" using f by simp
  moreover have "unlocked s' \<longleftrightarrow> OSIntNesting s = 1 \<and> OSLockNesting s = 0"
    using f n0 by (auto simp: unlocked_def)
  moreover have "OSTCBCur s' = OSTCBCur s" if "\<not> unlocked s'"
  proof -
    have "\<not> unlocked ?s" using that same_but_sched_unlocked [OF s'(2)] by simp
    then have "s' = ?s" using s'(1) by (simp add: OSIntExit_eq Let_def)
    then show ?thesis by simp
  qed
  ultimately show ?thesis using s' by (auto simp: highest_ready_def)
qed

theorem OSIntExit_reschedules_last_witness:
  "\<exists>s'. OSIntExit (sample\<lparr>OSIntNesting := 1\<rparr>) = Some s' \<and> unat (OSPrioCur s') = 5"
proof -
  have "kinv (sample\<lparr>OSIntNesting := 1\<rparr>)" "cur_ok (sample\<lparr>OSIntNesting := 1\<rparr>)"
    using sample_kinv sample_task_level by (simp_all add: task_level_def)
  moreover have "OSIntNesting (sample\<lparr>OSIntNesting := 1\<rparr>) \<noteq> 0" by simp
  moreover have "OSLockNesting sample = 0" by (simp add: sample_def)
  ultimately show ?thesis
    using OSIntExit_reschedules_last [of "sample\<lparr>OSIntNesting := 1\<rparr>"] by (auto simp: sample_ready)
qed

text \<open>C9: One system tick walks the whole task list and ends: every delay that is running is
  decremented by one, except that the delay of a suspended task stays at 1; exactly the tasks
  whose delay runs out and that are not suspended become ready; no task leaves the ready list;
  and the clock advances by one.\<close>
theorem OSTimeTick_spec:
  assumes "kinv s" and "tinv s"
  shows "\<exists>s'. OSTimeTick s = Some s' \<and> kinv s' \<and> tinv s' \<and> OSTime s' = OSTime s + 1
    \<and> ready s' = ready s \<union> {p. \<exists>i. live s p i \<and> OSTCBDly (OSTCBTbl s i) = 1 \<and> \<not> suspended (OSTCBTbl s i)}
    \<and> (\<forall>p i. live s p i \<longrightarrow> OSTCBDly (OSTCBTbl s' i) =
          (let d = OSTCBDly (OSTCBTbl s i)
           in if d = 0 \<or> d = 1 \<and> suspended (OSTCBTbl s i) then d else d - 1))
    \<and> OSTCBCur s' = OSTCBCur s \<and> OSEventTbl_g s' = OSEventTbl_g s"
proof -
  obtain s1 where s1: "OSTimeTick s = Some (s1\<lparr>OSTime := OSTime s + 1\<rparr>)" "kinv s1"
    "same_but_task s s1" "tinv s1" "\<forall>p i. live s p i \<longrightarrow> OSTCBTbl s1 i = ticked (OSTCBTbl s i)"
    "ready s1 = ready s \<union> {p. \<exists>i. live s p i \<and> expires (OSTCBTbl s i)}"
    "OSEventTbl_g s1 = OSEventTbl_g s"
    using OSTimeTick_post [OF assms] .
  let ?s = "s1\<lparr>OSTime := OSTime s + 1\<rparr>"
  have "kinv ?s" using s1(2) kinv_frame [of ?s s1] by simp
  moreover have "tinv ?s" using s1(4) tinv_frame [of ?s s1] by simp
  moreover have "OSTCBDly (OSTCBTbl ?s i) = (let d = OSTCBDly (OSTCBTbl s i)
           in if d = 0 \<or> d = 1 \<and> suspended (OSTCBTbl s i) then d else d - 1)" if "live s p i" for p i
    using s1(5) that by (simp add: ticked_def Let_def)
  moreover have "OSTCBCur ?s = OSTCBCur s" using same_but_task_frame [OF s1(3)] by simp
  ultimately show ?thesis using s1(1,6,7) by (intro exI [of _ ?s]) (simp add: expires_def)
qed

theorem OSTimeTick_spec_witness:
  "\<exists>s'. OSTimeTick sample = Some s' \<and> 12 \<in> ready s' \<and> OSTCBDly (OSTCBTbl s' 6) = 2
     \<and> OSTCBDly (OSTCBTbl s' 9) = 1"
proof -
  have l: "live sample 12 7" "live sample 11 6" "live sample 14 9"
    by (simp_all add: live_def sample_def config_defs)
  have d: "OSTCBDly (OSTCBTbl sample 7) = 1" "\<not> suspended (OSTCBTbl sample 7)"
    "OSTCBDly (OSTCBTbl sample 6) = 3" "OSTCBDly (OSTCBTbl sample 9) = 1" "suspended (OSTCBTbl sample 9)"
    unfolding suspended_def by code_simp+
  from OSTimeTick_spec [OF sample_kinv sample_tinv] obtain s' where s': "OSTimeTick sample = Some s'"
    "ready s' = ready sample \<union> {p. \<exists>i. live sample p i \<and> OSTCBDly (OSTCBTbl sample i) = 1
        \<and> \<not> suspended (OSTCBTbl sample i)}"
    "\<forall>p i. live sample p i \<longrightarrow> OSTCBDly (OSTCBTbl s' i) =
          (let d = OSTCBDly (OSTCBTbl sample i)
           in if d = 0 \<or> d = 1 \<and> suspended (OSTCBTbl sample i) then d else d - 1)"
    by blast
  have "12 \<in> ready s'" using s'(2) l(1) d(1,2) by blast
  moreover have "OSTCBDly (OSTCBTbl s' 6) = 2" "OSTCBDly (OSTCBTbl s' 9) = 1"
    using s'(3) l(2,3) d by (auto simp: Let_def)
  ultimately show ?thesis using s'(1) by blast
qed

end
