(* ===== verification/Semaphores.thy ===== *)
theory Semaphores
  imports Sample_State
begin

text \<open>
  OS\_SEM.C: counting semaphores. The count of a semaphore is a 16-bit number; a post with no
  waiting task increments it and refuses to wrap around, a pend or an accept takes one unit.
\<close>

section \<open>Operations\<close>

record OS_SEM_DATA =
  SemOSCnt :: INT16U
  SemOSEventTbl :: "nat \<Rightarrow> INT8U"
  SemOSEventGrp :: INT8U

definition OSSemAccept :: "ptr \<Rightarrow> os \<Rightarrow> (INT16U \<times> os) option" where
  "OSSemAccept pevent s = do {
     e \<leftarrow> event_at s pevent;
     if OSEventType e \<noteq> OS_EVENT_TYPE_SEM
     then Some (0, s)
     else do {
       let cnt = OSEventCnt e;
       Some (cnt, if cnt > 0 then put_event pevent (e\<lparr>OSEventCnt := OSEventCnt e - 1\<rparr>) s else s)
     }
   }"

definition OSSemCreate :: "INT16U \<Rightarrow> os \<Rightarrow> (ptr \<times> os) option" where
  "OSSemCreate cnt s = do {
     (pevent, s1) \<leftarrow> event_alloc s;
     if pevent \<noteq> PNull
     then do {
       e \<leftarrow> event_at s1 pevent;
       s2 \<leftarrow> OSEventWaitListInit pevent
         (put_event pevent (e\<lparr>OSEventType := OS_EVENT_TYPE_SEM, OSEventCnt := cnt\<rparr>) s1);
       Some (pevent, s2)
     }
     else Some (pevent, s1)
   }"

text \<open>The second half of \<open>OSSemPend\<close>, run when the caller is current again.\<close>

definition OSSemPend_resume :: "ptr \<Rightarrow> os \<Rightarrow> (INT8U \<times> os) option" where
  "OSSemPend_resume pevent s = do {
     t \<leftarrow> tcb_at s (OSTCBCur s);
     if OSTCBStat t AND OS_STAT_SEM \<noteq> 0
     then do {
       s1 \<leftarrow> OSEventTO pevent s;
       Some (OS_TIMEOUT, s1)
     }
     else Some (OS_NO_ERR, put_tcb (OSTCBCur s) (t\<lparr>OSTCBEventPtr := PNull\<rparr>) s)
   }"

text \<open>The value returned is the final \<open>*err\<close>. The test of the event's type only assigns
  \<open>OS_ERR_EVENT_TYPE\<close> to \<open>*err\<close> and falls through (there is no return statement in it), and each
  of the three branches that follow assigns \<open>*err\<close> again, so the test has no effect.\<close>

definition OSSemPend :: "ptr \<Rightarrow> INT16U \<Rightarrow> os \<Rightarrow> (INT8U outcome \<times> os) option" where
  "OSSemPend pevent timeout s = do {
     e \<leftarrow> event_at s pevent;
     if OSEventCnt e > 0
     then Some (Returned OS_NO_ERR, put_event pevent (e\<lparr>OSEventCnt := OSEventCnt e - 1\<rparr>) s)
     else if OSIntNesting s > 0
     then Some (Returned OS_ERR_PEND_ISR, s)
     else do {
       s1 \<leftarrow> event_block OS_STAT_SEM timeout pevent s;
       continue s s1 (OSSemPend_resume pevent)
     }
   }"

definition OSSemPost :: "ptr \<Rightarrow> os \<Rightarrow> (INT8U \<times> os) option" where
  "OSSemPost pevent s = do {
     e \<leftarrow> event_at s pevent;
     if OSEventType e \<noteq> OS_EVENT_TYPE_SEM
     then Some (OS_ERR_EVENT_TYPE, s)
     else if OSEventGrp e \<noteq> 0
     then do {
       s1 \<leftarrow> OSEventTaskRdy pevent PNull OS_STAT_SEM s;
       s2 \<leftarrow> OSSched s1;
       Some (OS_NO_ERR, s2)
     }
     else if OSEventCnt e < 65535
     then Some (OS_NO_ERR, put_event pevent (e\<lparr>OSEventCnt := OSEventCnt e + 1\<rparr>) s)
     else Some (OS_SEM_OVF, s)
   }"

definition OSSemQuery :: "ptr \<Rightarrow> OS_SEM_DATA \<Rightarrow> os \<Rightarrow> (INT8U \<times> OS_SEM_DATA) option" where
  "OSSemQuery pevent pdata s = do {
     e \<leftarrow> event_at s pevent;
     if OSEventType e \<noteq> OS_EVENT_TYPE_SEM
     then Some (OS_ERR_EVENT_TYPE, pdata)
     else Some (OS_NO_ERR,
       pdata\<lparr>SemOSEventGrp := OSEventGrp e,
             SemOSEventTbl := (\<lambda>i. if i < OS_EVENT_TBL_SIZE then OSEventTbl e i
                                    else SemOSEventTbl pdata i),
             SemOSCnt := OSEventCnt e\<rparr>)
   }"

section \<open>The contracts\<close>

abbreviation is_sem :: "os \<Rightarrow> nat \<Rightarrow> bool" where
  "is_sem s e \<equiv> e < OS_MAX_EVENTS \<and> OSEventType (OSEventTbl_g s e) = OS_EVENT_TYPE_SEM"

lemma ev_bit_SEM [simp]: "ev_bit OS_EVENT_TYPE_SEM = OS_STAT_SEM"
  by (simp add: ev_bit_def)

interpretation sem_post: event_post "\<lambda>e msg. OSSemPost (PEvent e)" OS_EVENT_TYPE_SEM "\<lambda>msg. PNull"
  by unfold_locales (simp_all add: OSSemPost_def)

interpretation sem_pend: event_pend "\<lambda>e. OSSemPend (PEvent e)" OS_EVENT_TYPE_SEM
  "\<lambda>s e. OSEventCnt (OSEventTbl_g s e) > 0" "\<lambda>s e. OSSemPend_resume (PEvent e)"
  by unfold_locales (simp_all add: OSSemPend_def stat_defs)

section \<open>Functional behaviour\<close>

lemma OSSemPost_count:
  "is_sem s e \<Longrightarrow> OSEventGrp (OSEventTbl_g s e) = 0 \<Longrightarrow>
   OSSemPost (PEvent e) s =
     (let n = OSEventCnt (OSEventTbl_g s e)
      in if n < 65535 then Some (OS_NO_ERR, put_event (PEvent e) ((OSEventTbl_g s e)\<lparr>OSEventCnt := n + 1\<rparr>) s)
         else Some (OS_SEM_OVF, s))"
  by (simp add: OSSemPost_def Let_def)

text \<open>The count moves by one and never wraps.\<close>

lemma cnt_succ: "(n :: INT16U) < 65535 \<Longrightarrow> unat (n + 1) = unat n + 1"
proof -
  assume "n < 65535"
  then have "unat n < 65535" by (simp add: word_less_nat_alt)
  then show ?thesis by (simp add: unat_word_ariths)
qed

lemma cnt_pred: "(n :: INT16U) > 0 \<Longrightarrow> unat (n - 1) = unat n - 1"
  by (simp add: unat_minus_one word_gt_0)

lemma cnt_full: "\<not> (n :: INT16U) < 65535 \<Longrightarrow> unat n = 65535"
  using unsigned_less [of n, where ?'a = nat] by (simp add: word_less_nat_alt)

section \<open>Properties\<close>

text \<open>C6: A post to a semaphore on which tasks wait never fails: it removes the waiting task of
  highest priority from the wait list, makes it ready unless it is suspended, leaves every other
  task and the count alone, and the highest priority ready task runs afterwards.\<close>
theorem sem_post_wakes_highest:
  assumes "stable s" and "is_sem s e" and "waiters s e \<noteq> {}"
  shows "\<exists>s' i. OSSemPost (PEvent e) s = Some (OS_NO_ERR, s') \<and> stable s'
    \<and> live s (Min (waiters s e)) i
    \<and> waiters s' = (waiters s)(e := waiters s e - {Min (waiters s e)})
    \<and> ready s' = (if suspended (OSTCBTbl s i) then ready s else insert (Min (waiters s e)) (ready s))
    \<and> OSTCBTbl s' = (OSTCBTbl s)(i := readied PNull OS_STAT_SEM (OSTCBTbl s i))
    \<and> OSEventCnt (OSEventTbl_g s' e) = OSEventCnt (OSEventTbl_g s e)"
proof -
  have e: "e < OS_MAX_EVENTS" and ty: "OSEventType (OSEventTbl_g s e) = OS_EVENT_TYPE_SEM"
    using assms(2) by auto
  show ?thesis
  proof (rule sem_post.post_wakes_highest [OF assms(1) e assms(3) ty])
    fix s2 p i
    assume "OSSemPost (PEvent e) s = Some (OS_NO_ERR, s2)" "p = Min (waiters s e)" "live s p i"
      "stable s2" "OSTCBTbl s2 = (OSTCBTbl s)(i := readied PNull (ev_bit OS_EVENT_TYPE_SEM) (OSTCBTbl s i))"
      "ready s2 = (if suspended (OSTCBTbl s i) then ready s else insert p (ready s))"
      "waiters s2 = (waiters s)(e := waiters s e - {p})"
      "OSEventCnt (OSEventTbl_g s2 e) = OSEventCnt (OSEventTbl_g s e)"
    then show ?thesis by (intro exI [of _ s2] exI [of _ i]) (simp del: fun_upd_apply)
  qed
qed

theorem sem_post_wakes_highest_witness:
  "\<exists>s'. OSSemPost (PEvent 0) sample = Some (OS_NO_ERR, s') \<and> waiters s' 0 = {} \<and> stable s'"
proof -
  have "is_sem sample 0" "waiters sample 0 \<noteq> {}"
    using sample_types sample_waiters by (simp_all add: config_defs)
  from sem_post_wakes_highest [OF sample_stable this] obtain s'
    where "OSSemPost (PEvent 0) sample = Some (OS_NO_ERR, s')" "stable s'"
      and w: "waiters s' = (waiters sample)(0 := waiters sample 0 - {Min (waiters sample 0)})"
    by blast
  moreover have "waiters s' 0 = {}" using waiters_at [OF w, of 0] by (simp add: sample_waiters)
  ultimately show ?thesis by blast
qed

text \<open>With no task waiting, a post to a semaphore adds exactly one to its count, except at 65535,
  where it reports the overflow and changes nothing; an event of another type is rejected
  unchanged.\<close>
theorem sem_post_counts:
  assumes "e < OS_MAX_EVENTS" and "OSEventGrp (OSEventTbl_g s e) = 0"
  shows "\<exists>s' err. OSSemPost (PEvent e) s = Some (err, s') \<and>
    (if OSEventType (OSEventTbl_g s e) \<noteq> OS_EVENT_TYPE_SEM then err = OS_ERR_EVENT_TYPE \<and> s' = s
     else if unat (OSEventCnt (OSEventTbl_g s e)) = 65535 then err = OS_SEM_OVF \<and> s' = s
     else err = OS_NO_ERR \<and> unat (OSEventCnt (OSEventTbl_g s' e)) = unat (OSEventCnt (OSEventTbl_g s e)) + 1
       \<and> s' = put_event (PEvent e) ((OSEventTbl_g s e)\<lparr>OSEventCnt := OSEventCnt (OSEventTbl_g s' e)\<rparr>) s)"
proof (cases "OSEventCnt (OSEventTbl_g s e) < 65535")
  case True
  have "unat (OSEventCnt (OSEventTbl_g s e)) \<noteq> 65535"
    using True by (auto simp: word_less_nat_alt)
  with True assms cnt_succ [OF True] show ?thesis by (simp add: OSSemPost_def)
next
  case False
  with assms cnt_full [OF False] show ?thesis by (simp add: OSSemPost_def)
qed

theorem sem_post_counts_witness:
  "\<exists>s'. OSSemPost (PEvent 1) sample = Some (OS_NO_ERR, s') \<and> unat (OSEventCnt (OSEventTbl_g s' 1)) = 4"
proof -
  have "(1 :: nat) < OS_MAX_EVENTS" "OSEventGrp (OSEventTbl_g sample 1) = 0"
      "OSEventType (OSEventTbl_g sample 1) = OS_EVENT_TYPE_SEM"
      "unat (OSEventCnt (OSEventTbl_g sample 1)) = 3"
    by code_simp+
  with sem_post_counts [OF this(1,2)] show ?thesis by auto
qed

text \<open>A pend on a semaphore takes a unit when there is one and returns at once; with none and
  outside an interrupt the calling task always blocks: it leaves the ready list, joins the wait
  list of this semaphore only, keeps its timeout, and another task runs.\<close>
theorem sem_pend_takes_or_blocks:
  assumes "task_level s" and "is_sem s e" and "OSTCBEventPtr (cur_task s) = PNull"
    and "unat (OSPrioCur s) \<noteq> OS_IDLE_PRIO"
  shows "\<exists>r s'. OSSemPend (PEvent e) timeout s = Some (r, s') \<and>
    (if OSEventCnt (OSEventTbl_g s e) > 0
     then r = Returned OS_NO_ERR \<and> unat (OSEventCnt (OSEventTbl_g s' e)) = unat (OSEventCnt (OSEventTbl_g s e)) - 1
       \<and> ready s' = ready s \<and> waiters s' = waiters s \<and> OSTCBCur s' = OSTCBCur s
     else r = Blocked \<and> task_level s' \<and> OSTCBCur s' \<noteq> OSTCBCur s
       \<and> ready s' = ready s - {unat (OSPrioCur s)}
       \<and> waiters s' = (waiters s)(e := insert (unat (OSPrioCur s)) (waiters s e))
       \<and> (\<exists>i. OSTCBCur s = PTcb i \<and> OSTCBDly (OSTCBTbl s' i) = timeout))"
proof -
  have e: "e < OS_MAX_EVENTS" and ty: "OSEventType (OSEventTbl_g s e) = OS_EVENT_TYPE_SEM"
    using assms(2) by auto
  show ?thesis
  proof (cases "OSEventCnt (OSEventTbl_g s e) > 0")
    case True
    let ?s = "s\<lparr>OSEventTbl_g := (OSEventTbl_g s)(e := (OSEventTbl_g s e)\<lparr>OSEventCnt := OSEventCnt (OSEventTbl_g s e) - 1\<rparr>)\<rparr>"
    have "waiters ?s = waiters s" by (rule ext) (simp add: waiting_def)
    with True e cnt_pred [OF True] show ?thesis by (simp add: OSSemPend_def)
  next
    case False
    show ?thesis
    proof (rule sem_pend.pend_blocks [OF assms(1) e assms(3,4) ty False, where timeout = timeout])
      fix s' i
      assume "OSSemPend (PEvent e) timeout s = Some (Blocked, s')" "task_level s'"
        "OSTCBCur s = PTcb i" "OSTCBCur s' \<noteq> OSTCBCur s"
        "OSTCBTbl s' = (OSTCBTbl s)(i := blocked (PEvent e) (ev_bit OS_EVENT_TYPE_SEM) timeout (OSTCBTbl s i))"
        "ready s' = ready s - {unat (OSPrioCur s)}"
        "waiters s' = (waiters s)(e := insert (unat (OSPrioCur s)) (waiters s e))"
      with False show ?thesis by (simp add: blocked_def del: fun_upd_apply) simp
    qed
  qed
qed

theorem sem_pend_takes_or_blocks_witness:
  "(\<exists>s'. OSSemPend (PEvent 6) 50 sample = Some (Blocked, s') \<and> waiters s' 6 = {5, 11}) \<and>
   (\<exists>s'. OSSemPend (PEvent 1) 50 sample = Some (Returned OS_NO_ERR, s'))"
proof -
  have s: "is_sem sample 6" "is_sem sample 1" using sample_types by (simp_all add: config_defs)
  have c: "\<not> OSEventCnt (OSEventTbl_g sample 6) > 0" "OSEventCnt (OSEventTbl_g sample 1) > 0"
    by code_simp+
  obtain s' where "OSSemPend (PEvent 6) 50 sample = Some (Blocked, s')"
    and w: "waiters s' = (waiters sample)(6 := insert (unat (OSPrioCur sample)) (waiters sample 6))"
    using sem_pend_takes_or_blocks [OF sample_task_level s(1) sample_cur(1,2), of 50] c(1) by auto
  moreover have "waiters s' 6 = {5, 11}"
    using waiters_at [OF w, of 6] by (simp add: sample_waiters sample_cur)
  ultimately show ?thesis
    using sem_pend_takes_or_blocks [OF sample_task_level s(2) sample_cur(1,2), of 50] c(2) by auto
qed

lemma sem_pend_resume_ok:
  assumes "kinv s" and "live s p i" and "OSTCBCur s = PTcb i" and "p \<in> ready s"
    and "is_sem s e" and "OSTCBEventPtr (OSTCBTbl s i) \<in> {PNull, PEvent e}"
  shows "\<exists>s' err. OSSemPend_resume (PEvent e) s = Some (err, s') \<and> kinv s' \<and> ready s' = ready s
    \<and> OSTCBEventPtr (OSTCBTbl s' i) = PNull \<and> OSTCBStat (OSTCBTbl s' i) = OS_STAT_RDY
    \<and> (if p \<in> waiters s e then err = OS_TIMEOUT \<and> waiters s' = (waiters s)(e := waiters s e - {p})
       else err = OS_NO_ERR \<and> s' = s)"
proof (cases "OSTCBEventPtr (OSTCBTbl s i) = PNull")
  case True
  have e: "e < OS_MAX_EVENTS" using assms(5) by simp
  have iN: "i < N_TCB" using assms(2) by (simp add: live_def)
  have st: "OSTCBStat (OSTCBTbl s i) = OS_STAT_RDY" using ready_stat [OF assms(1,2,4) True] by simp
  have "(OSTCBTbl s i)\<lparr>OSTCBEventPtr := PNull\<rparr> = OSTCBTbl s i" using True by simp
  then have "OSSemPend_resume (PEvent e) s = Some (OS_NO_ERR, s)"
    using assms(3) iN st by (simp add: OSSemPend_resume_def OS_STAT_RDY_def)
  moreover have "p \<notin> waiters s e" using waits_for_one [OF assms(1,2) e] True by auto
  ultimately show ?thesis using assms(1) True st by simp
next
  case False
  then have np: "OSTCBEventPtr (OSTCBTbl s i) = PEvent e" using assms(6) by simp
  have e: "e < OS_MAX_EVENTS" using assms(5) by simp
  have iN: "i < N_TCB" using assms(2) by (simp add: live_def)
  have tk: "task_ok (rdy s) (OSEventTbl_g s) p (OSTCBTbl s i)" using kinvD_task [OF assms(1,2)] .
  then have w: "p \<in> waiters s e" using np unfolding task_ok_def by auto
  have "OSTCBStat (OSTCBTbl s i) \<in> {OS_STAT_SEM, OS_STAT_SEM OR OS_STAT_SUSPEND}"
    using waiter_stat(3) [OF assms(1) e assms(2) w] assms(5) by simp
  then have "OSTCBStat (OSTCBTbl s i) AND OS_STAT_SEM \<noteq> 0" by (auto simp: stat_defs)
  moreover obtain s' where "OSEventTO (PEvent e) s = Some s'" "kinv s'" "same_but_task s s'"
    "OSTCBTbl s' = (OSTCBTbl s)(i := (OSTCBTbl s i)\<lparr>OSTCBStat := OS_STAT_RDY, OSTCBEventPtr := PNull\<rparr>)"
    "ready s' = ready s" "waiters s' = (waiters s)(e := waiters s e - {p})"
    using OSEventTO_post [OF assms(1) e assms(2,3,4) np] by metis
  ultimately show ?thesis using assms(3) iN w by (simp add: OSSemPend_resume_def)
qed

text \<open>The second half of a pend tells the two ways of being resumed apart: a task whose
  semaphore was posted returns \<open>OS_NO_ERR\<close> with nothing changed, and a task whose timeout ran
  out first leaves the wait list and returns \<open>OS_TIMEOUT\<close>; it is then no longer waiting for
  anything.\<close>
theorem sem_pend_resumes:
  assumes "kinv s" and "live s p i" and "OSTCBCur s = PTcb i" and "p \<in> ready s"
    and "is_sem s e" and "OSTCBEventPtr (OSTCBTbl s i) \<in> {PNull, PEvent e}"
  shows "\<exists>s' err. OSSemPend_resume (PEvent e) s = Some (err, s') \<and> kinv s' \<and> ready s' = ready s
    \<and> OSTCBEventPtr (OSTCBTbl s' i) = PNull \<and> OSTCBStat (OSTCBTbl s' i) = OS_STAT_RDY
    \<and> (if p \<in> waiters s e then err = OS_TIMEOUT \<and> waiters s' = (waiters s)(e := waiters s e - {p})
       else err = OS_NO_ERR \<and> s' = s)"
  by (rule sem_pend_resume_ok [OF assms])

theorem sem_pend_resumes_witness:
  "OSSemPend_resume (PEvent 1) sample = Some (OS_NO_ERR, sample)"
proof -
  have "is_sem sample 1" using sample_types by (simp add: config_defs)
  moreover have "OSTCBEventPtr (OSTCBTbl sample 2) \<in> {PNull, PEvent 1}" by code_simp
  ultimately have "\<exists>s' err. OSSemPend_resume (PEvent 1) sample = Some (err, s')
    \<and> (if 5 \<in> waiters sample 1 then err = OS_TIMEOUT else err = OS_NO_ERR \<and> s' = sample)"
    using sem_pend_resumes [OF sample_kinv sample_live, of 1] by metis
  then show ?thesis by (auto simp: sample_waiters simp del: One_nat_def)
qed

end
