(* ===== verification/Mailboxes.thy ===== *)
theory Mailboxes
  imports Semaphores
begin

text \<open>
  OS\_MBOX.C: mailboxes. A mailbox holds at most one message, a pointer that is not null, in the
  event control block; a message posted while a task waits goes directly into the task's control
  block and never into the mailbox.
\<close>

section \<open>Operations\<close>

record OS_MBOX_DATA =
  MboxOSMsg :: ptr
  MboxOSEventTbl :: "nat \<Rightarrow> INT8U"
  MboxOSEventGrp :: INT8U

definition OSMboxAccept :: "ptr \<Rightarrow> os \<Rightarrow> (ptr \<times> os) option" where
  "OSMboxAccept pevent s = do {
     e \<leftarrow> event_at s pevent;
     if OSEventType e \<noteq> OS_EVENT_TYPE_MBOX
     then Some (PNull, s)
     else do {
       let msg = OSEventPtr e;
       Some (msg, if msg \<noteq> PNull then put_event pevent (e\<lparr>OSEventPtr := PNull\<rparr>) s else s)
     }
   }"

definition OSMboxCreate :: "ptr \<Rightarrow> os \<Rightarrow> (ptr \<times> os) option" where
  "OSMboxCreate msg s = do {
     (pevent, s1) \<leftarrow> event_alloc s;
     if pevent \<noteq> PNull
     then do {
       e \<leftarrow> event_at s1 pevent;
       s2 \<leftarrow> OSEventWaitListInit pevent
         (put_event pevent (e\<lparr>OSEventType := OS_EVENT_TYPE_MBOX, OSEventPtr := msg\<rparr>) s1);
       Some (pevent, s2)
     }
     else Some (pevent, s1)
   }"

text \<open>The message and the final \<open>*err\<close> of a pend.\<close>

definition OSMboxPend_resume :: "ptr \<Rightarrow> os \<Rightarrow> ((ptr \<times> INT8U) \<times> os) option" where
  "OSMboxPend_resume pevent s = do {
     t \<leftarrow> tcb_at s (OSTCBCur s);
     if OSTCBMsg t \<noteq> PNull
     then Some ((OSTCBMsg t, OS_NO_ERR),
       put_tcb (OSTCBCur s)
         (t\<lparr>OSTCBMsg := PNull, OSTCBStat := OS_STAT_RDY, OSTCBEventPtr := PNull\<rparr>) s)
     else if OSTCBStat t AND OS_STAT_MBOX \<noteq> 0
     then do {
       s1 \<leftarrow> OSEventTO pevent s;
       Some ((PNull, OS_TIMEOUT), s1)
     }
     else do {
       e \<leftarrow> event_at s pevent;
       let s1 = put_event pevent (e\<lparr>OSEventPtr := PNull\<rparr>) s;
       Some ((OSEventPtr e, OS_NO_ERR), put_tcb (OSTCBCur s) (t\<lparr>OSTCBEventPtr := PNull\<rparr>) s1)
     }
   }"

definition OSMboxPend :: "ptr \<Rightarrow> INT16U \<Rightarrow> os \<Rightarrow> ((ptr \<times> INT8U) outcome \<times> os) option" where
  "OSMboxPend pevent timeout s = do {
     e \<leftarrow> event_at s pevent;
     if OSEventType e \<noteq> OS_EVENT_TYPE_MBOX
     then Some (Returned (PNull, OS_ERR_EVENT_TYPE), s)
     else do {
       let msg = OSEventPtr e;
       if msg \<noteq> PNull
       then Some (Returned (msg, OS_NO_ERR), put_event pevent (e\<lparr>OSEventPtr := PNull\<rparr>) s)
       else if OSIntNesting s > 0
       then Some (Returned (msg, OS_ERR_PEND_ISR), s)
       else do {
         s1 \<leftarrow> event_block OS_STAT_MBOX timeout pevent s;
         continue s s1 (OSMboxPend_resume pevent)
       }
     }
   }"

definition OSMboxPost :: "ptr \<Rightarrow> ptr \<Rightarrow> os \<Rightarrow> (INT8U \<times> os) option" where
  "OSMboxPost pevent msg s = do {
     e \<leftarrow> event_at s pevent;
     if OSEventType e \<noteq> OS_EVENT_TYPE_MBOX
     then Some (OS_ERR_EVENT_TYPE, s)
     else if OSEventGrp e \<noteq> 0
     then do {
       s1 \<leftarrow> OSEventTaskRdy pevent msg OS_STAT_MBOX s;
       s2 \<leftarrow> OSSched s1;
       Some (OS_NO_ERR, s2)
     }
     else if OSEventPtr e \<noteq> PNull
     then Some (OS_MBOX_FULL, s)
     else Some (OS_NO_ERR, put_event pevent (e\<lparr>OSEventPtr := msg\<rparr>) s)
   }"

definition OSMboxQuery :: "ptr \<Rightarrow> OS_MBOX_DATA \<Rightarrow> os \<Rightarrow> (INT8U \<times> OS_MBOX_DATA) option" where
  "OSMboxQuery pevent pdata s = do {
     e \<leftarrow> event_at s pevent;
     if OSEventType e \<noteq> OS_EVENT_TYPE_MBOX
     then Some (OS_ERR_EVENT_TYPE, pdata)
     else Some (OS_NO_ERR,
       pdata\<lparr>MboxOSEventGrp := OSEventGrp e,
             MboxOSEventTbl := (\<lambda>i. if i < OS_EVENT_TBL_SIZE then OSEventTbl e i
                                     else MboxOSEventTbl pdata i),
             MboxOSMsg := OSEventPtr e\<rparr>)
   }"

section \<open>The contracts\<close>

abbreviation is_mbox :: "os \<Rightarrow> nat \<Rightarrow> bool" where
  "is_mbox s e \<equiv> e < OS_MAX_EVENTS \<and> OSEventType (OSEventTbl_g s e) = OS_EVENT_TYPE_MBOX"

lemma ev_bit_MBOX [simp]: "ev_bit OS_EVENT_TYPE_MBOX = OS_STAT_MBOX"
  by (simp add: ev_bit_def type_defs)

interpretation mbox_post: event_post "\<lambda>e. OSMboxPost (PEvent e)" OS_EVENT_TYPE_MBOX "\<lambda>msg. msg"
  by unfold_locales (simp_all add: OSMboxPost_def)

interpretation mbox_pend: event_pend "\<lambda>e. OSMboxPend (PEvent e)" OS_EVENT_TYPE_MBOX
  "\<lambda>s e. OSEventPtr (OSEventTbl_g s e) \<noteq> PNull" "\<lambda>s e. OSMboxPend_resume (PEvent e)"
  by unfold_locales (simp_all add: OSMboxPend_def stat_defs)

text \<open>A task that takes the message out of its control block.\<close>

definition received :: "OS_TCB \<Rightarrow> OS_TCB" where
  "received t = t\<lparr>OSTCBMsg := PNull, OSTCBStat := OS_STAT_RDY, OSTCBEventPtr := PNull\<rparr>"

lemma received_kinv:
  assumes "kinv s" and "live s p i" and "p \<in> ready s" and np: "OSTCBEventPtr (OSTCBTbl s i) = PNull"
  shows "kinv (s\<lparr>OSTCBTbl := (OSTCBTbl s)(i := received (OSTCBTbl s i))\<rparr>)"
proof -
  note st = ready_stat [OF assms]
  have "task_ok (rdy s) (OSEventTbl_g s) p (received (OSTCBTbl s i))"
    using live_prio [OF assms(1,2)] st assms(3) unfolding task_ok_def received_def
    by (simp add: link_bit_def suspended_def stat_defs)
  then show ?thesis
    using kinvD_rdy [OF assms(1)] assms(3) np
    by (intro kinv_update [OF assms(1,2), where t' = "received (OSTCBTbl s i)"])
       (auto simp: received_def)
qed

section \<open>Properties\<close>

text \<open>A message posted to a mailbox on which tasks wait goes straight into the control block of
  the waiting task of highest priority: that task leaves the wait list and becomes ready unless it
  is suspended, its delay is cleared, no other task changes, and the mailbox stays as it is.\<close>
theorem mbox_post_hands_over:
  assumes "stable s" and "is_mbox s e" and "waiters s e \<noteq> {}"
  shows "\<exists>s' i. OSMboxPost (PEvent e) msg s = Some (OS_NO_ERR, s') \<and> stable s'
    \<and> live s (Min (waiters s e)) i
    \<and> waiters s' = (waiters s)(e := waiters s e - {Min (waiters s e)})
    \<and> ready s' = (if suspended (OSTCBTbl s i) then ready s else insert (Min (waiters s e)) (ready s))
    \<and> OSTCBTbl s' = (OSTCBTbl s)(i := readied msg OS_STAT_MBOX (OSTCBTbl s i))
    \<and> OSEventPtr (OSEventTbl_g s' e) = OSEventPtr (OSEventTbl_g s e)"
proof -
  have e: "e < OS_MAX_EVENTS" and ty: "OSEventType (OSEventTbl_g s e) = OS_EVENT_TYPE_MBOX"
    using assms(2) by auto
  show ?thesis
  proof (rule mbox_post.post_wakes_highest [OF assms(1) e assms(3) ty, where msg = msg])
    fix s2 p i
    assume "OSMboxPost (PEvent e) msg s = Some (OS_NO_ERR, s2)" "p = Min (waiters s e)" "live s p i"
      "stable s2" "OSTCBTbl s2 = (OSTCBTbl s)(i := readied msg (ev_bit OS_EVENT_TYPE_MBOX) (OSTCBTbl s i))"
      "ready s2 = (if suspended (OSTCBTbl s i) then ready s else insert p (ready s))"
      "waiters s2 = (waiters s)(e := waiters s e - {p})"
      "OSEventPtr (OSEventTbl_g s2 e) = OSEventPtr (OSEventTbl_g s e)"
    then show ?thesis by (intro exI [of _ s2] exI [of _ i]) (simp del: fun_upd_apply)
  qed
qed

theorem mbox_post_hands_over_witness:
  "\<exists>s' i. OSMboxPost (PEvent 2) (PAddr 900) sample = Some (OS_NO_ERR, s')
     \<and> live sample 9 i \<and> OSTCBMsg (OSTCBTbl s' i) = PAddr 900 \<and> stable s'"
proof -
  have m: "is_mbox sample 2" "waiters sample 2 \<noteq> {}"
    using sample_types sample_waiters by (simp_all add: config_defs)
  obtain s' i where "OSMboxPost (PEvent 2) (PAddr 900) sample = Some (OS_NO_ERR, s')" "stable s'"
    "live sample (Min (waiters sample 2)) i"
    "OSTCBTbl s' = (OSTCBTbl sample)(i := readied (PAddr 900) OS_STAT_MBOX (OSTCBTbl sample i))"
    using mbox_post_hands_over [OF sample_stable m, of "PAddr 900"] by blast
  then show ?thesis by (auto simp: sample_waiters readied_def)
qed

text \<open>A mailbox with no task waiting behaves as a cell for one message: a post fills it when it
  is empty and is refused when it is full, an accept and a pend give back exactly the posted
  message and leave it empty; an event of another type is rejected by all three, unchanged.\<close>
theorem mbox_cell:
  assumes "e < OS_MAX_EVENTS" and "OSEventGrp (OSEventTbl_g s e) = 0" and "msg \<noteq> PNull"
  defines "E \<equiv> OSEventTbl_g s e"
  shows "if OSEventType E \<noteq> OS_EVENT_TYPE_MBOX
     then OSMboxPost (PEvent e) msg s = Some (OS_ERR_EVENT_TYPE, s)
       \<and> OSMboxAccept (PEvent e) s = Some (PNull, s)
       \<and> OSMboxPend (PEvent e) timeout s = Some (Returned (PNull, OS_ERR_EVENT_TYPE), s)
     else if OSEventPtr E \<noteq> PNull
     then OSMboxPost (PEvent e) msg s = Some (OS_MBOX_FULL, s)
       \<and> (\<exists>s1. OSMboxAccept (PEvent e) s = Some (OSEventPtr E, s1)
            \<and> OSMboxPend (PEvent e) timeout s = Some (Returned (OSEventPtr E, OS_NO_ERR), s1)
            \<and> OSEventTbl_g s1 = (OSEventTbl_g s)(e := E\<lparr>OSEventPtr := PNull\<rparr>))
     else OSMboxAccept (PEvent e) s = Some (PNull, s)
       \<and> (\<exists>s1. OSMboxPost (PEvent e) msg s = Some (OS_NO_ERR, s1)
            \<and> OSMboxAccept (PEvent e) s1 = Some (msg, s))"
proof -
  have h: "E\<lparr>OSEventPtr := PNull\<rparr> = E" if "OSEventPtr E = PNull" using that by simp
  have "s\<lparr>OSEventTbl_g := (OSEventTbl_g s)(e := E\<lparr>OSEventPtr := PNull\<rparr>)\<rparr> = s"
    if "OSEventPtr E = PNull"
    unfolding h [OF that] by (simp add: E_def)
  then show ?thesis
    using assms(1-3)
    by (auto simp: OSMboxPost_def OSMboxAccept_def OSMboxPend_def Let_def E_def [symmetric])
qed

theorem mbox_cell_witness:
  "OSMboxPost (PEvent 7) (PAddr 900) sample = Some (OS_MBOX_FULL, sample) \<and>
   (\<exists>s1. OSMboxPost (PEvent 3) (PAddr 900) sample = Some (OS_NO_ERR, s1)
      \<and> OSMboxAccept (PEvent 3) s1 = Some (PAddr 900, sample))"
proof -
  have a: "(7 :: nat) < OS_MAX_EVENTS" "OSEventGrp (OSEventTbl_g sample 7) = 0" "PAddr 900 \<noteq> PNull"
    "OSEventType (OSEventTbl_g sample 7) = OS_EVENT_TYPE_MBOX"
    "OSEventPtr (OSEventTbl_g sample 7) \<noteq> PNull"
    by code_simp+
  have b: "(3 :: nat) < OS_MAX_EVENTS" "OSEventGrp (OSEventTbl_g sample 3) = 0"
    "OSEventType (OSEventTbl_g sample 3) = OS_EVENT_TYPE_MBOX"
    "OSEventPtr (OSEventTbl_g sample 3) = PNull"
    by code_simp+
  show ?thesis
    using mbox_cell [OF a(1-3), of 0] a(4,5) mbox_cell [OF b(1,2) a(3), of 0] b(3,4) by simp
qed

text \<open>A pend on an empty mailbox outside interrupts always blocks the calling task: it leaves the
  ready list, joins the wait list of this mailbox only, and another task runs.\<close>
theorem mbox_pend_blocks:
  assumes "task_level s" and "is_mbox s e" and "OSTCBEventPtr (cur_task s) = PNull"
    and "unat (OSPrioCur s) \<noteq> OS_IDLE_PRIO" and "OSEventPtr (OSEventTbl_g s e) = PNull"
  shows "\<exists>s'. OSMboxPend (PEvent e) timeout s = Some (Blocked, s') \<and> task_level s'
    \<and> OSTCBCur s' \<noteq> OSTCBCur s \<and> ready s' = ready s - {unat (OSPrioCur s)}
    \<and> waiters s' = (waiters s)(e := insert (unat (OSPrioCur s)) (waiters s e))"
proof -
  have e: "e < OS_MAX_EVENTS" and ty: "OSEventType (OSEventTbl_g s e) = OS_EVENT_TYPE_MBOX"
    and na: "\<not> OSEventPtr (OSEventTbl_g s e) \<noteq> PNull"
    using assms(2,5) by auto
  show ?thesis
    by (rule mbox_pend.pend_blocks [OF assms(1) e assms(3,4) ty na, where timeout = timeout]) blast
qed

theorem mbox_pend_blocks_witness:
  "\<exists>s'. OSMboxPend (PEvent 2) 0 sample = Some (Blocked, s') \<and> ready s' = {19, 20}"
proof -
  have "is_mbox sample 2" using sample_types by (simp add: config_defs)
  moreover have "OSEventPtr (OSEventTbl_g sample 2) = PNull" by code_simp
  ultimately have "\<exists>s'. OSMboxPend (PEvent 2) 0 sample = Some (Blocked, s') \<and> ready s' = ready sample - {5}"
    using mbox_pend_blocks [OF sample_task_level _ sample_cur(1,2), of 2 0] sample_cur(3) by metis
  moreover have "ready sample - {5} = {19, 20}" by (simp add: sample_ready)
  ultimately show ?thesis by simp
qed

lemma mbox_pend_resume_ok:
  assumes "kinv s" and "live s p i" and "OSTCBCur s = PTcb i" and "p \<in> ready s" and "is_mbox s e"
    and "OSTCBEventPtr (OSTCBTbl s i) = PNull \<and> OSTCBMsg (OSTCBTbl s i) = msg \<and> msg \<noteq> PNull
       \<or> OSTCBEventPtr (OSTCBTbl s i) = PEvent e \<and> OSTCBMsg (OSTCBTbl s i) = PNull"
  shows "\<exists>s' r. OSMboxPend_resume (PEvent e) s = Some (r, s') \<and> kinv s' \<and> ready s' = ready s
    \<and> OSTCBEventPtr (OSTCBTbl s' i) = PNull \<and> OSTCBMsg (OSTCBTbl s' i) = PNull
    \<and> (\<forall>j. j \<noteq> i \<longrightarrow> OSTCBTbl s' j = OSTCBTbl s j)
    \<and> OSEventPtr (OSEventTbl_g s' e) = OSEventPtr (OSEventTbl_g s e)
    \<and> r = (if p \<in> waiters s e then (PNull, OS_TIMEOUT) else (OSTCBMsg (OSTCBTbl s i), OS_NO_ERR))
    \<and> waiters s' = (waiters s)(e := waiters s e - {p})"
proof -
  have e: "e < OS_MAX_EVENTS" and iN: "i < N_TCB" using assms(2,5) by (auto simp: live_def)
  from assms(6) show ?thesis
  proof
    assume a: "OSTCBEventPtr (OSTCBTbl s i) = PNull \<and> OSTCBMsg (OSTCBTbl s i) = msg \<and> msg \<noteq> PNull"
    let ?s = "s\<lparr>OSTCBTbl := (OSTCBTbl s)(i := received (OSTCBTbl s i))\<rparr>"
    have r: "OSMboxPend_resume (PEvent e) s = Some ((OSTCBMsg (OSTCBTbl s i), OS_NO_ERR), ?s)"
      using assms(3) iN a by (simp add: OSMboxPend_resume_def received_def)
    have "kinv ?s" using received_kinv [OF assms(1,2,4)] a by blast
    moreover have pn: "p \<notin> waiters s e" using waits_for_one [OF assms(1,2) e] a by auto
    moreover have "waiters s = (waiters s)(e := waiters s e - {p})"
      by (rule ext) (simp add: pn)
    ultimately show ?thesis using r by (intro exI [of _ ?s]) (simp add: received_def)
  next
    assume a: "OSTCBEventPtr (OSTCBTbl s i) = PEvent e \<and> OSTCBMsg (OSTCBTbl s i) = PNull"
    then have np: "OSTCBEventPtr (OSTCBTbl s i) = PEvent e" by simp
    have w: "p \<in> waiters s e" using kinvD_task [OF assms(1,2)] np unfolding task_ok_def by auto
    have "OSTCBStat (OSTCBTbl s i) \<in> {OS_STAT_MBOX, OS_STAT_MBOX OR OS_STAT_SUSPEND}"
      using waiter_stat(3) [OF assms(1) e assms(2) w] assms(5) by simp
    then have b: "OSTCBStat (OSTCBTbl s i) AND OS_STAT_MBOX \<noteq> 0" by (auto simp: stat_defs)
    obtain s' where s': "OSEventTO (PEvent e) s = Some s'" "kinv s'" "same_but_task s s'"
      "OSTCBTbl s' = (OSTCBTbl s)(i := (OSTCBTbl s i)\<lparr>OSTCBStat := OS_STAT_RDY, OSTCBEventPtr := PNull\<rparr>)"
      "ready s' = ready s" "waiters s' = (waiters s)(e := waiters s e - {p})"
      "\<forall>d. d \<noteq> e \<longrightarrow> OSEventTbl_g s' d = OSEventTbl_g s d"
      "OSEventPtr (OSEventTbl_g s' e) = OSEventPtr (OSEventTbl_g s e)"
      "OSEventCnt (OSEventTbl_g s' e) = OSEventCnt (OSEventTbl_g s e)"
      "OSEventType (OSEventTbl_g s' e) = OSEventType (OSEventTbl_g s e)"
      using OSEventTO_post [OF assms(1) e assms(2,3,4) np] .
    have "OSMboxPend_resume (PEvent e) s = Some ((PNull, OS_TIMEOUT), s')"
      using assms(3) iN a b s'(1) by (simp add: OSMboxPend_resume_def)
    moreover have "OSTCBEventPtr (OSTCBTbl s' i) = PNull" "OSTCBMsg (OSTCBTbl s' i) = PNull"
      "\<forall>j. j \<noteq> i \<longrightarrow> OSTCBTbl s' j = OSTCBTbl s j"
      using s'(4) a by simp_all
    ultimately show ?thesis using s'(2,5,6,8) w
      by (intro exI [of _ s'] exI [of _ "(PNull, OS_TIMEOUT)"]) (simp del: fun_upd_apply)
  qed
qed

text \<open>What a task receives when it runs again after waiting for a mailbox: the message that was
  posted to it, once, with \<open>OS_NO_ERR\<close>; or, when its timeout ran out, a null pointer and
  \<open>OS_TIMEOUT\<close>, and it has left the wait list. Either way it no longer waits, and the other
  tasks, the ready list and the mailboxes are unchanged.\<close>
theorem mbox_pend_resumes:
  assumes "kinv s" and "live s p i" and "OSTCBCur s = PTcb i" and "p \<in> ready s" and "is_mbox s e"
    and "OSTCBEventPtr (OSTCBTbl s i) = PNull \<and> OSTCBMsg (OSTCBTbl s i) = msg \<and> msg \<noteq> PNull
       \<or> OSTCBEventPtr (OSTCBTbl s i) = PEvent e \<and> OSTCBMsg (OSTCBTbl s i) = PNull"
  shows "\<exists>s' r. OSMboxPend_resume (PEvent e) s = Some (r, s') \<and> kinv s' \<and> ready s' = ready s
    \<and> OSTCBEventPtr (OSTCBTbl s' i) = PNull \<and> OSTCBMsg (OSTCBTbl s' i) = PNull
    \<and> (\<forall>j. j \<noteq> i \<longrightarrow> OSTCBTbl s' j = OSTCBTbl s j)
    \<and> OSEventPtr (OSEventTbl_g s' e) = OSEventPtr (OSEventTbl_g s e)
    \<and> r = (if p \<in> waiters s e then (PNull, OS_TIMEOUT) else (OSTCBMsg (OSTCBTbl s i), OS_NO_ERR))
    \<and> waiters s' = (waiters s)(e := waiters s e - {p})"
  by (rule mbox_pend_resume_ok [OF assms])

theorem mbox_pend_resumes_witness:
  "\<exists>s'. OSMboxPend_resume (PEvent 3)
      (sample\<lparr>OSTCBTbl := (OSTCBTbl sample)(2 := (OSTCBTbl sample 2)\<lparr>OSTCBMsg := PAddr 900\<rparr>)\<rparr>)
    = Some ((PAddr 900, OS_NO_ERR), s') \<and> OSTCBMsg (OSTCBTbl s' 2) = PNull"
proof -
  let ?s = "sample\<lparr>OSTCBTbl := (OSTCBTbl sample)(2 := (OSTCBTbl sample 2)\<lparr>OSTCBMsg := PAddr 900\<rparr>)\<rparr>"
  have k: "kinv ?s" unfolding kinv_def kinv_list by code_simp
  have l: "live ?s 5 2" "OSTCBCur ?s = PTcb 2" "5 \<in> ready ?s"
    using sample_live by (simp_all add: live_def)
  have m: "is_mbox ?s 3" "OSTCBEventPtr (OSTCBTbl ?s 2) = PNull" "OSTCBMsg (OSTCBTbl ?s 2) = PAddr 900"
    by code_simp+
  have w: "waiters ?s 3 = {}" unfolding members_list by code_simp
  have "\<exists>s' r. OSMboxPend_resume (PEvent 3) ?s = Some (r, s') \<and> OSTCBMsg (OSTCBTbl s' 2) = PNull
    \<and> r = (if 5 \<in> waiters ?s 3 then (PNull, OS_TIMEOUT) else (OSTCBMsg (OSTCBTbl ?s 2), OS_NO_ERR))"
    using mbox_pend_resumes [OF k l m(1), of "PAddr 900"] m(2,3) by blast
  then show ?thesis using w by auto
qed

section \<open>Findings\<close>

text \<open>\<open>OSSemPend\<close> does not reject an event of another type: called on an empty mailbox it makes the
  caller wait as for a semaphore, and the message then posted to the mailbox removes the task
  from the wait list without making it ready, delayed or suspended.\<close>

definition wrong_type_pend :: "os \<Rightarrow> (os \<times> os) option" where
  "wrong_type_pend s = do {
     (r, s1) \<leftarrow> OSSemPend (PEvent 3) 0 s;
     (err, s2) \<leftarrow> OSMboxPost (PEvent 3) (PAddr 900) s1;
     Some (s1, s2)
   }"

lemma OSSemPend_wrong_type_loses_task:
  "case wrong_type_pend sample of
     Some (s1, s2) \<Rightarrow> 5 \<in> set (members_list (waiting (OSEventTbl_g s1 3)))
       \<and> 5 \<notin> set (members_list (waiting (OSEventTbl_g s2 3))) \<and> 5 \<notin> set (members_list (rdy s2))
       \<and> OSTCBDly (OSTCBTbl s2 2) = 0 \<and> OSTCBStat (OSTCBTbl s2 2) = OS_STAT_SEM
       \<and> OSTCBEventPtr (OSTCBTbl s2 2) = PNull
   | None \<Rightarrow> False"
  by code_simp

end
