(* ===== verification/Ring_Buffer.thy ===== *)
theory Ring_Buffer
  imports Kernel_State
begin

text \<open>
  The circular buffer of a message queue: the statements by which OS\_Q.C inserts at the end,
  inserts at the front and extracts, on a queue control block and the memory that holds its
  storage area. An entry of the area is a pointer of 4 bytes (far pointers in the large memory
  model). The abstraction is the list of messages, oldest first; the locale \<open>message_queue\<close>
  states the laws that a client relies on.
\<close>

section \<open>The statements of OS\_Q.C on the buffer\<close>

definition PTR_SIZE :: int where "PTR_SIZE = 4"

type_synonym ring = "OS_Q \<times> (addr \<Rightarrow> ptr)"

text \<open>\<open>*pq->OSQIn++ = msg\<close>, the count, and the wrap of the IN pointer.\<close>

fun q_insert :: "ptr \<Rightarrow> ring \<Rightarrow> ring" where
  "q_insert msg (q, M) =
     (let M' = M(OSQIn q := msg);
          q1 = q\<lparr>OSQIn := OSQIn q + PTR_SIZE, OSQEntries := OSQEntries q + 1\<rparr>
      in (if OSQIn q1 = OSQEnd q1 then q1\<lparr>OSQIn := OSQStart q1\<rparr> else q1, M'))"

text \<open>The wrap and decrement of the OUT pointer, \<open>*pq->OSQOut = msg\<close>, and the count.\<close>

fun q_insert_front :: "ptr \<Rightarrow> ring \<Rightarrow> ring" where
  "q_insert_front msg (q, M) =
     (let q1 = (if OSQOut q = OSQStart q then q\<lparr>OSQOut := OSQEnd q\<rparr> else q);
          q2 = q1\<lparr>OSQOut := OSQOut q1 - PTR_SIZE\<rparr>
      in (q2\<lparr>OSQEntries := OSQEntries q2 + 1\<rparr>, M(OSQOut q2 := msg)))"

text \<open>\<open>msg = *pq->OSQOut++\<close>, the count, and the wrap of the OUT pointer.\<close>

fun q_extract :: "ring \<Rightarrow> ptr \<times> ring" where
  "q_extract (q, M) =
     (let msg = M (OSQOut q);
          q1 = q\<lparr>OSQOut := OSQOut q + PTR_SIZE, OSQEntries := OSQEntries q - 1\<rparr>
      in (msg, (if OSQOut q1 = OSQEnd q1 then q1\<lparr>OSQOut := OSQStart q1\<rparr> else q1, M)))"

fun q_flush :: "ring \<Rightarrow> ring" where
  "q_flush (q, M) = (q\<lparr>OSQIn := OSQStart q, OSQOut := OSQStart q, OSQEntries := 0\<rparr>, M)"

section \<open>Invariant and contents\<close>

definition slot :: "OS_Q \<Rightarrow> nat \<Rightarrow> addr" where
  "slot q k = OSQStart q + PTR_SIZE * int (k mod unat (OSQSize q))"

definition q_off :: "OS_Q \<Rightarrow> nat" where
  "q_off q = nat ((OSQOut q - OSQStart q) div PTR_SIZE)"

definition q_ok :: "OS_Q \<Rightarrow> bool" where
  "q_ok q \<longleftrightarrow>
     unat (OSQEntries q) \<le> unat (OSQSize q) \<and>
     (q_off q < unat (OSQSize q) \<or> unat (OSQSize q) = 0 \<and> q_off q = 0) \<and>
     OSQEnd q = OSQStart q + PTR_SIZE * int (unat (OSQSize q)) \<and>
     OSQOut q = slot q (q_off q) \<and>
     OSQIn q = slot q (q_off q + unat (OSQEntries q))"

fun ring_ok :: "ring \<Rightarrow> bool" where
  "ring_ok (q, M) = q_ok q"

fun ring_cap :: "ring \<Rightarrow> nat" where
  "ring_cap (q, M) = unat (OSQSize q)"

fun messages :: "ring \<Rightarrow> ptr list" where
  "messages (q, M) = map (\<lambda>k. M (slot q (q_off q + k))) [0 ..< unat (OSQEntries q)]"

text \<open>The storage area of the queue.\<close>

definition q_area :: "OS_Q \<Rightarrow> addr set" where
  "q_area q = {a. OSQStart q \<le> a \<and> a < OSQEnd q}"

lemma length_messages: "length (messages (q, M)) = unat (OSQEntries q)"
  by simp

lemma add_mod_inj:
  assumes "(i + j) mod n = (i + k) mod (n :: nat)" and "j < n" and "k < n"
  shows "j = k"
proof -
  have "int (i + j) mod int n = int (i + k) mod int n"
    using assms(1) by (metis of_nat_mod)
  then have d: "int n dvd int j - int k" by (simp add: mod_eq_dvd_iff)
  have "\<bar>int j - int k\<bar> < int n" using assms(2,3) by linarith
  then show ?thesis using d zdvd_imp_le [of "int n" "\<bar>int j - int k\<bar>"] by fastforce
qed

lemma slot_inj:
  "j < unat (OSQSize q) \<Longrightarrow> k < unat (OSQSize q) \<Longrightarrow> slot q (i + j) = slot q (i + k) \<Longrightarrow> j = k"
  by (rule add_mod_inj [of i j "unat (OSQSize q)" k]) (simp_all add: slot_def PTR_SIZE_def)

lemma slot_in_area:
  assumes "q_ok q" and "0 < unat (OSQSize q)"
  shows "slot q k \<in> q_area q"
proof -
  have "int (k mod unat (OSQSize q)) < int (unat (OSQSize q))"
    using assms(2) by (simp only: of_nat_less_iff mod_less_divisor)
  with assms(1) show ?thesis by (simp add: q_ok_def q_area_def slot_def PTR_SIZE_def)
qed

text \<open>The address after a slot, with the wrap at the end of the area, is the next slot.\<close>

lemma slot_Suc:
  assumes "0 < unat (OSQSize q)" and "OSQEnd q = OSQStart q + PTR_SIZE * int (unat (OSQSize q))"
  shows "slot q (Suc k) = (if slot q k + PTR_SIZE = OSQEnd q then OSQStart q else slot q k + PTR_SIZE)"
proof -
  obtain z where z: "unat (OSQSize q) = z" by blast
  have lt: "k mod z < z" using assms(1) z by simp
  show ?thesis
  proof (cases "Suc (k mod z) = z")
    case True
    then have "int (k mod z) + 1 = int z" by linarith
    with True assms(2) show ?thesis unfolding slot_def z PTR_SIZE_def mod_Suc by simp
  next
    case False
    then have "int (k mod z) + 1 \<noteq> int z" by linarith
    with False assms(2) show ?thesis unfolding slot_def z PTR_SIZE_def mod_Suc by simp
  qed
qed

lemma q_off_slot:
  "OSQOut q = slot q' k \<Longrightarrow> OSQStart q = OSQStart q' \<Longrightarrow> q_off q = k mod unat (OSQSize q')"
  by (simp add: q_off_def slot_def PTR_SIZE_def)

lemma slot_mod: "slot q (k mod unat (OSQSize q) + j) = slot q (k + j)"
  by (simp add: slot_def mod_add_left_eq)

lemma slot_cong:
  "OSQStart q' = OSQStart q \<Longrightarrow> OSQSize q' = OSQSize q \<Longrightarrow> slot q' k = slot q k"
  by (simp add: slot_def)

lemma entries_succ:
  "unat (OSQEntries q) < unat (OSQSize q) \<Longrightarrow> unat (OSQEntries q + 1) = Suc (unat (OSQEntries q))"
  using unsigned_less [of "OSQSize q", where ?'a = nat] by (simp add: unat_word_ariths)

lemma entries_pred:
  "0 < unat (OSQEntries q) \<Longrightarrow> unat (OSQEntries q - 1) = unat (OSQEntries q) - 1"
  by (rule unat_minus_one) auto

section \<open>The operations on the contents\<close>

lemma q_insert_ok:
  assumes ok: "q_ok q" and room: "unat (OSQEntries q) < unat (OSQSize q)"
    and r: "q_insert msg (q, M) = (q', M')"
  shows "q_ok q'" "messages (q', M') = messages (q, M) @ [msg]" "OSQSize q' = OSQSize q"
    "q_area q' = q_area q" "\<forall>a. a \<notin> q_area q \<longrightarrow> M' a = M a" "OSQPtr q' = OSQPtr q"
proof -
  let ?n = "unat (OSQEntries q)" and ?z = "unat (OSQSize q)"
  note fin = ok [unfolded q_ok_def]
  have z: "0 < ?z" using room by simp
  have "q' = q\<lparr>OSQIn := (if OSQIn q + PTR_SIZE = OSQEnd q then OSQStart q else OSQIn q + PTR_SIZE),
      OSQEntries := OSQEntries q + 1\<rparr>" and M': "M' = M(OSQIn q := msg)"
    using r by (auto simp: Let_def split: if_splits)
  then have q': "q' = q\<lparr>OSQIn := slot q (q_off q + Suc ?n), OSQEntries := OSQEntries q + 1\<rparr>"
    using slot_Suc [OF z, of "q_off q + ?n"] fin by simp
  have off: "q_off q' = q_off q" using q' by (simp add: q_off_def)
  have sl: "slot q' k = slot q k" for k using q' by (intro slot_cong) simp_all
  show "OSQSize q' = OSQSize q" "OSQPtr q' = OSQPtr q" "q_area q' = q_area q"
    using q' by (simp_all add: q_area_def)
  have sel: "OSQIn q' = slot q (q_off q + Suc ?n)" "OSQOut q' = OSQOut q" "OSQSize q' = OSQSize q"
    "OSQEntries q' = OSQEntries q + 1" "OSQStart q' = OSQStart q" "OSQEnd q' = OSQEnd q"
    using q' by simp_all
  show "q_ok q'"
    using fin off room by (simp add: q_ok_def sl sel entries_succ)
  have "OSQIn q \<in> q_area q" using slot_in_area [OF ok z] fin by simp
  then show "\<forall>a. a \<notin> q_area q \<longrightarrow> M' a = M a" using M' by auto
  have "M' (slot q (q_off q + k)) = M (slot q (q_off q + k))" if "k < ?n" for k
    using slot_inj [of k q ?n "q_off q"] that room fin M' by auto
  moreover have "M' (slot q (q_off q + ?n)) = msg" using M' fin by simp
  ultimately show "messages (q', M') = messages (q, M) @ [msg]"
    using room by (simp add: sl off sel entries_succ)
qed

lemma q_extract_ok:
  assumes ok: "q_ok q" and some: "0 < unat (OSQEntries q)"
    and r: "q_extract (q, M) = (msg, q', M')"
  shows "q_ok q'" "messages (q, M) = msg # messages (q', M')" "OSQSize q' = OSQSize q"
    "q_area q' = q_area q" "M' = M" "OSQPtr q' = OSQPtr q"
proof -
  let ?n = "unat (OSQEntries q)" and ?z = "unat (OSQSize q)"
  note fin = ok [unfolded q_ok_def]
  have z: "0 < ?z" using some fin by linarith
  have "q' = q\<lparr>OSQOut := (if OSQOut q + PTR_SIZE = OSQEnd q then OSQStart q else OSQOut q + PTR_SIZE),
      OSQEntries := OSQEntries q - 1\<rparr>" and m: "msg = M (OSQOut q)"
    using r by (auto simp: Let_def split: if_splits)
  then have q': "q' = q\<lparr>OSQOut := slot q (Suc (q_off q)), OSQEntries := OSQEntries q - 1\<rparr>"
    using slot_Suc [OF z, of "q_off q"] fin by simp
  have off: "q_off q' = Suc (q_off q) mod ?z"
    using q' by (intro q_off_slot) simp_all
  have sl: "slot q' k = slot q k" for k using q' by (intro slot_cong) simp_all
  show "OSQSize q' = OSQSize q" "OSQPtr q' = OSQPtr q" "q_area q' = q_area q"
    using q' by (simp_all add: q_area_def)
  have sel: "OSQOut q' = slot q (Suc (q_off q))" "OSQIn q' = OSQIn q" "OSQSize q' = OSQSize q"
    "OSQEntries q' = OSQEntries q - 1" "OSQStart q' = OSQStart q" "OSQEnd q' = OSQEnd q"
    using q' by simp_all
  show MM: "M' = M" using r by (auto simp: Let_def split: if_splits)
  have "?n - 1 \<le> ?z" using fin by (auto intro: le_trans [OF diff_le_self])
  then show "q_ok q'"
    using fin off some z slot_mod [of q "Suc (q_off q)" 0] slot_mod [of q "Suc (q_off q)" "?n - 1"]
    by (simp add: q_ok_def sl sel entries_pred)
  have "messages (q, M) = M (slot q (q_off q)) # map (\<lambda>k. M (slot q (q_off q + Suc k))) [0 ..< ?n - 1]"
    using some by (cases ?n) (simp_all add: upt_rec [of 0] map_Suc_upt [symmetric] del: upt_Suc)
  also have "\<dots> = msg # messages (q', M')"
    using m fin slot_mod [of q "Suc (q_off q)"] some by (simp add: sl sel off MM entries_pred)
  finally show "messages (q, M) = msg # messages (q', M')" .
qed

lemma slot_add_size: "slot q (k + unat (OSQSize q)) = slot q k"
  by (simp add: slot_def)

lemma slot_pred:
  assumes "0 < unat (OSQSize q)" and "OSQEnd q = OSQStart q + PTR_SIZE * int (unat (OSQSize q))"
  shows "slot q (k + (unat (OSQSize q) - 1))
    = (if slot q k = OSQStart q then OSQEnd q else slot q k) - PTR_SIZE"
proof -
  let ?j = "k + (unat (OSQSize q) - 1)"
  have S: "slot q (Suc ?j) = slot q k" using assms(1) slot_add_size [of q k] by simp
  have lt: "slot q ?j + PTR_SIZE \<noteq> OSQEnd q \<Longrightarrow> slot q ?j + PTR_SIZE \<noteq> OSQStart q"
    by (simp add: slot_def PTR_SIZE_def)
  show ?thesis
    using slot_Suc [OF assms, of ?j] S lt by (simp split: if_splits)
qed

lemma q_insert_front_ok:
  assumes ok: "q_ok q" and room: "unat (OSQEntries q) < unat (OSQSize q)"
    and r: "q_insert_front msg (q, M) = (q', M')"
  shows "q_ok q'" "messages (q', M') = msg # messages (q, M)" "OSQSize q' = OSQSize q"
    "q_area q' = q_area q" "\<forall>a. a \<notin> q_area q \<longrightarrow> M' a = M a" "OSQPtr q' = OSQPtr q"
proof -
  let ?n = "unat (OSQEntries q)" and ?z = "unat (OSQSize q)"
  let ?o = "q_off q + (?z - 1)"
  note fin = ok [unfolded q_ok_def]
  have z: "0 < ?z" using room by simp
  have out: "slot q ?o = (if OSQOut q = OSQStart q then OSQEnd q else OSQOut q) - PTR_SIZE"
    using slot_pred [OF z, of "q_off q"] fin by simp
  have q': "q' = q\<lparr>OSQOut := slot q ?o, OSQEntries := OSQEntries q + 1\<rparr>"
    and M': "M' = M(slot q ?o := msg)"
    using r unfolding out by (auto simp: Let_def split: if_splits)
  have off: "q_off q' = ?o mod ?z"
    using q' by (intro q_off_slot) simp_all
  have sl: "slot q' k = slot q k" for k using q' by (intro slot_cong) simp_all
  show "OSQSize q' = OSQSize q" "OSQPtr q' = OSQPtr q" "q_area q' = q_area q"
    using q' by (simp_all add: q_area_def)
  have sel: "OSQOut q' = slot q ?o" "OSQIn q' = OSQIn q" "OSQSize q' = OSQSize q"
    "OSQEntries q' = OSQEntries q + 1" "OSQStart q' = OSQStart q" "OSQEnd q' = OSQEnd q"
    using q' by simp_all
  have prev: "slot q (?o mod ?z + Suc k) = slot q (q_off q + k)" for k
  proof -
    have "?o + Suc k = q_off q + k + ?z" using z by simp
    then show ?thesis using slot_mod [of q ?o "Suc k"] slot_add_size [of q "q_off q + k"] by metis
  qed
  have first: "slot q (?o mod ?z) = slot q ?o" using slot_mod [of q ?o 0] by simp
  have "?o mod ?z < ?z" using z by simp
  then show "q_ok q'"
    using fin off room prev [of ?n] first by (simp add: q_ok_def sl sel entries_succ)
  have "slot q ?o \<in> q_area q" using slot_in_area [OF ok z] .
  then show "\<forall>a. a \<notin> q_area q \<longrightarrow> M' a = M a" using M' by auto
  have neq: "slot q (q_off q + k) \<noteq> slot q ?o" if "k < ?n" for k
    using slot_inj [of k q "?z - 1" "q_off q"] that room by auto
  have "messages (q', M') = M' (slot q (?o mod ?z)) # map (\<lambda>k. M' (slot q (?o mod ?z + Suc k))) [0 ..< ?n]"
    using room by (simp add: sl sel off entries_succ upt_rec [of 0] map_Suc_upt [symmetric] del: upt_Suc)
  also have "\<dots> = msg # messages (q, M)"
    unfolding prev first M' using neq by simp
  finally show "messages (q', M') = msg # messages (q, M)" .
qed

lemma q_flush_ok:
  assumes "q_ok q" and "q_flush (q, M) = (q', M')"
  shows "q_ok q'" "messages (q', M') = []" "OSQSize q' = OSQSize q" "q_area q' = q_area q"
    "M' = M" "OSQPtr q' = OSQPtr q"
  using assms by (auto simp: q_ok_def q_off_def slot_def PTR_SIZE_def q_area_def)

section \<open>The interface\<close>

text \<open>A bounded queue of messages with insertion at both ends.\<close>

locale message_queue =
  fixes invar :: "'q \<Rightarrow> bool"
    and contents :: "'q \<Rightarrow> 'm list"
    and capacity :: "'q \<Rightarrow> nat"
    and put :: "'m \<Rightarrow> 'q \<Rightarrow> 'q"
    and put_front :: "'m \<Rightarrow> 'q \<Rightarrow> 'q"
    and get :: "'q \<Rightarrow> 'm \<times> 'q"
  assumes put_ok: "invar q \<Longrightarrow> length (contents q) < capacity q \<Longrightarrow>
      invar (put m q) \<and> contents (put m q) = contents q @ [m] \<and> capacity (put m q) = capacity q"
    and put_front_ok: "invar q \<Longrightarrow> length (contents q) < capacity q \<Longrightarrow>
      invar (put_front m q) \<and> contents (put_front m q) = m # contents q
        \<and> capacity (put_front m q) = capacity q"
    and get_ok: "invar q \<Longrightarrow> contents q \<noteq> [] \<Longrightarrow>
      invar (snd (get q)) \<and> contents q = fst (get q) # contents (snd (get q))
        \<and> capacity (snd (get q)) = capacity q"
begin

fun get_all :: "nat \<Rightarrow> 'q \<Rightarrow> 'm list" where
  "get_all 0 q = []"
| "get_all (Suc n) q = fst (get q) # get_all n (snd (get q))"

lemma put_all:
  "invar q \<Longrightarrow> length (contents q) + length ms \<le> capacity q \<Longrightarrow>
    invar (fold put ms q) \<and> contents (fold put ms q) = contents q @ ms
      \<and> capacity (fold put ms q) = capacity q"
proof (induction ms arbitrary: q)
  case (Cons m ms)
  have p: "invar (put m q)" "contents (put m q) = contents q @ [m]" "capacity (put m q) = capacity q"
    using put_ok [of q m] Cons.prems by auto
  then show ?case using Cons.IH [OF p(1)] Cons.prems by simp
qed simp

lemma get_all_contents: "invar q \<Longrightarrow> get_all (length (contents q)) q = contents q"
proof (induction "length (contents q)" arbitrary: q)
  case (Suc n)
  then have "contents q \<noteq> []" by auto
  note g = get_ok [OF Suc.prems this]
  then have "length (contents (snd (get q))) = n" using Suc.hyps(2) by (metis length_Cons nat.inject)
  then have "get_all n (snd (get q)) = contents (snd (get q))" using Suc.hyps(1) g by metis
  then show ?case using g Suc.hyps(2) by (metis get_all.simps(2))
qed simp

text \<open>First in, first out: what is put into an empty queue is got back in the same order.\<close>

lemma fifo:
  "invar q \<Longrightarrow> contents q = [] \<Longrightarrow> length ms \<le> capacity q \<Longrightarrow>
    get_all (length ms) (fold put ms q) = ms"
  using put_all [of q ms] get_all_contents [of "fold put ms q"] by simp

text \<open>A message put at the front is the next one got, and the queue is as before.\<close>

lemma front_then_get:
  "invar q \<Longrightarrow> length (contents q) < capacity q \<Longrightarrow>
    fst (get (put_front m q)) = m \<and> contents (snd (get (put_front m q))) = contents q"
  using put_front_ok [of q m] get_ok [of "put_front m q"] by simp

end

interpretation ring: message_queue ring_ok messages ring_cap q_insert q_insert_front q_extract
proof unfold_locales
  fix r m
  assume ok: "ring_ok r" and room: "length (messages r) < ring_cap r"
  obtain q M where r: "r = (q, M)" by (cases r)
  show "ring_ok (q_insert m r) \<and> messages (q_insert m r) = messages r @ [m] \<and> ring_cap (q_insert m r) = ring_cap r"
  proof -
    obtain q' M' where i: "q_insert m (q, M) = (q', M')" by fastforce
    show ?thesis using q_insert_ok [OF _ _ i] ok room r i by (simp del: messages.simps q_insert.simps add: length_messages)
  qed
  show "ring_ok (q_insert_front m r) \<and> messages (q_insert_front m r) = m # messages r
      \<and> ring_cap (q_insert_front m r) = ring_cap r"
  proof -
    obtain q' M' where i: "q_insert_front m (q, M) = (q', M')" by fastforce
    show ?thesis using q_insert_front_ok [OF _ _ i] ok room r i
      by (simp del: messages.simps q_insert_front.simps add: length_messages)
  qed
next
  fix r
  assume ok: "ring_ok r" and ne: "messages r \<noteq> []"
  obtain q M where r: "r = (q, M)" by (cases r)
  obtain m q' M' where i: "q_extract (q, M) = (m, q', M')" by (metis surj_pair)
  have "0 < unat (OSQEntries q)" using ne r length_messages [of q M] by (metis length_greater_0_conv)
  from q_extract_ok [OF _ this i]
  show "ring_ok (snd (q_extract r)) \<and> messages r = fst (q_extract r) # messages (snd (q_extract r))
      \<and> ring_cap (snd (q_extract r)) = ring_cap r"
    using ok r i by (simp del: messages.simps q_extract.simps)
qed

end
