(* ===== verification/Queues.thy ===== *)
theory Queues
  imports Mailboxes Ring_Buffer
begin

text \<open>
  OS\_Q.C: message queues. The event control block of a queue points to a queue control block,
  which manages a circular buffer in memory that the application supplies. As with mailboxes, a
  message posted while a task waits goes directly into the task's control block.
\<close>

section \<open>Operations\<close>

record OS_Q_DATA =
  QOSMsg :: ptr
  QOSNMsgs :: INT16U
  QOSQSize :: INT16U
  QOSEventTbl :: "nat \<Rightarrow> INT8U"
  QOSEventGrp :: INT8U

text \<open>The buffer of a queue and its replacement.\<close>

definition put_ring :: "ptr \<Rightarrow> ring \<Rightarrow> os \<Rightarrow> os" where
  "put_ring pq r s = put_queue pq (fst r) (s\<lparr>mem_ptr := snd r\<rparr>)"

definition OSQAccept :: "ptr \<Rightarrow> os \<Rightarrow> (ptr \<times> os) option" where
  "OSQAccept pevent s = do {
     e \<leftarrow> event_at s pevent;
     if OSEventType e \<noteq> OS_EVENT_TYPE_Q
     then Some (PNull, s)
     else do {
       let pq = OSEventPtr e;
       q \<leftarrow> queue_at s pq;
       if OSQEntries q \<noteq> 0
       then do {
         let (msg, r) = q_extract (q, mem_ptr s);
         Some (msg, put_ring pq r s)
       }
       else Some (PNull, s)
     }
   }"

definition OSQCreate :: "addr \<Rightarrow> INT16U \<Rightarrow> os \<Rightarrow> (ptr \<times> os) option" where
  "OSQCreate start sz s = do {
     (pevent, s1) \<leftarrow> event_alloc s;
     if pevent \<noteq> PNull
     then do {
       let pq = OSQFreeList s1;
       s2 \<leftarrow> (if OSQFreeList s1 \<noteq> PNull
             then do {
               f \<leftarrow> queue_at s1 (OSQFreeList s1);
               Some (s1\<lparr>OSQFreeList := OSQPtr f\<rparr>)
             }
             else Some s1);
       if pq \<noteq> PNull
       then do {
         q \<leftarrow> queue_at s2 pq;
         let s3 = put_queue pq
           (q\<lparr>OSQStart := start, OSQEnd := start + PTR_SIZE * uint sz, OSQIn := start,
              OSQOut := start, OSQSize := sz, OSQEntries := 0\<rparr>) s2;
         e \<leftarrow> event_at s3 pevent;
         s4 \<leftarrow> OSEventWaitListInit pevent
           (put_event pevent (e\<lparr>OSEventType := OS_EVENT_TYPE_Q, OSEventPtr := pq\<rparr>) s3);
         Some (pevent, s4)
       }
       else do {
         e \<leftarrow> event_at s2 pevent;
         let s3 = put_event pevent (e\<lparr>OSEventPtr := OSEventFreeList s2\<rparr>) s2;
         Some (PNull, s3\<lparr>OSEventFreeList := pevent\<rparr>)
       }
     }
     else Some (pevent, s1)
   }"

definition OSQFlush :: "ptr \<Rightarrow> os \<Rightarrow> (INT8U \<times> os) option" where
  "OSQFlush pevent s = do {
     e \<leftarrow> event_at s pevent;
     if OSEventType e \<noteq> OS_EVENT_TYPE_Q
     then Some (OS_ERR_EVENT_TYPE, s)
     else do {
       let pq = OSEventPtr e;
       q \<leftarrow> queue_at s pq;
       Some (OS_NO_ERR, put_ring pq (q_flush (q, mem_ptr s)) s)
     }
   }"

definition OSQInit :: "os \<Rightarrow> os" where
  "OSQInit s =
     s\<lparr>OSQTbl := (\<lambda>i. if i < OS_MAX_QS - 1 then (OSQTbl s i)\<lparr>OSQPtr := PQueue (i + 1)\<rparr>
                      else if i = OS_MAX_QS - 1 then (OSQTbl s i)\<lparr>OSQPtr := PNull\<rparr>
                      else OSQTbl s i),
       OSQFreeList := PQueue 0\<rparr>"

text \<open>The second half of a pend; the queue control block is a local variable of the first half.\<close>

definition OSQPend_resume :: "ptr \<Rightarrow> ptr \<Rightarrow> os \<Rightarrow> ((ptr \<times> INT8U) \<times> os) option" where
  "OSQPend_resume pevent pq s = do {
     t \<leftarrow> tcb_at s (OSTCBCur s);
     if OSTCBMsg t \<noteq> PNull
     then Some ((OSTCBMsg t, OS_NO_ERR),
       put_tcb (OSTCBCur s)
         (t\<lparr>OSTCBMsg := PNull, OSTCBStat := OS_STAT_RDY, OSTCBEventPtr := PNull\<rparr>) s)
     else if OSTCBStat t AND OS_STAT_Q \<noteq> 0
     then do {
       s1 \<leftarrow> OSEventTO pevent s;
       Some ((PNull, OS_TIMEOUT), s1)
     }
     else do {
       q \<leftarrow> queue_at s pq;
       let (msg, r) = q_extract (q, mem_ptr s);
       Some ((msg, OS_NO_ERR), put_tcb (OSTCBCur s) (t\<lparr>OSTCBEventPtr := PNull\<rparr>) (put_ring pq r s))
     }
   }"

text \<open>In the interrupt branch the code returns \<open>msg\<close> without having assigned it; the value returned
  is \<open>garbage\<close>, whatever the caller's stack holds.\<close>

definition OSQPend :: "ptr \<Rightarrow> ptr \<Rightarrow> INT16U \<Rightarrow> os \<Rightarrow> ((ptr \<times> INT8U) outcome \<times> os) option" where
  "OSQPend garbage pevent timeout s = do {
     e \<leftarrow> event_at s pevent;
     if OSEventType e \<noteq> OS_EVENT_TYPE_Q
     then Some (Returned (PNull, OS_ERR_EVENT_TYPE), s)
     else do {
       let pq = OSEventPtr e;
       q \<leftarrow> queue_at s pq;
       if OSQEntries q \<noteq> 0
       then do {
         let (msg, r) = q_extract (q, mem_ptr s);
         Some (Returned (msg, OS_NO_ERR), put_ring pq r s)
       }
       else if OSIntNesting s > 0
       then Some (Returned (garbage, OS_ERR_PEND_ISR), s)
       else do {
         s1 \<leftarrow> event_block OS_STAT_Q timeout pevent s;
         continue s s1 (OSQPend_resume pevent pq)
       }
     }
   }"

definition OSQPost :: "ptr \<Rightarrow> ptr \<Rightarrow> os \<Rightarrow> (INT8U \<times> os) option" where
  "OSQPost pevent msg s = do {
     e \<leftarrow> event_at s pevent;
     if OSEventType e \<noteq> OS_EVENT_TYPE_Q
     then Some (OS_ERR_EVENT_TYPE, s)
     else if OSEventGrp e \<noteq> 0
     then do {
       s1 \<leftarrow> OSEventTaskRdy pevent msg OS_STAT_Q s;
       s2 \<leftarrow> OSSched s1;
       Some (OS_NO_ERR, s2)
     }
     else do {
       let pq = OSEventPtr e;
       q \<leftarrow> queue_at s pq;
       if OSQEntries q \<ge> OSQSize q
       then Some (OS_Q_FULL, s)
       else Some (OS_NO_ERR, put_ring pq (q_insert msg (q, mem_ptr s)) s)
     }
   }"

definition OSQPostFront :: "ptr \<Rightarrow> ptr \<Rightarrow> os \<Rightarrow> (INT8U \<times> os) option" where
  "OSQPostFront pevent msg s = do {
     e \<leftarrow> event_at s pevent;
     if OSEventType e \<noteq> OS_EVENT_TYPE_Q
     then Some (OS_ERR_EVENT_TYPE, s)
     else if OSEventGrp e \<noteq> 0
     then do {
       s1 \<leftarrow> OSEventTaskRdy pevent msg OS_STAT_Q s;
       s2 \<leftarrow> OSSched s1;
       Some (OS_NO_ERR, s2)
     }
     else do {
       let pq = OSEventPtr e;
       q \<leftarrow> queue_at s pq;
       if OSQEntries q \<ge> OSQSize q
       then Some (OS_Q_FULL, s)
       else Some (OS_NO_ERR, put_ring pq (q_insert_front msg (q, mem_ptr s)) s)
     }
   }"

text \<open>\<open>pdata->OSMsg\<close> is assigned the OUT pointer itself, the address of the slot.\<close>

definition OSQQuery :: "ptr \<Rightarrow> OS_Q_DATA \<Rightarrow> os \<Rightarrow> (INT8U \<times> OS_Q_DATA) option" where
  "OSQQuery pevent pdata s = do {
     e \<leftarrow> event_at s pevent;
     if OSEventType e \<noteq> OS_EVENT_TYPE_Q
     then Some (OS_ERR_EVENT_TYPE, pdata)
     else do {
       q \<leftarrow> queue_at s (OSEventPtr e);
       Some (OS_NO_ERR,
         pdata\<lparr>QOSEventGrp := OSEventGrp e,
               QOSEventTbl := (\<lambda>i. if i < OS_EVENT_TBL_SIZE then OSEventTbl e i
                                    else QOSEventTbl pdata i),
               QOSMsg := (if OSQEntries q > 0 then PAddr (OSQOut q) else PNull),
               QOSNMsgs := OSQEntries q,
               QOSQSize := OSQSize q\<rparr>)
     }
   }"

section \<open>The contracts\<close>

lemma ev_bit_Q [simp]: "ev_bit OS_EVENT_TYPE_Q = OS_STAT_Q"
  by (simp add: ev_bit_def type_defs)

interpretation q_post: event_post "\<lambda>e. OSQPost (PEvent e)" OS_EVENT_TYPE_Q "\<lambda>msg. msg"
  by unfold_locales (simp_all add: OSQPost_def)

interpretation q_post_front: event_post "\<lambda>e. OSQPostFront (PEvent e)" OS_EVENT_TYPE_Q "\<lambda>msg. msg"
  by unfold_locales (simp_all add: OSQPostFront_def)

text \<open>The pend function refers to the queue control block, so its contract is about the events
  whose pointer leads to one.\<close>

definition queue_of :: "os \<Rightarrow> nat \<Rightarrow> OS_Q option" where
  "queue_of s e = queue_at s (OSEventPtr (OSEventTbl_g s e))"

interpretation q_pend: event_pend "\<lambda>e. OSQPend g (PEvent e)" OS_EVENT_TYPE_Q
  "\<lambda>s e. \<forall>q. queue_of s e = Some q \<longrightarrow> OSQEntries q \<noteq> 0"
  "\<lambda>s e. OSQPend_resume (PEvent e) (OSEventPtr (OSEventTbl_g s e))"
  for g
  by unfold_locales (auto simp: OSQPend_def queue_of_def stat_defs)

section \<open>The invariant of the queues\<close>

abbreviation is_q :: "os \<Rightarrow> nat \<Rightarrow> bool" where
  "is_q s e \<equiv> e < OS_MAX_EVENTS \<and> OSEventType (OSEventTbl_g s e) = OS_EVENT_TYPE_Q"

text \<open>Every queue event has a queue control block of its own with a well-formed buffer, and the
  buffers do not overlap.\<close>

definition qinv :: "os \<Rightarrow> bool" where
  "qinv s \<longleftrightarrow>
     (\<forall>e. is_q s e \<longrightarrow> (\<exists>k < OS_MAX_QS. OSEventPtr (OSEventTbl_g s e) = PQueue k \<and> q_ok (OSQTbl s k))) \<and>
     (\<forall>e d k l. is_q s e \<longrightarrow> is_q s d \<longrightarrow> e \<noteq> d \<longrightarrow>
        OSEventPtr (OSEventTbl_g s e) = PQueue k \<longrightarrow> OSEventPtr (OSEventTbl_g s d) = PQueue l \<longrightarrow>
        k \<noteq> l \<and> q_area (OSQTbl s k) \<inter> q_area (OSQTbl s l) = {})"

text \<open>The messages in a queue, oldest first, and its size.\<close>

definition q_msgs :: "os \<Rightarrow> nat \<Rightarrow> ptr list" where
  "q_msgs s e = (case queue_of s e of Some q \<Rightarrow> messages (q, mem_ptr s) | None \<Rightarrow> [])"

definition q_cap :: "os \<Rightarrow> nat \<Rightarrow> nat" where
  "q_cap s e = (case queue_of s e of Some q \<Rightarrow> unat (OSQSize q) | None \<Rightarrow> 0)"

lemma qinvE:
  assumes "qinv s" and "is_q s e"
  obtains k where "k < OS_MAX_QS" and "OSEventPtr (OSEventTbl_g s e) = PQueue k" and "q_ok (OSQTbl s k)"
    and "queue_of s e = Some (OSQTbl s k)" and "q_msgs s e = messages (OSQTbl s k, mem_ptr s)"
    and "q_cap s e = unat (OSQSize (OSQTbl s k))"
proof -
  obtain k where k: "k < OS_MAX_QS" "OSEventPtr (OSEventTbl_g s e) = PQueue k" "q_ok (OSQTbl s k)"
    using assms unfolding qinv_def by blast
  then have "queue_of s e = Some (OSQTbl s k)" by (simp add: queue_of_def)
  with k that show thesis by (simp add: q_msgs_def q_cap_def del: messages.simps)
qed

lemma qinv_disjoint:
  assumes "qinv s" and "is_q s e" and "is_q s d" and "e \<noteq> d"
    and "OSEventPtr (OSEventTbl_g s e) = PQueue k" and "OSEventPtr (OSEventTbl_g s d) = PQueue l"
  shows "k \<noteq> l \<and> q_area (OSQTbl s k) \<inter> q_area (OSQTbl s l) = {}"
  using assms unfolding qinv_def by blast

lemma messages_outside:
  assumes "q_ok q" and "\<And>a. a \<in> q_area q \<Longrightarrow> M' a = M a"
  shows "messages (q, M') = messages (q, M)"
proof (cases "unat (OSQSize q) = 0")
  case True
  then show ?thesis using assms(1) by (simp add: q_ok_def)
next
  case False
  then show ?thesis using assms slot_in_area [OF assms(1)] by simp
qed

text \<open>Replacing the buffer of one queue by a well-formed one over the same area keeps the invariant
  and the messages of the others.\<close>

lemma put_ring_ok:
  assumes I: "qinv s" and e: "is_q s e" and k: "OSEventPtr (OSEventTbl_g s e) = PQueue k"
    and q': "q_ok q'" "q_area q' = q_area (OSQTbl s k)" "\<forall>a. a \<notin> q_area (OSQTbl s k) \<longrightarrow> M' a = mem_ptr s a"
  defines "s' \<equiv> put_ring (PQueue k) (q', M') s"
  shows "qinv s'" "q_msgs s' e = messages (q', M')" "q_cap s' e = unat (OSQSize q')"
    "\<forall>d. is_q s d \<longrightarrow> d \<noteq> e \<longrightarrow> q_msgs s' d = q_msgs s d"
proof -
  have s': "s' = s\<lparr>mem_ptr := M', OSQTbl := (OSQTbl s)(k := q')\<rparr>"
    by (simp add: s'_def put_ring_def)
  have kN: "k < OS_MAX_QS" using qinvE [OF I e] k by fastforce
  have area: "q_area (((OSQTbl s)(k := q')) l) = q_area (OSQTbl s l)" for l
    using q'(2) by simp
  have ok1: "\<exists>l < OS_MAX_QS. OSEventPtr (OSEventTbl_g s d) = PQueue l \<and> q_ok (((OSQTbl s)(k := q')) l)"
    if "is_q s d" for d
    using qinvE [OF I that] q'(1) by (metis fun_upd_apply)
  have E: "OSEventTbl_g s' = OSEventTbl_g s" "OSQTbl s' = (OSQTbl s)(k := q')"
    by (simp_all add: s')
  show "qinv s'"
    unfolding qinv_def E area using ok1 qinv_disjoint [OF I] by blast
  have "queue_of s' e = Some q'" using k kN by (simp add: queue_of_def s')
  then show "q_msgs s' e = messages (q', M')" "q_cap s' e = unat (OSQSize q')"
    by (simp_all add: q_msgs_def q_cap_def s' del: messages.simps)
  show "\<forall>d. is_q s d \<longrightarrow> d \<noteq> e \<longrightarrow> q_msgs s' d = q_msgs s d"
  proof (intro allI impI)
    fix d
    assume d: "is_q s d" "d \<noteq> e"
    obtain l where l: "l < OS_MAX_QS" "OSEventPtr (OSEventTbl_g s d) = PQueue l" "q_ok (OSQTbl s l)"
      "q_msgs s d = messages (OSQTbl s l, mem_ptr s)"
      using qinvE [OF I d(1)] by metis
    have disj: "l \<noteq> k" "q_area (OSQTbl s l) \<inter> q_area (OSQTbl s k) = {}"
      using qinv_disjoint [OF I d(1) e d(2) l(2) k] by blast+
    then have "messages (OSQTbl s l, M') = messages (OSQTbl s l, mem_ptr s)"
      using q'(3) by (intro messages_outside [OF l(3)]) blast
    moreover have "queue_of s' d = Some (OSQTbl s l)"
      using l(1,2) disj(1) by (simp add: queue_of_def s')
    ultimately show "q_msgs s' d = q_msgs s d"
      using l(4) by (simp add: q_msgs_def s' del: messages.simps)
  qed
qed

section \<open>The operations on the list of messages\<close>

definition others_kept :: "os \<Rightarrow> nat \<Rightarrow> os \<Rightarrow> bool" where
  "others_kept s e s' \<longleftrightarrow> (\<forall>d. is_q s d \<longrightarrow> d \<noteq> e \<longrightarrow> q_msgs s' d = q_msgs s d)"

lemma put_ring_frame [simp]:
  "OSEventTbl_g (put_ring (PQueue k) r s) = OSEventTbl_g s" "rdy (put_ring (PQueue k) r s) = rdy s"
  "OSTCBTbl (put_ring (PQueue k) r s) = OSTCBTbl s" "OSTCBCur (put_ring (PQueue k) r s) = OSTCBCur s"
  "OSTCBPrioTbl (put_ring (PQueue k) r s) = OSTCBPrioTbl s"
  by (simp_all add: put_ring_def)

lemma full_iff: "(OSQEntries q \<ge> OSQSize q) = (unat (OSQSize q) \<le> unat (OSQEntries q))"
  by (simp add: word_le_nat_alt)

lemma OSQPost_empty_wait:
  assumes I: "qinv s" and e: "is_q s e" and g: "OSEventGrp (OSEventTbl_g s e) = 0"
  shows "if length (q_msgs s e) < q_cap s e
    then \<exists>s'. OSQPost (PEvent e) msg s = Some (OS_NO_ERR, s') \<and> qinv s' \<and> others_kept s e s'
      \<and> q_msgs s' e = q_msgs s e @ [msg] \<and> q_cap s' e = q_cap s e \<and> OSEventTbl_g s' = OSEventTbl_g s
    else OSQPost (PEvent e) msg s = Some (OS_Q_FULL, s)"
proof -
  obtain k where k: "k < OS_MAX_QS" "OSEventPtr (OSEventTbl_g s e) = PQueue k" "q_ok (OSQTbl s k)"
    "q_msgs s e = messages (OSQTbl s k, mem_ptr s)" "q_cap s e = unat (OSQSize (OSQTbl s k))"
    using qinvE [OF I e] .
  let ?q = "OSQTbl s k"
  obtain q' M' where i: "q_insert msg (?q, mem_ptr s) = (q', M')" by fastforce
  show ?thesis
  proof (cases "unat (OSQEntries ?q) < unat (OSQSize ?q)")
    case True
    note o = q_insert_ok [OF k(3) True i]
    note p = put_ring_ok [OF I e k(2) o(1,4,5)]
    have "OSQPost (PEvent e) msg s = Some (OS_NO_ERR, put_ring (PQueue k) (q', M') s)"
      using e g k(1,2) True i
      by (simp add: OSQPost_def Let_def full_iff del: q_insert.simps)
    then show ?thesis
      using True p o(2,3) k(4,5) by (simp add: others_kept_def length_messages del: messages.simps)
  next
    case False
    then show ?thesis
      using e g k by (simp add: OSQPost_def Let_def full_iff length_messages del: messages.simps)
  qed
qed

lemma OSQPostFront_empty_wait:
  assumes I: "qinv s" and e: "is_q s e" and g: "OSEventGrp (OSEventTbl_g s e) = 0"
  shows "if length (q_msgs s e) < q_cap s e
    then \<exists>s'. OSQPostFront (PEvent e) msg s = Some (OS_NO_ERR, s') \<and> qinv s' \<and> others_kept s e s'
      \<and> q_msgs s' e = msg # q_msgs s e \<and> q_cap s' e = q_cap s e \<and> OSEventTbl_g s' = OSEventTbl_g s
    else OSQPostFront (PEvent e) msg s = Some (OS_Q_FULL, s)"
proof -
  obtain k where k: "k < OS_MAX_QS" "OSEventPtr (OSEventTbl_g s e) = PQueue k" "q_ok (OSQTbl s k)"
    "q_msgs s e = messages (OSQTbl s k, mem_ptr s)" "q_cap s e = unat (OSQSize (OSQTbl s k))"
    using qinvE [OF I e] .
  let ?q = "OSQTbl s k"
  obtain q' M' where i: "q_insert_front msg (?q, mem_ptr s) = (q', M')" by fastforce
  show ?thesis
  proof (cases "unat (OSQEntries ?q) < unat (OSQSize ?q)")
    case True
    note o = q_insert_front_ok [OF k(3) True i]
    note p = put_ring_ok [OF I e k(2) o(1,4,5)]
    have "OSQPostFront (PEvent e) msg s = Some (OS_NO_ERR, put_ring (PQueue k) (q', M') s)"
      using e g k(1,2) True i
      by (simp add: OSQPostFront_def Let_def full_iff del: q_insert_front.simps)
    then show ?thesis
      using True p o(2,3) k(4,5) by (simp add: others_kept_def length_messages del: messages.simps)
  next
    case False
    then show ?thesis
      using e g k by (simp add: OSQPostFront_def Let_def full_iff length_messages del: messages.simps)
  qed
qed

lemma entries_zero_iff: "q_msgs s e = messages (q, M) \<Longrightarrow> (OSQEntries q = 0) = (q_msgs s e = [])"
  by (simp add: unat_eq_zero)

lemma OSQAccept_takes:
  assumes I: "qinv s" and e: "is_q s e"
  shows "case q_msgs s e of [] \<Rightarrow> OSQAccept (PEvent e) s = Some (PNull, s)
    | m # ms \<Rightarrow> \<exists>s'. OSQAccept (PEvent e) s = Some (m, s') \<and> qinv s' \<and> others_kept s e s'
        \<and> q_msgs s' e = ms \<and> q_cap s' e = q_cap s e \<and> OSEventTbl_g s' = OSEventTbl_g s"
proof -
  obtain k where k: "k < OS_MAX_QS" "OSEventPtr (OSEventTbl_g s e) = PQueue k" "q_ok (OSQTbl s k)"
    "q_msgs s e = messages (OSQTbl s k, mem_ptr s)" "q_cap s e = unat (OSQSize (OSQTbl s k))"
    using qinvE [OF I e] .
  let ?q = "OSQTbl s k"
  obtain m q' M' where i: "q_extract (?q, mem_ptr s) = (m, q', M')" by (metis surj_pair)
  show ?thesis
  proof (cases "OSQEntries ?q = 0")
    case True
    then have "q_msgs s e = []" using entries_zero_iff [OF k(4)] by simp
    with True show ?thesis using e k(1,2) by (simp add: OSQAccept_def Let_def)
  next
    case False
    then have "0 < unat (OSQEntries ?q)" by (simp add: unat_gt_0)
    note o = q_extract_ok [OF k(3) this i]
    have "\<forall>a. a \<notin> q_area ?q \<longrightarrow> M' a = mem_ptr s a" using o(5) by simp
    note p = put_ring_ok [OF I e k(2) o(1,4) this]
    have "OSQAccept (PEvent e) s = Some (m, put_ring (PQueue k) (q', M') s)"
      using e k(1,2) False i
      by (simp add: OSQAccept_def Let_def del: q_extract.simps)
    moreover have "q_msgs s e = m # messages (q', M')" using o(2,5) k(4) by metis
    ultimately show ?thesis
      using p o(3) k(5) by (simp add: others_kept_def del: messages.simps)
  qed
qed

section \<open>The queues of the sample state\<close>

lemma sample_is_q: "is_q sample e \<Longrightarrow> e = 4 \<or> e = 5"
proof -
  have "list_all (\<lambda>e. OSEventType (OSEventTbl_g sample e) = OS_EVENT_TYPE_Q \<longrightarrow> e = 4 \<or> e = 5) [0 ..< OS_MAX_EVENTS]"
    by code_simp
  then show "is_q sample e \<Longrightarrow> e = 4 \<or> e = 5" by (simp add: list_all_iff)
qed

lemma sample_queues:
  "is_q sample 4" "is_q sample 5" "OSEventPtr (OSEventTbl_g sample 4) = PQueue 0"
  "OSEventPtr (OSEventTbl_g sample 5) = PQueue 1" "q_ok (OSQTbl sample 0)" "q_ok (OSQTbl sample 1)"
  by code_simp+

lemma sample_qinv: "qinv sample"
proof -
  have a: "q_area (OSQTbl sample 0) = {a. 1000 \<le> a \<and> a < 1016}"
    "q_area (OSQTbl sample 1) = {a. 2000 \<le> a \<and> a < 2016}"
    by (simp_all add: q_area_def sample_def sample_queue_def)
  have "\<exists>k < OS_MAX_QS. OSEventPtr (OSEventTbl_g sample e) = PQueue k \<and> q_ok (OSQTbl sample k)"
    if "is_q sample e" for e
    using sample_is_q [OF that] sample_queues by (auto simp: config_defs)
  moreover have "k \<noteq> l \<and> q_area (OSQTbl sample k) \<inter> q_area (OSQTbl sample l) = {}"
    if "is_q sample e" "is_q sample d" "e \<noteq> d"
      "OSEventPtr (OSEventTbl_g sample e) = PQueue k" "OSEventPtr (OSEventTbl_g sample d) = PQueue l" for e d k l
    using sample_is_q [OF that(1)] sample_is_q [OF that(2)] that(3-5) sample_queues(3,4) a by auto
  ultimately show ?thesis unfolding qinv_def by blast
qed

lemma sample_q_msgs: "q_msgs sample 4 = [PAddr 501, PAddr 502]" "q_msgs sample 5 = []"
  "q_cap sample 4 = 4" "q_cap sample 5 = 4" "OSEventGrp (OSEventTbl_g sample 4) = 0"
  by code_simp+

section \<open>Properties\<close>

text \<open>C7: With no task waiting, the queue functions act on the list of messages as on an abstract
  bounded queue: a post appends at the end, a post to the front puts the message first, both are
  refused exactly when the queue is full, an accept takes the oldest message, a flush empties the
  queue, and the messages of every other queue are untouched.\<close>
theorem queue_refines_list:
  assumes "qinv s" and "is_q s e" and "OSEventGrp (OSEventTbl_g s e) = 0"
  shows "(if length (q_msgs s e) = q_cap s e
      then OSQPost (PEvent e) msg s = Some (OS_Q_FULL, s) \<and> OSQPostFront (PEvent e) msg s = Some (OS_Q_FULL, s)
      else (\<exists>s'. OSQPost (PEvent e) msg s = Some (OS_NO_ERR, s') \<and> qinv s' \<and> others_kept s e s'
              \<and> q_msgs s' e = q_msgs s e @ [msg] \<and> q_cap s' e = q_cap s e)
         \<and> (\<exists>s'. OSQPostFront (PEvent e) msg s = Some (OS_NO_ERR, s') \<and> qinv s' \<and> others_kept s e s'
              \<and> q_msgs s' e = msg # q_msgs s e \<and> q_cap s' e = q_cap s e))
    \<and> (case q_msgs s e of [] \<Rightarrow> OSQAccept (PEvent e) s = Some (PNull, s)
       | m # ms \<Rightarrow> \<exists>s'. OSQAccept (PEvent e) s = Some (m, s') \<and> qinv s' \<and> others_kept s e s'
            \<and> q_msgs s' e = ms \<and> q_cap s' e = q_cap s e)
    \<and> (\<exists>s'. OSQFlush (PEvent e) s = Some (OS_NO_ERR, s') \<and> qinv s' \<and> others_kept s e s'
         \<and> q_msgs s' e = [] \<and> q_cap s' e = q_cap s e)"
proof -
  obtain k where k: "k < OS_MAX_QS" "OSEventPtr (OSEventTbl_g s e) = PQueue k" "q_ok (OSQTbl s k)"
    "q_msgs s e = messages (OSQTbl s k, mem_ptr s)" "q_cap s e = unat (OSQSize (OSQTbl s k))"
    using qinvE [OF assms(1,2)] .
  have le: "length (q_msgs s e) \<le> q_cap s e"
    using k(3-5) by (simp add: q_ok_def)
  obtain q' M' where f: "q_flush (OSQTbl s k, mem_ptr s) = (q', M')" by fastforce
  note o = q_flush_ok [OF k(3) f]
  have "\<forall>a. a \<notin> q_area (OSQTbl s k) \<longrightarrow> M' a = mem_ptr s a" using o(5) by simp
  note p = put_ring_ok [OF assms(1,2) k(2) o(1,4) this]
  have fl: "OSQFlush (PEvent e) s = Some (OS_NO_ERR, put_ring (PQueue k) (q', M') s)"
    using assms(2) k(1,2) f by (simp add: OSQFlush_def Let_def del: q_flush.simps)
  have "\<exists>s'. OSQFlush (PEvent e) s = Some (OS_NO_ERR, s') \<and> qinv s' \<and> others_kept s e s'
         \<and> q_msgs s' e = [] \<and> q_cap s' e = q_cap s e"
    using fl p o(2,3) k(5) by (simp add: others_kept_def del: messages.simps)
  moreover have "if length (q_msgs s e) = q_cap s e
      then OSQPost (PEvent e) msg s = Some (OS_Q_FULL, s) \<and> OSQPostFront (PEvent e) msg s = Some (OS_Q_FULL, s)
      else (\<exists>s'. OSQPost (PEvent e) msg s = Some (OS_NO_ERR, s') \<and> qinv s' \<and> others_kept s e s'
              \<and> q_msgs s' e = q_msgs s e @ [msg] \<and> q_cap s' e = q_cap s e)
         \<and> (\<exists>s'. OSQPostFront (PEvent e) msg s = Some (OS_NO_ERR, s') \<and> qinv s' \<and> others_kept s e s'
              \<and> q_msgs s' e = msg # q_msgs s e \<and> q_cap s' e = q_cap s e)"
  proof (cases "length (q_msgs s e) = q_cap s e")
    case True
    then show ?thesis
      using OSQPost_empty_wait [OF assms, of msg] OSQPostFront_empty_wait [OF assms, of msg] by simp
  next
    case False
    with le have "length (q_msgs s e) < q_cap s e" by simp
    then show ?thesis
      using False OSQPost_empty_wait [OF assms, of msg] OSQPostFront_empty_wait [OF assms, of msg]
      unfolding if_P [OF \<open>length (q_msgs s e) < q_cap s e\<close>] if_not_P [OF False] by blast
  qed
  moreover have "case q_msgs s e of [] \<Rightarrow> OSQAccept (PEvent e) s = Some (PNull, s)
       | m # ms \<Rightarrow> \<exists>s'. OSQAccept (PEvent e) s = Some (m, s') \<and> qinv s' \<and> others_kept s e s'
            \<and> q_msgs s' e = ms \<and> q_cap s' e = q_cap s e"
    using OSQAccept_takes [OF assms(1,2)] by (auto split: list.splits)
  ultimately show ?thesis by blast
qed

theorem queue_refines_list_witness:
  "\<exists>s'. OSQPost (PEvent 4) (PAddr 503) sample = Some (OS_NO_ERR, s')
     \<and> q_msgs s' 4 = [PAddr 501, PAddr 502, PAddr 503] \<and> qinv s'"
  using queue_refines_list [OF sample_qinv sample_queues(1) sample_q_msgs(5), of "PAddr 503"] sample_q_msgs
  by auto

text \<open>A run of posts and a run of accepts.\<close>

fun post_all :: "nat \<Rightarrow> ptr list \<Rightarrow> os \<Rightarrow> os option" where
  "post_all e [] s = Some s"
| "post_all e (m # ms) s = do {
     (err, s1) \<leftarrow> OSQPost (PEvent e) m s;
     if err = OS_NO_ERR then post_all e ms s1 else None
   }"

fun accept_all :: "nat \<Rightarrow> nat \<Rightarrow> os \<Rightarrow> (ptr list \<times> os) option" where
  "accept_all e 0 s = Some ([], s)"
| "accept_all e (Suc n) s = do {
     (m, s1) \<leftarrow> OSQAccept (PEvent e) s;
     (ms, s2) \<leftarrow> accept_all e n s1;
     Some (m # ms, s2)
   }"

lemma post_all_ok:
  "qinv s \<Longrightarrow> is_q s e \<Longrightarrow> OSEventGrp (OSEventTbl_g s e) = 0 \<Longrightarrow>
   length (q_msgs s e) + length ms \<le> q_cap s e \<Longrightarrow>
   \<exists>s'. post_all e ms s = Some s' \<and> qinv s' \<and> q_msgs s' e = q_msgs s e @ ms \<and> OSEventTbl_g s' = OSEventTbl_g s"
proof (induction ms arbitrary: s)
  case (Cons m ms)
  have "length (q_msgs s e) < q_cap s e" using Cons.prems(4) by simp
  with OSQPost_empty_wait [OF Cons.prems(1-3), of m] obtain s1
    where s1: "OSQPost (PEvent e) m s = Some (OS_NO_ERR, s1)" "qinv s1" "q_msgs s1 e = q_msgs s e @ [m]"
      "q_cap s1 e = q_cap s e" "OSEventTbl_g s1 = OSEventTbl_g s" by auto
  have "\<exists>s'. post_all e ms s1 = Some s' \<and> qinv s' \<and> q_msgs s' e = q_msgs s1 e @ ms \<and> OSEventTbl_g s' = OSEventTbl_g s1"
    using Cons.prems s1 by (intro Cons.IH) auto
  then show ?case using s1 by auto
qed simp

lemma accept_all_ok:
  "qinv s \<Longrightarrow> is_q s e \<Longrightarrow> q_msgs s e = ms \<Longrightarrow>
   \<exists>s'. accept_all e (length ms) s = Some (ms, s') \<and> qinv s' \<and> q_msgs s' e = [] \<and> OSEventTbl_g s' = OSEventTbl_g s"
proof (induction ms arbitrary: s)
  case (Cons m ms)
  from OSQAccept_takes [OF Cons.prems(1,2)] Cons.prems(3) obtain s1
    where s1: "OSQAccept (PEvent e) s = Some (m, s1)" "qinv s1" "q_msgs s1 e = ms"
      "OSEventTbl_g s1 = OSEventTbl_g s" by auto
  have "\<exists>s'. accept_all e (length ms) s1 = Some (ms, s') \<and> qinv s' \<and> q_msgs s' e = [] \<and> OSEventTbl_g s' = OSEventTbl_g s1"
    using Cons.prems s1 by (intro Cons.IH) auto
  then show ?case using s1 by auto
qed simp

text \<open>First in, first out: messages posted one after the other to an empty queue that is large
  enough are all accepted, and as many accepts give them back in the order of the posts and leave
  the queue empty.\<close>
theorem queue_fifo:
  assumes "qinv s" and "is_q s e" and "OSEventGrp (OSEventTbl_g s e) = 0"
    and "q_msgs s e = []" and "length ms \<le> q_cap s e"
  shows "\<exists>s1 s2. post_all e ms s = Some s1 \<and> accept_all e (length ms) s1 = Some (ms, s2)
    \<and> q_msgs s2 e = [] \<and> qinv s2"
proof -
  obtain s1 where s1: "post_all e ms s = Some s1" "qinv s1" "q_msgs s1 e = ms" "OSEventTbl_g s1 = OSEventTbl_g s"
    using post_all_ok [OF assms(1-3), of ms] assms(4,5) by auto
  then have "is_q s1 e" using assms(2) by simp
  with accept_all_ok [OF s1(2) this s1(3)] s1(1) show ?thesis by blast
qed

theorem queue_fifo_witness:
  "\<exists>s0 s1 s2. OSQFlush (PEvent 4) sample = Some (OS_NO_ERR, s0)
     \<and> post_all 4 [PAddr 1, PAddr 2, PAddr 3, PAddr 4] s0 = Some s1
     \<and> accept_all 4 4 s1 = Some ([PAddr 1, PAddr 2, PAddr 3, PAddr 4], s2)"
proof -
  obtain s0 where s0: "OSQFlush (PEvent 4) sample = Some (OS_NO_ERR, s0)" "s0 = put_ring (PQueue 0)
      (q_flush (OSQTbl sample 0, mem_ptr sample)) sample"
    using sample_queues by (simp add: OSQFlush_def config_defs Let_def)
  obtain q' M' where f: "q_flush (OSQTbl sample 0, mem_ptr sample) = (q', M')" by fastforce
  note o = q_flush_ok [OF sample_queues(5) f]
  have "\<forall>a. a \<notin> q_area (OSQTbl sample 0) \<longrightarrow> M' a = mem_ptr sample a" using o(5) by simp
  note p = put_ring_ok [OF sample_qinv sample_queues(1,3) o(1,4) this]
  have c: "q_cap s0 4 = 4" "q_msgs s0 4 = []" "qinv s0"
    using p o(2,3) f s0(2) sample_q_msgs(3) sample_queues(3)
    by (simp_all add: q_cap_def queue_of_def config_defs del: messages.simps)
  have e: "is_q s0 4" "OSEventGrp (OSEventTbl_g s0 4) = 0"
    using sample_queues(1) sample_q_msgs(5) s0(2) by simp_all
  show ?thesis
    using queue_fifo [OF c(3) e c(2), of "[PAddr 1, PAddr 2, PAddr 3, PAddr 4]"] c(1) s0(1)
    by (simp add: eval_nat_numeral del: post_all.simps accept_all.simps) blast
qed

text \<open>A message posted to a queue on which tasks wait, at the end or to the front, goes straight
  to the waiting task of highest priority: it leaves the wait list and becomes ready unless it is
  suspended, no other task changes, and the stored messages stay as they are.\<close>
theorem queue_post_hands_over:
  assumes "stable s" and "is_q s e" and "waiters s e \<noteq> {}"
    and "post = OSQPost \<or> post = OSQPostFront"
  shows "\<exists>s' i. post (PEvent e) msg s = Some (OS_NO_ERR, s') \<and> stable s'
    \<and> live s (Min (waiters s e)) i
    \<and> waiters s' = (waiters s)(e := waiters s e - {Min (waiters s e)})
    \<and> ready s' = (if suspended (OSTCBTbl s i) then ready s else insert (Min (waiters s e)) (ready s))
    \<and> OSTCBTbl s' = (OSTCBTbl s)(i := readied msg OS_STAT_Q (OSTCBTbl s i))
    \<and> OSQTbl s' = OSQTbl s \<and> mem_ptr s' = mem_ptr s"
proof -
  have e: "e < OS_MAX_EVENTS" and ty: "OSEventType (OSEventTbl_g s e) = OS_EVENT_TYPE_Q"
    using assms(2) by auto
  have fr: "OSQTbl s2 = OSQTbl s \<and> mem_ptr s2 = mem_ptr s"
    if "\<exists>s1. same_but_task s s1 \<and> same_but_sched s1 s2" for s2
    using that same_but_task_frame same_but_sched_frame by metis
  from assms(4) show ?thesis
  proof
    assume p: "post = OSQPost"
    show ?thesis
    proof (rule q_post.post_wakes_highest [OF assms(1) e assms(3) ty, where msg = msg])
      fix s2 p i
      assume "OSQPost (PEvent e) msg s = Some (OS_NO_ERR, s2)" "p = Min (waiters s e)" "live s p i"
        "stable s2" "OSTCBTbl s2 = (OSTCBTbl s)(i := readied msg (ev_bit OS_EVENT_TYPE_Q) (OSTCBTbl s i))"
        "ready s2 = (if suspended (OSTCBTbl s i) then ready s else insert p (ready s))"
        "waiters s2 = (waiters s)(e := waiters s e - {p})"
        "\<exists>s1. same_but_task s s1 \<and> same_but_sched s1 s2"
      with fr p show ?thesis by (intro exI [of _ s2] exI [of _ i]) (simp del: fun_upd_apply)
    qed
  next
    assume p: "post = OSQPostFront"
    show ?thesis
    proof (rule q_post_front.post_wakes_highest [OF assms(1) e assms(3) ty, where msg = msg])
      fix s2 p i
      assume "OSQPostFront (PEvent e) msg s = Some (OS_NO_ERR, s2)" "p = Min (waiters s e)" "live s p i"
        "stable s2" "OSTCBTbl s2 = (OSTCBTbl s)(i := readied msg (ev_bit OS_EVENT_TYPE_Q) (OSTCBTbl s i))"
        "ready s2 = (if suspended (OSTCBTbl s i) then ready s else insert p (ready s))"
        "waiters s2 = (waiters s)(e := waiters s e - {p})"
        "\<exists>s1. same_but_task s s1 \<and> same_but_sched s1 s2"
      with fr p show ?thesis by (intro exI [of _ s2] exI [of _ i]) (simp del: fun_upd_apply)
    qed
  qed
qed

theorem queue_post_hands_over_witness:
  "\<exists>s' i. OSQPostFront (PEvent 5) (PAddr 7) sample = Some (OS_NO_ERR, s') \<and> live sample 10 i
     \<and> OSTCBMsg (OSTCBTbl s' i) = PAddr 7 \<and> stable s'"
proof -
  have w: "waiters sample 5 \<noteq> {}" using sample_waiters by simp
  obtain s' i where "OSQPostFront (PEvent 5) (PAddr 7) sample = Some (OS_NO_ERR, s')" "stable s'"
    "live sample (Min (waiters sample 5)) i"
    "OSTCBTbl s' = (OSTCBTbl sample)(i := readied (PAddr 7) OS_STAT_Q (OSTCBTbl sample i))"
    using queue_post_hands_over [OF sample_stable sample_queues(2) w, of OSQPostFront "PAddr 7"] by blast
  then show ?thesis by (auto simp: sample_waiters readied_def)
qed

text \<open>A pend on a queue returns the oldest message at once when there is one; on an empty queue,
  outside interrupts, the calling task always blocks, joins the wait list of this queue only, and
  another task runs.\<close>
theorem queue_pend_takes_or_blocks:
  assumes "task_level s" and "qinv s" and "is_q s e" and "OSTCBEventPtr (cur_task s) = PNull"
    and "unat (OSPrioCur s) \<noteq> OS_IDLE_PRIO"
  shows "case q_msgs s e of
      [] \<Rightarrow> \<exists>s'. OSQPend g (PEvent e) timeout s = Some (Blocked, s') \<and> task_level s'
         \<and> OSTCBCur s' \<noteq> OSTCBCur s \<and> ready s' = ready s - {unat (OSPrioCur s)}
         \<and> waiters s' = (waiters s)(e := insert (unat (OSPrioCur s)) (waiters s e))
    | m # ms \<Rightarrow> \<exists>s'. OSQPend g (PEvent e) timeout s = Some (Returned (m, OS_NO_ERR), s')
         \<and> OSQAccept (PEvent e) s = Some (m, s') \<and> q_msgs s' e = ms \<and> qinv s'"
proof -
  have e: "e < OS_MAX_EVENTS" and ty: "OSEventType (OSEventTbl_g s e) = OS_EVENT_TYPE_Q"
    using assms(3) by auto
  obtain k where k: "k < OS_MAX_QS" "OSEventPtr (OSEventTbl_g s e) = PQueue k"
    "queue_of s e = Some (OSQTbl s k)" "q_msgs s e = messages (OSQTbl s k, mem_ptr s)"
    using qinvE [OF assms(2,3)] by metis
  show ?thesis
  proof (cases "q_msgs s e")
    case Nil
    then have "OSQEntries (OSQTbl s k) = 0" using entries_zero_iff [OF k(4)] by simp
    then have na: "\<not> (\<forall>q. queue_of s e = Some q \<longrightarrow> OSQEntries q \<noteq> 0)" using k(3) by simp
    show ?thesis unfolding Nil list.case
      by (rule q_pend.pend_blocks [OF assms(1) e assms(4,5) ty na, where timeout = timeout]) blast
  next
    case (Cons m ms)
    then have ne: "OSQEntries (OSQTbl s k) \<noteq> 0" using entries_zero_iff [OF k(4)] by simp
    from OSQAccept_takes [OF assms(2,3)] Cons obtain s'
      where s': "OSQAccept (PEvent e) s = Some (m, s')" "qinv s'" "q_msgs s' e = ms" by auto
    have "OSQPend g (PEvent e) timeout s
        = map_option (\<lambda>(m, s'). (Returned (m, OS_NO_ERR), s')) (OSQAccept (PEvent e) s)"
      using e ty k(1,2) ne
      by (simp add: OSQPend_def OSQAccept_def Let_def split: prod.splits del: q_extract.simps)
    with s' Cons show ?thesis by simp
  qed
qed

theorem queue_pend_takes_or_blocks_witness:
  "(\<exists>s'. OSQPend PNull (PEvent 4) 10 sample = Some (Returned (PAddr 501, OS_NO_ERR), s')) \<and>
   (\<exists>s'. OSQPend PNull (PEvent 5) 10 sample = Some (Blocked, s') \<and> ready s' = {19, 20})"
proof -
  have "ready sample - {5} = {19, 20}" by (simp add: sample_ready)
  then show ?thesis
    using queue_pend_takes_or_blocks [OF sample_task_level sample_qinv sample_queues(1) sample_cur(1,2), of PNull 10]
      queue_pend_takes_or_blocks [OF sample_task_level sample_qinv sample_queues(2) sample_cur(1,2), of PNull 10]
    unfolding sample_q_msgs sample_cur(3) by auto
qed

end
