(* ===== verification/Memory_Partitions.thy ===== *)
theory Memory_Partitions
  imports Sample_State
begin

text \<open>
  OS\_MEM.C: partitions of fixed-size memory blocks. The free blocks of a partition are linked
  through their first bytes; the memory control block has the head of the list and the counts.
  The locale \<open>block_pool\<close> states what a user of a partition relies on: a block is never handed
  out twice, and a block given back can be had again.
\<close>

section \<open>Operations\<close>

record OS_MEM_DATA =
  OSAddr :: ptr
  OSFreeList :: ptr
  OSBlkSize :: INT32U
  OSNBlks :: INT32U
  OSNFree :: INT32U
  OSNUsed :: INT32U

definition SIZEOF_PTR :: INT32U where "SIZEOF_PTR = 4"

text \<open>Reading and writing the pointer at an address, \<open>*(void **)p\<close>.\<close>

definition load_ptr :: "ptr \<Rightarrow> os \<Rightarrow> ptr option" where
  "load_ptr p s = (case p of PAddr a \<Rightarrow> Some (mem_ptr s a) | _ \<Rightarrow> None)"

definition store_ptr :: "ptr \<Rightarrow> ptr \<Rightarrow> os \<Rightarrow> os option" where
  "store_ptr p v s = (case p of PAddr a \<Rightarrow> Some (s\<lparr>mem_ptr := (mem_ptr s)(a := v)\<rparr>) | _ \<Rightarrow> None)"

text \<open>The loop that links \<open>n + 1\<close> blocks, started with \<open>plink\<close> at the first and \<open>pblk\<close> at the second;
  the last statement of the loop's code writes the null pointer into the last block.\<close>

fun mem_link :: "nat \<Rightarrow> INT32U \<Rightarrow> addr \<Rightarrow> addr \<Rightarrow> (addr \<Rightarrow> ptr) \<Rightarrow> (addr \<Rightarrow> ptr)" where
  "mem_link 0 blksize plink pblk M = M(plink := PNull)"
| "mem_link (Suc n) blksize plink pblk M =
     mem_link n blksize pblk (pblk + uint blksize) (M(plink := PAddr pblk))"

definition OSMemCreate ::
    "ptr \<Rightarrow> INT32U \<Rightarrow> INT32U \<Rightarrow> os \<Rightarrow> ((ptr \<times> INT8U) \<times> os) option" where
  "OSMemCreate addr nblks blksize s =
     (if nblks < 2 then Some ((PNull, OS_MEM_INVALID_BLKS), s)
      else if blksize < SIZEOF_PTR then Some ((PNull, OS_MEM_INVALID_SIZE), s)
      else do {
        let pmem = OSMemFreeList_g s;
        s1 \<leftarrow> (if OSMemFreeList_g s \<noteq> PNull
              then do {
                m \<leftarrow> mcb_at s (OSMemFreeList_g s);
                Some (s\<lparr>OSMemFreeList_g := OSMemFreeList m\<rparr>)
              }
              else Some s);
        if pmem = PNull then Some ((PNull, OS_MEM_INVALID_PART), s1)
        else do {
          base \<leftarrow> (case addr of PAddr a \<Rightarrow> Some a | _ \<Rightarrow> None);
          let s2 = s1\<lparr>mem_ptr := mem_link (unat (nblks - 1)) blksize base (base + uint blksize) (mem_ptr s1)\<rparr>;
          m \<leftarrow> mcb_at s2 pmem;
          let s3 = put_mcb pmem
            (m\<lparr>OSMemAddr := addr, OSMemFreeList := addr, OSMemNFree := nblks, OSMemNBlks := nblks,
               OSMemBlkSize := blksize\<rparr>) s2;
          Some ((pmem, OS_NO_ERR), s3)
        }
      })"

definition OSMemGet :: "ptr \<Rightarrow> os \<Rightarrow> ((ptr \<times> INT8U) \<times> os) option" where
  "OSMemGet pmem s = do {
     m \<leftarrow> mcb_at s pmem;
     if OSMemNFree m > 0
     then do {
       let pblk = OSMemFreeList m;
       nxt \<leftarrow> load_ptr pblk s;
       Some ((pblk, OS_NO_ERR),
         put_mcb pmem (m\<lparr>OSMemFreeList := nxt, OSMemNFree := OSMemNFree m - 1\<rparr>) s)
     }
     else Some ((PNull, OS_MEM_NO_FREE_BLKS), s)
   }"

definition OSMemInit :: "os \<Rightarrow> os" where
  "OSMemInit s =
     s\<lparr>OSMemTbl := (\<lambda>i. if i < OS_MAX_MEM_PART - 1
          then (OSMemTbl s i)\<lparr>OSMemFreeList := PMem (i + 1), OSMemAddr := PNull, OSMemNFree := 0,
                              OSMemNBlks := 0, OSMemBlkSize := 0\<rparr>
          else if i = OS_MAX_MEM_PART - 1 then (OSMemTbl s i)\<lparr>OSMemFreeList := PNull\<rparr>
          else OSMemTbl s i),
       OSMemFreeList_g := PMem 0\<rparr>"

definition OSMemPut :: "ptr \<Rightarrow> ptr \<Rightarrow> os \<Rightarrow> (INT8U \<times> os) option" where
  "OSMemPut pmem pblk s = do {
     m \<leftarrow> mcb_at s pmem;
     if OSMemNFree m \<ge> OSMemNBlks m
     then Some (OS_MEM_FULL, s)
     else do {
       s1 \<leftarrow> store_ptr pblk (OSMemFreeList m) s;
       Some (OS_NO_ERR,
         put_mcb pmem (m\<lparr>OSMemFreeList := pblk, OSMemNFree := OSMemNFree m + 1\<rparr>) s1)
     }
   }"

definition OSMemQuery :: "ptr \<Rightarrow> os \<Rightarrow> (INT8U \<times> OS_MEM_DATA) option" where
  "OSMemQuery pmem s = do {
     m \<leftarrow> mcb_at s pmem;
     Some (OS_NO_ERR,
       \<lparr>OSAddr = OSMemAddr m, OSFreeList = OSMemFreeList m, OSBlkSize = OSMemBlkSize m,
        OSNBlks = OSMemNBlks m, OSNFree = OSMemNFree m, OSNUsed = OSMemNBlks m - OSMemNFree m\<rparr>)
   }"

section \<open>The invariant of a partition\<close>

text \<open>The block addresses of a partition, and the first \<open>n\<close> nodes of a list of blocks.\<close>

definition blocks :: "OS_MEM \<Rightarrow> addr set" where
  "blocks m = (case OSMemAddr m of
     PAddr base \<Rightarrow> (\<lambda>i. base + int i * uint (OSMemBlkSize m)) ` {..< unat (OSMemNBlks m)}
   | _ \<Rightarrow> {})"

fun walk :: "nat \<Rightarrow> (addr \<Rightarrow> ptr) \<Rightarrow> ptr \<Rightarrow> addr list" where
  "walk 0 M p = []"
| "walk (Suc n) M p = (case p of PAddr a \<Rightarrow> a # walk n M (M a) | _ \<Rightarrow> [])"

definition free_list :: "nat \<Rightarrow> os \<Rightarrow> addr list" where
  "free_list k s = walk (unat (OSMemNFree (OSMemTbl s k))) (mem_ptr s) (OSMemFreeList (OSMemTbl s k))"

definition part_ok :: "nat \<Rightarrow> os \<Rightarrow> bool" where
  "part_ok k s \<longleftrightarrow> k < OS_MAX_MEM_PART \<and>
     chain PAddr (mem_ptr s) (OSMemFreeList (OSMemTbl s k)) (free_list k s) \<and>
     distinct (free_list k s) \<and> length (free_list k s) = unat (OSMemNFree (OSMemTbl s k)) \<and>
     set (free_list k s) \<subseteq> blocks (OSMemTbl s k)"

abbreviation part_blocks :: "nat \<Rightarrow> os \<Rightarrow> addr set" where
  "part_blocks k s \<equiv> blocks (OSMemTbl s k)"

lemma walk_chain: "chain PAddr M p as \<Longrightarrow> walk (length as) M p = as"
  by (induction as arbitrary: p) auto

lemma finite_blocks [simp]: "finite (blocks m)"
  by (auto simp: blocks_def split: ptr.splits)

lemma blocks_upd [simp]:
  "blocks (m\<lparr>OSMemFreeList := a\<rparr>) = blocks m" "blocks (m\<lparr>OSMemNFree := b\<rparr>) = blocks m"
  by (cases "OSMemAddr m"; simp add: blocks_def)+

lemma card_blocks_le: "card (blocks m) \<le> unat (OSMemNBlks m)"
proof (cases "OSMemAddr m")
  case (PAddr base)
  have "card (blocks m) \<le> card {..< unat (OSMemNBlks m)}"
    using card_image_le [of "{..< unat (OSMemNBlks m)}"] by (simp add: blocks_def PAddr)
  then show ?thesis by simp
qed (simp_all add: blocks_def)

lemma part_nfree_le: "part_ok k s \<Longrightarrow> unat (OSMemNFree (OSMemTbl s k)) \<le> unat (OSMemNBlks (OSMemTbl s k))"
proof -
  assume ok: "part_ok k s"
  then have "card (set (free_list k s)) \<le> card (part_blocks k s)"
    by (intro card_mono) (auto simp: part_ok_def)
  also have "\<dots> \<le> unat (OSMemNBlks (OSMemTbl s k))" by (rule card_blocks_le)
  finally show ?thesis using ok by (simp add: part_ok_def distinct_card)
qed

section \<open>Getting and putting a block\<close>

lemma OSMemGet_ok:
  assumes ok: "part_ok k s"
  shows "case free_list k s of
      [] \<Rightarrow> OSMemGet (PMem k) s = Some ((PNull, OS_MEM_NO_FREE_BLKS), s)
    | b # bs \<Rightarrow> \<exists>s'. OSMemGet (PMem k) s = Some ((PAddr b, OS_NO_ERR), s') \<and> part_ok k s'
        \<and> free_list k s' = bs \<and> part_blocks k s' = part_blocks k s \<and> mem_ptr s' = mem_ptr s"
proof (cases "free_list k s")
  case Nil
  then have "unat (OSMemNFree (OSMemTbl s k)) = 0" "k < OS_MAX_MEM_PART" using ok by (auto simp: part_ok_def)
  then show ?thesis using Nil by (simp add: OSMemGet_def unat_eq_zero)
next
  case (Cons b bs)
  let ?m = "OSMemTbl s k"
  let ?m' = "?m\<lparr>OSMemFreeList := mem_ptr s b, OSMemNFree := OSMemNFree ?m - 1\<rparr>"
  let ?s = "s\<lparr>OSMemTbl := (OSMemTbl s)(k := ?m')\<rparr>"
  have k: "k < OS_MAX_MEM_PART" and hd: "OSMemFreeList ?m = PAddr b"
    and c: "chain PAddr (mem_ptr s) (mem_ptr s b) bs" and d: "distinct bs" "b \<notin> set bs"
    and n: "unat (OSMemNFree ?m) = Suc (length bs)" and sub: "set bs \<subseteq> blocks ?m"
    using ok Cons by (auto simp: part_ok_def)
  have nz: "OSMemNFree ?m > 0" using n by (simp add: word_gt_0) (metis Zero_not_Suc unat_0)
  have n': "unat (OSMemNFree ?m - 1) = length bs" using n nz by (simp add: unat_minus_one word_gt_0)
  have fl: "free_list k ?s = bs" using walk_chain [OF c] n' by (simp add: free_list_def)
  have bl: "blocks ?m' = blocks ?m" by simp
  have "part_ok k ?s" using k c d n' sub fl bl by (simp add: part_ok_def)
  moreover have "OSMemGet (PMem k) s = Some ((PAddr b, OS_NO_ERR), ?s)"
    using k nz hd by (simp add: OSMemGet_def load_ptr_def)
  ultimately show ?thesis using fl bl Cons by simp
qed

lemma OSMemPut_ok:
  assumes ok: "part_ok k s" and b: "b \<in> part_blocks k s" "b \<notin> set (free_list k s)"
  shows "\<exists>s'. OSMemPut (PMem k) (PAddr b) s = Some (OS_NO_ERR, s') \<and> part_ok k s'
    \<and> free_list k s' = b # free_list k s \<and> part_blocks k s' = part_blocks k s"
proof -
  let ?m = "OSMemTbl s k" and ?fs = "free_list k s"
  let ?M = "(mem_ptr s)(b := OSMemFreeList ?m)"
  let ?m' = "?m\<lparr>OSMemFreeList := PAddr b, OSMemNFree := OSMemNFree ?m + 1\<rparr>"
  let ?s = "s\<lparr>mem_ptr := ?M, OSMemTbl := (OSMemTbl s)(k := ?m')\<rparr>"
  have k: "k < OS_MAX_MEM_PART" and c: "chain PAddr (mem_ptr s) (OSMemFreeList ?m) ?fs"
    and d: "distinct ?fs" and n: "length ?fs = unat (OSMemNFree ?m)" and sub: "set ?fs \<subseteq> blocks ?m"
    using ok by (auto simp: part_ok_def)
  have "card (set ?fs) < card (blocks ?m)" using b sub by (intro psubset_card_mono) auto
  then have lt: "unat (OSMemNFree ?m) < unat (OSMemNBlks ?m)"
    using card_blocks_le [of ?m] d n by (simp add: distinct_card)
  then have n': "unat (OSMemNFree ?m + 1) = Suc (length ?fs)"
    using unsigned_less [of "OSMemNBlks ?m", where ?'a = nat] n by (simp add: unat_word_ariths)
  have c': "chain PAddr ?M (OSMemFreeList ?m) ?fs" using c b(2) by simp
  then have cc: "chain PAddr ?M (PAddr b) (b # ?fs)" by simp
  have fl: "free_list k ?s = b # ?fs"
    using walk_chain [OF cc] n' by (simp add: free_list_def)
  have bl: "blocks ?m' = blocks ?m" by simp
  have "part_ok k ?s" using k cc d n' sub fl bl b by (simp add: part_ok_def)
  moreover have "OSMemPut (PMem k) (PAddr b) s = Some (OS_NO_ERR, ?s)"
    using k lt by (simp add: OSMemPut_def store_ptr_def word_le_nat_alt)
  ultimately show ?thesis using fl bl by (intro exI [of _ ?s]) simp
qed

section \<open>Creating a partition\<close>

definition block_list :: "addr \<Rightarrow> INT32U \<Rightarrow> nat \<Rightarrow> addr list" where
  "block_list base blksize n = map (\<lambda>i. base + int i * uint blksize) [0 ..< n]"

lemma block_list_Suc:
  "block_list base blksize (Suc n) = base # block_list (base + uint blksize) blksize n"
  by (simp add: block_list_def upt_rec [of 0] map_Suc_upt [symmetric] algebra_simps del: upt_Suc)

lemma block_list_above: "a \<in> set (block_list base blksize n) \<Longrightarrow> base \<le> a"
  by (auto simp: block_list_def)

lemma distinct_block_list: "0 < uint blksize \<Longrightarrow> distinct (block_list base blksize n)"
  by (auto simp: block_list_def distinct_map inj_on_def)

lemma mem_link_ok:
  assumes "0 < uint blksize"
  shows "chain PAddr (mem_link n blksize base (base + uint blksize) M) (PAddr base) (block_list base blksize (Suc n))
    \<and> (\<forall>a. a \<notin> set (block_list base blksize (Suc n)) \<longrightarrow> mem_link n blksize base (base + uint blksize) M a = M a)"
proof (induction n arbitrary: base M)
  case 0
  then show ?case by (simp add: block_list_def)
next
  case (Suc n)
  let ?b = "base + uint blksize"
  let ?M = "M(base := PAddr ?b)"
  let ?M' = "mem_link n blksize ?b (?b + uint blksize) ?M"
  note IH = Suc.IH [of ?b ?M]
  have nb: "base \<notin> set (block_list ?b blksize (Suc n))"
    using block_list_above assms by fastforce
  have hd: "?M' base = PAddr ?b" using IH nb by (metis fun_upd_same)
  have "?M' a = M a" if "a \<notin> set (block_list base blksize (Suc (Suc n)))" for a
  proof -
    have "a \<noteq> base" "a \<notin> set (block_list ?b blksize (Suc n))"
      using that by (auto simp: block_list_Suc [of base blksize "Suc n"])
    then show ?thesis using IH by (metis fun_upd_other)
  qed
  then show ?case
    unfolding block_list_Suc [of base blksize "Suc n"] mem_link.simps chain.simps
    using hd IH by (metis block_list_Suc)
qed

lemma blocks_block_list:
  "OSMemAddr m = PAddr base \<Longrightarrow> blocks m = set (block_list base (OSMemBlkSize m) (unat (OSMemNBlks m)))"
  by (auto simp: blocks_def block_list_def)

section \<open>The interface\<close>

text \<open>A pool of blocks: what is free, what there is at all, taking and giving back.\<close>

locale block_pool =
  fixes invar :: "'s \<Rightarrow> bool"
    and free :: "'s \<Rightarrow> 'b set"
    and all_blocks :: "'s \<Rightarrow> 'b set"
    and take_block :: "'s \<Rightarrow> ('b \<times> 's) option"
    and give_block :: "'b \<Rightarrow> 's \<Rightarrow> 's option"
  assumes free_all: "invar s \<Longrightarrow> free s \<subseteq> all_blocks s"
    and take_some: "invar s \<Longrightarrow> free s \<noteq> {} \<Longrightarrow>
      \<exists>b s'. take_block s = Some (b, s') \<and> b \<in> free s \<and> invar s' \<and> free s' = free s - {b}
        \<and> all_blocks s' = all_blocks s"
    and take_none: "invar s \<Longrightarrow> free s = {} \<Longrightarrow> take_block s = None"
    and give_some: "invar s \<Longrightarrow> b \<in> all_blocks s \<Longrightarrow> b \<notin> free s \<Longrightarrow>
      \<exists>s'. give_block b s = Some s' \<and> invar s' \<and> free s' = insert b (free s) \<and> all_blocks s' = all_blocks s"
begin

lemma takeD:
  assumes "invar s" and "take_block s = Some (b, s')"
  shows "b \<in> free s \<and> invar s' \<and> free s' = free s - {b} \<and> all_blocks s' = all_blocks s"
  using take_some [OF assms(1)] take_none [OF assms(1)] assms(2) by (cases "free s = {}") auto

fun take_many :: "nat \<Rightarrow> 's \<Rightarrow> ('b list \<times> 's) option" where
  "take_many 0 s = Some ([], s)"
| "take_many (Suc n) s = do {
     (b, s1) \<leftarrow> take_block s;
     (bs, s2) \<leftarrow> take_many n s1;
     Some (b # bs, s2)
   }"

text \<open>No block is handed out twice: a run of takes gives pairwise different blocks that were free
  and are not free afterwards.\<close>

lemma take_many_distinct:
  "invar s \<Longrightarrow> take_many n s = Some (bs, s') \<Longrightarrow>
    distinct bs \<and> length bs = n \<and> set bs \<subseteq> free s \<and> invar s' \<and> free s' = free s - set bs
      \<and> all_blocks s' = all_blocks s"
proof (induction n arbitrary: s bs s')
  case (Suc n)
  obtain b s1 cs where t: "take_block s = Some (b, s1)" "take_many n s1 = Some (cs, s')" "bs = b # cs"
    using Suc.prems(2) by auto
  note b = takeD [OF Suc.prems(1) t(1)]
  have c: "distinct cs" "length cs = n" "set cs \<subseteq> free s1" "invar s'" "free s' = free s1 - set cs"
      "all_blocks s' = all_blocks s1"
    using Suc.IH [of s1 cs s'] b t(2) by blast+
  have "b \<notin> set cs" "set cs \<subseteq> free s" "free s' = free s - set (b # cs)"
    using b c(3,5) by auto
  then show ?case using b c t(3) by simp
qed simp

text \<open>As many takes succeed as there are free blocks.\<close>

lemma take_many_succeeds:
  "invar s \<Longrightarrow> finite (free s) \<Longrightarrow> n \<le> card (free s) \<Longrightarrow> \<exists>bs s'. take_many n s = Some (bs, s')"
proof (induction n arbitrary: s)
  case (Suc n)
  then have "free s \<noteq> {}" by auto
  then obtain b s1 where b: "take_block s = Some (b, s1)" "b \<in> free s" "invar s1" "free s1 = free s - {b}"
    using take_some [OF Suc.prems(1)] by blast
  then have "n \<le> card (free s1)" "finite (free s1)" using Suc.prems(2,3) by auto
  then obtain bs s' where "take_many n s1 = Some (bs, s')" using Suc.IH b(3) by blast
  with b(1) show ?case by simp
qed simp

text \<open>Giving back a block that was taken restores the pool.\<close>

lemma take_give:
  assumes "invar s" and "take_block s = Some (b, s1)"
  shows "\<exists>s2. give_block b s1 = Some s2 \<and> invar s2 \<and> free s2 = free s"
proof -
  note t = takeD [OF assms]
  then have "b \<in> all_blocks s1" "b \<notin> free s1" using free_all [OF assms(1)] by auto
  then show ?thesis using give_some [of s1 b] t by fastforce
qed

end

text \<open>The memory manager's view of one partition provides the interface.\<close>

definition mem_take :: "nat \<Rightarrow> os \<Rightarrow> (addr \<times> os) option" where
  "mem_take k s = (case OSMemGet (PMem k) s of
     Some ((PAddr b, err), s') \<Rightarrow> if err = OS_NO_ERR then Some (b, s') else None
   | _ \<Rightarrow> None)"

definition mem_give :: "nat \<Rightarrow> addr \<Rightarrow> os \<Rightarrow> os option" where
  "mem_give k b s = (case OSMemPut (PMem k) (PAddr b) s of
     Some (err, s') \<Rightarrow> if err = OS_NO_ERR then Some s' else None
   | None \<Rightarrow> None)"

interpretation part: block_pool "part_ok k" "\<lambda>s. set (free_list k s)" "part_blocks k" "mem_take k" "mem_give k"
  for k
proof unfold_locales
  fix s
  assume ok: "part_ok k s"
  show "set (free_list k s) \<subseteq> part_blocks k s" using ok by (simp add: part_ok_def)
  show "\<exists>b s'. mem_take k s = Some (b, s') \<and> b \<in> set (free_list k s) \<and> part_ok k s'
      \<and> set (free_list k s') = set (free_list k s) - {b} \<and> part_blocks k s' = part_blocks k s"
    if ne: "set (free_list k s) \<noteq> {}"
  proof -
    obtain b bs where bs: "free_list k s = b # bs" using ne by (cases "free_list k s") auto
    with OSMemGet_ok [OF ok] obtain s' where s': "OSMemGet (PMem k) s = Some ((PAddr b, OS_NO_ERR), s')"
      "part_ok k s'" "free_list k s' = bs" "part_blocks k s' = part_blocks k s" by auto
    have "b \<notin> set bs" using ok bs by (simp add: part_ok_def)
    with s' bs show ?thesis by (intro exI [of _ b] exI [of _ s']) (auto simp: mem_take_def)
  qed
  show "mem_take k s = None" if "set (free_list k s) = {}"
    using OSMemGet_ok [OF ok] that by (simp add: mem_take_def)
  show "\<exists>s'. mem_give k b s = Some s' \<and> part_ok k s' \<and> set (free_list k s') = insert b (set (free_list k s))
      \<and> part_blocks k s' = part_blocks k s"
    if b: "b \<in> part_blocks k s" "b \<notin> set (free_list k s)" for b
    using OSMemPut_ok [OF ok b] by (auto simp: mem_give_def)
qed

section \<open>Properties\<close>

text \<open>Creating a partition: fewer than two blocks, blocks too small for a pointer and an exhausted
  table of control blocks are refused with their own codes and no write to memory; otherwise the
  whole area is linked into one free list of all blocks in address order, ended by a null
  pointer, nothing outside the first bytes of the blocks is written, and the counts agree.\<close>
theorem mem_create_partition:
  assumes "OSMemFreeList_g s = PNull \<or> (\<exists>k < OS_MAX_MEM_PART. OSMemFreeList_g s = PMem k)"
  shows "\<exists>r err s'. OSMemCreate (PAddr base) nblks blksize s = Some ((r, err), s') \<and>
    (if nblks < 2 then r = PNull \<and> err = OS_MEM_INVALID_BLKS \<and> s' = s
     else if blksize < 4 then r = PNull \<and> err = OS_MEM_INVALID_SIZE \<and> s' = s
     else if OSMemFreeList_g s = PNull then r = PNull \<and> err = OS_MEM_INVALID_PART \<and> s' = s
     else r = OSMemFreeList_g s \<and> err = OS_NO_ERR \<and>
       (\<exists>k. r = PMem k \<and> part_ok k s' \<and> OSMemFreeList_g s' = OSMemFreeList (OSMemTbl s k)
          \<and> free_list k s' = block_list base blksize (unat nblks)
          \<and> part_blocks k s' = set (block_list base blksize (unat nblks))
          \<and> OSMemNBlks (OSMemTbl s' k) = nblks \<and> OSMemNFree (OSMemTbl s' k) = nblks
          \<and> (\<forall>j. j \<noteq> k \<longrightarrow> OSMemTbl s' j = OSMemTbl s j)
          \<and> (\<forall>a. a \<notin> set (block_list base blksize (unat nblks)) \<longrightarrow> mem_ptr s' a = mem_ptr s a)))"
proof (cases "nblks < 2 \<or> blksize < 4 \<or> OSMemFreeList_g s = PNull")
  case True
  then show ?thesis by (auto simp: OSMemCreate_def SIZEOF_PTR_def)
next
  case False
  then obtain k where k: "k < OS_MAX_MEM_PART" "OSMemFreeList_g s = PMem k" using assms by blast
  have n2: "2 \<le> unat nblks" and "4 \<le> unat blksize"
    using False by (auto simp: word_less_nat_alt)
  then have "0 < int (unat blksize)" by linarith
  then have b4: "0 < uint blksize" by simp
  let ?n = "unat nblks"
  have "nblks \<noteq> 0" using n2 by auto
  then have n1: "unat (nblks - 1) = ?n - 1" "Suc (?n - 1) = ?n" using n2 unat_minus_one [of nblks] by auto
  let ?M = "mem_link (?n - 1) blksize base (base + uint blksize) (mem_ptr s)"
  let ?m = "(OSMemTbl s k)\<lparr>OSMemAddr := PAddr base, OSMemFreeList := PAddr base, OSMemNFree := nblks,
               OSMemNBlks := nblks, OSMemBlkSize := blksize\<rparr>"
  let ?s = "s\<lparr>OSMemFreeList_g := OSMemFreeList (OSMemTbl s k), mem_ptr := ?M,
              OSMemTbl := (OSMemTbl s)(k := ?m)\<rparr>"
  have c: "chain PAddr ?M (PAddr base) (block_list base blksize ?n)"
    and o: "\<forall>a. a \<notin> set (block_list base blksize ?n) \<longrightarrow> ?M a = mem_ptr s a"
    using mem_link_ok [OF b4, of "?n - 1" base "mem_ptr s"] unfolding n1(2) by blast+
  have len: "length (block_list base blksize ?n) = ?n" by (simp add: block_list_def)
  have fl: "free_list k ?s = block_list base blksize ?n"
    using walk_chain [OF c] len by (simp add: free_list_def)
  have bl: "part_blocks k ?s = set (block_list base blksize ?n)"
    using blocks_block_list [of ?m base] by simp
  have ok: "part_ok k ?s"
    using k(1) c distinct_block_list [OF b4] len fl bl by (simp add: part_ok_def)
  have "OSMemCreate (PAddr base) nblks blksize s = Some ((PMem k, OS_NO_ERR), ?s)"
    using False k n1(1) by (simp add: OSMemCreate_def SIZEOF_PTR_def Let_def)
  then show ?thesis
    using False k(2) ok fl bl o by (intro exI [of _ "PMem k"] exI [of _ OS_NO_ERR] exI [of _ ?s]) simp
qed

lemma block_list_3: "block_list 5000 16 (unat (3 :: INT32U)) = [5000, 5016, 5032]"
  by code_simp

definition sample_part :: os where
  "sample_part = (case OSMemCreate (PAddr 5000) 3 16 (OSMemInit sample) of
     Some (r, s) \<Rightarrow> s | None \<Rightarrow> sample)"

theorem mem_create_partition_witness:
  "\<exists>s'. OSMemCreate (PAddr 5000) 3 16 (OSMemInit sample) = Some ((PMem 0, OS_NO_ERR), s')
     \<and> part_ok 0 s' \<and> free_list 0 s' = [5000, 5016, 5032]"
proof -
  have f: "OSMemFreeList_g (OSMemInit sample) = PMem 0" by (simp add: OSMemInit_def)
  then have "OSMemFreeList_g (OSMemInit sample) = PNull
      \<or> (\<exists>k < OS_MAX_MEM_PART. OSMemFreeList_g (OSMemInit sample) = PMem k)"
    by (simp add: config_defs)
  from mem_create_partition [OF this, of 5000 3 16] f block_list_3 show ?thesis by auto
qed

lemma sample_part_ok: "part_ok 0 sample_part" "free_list 0 sample_part = [5000, 5016, 5032]"
  "OSMemNFree (OSMemTbl sample_part 0) = 3" "part_blocks 0 sample_part = {5000, 5016, 5032}"
proof -
  have "free_list 0 sample_part = [5000, 5016, 5032]" "OSMemNFree (OSMemTbl sample_part 0) = 3"
    "chain PAddr (mem_ptr sample_part) (OSMemFreeList (OSMemTbl sample_part 0)) [5000, 5016, 5032]"
    "OSMemAddr (OSMemTbl sample_part 0) = PAddr 5000" "OSMemBlkSize (OSMemTbl sample_part 0) = 16"
    "OSMemNBlks (OSMemTbl sample_part 0) = 3" "(0 :: nat) < OS_MAX_MEM_PART"
    by code_simp+
  note f = this
  show "free_list 0 sample_part = [5000, 5016, 5032]" "OSMemNFree (OSMemTbl sample_part 0) = 3" by fact+
  show b: "part_blocks 0 sample_part = {5000, 5016, 5032}"
    using blocks_block_list [OF f(4)] block_list_3 by (simp add: f(5,6))
  show "part_ok 0 sample_part" unfolding part_ok_def f(1) b using f by simp
qed

text \<open>Getting and putting a block: a get takes the first free block, or reports that there is
  none; a put of a block of the partition that is out makes it the next to be got, so that a get
  after it returns that block and restores the partition's state of free blocks; and a put when
  every block is already free is refused unchanged.\<close>
theorem mem_get_put:
  assumes "part_ok k s"
  shows "(case free_list k s of [] \<Rightarrow> OSMemGet (PMem k) s = Some ((PNull, OS_MEM_NO_FREE_BLKS), s)
      | b # bs \<Rightarrow> \<exists>s'. OSMemGet (PMem k) s = Some ((PAddr b, OS_NO_ERR), s') \<and> part_ok k s'
          \<and> free_list k s' = bs)
    \<and> (\<forall>b \<in> part_blocks k s - set (free_list k s).
         \<exists>s1 s2. OSMemPut (PMem k) (PAddr b) s = Some (OS_NO_ERR, s1) \<and> part_ok k s1
           \<and> free_list k s1 = b # free_list k s
           \<and> OSMemGet (PMem k) s1 = Some ((PAddr b, OS_NO_ERR), s2) \<and> free_list k s2 = free_list k s)
    \<and> (OSMemNFree (OSMemTbl s k) = OSMemNBlks (OSMemTbl s k) \<longrightarrow>
         OSMemPut (PMem k) p s = Some (OS_MEM_FULL, s))"
proof (intro conjI ballI impI)
  show "case free_list k s of [] \<Rightarrow> OSMemGet (PMem k) s = Some ((PNull, OS_MEM_NO_FREE_BLKS), s)
      | b # bs \<Rightarrow> \<exists>s'. OSMemGet (PMem k) s = Some ((PAddr b, OS_NO_ERR), s') \<and> part_ok k s'
          \<and> free_list k s' = bs"
    using OSMemGet_ok [OF assms] by (auto split: list.splits)
next
  fix b
  assume "b \<in> part_blocks k s - set (free_list k s)"
  then obtain s1 where s1: "OSMemPut (PMem k) (PAddr b) s = Some (OS_NO_ERR, s1)" "part_ok k s1"
    "free_list k s1 = b # free_list k s"
    using OSMemPut_ok [OF assms] by blast
  with OSMemGet_ok [OF s1(2)] show "\<exists>s1 s2. OSMemPut (PMem k) (PAddr b) s = Some (OS_NO_ERR, s1) \<and> part_ok k s1
           \<and> free_list k s1 = b # free_list k s
           \<and> OSMemGet (PMem k) s1 = Some ((PAddr b, OS_NO_ERR), s2) \<and> free_list k s2 = free_list k s"
    by auto
next
  assume "OSMemNFree (OSMemTbl s k) = OSMemNBlks (OSMemTbl s k)"
  then show "OSMemPut (PMem k) p s = Some (OS_MEM_FULL, s)"
    using assms by (simp add: OSMemPut_def part_ok_def)
qed

theorem mem_get_put_witness:
  "(\<exists>s'. OSMemGet (PMem 0) sample_part = Some ((PAddr 5000, OS_NO_ERR), s') \<and> free_list 0 s' = [5016, 5032])
   \<and> OSMemPut (PMem 0) (PAddr 5000) sample_part = Some (OS_MEM_FULL, sample_part)"
proof -
  have "OSMemNFree (OSMemTbl sample_part 0) = OSMemNBlks (OSMemTbl sample_part 0)" by code_simp
  with mem_get_put [OF sample_part_ok(1), of "PAddr 5000"] show ?thesis
    by (auto simp: sample_part_ok(2))
qed

text \<open>A run of gets on one partition.\<close>

fun get_blocks :: "nat \<Rightarrow> nat \<Rightarrow> os \<Rightarrow> (addr list \<times> os) option" where
  "get_blocks k 0 s = Some ([], s)"
| "get_blocks k (Suc n) s = do {
     (b, s1) \<leftarrow> mem_take k s;
     (bs, s2) \<leftarrow> get_blocks k n s1;
     Some (b # bs, s2)
   }"

lemma get_blocks_take_many: "get_blocks k n s = part.take_many k n s"
  by (induction n arbitrary: s) simp_all

text \<open>C8: No block is handed out twice: as long as there are free blocks, a run of gets succeeds and
  returns pairwise different blocks, all of them free before and none of them free afterwards.\<close>
theorem mem_no_double_hand_out:
  assumes "part_ok k s" and "n \<le> unat (OSMemNFree (OSMemTbl s k))"
  shows "\<exists>bs s'. get_blocks k n s = Some (bs, s') \<and> length bs = n \<and> distinct bs
    \<and> set bs \<subseteq> set (free_list k s) \<and> part_ok k s' \<and> set (free_list k s') = set (free_list k s) - set bs"
proof -
  have c: "n \<le> card (set (free_list k s))"
    using assms by (simp add: part_ok_def distinct_card)
  then obtain bs s' where "part.take_many k n s = Some (bs, s')"
    using part.take_many_succeeds [OF assms(1) _ c] by auto
  with part.take_many_distinct [OF assms(1) this] show ?thesis
    by (auto simp: get_blocks_take_many)
qed

theorem mem_no_double_hand_out_witness:
  "\<exists>bs s'. get_blocks 0 3 sample_part = Some (bs, s') \<and> distinct bs \<and> set (free_list 0 s') = {5000, 5016, 5032} - set bs"
proof -
  have "(3 :: nat) \<le> unat (OSMemNFree (OSMemTbl sample_part 0))" by (simp add: sample_part_ok(3))
  from mem_no_double_hand_out [OF sample_part_ok(1) this] show ?thesis
    by (auto simp: sample_part_ok(2) simp del: get_blocks.simps)
qed

end
