(* ===== verification/Time_Management.thy ===== *)
theory Time_Management
  imports Sample_State
begin

text \<open>
  OS\_TIME.C: delaying the current task for a number of ticks or for hours, minutes, seconds and
  milliseconds, ending the delay of another task, and the system clock.
\<close>

section \<open>Operations\<close>

definition OSTimeDly :: "INT16U \<Rightarrow> os \<Rightarrow> os option" where
  "OSTimeDly ticks s =
     (if ticks > 0
      then do {
        t \<leftarrow> tcb_at s (OSTCBCur s);
        s1 \<leftarrow> rdy_remove t s;
        let s2 = put_tcb (OSTCBCur s1) (t\<lparr>OSTCBDly := ticks\<rparr>) s1;
        OSSched s2
      }
      else Some s)"

text \<open>\<open>OSTimeDlyHMSM\<close> uses the kernel only through calls of \<open>OSTimeDly\<close>: it is modelled as the code
  it returns and the list of the delays it asks for, in order. The computation is in 32 bits; the
  number of loops is truncated to 16 bits, and so is the remainder when it is passed on.\<close>

definition hmsm_ticks :: "INT8U \<Rightarrow> INT8U \<Rightarrow> INT8U \<Rightarrow> INT16U \<Rightarrow> INT32U" where
  "hmsm_ticks hours minutes seconds milli =
     (ucast hours * 3600 + ucast minutes * 60 + ucast seconds) * OS_TICKS_PER_SEC
     + OS_TICKS_PER_SEC * (ucast milli + 500 div OS_TICKS_PER_SEC) div 1000"

definition OSTimeDlyHMSM :: "INT8U \<Rightarrow> INT8U \<Rightarrow> INT8U \<Rightarrow> INT16U \<Rightarrow> INT8U \<times> INT16U list" where
  "OSTimeDlyHMSM hours minutes seconds milli =
     (if hours > 0 \<or> minutes > 0 \<or> seconds > 0 \<or> milli > 0
      then if minutes > 59 then (OS_TIME_INVALID_MINUTES, [])
           else if seconds > 59 then (OS_TIME_INVALID_SECONDS, [])
           else if milli > 999 then (OS_TIME_INVALID_MILLI, [])
           else let ticks = hmsm_ticks hours minutes seconds milli;
                    loops = (ucast (ticks div 65536) :: INT16U);
                    ticks = ticks mod 65536
                in (OS_NO_ERR, ucast ticks # concat (replicate (unat loops) [32768, 32768]))
      else (OS_TIME_ZERO_DLY, []))"

definition OSTimeDlyResume :: "INT8U \<Rightarrow> os \<Rightarrow> (INT8U \<times> os) option" where
  "OSTimeDlyResume prio s =
     (if unat prio \<ge> OS_LOWEST_PRIO then Some (OS_PRIO_INVALID, s)
      else do {
        ptcb \<leftarrow> prio_at s prio;
        if ptcb \<noteq> PNull
        then do {
          t \<leftarrow> tcb_at s ptcb;
          if OSTCBDly t \<noteq> 0
          then do {
            let t1 = t\<lparr>OSTCBDly := 0\<rparr>;
            let s1 = put_tcb ptcb t1 s;
            if OSTCBStat t1 AND OS_STAT_SUSPEND = 0
            then do {
              s2 \<leftarrow> rdy_enter t1 s1;
              s3 \<leftarrow> OSSched s2;
              Some (OS_NO_ERR, s3)
            }
            else Some (OS_NO_ERR, s1)
          }
          else Some (OS_TIME_NOT_DLY, s)
        }
        else Some (OS_TASK_NOT_EXIST, s)
      })"

definition OSTimeGet :: "os \<Rightarrow> INT32U" where
  "OSTimeGet s = OSTime s"

definition OSTimeSet :: "INT32U \<Rightarrow> os \<Rightarrow> os" where
  "OSTimeSet ticks s = s\<lparr>OSTime := ticks\<rparr>"

section \<open>One task is delayed\<close>

lemma kinv_make_unready:
  assumes K: "kinv s" and L: "live s p i" and nidle: "p \<noteq> OS_IDLE_PRIO"
    and t': "prio_fields t' p" "OSTCBDly t' \<noteq> 0 \<or> suspended t' \<or> OSTCBEventPtr t' \<noteq> PNull"
      "OSTCBEventPtr t' = OSTCBEventPtr (OSTCBTbl s i)"
      "OSTCBStat t' \<in> {link_bit (OSEventTbl_g s) t', link_bit (OSEventTbl_g s) t' OR OS_STAT_SUSPEND}"
  obtains r where "rdy_remove (OSTCBTbl s i) s = Some (set_rdy r s)"
    and "prio_members r = ready s - {p}"
    and "kinv (set_rdy r (s\<lparr>OSTCBTbl := (OSTCBTbl s)(i := t')\<rparr>))"
proof -
  let ?s = "s\<lparr>OSTCBTbl := (OSTCBTbl s)(i := t')\<rparr>"
  have pL: "p \<le> OS_LOWEST_PRIO" using L by (auto simp: live_def)
  obtain r where r: "rdy_remove (OSTCBTbl s i) s = Some (set_rdy r s)" "prio_map_ok r"
      "prio_members r = ready s - {p}"
    using rdy_remove_ok [OF live_prio [OF K L] pL kinvD_rdy [OF K]] .
  have lb: "link_bit (OSEventTbl_g s) t' = link_bit (OSEventTbl_g s) (OSTCBTbl s i)"
    using t'(3) by (simp add: link_bit_def)
  have "task_ok r (OSEventTbl_g s) p t'"
    using kinvD_task [OF K L] t' r(3) unfolding task_ok_def lb by auto
  then have "kinv (set_rdy r ?s)"
    using r(2,3) t'(3) nidle by (intro kinv_update [OF K L, where t' = t']) auto
  with r that show thesis by blast
qed

text \<open>Reaching a task-level state by calling the scheduler after the current task became not ready.\<close>

lemma sched_from_cur:
  assumes T: "task_level s" and K: "kinv s1" and SB: "same_but_task s s1"
    and TI: "tinv s1" and R: "ready s1 = ready s - {unat (OSPrioCur s)}"
  obtains s2 where "OSSched s1 = Some s2" and "task_level s2" and "same_but_sched s1 s2"
    and "OSTCBCur s2 \<noteq> OSTCBCur s"
proof -
  have CO: "cur_ok s" and U: "unlocked s" using T by (auto simp: task_level_def)
  have C1: "cur_ok s1" using CO same_but_task_cur [OF SB] by simp
  obtain s2 where s2: "OSSched s1 = Some s2" "same_but_sched s1 s2" "kinv s2" "cur_ok s2"
    "unlocked s1 \<longrightarrow> unat (OSPrioCur s2) = highest_ready s1"
    using OSSched_post [OF K] C1 by blast
  have U1: "unlocked s1" using U same_but_task_unlocked [OF SB] by simp
  have T2: "task_level s2"
    using s2 U1 TI same_but_sched_tinv same_but_sched_unlocked same_but_sched_highest
    by (simp add: task_level_def)
  have ne: "unat (OSPrioCur s2) \<noteq> unat (OSPrioCur s)"
    using s2(5) U1 highest_ready_in [OF K] R by auto
  obtain i j where "live s (unat (OSPrioCur s)) i" "OSTCBCur s = PTcb i"
    "live s2 (unat (OSPrioCur s2)) j" "OSTCBCur s2 = PTcb j"
    using CO s2(4) by (auto simp: cur_ok_def)
  moreover from this have "live s2 (unat (OSPrioCur s)) i"
    using same_but_task_live [OF SB] same_but_sched_live [OF s2(2)] by simp
  ultimately have "OSTCBCur s2 \<noteq> OSTCBCur s" using live_inj [OF s2(3)] ne by auto
  with s2 T2 that show thesis by blast
qed

section \<open>Properties\<close>

lemma OSTimeDly_ok:
  assumes "task_level s" and "OSTCBEventPtr (cur_task s) = PNull" and "unat (OSPrioCur s) \<noteq> OS_IDLE_PRIO"
  shows "\<exists>s'. OSTimeDly ticks s = Some s' \<and>
    (if ticks = 0 then s' = s
     else task_level s' \<and> OSTCBCur s' \<noteq> OSTCBCur s \<and> ready s' = ready s - {unat (OSPrioCur s)}
       \<and> OSEventTbl_g s' = OSEventTbl_g s \<and> OSTCBPrioTbl s' = OSTCBPrioTbl s
       \<and> (\<exists>i. live s (unat (OSPrioCur s)) i \<and> OSTCBTbl s' = (OSTCBTbl s)(i := (OSTCBTbl s i)\<lparr>OSTCBDly := ticks\<rparr>)))"
proof (cases "ticks = 0")
  case True
  then show ?thesis by (simp add: OSTimeDly_def)
next
  case False
  obtain p i where p: "p = unat (OSPrioCur s)" "p = highest_ready s" and L: "live s p i"
    and C: "OSTCBCur s = PTcb i" and R: "p \<in> ready s" and ct: "cur_task s = OSTCBTbl s i"
    using task_levelE [OF assms(1)] .
  have K: "kinv s" and TI: "tinv s" using assms(1) by (auto simp: task_level_def)
  have np: "OSTCBEventPtr (OSTCBTbl s i) = PNull" using assms(2) ct by simp
  let ?t = "(OSTCBTbl s i)\<lparr>OSTCBDly := ticks\<rparr>"
  let ?s = "s\<lparr>OSTCBTbl := (OSTCBTbl s)(i := ?t)\<rparr>"
  have nid: "p \<noteq> OS_IDLE_PRIO" using assms(3) p(1) by simp
  have st: "OSTCBStat ?t \<in> {link_bit (OSEventTbl_g s) ?t, link_bit (OSEventTbl_g s) ?t OR OS_STAT_SUSPEND}"
    using kinvD_task [OF K L] unfolding task_ok_def by simp
  have pf: "prio_fields ?t p" using live_prio [OF K L] by simp
  have d: "OSTCBDly ?t \<noteq> 0 \<or> suspended ?t \<or> OSTCBEventPtr ?t \<noteq> PNull"
    "OSTCBEventPtr ?t = OSTCBEventPtr (OSTCBTbl s i)" using False by simp_all
  obtain r where r: "rdy_remove (OSTCBTbl s i) s = Some (set_rdy r s)"
    "prio_members r = ready s - {p}" "kinv (set_rdy r ?s)"
    using kinv_make_unready [OF K L nid pf d st] .
  have sb: "same_but_task s (set_rdy r ?s)" by (simp add: same_but_task_def set_rdy_def)
  have ti: "tinv (set_rdy r ?s)" using same_but_task_tinv [OF sb] TI by simp
  have rr: "ready (set_rdy r ?s) = ready s - {unat (OSPrioCur s)}" using r(2) p(1) by simp
  obtain s2 where s2: "OSSched (set_rdy r ?s) = Some s2" "task_level s2"
    "same_but_sched (set_rdy r ?s) s2" "OSTCBCur s2 \<noteq> OSTCBCur s"
    using sched_from_cur [OF assms(1) r(3) sb ti rr] .
  have "put_tcb (OSTCBCur (set_rdy r s)) ?t (set_rdy r s) = set_rdy r ?s"
    using C by (simp add: set_rdy_def)
  then have "OSTimeDly ticks s = Some s2"
    using False C L r(1) s2(1) by (simp add: OSTimeDly_def live_def word_gt_0)
  then show ?thesis
    using False s2 L r(2) p(1) same_but_sched_frame [OF s2(3)] by (intro exI [of _ s2]) auto
qed

text \<open>A delay of more than 0 ticks asked for by a task always takes the processor from it: the
  task leaves the ready list with the delay in its control block and another task runs; a delay
  of 0 does nothing.\<close>
theorem OSTimeDly_blocks:
  assumes "task_level s" and "OSTCBEventPtr (cur_task s) = PNull" and "unat (OSPrioCur s) \<noteq> OS_IDLE_PRIO"
  shows "\<exists>s'. OSTimeDly ticks s = Some s' \<and>
    (if ticks = 0 then s' = s
     else task_level s' \<and> OSTCBCur s' \<noteq> OSTCBCur s \<and> ready s' = ready s - {unat (OSPrioCur s)}
       \<and> OSEventTbl_g s' = OSEventTbl_g s \<and> OSTCBPrioTbl s' = OSTCBPrioTbl s
       \<and> (\<exists>i. live s (unat (OSPrioCur s)) i \<and> OSTCBTbl s' = (OSTCBTbl s)(i := (OSTCBTbl s i)\<lparr>OSTCBDly := ticks\<rparr>)))"
  by (rule OSTimeDly_ok [OF assms])

theorem OSTimeDly_blocks_witness:
  "\<exists>s'. OSTimeDly 7 sample = Some s' \<and> task_level s' \<and> ready s' = {19, 20}"
proof -
  have "ready sample - {5} = {19, 20}" by (simp add: sample_ready)
  then show ?thesis
    using OSTimeDly_blocks [OF sample_task_level sample_cur(1,2), of 7] sample_cur(3) by auto
qed

text \<open>The ticks that pass, one after the other.\<close>

fun ticks_pass :: "nat \<Rightarrow> os \<Rightarrow> os option" where
  "ticks_pass 0 s = Some s"
| "ticks_pass (Suc n) s = do { s1 \<leftarrow> OSTimeTick s; ticks_pass n s1 }"

lemma ticks_pass_delay:
  assumes "kinv s" and "tinv s" and "live s p i" and "\<not> suspended (OSTCBTbl s i)"
    and "OSTCBDly (OSTCBTbl s i) \<noteq> 0" and "n \<le> unat (OSTCBDly (OSTCBTbl s i))"
  shows "\<exists>s'. ticks_pass n s = Some s' \<and> kinv s' \<and> tinv s' \<and> OSTime s' = OSTime s + of_nat n
    \<and> unat (OSTCBDly (OSTCBTbl s' i)) = unat (OSTCBDly (OSTCBTbl s i)) - n
    \<and> (p \<in> ready s' \<longleftrightarrow> n = unat (OSTCBDly (OSTCBTbl s i)))"
  using assms
proof (induction n arbitrary: s)
  case 0
  have "p \<notin> ready s" using kinvD_task [OF 0(1,3)] 0(5) by (auto simp: task_ok_def)
  then show ?case using 0 by (simp add: unat_eq_zero)
next
  case (Suc n)
  let ?d = "OSTCBDly (OSTCBTbl s i)"
  obtain s1 where s1: "OSTimeTick s = Some (s1\<lparr>OSTime := OSTime s + 1\<rparr>)" "kinv s1"
    "same_but_task s s1" "tinv s1" "\<forall>p i. live s p i \<longrightarrow> OSTCBTbl s1 i = ticked (OSTCBTbl s i)"
    "ready s1 = ready s \<union> {p. \<exists>i. live s p i \<and> expires (OSTCBTbl s i)}"
    "OSEventTbl_g s1 = OSEventTbl_g s"
    using OSTimeTick_post [OF Suc.prems(1,2)] .
  let ?s = "s1\<lparr>OSTime := OSTime s + 1\<rparr>"
  have K: "kinv ?s" using s1(2) kinv_frame [of ?s s1] by simp
  have T: "tinv ?s" using s1(4) tinv_frame [of ?s s1] by simp
  have L: "live ?s p i" using Suc.prems(3) same_but_task_frame(1) [OF s1(3)] by (simp add: live_def)
  have t: "OSTCBTbl ?s i = (OSTCBTbl s i)\<lparr>OSTCBDly := ?d - 1\<rparr>"
    using s1(5) Suc.prems(3-5) by (auto simp: ticked_def)
  have d1: "unat (?d - 1) = unat ?d - 1" using Suc.prems(5) by (rule unat_minus_one)
  have nr: "p \<notin> ready s" using kinvD_task [OF Suc.prems(1,3)] Suc.prems(5) by (auto simp: task_ok_def)
  have lj: "live s p j \<longleftrightarrow> j = i" for j using Suc.prems(3) by (auto simp: live_def)
  have ex: "p \<in> ready ?s \<longleftrightarrow> ?d = 1"
    using s1(6) nr Suc.prems(4) by (simp add: expires_def lj)
  show ?case
  proof (cases "?d = 1")
    case True
    then have n0: "n = 0" using Suc.prems(6) by simp
    then show ?thesis using s1(1) K T t ex True by simp
  next
    case False
    then have "?d - 1 \<noteq> 0" by simp
    moreover have "n \<le> unat ?d - 1" using Suc.prems(6) by simp
    ultimately have "\<exists>s'. ticks_pass n ?s = Some s' \<and> kinv s' \<and> tinv s' \<and> OSTime s' = OSTime ?s + of_nat n
      \<and> unat (OSTCBDly (OSTCBTbl s' i)) = unat ?d - 1 - n \<and> (p \<in> ready s' \<longleftrightarrow> n = unat ?d - 1)"
      using Suc.IH [OF K T L] t d1 Suc.prems(4) by simp
    then obtain s' where s': "ticks_pass n ?s = Some s'"
      "kinv s'" "tinv s'" "OSTime s' = OSTime ?s + of_nat n"
      "unat (OSTCBDly (OSTCBTbl s' i)) = unat ?d - 1 - n" "p \<in> ready s' \<longleftrightarrow> n = unat ?d - 1"
      by blast
    have "0 < unat ?d" using Suc.prems(5) by (simp add: unat_gt_0)
    then have "n = unat ?d - 1 \<longleftrightarrow> Suc n = unat ?d" by auto
    with s' s1(1) show ?thesis by auto
  qed
qed

text \<open>C15: A delayed task that is not suspended becomes ready at the tick its delay says and not
  before: after fewer ticks it is not ready and its delay has gone down by their number, and after
  exactly that many ticks it is ready. No tick on the way faults, and the clock counts them.\<close>
theorem delay_expires_on_time:
  assumes "kinv s" and "tinv s" and "live s p i" and "\<not> suspended (OSTCBTbl s i)"
    and "OSTCBDly (OSTCBTbl s i) \<noteq> 0" and "n \<le> unat (OSTCBDly (OSTCBTbl s i))"
  shows "\<exists>s'. ticks_pass n s = Some s' \<and> kinv s' \<and> OSTime s' = OSTime s + of_nat n
    \<and> unat (OSTCBDly (OSTCBTbl s' i)) = unat (OSTCBDly (OSTCBTbl s i)) - n
    \<and> (p \<in> ready s' \<longleftrightarrow> n = unat (OSTCBDly (OSTCBTbl s i)))"
  using ticks_pass_delay [OF assms] by blast

theorem delay_expires_on_time_witness:
  "(\<exists>s'. ticks_pass 3 sample = Some s' \<and> 11 \<in> ready s') \<and> (\<exists>s'. ticks_pass 2 sample = Some s' \<and> 11 \<notin> ready s')"
proof -
  have l: "live sample 11 6" by (simp add: live_def sample_def config_defs)
  have t: "\<not> suspended (OSTCBTbl sample 6)" "OSTCBDly (OSTCBTbl sample 6) \<noteq> 0"
    "unat (OSTCBDly (OSTCBTbl sample 6)) = 3"
    unfolding suspended_def by code_simp+
  show ?thesis
    using delay_expires_on_time [OF sample_kinv sample_tinv l t(1,2), of 3]
      delay_expires_on_time [OF sample_kinv sample_tinv l t(1,2), of 2] t(3)
    by (auto simp del: ticks_pass.simps)
qed

text \<open>The delays that \<open>OSTimeDlyHMSM\<close> asks for add up to exactly the requested time in ticks, the
  milliseconds rounded to the nearest tick, for every argument in range: no computation wraps
  around. Arguments out of range are refused with the code of the first bad one, and a request of
  zero with its own code; nothing is delayed then.\<close>
theorem OSTimeDlyHMSM_total:
  "OSTimeDlyHMSM h m s ms =
     (if h = 0 \<and> m = 0 \<and> s = 0 \<and> ms = 0 then (OS_TIME_ZERO_DLY, [])
      else if unat m > 59 then (OS_TIME_INVALID_MINUTES, [])
      else if unat s > 59 then (OS_TIME_INVALID_SECONDS, [])
      else if unat ms > 999 then (OS_TIME_INVALID_MILLI, [])
      else (OS_NO_ERR, snd (OSTimeDlyHMSM h m s ms)))
   \<and> (fst (OSTimeDlyHMSM h m s ms) = OS_NO_ERR \<longrightarrow>
        sum_list (map unat (snd (OSTimeDlyHMSM h m s ms)))
          = (unat h * 3600 + unat m * 60 + unat s) * 200 + (unat ms + 2) div 5)"
proof -
  have codes: "OS_TIME_ZERO_DLY \<noteq> OS_NO_ERR" "OS_TIME_INVALID_MINUTES \<noteq> OS_NO_ERR"
    "OS_TIME_INVALID_SECONDS \<noteq> OS_NO_ERR" "OS_TIME_INVALID_MILLI \<noteq> OS_NO_ERR"
    by (simp_all add: err_defs)
  have sum_rep: "sum_list (map unat (concat (replicate n [32768, 32768 :: INT16U]))) = n * 65536" for n
    by (induction n) simp_all
  have total: "sum_list (map unat (ucast (t mod 65536) # concat (replicate (unat (ucast (t div 65536) :: INT16U)) [32768, 32768 :: INT16U])))
      = unat t" for t :: INT32U
  proof -
    have "unat t < 2 ^ 32" using unsigned_less [of t, where ?'a = nat] by simp
    then have "unat t div 65536 < 65536" by simp
    then have "unat (ucast (t div 65536) :: INT16U) = unat t div 65536"
      by (simp add: unsigned_ucast_eq take_bit_nat_def unat_div)
    moreover have "unat (ucast (t mod 65536) :: INT16U) = unat t mod 65536"
      by (simp add: unsigned_ucast_eq take_bit_nat_def unat_mod)
    ultimately show ?thesis by (simp add: sum_rep)
  qed
  have vl: "unat (hmsm_ticks h m s ms) = (unat h * 3600 + unat m * 60 + unat s) * 200 + (unat ms + 2) div 5"
    if "unat m \<le> 59" "unat s \<le> 59" "unat ms \<le> 999"
  proof -
    let ?x = "unat h * 3600 + unat m * 60 + unat s"
    have h: "unat h \<le> 255" using unat_lt_256 [of h] by linarith
    have c: "unat (ucast h :: INT32U) = unat h" "unat (ucast m :: INT32U) = unat m"
      "unat (ucast s :: INT32U) = unat s" "unat (ucast ms :: INT32U) = unat ms"
      using that h by (simp_all add: unsigned_ucast_eq take_bit_nat_def)
    have x: "unat (ucast h * 3600 + ucast m * 60 + ucast s :: INT32U) = ?x"
      using that h by (simp add: unat_word_ariths c)
    have a: "unat ((ucast h * 3600 + ucast m * 60 + ucast s) * OS_TICKS_PER_SEC :: INT32U) = ?x * 200"
      using that h unat_word_ariths(2) [of "ucast h * 3600 + ucast m * 60 + ucast s :: INT32U" OS_TICKS_PER_SEC, unfolded x]
      by (simp only: OS_TICKS_PER_SEC_def) simp
    have "(500 :: INT32U) div OS_TICKS_PER_SEC = 2" by (simp add: OS_TICKS_PER_SEC_def)
    then have b: "unat (OS_TICKS_PER_SEC * (ucast ms + 500 div OS_TICKS_PER_SEC) div 1000 :: INT32U)
        = 200 * (unat ms + 2) div 1000"
      using that(3) by (simp add: unat_word_ariths unat_div c OS_TICKS_PER_SEC_def)
    have r: "200 * (unat ms + 2) div 1000 = (unat ms + 2) div 5"
      using div_mult_mult1 [of 200 "unat ms + 2" 5] by simp
    have "?x * 200 + (unat ms + 2) div 5 < 2 ^ 32" using that h by simp
    then show ?thesis
      unfolding hmsm_ticks_def unat_word_ariths(1) a b r
      by (simp only: len_bit0 len_num1) simp
  qed
  have z: "(h > 0 \<or> m > 0 \<or> s > 0 \<or> ms > 0) \<longleftrightarrow> \<not> (h = 0 \<and> m = 0 \<and> s = 0 \<and> ms = 0)"
    by (auto simp: word_gt_0)
  have lim: "(m > 59) = (unat m > 59)" "(s > 59) = (unat s > 59)" "(ms > 999) = (unat ms > 999)"
    by (simp_all add: word_less_nat_alt)
  show ?thesis
    unfolding OSTimeDlyHMSM_def z lim Let_def
    using codes total [of "hmsm_ticks h m s ms"] vl by (simp add: not_less)
qed

theorem OSTimeDlyHMSM_total_witness:
  "sum_list (map unat (snd (OSTimeDlyHMSM 1 30 15 8))) = 1083002"
proof -
  have "fst (OSTimeDlyHMSM 1 30 15 8) = OS_NO_ERR" by code_simp
  then show ?thesis using OSTimeDlyHMSM_total [of 1 30 15 8] by simp
qed

lemma OSTimeDlyResume_ok:
  assumes "stable s"
  shows "\<exists>err s'. OSTimeDlyResume prio s = Some (err, s') \<and> stable s' \<and>
    (if unat prio \<ge> OS_LOWEST_PRIO then err = OS_PRIO_INVALID \<and> s' = s
     else if OSTCBPrioTbl s (unat prio) = PNull then err = OS_TASK_NOT_EXIST \<and> s' = s
     else \<exists>i. live s (unat prio) i \<and>
       (if OSTCBDly (OSTCBTbl s i) = 0 then err = OS_TIME_NOT_DLY \<and> s' = s
        else err = OS_NO_ERR \<and> OSTCBTbl s' = (OSTCBTbl s)(i := (OSTCBTbl s i)\<lparr>OSTCBDly := 0\<rparr>)
          \<and> OSEventTbl_g s' = OSEventTbl_g s \<and> OSTCBPrioTbl s' = OSTCBPrioTbl s \<and> unlocked s' = unlocked s
          \<and> ready s' = (if suspended (OSTCBTbl s i) then ready s else insert (unat prio) (ready s))))"
proof (cases "unat prio \<ge> OS_LOWEST_PRIO \<or> OSTCBPrioTbl s (unat prio) = PNull")
  case True
  then show ?thesis using assms by (auto simp: OSTimeDlyResume_def prio_at_def)
next
  case False
  have K: "kinv s" and TI: "tinv s" and CO: "cur_ok s" using assms by (auto simp: stable_def)
  let ?p = "unat prio"
  have pL: "?p \<le> OS_LOWEST_PRIO" "OSTCBPrioTbl s ?p \<noteq> PNull" using False by auto
  obtain i where L: "live s ?p i" using kinvD_live [OF K pL] .
  have at: "prio_at s prio = Some (PTcb i)" "i < N_TCB" using L by (auto simp: prio_at_def live_def)
  let ?t = "(OSTCBTbl s i)\<lparr>OSTCBDly := 0\<rparr>"
  let ?s = "s\<lparr>OSTCBTbl := (OSTCBTbl s)(i := ?t)\<rparr>"
  note ok = kinvD_task [OF K L]
  show ?thesis
  proof (cases "OSTCBDly (OSTCBTbl s i) = 0")
    case True
    then have "OSTimeDlyResume prio s = Some (OS_TIME_NOT_DLY, s)"
      using False at by (simp add: OSTimeDlyResume_def)
    then show ?thesis using True False L assms by auto
  next
    case dly: False
    show ?thesis
    proof (cases "suspended (OSTCBTbl s i)")
      case True
      have "?p \<notin> ready s" using ok True by (auto simp: task_ok_def)
      then have "task_ok (rdy s) (OSEventTbl_g s) ?p ?t" using ok True unfolding task_ok_def by simp
      then have "kinv ?s"
        using kinvD_rdy [OF K] kinvD_idle [OF K] by (intro kinv_update [OF K L, where t' = ?t]) auto
      moreover have sb: "same_but_task s ?s" by (simp add: same_but_task_def)
      moreover have "tinv ?s" using same_but_task_tinv [OF sb] TI by simp
      moreover have "cur_ok ?s" using same_but_task_cur [OF sb] CO by simp
      moreover have "unlocked ?s \<longrightarrow> unat (OSPrioCur ?s) = highest_ready ?s"
        using assms by (simp add: stable_def unlocked_def highest_ready_def)
      ultimately have "stable ?s" by (simp add: stable_def)
      moreover have "OSTimeDlyResume prio s = Some (OS_NO_ERR, ?s)"
        using False at dly True by (simp add: OSTimeDlyResume_def suspended_def Let_def)
      ultimately show ?thesis using False L dly True by (intro exI [of _ OS_NO_ERR] exI [of _ ?s], simp del: fun_upd_apply split del: if_split)
          (intro exI [of _ i], simp add: unlocked_def del: fun_upd_apply)
    next
      case ns: False
      have pf: "prio_fields ?t ?p" "OSTCBDly ?t = 0" "\<not> suspended ?t"
        "OSTCBEventPtr ?t = OSTCBEventPtr (OSTCBTbl s i)"
        "OSTCBStat ?t \<in> {link_bit (OSEventTbl_g s) ?t, link_bit (OSEventTbl_g s) ?t OR OS_STAT_SUSPEND}"
        using ok ns unfolding task_ok_def by simp_all
      obtain r where r: "rdy_enter ?t ?s = Some (set_rdy r ?s)" "prio_members r = insert ?p (ready s)"
        "kinv (set_rdy r ?s)"
        using kinv_make_ready [OF K L pf] .
      have sb: "same_but_task s (set_rdy r ?s)" by (simp add: same_but_task_def set_rdy_def)
      have ti: "tinv (set_rdy r ?s)" using same_but_task_tinv [OF sb] TI by simp
      have co: "cur_ok (set_rdy r ?s)" using same_but_task_cur [OF sb] CO by simp
      obtain s2 where s2: "OSSched (set_rdy r ?s) = Some s2" "same_but_sched (set_rdy r ?s) s2" "kinv s2"
        "cur_ok s2" "unlocked (set_rdy r ?s) \<longrightarrow> unat (OSPrioCur s2) = highest_ready (set_rdy r ?s)"
        using OSSched_post [OF r(3)] co by blast
      have "stable s2"
        using s2 ti same_but_sched_tinv same_but_sched_unlocked same_but_sched_highest
        by (simp add: stable_def)
      moreover have "OSTimeDlyResume prio s = Some (OS_NO_ERR, s2)"
        using False at dly ns r(1) s2(1) by (simp add: OSTimeDlyResume_def suspended_def Let_def)
      ultimately show ?thesis using False L dly ns r(2) same_but_sched_frame [OF s2(2)]
        by (intro exI [of _ OS_NO_ERR] exI [of _ s2], simp del: fun_upd_apply split del: if_split)
          (intro exI [of _ i], simp add: unlocked_def del: fun_upd_apply)
    qed
  qed
qed

text \<open>\<open>OSTimeDlyResume\<close> ends the delay of another task at once, whatever is left of it: the task is
  ready afterwards unless it is suspended, in which case only its delay is cleared; a task that
  does not exist or is not delayed, and a priority out of range, are refused unchanged. The
  highest priority ready task runs afterwards.\<close>
theorem OSTimeDlyResume_spec:
  assumes "stable s"
  shows "\<exists>err s'. OSTimeDlyResume prio s = Some (err, s') \<and> stable s' \<and>
    (if unat prio \<ge> OS_LOWEST_PRIO then err = OS_PRIO_INVALID \<and> s' = s
     else if OSTCBPrioTbl s (unat prio) = PNull then err = OS_TASK_NOT_EXIST \<and> s' = s
     else \<exists>i. live s (unat prio) i \<and>
       (if OSTCBDly (OSTCBTbl s i) = 0 then err = OS_TIME_NOT_DLY \<and> s' = s
        else err = OS_NO_ERR \<and> OSTCBTbl s' = (OSTCBTbl s)(i := (OSTCBTbl s i)\<lparr>OSTCBDly := 0\<rparr>)
          \<and> OSEventTbl_g s' = OSEventTbl_g s \<and> OSTCBPrioTbl s' = OSTCBPrioTbl s \<and> unlocked s' = unlocked s
          \<and> ready s' = (if suspended (OSTCBTbl s i) then ready s else insert (unat prio) (ready s))))"
  by (rule OSTimeDlyResume_ok [OF assms])

theorem OSTimeDlyResume_spec_witness:
  "\<exists>s'. OSTimeDlyResume 12 sample = Some (OS_NO_ERR, s') \<and> 12 \<in> ready s' \<and> stable s'"
proof -
  have a: "OSTCBPrioTbl sample 12 = PTcb 7" "\<not> suspended (OSTCBTbl sample 7)"
    "OSTCBDly (OSTCBTbl sample 7) \<noteq> 0" "\<not> OS_LOWEST_PRIO \<le> 12"
    unfolding suspended_def by code_simp+
  from OSTimeDlyResume_spec [OF sample_stable, of 12] a show ?thesis
    by (auto simp: live_def)
qed

end
