(* ===== verification/Task_Table.thy ===== *)
theory Task_Table
  imports Time_Management
begin

text \<open>
  How the invariants survive a change of the table of tasks by priority: a task arrives at a free
  priority, a task leaves, and a control block is linked into or out of the list of tasks. The
  three lemmas on the scheduling invariant, \<open>kinv_of_drop\<close>, \<open>kinv_of_add\<close> and their composition
  \<open>kinv_of_move\<close>, correspond to \<open>OSTaskDel\<close>, the create functions and \<open>OSTaskChangePrio\<close>.
\<close>

section \<open>A task leaves the table\<close>

lemma kinv_of_drop:
  assumes K: "kinv_of m P T E"
    and p: "p \<le> OS_LOWEST_PRIO" "P p = PTcb i" "p \<noteq> OS_IDLE_PRIO"
    and m': "prio_map_ok m'" "prio_members m' = prio_members m - {p}"
    and E': "\<And>e. e < OS_MAX_EVENTS \<Longrightarrow> prio_map_ok (waiting (E' e))
                \<and> waiters_in E' e = waiters_in E e - {p} \<and> OSEventType (E' e) = OSEventType (E e)"
  shows "kinv_of m' (P(p := PNull)) (T(i := t')) E'"
proof -
  have ti: "prio_fields (T i) p"
    using kinv_of_task [OF K p(1)] p(2) by (auto dest: task_ok_prio)
  have other: "j \<noteq> i" if q: "P q = PTcb j" "q \<le> OS_LOWEST_PRIO" "q \<noteq> p" for q j
  proof -
    have "prio_fields (T j) q"
      using kinv_of_task [OF K q(2)] q(1) by (auto dest: task_ok_prio)
    with ti q(3) show ?thesis using prio_fields_unique by blast
  qed
  have "prio_map_ok m'" by fact
  moreover have "OS_IDLE_PRIO \<in> prio_members m'" using kinv_of_idle [OF K] p(3) m'(2) by simp
  moreover have "q \<le> OS_LOWEST_PRIO \<and> (P(p := PNull)) q \<noteq> PNull" if "q \<in> prio_members m'" for q
    using that m'(2) kinv_of_ready [OF K, of q] by auto
  moreover have "q \<le> OS_LOWEST_PRIO \<and> (\<exists>j. (P(p := PNull)) q = PTcb j \<and> OSTCBEventPtr ((T(i := t')) j) = PEvent e)"
    if e: "e < OS_MAX_EVENTS" and q: "q \<in> waiters_in E' e" for e q
  proof -
    have q': "q \<in> waiters_in E e" "q \<noteq> p" using E' [OF e] q by auto
    then obtain j where j: "q \<le> OS_LOWEST_PRIO" "P q = PTcb j" "OSTCBEventPtr (T j) = PEvent e"
      using kinv_of_wait [OF K e] by blast
    with q'(2) other have "j \<noteq> i" by blast
    with j q'(2) show ?thesis by auto
  qed
  moreover have "\<exists>j < N_TCB. (P(p := PNull)) q = PTcb j \<and> task_ok m' E' q ((T(i := t')) j)"
    if q: "q \<le> OS_LOWEST_PRIO" "(P(p := PNull)) q \<noteq> PNull" for q
  proof -
    have qp: "q \<noteq> p" "P q \<noteq> PNull" using q(2) by (auto split: if_splits)
    from kinv_of_task [OF K q(1) qp(2)] obtain j
      where j: "j < N_TCB" "P q = PTcb j" "task_ok m E q (T j)" by blast
    moreover have "j \<noteq> i" using other j(2) q(1) qp(1) by blast
    moreover have lb: "link_bit E' (T j) = link_bit E (T j)"
      using j(3) E' by (auto simp: task_ok_def link_bit_def split: ptr.splits)
    moreover have "q \<in> prio_members m' \<longleftrightarrow> q \<in> prio_members m" using m'(2) qp(1) by simp
    moreover have "q \<in> waiters_in E' e \<longleftrightarrow> q \<in> waiters_in E e" if "e < OS_MAX_EVENTS" for e
      using E' [OF that] qp(1) by simp
    ultimately have "task_ok m' E' q (T j)" unfolding task_ok_def by metis
    with j(1,2) qp(1) \<open>j \<noteq> i\<close> show ?thesis by auto
  qed
  ultimately show ?thesis unfolding kinv_of_def using E' by blast
qed

section \<open>A task arrives\<close>

lemma kinv_of_add:
  assumes K: "kinv_of m P T E"
    and p: "p \<le> OS_LOWEST_PRIO" "P p = PNull"
    and i: "i < N_TCB" "\<And>q. q \<le> OS_LOWEST_PRIO \<Longrightarrow> P q \<noteq> PTcb i"
    and m': "prio_map_ok m'" "prio_members m' - {p} = prio_members m - {p}"
    and E': "\<And>e. e < OS_MAX_EVENTS \<Longrightarrow> prio_map_ok (waiting (E' e))
                \<and> waiters_in E' e - {p} = waiters_in E e - {p} \<and> OSEventType (E' e) = OSEventType (E e)"
    and t': "task_ok m' E' p t'"
    and w': "\<And>e. e < OS_MAX_EVENTS \<Longrightarrow> p \<in> waiters_in E' e \<Longrightarrow> OSTCBEventPtr t' = PEvent e"
  shows "kinv_of m' (P(p := PTcb i)) (T(i := t')) E'"
proof -
  have mem: "q \<in> prio_members m' \<longleftrightarrow> q \<in> prio_members m" if "q \<noteq> p" for q
    using m'(2) that by blast
  have wmem: "q \<in> waiters_in E' e \<longleftrightarrow> q \<in> waiters_in E e" if "q \<noteq> p" "e < OS_MAX_EVENTS" for q e
    using E' [OF that(2)] that(1) by blast
  have idle: "OS_IDLE_PRIO \<noteq> p" using kinv_of_ready [OF K kinv_of_idle [OF K]] p(2) by metis
  have "prio_map_ok m'" by fact
  moreover have "OS_IDLE_PRIO \<in> prio_members m'" using kinv_of_idle [OF K] mem [OF idle] by simp
  moreover have "q \<le> OS_LOWEST_PRIO \<and> (P(p := PTcb i)) q \<noteq> PNull" if "q \<in> prio_members m'" for q
    using that mem kinv_of_ready [OF K, of q] p(1) by (cases "q = p") auto
  moreover have "q \<le> OS_LOWEST_PRIO \<and> (\<exists>j. (P(p := PTcb i)) q = PTcb j \<and> OSTCBEventPtr ((T(i := t')) j) = PEvent e)"
    if e: "e < OS_MAX_EVENTS" and q: "q \<in> waiters_in E' e" for e q
  proof (cases "q = p")
    case True
    then show ?thesis using p(1) w' [OF e] q by auto
  next
    case False
    then have "q \<in> waiters_in E e" using wmem e q by blast
    then obtain j where j: "q \<le> OS_LOWEST_PRIO" "P q = PTcb j" "OSTCBEventPtr (T j) = PEvent e"
      using kinv_of_wait [OF K e] by blast
    with i(2) [OF j(1)] have "j \<noteq> i" by auto
    with j False show ?thesis by auto
  qed
  moreover have "\<exists>j < N_TCB. (P(p := PTcb i)) q = PTcb j \<and> task_ok m' E' q ((T(i := t')) j)"
    if q: "q \<le> OS_LOWEST_PRIO" "(P(p := PTcb i)) q \<noteq> PNull" for q
  proof (cases "q = p")
    case True
    then show ?thesis using i(1) t' by auto
  next
    case False
    with q(2) have "P q \<noteq> PNull" by simp
    from kinv_of_task [OF K q(1) this] obtain j
      where j: "j < N_TCB" "P q = PTcb j" "task_ok m E q (T j)" by blast
    moreover have "j \<noteq> i" using i(2) [OF q(1)] j(2) by auto
    moreover have "link_bit E' (T j) = link_bit E (T j)"
      using j(3) E' by (auto simp: task_ok_def link_bit_def split: ptr.splits)
    then have "task_ok m' E' q (T j)"
      using j(3) mem [OF False] wmem [OF False] unfolding task_ok_def by metis
    ultimately show ?thesis using False by auto
  qed
  ultimately show ?thesis unfolding kinv_of_def using E' by blast
qed

text \<open>A task moves from one priority to another that is free: it leaves and arrives.\<close>

lemma kinv_of_move:
  assumes K: "kinv_of m P T E"
    and p: "p \<le> OS_LOWEST_PRIO" "P p = PTcb i" "p \<noteq> OS_IDLE_PRIO"
    and q: "q \<le> OS_LOWEST_PRIO" "P q = PNull"
    and m1: "prio_map_ok m1" "prio_members m1 = prio_members m - {p}"
    and E1: "\<And>e. e < OS_MAX_EVENTS \<Longrightarrow> prio_map_ok (waiting (E1 e))
                \<and> waiters_in E1 e = waiters_in E e - {p} \<and> OSEventType (E1 e) = OSEventType (E e)"
    and m2: "prio_map_ok m2" "prio_members m2 - {q} = prio_members m1 - {q}"
    and E2: "\<And>e. e < OS_MAX_EVENTS \<Longrightarrow> prio_map_ok (waiting (E2 e))
                \<and> waiters_in E2 e - {q} = waiters_in E1 e - {q} \<and> OSEventType (E2 e) = OSEventType (E1 e)"
    and t': "task_ok m2 E2 q t'"
    and w': "\<And>e. e < OS_MAX_EVENTS \<Longrightarrow> q \<in> waiters_in E2 e \<Longrightarrow> OSTCBEventPtr t' = PEvent e"
  shows "kinv_of m2 (P(p := PNull, q := PTcb i)) (T(i := t')) E2"
proof -
  have D: "kinv_of m1 (P(p := PNull)) (T(i := T i)) E1" by (rule kinv_of_drop [OF K p m1 E1])
  have iN: "i < N_TCB" and ti: "prio_fields (T i) p"
    using kinv_of_task [OF K p(1)] p(2) by (auto dest: task_ok_prio)
  have "(P(p := PNull)) r \<noteq> PTcb i" if r: "r \<le> OS_LOWEST_PRIO" for r
  proof
    assume a: "(P(p := PNull)) r = PTcb i"
    then have "r \<noteq> p" "P r = PTcb i" by (auto split: if_splits)
    moreover from this have "prio_fields (T i) r"
      using kinv_of_task [OF K r] by (auto dest: task_ok_prio)
    ultimately show False using ti prio_fields_unique by blast
  qed
  moreover have "(P(p := PNull)) q = PNull" using q(2) by simp
  ultimately have "kinv_of m2 ((P(p := PNull))(q := PTcb i)) ((T(i := T i))(i := t')) E2"
    using kinv_of_add [OF D q(1) _ iN _ m2 E2 t' w'] by blast
  then show ?thesis by simp
qed

section \<open>The list of tasks\<close>

lemma tcb_chain_cong:
  "(\<And>a. a \<in> set as \<Longrightarrow> OSTCBNext (T' a) = OSTCBNext (T a)) \<Longrightarrow> tcb_chain T' p as = tcb_chain T p as"
  by (rule chain_cong) auto

text \<open>A block is put in front.\<close>

lemma back_links_front:
  assumes "back_links T PNull xs" and "distinct (i # xs)"
    and "\<And>j. j \<noteq> i \<Longrightarrow> OSTCBPrev (T' j) = (if xs \<noteq> [] \<and> j = hd xs then PTcb i else OSTCBPrev (T j))"
    and "OSTCBPrev (T' i) = PNull"
  shows "back_links T' PNull (i # xs)"
proof (cases xs)
  case Nil
  then show ?thesis using assms(4) by simp
next
  case (Cons x zs)
  have "back_links T (PTcb x) zs" using assms(1) Cons by simp
  moreover have "OSTCBPrev (T' j) = OSTCBPrev (T j)" if "j \<in> set zs" for j
  proof -
    have "j \<noteq> i" "j \<noteq> x" using that assms(2) Cons by auto
    with assms(3) Cons show ?thesis by simp
  qed
  ultimately have "back_links T' (PTcb x) zs" using back_links_cong by blast
  moreover have "OSTCBPrev (T' x) = PTcb i" using assms(2,3) Cons by simp
  ultimately show ?thesis using assms(4) Cons by simp
qed

text \<open>A block is taken out: its neighbours point to each other.\<close>

lemma chain_unlink:
  "tcb_chain T h (as @ i # bs) \<Longrightarrow> distinct (as @ i # bs) \<Longrightarrow>
   (\<And>j. j \<in> set (as @ bs) \<Longrightarrow>
      OSTCBNext (T' j) = (if as \<noteq> [] \<and> j = last as then OSTCBNext (T i) else OSTCBNext (T j))) \<Longrightarrow>
   tcb_chain T' (if as = [] then OSTCBNext (T i) else h) (as @ bs)"
proof (induction as arbitrary: h)
  case Nil
  then have "tcb_chain T (OSTCBNext (T i)) bs" by simp
  moreover have "OSTCBNext (T' j) = OSTCBNext (T j)" if "j \<in> set bs" for j
    using Nil(3) [of j] that by simp
  ultimately show ?case using tcb_chain_cong [of bs T' T] by simp
next
  case (Cons a as)
  have h: "h = PTcb a" and c: "tcb_chain T (OSTCBNext (T a)) (as @ i # bs)" and d: "distinct (as @ i # bs)"
    and a: "a \<notin> set as" "a \<noteq> i" "a \<notin> set bs"
    using Cons.prems(1,2) by auto
  have n: "OSTCBNext (T' j) = (if as \<noteq> [] \<and> j = last as then OSTCBNext (T i) else OSTCBNext (T j))"
    if "j \<in> set (as @ bs)" for j
  proof -
    have "j \<noteq> a" using that a by auto
    with that Cons.prems(3) [of j] show ?thesis by (cases "as = []") simp_all
  qed
  have r: "tcb_chain T' (if as = [] then OSTCBNext (T i) else OSTCBNext (T a)) (as @ bs)"
    by (rule Cons.IH [OF c d n])
  have "OSTCBNext (T' a) = (if as = [] then OSTCBNext (T i) else OSTCBNext (T a))"
    using Cons.prems(3) [of a] a(1) by (cases "as = []") auto
  with r h show ?case by simp
qed

lemma back_links_unlink:
  "back_links T p (as @ i # bs) \<Longrightarrow> distinct (as @ i # bs) \<Longrightarrow>
   (\<And>j. j \<in> set (as @ bs) \<Longrightarrow>
      OSTCBPrev (T' j) = (if bs \<noteq> [] \<and> j = hd bs then OSTCBPrev (T i) else OSTCBPrev (T j))) \<Longrightarrow>
   back_links T' p (as @ bs)"
proof (induction as arbitrary: p)
  case Nil
  show ?case
  proof (cases bs)
    case (Cons x zs)
    have "back_links T (PTcb x) zs" using Nil(1) Cons by simp
    moreover have "OSTCBPrev (T' j) = OSTCBPrev (T j)" if "j \<in> set zs" for j
      using Nil(2) Nil(3) [of j] that Cons by auto
    ultimately have "back_links T' (PTcb x) zs" using back_links_cong by blast
    then show ?thesis using Nil(1) Nil(3) [of x] Cons by simp
  qed simp
next
  case (Cons a as)
  have b: "back_links T (PTcb a) (as @ i # bs)" and d: "distinct (as @ i # bs)"
    and a: "a \<notin> set bs" and p: "OSTCBPrev (T a) = p"
    using Cons.prems(1,2) by auto
  have n: "OSTCBPrev (T' j) = (if bs \<noteq> [] \<and> j = hd bs then OSTCBPrev (T i) else OSTCBPrev (T j))"
    if "j \<in> set (as @ bs)" for j
    using that Cons.prems(3) [of j] by simp
  have "back_links T' (PTcb a) (as @ bs)" by (rule Cons.IH [OF b d n])
  moreover have "OSTCBPrev (T' a) = p" using Cons.prems(3) [of a] a p by auto
  ultimately show ?case by simp
qed

text \<open>Where a block of the list is, and what its links are.\<close>

lemma tlink_at:
  "tcb_chain T h (as @ i # bs) \<Longrightarrow> back_links T p (as @ i # bs) \<Longrightarrow>
   OSTCBNext (T i) = (if bs = [] then PNull else PTcb (hd bs)) \<and>
   OSTCBPrev (T i) = (if as = [] then p else PTcb (last as))"
  by (induction as arbitrary: h p) (cases bs, auto)

section \<open>Linking a block in and out\<close>

definition tlinks :: "(nat \<Rightarrow> OS_TCB) \<Rightarrow> ptr \<Rightarrow> ptr \<Rightarrow> nat list \<Rightarrow> nat list \<Rightarrow> bool" where
  "tlinks T lst free xs ys \<longleftrightarrow>
     tcb_chain T lst xs \<and> back_links T PNull xs \<and> tcb_chain T free ys \<and>
     distinct (xs @ ys) \<and> set (xs @ ys) = {..< N_TCB}"

lemma tlists_links:
  "tlists s xs ys \<longleftrightarrow> tlinks (OSTCBTbl s) (OSTCBList s) (OSTCBFreeList s) xs ys \<and>
     (\<forall>i. i \<in> set xs \<longleftrightarrow> (\<exists>p. live s p i)) \<and> xs \<noteq> [] \<and> live s OS_IDLE_PRIO (last xs)"
  by (auto simp: tlists_def tlinks_def)

text \<open>The links of a control block play no part in the scheduling invariant.\<close>

definition relinked :: "(nat \<Rightarrow> OS_TCB) \<Rightarrow> (nat \<Rightarrow> OS_TCB) \<Rightarrow> bool" where
  "relinked T T' \<longleftrightarrow> (\<forall>j. T' j = (T j)\<lparr>OSTCBNext := OSTCBNext (T' j), OSTCBPrev := OSTCBPrev (T' j)\<rparr>)"

lemma task_ok_links: "task_ok m E p (t\<lparr>OSTCBNext := a, OSTCBPrev := b\<rparr>) = task_ok m E p t"
  by (simp add: task_ok_def)

lemma relinked_sel:
  assumes "relinked T T'"
  shows "OSTCBEventPtr (T' j) = OSTCBEventPtr (T j)" "task_ok m E p (T' j) = task_ok m E p (T j)"
    "OSTCBDly (T' j) = OSTCBDly (T j)" "OSTCBStat (T' j) = OSTCBStat (T j)"
    "suspended (T' j) = suspended (T j)"
proof -
  obtain a b where e: "T' j = (T j)\<lparr>OSTCBNext := a, OSTCBPrev := b\<rparr>"
    using assms unfolding relinked_def by blast
  show "OSTCBEventPtr (T' j) = OSTCBEventPtr (T j)" "task_ok m E p (T' j) = task_ok m E p (T j)"
    "OSTCBDly (T' j) = OSTCBDly (T j)" "OSTCBStat (T' j) = OSTCBStat (T j)"
    "suspended (T' j) = suspended (T j)"
    unfolding e by (simp_all add: task_ok_links)
qed

lemma kinv_of_relinked: "relinked T T' \<Longrightarrow> kinv_of m P T' E = kinv_of m P T E"
  unfolding kinv_of_def by (simp only: relinked_sel)

lemma del_unlink_front:
  assumes "tlinks (OSTCBTbl s) (OSTCBList s) (OSTCBFreeList s) (i # b # cs) ys"
  defines "T' \<equiv> (OSTCBTbl s)(b := (OSTCBTbl s b)\<lparr>OSTCBPrev := PNull\<rparr>,
                      i := (OSTCBTbl s i)\<lparr>OSTCBNext := OSTCBFreeList s\<rparr>)"
  shows "tlinks T' (PTcb b) (PTcb i) (b # cs) (i # ys)" and "relinked (OSTCBTbl s) T'"
proof -
  let ?T = "OSTCBTbl s"
  have c: "tcb_chain ?T (OSTCBList s) ([] @ i # b # cs)" and bl: "back_links ?T PNull ([] @ i # b # cs)"
    and f: "tcb_chain ?T (OSTCBFreeList s) ys" and d: "distinct ((i # b # cs) @ ys)"
    and st: "set ((i # b # cs) @ ys) = {..< N_TCB}"
    using assms(1) by (simp_all add: tlinks_def)
  have nx: "OSTCBNext (T' j) = (if j = i then OSTCBFreeList s else OSTCBNext (?T j))" for j
    by (simp add: T'_def)
  have pv: "OSTCBPrev (T' j) = (if j = b then PNull else OSTCBPrev (?T j))" for j
    using d by (simp add: T'_def)
  have "tcb_chain T' (if [] = ([] :: nat list) then OSTCBNext (?T i) else OSTCBList s) ([] @ b # cs)"
    using d nx by (intro chain_unlink [OF c]) auto
  then have "tcb_chain T' (PTcb b) (b # cs)" using c by simp
  moreover have "back_links T' PNull ([] @ b # cs)"
    using d pv bl by (intro back_links_unlink [OF bl]) auto
  moreover have "OSTCBNext (T' j) = OSTCBNext (?T j)" if "j \<in> set ys" for j
    using that d by (auto simp: nx)
  then have "tcb_chain T' (PTcb i) (i # ys)"
    using f tcb_chain_cong [of ys T' ?T] by (simp add: nx)
  ultimately show "tlinks T' (PTcb b) (PTcb i) (b # cs) (i # ys)"
    using d st unfolding tlinks_def by auto
  show "relinked ?T T'" by (simp add: relinked_def T'_def)
qed

lemma del_unlink_middle:
  assumes "tlinks (OSTCBTbl s) (OSTCBList s) (OSTCBFreeList s) (as @ i # b # cs) ys" and "as \<noteq> []"
  defines "T' \<equiv> (OSTCBTbl s)(last as := (OSTCBTbl s (last as))\<lparr>OSTCBNext := PTcb b\<rparr>,
                      b := (OSTCBTbl s b)\<lparr>OSTCBPrev := PTcb (last as)\<rparr>,
                      i := (OSTCBTbl s i)\<lparr>OSTCBNext := OSTCBFreeList s\<rparr>)"
  shows "tlinks T' (OSTCBList s) (PTcb i) (as @ b # cs) (i # ys)" and "relinked (OSTCBTbl s) T'"
proof -
  let ?T = "OSTCBTbl s"
  have c: "tcb_chain ?T (OSTCBList s) (as @ i # b # cs)" and bl: "back_links ?T PNull (as @ i # b # cs)"
    and f: "tcb_chain ?T (OSTCBFreeList s) ys" and d: "distinct ((as @ i # b # cs) @ ys)"
    and st: "set ((as @ i # b # cs) @ ys) = {..< N_TCB}"
    using assms(1) by (simp_all add: tlinks_def)
  have la: "last as \<in> set as" using assms(2) by simp
  have ne: "last as \<noteq> i" "last as \<noteq> b" "b \<noteq> i" "i \<notin> set as" "b \<notin> set as" "i \<notin> set cs" "b \<notin> set cs"
    "last as \<notin> set cs"
    using d la by auto
  have nx: "OSTCBNext (T' j) = (if j = i then OSTCBFreeList s else if j = last as then PTcb b
      else OSTCBNext (?T j))" for j
    using ne by (simp add: T'_def)
  have pv: "OSTCBPrev (T' j) = (if j = b then PTcb (last as) else OSTCBPrev (?T j))" for j
    using ne by (simp add: T'_def)
  have lk: "OSTCBNext (?T i) = PTcb b" "OSTCBPrev (?T i) = PTcb (last as)"
    using tlink_at [OF c bl] assms(2) by simp_all
  have "tcb_chain T' (if as = [] then OSTCBNext (?T i) else OSTCBList s) (as @ b # cs)"
    using d ne assms(2) by (intro chain_unlink [OF c]) (auto simp: nx lk)
  then have "tcb_chain T' (OSTCBList s) (as @ b # cs)" using assms(2) by simp
  moreover have "back_links T' PNull (as @ b # cs)"
    using d ne by (intro back_links_unlink [OF bl]) (auto simp: pv lk)
  moreover have "OSTCBNext (T' j) = OSTCBNext (?T j)" if "j \<in> set ys" for j
    using that d la by (auto simp: nx)
  then have "tcb_chain T' (PTcb i) (i # ys)"
    using f tcb_chain_cong [of ys T' ?T] by (simp add: nx)
  ultimately show "tlinks T' (OSTCBList s) (PTcb i) (as @ b # cs) (i # ys)"
    using d st unfolding tlinks_def by auto
  show "relinked ?T T'" using ne by (auto simp: relinked_def T'_def)
qed

lemma tlinks_front:
  assumes L: "tlinks T lst free xs (i # ys)"
    and T': "OSTCBNext (T' i) = lst" "OSTCBPrev (T' i) = PNull"
      "\<And>j. j \<noteq> i \<Longrightarrow> OSTCBNext (T' j) = OSTCBNext (T j)"
      "\<And>j. j \<noteq> i \<Longrightarrow> OSTCBPrev (T' j) = (if xs \<noteq> [] \<and> j = hd xs then PTcb i else OSTCBPrev (T j))"
  shows "tlinks T' (PTcb i) (OSTCBNext (T i)) (i # xs) ys"
proof -
  have c: "tcb_chain T lst xs" "back_links T PNull xs" and fc: "tcb_chain T (OSTCBNext (T i)) ys"
    and d: "distinct (xs @ i # ys)" and st: "set (xs @ i # ys) = {..< N_TCB}"
    using L by (simp_all add: tlinks_def)
  have x: "j \<noteq> i" if "j \<in> set xs \<or> j \<in> set ys" for j using that d by auto
  have "tcb_chain T' lst xs = tcb_chain T lst xs"
    by (rule tcb_chain_cong) (simp add: T'(3) x)
  then have "tcb_chain T' (PTcb i) (i # xs)" using c(1) T'(1) by simp
  moreover have "distinct (i # xs)" using d by auto
  then have "back_links T' PNull (i # xs)" using back_links_front [OF c(2) _ T'(4,2)] by blast
  moreover have "tcb_chain T' (OSTCBNext (T i)) ys = tcb_chain T (OSTCBNext (T i)) ys"
    by (rule tcb_chain_cong) (simp add: T'(3) x)
  then have "tcb_chain T' (OSTCBNext (T i)) ys" using fc by simp
  moreover have "distinct ((i # xs) @ ys)" using d by auto
  moreover have "set ((i # xs) @ ys) = {..< N_TCB}" using st by auto
  ultimately show ?thesis unfolding tlinks_def by blast
qed

end
