(* ===== verification/Tasks.thy ===== *)
theory Tasks
  imports Task_Table
begin

text \<open>
  OS\_TASK.C and the processor port OS\_CPU\_C.C: the first stack frame of a task, the creation
  and deletion of tasks, changes of priority, requests to delete, suspension and resumption,
  stack checking and the query of a control block. The functions of this file are the only ones
  that change the table of tasks by priority and the two lists of control blocks, so the lemmas
  here say how the invariants \<open>kinv\<close> and \<open>tinv\<close> survive the arrival, the departure and the
  move of a task.
\<close>

section \<open>Operations\<close>

text \<open>Three things of the compiler and the processor are parameters: the segment and the offset of
  a far pointer, and the data segment register.\<close>

record cpu =
  FP_SEG :: "ptr \<Rightarrow> INT16U"
  FP_OFF :: "ptr \<Rightarrow> INT16U"
  DS_reg :: INT16U

text \<open>Stores through \<open>*stk-- = v\<close>, for the values in turn, the last without the decrement. A stack
  entry has two bytes.\<close>

fun stk_push :: "addr \<Rightarrow> OS_STK list \<Rightarrow> (addr \<Rightarrow> OS_STK) \<Rightarrow> addr \<times> (addr \<Rightarrow> OS_STK)" where
  "stk_push a [] m = (a, m)"
| "stk_push a [v] m = (a, m(a := v))"
| "stk_push a (v # w # vs) m = stk_push (a - 2) (w # vs) (m(a := v))"

definition stk_frame :: "cpu \<Rightarrow> ptr \<Rightarrow> ptr \<Rightarrow> OS_STK list" where
  "stk_frame c task pdata =
     [FP_SEG c pdata, FP_OFF c pdata, FP_SEG c task, FP_OFF c task, 0x0202,
      FP_SEG c task, FP_OFF c task, 0xAAAA, 0xCCCC, 0xDDDD, 0xBBBB, 0x0000, 0x1111,
      0x2222, 0x3333, 0x4444, DS_reg c]"

definition OSTaskStkInit :: "cpu \<Rightarrow> ptr \<Rightarrow> ptr \<Rightarrow> ptr \<Rightarrow> INT16U \<Rightarrow> os \<Rightarrow> (ptr \<times> os) option" where
  "OSTaskStkInit c task pdata ptos opt s =
     (case ptos of
        PAddr a \<Rightarrow> let (b, m) = stk_push a (stk_frame c task pdata) (mem_stk s)
                   in Some (PAddr b, s\<lparr>mem_stk := m\<rparr>)
      | _ \<Rightarrow> None)"

definition OSTaskCreateHook :: "ptr \<Rightarrow> os \<Rightarrow> os" where
  "OSTaskCreateHook ptcb s = s"

definition OSTaskDelHook :: "ptr \<Rightarrow> os \<Rightarrow> os" where
  "OSTaskDelHook ptcb s = s"

definition OSDummy :: "os \<Rightarrow> os" where
  "OSDummy s = s"

text \<open>What the two create functions do once \<open>OSTCBInit\<close> has returned.\<close>

definition create_tail :: "INT8U \<Rightarrow> INT8U \<Rightarrow> os \<Rightarrow> (INT8U \<times> os) option" where
  "create_tail prio err s =
     (if err = OS_NO_ERR
      then do {
        let s1 = s\<lparr>OSTaskCtr := OSTaskCtr s + 1\<rparr>;
        ptcb \<leftarrow> prio_at s1 prio;
        let s2 = OSTaskCreateHook ptcb s1;
        if OSRunning s2 \<noteq> 0
        then do {
          s3 \<leftarrow> OSSched s2;
          Some (err, s3)
        }
        else Some (err, s2)
      }
      else Some (err, put_prio prio PNull s))"

definition OSTaskCreate :: "cpu \<Rightarrow> ptr \<Rightarrow> ptr \<Rightarrow> ptr \<Rightarrow> INT8U \<Rightarrow> os \<Rightarrow> (INT8U \<times> os) option" where
  "OSTaskCreate c task pdata ptos prio s =
     (if unat prio > OS_LOWEST_PRIO then Some (OS_PRIO_INVALID, s)
      else do {
        ptcb \<leftarrow> prio_at s prio;
        if ptcb = PNull
        then do {
          let s1 = put_prio prio POne s;
          (psp, s2) \<leftarrow> OSTaskStkInit c task pdata ptos 0 s1;
          (err, s3) \<leftarrow> OSTCBInit prio psp PNull 0 0 PNull 0 s2;
          create_tail prio err s3
        }
        else Some (OS_PRIO_EXIST, s)
      })"

text \<open>The loop that clears a stack. Its counter has 16 bits and the size it is compared with has
  32: with a size of more than 65535 the loop does not end, which is the value \<open>None\<close>.\<close>

partial_function (option) stk_fill ::
    "INT16U \<Rightarrow> INT32U \<Rightarrow> addr \<Rightarrow> (addr \<Rightarrow> OS_STK) \<Rightarrow> (addr \<Rightarrow> OS_STK) option" where
  "stk_fill i stk_size pfill m =
     (if ucast i < stk_size then stk_fill (i + 1) stk_size (pfill + 2) (m(pfill := 0)) else Some m)"

definition stk_clear :: "ptr \<Rightarrow> INT32U \<Rightarrow> os \<Rightarrow> os option" where
  "stk_clear pbos stk_size s =
     (case pbos of
        PAddr b \<Rightarrow> do { m \<leftarrow> stk_fill 0 stk_size b (mem_stk s); Some (s\<lparr>mem_stk := m\<rparr>) }
      | _ \<Rightarrow> None)"

definition OSTaskCreateExt ::
    "cpu \<Rightarrow> ptr \<Rightarrow> ptr \<Rightarrow> ptr \<Rightarrow> INT8U \<Rightarrow> INT16U \<Rightarrow> ptr \<Rightarrow> INT32U \<Rightarrow> ptr \<Rightarrow> INT16U \<Rightarrow> os
      \<Rightarrow> (INT8U \<times> os) option" where
  "OSTaskCreateExt c task pdata ptos prio tid pbos stk_size pext opt s =
     (if unat prio > OS_LOWEST_PRIO then Some (OS_PRIO_INVALID, s)
      else do {
        ptcb \<leftarrow> prio_at s prio;
        if ptcb = PNull
        then do {
          let s1 = put_prio prio POne s;
          s2 \<leftarrow> (if opt AND OS_TASK_OPT_STK_CHK \<noteq> 0
                then if opt AND OS_TASK_OPT_STK_CLR \<noteq> 0
                     then stk_clear pbos stk_size s1
                     else Some s1
                else Some s1);
          (psp, s3) \<leftarrow> OSTaskStkInit c task pdata ptos opt s2;
          (err, s4) \<leftarrow> OSTCBInit prio psp pbos tid (ucast stk_size) pext opt s3;
          create_tail prio err s4
        }
        else Some (OS_PRIO_EXIST, s)
      })"

text \<open>The priority that \<open>OS_PRIO_SELF\<close> stands for.\<close>

definition self_prio :: "INT8U \<Rightarrow> os \<Rightarrow> INT8U option" where
  "self_prio prio s =
     (if prio = OS_PRIO_SELF
      then do { t \<leftarrow> tcb_at s (OSTCBCur s); Some (OSTCBPrio t) }
      else Some prio)"

text \<open>The part of \<open>OSTaskChangePrio\<close> that moves the task in the ready list or in the wait list of its
  event from its old position, kept in \<open>t\<close>, to the new one.\<close>

definition change_lists :: "OS_TCB \<Rightarrow> INT8U \<Rightarrow> INT8U \<Rightarrow> INT8U \<Rightarrow> os \<Rightarrow> os option" where
  "change_lists t y bitx bity s = do {
     b \<leftarrow> idx OS_RDY_TBL_SIZE (OSRdyTbl s) (unat (OSTCBY t));
     if b AND OSTCBBitX t \<noteq> 0
     then do {
       s1 \<leftarrow> rdy_remove t s;
       m \<leftarrow> tbl_enter OS_RDY_TBL_SIZE (unat y) bitx bity (rdy s1);
       Some (set_rdy m s1)
     }
     else if OSTCBEventPtr t \<noteq> PNull
     then do {
       s1 \<leftarrow> wait_remove t (OSTCBEventPtr t) s;
       e \<leftarrow> event_at s1 (OSTCBEventPtr t);
       m \<leftarrow> tbl_enter OS_EVENT_TBL_SIZE (unat y) bitx bity (waiting e);
       Some (put_event (OSTCBEventPtr t) (set_waiting m e) s1)
     }
     else Some s
   }"

definition OSTaskChangePrio :: "INT8U \<Rightarrow> INT8U \<Rightarrow> os \<Rightarrow> (INT8U \<times> os) option" where
  "OSTaskChangePrio oldprio newprio s =
     (if (unat oldprio \<ge> OS_LOWEST_PRIO \<and> oldprio \<noteq> OS_PRIO_SELF) \<or> unat newprio \<ge> OS_LOWEST_PRIO
      then Some (OS_PRIO_INVALID, s)
      else do {
        q \<leftarrow> prio_at s newprio;
        if q \<noteq> PNull then Some (OS_PRIO_EXIST, s)
        else do {
          let s1 = put_prio newprio POne s;
          let y = drop_bit 3 newprio;
          bity \<leftarrow> map_tbl (unat y);
          let x = newprio AND 0x07;
          bitx \<leftarrow> map_tbl (unat x);
          oldprio \<leftarrow> self_prio oldprio s1;
          ptcb \<leftarrow> prio_at s1 oldprio;
          if ptcb \<noteq> PNull
          then do {
            let s2 = put_prio oldprio PNull s1;
            t \<leftarrow> tcb_at s2 ptcb;
            s3 \<leftarrow> change_lists t y bitx bity s2;
            let s4 = put_prio newprio ptcb s3;
            t4 \<leftarrow> tcb_at s4 ptcb;
            let s5 = put_tcb ptcb (t4\<lparr>OSTCBPrio := newprio, OSTCBY := y, OSTCBX := x,
                                      OSTCBBitY := bity, OSTCBBitX := bitx\<rparr>) s4;
            s6 \<leftarrow> OSSched s5;
            Some (OS_NO_ERR, s6)
          }
          else Some (OS_PRIO_ERR, put_prio newprio PNull s1)
        }
      })"

text \<open>\<open>OSTaskDel\<close> has two critical sections: in the first the task is made unable to run, in the
  second it is taken out of the table and the lists.\<close>

definition del_disable :: "ptr \<Rightarrow> os \<Rightarrow> os option" where
  "del_disable ptcb s = do {
     t \<leftarrow> tcb_at s ptcb;
     s1 \<leftarrow> rdy_remove t s;
     s2 \<leftarrow> (if OSTCBEventPtr t \<noteq> PNull then wait_remove t (OSTCBEventPtr t) s1 else Some s1);
     let s3 = put_tcb ptcb (t\<lparr>OSTCBDly := 0, OSTCBStat := OS_STAT_RDY\<rparr>) s2;
     Some (s3\<lparr>OSLockNesting := OSLockNesting s3 + 1\<rparr>)
   }"

definition del_unlink :: "ptr \<Rightarrow> os \<Rightarrow> os option" where
  "del_unlink ptcb s = do {
     t \<leftarrow> tcb_at s ptcb;
     s1 \<leftarrow> (if OSTCBPrev t = PNull
           then do {
             n \<leftarrow> tcb_at s (OSTCBNext t);
             let s1 = put_tcb (OSTCBNext t) (n\<lparr>OSTCBPrev := PNull\<rparr>) s;
             t1 \<leftarrow> tcb_at s1 ptcb;
             Some (s1\<lparr>OSTCBList := OSTCBNext t1\<rparr>)
           }
           else do {
             v \<leftarrow> tcb_at s (OSTCBPrev t);
             let s1 = put_tcb (OSTCBPrev t) (v\<lparr>OSTCBNext := OSTCBNext t\<rparr>) s;
             t1 \<leftarrow> tcb_at s1 ptcb;
             n \<leftarrow> tcb_at s1 (OSTCBNext t1);
             Some (put_tcb (OSTCBNext t1) (n\<lparr>OSTCBPrev := OSTCBPrev t1\<rparr>) s1)
           });
     t2 \<leftarrow> tcb_at s1 ptcb;
     Some ((put_tcb ptcb (t2\<lparr>OSTCBNext := OSTCBFreeList s1\<rparr>) s1)\<lparr>OSTCBFreeList := ptcb\<rparr>)
   }"

definition OSTaskDel :: "INT8U \<Rightarrow> os \<Rightarrow> (INT8U \<times> os) option" where
  "OSTaskDel prio s =
     (if unat prio = OS_IDLE_PRIO then Some (OS_TASK_DEL_IDLE, s)
      else if unat prio \<ge> OS_LOWEST_PRIO \<and> prio \<noteq> OS_PRIO_SELF then Some (OS_PRIO_INVALID, s)
      else if OSIntNesting s > 0 then Some (OS_TASK_DEL_ISR, s)
      else do {
        prio \<leftarrow> self_prio prio s;
        ptcb \<leftarrow> prio_at s prio;
        if ptcb \<noteq> PNull
        then do {
          s1 \<leftarrow> del_disable ptcb s;
          let s2 = OSDummy s1;
          let s3 = s2\<lparr>OSLockNesting := OSLockNesting s2 - 1\<rparr>;
          let s4 = OSTaskDelHook ptcb s3;
          let s5 = put_prio prio PNull (s4\<lparr>OSTaskCtr := OSTaskCtr s4 - 1\<rparr>);
          s6 \<leftarrow> del_unlink ptcb s5;
          s7 \<leftarrow> OSSched s6;
          Some (OS_NO_ERR, s7)
        }
        else Some (OS_TASK_DEL_ERR, s)
      })"

definition OSTaskDelReq :: "INT8U \<Rightarrow> os \<Rightarrow> (INT8U \<times> os) option" where
  "OSTaskDelReq prio s =
     (if unat prio = OS_IDLE_PRIO then Some (OS_TASK_DEL_IDLE, s)
      else if unat prio \<ge> OS_LOWEST_PRIO \<and> prio \<noteq> OS_PRIO_SELF then Some (OS_PRIO_INVALID, s)
      else if prio = OS_PRIO_SELF
      then do {
        t \<leftarrow> tcb_at s (OSTCBCur s);
        Some (OSTCBDelReq t, s)
      }
      else do {
        ptcb \<leftarrow> prio_at s prio;
        if ptcb \<noteq> PNull
        then do {
          t \<leftarrow> tcb_at s ptcb;
          Some (OS_NO_ERR, put_tcb ptcb (t\<lparr>OSTCBDelReq := OS_TASK_DEL_REQ\<rparr>) s)
        }
        else Some (OS_TASK_NOT_EXIST, s)
      })"

definition OSTaskResume :: "INT8U \<Rightarrow> os \<Rightarrow> (INT8U \<times> os) option" where
  "OSTaskResume prio s =
     (if unat prio \<ge> OS_LOWEST_PRIO then Some (OS_PRIO_INVALID, s)
      else do {
        ptcb \<leftarrow> prio_at s prio;
        if ptcb = PNull then Some (OS_TASK_RESUME_PRIO, s)
        else do {
          t \<leftarrow> tcb_at s ptcb;
          if OSTCBStat t AND OS_STAT_SUSPEND \<noteq> 0
          then do {
            let t1 = t\<lparr>OSTCBStat := OSTCBStat t AND NOT OS_STAT_SUSPEND\<rparr>;
            let s1 = put_tcb ptcb t1 s;
            if OSTCBStat t1 = OS_STAT_RDY \<and> OSTCBDly t1 = 0
            then do {
              s2 \<leftarrow> rdy_enter t1 s1;
              s3 \<leftarrow> OSSched s2;
              Some (OS_NO_ERR, s3)
            }
            else Some (OS_NO_ERR, s1)
          }
          else Some (OS_TASK_NOT_SUSPENDED, s)
        }
      })"

record OS_STK_DATA =
  OSFree :: INT32U
  OSUsed :: INT32U

text \<open>The loop that counts the zero entries from the bottom of a stack; it ends at the first entry
  that is not zero.\<close>

partial_function (option) stk_scan :: "addr \<Rightarrow> INT32U \<Rightarrow> (addr \<Rightarrow> OS_STK) \<Rightarrow> INT32U option" where
  "stk_scan pchk n m = (if m pchk = 0 then stk_scan (pchk + 2) (n + 1) m else Some n)"

definition OSTaskStkChk :: "INT8U \<Rightarrow> OS_STK_DATA \<Rightarrow> os \<Rightarrow> (INT8U \<times> OS_STK_DATA) option" where
  "OSTaskStkChk prio pdata s =
     (let pdata = pdata\<lparr>OSFree := 0, OSUsed := 0\<rparr>
      in if unat prio > OS_LOWEST_PRIO \<and> prio \<noteq> OS_PRIO_SELF then Some (OS_PRIO_INVALID, pdata)
      else do {
        prio \<leftarrow> self_prio prio s;
        ptcb \<leftarrow> prio_at s prio;
        if ptcb = PNull then Some (OS_TASK_NOT_EXIST, pdata)
        else do {
          t \<leftarrow> tcb_at s ptcb;
          if OSTCBOpt t AND OS_TASK_OPT_STK_CHK = 0 then Some (OS_TASK_OPT_ERR, pdata)
          else do {
            let size = OSTCBStkSize t;
            free \<leftarrow> (case OSTCBStkBottom t of PAddr b \<Rightarrow> stk_scan b 0 (mem_stk s) | _ \<Rightarrow> None);
            Some (OS_NO_ERR, pdata\<lparr>OSFree := free * 2, OSUsed := (size - free) * 2\<rparr>)
          }
        }
      })"

definition OSTaskSuspend :: "INT8U \<Rightarrow> os \<Rightarrow> (INT8U \<times> os) option" where
  "OSTaskSuspend prio s =
     (if unat prio = OS_IDLE_PRIO then Some (OS_TASK_SUSPEND_IDLE, s)
      else if unat prio \<ge> OS_LOWEST_PRIO \<and> prio \<noteq> OS_PRIO_SELF then Some (OS_PRIO_INVALID, s)
      else do {
        cur \<leftarrow> tcb_at s (OSTCBCur s);
        let (prio, self) = (if prio = OS_PRIO_SELF then (OSTCBPrio cur, True)
                            else if prio = OSTCBPrio cur then (prio, True)
                            else (prio, False));
        ptcb \<leftarrow> prio_at s prio;
        if ptcb = PNull then Some (OS_TASK_SUSPEND_PRIO, s)
        else do {
          t \<leftarrow> tcb_at s ptcb;
          s1 \<leftarrow> rdy_remove t s;
          let s2 = put_tcb ptcb (t\<lparr>OSTCBStat := OSTCBStat t OR OS_STAT_SUSPEND\<rparr>) s1;
          if self
          then do {
            s3 \<leftarrow> OSSched s2;
            Some (OS_NO_ERR, s3)
          }
          else Some (OS_NO_ERR, s2)
        }
      })"

definition OSTaskQuery :: "INT8U \<Rightarrow> OS_TCB \<Rightarrow> os \<Rightarrow> (INT8U \<times> OS_TCB) option" where
  "OSTaskQuery prio pdata s =
     (if unat prio > OS_LOWEST_PRIO \<and> prio \<noteq> OS_PRIO_SELF then Some (OS_PRIO_INVALID, pdata)
      else do {
        prio \<leftarrow> self_prio prio s;
        ptcb \<leftarrow> prio_at s prio;
        if ptcb = PNull then Some (OS_PRIO_ERR, pdata)
        else do {
          t \<leftarrow> tcb_at s ptcb;
          Some (OS_NO_ERR, t)
        }
      })"

section \<open>Linking, under the invariant\<close>

lemma del_unlink_post:
  assumes L: "tlinks (OSTCBTbl s) (OSTCBList s) (OSTCBFreeList s) (as @ i # b # cs) ys"
  obtains T' l where "del_unlink (PTcb i) s
      = Some (s\<lparr>OSTCBTbl := T', OSTCBList := l, OSTCBFreeList := PTcb i\<rparr>)"
    and "tlinks T' l (PTcb i) (as @ b # cs) (i # ys)" and "relinked (OSTCBTbl s) T'"
proof -
  have c: "tcb_chain (OSTCBTbl s) (OSTCBList s) (as @ i # b # cs)"
    "back_links (OSTCBTbl s) PNull (as @ i # b # cs)"
    and d: "distinct ((as @ i # b # cs) @ ys)" and st: "set ((as @ i # b # cs) @ ys) = {..< N_TCB}"
    using L by (simp_all add: tlinks_def)
  have lt0: "j \<in> set ((as @ i # b # cs) @ ys) \<Longrightarrow> j < N_TCB" for j unfolding st by simp
  have lt: "i < N_TCB" "b < N_TCB" "as \<noteq> [] \<Longrightarrow> last as < N_TCB" by (rule lt0, simp)+
  show thesis
  proof (cases "as = []")
    case True
    then have lk: "OSTCBNext (OSTCBTbl s i) = PTcb b" "OSTCBPrev (OSTCBTbl s i) = PNull" "i \<noteq> b"
      using tlink_at [OF c] d by simp_all
    note r = del_unlink_front [of s i b cs ys] L True
    show thesis
    proof (rule that)
      show "del_unlink (PTcb i) s = Some (s\<lparr>OSTCBTbl := (OSTCBTbl s)(b := (OSTCBTbl s b)\<lparr>OSTCBPrev := PNull\<rparr>,
          i := (OSTCBTbl s i)\<lparr>OSTCBNext := OSTCBFreeList s\<rparr>), OSTCBList := PTcb b, OSTCBFreeList := PTcb i\<rparr>)"
        using lk lt by (simp add: del_unlink_def Let_def)
    qed (use r in auto)
  next
    case False
    then have lk: "OSTCBNext (OSTCBTbl s i) = PTcb b" "OSTCBPrev (OSTCBTbl s i) = PTcb (last as)" "i \<noteq> b"
      using tlink_at [OF c] d by simp_all
    have ne: "last as \<noteq> i" "last as \<noteq> b" using d False last_in_set [OF False] by auto
    note r = del_unlink_middle [OF L False]
    show thesis
    proof (rule that)
      show "del_unlink (PTcb i) s = Some (s\<lparr>OSTCBTbl :=
          (OSTCBTbl s)(last as := (OSTCBTbl s (last as))\<lparr>OSTCBNext := PTcb b\<rparr>,
          b := (OSTCBTbl s b)\<lparr>OSTCBPrev := PTcb (last as)\<rparr>,
          i := (OSTCBTbl s i)\<lparr>OSTCBNext := OSTCBFreeList s\<rparr>), OSTCBList := OSTCBList s, OSTCBFreeList := PTcb i\<rparr>)"
        using lk lt ne False by (simp add: del_unlink_def Let_def)
    qed (use r in auto)
  qed
qed

text \<open>The control block that \<open>OSTCBInit\<close> fills in.\<close>

definition new_tcb ::
    "INT8U \<Rightarrow> ptr \<Rightarrow> ptr \<Rightarrow> INT16U \<Rightarrow> INT16U \<Rightarrow> ptr \<Rightarrow> INT16U \<Rightarrow> ptr \<Rightarrow> OS_TCB" where
  "new_tcb prio ptos pbos tid stk_size pext opt nxt =
     \<lparr>OSTCBStkPtr = ptos, OSTCBExtPtr = pext, OSTCBStkBottom = pbos, OSTCBStkSize = ucast stk_size,
      OSTCBOpt = opt, OSTCBId = tid, OSTCBNext = nxt, OSTCBPrev = PNull, OSTCBEventPtr = PNull,
      OSTCBMsg = PNull, OSTCBDly = 0, OSTCBStat = OS_STAT_RDY, OSTCBPrio = prio,
      OSTCBX = prio AND 0x07, OSTCBY = drop_bit 3 prio, OSTCBBitX = 2 ^ (unat prio mod 8),
      OSTCBBitY = 2 ^ (unat prio div 8), OSTCBDelReq = OS_NO_ERR\<rparr>"

lemma prio_yx: "unat (drop_bit 3 prio :: INT8U) = unat prio div 8" "unat (prio AND 7 :: INT8U) = unat prio mod 8"
proof -
  show "unat (drop_bit 3 prio :: INT8U) = unat prio div 8"
    by (simp add: drop_bit_eq_div unat_div)
  have "mask 3 = (7 :: INT8U)" by code_simp
  then have e: "prio AND 7 = take_bit 3 prio" by (simp only: take_bit_eq_mask)
  show "unat (prio AND 7 :: INT8U) = unat prio mod 8"
    unfolding e unsigned_take_bit_eq by (simp add: take_bit_eq_mod)
qed

lemma tcb_all_fields:
  "t\<lparr>OSTCBStkPtr := ptos, OSTCBPrio := prio, OSTCBStat := stat, OSTCBDly := dly, OSTCBExtPtr := pext,
     OSTCBStkSize := n, OSTCBStkBottom := pbos, OSTCBOpt := opt, OSTCBId := tid, OSTCBDelReq := del,
     OSTCBY := y, OSTCBBitY := bity, OSTCBX := x, OSTCBBitX := bitx, OSTCBEventPtr := pevent,
     OSTCBMsg := msg, OSTCBNext := nxt, OSTCBPrev := prv\<rparr>
   = \<lparr>OSTCBStkPtr = ptos, OSTCBExtPtr = pext, OSTCBStkBottom = pbos, OSTCBStkSize = n,
      OSTCBOpt = opt, OSTCBId = tid, OSTCBNext = nxt, OSTCBPrev = prv, OSTCBEventPtr = pevent,
      OSTCBMsg = msg, OSTCBDly = dly, OSTCBStat = stat, OSTCBPrio = prio,
      OSTCBX = x, OSTCBY = y, OSTCBBitX = bitx, OSTCBBitY = bity, OSTCBDelReq = del\<rparr>"
  by (cases t) simp

lemma new_tcb_fields: "prio_fields (new_tcb prio ptos pbos tid n pext opt nxt) (unat prio)"
  by (simp add: prio_fields_def new_tcb_def prio_yx)

lemma new_tcb_ok:
  assumes "unat prio \<in> prio_members m"
  shows "task_ok m E (unat prio) (new_tcb prio ptos pbos tid n pext opt nxt)"
  using assms new_tcb_fields unfolding task_ok_def
  by (simp add: new_tcb_def link_bit_def suspended_def stat_defs)


lemma OSTCBInit_none: "OSTCBFreeList s = PNull \<Longrightarrow>
    OSTCBInit prio ptos pbos tid n pext opt s = Some (OS_NO_MORE_TCB, s)"
  by (simp add: OSTCBInit_def)

lemma OSTCBInit_post:
  assumes L: "tlinks (OSTCBTbl s) (OSTCBList s) (OSTCBFreeList s) xs (i # ys)"
    and p: "unat prio \<le> OS_LOWEST_PRIO" and W: "prio_map_ok (rdy s)"
  obtains r T' where "OSTCBInit prio ptos pbos tid n pext opt s
      = Some (OS_NO_ERR, set_rdy r (s\<lparr>OSTCBFreeList := OSTCBNext (OSTCBTbl s i),
          OSTCBPrioTbl := (OSTCBPrioTbl s)(unat prio := PTcb i), OSTCBTbl := T', OSTCBList := PTcb i\<rparr>))"
    and "prio_map_ok r" and "prio_members r = insert (unat prio) (ready s)"
    and "T' i = new_tcb prio ptos pbos tid n pext opt (OSTCBList s)"
    and "relinked ((OSTCBTbl s)(i := T' i)) T'"
    and "tlinks T' (PTcb i) (OSTCBNext (OSTCBTbl s i)) (i # xs) ys"
proof -
  let ?T = "OSTCBTbl s" and ?t = "new_tcb prio ptos pbos tid n pext opt (OSTCBList s)"
  have c: "tcb_chain ?T (OSTCBList s) xs" "back_links ?T PNull xs" and f: "OSTCBFreeList s = PTcb i"
    and fc: "tcb_chain ?T (OSTCBNext (?T i)) ys"
    and d: "distinct (xs @ i # ys)" and st: "set (xs @ i # ys) = {..< N_TCB}"
    using L by (simp_all add: tlinks_def)
  have lt0: "j \<in> set (xs @ i # ys) \<Longrightarrow> j < N_TCB" for j unfolding st by simp
  have iN: "i < N_TCB" by (rule lt0) simp
  have hN: "hd xs < N_TCB" "hd xs \<noteq> i" if "xs \<noteq> []"
    using lt0 [of "hd xs"] that d by (auto dest: hd_in_set)
  let ?T' = "if xs = [] then ?T(i := ?t) else ?T(i := ?t, hd xs := (?T (hd xs))\<lparr>OSTCBPrev := PTcb i\<rparr>)"
  let ?s = "s\<lparr>OSTCBFreeList := OSTCBNext (?T i), OSTCBPrioTbl := (OSTCBPrioTbl s)(unat prio := PTcb i),
              OSTCBTbl := ?T', OSTCBList := PTcb i\<rparr>"
  have ti: "?T' i = ?t" using hN(2) by auto
  have W': "prio_map_ok (rdy ?s)" using W by simp
  obtain r where r: "rdy_enter ?t ?s = Some (set_rdy r ?s)" "prio_map_ok r"
      "prio_members r = insert (unat prio) (ready ?s)"
    using rdy_enter_ok [OF new_tcb_fields p W'] .
  have r3: "prio_members r = insert (unat prio) (ready s)" using r(3) by simp
  have "unat prio < 64" using p lowest_prio_bounds(2) by linarith
  then have m: "map_tbl (unat prio div 8) = Some (2 ^ (unat prio div 8))"
      "map_tbl (unat prio mod 8) = Some (2 ^ (unat prio mod 8))"
    by (simp_all add: map_tbl_eq)
  have lst: "OSTCBList s = (if xs = [] then PNull else PTcb (hd xs))"
    using c(1) by (cases xs) auto
  have "OSTCBInit prio ptos pbos tid n pext opt s = Some (OS_NO_ERR, set_rdy r ?s)"
  proof (cases "xs = []")
    case True
    then show ?thesis using r(1) m f iN p lst
      by (simp add: OSTCBInit_def Let_def prio_yx prio_at_def put_prio_def new_tcb_def tcb_all_fields)
  next
    case False
    then show ?thesis using r(1) m f iN p lst hN
      by (simp add: OSTCBInit_def Let_def prio_yx prio_at_def put_prio_def new_tcb_def tcb_all_fields fun_upd_twist)
  qed
  moreover have "relinked (?T(i := ?T' i)) ?T'"
    unfolding ti using hN by (auto simp: relinked_def)
  moreover have "tlinks ?T' (PTcb i) (OSTCBNext (?T i)) (i # xs) ys"
    using ti hN(2) by (intro tlinks_front [OF L]) (simp_all add: new_tcb_def)
  ultimately show thesis using that r(2) r3 ti by blast
qed

section \<open>Creation\<close>

text \<open>What both create functions do from \<open>OSTCBInit\<close> on, once the stack is prepared.\<close>

lemma stable_sched:
  assumes "kinv s" and "tinv s" and "cur_ok s \<or> unlocked s \<and> OSPrioCur s \<noteq> of_nat (highest_ready s)"
  obtains s' where "OSSched s = Some s'" and "same_but_sched s s'" and "stable s'"
proof -
  obtain s' where s': "OSSched s = Some s'" "same_but_sched s s'" "kinv s'" "cur_ok s'"
    "unlocked s \<longrightarrow> unat (OSPrioCur s') = highest_ready s"
    using OSSched_post [OF assms(1)] assms(3) by blast
  moreover have "stable s'"
    using s' assms(2) same_but_sched_tinv same_but_sched_unlocked same_but_sched_highest
    by (simp add: stable_def)
  ultimately show thesis using that by blast
qed

lemma create_added:
  assumes K: "kinv s" and T: "tlists s xs (i # ys)" and p: "p \<le> OS_LOWEST_PRIO" "OSTCBPrioTbl s p = PNull"
    and s': "OSTCBPrioTbl s' = (OSTCBPrioTbl s)(p := PTcb i)" "OSEventTbl_g s' = OSEventTbl_g s"
      "OSTCBList s' = PTcb i" "OSTCBFreeList s' = OSTCBNext (OSTCBTbl s i)"
    and r: "prio_map_ok (rdy s')" "ready s' = insert p (ready s)"
    and t: "task_ok (rdy s') (OSEventTbl_g s) p (OSTCBTbl s' i)" "OSTCBEventPtr (OSTCBTbl s' i) = PNull"
    and L: "relinked ((OSTCBTbl s)(i := OSTCBTbl s' i)) (OSTCBTbl s')"
      "tlinks (OSTCBTbl s') (PTcb i) (OSTCBNext (OSTCBTbl s i)) (i # xs) ys"
  shows "kinv s'" and "tinv s'" and "live s' q j \<longleftrightarrow> live s q j \<or> q = p \<and> j = i"
proof -
  have lk: "tlinks (OSTCBTbl s) (OSTCBList s) (OSTCBFreeList s) xs (i # ys)"
    and xl: "\<And>j. j \<in> set xs \<longleftrightarrow> (\<exists>q. live s q j)" "xs \<noteq> []" "live s OS_IDLE_PRIO (last xs)"
    using T by (auto simp: tlists_links)
  have "i \<notin> set xs" and "i \<in> set (xs @ i # ys)" "set (xs @ i # ys) = {..< N_TCB}"
    using lk by (auto simp: tlinks_def)
  then have iN: "i < N_TCB" and fresh: "\<not> live s q i" for q using xl(1) by auto
  then have pf: "OSTCBPrioTbl s q \<noteq> PTcb i" if "q \<le> OS_LOWEST_PRIO" for q
    using that unfolding live_def by blast
  have nw: "p \<notin> waiters s e" if "e < OS_MAX_EVENTS" for e
    using kinvD_waiters [OF K that, of p] p(2) by (auto simp: live_def)
  have "kinv_of (rdy s') ((OSTCBPrioTbl s)(p := PTcb i)) ((OSTCBTbl s)(i := OSTCBTbl s' i)) (OSEventTbl_g s)"
    using r t iN pf nw kinvD_wait [OF K]
    by (intro kinv_of_add [OF K [unfolded kinv_def] p(1)]) (auto simp: p(2))
  then show "kinv s'" using kinv_of_relinked [OF L(1)] s'(1,2) by (simp add: kinv_def)
  show lv: "live s' q j \<longleftrightarrow> live s q j \<or> q = p \<and> j = i" for q j
    using p iN s'(1) by (auto simp: live_def)
  have "tlists s' (i # xs) ys"
    using L(2) s'(3,4) xl by (auto simp: tlists_links lv)
  then show "tinv s'" unfolding tinv_def by blast
qed

lemma create_common:
  assumes S: "stable s" and run: "OSRunning s \<noteq> 0" and p: "unat prio \<le> OS_LOWEST_PRIO"
    and free: "OSTCBPrioTbl s (unat prio) = PNull"
    and s2_def: "s2 = (put_prio prio POne s)\<lparr>mem_stk := m\<rparr>"
  obtains (full) "OSTCBFreeList s = PNull"
      "Option.bind (OSTCBInit prio psp pbos tid n pext opt s2) (\<lambda>(err, s3). create_tail prio err s3)
        = Some (OS_NO_MORE_TCB, s\<lparr>mem_stk := m\<rparr>)"
  | (made) s' i where "OSTCBFreeList s = PTcb i"
      and "Option.bind (OSTCBInit prio psp pbos tid n pext opt s2) (\<lambda>(err, s3). create_tail prio err s3)
        = Some (OS_NO_ERR, s')"
      and "stable s'" and "\<forall>q j. live s' q j \<longleftrightarrow> live s q j \<or> q = unat prio \<and> j = i"
      and "ready s' = insert (unat prio) (ready s)" and "OSEventTbl_g s' = OSEventTbl_g s"
      and "OSTCBTbl s' i = new_tcb prio psp pbos tid n pext opt (OSTCBList s)"
      and "relinked ((OSTCBTbl s)(i := OSTCBTbl s' i)) (OSTCBTbl s')"
      and "OSTaskCtr s' = OSTaskCtr s + 1" and "mem_stk s' = m" and "unlocked s' = unlocked s"
proof -
  have K: "kinv s" and TI: "tinv s" and CO: "cur_ok s" using S by (auto simp: stable_def)
  obtain xs ys where T: "tlists s xs ys" using TI by (auto simp: tinv_def)
  have s2: "OSTCBTbl s2 = OSTCBTbl s" "OSTCBList s2 = OSTCBList s" "OSTCBFreeList s2 = OSTCBFreeList s"
    "rdy s2 = rdy s"
    by (simp_all add: s2_def put_prio_def)
  show thesis
  proof (cases ys)
    case Nil
    then have f: "OSTCBFreeList s = PNull" using T by (simp add: tlists_def)
    have "(OSTCBPrioTbl s)(unat prio := PNull) = OSTCBPrioTbl s" using free by (simp add: fun_upd_idem)
    then have "put_prio prio PNull s2 = s\<lparr>mem_stk := m\<rparr>" by (simp add: s2_def put_prio_def)
    with f full show thesis
      using OSTCBInit_none [of s2] s2(3) by (simp add: create_tail_def err_defs)
  next
    case (Cons i zs)
    have f: "OSTCBFreeList s = PTcb i" using T Cons by (simp add: tlists_def)
    have lk: "tlinks (OSTCBTbl s2) (OSTCBList s2) (OSTCBFreeList s2) xs (i # zs)"
      using T Cons s2 by (simp add: tlists_links)
    have W: "prio_map_ok (rdy s2)" using kinvD_rdy [OF K] s2(4) by simp
    obtain r T' where r: "OSTCBInit prio psp pbos tid n pext opt s2
      = Some (OS_NO_ERR, set_rdy r (s2\<lparr>OSTCBFreeList := OSTCBNext (OSTCBTbl s2 i),
          OSTCBPrioTbl := (OSTCBPrioTbl s2)(unat prio := PTcb i), OSTCBTbl := T', OSTCBList := PTcb i\<rparr>))"
      "prio_map_ok r" "prio_members r = insert (unat prio) (ready s2)"
      "T' i = new_tcb prio psp pbos tid n pext opt (OSTCBList s2)"
      "relinked ((OSTCBTbl s2)(i := T' i)) T'"
      "tlinks T' (PTcb i) (OSTCBNext (OSTCBTbl s2 i)) (i # xs) zs"
      using OSTCBInit_post [OF lk p W, of psp pbos tid n pext opt] .
    let ?s3 = "set_rdy r (s2\<lparr>OSTCBFreeList := OSTCBNext (OSTCBTbl s2 i),
          OSTCBPrioTbl := (OSTCBPrioTbl s2)(unat prio := PTcb i), OSTCBTbl := T', OSTCBList := PTcb i\<rparr>)"
    let ?s4 = "?s3\<lparr>OSTaskCtr := OSTaskCtr s + 1\<rparr>"
    have P4: "OSTCBPrioTbl ?s4 = (OSTCBPrioTbl s)(unat prio := PTcb i)" by (simp add: s2_def put_prio_def)
    have eq4: "OSEventTbl_g ?s4 = OSEventTbl_g s" "OSTCBList ?s4 = PTcb i"
      "OSTCBFreeList ?s4 = OSTCBNext (OSTCBTbl s i)" "rdy ?s4 = r" "OSTCBTbl ?s4 = T'"
      by (simp_all add: s2_def put_prio_def)
    have m4: "unat prio \<in> prio_members r" using r(3) by simp
    note add = create_added [OF K T [unfolded Cons] p free P4 eq4(1-3)]
    have K4: "kinv ?s4" and T4: "tinv ?s4"
      and lv: "\<And>q j. live ?s4 q j \<longleftrightarrow> live s q j \<or> q = unat prio \<and> j = i"
      using add r(2-6) s2 new_tcb_ok [OF m4]
      by (simp_all add: eq4(4,5) new_tcb_def del: fun_upd_apply)
    have "cur_ok ?s4" using CO lv by (auto simp: cur_ok_def s2_def put_prio_def)
    then obtain s5 where s5: "OSSched ?s4 = Some s5" "same_but_sched ?s4 s5" "stable s5"
      using stable_sched [OF K4 T4] by blast
    note fr = same_but_sched_frame [OF s5(2)]
    have bd: "Option.bind (OSTCBInit prio psp pbos tid n pext opt s2) (\<lambda>(err, s3). create_tail prio err s3)
        = Some (OS_NO_ERR, s5)"
      using r(1) s5(1) run p
      by (simp add: create_tail_def OSTaskCreateHook_def prio_at_def s2_def put_prio_def)
    show thesis
    proof (rule made [OF f bd s5(3)])
      show "\<forall>q j. live s5 q j \<longleftrightarrow> live s q j \<or> q = unat prio \<and> j = i"
        using lv same_but_sched_live [OF s5(2)] by blast
      show "ready s5 = insert (unat prio) (ready s)" using r(3) s2(4) fr(1) by (simp add: eq4(4))
      show "OSEventTbl_g s5 = OSEventTbl_g s" using fr(4) eq4(1) by simp
      show "OSTCBTbl s5 i = new_tcb prio psp pbos tid n pext opt (OSTCBList s)"
        using fr(3) eq4(5) r(4) s2(2) by simp
      show "relinked ((OSTCBTbl s)(i := OSTCBTbl s5 i)) (OSTCBTbl s5)"
        using fr(3) eq4(5) r(5) s2(1) by simp
      show "OSTaskCtr s5 = OSTaskCtr s + 1" using fr(17) by simp
      show "mem_stk s5 = m" using fr(16) by (simp add: s2_def)
      show "unlocked s5 = unlocked s"
        using same_but_sched_unlocked [OF s5(2)] by (simp add: unlocked_def s2_def put_prio_def)
    qed
  qed
qed

section \<open>Stacks\<close>

lemma stk_fill_ok:
  assumes "unat i + d = n" and "n < 65536"
  shows "stk_fill i (of_nat n) a m = Some (\<lambda>x. if \<exists>k < d. x = a + 2 * int k then 0 else m x)"
  using assms(1)
proof (induction d arbitrary: i a m)
  case 0
  have "unat (ucast i :: INT32U) = unat i" by (rule unat_ucast_16_32)
  moreover have "unat (of_nat n :: INT32U) = n" using assms(2)
    by (simp add: unsigned_of_nat take_bit_nat_eq_self)
  ultimately have "\<not> (ucast i :: INT32U) < of_nat n" using 0 by (simp add: word_less_nat_alt)
  then show ?case by (subst stk_fill.simps) simp
next
  case (Suc d)
  have u: "unat (ucast i :: INT32U) = unat i" by (rule unat_ucast_16_32)
  have "unat (of_nat n :: INT32U) = n" using assms(2)
    by (simp add: unsigned_of_nat take_bit_nat_eq_self)
  with u Suc.prems have lt: "(ucast i :: INT32U) < of_nat n" by (simp add: word_less_nat_alt)
  have "unat i < 65535" using Suc.prems assms(2) by simp
  then have "unat (i + 1) + d = n" using Suc.prems by (simp add: unat_word_ariths)
  note IH = Suc.IH [OF this, of "a + 2" "m(a := 0)"]
  have e: "(\<exists>k < Suc d. x = a + 2 * int k) \<longleftrightarrow> x = a \<or> (\<exists>k < d. x = a + 2 + 2 * int k)" for x
  proof -
    have "(\<exists>k < Suc d. x = a + 2 * int k) \<longleftrightarrow> x = a + 2 * int 0 \<or> (\<exists>k < d. x = a + 2 * int (Suc k))"
      by (rule Ex_less_Suc2)
    then show ?thesis by (simp add: algebra_simps)
  qed
  have "stk_fill i (of_nat n) a m = stk_fill (i + 1) (of_nat n) (a + 2) (m(a := 0))"
    using lt by (subst stk_fill.simps) simp
  also have "\<dots> = Some (\<lambda>x. if \<exists>k < Suc d. x = a + 2 * int k then 0 else m x)"
    unfolding IH e by (auto simp: fun_eq_iff)
  finally show ?case .
qed

text \<open>With a size of 65536 or more the loop never ends: the counter wraps around first.\<close>

lemma stk_fill_Some_small:
  assumes "stk_fill i n a m = Some r"
  shows "unat n < 65536"
proof (rule stk_fill.raw_induct [OF _ assms, where P = "\<lambda>i n a m r. unat n < 65536"])
  fix rec and i :: INT16U and n :: INT32U and a m r
  assume IH: "\<And>i n a m r. rec i n a m = Some r \<Longrightarrow> unat n < 65536"
    and eq: "(if ucast i < n then rec (i + 1) n (a + 2) (m(a := 0)) else Some m) = Some r"
  show "unat n < 65536"
  proof (cases "ucast i < n")
    case True
    then show ?thesis using IH eq by simp
  next
    case False
    have "unat (ucast i :: INT32U) = unat i" by (rule unat_ucast_16_32)
    moreover have "unat i < 65536" using unsigned_less [of i, where ?'a = nat] by simp
    ultimately show ?thesis using False by (simp add: word_less_nat_alt)
  qed
qed

lemma stk_fill_None: "unat n \<ge> 65536 \<Longrightarrow> stk_fill i n a m = None"
  using stk_fill_Some_small by (metis not_Some_eq linorder_not_le)

lemma stk_scan_ok:
  "(\<And>j. j < k \<Longrightarrow> m (a + 2 * int j) = 0) \<Longrightarrow> m (a + 2 * int k) \<noteq> 0 \<Longrightarrow>
   stk_scan a n m = Some (n + of_nat k)"
proof (induction k arbitrary: a n)
  case 0
  then show ?case by (subst stk_scan.simps) simp
next
  case (Suc k)
  have "m a = 0" using Suc.prems(1) [of 0] by simp
  then have "stk_scan a n m = stk_scan (a + 2) (n + 1) m" by (subst stk_scan.simps) simp
  also have "\<dots> = Some (n + 1 + of_nat k)"
  proof (rule Suc.IH)
    show "m (a + 2 + 2 * int j) = 0" if "j < k" for j
      using Suc.prems(1) [of "Suc j"] that by (simp add: algebra_simps)
    show "m (a + 2 + 2 * int k) \<noteq> 0" using Suc.prems(2) by (simp add: algebra_simps)
  qed
  finally show ?case by simp
qed

text \<open>The frame has 17 entries, below the address given as the top of the stack.\<close>

lemma OSTaskStkInit_eq:
  "OSTaskStkInit c task pdata (PAddr a) opt s
    = Some (PAddr (a - 32), s\<lparr>mem_stk := snd (stk_push a (stk_frame c task pdata) (mem_stk s))\<rparr>)"
  by (simp add: OSTaskStkInit_def stk_frame_def)

lemma stk_push_frame:
  assumes m'_def: "m' = snd (stk_push a (stk_frame c task pdata) m)"
  shows "m' (a - 32) = DS_reg c" "x < a - 32 \<Longrightarrow> m' x = m x"
  by (simp_all add: m'_def stk_frame_def)

section \<open>Properties of creation\<close>

lemma stable_mem_stk [simp]: "stable (s\<lparr>mem_stk := m\<rparr>) = stable s"
  using kinv_frame [of "s\<lparr>mem_stk := m\<rparr>" s] tinv_frame [of "s\<lparr>mem_stk := m\<rparr>" s]
  by (simp add: stable_def cur_ok_def live_def unlocked_def highest_ready_def)

lemma OSTaskCreate_ok:
  assumes "stable s" and "OSRunning s \<noteq> 0"
  shows "\<exists>err s'. OSTaskCreate c task pdata (PAddr a) prio s = Some (err, s') \<and> stable s' \<and>
    (if unat prio > OS_LOWEST_PRIO then err = OS_PRIO_INVALID \<and> s' = s
     else if OSTCBPrioTbl s (unat prio) \<noteq> PNull then err = OS_PRIO_EXIST \<and> s' = s
     else if OSTCBFreeList s = PNull then err = OS_NO_MORE_TCB \<and> s' = s\<lparr>mem_stk := mem_stk s'\<rparr>
     else err = OS_NO_ERR \<and> (\<exists>i. OSTCBFreeList s = PTcb i
       \<and> OSTCBTbl s' i = new_tcb prio (PAddr (a - 32)) PNull 0 0 PNull 0 (OSTCBList s)
       \<and> (\<forall>q j. live s' q j \<longleftrightarrow> live s q j \<or> q = unat prio \<and> j = i)
       \<and> ready s' = insert (unat prio) (ready s) \<and> OSEventTbl_g s' = OSEventTbl_g s
       \<and> relinked ((OSTCBTbl s)(i := OSTCBTbl s' i)) (OSTCBTbl s') \<and> OSTaskCtr s' = OSTaskCtr s + 1
       \<and> unlocked s' = unlocked s))"
proof (cases "unat prio > OS_LOWEST_PRIO \<or> OSTCBPrioTbl s (unat prio) \<noteq> PNull")
  case True
  then show ?thesis using assms(1) by (auto simp: OSTaskCreate_def prio_at_def)
next
  case False
  then have p: "unat prio \<le> OS_LOWEST_PRIO" "OSTCBPrioTbl s (unat prio) = PNull" by auto
  let ?m = "snd (stk_push a (stk_frame c task pdata) (mem_stk s))"
  have "mem_stk (put_prio prio POne s) = mem_stk s" by (simp add: put_prio_def)
  then have e: "OSTaskCreate c task pdata (PAddr a) prio s
    = Option.bind (OSTCBInit prio (PAddr (a - 32)) PNull 0 0 PNull 0 ((put_prio prio POne s)\<lparr>mem_stk := ?m\<rparr>))
        (\<lambda>(err, s3). create_tail prio err s3)"
    using p by (simp add: OSTaskCreate_def prio_at_def OSTaskStkInit_eq)
  show ?thesis
  proof (rule create_common [OF assms p refl])
    assume "OSTCBFreeList s = PNull" "Option.bind (OSTCBInit prio (PAddr (a - 32)) PNull 0 0 PNull 0
        ((put_prio prio POne s)\<lparr>mem_stk := ?m\<rparr>)) (\<lambda>(err, s3). create_tail prio err s3)
      = Some (OS_NO_MORE_TCB, s\<lparr>mem_stk := ?m\<rparr>)"
    then show ?thesis using False assms(1) e by (intro exI [of _ OS_NO_MORE_TCB] exI [of _ "s\<lparr>mem_stk := ?m\<rparr>"]) simp
  next
    fix s' i
    assume "OSTCBFreeList s = PTcb i" "Option.bind (OSTCBInit prio (PAddr (a - 32)) PNull 0 0 PNull 0
        ((put_prio prio POne s)\<lparr>mem_stk := ?m\<rparr>)) (\<lambda>(err, s3). create_tail prio err s3) = Some (OS_NO_ERR, s')"
      "stable s'" "\<forall>q j. live s' q j \<longleftrightarrow> live s q j \<or> q = unat prio \<and> j = i"
      "ready s' = insert (unat prio) (ready s)" "OSEventTbl_g s' = OSEventTbl_g s"
      "OSTCBTbl s' i = new_tcb prio (PAddr (a - 32)) PNull 0 0 PNull 0 (OSTCBList s)"
      "relinked ((OSTCBTbl s)(i := OSTCBTbl s' i)) (OSTCBTbl s')" "OSTaskCtr s' = OSTaskCtr s + 1"
      "unlocked s' = unlocked s"
    then show ?thesis using False e
      by (intro exI [of _ OS_NO_ERR] exI [of _ s']) (simp del: fun_upd_apply)
  qed
qed


definition sample_cpu :: cpu where
  "sample_cpu = \<lparr>FP_SEG = (\<lambda>p. 1), FP_OFF = (\<lambda>p. 2), DS_reg = 3\<rparr>"


text \<open>A task created with stack checking and a cleared stack of \<open>n\<close> entries, at least the 17 of
  its first frame and fewer than 65536, is found by \<open>OSTaskStkChk\<close> to use exactly those 17
  entries: the checker reports \<open>2 (n - 17)\<close> free bytes and 34 used ones. (It counts the zero
  entries below the first that is not zero, so the data segment must not be 0.)\<close>
theorem created_stack_is_checked:
  assumes "stable s" and "OSRunning s \<noteq> 0" and "unat prio \<le> OS_LOWEST_PRIO"
    and "OSTCBPrioTbl s (unat prio) = PNull" and "OSTCBFreeList s \<noteq> PNull"
    and "opt AND OS_TASK_OPT_STK_CHK \<noteq> 0" and "opt AND OS_TASK_OPT_STK_CLR \<noteq> 0"
    and "17 \<le> n" and "n < 65536" and "DS_reg c \<noteq> 0"
  shows "\<exists>s'. OSTaskCreateExt c task pdata (PAddr (b + 2 * (int n - 1))) prio tid (PAddr b) (of_nat n) pext opt s
      = Some (OS_NO_ERR, s') \<and> stable s'
    \<and> OSTaskStkChk prio d s' = Some (OS_NO_ERR, d\<lparr>OSFree := of_nat (2 * (n - 17)), OSUsed := 34\<rparr>)"
proof -
  note p = assms(3,4)
  let ?a = "b + 2 * (int n - 1)"
  let ?z = "\<lambda>x. if \<exists>k < n. x = b + 2 * int k then 0 else mem_stk s x"
  let ?m = "snd (stk_push ?a (stk_frame c task pdata) ?z)"
  have m0: "mem_stk (put_prio prio POne s) = mem_stk s" by (simp add: put_prio_def)
  have "stk_fill 0 (of_nat n) b (mem_stk s) = Some ?z"
    using assms(9) by (intro stk_fill_ok) simp_all
  then have e: "OSTaskCreateExt c task pdata (PAddr ?a) prio tid (PAddr b) (of_nat n) pext opt s
    = Option.bind (OSTCBInit prio (PAddr (?a - 32)) (PAddr b) tid (ucast (of_nat n :: INT32U)) pext opt
          ((put_prio prio POne s)\<lparr>mem_stk := ?m\<rparr>)) (\<lambda>(err, s3). create_tail prio err s3)"
    using p assms(6,7) m0 by (simp add: OSTaskCreateExt_def prio_at_def OSTaskStkInit_eq stk_clear_def)
  obtain s' i where s': "OSTCBFreeList s = PTcb i" "Option.bind (OSTCBInit prio (PAddr (?a - 32)) (PAddr b) tid
        (ucast (of_nat n :: INT32U)) pext opt ((put_prio prio POne s)\<lparr>mem_stk := ?m\<rparr>))
      (\<lambda>(err, s3). create_tail prio err s3) = Some (OS_NO_ERR, s')"
      "stable s'" "\<forall>q j. live s' q j \<longleftrightarrow> live s q j \<or> q = unat prio \<and> j = i"
      "OSTCBTbl s' i = new_tcb prio (PAddr (?a - 32)) (PAddr b) tid (ucast (of_nat n :: INT32U)) pext opt (OSTCBList s)"
      "mem_stk s' = ?m"
  proof (rule create_common [OF assms(1-4) refl, where m = ?m and psp = "PAddr (?a - 32)" and pbos = "PAddr b"
        and tid = tid and n = "ucast (of_nat n :: INT32U)" and pext = pext and opt = opt])
    assume "OSTCBFreeList s = PNull"
    with assms(5) show thesis by simp
  qed (rule that)
  have L: "live s' (unat prio) i" using s'(4) by simp
  have bot: "?m (b + 2 * int (n - 17)) = DS_reg c"
  proof -
    have "b + 2 * int (n - 17) = ?a - 32" using assms(8) by (simp add: of_nat_diff)
    then show ?thesis using stk_push_frame(1) [OF refl, of ?a c task pdata ?z] by (simp only:)
  qed
  have low: "?m (b + 2 * int j) = 0" if "j < n - 17" for j
  proof -
    have "b + 2 * int j < ?a - 32" using that by simp
    then have "?m (b + 2 * int j) = ?z (b + 2 * int j)" by (rule stk_push_frame(2) [OF refl])
    also have "\<dots> = 0" using that by (auto intro: exI [of _ j])
    finally show ?thesis .
  qed
  have scan: "stk_scan b 0 ?m = Some (of_nat (n - 17))"
    using stk_scan_ok [of "n - 17" ?m b 0] low bot assms(10) by simp
  have sz: "ucast (ucast (of_nat n :: INT32U) :: INT16U) = (of_nat n :: INT32U)"
    using assms(9)
    by (intro unsigned_word_eqI [where 'a = nat])
      (simp add: unat_ucast_16_32 unsigned_ucast_eq unsigned_of_nat take_bit_nat_eq_self)
  have self: "prio \<noteq> OS_PRIO_SELF" using p(1) by (auto simp: config_defs)
  have "OSTaskStkChk prio d s'
    = Some (OS_NO_ERR, d\<lparr>OSFree := of_nat (n - 17) * 2, OSUsed := (of_nat n - of_nat (n - 17)) * 2\<rparr>)"
    using L p(1) self assms(6) s'(5,6) scan sz
    by (simp add: OSTaskStkChk_def self_prio_def prio_at_def live_def new_tcb_def)
  moreover have "(of_nat (n - 17) * 2 :: INT32U) = of_nat (2 * (n - 17))" by simp
  moreover have "((of_nat n :: INT32U) - of_nat (n - 17)) * 2 = 34" using assms(8) by (simp add: of_nat_diff)
  ultimately have "OSTaskStkChk prio d s' = Some (OS_NO_ERR, d\<lparr>OSFree := of_nat (2 * (n - 17)), OSUsed := 34\<rparr>)"
    by (simp only:)
  moreover have "OSTaskCreateExt c task pdata (PAddr ?a) prio tid (PAddr b) (of_nat n) pext opt s
      = Some (OS_NO_ERR, s')"
    unfolding e by (rule s'(2))
  ultimately show ?thesis using s'(3) by blast
qed


theorem created_stack_is_checked_witness:
  "\<exists>s'. OSTaskCreateExt sample_cpu (PAddr 64) (PAddr 96) (PAddr 6022) 6 9 (PAddr 5000)
       512 PNull 3 sample = Some (OS_NO_ERR, s')
     \<and> OSTaskStkChk 6 \<lparr>OSFree = 0, OSUsed = 0\<rparr> s' = Some (OS_NO_ERR, \<lparr>OSFree = 990, OSUsed = 34\<rparr>)"
proof -
  have r: "OSRunning sample \<noteq> 0" "unat (6 :: INT8U) \<le> OS_LOWEST_PRIO"
    "OSTCBPrioTbl sample (unat (6 :: INT8U)) = PNull" "OSTCBFreeList sample \<noteq> PNull"
    "(3 :: INT16U) AND OS_TASK_OPT_STK_CHK \<noteq> 0" "(3 :: INT16U) AND OS_TASK_OPT_STK_CLR \<noteq> 0"
    by code_simp+
  have n: "(17 :: nat) \<le> 512" "(512 :: nat) < 65536"
    "DS_reg sample_cpu \<noteq> 0"
    by (simp_all add: sample_cpu_def)
  from created_stack_is_checked [OF sample_stable r n, of "PAddr 64" "PAddr 96" 5000 9 PNull "\<lparr>OSFree = 0, OSUsed = 0\<rparr>"]
  show ?thesis by auto
qed

text \<open>Whether \<open>OSTaskCreateExt\<close> returns at all when it clears the stack depends on the size only:
  with fewer than 65536 entries the clearing loop ends, and with more it never does, because its
  16-bit counter wraps around below the 32-bit size.\<close>
theorem clear_loop_ends:
  "stk_clear (PAddr b) stk_size s =
     (if unat stk_size < 65536
      then Some (s\<lparr>mem_stk := (\<lambda>x. if \<exists>k < unat stk_size. x = b + 2 * int k then 0 else mem_stk s x)\<rparr>)
      else None)"
proof (cases "unat stk_size < 65536")
  case True
  have "(of_nat (unat stk_size) :: INT32U) = stk_size" by simp
  with True stk_fill_ok [of 0 "unat stk_size" "unat stk_size" b "mem_stk s"] show ?thesis
    by (simp add: stk_clear_def)
next
  case False
  then show ?thesis using stk_fill_None [of stk_size 0 b "mem_stk s"] by (simp add: stk_clear_def)
qed

section \<open>Deletion\<close>

lemma self_prio_ok:
  assumes "kinv s" and "live s p i" and "unat prio = p \<or> prio = OS_PRIO_SELF \<and> OSTCBCur s = PTcb i"
  obtains w where "self_prio prio s = Some w" and "unat w = p"
proof (cases "prio = OS_PRIO_SELF")
  case True
  have "p < 255" using assms(2) by (simp add: live_def config_defs)
  with True assms(3) have "OSTCBCur s = PTcb i" by (auto simp: OS_PRIO_SELF_def)
  with True assms(2) that [of "OSTCBPrio (OSTCBTbl s i)"] live_prio [OF assms(1,2)] show thesis
    by (simp add: self_prio_def live_def prio_fields_def)
next
  case False
  with assms(3) that [of prio] show thesis by (simp add: self_prio_def)
qed

text \<open>The first half: the task can no longer become ready.\<close>

lemma del_disable_post:
  assumes K: "kinv s" and L: "live s p i"
  obtains r E' where "del_disable (PTcb i) s = Some (set_rdy r (s\<lparr>OSEventTbl_g := E',
      OSTCBTbl := (OSTCBTbl s)(i := (OSTCBTbl s i)\<lparr>OSTCBDly := 0, OSTCBStat := OS_STAT_RDY\<rparr>),
      OSLockNesting := OSLockNesting s + 1\<rparr>))"
    and "prio_map_ok r" and "prio_members r = ready s - {p}"
    and "\<forall>e < OS_MAX_EVENTS. prio_map_ok (waiting (E' e)) \<and> waiters_in E' e = waiters s e - {p}"
    and "\<forall>e. OSEventType (E' e) = OSEventType (OSEventTbl_g s e) \<and> OSEventCnt (E' e) = OSEventCnt (OSEventTbl_g s e)
      \<and> OSEventPtr (E' e) = OSEventPtr (OSEventTbl_g s e)"
proof -
  let ?t = "OSTCBTbl s i"
  have iN: "i < N_TCB" and pL: "p \<le> OS_LOWEST_PRIO" using L by (auto simp: live_def)
  note f = live_prio [OF K L]
  obtain r where r: "rdy_remove ?t s = Some (set_rdy r s)" "prio_map_ok r" "prio_members r = ready s - {p}"
    using rdy_remove_ok [OF f pL kinvD_rdy [OF K]] .
  show thesis
  proof (cases "OSTCBEventPtr ?t = PNull")
    case True
    have nw: "p \<notin> waiters s e" if "e < OS_MAX_EVENTS" for e
      using waits_for_one [OF K L that] True by auto
    show thesis
    proof (rule that [of r "OSEventTbl_g s"])
      show "\<forall>e < OS_MAX_EVENTS. prio_map_ok (waiting (OSEventTbl_g s e)) \<and> waiters s e = waiters s e - {p}"
        using nw kinvD_wait [OF K] by simp
    qed (use True iN r in \<open>simp_all add: del_disable_def Let_def set_rdy_def\<close>)
  next
    case False
    obtain e where e: "e < OS_MAX_EVENTS" "OSTCBEventPtr ?t = PEvent e"
      using False kinvD_task [OF K L] unfolding task_ok_def by blast
    have wf: "prio_map_ok (waiting (OSEventTbl_g (set_rdy r s) e))" using kinvD_wait [OF K e(1)] by simp
    obtain w where w: "wait_remove ?t (PEvent e) (set_rdy r s) = Some ((set_rdy r s)\<lparr>OSEventTbl_g :=
        (OSEventTbl_g (set_rdy r s))(e := set_waiting w (OSEventTbl_g (set_rdy r s) e))\<rparr>)"
      "prio_map_ok w" "prio_members w = waiters (set_rdy r s) e - {p}"
      using wait_remove_ok [OF f pL e(1) wf] .
    let ?E = "(OSEventTbl_g s)(e := set_waiting w (OSEventTbl_g s e))"
    have nw: "p \<notin> waiters s d" if "d < OS_MAX_EVENTS" "d \<noteq> e" for d
      using waits_for_one [OF K L that(1)] e(2) that(2) by auto
    show thesis
    proof (rule that [of r ?E])
      show "\<forall>d < OS_MAX_EVENTS. prio_map_ok (waiting (?E d)) \<and> waiters_in ?E d = waiters s d - {p}"
        using nw w kinvD_wait [OF K] by simp
    qed (use False iN r w(1) e(2) in \<open>simp_all add: del_disable_def Let_def set_rdy_def\<close>)
  qed
qed

lemma deleted_tinv:
  assumes K: "kinv s" and T: "tlists s (as @ i # b # cs) ys" and L: "live s p i" and nid: "p \<noteq> OS_IDLE_PRIO"
    and s': "OSTCBPrioTbl s' = (OSTCBPrioTbl s)(p := PNull)"
      "tlinks (OSTCBTbl s') (OSTCBList s') (OSTCBFreeList s') (as @ b # cs) (i # ys)"
  shows "live s' q j \<longleftrightarrow> live s q j \<and> q \<noteq> p" and "tinv s'"
proof -
  have xl: "\<And>j. j \<in> set (as @ i # b # cs) \<longleftrightarrow> (\<exists>q. live s q j)"
    "live s OS_IDLE_PRIO (last (as @ i # b # cs))"
    using T unfolding tlists_links by blast+
  have d: "distinct (as @ i # b # cs)"
    using T unfolding tlists_links tlinks_def distinct_append [of "as @ i # b # cs"] by blast
  show lv: "live s' q j \<longleftrightarrow> live s q j \<and> q \<noteq> p" for q j using s'(1) by (auto simp: live_def)
  have "j \<in> set (as @ b # cs) \<longleftrightarrow> (\<exists>q. live s' q j)" for j
  proof -
    have "j \<in> set (as @ b # cs) \<longleftrightarrow> j \<in> set (as @ i # b # cs) \<and> j \<noteq> i" using d by auto
    also have "\<dots> \<longleftrightarrow> (\<exists>q. live s q j) \<and> j \<noteq> i" using xl(1) by simp
    also have "\<dots> \<longleftrightarrow> (\<exists>q. live s q j \<and> q \<noteq> p)"
      using L live_inj [OF K L] live_unique by blast
    finally show ?thesis by (simp add: lv)
  qed
  moreover have "last (as @ b # cs) = last (as @ i # b # cs)" by simp
  ultimately have "tlists s' (as @ b # cs) (i # ys)"
    using s'(2) xl(2) nid lv unfolding tlists_links by auto
  then show "tinv s'" unfolding tinv_def by blast
qed


lemma prio_word_unat: "p \<le> OS_LOWEST_PRIO \<Longrightarrow> unat (of_nat p :: INT8U) = p"
  by (simp add: unsigned_of_nat take_bit_nat_eq_self_iff config_defs)

lemma OSTaskDel_post:
  assumes S: "stable s" and I: "OSIntNesting s = 0" and L: "live s p i" and nid: "p \<noteq> OS_IDLE_PRIO"
    and cur: "OSTCBCur s = PTcb i \<Longrightarrow> OSLockNesting s = 0"
    and w: "unat prio = p \<or> prio = OS_PRIO_SELF \<and> OSTCBCur s = PTcb i"
  obtains s' where "OSTaskDel prio s = Some (OS_NO_ERR, s')" and "stable s'"
    and "\<forall>q j. live s' q j \<longleftrightarrow> live s q j \<and> q \<noteq> p" and "ready s' = ready s - {p}"
    and "\<forall>e < OS_MAX_EVENTS. waiters s' e = waiters s e - {p}" and "OSTCBFreeList s' = PTcb i"
    and "relinked ((OSTCBTbl s)(i := (OSTCBTbl s i)\<lparr>OSTCBDly := 0, OSTCBStat := OS_STAT_RDY\<rparr>)) (OSTCBTbl s')"
    and "OSTaskCtr s' = OSTaskCtr s - 1" and "unlocked s' = unlocked s"
    and "\<forall>e. OSEventType (OSEventTbl_g s' e) = OSEventType (OSEventTbl_g s e)
      \<and> OSEventCnt (OSEventTbl_g s' e) = OSEventCnt (OSEventTbl_g s e)
      \<and> OSEventPtr (OSEventTbl_g s' e) = OSEventPtr (OSEventTbl_g s e)"
proof -
  have K: "kinv s" and TI: "tinv s" and CO: "cur_ok s" using S by (auto simp: stable_def)
  have pL: "p < OS_LOWEST_PRIO" "i < N_TCB" "OSTCBPrioTbl s p = PTcb i"
    using L nid by (auto simp: live_def OS_IDLE_PRIO_def)
  obtain v where v: "self_prio prio s = Some v" "unat v = p" using self_prio_ok [OF K L w] .
  have g: "unat prio \<noteq> OS_IDLE_PRIO" "\<not> (unat prio \<ge> OS_LOWEST_PRIO \<and> prio \<noteq> OS_PRIO_SELF)"
    using w nid pL(1) by (auto simp: OS_PRIO_SELF_def OS_IDLE_PRIO_def OS_LOWEST_PRIO_def)
  let ?t = "(OSTCBTbl s i)\<lparr>OSTCBDly := 0, OSTCBStat := OS_STAT_RDY\<rparr>"
  obtain r E' where r: "del_disable (PTcb i) s = Some (set_rdy r (s\<lparr>OSEventTbl_g := E',
      OSTCBTbl := (OSTCBTbl s)(i := ?t), OSLockNesting := OSLockNesting s + 1\<rparr>))"
    "prio_map_ok r" "prio_members r = ready s - {p}"
    "\<forall>e < OS_MAX_EVENTS. prio_map_ok (waiting (E' e)) \<and> waiters_in E' e = waiters s e - {p}"
    "\<forall>e. OSEventType (E' e) = OSEventType (OSEventTbl_g s e) \<and> OSEventCnt (E' e) = OSEventCnt (OSEventTbl_g s e)
      \<and> OSEventPtr (E' e) = OSEventPtr (OSEventTbl_g s e)"
    using del_disable_post [OF K L] .
  let ?s5 = "(set_rdy r (s\<lparr>OSEventTbl_g := E', OSTCBTbl := (OSTCBTbl s)(i := ?t)\<rparr>))
      \<lparr>OSTaskCtr := OSTaskCtr s - 1, OSTCBPrioTbl := (OSTCBPrioTbl s)(p := PNull)\<rparr>"
  obtain xs ys where T: "tlists s xs ys" using TI by (auto simp: tinv_def)
  have ix: "i \<in> set xs" using T L by (auto simp: tlists_links)
  then obtain as bs where xs: "xs = as @ i # bs" by (meson split_list)
  have "bs \<noteq> []"
  proof
    assume "bs = []"
    then have "live s OS_IDLE_PRIO i" using T xs by (simp add: tlists_links)
    then show False using live_inj [OF K L] nid by blast
  qed
  then obtain b cs where bs: "bs = b # cs" by (cases bs) auto
  have T2: "tlists s (as @ i # b # cs) ys" using T xs bs by simp
  have "tlinks ((OSTCBTbl s)(i := ?t)) (OSTCBList s) (OSTCBFreeList s) (as @ i # b # cs) ys"
  proof -
    have "tlists (s\<lparr>OSTCBTbl := (OSTCBTbl s)(i := ?t)\<rparr>) (as @ i # b # cs) ys"
      by (rule tlists_list_frame [OF T2, where i = i and t = ?t]) simp_all
    then show ?thesis by (simp add: tlists_links)
  qed
  then have lk: "tlinks (OSTCBTbl ?s5) (OSTCBList ?s5) (OSTCBFreeList ?s5) (as @ i # b # cs) ys" by simp
  obtain T' l where u: "del_unlink (PTcb i) ?s5 = Some (?s5\<lparr>OSTCBTbl := T', OSTCBList := l, OSTCBFreeList := PTcb i\<rparr>)"
    "tlinks T' l (PTcb i) (as @ b # cs) (i # ys)" "relinked (OSTCBTbl ?s5) T'"
    using del_unlink_post [OF lk] .
  let ?s6 = "?s5\<lparr>OSTCBTbl := T', OSTCBList := l, OSTCBFreeList := PTcb i\<rparr>"
  have rel: "relinked ((OSTCBTbl s)(i := ?t)) T'" using u(3) by simp
  have "kinv_of r ((OSTCBPrioTbl s)(p := PNull)) ((OSTCBTbl s)(i := ?t)) E'"
    using pL nid r(2-5) K by (intro kinv_of_drop [where m = "rdy s" and E = "OSEventTbl_g s"]) (auto simp: kinv_def)
  then have K6: "kinv ?s6" using kinv_of_relinked [OF rel] by (simp add: kinv_def)
  have P6: "OSTCBPrioTbl ?s6 = (OSTCBPrioTbl s)(p := PNull)" by simp
  have lk6: "tlinks (OSTCBTbl ?s6) (OSTCBList ?s6) (OSTCBFreeList ?s6) (as @ b # cs) (i # ys)" using u(2) by simp
  note dt = deleted_tinv [OF K T2 L nid P6 lk6]
  have c6: "cur_ok ?s6 \<or> unlocked ?s6 \<and> OSPrioCur ?s6 \<noteq> of_nat (highest_ready ?s6)"
  proof (cases "unat (OSPrioCur s) = p")
    case True
    then have "OSTCBCur s = PTcb i" using CO L live_unique by (force simp: cur_ok_def)
    then have "unlocked ?s6" using cur I by (simp add: unlocked_def set_rdy_def)
    moreover have "highest_ready ?s6 \<in> prio_members r" using highest_ready_in [OF K6] by simp
    then have h: "highest_ready ?s6 \<noteq> p" "highest_ready ?s6 \<le> OS_LOWEST_PRIO"
      using r(3) highest_ready_live [OF K6] by (auto simp: live_def)
    have "OSPrioCur ?s6 = OSPrioCur s" by simp
    then have "OSPrioCur ?s6 \<noteq> of_nat (highest_ready ?s6)"
      using h True prio_word_unat [of "highest_ready ?s6"] by metis
    ultimately show ?thesis by blast
  next
    case False
    then show ?thesis using CO dt(1) by (auto simp: cur_ok_def)
  qed
  obtain s7 where s7: "OSSched ?s6 = Some s7" "same_but_sched ?s6 s7" "stable s7"
    using stable_sched [OF K6 dt(2) c6] .
  note fr = same_but_sched_frame [OF s7(2)]
  have "OSTaskDel prio s = Some (OS_NO_ERR, s7)"
    unfolding OSTaskDel_def if_not_P [OF g(1)] if_not_P [OF g(2)]
    using I v pL r(1) u(1) s7(1)
    by (simp add: prio_at_def OSDummy_def OSTaskDelHook_def Let_def put_prio_def set_rdy_def)
  then show thesis
  proof (rule that [OF _ s7(3)])
    show "\<forall>q j. live s7 q j \<longleftrightarrow> live s q j \<and> q \<noteq> p" using dt(1) same_but_sched_live [OF s7(2)] by blast
    show "unlocked s7 = unlocked s" using fr(5,6) by (simp add: unlocked_def)
  qed (use fr r rel in simp_all)
qed

end
