(* ===== verification/Task_Control.thy ===== *)
theory Task_Control
  imports Tasks Semaphores
begin

text \<open>
  What deleting a task, changing its priority, suspending and resuming it do to the invariants and
  to the other tasks; what a suspension survives; and two sequences of calls after which a task
  can be lost or the kernel follows a null pointer.
\<close>

section \<open>Deletion\<close>

text \<open>The priority a service argument stands for.\<close>

definition target :: "INT8U \<Rightarrow> os \<Rightarrow> nat" where
  "target prio s = (if prio = OS_PRIO_SELF then unat (OSPrioCur s) else unat prio)"

lemma target_cases:
  assumes "cur_ok s" and "live s (target prio s) i"
  shows "unat prio = target prio s \<or> prio = OS_PRIO_SELF \<and> OSTCBCur s = PTcb i"
  using assms by (auto simp: target_def cur_ok_def live_def)

lemma OSTaskDel_ok:
  assumes "task_level s" and "unat (OSPrioCur s) \<noteq> OS_IDLE_PRIO"
  shows "\<exists>err s'. OSTaskDel prio s = Some (err, s') \<and> task_level s' \<and>
    (let p = target prio s in
     if p = OS_IDLE_PRIO then err = OS_TASK_DEL_IDLE \<and> s' = s
     else if p > OS_LOWEST_PRIO then err = OS_PRIO_INVALID \<and> s' = s
     else if OSTCBPrioTbl s p = PNull then err = OS_TASK_DEL_ERR \<and> s' = s
     else err = OS_NO_ERR \<and> ready s' = ready s - {p}
       \<and> (\<forall>e < OS_MAX_EVENTS. waiters s' e = waiters s e - {p})
       \<and> (\<forall>q j. live s' q j \<longleftrightarrow> live s q j \<and> q \<noteq> p) \<and> OSTaskCtr s' = OSTaskCtr s - 1
       \<and> (\<forall>e. OSEventType (OSEventTbl_g s' e) = OSEventType (OSEventTbl_g s e)
            \<and> OSEventCnt (OSEventTbl_g s' e) = OSEventCnt (OSEventTbl_g s e)
            \<and> OSEventPtr (OSEventTbl_g s' e) = OSEventPtr (OSEventTbl_g s e))
       \<and> (\<exists>i. live s p i \<and> OSTCBFreeList s' = PTcb i
            \<and> relinked ((OSTCBTbl s)(i := (OSTCBTbl s i)\<lparr>OSTCBDly := 0, OSTCBStat := OS_STAT_RDY\<rparr>)) (OSTCBTbl s')))"
proof -
  have S: "stable s" and U: "unlocked s" and K: "kinv s" and CO: "cur_ok s"
    using assms(1) by (auto simp: task_level_iff stable_def)
  have I: "OSIntNesting s = 0" "OSLockNesting s = 0" using U by (simp_all add: unlocked_def)
  obtain c j where c: "unat (OSPrioCur s) = c" "live s c j" "OSTCBCur s = PTcb j"
    using CO by (auto simp: cur_ok_def)
  have cL: "c < OS_LOWEST_PRIO" using c assms(2) by (auto simp: live_def OS_IDLE_PRIO_def)
  let ?p = "target prio s"
  have self: "prio = OS_PRIO_SELF \<Longrightarrow> ?p = c" and other: "prio \<noteq> OS_PRIO_SELF \<Longrightarrow> ?p = unat prio"
    using c by (simp_all add: target_def)
  consider "?p = OS_IDLE_PRIO" | "?p > OS_LOWEST_PRIO" | "?p < OS_LOWEST_PRIO"
    unfolding OS_IDLE_PRIO_def by linarith
  then show ?thesis
  proof cases
    case 1
    then have "prio \<noteq> OS_PRIO_SELF" using self cL by (auto simp: OS_IDLE_PRIO_def)
    with 1 other have "unat prio = OS_IDLE_PRIO" by simp
    then show ?thesis using 1 assms(1) by (simp add: OSTaskDel_def)
  next
    case 2
    then have "prio \<noteq> OS_PRIO_SELF" using self cL by auto
    with 2 other have "unat prio > OS_LOWEST_PRIO" by simp
    then show ?thesis using 2 \<open>prio \<noteq> OS_PRIO_SELF\<close> assms(1) by (simp add: OSTaskDel_def OS_IDLE_PRIO_def)
  next
    case 3
    then have nid: "?p \<noteq> OS_IDLE_PRIO" by (simp add: OS_IDLE_PRIO_def)
    show ?thesis
    proof (cases "OSTCBPrioTbl s ?p = PNull")
      case True
      then have n: "prio \<noteq> OS_PRIO_SELF" using self c by (auto simp: live_def)
      then have "OSTaskDel prio s = Some (OS_TASK_DEL_ERR, s)"
        using 3 True other I by (simp add: OSTaskDel_def self_prio_def prio_at_def OS_IDLE_PRIO_def)
      then show ?thesis using True 3 nid assms(1) by simp
    next
      case False
      have "?p \<le> OS_LOWEST_PRIO" using 3 by simp
      then obtain i where L: "live s ?p i" using kinvD_live [OF K _ False] by blast
      obtain s' where s': "OSTaskDel prio s = Some (OS_NO_ERR, s')" "stable s'"
        "\<forall>q j. live s' q j \<longleftrightarrow> live s q j \<and> q \<noteq> ?p" "ready s' = ready s - {?p}"
        "\<forall>e < OS_MAX_EVENTS. waiters s' e = waiters s e - {?p}" "OSTCBFreeList s' = PTcb i"
        "relinked ((OSTCBTbl s)(i := (OSTCBTbl s i)\<lparr>OSTCBDly := 0, OSTCBStat := OS_STAT_RDY\<rparr>)) (OSTCBTbl s')"
        "OSTaskCtr s' = OSTaskCtr s - 1" "unlocked s' = unlocked s"
        "\<forall>e. OSEventType (OSEventTbl_g s' e) = OSEventType (OSEventTbl_g s e)
            \<and> OSEventCnt (OSEventTbl_g s' e) = OSEventCnt (OSEventTbl_g s e)
            \<and> OSEventPtr (OSEventTbl_g s' e) = OSEventPtr (OSEventTbl_g s e)"
        using OSTaskDel_post [OF S I(1) L nid I(2) target_cases [OF CO L]] .
      have "task_level s'" using s'(2,9) U by (simp add: task_level_iff)
      with s' L 3 nid False show ?thesis
        by (intro exI [of _ OS_NO_ERR] exI [of _ s']) (simp add: Let_def del: fun_upd_apply)
    qed
  qed
qed

text \<open>C11: A running task can delete any task but the idle task, itself included. The deleted task is
  gone from the priority table, the ready list, every wait list and the task list; its control
  block is the next to be handed out; no other task changes; and the highest priority task that
  is left runs. The idle task, a priority out of range and a task that does not exist are
  refused unchanged.\<close>
theorem OSTaskDel_spec:
  assumes "task_level s" and "unat (OSPrioCur s) \<noteq> OS_IDLE_PRIO"
  shows "\<exists>err s'. OSTaskDel prio s = Some (err, s') \<and> task_level s' \<and>
    (let p = target prio s in
     if p = OS_IDLE_PRIO then err = OS_TASK_DEL_IDLE \<and> s' = s
     else if p > OS_LOWEST_PRIO then err = OS_PRIO_INVALID \<and> s' = s
     else if OSTCBPrioTbl s p = PNull then err = OS_TASK_DEL_ERR \<and> s' = s
     else err = OS_NO_ERR \<and> ready s' = ready s - {p}
       \<and> (\<forall>e < OS_MAX_EVENTS. waiters s' e = waiters s e - {p})
       \<and> (\<forall>q j. live s' q j \<longleftrightarrow> live s q j \<and> q \<noteq> p) \<and> OSTaskCtr s' = OSTaskCtr s - 1
       \<and> (\<forall>e. OSEventType (OSEventTbl_g s' e) = OSEventType (OSEventTbl_g s e)
            \<and> OSEventCnt (OSEventTbl_g s' e) = OSEventCnt (OSEventTbl_g s e)
            \<and> OSEventPtr (OSEventTbl_g s' e) = OSEventPtr (OSEventTbl_g s e))
       \<and> (\<exists>i. live s p i \<and> OSTCBFreeList s' = PTcb i
            \<and> relinked ((OSTCBTbl s)(i := (OSTCBTbl s i)\<lparr>OSTCBDly := 0, OSTCBStat := OS_STAT_RDY\<rparr>)) (OSTCBTbl s')))"
  by (rule OSTaskDel_ok [OF assms])

theorem OSTaskDel_spec_witness:
  "(\<exists>s'. OSTaskDel 7 sample = Some (OS_NO_ERR, s') \<and> waiters s' 0 = {} \<and> task_level s') \<and>
   (\<exists>s'. OSTaskDel OS_PRIO_SELF sample = Some (OS_NO_ERR, s') \<and> ready s' = {19, 20}) \<and>
   OSTaskDel 20 sample = Some (OS_TASK_DEL_IDLE, sample)"
proof -
  have t: "target 7 sample = 7" "target OS_PRIO_SELF sample = 5" "target 20 sample = 20"
    "OSTCBPrioTbl sample 7 \<noteq> PNull" "OSTCBPrioTbl sample 5 \<noteq> PNull" "\<not> 7 > OS_LOWEST_PRIO"
    "\<not> 5 > OS_LOWEST_PRIO" "OS_IDLE_PRIO = 20"
    unfolding target_def by code_simp+
  have e: "(0 :: nat) < OS_MAX_EVENTS" "{5, 19, 20 :: nat} - {5} = {19, 20}" "{7 :: nat} - {7} = {}"
    by (auto simp: config_defs)
  note d = OSTaskDel_spec [OF sample_task_level sample_cur(2)]
  have "\<exists>s'. OSTaskDel 7 sample = Some (OS_NO_ERR, s') \<and> waiters s' 0 = {} \<and> task_level s'"
    using d [of 7] e(1) unfolding t Let_def by (auto simp: t sample_waiters)
  moreover have "\<exists>s'. OSTaskDel OS_PRIO_SELF sample = Some (OS_NO_ERR, s') \<and> ready s' = {19, 20}"
    using d [of OS_PRIO_SELF] e(2) unfolding t Let_def sample_ready by (auto simp: t)
  moreover have "OSTaskDel 20 sample = Some (OS_TASK_DEL_IDLE, sample)"
    using d [of 20] unfolding t Let_def by auto
  ultimately show ?thesis by blast
qed

section \<open>Change of priority\<close>

text \<open>The control block at its new priority.\<close>

definition moved :: "INT8U \<Rightarrow> OS_TCB \<Rightarrow> OS_TCB" where
  "moved q t = t\<lparr>OSTCBPrio := q, OSTCBY := drop_bit 3 q, OSTCBX := q AND 7,
     OSTCBBitY := 2 ^ (unat q div 8), OSTCBBitX := 2 ^ (unat q mod 8)\<rparr>"

lemma moved_sel [simp]:
  "OSTCBNext (moved q t) = OSTCBNext t" "OSTCBPrev (moved q t) = OSTCBPrev t"
  "OSTCBEventPtr (moved q t) = OSTCBEventPtr t" "OSTCBDly (moved q t) = OSTCBDly t"
  "OSTCBStat (moved q t) = OSTCBStat t" "suspended (moved q t) = suspended t"
  "link_bit E (moved q t) = link_bit E t" "prio_fields (moved q t) (unat q)"
  by (simp_all add: moved_def suspended_def link_bit_def prio_fields_def prio_yx)

lemma ready_bit:
  assumes "prio_fields t p" and "p \<le> OS_LOWEST_PRIO"
  shows "\<exists>b. idx OS_RDY_TBL_SIZE (OSRdyTbl s) (unat (OSTCBY t)) = Some b \<and> (b AND OSTCBBitX t \<noteq> 0 \<longleftrightarrow> p \<in> ready s)"
  using assms prio_in_table [OF assms(2)] by (simp add: prio_fields_def prios_def rdy_def word8_and_exp)

lemma change_lists_post:
  assumes K: "kinv s" and L: "live s p i" and nid: "p \<noteq> OS_IDLE_PRIO" and q: "unat q \<le> OS_LOWEST_PRIO"
    and free: "OSTCBPrioTbl s (unat q) = PNull"
    and ok: "p \<in> ready s \<longrightarrow> OSTCBEventPtr (OSTCBTbl s i) = PNull"
    and s2: "rdy s2 = rdy s" "OSEventTbl_g s2 = OSEventTbl_g s"
  obtains r E' where "change_lists (OSTCBTbl s i) (drop_bit 3 q) (2 ^ (unat q mod 8)) (2 ^ (unat q div 8)) s2
      = Some (set_rdy r (s2\<lparr>OSEventTbl_g := E'\<rparr>))"
    and "kinv_of r ((OSTCBPrioTbl s)(p := PNull, unat q := PTcb i)) ((OSTCBTbl s)(i := moved q (OSTCBTbl s i))) E'"
    and "prio_members r = (if p \<in> ready s then insert (unat q) (ready s - {p}) else ready s)"
    and "\<forall>e < OS_MAX_EVENTS. waiters_in E' e
      = (if p \<in> waiters s e then insert (unat q) (waiters s e - {p}) else waiters s e)"
proof -
  let ?t = "OSTCBTbl s i" and ?q = "unat q"
  have pL: "p \<le> OS_LOWEST_PRIO" "OSTCBPrioTbl s p = PTcb i" using L by (auto simp: live_def)
  note f = live_prio [OF K L] and tk = kinvD_task [OF K L]
  note move = kinv_of_move [OF K [unfolded kinv_def] pL nid q free]
  note wf = kinvD_rdy [OF K] and ew = kinvD_wait [OF K]
  have nq: "?q \<notin> ready s" "e < OS_MAX_EVENTS \<Longrightarrow> ?q \<notin> waiters s e" for e
    using kinvD_ready [OF K, of ?q] kinvD_waiters [OF K, of e ?q] free by (auto simp: live_def)
  have yq: "unat (drop_bit 3 q :: INT8U) = ?q div 8" by (rule prio_yx)
  obtain b where b: "idx OS_RDY_TBL_SIZE (OSRdyTbl s2) (unat (OSTCBY ?t)) = Some b"
      "b AND OSTCBBitX ?t \<noteq> 0 \<longleftrightarrow> p \<in> ready s"
    using ready_bit [OF f pL(1), of s2] s2(1) by auto
  have eta: "s2\<lparr>OSEventTbl_g := OSEventTbl_g s\<rparr> = s2" using s2(2) by simp
  have eta2: "set_rdy (rdy s) s2 = s2" using s2(1) by (simp add: set_rdy_def rdy_def)
  consider (rdy) "p \<in> ready s" | (wait) "p \<notin> ready s" "OSTCBEventPtr ?t \<noteq> PNull"
    | (none) "p \<notin> ready s" "OSTCBEventPtr ?t = PNull" by blast
  then show thesis
  proof cases
    case rdy
    have np: "OSTCBEventPtr ?t = PNull" using ok rdy by simp
    have nw: "p \<notin> waiters s e" if "e < OS_MAX_EVENTS" for e using waits_for_one [OF K L that] np by auto
    have wf2: "prio_map_ok (Kernel_State.rdy s2)" using wf s2(1) by simp
    obtain r1 where r1: "rdy_remove ?t s2 = Some (set_rdy r1 s2)" "prio_map_ok r1"
      "prio_members r1 = ready s2 - {p}"
      using rdy_remove_ok [OF f pL(1) wf2] .
    obtain r2 where r2: "tbl_enter OS_RDY_TBL_SIZE (?q div 8) (2 ^ (?q mod 8)) (2 ^ (?q div 8)) r1 = Some r2"
      "prio_map_ok r2" "prio_members r2 = insert ?q (prio_members r1)"
      using tbl_enter_ok [OF r1(2) prio_in_table [OF q]] by blast
    have m1: "prio_members r1 = ready s - {p}" using r1(3) s2(1) by simp
    have tk2: "task_ok r2 (OSEventTbl_g s) ?q (moved q ?t)"
      using tk rdy np r2(3) unfolding task_ok_def by simp
    have "kinv_of r2 ((OSTCBPrioTbl s)(p := PNull, ?q := PTcb i)) ((OSTCBTbl s)(i := moved q ?t)) (OSEventTbl_g s)"
      using nw nq ew r2(3) by (intro move [OF r1(2) m1 _ r2(2) _ _ tk2]) auto
    moreover have "change_lists ?t (drop_bit 3 q) (2 ^ (?q mod 8)) (2 ^ (?q div 8)) s2
      = Some (set_rdy r2 (s2\<lparr>OSEventTbl_g := OSEventTbl_g s\<rparr>))"
      unfolding eta using b rdy r1(1) r2(1) yq by (simp add: change_lists_def) (simp add: set_rdy_def)
    ultimately show thesis using that [of r2 "OSEventTbl_g s"] r2(3) m1 rdy nw by simp
  next
    case none
    have nw: "p \<notin> waiters s e" if "e < OS_MAX_EVENTS" for e using waits_for_one [OF K L that] none by auto
    have m1: "prio_members (Kernel_State.rdy s) = ready s - {p}" using none by simp
    have tk2: "task_ok (Kernel_State.rdy s) (OSEventTbl_g s) ?q (moved q ?t)"
      using tk none nq(1) unfolding task_ok_def by simp
    have "kinv_of (Kernel_State.rdy s) ((OSTCBPrioTbl s)(p := PNull, ?q := PTcb i))
        ((OSTCBTbl s)(i := moved q ?t)) (OSEventTbl_g s)"
      using nw nq ew by (intro move [OF wf m1 _ wf _ _ tk2]) auto
    moreover have "change_lists ?t (drop_bit 3 q) (2 ^ (?q mod 8)) (2 ^ (?q div 8)) s2
      = Some (set_rdy (Kernel_State.rdy s) (s2\<lparr>OSEventTbl_g := OSEventTbl_g s\<rparr>))"
      unfolding eta eta2 using b none by (simp add: change_lists_def)
    ultimately show thesis using that [of "Kernel_State.rdy s" "OSEventTbl_g s"] none nw by simp
  next
    case wait
    obtain e where e: "e < OS_MAX_EVENTS" "OSTCBEventPtr ?t = PEvent e" "p \<in> waiters s e"
      "link_bit (OSEventTbl_g s) ?t \<noteq> OS_STAT_RDY"
      using wait tk unfolding task_ok_def by blast
    have nw: "p \<notin> waiters s d" if "d < OS_MAX_EVENTS" "d \<noteq> e" for d
      using waits_for_one [OF K L that(1)] e(2) that(2) by auto
    have wf2: "prio_map_ok (waiting (OSEventTbl_g s2 e))" using ew [OF e(1)] s2(2) by simp
    obtain w1 where w1: "wait_remove ?t (PEvent e) s2
        = Some (s2\<lparr>OSEventTbl_g := (OSEventTbl_g s2)(e := set_waiting w1 (OSEventTbl_g s2 e))\<rparr>)"
      "prio_map_ok w1" "prio_members w1 = waiters s2 e - {p}"
      using wait_remove_ok [OF f pL(1) e(1) wf2] .
    obtain w2 where w2: "tbl_enter OS_RDY_TBL_SIZE (?q div 8) (2 ^ (?q mod 8)) (2 ^ (?q div 8)) w1 = Some w2"
      "prio_map_ok w2" "prio_members w2 = insert ?q (prio_members w1)"
      using tbl_enter_ok [OF w1(2) prio_in_table [OF q]] by blast
    have n1: "prio_members w1 = waiters s e - {p}" using w1(3) s2(2) by simp
    let ?E1 = "(OSEventTbl_g s)(e := set_waiting w1 (OSEventTbl_g s e))"
    let ?E2 = "(OSEventTbl_g s)(e := set_waiting w2 (OSEventTbl_g s e))"
    have lb: "link_bit ?E2 ?t = link_bit (OSEventTbl_g s) ?t" by (simp add: link_bit_def e(2))
    have m1: "prio_members (Kernel_State.rdy s) = ready s - {p}" using wait by simp
    have tk2: "task_ok (Kernel_State.rdy s) ?E2 ?q (moved q ?t)"
      using tk wait nq(1) e w2(3) unfolding task_ok_def by (simp add: lb)
    have "kinv_of (Kernel_State.rdy s) ((OSTCBPrioTbl s)(p := PNull, ?q := PTcb i))
        ((OSTCBTbl s)(i := moved q ?t)) ?E2"
    proof (rule move [OF wf m1 _ wf _ _ tk2])
      show "prio_map_ok (waiting (?E1 d)) \<and> waiters_in ?E1 d = waiters s d - {p}
          \<and> OSEventType (?E1 d) = OSEventType (OSEventTbl_g s d)" if "d < OS_MAX_EVENTS" for d
        using that nw ew w1(2) n1 by simp
      show "prio_map_ok (waiting (?E2 d)) \<and> waiters_in ?E2 d - {?q} = waiters_in ?E1 d - {?q}
          \<and> OSEventType (?E2 d) = OSEventType (?E1 d)" if "d < OS_MAX_EVENTS" for d
        using that ew w2(2,3) by auto
      show "OSTCBEventPtr (moved q ?t) = PEvent d" if "d < OS_MAX_EVENTS" "?q \<in> waiters_in ?E2 d" for d
        using that nq(2) [OF that(1)] e(2) by (auto split: if_splits)
    qed simp
    moreover have "change_lists ?t (drop_bit 3 q) (2 ^ (?q mod 8)) (2 ^ (?q div 8)) s2
      = Some (set_rdy (Kernel_State.rdy s) (s2\<lparr>OSEventTbl_g := ?E2\<rparr>))"
    proof -
      have "set_rdy (Kernel_State.rdy s) (s2\<lparr>OSEventTbl_g := ?E2\<rparr>) = s2\<lparr>OSEventTbl_g := ?E2\<rparr>"
        using s2(1) by (simp add: set_rdy_def rdy_def)
      moreover have "change_lists ?t (drop_bit 3 q) (2 ^ (?q mod 8)) (2 ^ (?q div 8)) s2
          = Some (s2\<lparr>OSEventTbl_g := ?E2\<rparr>)"
        using b wait e(1,2) w1(1) w2(1) yq s2(2)
        by (simp add: change_lists_def) (simp add: set_waiting_def)
      ultimately show ?thesis by simp
    qed
    moreover have "\<forall>d < OS_MAX_EVENTS. waiters_in ?E2 d
        = (if p \<in> waiters s d then insert ?q (waiters s d - {p}) else waiters s d)"
    proof (intro allI impI)
      fix d assume "d < OS_MAX_EVENTS"
      then show "waiters_in ?E2 d = (if p \<in> waiters s d then insert ?q (waiters s d - {p}) else waiters s d)"
        using nw [of d] e(3) w2(3) n1 by (cases "d = e") simp_all
    qed
    ultimately show thesis using that [of "Kernel_State.rdy s" ?E2] wait by simp
  qed
qed

text \<open>The move as a whole.\<close>

lemma OSTaskChangePrio_post:
  assumes T: "task_level s" and L: "live s p i" and nid: "p \<noteq> OS_IDLE_PRIO" and q: "unat q < OS_LOWEST_PRIO"
    and free: "OSTCBPrioTbl s (unat q) = PNull"
    and ok: "p \<in> ready s \<longrightarrow> OSTCBEventPtr (OSTCBTbl s i) = PNull"
    and w: "unat old = p \<or> old = OS_PRIO_SELF \<and> OSTCBCur s = PTcb i"
  obtains s' where "OSTaskChangePrio old q s = Some (OS_NO_ERR, s')" and "task_level s'"
    and "OSTCBTbl s' = (OSTCBTbl s)(i := moved q (OSTCBTbl s i))"
    and "OSTCBPrioTbl s' = (OSTCBPrioTbl s)(p := PNull, unat q := PTcb i)"
    and "ready s' = (if p \<in> ready s then insert (unat q) (ready s - {p}) else ready s)"
    and "\<forall>e < OS_MAX_EVENTS. waiters s' e
      = (if p \<in> waiters s e then insert (unat q) (waiters s e - {p}) else waiters s e)"
proof -
  have K: "kinv s" and TI: "tinv s" and CO: "cur_ok s" and U: "unlocked s"
    using T by (auto simp: task_level_def)
  let ?t = "OSTCBTbl s i" and ?q = "unat q"
  have pL: "p < OS_LOWEST_PRIO" "i < N_TCB" "OSTCBPrioTbl s p = PTcb i"
    using L nid by (auto simp: live_def OS_IDLE_PRIO_def)
  have pq: "p \<noteq> ?q" using free pL(3) by auto
  have qL: "?q \<le> OS_LOWEST_PRIO" using q by simp
  obtain v where v: "self_prio old s = Some v" "unat v = p" using self_prio_ok [OF K L w] .
  have g: "\<not> ((unat old \<ge> OS_LOWEST_PRIO \<and> old \<noteq> OS_PRIO_SELF) \<or> ?q \<ge> OS_LOWEST_PRIO)"
    using w pL(1) q by auto
  let ?s1 = "put_prio q POne s"
  let ?s2 = "put_prio v PNull ?s1"
  have s2: "rdy ?s2 = rdy s" "OSEventTbl_g ?s2 = OSEventTbl_g s" by (simp_all add: put_prio_def)
  obtain r E' where r: "change_lists ?t (drop_bit 3 q) (2 ^ (?q mod 8)) (2 ^ (?q div 8)) ?s2
      = Some (set_rdy r (?s2\<lparr>OSEventTbl_g := E'\<rparr>))"
    "kinv_of r ((OSTCBPrioTbl s)(p := PNull, ?q := PTcb i)) ((OSTCBTbl s)(i := moved q ?t)) E'"
    "prio_members r = (if p \<in> ready s then insert ?q (ready s - {p}) else ready s)"
    "\<forall>e < OS_MAX_EVENTS. waiters_in E' e
      = (if p \<in> waiters s e then insert ?q (waiters s e - {p}) else waiters s e)"
    using change_lists_post [OF K L nid qL free ok s2] .
  let ?P = "(OSTCBPrioTbl s)(p := PNull, ?q := PTcb i)"
  let ?s5 = "set_rdy r (s\<lparr>OSTCBPrioTbl := ?P, OSEventTbl_g := E', OSTCBTbl := (OSTCBTbl s)(i := moved q ?t)\<rparr>)"
  have K5: "kinv ?s5" using r(2) by (simp add: kinv_def)
  have lv: "live ?s5 c j \<longleftrightarrow> c = ?q \<and> j = i \<or> c \<noteq> p \<and> live s c j" for c j
    using qL pL(2) pq free by (auto simp: live_def)
  obtain xs ys where X: "tlists s xs ys" using TI by (auto simp: tinv_def)
  have "tlinks ((OSTCBTbl s)(i := moved q ?t)) (OSTCBList s) (OSTCBFreeList s) xs ys"
  proof -
    have "tlists (s\<lparr>OSTCBTbl := (OSTCBTbl s)(i := moved q ?t)\<rparr>) xs ys"
      by (rule tlists_list_frame [OF X, where i = i and t = "moved q ?t"]) simp_all
    then show ?thesis by (simp add: tlists_links)
  qed
  moreover have "(\<exists>c. live ?s5 c j) \<longleftrightarrow> (\<exists>c. live s c j)" for j
  proof
    assume "\<exists>c. live ?s5 c j"
    then show "\<exists>c. live s c j" unfolding lv using L by auto
  next
    assume "\<exists>c. live s c j"
    then obtain c where "live s c j" ..
    then show "\<exists>c. live ?s5 c j" unfolding lv using live_unique [OF L] by (cases "c = p") auto
  qed
  moreover have "live ?s5 OS_IDLE_PRIO (last xs)" using X lv nid by (simp add: tlists_links)
  ultimately have "tlists ?s5 xs ys" using X by (simp add: tlists_links)
  then have T5: "tinv ?s5" unfolding tinv_def by blast
  have c5: "cur_ok ?s5 \<or> unlocked ?s5 \<and> OSPrioCur ?s5 \<noteq> of_nat (highest_ready ?s5)"
  proof (cases "unat (OSPrioCur s) = p")
    case True
    obtain j where h: "live ?s5 (highest_ready ?s5) j" using highest_ready_live [OF K5] .
    then have "highest_ready ?s5 \<noteq> p" "highest_ready ?s5 \<le> OS_LOWEST_PRIO"
      using lv pq by (auto simp: live_def)
    moreover have "OSPrioCur ?s5 = OSPrioCur s" by simp
    ultimately have "OSPrioCur ?s5 \<noteq> of_nat (highest_ready ?s5)"
      using True prio_word_unat [of "highest_ready ?s5"] by metis
    moreover have "unlocked ?s5" using U by (simp add: unlocked_def)
    ultimately show ?thesis by blast
  next
    case False
    then show ?thesis using CO lv by (auto simp: cur_ok_def)
  qed
  obtain s6 where s6: "OSSched ?s5 = Some s6" "same_but_sched ?s5 s6" "stable s6"
    using stable_sched [OF K5 T5 c5] .
  note fr = same_but_sched_frame [OF s6(2)]
  have "unlocked s6" using U same_but_sched_unlocked [OF s6(2)] by (simp add: unlocked_def)
  then have T6: "task_level s6" using s6(3) by (simp add: task_level_iff)
  have "?q < 64" using qL lowest_prio_bounds(2) by linarith
  then have m: "map_tbl (?q div 8) = Some (2 ^ (?q div 8))" "map_tbl (?q mod 8) = Some (2 ^ (?q mod 8))"
    by (simp_all add: map_tbl_eq)
  have "tcb_at ?s1 (OSTCBCur ?s1) = tcb_at s (OSTCBCur s)"
    by (cases "OSTCBCur s") (simp_all add: put_prio_def tcb_at_def)
  then have "self_prio old ?s1 = self_prio old s" by (simp only: self_prio_def)
  then have sp: "self_prio old ?s1 = Some v" using v(1) by simp
  have st5: "put_prio q (PTcb i) (set_rdy r (?s2\<lparr>OSEventTbl_g := E'\<rparr>))
      = set_rdy r (s\<lparr>OSTCBPrioTbl := ?P, OSEventTbl_g := E'\<rparr>)"
    using v(2) pq by (simp add: put_prio_def set_rdy_def fun_upd_twist)
  have st6: "(set_rdy r (s\<lparr>OSTCBPrioTbl := ?P, OSEventTbl_g := E'\<rparr>))
      \<lparr>OSTCBTbl := (OSTCBTbl s)(i := moved q ?t)\<rparr> = ?s5"
    by (simp add: set_rdy_def)
  have "OSTaskChangePrio old q s = Some (OS_NO_ERR, s6)"
    unfolding OSTaskChangePrio_def if_not_P [OF g]
    using qL free m sp v pL pq r(1) s6(1) st5 st6
    by (simp add: prio_at_def prio_yx put_prio_def moved_def)
  then show thesis using that [OF _ T6] fr r(3,4) by simp
qed

lemma cur_target:
  assumes "task_level s" and "unat (OSPrioCur s) \<noteq> OS_IDLE_PRIO"
  shows "target OS_PRIO_SELF s < OS_LOWEST_PRIO" "OSTCBPrioTbl s (target OS_PRIO_SELF s) \<noteq> PNull"
proof -
  have "unat (OSPrioCur s) \<le> OS_LOWEST_PRIO" "OSTCBPrioTbl s (unat (OSPrioCur s)) \<noteq> PNull"
    using assms(1) by (auto simp: task_level_def cur_ok_def live_def)
  with assms(2) show "target OS_PRIO_SELF s < OS_LOWEST_PRIO" "OSTCBPrioTbl s (target OS_PRIO_SELF s) \<noteq> PNull"
    by (auto simp: target_def OS_IDLE_PRIO_def)
qed

text \<open>C12: A running task can move any task but the idle task, itself included, to a free priority. The
  task keeps its control block and what it does: if it was ready it is ready at the new priority
  and no longer at the old one, if it was waiting it waits for the same event at the new
  priority, and nothing else changes; the highest priority ready task runs afterwards. A
  priority out of range, a new priority in use and an old one without a task are refused with
  the state unchanged. (The task must not be one whose timeout has run out while it still
  stands in the wait list, and the two arguments must differ.)\<close>
theorem OSTaskChangePrio_spec:
  assumes "task_level s" and "unat (OSPrioCur s) \<noteq> OS_IDLE_PRIO"
    and "\<And>i. live s (target old s) i \<Longrightarrow> target old s \<in> ready s \<Longrightarrow> OSTCBEventPtr (OSTCBTbl s i) = PNull"
    and "old \<noteq> new"
  shows "\<exists>err s'. OSTaskChangePrio old new s = Some (err, s') \<and> task_level s' \<and>
    (let p = target old s; q = unat new in
     if p \<ge> OS_LOWEST_PRIO \<or> q \<ge> OS_LOWEST_PRIO then err = OS_PRIO_INVALID \<and> s' = s
     else if OSTCBPrioTbl s q \<noteq> PNull then err = OS_PRIO_EXIST \<and> s' = s
     else if OSTCBPrioTbl s p = PNull then err = OS_PRIO_ERR \<and> s' = s
     else err = OS_NO_ERR \<and> (\<exists>i. live s p i
       \<and> OSTCBTbl s' = (OSTCBTbl s)(i := moved new (OSTCBTbl s i))
       \<and> OSTCBPrioTbl s' = (OSTCBPrioTbl s)(p := PNull, q := PTcb i)
       \<and> ready s' = (if p \<in> ready s then insert q (ready s - {p}) else ready s)
       \<and> (\<forall>e < OS_MAX_EVENTS. waiters s' e
            = (if p \<in> waiters s e then insert q (waiters s e - {p}) else waiters s e))))"
proof -
  let ?p = "target old s" and ?q = "unat new"
  have K: "kinv s" and CO: "cur_ok s" using assms(1) by (auto simp: task_level_def)
  have self: "old = OS_PRIO_SELF \<Longrightarrow> ?p < OS_LOWEST_PRIO \<and> OSTCBPrioTbl s ?p \<noteq> PNull"
    using cur_target [OF assms(1,2)] by simp
  have other: "old \<noteq> OS_PRIO_SELF \<Longrightarrow> ?p = unat old" by (simp add: target_def)
  have g: "((unat old \<ge> OS_LOWEST_PRIO \<and> old \<noteq> OS_PRIO_SELF) \<or> ?q \<ge> OS_LOWEST_PRIO)
      \<longleftrightarrow> (?p \<ge> OS_LOWEST_PRIO \<or> ?q \<ge> OS_LOWEST_PRIO)"
    using self other by (cases "old = OS_PRIO_SELF") auto
  show ?thesis
  proof (cases "?p \<ge> OS_LOWEST_PRIO \<or> ?q \<ge> OS_LOWEST_PRIO")
    case True
    then have "OSTaskChangePrio old new s = Some (OS_PRIO_INVALID, s)"
      unfolding OSTaskChangePrio_def g by simp
    then show ?thesis using True assms(1) by (simp add: Let_def)
  next
    case False
    then have L: "?p < OS_LOWEST_PRIO" "?q < OS_LOWEST_PRIO" by auto
    consider "OSTCBPrioTbl s ?q \<noteq> PNull" | "OSTCBPrioTbl s ?q = PNull" "OSTCBPrioTbl s ?p = PNull"
      | "OSTCBPrioTbl s ?q = PNull" "OSTCBPrioTbl s ?p \<noteq> PNull" by blast
    then show ?thesis
    proof cases
      case 1
      then have "OSTaskChangePrio old new s = Some (OS_PRIO_EXIST, s)"
        unfolding OSTaskChangePrio_def g using False L by (simp add: prio_at_def)
      then show ?thesis using 1 L assms(1) by (simp add: Let_def)
    next
      case 2
      then have n: "old \<noteq> OS_PRIO_SELF" "?p = unat old" using self other by auto
      have "?q < 64" using L(2) lowest_prio_bounds(2) by linarith
      then have m: "map_tbl (?q div 8) = Some (2 ^ (?q div 8))" "map_tbl (?q mod 8) = Some (2 ^ (?q mod 8))"
        by (simp_all add: map_tbl_eq)
      have fu: "(OSTCBPrioTbl s)(?q := PNull) = OSTCBPrioTbl s" using 2 by (simp add: fun_upd_idem)
      have "?p \<noteq> ?q" using n(2) assms(4) by (simp add: word_unat_eq_iff)
      then have "OSTaskChangePrio old new s = Some (OS_PRIO_ERR, put_prio new PNull (put_prio new POne s))"
        unfolding OSTaskChangePrio_def g using False L 2 m n
        by (simp add: prio_at_def prio_yx self_prio_def put_prio_def)
      then have "OSTaskChangePrio old new s = Some (OS_PRIO_ERR, s)" by (simp add: put_prio_def fu)
      then show ?thesis using 2 L assms(1) by (simp add: Let_def)
    next
      case 3
      have "?p \<le> OS_LOWEST_PRIO" using L by simp
      then obtain i where Li: "live s ?p i" using kinvD_live [OF K _ 3(2)] by blast
      have nid: "?p \<noteq> OS_IDLE_PRIO" using L by (simp add: OS_IDLE_PRIO_def)
      have ok: "?p \<in> ready s \<longrightarrow> OSTCBEventPtr (OSTCBTbl s i) = PNull" using assms(3) [OF Li] by blast
      obtain s' where "OSTaskChangePrio old new s = Some (OS_NO_ERR, s')" "task_level s'"
        "OSTCBTbl s' = (OSTCBTbl s)(i := moved new (OSTCBTbl s i))"
        "OSTCBPrioTbl s' = (OSTCBPrioTbl s)(?p := PNull, ?q := PTcb i)"
        "ready s' = (if ?p \<in> ready s then insert ?q (ready s - {?p}) else ready s)"
        "\<forall>e < OS_MAX_EVENTS. waiters s' e
          = (if ?p \<in> waiters s e then insert ?q (waiters s e - {?p}) else waiters s e)"
        using OSTaskChangePrio_post [OF assms(1) Li nid L(2) 3(1) ok target_cases [OF CO Li]] .
      then show ?thesis using 3 L Li
        by (intro exI [of _ OS_NO_ERR] exI [of _ s']) (auto simp: Let_def simp del: fun_upd_apply)
    qed
  qed
qed

theorem OSTaskChangePrio_spec_witness:
  "(\<exists>s'. OSTaskChangePrio 7 3 sample = Some (OS_NO_ERR, s') \<and> waiters s' 0 = {3} \<and> task_level s') \<and>
   (\<exists>s'. OSTaskChangePrio OS_PRIO_SELF 8 sample = Some (OS_NO_ERR, s') \<and> ready s' = {8, 19, 20})"
proof -
  have t: "target 7 sample = 7" "target OS_PRIO_SELF sample = 5" "OSTCBPrioTbl sample 7 \<noteq> PNull"
    "OSTCBPrioTbl sample 5 \<noteq> PNull" "OSTCBPrioTbl sample 3 = PNull" "OSTCBPrioTbl sample 8 = PNull"
    "\<not> OS_LOWEST_PRIO \<le> 7" "\<not> OS_LOWEST_PRIO \<le> 5" "\<not> OS_LOWEST_PRIO \<le> 3" "\<not> OS_LOWEST_PRIO \<le> 8"
    "OSTCBEventPtr (OSTCBTbl sample 2) = PNull" "OS_PRIO_SELF \<noteq> 8"
    unfolding target_def by code_simp+
  have l: "live sample 5 i \<Longrightarrow> OSTCBEventPtr (OSTCBTbl sample i) = PNull" for i
    using live_unique [OF sample_live(1)] t(11) by blast
  have e: "(0 :: nat) < OS_MAX_EVENTS" by (simp add: config_defs)
  have "\<exists>s'. OSTaskChangePrio 7 3 sample = Some (OS_NO_ERR, s') \<and> waiters s' 0 = {3} \<and> task_level s'"
    using OSTaskChangePrio_spec [OF sample_task_level sample_cur(2), of 7 3] e
    by (auto simp: t Let_def sample_ready sample_waiters)
  moreover have "insert 8 ({5, 19, 20 :: nat} - {5}) = {8, 19, 20}" by auto
  then have "\<exists>s'. OSTaskChangePrio OS_PRIO_SELF 8 sample = Some (OS_NO_ERR, s') \<and> ready s' = {8, 19, 20}"
    using OSTaskChangePrio_spec [OF sample_task_level sample_cur(2), of OS_PRIO_SELF 8]
    by (auto simp: t l Let_def sample_ready)
  ultimately show ?thesis by blast
qed

section \<open>Suspension\<close>

definition with_suspend :: "OS_TCB \<Rightarrow> OS_TCB" where
  "with_suspend t = t\<lparr>OSTCBStat := OSTCBStat t OR OS_STAT_SUSPEND\<rparr>"

definition without_suspend :: "OS_TCB \<Rightarrow> OS_TCB" where
  "without_suspend t = t\<lparr>OSTCBStat := OSTCBStat t AND NOT OS_STAT_SUSPEND\<rparr>"

lemma suspend_sel [simp]:
  "OSTCBNext (with_suspend t) = OSTCBNext t" "OSTCBPrev (with_suspend t) = OSTCBPrev t"
  "OSTCBEventPtr (with_suspend t) = OSTCBEventPtr t" "OSTCBDly (with_suspend t) = OSTCBDly t"
  "prio_fields (with_suspend t) = prio_fields t" "link_bit E (with_suspend t) = link_bit E t"
  "OSTCBNext (without_suspend t) = OSTCBNext t" "OSTCBPrev (without_suspend t) = OSTCBPrev t"
  "OSTCBEventPtr (without_suspend t) = OSTCBEventPtr t" "OSTCBDly (without_suspend t) = OSTCBDly t"
  "prio_fields (without_suspend t) = prio_fields t" "link_bit E (without_suspend t) = link_bit E t"
  by (simp_all add: with_suspend_def without_suspend_def)

text \<open>What a status byte of the right form becomes.\<close>

lemma suspend_stat:
  assumes "task_ok m E p t"
  shows "suspended (with_suspend t)" "\<not> suspended (without_suspend t)"
    "OSTCBStat (with_suspend t) = link_bit E t OR OS_STAT_SUSPEND"
    "OSTCBStat (without_suspend t) = link_bit E t"
    "\<not> suspended t \<Longrightarrow> OSTCBStat t = link_bit E t"
    "link_bit E t = OS_STAT_RDY \<longleftrightarrow> OSTCBEventPtr t = PNull"
proof -
  have b: "link_bit E t \<in> {OS_STAT_RDY, OS_STAT_SEM, OS_STAT_MBOX, OS_STAT_Q}" by (rule link_bit_cases)
  have s: "OSTCBStat t = (if suspended t then link_bit E t OR OS_STAT_SUSPEND else link_bit E t)"
    using suspended_iff [OF b] assms unfolding task_ok_def by blast
  show w: "OSTCBStat (with_suspend t) = link_bit E t OR OS_STAT_SUSPEND"
    using s stat_bits(8) [OF b] by (simp add: with_suspend_def)
  show wo: "OSTCBStat (without_suspend t) = link_bit E t"
    using s stat_bits(3,4) [OF b] by (simp add: without_suspend_def split: if_splits)
  show "suspended (with_suspend t)" unfolding suspended_def w using stat_bits(2) [OF b] by simp
  show "\<not> suspended (without_suspend t)" unfolding suspended_def wo using stat_bits(1) [OF b] by simp
  show "\<not> suspended t \<Longrightarrow> OSTCBStat t = link_bit E t" using s by simp
  show "link_bit E t = OS_STAT_RDY \<longleftrightarrow> OSTCBEventPtr t = PNull"
    using assms unfolding task_ok_def by (auto simp: link_bit_def)
qed

lemma suspend_kinv:
  assumes K: "kinv s" and L: "live s p i" and nid: "p \<noteq> OS_IDLE_PRIO"
  obtains r where "rdy_remove (OSTCBTbl s i) s = Some (set_rdy r s)" and "prio_members r = ready s - {p}"
    and "kinv (set_rdy r (s\<lparr>OSTCBTbl := (OSTCBTbl s)(i := with_suspend (OSTCBTbl s i))\<rparr>))"
proof -
  let ?t = "with_suspend (OSTCBTbl s i)"
  note ok = kinvD_task [OF K L]
  have a: "prio_fields ?t p" "OSTCBDly ?t \<noteq> 0 \<or> suspended ?t \<or> OSTCBEventPtr ?t \<noteq> PNull"
    "OSTCBEventPtr ?t = OSTCBEventPtr (OSTCBTbl s i)"
    "OSTCBStat ?t \<in> {link_bit (OSEventTbl_g s) ?t, link_bit (OSEventTbl_g s) ?t OR OS_STAT_SUSPEND}"
    using suspend_stat [OF ok] live_prio [OF K L] by simp_all
  show thesis using kinv_make_unready [OF K L nid a] that by blast
qed

lemma highest_minus:
  assumes "kinv s" and "kinv s'" and "ready s' = ready s - {p}" and "p \<noteq> highest_ready s"
  shows "highest_ready s' = highest_ready s"
proof -
  have f: "finite (ready s)" by (rule finite_prios)
  have m: "highest_ready s \<in> ready s'" using highest_ready_in [OF assms(1)] assms(3,4) by simp
  have l: "highest_ready s \<le> q" if "q \<in> ready s'" for q
  proof -
    have "q \<in> ready s" using that unfolding assms(3) by simp
    then show ?thesis unfolding highest_ready_def using f by (rule Min_le [rotated])
  qed
  show ?thesis unfolding highest_ready_def [of s'] by (rule Min_eqI [OF finite_prios l m])
qed

lemma OSTaskSuspend_ok:
  assumes "stable s" and "unat (OSPrioCur s) \<noteq> OS_IDLE_PRIO"
  shows "\<exists>err s'. OSTaskSuspend prio s = Some (err, s') \<and> stable s' \<and>
    (let p = target prio s in
     if p = OS_IDLE_PRIO then err = OS_TASK_SUSPEND_IDLE \<and> s' = s
     else if p > OS_LOWEST_PRIO then err = OS_PRIO_INVALID \<and> s' = s
     else if OSTCBPrioTbl s p = PNull then err = OS_TASK_SUSPEND_PRIO \<and> s' = s
     else err = OS_NO_ERR \<and> ready s' = ready s - {p} \<and> OSEventTbl_g s' = OSEventTbl_g s
       \<and> unlocked s' = unlocked s \<and> OSTCBPrioTbl s' = OSTCBPrioTbl s
       \<and> (\<exists>i. live s p i \<and> OSTCBTbl s' = (OSTCBTbl s)(i := with_suspend (OSTCBTbl s i))))"
proof -
  let ?p = "target prio s"
  have K: "kinv s" and TI: "tinv s" and CO: "cur_ok s" using assms(1) by (auto simp: stable_def)
  obtain c j where c: "unat (OSPrioCur s) = c" "live s c j" "OSTCBCur s = PTcb j"
    using CO by (auto simp: cur_ok_def)
  have cL: "c < OS_LOWEST_PRIO" "j < N_TCB" "OSTCBPrioTbl s c = PTcb j"
    using c assms(2) by (auto simp: live_def OS_IDLE_PRIO_def)
  have cp: "unat (OSTCBPrio (OSTCBTbl s j)) = c" using live_prio [OF K c(2)] by (simp add: prio_fields_def)
  have self: "prio = OS_PRIO_SELF \<Longrightarrow> ?p = c" and other: "prio \<noteq> OS_PRIO_SELF \<Longrightarrow> ?p = unat prio"
    using c by (simp_all add: target_def)
  consider (idle) "?p = OS_IDLE_PRIO" | (inv) "?p > OS_LOWEST_PRIO" | (ok) "?p < OS_LOWEST_PRIO"
    unfolding OS_IDLE_PRIO_def by linarith
  then show ?thesis
  proof cases
    case idle
    then have "prio \<noteq> OS_PRIO_SELF" using self cL by (auto simp: OS_IDLE_PRIO_def)
    then have "unat prio = OS_IDLE_PRIO" using idle other by simp
    then show ?thesis using idle assms(1) by (simp add: OSTaskSuspend_def)
  next
    case inv
    then have "prio \<noteq> OS_PRIO_SELF" using self cL by auto
    moreover from this inv other have "unat prio > OS_LOWEST_PRIO" by simp
    ultimately show ?thesis using inv assms(1) by (simp add: OSTaskSuspend_def OS_IDLE_PRIO_def)
  next
    case ok
    then have nid: "?p \<noteq> OS_IDLE_PRIO" by (simp add: OS_IDLE_PRIO_def)
    define w where "w = (if prio = OS_PRIO_SELF then OSTCBPrio (OSTCBTbl s j) else prio)"
    have w: "unat w = ?p" using self other cp by (simp add: w_def)
    have g: "unat prio \<noteq> OS_IDLE_PRIO" "\<not> (unat prio \<ge> OS_LOWEST_PRIO \<and> prio \<noteq> OS_PRIO_SELF)"
    proof -
      have "unat OS_PRIO_SELF \<noteq> OS_IDLE_PRIO" by (simp add: config_defs)
      then show "unat prio \<noteq> OS_IDLE_PRIO" using other nid by (cases "prio = OS_PRIO_SELF") auto
      show "\<not> (unat prio \<ge> OS_LOWEST_PRIO \<and> prio \<noteq> OS_PRIO_SELF)"
        using other ok by (cases "prio = OS_PRIO_SELF") auto
    qed
    have sel: "(if prio = OS_PRIO_SELF then (OSTCBPrio (OSTCBTbl s j), True)
                else if prio = OSTCBPrio (OSTCBTbl s j) then (prio, True) else (prio, False)) = (w, ?p = c)"
      using self other cp by (auto simp: w_def word_unat_eq_iff)
    have e: "OSTaskSuspend prio s = do {
        ptcb \<leftarrow> prio_at s w;
        if ptcb = PNull then Some (OS_TASK_SUSPEND_PRIO, s)
        else do {
          t \<leftarrow> tcb_at s ptcb;
          s1 \<leftarrow> rdy_remove t s;
          let s2 = put_tcb ptcb (with_suspend t) s1;
          if ?p = c then do { s3 \<leftarrow> OSSched s2; Some (OS_NO_ERR, s3) } else Some (OS_NO_ERR, s2)
        }
      }"
      unfolding OSTaskSuspend_def if_not_P [OF g(1)] if_not_P [OF g(2)] with_suspend_def Let_def sel
      using c(3) cL(2) by (simp add: sel)
    show ?thesis
    proof (cases "OSTCBPrioTbl s ?p = PNull")
      case True
      then have "OSTaskSuspend prio s = Some (OS_TASK_SUSPEND_PRIO, s)"
        unfolding e using w ok by (simp add: prio_at_def)
      then show ?thesis using True ok nid assms(1) by (simp add: Let_def)
    next
      case False
      have pL: "?p \<le> OS_LOWEST_PRIO" using ok by simp
      then obtain i where L: "live s ?p i" using kinvD_live [OF K _ False] by blast
      obtain r where r: "rdy_remove (OSTCBTbl s i) s = Some (set_rdy r s)" "prio_members r = ready s - {?p}"
        "kinv (set_rdy r (s\<lparr>OSTCBTbl := (OSTCBTbl s)(i := with_suspend (OSTCBTbl s i))\<rparr>))"
        using suspend_kinv [OF K L nid] .
      let ?s2 = "set_rdy r (s\<lparr>OSTCBTbl := (OSTCBTbl s)(i := with_suspend (OSTCBTbl s i))\<rparr>)"
      have sb: "same_but_task s ?s2" by (simp add: same_but_task_def set_rdy_def)
      have T2: "tinv ?s2" using same_but_task_tinv [OF sb] TI by simp
      have C2: "cur_ok ?s2" using same_but_task_cur [OF sb] CO by simp
      have U2: "unlocked ?s2 = unlocked s" using same_but_task_unlocked [OF sb] .
      have pt: "put_tcb (PTcb i) (with_suspend (OSTCBTbl s i)) (set_rdy r s) = ?s2" by (simp add: set_rdy_def)
      have run: "OSTaskSuspend prio s
        = (if ?p = c then do { s3 \<leftarrow> OSSched ?s2; Some (OS_NO_ERR, s3) } else Some (OS_NO_ERR, ?s2))"
        unfolding e using L r(1) w pt by (simp add: prio_at_def live_def Let_def)
      obtain s' where s': "OSTaskSuspend prio s = Some (OS_NO_ERR, s')" "stable s'" "same_but_sched ?s2 s'"
      proof (cases "?p = c")
        case True
        obtain s3 where "OSSched ?s2 = Some s3" "same_but_sched ?s2 s3" "stable s3"
          using stable_sched [OF r(3) T2] C2 by blast
        with run True that show thesis by simp
      next
        case False
        have "highest_ready ?s2 = highest_ready s" if "unlocked s"
        proof (rule highest_minus [OF K r(3)])
          show "ready ?s2 = ready s - {?p}" using r(2) by simp
          show "?p \<noteq> highest_ready s" using that assms(1) False c(1) by (simp add: stable_def)
        qed
        then have "stable ?s2" using r(3) T2 C2 U2 assms(1) by (simp add: stable_def)
        with run False that same_but_sched_refl show thesis by simp
      qed
      note fr = same_but_sched_frame [OF s'(3)]
      have "unlocked s' = unlocked s" using U2 same_but_sched_unlocked [OF s'(3)] by simp
      then show ?thesis using s'(1,2) fr L r(2) ok nid False
        by (intro exI [of _ OS_NO_ERR] exI [of _ s']) (auto simp: Let_def simp del: fun_upd_apply)
    qed
  qed
qed

text \<open>Suspending a task takes it out of the ready list and marks it, whatever it is doing: its
  delay, its event and its place in a wait list stay, and no other task changes. A task that
  suspends itself gives up the processor. The idle task, a priority out of range and a task that
  does not exist are refused unchanged.\<close>
theorem OSTaskSuspend_spec:
  assumes "stable s" and "unat (OSPrioCur s) \<noteq> OS_IDLE_PRIO"
  shows "\<exists>err s'. OSTaskSuspend prio s = Some (err, s') \<and> stable s' \<and>
    (let p = target prio s in
     if p = OS_IDLE_PRIO then err = OS_TASK_SUSPEND_IDLE \<and> s' = s
     else if p > OS_LOWEST_PRIO then err = OS_PRIO_INVALID \<and> s' = s
     else if OSTCBPrioTbl s p = PNull then err = OS_TASK_SUSPEND_PRIO \<and> s' = s
     else err = OS_NO_ERR \<and> ready s' = ready s - {p} \<and> OSEventTbl_g s' = OSEventTbl_g s
       \<and> unlocked s' = unlocked s \<and> OSTCBPrioTbl s' = OSTCBPrioTbl s
       \<and> (\<exists>i. live s p i \<and> OSTCBTbl s' = (OSTCBTbl s)(i := with_suspend (OSTCBTbl s i))))"
  by (rule OSTaskSuspend_ok [OF assms])

theorem OSTaskSuspend_spec_witness:
  "(\<exists>s'. OSTaskSuspend OS_PRIO_SELF sample = Some (OS_NO_ERR, s') \<and> ready s' = {19, 20} \<and> stable s') \<and>
   (\<exists>s'. OSTaskSuspend 7 sample = Some (OS_NO_ERR, s') \<and> waiters s' 0 = {7}) \<and>
   OSTaskSuspend 15 sample = Some (OS_TASK_SUSPEND_PRIO, sample)"
proof -
  have t: "target 7 sample = 7" "target OS_PRIO_SELF sample = 5" "target 15 sample = 15"
    "OSTCBPrioTbl sample 7 \<noteq> PNull" "OSTCBPrioTbl sample 5 \<noteq> PNull" "OSTCBPrioTbl sample 15 = PNull"
    "\<not> OS_LOWEST_PRIO < 7" "\<not> OS_LOWEST_PRIO < 5" "\<not> OS_LOWEST_PRIO < 15" "OS_IDLE_PRIO = 20"
    unfolding target_def by code_simp+
  have e: "{5, 19, 20 :: nat} - {5} = {19, 20}" by auto
  note d = OSTaskSuspend_spec [OF sample_stable sample_cur(2)]
  have "\<exists>s'. OSTaskSuspend OS_PRIO_SELF sample = Some (OS_NO_ERR, s') \<and> ready s' = {19, 20} \<and> stable s'"
    using d [of OS_PRIO_SELF] e unfolding t Let_def sample_ready by (auto simp: t)
  moreover have "\<exists>s'. OSTaskSuspend 7 sample = Some (OS_NO_ERR, s') \<and> waiters s' 0 = {7}"
    using d [of 7] unfolding t Let_def by (auto simp: t sample_waiters)
  moreover have "OSTaskSuspend 15 sample = Some (OS_TASK_SUSPEND_PRIO, sample)"
    using d [of 15] unfolding t Let_def by (auto simp: t)
  ultimately show ?thesis by blast
qed

lemma OSTaskResume_ok:
  assumes "stable s"
  shows "\<exists>err s'. OSTaskResume prio s = Some (err, s') \<and> stable s' \<and>
    (let p = unat prio in
     if p \<ge> OS_LOWEST_PRIO then err = OS_PRIO_INVALID \<and> s' = s
     else if OSTCBPrioTbl s p = PNull then err = OS_TASK_RESUME_PRIO \<and> s' = s
     else \<exists>i. live s p i \<and>
       (if suspended (OSTCBTbl s i)
        then err = OS_NO_ERR \<and> OSTCBTbl s' = (OSTCBTbl s)(i := without_suspend (OSTCBTbl s i))
          \<and> OSEventTbl_g s' = OSEventTbl_g s \<and> OSTCBPrioTbl s' = OSTCBPrioTbl s \<and> unlocked s' = unlocked s
          \<and> ready s' = (if OSTCBDly (OSTCBTbl s i) = 0 \<and> OSTCBEventPtr (OSTCBTbl s i) = PNull
                        then insert p (ready s) else ready s)
        else err = OS_TASK_NOT_SUSPENDED \<and> s' = s))"
proof (cases "unat prio \<ge> OS_LOWEST_PRIO \<or> OSTCBPrioTbl s (unat prio) = PNull")
  case True
  then show ?thesis using assms by (auto simp: OSTaskResume_def prio_at_def Let_def)
next
  case False
  let ?p = "unat prio"
  have K: "kinv s" and TI: "tinv s" and CO: "cur_ok s" using assms by (auto simp: stable_def)
  have pL: "?p \<le> OS_LOWEST_PRIO" "OSTCBPrioTbl s ?p \<noteq> PNull" using False by auto
  obtain i where L: "live s ?p i" using kinvD_live [OF K pL] .
  have at: "prio_at s prio = Some (PTcb i)" "i < N_TCB" using L by (auto simp: prio_at_def live_def)
  let ?t = "OSTCBTbl s i" and ?w = "without_suspend (OSTCBTbl s i)"
  let ?s1 = "s\<lparr>OSTCBTbl := (OSTCBTbl s)(i := ?w)\<rparr>"
  note ok = kinvD_task [OF K L] and sst = suspend_stat [OF kinvD_task [OF K L]]
  have g: "\<not> unat prio \<ge> OS_LOWEST_PRIO" using False by simp
  show ?thesis
  proof (cases "suspended ?t")
    case ns: False
    then have "OSTaskResume prio s = Some (OS_TASK_NOT_SUSPENDED, s)"
      using g at by (simp add: OSTaskResume_def suspended_def)
    then show ?thesis using ns False L assms by (auto simp: Let_def)
  next
    case su: True
    have e: "OSTaskResume prio s = (if OSTCBStat ?w = OS_STAT_RDY \<and> OSTCBDly ?t = 0
       then do { s2 \<leftarrow> rdy_enter ?w ?s1; s3 \<leftarrow> OSSched s2; Some (OS_NO_ERR, s3) }
       else Some (OS_NO_ERR, ?s1))"
      using g at su by (simp add: OSTaskResume_def suspended_def without_suspend_def Let_def)
    have r0: "OSTCBStat ?w = OS_STAT_RDY \<longleftrightarrow> OSTCBEventPtr ?t = PNull" using sst(4,6) by simp
    have sb: "same_but_task s ?s1" by (simp add: same_but_task_def)
    show ?thesis
    proof (cases "OSTCBDly ?t = 0 \<and> OSTCBEventPtr ?t = PNull")
      case True
      have pf: "prio_fields ?w ?p" "OSTCBDly ?w = 0" "\<not> suspended ?w" "OSTCBEventPtr ?w = OSTCBEventPtr ?t"
        "OSTCBStat ?w \<in> {link_bit (OSEventTbl_g s) ?w, link_bit (OSEventTbl_g s) ?w OR OS_STAT_SUSPEND}"
        using sst True live_prio [OF K L] by simp_all
      obtain r where r: "rdy_enter ?w ?s1 = Some (set_rdy r ?s1)" "prio_members r = insert ?p (ready s)"
        "kinv (set_rdy r ?s1)"
        using kinv_make_ready [OF K L pf] .
      have sb2: "same_but_task s (set_rdy r ?s1)" by (simp add: same_but_task_def set_rdy_def)
      have T2: "tinv (set_rdy r ?s1)" using same_but_task_tinv [OF sb2] TI by simp
      have C2: "cur_ok (set_rdy r ?s1)" using same_but_task_cur [OF sb2] CO by simp
      obtain s3 where s3: "OSSched (set_rdy r ?s1) = Some s3" "same_but_sched (set_rdy r ?s1) s3" "stable s3"
        using stable_sched [OF r(3) T2] C2 by blast
      then have "OSTaskResume prio s = Some (OS_NO_ERR, s3)"
        unfolding e using True r0 r(1) by simp
      then show ?thesis using True su False L r(2) s3(3) same_but_sched_frame [OF s3(2)]
        by (intro exI [of _ OS_NO_ERR] exI [of _ s3], simp add: Let_def del: fun_upd_apply split del: if_split)
          (intro exI [of _ i], simp add: unlocked_def del: fun_upd_apply)
    next
      case no: False
      have "?p \<notin> ready s" using ok su by (auto simp: task_ok_def)
      then have "task_ok (rdy s) (OSEventTbl_g s) ?p ?w"
        using ok no sst unfolding task_ok_def by auto
      then have K1: "kinv ?s1"
        using kinvD_rdy [OF K] kinvD_idle [OF K] by (intro kinv_update [OF K L, where t' = ?w]) auto
      have "tinv ?s1" using same_but_task_tinv [OF sb] TI by simp
      moreover have "cur_ok ?s1" using same_but_task_cur [OF sb] CO by simp
      moreover have "unlocked ?s1 \<longrightarrow> unat (OSPrioCur ?s1) = highest_ready ?s1"
        using assms by (simp add: stable_def unlocked_def highest_ready_def)
      ultimately have "stable ?s1" using K1 by (simp add: stable_def)
      moreover have "OSTaskResume prio s = Some (OS_NO_ERR, ?s1)"
        unfolding e using no r0 by auto
      ultimately show ?thesis using no su False L
        by (intro exI [of _ OS_NO_ERR] exI [of _ ?s1], simp add: Let_def del: fun_upd_apply split del: if_split)
          (intro exI [of _ i], auto simp add: unlocked_def simp del: fun_upd_apply)
    qed
  qed
qed

text \<open>Resuming a suspended task removes the mark, and makes the task ready exactly when nothing
  else holds it: neither a delay nor an event. A task that is not suspended, one that does not
  exist and a priority out of range are refused unchanged; no other task changes, and the
  highest priority ready task runs afterwards.\<close>
theorem OSTaskResume_spec:
  assumes "stable s"
  shows "\<exists>err s'. OSTaskResume prio s = Some (err, s') \<and> stable s' \<and>
    (let p = unat prio in
     if p \<ge> OS_LOWEST_PRIO then err = OS_PRIO_INVALID \<and> s' = s
     else if OSTCBPrioTbl s p = PNull then err = OS_TASK_RESUME_PRIO \<and> s' = s
     else \<exists>i. live s p i \<and>
       (if suspended (OSTCBTbl s i)
        then err = OS_NO_ERR \<and> OSTCBTbl s' = (OSTCBTbl s)(i := without_suspend (OSTCBTbl s i))
          \<and> OSEventTbl_g s' = OSEventTbl_g s \<and> OSTCBPrioTbl s' = OSTCBPrioTbl s \<and> unlocked s' = unlocked s
          \<and> ready s' = (if OSTCBDly (OSTCBTbl s i) = 0 \<and> OSTCBEventPtr (OSTCBTbl s i) = PNull
                        then insert p (ready s) else ready s)
        else err = OS_TASK_NOT_SUSPENDED \<and> s' = s))"
  by (rule OSTaskResume_ok [OF assms])

theorem OSTaskResume_spec_witness:
  "(\<exists>s'. OSTaskResume 13 sample = Some (OS_NO_ERR, s') \<and> 13 \<in> ready s' \<and> stable s') \<and>
   (\<exists>s'. OSTaskResume 14 sample = Some (OS_NO_ERR, s') \<and> 14 \<notin> ready s')"
proof -
  have a: "OSTCBPrioTbl sample 13 = PTcb 8" "OSTCBPrioTbl sample 14 = PTcb 9"
    "suspended (OSTCBTbl sample 8)" "suspended (OSTCBTbl sample 9)"
    "OSTCBDly (OSTCBTbl sample 8) = 0" "OSTCBDly (OSTCBTbl sample 9) \<noteq> 0"
    "OSTCBEventPtr (OSTCBTbl sample 8) = PNull" "\<not> OS_LOWEST_PRIO \<le> 13" "\<not> OS_LOWEST_PRIO \<le> 14"
    unfolding suspended_def by code_simp+
  have l: "live sample 13 i \<longleftrightarrow> i = 8" "live sample 14 i \<longleftrightarrow> i = 9" for i
    using a by (auto simp: live_def config_defs)
  show ?thesis
    using OSTaskResume_spec [OF sample_stable, of 13] OSTaskResume_spec [OF sample_stable, of 14] a l
    by (auto simp: Let_def sample_ready)
qed

section \<open>A suspension undone\<close>

lemma with_without: "task_ok m E p t \<Longrightarrow> \<not> suspended t \<Longrightarrow> without_suspend (with_suspend t) = t"
proof -
  assume a: "task_ok m E p t" "\<not> suspended t"
  have b: "link_bit E t \<in> {OS_STAT_RDY, OS_STAT_SEM, OS_STAT_MBOX, OS_STAT_Q}" by (rule link_bit_cases)
  have "(OSTCBStat t OR OS_STAT_SUSPEND) AND NOT OS_STAT_SUSPEND = OSTCBStat t"
    using suspend_stat(5) [OF a] stat_bits(3) [OF b] by simp
  then show ?thesis by (simp add: with_suspend_def without_suspend_def)
qed

text \<open>Suspending another task and resuming it gives back its control block and the ready list
  exactly, whatever the task was doing, if the task was not suspended and was not caught between
  the end of its timeout and its next turn.\<close>
theorem suspend_resume_round_trip:
  assumes "stable s" and "unat (OSPrioCur s) \<noteq> OS_IDLE_PRIO" and "live s (unat prio) i"
    and "unat prio \<noteq> OS_IDLE_PRIO" and "\<not> suspended (OSTCBTbl s i)"
    and "unat prio \<in> ready s \<longrightarrow> OSTCBEventPtr (OSTCBTbl s i) = PNull"
  shows "\<exists>s1 s2. OSTaskSuspend prio s = Some (OS_NO_ERR, s1) \<and> unat prio \<notin> ready s1
    \<and> OSTaskResume prio s1 = Some (OS_NO_ERR, s2) \<and> stable s2
    \<and> ready s2 = ready s \<and> OSTCBTbl s2 = OSTCBTbl s \<and> OSEventTbl_g s2 = OSEventTbl_g s"
proof -
  let ?p = "unat prio" and ?t = "OSTCBTbl s i"
  have K: "kinv s" using assms(1) by (simp add: stable_def)
  note ok = kinvD_task [OF K assms(3)]
  have pL: "?p < OS_LOWEST_PRIO" "OSTCBPrioTbl s ?p = PTcb i" "i < N_TCB"
    using assms(3,4) by (auto simp: live_def OS_IDLE_PRIO_def)
  have "prio \<noteq> OS_PRIO_SELF" using pL(1) by (auto simp: config_defs)
  then have tg: "target prio s = ?p" by (simp add: target_def)
  have "\<exists>s1. OSTaskSuspend prio s = Some (OS_NO_ERR, s1) \<and> stable s1 \<and> ready s1 = ready s - {?p}
    \<and> OSEventTbl_g s1 = OSEventTbl_g s \<and> OSTCBPrioTbl s1 = OSTCBPrioTbl s
    \<and> (\<exists>j. live s ?p j \<and> OSTCBTbl s1 = (OSTCBTbl s)(j := with_suspend (OSTCBTbl s j)))"
    using OSTaskSuspend_ok [OF assms(1,2), of prio] pL assms(4)
    by (simp add: tg Let_def del: fun_upd_apply) blast
  then obtain s1 j where s1: "OSTaskSuspend prio s = Some (OS_NO_ERR, s1)" "stable s1"
    "ready s1 = ready s - {?p}" "OSEventTbl_g s1 = OSEventTbl_g s" "OSTCBPrioTbl s1 = OSTCBPrioTbl s"
    "live s ?p j" "OSTCBTbl s1 = (OSTCBTbl s)(j := with_suspend (OSTCBTbl s j))"
    by blast
  have ji: "j = i" using live_unique [OF s1(6) assms(3)] .
  have t1: "OSTCBTbl s1 i = with_suspend ?t" using s1(7) ji by simp
  have l1: "live s1 ?p k \<longleftrightarrow> k = i" for k using s1(5) pL by (auto simp: live_def)
  have su: "suspended (OSTCBTbl s1 i)" unfolding t1 by (rule suspend_stat(1) [OF ok])
  have "\<exists>s2. OSTaskResume prio s1 = Some (OS_NO_ERR, s2) \<and> stable s2
    \<and> OSTCBTbl s2 = (OSTCBTbl s1)(i := without_suspend (OSTCBTbl s1 i)) \<and> OSEventTbl_g s2 = OSEventTbl_g s1
    \<and> ready s2 = (if OSTCBDly (OSTCBTbl s1 i) = 0 \<and> OSTCBEventPtr (OSTCBTbl s1 i) = PNull
                  then insert ?p (ready s1) else ready s1)"
    using OSTaskResume_ok [OF s1(2), of prio] pL s1(5) su
    by (simp add: l1 Let_def del: fun_upd_apply split del: if_split) blast
  then obtain s2 where s2: "OSTaskResume prio s1 = Some (OS_NO_ERR, s2)" "stable s2"
    "OSTCBTbl s2 = (OSTCBTbl s1)(i := without_suspend (OSTCBTbl s1 i))" "OSEventTbl_g s2 = OSEventTbl_g s1"
    "ready s2 = (if OSTCBDly (OSTCBTbl s1 i) = 0 \<and> OSTCBEventPtr (OSTCBTbl s1 i) = PNull
                  then insert ?p (ready s1) else ready s1)"
    by blast
  have "OSTCBTbl s2 = OSTCBTbl s"
    using s2(3) s1(7) ji with_without [OF ok assms(5)] by simp
  moreover have "OSTCBDly ?t = 0 \<and> OSTCBEventPtr ?t = PNull \<longleftrightarrow> ?p \<in> ready s"
    using ok assms(5,6) unfolding task_ok_def by blast
  then have "ready s2 = ready s" using s2(5) s1(3) by (auto simp: t1)
  moreover have "?p \<notin> ready s1" using s1(3) by simp
  ultimately show ?thesis using s1(1,4) s2(1,2,4) by metis
qed

theorem suspend_resume_round_trip_witness:
  "\<exists>s1 s2. OSTaskSuspend 7 sample = Some (OS_NO_ERR, s1) \<and> OSTaskResume 7 s1 = Some (OS_NO_ERR, s2)
     \<and> OSTCBTbl s2 = OSTCBTbl sample"
proof -
  have a: "live sample (unat (7 :: INT8U)) 3" by (simp add: live_def sample_def config_defs)
  have b: "unat (7 :: INT8U) \<noteq> OS_IDLE_PRIO" "\<not> suspended (OSTCBTbl sample 3)"
    unfolding suspended_def by code_simp+
  have c: "unat (7 :: INT8U) \<in> ready sample \<longrightarrow> OSTCBEventPtr (OSTCBTbl sample 3) = PNull"
    by (simp add: sample_ready)
  from suspend_resume_round_trip [OF sample_stable sample_cur(2) a b c] show ?thesis by blast
qed

section \<open>Findings\<close>

text \<open>Two calls of the kernel on states that its own services reach, after which it follows a pointer
  that leads nowhere or forgets a task. They are evaluated on the sample state; three ticks let
  the timeout of the task at priority 11 run out while a task of higher priority is running, so
  that it is ready and still stands in the wait list of the semaphore 6.\<close>

definition timed_out_move :: "os \<Rightarrow> (INT8U \<times> os) option" where
  "timed_out_move s = do {
     s1 \<leftarrow> OSTimeTick s;
     s2 \<leftarrow> OSTimeTick s1;
     s3 \<leftarrow> OSTimeTick s2;
     (err, s4) \<leftarrow> OSTaskChangePrio 11 15 s3;
     OSSemPost (PEvent 6) s4
   }"

lemma OSTaskChangePrio_stale_waiter: "timed_out_move sample = None"
  by code_simp

definition timed_out_suspend :: "os \<Rightarrow> os option" where
  "timed_out_suspend s = do {
     s1 \<leftarrow> OSTimeTick s;
     s2 \<leftarrow> OSTimeTick s1;
     s3 \<leftarrow> OSTimeTick s2;
     (err, s4) \<leftarrow> OSTaskSuspend 11 s3;
     (err, s5) \<leftarrow> OSTaskResume 11 s4;
     Some s5
   }"

lemma OSTaskResume_loses_timeout:
  "case timed_out_suspend sample of
     Some s \<Rightarrow> 11 \<notin> set (members_list (rdy s)) \<and> OSTCBDly (OSTCBTbl s 6) = 0
       \<and> OSTCBEventPtr (OSTCBTbl s 6) = PEvent 6
   | None \<Rightarrow> False"
  by code_simp

text \<open>A priority that no task has, moved to itself: the reservation mark is taken for a task.\<close>

lemma OSTaskChangePrio_same_unused: "OSTaskChangePrio 15 15 sample = None"
  by code_simp

end
