(* ===== verification/Event_Objects.thy ===== *)
theory Event_Objects
  imports Queues
begin

text \<open>
  The creation of semaphores, mailboxes and queues from the pool of free event control blocks
  (\<open>OSSemCreate\<close>, \<open>OSMboxCreate\<close>, \<open>OSQCreate\<close>) and, for queues, from the pool of free queue control
  blocks. The pools are linked lists inside the tables; a created object is empty, nobody waits
  for it, and no object in use changes.
\<close>

section \<open>A fresh event control block\<close>

text \<open>The event control block that a create function leaves: \<open>E\<close> with no task waiting.\<close>

definition no_waiters :: "OS_EVENT \<Rightarrow> OS_EVENT" where
  "no_waiters E = E\<lparr>OSEventGrp := 0,
     OSEventTbl := (\<lambda>i. if i < OS_EVENT_TBL_SIZE then 0 else OSEventTbl E i)\<rparr>"

lemma no_waiters_ok: "prio_map_ok (waiting (no_waiters E)) \<and> prio_members (waiting (no_waiters E)) = {}"
  by (auto simp: no_waiters_def waiting_def tbl_wf_def prios_def)

lemma no_waiters_sel [simp]:
  "OSEventType (no_waiters E) = OSEventType E" "OSEventCnt (no_waiters E) = OSEventCnt E"
  "OSEventPtr (no_waiters E) = OSEventPtr E"
  by (simp_all add: no_waiters_def)

lemma OSEventWaitListInit_eq:
  "e < OS_MAX_EVENTS \<Longrightarrow> OSEventWaitListInit (PEvent e) s
    = Some (s\<lparr>OSEventTbl_g := (OSEventTbl_g s)(e := no_waiters (OSEventTbl_g s e))\<rparr>)"
  by (simp add: OSEventWaitListInit_def no_waiters_def)

text \<open>No task refers to an event for which nobody waits, so the block may be overwritten.\<close>

lemma kinv_of_fresh_event:
  assumes K: "kinv_of m P T E" and e: "e < OS_MAX_EVENTS" "waiters_in E e = {}"
    and E': "prio_map_ok (waiting F)" "prio_members (waiting F) = {}"
  shows "kinv_of m P T (E(e := F))"
proof -
  have ok: "task_ok m (E(e := F)) p t" if "task_ok m E p t" for p t
    using that e(2) unfolding task_ok_def link_bit_def by (auto split: ptr.splits)
  show ?thesis
    using K E' ok unfolding kinv_of_def by (auto 4 3)
qed

definition with_event :: "nat \<Rightarrow> OS_EVENT \<Rightarrow> os \<Rightarrow> os" where
  "with_event e E s = s\<lparr>OSEventFreeList := OSEventPtr (OSEventTbl_g s e),
     OSEventTbl_g := (OSEventTbl_g s)(e := E)\<rparr>"

lemma with_event_ok:
  assumes "kinv s" and "elist s (e # es)" and "E = no_waiters F" and "OSEventType F \<noteq> 0"
  shows "kinv (with_event e E s)" and "elist (with_event e E s) es" and "e < OS_MAX_EVENTS"
    and "waiters (with_event e E s) = (waiters s)(e := {})" and "OSEventType (OSEventTbl_g s e) = 0"
proof -
  show e: "e < OS_MAX_EVENTS" and "OSEventType (OSEventTbl_g s e) = 0"
    using assms(2) by (auto simp: elist_def)
  have w: "waiters s e = {}" using assms(2) by (auto simp: elist_def)
  show "kinv (with_event e E s)"
    using kinv_of_fresh_event [OF assms(1) [unfolded kinv_def] e w] no_waiters_ok [of F] assms(3)
    by (simp add: kinv_def with_event_def)
  have "chain PEvent (\<lambda>d. OSEventPtr (((OSEventTbl_g s)(e := E)) d)) (OSEventPtr (OSEventTbl_g s e)) es
      = chain PEvent (\<lambda>d. OSEventPtr (OSEventTbl_g s d)) (OSEventPtr (OSEventTbl_g s e)) es"
    by (rule chain_cong) (use assms(2) in \<open>auto simp: elist_def\<close>)
  then show "elist (with_event e E s) es"
    using assms(2) by (auto simp: elist_def with_event_def split: if_splits)
  show "waiters (with_event e E s) = (waiters s)(e := {})"
    using no_waiters_ok [of F] assms(3) by (auto simp: with_event_def fun_eq_iff)
qed

lemma with_event_sel:
  "OSEventTbl_g (with_event e E s) e = E" "d \<noteq> e \<Longrightarrow> OSEventTbl_g (with_event e E s) d = OSEventTbl_g s d"
  "OSTCBTbl (with_event e E s) = OSTCBTbl s" "rdy (with_event e E s) = rdy s"
  by (simp_all add: with_event_def)

section \<open>Semaphores and mailboxes\<close>

lemma create_eqs:
  assumes "elist s (e # es)"
  shows "OSSemCreate cnt s = Some (PEvent e, with_event e
      (no_waiters ((OSEventTbl_g s e)\<lparr>OSEventType := OS_EVENT_TYPE_SEM, OSEventCnt := cnt\<rparr>)) s)"
    and "OSMboxCreate msg s = Some (PEvent e, with_event e
      (no_waiters ((OSEventTbl_g s e)\<lparr>OSEventType := OS_EVENT_TYPE_MBOX, OSEventPtr := msg\<rparr>)) s)"
proof -
  have "e < OS_MAX_EVENTS" using assms by (simp add: elist_def)
  then show "OSSemCreate cnt s = Some (PEvent e, with_event e
      (no_waiters ((OSEventTbl_g s e)\<lparr>OSEventType := OS_EVENT_TYPE_SEM, OSEventCnt := cnt\<rparr>)) s)"
    and "OSMboxCreate msg s = Some (PEvent e, with_event e
      (no_waiters ((OSEventTbl_g s e)\<lparr>OSEventType := OS_EVENT_TYPE_MBOX, OSEventPtr := msg\<rparr>)) s)"
    using event_alloc_post [OF assms]
    by (simp_all add: OSSemCreate_def OSMboxCreate_def OSEventWaitListInit_eq with_event_def)
qed

text \<open>Creating a semaphore or a mailbox takes the first free event control block, gives it the type
  and the initial value asked for, and clears its wait list; no other event changes, the pool
  loses exactly that block, and the invariants are kept. With an empty pool a null pointer is
  returned and nothing changes.\<close>
theorem event_create_spec:
  assumes "kinv s" and "elist s es"
  shows "case es of
      [] \<Rightarrow> OSSemCreate cnt s = Some (PNull, s) \<and> OSMboxCreate msg s = Some (PNull, s)
    | e # es' \<Rightarrow>
        (\<exists>s'. OSSemCreate cnt s = Some (PEvent e, s') \<and> kinv s' \<and> elist s' es' \<and> is_sem s' e
          \<and> OSEventCnt (OSEventTbl_g s' e) = cnt \<and> waiters s' = (waiters s)(e := {})
          \<and> (\<forall>d. d \<noteq> e \<longrightarrow> OSEventTbl_g s' d = OSEventTbl_g s d) \<and> OSTCBTbl s' = OSTCBTbl s \<and> rdy s' = rdy s) \<and>
        (\<exists>s'. OSMboxCreate msg s = Some (PEvent e, s') \<and> kinv s' \<and> elist s' es' \<and> is_mbox s' e
          \<and> OSEventPtr (OSEventTbl_g s' e) = msg \<and> waiters s' = (waiters s)(e := {})
          \<and> (\<forall>d. d \<noteq> e \<longrightarrow> OSEventTbl_g s' d = OSEventTbl_g s d) \<and> OSTCBTbl s' = OSTCBTbl s \<and> rdy s' = rdy s)"
proof (cases es)
  case Nil
  then show ?thesis using event_alloc_post [OF assms(2)]
    by (simp add: OSSemCreate_def OSMboxCreate_def)
next
  case (Cons e es')
  note el = assms(2) [unfolded Cons]
  have t: "OSEventType ((OSEventTbl_g s e)\<lparr>OSEventType := OS_EVENT_TYPE_SEM, OSEventCnt := cnt\<rparr>) \<noteq> 0"
    "OSEventType ((OSEventTbl_g s e)\<lparr>OSEventType := OS_EVENT_TYPE_MBOX, OSEventPtr := msg\<rparr>) \<noteq> 0"
    by (simp_all add: type_defs)
  note w1 = with_event_ok [OF assms(1) el refl t(1)] and w2 = with_event_ok [OF assms(1) el refl t(2)]
  show ?thesis
    unfolding Cons list.case create_eqs [OF el]
    using w1(1-4) w2(1,2,4) by (simp add: with_event_sel)
qed

lemma sample_elist: "elist sample [9 ..< OS_MAX_EVENTS]"
proof -
  have "[9 ..< OS_MAX_EVENTS] = [9, 10, 11, 12, 13, 14, 15, 16, 17, 18, 19]"
    by (simp add: config_defs upt_conv_Cons)
  moreover have "elist sample [9, 10, 11, 12, 13, 14, 15, 16, 17, 18, 19]"
    unfolding elist_def members_list by code_simp
  ultimately show ?thesis by simp
qed

theorem event_create_spec_witness:
  "(\<exists>s'. OSSemCreate 3 sample = Some (PEvent 9, s') \<and> is_sem s' 9 \<and> elist s' [10 ..< OS_MAX_EVENTS])
   \<and> (\<exists>s'. OSMboxCreate (PAddr 77) sample = Some (PEvent 9, s') \<and> is_mbox s' 9)"
proof -
  have "[9 ..< OS_MAX_EVENTS] = 9 # [10 ..< OS_MAX_EVENTS]" by (simp add: config_defs upt_conv_Cons)
  with event_create_spec [OF sample_kinv sample_elist, of 3 "PAddr 77"] show ?thesis by auto
qed

section \<open>Queues\<close>

text \<open>The pool of free queue control blocks.\<close>

definition qlist :: "os \<Rightarrow> nat list \<Rightarrow> bool" where
  "qlist s ks \<longleftrightarrow> chain PQueue (\<lambda>k. OSQPtr (OSQTbl s k)) (OSQFreeList s) ks \<and> distinct ks \<and>
     (\<forall>k \<in> set ks. k < OS_MAX_QS \<and> (\<forall>e. is_q s e \<longrightarrow> OSEventPtr (OSEventTbl_g s e) \<noteq> PQueue k))"

definition new_queue :: "addr \<Rightarrow> INT16U \<Rightarrow> OS_Q \<Rightarrow> OS_Q" where
  "new_queue start sz q = q\<lparr>OSQStart := start, OSQEnd := start + PTR_SIZE * uint sz, OSQIn := start,
     OSQOut := start, OSQSize := sz, OSQEntries := 0\<rparr>"

definition new_queue_event :: "nat \<Rightarrow> OS_EVENT \<Rightarrow> OS_EVENT" where
  "new_queue_event k E = no_waiters (E\<lparr>OSEventType := OS_EVENT_TYPE_Q, OSEventPtr := PQueue k\<rparr>)"

definition queue_created :: "nat \<Rightarrow> nat \<Rightarrow> addr \<Rightarrow> INT16U \<Rightarrow> os \<Rightarrow> os" where
  "queue_created e k start sz s = s\<lparr>OSEventFreeList := OSEventPtr (OSEventTbl_g s e),
     OSQFreeList := OSQPtr (OSQTbl s k), OSQTbl := (OSQTbl s)(k := new_queue start sz (OSQTbl s k)),
     OSEventTbl_g := (OSEventTbl_g s)(e := new_queue_event k (OSEventTbl_g s e))\<rparr>"

lemma OSQCreate_eq:
  assumes "elist s es" and "qlist s ks"
  shows "OSQCreate start sz s = (case es of [] \<Rightarrow> Some (PNull, s) | e # es' \<Rightarrow>
    (case ks of [] \<Rightarrow> Some (PNull, s) | k # ks' \<Rightarrow> Some (PEvent e, queue_created e k start sz s)))"
proof (cases es)
  case Nil
  then show ?thesis using event_alloc_post [OF assms(1)] by (simp add: OSQCreate_def)
next
  case (Cons e es')
  then have e: "e < OS_MAX_EVENTS" "OSEventFreeList s = PEvent e"
    using assms(1) by (auto simp: elist_def)
  note al = event_alloc_post [OF assms(1) [unfolded Cons], unfolded list.case]
  show ?thesis
  proof (cases ks)
    case Nil
    then have q: "OSQFreeList s = PNull" using assms(2) by (simp add: qlist_def)
    have "(OSEventTbl_g s)(e := (OSEventTbl_g s e)\<lparr>OSEventPtr := OSEventPtr (OSEventTbl_g s e)\<rparr>) = OSEventTbl_g s"
      by (rule ext) simp
    moreover have "s\<lparr>OSEventTbl_g := OSEventTbl_g s, OSEventFreeList := PEvent e\<rparr> = s"
      using e(2) by (cases s) simp
    ultimately show ?thesis
      using al e(1) q unfolding Nil Cons by (simp add: OSQCreate_def Let_def)
  next
    case (Cons k ks')
    then have q: "OSQFreeList s = PQueue k" "k < OS_MAX_QS" using assms(2) by (auto simp: qlist_def)
    show ?thesis
      using al e q unfolding \<open>es = e # es'\<close> Cons
      by (simp add: OSQCreate_def Let_def OSEventWaitListInit_eq queue_created_def new_queue_def new_queue_event_def)
  qed
qed

lemma new_queue_ok: "q_ok (new_queue start sz q)" "messages (new_queue start sz q, M) = []"
  "q_area (new_queue start sz q) = {a. start \<le> a \<and> a < start + PTR_SIZE * uint sz}"
  "OSQPtr (new_queue start sz q) = OSQPtr q"
  by (auto simp: new_queue_def q_ok_def q_off_def slot_def q_area_def)

lemma queue_created_sel:
  "OSEventTbl_g (queue_created e k start sz s) e = new_queue_event k (OSEventTbl_g s e)"
  "d \<noteq> e \<Longrightarrow> OSEventTbl_g (queue_created e k start sz s) d = OSEventTbl_g s d"
  "OSQTbl (queue_created e k start sz s) k = new_queue start sz (OSQTbl s k)"
  "l \<noteq> k \<Longrightarrow> OSQTbl (queue_created e k start sz s) l = OSQTbl s l"
  "mem_ptr (queue_created e k start sz s) = mem_ptr s" "OSTCBTbl (queue_created e k start sz s) = OSTCBTbl s"
  "rdy (queue_created e k start sz s) = rdy s"
  by (simp_all add: queue_created_def rdy_def)

lemma new_queue_event_sel:
  "OSEventType (new_queue_event k E) = OS_EVENT_TYPE_Q" "OSEventPtr (new_queue_event k E) = PQueue k"
  by (simp_all add: new_queue_event_def)

lemma queue_created_kinv:
  assumes "kinv s" and "elist s (e # es)"
  shows "kinv (queue_created e k start sz s)" and "elist (queue_created e k start sz s) es"
proof -
  have t: "OSEventType ((OSEventTbl_g s e)\<lparr>OSEventType := OS_EVENT_TYPE_Q, OSEventPtr := PQueue k\<rparr>) \<noteq> 0"
    by (simp add: type_defs)
  note w = with_event_ok [OF assms refl t, folded new_queue_event_def]
  have "kinv (queue_created e k start sz s) = kinv (with_event e (new_queue_event k (OSEventTbl_g s e)) s)"
    by (rule kinv_frame) (simp_all add: queue_created_def with_event_def)
  then show "kinv (queue_created e k start sz s)" using w(1) by simp
  have "elist (queue_created e k start sz s) es = elist (with_event e (new_queue_event k (OSEventTbl_g s e)) s) es"
    by (simp add: elist_def queue_created_def with_event_def)
  then show "elist (queue_created e k start sz s) es" using w(2) by simp
qed

lemma queue_created_qinv:
  assumes q: "qinv s" and el: "elist s (e # es)" and ql: "qlist s (k # ks)"
    and fresh: "\<And>d l. is_q s d \<Longrightarrow> OSEventPtr (OSEventTbl_g s d) = PQueue l \<Longrightarrow>
      q_area (OSQTbl s l) \<inter> {a. start \<le> a \<and> a < start + PTR_SIZE * uint sz} = {}"
  shows "qinv (queue_created e k start sz s)" and "qlist (queue_created e k start sz s) ks"
proof -
  let ?s = "queue_created e k start sz s"
  have e: "e < OS_MAX_EVENTS" "OSEventType (OSEventTbl_g s e) = 0" using el by (auto simp: elist_def)
  have k: "k < OS_MAX_QS" "\<And>d. is_q s d \<Longrightarrow> OSEventPtr (OSEventTbl_g s d) \<noteq> PQueue k"
    using ql by (auto simp: qlist_def)
  have isq: "is_q ?s d \<longleftrightarrow> d = e \<or> is_q s d" for d
    using e by (cases "d = e") (simp_all add: queue_created_sel new_queue_event_sel)
  have ptr: "OSEventPtr (OSEventTbl_g ?s d) = (if d = e then PQueue k else OSEventPtr (OSEventTbl_g s d))" for d
    by (simp add: queue_created_sel new_queue_event_sel)
  have tbl: "OSQTbl ?s l = (if l = k then new_queue start sz (OSQTbl s k) else OSQTbl s l)" for l
    by (simp add: queue_created_sel)
  have nk: "l \<noteq> k" if "is_q s d" "OSEventPtr (OSEventTbl_g s d) = PQueue l" for d l
    using k(2) that by blast
  show "qinv ?s"
    unfolding qinv_def
  proof (rule conjI; intro allI impI)
    fix d assume "is_q ?s d"
    then consider "d = e" | "d \<noteq> e" "is_q s d" using isq by blast
    then show "\<exists>l < OS_MAX_QS. OSEventPtr (OSEventTbl_g ?s d) = PQueue l \<and> q_ok (OSQTbl ?s l)"
    proof cases
      case 1
      then show ?thesis using k(1) new_queue_ok(1) by (simp add: ptr tbl)
    next
      case 2
      then obtain l where "l < OS_MAX_QS" "OSEventPtr (OSEventTbl_g s d) = PQueue l" "q_ok (OSQTbl s l)"
        using q unfolding qinv_def by blast
      with 2 nk show ?thesis by (simp add: ptr tbl)
    qed
  next
    fix d f l m
    assume a: "is_q ?s d" "is_q ?s f" "d \<noteq> f" "OSEventPtr (OSEventTbl_g ?s d) = PQueue l"
      "OSEventPtr (OSEventTbl_g ?s f) = PQueue m"
    consider "d = e" "is_q s f" "f \<noteq> e" | "f = e" "is_q s d" "d \<noteq> e" | "d \<noteq> e" "f \<noteq> e" "is_q s d" "is_q s f"
      using iffD1 [OF isq a(1)] iffD1 [OF isq a(2)] a(3) by metis
    then show "l \<noteq> m \<and> q_area (OSQTbl ?s l) \<inter> q_area (OSQTbl ?s m) = {}"
    proof cases
      case 1
      then have p: "l = k" "OSEventPtr (OSEventTbl_g s f) = PQueue m" using a(4,5) ptr by auto
      show ?thesis using p(1) nk [OF 1(2) p(2)] fresh [OF 1(2) p(2)] by (simp add: tbl new_queue_ok Int_commute)
    next
      case 2
      then have p: "m = k" "OSEventPtr (OSEventTbl_g s d) = PQueue l" using a(4,5) ptr by auto
      show ?thesis using p(1) nk [OF 2(2) p(2)] fresh [OF 2(2) p(2)] by (simp add: tbl new_queue_ok)
    next
      case 3
      then have p: "OSEventPtr (OSEventTbl_g s d) = PQueue l" "OSEventPtr (OSEventTbl_g s f) = PQueue m"
        using a(4,5) ptr by auto
      show ?thesis
        using nk [OF 3(3) p(1)] nk [OF 3(4) p(2)] qinv_disjoint [OF q 3(3,4) a(3) p] unfolding tbl by simp
    qed
  qed
  have kk: "k \<notin> set ks" "distinct ks" "chain PQueue (\<lambda>l. OSQPtr (OSQTbl s l)) (OSQPtr (OSQTbl s k)) ks"
    using ql by (auto simp: qlist_def)
  have "(\<lambda>l. OSQPtr (OSQTbl ?s l)) = (\<lambda>l. OSQPtr (OSQTbl s l))"
    by (simp add: tbl new_queue_ok fun_eq_iff)
  then have "chain PQueue (\<lambda>l. OSQPtr (OSQTbl ?s l)) (OSQFreeList ?s) ks"
    using kk(3) by (simp add: queue_created_def)
  then show "qlist ?s ks"
    using kk ql isq ptr unfolding qlist_def by auto
qed

text \<open>Creating a queue over a storage area that no other queue uses takes one block from each of
  the two pools and gives an empty queue of the size asked for, for which nobody waits; the other
  queues keep their messages, and every invariant is kept. If either pool is empty a null pointer
  is returned and nothing changes: the event control block already taken is given back.\<close>
theorem queue_create_spec:
  assumes "kinv s" and "elist s es" and "qinv s" and "qlist s ks"
    and "\<forall>d l. is_q s d \<longrightarrow> OSEventPtr (OSEventTbl_g s d) = PQueue l \<longrightarrow>
      q_area (OSQTbl s l) \<inter> {a. start \<le> a \<and> a < start + 4 * uint sz} = {}"
  shows "if es = [] \<or> ks = [] then OSQCreate start sz s = Some (PNull, s)
    else \<exists>s'. OSQCreate start sz s = Some (PEvent (hd es), s') \<and> kinv s' \<and> elist s' (tl es)
      \<and> qinv s' \<and> qlist s' (tl ks) \<and> is_q s' (hd es) \<and> q_msgs s' (hd es) = [] \<and> q_cap s' (hd es) = unat sz
      \<and> waiters s' = (waiters s)(hd es := {})
      \<and> (\<forall>d. is_q s d \<longrightarrow> d \<noteq> hd es \<and> is_q s' d \<and> q_msgs s' d = q_msgs s d \<and> q_cap s' d = q_cap s d)"
proof (cases "es = [] \<or> ks = []")
  case True
  then show ?thesis using OSQCreate_eq [OF assms(2,4), of start sz] by (auto split: list.splits)
next
  case False
  then obtain e es' k ks' where eq: "es = e # es'" "ks = k # ks'" by (auto simp: neq_Nil_conv)
  note el = assms(2) [unfolded eq] and ql = assms(4) [unfolded eq]
  let ?s = "queue_created e k start sz s"
  have run: "OSQCreate start sz s = Some (PEvent e, ?s)"
    using OSQCreate_eq [OF assms(2,4), of start sz] unfolding eq by simp
  have e: "e < OS_MAX_EVENTS" "OSEventType (OSEventTbl_g s e) = 0" and k: "k < OS_MAX_QS"
    using el ql by (auto simp: elist_def qlist_def)
  have qe: "is_q ?s e" "queue_of ?s e = Some (new_queue start sz (OSQTbl s k))"
    using e(1) k by (simp_all add: queue_created_sel new_queue_event_sel queue_of_def)
  have new: "q_msgs ?s e = []" "q_cap ?s e = unat sz"
    using qe(2) by (simp_all add: q_msgs_def q_cap_def new_queue_ok del: messages.simps)
      (simp add: new_queue_def)
  have others: "d \<noteq> e \<and> is_q ?s d \<and> q_msgs ?s d = q_msgs s d \<and> q_cap ?s d = q_cap s d" if d: "is_q s d" for d
  proof -
    have de: "d \<noteq> e" using d e(2) by (auto simp: type_defs)
    obtain l where l: "l < OS_MAX_QS" "OSEventPtr (OSEventTbl_g s d) = PQueue l"
      by (rule qinvE [OF assms(3) d])
    have "l \<noteq> k" using ql d l(2) by (auto simp: qlist_def)
    then have "queue_of ?s d = queue_of s d" using l de by (simp add: queue_of_def queue_created_sel)
    then show ?thesis using d de unfolding q_msgs_def q_cap_def by (simp add: queue_created_sel split: option.split)
  qed
  have w: "waiters ?s = (waiters s)(e := {})"
    using no_waiters_ok by (auto simp: queue_created_def new_queue_event_def fun_eq_iff)
  have fr: "q_area (OSQTbl s l) \<inter> {a. start \<le> a \<and> a < start + PTR_SIZE * uint sz} = {}"
    if "is_q s d" "OSEventPtr (OSEventTbl_g s d) = PQueue l" for d l
    using assms(5) [rule_format, OF that] by (simp add: PTR_SIZE_def)
  note K = queue_created_kinv [OF assms(1) el, of k start sz]
  note Q = queue_created_qinv [OF assms(3) el ql fr]
  show ?thesis
    unfolding run eq using K Q qe(1) new w others by (simp del: fun_upd_apply)
qed

text \<open>The sample state with its first queue taken out of use.\<close>

definition sample_one_queue :: os where
  "sample_one_queue = sample\<lparr>OSQFreeList := PQueue 0,
     OSEventTbl_g := (OSEventTbl_g sample)(4 := sample_event PNull 0 99 0 0)\<rparr>"

lemma sample_one_queue_inv:
  "kinv sample_one_queue" "elist sample_one_queue [9 ..< OS_MAX_EVENTS]" "qinv sample_one_queue"
  "qlist sample_one_queue [0]" "is_q sample_one_queue d \<Longrightarrow> d = 5"
  "q_area (OSQTbl sample_one_queue 1) = {a. 2000 \<le> a \<and> a < 2016}"
  "OSEventPtr (OSEventTbl_g sample_one_queue 5) = PQueue 1"
proof -
  let ?s = sample_one_queue
  show "kinv ?s" unfolding kinv_def kinv_list by code_simp
  have upt: "[9 ..< OS_MAX_EVENTS] = [9, 10, 11, 12, 13, 14, 15, 16, 17, 18, 19]"
    by (simp add: config_defs upt_conv_Cons)
  show "elist ?s [9 ..< OS_MAX_EVENTS]"
    unfolding elist_def members_list upt by code_simp
  have "list_all (\<lambda>e. OSEventType (OSEventTbl_g ?s e) = OS_EVENT_TYPE_Q \<longrightarrow> e = 5) [0 ..< OS_MAX_EVENTS]"
    by code_simp
  then have only: "e = 5" if "is_q ?s e" for e using that by (simp add: list_all_iff)
  then show "is_q ?s d \<Longrightarrow> d = 5" .
  show a: "q_area (OSQTbl ?s 1) = {a. 2000 \<le> a \<and> a < 2016}"
    by (simp add: q_area_def sample_one_queue_def sample_def sample_queue_def)
  show p: "OSEventPtr (OSEventTbl_g ?s 5) = PQueue 1" by code_simp
  have "q_ok (OSQTbl ?s 1)" by code_simp
  then show "qinv ?s" using only p unfolding qinv_def by (auto simp: config_defs)
  have "OSQPtr (OSQTbl ?s 0) = PNull" "OSQFreeList ?s = PQueue 0" by code_simp+
  then show "qlist ?s [0]" using only p by (auto simp: qlist_def config_defs)
qed

theorem queue_create_spec_witness:
  "\<exists>s'. OSQCreate 3000 8 sample_one_queue = Some (PEvent 9, s') \<and> q_msgs s' 9 = [] \<and> q_cap s' 9 = 8 \<and> qinv s'"
proof -
  have fr: "q_area (OSQTbl sample_one_queue l) \<inter> {a. 3000 \<le> a \<and> a < 3000 + 4 * uint (8 :: INT16U)} = {}"
    if "is_q sample_one_queue d" "OSEventPtr (OSEventTbl_g sample_one_queue d) = PQueue l" for d l
  proof -
    have "d = 5" by (rule sample_one_queue_inv(5) [OF that(1)])
    with that(2) have "PQueue l = PQueue 1" using sample_one_queue_inv(7) by (metis (no_types))
    then have l: "l = 1" by simp
    show ?thesis unfolding l sample_one_queue_inv(6) by auto
  qed
  have u: "[9 ..< OS_MAX_EVENTS] = 9 # [10 ..< OS_MAX_EVENTS]" by (simp add: config_defs upt_conv_Cons)
  show ?thesis
    using queue_create_spec [OF sample_one_queue_inv(1-4), of 3000 8] fr u by auto
qed

end
