(* ===== verification/Kernel_Init.thy ===== *)
theory Kernel_Init
  imports Tasks Event_Objects Memory_Partitions Time_Management
begin

text \<open>
  The start of the kernel and its two own tasks: \<open>OSInit\<close>, the idle task, the statistics task and
  \<open>OSStatInit\<close> of OS\_CORE.C. The lemmas show that \<open>OSInit\<close> establishes every invariant of the
  development on zeroed event control blocks, that tasks can be created before multitasking
  starts, and that \<open>OSStart\<close> then leaves the highest priority task running.
\<close>

section \<open>Operations\<close>

text \<open>The addresses that the linker gives to the two tasks and to their stacks.\<close>

record image =
  addr_OSTaskIdle :: ptr
  addr_OSTaskStat :: ptr
  OSTaskIdleStk :: addr
  OSTaskStatStk :: addr

text \<open>The assignments and loops of \<open>OSInit\<close> before the first call.\<close>

definition init_globals :: "os \<Rightarrow> os" where
  "init_globals s =
     s\<lparr>OSTime := 0, OSIntNesting := 0, OSLockNesting := 0, OSTaskCtr := 0, OSRunning := 0,
       OSIdleCtr := 0, OSIdleCtrRun := 0, OSIdleCtrMax := 0, OSStatRdy := 0, OSCtxSwCtr := 0,
       OSRdyGrp := 0, OSRdyTbl := (\<lambda>i. if i < OS_RDY_TBL_SIZE then 0 else OSRdyTbl s i),
       OSPrioCur := 0, OSPrioHighRdy := 0, OSTCBHighRdy := PNull, OSTCBCur := PNull,
       OSTCBList := PNull,
       OSTCBPrioTbl := (\<lambda>i. if i < OS_LOWEST_PRIO + 1 then PNull else OSTCBPrioTbl s i),
       OSTCBTbl := (\<lambda>i. if i < OS_MAX_TASKS + OS_N_SYS_TASKS - 1
                        then (OSTCBTbl s i)\<lparr>OSTCBNext := PTcb (i + 1)\<rparr>
                        else if i = OS_MAX_TASKS + OS_N_SYS_TASKS - 1
                        then (OSTCBTbl s i)\<lparr>OSTCBNext := PNull\<rparr>
                        else OSTCBTbl s i),
       OSTCBFreeList := PTcb 0,
       OSEventTbl_g := (\<lambda>i. if i < OS_MAX_EVENTS - 1
                            then (OSEventTbl_g s i)\<lparr>OSEventPtr := PEvent (i + 1)\<rparr>
                            else if i = OS_MAX_EVENTS - 1 then (OSEventTbl_g s i)\<lparr>OSEventPtr := PNull\<rparr>
                            else OSEventTbl_g s i),
       OSEventFreeList := PEvent 0\<rparr>"

definition OSInit :: "cpu \<Rightarrow> image \<Rightarrow> os \<Rightarrow> os option" where
  "OSInit c img s = do {
     let s1 = OSMemInit (OSQInit (init_globals s));
     (err, s2) \<leftarrow> OSTaskCreateExt c (addr_OSTaskIdle img) PNull
       (PAddr (OSTaskIdleStk img + 2 * (int OS_TASK_IDLE_STK_SIZE - 1))) (of_nat OS_IDLE_PRIO)
       OS_TASK_IDLE_ID (PAddr (OSTaskIdleStk img)) (of_nat OS_TASK_IDLE_STK_SIZE) PNull
       (OS_TASK_OPT_STK_CHK OR OS_TASK_OPT_STK_CLR) s1;
     (err, s3) \<leftarrow> OSTaskCreateExt c (addr_OSTaskStat img) PNull
       (PAddr (OSTaskStatStk img + 2 * (int OS_TASK_STAT_STK_SIZE - 1))) (of_nat OS_STAT_PRIO)
       OS_TASK_STAT_ID (PAddr (OSTaskStatStk img)) (of_nat OS_TASK_STAT_STK_SIZE) PNull
       (OS_TASK_OPT_STK_CHK OR OS_TASK_OPT_STK_CLR) s2;
     Some s3
   }"

text \<open>\<open>OSStatInit\<close> is cut at its two delays: the caller is switched away inside them.\<close>

definition OSStatInit :: "os \<Rightarrow> os option" where
  "OSStatInit s = OSTimeDly 2 s"

definition OSStatInit_count :: "os \<Rightarrow> os option" where
  "OSStatInit_count s = OSTimeDly (ucast OS_TICKS_PER_SEC) (s\<lparr>OSIdleCtr := 0\<rparr>)"

definition OSStatInit_end :: "os \<Rightarrow> os" where
  "OSStatInit_end s = s\<lparr>OSIdleCtrMax := OSIdleCtr s, OSStatRdy := 1\<rparr>"

text \<open>One turn of the idle task's loop.\<close>

definition OSTaskIdle :: "os \<Rightarrow> os" where
  "OSTaskIdle s = s\<lparr>OSIdleCtr := OSIdleCtr s + 1\<rparr>"

definition OSTaskStatHook :: "os \<Rightarrow> os" where
  "OSTaskStatHook s = s"

text \<open>The statistics task: one turn of the loop that waits for \<open>OSStatInit\<close>, and one turn of the
  measuring loop, each up to its delay. The computation of \<open>usage\<close> is unsigned in 32 bits (one
  operand is an \<open>INT32U\<close>); the cast takes its low byte as a signed number.\<close>

definition OSTaskStat_wait :: "os \<Rightarrow> os option" where
  "OSTaskStat_wait s =
     (if OSStatRdy s = 0 then OSTimeDly (ucast (2 * OS_TICKS_PER_SEC)) s else Some s)"

definition stat_usage :: "INT32U \<Rightarrow> INT32U \<Rightarrow> INT8S" where
  "stat_usage run m = ucast (100 - 100 * run div m)"

definition stat_measure :: "os \<Rightarrow> os" where
  "stat_measure s =
     (let s1 = s\<lparr>OSIdleCtrRun := OSIdleCtr s\<rparr>;
          run = OSIdleCtr s1;
          s2 = s1\<lparr>OSIdleCtr := 0\<rparr>
      in if OSIdleCtrMax s2 > 0
         then let usage = stat_usage run (OSIdleCtrMax s2)
              in if sint usage > 100 then s2\<lparr>OSCPUUsage := 100\<rparr>
                 else if sint usage < 0 then s2\<lparr>OSCPUUsage := 0\<rparr>
                 else s2\<lparr>OSCPUUsage := usage\<rparr>
         else s2\<lparr>OSCPUUsage := 0\<rparr>)"

definition OSTaskStat :: "os \<Rightarrow> os option" where
  "OSTaskStat s = OSTimeDly (ucast OS_TICKS_PER_SEC) (OSTaskStatHook (stat_measure s))"

section \<open>Creating tasks before the start\<close>

text \<open>What a creation before the start leaves alone.\<close>

definition boot_frame :: "os \<Rightarrow> os \<Rightarrow> bool" where
  "boot_frame s s' \<longleftrightarrow> OSRunning s' = OSRunning s \<and> OSLockNesting s' = OSLockNesting s
     \<and> OSIntNesting s' = OSIntNesting s \<and> OSEventTbl_g s' = OSEventTbl_g s
     \<and> OSEventFreeList s' = OSEventFreeList s \<and> OSQTbl s' = OSQTbl s \<and> OSQFreeList s' = OSQFreeList s
     \<and> OSMemTbl s' = OSMemTbl s \<and> OSMemFreeList_g s' = OSMemFreeList_g s \<and> mem_ptr s' = mem_ptr s
     \<and> OSTime s' = OSTime s \<and> OSTCBCur s' = OSTCBCur s"

lemma boot_create:
  assumes L: "tlinks (OSTCBTbl s) (OSTCBList s) (OSTCBFreeList s) xs (i # ys)"
    and p: "unat prio \<le> OS_LOWEST_PRIO" and W: "prio_map_ok (rdy s)" and run: "OSRunning s = 0"
    and s2_def: "s2 = (put_prio prio POne s)\<lparr>mem_stk := m\<rparr>"
  obtains s' where
    "Option.bind (OSTCBInit prio psp pbos tid n pext opt s2) (\<lambda>(err, s3). create_tail prio err s3)
      = Some (OS_NO_ERR, s')"
    and "OSTCBPrioTbl s' = (OSTCBPrioTbl s)(unat prio := PTcb i)"
    and "OSTCBList s' = PTcb i" and "OSTCBFreeList s' = OSTCBNext (OSTCBTbl s i)"
    and "prio_map_ok (rdy s')" and "ready s' = insert (unat prio) (ready s)"
    and "OSTCBTbl s' i = new_tcb prio psp pbos tid n pext opt (OSTCBList s)"
    and "relinked ((OSTCBTbl s)(i := OSTCBTbl s' i)) (OSTCBTbl s')"
    and "tlinks (OSTCBTbl s') (PTcb i) (OSTCBNext (OSTCBTbl s i)) (i # xs) ys"
    and "OSTaskCtr s' = OSTaskCtr s + 1" and "boot_frame s s'"
proof -
  have s2: "OSTCBTbl s2 = OSTCBTbl s" "OSTCBList s2 = OSTCBList s" "OSTCBFreeList s2 = OSTCBFreeList s"
    "rdy s2 = rdy s" "OSTCBPrioTbl s2 = (OSTCBPrioTbl s)(unat prio := POne)"
    by (simp_all add: s2_def put_prio_def)
  have lk: "tlinks (OSTCBTbl s2) (OSTCBList s2) (OSTCBFreeList s2) xs (i # ys)"
    using L s2 by simp
  have W2: "prio_map_ok (rdy s2)" using W s2(4) by simp
  obtain r T' where r: "OSTCBInit prio psp pbos tid n pext opt s2
    = Some (OS_NO_ERR, set_rdy r (s2\<lparr>OSTCBFreeList := OSTCBNext (OSTCBTbl s2 i),
        OSTCBPrioTbl := (OSTCBPrioTbl s2)(unat prio := PTcb i), OSTCBTbl := T', OSTCBList := PTcb i\<rparr>))"
    "prio_map_ok r" "prio_members r = insert (unat prio) (ready s2)"
    "T' i = new_tcb prio psp pbos tid n pext opt (OSTCBList s2)"
    "relinked ((OSTCBTbl s2)(i := T' i)) T'"
    "tlinks T' (PTcb i) (OSTCBNext (OSTCBTbl s2 i)) (i # xs) ys"
    using OSTCBInit_post [OF lk p W2, of psp pbos tid n pext opt] .
  let ?s3 = "set_rdy r (s2\<lparr>OSTCBFreeList := OSTCBNext (OSTCBTbl s2 i),
        OSTCBPrioTbl := (OSTCBPrioTbl s2)(unat prio := PTcb i), OSTCBTbl := T', OSTCBList := PTcb i\<rparr>)"
  let ?s4 = "?s3\<lparr>OSTaskCtr := OSTaskCtr s + 1\<rparr>"
  have "Option.bind (OSTCBInit prio psp pbos tid n pext opt s2) (\<lambda>(err, s3). create_tail prio err s3)
      = Some (OS_NO_ERR, ?s4)"
    using r(1) run p
    by (simp add: create_tail_def OSTaskCreateHook_def prio_at_def s2_def put_prio_def)
  then show thesis
  proof (rule that)
    show "boot_frame s ?s4" by (simp add: boot_frame_def s2_def put_prio_def)
    show "OSTCBPrioTbl ?s4 = (OSTCBPrioTbl s)(unat prio := PTcb i)" by (simp add: s2(5))
    show "OSTCBList ?s4 = PTcb i" "OSTaskCtr ?s4 = OSTaskCtr s + 1" by simp_all
    show "OSTCBFreeList ?s4 = OSTCBNext (OSTCBTbl s i)" using s2(1) by simp
    show "prio_map_ok (rdy ?s4)" "ready ?s4 = insert (unat prio) (ready s)" using r(2,3) s2(4) by simp_all
    show "OSTCBTbl ?s4 i = new_tcb prio psp pbos tid n pext opt (OSTCBList s)" using r(4) s2(2) by simp
    show "relinked ((OSTCBTbl s)(i := OSTCBTbl ?s4 i)) (OSTCBTbl ?s4)" using r(5) s2(1) by simp
    show "tlinks (OSTCBTbl ?s4) (PTcb i) (OSTCBNext (OSTCBTbl s i)) (i # xs) ys" using r(6) s2(1) by simp
  qed
qed

text \<open>The two calls of \<open>OSTaskCreateExt\<close> in \<open>OSInit\<close> clear their stacks.\<close>

lemma create_ext_cleared:
  assumes "n < 65536" and "unat prio \<le> OS_LOWEST_PRIO" and "OSTCBPrioTbl s (unat prio) = PNull"
  shows "\<exists>m. OSTaskCreateExt c task pdata (PAddr a) prio tid (PAddr b) (of_nat n) pext
      (OS_TASK_OPT_STK_CHK OR OS_TASK_OPT_STK_CLR) s
    = Option.bind (OSTCBInit prio (PAddr (a - 32)) (PAddr b) tid (ucast (of_nat n :: INT32U)) pext
          (OS_TASK_OPT_STK_CHK OR OS_TASK_OPT_STK_CLR) ((put_prio prio POne s)\<lparr>mem_stk := m\<rparr>))
        (\<lambda>(err, s3). create_tail prio err s3)"
proof -
  have o: "(OS_TASK_OPT_STK_CHK OR OS_TASK_OPT_STK_CLR) AND OS_TASK_OPT_STK_CHK \<noteq> 0"
    "(OS_TASK_OPT_STK_CHK OR OS_TASK_OPT_STK_CLR) AND OS_TASK_OPT_STK_CLR \<noteq> 0"
    by code_simp+
  let ?s = "put_prio prio POne s"
  have "stk_fill 0 (of_nat n) b (mem_stk ?s)
      = Some (\<lambda>x. if \<exists>k < n. x = b + 2 * int k then 0 else mem_stk ?s x)"
    using assms(1) by (intro stk_fill_ok) simp_all
  then show ?thesis
    using assms(2,3) o
    by (simp add: OSTaskCreateExt_def prio_at_def OSTaskStkInit_eq stk_clear_def Let_def)
      (intro exI, rule refl)
qed

section \<open>Initialisation\<close>

text \<open>The event control blocks as the C language leaves static storage: all zero. \<open>OSInit\<close> only
  links them, so it relies on this.\<close>

definition zeroed_events :: "os \<Rightarrow> bool" where
  "zeroed_events s \<longleftrightarrow> (\<forall>e < OS_MAX_EVENTS. OSEventType (OSEventTbl_g s e) = 0
     \<and> OSEventGrp (OSEventTbl_g s e) = 0 \<and> (\<forall>y < OS_EVENT_TBL_SIZE. OSEventTbl (OSEventTbl_g s e) y = 0))"

lemma zero_map: "fst m = 0 \<Longrightarrow> (\<And>y. y < n \<Longrightarrow> snd m y = 0) \<Longrightarrow> n \<le> 8 \<Longrightarrow> tbl_wf n m \<and> prios n m = {}"
  by (auto simp: tbl_wf_def prios_def)

lemma chain_upt:
  assumes "n > 0"
  shows "m \<le> n \<Longrightarrow> (\<And>i. i < n \<Longrightarrow> nxt i = (if i < n - 1 then mk (i + 1) else PNull)) \<Longrightarrow>
    chain mk nxt (if m < n then mk m else PNull) [m ..< n]"
proof (induction "n - m" arbitrary: m)
  case 0
  then show ?case by simp
next
  case (Suc d)
  then have m: "m < n" by simp
  then have "nxt m = (if Suc m < n then mk (Suc m) else PNull)"
    using Suc.prems(2) [OF m] by auto
  moreover have "chain mk nxt (if Suc m < n then mk (Suc m) else PNull) [Suc m ..< n]"
    using Suc.hyps(2) Suc.prems(2) m by (intro Suc.hyps(1)) auto
  ultimately show ?case using m by (simp add: upt_conv_Cons)
qed

definition cleared :: "os \<Rightarrow> os" where
  "cleared s = OSMemInit (OSQInit (init_globals s))"

lemma cleared_frame:
  "OSRunning (cleared s) = 0" "OSLockNesting (cleared s) = 0" "OSIntNesting (cleared s) = 0"
  "OSTCBList (cleared s) = PNull" "OSTCBFreeList (cleared s) = PTcb 0" "OSTaskCtr (cleared s) = 0"
  "p \<le> OS_LOWEST_PRIO \<Longrightarrow> OSTCBPrioTbl (cleared s) p = PNull"
  "OSTime (cleared s) = 0" "OSMemFreeList_g (cleared s) = PMem 0" "OSQFreeList (cleared s) = PQueue 0"
  "OSEventType (OSEventTbl_g (cleared s) e) = OSEventType (OSEventTbl_g s e)"
  "waiting (OSEventTbl_g (cleared s) e) = waiting (OSEventTbl_g s e)"
  by (simp_all add: cleared_def OSMemInit_def OSQInit_def init_globals_def waiting_def)

lemma cleared_rdy: "prio_map_ok (rdy (cleared s)) \<and> ready (cleared s) = {}"
  by (rule zero_map) (simp_all add: rdy_def cleared_def OSMemInit_def OSQInit_def init_globals_def)

lemma cleared_waiting:
  "zeroed_events s \<Longrightarrow> e < OS_MAX_EVENTS \<Longrightarrow>
   prio_map_ok (waiting (OSEventTbl_g (cleared s) e)) \<and> waiters (cleared s) e = {}"
  unfolding cleared_frame by (rule zero_map) (auto simp: zeroed_events_def waiting_def)

lemma cleared_tlinks:
  "tlinks (OSTCBTbl (cleared s)) (OSTCBList (cleared s)) (OSTCBFreeList (cleared s)) [] [0 ..< N_TCB]"
proof -
  have N: "N_TCB = OS_MAX_TASKS + OS_N_SYS_TASKS" "0 < N_TCB" by (simp_all add: config_defs)
  have "tcb_chain (OSTCBTbl (cleared s)) (if 0 < N_TCB then PTcb 0 else PNull) [0 ..< N_TCB]"
    using N by (intro chain_upt) (auto simp: cleared_def OSMemInit_def OSQInit_def init_globals_def)
  then show ?thesis using N by (auto simp: tlinks_def cleared_frame)
qed

lemma cleared_elist: "zeroed_events s \<Longrightarrow> elist (cleared s) [0 ..< OS_MAX_EVENTS]"
proof -
  assume z: "zeroed_events s"
  have N: "0 < OS_MAX_EVENTS" by (simp add: config_defs)
  have "chain PEvent (\<lambda>e. OSEventPtr (OSEventTbl_g (cleared s) e)) (if 0 < OS_MAX_EVENTS then PEvent 0 else PNull)
     [0 ..< OS_MAX_EVENTS]"
    using N by (intro chain_upt) (auto simp: cleared_def OSMemInit_def OSQInit_def init_globals_def)
  moreover have "OSEventFreeList (cleared s) = PEvent 0"
    by (simp add: cleared_def OSMemInit_def OSQInit_def init_globals_def)
  ultimately show ?thesis
    using z N cleared_waiting [OF z] by (auto simp: elist_def cleared_frame zeroed_events_def)
qed

lemma cleared_qlist: "zeroed_events s \<Longrightarrow> qlist (cleared s) [0 ..< OS_MAX_QS]"
proof -
  assume z: "zeroed_events s"
  have N: "0 < OS_MAX_QS" by (simp add: config_defs)
  have "chain PQueue (\<lambda>k. OSQPtr (OSQTbl (cleared s) k)) (if 0 < OS_MAX_QS then PQueue 0 else PNull) [0 ..< OS_MAX_QS]"
    using N by (intro chain_upt) (auto simp: cleared_def OSMemInit_def OSQInit_def init_globals_def)
  then show ?thesis
    using z N by (auto simp: qlist_def cleared_frame zeroed_events_def type_defs)
qed

lemma kinv_idle_only:
  assumes "prio_map_ok m" and "prio_members m = {OS_IDLE_PRIO}" and "P OS_IDLE_PRIO = PTcb i"
    and "i < N_TCB" and "\<And>p. p \<le> OS_LOWEST_PRIO \<Longrightarrow> p \<noteq> OS_IDLE_PRIO \<Longrightarrow> P p = PNull"
    and "task_ok m E OS_IDLE_PRIO (T i)"
    and "\<And>e. e < OS_MAX_EVENTS \<Longrightarrow> prio_map_ok (waiting (E e)) \<and> waiters_in E e = {}"
  shows "kinv_of m P T E"
  unfolding kinv_of_def
proof (intro conjI allI impI ballI)
  show "\<exists>i < N_TCB. P p = PTcb i \<and> task_ok m E p (T i)" if "p \<le> OS_LOWEST_PRIO" "P p \<noteq> PNull" for p
    using that assms(3-6) by (cases "p = OS_IDLE_PRIO") auto
qed (use assms(1-3,7) in \<open>auto simp: OS_IDLE_PRIO_def\<close>)

lemma prio_of_nat: "p \<le> OS_LOWEST_PRIO \<Longrightarrow> unat (of_nat p :: INT8U) = p"
  by (simp add: unsigned_of_nat take_bit_nat_eq_self config_defs)

lemma sys_prios: "OS_IDLE_PRIO \<le> OS_LOWEST_PRIO" "OS_STAT_PRIO \<le> OS_LOWEST_PRIO" "OS_STAT_PRIO \<noteq> OS_IDLE_PRIO"
  "OS_STAT_PRIO < OS_IDLE_PRIO"
  by (simp_all add: config_defs)

definition sys_tcb :: "nat \<Rightarrow> addr \<Rightarrow> INT16U \<Rightarrow> nat \<Rightarrow> ptr \<Rightarrow> OS_TCB" where
  "sys_tcb p stk tid n nxt = new_tcb (of_nat p) (PAddr (stk + 2 * (int n - 1) - 32)) (PAddr stk) tid
     (ucast (of_nat n :: INT32U)) PNull (OS_TASK_OPT_STK_CHK OR OS_TASK_OPT_STK_CLR) nxt"

lemma boot_frame_trans: "boot_frame s t \<Longrightarrow> boot_frame t u \<Longrightarrow> boot_frame s u"
  by (simp add: boot_frame_def)

lemma relinked_msg: "relinked T T' \<Longrightarrow> OSTCBMsg (T' j) = OSTCBMsg (T j)"
  unfolding relinked_def by (metis OS_TCB.select_convs(10) OS_TCB.surjective OS_TCB.update_convs(7) OS_TCB.update_convs(8))

lemma OSInit_ok:
  assumes z: "zeroed_events s"
  obtains s' where "OSInit c img s = Some s'" and "kinv s'" and "tlists s' [1, 0] [2 ..< N_TCB]"
    and "boot_frame (cleared s) s'" and "ready s' = {OS_STAT_PRIO, OS_IDLE_PRIO}"
    and "OSTaskCtr s' = 2" and "\<forall>p i. live s' p i \<longleftrightarrow> p = OS_IDLE_PRIO \<and> i = 0 \<or> p = OS_STAT_PRIO \<and> i = 1"
    and "OSTCBMsg (OSTCBTbl s' 0) = PNull" and "OSTCBMsg (OSTCBTbl s' 1) = PNull"
proof -
  let ?s = "cleared s" and ?o = "OS_TASK_OPT_STK_CHK OR OS_TASK_OPT_STK_CLR"
  let ?ip = "of_nat OS_IDLE_PRIO :: INT8U" and ?sp = "of_nat OS_STAT_PRIO :: INT8U"
  have ip: "unat ?ip = OS_IDLE_PRIO" "unat ?ip \<le> OS_LOWEST_PRIO"
    and sp: "unat ?sp = OS_STAT_PRIO" "unat ?sp \<le> OS_LOWEST_PRIO"
    using prio_of_nat sys_prios by simp_all
  have N: "[0 ..< N_TCB] = 0 # 1 # [2 ..< N_TCB]" "2 < N_TCB" by (simp_all add: config_defs upt_conv_Cons)
  have sz: "OS_TASK_IDLE_STK_SIZE < 65536" "OS_TASK_STAT_STK_SIZE < 65536"
    by (simp_all add: OS_TASK_IDLE_STK_SIZE_def OS_TASK_STAT_STK_SIZE_def)
  have lk: "tlinks (OSTCBTbl ?s) (OSTCBList ?s) (OSTCBFreeList ?s) [] (0 # 1 # [2 ..< N_TCB])"
    using cleared_tlinks N(1) by simp
  have free0: "OSTCBPrioTbl ?s (unat ?ip) = PNull" using cleared_frame(7) ip(2) by blast
  obtain m where e1: "OSTaskCreateExt c (addr_OSTaskIdle img) PNull
       (PAddr (OSTaskIdleStk img + 2 * (int OS_TASK_IDLE_STK_SIZE - 1))) ?ip OS_TASK_IDLE_ID
       (PAddr (OSTaskIdleStk img)) (of_nat OS_TASK_IDLE_STK_SIZE) PNull ?o ?s
    = Option.bind (OSTCBInit ?ip (PAddr (OSTaskIdleStk img + 2 * (int OS_TASK_IDLE_STK_SIZE - 1) - 32))
        (PAddr (OSTaskIdleStk img)) OS_TASK_IDLE_ID (ucast (of_nat OS_TASK_IDLE_STK_SIZE :: INT32U)) PNull ?o
        ((put_prio ?ip POne ?s)\<lparr>mem_stk := m\<rparr>)) (\<lambda>(err, s3). create_tail ?ip err s3)"
    using create_ext_cleared [OF sz(1) ip(2) free0] by blast
  obtain a where b: "OSTaskCreateExt c (addr_OSTaskIdle img) PNull
       (PAddr (OSTaskIdleStk img + 2 * (int OS_TASK_IDLE_STK_SIZE - 1))) ?ip OS_TASK_IDLE_ID
       (PAddr (OSTaskIdleStk img)) (of_nat OS_TASK_IDLE_STK_SIZE) PNull ?o ?s = Some (OS_NO_ERR, a)"
    "OSTCBPrioTbl a = (OSTCBPrioTbl ?s)(unat ?ip := PTcb 0)" "OSTCBList a = PTcb 0"
    "OSTCBFreeList a = OSTCBNext (OSTCBTbl ?s 0)" "prio_map_ok (rdy a)"
    "ready a = insert (unat ?ip) (ready ?s)"
    "OSTCBTbl a 0 = sys_tcb OS_IDLE_PRIO (OSTaskIdleStk img) OS_TASK_IDLE_ID OS_TASK_IDLE_STK_SIZE (OSTCBList ?s)"
    "tlinks (OSTCBTbl a) (PTcb 0) (OSTCBNext (OSTCBTbl ?s 0)) [0] (1 # [2 ..< N_TCB])"
    "OSTaskCtr a = OSTaskCtr ?s + 1" "boot_frame ?s a"
    unfolding e1 sys_tcb_def
    by (rule boot_create [OF lk ip(2) conjunct1 [OF cleared_rdy] cleared_frame(1) refl])
  have fa: "OSEventTbl_g a = OSEventTbl_g ?s" "OSRunning a = 0"
    using b(10) by (simp_all add: boot_frame_def cleared_frame)
  have ra: "ready a = {OS_IDLE_PRIO}" using b(6) cleared_rdy ip(1) by simp
  have Pa: "OSTCBPrioTbl a p = (if p = OS_IDLE_PRIO then PTcb 0 else PNull)" if "p \<le> OS_LOWEST_PRIO" for p
    using b(2) ip(1) cleared_frame(7) [OF that] by simp
  have la: "live a p i \<longleftrightarrow> p = OS_IDLE_PRIO \<and> i = 0" for p i
    using Pa N(2) sys_prios(1) by (auto simp: live_def split: if_splits)
  have ta: "tlists a [0] (1 # [2 ..< N_TCB])"
    unfolding tlists_links using b(3,4,8) la by simp
  have oka: "task_ok (rdy a) (OSEventTbl_g a) OS_IDLE_PRIO (OSTCBTbl a 0)"
    using new_tcb_ok [of ?ip "rdy a"] ra ip(1) b(7) by (simp add: sys_tcb_def)
  have Ka: "kinv a"
    unfolding kinv_def
  proof (rule kinv_idle_only [where i = 0])
    show "prio_map_ok (waiting (OSEventTbl_g a e)) \<and> waiters a e = {}" if "e < OS_MAX_EVENTS" for e
      unfolding fa(1) by (rule cleared_waiting [OF z that])
  qed (use b(5) ra Pa N(2) oka sys_prios(1) in simp_all)
  have free1: "OSTCBPrioTbl a (unat ?sp) = PNull" using Pa sp sys_prios by simp
  have lk1: "tlinks (OSTCBTbl a) (OSTCBList a) (OSTCBFreeList a) [0] (1 # [2 ..< N_TCB])"
    using b(3,4,8) by simp
  obtain m1 where e2: "OSTaskCreateExt c (addr_OSTaskStat img) PNull
       (PAddr (OSTaskStatStk img + 2 * (int OS_TASK_STAT_STK_SIZE - 1))) ?sp OS_TASK_STAT_ID
       (PAddr (OSTaskStatStk img)) (of_nat OS_TASK_STAT_STK_SIZE) PNull ?o a
    = Option.bind (OSTCBInit ?sp (PAddr (OSTaskStatStk img + 2 * (int OS_TASK_STAT_STK_SIZE - 1) - 32))
        (PAddr (OSTaskStatStk img)) OS_TASK_STAT_ID (ucast (of_nat OS_TASK_STAT_STK_SIZE :: INT32U)) PNull ?o
        ((put_prio ?sp POne a)\<lparr>mem_stk := m1\<rparr>)) (\<lambda>(err, s3). create_tail ?sp err s3)"
    using create_ext_cleared [OF sz(2) sp(2) free1] by blast
  obtain d where d: "OSTaskCreateExt c (addr_OSTaskStat img) PNull
       (PAddr (OSTaskStatStk img + 2 * (int OS_TASK_STAT_STK_SIZE - 1))) ?sp OS_TASK_STAT_ID
       (PAddr (OSTaskStatStk img)) (of_nat OS_TASK_STAT_STK_SIZE) PNull ?o a = Some (OS_NO_ERR, d)"
    "OSTCBPrioTbl d = (OSTCBPrioTbl a)(unat ?sp := PTcb 1)" "OSTCBList d = PTcb 1"
    "OSTCBFreeList d = OSTCBNext (OSTCBTbl a 1)" "prio_map_ok (rdy d)"
    "ready d = insert (unat ?sp) (ready a)"
    "OSTCBTbl d 1 = sys_tcb OS_STAT_PRIO (OSTaskStatStk img) OS_TASK_STAT_ID OS_TASK_STAT_STK_SIZE (OSTCBList a)"
    "relinked ((OSTCBTbl a)(1 := OSTCBTbl d 1)) (OSTCBTbl d)"
    "tlinks (OSTCBTbl d) (PTcb 1) (OSTCBNext (OSTCBTbl a 1)) [1, 0] [2 ..< N_TCB]"
    "OSTaskCtr d = OSTaskCtr a + 1" "boot_frame a d"
    unfolding e2 sys_tcb_def by (rule boot_create [OF lk1 sp(2) b(5) fa(2) refl])
  have fd: "OSEventTbl_g d = OSEventTbl_g a" using d(11) by (simp add: boot_frame_def)
  have okd: "task_ok (rdy d) (OSEventTbl_g a) (unat ?sp) (OSTCBTbl d 1)"
    "OSTCBEventPtr (OSTCBTbl d 1) = PNull"
    using new_tcb_ok [of ?sp "rdy d"] d(6,7) by (simp_all add: sys_tcb_def new_tcb_def)
  note add = create_added [OF Ka ta sp(2) free1 d(2) fd d(3,4,5,6) okd d(8,9)]
  have ld: "live d p i \<longleftrightarrow> p = OS_IDLE_PRIO \<and> i = 0 \<or> p = OS_STAT_PRIO \<and> i = 1" for p i
    using add(3) la sp(1) by auto
  have "tlists d [1, 0] [2 ..< N_TCB]"
    unfolding tlists_links using d(3,4,9) ld by auto
  moreover have "OSInit c img s = Some d"
    using b(1) d(1) by (simp add: OSInit_def cleared_def)
  moreover have "ready d = {OS_STAT_PRIO, OS_IDLE_PRIO}" using d(6) ra sp(1) by simp
  moreover have "OSTaskCtr d = 2" using d(10) b(9) by (simp add: cleared_frame)
  moreover have "OSTCBMsg (OSTCBTbl d 0) = PNull" "OSTCBMsg (OSTCBTbl d 1) = PNull"
    using relinked_msg [OF d(8), of 0] b(7) d(7) by (simp_all add: sys_tcb_def new_tcb_def)
  ultimately show thesis using that add(1) boot_frame_trans [OF b(10) d(11)] ld by simp
qed

section \<open>Properties of the start\<close>


text \<open>A state with all its event control blocks zero and nothing else initialised.\<close>

definition zeroed :: os where
  "zeroed = sample\<lparr>OSEventTbl_g := (\<lambda>e. sample_event PNull 0 0 0 0)\<rparr>"

definition sample_image :: image where
  "sample_image = \<lparr>addr_OSTaskIdle = PAddr 32, addr_OSTaskStat = PAddr 48,
     OSTaskIdleStk = 10000, OSTaskStatStk = 12000\<rparr>"

lemma zeroed_ok: "zeroed_events zeroed"
  by (simp add: zeroed_events_def zeroed_def sample_event_def)


lemma OSStart_ok:
  assumes "kinv s" and "tinv s" and "unlocked s" and "OSRunning s = 0"
  obtains s' where "OSStart s = Some s'" and "task_level s'" and "unat (OSPrioCur s') = Min (ready s)"
    and "OSTCBCur s' = OSTCBPrioTbl s (Min (ready s))" and "OSTCBTbl s' = OSTCBTbl s"
    and "OSEventTbl_g s' = OSEventTbl_g s" and "ready s' = ready s" and "OSRunning s' = 1"
    and "OSEventFreeList s' = OSEventFreeList s"
    and "\<forall>p i. live s' p i = live s p i"
proof -
  obtain h where h: "tbl_highest OS_RDY_TBL_SIZE (rdy s) = Some h" "unat h = highest_ready s"
    using highest_tbl [OF assms(1)] .
  obtain i where i: "live s (unat h) i" using highest_ready_live [OF assms(1)] h(2) by metis
  let ?s = "s\<lparr>OSPrioHighRdy := h, OSPrioCur := h, OSTCBHighRdy := PTcb i, OSTCBCur := PTcb i, OSRunning := 1\<rparr>"
  have run: "OSStart s = Some ?s"
    using assms(4) h(1) i
    by (simp add: OSStart_def prio_at_def live_def OSStartHighRdy_def OSTaskSwHook_def)
  have "kinv ?s = kinv s" by (rule kinv_frame) simp_all
  moreover have "tinv ?s = tinv s" by (rule tinv_frame) simp_all
  moreover have "highest_ready ?s = highest_ready s" "unlocked ?s" "cur_ok ?s"
    using assms(3) i by (simp_all add: highest_ready_def unlocked_def cur_ok_def live_def)
  ultimately have "task_level ?s" using assms(1,2) h(2) by (simp add: task_level_def)
  then show thesis
    by (rule that [OF run]) (use h(2) i in \<open>simp_all add: highest_ready_def live_def OSStart_def\<close>)
qed

text \<open>\<open>OSStart\<close> starts multitasking with the highest priority ready task: from a state that the
  initialisation and the creation of tasks lead to, it never faults, sets \<open>OSRunning\<close>, makes that
  task current, and changes no task and no list; a second call does nothing.\<close>
theorem OSStart_runs_highest:
  assumes "kinv s" and "tinv s" and "unlocked s" and "OSRunning s = 0"
  shows "\<exists>s'. OSStart s = Some s' \<and> task_level s' \<and> OSRunning s' = 1
    \<and> unat (OSPrioCur s') = Min (ready s) \<and> OSTCBCur s' = OSTCBPrioTbl s (Min (ready s))
    \<and> OSTCBTbl s' = OSTCBTbl s \<and> OSEventTbl_g s' = OSEventTbl_g s \<and> ready s' = ready s
    \<and> OSStart s' = Some s'"
proof -
  obtain s' where s': "OSStart s = Some s'" "task_level s'" "unat (OSPrioCur s') = Min (ready s)"
    "OSTCBCur s' = OSTCBPrioTbl s (Min (ready s))" "OSTCBTbl s' = OSTCBTbl s"
    "OSEventTbl_g s' = OSEventTbl_g s" "ready s' = ready s" "OSRunning s' = 1"
    "OSEventFreeList s' = OSEventFreeList s" "\<forall>p i. live s' p i = live s p i"
    using OSStart_ok [OF assms] .
  moreover have "OSStart s' = Some s'" using s'(8) by (simp add: OSStart_def)
  ultimately show ?thesis by blast
qed

definition sample_stopped :: os where
  "sample_stopped = sample\<lparr>OSRunning := 0, OSTCBCur := PNull, OSPrioCur := 0\<rparr>"

theorem OSStart_runs_highest_witness:
  "\<exists>s'. OSStart sample_stopped = Some s' \<and> task_level s' \<and> unat (OSPrioCur s') = 5 \<and> OSTCBCur s' = PTcb 2"
proof -
  have "kinv sample_stopped = kinv sample" unfolding sample_stopped_def by (rule kinv_frame) simp_all
  moreover have "tinv sample_stopped = tinv sample" unfolding sample_stopped_def by (rule tinv_frame) simp_all
  ultimately have k: "kinv sample_stopped" "tinv sample_stopped" using sample_kinv sample_tinv by simp_all
  have u: "unlocked sample_stopped" "OSRunning sample_stopped = 0" "OSTCBPrioTbl sample_stopped 5 = PTcb 2"
    by (simp_all add: unlocked_def sample_stopped_def sample_def)
  have "ready sample_stopped = {5, 19, 20}" using sample_ready by (simp add: sample_stopped_def)
  with OSStart_runs_highest [OF k u(1,2)] u(3) show ?thesis by auto
qed

text \<open>The way an application starts: \<open>OSInit\<close>, the creation of a task, \<open>OSStart\<close>.\<close>

lemma no_waiters_free:
  assumes "kinv s" and "live s p i" and "\<And>e. e < OS_MAX_EVENTS \<Longrightarrow> waiters s e = {}"
  shows "OSTCBEventPtr (OSTCBTbl s i) = PNull"
  using kinvD_task [OF assms(1,2)] assms(3) unfolding task_ok_def by auto

lemma boot_ok:
  assumes "zeroed_events s" and "unat prio < OS_STAT_PRIO"
  obtains s1 s2 s3 where "OSInit c img s = Some s1"
    and "OSTaskCreate c task pdata (PAddr a) prio s1 = Some (OS_NO_ERR, s2)"
    and "OSStart s2 = Some s3" and "task_level s3" and "OSPrioCur s3 = prio" and "OSRunning s3 = 1"
    and "ready s3 = {unat prio, OS_STAT_PRIO, OS_IDLE_PRIO}" and "OSTaskCtr s2 = 3"
    and "OSTCBStkPtr (cur_task s3) = PAddr (a - 32)"
    and "OSEventTbl_g s3 = OSEventTbl_g (cleared s)" and "OSEventFreeList s3 = OSEventFreeList (cleared s)"
    and "\<And>p i. live s3 p i \<Longrightarrow> OSTCBMsg (OSTCBTbl s3 i) = PNull"
proof -
  obtain s1 where s1: "OSInit c img s = Some s1" "kinv s1" "tlists s1 [1, 0] [2 ..< N_TCB]"
    "boot_frame (cleared s) s1" "ready s1 = {OS_STAT_PRIO, OS_IDLE_PRIO}" "OSTaskCtr s1 = 2"
    "\<forall>p i. live s1 p i \<longleftrightarrow> p = OS_IDLE_PRIO \<and> i = 0 \<or> p = OS_STAT_PRIO \<and> i = 1"
    "OSTCBMsg (OSTCBTbl s1 0) = PNull" "OSTCBMsg (OSTCBTbl s1 1) = PNull"
    using OSInit_ok [OF assms(1)] .
  have f: "unlocked s1" "OSRunning s1 = 0"
    using s1(4) by (simp_all add: boot_frame_def cleared_frame unlocked_def)
  have p: "unat prio \<le> OS_LOWEST_PRIO" "\<not> unat prio > OS_LOWEST_PRIO"
    "unat prio \<noteq> OS_IDLE_PRIO" "unat prio \<noteq> OS_STAT_PRIO"
    using assms(2) sys_prios by simp_all
  have free: "OSTCBPrioTbl s1 (unat prio) = PNull"
    using kinvD_live [OF s1(2) p(1)] s1(7) p(3,4) by blast
  have T: "tlists s1 [1, 0] (2 # [3 ..< N_TCB])" using s1(3) by (simp add: config_defs upt_conv_Cons)
  then have lk: "tlinks (OSTCBTbl s1) (OSTCBList s1) (OSTCBFreeList s1) [1, 0] (2 # [3 ..< N_TCB])"
    by (simp add: tlists_links)
  let ?m = "snd (stk_push a (stk_frame c task pdata) (mem_stk (put_prio prio POne s1)))"
  have e: "OSTaskCreate c task pdata (PAddr a) prio s1
    = Option.bind (OSTCBInit prio (PAddr (a - 32)) PNull 0 0 PNull 0 ((put_prio prio POne s1)\<lparr>mem_stk := ?m\<rparr>))
        (\<lambda>(err, s3). create_tail prio err s3)"
    using p free by (simp add: OSTaskCreate_def prio_at_def OSTaskStkInit_eq Let_def)
  obtain s2 where s2: "OSTaskCreate c task pdata (PAddr a) prio s1 = Some (OS_NO_ERR, s2)"
    "OSTCBPrioTbl s2 = (OSTCBPrioTbl s1)(unat prio := PTcb 2)" "OSTCBList s2 = PTcb 2"
    "OSTCBFreeList s2 = OSTCBNext (OSTCBTbl s1 2)" "prio_map_ok (rdy s2)"
    "ready s2 = insert (unat prio) (ready s1)"
    "OSTCBTbl s2 2 = new_tcb prio (PAddr (a - 32)) PNull 0 0 PNull 0 (OSTCBList s1)"
    "relinked ((OSTCBTbl s1)(2 := OSTCBTbl s2 2)) (OSTCBTbl s2)"
    "tlinks (OSTCBTbl s2) (PTcb 2) (OSTCBNext (OSTCBTbl s1 2)) [2, 1, 0] [3 ..< N_TCB]"
    "OSTaskCtr s2 = OSTaskCtr s1 + 1" "boot_frame s1 s2"
    unfolding e by (rule boot_create [OF lk p(1) kinvD_rdy [OF s1(2)] f(2) refl])
  have fr: "OSEventTbl_g s2 = OSEventTbl_g s1" "unlocked s2" "OSRunning s2 = 0"
    using s2(11) f by (simp_all add: boot_frame_def unlocked_def)
  have ok: "task_ok (rdy s2) (OSEventTbl_g s1) (unat prio) (OSTCBTbl s2 2)"
    "OSTCBEventPtr (OSTCBTbl s2 2) = PNull"
    using new_tcb_ok [of prio "rdy s2"] unfolding s2(7) by (simp add: s2(6), simp add: new_tcb_def)
  note add = create_added [OF s1(2) T p(1) free s2(2) fr(1) s2(3,4,5,6) ok s2(8,9)]
  obtain s3 where s3: "OSStart s2 = Some s3" "task_level s3" "unat (OSPrioCur s3) = Min (ready s2)"
    "OSTCBCur s3 = OSTCBPrioTbl s2 (Min (ready s2))" "OSTCBTbl s3 = OSTCBTbl s2"
    "OSEventTbl_g s3 = OSEventTbl_g s2" "ready s3 = ready s2" "OSRunning s3 = 1"
    "OSEventFreeList s3 = OSEventFreeList s2" "\<forall>p i. live s3 p i = live s2 p i"
    using OSStart_ok [OF add(1,2) fr(2,3)] .
  have rd: "ready s2 = {unat prio, OS_STAT_PRIO, OS_IDLE_PRIO}" using s2(6) s1(5) by simp
  then have mn: "Min (ready s2) = unat prio" using assms(2) sys_prios by simp
  have stk: "OSTCBStkPtr (cur_task s3) = PAddr (a - 32)"
    using s3(4,5) s2(2,7) mn by (simp add: cur_task_def new_tcb_def)
  have prio: "OSPrioCur s3 = prio" using s3(3) mn by (simp add: word_unat_eq_iff)
  have ctr: "OSTaskCtr s2 = 3" using s2(10) s1(6) by simp
  have ev: "OSEventTbl_g s3 = OSEventTbl_g (cleared s)" "OSEventFreeList s3 = OSEventFreeList (cleared s)"
    using s3(6,9) s2(11) s1(4) by (simp_all add: boot_frame_def)
  have msg: "OSTCBMsg (OSTCBTbl s3 i) = PNull" if "live s3 q i" for q i
  proof -
    have "i = 0 \<or> i = 1 \<or> i = 2" using that add(3) s1(7) s3(10) by auto
    then show ?thesis
      using relinked_msg [OF s2(8), of i] s1(8,9) s2(7) s3(5) by (auto simp: new_tcb_def)
  qed
  show thesis
    by (rule that [OF s1(1) s2(1) s3(1,2) prio s3(8) _ ctr stk ev msg]) (use rd s3(7) in simp_all)
qed

section \<open>Properties of the statistics\<close>

lemma sint_small: "unat (w :: INT8S) < 128 \<Longrightarrow> sint w = int (unat w)"
proof -
  assume a: "unat w < 128"
  have u: "uint w = int (unat w)" by (rule uint_nat)
  have "signed_take_bit 7 (int n) = int n" if "n < 128" for n
    using that by (intro signed_take_bit_int_eq_self) simp_all
  then have "signed_take_bit 7 (uint w) = int (unat w)" unfolding u using a .
  moreover have "sint w = signed_take_bit 7 (uint w)" by (simp add: sint_uint)
  ultimately show ?thesis by (rule trans [rotated])
qed

text \<open>The computed usage is exact as long as the product with 100 fits in 32 bits.\<close>

lemma stat_usage_exact:
  assumes "unat run \<le> unat m" and "unat m \<le> 42949672" and "unat m > 0"
  shows "sint (stat_usage run m) = int (100 - 100 * unat run div unat m)"
    and "100 * unat run div unat m \<le> 100"
proof -
  have "100 * unat run < 2 ^ 32" using assms by simp
  then have u: "unat (100 * run) = 100 * unat run" by (simp add: unat_word_ariths)
  show le: "100 * unat run div unat m \<le> 100"
    using assms by (metis div_le_mono div_mult_self_is_m mult_le_mono2)
  have d: "unat (100 * run div m) = 100 * unat run div unat m" by (simp add: unat_div u)
  then have "unat (100 - 100 * run div m) = 100 - 100 * unat run div unat m"
    using le by (simp add: unat_sub word_le_nat_alt)
  moreover have "100 - 100 * unat run div unat m \<le> 100" by simp
  ultimately have "unat (stat_usage run m) = 100 - 100 * unat run div unat m"
    by (simp add: stat_usage_def unsigned_ucast_eq take_bit_nat_eq_self)
  then show "sint (stat_usage run m) = int (100 - 100 * unat run div unat m)"
    by (simp add: sint_small)
qed

text \<open>The statistics task reports a percentage between 0 and 100 whatever the two counters are,
  and resets the idle counter; where the counter did not exceed its calibrated maximum and that
  maximum is below \<open>2 ^ 32 / 100\<close>, the percentage is exactly 100 minus the share of the idle
  count, rounded down.\<close>
theorem cpu_usage_correct:
  "0 \<le> sint (OSCPUUsage (stat_measure s)) \<and> sint (OSCPUUsage (stat_measure s)) \<le> 100
   \<and> OSIdleCtr (stat_measure s) = 0 \<and> OSIdleCtrRun (stat_measure s) = OSIdleCtr s
   \<and> (0 < unat (OSIdleCtrMax s) \<and> unat (OSIdleCtr s) \<le> unat (OSIdleCtrMax s) \<and> unat (OSIdleCtrMax s) \<le> 42949672
      \<longrightarrow> sint (OSCPUUsage (stat_measure s)) = 100 - int (100 * unat (OSIdleCtr s) div unat (OSIdleCtrMax s)))"
proof (intro conjI impI)
  show "0 \<le> sint (OSCPUUsage (stat_measure s))" "sint (OSCPUUsage (stat_measure s)) \<le> 100"
    "OSIdleCtr (stat_measure s) = 0" "OSIdleCtrRun (stat_measure s) = OSIdleCtr s"
    by (simp_all add: stat_measure_def Let_def)
next
  let ?q = "100 * unat (OSIdleCtr s) div unat (OSIdleCtrMax s)"
  assume a: "0 < unat (OSIdleCtrMax s) \<and> unat (OSIdleCtr s) \<le> unat (OSIdleCtrMax s) \<and> unat (OSIdleCtrMax s) \<le> 42949672"
  then have u: "sint (stat_usage (OSIdleCtr s) (OSIdleCtrMax s)) = int (100 - ?q)" "?q \<le> 100"
    using stat_usage_exact by simp_all
  moreover have "OSIdleCtrMax s > 0" using a by (simp add: word_less_nat_alt)
  ultimately have "sint (OSCPUUsage (stat_measure s)) = int (100 - ?q)"
    by (simp add: stat_measure_def Let_def)
  with u(2) show "sint (OSCPUUsage (stat_measure s)) = 100 - int ?q" by simp
qed

theorem cpu_usage_correct_witness:
  "sint (OSCPUUsage (stat_measure (sample\<lparr>OSIdleCtr := 250000, OSIdleCtrMax := 1000000\<rparr>))) = 75"
proof -
  let ?s = "sample\<lparr>OSIdleCtr := 250000, OSIdleCtrMax := 1000000\<rparr>"
  have "0 < unat (OSIdleCtrMax ?s) \<and> unat (OSIdleCtr ?s) \<le> unat (OSIdleCtrMax ?s) \<and> unat (OSIdleCtrMax ?s) \<le> 42949672"
    by simp
  with cpu_usage_correct [of ?s] show ?thesis by simp
qed

text \<open>Beyond that bound the product wraps around: a processor that was idle for the whole second,
  with a counter of 42949673, is reported as busy for all of it.\<close>

lemma cpu_usage_overflow:
  "sint (OSCPUUsage (stat_measure (sample\<lparr>OSIdleCtr := 42949673, OSIdleCtrMax := 42949673\<rparr>))) = 100"
  by (simp add: stat_measure_def stat_usage_def sint_small)

text \<open>\<open>OSStatInit\<close> calibrates the statistics: once its delays are over, the maximum is what the
  idle task has counted since the counter was cleared, and the statistics task leaves its
  waiting loop.\<close>
theorem stat_init_calibrates:
  "OSIdleCtrMax (OSStatInit_end ((OSTaskIdle ^^ n) (s\<lparr>OSIdleCtr := 0\<rparr>))) = of_nat n
   \<and> OSTaskStat_wait (OSStatInit_end s) = Some (OSStatInit_end s)"
proof -
  have "OSIdleCtr ((OSTaskIdle ^^ n) (s\<lparr>OSIdleCtr := 0\<rparr>)) = of_nat n"
    by (induction n) (simp_all add: OSTaskIdle_def)
  then show ?thesis by (simp add: OSStatInit_end_def OSTaskStat_wait_def)
qed

end
