(* ===== verification/Kernel_System.thy ===== *)
theory Kernel_System
  imports Task_Control Kernel_Init
begin

text \<open>
  The kernel as a whole: a transition system whose steps are the calls that the running task
  makes, the return from a wait, the tick interrupt and the turns of the idle task. A call that
  blocks is one step and its return, when the task runs again, another. The state carries, beside
  the kernel's own, what the code keeps on the stacks of the tasks (the event whose pend a task is
  in) and three counters per semaphore that exist for the proofs only: the units put into it, the
  units tasks have received, and the units lost with tasks deleted before they ran.
\<close>

section \<open>The transition system\<close>

record sys =
  kern :: os
  awaits :: "nat \<Rightarrow> nat option"
  put :: "nat \<Rightarrow> nat"
  got :: "nat \<Rightarrow> nat"
  lost :: "nat \<Rightarrow> nat"

datatype call =
    SemCreate INT16U
  | SemPend nat INT16U
  | SemPost nat
  | SemAccept nat
  | MboxCreate ptr
  | MboxPend nat INT16U
  | MboxPost nat ptr
  | MboxAccept nat
  | TimeDly INT16U
  | TimeDlyResume INT8U
  | TaskSuspend INT8U
  | TaskResume INT8U
  | TaskCreate cpu ptr ptr addr INT8U
  | TaskDel INT8U
  | PendReturn
  | Tick
  | Idle

definition block_of :: "ptr \<Rightarrow> nat" where
  "block_of p = (case p of PTcb i \<Rightarrow> i | _ \<Rightarrow> 0)"

abbreviation cur_block :: "sys \<Rightarrow> nat" where
  "cur_block \<sigma> \<equiv> block_of (OSTCBCur (kern \<sigma>))"

abbreviation target_block :: "INT8U \<Rightarrow> sys \<Rightarrow> nat" where
  "target_block prio \<sigma> \<equiv> block_of (OSTCBPrioTbl (kern \<sigma>) (target prio (kern \<sigma>)))"

text \<open>A task that was given its event and has not run since.\<close>

definition granted :: "sys \<Rightarrow> nat \<Rightarrow> nat set" where
  "granted \<sigma> e = {i. i < N_TCB \<and> awaits \<sigma> i = Some e \<and> OSTCBEventPtr (OSTCBTbl (kern \<sigma>) i) = PNull}"

text \<open>The bookkeeping of a receipt, of a deletion and of a new object.\<close>

definition receive :: "nat \<Rightarrow> bool \<Rightarrow> sys \<Rightarrow> sys" where
  "receive e b \<sigma> = (if b then \<sigma>\<lparr>got := (got \<sigma>)(e := got \<sigma> e + 1)\<rparr> else \<sigma>)"

definition forget :: "nat \<Rightarrow> sys \<Rightarrow> sys" where
  "forget i \<sigma> = (case awaits \<sigma> i of
     None \<Rightarrow> \<sigma>
   | Some e \<Rightarrow> \<sigma>\<lparr>awaits := (awaits \<sigma>)(i := None),
                lost := (lost \<sigma>)(e := lost \<sigma> e + (if i \<in> granted \<sigma> e then 1 else 0))\<rparr>)"

definition exec_pend :: "nat \<Rightarrow> (os \<Rightarrow> ('r outcome \<times> os) option) \<Rightarrow> ('r \<Rightarrow> bool) \<Rightarrow> sys \<Rightarrow> sys option" where
  "exec_pend e op ok \<sigma> = do {
     (r, s) \<leftarrow> op (kern \<sigma>);
     Some (case r of
         Returned v \<Rightarrow> receive e (ok v) (\<sigma>\<lparr>kern := s\<rparr>)
       | Blocked \<Rightarrow> \<sigma>\<lparr>kern := s, awaits := (awaits \<sigma>)(cur_block \<sigma> := Some e)\<rparr>)
   }"

definition exec_return :: "nat \<Rightarrow> (os \<Rightarrow> ('r \<times> os) option) \<Rightarrow> ('r \<Rightarrow> bool) \<Rightarrow> sys \<Rightarrow> sys option" where
  "exec_return e op ok \<sigma> = do {
     (r, s) \<leftarrow> op (kern \<sigma>);
     Some (receive e (ok r) (\<sigma>\<lparr>kern := s, awaits := (awaits \<sigma>)(cur_block \<sigma> := None)\<rparr>))
   }"

definition exec_plain :: "(os \<Rightarrow> ('r \<times> os) option) \<Rightarrow> sys \<Rightarrow> sys option" where
  "exec_plain op \<sigma> = do { (r, s) \<leftarrow> op (kern \<sigma>); Some (\<sigma>\<lparr>kern := s\<rparr>) }"

fun exec :: "call \<Rightarrow> sys \<Rightarrow> sys option" where
  "exec (SemCreate cnt) \<sigma> = do {
     (p, s) \<leftarrow> OSSemCreate cnt (kern \<sigma>);
     Some (case p of
         PEvent e \<Rightarrow> \<sigma>\<lparr>kern := s, put := (put \<sigma>)(e := unat cnt), got := (got \<sigma>)(e := 0), lost := (lost \<sigma>)(e := 0)\<rparr>
       | _ \<Rightarrow> \<sigma>\<lparr>kern := s\<rparr>)
   }"
| "exec (SemPend e timeout) \<sigma> = exec_pend e (OSSemPend (PEvent e) timeout) (\<lambda>err. err = OS_NO_ERR) \<sigma>"
| "exec (SemPost e) \<sigma> = do {
     (err, s) \<leftarrow> OSSemPost (PEvent e) (kern \<sigma>);
     Some (if err = OS_NO_ERR then \<sigma>\<lparr>kern := s, put := (put \<sigma>)(e := put \<sigma> e + 1)\<rparr> else \<sigma>\<lparr>kern := s\<rparr>)
   }"
| "exec (SemAccept e) \<sigma> = do {
     (cnt, s) \<leftarrow> OSSemAccept (PEvent e) (kern \<sigma>);
     Some (receive e (cnt > 0) (\<sigma>\<lparr>kern := s\<rparr>))
   }"
| "exec (MboxCreate msg) \<sigma> = exec_plain (OSMboxCreate msg) \<sigma>"
| "exec (MboxPend e timeout) \<sigma> = exec_pend e (OSMboxPend (PEvent e) timeout) (\<lambda>_. False) \<sigma>"
| "exec (MboxPost e msg) \<sigma> = exec_plain (OSMboxPost (PEvent e) msg) \<sigma>"
| "exec (MboxAccept e) \<sigma> = exec_plain (OSMboxAccept (PEvent e)) \<sigma>"
| "exec (TimeDly ticks) \<sigma> = do { s \<leftarrow> OSTimeDly ticks (kern \<sigma>); Some (\<sigma>\<lparr>kern := s\<rparr>) }"
| "exec (TimeDlyResume prio) \<sigma> = exec_plain (OSTimeDlyResume prio) \<sigma>"
| "exec (TaskSuspend prio) \<sigma> = exec_plain (OSTaskSuspend prio) \<sigma>"
| "exec (TaskResume prio) \<sigma> = exec_plain (OSTaskResume prio) \<sigma>"
| "exec (TaskCreate c task pdata a prio) \<sigma> = exec_plain (OSTaskCreate c task pdata (PAddr a) prio) \<sigma>"
| "exec (TaskDel prio) \<sigma> = do {
     (err, s) \<leftarrow> OSTaskDel prio (kern \<sigma>);
     Some ((if err = OS_NO_ERR then forget (target_block prio \<sigma>) \<sigma> else \<sigma>)\<lparr>kern := s\<rparr>)
   }"
| "exec PendReturn \<sigma> = do {
     e \<leftarrow> awaits \<sigma> (cur_block \<sigma>);
     if OSEventType (OSEventTbl_g (kern \<sigma>) e) = OS_EVENT_TYPE_SEM
     then exec_return e (OSSemPend_resume (PEvent e)) (\<lambda>err. err = OS_NO_ERR) \<sigma>
     else exec_return e (OSMboxPend_resume (PEvent e)) (\<lambda>_. False) \<sigma>
   }"
| "exec Tick \<sigma> = do { s \<leftarrow> OSTickISR (kern \<sigma>); Some (\<sigma>\<lparr>kern := s\<rparr>) }"
| "exec Idle \<sigma> = Some (\<sigma>\<lparr>kern := OSTaskIdle (kern \<sigma>)\<rparr>)"

text \<open>When a step can happen. A task in the middle of a pend can only return from it; the idle task
  only counts; a task uses a semaphore as a semaphore and a mailbox as a mailbox, and posts no
  null message, as the manual pages of the services require.\<close>

fun allowed :: "call \<Rightarrow> sys \<Rightarrow> bool" where
  "allowed Tick \<sigma> = True"
| "allowed Idle \<sigma> \<longleftrightarrow> unat (OSPrioCur (kern \<sigma>)) = OS_IDLE_PRIO"
| "allowed PendReturn \<sigma> \<longleftrightarrow> awaits \<sigma> (cur_block \<sigma>) \<noteq> None"
| "allowed c \<sigma> \<longleftrightarrow> awaits \<sigma> (cur_block \<sigma>) = None \<and> unat (OSPrioCur (kern \<sigma>)) \<noteq> OS_IDLE_PRIO \<and>
     (case c of
        SemPend e _ \<Rightarrow> is_sem (kern \<sigma>) e | SemPost e \<Rightarrow> is_sem (kern \<sigma>) e
      | SemAccept e \<Rightarrow> is_sem (kern \<sigma>) e | MboxPend e _ \<Rightarrow> is_mbox (kern \<sigma>) e
      | MboxPost e msg \<Rightarrow> is_mbox (kern \<sigma>) e \<and> msg \<noteq> PNull | MboxAccept e \<Rightarrow> is_mbox (kern \<sigma>) e
      | _ \<Rightarrow> True)"

inductive step :: "sys \<Rightarrow> call \<Rightarrow> sys \<Rightarrow> bool" where
  step: "allowed c \<sigma> \<Longrightarrow> exec c \<sigma> = Some \<sigma>' \<Longrightarrow> step \<sigma> c \<sigma>'"

inductive_simps step_iff: "step \<sigma> c \<sigma>'"
inductive_cases stepE: "step \<sigma> c \<sigma>'"

text \<open>Multitasking has just started: a task runs, none has called the kernel yet.\<close>

definition started :: "sys \<Rightarrow> bool" where
  "started \<sigma> \<longleftrightarrow> task_level (kern \<sigma>) \<and> OSRunning (kern \<sigma>) \<noteq> 0 \<and> einv (kern \<sigma>) \<and> (\<forall>i. awaits \<sigma> i = None) \<and>
     (\<forall>p i. live (kern \<sigma>) p i \<longrightarrow> OSTCBEventPtr (OSTCBTbl (kern \<sigma>) i) = PNull \<and> OSTCBMsg (OSTCBTbl (kern \<sigma>) i) = PNull) \<and>
     (\<forall>e < OS_MAX_EVENTS. put \<sigma> e = unat (OSEventCnt (OSEventTbl_g (kern \<sigma>) e)) \<and> got \<sigma> e = 0 \<and> lost \<sigma> e = 0)"

inductive reachable :: "sys \<Rightarrow> bool" where
  init: "started \<sigma> \<Longrightarrow> reachable \<sigma>"
| more: "reachable \<sigma> \<Longrightarrow> step \<sigma> c \<sigma>' \<Longrightarrow> reachable \<sigma>'"

end
