(* ===== verification/System_Inv.thy ===== *)
theory System_Inv
  imports Kernel_System
begin

text \<open>
  The invariant of the transition system and its preservation by every step: no step faults, the
  task that runs is always the highest priority ready one, a task waits for the event whose pend
  it is in and for no other, and the units of every semaphore are accounted for.
\<close>

section \<open>Variables that the services leave alone\<close>

definition glob :: "os \<Rightarrow> os \<Rightarrow> bool" where
  "glob s s' \<longleftrightarrow> OSRunning s' = OSRunning s \<and> OSEventFreeList s' = OSEventFreeList s"

lemma glob_refl [simp]: "glob s s"
  by (simp add: glob_def)

lemma glob_trans: "glob s s' \<Longrightarrow> glob s' s'' \<Longrightarrow> glob s s''"
  by (simp add: glob_def)

lemma glob_put [simp]:
  "glob s (set_rdy m s') = glob s s'" "glob s (put_tcb p t s') = glob s s'"
  "glob s (put_event p e s') = glob s s'" "glob s (put_prio w p s') = glob s s'"
  "glob s (s'\<lparr>OSLockNesting := n\<rparr>) = glob s s'" "glob s (s'\<lparr>OSTaskCtr := n\<rparr>) = glob s s'"
  "glob s (s'\<lparr>OSTCBList := p\<rparr>) = glob s s'" "glob s (s'\<lparr>OSTCBFreeList := p\<rparr>) = glob s s'"
  "glob s (s'\<lparr>mem_stk := m'\<rparr>) = glob s s'"
  by (auto simp: glob_def put_tcb_def put_event_def put_prio_def split: ptr.splits)

lemma glob_put_left [simp]:
  "glob (set_rdy m s) s' = glob s s'" "glob (put_tcb p t s) s' = glob s s'"
  "glob (put_event p e s) s' = glob s s'" "glob (put_prio w p s) s' = glob s s'"
  "glob (s\<lparr>OSLockNesting := n\<rparr>) s' = glob s s'" "glob (s\<lparr>OSTaskCtr := n\<rparr>) s' = glob s s'"
  "glob (s\<lparr>OSTCBList := p\<rparr>) s' = glob s s'" "glob (s\<lparr>OSTCBFreeList := p\<rparr>) s' = glob s s'"
  "glob (s\<lparr>mem_stk := m'\<rparr>) s' = glob s s'"
  by (auto simp: glob_def put_tcb_def put_event_def put_prio_def split: ptr.splits)

lemma glob_rdy: "rdy_remove t s = Some s' \<Longrightarrow> glob s s'" "rdy_enter t s = Some s' \<Longrightarrow> glob s s'"
  "wait_remove t p s = Some s' \<Longrightarrow> glob s s'"
  by (auto simp: rdy_remove_def rdy_enter_def wait_remove_def split: bind_splits)

lemma glob_sched: "OSSched s = Some s' \<Longrightarrow> glob s s'"
  by (auto simp: OSSched_def OSCtxSw_def OSTaskSwHook_def glob_def Let_def split: if_splits bind_splits)

lemmas glob_steps = glob_rdy glob_sched

lemma glob_same_task: "same_but_task s s' \<Longrightarrow> glob s s'"
  by (simp add: glob_def same_but_task_frame)

lemma glob_same_sched: "same_but_sched s s' \<Longrightarrow> glob s s'"
  by (simp add: glob_def same_but_sched_frame)

lemma glob_time: "OSTimeDly n s = Some s' \<Longrightarrow> glob s s'" "OSTimeDlyResume w s = Some (err, s') \<Longrightarrow> glob s s'"
  by (auto simp: OSTimeDly_def OSTimeDlyResume_def Let_def split: if_splits bind_splits
      dest!: glob_steps elim: glob_trans)

lemma glob_suspend: "OSTaskSuspend w s = Some (err, s') \<Longrightarrow> glob s s'" "OSTaskResume w s = Some (err, s') \<Longrightarrow> glob s s'"
  by (auto simp: OSTaskSuspend_def OSTaskResume_def Let_def split: if_splits bind_splits prod.splits
      dest!: glob_steps elim: glob_trans)

lemma glob_tcb_init: "OSTCBInit w p b i n x opt s = Some (err, s') \<Longrightarrow> glob s s'"
  by (auto simp: OSTCBInit_def Let_def split: if_splits bind_splits dest!: glob_steps elim: glob_trans)

lemma glob_create_tail: "create_tail w err0 s = Some (err, s') \<Longrightarrow> glob s s'"
  by (auto simp: create_tail_def OSTaskCreateHook_def Let_def split: if_splits bind_splits
      dest!: glob_steps elim: glob_trans)

lemma glob_create: "OSTaskCreate c task pdata p w s = Some (err, s') \<Longrightarrow> glob s s'"
  by (auto simp: OSTaskCreate_def OSTaskStkInit_def Let_def split: if_splits bind_splits prod.splits ptr.splits
      dest!: glob_tcb_init glob_create_tail elim: glob_trans)

lemma glob_disable: "del_disable p s = Some s' \<Longrightarrow> glob s s'"
  by (auto simp: del_disable_def Let_def split: if_splits bind_splits dest!: glob_steps elim: glob_trans)

lemma glob_unlink: "del_unlink p s = Some s' \<Longrightarrow> glob s s'"
  by (auto simp: del_unlink_def Let_def split: if_splits bind_splits)

lemma glob_del: "OSTaskDel w s = Some (err, s') \<Longrightarrow> glob s s'"
  by (auto simp: OSTaskDel_def OSDummy_def OSTaskDelHook_def Let_def split: if_splits bind_splits
      dest!: glob_disable glob_unlink glob_sched) (blast intro: glob_trans)+

section \<open>The invariant\<close>

definition sem_or_mbox :: "INT8U \<Rightarrow> bool" where
  "sem_or_mbox ty \<longleftrightarrow> ty = OS_EVENT_TYPE_SEM \<or> ty = OS_EVENT_TYPE_MBOX"

text \<open>What the control block of a task says, given the pend the task is in: it waits for the event, or
  was given it (and the message, if the event is a mailbox).\<close>

definition await_ok :: "(nat \<Rightarrow> OS_EVENT) \<Rightarrow> OS_TCB \<Rightarrow> nat option \<Rightarrow> bool" where
  "await_ok E t a = (case a of
     None \<Rightarrow> OSTCBEventPtr t = PNull \<and> OSTCBMsg t = PNull
   | Some e \<Rightarrow> e < OS_MAX_EVENTS \<and> sem_or_mbox (OSEventType (E e)) \<and>
       (OSTCBEventPtr t = PEvent e \<and> OSTCBMsg t = PNull \<or>
        OSTCBEventPtr t = PNull \<and> (OSTCBMsg t = PNull \<longleftrightarrow> OSEventType (E e) = OS_EVENT_TYPE_SEM)))"

definition waits_ok :: "sys \<Rightarrow> bool" where
  "waits_ok \<sigma> \<longleftrightarrow>
     (\<forall>p i. live (kern \<sigma>) p i \<longrightarrow> await_ok (OSEventTbl_g (kern \<sigma>)) (OSTCBTbl (kern \<sigma>) i) (awaits \<sigma> i)) \<and>
     (\<forall>i. (\<forall>p. \<not> live (kern \<sigma>) p i) \<longrightarrow> awaits \<sigma> i = None)"

definition units_ok :: "sys \<Rightarrow> bool" where
  "units_ok \<sigma> \<longleftrightarrow> (\<forall>e. is_sem (kern \<sigma>) e \<longrightarrow>
     unat (OSEventCnt (OSEventTbl_g (kern \<sigma>) e)) + got \<sigma> e + card (granted \<sigma> e) + lost \<sigma> e = put \<sigma> e)"

text \<open>An event on which a task waits has nothing to give.\<close>

definition holds :: "OS_EVENT \<Rightarrow> bool" where
  "holds E \<longleftrightarrow> OSEventType E = OS_EVENT_TYPE_SEM \<and> OSEventCnt E \<noteq> 0
     \<or> OSEventType E = OS_EVENT_TYPE_MBOX \<and> OSEventPtr E \<noteq> PNull"

definition idle_ok :: "os \<Rightarrow> bool" where
  "idle_ok s \<longleftrightarrow> (\<forall>e < OS_MAX_EVENTS. holds (OSEventTbl_g s e) \<longrightarrow> waiters s e = {})"

definition sinv :: "sys \<Rightarrow> bool" where
  "sinv \<sigma> \<longleftrightarrow> task_level (kern \<sigma>) \<and> OSRunning (kern \<sigma>) \<noteq> 0 \<and> einv (kern \<sigma>) \<and> idle_ok (kern \<sigma>)
     \<and> waits_ok \<sigma> \<and> units_ok \<sigma>"

lemma idle_ok_eq: "OSEventTbl_g s' = OSEventTbl_g s \<Longrightarrow> idle_ok s' = idle_ok s"
  by (simp add: idle_ok_def)

lemma idle_ok_one:
  assumes "idle_ok s" and o: "\<forall>d. d \<noteq> e \<longrightarrow> OSEventTbl_g s' d = OSEventTbl_g s d"
    and h: "holds (OSEventTbl_g s' e) \<Longrightarrow> e < OS_MAX_EVENTS \<Longrightarrow> waiters s' e = {}"
  shows "idle_ok s'"
  unfolding idle_ok_def
proof (intro allI impI)
  fix d assume d: "d < OS_MAX_EVENTS" "holds (OSEventTbl_g s' d)"
  show "waiters s' d = {}"
    using assms(1) d o h by (cases "d = e") (simp_all add: idle_ok_def)
qed

lemma holds_cong:
  "OSEventType E' = OSEventType E \<Longrightarrow> OSEventCnt E' = OSEventCnt E \<Longrightarrow> OSEventPtr E' = OSEventPtr E \<Longrightarrow>
   holds E' = holds E"
  by (simp add: holds_def)

lemma sinvD:
  "sinv \<sigma> \<Longrightarrow> task_level (kern \<sigma>)" "sinv \<sigma> \<Longrightarrow> OSRunning (kern \<sigma>) \<noteq> 0" "sinv \<sigma> \<Longrightarrow> einv (kern \<sigma>)"
  "sinv \<sigma> \<Longrightarrow> live (kern \<sigma>) p i \<Longrightarrow> await_ok (OSEventTbl_g (kern \<sigma>)) (OSTCBTbl (kern \<sigma>) i) (awaits \<sigma> i)"
  "sinv \<sigma> \<Longrightarrow> stable (kern \<sigma>)" "sinv \<sigma> \<Longrightarrow> idle_ok (kern \<sigma>)"
  by (auto simp: sinv_def waits_ok_def task_level_stable)

lemma awaits_live: "waits_ok \<sigma> \<Longrightarrow> awaits \<sigma> i = Some e \<Longrightarrow> \<exists>p. live (kern \<sigma>) p i"
  unfolding waits_ok_def by force

lemma finite_granted [simp]: "finite (granted \<sigma> e)"
  by (rule finite_subset [of _ "{..< N_TCB}"]) (auto simp: granted_def)

text \<open>The pool of free events survives what changes only events in use.\<close>

definition events_kept :: "os \<Rightarrow> os \<Rightarrow> bool" where
  "events_kept s s' \<longleftrightarrow> OSEventFreeList s' = OSEventFreeList s \<and>
     (\<forall>e. OSEventType (OSEventTbl_g s' e) = OSEventType (OSEventTbl_g s e)) \<and>
     (\<forall>e < OS_MAX_EVENTS. OSEventType (OSEventTbl_g s e) = 0 \<longrightarrow>
        OSEventPtr (OSEventTbl_g s' e) = OSEventPtr (OSEventTbl_g s e) \<and> waiters s' e \<subseteq> waiters s e)"

lemma events_kept_einv:
  assumes "events_kept s s'" and "einv s"
  shows "einv s'"
proof -
  obtain es where es: "elist s es" using assms(2) by (auto simp: einv_def)
  have "chain PEvent (\<lambda>e. OSEventPtr (OSEventTbl_g s' e)) (OSEventFreeList s) es
      = chain PEvent (\<lambda>e. OSEventPtr (OSEventTbl_g s e)) (OSEventFreeList s) es"
    by (rule chain_cong) (use assms(1) es in \<open>auto simp: events_kept_def elist_def\<close>)
  then have "elist s' es" using assms(1) es by (auto simp: events_kept_def elist_def)
  then show ?thesis by (auto simp: einv_def)
qed

lemma events_kept_eq: "glob s s' \<Longrightarrow> OSEventTbl_g s' = OSEventTbl_g s \<Longrightarrow> events_kept s s'"
  by (simp add: events_kept_def glob_def)

lemma events_kept_one:
  assumes "glob s s'" and o: "\<forall>d. d \<noteq> e \<longrightarrow> OSEventTbl_g s' d = OSEventTbl_g s d"
    and ty: "OSEventType (OSEventTbl_g s' e) = OSEventType (OSEventTbl_g s e)" "OSEventType (OSEventTbl_g s e) \<noteq> 0"
  shows "events_kept s s'"
proof -
  have "OSEventTbl_g s' d = OSEventTbl_g s d" if "OSEventType (OSEventTbl_g s d) = 0" for d
    using o ty(2) that by metis
  moreover have "OSEventType (OSEventTbl_g s' d) = OSEventType (OSEventTbl_g s d)" for d
    using o ty(1) by metis
  ultimately show ?thesis using assms(1) by (simp add: events_kept_def glob_def)
qed

lemma await_ok_cong:
  "(\<And>e. OSEventType (E' e) = OSEventType (E e)) \<Longrightarrow> OSTCBEventPtr t' = OSTCBEventPtr t \<Longrightarrow>
   OSTCBMsg t' = OSTCBMsg t \<Longrightarrow> await_ok E' t' a = await_ok E t a"
  by (simp add: await_ok_def split: option.split)

text \<open>A step that gives nobody an event, takes none away and changes no count.\<close>

lemma sinv_quiet:
  assumes I: "sinv \<sigma>" and s': "task_level s'" "OSRunning s' = OSRunning (kern \<sigma>)"
    and ev: "events_kept (kern \<sigma>) s'" and io: "idle_ok s'"
    and cnt: "\<And>e. is_sem (kern \<sigma>) e \<Longrightarrow> OSEventCnt (OSEventTbl_g s' e) = OSEventCnt (OSEventTbl_g (kern \<sigma>) e)"
    and lv: "\<And>p i. live s' p i = live (kern \<sigma>) p i"
    and tcb: "\<And>p i. live (kern \<sigma>) p i \<Longrightarrow> OSTCBEventPtr (OSTCBTbl s' i) = OSTCBEventPtr (OSTCBTbl (kern \<sigma>) i)
      \<and> OSTCBMsg (OSTCBTbl s' i) = OSTCBMsg (OSTCBTbl (kern \<sigma>) i)"
  shows "sinv (\<sigma>\<lparr>kern := s'\<rparr>)"
proof -
  have W: "waits_ok \<sigma>" and U: "units_ok \<sigma>" using I by (auto simp: sinv_def)
  have ty: "OSEventType (OSEventTbl_g s' e) = OSEventType (OSEventTbl_g (kern \<sigma>) e)" for e
    using ev by (simp add: events_kept_def)
  have "waits_ok (\<sigma>\<lparr>kern := s'\<rparr>)"
    using W lv tcb await_ok_cong [of "OSEventTbl_g s'" "OSEventTbl_g (kern \<sigma>)", OF ty]
    by (auto simp: waits_ok_def)
  moreover have "granted (\<sigma>\<lparr>kern := s'\<rparr>) e = granted \<sigma> e" for e
    using awaits_live [OF W] tcb by (auto simp: granted_def) metis+
  then have "units_ok (\<sigma>\<lparr>kern := s'\<rparr>)"
    using U cnt ty by (simp add: units_ok_def)
  ultimately show ?thesis
    using I s' io events_kept_einv [OF ev] by (simp add: sinv_def)
qed

section \<open>Steps that only schedule\<close>

lemma OSTickISR_ok:
  assumes T: "task_level s"
  obtains s' where "OSTickISR s = Some s'" and "task_level s'" and "glob s s'"
    and "OSEventTbl_g s' = OSEventTbl_g s" and "\<forall>p i. live s' p i = live s p i"
    and "\<forall>p i. live s p i \<longrightarrow> OSTCBTbl s' i = ticked (OSTCBTbl s i)" and "OSTime s' = OSTime s + 1"
proof -
  let ?s = "s\<lparr>OSIntNesting := OSIntNesting s + 1\<rparr>"
  have K: "kinv ?s" and TI: "tinv ?s" and U: "unlocked s"
    using T kinv_frame [of ?s s] tinv_frame [of ?s s] by (simp_all add: task_level_def)
  have "cur_ok ?s = cur_ok s" by (simp add: cur_ok_def live_def)
  then have CO: "cur_ok ?s" using T by (simp add: task_level_def)
  obtain s1 where s1: "OSTimeTick ?s = Some (s1\<lparr>OSTime := OSTime ?s + 1\<rparr>)" "kinv s1" "same_but_task ?s s1" "tinv s1"
    "\<forall>p i. live ?s p i \<longrightarrow> OSTCBTbl s1 i = ticked (OSTCBTbl ?s i)"
    "ready s1 = ready ?s \<union> {p. \<exists>i. live ?s p i \<and> expires (OSTCBTbl ?s i)}" "OSEventTbl_g s1 = OSEventTbl_g ?s"
    using OSTimeTick_post [OF K TI] .
  let ?t = "s1\<lparr>OSTime := OSTime ?s + 1\<rparr>"
  have t: "kinv ?t" "tinv ?t" "cur_ok ?t"
  proof -
    have "kinv ?t = kinv s1" by (rule kinv_frame) simp_all
    then show "kinv ?t" using s1(2) by simp
    have "tinv ?t = tinv s1" by (rule tinv_frame) simp_all
    then show "tinv ?t" using s1(4) by simp
    have "cur_ok ?t = cur_ok s1" by (simp add: cur_ok_def live_def)
    then show "cur_ok ?t" using CO same_but_task_cur [OF s1(3)] by simp
  qed
  obtain s2 where s2: "OSIntExit ?t = Some s2" "same_but_sched (?t\<lparr>OSIntNesting := OSIntNesting ?t - 1\<rparr>) s2"
    "kinv s2" "cur_ok s2" "unlocked s2 \<longrightarrow> unat (OSPrioCur s2) = highest_ready s2"
    using OSIntExit_post [OF t(1,3)] .
  note f1 = same_but_task_frame [OF s1(3)] and f2 = same_but_sched_frame [OF s2(2)]
  have n: "OSIntNesting ?t - 1 = OSIntNesting s" using f1(5) by simp
  have "unlocked s2" using U f2(5,6) f1(4) n by (simp add: unlocked_def)
  moreover have "tinv (?t\<lparr>OSIntNesting := OSIntNesting ?t - 1\<rparr>) = tinv ?t" by (rule tinv_frame) simp_all
  then have "tinv s2" using same_but_sched_tinv [OF s2(2)] t(2) by simp
  ultimately have "task_level s2" using s2(3-5) by (simp add: task_level_def)
  moreover have "OSTickISR s = Some s2" using s1(1) s2(1) by (simp add: OSTickISR_def)
  moreover have "live s2 p i = live s p i" for p i using f1(1) f2(2) by (simp add: live_def)
  moreover have "glob s s2" using f1(6,9) f2(7,10) by (simp add: glob_def)
  moreover have "OSTCBTbl s2 i = ticked (OSTCBTbl s i)" if "live s p i" for p i
  proof -
    have "live ?s p i" using that by (simp add: live_def)
    then show ?thesis using s1(5) f2(3) by simp
  qed
  moreover have "OSEventTbl_g s2 = OSEventTbl_g s" "OSTime s2 = OSTime s + 1"
    using s1(7) f2(4,18) by simp_all
  ultimately show thesis by (intro that) simp_all
qed

lemma step_tick:
  assumes "sinv \<sigma>"
  shows "\<exists>\<sigma>'. exec Tick \<sigma> = Some \<sigma>' \<and> sinv \<sigma>'"
proof -
  obtain s' where s': "OSTickISR (kern \<sigma>) = Some s'" "task_level s'" "glob (kern \<sigma>) s'"
    "OSEventTbl_g s' = OSEventTbl_g (kern \<sigma>)" "\<forall>p i. live s' p i = live (kern \<sigma>) p i"
    "\<forall>p i. live (kern \<sigma>) p i \<longrightarrow> OSTCBTbl s' i = ticked (OSTCBTbl (kern \<sigma>) i)"
    "OSTime s' = OSTime (kern \<sigma>) + 1"
    using OSTickISR_ok [OF sinvD(1) [OF assms]] .
  have "sinv (\<sigma>\<lparr>kern := s'\<rparr>)"
  proof (rule sinv_quiet [OF assms s'(2) _ events_kept_eq [OF s'(3,4)]])
    show "OSRunning s' = OSRunning (kern \<sigma>)" using s'(3) by (simp add: glob_def)
    show "idle_ok s'" using sinvD(6) [OF assms] idle_ok_eq [OF s'(4)] by simp
  qed (simp_all add: s'(4-6))
  then show ?thesis using s'(1) by simp
qed

text \<open>A call that changes one control block's delay or status and then schedules.\<close>

lemma sinv_one_block:
  assumes I: "sinv \<sigma>" and s': "task_level s'" "glob (kern \<sigma>) s'" "OSEventTbl_g s' = OSEventTbl_g (kern \<sigma>)"
    "OSTCBPrioTbl s' = OSTCBPrioTbl (kern \<sigma>)" "OSTCBTbl s' = (OSTCBTbl (kern \<sigma>))(i := t)"
    and t: "OSTCBEventPtr t = OSTCBEventPtr (OSTCBTbl (kern \<sigma>) i)" "OSTCBMsg t = OSTCBMsg (OSTCBTbl (kern \<sigma>) i)"
  shows "sinv (\<sigma>\<lparr>kern := s'\<rparr>)"
  by (rule sinv_quiet [OF I s'(1) _ events_kept_eq [OF s'(2,3)]])
    (use s'(2-5) t sinvD(6) [OF I] idle_ok_eq [OF s'(3)] in \<open>simp_all add: glob_def live_def\<close>)

lemma stable_level: "stable s' \<Longrightarrow> unlocked s' = unlocked s \<Longrightarrow> task_level s \<Longrightarrow> task_level s'"
  by (simp add: task_level_iff)

lemma suspend_msg [simp]: "OSTCBMsg (with_suspend t) = OSTCBMsg t" "OSTCBMsg (without_suspend t) = OSTCBMsg t"
  by (simp_all add: with_suspend_def without_suspend_def)

lemma step_TimeDly:
  assumes I: "sinv \<sigma>" and np: "OSTCBEventPtr (cur_task (kern \<sigma>)) = PNull"
    and nid: "unat (OSPrioCur (kern \<sigma>)) \<noteq> OS_IDLE_PRIO"
  shows "\<exists>\<sigma>'. exec (TimeDly n) \<sigma> = Some \<sigma>' \<and> sinv \<sigma>'"
proof -
  obtain s' where s': "OSTimeDly n (kern \<sigma>) = Some s'"
    "if n = 0 then s' = kern \<sigma> else task_level s' \<and> OSTCBCur s' \<noteq> OSTCBCur (kern \<sigma>)
       \<and> ready s' = ready (kern \<sigma>) - {unat (OSPrioCur (kern \<sigma>))}
       \<and> OSEventTbl_g s' = OSEventTbl_g (kern \<sigma>) \<and> OSTCBPrioTbl s' = OSTCBPrioTbl (kern \<sigma>)
       \<and> (\<exists>i. live (kern \<sigma>) (unat (OSPrioCur (kern \<sigma>))) i
             \<and> OSTCBTbl s' = (OSTCBTbl (kern \<sigma>))(i := (OSTCBTbl (kern \<sigma>) i)\<lparr>OSTCBDly := n\<rparr>))"
    using OSTimeDly_ok [OF sinvD(1) [OF I] np nid, of n] by blast
  have "sinv (\<sigma>\<lparr>kern := s'\<rparr>)"
  proof (cases "n = 0")
    case True
    then show ?thesis using s'(2) I by simp
  next
    case False
    then show ?thesis
      using s'(2) sinv_one_block [OF I _ glob_time(1) [OF s'(1)]] by auto
  qed
  then show ?thesis using s'(1) by simp
qed

lemma step_TimeDlyResume:
  assumes I: "sinv \<sigma>"
  shows "\<exists>\<sigma>'. exec (TimeDlyResume w) \<sigma> = Some \<sigma>' \<and> sinv \<sigma>'"
proof -
  obtain err s' where s': "OSTimeDlyResume w (kern \<sigma>) = Some (err, s')" "stable s'"
    and c: "s' = kern \<sigma> \<or> (\<exists>i. OSTCBTbl s' = (OSTCBTbl (kern \<sigma>))(i := (OSTCBTbl (kern \<sigma>) i)\<lparr>OSTCBDly := 0\<rparr>)
      \<and> OSEventTbl_g s' = OSEventTbl_g (kern \<sigma>) \<and> OSTCBPrioTbl s' = OSTCBPrioTbl (kern \<sigma>) \<and> unlocked s' = unlocked (kern \<sigma>))"
    using OSTimeDlyResume_ok [OF sinvD(5) [OF I], of w] by (metis (no_types, lifting))
  from c have "sinv (\<sigma>\<lparr>kern := s'\<rparr>)"
  proof
    assume "\<exists>i. OSTCBTbl s' = (OSTCBTbl (kern \<sigma>))(i := (OSTCBTbl (kern \<sigma>) i)\<lparr>OSTCBDly := 0\<rparr>)
      \<and> OSEventTbl_g s' = OSEventTbl_g (kern \<sigma>) \<and> OSTCBPrioTbl s' = OSTCBPrioTbl (kern \<sigma>) \<and> unlocked s' = unlocked (kern \<sigma>)"
    then show ?thesis
      using sinv_one_block [OF I stable_level [OF s'(2) _ sinvD(1) [OF I]] glob_time(2) [OF s'(1)]] by auto
  qed (simp add: I)
  then show ?thesis using s'(1) by (simp add: exec_plain_def)
qed

lemma step_TaskSuspend:
  assumes I: "sinv \<sigma>" and nid: "unat (OSPrioCur (kern \<sigma>)) \<noteq> OS_IDLE_PRIO"
  shows "\<exists>\<sigma>'. exec (TaskSuspend w) \<sigma> = Some \<sigma>' \<and> sinv \<sigma>'"
proof -
  obtain err s' where s': "OSTaskSuspend w (kern \<sigma>) = Some (err, s')" "stable s'"
    and c: "s' = kern \<sigma> \<or> (\<exists>i. OSTCBTbl s' = (OSTCBTbl (kern \<sigma>))(i := with_suspend (OSTCBTbl (kern \<sigma>) i))
      \<and> OSEventTbl_g s' = OSEventTbl_g (kern \<sigma>) \<and> OSTCBPrioTbl s' = OSTCBPrioTbl (kern \<sigma>) \<and> unlocked s' = unlocked (kern \<sigma>))"
    using OSTaskSuspend_ok [OF sinvD(5) [OF I] nid, of w] unfolding Let_def by (metis (no_types, lifting))
  from c have "sinv (\<sigma>\<lparr>kern := s'\<rparr>)"
  proof
    assume "\<exists>i. OSTCBTbl s' = (OSTCBTbl (kern \<sigma>))(i := with_suspend (OSTCBTbl (kern \<sigma>) i))
      \<and> OSEventTbl_g s' = OSEventTbl_g (kern \<sigma>) \<and> OSTCBPrioTbl s' = OSTCBPrioTbl (kern \<sigma>) \<and> unlocked s' = unlocked (kern \<sigma>)"
    then show ?thesis
      using sinv_one_block [OF I stable_level [OF s'(2) _ sinvD(1) [OF I]] glob_suspend(1) [OF s'(1)]] by auto
  qed (simp add: I)
  then show ?thesis using s'(1) by (simp add: exec_plain_def)
qed

lemma step_TaskResume:
  assumes I: "sinv \<sigma>"
  shows "\<exists>\<sigma>'. exec (TaskResume w) \<sigma> = Some \<sigma>' \<and> sinv \<sigma>'"
proof -
  obtain err s' where s': "OSTaskResume w (kern \<sigma>) = Some (err, s')" "stable s'"
    and c: "s' = kern \<sigma> \<or> (\<exists>i. OSTCBTbl s' = (OSTCBTbl (kern \<sigma>))(i := without_suspend (OSTCBTbl (kern \<sigma>) i))
      \<and> OSEventTbl_g s' = OSEventTbl_g (kern \<sigma>) \<and> OSTCBPrioTbl s' = OSTCBPrioTbl (kern \<sigma>) \<and> unlocked s' = unlocked (kern \<sigma>))"
    using OSTaskResume_ok [OF sinvD(5) [OF I], of w] unfolding Let_def by (metis (no_types, lifting))
  from c have "sinv (\<sigma>\<lparr>kern := s'\<rparr>)"
  proof
    assume "\<exists>i. OSTCBTbl s' = (OSTCBTbl (kern \<sigma>))(i := without_suspend (OSTCBTbl (kern \<sigma>) i))
      \<and> OSEventTbl_g s' = OSEventTbl_g (kern \<sigma>) \<and> OSTCBPrioTbl s' = OSTCBPrioTbl (kern \<sigma>) \<and> unlocked s' = unlocked (kern \<sigma>)"
    then show ?thesis
      using sinv_one_block [OF I stable_level [OF s'(2) _ sinvD(1) [OF I]] glob_suspend(2) [OF s'(1)]] by auto
  qed (simp add: I)
  then show ?thesis using s'(1) by (simp add: exec_plain_def)
qed

lemma task_level_frame:
  "kinv s' = kinv s \<Longrightarrow> tinv s' = tinv s \<Longrightarrow> OSTCBPrioTbl s' = OSTCBPrioTbl s \<Longrightarrow> OSTCBCur s' = OSTCBCur s \<Longrightarrow>
   OSPrioCur s' = OSPrioCur s \<Longrightarrow> OSLockNesting s' = OSLockNesting s \<Longrightarrow> OSIntNesting s' = OSIntNesting s \<Longrightarrow>
   rdy s' = rdy s \<Longrightarrow> task_level s' = task_level s"
  by (simp add: task_level_def cur_ok_def live_def unlocked_def highest_ready_def)

lemma step_idle:
  assumes I: "sinv \<sigma>"
  shows "\<exists>\<sigma>'. exec Idle \<sigma> = Some \<sigma>' \<and> sinv \<sigma>'"
proof -
  let ?s = "OSTaskIdle (kern \<sigma>)"
  have "kinv ?s = kinv (kern \<sigma>)" "tinv ?s = tinv (kern \<sigma>)"
    by (rule kinv_frame tinv_frame; simp add: OSTaskIdle_def)+
  then have "task_level ?s = task_level (kern \<sigma>)"
    by (rule task_level_frame) (simp_all add: OSTaskIdle_def)
  then have T: "task_level ?s" using sinvD(1) [OF I] by simp
  have k: "events_kept (kern \<sigma>) ?s" by (simp add: events_kept_def OSTaskIdle_def)
  have "sinv (\<sigma>\<lparr>kern := ?s\<rparr>)"
    by (rule sinv_quiet [OF I T _ k])
      (use sinvD(6) [OF I] in \<open>simp_all add: OSTaskIdle_def live_def idle_ok_def\<close>)
  then show ?thesis by simp
qed

section \<open>Steps that take from an event or put into it\<close>

text \<open>A change of the count or of the message of an event in use.\<close>

definition payload :: "nat \<Rightarrow> OS_EVENT \<Rightarrow> os \<Rightarrow> os" where
  "payload e F s = s\<lparr>OSEventTbl_g := (OSEventTbl_g s)(e := F)\<rparr>"

lemma kinv_of_same_waiting:
  assumes "\<And>d. waiting (E' d) = waiting (E d)" and "\<And>d. OSEventType (E' d) = OSEventType (E d)"
  shows "kinv_of m P T E' = kinv_of m P T E"
proof -
  have "link_bit E' t = link_bit E t" for t
    by (simp add: link_bit_def assms(2) split: ptr.split)
  then show ?thesis by (simp add: kinv_of_def task_ok_def assms(1))
qed

lemma payload_level:
  assumes "waiting F = waiting (OSEventTbl_g s e)" and "OSEventType F = OSEventType (OSEventTbl_g s e)"
  shows "task_level (payload e F s) = task_level s"
proof (rule task_level_frame)
  show "kinv (payload e F s) = kinv s"
    unfolding kinv_def payload_def by (simp, rule kinv_of_same_waiting) (simp_all add: assms)
  show "tinv (payload e F s) = tinv s" by (rule tinv_frame) (simp_all add: payload_def)
qed (simp_all add: payload_def)

lemma payload_kept:
  assumes "OSEventType F = OSEventType (OSEventTbl_g s e)" and "OSEventType F \<noteq> 0"
  shows "events_kept s (payload e F s)"
  using assms by (auto simp: events_kept_def payload_def)

lemma payload_live [simp]: "live (payload e F s) p i = live s p i"
  by (simp add: live_def payload_def)

lemma payload_sel [simp]:
  "OSTCBTbl (payload e F s) = OSTCBTbl s" "OSRunning (payload e F s) = OSRunning s"
  "OSEventTbl_g (payload e F s) = (OSEventTbl_g s)(e := F)"
  by (simp_all add: payload_def)

text \<open>Changing the message of a mailbox.\<close>

lemma sinv_mbox:
  assumes I: "sinv \<sigma>" and e: "is_mbox (kern \<sigma>) e" and m: "m \<noteq> PNull \<Longrightarrow> waiters (kern \<sigma>) e = {}"
  shows "sinv (\<sigma>\<lparr>kern := payload e ((OSEventTbl_g (kern \<sigma>) e)\<lparr>OSEventPtr := m\<rparr>) (kern \<sigma>)\<rparr>)"
proof -
  let ?F = "(OSEventTbl_g (kern \<sigma>) e)\<lparr>OSEventPtr := m\<rparr>"
  have w: "waiting ?F = waiting (OSEventTbl_g (kern \<sigma>) e)" "OSEventType ?F = OSEventType (OSEventTbl_g (kern \<sigma>) e)"
    by (simp_all add: waiting_def)
  have k: "events_kept (kern \<sigma>) (payload e ?F (kern \<sigma>))"
    by (rule payload_kept) (use e in \<open>auto simp: type_defs\<close>)
  have "idle_ok (payload e ?F (kern \<sigma>))"
    by (rule idle_ok_one [OF sinvD(6) [OF I], of e])
      (use e m in \<open>auto simp: holds_def type_defs w(1)\<close>)
  then show ?thesis
    by (intro sinv_quiet [OF I _ _ k]) (use payload_level [OF w] sinvD(1) [OF I] in simp_all)
qed

text \<open>Changing the count of a semaphore, with the counters that account for it.\<close>

lemma sinv_sem:
  assumes I: "sinv \<sigma>" and e: "is_sem (kern \<sigma>) e"
    and n: "unat n + g + p' = unat (OSEventCnt (OSEventTbl_g (kern \<sigma>) e)) + got \<sigma> e + p"
      "p + put \<sigma> e = p' + q"
    and z: "waiters (kern \<sigma>) e = {}"
  shows "sinv (\<sigma>\<lparr>kern := payload e ((OSEventTbl_g (kern \<sigma>) e)\<lparr>OSEventCnt := n\<rparr>) (kern \<sigma>),
     put := (put \<sigma>)(e := q), got := (got \<sigma>)(e := g)\<rparr>)"
proof -
  let ?F = "(OSEventTbl_g (kern \<sigma>) e)\<lparr>OSEventCnt := n\<rparr>"
  let ?s = "payload e ?F (kern \<sigma>)"
  let ?\<tau> = "\<sigma>\<lparr>kern := ?s, put := (put \<sigma>)(e := q), got := (got \<sigma>)(e := g)\<rparr>"
  have w: "waiting ?F = waiting (OSEventTbl_g (kern \<sigma>) e)" "OSEventType ?F = OSEventType (OSEventTbl_g (kern \<sigma>) e)"
    by (simp_all add: waiting_def)
  have k: "events_kept (kern \<sigma>) ?s"
    by (rule payload_kept) (use e in \<open>auto simp: type_defs\<close>)
  have io: "idle_ok ?s"
    by (rule idle_ok_one [OF sinvD(6) [OF I], of e]) (use z in \<open>simp_all add: w(1)\<close>)
  have U: "units_ok \<sigma>" and W: "waits_ok \<sigma>" using I by (auto simp: sinv_def)
  have ty: "OSEventType (OSEventTbl_g ?s d) = OSEventType (OSEventTbl_g (kern \<sigma>) d)" for d by simp
  have "waits_ok ?\<tau>"
    using W await_ok_cong [of "OSEventTbl_g ?s" "OSEventTbl_g (kern \<sigma>)", OF ty]
    by (simp add: waits_ok_def)
  moreover have gr: "granted ?\<tau> d = granted \<sigma> d" for d by (simp add: granted_def)
  have "unat (OSEventCnt (OSEventTbl_g (kern \<sigma>) e)) + got \<sigma> e + card (granted \<sigma> e) + lost \<sigma> e = put \<sigma> e"
    using U e by (simp add: units_ok_def)
  then have "units_ok ?\<tau>"
    using U n by (auto simp: units_ok_def gr)
  ultimately show ?thesis
    using I io payload_level [OF w] events_kept_einv [OF k] by (simp add: sinv_def)
qed

section \<open>Steps that block, wake and return\<close>

lemma sinv_cur:
  assumes "sinv \<sigma>"
  obtains p i where "p = unat (OSPrioCur (kern \<sigma>))" and "live (kern \<sigma>) p i" and "OSTCBCur (kern \<sigma>) = PTcb i"
    and "p \<in> ready (kern \<sigma>)" and "cur_task (kern \<sigma>) = OSTCBTbl (kern \<sigma>) i" and "cur_block \<sigma> = i"
    and "i < N_TCB"
proof -
  obtain p i where p: "p = unat (OSPrioCur (kern \<sigma>))" "p = highest_ready (kern \<sigma>)" "live (kern \<sigma>) p i"
    "OSTCBCur (kern \<sigma>) = PTcb i" "p \<in> ready (kern \<sigma>)" "cur_task (kern \<sigma>) = OSTCBTbl (kern \<sigma>) i"
    using task_levelE [OF sinvD(1) [OF assms]] .
  moreover have "cur_block \<sigma> = i" using p(4) by (simp add: block_of_def)
  moreover have "i < N_TCB" using p(3) by (simp add: live_def)
  ultimately show thesis using that by blast
qed

lemma sinv_free:
  assumes "sinv \<sigma>" and "awaits \<sigma> (cur_block \<sigma>) = None"
  shows "OSTCBEventPtr (cur_task (kern \<sigma>)) = PNull" and "OSTCBMsg (cur_task (kern \<sigma>)) = PNull"
proof -
  obtain p i where c: "p = unat (OSPrioCur (kern \<sigma>))" "live (kern \<sigma>) p i" "OSTCBCur (kern \<sigma>) = PTcb i"
    "p \<in> ready (kern \<sigma>)" "cur_task (kern \<sigma>) = OSTCBTbl (kern \<sigma>) i" "cur_block \<sigma> = i" "i < N_TCB"
    using sinv_cur [OF assms(1)] .
  then show "OSTCBEventPtr (cur_task (kern \<sigma>)) = PNull" "OSTCBMsg (cur_task (kern \<sigma>)) = PNull"
    using sinvD(4) [OF assms(1) c(2)] assms(2) by (simp_all add: await_ok_def)
qed

lemma granted_await:
  "granted (\<sigma>\<lparr>kern := s', awaits := A\<rparr>) e = {i. i < N_TCB \<and> A i = Some e \<and> OSTCBEventPtr (OSTCBTbl s' i) = PNull}"
  by (simp add: granted_def)

text \<open>One control block \<open>i\<close> and what its task awaits change together.\<close>

lemma waits_ok_upd:
  assumes W: "waits_ok \<sigma>" and lv: "\<And>p j. live s' p j = live (kern \<sigma>) p j"
    and ty: "\<And>d. OSEventType (OSEventTbl_g s' d) = OSEventType (OSEventTbl_g (kern \<sigma>) d)"
    and T: "OSTCBTbl s' = (OSTCBTbl (kern \<sigma>))(i := t)" and L: "live (kern \<sigma>) p i"
    and ok: "await_ok (OSEventTbl_g (kern \<sigma>)) t a"
    and k: "kern \<tau> = s'" and aw: "awaits \<tau> = (awaits \<sigma>)(i := a)"
  shows "waits_ok \<tau>"
proof -
  note cong = await_ok_cong [of "OSEventTbl_g s'" "OSEventTbl_g (kern \<sigma>)", OF ty refl refl]
  show ?thesis
    using W L ok unfolding waits_ok_def k aw lv T cong by auto
qed

lemma sinv_block:
  assumes I: "sinv \<sigma>" and e: "e < OS_MAX_EVENTS" "sem_or_mbox (OSEventType (OSEventTbl_g (kern \<sigma>) e))"
    and aw: "awaits \<sigma> (cur_block \<sigma>) = None" and nid: "unat (OSPrioCur (kern \<sigma>)) \<noteq> OS_IDLE_PRIO"
    and b: "b = ev_bit (OSEventType (OSEventTbl_g (kern \<sigma>) e))" "b \<noteq> OS_STAT_RDY"
    and na: "\<not> holds (OSEventTbl_g (kern \<sigma>) e)"
  obtains s' where "event_block b timeout (PEvent e) (kern \<sigma>) = Some s'"
    and "OSTCBCur s' \<noteq> OSTCBCur (kern \<sigma>)"
    and "sinv (\<sigma>\<lparr>kern := s', awaits := (awaits \<sigma>)(cur_block \<sigma> := Some e)\<rparr>)"
proof -
  obtain p i where c: "p = unat (OSPrioCur (kern \<sigma>))" "live (kern \<sigma>) p i" "OSTCBCur (kern \<sigma>) = PTcb i"
    "p \<in> ready (kern \<sigma>)" "cur_task (kern \<sigma>) = OSTCBTbl (kern \<sigma>) i" "cur_block \<sigma> = i" "i < N_TCB"
    using sinv_cur [OF I] .
  note np = sinv_free [OF I aw]
  obtain s' j where s': "event_block b timeout (PEvent e) (kern \<sigma>) = Some s'" "task_level s'"
    "OSTCBCur (kern \<sigma>) = PTcb j" "OSTCBCur s' \<noteq> OSTCBCur (kern \<sigma>)"
    "OSTCBTbl s' = (OSTCBTbl (kern \<sigma>))(j := blocked (PEvent e) b timeout (OSTCBTbl (kern \<sigma>) j))"
    "ready s' = ready (kern \<sigma>) - {unat (OSPrioCur (kern \<sigma>))}"
    "waiters s' = (waiters (kern \<sigma>))(e := insert (unat (OSPrioCur (kern \<sigma>))) (waiters (kern \<sigma>) e))"
    "\<forall>d. d \<noteq> e \<longrightarrow> OSEventTbl_g s' d = OSEventTbl_g (kern \<sigma>) d"
    "OSEventPtr (OSEventTbl_g s' e) = OSEventPtr (OSEventTbl_g (kern \<sigma>) e)"
    "OSEventCnt (OSEventTbl_g s' e) = OSEventCnt (OSEventTbl_g (kern \<sigma>) e)"
    "OSEventType (OSEventTbl_g s' e) = OSEventType (OSEventTbl_g (kern \<sigma>) e)"
    "\<exists>s1. same_but_task (kern \<sigma>) s1 \<and> same_but_sched s1 s'"
    using unlocked_event_block [OF sinvD(1) [OF I] e(1) np(1) nid b, where timeout = timeout] .
  have ji: "j = i" using s'(3) c(3) by simp
  obtain s1 where s1: "same_but_task (kern \<sigma>) s1" "same_but_sched s1 s'" using s'(12) by blast
  have g: "glob (kern \<sigma>) s'" using glob_trans [OF glob_same_task [OF s1(1)] glob_same_sched [OF s1(2)]] .
  have lv: "live s' q k = live (kern \<sigma>) q k" for q k
    using same_but_task_live [OF s1(1)] same_but_sched_live [OF s1(2)] by simp
  have ty: "OSEventType (OSEventTbl_g s' d) = OSEventType (OSEventTbl_g (kern \<sigma>) d)" for d
    using s'(8,11) by (cases "d = e") simp_all
  have cn: "OSEventCnt (OSEventTbl_g s' d) = OSEventCnt (OSEventTbl_g (kern \<sigma>) d)" for d
    using s'(8,10) by (cases "d = e") simp_all
  have e0: "OSEventType (OSEventTbl_g (kern \<sigma>) e) \<noteq> 0" using e(2) by (auto simp: sem_or_mbox_def type_defs)
  have k: "events_kept (kern \<sigma>) s'" using events_kept_one [OF g s'(8,11) e0] .
  let ?\<tau> = "\<sigma>\<lparr>kern := s', awaits := (awaits \<sigma>)(cur_block \<sigma> := Some e)\<rparr>"
  have W: "waits_ok \<sigma>" and U: "units_ok \<sigma>" using I by (auto simp: sinv_def)
  have "waits_ok ?\<tau>"
    by (rule waits_ok_upd [OF W lv ty s'(5) c(2) [folded ji]])
      (use e np c(5,6) ji in \<open>simp_all add: await_ok_def blocked_def\<close>)
  moreover have "granted ?\<tau> d = granted \<sigma> d" for d
    unfolding granted_await granted_def using s'(5) aw c(6) ji by (auto simp: blocked_def)
  then have "units_ok ?\<tau>" using U ty cn by (simp add: units_ok_def)
  moreover have "idle_ok s'"
    by (rule idle_ok_one [OF sinvD(6) [OF I] s'(8)]) (use na holds_cong [OF s'(11,10,9)] in simp)
  ultimately have "sinv ?\<tau>"
    using I s'(2) g events_kept_einv [OF k] by (simp add: sinv_def glob_def)
  with s'(1,4) that show thesis by blast
qed

text \<open>A post to an event on which tasks wait.\<close>

lemma sinv_wake:
  assumes I: "sinv \<sigma>" and e: "e < OS_MAX_EVENTS"
    and ty: "OSEventType (OSEventTbl_g (kern \<sigma>) e) = OS_EVENT_TYPE_SEM \<and> m = PNull \<and> q = put \<sigma> e + 1
      \<or> OSEventType (OSEventTbl_g (kern \<sigma>) e) = OS_EVENT_TYPE_MBOX \<and> m \<noteq> PNull"
    and p: "p \<in> waiters (kern \<sigma>) e" and L: "live (kern \<sigma>) p i"
    and s': "stable s'" "OSTCBTbl s' = (OSTCBTbl (kern \<sigma>))(i := readied m b (OSTCBTbl (kern \<sigma>) i))"
      "\<forall>d. d \<noteq> e \<longrightarrow> OSEventTbl_g s' d = OSEventTbl_g (kern \<sigma>) d"
      "OSEventCnt (OSEventTbl_g s' e) = OSEventCnt (OSEventTbl_g (kern \<sigma>) e)"
      "OSEventType (OSEventTbl_g s' e) = OSEventType (OSEventTbl_g (kern \<sigma>) e)"
      "\<exists>s1. same_but_task (kern \<sigma>) s1 \<and> same_but_sched s1 s'"
      "OSEventPtr (OSEventTbl_g s' e) = OSEventPtr (OSEventTbl_g (kern \<sigma>) e)"
  shows "sinv (\<sigma>\<lparr>kern := s', put := (put \<sigma>)(e := q)\<rparr>)"
proof -
  obtain s1 where s1: "same_but_task (kern \<sigma>) s1" "same_but_sched s1 s'" using s'(6) by blast
  have g: "glob (kern \<sigma>) s'" using glob_trans [OF glob_same_task [OF s1(1)] glob_same_sched [OF s1(2)]] .
  have lv: "live s' r k = live (kern \<sigma>) r k" for r k
    using same_but_task_live [OF s1(1)] same_but_sched_live [OF s1(2)] by simp
  have ul: "unlocked s' = unlocked (kern \<sigma>)"
    using same_but_task_unlocked [OF s1(1)] same_but_sched_unlocked [OF s1(2)] by simp
  have ty': "OSEventType (OSEventTbl_g s' d) = OSEventType (OSEventTbl_g (kern \<sigma>) d)" for d
    using s'(3,5) by (cases "d = e") simp_all
  have cn: "OSEventCnt (OSEventTbl_g s' d) = OSEventCnt (OSEventTbl_g (kern \<sigma>) d)" for d
    using s'(3,4) by (cases "d = e") simp_all
  have e0: "OSEventType (OSEventTbl_g (kern \<sigma>) e) \<noteq> 0" using ty by (auto simp: type_defs)
  note k = events_kept_one [OF g s'(3,5) e0]
  have K: "kinv (kern \<sigma>)" using sinvD(1) [OF I] by (simp add: task_level_def)
  have iN: "i < N_TCB" using L by (simp add: live_def)
  have pe: "OSTCBEventPtr (OSTCBTbl (kern \<sigma>) i) = PEvent e" using waits_for_one [OF K L e p] .
  then have aw: "awaits \<sigma> i = Some e"
    using sinvD(4) [OF I L] by (auto simp: await_ok_def split: option.splits)
  let ?\<tau> = "\<sigma>\<lparr>kern := s', put := (put \<sigma>)(e := q)\<rparr>"
  have W: "waits_ok \<sigma>" and U: "units_ok \<sigma>" using I by (auto simp: sinv_def)
  have ne: "OS_EVENT_TYPE_MBOX \<noteq> OS_EVENT_TYPE_SEM" by (simp add: type_defs)
  have awu: "(awaits \<sigma>)(i := Some e) = awaits \<sigma>" using aw by auto
  have "await_ok (OSEventTbl_g (kern \<sigma>)) (readied m b (OSTCBTbl (kern \<sigma>) i)) (Some e)"
    using e ty ne by (auto simp: await_ok_def sem_or_mbox_def readied_def)
  then have "waits_ok ?\<tau>"
    by (rule waits_ok_upd [OF W lv ty' s'(2) L]) (simp_all add: awu)
  moreover have gr: "granted ?\<tau> d = (if d = e then insert i (granted \<sigma> e) else granted \<sigma> d)" for d
    using s'(2) aw iN by (auto simp: granted_def readied_def)
  have ng: "i \<notin> granted \<sigma> e" using pe by (simp add: granted_def)
  have "units_ok ?\<tau>"
    unfolding units_ok_def
  proof (intro allI impI)
    fix d assume "is_sem (kern ?\<tau>) d"
    then have d: "is_sem (kern \<sigma>) d" using ty' by simp
    then have u: "unat (OSEventCnt (OSEventTbl_g (kern \<sigma>) d)) + got \<sigma> d + card (granted \<sigma> d) + lost \<sigma> d = put \<sigma> d"
      using U by (simp add: units_ok_def)
    show "unat (OSEventCnt (OSEventTbl_g (kern ?\<tau>) d)) + got ?\<tau> d + card (granted ?\<tau> d) + lost ?\<tau> d = put ?\<tau> d"
    proof (cases "d = e")
      case True
      then have "q = put \<sigma> e + 1" using d ty ne by auto
      moreover have "card (granted ?\<tau> e) = card (granted \<sigma> e) + 1" using ng gr by simp
      ultimately show ?thesis using u unfolding True by (simp add: cn)
    next
      case False
      with u show ?thesis by (simp add: gr cn)
    qed
  qed
  moreover have "\<not> holds (OSEventTbl_g (kern \<sigma>) e)"
    using sinvD(6) [OF I] e p unfolding idle_ok_def by blast
  then have "idle_ok s'"
    by (intro idle_ok_one [OF sinvD(6) [OF I] s'(3)]) (use holds_cong [OF s'(5,4,7)] in simp)
  ultimately show ?thesis
    using I stable_level [OF s'(1) ul sinvD(1) [OF I]] g events_kept_einv [OF k] by (simp add: sinv_def glob_def)
qed

text \<open>A task returns from its pend: it was given the event, or its timeout ran out.\<close>

lemma sinv_return:
  assumes I: "sinv \<sigma>" and aw: "awaits \<sigma> i = Some e" and L: "live (kern \<sigma>) p i"
    and s': "task_level s'" "glob (kern \<sigma>) s'" "OSTCBTbl s' = (OSTCBTbl (kern \<sigma>))(i := t)"
      "OSTCBPrioTbl s' = OSTCBPrioTbl (kern \<sigma>)"
      "\<forall>d. d \<noteq> e \<longrightarrow> OSEventTbl_g s' d = OSEventTbl_g (kern \<sigma>) d"
      "OSEventCnt (OSEventTbl_g s' e) = OSEventCnt (OSEventTbl_g (kern \<sigma>) e)"
      "OSEventType (OSEventTbl_g s' e) = OSEventType (OSEventTbl_g (kern \<sigma>) e)"
      "OSEventPtr (OSEventTbl_g s' e) = OSEventPtr (OSEventTbl_g (kern \<sigma>) e)"
      "waiters s' e \<subseteq> waiters (kern \<sigma>) e"
    and t: "OSTCBEventPtr t = PNull" "OSTCBMsg t = PNull"
    and b: "b \<longleftrightarrow> OSTCBEventPtr (OSTCBTbl (kern \<sigma>) i) = PNull \<and> OSEventType (OSEventTbl_g (kern \<sigma>) e) = OS_EVENT_TYPE_SEM"
  shows "sinv (receive e b (\<sigma>\<lparr>kern := s', awaits := (awaits \<sigma>)(i := None)\<rparr>))"
proof -
  let ?\<tau> = "receive e b (\<sigma>\<lparr>kern := s', awaits := (awaits \<sigma>)(i := None)\<rparr>)"
  have W: "waits_ok \<sigma>" and U: "units_ok \<sigma>" using I by (auto simp: sinv_def)
  have ao: "e < OS_MAX_EVENTS" "sem_or_mbox (OSEventType (OSEventTbl_g (kern \<sigma>) e))"
    using sinvD(4) [OF I L] aw by (simp_all add: await_ok_def)
  have e0: "OSEventType (OSEventTbl_g (kern \<sigma>) e) \<noteq> 0" using ao(2) by (auto simp: sem_or_mbox_def type_defs)
  note k = events_kept_one [OF s'(2,5,7) e0]
  have lv: "live s' r j = live (kern \<sigma>) r j" for r j using s'(4) by (simp add: live_def)
  have ty: "OSEventType (OSEventTbl_g s' d) = OSEventType (OSEventTbl_g (kern \<sigma>) d)" for d
    using s'(5,7) by (cases "d = e") simp_all
  have cn: "OSEventCnt (OSEventTbl_g s' d) = OSEventCnt (OSEventTbl_g (kern \<sigma>) d)" for d
    using s'(5,6) by (cases "d = e") simp_all
  have io: "idle_ok s'"
    by (rule idle_ok_one [OF sinvD(6) [OF I] s'(5)])
      (use sinvD(6) [OF I] holds_cong [OF s'(7,6,8)] s'(9) in \<open>simp add: idle_ok_def\<close>)
  have kt: "kern ?\<tau> = s'" "awaits ?\<tau> = (awaits \<sigma>)(i := None)" "put ?\<tau> = put \<sigma>" "lost ?\<tau> = lost \<sigma>"
    "got ?\<tau> = (if b then (got \<sigma>)(e := got \<sigma> e + 1) else got \<sigma>)"
    by (simp_all add: receive_def)
  have "await_ok (OSEventTbl_g (kern \<sigma>)) t None" using t by (simp add: await_ok_def)
  then have wk: "waits_ok ?\<tau>" by (rule waits_ok_upd [OF W lv ty s'(3) L _ kt(1,2)])
  have iN: "i < N_TCB" using L by (simp add: live_def)
  have gr: "granted ?\<tau> d = granted \<sigma> d - (if d = e then {i} else {})" for d
    using s'(3) aw by (auto simp: granted_def kt)
  have gi: "i \<in> granted \<sigma> e \<longleftrightarrow> OSTCBEventPtr (OSTCBTbl (kern \<sigma>) i) = PNull"
    using aw iN by (simp add: granted_def)
  have "units_ok ?\<tau>"
    unfolding units_ok_def
  proof (intro allI impI)
    fix d assume "is_sem (kern ?\<tau>) d"
    then have d: "is_sem (kern \<sigma>) d" using ty kt(1) by simp
    then have u: "unat (OSEventCnt (OSEventTbl_g (kern \<sigma>) d)) + got \<sigma> d + card (granted \<sigma> d) + lost \<sigma> d = put \<sigma> d"
      using U by (simp add: units_ok_def)
    show "unat (OSEventCnt (OSEventTbl_g (kern ?\<tau>) d)) + got ?\<tau> d + card (granted ?\<tau> d) + lost ?\<tau> d = put ?\<tau> d"
    proof (cases "d = e")
      case True
      have bg: "b \<longleftrightarrow> i \<in> granted \<sigma> e" using True b d gi by auto
      show ?thesis
      proof (cases b)
        case b: True
        have "card (granted \<sigma> e) = Suc (card (granted \<sigma> e - {i}))"
          using card.remove [OF finite_granted] b bg by blast
        then show ?thesis using u b unfolding True gr kt cn by simp
      next
        case b: False
        then have "granted \<sigma> e - {i} = granted \<sigma> e" using bg by simp
        then show ?thesis using u b unfolding True gr kt cn by simp
      qed
    next
      case False
      with u show ?thesis by (simp add: gr kt cn)
    qed
  qed
  then show ?thesis
    using I s'(1,2) wk kt(1) io events_kept_einv [OF k] by (simp add: sinv_def glob_def)
qed

section \<open>Steps that create and delete\<close>

lemma sinv_task_created:
  assumes I: "sinv \<sigma>" and s': "task_level s'" "glob (kern \<sigma>) s'" "OSEventTbl_g s' = OSEventTbl_g (kern \<sigma>)"
    and lv: "\<forall>q j. live s' q j \<longleftrightarrow> live (kern \<sigma>) q j \<or> q = p \<and> j = i"
    and fresh: "\<And>q. \<not> live (kern \<sigma>) q i"
    and T: "relinked ((OSTCBTbl (kern \<sigma>))(i := OSTCBTbl s' i)) (OSTCBTbl s')"
    and new: "OSTCBEventPtr (OSTCBTbl s' i) = PNull" "OSTCBMsg (OSTCBTbl s' i) = PNull"
  shows "sinv (\<sigma>\<lparr>kern := s'\<rparr>)"
proof -
  have W: "waits_ok \<sigma>" and U: "units_ok \<sigma>" using I by (auto simp: sinv_def)
  have aw: "awaits \<sigma> i = None" using W fresh by (simp add: waits_ok_def)
  have tcb: "OSTCBEventPtr (OSTCBTbl s' j) = OSTCBEventPtr (OSTCBTbl (kern \<sigma>) j)"
    "OSTCBMsg (OSTCBTbl s' j) = OSTCBMsg (OSTCBTbl (kern \<sigma>) j)" if "j \<noteq> i" for j
    using relinked_sel(1) [OF T, of j] relinked_msg [OF T, of j] that by simp_all
  have aok: "await_ok (OSEventTbl_g (kern \<sigma>)) (OSTCBTbl s' j) (awaits \<sigma> j)" if "live s' q j" for q j
  proof (cases "j = i")
    case True
    then show ?thesis using aw new by (simp add: await_ok_def)
  next
    case False
    then have "live (kern \<sigma>) q j" using that lv by blast
    with W have "await_ok (OSEventTbl_g (kern \<sigma>)) (OSTCBTbl (kern \<sigma>) j) (awaits \<sigma> j)"
      by (simp add: waits_ok_def)
    then show ?thesis using await_ok_cong [OF refl tcb [OF False]] by blast
  qed
  have dead: "awaits \<sigma> j = None" if "\<And>q. \<not> live s' q j" for j
    using W that lv unfolding waits_ok_def by metis
  have "waits_ok (\<sigma>\<lparr>kern := s'\<rparr>)"
    using aok dead s'(3) unfolding waits_ok_def by simp
  moreover have "j \<in> granted (\<sigma>\<lparr>kern := s'\<rparr>) d \<longleftrightarrow> j \<in> granted \<sigma> d" for d j
    using aw tcb(1) [of j] by (cases "j = i") (simp_all add: granted_def)
  then have "granted (\<sigma>\<lparr>kern := s'\<rparr>) d = granted \<sigma> d" for d by blast
  then have "units_ok (\<sigma>\<lparr>kern := s'\<rparr>)" using U s'(3) by (simp add: units_ok_def)
  ultimately show ?thesis
    using I s'(1,2) events_kept_einv [OF events_kept_eq [OF s'(2,3)]] idle_ok_eq [OF s'(3)] by (simp add: sinv_def glob_def)
qed

lemma mem_stk_frame:
  assumes "s' = s\<lparr>mem_stk := m\<rparr>"
  shows "OSEventTbl_g s' = OSEventTbl_g s" "OSTCBPrioTbl s' = OSTCBPrioTbl s" "OSTCBTbl s' = OSTCBTbl s"
    "unlocked s' = unlocked s" "OSRunning s' = OSRunning s"
  unfolding assms by (simp_all add: unlocked_def)

lemma step_TaskCreate:
  assumes I: "sinv \<sigma>"
  shows "\<exists>\<sigma>'. exec (TaskCreate c task pdata a w) \<sigma> = Some \<sigma>' \<and> sinv \<sigma>'"
proof -
  let ?s = "kern \<sigma>"
  obtain err s' where s': "OSTaskCreate c task pdata (PAddr a) w ?s = Some (err, s')" "stable s'"
    and r: "if unat w > OS_LOWEST_PRIO then err = OS_PRIO_INVALID \<and> s' = ?s
     else if OSTCBPrioTbl ?s (unat w) \<noteq> PNull then err = OS_PRIO_EXIST \<and> s' = ?s
     else if OSTCBFreeList ?s = PNull then err = OS_NO_MORE_TCB \<and> s' = ?s\<lparr>mem_stk := mem_stk s'\<rparr>
     else err = OS_NO_ERR \<and> (\<exists>i. OSTCBFreeList ?s = PTcb i
       \<and> OSTCBTbl s' i = new_tcb w (PAddr (a - 32)) PNull 0 0 PNull 0 (OSTCBList ?s)
       \<and> (\<forall>q j. live s' q j \<longleftrightarrow> live ?s q j \<or> q = unat w \<and> j = i)
       \<and> ready s' = insert (unat w) (ready ?s) \<and> OSEventTbl_g s' = OSEventTbl_g ?s
       \<and> relinked ((OSTCBTbl ?s)(i := OSTCBTbl s' i)) (OSTCBTbl s') \<and> OSTaskCtr s' = OSTaskCtr ?s + 1
       \<and> unlocked s' = unlocked ?s)"
    using OSTaskCreate_ok [OF sinvD(5,2) [OF I], of c task pdata a w] by blast
  have g: "glob ?s s'" using glob_create [OF s'(1)] .
  consider "s' = ?s" | "s' = ?s\<lparr>mem_stk := mem_stk s'\<rparr>"
    | i where "OSTCBFreeList ?s = PTcb i" "OSTCBTbl s' i = new_tcb w (PAddr (a - 32)) PNull 0 0 PNull 0 (OSTCBList ?s)"
       "\<forall>q j. live s' q j \<longleftrightarrow> live ?s q j \<or> q = unat w \<and> j = i" "OSEventTbl_g s' = OSEventTbl_g ?s"
       "relinked ((OSTCBTbl ?s)(i := OSTCBTbl s' i)) (OSTCBTbl s')" "unlocked s' = unlocked ?s"
    using r by (auto split: if_splits)
  then have "sinv (\<sigma>\<lparr>kern := s'\<rparr>)"
  proof cases
    case 1
    then show ?thesis using I by simp
  next
    case 2
    then have e: "OSEventTbl_g s' = OSEventTbl_g ?s" "OSTCBPrioTbl s' = OSTCBPrioTbl ?s" "OSTCBTbl s' = OSTCBTbl ?s"
      "unlocked s' = unlocked ?s" "OSRunning s' = OSRunning ?s"
      by (simp_all add: mem_stk_frame [OF 2])
    show ?thesis
      by (rule sinv_quiet [OF I stable_level [OF s'(2) e(4) sinvD(1) [OF I]] e(5) events_kept_eq [OF g e(1)]])
        (use sinvD(6) [OF I] idle_ok_eq [OF e(1)] in \<open>simp_all add: e live_def\<close>)
  next
    case 3
    obtain xs ys where t: "tlists ?s xs ys" using sinvD(5) [OF I] by (auto simp: stable_def tinv_def)
    have fresh: "\<not> live ?s q i" for q
    proof
      assume "live ?s q i"
      then have "i \<in> set xs" using t by (auto simp: tlists_def)
      moreover have "i \<in> set ys" using t 3(1) by (cases ys) (auto simp: tlists_def)
      ultimately show False using t by (auto simp: tlists_def)
    qed
    show ?thesis
      by (rule sinv_task_created [OF I stable_level [OF s'(2) 3(6) sinvD(1) [OF I]] g 3(4,3) fresh 3(5)])
        (simp_all add: 3(2) new_tcb_def)
  qed
  then show ?thesis using s'(1) by (simp add: exec_plain_def)
qed

end
