(* ===== verification/System_Steps.thy ===== *)
theory System_Steps
  imports System_Inv
begin

text \<open>
  Every step of the transition system keeps the invariant of \<open>System_Inv\<close>: the calls that delete a
  task, create an event, pend, post and accept, and the return from a wait. The last section puts
  the steps together: no call that is allowed faults, and every reachable state satisfies the
  invariant.
\<close>

section \<open>Deleting a task\<close>

lemma forget_sel [simp]:
  "kern (forget i \<sigma>) = kern \<sigma>" "put (forget i \<sigma>) = put \<sigma>" "got (forget i \<sigma>) = got \<sigma>"
  "awaits (forget i \<sigma>) = (awaits \<sigma>)(i := None)"
  "lost (forget i \<sigma>) e = lost \<sigma> e + (if i \<in> granted \<sigma> e then 1 else 0)"
  by (auto simp: forget_def granted_def split: option.split)

lemma sinv_deleted:
  assumes I: "sinv \<sigma>" and s': "task_level s'" "glob (kern \<sigma>) s'"
    and ev: "\<forall>e. OSEventType (OSEventTbl_g s' e) = OSEventType (OSEventTbl_g (kern \<sigma>) e)
        \<and> OSEventCnt (OSEventTbl_g s' e) = OSEventCnt (OSEventTbl_g (kern \<sigma>) e)
        \<and> OSEventPtr (OSEventTbl_g s' e) = OSEventPtr (OSEventTbl_g (kern \<sigma>) e)"
    and w: "\<forall>e < OS_MAX_EVENTS. waiters s' e = waiters (kern \<sigma>) e - {p}"
    and lv: "\<forall>q j. live s' q j \<longleftrightarrow> live (kern \<sigma>) q j \<and> q \<noteq> p" and L: "live (kern \<sigma>) p i"
    and T: "relinked ((OSTCBTbl (kern \<sigma>))(i := (OSTCBTbl (kern \<sigma>) i)\<lparr>OSTCBDly := 0, OSTCBStat := OS_STAT_RDY\<rparr>))
      (OSTCBTbl s')"
  shows "sinv ((forget i \<sigma>)\<lparr>kern := s'\<rparr>)"
proof -
  let ?\<tau> = "(forget i \<sigma>)\<lparr>kern := s'\<rparr>"
  have W: "waits_ok \<sigma>" and U: "units_ok \<sigma>" using I by (auto simp: sinv_def)
  have K: "kinv (kern \<sigma>)" using sinvD(1) [OF I] by (simp add: task_level_def)
  have k: "events_kept (kern \<sigma>) s'" using s'(2) ev w by (simp add: events_kept_def glob_def)
  have tcb: "OSTCBEventPtr (OSTCBTbl s' j) = OSTCBEventPtr (OSTCBTbl (kern \<sigma>) j)"
    "OSTCBMsg (OSTCBTbl s' j) = OSTCBMsg (OSTCBTbl (kern \<sigma>) j)" for j
    using relinked_sel(1) [OF T, of j] relinked_msg [OF T, of j] by (cases "j = i"; simp)+
  have ty: "OSEventType (OSEventTbl_g s' d) = OSEventType (OSEventTbl_g (kern \<sigma>) d)" for d
    using ev by simp
  have alive: "await_ok (OSEventTbl_g s') (OSTCBTbl s' j) (awaits ?\<tau> j)" if "live s' q j" for q j
  proof -
    have q: "live (kern \<sigma>) q j" "q \<noteq> p" using that lv by auto
    then have "j \<noteq> i" using live_inj [OF K _ L] by blast
    then show ?thesis
      using sinvD(4) [OF I q(1)] await_ok_cong [of "OSEventTbl_g s'" "OSEventTbl_g (kern \<sigma>)", OF ty tcb] by simp
  qed
  have dead: "awaits ?\<tau> j = None" if "\<forall>q. \<not> live s' q j" for j
  proof (cases "j = i")
    case False
    have "\<not> live (kern \<sigma>) p j" using False L by (auto simp: live_def)
    then have "\<forall>q. \<not> live (kern \<sigma>) q j" using that lv by metis
    then show ?thesis using W False by (simp add: waits_ok_def)
  qed simp
  have "waits_ok ?\<tau>" unfolding waits_ok_def using alive dead by simp
  moreover have gr: "granted ?\<tau> d = granted \<sigma> d - {i}" for d
    using tcb by (auto simp: granted_def)
  have "card (granted \<sigma> d) = card (granted \<sigma> d - {i}) + (if i \<in> granted \<sigma> d then 1 else 0)" for d
    using card.remove [OF finite_granted, of i \<sigma> d] by simp
  then have "units_ok ?\<tau>"
    using U ev unfolding units_ok_def gr by (simp add: ac_simps)
  moreover have "idle_ok s'"
    using sinvD(6) [OF I] w ev by (simp add: idle_ok_def holds_def)
  ultimately show ?thesis
    using I s' events_kept_einv [OF k] by (simp add: sinv_def glob_def)
qed

lemma step_TaskDel:
  assumes I: "sinv \<sigma>" and nid: "unat (OSPrioCur (kern \<sigma>)) \<noteq> OS_IDLE_PRIO"
  shows "\<exists>\<sigma>'. exec (TaskDel w) \<sigma> = Some \<sigma>' \<and> sinv \<sigma>'"
proof -
  let ?s = "kern \<sigma>" and ?p = "target w (kern \<sigma>)"
  obtain err s' where s': "OSTaskDel w ?s = Some (err, s')" "task_level s'"
    and r: "if ?p = OS_IDLE_PRIO then err = OS_TASK_DEL_IDLE \<and> s' = ?s
      else if ?p > OS_LOWEST_PRIO then err = OS_PRIO_INVALID \<and> s' = ?s
      else if OSTCBPrioTbl ?s ?p = PNull then err = OS_TASK_DEL_ERR \<and> s' = ?s
      else err = OS_NO_ERR \<and> ready s' = ready ?s - {?p}
       \<and> (\<forall>e < OS_MAX_EVENTS. waiters s' e = waiters ?s e - {?p})
       \<and> (\<forall>q j. live s' q j \<longleftrightarrow> live ?s q j \<and> q \<noteq> ?p) \<and> OSTaskCtr s' = OSTaskCtr ?s - 1
       \<and> (\<forall>e. OSEventType (OSEventTbl_g s' e) = OSEventType (OSEventTbl_g ?s e)
            \<and> OSEventCnt (OSEventTbl_g s' e) = OSEventCnt (OSEventTbl_g ?s e)
            \<and> OSEventPtr (OSEventTbl_g s' e) = OSEventPtr (OSEventTbl_g ?s e))
       \<and> (\<exists>i. live ?s ?p i \<and> OSTCBFreeList s' = PTcb i
            \<and> relinked ((OSTCBTbl ?s)(i := (OSTCBTbl ?s i)\<lparr>OSTCBDly := 0, OSTCBStat := OS_STAT_RDY\<rparr>)) (OSTCBTbl s'))"
    using OSTaskDel_ok [OF sinvD(1) [OF I] nid, of w] unfolding Let_def by blast
  note g = glob_del [OF s'(1)]
  have ne: "OS_TASK_DEL_IDLE \<noteq> OS_NO_ERR" "OS_PRIO_INVALID \<noteq> OS_NO_ERR" "OS_TASK_DEL_ERR \<noteq> OS_NO_ERR"
    by (simp_all add: err_defs)
  show ?thesis
  proof (cases "err = OS_NO_ERR")
    case False
    then have "s' = ?s" using r by (simp split: if_splits)
    then show ?thesis using I s'(1) False by simp
  next
    case True
    then obtain i where i: "live ?s ?p i" "relinked ((OSTCBTbl ?s)(i := (OSTCBTbl ?s i)\<lparr>OSTCBDly := 0, OSTCBStat := OS_STAT_RDY\<rparr>)) (OSTCBTbl s')"
      and f: "\<forall>e < OS_MAX_EVENTS. waiters s' e = waiters ?s e - {?p}" "\<forall>q j. live s' q j \<longleftrightarrow> live ?s q j \<and> q \<noteq> ?p"
        "\<forall>e. OSEventType (OSEventTbl_g s' e) = OSEventType (OSEventTbl_g ?s e)
            \<and> OSEventCnt (OSEventTbl_g s' e) = OSEventCnt (OSEventTbl_g ?s e)
            \<and> OSEventPtr (OSEventTbl_g s' e) = OSEventPtr (OSEventTbl_g ?s e)"
      using r ne by (auto split: if_splits)
    have "target_block w \<sigma> = i" using i(1) by (simp add: live_def block_of_def)
    then show ?thesis
      using s'(1) True sinv_deleted [OF I s'(2) g f(3,1,2) i] by simp
  qed
qed

section \<open>Creating an event\<close>

lemma sinv_new_event:
  assumes I: "sinv \<sigma>" and el: "elist (kern \<sigma>) (e # es)"
    and F: "OSEventType F \<noteq> 0" "k = with_event e (no_waiters F) (kern \<sigma>)"
    and \<tau>: "kern \<tau> = k" "awaits \<tau> = awaits \<sigma>"
      "\<And>d. d \<noteq> e \<Longrightarrow> put \<tau> d = put \<sigma> d \<and> got \<tau> d = got \<sigma> d \<and> lost \<tau> d = lost \<sigma> d"
      "OSEventType F = OS_EVENT_TYPE_SEM \<Longrightarrow> put \<tau> e = unat (OSEventCnt F) \<and> got \<tau> e = 0 \<and> lost \<tau> e = 0"
  shows "sinv \<tau>"
proof -
  let ?s = "kern \<sigma>"
  have W: "waits_ok \<sigma>" and U: "units_ok \<sigma>" using I by (auto simp: sinv_def)
  have K: "kinv ?s" using sinvD(1) [OF I] by (simp add: task_level_def)
  note w = with_event_ok [OF K el refl F(1), folded F(2)]
  have "tinv k = tinv ?s" by (rule tinv_frame) (simp_all add: F(2) with_event_def)
  then have "task_level k = task_level ?s"
    by (intro task_level_frame) (simp_all add: F(2) with_event_def K w(1) [unfolded F(2) with_event_def])
  moreover have ao: "await_ok (OSEventTbl_g k) t a" if "await_ok (OSEventTbl_g ?s) t a" for t a
    using that w(5) by (auto simp: await_ok_def sem_or_mbox_def F(2) with_event_def type_defs split: option.splits)
  have lv: "live k q j = live ?s q j" for q j by (simp add: F(2) with_event_def live_def)
  have T: "OSTCBTbl k = OSTCBTbl ?s" by (simp add: F(2) with_event_sel)
  have "waits_ok \<tau>"
    using W ao unfolding waits_ok_def \<tau>(1,2) lv T by blast
  moreover have gr: "granted \<tau> d = granted \<sigma> d" for d
    by (simp add: granted_def \<tau>(1,2) T)
  have "granted \<sigma> e = {}"
  proof -
    have "awaits \<sigma> j \<noteq> Some e" for j
    proof
      assume a: "awaits \<sigma> j = Some e"
      then obtain q where "live ?s q j" using awaits_live [OF W] by blast
      then show False using sinvD(4) [OF I, of q j] a w(5)
        by (auto simp: await_ok_def sem_or_mbox_def type_defs)
    qed
    then show ?thesis by (simp add: granted_def)
  qed
  then have "units_ok \<tau>"
    unfolding units_ok_def \<tau>(1) gr using U \<tau>(3,4)
    by (auto simp: units_ok_def F(2) with_event_def)
  moreover have "OSRunning k = OSRunning ?s" by (simp add: F(2) with_event_def)
  moreover have "idle_ok k"
    by (rule idle_ok_one [OF sinvD(6) [OF I], of e])
      (use no_waiters_ok [of F] in \<open>simp_all add: F(2) with_event_def\<close>)
  ultimately show ?thesis using I w(2) by (auto simp: sinv_def \<tau>(1) einv_def)
qed

lemma step_SemCreate:
  assumes I: "sinv \<sigma>"
  shows "\<exists>\<sigma>'. exec (SemCreate cnt) \<sigma> = Some \<sigma>' \<and> sinv \<sigma>'"
proof -
  obtain es where el: "elist (kern \<sigma>) es" using sinvD(3) [OF I] by (auto simp: einv_def)
  show ?thesis
  proof (cases es)
    case Nil
    then have "OSSemCreate cnt (kern \<sigma>) = Some (PNull, kern \<sigma>)"
      using event_alloc_post [OF el] by (simp add: OSSemCreate_def)
    then show ?thesis using I by simp
  next
    case (Cons e es')
    note el' = el [unfolded Cons]
    have "OSEventType ((OSEventTbl_g (kern \<sigma>) e)\<lparr>OSEventType := OS_EVENT_TYPE_SEM, OSEventCnt := cnt\<rparr>) \<noteq> 0"
      by (simp add: type_defs)
    from sinv_new_event [OF I el' this refl, where \<tau> = "the (exec (SemCreate cnt) \<sigma>)"]
    show ?thesis by (simp add: create_eqs(1) [OF el'])
  qed
qed

lemma step_MboxCreate:
  assumes I: "sinv \<sigma>"
  shows "\<exists>\<sigma>'. exec (MboxCreate msg) \<sigma> = Some \<sigma>' \<and> sinv \<sigma>'"
proof -
  obtain es where el: "elist (kern \<sigma>) es" using sinvD(3) [OF I] by (auto simp: einv_def)
  show ?thesis
  proof (cases es)
    case Nil
    then have "OSMboxCreate msg (kern \<sigma>) = Some (PNull, kern \<sigma>)"
      using event_alloc_post [OF el] by (simp add: OSMboxCreate_def)
    then show ?thesis using I by (simp add: exec_plain_def)
  next
    case (Cons e es')
    note el' = el [unfolded Cons]
    have ty: "OSEventType ((OSEventTbl_g (kern \<sigma>) e)\<lparr>OSEventType := OS_EVENT_TYPE_MBOX, OSEventPtr := msg\<rparr>) \<noteq> 0"
      "OS_EVENT_TYPE_MBOX \<noteq> OS_EVENT_TYPE_SEM"
      by (simp_all add: type_defs)
    from sinv_new_event [OF I el' ty(1) refl, where \<tau> = "the (exec (MboxCreate msg) \<sigma>)"]
    show ?thesis by (simp add: create_eqs(2) [OF el'] exec_plain_def ty(2))
  qed
qed

section \<open>Pends, posts and accepts\<close>

lemma exec_pend_blocks:
  assumes "op (kern \<sigma>) = Some (Blocked, s')"
    and "sinv (\<sigma>\<lparr>kern := s', awaits := (awaits \<sigma>)(cur_block \<sigma> := Some e)\<rparr>)"
  shows "\<exists>\<sigma>'. exec_pend e op ok \<sigma> = Some \<sigma>' \<and> sinv \<sigma>'"
  using assms by (simp add: exec_pend_def)

context event_pend
begin

text \<open>A pend on an event with nothing to give is a step that keeps the invariant.\<close>

lemma pend_step_blocks:
  assumes I: "sinv \<sigma>" and e: "e < OS_MAX_EVENTS" and ty: "OSEventType (OSEventTbl_g (kern \<sigma>) e) = ety"
    and sm: "sem_or_mbox ety" and na: "\<not> available (kern \<sigma>) e" "\<not> holds (OSEventTbl_g (kern \<sigma>) e)"
    and aw: "awaits \<sigma> (cur_block \<sigma>) = None" and nid: "unat (OSPrioCur (kern \<sigma>)) \<noteq> OS_IDLE_PRIO"
  shows "\<exists>\<sigma>'. exec_pend e (pend e timeout) ok \<sigma> = Some \<sigma>' \<and> sinv \<sigma>'"
proof -
  have n: "OSIntNesting (kern \<sigma>) = 0" using sinvD(1) [OF I] by (simp add: task_level_def unlocked_def)
  have b: "ev_bit ety = ev_bit (OSEventType (OSEventTbl_g (kern \<sigma>) e))"
    "sem_or_mbox (OSEventType (OSEventTbl_g (kern \<sigma>) e))"
    using ty sm by simp_all
  obtain s' where s': "event_block (ev_bit ety) timeout (PEvent e) (kern \<sigma>) = Some s'"
    "OSTCBCur s' \<noteq> OSTCBCur (kern \<sigma>)" "sinv (\<sigma>\<lparr>kern := s', awaits := (awaits \<sigma>)(cur_block \<sigma> := Some e)\<rparr>)"
    using sinv_block [OF I e b(2) aw nid b(1) ety_bit na(2), where timeout = timeout] .
  have "pend e timeout (kern \<sigma>) = Some (Blocked, s')"
    using waits [OF e ty na(1) n] s'(1,2) by (simp add: continue_def)
  then show ?thesis using s'(3) by (rule exec_pend_blocks)
qed

end

lemma sys_same [simp]: "\<sigma>\<lparr>put := put \<sigma>\<rparr> = (\<sigma> :: sys)" "\<sigma>\<lparr>got := got \<sigma>\<rparr> = \<sigma>"
  by simp_all

text \<open>Taking a unit of a semaphore, and adding one.\<close>

lemma sinv_take:
  assumes I: "sinv \<sigma>" and e: "is_sem (kern \<sigma>) e" and c: "OSEventCnt (OSEventTbl_g (kern \<sigma>) e) > 0"
  shows "sinv (receive e True (\<sigma>\<lparr>kern := payload e ((OSEventTbl_g (kern \<sigma>) e)\<lparr>OSEventCnt := OSEventCnt (OSEventTbl_g (kern \<sigma>) e) - 1\<rparr>) (kern \<sigma>)\<rparr>))"
proof -
  have "OSEventCnt (OSEventTbl_g (kern \<sigma>) e) \<noteq> 0" using c by auto
  then have "unat (OSEventCnt (OSEventTbl_g (kern \<sigma>) e)) \<noteq> 0" by (simp add: unat_eq_0)
  with cnt_pred [OF c] have n: "unat (OSEventCnt (OSEventTbl_g (kern \<sigma>) e) - 1) + (got \<sigma> e + 1) + 0
      = unat (OSEventCnt (OSEventTbl_g (kern \<sigma>) e)) + got \<sigma> e + 0" by simp
  have "holds (OSEventTbl_g (kern \<sigma>) e)" using e c by (auto simp: holds_def)
  then have z: "waiters (kern \<sigma>) e = {}" using sinvD(6) [OF I] e unfolding idle_ok_def by blast
  show ?thesis
    using sinv_sem [OF I e n _ z, of "put \<sigma> e"] by (simp add: receive_def)
qed

lemma step_SemPend:
  assumes I: "sinv \<sigma>" and e: "is_sem (kern \<sigma>) e"
    and aw: "awaits \<sigma> (cur_block \<sigma>) = None" and nid: "unat (OSPrioCur (kern \<sigma>)) \<noteq> OS_IDLE_PRIO"
  shows "\<exists>\<sigma>'. exec (SemPend e timeout) \<sigma> = Some \<sigma>' \<and> sinv \<sigma>'"
proof (cases "OSEventCnt (OSEventTbl_g (kern \<sigma>) e) > 0")
  case True
  then have "OSSemPend (PEvent e) timeout (kern \<sigma>) = Some (Returned OS_NO_ERR,
      payload e ((OSEventTbl_g (kern \<sigma>) e)\<lparr>OSEventCnt := OSEventCnt (OSEventTbl_g (kern \<sigma>) e) - 1\<rparr>) (kern \<sigma>))"
    using e by (simp add: OSSemPend_def payload_def)
  then show ?thesis using sinv_take [OF I e True] by (simp add: exec_pend_def)
next
  case False
  then have "\<not> holds (OSEventTbl_g (kern \<sigma>) e)" using e by (simp add: holds_def word_gt_0 type_defs)
  moreover have "sem_or_mbox OS_EVENT_TYPE_SEM" by (simp add: sem_or_mbox_def)
  ultimately show ?thesis
    using e False sem_pend.pend_step_blocks [OF I _ _ _ _ _ aw nid, where e = e] by simp
qed

lemma step_MboxPend:
  assumes I: "sinv \<sigma>" and e: "is_mbox (kern \<sigma>) e"
    and aw: "awaits \<sigma> (cur_block \<sigma>) = None" and nid: "unat (OSPrioCur (kern \<sigma>)) \<noteq> OS_IDLE_PRIO"
  shows "\<exists>\<sigma>'. exec (MboxPend e timeout) \<sigma> = Some \<sigma>' \<and> sinv \<sigma>'"
proof (cases "OSEventPtr (OSEventTbl_g (kern \<sigma>) e) \<noteq> PNull")
  case True
  then have "OSMboxPend (PEvent e) timeout (kern \<sigma>) = Some (Returned (OSEventPtr (OSEventTbl_g (kern \<sigma>) e), OS_NO_ERR),
      payload e ((OSEventTbl_g (kern \<sigma>) e)\<lparr>OSEventPtr := PNull\<rparr>) (kern \<sigma>))"
    using e by (simp add: OSMboxPend_def payload_def Let_def)
  then show ?thesis using sinv_mbox [OF I e, of PNull] by (simp add: exec_pend_def receive_def)
next
  case False
  then have "\<not> holds (OSEventTbl_g (kern \<sigma>) e)" using e by (simp add: holds_def type_defs)
  moreover have "sem_or_mbox OS_EVENT_TYPE_MBOX" by (simp add: sem_or_mbox_def)
  ultimately show ?thesis
    using e False mbox_pend.pend_step_blocks [OF I _ _ _ _ _ aw nid, where e = e] by simp
qed

lemma step_SemAccept:
  assumes I: "sinv \<sigma>" and e: "is_sem (kern \<sigma>) e"
  shows "\<exists>\<sigma>'. exec (SemAccept e) \<sigma> = Some \<sigma>' \<and> sinv \<sigma>'"
proof (cases "OSEventCnt (OSEventTbl_g (kern \<sigma>) e) > 0")
  case True
  then have "OSSemAccept (PEvent e) (kern \<sigma>) = Some (OSEventCnt (OSEventTbl_g (kern \<sigma>) e),
      payload e ((OSEventTbl_g (kern \<sigma>) e)\<lparr>OSEventCnt := OSEventCnt (OSEventTbl_g (kern \<sigma>) e) - 1\<rparr>) (kern \<sigma>))"
    using e by (simp add: OSSemAccept_def payload_def Let_def)
  then show ?thesis using sinv_take [OF I e True] True by simp
next
  case False
  then have "OSSemAccept (PEvent e) (kern \<sigma>) = Some (0, kern \<sigma>)"
    using e by (simp add: OSSemAccept_def Let_def word_gt_0)
  then show ?thesis using I by (simp add: receive_def)
qed

lemma step_MboxAccept:
  assumes I: "sinv \<sigma>" and e: "is_mbox (kern \<sigma>) e"
  shows "\<exists>\<sigma>'. exec (MboxAccept e) \<sigma> = Some \<sigma>' \<and> sinv \<sigma>'"
proof (cases "OSEventPtr (OSEventTbl_g (kern \<sigma>) e) \<noteq> PNull")
  case True
  then have "OSMboxAccept (PEvent e) (kern \<sigma>) = Some (OSEventPtr (OSEventTbl_g (kern \<sigma>) e),
      payload e ((OSEventTbl_g (kern \<sigma>) e)\<lparr>OSEventPtr := PNull\<rparr>) (kern \<sigma>))"
    using e by (simp add: OSMboxAccept_def payload_def Let_def)
  then show ?thesis using sinv_mbox [OF I e, of PNull] by (simp add: exec_plain_def)
next
  case False
  then have "OSMboxAccept (PEvent e) (kern \<sigma>) = Some (PNull, kern \<sigma>)"
    using e by (simp add: OSMboxAccept_def Let_def)
  then show ?thesis using I by (simp add: exec_plain_def)
qed

text \<open>Posting: to a waiting task, or into the event.\<close>

lemma waiters_grp:
  "sinv \<sigma> \<Longrightarrow> e < OS_MAX_EVENTS \<Longrightarrow> waiters (kern \<sigma>) e = {} \<longleftrightarrow> OSEventGrp (OSEventTbl_g (kern \<sigma>) e) = 0"
  using prios_empty_iff [OF kinvD_wait [of "kern \<sigma>" e]]
  by (simp add: sinv_def task_level_def waiting_def)

context event_post
begin

lemma post_step_wakes:
  assumes I: "sinv \<sigma>" and e: "e < OS_MAX_EVENTS" and ty: "OSEventType (OSEventTbl_g (kern \<sigma>) e) = ety"
    and W: "waiters (kern \<sigma>) e \<noteq> {}"
    and m: "ety = OS_EVENT_TYPE_SEM \<and> carries msg = PNull \<and> q = put \<sigma> e + 1
      \<or> ety = OS_EVENT_TYPE_MBOX \<and> carries msg \<noteq> PNull"
  obtains s' where "post e msg (kern \<sigma>) = Some (OS_NO_ERR, s')"
    and "sinv (\<sigma>\<lparr>kern := s', put := (put \<sigma>)(e := q)\<rparr>)"
proof (rule post_wakes_highest [OF sinvD(5) [OF I] e W ty, where msg = msg])
  fix s2 p i
  assume r: "post e msg (kern \<sigma>) = Some (OS_NO_ERR, s2)" "p = Min (waiters (kern \<sigma>) e)" "live (kern \<sigma>) p i"
    "stable s2" "OSTCBTbl s2 = (OSTCBTbl (kern \<sigma>))(i := readied (carries msg) (ev_bit ety) (OSTCBTbl (kern \<sigma>) i))"
    "\<forall>d. d \<noteq> e \<longrightarrow> OSEventTbl_g s2 d = OSEventTbl_g (kern \<sigma>) d"
    "OSEventCnt (OSEventTbl_g s2 e) = OSEventCnt (OSEventTbl_g (kern \<sigma>) e)"
    "OSEventType (OSEventTbl_g s2 e) = OSEventType (OSEventTbl_g (kern \<sigma>) e)"
    "\<exists>s1. same_but_task (kern \<sigma>) s1 \<and> same_but_sched s1 s2"
    "OSEventPtr (OSEventTbl_g s2 e) = OSEventPtr (OSEventTbl_g (kern \<sigma>) e)"
  have p: "p \<in> waiters (kern \<sigma>) e" using Min_in [of "waiters (kern \<sigma>) e"] W r(2) by simp
  show thesis
    by (rule that [OF r(1) sinv_wake [OF I e _ p r(3-10)]]) (use m ty in auto)
qed

end

lemma step_SemPost:
  assumes I: "sinv \<sigma>" and e: "is_sem (kern \<sigma>) e"
  shows "\<exists>\<sigma>'. exec (SemPost e) \<sigma> = Some \<sigma>' \<and> sinv \<sigma>'"
proof (cases "waiters (kern \<sigma>) e = {}")
  case False
  have eN: "e < OS_MAX_EVENTS" and ty: "OSEventType (OSEventTbl_g (kern \<sigma>) e) = OS_EVENT_TYPE_SEM" using e by auto
  obtain s' where "OSSemPost (PEvent e) (kern \<sigma>) = Some (OS_NO_ERR, s')"
    "sinv (\<sigma>\<lparr>kern := s', put := (put \<sigma>)(e := put \<sigma> e + 1)\<rparr>)"
    by (rule sem_post.post_step_wakes [OF I eN ty False, where q = "put \<sigma> e + 1"]) simp_all
  then show ?thesis by simp
next
  case True
  then have g: "OSEventGrp (OSEventTbl_g (kern \<sigma>) e) = 0" using waiters_grp [OF I] e by simp
  let ?n = "OSEventCnt (OSEventTbl_g (kern \<sigma>) e)"
  show ?thesis
  proof (cases "?n < 65535")
    case True
    have post: "OSSemPost (PEvent e) (kern \<sigma>) = Some (OS_NO_ERR, payload e ((OSEventTbl_g (kern \<sigma>) e)\<lparr>OSEventCnt := ?n + 1\<rparr>) (kern \<sigma>))"
      using OSSemPost_count [OF e g] True e by (simp add: payload_def Let_def)
    have n: "unat (?n + 1) + got \<sigma> e + 0 = unat ?n + got \<sigma> e + 1" "1 + put \<sigma> e = 0 + (put \<sigma> e + 1)"
      using cnt_succ [OF True] by simp_all
    show ?thesis using post sinv_sem [OF I e n \<open>waiters (kern \<sigma>) e = {}\<close>] by simp
  next
    case False
    then show ?thesis using OSSemPost_count [OF e g] I by (simp add: err_defs Let_def)
  qed
qed

lemma step_MboxPost:
  assumes I: "sinv \<sigma>" and e: "is_mbox (kern \<sigma>) e" and m: "msg \<noteq> PNull"
  shows "\<exists>\<sigma>'. exec (MboxPost e msg) \<sigma> = Some \<sigma>' \<and> sinv \<sigma>'"
proof (cases "waiters (kern \<sigma>) e = {}")
  case False
  have eN: "e < OS_MAX_EVENTS" and ty: "OSEventType (OSEventTbl_g (kern \<sigma>) e) = OS_EVENT_TYPE_MBOX" using e by auto
  obtain s' where s': "OSMboxPost (PEvent e) msg (kern \<sigma>) = Some (OS_NO_ERR, s')"
    "sinv (\<sigma>\<lparr>kern := s', put := (put \<sigma>)(e := put \<sigma> e)\<rparr>)"
    by (rule mbox_post.post_step_wakes [OF I eN ty False, where q = "put \<sigma> e" and msg = msg]) (use m in simp_all)
  then show ?thesis by (simp add: exec_plain_def)
next
  case True
  then have g: "OSEventGrp (OSEventTbl_g (kern \<sigma>) e) = 0" using waiters_grp [OF I] e by simp
  have "OSMboxPost (PEvent e) msg (kern \<sigma>) = (if OSEventPtr (OSEventTbl_g (kern \<sigma>) e) \<noteq> PNull then Some (OS_MBOX_FULL, kern \<sigma>)
    else Some (OS_NO_ERR, payload e ((OSEventTbl_g (kern \<sigma>) e)\<lparr>OSEventPtr := msg\<rparr>) (kern \<sigma>)))"
    using e g by (simp add: OSMboxPost_def payload_def)
  then show ?thesis using I True sinv_mbox [OF I e, of msg] by (simp add: exec_plain_def)
qed

section \<open>Returning from a wait\<close>

text \<open>The timeout ran out: \<open>OSEventTO\<close>.\<close>

lemma timeout_returns:
  assumes I: "sinv \<sigma>" and aw: "awaits \<sigma> i = Some e" and C: "OSTCBCur (kern \<sigma>) = PTcb i"
    and L: "live (kern \<sigma>) p i" and R: "p \<in> ready (kern \<sigma>)"
    and np: "OSTCBEventPtr (OSTCBTbl (kern \<sigma>) i) = PEvent e"
  obtains s' where "OSEventTO (PEvent e) (kern \<sigma>) = Some s'"
    and "sinv (\<sigma>\<lparr>kern := s', awaits := (awaits \<sigma>)(i := None)\<rparr>)"
proof -
  let ?s = "kern \<sigma>"
  have T: "kinv ?s" "tinv ?s" "cur_ok ?s" "unlocked ?s" "unat (OSPrioCur ?s) = highest_ready ?s"
    using sinvD(1) [OF I] by (simp_all add: task_level_def)
  have ao: "e < OS_MAX_EVENTS" "OSTCBMsg (OSTCBTbl ?s i) = PNull"
    using sinvD(4) [OF I L] aw np by (simp_all add: await_ok_def)
  obtain s' where s': "OSEventTO (PEvent e) ?s = Some s'" "kinv s'" "same_but_task ?s s'"
    "OSTCBTbl s' = (OSTCBTbl ?s)(i := (OSTCBTbl ?s i)\<lparr>OSTCBStat := OS_STAT_RDY, OSTCBEventPtr := PNull\<rparr>)"
    "ready s' = ready ?s" "waiters s' = (waiters ?s)(e := waiters ?s e - {p})"
    "\<forall>d. d \<noteq> e \<longrightarrow> OSEventTbl_g s' d = OSEventTbl_g ?s d"
    "OSEventPtr (OSEventTbl_g s' e) = OSEventPtr (OSEventTbl_g ?s e)"
    "OSEventCnt (OSEventTbl_g s' e) = OSEventCnt (OSEventTbl_g ?s e)"
    "OSEventType (OSEventTbl_g s' e) = OSEventType (OSEventTbl_g ?s e)"
    using OSEventTO_post [OF T(1) ao(1) L C R np] .
  note f = same_but_task_frame [OF s'(3)]
  have "tinv s'" using T(2) same_but_task_tinv [OF s'(3)] s'(4) by simp
  moreover have "cur_ok s'" using T(3) same_but_task_cur [OF s'(3)] by simp
  moreover have "unlocked s'" using T(4) same_but_task_unlocked [OF s'(3)] by simp
  moreover have "unat (OSPrioCur s') = highest_ready s'" using T(5) f(3) s'(5) by (simp add: highest_ready_def)
  ultimately have t: "task_level s'" using s'(2) by (simp add: task_level_def)
  have "sinv (receive e False (\<sigma>\<lparr>kern := s', awaits := (awaits \<sigma>)(i := None)\<rparr>))"
    by (rule sinv_return [OF I aw L t glob_same_task [OF s'(3)] s'(4) f(1) s'(7,9,10,8)]) (use waiters_at [OF s'(6), of e] in \<open>simp_all add: ao np\<close>)
  then show thesis using that s'(1) by (simp add: receive_def)
qed

lemma step_PendReturn:
  assumes I: "sinv \<sigma>" and a: "awaits \<sigma> (cur_block \<sigma>) \<noteq> None"
  shows "\<exists>\<sigma>'. exec PendReturn \<sigma> = Some \<sigma>' \<and> sinv \<sigma>'"
proof -
  let ?s = "kern \<sigma>"
  obtain p i where c: "p = unat (OSPrioCur ?s)" "live ?s p i" "OSTCBCur ?s = PTcb i" "p \<in> ready ?s"
    "cur_task ?s = OSTCBTbl ?s i" "cur_block \<sigma> = i" "i < N_TCB"
    using sinv_cur [OF I] .
  obtain e where aw: "awaits \<sigma> i = Some e" using a c(6) by auto
  let ?t = "OSTCBTbl ?s i" and ?ty = "OSEventType (OSEventTbl_g ?s e)"
  have ao: "e < OS_MAX_EVENTS" "sem_or_mbox ?ty"
    "OSTCBEventPtr ?t = PEvent e \<and> OSTCBMsg ?t = PNull \<or>
        OSTCBEventPtr ?t = PNull \<and> (OSTCBMsg ?t = PNull \<longleftrightarrow> ?ty = OS_EVENT_TYPE_SEM)"
    using sinvD(4) [OF I c(2)] aw by (simp_all add: await_ok_def)
  have T: "task_level ?s" and K: "kinv ?s" using sinvD(1) [OF I] by (simp_all add: task_level_def)
  note cb = block_of_def c(3)
  consider (timeout) "OSTCBEventPtr ?t = PEvent e" "OSTCBMsg ?t = PNull"
    | (sem) "OSTCBEventPtr ?t = PNull" "?ty = OS_EVENT_TYPE_SEM" "OSTCBMsg ?t = PNull"
    | (mbox) "OSTCBEventPtr ?t = PNull" "?ty \<noteq> OS_EVENT_TYPE_SEM" "OSTCBMsg ?t \<noteq> PNull"
    using ao(3) by blast
  then show ?thesis
  proof cases
    case timeout
    obtain s' where s': "OSEventTO (PEvent e) ?s = Some s'" "sinv (\<sigma>\<lparr>kern := s', awaits := (awaits \<sigma>)(i := None)\<rparr>)"
      using timeout_returns [OF I aw c(3,2,4) timeout(1)] .
    have tm: "OS_TIMEOUT \<noteq> OS_NO_ERR" by (simp add: err_defs)
    have w: "p \<in> waiters ?s e" using kinvD_task [OF K c(2)] timeout(1) unfolding task_ok_def by auto
    have st: "OSTCBStat ?t \<in> {ev_bit ?ty, ev_bit ?ty OR OS_STAT_SUSPEND}"
      using waiter_stat(3) [OF K ao(1) c(2) w] .
    show ?thesis
    proof (cases "?ty = OS_EVENT_TYPE_SEM")
      case True
      then have "OSTCBStat ?t AND OS_STAT_SEM \<noteq> 0" using st by (auto simp: stat_defs)
      then have "OSSemPend_resume (PEvent e) ?s = Some (OS_TIMEOUT, s')"
        using c(3,7) s'(1) by (simp add: OSSemPend_resume_def)
      then show ?thesis using s'(2) aw True tm by (simp add: exec_return_def receive_def cb)
    next
      case False
      then have ty: "?ty = OS_EVENT_TYPE_MBOX" using ao(2) by (simp add: sem_or_mbox_def)
      then have "OSTCBStat ?t AND OS_STAT_MBOX \<noteq> 0" using st by (auto simp: stat_defs)
      then have "OSMboxPend_resume (PEvent e) ?s = Some ((PNull, OS_TIMEOUT), s')"
        using c(3,7) s'(1) timeout(2) by (simp add: OSMboxPend_resume_def)
      then show ?thesis using s'(2) aw False by (simp add: exec_return_def receive_def cb)
    qed
  next
    case sem
    have st: "OSTCBStat ?t = OS_STAT_RDY" using ready_stat [OF K c(2,4) sem(1)] by simp
    have "?t\<lparr>OSTCBEventPtr := PNull\<rparr> = ?t" using sem(1) by simp
    then have "OSSemPend_resume (PEvent e) ?s = Some (OS_NO_ERR, ?s)"
      using c(3,7) st by (simp add: OSSemPend_resume_def OS_STAT_RDY_def)
    moreover have "sinv (receive e True (\<sigma>\<lparr>kern := ?s, awaits := (awaits \<sigma>)(i := None)\<rparr>))"
      by (rule sinv_return [OF I aw c(2) T glob_refl fun_upd_triv [symmetric]]) (simp_all add: sem)
    ultimately show ?thesis using aw sem(2) by (simp add: exec_return_def cb)
  next
    case mbox
    let ?s' = "?s\<lparr>OSTCBTbl := (OSTCBTbl ?s)(i := received ?t)\<rparr>"
    have "OSMboxPend_resume (PEvent e) ?s = Some ((OSTCBMsg ?t, OS_NO_ERR), ?s')"
      using c(3,7) mbox(3) by (simp add: OSMboxPend_resume_def received_def)
    moreover have "sinv (receive e False (\<sigma>\<lparr>kern := ?s', awaits := (awaits \<sigma>)(i := None)\<rparr>))"
    proof (rule sinv_return [OF I aw c(2)])
      have "kinv ?s' = kinv ?s" using received_kinv [OF K c(2,4) mbox(1)] K by simp
      moreover have "tinv ?s' = tinv ?s" by (rule tinv_frame) (simp_all add: received_def)
      ultimately have "task_level ?s' = task_level ?s" by (rule task_level_frame) simp_all
      then show "task_level ?s'" using T by simp
      show "OSTCBTbl ?s' = (OSTCBTbl ?s)(i := received ?t)" by simp
    qed (simp_all add: glob_def received_def mbox(2))
    ultimately show ?thesis using aw mbox(2) by (simp add: exec_return_def cb)
  qed
qed

section \<open>The system never faults\<close>

lemma allowed_running:
  "allowed c \<sigma> \<Longrightarrow> c \<notin> {Tick, Idle, PendReturn} \<Longrightarrow>
     awaits \<sigma> (cur_block \<sigma>) = None \<and> unat (OSPrioCur (kern \<sigma>)) \<noteq> OS_IDLE_PRIO"
  by (cases c) simp_all

lemma step_ok:
  assumes I: "sinv \<sigma>" and a: "allowed c \<sigma>"
  shows "\<exists>\<sigma>'. exec c \<sigma> = Some \<sigma>' \<and> sinv \<sigma>'"
proof (cases "c \<in> {Tick, Idle, PendReturn}")
  case True
  then show ?thesis
    using step_tick [OF I] step_idle [OF I] step_PendReturn [OF I] a by auto
next
  case False
  note r = allowed_running [OF a False, THEN conjunct1] allowed_running [OF a False, THEN conjunct2]
  show ?thesis
  proof (cases c)
    case (TaskCreate c' task pdata ad w)
    show ?thesis unfolding TaskCreate by (rule step_TaskCreate [OF I])
  next
    case (SemPend e n)
    then show ?thesis using step_SemPend [OF I _ r] a by simp
  next
    case (MboxPend e n)
    then show ?thesis using step_MboxPend [OF I _ r] a by simp
  next
    case (SemPost e)
    then show ?thesis using step_SemPost [OF I] a by simp
  next
    case (SemAccept e)
    then show ?thesis using step_SemAccept [OF I] a by simp
  next
    case (MboxPost e m)
    then show ?thesis using step_MboxPost [OF I] a by simp
  next
    case (MboxAccept e)
    then show ?thesis using step_MboxAccept [OF I] a by simp
  next
    case (TimeDly n)
    show ?thesis unfolding TimeDly by (rule step_TimeDly [OF I sinv_free(1) [OF I r(1)] r(2)])
  qed (use False in \<open>simp_all add: step_SemCreate [OF I] step_MboxCreate [OF I] step_TimeDlyResume [OF I]
      step_TaskSuspend [OF I r(2)] step_TaskResume [OF I] step_TaskDel [OF I r(2)] del: exec.simps\<close>)
qed

lemma started_sinv:
  assumes "started \<sigma>"
  shows "sinv \<sigma>"
proof -
  have s: "task_level (kern \<sigma>)" "OSRunning (kern \<sigma>) \<noteq> 0" "einv (kern \<sigma>)" "\<And>i. awaits \<sigma> i = None"
    "\<And>p i. live (kern \<sigma>) p i \<Longrightarrow> OSTCBEventPtr (OSTCBTbl (kern \<sigma>) i) = PNull \<and> OSTCBMsg (OSTCBTbl (kern \<sigma>) i) = PNull"
    "\<And>e. e < OS_MAX_EVENTS \<Longrightarrow> put \<sigma> e = unat (OSEventCnt (OSEventTbl_g (kern \<sigma>) e)) \<and> got \<sigma> e = 0 \<and> lost \<sigma> e = 0"
    using assms unfolding started_def by blast+
  have "waits_ok \<sigma>" unfolding waits_ok_def using s(4,5) by (simp add: await_ok_def)
  moreover have "granted \<sigma> e = {}" for e using s(4) by (simp add: granted_def)
  then have "units_ok \<sigma>" using s(6) by (simp add: units_ok_def)
  moreover have "waiters (kern \<sigma>) e = {}" if e: "e < OS_MAX_EVENTS" for e
  proof -
    have K: "kinv (kern \<sigma>)" using s(1) by (simp add: task_level_def)
    have False if q: "q \<in> waiters (kern \<sigma>) e" for q
    proof -
      obtain i where "live (kern \<sigma>) q i" "OSTCBEventPtr (OSTCBTbl (kern \<sigma>) i) = PEvent e"
        using kinvD_waiters [OF K e q] .
      then show False using s(5) [of q i] by simp
    qed
    then show ?thesis by blast
  qed
  then have "idle_ok (kern \<sigma>)" by (simp add: idle_ok_def)
  ultimately show ?thesis using s(1-3) by (simp add: sinv_def)
qed

lemma reachable_sinv: "reachable \<sigma> \<Longrightarrow> sinv \<sigma>"
proof (induction rule: reachable.induct)
  case (init \<sigma>)
  then show ?case by (rule started_sinv)
next
  case (more \<sigma> c \<sigma>')
  then have "allowed c \<sigma>" "exec c \<sigma> = Some \<sigma>'" by (simp_all add: step_iff)
  then show ?case using step_ok [OF more.IH, of c] by simp
qed

end
