(* ===== verification/System_Properties.thy ===== *)
theory System_Properties
  imports System_Steps
begin

text \<open>
  What holds in every state that the kernel reaches: from the boot on, through any sequence of
  calls, ticks and returns from waits.
\<close>

section \<open>From the boot to the first state\<close>

definition fresh_sys :: "os \<Rightarrow> sys" where
  "fresh_sys s = \<lparr>kern = s, awaits = \<lambda>i. None, put = \<lambda>e. unat (OSEventCnt (OSEventTbl_g s e)),
     got = \<lambda>e. 0, lost = \<lambda>e. 0\<rparr>"

lemma boot_started:
  assumes "zeroed_events s" and "task_level s'" and "OSRunning s' = 1"
    and ev: "OSEventTbl_g s' = OSEventTbl_g (cleared s)" "OSEventFreeList s' = OSEventFreeList (cleared s)"
    and msg: "\<And>p i. live s' p i \<Longrightarrow> OSTCBMsg (OSTCBTbl s' i) = PNull"
  shows "started (fresh_sys s')" and "elist s' [0 ..< OS_MAX_EVENTS]"
proof -
  show el: "elist s' [0 ..< OS_MAX_EVENTS]"
    using cleared_elist [OF assms(1)] ev by (simp add: elist_def)
  have "waiters s' e = {}" if "e < OS_MAX_EVENTS" for e
    unfolding ev(1) using cleared_waiting [OF assms(1) that] by blast
  moreover have "kinv s'" using assms(2) by (simp add: task_level_def)
  ultimately have "OSTCBEventPtr (OSTCBTbl s' i) = PNull" if "live s' p i" for p i
    using no_waiters_free that by blast
  moreover have "einv s'" using el by (auto simp: einv_def)
  ultimately show "started (fresh_sys s')"
    using assms(2,3) msg by (simp add: started_def fresh_sys_def)
qed

text \<open>C10: The way an application starts leads into the transition system: after \<open>OSInit\<close>, creating a task
  at any priority above the two system tasks succeeds with the scheduler not called, \<open>OSStart\<close> then
  runs that task on the stack prepared for it, and the state is a starting state of the system.\<close>
theorem boot_starts_system:
  assumes "zeroed_events s" and "unat prio < OS_STAT_PRIO"
  shows "\<exists>s1 s2 s3. OSInit c img s = Some s1
    \<and> OSTaskCreate c task pdata (PAddr a) prio s1 = Some (OS_NO_ERR, s2) \<and> OSTaskCtr s2 = 3
    \<and> OSStart s2 = Some s3 \<and> OSPrioCur s3 = prio \<and> OSTCBStkPtr (cur_task s3) = PAddr (a - 32)
    \<and> ready s3 = {unat prio, OS_STAT_PRIO, OS_IDLE_PRIO} \<and> started (fresh_sys s3)"
proof (rule boot_ok [OF assms])
  fix s1 s2 s3
  assume a: "OSInit c img s = Some s1" "OSTaskCreate c task pdata (PAddr a) prio s1 = Some (OS_NO_ERR, s2)"
    "OSStart s2 = Some s3" "task_level s3" "OSPrioCur s3 = prio" "OSRunning s3 = 1"
    "ready s3 = {unat prio, OS_STAT_PRIO, OS_IDLE_PRIO}" "OSTaskCtr s2 = 3"
    "OSTCBStkPtr (cur_task s3) = PAddr (a - 32)"
    "OSEventTbl_g s3 = OSEventTbl_g (cleared s)" "OSEventFreeList s3 = OSEventFreeList (cleared s)"
    "\<And>p i. live s3 p i \<Longrightarrow> OSTCBMsg (OSTCBTbl s3 i) = PNull"
  have st: "started (fresh_sys s3)"
    by (rule boot_started(1) [OF assms(1) a(4,6,10,11)]) (rule a(12))
  show ?thesis using a(1-3,5,7-9) st by blast
qed

theorem boot_starts_system_witness:
  "\<exists>s1 s2 s3. OSInit sample_cpu sample_image zeroed = Some s1
    \<and> OSTaskCreate sample_cpu (PAddr 64) (PAddr 96) (PAddr 5000) 4 s1 = Some (OS_NO_ERR, s2)
    \<and> OSStart s2 = Some s3 \<and> OSPrioCur s3 = 4 \<and> started (fresh_sys s3)"
proof -
  have "unat (4 :: INT8U) < OS_STAT_PRIO" by (simp add: config_defs)
  from boot_starts_system [OF zeroed_ok this] show ?thesis by blast
qed

section \<open>A run\<close>

text \<open>After the boot the first task creates a semaphore with one unit, takes the unit, and pends
  again: the states of this run are used below to show that the properties apply.\<close>

lemma first_state:
  obtains \<sigma> where "started \<sigma>" and "elist (kern \<sigma>) (0 # [1 ..< OS_MAX_EVENTS])" and "OSPrioCur (kern \<sigma>) = 4"
proof -
  have p: "unat (4 :: INT8U) < OS_STAT_PRIO" by (simp add: config_defs)
  show thesis
  proof (rule boot_ok [OF zeroed_ok p, where c = sample_cpu and img = sample_image and task = PNull
        and pdata = PNull and a = 5000])
    fix s3
    assume a: "task_level s3" "OSPrioCur s3 = 4" "OSRunning s3 = 1"
      "OSEventTbl_g s3 = OSEventTbl_g (cleared zeroed)" "OSEventFreeList s3 = OSEventFreeList (cleared zeroed)"
      "\<And>p i. live s3 p i \<Longrightarrow> OSTCBMsg (OSTCBTbl s3 i) = PNull"
    have b: "started (fresh_sys s3)" "elist s3 [0 ..< OS_MAX_EVENTS]"
      by (rule boot_started [OF zeroed_ok a(1,3-5)], rule a(6), assumption)+
    have "[0 ..< OS_MAX_EVENTS] = 0 # [1 ..< OS_MAX_EVENTS]" by (simp add: config_defs upt_conv_Cons)
    then show thesis using that [OF b(1)] b(2) a(2) by (simp add: fresh_sys_def)
  qed
qed

lemma not_idle: "OSPrioCur s = 4 \<Longrightarrow> unat (OSPrioCur s) \<noteq> OS_IDLE_PRIO"
  by (simp add: config_defs)

lemma run_taken:
  obtains \<sigma> where "reachable \<sigma>" and "is_sem (kern \<sigma>) 0" and "put \<sigma> 0 = 1" and "got \<sigma> 0 = 1"
    and "allowed (SemPend 0 0) \<sigma>"
proof -
  obtain \<sigma> where \<sigma>: "started \<sigma>" "elist (kern \<sigma>) (0 # [1 ..< OS_MAX_EVENTS])" "OSPrioCur (kern \<sigma>) = 4"
    using first_state .
  let ?E = "no_waiters ((OSEventTbl_g (kern \<sigma>) 0)\<lparr>OSEventType := OS_EVENT_TYPE_SEM, OSEventCnt := 1\<rparr>)"
  let ?\<tau> = "\<sigma>\<lparr>kern := with_event 0 ?E (kern \<sigma>), put := (put \<sigma>)(0 := 1), got := (got \<sigma>)(0 := 0), lost := (lost \<sigma>)(0 := 0)\<rparr>"
  have free: "awaits \<sigma> i = None" for i using \<sigma>(1) by (simp add: started_def)
  have c: "exec (SemCreate 1) \<sigma> = Some ?\<tau>" by (simp add: create_eqs(1) [OF \<sigma>(2)])
  have "step \<sigma> (SemCreate 1) ?\<tau>"
    by (rule step.step [OF _ c]) (use free not_idle [OF \<sigma>(3)] in simp)
  then have R: "reachable ?\<tau>" using reachable.more [OF reachable.init [OF \<sigma>(1)]] by blast
  have N: "0 < OS_MAX_EVENTS" by (simp add: config_defs)
  have p: "OSPrioCur (kern ?\<tau>) = 4" using \<sigma>(3) by (simp add: with_event_def)
  have s: "is_sem (kern ?\<tau>) 0" "awaits ?\<tau> (cur_block ?\<tau>) = None"
    using N free by (simp_all add: with_event_def)
  have al: "allowed (SemPend 0 0) ?\<tau>" using s not_idle [OF p] by simp
  let ?\<rho> = "receive 0 True (?\<tau>\<lparr>kern := put_event (PEvent 0) (?E\<lparr>OSEventCnt := 0\<rparr>) (kern ?\<tau>)\<rparr>)"
  have "exec (SemPend 0 0) ?\<tau> = Some ?\<rho>"
    using N by (simp add: exec_pend_def OSSemPend_def with_event_def)
  then have "reachable ?\<rho>" using reachable.more [OF R step.step [OF al]] by blast
  moreover have "is_sem (kern ?\<rho>) 0" "put ?\<rho> 0 = 1" "got ?\<rho> 0 = 1"
    using N by (simp_all add: receive_def with_event_def)
  moreover have "OSPrioCur (kern ?\<rho>) = 4" using p N by (simp add: receive_def)
  then have "allowed (SemPend 0 0) ?\<rho>"
    using not_idle [of "kern ?\<rho>"] s(1) free N by (simp add: receive_def with_event_def)
  ultimately show thesis by (rule that)
qed

lemma run_blocked:
  obtains \<sigma> i p where "reachable \<sigma>" and "live (kern \<sigma>) p i" and "p \<in> waiters (kern \<sigma>) 0"
proof -
  obtain \<sigma> where \<sigma>: "reachable \<sigma>" "is_sem (kern \<sigma>) 0" "put \<sigma> 0 = 1" "got \<sigma> 0 = 1" "allowed (SemPend 0 0) \<sigma>"
    using run_taken .
  note I = reachable_sinv [OF \<sigma>(1)]
  have a: "awaits \<sigma> (cur_block \<sigma>) = None" "unat (OSPrioCur (kern \<sigma>)) \<noteq> OS_IDLE_PRIO"
    using \<sigma>(5) by simp_all
  have e: "0 < OS_MAX_EVENTS" and ty: "OSEventType (OSEventTbl_g (kern \<sigma>) 0) = OS_EVENT_TYPE_SEM"
    using \<sigma>(2) by auto
  have "unat (OSEventCnt (OSEventTbl_g (kern \<sigma>) 0)) = 0"
    using I \<sigma>(2,3,4) unfolding sinv_def units_ok_def by force
  then have z: "\<not> OSEventCnt (OSEventTbl_g (kern \<sigma>) 0) > 0" by (simp add: unat_eq_0)
  show thesis
  proof (rule sem_pend.pend_blocks [OF sinvD(1) [OF I] e sinv_free(1) [OF I a(1)] a(2) ty z, where timeout = 0])
    fix s' i
    assume s': "OSSemPend (PEvent 0) 0 (kern \<sigma>) = Some (Blocked, s')"
      "waiters s' = (waiters (kern \<sigma>))(0 := insert (unat (OSPrioCur (kern \<sigma>))) (waiters (kern \<sigma>) 0))"
    let ?\<tau> = "\<sigma>\<lparr>kern := s', awaits := (awaits \<sigma>)(cur_block \<sigma> := Some 0)\<rparr>"
    have "exec (SemPend 0 0) \<sigma> = Some ?\<tau>" using s'(1) by (simp add: exec_pend_def)
    then have R: "reachable ?\<tau>" using reachable.more [OF \<sigma>(1) step.step [OF \<sigma>(5)]] by blast
    have K: "kinv s'" using sinvD(1) [OF reachable_sinv [OF R]] by (simp add: task_level_def)
    have w: "unat (OSPrioCur (kern \<sigma>)) \<in> waiters s' 0" using waiters_at [OF s'(2), of 0] by simp
    obtain j where L: "live s' (unat (OSPrioCur (kern \<sigma>))) j"
      using kinvD_waiters [OF K e w] .
    show thesis by (rule that [OF R]) (use L w in simp_all)
  qed
qed

section \<open>The properties\<close>



text \<open>C2: No step faults: in every reachable state each call that a task may make, the tick and the
  return from a wait run to the end, dereferencing no null or foreign pointer and indexing no
  table out of range, and lead to exactly one state.\<close>
theorem reachable_never_faults:
  assumes "reachable \<sigma>" and "allowed c \<sigma>"
  shows "\<exists>!\<sigma>'. step \<sigma> c \<sigma>'"
  using step_ok [OF reachable_sinv [OF assms(1)] assms(2)] assms(2) by (auto simp: step_iff)

theorem reachable_never_faults_witness:
  "\<exists>\<sigma> \<sigma>'. reachable \<sigma> \<and> step \<sigma> (SemPend 0 0) \<sigma>'"
  using run_taken reachable_never_faults by metis

text \<open>C3: The units of a semaphore are conserved: those it was created with and those posted to it are
  exactly those in its count, those that tasks have received, those handed to tasks that have not
  run since, and those lost with such tasks when they were deleted. Unit by unit, no post is lost
  or counted twice, whatever the order of pends, posts, accepts, timeouts, suspensions and
  deletions.\<close>
theorem semaphore_units_conserved:
  assumes "reachable \<sigma>" and "is_sem (kern \<sigma>) e"
  shows "put \<sigma> e = unat (OSEventCnt (OSEventTbl_g (kern \<sigma>) e)) + got \<sigma> e + card (granted \<sigma> e) + lost \<sigma> e"
  using reachable_sinv [OF assms(1)] assms(2) by (simp add: sinv_def units_ok_def)

theorem semaphore_units_conserved_witness:
  "\<exists>\<sigma>. reachable \<sigma> \<and> is_sem (kern \<sigma>) 0 \<and> got \<sigma> 0 = 1 \<and> unat (OSEventCnt (OSEventTbl_g (kern \<sigma>) 0)) = 0"
proof (rule run_taken)
  fix \<sigma> assume a: "reachable \<sigma>" "is_sem (kern \<sigma>) 0" "put \<sigma> 0 = 1" "got \<sigma> 0 = 1"
  from semaphore_units_conserved [OF a(1,2)] show ?thesis using a by (intro exI [of _ \<sigma>]) simp
qed

text \<open>A semaphore excludes: when tasks have received all the units put into it, a task that pends on
  it does not go on, whatever the timeout: it is left waiting for the semaphore, another task runs,
  and no unit is received.\<close>
theorem semaphore_excludes:
  assumes "reachable \<sigma>" and "allowed (SemPend e timeout) \<sigma>" and "got \<sigma> e = put \<sigma> e"
  shows "\<exists>\<sigma>'. step \<sigma> (SemPend e timeout) \<sigma>' \<and> awaits \<sigma>' (cur_block \<sigma>) = Some e
    \<and> OSTCBCur (kern \<sigma>') \<noteq> OSTCBCur (kern \<sigma>) \<and> got \<sigma>' = got \<sigma>
    \<and> unat (OSPrioCur (kern \<sigma>)) \<in> waiters (kern \<sigma>') e"
proof -
  note I = reachable_sinv [OF assms(1)]
  have a: "is_sem (kern \<sigma>) e" "awaits \<sigma> (cur_block \<sigma>) = None" "unat (OSPrioCur (kern \<sigma>)) \<noteq> OS_IDLE_PRIO"
    using assms(2) by simp_all
  have e: "e < OS_MAX_EVENTS" and ty: "OSEventType (OSEventTbl_g (kern \<sigma>) e) = OS_EVENT_TYPE_SEM"
    using a(1) by auto
  have "unat (OSEventCnt (OSEventTbl_g (kern \<sigma>) e)) = 0"
    using I a(1) assms(3) unfolding sinv_def units_ok_def by force
  then have z: "\<not> OSEventCnt (OSEventTbl_g (kern \<sigma>) e) > 0" by (simp add: unat_eq_0)
  show ?thesis
  proof (rule sem_pend.pend_blocks [OF sinvD(1) [OF I] e sinv_free(1) [OF I a(2)] a(3) ty z, where timeout = timeout])
    fix s' i
    assume s': "OSSemPend (PEvent e) timeout (kern \<sigma>) = Some (Blocked, s')"
      "OSTCBCur s' \<noteq> OSTCBCur (kern \<sigma>)"
      "waiters s' = (waiters (kern \<sigma>))(e := insert (unat (OSPrioCur (kern \<sigma>))) (waiters (kern \<sigma>) e))"
    have "exec (SemPend e timeout) \<sigma> = Some (\<sigma>\<lparr>kern := s', awaits := (awaits \<sigma>)(cur_block \<sigma> := Some e)\<rparr>)"
      using s'(1) by (simp add: exec_pend_def)
    from step.step [OF assms(2) this] show ?thesis
      using s'(2) waiters_at [OF s'(3), of e] by (intro exI) (rule conjI, assumption, simp)
  qed
qed

theorem semaphore_excludes_witness:
  "\<exists>\<sigma> \<sigma>'. reachable \<sigma> \<and> step \<sigma> (SemPend 0 0) \<sigma>' \<and> waiters (kern \<sigma>') 0 \<noteq> {}"
proof (rule run_taken)
  fix \<sigma> assume a: "reachable \<sigma>" "put \<sigma> 0 = 1" "got \<sigma> 0 = 1" "allowed (SemPend 0 0) \<sigma>"
  then have "got \<sigma> 0 = put \<sigma> 0" by simp
  from semaphore_excludes [OF a(1,4) this] show ?thesis using a(1) by blast
qed

text \<open>C4: No wakeup is missed and no task is lost: in every reachable state an event on which a task waits
  has nothing to give (the count of a semaphore is 0, a mailbox is empty), and every existing task
  is ready, suspended, delayed, or in the wait list of exactly the event in whose pend it is.\<close>
theorem no_lost_task:
  assumes "reachable \<sigma>" and "live (kern \<sigma>) p i"
  shows "(\<forall>e < OS_MAX_EVENTS. p \<in> waiters (kern \<sigma>) e \<longrightarrow> awaits \<sigma> i = Some e \<and>
      (is_sem (kern \<sigma>) e \<and> OSEventCnt (OSEventTbl_g (kern \<sigma>) e) = 0 \<or>
       is_mbox (kern \<sigma>) e \<and> OSEventPtr (OSEventTbl_g (kern \<sigma>) e) = PNull)) \<and>
    (p \<in> ready (kern \<sigma>) \<or> suspended (OSTCBTbl (kern \<sigma>) i) \<or> OSTCBDly (OSTCBTbl (kern \<sigma>) i) \<noteq> 0 \<or>
     (\<exists>e < OS_MAX_EVENTS. awaits \<sigma> i = Some e \<and> p \<in> waiters (kern \<sigma>) e))"
proof -
  note I = reachable_sinv [OF assms(1)]
  have K: "kinv (kern \<sigma>)" using sinvD(1) [OF I] by (simp add: task_level_def)
  have tk: "task_ok (rdy (kern \<sigma>)) (OSEventTbl_g (kern \<sigma>)) p (OSTCBTbl (kern \<sigma>) i)"
    using kinvD_task [OF K assms(2)] .
  have ao: "await_ok (OSEventTbl_g (kern \<sigma>)) (OSTCBTbl (kern \<sigma>) i) (awaits \<sigma> i)"
    using sinvD(4) [OF I assms(2)] .
  have aw: "awaits \<sigma> i = Some e" if "OSTCBEventPtr (OSTCBTbl (kern \<sigma>) i) = PEvent e" for e
    using ao that by (auto simp: await_ok_def split: option.splits)
  have em: "is_sem (kern \<sigma>) e \<and> OSEventCnt (OSEventTbl_g (kern \<sigma>) e) = 0 \<or>
       is_mbox (kern \<sigma>) e \<and> OSEventPtr (OSEventTbl_g (kern \<sigma>) e) = PNull"
    and "awaits \<sigma> i = Some e" if e: "e < OS_MAX_EVENTS" and w: "p \<in> waiters (kern \<sigma>) e" for e
  proof -
    show a: "awaits \<sigma> i = Some e" by (rule aw) (rule waits_for_one [OF K assms(2) e w])
    have "\<not> holds (OSEventTbl_g (kern \<sigma>) e)" using sinvD(6) [OF I] e w unfolding idle_ok_def by blast
    moreover have "sem_or_mbox (OSEventType (OSEventTbl_g (kern \<sigma>) e))" using ao a by (simp add: await_ok_def)
    ultimately show "is_sem (kern \<sigma>) e \<and> OSEventCnt (OSEventTbl_g (kern \<sigma>) e) = 0 \<or>
       is_mbox (kern \<sigma>) e \<and> OSEventPtr (OSEventTbl_g (kern \<sigma>) e) = PNull"
      using e by (auto simp: holds_def sem_or_mbox_def)
  qed
  then show ?thesis using tk aw unfolding task_ok_def by blast
qed

theorem no_lost_task_witness:
  "\<exists>\<sigma> i p. reachable \<sigma> \<and> live (kern \<sigma>) p i \<and> p \<in> waiters (kern \<sigma>) 0 \<and> awaits \<sigma> i = Some 0"
proof -
  obtain \<sigma> i p where a: "reachable \<sigma>" "live (kern \<sigma>) p i" "p \<in> waiters (kern \<sigma>) 0"
    using run_blocked .
  moreover have "(0 :: nat) < OS_MAX_EVENTS" by (simp add: config_defs)
  ultimately show ?thesis using no_lost_task [OF a(1,2)] by blast
qed

section \<open>Errors\<close>

text \<open>Misuse is refused without a trace. Called on an event control block of another type, every
  service that tests the type (all but \<open>OSSemPend\<close>) returns its error and leaves the whole state,
  and the data of a query, as they were; a pend from an interrupt handler on an event that has
  nothing to give is refused with \<open>OS_ERR_PEND_ISR\<close> and changes nothing.\<close>
theorem services_refuse:
  fixes s :: os
  assumes "e < OS_MAX_EVENTS"
  defines "E \<equiv> OSEventTbl_g s e"
  shows "(OSEventType E \<noteq> OS_EVENT_TYPE_SEM \<longrightarrow> OSSemPost (PEvent e) s = Some (OS_ERR_EVENT_TYPE, s)
      \<and> OSSemAccept (PEvent e) s = Some (0, s) \<and> OSSemQuery (PEvent e) sd s = Some (OS_ERR_EVENT_TYPE, sd))
   \<and> (OSEventType E \<noteq> OS_EVENT_TYPE_MBOX \<longrightarrow> OSMboxPost (PEvent e) msg s = Some (OS_ERR_EVENT_TYPE, s)
      \<and> OSMboxAccept (PEvent e) s = Some (PNull, s) \<and> OSMboxQuery (PEvent e) md s = Some (OS_ERR_EVENT_TYPE, md)
      \<and> OSMboxPend (PEvent e) timeout s = Some (Returned (PNull, OS_ERR_EVENT_TYPE), s))
   \<and> (OSEventType E \<noteq> OS_EVENT_TYPE_Q \<longrightarrow> OSQPost (PEvent e) msg s = Some (OS_ERR_EVENT_TYPE, s)
      \<and> OSQPostFront (PEvent e) msg s = Some (OS_ERR_EVENT_TYPE, s) \<and> OSQAccept (PEvent e) s = Some (PNull, s)
      \<and> OSQFlush (PEvent e) s = Some (OS_ERR_EVENT_TYPE, s) \<and> OSQQuery (PEvent e) qd s = Some (OS_ERR_EVENT_TYPE, qd)
      \<and> OSQPend garbage (PEvent e) timeout s = Some (Returned (PNull, OS_ERR_EVENT_TYPE), s))
   \<and> (OSIntNesting s > 0 \<longrightarrow>
        (OSEventCnt E = 0 \<longrightarrow> OSSemPend (PEvent e) timeout s = Some (Returned OS_ERR_PEND_ISR, s))
      \<and> (is_mbox s e \<and> OSEventPtr E = PNull \<longrightarrow> OSMboxPend (PEvent e) timeout s = Some (Returned (PNull, OS_ERR_PEND_ISR), s))
      \<and> (is_q s e \<longrightarrow> (\<forall>k < OS_MAX_QS. OSEventPtr E = PQueue k \<longrightarrow> OSQEntries (OSQTbl s k) = 0 \<longrightarrow>
           OSQPend garbage (PEvent e) timeout s = Some (Returned (garbage, OS_ERR_PEND_ISR), s))))"
  using assms(1) unfolding E_def
  by (auto simp: OSSemPost_def OSSemAccept_def OSSemQuery_def OSMboxPost_def OSMboxAccept_def OSMboxQuery_def
      OSMboxPend_def OSQPost_def OSQPostFront_def OSQAccept_def OSQFlush_def OSQQuery_def OSQPend_def
      OSSemPend_def Let_def)

theorem services_refuse_witness:
  "OSMboxPost (PEvent 1) (PAddr 900) sample = Some (OS_ERR_EVENT_TYPE, sample) \<and>
   OSSemPend (PEvent 6) 50 (sample\<lparr>OSIntNesting := 1\<rparr>) = Some (Returned OS_ERR_PEND_ISR, sample\<lparr>OSIntNesting := 1\<rparr>)"
proof -
  have a: "(1 :: nat) < OS_MAX_EVENTS" "OSEventType (OSEventTbl_g sample 1) \<noteq> OS_EVENT_TYPE_MBOX" by code_simp+
  have b: "(6 :: nat) < OS_MAX_EVENTS" "OSEventCnt (OSEventTbl_g sample 6) = 0" by code_simp+
  show ?thesis
    using services_refuse [OF a(1), of sample] a(2) services_refuse [OF b(1), of "sample\<lparr>OSIntNesting := 1\<rparr>"] b(2)
    by simp
qed

end
