(* ===== verification/Splay_Trees.thy ===== *)
theory Splay_Trees
  imports Prelude
begin

text \<open>
  splaytree.c of lighttpd: top-down splaying with the number of nodes of every subtree kept in
  its root, the index of the cache of file information. A tree is owned by one pointer, so the
  nodes that the C code relinks in place are values here. During a splay the code hangs the
  nodes it passes on the right spine of a left tree and on the left spine of a right tree; a spine
  is the list of its nodes, the most recently linked first.
\<close>

section \<open>Trees\<close>

text \<open>\<open>NUL\<close> is the null pointer; a node has its left subtree, key, size field, data and right subtree.\<close>

datatype 'd splay_tree = NUL | Tree "'d splay_tree" int int 'd "'d splay_tree"

fun node_size :: "'d splay_tree \<Rightarrow> int" where
  "node_size NUL = 0"
| "node_size (Tree l k n d r) = n"

text \<open>The subtraction of two keys in 32 bits.\<close>

definition compare_key :: "int \<Rightarrow> int \<Rightarrow> int" where
  "compare_key i j = signed_take_bit 31 (i - j)"

type_synonym 'd spine = "('d splay_tree \<times> int \<times> int \<times> 'd) list"

text \<open>The loop that takes the tree apart: the key sought, the tree, the spines \<open>l\<close> and \<open>r\<close>, and the two
  sizes. A node on \<open>l\<close> has lost its right subtree, one on \<open>r\<close> its left.\<close>

fun splay_loop :: "int \<Rightarrow> 'd splay_tree \<Rightarrow> 'd spine \<Rightarrow> 'd spine \<Rightarrow> int \<Rightarrow> int
    \<Rightarrow> 'd splay_tree \<times> 'd spine \<times> 'd spine \<times> int \<times> int" where
  "splay_loop i NUL l r ls rs = (NUL, l, r, ls, rs)"
| "splay_loop i (Tree a k n d b) l r ls rs =
     (if compare_key i k < 0
      then (case a of
          NUL \<Rightarrow> (Tree a k n d b, l, r, ls, rs)
        | Tree aa ka na da ab \<Rightarrow>
            if compare_key i ka < 0
            then (let t = Tree ab k (node_size ab + node_size b + 1) d b
                  in case aa of
                       NUL \<Rightarrow> (Tree aa ka na da t, l, r, ls, rs)
                     | _ \<Rightarrow> splay_loop i aa l ((t, ka, na, da) # r) ls (rs + (1 + node_size t)))
            else splay_loop i a l ((b, k, n, d) # r) ls (rs + (1 + node_size b)))
      else if compare_key i k > 0
      then (case b of
          NUL \<Rightarrow> (Tree a k n d b, l, r, ls, rs)
        | Tree ba kb nb db bb \<Rightarrow>
            if compare_key i kb > 0
            then (let t = Tree a k (node_size a + node_size ba + 1) d ba
                  in case bb of
                       NUL \<Rightarrow> (Tree t kb nb db bb, l, r, ls, rs)
                     | _ \<Rightarrow> splay_loop i bb ((t, kb, nb, db) # l) r (ls + (1 + node_size t)) rs)
            else splay_loop i b ((a, k, n, d) # l) r (ls + (1 + node_size a)) rs)
      else (Tree a k n d b, l, r, ls, rs))"

text \<open>The two loops that correct the size fields, from the root of each spine down.\<close>

fun fix_sizes :: "int \<Rightarrow> 'd spine \<Rightarrow> 'd spine" where
  "fix_sizes n [] = []"
| "fix_sizes n ((a, k, m, d) # s) = (a, k, n, d) # fix_sizes (n - (1 + node_size a)) s"

fun hang_left :: "'d spine \<Rightarrow> 'd splay_tree \<Rightarrow> 'd splay_tree" where
  "hang_left [] t = t"
| "hang_left ((a, k, n, d) # s) t = hang_left s (Tree a k n d t)"

fun hang_right :: "'d spine \<Rightarrow> 'd splay_tree \<Rightarrow> 'd splay_tree" where
  "hang_right [] t = t"
| "hang_right ((b, k, n, d) # s) t = hang_right s (Tree t k n d b)"

fun splaytree_splay :: "'d splay_tree \<Rightarrow> int \<Rightarrow> 'd splay_tree" where
  "splaytree_splay t i = (case splay_loop i t [] [] 0 0 of
     (NUL, _) \<Rightarrow> NUL
   | (Tree a k n d b, l, r, ls, rs) \<Rightarrow>
       let ls = ls + node_size a;
           rs = rs + node_size b;
           n = ls + rs + 1;
           l = rev (fix_sizes ls (rev l));
           r = rev (fix_sizes rs (rev r))
       in Tree (hang_left l a) k n d (hang_right r b))"

definition splaytree_insert :: "'d splay_tree \<Rightarrow> int \<Rightarrow> 'd \<Rightarrow> 'd splay_tree" where
  "splaytree_insert t i data = (case splaytree_splay t i of
     NUL \<Rightarrow> Tree NUL i 1 data NUL
   | Tree a k n d b \<Rightarrow>
       if compare_key i k = 0 then Tree a k n d b
       else if compare_key i k < 0
       then (let t = Tree NUL k (1 + node_size b) d b
             in Tree a i (1 + node_size a + node_size t) data t)
       else (let t = Tree a k (1 + node_size a) d NUL
             in Tree t i (1 + node_size t + node_size b) data b))"

fun set_size :: "int \<Rightarrow> 'd splay_tree \<Rightarrow> 'd splay_tree" where
  "set_size m NUL = NUL"
| "set_size m (Tree a k n d b) = Tree a k m d b"

fun set_right :: "'d splay_tree \<Rightarrow> 'd splay_tree \<Rightarrow> 'd splay_tree" where
  "set_right c NUL = NUL"
| "set_right c (Tree a k n d b) = Tree a k n d c"

definition splaytree_delete :: "'d splay_tree \<Rightarrow> int \<Rightarrow> 'd splay_tree" where
  "splaytree_delete t i =
     (let tsize = node_size t
      in case splaytree_splay t i of
           NUL \<Rightarrow> NUL
         | Tree a k n d b \<Rightarrow>
             if compare_key i k = 0
             then set_size (tsize - 1) (if a = NUL then b else set_right b (splaytree_splay a i))
             else Tree a k n d b)"

text \<open>\<open>None\<close> is the dereference of a null pointer.\<close>

fun rank_loop :: "int \<Rightarrow> 'd splay_tree \<Rightarrow> 'd splay_tree option" where
  "rank_loop r NUL = None"
| "rank_loop r (Tree a k n d b) =
     (if r < node_size a then rank_loop r a
      else if r > node_size a then rank_loop (r - node_size a - 1) b
      else Some (Tree a k n d b))"

definition find_rank :: "int \<Rightarrow> 'd splay_tree \<Rightarrow> 'd splay_tree option" where
  "find_rank r t = (if r < 0 \<or> r \<ge> node_size t then Some NUL else rank_loop r t)"

section \<open>Listings, search trees, sizes\<close>

fun inorder :: "'d splay_tree \<Rightarrow> (int \<times> 'd) list" where
  "inorder NUL = []"
| "inorder (Tree a k n d b) = inorder a @ (k, d) # inorder b"

abbreviation keys :: "'d splay_tree \<Rightarrow> int list" where
  "keys t \<equiv> List.map fst (inorder t)"

fun sized :: "'d splay_tree \<Rightarrow> bool" where
  "sized NUL = True"
| "sized (Tree a k n d b) \<longleftrightarrow> sized a \<and> sized b \<and> n = int (length (inorder a)) + int (length (inorder b)) + 1"

text \<open>The keys are what \<open>hashme\<close> of the cache produces: non-negative.\<close>

definition key_ok :: "int \<Rightarrow> bool" where
  "key_ok k \<longleftrightarrow> 0 \<le> k \<and> k < 2 ^ 31"

definition search_tree :: "'d splay_tree \<Rightarrow> bool" where
  "search_tree t \<longleftrightarrow> sized t \<and> sorted_wrt (<) (keys t) \<and> (\<forall>k \<in> set (keys t). key_ok k)"

lemma compare_key_ok: "key_ok i \<Longrightarrow> key_ok j \<Longrightarrow> compare_key i j = i - j"
  unfolding compare_key_def key_ok_def by (rule signed_take_bit_int_eq_self) auto

lemma node_size_sized: "sized t \<Longrightarrow> node_size t = int (length (inorder t))"
  by (cases t) simp_all

section \<open>The spines\<close>

fun listing_l :: "'d spine \<Rightarrow> (int \<times> 'd) list" where
  "listing_l [] = []"
| "listing_l ((a, k, n, d) # s) = listing_l s @ inorder a @ [(k, d)]"

fun listing_r :: "'d spine \<Rightarrow> (int \<times> 'd) list" where
  "listing_r [] = []"
| "listing_r ((b, k, n, d) # s) = (k, d) # inorder b @ listing_r s"

lemma inorder_hang_left [simp]: "inorder (hang_left s t) = listing_l s @ inorder t"
  by (induction s t rule: hang_left.induct) simp_all

lemma inorder_hang_right [simp]: "inorder (hang_right s t) = inorder t @ listing_r s"
  by (induction s t rule: hang_right.induct) simp_all

definition spine_sized :: "'d spine \<Rightarrow> bool" where
  "spine_sized s \<longleftrightarrow> (\<forall>(a, k, n, d) \<in> set s. sized a)"

lemma spine_sized_simps [simp]:
  "spine_sized []" "spine_sized ((a, k, n, d) # s) \<longleftrightarrow> sized a \<and> spine_sized s"
  by (auto simp: spine_sized_def)

lemma listing_length: "length (listing_l s) = length (listing_r s)"
  by (induction s rule: listing_r.induct) simp_all

lemma listing_append:
  "listing_l (s @ [(a, k, n, d)]) = inorder a @ (k, d) # listing_l s"
  "listing_r (s @ [(a, k, n, d)]) = listing_r s @ (k, d) # inorder a"
  by (induction s) (auto simp: split_paired_all)

text \<open>Correcting the size fields of a spine whose nodes hold \<open>n\<close> nodes in all makes the tree hung from it
  sized.\<close>

lemma fix_sizes_append:
  "spine_sized s \<Longrightarrow> fix_sizes n (s @ [(a, k, m, d)]) = fix_sizes n s @ [(a, k, n - int (length (listing_l s)), d)]"
  by (induction n s rule: fix_sizes.induct) (auto simp: node_size_sized)

lemma fix_sizes_listing:
  "listing_l (rev (fix_sizes n (rev s))) = listing_l s" "listing_r (rev (fix_sizes n (rev s))) = listing_r s"
proof (induction s arbitrary: n rule: rev_induct)
  case (snoc x s)
  obtain a k m d where x: "x = (a, k, m, d)" by (cases x)
  case 1 show ?case using snoc by (simp add: x listing_append)
  case 2 show ?case using snoc by (simp add: x listing_append)
qed simp_all

lemma spine_sized_rev [simp]: "spine_sized (rev s) = spine_sized s"
  by (simp add: spine_sized_def)

lemma fix_sizes_spine_sized [simp]: "spine_sized (fix_sizes n s) = spine_sized s"
  by (induction n s rule: fix_sizes.induct) simp_all

lemma listing_l_rev: "length (listing_l (rev s)) = length (listing_l s)"
  by (induction s) (auto simp: listing_append split_paired_all)

lemma sized_hang:
  assumes "spine_sized s" and "sized t" and "n = int (length (listing_l s)) + int (length (inorder t))"
  shows "sized (hang_left (rev (fix_sizes n (rev s))) t)" and "sized (hang_right (rev (fix_sizes n (rev s))) t)"
proof -
  have "sized (hang_left (rev (fix_sizes n (rev s))) t) \<and> sized (hang_right (rev (fix_sizes n (rev s))) t)"
    using assms
  proof (induction s arbitrary: n t)
    case (Cons x s)
    obtain a k m d where x: "x = (a, k, m, d)" by (cases x)
    have "n - int (length (listing_l (rev s))) = int (length (inorder a)) + int (length (inorder t)) + 1"
      using Cons.prems(3) by (simp add: x listing_l_rev)
    moreover have "spine_sized (rev s)" using Cons.prems(1) by (simp add: x)
    ultimately show ?case
      using Cons.prems Cons.IH [of "Tree a k (int (length (inorder a)) + int (length (inorder t)) + 1) d t" n]
        Cons.IH [of "Tree t k (int (length (inorder a)) + int (length (inorder t)) + 1) d a" n]
      by (simp add: x fix_sizes_append ac_simps)
  qed simp
  then show "sized (hang_left (rev (fix_sizes n (rev s))) t)" "sized (hang_right (rev (fix_sizes n (rev s))) t)"
    by simp_all
qed

section \<open>Splaying\<close>

text \<open>The state of the loop: \<open>L\<close> is the listing of the whole tree.\<close>

fun splay_inv :: "int \<Rightarrow> (int \<times> 'd) list \<Rightarrow> 'd splay_tree \<times> 'd spine \<times> 'd spine \<times> int \<times> int \<Rightarrow> bool" where
  "splay_inv i L (NUL, l, r, ls, rs) = False"
| "splay_inv i L (Tree a k n d b, l, r, ls, rs) \<longleftrightarrow> sized a \<and> sized b \<and> spine_sized l \<and> spine_sized r
     \<and> listing_l l @ inorder a @ (k, d) # inorder b @ listing_r r = L
     \<and> ls = int (length (listing_l l)) \<and> rs = int (length (listing_r r))
     \<and> (\<forall>x \<in> set (listing_l l). fst x < i) \<and> (\<forall>x \<in> set (listing_r r). i < fst x)"

fun splay_done :: "int \<Rightarrow> 'd splay_tree \<times> 'd spine \<times> 'd spine \<times> int \<times> int \<Rightarrow> bool" where
  "splay_done i (NUL, _) = False"
| "splay_done i (Tree a k n d b, _) \<longleftrightarrow> k = i \<or> i < k \<and> a = NUL \<or> k < i \<and> b = NUL"

lemma sorted_mid:
  assumes "sorted_wrt (<) (List.map fst (xs @ (k, d) # ys))"
  shows "x \<in> set xs \<Longrightarrow> fst x < k" and "x \<in> set ys \<Longrightarrow> k < fst x"
  using assms by (auto simp: sorted_wrt_append)

lemma splay_loop_ok:
  assumes "splay_inv i L (t, l, r, ls, rs)" and "sorted_wrt (<) (List.map fst L)"
    and "\<forall>k \<in> fst ` set L. key_ok k" and "key_ok i"
  shows "splay_inv i L (splay_loop i t l r ls rs) \<and> splay_done i (splay_loop i t l r ls rs)"
  using assms
proof (induction i t l r ls rs rule: splay_loop.induct)
  case (2 i a k n d b l r ls rs)
  have L: "key_ok x" if "x \<in> fst ` set L" for x using 2(7) that by blast
  have S: "sorted_wrt (<) (List.map fst L)" and i: "key_ok i" using 2 by simp_all
  have eq: "L = listing_l l @ inorder a @ (k, d) # inorder b @ listing_r r" using 2(5) by simp
  have cmp: "compare_key i k = i - k"
    using L i by (intro compare_key_ok) (auto simp: eq)
  have mk: "fst x < k" if "x \<in> set (listing_l l) \<union> set (inorder a)" for x
    using sorted_mid(1) [of "listing_l l @ inorder a" k d "inorder b @ listing_r r" x] S that by (simp add: eq)
  have nk: "k < fst x" if "x \<in> set (inorder b) \<union> set (listing_r r)" for x
    using sorted_mid(2) [of "listing_l l @ inorder a" k d "inorder b @ listing_r r" x] S that by (simp add: eq)
  consider "i = k" | "i < k" | "k < i" by linarith
  then show ?case
  proof cases
    case 1
    then show ?thesis using 2(5) cmp by simp
  next
    case lt: 2
    show ?thesis
    proof (cases a)
      case NUL
      then show ?thesis using 2(5) cmp lt by simp
    next
      case (Tree aa ka na da ab)
      have cmpa: "compare_key i ka = i - ka" using L i by (intro compare_key_ok) (auto simp: eq Tree)
      show ?thesis
      proof (cases "i < ka")
        case True
        show ?thesis
        proof (cases aa)
          case NUL
          then show ?thesis using 2(5) cmp cmpa lt True Tree by (simp add: node_size_sized)
        next
          case a': (Tree x y z u v)
          let ?t = "Tree ab k (node_size ab + node_size b + 1) d b"
          have nka: "ka < fst x" if "x \<in> set (inorder ab)" for x
            using sorted_mid(2) [of "listing_l l @ inorder aa" ka da "inorder ab @ (k, d) # inorder b @ listing_r r" x] S that
            by (simp add: eq Tree)
          have "splay_inv i L (aa, l, (?t, ka, na, da) # r, ls, rs + (1 + node_size ?t))"
            using 2(5) lt True nka nk by (fastforce simp: Tree a' node_size_sized)
          moreover have "splay_loop i (Tree a k n d b) l r ls rs
            = splay_loop i aa l ((?t, ka, na, da) # r) ls (rs + (1 + node_size ?t))"
            unfolding Tree a' by (subst splay_loop.simps(2)) (use cmp cmpa lt True in \<open>simp add: Let_def del: splay_loop.simps node_size.simps\<close>)
          ultimately show ?thesis using 2(1) [OF _ Tree _ refl a' _ S 2(7) i] cmp cmpa lt True by (simp del: splay_loop.simps)
        qed
      next
        case False
        then have "splay_inv i L (a, l, (b, k, n, d) # r, ls, rs + (1 + node_size b))"
          using 2(5) lt nk by (fastforce simp: Tree node_size_sized)
        moreover have "splay_loop i (Tree a k n d b) l r ls rs
            = splay_loop i a l ((b, k, n, d) # r) ls (rs + (1 + node_size b))"
          unfolding Tree by (subst splay_loop.simps(2)) (use cmp cmpa lt False in \<open>simp del: splay_loop.simps\<close>)
        ultimately show ?thesis using 2(2) [OF _ Tree _ _ S 2(7) i] cmp cmpa lt False by (simp del: splay_loop.simps)
      qed
    qed
  next
    case gt: 3
    show ?thesis
    proof (cases b)
      case NUL
      then show ?thesis using 2(5) cmp gt by simp
    next
      case (Tree ba kb nb db bb)
      have cmpb: "compare_key i kb = i - kb" using L i by (intro compare_key_ok) (auto simp: eq Tree)
      show ?thesis
      proof (cases "kb < i")
        case True
        show ?thesis
        proof (cases bb)
          case NUL
          then show ?thesis using 2(5) cmp cmpb gt True Tree by (simp add: node_size_sized)
        next
          case b': (Tree x y z u v)
          have mkb: "fst x < kb" if "x \<in> set (inorder ba)" for x
            using sorted_mid(1) [of "listing_l l @ inorder a @ (k, d) # inorder ba" kb db "inorder bb @ listing_r r" x] S that
            by (simp add: eq Tree)
          let ?t = "Tree a k (node_size a + node_size ba + 1) d ba"
          have "splay_inv i L (bb, (?t, kb, nb, db) # l, r, ls + (1 + node_size ?t), rs)"
            using 2(5) gt True mkb mk by (fastforce simp: Tree b' node_size_sized)
          moreover have "splay_loop i (Tree a k n d b) l r ls rs
            = splay_loop i bb ((?t, kb, nb, db) # l) r (ls + (1 + node_size ?t)) rs"
            unfolding Tree b' by (subst splay_loop.simps(2)) (use cmp cmpb gt True in \<open>simp add: Let_def del: splay_loop.simps node_size.simps\<close>)
          ultimately show ?thesis using 2(3) [OF _ _ Tree _ refl b' _ S 2(7) i] cmp cmpb gt True by (simp del: splay_loop.simps)
        qed
      next
        case False
        then have "splay_inv i L (b, (a, k, n, d) # l, r, ls + (1 + node_size a), rs)"
          using 2(5) gt mk by (fastforce simp: Tree node_size_sized)
        moreover have "splay_loop i (Tree a k n d b) l r ls rs
            = splay_loop i b ((a, k, n, d) # l) r (ls + (1 + node_size a)) rs"
          unfolding Tree by (subst splay_loop.simps(2)) (use cmp cmpb gt False in \<open>simp del: splay_loop.simps\<close>)
        ultimately show ?thesis using 2(4) [OF _ _ Tree _ _ S 2(7) i] cmp cmpb gt False by (simp del: splay_loop.simps)
      qed
    qed
  qed
qed simp

lemma splay_ok:
  assumes "search_tree t" and "t \<noteq> NUL" and "key_ok i"
  obtains a k n d b where "splaytree_splay t i = Tree a k n d b" and "search_tree (Tree a k n d b)"
    and "inorder a @ (k, d) # inorder b = inorder t" and "key_ok k"
    and "\<forall>x \<in> set (inorder a). fst x < i" and "\<forall>x \<in> set (inorder b). i < fst x"
proof -
  have S: "sized t" "sorted_wrt (<) (keys t)" "\<forall>k \<in> fst ` set (inorder t). key_ok k"
    using assms(1) by (auto simp: search_tree_def)
  have I: "splay_inv i (inorder t) (t, [], [], 0, 0)"
    using assms(2) S(1) by (cases t) simp_all
  obtain a k n d b l r ls rs where r: "splay_loop i t [] [] 0 0 = (Tree a k n d b, l, r, ls, rs)"
    "splay_inv i (inorder t) (Tree a k n d b, l, r, ls, rs)" "splay_done i (Tree a k n d b, l, r, ls, rs)"
  proof -
    obtain u l r ls rs where r: "splay_loop i t [] [] 0 0 = (u, l, r, ls, rs)"
      by (cases "splay_loop i t [] [] 0 0")
    note ok = splay_loop_ok [OF I S(2,3) assms(3), unfolded r]
    show thesis using that r ok by (cases u) auto
  qed
  let ?l = "rev (fix_sizes (ls + node_size a) (rev l))" and ?r = "rev (fix_sizes (rs + node_size b) (rev r))"
  let ?n = "ls + node_size a + (rs + node_size b) + 1"
  have eq: "splaytree_splay t i = Tree (hang_left ?l a) k ?n d (hang_right ?r b)"
    by (simp add: r(1) Let_def)
  have v: "spine_sized l" "spine_sized r" "sized a" "sized b" "ls = int (length (listing_l l))"
    "rs = int (length (listing_r r))" "listing_l l @ inorder a @ (k, d) # inorder b @ listing_r r = inorder t"
    "\<forall>x \<in> set (listing_l l). fst x < i" "\<forall>x \<in> set (listing_r r). i < fst x"
    using r(2) by simp_all
  have in1: "inorder (hang_left ?l a) = listing_l l @ inorder a" "inorder (hang_right ?r b) = inorder b @ listing_r r"
    by (simp_all add: fix_sizes_listing)
  have "sized (hang_left ?l a)" "sized (hang_right ?r b)"
    by (rule sized_hang; use v in \<open>simp add: node_size_sized listing_length\<close>)+
  moreover have "?n = int (length (inorder (hang_left ?l a))) + int (length (inorder (hang_right ?r b))) + 1"
    unfolding in1 using v by (simp add: node_size_sized)
  ultimately have st: "search_tree (Tree (hang_left ?l a) k ?n d (hang_right ?r b))"
    using S v(7) by (simp add: search_tree_def in1 del: inorder_hang_left inorder_hang_right)
  have srt: "sorted_wrt (<) (List.map fst ((listing_l l @ inorder a) @ (k, d) # (inorder b @ listing_r r)))"
    using S(2) v(7) by simp
  have m: "fst x < k" if "x \<in> set (inorder a)" for x using sorted_mid(1) [OF srt] that by simp
  have n: "k < fst x" if "x \<in> set (inorder b)" for x using sorted_mid(2) [OF srt] that by simp
  have lo: "\<forall>x \<in> set (inorder (hang_left ?l a)). fst x < i"
  proof -
    have "k \<le> i \<or> a = NUL" using r(3) by auto
    then show ?thesis unfolding in1 using v(8) m by fastforce
  qed
  have hi: "\<forall>x \<in> set (inorder (hang_right ?r b)). i < fst x"
  proof -
    have "i \<le> k \<or> b = NUL" using r(3) by auto
    then show ?thesis unfolding in1 using v(9) n by fastforce
  qed
  have "(k, d) \<in> set (inorder t)" unfolding v(7) [symmetric] by simp
  then have kk: "key_ok k" using S(3) by force
  show thesis
    by (rule that [OF eq st _ kk lo hi]) (use in1 v(7) in simp)
qed

section \<open>Insertion, deletion, rank\<close>

lemma node_search_tree:
  assumes "sized a" and "sized b" and "n = int (length (inorder a)) + int (length (inorder b)) + 1"
    and "sorted_wrt (<) (keys a)" and "sorted_wrt (<) (keys b)"
    and "\<forall>x \<in> set (inorder a). fst x < k" and "\<forall>x \<in> set (inorder b). k < fst x"
    and "\<forall>j \<in> set (keys a) \<union> {k} \<union> set (keys b). key_ok j"
  shows "search_tree (Tree a k n d b)"
proof -
  have "fst x < fst y" if "x \<in> set (inorder a)" "y \<in> set (inorder b)" for x y
    using assms(6,7) that by (meson less_trans)
  then show ?thesis using assms by (auto simp: search_tree_def sorted_wrt_append)
qed

lemma search_tree_sub:
  assumes "search_tree (Tree a k n d b)"
  shows "search_tree a" and "search_tree b" and "key_ok k"
  using assms by (auto simp: search_tree_def sorted_wrt_append)

text \<open>Inserting: a key that is there keeps its data, as in the code.\<close>

lemma insert_ok:
  assumes T: "search_tree t" and i: "key_ok i"
  shows "search_tree (splaytree_insert t i data)"
    and "set (inorder (splaytree_insert t i data))
      = set (inorder t) \<union> (if i \<in> set (keys t) then {} else {(i, data)})"
proof -
  have "search_tree (splaytree_insert t i data) \<and> set (inorder (splaytree_insert t i data))
      = set (inorder t) \<union> (if i \<in> set (keys t) then {} else {(i, data)})"
  proof (cases "t = NUL")
    case True
    then show ?thesis using i by (simp add: splaytree_insert_def search_tree_def)
  next
    case False
    obtain a k n d b where s: "splaytree_splay t i = Tree a k n d b" "search_tree (Tree a k n d b)"
      "inorder a @ (k, d) # inorder b = inorder t" "key_ok k" "\<forall>x \<in> set (inorder a). fst x < i"
      "\<forall>x \<in> set (inorder b). i < fst x"
      using splay_ok [OF T False i] .
    note cmp = compare_key_ok [OF i s(4)]
    note sub = search_tree_sub(1,2) [OF s(2), unfolded search_tree_def]
    have lt: "\<forall>x \<in> set (inorder a). fst x < k" "\<forall>x \<in> set (inorder b). k < fst x"
      using s(2) by (auto simp: search_tree_def sorted_wrt_append)
    have kt: "set (inorder t) = set (inorder a) \<union> {(k, d)} \<union> set (inorder b)"
      unfolding s(3) [symmetric] by auto
    have mem: "i \<in> set (keys t) \<longleftrightarrow> i = k" using s(5,6) by (auto simp: kt)
    consider "i = k" | "i < k" | "k < i" by linarith
    then show ?thesis
    proof cases
      case 1
      then show ?thesis using s(1,2) cmp mem kt by (simp add: splaytree_insert_def Let_def del: splaytree_splay.simps)
    next
      case 2
      have "search_tree (Tree NUL k (1 + node_size b) d b)"
        using sub lt s(4) by (intro node_search_tree) (auto simp: node_size_sized)
      then have "search_tree (Tree a i (1 + node_size a + node_size (Tree NUL k (1 + node_size b) d b)) data
          (Tree NUL k (1 + node_size b) d b))"
        using sub lt s(4-6) i 2
        by (intro node_search_tree) (auto simp: node_size_sized search_tree_def)
      then show ?thesis using s(1) cmp 2 mem kt by (auto simp: splaytree_insert_def Let_def simp del: splaytree_splay.simps)
    next
      case 3
      have "search_tree (Tree a k (1 + node_size a) d NUL)"
        using sub lt s(4) by (intro node_search_tree) (auto simp: node_size_sized)
      then have "search_tree (Tree (Tree a k (1 + node_size a) d NUL) i
          (1 + node_size (Tree a k (1 + node_size a) d NUL) + node_size b) data b)"
        using sub lt s(4-6) i 3
        by (intro node_search_tree) (auto simp: node_size_sized search_tree_def sorted_wrt_append)
      then show ?thesis using s(1) cmp 3 mem kt by (auto simp: splaytree_insert_def Let_def simp del: splaytree_splay.simps)
    qed
  qed
  then show "search_tree (splaytree_insert t i data)"
    and "set (inorder (splaytree_insert t i data))
      = set (inorder t) \<union> (if i \<in> set (keys t) then {} else {(i, data)})" by simp_all
qed

lemma delete_ok:
  assumes T: "search_tree t" and i: "key_ok i"
  shows "search_tree (splaytree_delete t i)"
    and "inorder (splaytree_delete t i) = filter (\<lambda>x. fst x \<noteq> i) (inorder t)"
proof -
  have "search_tree (splaytree_delete t i) \<and> inorder (splaytree_delete t i) = filter (\<lambda>x. fst x \<noteq> i) (inorder t)"
  proof (cases "t = NUL")
    case True
    then show ?thesis by (simp add: splaytree_delete_def search_tree_def)
  next
    case False
    obtain a k n d b where s: "splaytree_splay t i = Tree a k n d b" "search_tree (Tree a k n d b)"
      "inorder a @ (k, d) # inorder b = inorder t" "key_ok k" "\<forall>x \<in> set (inorder a). fst x < i"
      "\<forall>x \<in> set (inorder b). i < fst x"
      using splay_ok [OF T False i] .
    note cmp = compare_key_ok [OF i s(4)]
    note sub = search_tree_sub(1,2) [OF s(2)]
    have fl: "filter (\<lambda>x. fst x \<noteq> i) (inorder a) = inorder a" "filter (\<lambda>x. fst x \<noteq> i) (inorder b) = inorder b"
      using s(5,6) by (auto intro: filter_True)
    have sz: "node_size t - 1 = int (length (inorder a)) + int (length (inorder b))"
      using T arg_cong [OF s(3), of length] by (simp add: search_tree_def node_size_sized)
    show ?thesis
    proof (cases "k = i")
      case False
      then have "filter (\<lambda>x. fst x \<noteq> i) (inorder t) = inorder t" unfolding s(3) [symmetric] using fl by simp
      then show ?thesis using s(1,2,3) cmp False by (simp add: splaytree_delete_def Let_def del: splaytree_splay.simps)
    next
      case True
      have L: "filter (\<lambda>x. fst x \<noteq> i) (inorder t) = inorder a @ inorder b" unfolding s(3) [symmetric] using True fl by simp
      show ?thesis
      proof (cases "a = NUL")
        case a: True
        have "search_tree (set_size (node_size t - 1) b) \<and> inorder (set_size (node_size t - 1) b) = inorder b"
          using sub(2) sz a by (cases b) (auto simp: search_tree_def)
        then show ?thesis using s(1) cmp True a L by (simp add: splaytree_delete_def Let_def del: splaytree_splay.simps)
      next
        case a: False
        obtain a' k' n' d' b' where u: "splaytree_splay a i = Tree a' k' n' d' b'" "search_tree (Tree a' k' n' d' b')"
          "inorder a' @ (k', d') # inorder b' = inorder a" "key_ok k'" "\<forall>x \<in> set (inorder a'). fst x < i"
          "\<forall>x \<in> set (inorder b'). i < fst x"
          using splay_ok [OF sub(1) a i] .
        have "set (inorder b') \<subseteq> set (inorder a)" unfolding u(3) [symmetric] by auto
        then have b': "inorder b' = []" using u(6) s(5) by (cases "inorder b'") fastforce+
        have k': "k' < i" using s(5) unfolding u(3) [symmetric] by auto
        have "search_tree (Tree a' k' (node_size t - 1) d' b)"
        proof (rule node_search_tree)
          show "node_size t - 1 = int (length (inorder a')) + int (length (inorder b)) + 1"
            using sz b' arg_cong [OF u(3), of length] by simp
          show "\<forall>x \<in> set (inorder a'). fst x < k'"
            using u(2) by (auto simp: search_tree_def sorted_wrt_append)
        qed (use search_tree_sub(1) [OF u(2)] sub(2) s(6) u(4) k' in \<open>auto simp: search_tree_def\<close>)
        then show ?thesis
          using s(1) u(1) b' cmp True a L arg_cong [OF u(3), of "\<lambda>xs. xs @ inorder b"]
          by (simp add: splaytree_delete_def Let_def del: splaytree_splay.simps)
      qed
    qed
  qed
  then show "search_tree (splaytree_delete t i)"
    and "inorder (splaytree_delete t i) = filter (\<lambda>x. fst x \<noteq> i) (inorder t)" by simp_all
qed

lemma rank_loop_ok:
  "sized t \<Longrightarrow> 0 \<le> r \<Longrightarrow> r < int (length (inorder t)) \<Longrightarrow>
   \<exists>a k n d b. rank_loop r t = Some (Tree a k n d b) \<and> inorder t ! nat r = (k, d)"
proof (induction r t rule: rank_loop.induct)
  case (2 r a k n d b)
  have m: "node_size a = int (length (inorder a))" using 2(3) by (simp add: node_size_sized)
  consider "r < node_size a" | "r > node_size a" | "r = node_size a" by linarith
  then show ?case
  proof cases
    case 1
    then show ?thesis using 2 m by (auto simp: nth_append)
  next
    case gt: 2
    then have "\<exists>a' k' n' d' b'. rank_loop (r - node_size a - 1) b = Some (Tree a' k' n' d' b')
        \<and> inorder b ! nat (r - node_size a - 1) = (k', d')"
      using 2(3-5) m by (intro 2(2)) auto
    moreover have "nat r = length (inorder a) + Suc (nat (r - node_size a - 1))" using gt m by linarith
    ultimately show ?thesis using gt by (simp add: nth_append)
  next
    case 3
    then show ?thesis using m by (simp add: nth_append)
  qed
qed simp

section \<open>The index interface\<close>

text \<open>What a user of the tree relies on: a finite map in which the first insertion of a key wins, and the
  number of its keys.\<close>

locale keyed_index =
  fixes empty :: 't
    and lookup :: "'t \<Rightarrow> int \<Rightarrow> 'd option"
    and insert :: "'t \<Rightarrow> int \<Rightarrow> 'd \<Rightarrow> 't"
    and delete :: "'t \<Rightarrow> int \<Rightarrow> 't"
    and abs :: "'t \<Rightarrow> int \<rightharpoonup> 'd"
    and invar :: "'t \<Rightarrow> bool"
    and valid :: "int \<Rightarrow> bool"
    and size :: "'t \<Rightarrow> int"
  assumes empty: "invar empty" "abs empty = Map.empty"
    and lookup: "invar t \<Longrightarrow> valid k \<Longrightarrow> lookup t k = abs t k"
    and insert: "invar t \<Longrightarrow> valid k \<Longrightarrow> invar (insert t k v)"
      "invar t \<Longrightarrow> valid k \<Longrightarrow> abs (insert t k v) = (if k \<in> dom (abs t) then abs t else (abs t)(k \<mapsto> v))"
    and delete: "invar t \<Longrightarrow> valid k \<Longrightarrow> invar (delete t k)"
      "invar t \<Longrightarrow> valid k \<Longrightarrow> abs (delete t k) = (abs t)(k := None)"
    and size: "invar t \<Longrightarrow> finite (dom (abs t)) \<and> size t = int (card (dom (abs t)))"
begin

lemma insert_size:
  assumes "invar t" and "valid k"
  shows "size (insert t k v) = size t + (if k \<in> dom (abs t) then 0 else 1)"
proof -
  have "dom (abs (insert t k v)) = Set.insert k (dom (abs t))" using insert(2) [OF assms] by auto
  then show ?thesis using size [OF assms(1)] size [OF insert(1) [OF assms]]
    by (simp add: card_insert_if)
qed

lemma delete_size:
  assumes "invar t" and "valid k"
  shows "size (delete t k) = size t - (if k \<in> dom (abs t) then 1 else 0)"
proof -
  have d: "dom (abs (delete t k)) = dom (abs t) - {k}" using delete(2) [OF assms] by simp
  have "card (dom (abs t)) > 0" if "k \<in> dom (abs t)" using size [OF assms(1)] that by (auto simp: card_gt_0_iff)
  then show ?thesis
    using size [OF assms(1)] size [OF delete(1) [OF assms]] d
    by (cases "k \<in> dom (abs t)") (simp_all add: card_Diff_singleton)
qed

text \<open>Any sequence of insertions.\<close>

lemma inserts:
  assumes "invar t" and "\<forall>(k, v) \<in> set kvs. valid k"
  shows "invar (foldl (\<lambda>t (k, v). insert t k v) t kvs)
    \<and> abs (foldl (\<lambda>t (k, v). insert t k v) t kvs) = map_of kvs ++ abs t"
  using assms
proof (induction kvs arbitrary: t)
  case (Cons x kvs)
  obtain k v where x: "x = (k, v)" by (cases x)
  have "valid k" using Cons.prems(2) by (simp add: x)
  note i = insert [OF Cons.prems(1) this, of v]
  have "map_of kvs ++ abs (insert t k v) = map_of (x # kvs) ++ abs t"
    unfolding i(2) x by (auto simp: map_add_def fun_eq_iff split: option.splits)
  moreover have "\<forall>(k, v) \<in> set kvs. valid k" using Cons.prems(2) by simp
  ultimately show ?case using Cons.IH [OF i(1)] by (simp add: x del: map_of.simps)
qed simp

text \<open>What was inserted is found, the first time it was inserted.\<close>

lemma found:
  "\<forall>(k, v) \<in> set kvs. valid k \<Longrightarrow> valid k \<Longrightarrow>
   lookup (foldl (\<lambda>t (k, v). insert t k v) empty kvs) k = map_of kvs k"
  using lookup inserts [OF empty(1)] empty(2) by simp

end

section \<open>The tree provides the interface\<close>

definition tree_map :: "'d splay_tree \<Rightarrow> int \<rightharpoonup> 'd" where
  "tree_map t = map_of (inorder t)"

text \<open>The users of the tree splay it at the key and look at the root.\<close>

definition splay_lookup :: "'d splay_tree \<Rightarrow> int \<Rightarrow> 'd option" where
  "splay_lookup t i = (case splaytree_splay t i of
     NUL \<Rightarrow> None | Tree a k n d b \<Rightarrow> if k = i then Some d else None)"

lemma search_tree_distinct: "search_tree t \<Longrightarrow> distinct (keys t)"
  by (auto simp: search_tree_def strict_sorted_iff)

lemma tree_map_iff: "search_tree t \<Longrightarrow> tree_map t k = Some v \<longleftrightarrow> (k, v) \<in> set (inorder t)"
  unfolding tree_map_def by (rule map_of_eq_Some_iff [OF search_tree_distinct])

lemma tree_map_dom: "dom (tree_map t) = set (keys t)"
  by (simp add: tree_map_def dom_map_of_conv_image_fst)

lemma tree_map_eqI:
  assumes "search_tree t" and "\<And>k v. (k, v) \<in> set (inorder t) \<longleftrightarrow> f k = Some v"
  shows "tree_map t = f"
proof
  fix k
  show "tree_map t k = f k"
    using tree_map_iff [OF assms(1), of k] assms(2) [of k] by (cases "f k"; cases "tree_map t k") auto
qed

lemma splay_lookup_ok:
  assumes "search_tree t" and "key_ok i"
  shows "splay_lookup t i = tree_map t i"
proof (cases "t = NUL")
  case True
  then show ?thesis by (simp add: splay_lookup_def tree_map_def)
next
  case False
  obtain a k n d b where s: "splaytree_splay t i = Tree a k n d b" "search_tree (Tree a k n d b)"
    "inorder a @ (k, d) # inorder b = inorder t" "key_ok k" "\<forall>x \<in> set (inorder a). fst x < i"
    "\<forall>x \<in> set (inorder b). i < fst x"
    using splay_ok [OF assms(1) False assms(2)] .
  have "tree_map t i = (if k = i then Some d else None)"
  proof (cases "k = i")
    case True
    then show ?thesis using tree_map_iff [OF assms(1), of i d] by (simp flip: s(3))
  next
    case False
    then have "i \<notin> dom (tree_map t)" unfolding tree_map_dom using s(5,6) by (auto simp flip: s(3))
    then show ?thesis using False by auto
  qed
  then show ?thesis using s(1) by (simp add: splay_lookup_def del: splaytree_splay.simps)
qed

interpretation ix: keyed_index NUL splay_lookup splaytree_insert splaytree_delete tree_map search_tree
  key_ok node_size
proof
  fix t :: "'d splay_tree" and k v
  show "search_tree (NUL :: 'd splay_tree)" by (simp add: search_tree_def)
  show "tree_map (NUL :: 'd splay_tree) = Map.empty" by (simp add: tree_map_def)
  assume T: "search_tree t"
  then show "finite (dom (tree_map t)) \<and> node_size t = int (card (dom (tree_map t)))"
    using distinct_card [OF search_tree_distinct [OF T]] by (simp add: tree_map_dom search_tree_def node_size_sized)
  assume k: "key_ok k"
  show "splay_lookup t k = tree_map t k" by (rule splay_lookup_ok [OF T k])
  show "search_tree (splaytree_insert t k v)" by (rule insert_ok(1) [OF T k])
  show "search_tree (splaytree_delete t k)" by (rule delete_ok(1) [OF T k])
  show "tree_map (splaytree_insert t k v) = (if k \<in> dom (tree_map t) then tree_map t else (tree_map t)(k \<mapsto> v))"
    by (rule tree_map_eqI [OF insert_ok(1) [OF T k]])
      (use insert_ok(2) [OF T k, of v] tree_map_iff [OF T] in \<open>auto simp: tree_map_dom image_iff\<close>)
  show "tree_map (splaytree_delete t k) = (tree_map t)(k := None)"
    by (rule tree_map_eqI [OF delete_ok(1) [OF T k]])
      (use delete_ok(2) [OF T k] tree_map_iff [OF T] in auto)
qed

section \<open>Properties\<close>

text \<open>C35: A splay tree implements a map. Splaying keeps the contents and their order and brings the key, if it
  is there, to the root; an insertion adds a new key and leaves an existing one with its data; a
  deletion removes exactly its key. Every operation keeps the order of the keys and the size field
  of every node, so the size of the tree is always its number of keys.\<close>
theorem splay_tree_refines_map:
  assumes "search_tree t" and "key_ok i"
  shows "search_tree (splaytree_splay t i) \<and> inorder (splaytree_splay t i) = inorder t
    \<and> splay_lookup t i = tree_map t i
    \<and> search_tree (splaytree_insert t i v)
    \<and> tree_map (splaytree_insert t i v) = (if i \<in> dom (tree_map t) then tree_map t else (tree_map t)(i \<mapsto> v))
    \<and> node_size (splaytree_insert t i v) = node_size t + (if i \<in> dom (tree_map t) then 0 else 1)
    \<and> search_tree (splaytree_delete t i) \<and> tree_map (splaytree_delete t i) = (tree_map t)(i := None)
    \<and> node_size (splaytree_delete t i) = node_size t - (if i \<in> dom (tree_map t) then 1 else 0)"
proof -
  have "search_tree (splaytree_splay t i) \<and> inorder (splaytree_splay t i) = inorder t"
  proof (cases "t = NUL")
    case False
    show ?thesis by (rule splay_ok [OF assms(1) False assms(2)]) simp
  qed (simp add: search_tree_def)
  then show ?thesis
    using ix.lookup [OF assms] ix.insert [OF assms, of v] ix.insert_size [OF assms, of v]
      ix.delete [OF assms] ix.delete_size [OF assms] by simp
qed

definition sample_tree :: "nat splay_tree" where
  "sample_tree = Tree (Tree NUL 3 1 30 NUL) 5 4 50 (Tree (Tree NUL 7 1 70 NUL) 9 2 90 NUL)"

lemma sample_search_tree: "search_tree sample_tree"
  by (simp add: sample_tree_def search_tree_def key_ok_def)

theorem splay_tree_refines_map_witness:
  "splaytree_splay sample_tree 7 = Tree (Tree (Tree NUL 3 1 30 NUL) 5 2 50 NUL) 7 4 70 (Tree NUL 9 1 90 NUL)
   \<and> tree_map (splaytree_delete sample_tree 7) 7 = None
   \<and> tree_map (splaytree_insert sample_tree 8 80) 8 = Some 80"
proof -
  have k: "key_ok 7" "key_ok 8" by (simp_all add: key_ok_def)
  have "splaytree_splay sample_tree 7 = Tree (Tree (Tree NUL 3 1 30 NUL) 5 2 50 NUL) 7 4 70 (Tree NUL 9 1 90 NUL)"
    by (simp add: sample_tree_def compare_key_def Let_def)
  moreover have "8 \<notin> dom (tree_map sample_tree)" by (simp add: tree_map_dom sample_tree_def)
  ultimately show ?thesis
    using splay_tree_refines_map [OF sample_search_tree k(1), of 0]
      splay_tree_refines_map [OF sample_search_tree k(2), of 80] by simp
qed

text \<open>The node of rank \<open>r\<close> is the one with exactly \<open>r\<close> keys before it, for every rank from 0 to the size
  of the tree; outside that range a null pointer is returned. No null pointer is dereferenced.\<close>
theorem find_rank_spec:
  assumes "search_tree t"
  shows "if 0 \<le> r \<and> r < node_size t
    then \<exists>a k n d b. find_rank r t = Some (Tree a k n d b) \<and> (k, d) \<in> set (inorder t)
      \<and> card {j \<in> set (keys t). j < k} = nat r
    else find_rank r t = Some NUL"
proof (cases "0 \<le> r \<and> r < node_size t")
  case True
  have s: "sized t" "sorted_wrt (<) (keys t)" using assms by (simp_all add: search_tree_def)
  then have r: "0 \<le> r" "r < int (length (inorder t))" using True node_size_sized [OF s(1)] by simp_all
  obtain a k n d b where n: "rank_loop r t = Some (Tree a k n d b)" "inorder t ! nat r = (k, d)"
    using rank_loop_ok [OF s(1) r] by blast
  have nr: "nat r < length (keys t)" using r by simp
  have kr: "keys t ! nat r = k" using n(2) r by simp
  have "{j \<in> set (keys t). j < k} = (\<lambda>m. keys t ! m) ` {..< nat r}"
  proof (intro equalityI subsetI)
    fix j assume "j \<in> {j \<in> set (keys t). j < k}"
    then obtain m where m: "m < length (keys t)" "keys t ! m = j" "j < k" by (auto simp: in_set_conv_nth)
    have "\<not> nat r \<le> m"
      using m kr sorted_wrt_nth_less [OF s(2), of "nat r" m] by (cases "nat r = m") auto
    then show "j \<in> (\<lambda>m. keys t ! m) ` {..< nat r}" using m(2) by auto
  next
    fix j assume "j \<in> (\<lambda>m. keys t ! m) ` {..< nat r}"
    then obtain m where "m < nat r" "j = keys t ! m" by auto
    then show "j \<in> {j \<in> set (keys t). j < k}"
      using sorted_wrt_nth_less [OF s(2), of m "nat r"] nr kr by simp
  qed
  moreover have "inj_on (\<lambda>m. keys t ! m) {..< nat r}"
    using nr nth_eq_iff_index_eq [OF search_tree_distinct [OF assms]] by (intro inj_onI) (simp del: nth_map)
  ultimately have "card {j \<in> set (keys t). j < k} = nat r" by (simp add: card_image)
  moreover have "(k, d) \<in> set (inorder t)" using n(2) r by (metis nth_mem zless_nat_conj nat_less_iff)
  ultimately show ?thesis using True n(1) by (simp add: find_rank_def)
qed (auto simp: find_rank_def)

theorem find_rank_spec_witness:
  "\<exists>a n b. find_rank 2 sample_tree = Some (Tree a 7 n 70 b)"
proof -
  have "find_rank 2 sample_tree = Some (Tree NUL 7 1 70 NUL)" by (simp add: find_rank_def sample_tree_def)
  moreover have "\<exists>a k n d b. find_rank 2 sample_tree = Some (Tree a k n d b)"
    using find_rank_spec [OF sample_search_tree, of 2] by (simp add: sample_tree_def) blast
  ultimately show ?thesis by blast
qed

end
