(* ===== verification/Stat_Cache.thy ===== *)
theory Stat_Cache
  imports Splay_Trees "HOL-Library.Multiset"
begin

text \<open>
  The part of stat\_cache.c of lighttpd that manages the entries: the hash function that makes the keys,
  the removal of the entries that were not looked at lately, and the release of the whole cache.
  The entries hang in a splay tree, used through its interface \<open>keyed_index\<close>.
\<close>

section \<open>Definitions\<close>

record stat_cache_entry =
  sce_name :: "8 word list"
  stat_ts :: int

text \<open>\<open>hashme\<close>: a byte is added as a \<open>char\<close>, which is signed. The argument is the string up to its
  terminating null byte.\<close>

definition hashme :: "8 word list \<Rightarrow> 32 word" where
  "hashme s = foldl (\<lambda>h c. (push_bit 5 h + h) + scast c) 5381 s AND NOT (push_bit 31 1)"

text \<open>The walk that collects the keys of the old entries. The time of the request is \<open>cur_ts\<close>.\<close>

fun stat_cache_tag_old_entries :: "int \<Rightarrow> ('b stat_cache_entry_scheme) splay_tree \<Rightarrow> int list \<Rightarrow> int list" where
  "stat_cache_tag_old_entries cur_ts NUL ks = ks"
| "stat_cache_tag_old_entries cur_ts (Tree a k n sce b) ks =
     (let ks = stat_cache_tag_old_entries cur_ts a ks;
          ks = stat_cache_tag_old_entries cur_ts b ks
      in if cur_ts - stat_ts sce > 2 then ks @ [k] else ks)"

text \<open>The loop over the collected keys; the entries that are released are collected in \<open>fr\<close>.\<close>

fun cleanup_loop :: "int list \<Rightarrow> 'd splay_tree \<Rightarrow> 'd list \<Rightarrow> 'd splay_tree \<times> 'd list" where
  "cleanup_loop [] files fr = (files, fr)"
| "cleanup_loop (ndx # ks) files fr = (case splaytree_splay files ndx of
     NUL \<Rightarrow> cleanup_loop ks NUL fr
   | Tree a k n d b \<Rightarrow>
       if k = ndx then cleanup_loop ks (splaytree_delete (Tree a k n d b) ndx) (fr @ [d])
       else cleanup_loop ks (Tree a k n d b) fr)"

text \<open>The array \<open>keys\<close> has room for as many keys as the size field of the root says; \<open>None\<close> is a write
  past its end.\<close>

definition stat_cache_trigger_cleanup ::
    "int \<Rightarrow> ('b stat_cache_entry_scheme) splay_tree \<Rightarrow> (('b stat_cache_entry_scheme) splay_tree \<times> ('b stat_cache_entry_scheme) list) option" where
  "stat_cache_trigger_cleanup cur_ts files =
     (if files = NUL then Some (files, [])
      else let ks = stat_cache_tag_old_entries cur_ts files []
           in if int (length ks) > node_size files then None else Some (cleanup_loop ks files []))"

text \<open>Releasing everything: delete the root until the tree is empty. The assertion on the sizes aborts
  when it fails (\<open>None\<close>).\<close>

partial_function (option) stat_cache_free :: "'d splay_tree \<Rightarrow> 'd list \<Rightarrow> 'd list option" where
  "stat_cache_free files fr = (case files of
     NUL \<Rightarrow> Some fr
   | Tree a k n d b \<Rightarrow>
       let files' = splaytree_delete files k
       in if n - 1 = node_size files' then stat_cache_free files' (fr @ [d]) else None)"

section \<open>The keys\<close>

lemma hashme_key_ok: "key_ok (uint (hashme s))"
proof -
  have "(w :: 32 word) AND NOT (push_bit 31 1) = take_bit 31 w" for w
  proof (rule bit_eqI)
    fix n assume "possible_bit TYPE(32 word) n"
    then have "n < 32" by simp
    then show "bit (w AND NOT (push_bit 31 1)) n = bit (take_bit 31 w) n"
      by (auto simp only: bit_take_bit_iff bit_and_iff bit_not_iff bit_push_bit_iff bit_1_iff possible_bit_word)
        simp_all
  qed
  then have "hashme s = take_bit 31 (hashme s)" unfolding hashme_def by simp
  then have "uint (hashme s) = take_bit 31 (uint (hashme s))" by (metis unsigned_take_bit_eq)
  then show ?thesis using take_bit_int_less_exp [of 31 "uint (hashme s)"] by (simp add: key_ok_def)
qed

section \<open>Collecting and deleting\<close>

lemma tag_old:
  "set (stat_cache_tag_old_entries now t ks) = set ks \<union> {k. \<exists>d. (k, d) \<in> set (inorder t) \<and> now - stat_ts d > 2}"
  by (induction now t ks rule: stat_cache_tag_old_entries.induct) (auto simp: Let_def)

lemma tag_old_length:
  "length (stat_cache_tag_old_entries now t ks) = length ks + length (filter (\<lambda>x. now - stat_ts (snd x) > 2) (inorder t))"
  by (induction now t ks rule: stat_cache_tag_old_entries.induct) (auto simp: Let_def)

lemma cleanup_loop_ok:
  assumes "search_tree t" and "\<forall>k \<in> set ks. key_ok k"
  shows "case cleanup_loop ks t fr of (t', fr') \<Rightarrow> search_tree t'
      \<and> inorder t' = filter (\<lambda>x. fst x \<notin> set ks) (inorder t)
      \<and> mset fr' = mset fr + image_mset snd (mset (filter (\<lambda>x. fst x \<in> set ks) (inorder t)))"
  using assms
proof (induction ks t fr rule: cleanup_loop.induct)
  case (2 i ks t fr)
  have i: "key_ok i" and ks: "\<forall>k \<in> set ks. key_ok k" using 2(5) by simp_all
  show ?case
  proof (cases "t = NUL")
    case True
    then show ?thesis using 2(1) ks by (simp add: search_tree_def)
  next
    case False
    obtain a k n d b where s: "splaytree_splay t i = Tree a k n d b" "search_tree (Tree a k n d b)"
      "inorder a @ (k, d) # inorder b = inorder t" "key_ok k" "\<forall>x \<in> set (inorder a). fst x < i"
      "\<forall>x \<in> set (inorder b). i < fst x"
      using splay_ok [OF 2(4) False i] .
    have L: "inorder (Tree a k n d b) = inorder t" using s(3) by simp
    show ?thesis
    proof (cases "k = i")
      case True
      note del = delete_ok [OF s(2) i, unfolded L]
      have ab: "filter (\<lambda>x. fst x = i \<or> P x) (inorder a) = filter P (inorder a)"
        "filter (\<lambda>x. fst x = i \<or> P x) (inorder b) = filter P (inorder b)"
        "filter (\<lambda>x. fst x \<noteq> i \<and> P x) (inorder a) = filter P (inorder a)"
        "filter (\<lambda>x. fst x \<noteq> i \<and> P x) (inorder b) = filter P (inorder b)" for P
        using s(5,6) by (auto intro!: filter_cong)
      show ?thesis
        using 2(2) [OF s(1) True del(1) ks] True s(1) unfolding del(2) s(3) [symmetric]
        by (simp add: ab split: prod.splits del: splaytree_splay.simps)
    next
      case False
      then have "fst x \<noteq> i" if "x \<in> set (inorder t)" for x
        using that s(5,6) unfolding s(3) [symmetric] by auto
      then have "filter (\<lambda>x. fst x = i \<or> P x) (inorder t) = filter P (inorder t)"
        "filter (\<lambda>x. fst x \<noteq> i \<and> P x) (inorder t) = filter P (inorder t)" for P
        by (auto intro!: filter_cong)
      then show ?thesis
        using 2(3) [OF s(1) False s(2) ks] False s(1) unfolding L
        by (simp split: prod.splits del: splaytree_splay.simps)
    qed
  qed
qed simp

lemma stat_cache_free_ok:
  "search_tree t \<Longrightarrow> \<exists>fr'. stat_cache_free t fr = Some fr' \<and> mset fr' = mset fr + image_mset snd (mset (inorder t))"
proof (induction "length (inorder t)" arbitrary: t fr)
  case 0
  then show ?case by (cases t) (simp_all add: stat_cache_free.simps)
next
  case (Suc m)
  obtain a k n d b where t: "t = Tree a k n d b" using Suc.hyps(2) by (cases t) auto
  have k: "key_ok k" by (rule search_tree_sub(3) [OF Suc.prems [unfolded t]])
  have ne: "\<forall>x \<in> set (inorder a). fst x \<noteq> k" "\<forall>x \<in> set (inorder b). fst x \<noteq> k"
    using Suc.prems by (auto simp: t search_tree_def sorted_wrt_append)
  have L: "inorder (splaytree_delete t k) = inorder a @ inorder b"
    unfolding delete_ok(2) [OF Suc.prems k] unfolding t using ne by (simp add: filter_True)
  note T = delete_ok(1) [OF Suc.prems k]
  have sz: "n - 1 = node_size (splaytree_delete t k)"
    using T Suc.prems L by (simp add: t search_tree_def node_size_sized)
  have "m = length (inorder (splaytree_delete t k))" using Suc.hyps(2) L by (simp add: t)
  from Suc.hyps(1) [OF this T, of "fr @ [d]"] show ?case
    using sz L unfolding t by (subst stat_cache_free.simps) (auto simp: Let_def)
qed

section \<open>Properties\<close>

text \<open>The cleanup of the cache of file information removes exactly the entries that were not refreshed
  in the last 2 seconds, and releases exactly those, each once; the others stay in order and the
  tree stays a search tree. The array of collected keys never overflows: it has as many places as
  the tree has nodes.\<close>
theorem cleanup_removes_old:
  assumes "search_tree files"
  shows "\<exists>files' fr. stat_cache_trigger_cleanup now files = Some (files', fr) \<and> search_tree files'
    \<and> inorder files' = filter (\<lambda>x. now - stat_ts (snd x) \<le> 2) (inorder files)
    \<and> mset fr = image_mset snd (mset (filter (\<lambda>x. now - stat_ts (snd x) > 2) (inorder files)))"
proof (cases "files = NUL")
  case False
  let ?ks = "stat_cache_tag_old_entries now files []"
  have D: "distinct (keys files)" by (rule search_tree_distinct [OF assms])
  have old: "fst x \<in> set ?ks \<longleftrightarrow> now - stat_ts (snd x) > 2" if "x \<in> set (inorder files)" for x
  proof -
    obtain k d where x: "x = (k, d)" by (cases x)
    have kd: "(k, d) \<in> set (inorder files)" using that by (simp add: x)
    have "(\<exists>d'. (k, d') \<in> set (inorder files) \<and> now - stat_ts d' > 2) \<longleftrightarrow> now - stat_ts d > 2"
      using kd eq_key_imp_eq_value [OF D kd] by blast
    then show ?thesis by (simp add: x tag_old)
  qed
  have "\<forall>k \<in> set ?ks. key_ok k" using assms unfolding tag_old search_tree_def by auto
  note ok = cleanup_loop_ok [OF assms this, of "[]"]
  obtain files' fr where c: "cleanup_loop ?ks files [] = (files', fr)" by (cases "cleanup_loop ?ks files []")
  have "filter (\<lambda>x. fst x \<notin> set ?ks) (inorder files) = filter (\<lambda>x. now - stat_ts (snd x) \<le> 2) (inorder files)"
    "filter (\<lambda>x. fst x \<in> set ?ks) (inorder files) = filter (\<lambda>x. now - stat_ts (snd x) > 2) (inorder files)"
    using old by (auto intro!: filter_cong)
  moreover have "int (length ?ks) \<le> node_size files"
    using assms by (simp add: tag_old_length search_tree_def node_size_sized)
  ultimately show ?thesis
    using ok False unfolding c stat_cache_trigger_cleanup_def Let_def by simp
qed (simp add: stat_cache_trigger_cleanup_def search_tree_def)

definition sample_cache :: "stat_cache_entry splay_tree" where
  "sample_cache = Tree (Tree NUL 3 1 \<lparr>sce_name = [47], stat_ts = 100\<rparr> NUL) 5 3 \<lparr>sce_name = [47, 97], stat_ts = 110\<rparr>
     (Tree NUL 9 1 \<lparr>sce_name = [47, 98], stat_ts = 111\<rparr> NUL)"

lemma sample_cache_ok: "search_tree sample_cache"
  by (simp add: sample_cache_def search_tree_def key_ok_def)

theorem cleanup_removes_old_witness:
  "\<exists>files' fr. stat_cache_trigger_cleanup 112 sample_cache = Some (files', fr) \<and> keys files' = [5, 9]
     \<and> fr = [\<lparr>sce_name = [47], stat_ts = 100\<rparr>]"
proof -
  obtain files' fr where r: "stat_cache_trigger_cleanup 112 sample_cache = Some (files', fr)"
    "inorder files' = filter (\<lambda>x. 112 - stat_ts (snd x) \<le> 2) (inorder sample_cache)"
    "mset fr = image_mset snd (mset (filter (\<lambda>x. 112 - stat_ts (snd x) > 2) (inorder sample_cache)))"
    using cleanup_removes_old [OF sample_cache_ok, of 112] by blast
  have "keys files' = [5, 9]" unfolding r(2) by (simp add: sample_cache_def)
  moreover have "mset fr = {#\<lparr>sce_name = [47], stat_ts = 100\<rparr>#}" unfolding r(3) by (simp add: sample_cache_def)
  ultimately show ?thesis using r(1) by auto
qed

text \<open>Releasing the cache ends: the loop deletes the root until the tree is empty, its assertion that
  every deletion makes the tree smaller by one holds each time, and every entry is released exactly
  once.\<close>
theorem cache_free_ends:
  assumes "search_tree files"
  shows "\<exists>fr. stat_cache_free files [] = Some fr \<and> mset fr = image_mset snd (mset (inorder files))"
  using stat_cache_free_ok [OF assms, of "[]"] by simp

theorem cache_free_ends_witness:
  "\<exists>fr. stat_cache_free sample_cache [] = Some fr \<and> size (mset fr) = 3"
proof -
  obtain fr where fr: "stat_cache_free sample_cache [] = Some fr" "mset fr = image_mset snd (mset (inorder sample_cache))"
    using cache_free_ends [OF sample_cache_ok] by blast
  have "size (mset fr) = 3" unfolding fr(2) by (simp add: sample_cache_def)
  then show ?thesis using fr(1) by blast
qed

end
