(* ===== verification/Byte_Buffers.thy ===== *)
theory Byte_Buffers
  imports Prelude
begin

text \<open>
  buffer.c of lighttpd, first part: the growing byte buffer under every string that the server handles.
  A buffer owns an allocated area; \<open>used\<close> counts the bytes in it, the terminating null byte of a
  string included. The area is a list of bytes of the length of the allocation, so that a read or a
  write outside it is a fault (\<open>None\<close>), like a failed assertion and an abort. Pointers that the code
  tests for null are options. The bytes of a fresh allocation are a parameter (\<open>junk\<close>): the theorems
  hold for all of them. A length is a \<open>size_t\<close> of 64 bits; sums that could wrap are taken modulo
  \<open>2 ^ 64\<close>. The arguments of a call are different objects.
\<close>

section \<open>Memory\<close>

type_synonym byte = "8 word"

definition sz :: "nat \<Rightarrow> nat" where
  "sz n = n mod 2 ^ 64"

definition malloc :: "(nat \<Rightarrow> byte) \<Rightarrow> nat \<Rightarrow> byte list" where
  "malloc junk n = List.map junk [0 ..< n]"

definition realloc :: "(nat \<Rightarrow> byte) \<Rightarrow> byte list \<Rightarrow> nat \<Rightarrow> byte list" where
  "realloc junk p n = take n p @ List.map junk [length p ..< n]"

definition peek :: "byte list \<Rightarrow> nat \<Rightarrow> byte option" where
  "peek p i = (if i < length p then Some (p ! i) else None)"

text \<open>\<open>memcpy(p + i, s, n)\<close> and one assignment \<open>p[i] = c\<close>.\<close>

definition memcpy :: "byte list \<Rightarrow> nat \<Rightarrow> byte list \<Rightarrow> nat \<Rightarrow> byte list option" where
  "memcpy p i s n = (if i + n \<le> length p \<and> n \<le> length s
     then Some (take i p @ take n s @ drop (i + n) p) else None)"

definition poke :: "byte list \<Rightarrow> nat \<Rightarrow> byte \<Rightarrow> byte list option" where
  "poke p i c = (if i < length p then Some (p[i := c]) else None)"

text \<open>\<open>strlen\<close> faults on an area without a null byte.\<close>

definition strlen :: "byte list \<Rightarrow> nat option" where
  "strlen s = (if 0 \<in> set s then Some (length (takeWhile (\<lambda>c. c \<noteq> 0) s)) else None)"

section \<open>Buffers\<close>

record buffer =
  b_ptr :: "byte list option"
  b_used :: nat
  b_size :: nat

definition buffer_init :: buffer where
  "buffer_init = \<lparr>b_ptr = None, b_used = 0, b_size = 0\<rparr>"

definition BUFFER_MAX_REUSE_SIZE :: nat where "BUFFER_MAX_REUSE_SIZE = 4 * 1024"
definition BUFFER_PIECE_SIZE :: nat where "BUFFER_PIECE_SIZE = 64"

definition buffer_reset :: "buffer option \<Rightarrow> buffer option option" where
  "buffer_reset bp = (case bp of None \<Rightarrow> Some None | Some b \<Rightarrow>
     if b_size b > BUFFER_MAX_REUSE_SIZE
     then Some (Some (b\<lparr>b_ptr := None, b_size := 0, b_used := 0\<rparr>))
     else if b_size b \<noteq> 0
     then do {
       p \<leftarrow> b_ptr b;
       p \<leftarrow> poke p 0 0;
       Some (Some (b\<lparr>b_ptr := Some p, b_used := 0\<rparr>))
     }
     else Some (Some (b\<lparr>b_used := 0\<rparr>)))"

text \<open>A size rounded up to the next multiple of the piece size, always by at least one.\<close>

definition piece :: "nat \<Rightarrow> nat" where
  "piece n = sz (n + (BUFFER_PIECE_SIZE - n mod BUFFER_PIECE_SIZE))"

definition grow_copy :: "(nat \<Rightarrow> byte) \<Rightarrow> buffer \<Rightarrow> nat \<Rightarrow> buffer" where
  "grow_copy junk b n =
     (if b_size b = 0 \<or> n > b_size b
      then b\<lparr>b_size := piece n, b_ptr := Some (malloc junk (piece n)), b_used := 0\<rparr>
      else b\<lparr>b_used := 0\<rparr>)"

definition buffer_prepare_copy :: "(nat \<Rightarrow> byte) \<Rightarrow> buffer option \<Rightarrow> nat \<Rightarrow> int \<times> buffer option" where
  "buffer_prepare_copy junk bp n = (case bp of None \<Rightarrow> (- 1, None) | Some b \<Rightarrow> (0, Some (grow_copy junk b n)))"

definition grow_append :: "(nat \<Rightarrow> byte) \<Rightarrow> buffer \<Rightarrow> nat \<Rightarrow> buffer option" where
  "grow_append junk b n =
     (if b_size b = 0
      then Some (b\<lparr>b_size := piece n, b_ptr := Some (malloc junk (piece n)), b_used := 0\<rparr>)
      else if sz (b_used b + n) > b_size b
      then do {
        p \<leftarrow> b_ptr b;
        let m = piece (sz (b_size b + n));
        Some (b\<lparr>b_size := m, b_ptr := Some (realloc junk p m)\<rparr>)
      }
      else Some b)"

definition buffer_prepare_append ::
    "(nat \<Rightarrow> byte) \<Rightarrow> buffer option \<Rightarrow> nat \<Rightarrow> (int \<times> buffer option) option" where
  "buffer_prepare_append junk bp n = (case bp of None \<Rightarrow> Some (- 1, None)
     | Some b \<Rightarrow> do { b' \<leftarrow> grow_append junk b n; Some (0, Some b') })"

text \<open>The test for null arguments with which most operations begin.\<close>

definition with_args ::
    "buffer option \<Rightarrow> byte list option \<Rightarrow> (buffer \<Rightarrow> byte list \<Rightarrow> buffer option) \<Rightarrow> (int \<times> buffer option) option" where
  "with_args bp sp f = (case (bp, sp) of
     (Some b, Some s) \<Rightarrow> do { b' \<leftarrow> f b s; Some (0, Some b') }
   | _ \<Rightarrow> Some (- 1, bp))"

definition buffer_copy_string :: "(nat \<Rightarrow> byte) \<Rightarrow> buffer option \<Rightarrow> byte list option \<Rightarrow> (int \<times> buffer option) option" where
  "buffer_copy_string junk bp sp = with_args bp sp (\<lambda>b s. do {
     l \<leftarrow> strlen s;
     let s_len = l + 1;
     let b = grow_copy junk b s_len;
     p \<leftarrow> b_ptr b;
     p \<leftarrow> memcpy p 0 s s_len;
     Some (b\<lparr>b_ptr := Some p, b_used := s_len\<rparr>)
   })"

definition buffer_copy_string_len ::
    "(nat \<Rightarrow> byte) \<Rightarrow> buffer option \<Rightarrow> byte list option \<Rightarrow> nat \<Rightarrow> (int \<times> buffer option) option" where
  "buffer_copy_string_len junk bp sp s_len = with_args bp sp (\<lambda>b s. do {
     let b = grow_copy junk b (sz (s_len + 1));
     p \<leftarrow> b_ptr b;
     p \<leftarrow> memcpy p 0 s s_len;
     p \<leftarrow> poke p s_len 0;
     Some (b\<lparr>b_ptr := Some p, b_used := sz (s_len + 1)\<rparr>)
   })"

definition buffer_copy_string_buffer ::
    "(nat \<Rightarrow> byte) \<Rightarrow> buffer option \<Rightarrow> buffer option \<Rightarrow> (int \<times> buffer option) option" where
  "buffer_copy_string_buffer junk bp srcp = (case srcp of
     None \<Rightarrow> Some (- 1, bp)
   | Some src \<Rightarrow>
       if b_used src = 0
       then do { b \<leftarrow> bp; Some (0, Some (b\<lparr>b_used := 0\<rparr>)) }
       else buffer_copy_string_len junk bp (b_ptr src) (b_used src - 1))"

definition buffer_append_string :: "(nat \<Rightarrow> byte) \<Rightarrow> buffer option \<Rightarrow> byte list option \<Rightarrow> (int \<times> buffer option) option" where
  "buffer_append_string junk bp sp = with_args bp sp (\<lambda>b s. do {
     s_len \<leftarrow> strlen s;
     b \<leftarrow> grow_append junk b (s_len + 1);
     let u = (if b_used b = 0 then 1 else b_used b);
     p \<leftarrow> b_ptr b;
     p \<leftarrow> memcpy p (u - 1) s (s_len + 1);
     Some (b\<lparr>b_ptr := Some p, b_used := u + s_len\<rparr>)
   })"

definition buffer_append_string_rfill ::
    "(nat \<Rightarrow> byte) \<Rightarrow> buffer option \<Rightarrow> byte list option \<Rightarrow> nat \<Rightarrow> (int \<times> buffer option) option" where
  "buffer_append_string_rfill junk bp sp maxlen = with_args bp sp (\<lambda>b s. do {
     s_len \<leftarrow> strlen s;
     b \<leftarrow> grow_append junk b (sz (maxlen + 1));
     let u = (if b_used b = 0 then 1 else b_used b);
     p \<leftarrow> b_ptr b;
     p \<leftarrow> memcpy p (u - 1) s s_len;
     p \<leftarrow> (if maxlen > s_len then memcpy p (u - 1 + s_len) (replicate (maxlen - s_len) 32) (maxlen - s_len)
           else Some p);
     p \<leftarrow> poke p (u + maxlen - 1) 0;
     Some (b\<lparr>b_ptr := Some p, b_used := u + maxlen\<rparr>)
   })"

definition buffer_append_string_len ::
    "(nat \<Rightarrow> byte) \<Rightarrow> buffer option \<Rightarrow> byte list option \<Rightarrow> nat \<Rightarrow> (int \<times> buffer option) option" where
  "buffer_append_string_len junk bp sp s_len = with_args bp sp (\<lambda>b s.
     if s_len = 0 then Some b
     else do {
       b \<leftarrow> grow_append junk b (sz (s_len + 1));
       let u = (if b_used b = 0 then 1 else b_used b);
       p \<leftarrow> b_ptr b;
       p \<leftarrow> memcpy p (u - 1) s s_len;
       p \<leftarrow> poke p (u + s_len - 1) 0;
       Some (b\<lparr>b_ptr := Some p, b_used := u + s_len\<rparr>)
     })"

definition buffer_append_string_buffer ::
    "(nat \<Rightarrow> byte) \<Rightarrow> buffer option \<Rightarrow> buffer option \<Rightarrow> (int \<times> buffer option) option" where
  "buffer_append_string_buffer junk bp srcp = (case srcp of
     None \<Rightarrow> Some (- 1, bp)
   | Some src \<Rightarrow>
       if b_used src = 0 then Some (0, bp)
       else buffer_append_string_len junk bp (b_ptr src) (b_used src - 1))"

definition buffer_append_memory ::
    "(nat \<Rightarrow> byte) \<Rightarrow> buffer option \<Rightarrow> byte list option \<Rightarrow> nat \<Rightarrow> (int \<times> buffer option) option" where
  "buffer_append_memory junk bp sp s_len = with_args bp sp (\<lambda>b s.
     if s_len = 0 then Some b
     else do {
       b \<leftarrow> grow_append junk b s_len;
       p \<leftarrow> b_ptr b;
       p \<leftarrow> memcpy p (b_used b) s s_len;
       Some (b\<lparr>b_ptr := Some p, b_used := b_used b + s_len\<rparr>)
     })"

definition buffer_copy_memory ::
    "(nat \<Rightarrow> byte) \<Rightarrow> buffer option \<Rightarrow> byte list option \<Rightarrow> nat \<Rightarrow> (int \<times> buffer option) option" where
  "buffer_copy_memory junk bp sp s_len = (case (bp, sp) of
     (Some b, Some s) \<Rightarrow> buffer_append_memory junk (Some (b\<lparr>b_used := 0\<rparr>)) sp s_len
   | _ \<Rightarrow> Some (- 1, bp))"

definition buffer_init_buffer :: "(nat \<Rightarrow> byte) \<Rightarrow> buffer option \<Rightarrow> buffer option" where
  "buffer_init_buffer junk src = do {
     (r, b) \<leftarrow> buffer_copy_string_buffer junk (Some buffer_init) src;
     b
   }"

definition buffer_init_string :: "(nat \<Rightarrow> byte) \<Rightarrow> byte list option \<Rightarrow> buffer option" where
  "buffer_init_string junk str = do {
     (r, b) \<leftarrow> buffer_copy_string junk (Some buffer_init) str;
     b
   }"

definition buffer_is_empty :: "buffer option \<Rightarrow> bool" where
  "buffer_is_empty bp = (case bp of None \<Rightarrow> True | Some b \<Rightarrow> b_used b = 0)"

section \<open>The contract\<close>

text \<open>
  The area has the recorded size, the used bytes are inside it. The abstract value of a buffer is the
  list of its used bytes; of a buffer that holds a string, the bytes before the terminator.
\<close>

definition buffer_ok :: "buffer \<Rightarrow> bool" where
  "buffer_ok b \<longleftrightarrow> (case b_ptr b of None \<Rightarrow> b_size b = 0 \<and> b_used b = 0
     | Some p \<Rightarrow> b_size b \<noteq> 0 \<and> length p = b_size b \<and> b_used b \<le> b_size b)"

definition area :: "buffer \<Rightarrow> byte list" where
  "area b = (case b_ptr b of None \<Rightarrow> [] | Some p \<Rightarrow> p)"

definition content :: "buffer \<Rightarrow> byte list" where
  "content b = take (b_used b) (area b)"

definition text_of :: "buffer \<Rightarrow> byte list" where
  "text_of b = butlast (content b)"

definition string_ok :: "buffer \<Rightarrow> bool" where
  "string_ok b \<longleftrightarrow> buffer_ok b \<and> (b_used b \<noteq> 0 \<longrightarrow> last (content b) = 0)"

lemma length_malloc [simp]: "length (malloc junk n) = n"
  by (simp add: malloc_def)

lemma length_realloc [simp]: "length (realloc junk p n) = n"
  by (simp add: realloc_def)

lemma take_realloc [simp]: "k \<le> length p \<Longrightarrow> k \<le> n \<Longrightarrow> take k (realloc junk p n) = take k p"
  by (simp add: realloc_def min_def)

lemma sz_id [simp]: "n < 2 ^ 64 \<Longrightarrow> sz n = n"
  by (simp add: sz_def)

lemma piece_bounds: "n + 64 < 2 ^ 64 \<Longrightarrow> n < piece n \<and> piece n \<le> n + 64"
  by (simp add: piece_def BUFFER_PIECE_SIZE_def sz_def)

lemma memcpy_Some [simp]:
  "memcpy p i s n = Some q \<longleftrightarrow> i + n \<le> length p \<and> n \<le> length s \<and> q = take i p @ take n s @ drop (i + n) p"
  by (auto simp: memcpy_def)

lemma poke_Some [simp]: "poke p i c = Some q \<longleftrightarrow> i < length p \<and> q = p[i := c]"
  by (auto simp: poke_def)

lemma peek_Some [simp]: "peek p i = Some c \<longleftrightarrow> i < length p \<and> c = p ! i"
  by (auto simp: peek_def)

lemma memcpy_in: "i + n \<le> length p \<Longrightarrow> n \<le> length s \<Longrightarrow> memcpy p i s n = Some (take i p @ take n s @ drop (i + n) p)"
  by simp

lemma peek_in: "i < length p \<Longrightarrow> peek p i = Some (p ! i)"
  by simp

lemma poke_in: "i < length p \<Longrightarrow> poke p i c = Some (p[i := c])"
  by simp

lemma length_content: "buffer_ok b \<Longrightarrow> length (content b) = b_used b"
  by (auto simp: buffer_ok_def content_def area_def split: option.splits)

lemma length_area: "buffer_ok b \<Longrightarrow> length (area b) = b_size b \<and> b_used b \<le> b_size b"
  by (auto simp: buffer_ok_def area_def split: option.splits)

lemma buffer_okI:
  "b_ptr b = Some p \<Longrightarrow> length p = b_size b \<Longrightarrow> b_size b \<noteq> 0 \<Longrightarrow> b_used b \<le> b_size b \<Longrightarrow> buffer_ok b"
  by (simp add: buffer_ok_def)

lemma grow_copy_ok:
  assumes "buffer_ok b" "n + 64 < 2 ^ 64"
  obtains p where "b_ptr (grow_copy junk b n) = Some p" "length p = b_size (grow_copy junk b n)"
    "n \<le> length p" "0 < length p" "b_used (grow_copy junk b n) = 0"
proof (cases "b_size b = 0 \<or> n > b_size b")
  case True
  then show thesis
    using piece_bounds [of n] assms that [of "malloc junk (piece n)"] by (simp add: grow_copy_def)
next
  case False
  then obtain p where "b_ptr b = Some p" "length p = b_size b"
    using assms by (auto simp: buffer_ok_def split: option.splits)
  then show thesis using False that [of p] by (simp add: grow_copy_def)
qed

lemma grow_append_ok:
  assumes ok: "buffer_ok b" and room: "b_size b + n + 64 < 2 ^ 64"
  obtains b' p where "grow_append junk b n = Some b'" "b_ptr b' = Some p" "length p = b_size b'" "0 < length p"
    "b_used b' = b_used b" "b_used b + n \<le> length p" "take (b_used b) p = content b"
proof (cases "b_ptr b")
  case None
  with ok have "b_size b = 0" "b_used b = 0" by (simp_all add: buffer_ok_def)
  with None show thesis
    using that piece_bounds [of n] room by (force simp: grow_append_def content_def)
next
  case (Some p)
  with ok have p: "b_size b \<noteq> 0" "length p = b_size b" "b_used b \<le> b_size b" by (simp_all add: buffer_ok_def)
  have c: "content b = take (b_used b) p" using Some by (simp add: content_def area_def)
  show thesis
  proof (cases "b_used b + n > b_size b")
    case True
    let ?m = "piece (b_size b + n)"
    have m: "b_size b + n < ?m" using piece_bounds room by (simp add: ac_simps)
    have "grow_append junk b n = Some (b\<lparr>b_size := ?m, b_ptr := Some (realloc junk p ?m)\<rparr>)"
      using True p room Some by (simp add: grow_append_def Let_def)
    from that [OF this, of "realloc junk p ?m"] show thesis using m p c by simp
  next
    case False
    then have "grow_append junk b n = Some b" using p room by (simp add: grow_append_def)
    from that [OF this, of p] show thesis using False p c Some by simp
  qed
qed

text \<open>The text that a call leaves, from the bytes in front of the new terminator.\<close>

lemma text_from_area:
  "b_ptr b = Some p \<Longrightarrow> b_used b = Suc (length t) \<Longrightarrow> length p = b_size b \<Longrightarrow> Suc (length t) \<le> length p
   \<Longrightarrow> take (length t) p = t \<Longrightarrow> p ! length t = 0 \<Longrightarrow> string_ok b \<and> text_of b = t"
  by (auto simp: string_ok_def text_of_def content_def area_def buffer_ok_def take_Suc_conv_app_nth)

lemma content_text:
  assumes "string_ok b" and "b_used b \<noteq> 0"
  shows "content b = text_of b @ [0]"
proof -
  have "content b \<noteq> []" "last (content b) = 0" using assms length_content [of b] by (auto simp: string_ok_def)
  then show ?thesis using append_butlast_last_id [of "content b"] by (simp add: text_of_def)
qed

lemma length_text: "buffer_ok b \<Longrightarrow> length (text_of b) = b_used b - 1"
  by (simp add: text_of_def length_content)

lemma take_content: "buffer_ok b \<Longrightarrow> k \<le> b_used b \<Longrightarrow> take k (content b) = take k (area b)"
  by (simp add: content_def min_def)

lemma string_area:
  assumes "string_ok b" "b_used b \<noteq> 0"
  obtains p rest where "b_ptr b = Some p" "p = text_of b @ 0 # rest" "content b = text_of b @ [0]"
    "b_used b = length (text_of b) + 1"
proof -
  have ok: "buffer_ok b" using assms(1) by (simp add: string_ok_def)
  then obtain p where p: "b_ptr b = Some p" using assms(2) by (auto simp: buffer_ok_def split: option.splits)
  have c: "content b = text_of b @ [0]" by (rule content_text [OF assms])
  have "p = content b @ drop (b_used b) p" using p by (simp add: content_def area_def)
  then have "p = text_of b @ 0 # drop (b_used b) p" using c by simp
  from that [OF p this c] show thesis using assms(2) by (simp add: length_text [OF ok])
qed

lemma text_nonempty_used: "buffer_ok b \<Longrightarrow> text_of b \<noteq> [] \<Longrightarrow> b_used b \<noteq> 0"
  using length_text [of b] by (cases "b_used b = 0") auto

text \<open>The smallest buffer that holds a given string.\<close>

definition as_buffer :: "byte list \<Rightarrow> buffer" where
  "as_buffer t = \<lparr>b_ptr = Some (t @ [0]), b_used = length t + 1, b_size = length t + 1\<rparr>"

lemma as_buffer [simp]:
  "string_ok (as_buffer t)" "buffer_ok (as_buffer t)" "text_of (as_buffer t) = t" "b_size (as_buffer t) = length t + 1"
  "b_used (as_buffer t) = length t + 1" "b_ptr (as_buffer t) = Some (t @ [0])"
  by (simp_all add: as_buffer_def string_ok_def buffer_ok_def text_of_def content_def area_def)

section \<open>Every operation on strings\<close>

text \<open>
  The common step: the area after the buffer has grown, with the old text in front of at least \<open>n\<close>
  bytes of room.
\<close>

lemma used_text: "buffer_ok b \<Longrightarrow> (if b_used b = 0 then 1 else b_used b) = Suc (length (text_of b))"
  by (simp add: length_text)

lemma grow_text:
  assumes ok: "buffer_ok b" and room: "b_size b + n + 64 < 2 ^ 64" and n: "0 < n"
  obtains b' p where "grow_append junk b n = Some b'" "b_ptr b' = Some p" "length p = b_size b'" "0 < length p"
    "(if b_used b' = 0 then 1 else b_used b') = Suc (length (text_of b))"
    "length (text_of b) + n \<le> length p" "take (length (text_of b)) p = text_of b" "b_size b' \<le> b_size b + n + 64"
proof -
  obtain b' p where g: "grow_append junk b n = Some b'" "b_ptr b' = Some p" "length p = b_size b'" "0 < length p"
    "b_used b' = b_used b" "b_used b + n \<le> length p" "take (b_used b) p = content b"
    using grow_append_ok [OF ok room] by blast
  have t: "take (length (text_of b)) p = text_of b"
    using arg_cong [OF g(7), of "take (b_used b - 1)"] ok
    by (simp add: length_text min_def) (simp add: text_of_def butlast_conv_take length_content)
  have s: "b_size b' \<le> b_size b + n + 64"
    using g(1) piece_bounds [of n] piece_bounds [of "b_size b + n"] room
    by (auto simp: grow_append_def Let_def split: if_splits)
  show thesis
    using that [OF g(1-4) _ _ t s] used_text [OF ok] g ok n by (simp add: length_text)
qed

lemma write_text:
  assumes "b_ptr b = Some p" "length p = b_size b" "take (length t) p = t" "length t + length s < length p"
  shows "string_ok (b\<lparr>b_ptr := Some ((take (length t) p @ s @ drop (length t + length s) p)[length t + length s := 0]),
                     b_used := Suc (length t + length s)\<rparr>)
       \<and> text_of (b\<lparr>b_ptr := Some ((take (length t) p @ s @ drop (length t + length s) p)[length t + length s := 0]),
                     b_used := Suc (length t + length s)\<rparr>) = t @ s"
  using assms
  by (intro text_from_area [where p = "(take (length t) p @ s @ drop (length t + length s) p)[length t + length s := 0]"])
     (auto simp: nth_append)

lemma append_string_len:
  assumes ok: "buffer_ok b" and s: "n \<le> length s" and room: "b_size b + n + 65 < 2 ^ 64"
  shows "\<exists>b'. buffer_append_string_len junk (Some b) (Some s) n = Some (0, Some b')
    \<and> (n = 0 \<longrightarrow> b' = b) \<and> (n \<noteq> 0 \<longrightarrow> string_ok b') \<and> text_of b' = text_of b @ take n s
    \<and> b_size b' \<le> b_size b + n + 65"
proof (cases "n = 0")
  case True
  then show ?thesis by (simp add: buffer_append_string_len_def with_args_def)
next
  case False
  have room': "b_size b + (n + 1) + 64 < 2 ^ 64" using room by simp
  obtain b' p where g: "grow_append junk b (n + 1) = Some b'" "b_ptr b' = Some p" "length p = b_size b'" "0 < length p"
    "(if b_used b' = 0 then 1 else b_used b') = Suc (length (text_of b))"
    "length (text_of b) + (n + 1) \<le> length p" "take (length (text_of b)) p = text_of b"
    "b_size b' \<le> b_size b + (n + 1) + 64"
    using grow_text [OF ok room'] by auto
  have l: "length (take n s) = n" using s by simp
  show ?thesis
    using g False s room write_text [OF g(2,3,7), of "take n s", unfolded l]
    by (simp add: buffer_append_string_len_def with_args_def Let_def nth_append)
qed

lemma append_string:
  assumes ok: "buffer_ok b" and s: "0 \<notin> set s" and room: "b_size b + length s + 65 < 2 ^ 64"
  shows "\<exists>b'. buffer_append_string junk (Some b) (Some (s @ 0 # rest)) = Some (0, Some b')
    \<and> string_ok b' \<and> text_of b' = text_of b @ s \<and> b_size b' \<le> b_size b + length s + 65"
proof -
  let ?n = "length s"
  have room': "b_size b + (?n + 1) + 64 < 2 ^ 64" using room by simp
  obtain b' p where g: "grow_append junk b (?n + 1) = Some b'" "b_ptr b' = Some p" "length p = b_size b'" "0 < length p"
    "(if b_used b' = 0 then 1 else b_used b') = Suc (length (text_of b))"
    "length (text_of b) + (?n + 1) \<le> length p" "take (length (text_of b)) p = text_of b"
    "b_size b' \<le> b_size b + (?n + 1) + 64"
    using grow_text [OF ok room'] by auto
  have l: "strlen (s @ 0 # rest) = Some ?n"
    using s by (auto simp: strlen_def takeWhile_append)
  have eq: "text_of b @ s @ 0 # drop (Suc (length (text_of b) + ?n)) p
      = (text_of b @ s @ drop (length (text_of b) + ?n) p)[length (text_of b) + ?n := 0]"
    using g(6) by (simp add: list_update_append Cons_nth_drop_Suc [symmetric])
  show ?thesis
    using g l write_text [OF g(2,3,7), of s]
    by (simp add: buffer_append_string_def with_args_def Let_def eq)
qed

lemma copy_string_len:
  assumes ok: "buffer_ok b" and s: "n \<le> length s" and room: "n + 65 < 2 ^ 64"
  shows "\<exists>b'. buffer_copy_string_len junk (Some b) (Some s) n = Some (0, Some b')
    \<and> string_ok b' \<and> text_of b' = take n s \<and> b_used b' = n + 1 \<and> b_size b' \<le> b_size b + n + 65"
proof -
  have room': "n + 1 + 64 < 2 ^ 64" using room by simp
  obtain p where g: "b_ptr (grow_copy junk b (n + 1)) = Some p" "length p = b_size (grow_copy junk b (n + 1))"
    "n + 1 \<le> length p" "0 < length p"
    using grow_copy_ok [OF ok room'] by blast
  have z: "b_size (grow_copy junk b (n + 1)) \<le> b_size b + n + 65"
    using piece_bounds [of "n + 1"] room' by (simp add: grow_copy_def)
  have l: "length (take n s) = n" using s by simp
  show ?thesis
    using g z s room write_text [OF g(1,2), of "[]" "take n s", unfolded l]
    by (simp add: buffer_copy_string_len_def with_args_def Let_def)
qed

lemma copy_string:
  assumes "buffer_ok b" and "0 \<notin> set s" and "length s + 65 < 2 ^ 64"
  shows "buffer_copy_string junk (Some b) (Some (s @ 0 # rest))
       = buffer_copy_string_len junk (Some b) (Some (s @ 0 # rest)) (length s)"
proof -
  have l: "strlen (s @ 0 # rest) = Some (length s)"
    using assms by (auto simp: strlen_def takeWhile_append)
  have room': "length s + 1 + 64 < 2 ^ 64" using assms by simp
  obtain p where g: "b_ptr (grow_copy junk b (length s + 1)) = Some p"
    "length s + 1 \<le> length p"
    using grow_copy_ok [OF assms(1) room'] by blast
  have "s @ 0 # drop (Suc (length s)) p = (s @ drop (length s) p)[length s := 0]"
    using g(2) by (simp add: list_update_append Cons_nth_drop_Suc [symmetric])
  then show ?thesis
    using g assms(3) l by (simp add: buffer_copy_string_def buffer_copy_string_len_def with_args_def Let_def memcpy_in poke_in)
qed

lemma append_memory:
  assumes ok: "buffer_ok b" and s: "n \<le> length s" and room: "b_size b + n + 64 < 2 ^ 64"
  shows "\<exists>b'. buffer_append_memory junk (Some b) (Some s) n = Some (0, Some b')
    \<and> buffer_ok b' \<and> content b' = content b @ take n s"
proof (cases "n = 0")
  case True
  then show ?thesis using ok by (simp add: buffer_append_memory_def with_args_def)
next
  case False
  obtain b' p where g: "grow_append junk b n = Some b'" "b_ptr b' = Some p" "length p = b_size b'" "0 < length p"
    "b_used b' = b_used b" "b_used b + n \<le> length p" "take (b_used b) p = content b"
    using grow_append_ok [OF ok room] by blast
  let ?q = "content b @ take n s @ drop (b_used b + n) p"
  let ?b = "b'\<lparr>b_ptr := Some ?q, b_used := b_used b + n\<rparr>"
  have q: "length ?q = length p" using s g(6) length_content [OF ok] by simp
  have "buffer_append_memory junk (Some b) (Some s) n = Some (0, Some ?b)"
    using g False s by (simp add: buffer_append_memory_def with_args_def)
  moreover have "buffer_ok ?b" by (rule buffer_okI [of _ ?q]) (use q g in simp_all)
  moreover have "content ?b = content b @ take n s"
    using s length_content [OF ok] by (simp add: content_def [of ?b] area_def)
  ultimately show ?thesis by blast
qed

lemma reset:
  assumes "buffer_ok b"
  shows "\<exists>b'. buffer_reset (Some b) = Some (Some b') \<and> string_ok b' \<and> text_of b' = [] \<and> b_size b' \<le> b_size b"
  using assms
  by (auto simp: buffer_reset_def buffer_ok_def string_ok_def text_of_def content_def split: option.splits)

section \<open>Sequences of calls\<close>

text \<open>The buffer that a call leaves; the code ignores the results of these calls.\<close>

definition after :: "(int \<times> buffer option) option \<Rightarrow> buffer option" where
  "after r = do { (_, b) \<leftarrow> r; b }"

text \<open>\<open>BUFFER_APPEND_SLASH\<close>; the string that it appends is a constant.\<close>

definition append_slash :: "(nat \<Rightarrow> byte) \<Rightarrow> buffer \<Rightarrow> buffer option" where
  "append_slash junk b =
     (if b_used b > 1 then do {
        p \<leftarrow> b_ptr b;
        c \<leftarrow> peek p (b_used b - 2);
        if c \<noteq> 47 then after (buffer_append_string_len junk (Some b) (Some [47, 0]) 1) else Some b
      } else Some b)"

text \<open>A buffer with a string, small enough for the sums of sizes.\<close>

definition small :: "nat \<Rightarrow> buffer \<Rightarrow> bool" where
  "small k b \<longleftrightarrow> string_ok b \<and> b_size b < 2 ^ k"

lemma smallD: "small k b \<Longrightarrow> string_ok b \<and> buffer_ok b \<and> b_size b < 2 ^ k"
  by (simp add: small_def string_ok_def)

lemma small_as_buffer [simp]: "small k (as_buffer t) \<longleftrightarrow> length t + 1 < 2 ^ k"
  by (simp add: small_def)

lemma small_init [simp]: "small k buffer_init"
  by (simp add: small_def buffer_init_def string_ok_def buffer_ok_def)

lemma after_Some [simp]: "after (Some (r, b)) = b"
  by (simp add: after_def)

lemma copy_buffer:
  assumes ok: "buffer_ok b" and src: "string_ok src" and room: "b_size src + 66 < 2 ^ 64"
  obtains b' where "buffer_copy_string_buffer junk (Some b) (Some src) = Some (0, Some b')" "string_ok b'"
    "text_of b' = text_of src" "b_used b' = b_used src" "b_size b' \<le> b_size b + b_size src + 65"
proof (cases "b_used src = 0")
  case True
  have "string_ok (b\<lparr>b_used := 0\<rparr>)" using ok by (auto simp: string_ok_def buffer_ok_def split: option.splits)
  then show thesis using that [of "b\<lparr>b_used := 0\<rparr>"] True
    by (simp add: buffer_copy_string_buffer_def text_of_def content_def)
next
  case False
  obtain p rest where p: "b_ptr src = Some p" "p = text_of src @ 0 # rest" "b_used src = length (text_of src) + 1"
    using string_area [OF src False] by metis
  have l: "length p = b_size src" using src p(1) by (simp add: string_ok_def buffer_ok_def)
  have n: "length (text_of src) \<le> length p" "length (text_of src) + 65 < 2 ^ 64" using p(2) l room by auto
  from copy_string_len [OF ok n, of junk] obtain b' where
    "buffer_copy_string_len junk (Some b) (Some p) (length (text_of src)) = Some (0, Some b')" "string_ok b'"
    "text_of b' = take (length (text_of src)) p" "b_used b' = length (text_of src) + 1"
    "b_size b' \<le> b_size b + length (text_of src) + 65" by blast
  then show thesis using that [of b'] False p n(1) l by (simp add: buffer_copy_string_buffer_def)
qed

lemma after_copy:
  assumes "small k b" and "small j src" and "j \<le> 63"
  obtains b' where "after (buffer_copy_string_buffer junk (Some b) (Some src)) = Some b'" "string_ok b'"
    "text_of b' = text_of src" "b_used b' = b_used src" "b_size b' \<le> b_size b + b_size src + 65"
proof -
  have "(2 :: nat) ^ j \<le> 2 ^ 63" using assms(3) by (intro power_increasing) simp_all
  then have "b_size src + 66 < 2 ^ 64" using smallD [OF assms(2)] by simp
  from copy_buffer [OF _ _ this, of b junk] show thesis using that smallD [OF assms(1)] smallD [OF assms(2)] by force
qed

lemma sz_minus: "k \<le> n \<Longrightarrow> n < 2 ^ 64 \<Longrightarrow> k \<le> 2 ^ 64 \<Longrightarrow> sz (n + 2 ^ 64 - k) = n - k"
proof -
  assume k: "k \<le> n" and n: "n < 2 ^ 64" and "k \<le> 2 ^ 64"
  have "n + 2 ^ 64 - k = (n - k) + 2 ^ 64" using k by simp
  then have "sz (n + 2 ^ 64 - k) = (n - k) mod 2 ^ 64" unfolding sz_def by (simp only: mod_add_self2)
  then show ?thesis using n by simp
qed

lemma small_text:
  assumes "small k b" and "b_used b \<noteq> 0"
  obtains p rest where "b_ptr b = Some p" "p = text_of b @ 0 # rest" "b_used b = length (text_of b) + 1"
    "length p = b_size b" "length (text_of b) < 2 ^ k"
proof -
  obtain p rest where p: "b_ptr b = Some p" "p = text_of b @ 0 # rest" "b_used b = length (text_of b) + 1"
    using string_area [OF conjunct1 [OF smallD [OF assms(1)]] assms(2)] by metis
  have l: "length p = b_size b" using smallD [OF assms(1)] p(1) by (simp add: buffer_ok_def)
  from that [OF p l] show thesis using p(2) l smallD [OF assms(1)] by (metis add_lessD1 length_append)
qed

definition with_slash :: "byte list \<Rightarrow> byte list" where
  "with_slash t = (if t \<noteq> [] \<and> last t \<noteq> 47 then t @ [47] else t)"

lemma append_slash_spec:
  assumes ok: "string_ok b" and room: "b_size b + 66 < 2 ^ 64"
  obtains b' where "append_slash junk b = Some b'" "string_ok b'" "text_of b' = with_slash (text_of b)"
    "b_size b' \<le> b_size b + 66"
proof (cases "b_used b > 1")
  case False
  then have "text_of b = []" using ok length_text [of b] by (auto simp: string_ok_def)
  then show thesis using that [of b] False ok by (simp add: append_slash_def with_slash_def)
next
  case True
  then have ne: "b_used b \<noteq> 0" by simp
  obtain p rest where p: "b_ptr b = Some p" "p = text_of b @ 0 # rest" "b_used b = length (text_of b) + 1"
    using string_area [OF ok ne] by metis
  have t: "text_of b \<noteq> []" using p(3) True by auto
  then have l: "peek p (b_used b - 2) = Some (last (text_of b))"
    using p(3) by (simp add: peek_def nth_append last_conv_nth p(2))
  have room': "b_size b + 1 + 65 < 2 ^ 64" "1 \<le> length [47, 0 :: byte]" using room by simp_all
  have bok: "buffer_ok b" using ok by (simp add: string_ok_def)
  from append_string_len [OF bok room'(2,1), of junk] obtain b' where b':
    "buffer_append_string_len junk (Some b) (Some [47, 0]) 1 = Some (0, Some b')" "string_ok b'"
    "text_of b' = text_of b @ [47]" "b_size b' \<le> b_size b + 66" by auto
  show thesis
  proof (cases "last (text_of b) = 47")
    case ends: True
    have "append_slash junk b = Some b" using p(1) l True ends by (simp add: append_slash_def del: peek_Some)
    from that [OF this] show thesis using ends ok by (simp add: with_slash_def)
  next
    case ends: False
    have "append_slash junk b = Some b'"
      using p(1) l True ends b'(1) by (simp add: append_slash_def del: peek_Some One_nat_def)
    from that [OF this] show thesis using ends t b' by (simp add: with_slash_def)
  qed
qed

end
