(* ===== verification/Byte_Numbers.thy ===== *)
theory Byte_Numbers
  imports Byte_Buffers
begin

text \<open>
  buffer.c of lighttpd, second part: numbers into buffers, in hexadecimal (\<open>buffer_append_long_hex\<close>)
  and in decimal (\<open>LI_ltostr\<close> and its callers), and the conversion of single hexadecimal digits. The
  loops write byte by byte into the area, as in the code, and the decimal digits, produced from the
  last to the first, are reversed in place. The theorems compare what is written with the
  value read back from the text.
\<close>

section \<open>Hexadecimal digits\<close>

definition hex_chars :: "byte list" where
  "hex_chars = [48, 49, 50, 51, 52, 53, 54, 55, 56, 57, 97, 98, 99, 100, 101, 102]"

definition int2hex :: "byte \<Rightarrow> byte" where
  "int2hex c = hex_chars ! unat (c AND 0x0F)"

definition hex2int :: "byte \<Rightarrow> byte" where
  "hex2int hex = (let hex = hex - 48;
     hex = (if hex > 9 then ((hex + 48 - 1) OR 0x20) - 97 + 11 else hex)
     in if hex > 15 then 0xFF else hex)"

text \<open>A statement on all bytes is checked on each of the 256.\<close>

lemma all_bytes: "list_all (\<lambda>n. P (word_of_int n)) [0 .. 255] \<Longrightarrow> P (c :: byte)"
proof -
  assume all: "list_all (\<lambda>n. P (word_of_int n)) [0 .. 255]"
  have "0 \<le> uint c" "uint c < 256" using uint_range_size [of c] by (simp_all add: word_size)
  then have "uint c \<in> set [0 .. 255]" by simp
  with all have "P (word_of_int (uint c))" unfolding list_all_iff by blast
  then show ?thesis by simp
qed

definition hex_digit :: "byte \<Rightarrow> bool" where
  "hex_digit c \<longleftrightarrow> 48 \<le> c \<and> c \<le> 57 \<or> 65 \<le> c \<and> c \<le> 70 \<or> 97 \<le> c \<and> c \<le> 102"

lemma hex2int_bytes:
  "(hex2int c \<noteq> 0xFF) = hex_digit c \<and> (hex_digit c \<longrightarrow> hex2int c < 16) \<and> hex2int (int2hex c) = c AND 0x0F"
  by (rule all_bytes) code_simp

section \<open>Numbers in hexadecimal\<close>

text \<open>The length of the representation, and the loop that writes the groups of four bits.\<close>

function hex_width :: "64 word \<Rightarrow> nat" where
  "hex_width copy = (if copy \<noteq> 0 then hex_width (drop_bit 4 copy) + 1 else 0)"
  by auto
termination
  by (relation "measure unat")
     (auto simp: drop_bit_eq_div unat_div unat_gt_0)

fun hex_loop :: "64 word \<Rightarrow> nat \<Rightarrow> nat \<Rightarrow> byte list \<Rightarrow> (nat \<times> byte list) option" where
  "hex_loop v shift i p = (if shift > 0
     then do {
       let shift = shift - 4;
       p \<leftarrow> poke p i (hex_chars ! unat (drop_bit shift v AND 0x0F));
       hex_loop v shift (i + 1) p
     }
     else Some (i, p))"

definition buffer_append_long_hex ::
    "(nat \<Rightarrow> byte) \<Rightarrow> buffer option \<Rightarrow> 64 word \<Rightarrow> (int \<times> buffer option) option" where
  "buffer_append_long_hex junk bp v = do {
     let shift = hex_width v;
     let shift = (if shift = 0 then shift + 1 else shift);
     let shift = (if odd shift then shift + 1 else shift);
     (r, bp) \<leftarrow> buffer_prepare_append junk bp (shift + 1);
     b \<leftarrow> bp;
     let u = (if b_used b = 0 then 1 else b_used b);
     p \<leftarrow> b_ptr b;
     (i, p) \<leftarrow> hex_loop v (shift * 4) (u - 1) p;
     p \<leftarrow> poke p i 0;
     Some (0, Some (b\<lparr>b_ptr := Some p, b_used := u + shift\<rparr>))
   }"

section \<open>Numbers in decimal\<close>

fun digits_loop :: "nat \<Rightarrow> nat \<Rightarrow> byte list \<Rightarrow> (nat \<times> nat \<times> byte list) option" where
  "digits_loop v e p = (if v > 9
     then do {
       p \<leftarrow> poke p e (48 + of_nat (v mod 10));
       digits_loop (v div 10) (e + 1) p
     }
     else Some (v, e, p))"

function reverse_loop :: "nat \<Rightarrow> nat \<Rightarrow> byte list \<Rightarrow> byte list option" where
  "reverse_loop i e p = (if i < e
     then do {
       swap \<leftarrow> peek p e;
       c \<leftarrow> peek p i;
       p \<leftarrow> poke p e c;
       p \<leftarrow> poke p i swap;
       reverse_loop (i + 1) (e - 1) p
     }
     else Some p)"
  by auto
termination by (relation "measure (\<lambda>(i, e, p). e - i)") auto

text \<open>
  The value is a \<open>long\<close>. The negation of the least one is not a \<open>long\<close>: it is a fault. The result
  is the number of characters and the area.
\<close>

definition LI_ltostr :: "byte list \<Rightarrow> nat \<Rightarrow> int \<Rightarrow> (nat \<times> byte list) option" where
  "LI_ltostr p buf val = do {
     (len, buf, val, p) \<leftarrow>
       (if val < 0
        then if val = - (2 ^ 63) then None
             else do { p \<leftarrow> poke p buf 45; Some (2, buf + 1, - val, p) }
        else Some (1, buf, val, p));
     (v, e, p) \<leftarrow> digits_loop (nat val) buf p;
     p \<leftarrow> poke p e (48 + of_nat v);
     p \<leftarrow> poke p (e + 1) 0;
     p \<leftarrow> reverse_loop buf e p;
     Some (len + (e - buf), p)
   }"

definition buffer_append_long :: "(nat \<Rightarrow> byte) \<Rightarrow> buffer option \<Rightarrow> int \<Rightarrow> (int \<times> buffer option) option" where
  "buffer_append_long junk bp val = (case bp of None \<Rightarrow> Some (- 1, None) | Some b \<Rightarrow> do {
     (r, bp) \<leftarrow> buffer_prepare_append junk bp 32;
     b \<leftarrow> bp;
     let u = (if b_used b = 0 then 1 else b_used b);
     p \<leftarrow> b_ptr b;
     (len, p) \<leftarrow> LI_ltostr p (u - 1) val;
     Some (0, Some (b\<lparr>b_ptr := Some p, b_used := u + len\<rparr>))
   })"

definition buffer_copy_long :: "(nat \<Rightarrow> byte) \<Rightarrow> buffer option \<Rightarrow> int \<Rightarrow> (int \<times> buffer option) option" where
  "buffer_copy_long junk bp val = (case bp of None \<Rightarrow> Some (- 1, None)
     | Some b \<Rightarrow> buffer_append_long junk (Some (b\<lparr>b_used := 0\<rparr>)) val)"

text \<open>The same for an \<open>off_t\<close>, with the conversion written out inside the function.\<close>

definition buffer_append_off_t :: "(nat \<Rightarrow> byte) \<Rightarrow> buffer option \<Rightarrow> int \<Rightarrow> (int \<times> buffer option) option" where
  "buffer_append_off_t junk bp val = (case bp of None \<Rightarrow> Some (- 1, None) | Some b \<Rightarrow> do {
     (r, bp) \<leftarrow> buffer_prepare_append junk bp 32;
     b \<leftarrow> bp;
     let u = (if b_used b = 0 then 1 else b_used b);
     p \<leftarrow> b_ptr b;
     let start = u - 1;
     (len, start, val, p) \<leftarrow>
       (if val < 0
        then if val = - (2 ^ 63) then None
             else do { p \<leftarrow> poke p start 45; Some (2, start + 1, - val, p) }
        else Some (1, start, val, p));
     (v, e, p) \<leftarrow> digits_loop (nat val) start p;
     p \<leftarrow> poke p e (48 + of_nat v);
     p \<leftarrow> poke p (e + 1) 0;
     p \<leftarrow> reverse_loop start e p;
     Some (0, Some (b\<lparr>b_ptr := Some p, b_used := u + (len + (e - start))\<rparr>))
   })"

definition buffer_copy_off_t :: "(nat \<Rightarrow> byte) \<Rightarrow> buffer option \<Rightarrow> int \<Rightarrow> (int \<times> buffer option) option" where
  "buffer_copy_off_t junk bp val = (case bp of None \<Rightarrow> Some (- 1, None)
     | Some b \<Rightarrow> buffer_append_off_t junk (Some (b\<lparr>b_used := 0\<rparr>)) val)"

declare hex_width.simps [simp del] hex_loop.simps [simp del] digits_loop.simps [simp del] reverse_loop.simps [simp del]

section \<open>What is written in hexadecimal\<close>

definition nibble :: "64 word \<Rightarrow> nat \<Rightarrow> byte" where
  "nibble v k = hex_chars ! unat (drop_bit (4 * k) v AND 0x0F)"

definition hex_text :: "64 word \<Rightarrow> nat \<Rightarrow> byte list" where
  "hex_text v n = List.map (nibble v) (rev [0 ..< n])"

definition read_hex :: "byte list \<Rightarrow> nat" where
  "read_hex t = foldl (\<lambda>a c. 16 * a + unat (hex2int c)) 0 t"

lemma length_hex_text [simp]: "length (hex_text v n) = n"
  by (simp add: hex_text_def)

lemma hex_text_Suc: "hex_text v (Suc n) = nibble v n # hex_text v n"
  by (simp add: hex_text_def)

lemma hex_loop_spec:
  "i + n \<le> length p \<Longrightarrow> hex_loop v (4 * n) i p = Some (i + n, take i p @ hex_text v n @ drop (i + n) p)"
proof (induction n arbitrary: i p)
  case 0
  then show ?case by (simp add: hex_loop.simps hex_text_def)
next
  case (Suc n)
  have "hex_loop v (4 * Suc n) i p = hex_loop v (4 * n) (i + 1) (p[i := nibble v n])"
    using Suc.prems by (subst hex_loop.simps) (simp add: Let_def poke_in nibble_def)
  also have "\<dots> = Some (i + 1 + n, take (i + 1) (p[i := nibble v n]) @ hex_text v n @ drop (i + 1 + n) (p[i := nibble v n]))"
    using Suc.prems by (intro Suc.IH) simp
  finally show ?case
    using Suc.prems by (simp add: hex_text_Suc take_Suc_conv_app_nth)
qed

lemma hex2int_hex_chars: "k < 16 \<Longrightarrow> unat (hex2int (hex_chars ! k)) = k"
proof -
  assume k: "k < 16"
  have "hex2int (int2hex (of_nat k)) = of_nat k AND 0x0F" using hex2int_bytes by blast
  moreover have "unat (of_nat k AND 0x0F :: byte) = k"
  proof -
    have "(of_nat k AND 0x0F :: byte) = take_bit 4 (of_nat k)" by (simp add: take_bit_eq_mask mask_eq_exp_minus_1)
    then show ?thesis using k by (simp add: unsigned_take_bit_eq unsigned_of_nat take_bit_nat_eq_self)
  qed
  ultimately show ?thesis by (simp add: int2hex_def)
qed

lemma unat_shift: "unat (drop_bit n v :: 64 word) = unat v div 2 ^ n"
proof -
  have "unat (drop_bit n v) = drop_bit n (unat v)"
    by (simp only: unsigned_drop_bit_eq) (simp add: take_bit_nat_eq_self unsigned_less [where ?'a = nat, of v, simplified])
  then show ?thesis by (simp add: drop_bit_eq_div)
qed

lemma nibble_value: "unat (hex2int (nibble v k)) = unat v div 16 ^ k mod 16"
proof -
  have "unat (drop_bit (4 * k) v AND 0x0F) = unat v div 16 ^ k mod 16"
  proof -
    have "drop_bit (4 * k) v AND 0x0F = take_bit 4 (drop_bit (4 * k) v)"
      by (simp add: take_bit_eq_mask mask_eq_exp_minus_1)
    then have "unat (drop_bit (4 * k) v AND 0x0F) = unat (drop_bit (4 * k) v) mod 2 ^ 4"
      by (simp only: unsigned_take_bit_eq) (simp add: take_bit_eq_mod)
    then show ?thesis by (simp only: unat_shift) (simp add: power_mult)
  qed
  then show ?thesis by (simp add: nibble_def hex2int_hex_chars)
qed

lemma nibble_digit: "hex_digit (nibble v k)"
proof -
  have "unat (hex2int (nibble v k)) < 16" by (simp add: nibble_value)
  then have "hex2int (nibble v k) \<noteq> 0xFF" by auto
  then show ?thesis using hex2int_bytes by blast
qed

lemma read_hex_text: "read_hex (hex_text v n) = unat v mod 16 ^ n"
proof -
  have "foldl (\<lambda>a c. 16 * a + unat (hex2int c)) a (hex_text v n) = a * 16 ^ n + unat v mod 16 ^ n" for a
  proof (induction n arbitrary: a)
    case 0
    show ?case by (simp add: hex_text_def)
  next
    case (Suc n)
    have "unat v mod 16 ^ Suc n = 16 ^ n * (unat v div 16 ^ n mod 16) + unat v mod 16 ^ n"
      using mod_mult2_eq [of "unat v" "16 ^ n" 16] by (simp add: ac_simps)
    with Suc show ?case by (simp add: hex_text_Suc nibble_value algebra_simps)
  qed
  then show ?thesis by (simp add: read_hex_def)
qed

lemma hex_width_bound: "unat v < 16 ^ hex_width v"
proof (induction v rule: hex_width.induct)
  case (1 v)
  show ?case
  proof (cases "v = 0")
    case False
    then have "unat v div 16 < 16 ^ hex_width (drop_bit 4 v)"
      using 1 unat_shift [of 4 v] by simp
    then show ?thesis using False by (simp add: hex_width.simps [of v])
  qed simp
qed

lemma hex_width_le: "unat v < 16 ^ n \<Longrightarrow> hex_width v \<le> n"
proof (induction v arbitrary: n rule: hex_width.induct)
  case (1 v)
  show ?case
  proof (cases "v = 0")
    case False
    then obtain m where n: "n = Suc m" using 1 by (cases n) (auto simp: unat_eq_zero)
    then have "unat (drop_bit 4 v) < 16 ^ m"
      using 1 unat_shift [of 4 v] by simp
    then have "hex_width (drop_bit 4 v) \<le> m" using 1 False by blast
    then show ?thesis using n False by (simp add: hex_width.simps [of v])
  qed (simp add: hex_width.simps)
qed

text \<open>The number of digits that the function writes: even, at least two.\<close>

definition hex_digits :: "64 word \<Rightarrow> nat" where
  "hex_digits v = (let n = max 1 (hex_width v) in if odd n then n + 1 else n)"

lemma hex_digits_bounds: "hex_width v \<le> hex_digits v \<and> hex_digits v \<le> 16 \<and> even (hex_digits v) \<and> 0 < hex_digits v"
proof -
  have "hex_width v \<le> 16"
    using unsigned_less [of v, where ?'a = nat] by (intro hex_width_le) simp
  moreover have "odd n \<Longrightarrow> n \<le> 16 \<Longrightarrow> n + 1 \<le> 16" for n :: nat by presburger
  ultimately show ?thesis by (auto simp: hex_digits_def Let_def max_def)
qed

lemma append_long_hex:
  assumes ok: "buffer_ok b" and room: "b_size b + 81 < 2 ^ 64"
  shows "\<exists>b'. buffer_append_long_hex junk (Some b) v = Some (0, Some b') \<and> string_ok b'
    \<and> text_of b' = text_of b @ hex_text v (hex_digits v) \<and> b_size b' \<le> b_size b + 81"
proof -
  let ?n = "hex_digits v"
  have n: "?n \<le> 16" "0 < ?n" using hex_digits_bounds [of v] by simp_all
  have room': "b_size b + (?n + 1) + 64 < 2 ^ 64" using room n by simp
  obtain b' p where g: "grow_append junk b (?n + 1) = Some b'" "b_ptr b' = Some p" "length p = b_size b'" "0 < length p"
    "(if b_used b' = 0 then 1 else b_used b') = Suc (length (text_of b))"
    "length (text_of b) + (?n + 1) \<le> length p" "take (length (text_of b)) p = text_of b"
    "b_size b' \<le> b_size b + (?n + 1) + 64"
    using grow_text [OF ok room'] by auto
  have shift: "(let shift = hex_width v; shift = if shift = 0 then shift + 1 else shift
       in if odd shift then shift + 1 else shift) = ?n"
    by (cases "hex_width v") (simp_all add: hex_digits_def)
  have loop: "hex_loop v (?n * 4) (length (text_of b)) p
      = Some (length (text_of b) + ?n, text_of b @ hex_text v ?n @ drop (length (text_of b) + ?n) p)"
    using hex_loop_spec [of "length (text_of b)" ?n p v] g by (simp add: mult.commute)
  have "buffer_append_long_hex junk (Some b) v = (do {
     (r, bp) \<leftarrow> buffer_prepare_append junk (Some b) (?n + 1);
     b \<leftarrow> bp;
     let u = (if b_used b = 0 then 1 else b_used b);
     p \<leftarrow> b_ptr b;
     (i, p) \<leftarrow> hex_loop v (?n * 4) (u - 1) p;
     p \<leftarrow> poke p i 0;
     Some (0, Some (b\<lparr>b_ptr := Some p, b_used := u + ?n\<rparr>))
   })"
    by (simp only: buffer_append_long_hex_def shift [symmetric] Let_def)
  then show ?thesis
    using g n loop write_text [OF g(2,3,7), of "hex_text v ?n"]
    by (simp add: buffer_prepare_append_def Let_def poke_in)
qed

section \<open>What is written in decimal\<close>

fun dec :: "nat \<Rightarrow> byte list" where
  "dec v = (if v > 9 then dec (v div 10) @ [48 + of_nat (v mod 10)] else [48 + of_nat v])"

declare dec.simps [simp del]

definition long_text :: "int \<Rightarrow> byte list" where
  "long_text val = (if val < 0 then 45 # dec (nat (- val)) else dec (nat val))"

definition read_dec :: "byte list \<Rightarrow> nat" where
  "read_dec t = foldl (\<lambda>a c. 10 * a + unat (c - 48)) 0 t"

definition read_long :: "byte list \<Rightarrow> int" where
  "read_long t = (case t of c # r \<Rightarrow> if c = 45 then - int (read_dec r) else int (read_dec t) | [] \<Rightarrow> 0)"

lemma digit_byte: "k < 10 \<Longrightarrow> unat (48 + of_nat k - 48 :: byte) = k"
  by (simp add: unsigned_of_nat take_bit_nat_eq_self)

lemma digit_byte': "k < 10 \<Longrightarrow> unat (of_nat k :: byte) = k"
  by (simp add: unsigned_of_nat take_bit_nat_eq_self)

lemma dec_nonempty [simp]: "dec v \<noteq> []"
  by (simp add: dec.simps)

lemma read_dec: "read_dec (dec v) = v"
proof (induction v rule: dec.induct)
  case (1 v)
  then show ?case
    by (cases "v > 9") (simp_all add: dec.simps [of v] read_dec_def digit_byte')
qed

lemma dec_length: "v < 10 ^ n \<Longrightarrow> 0 < n \<Longrightarrow> length (dec v) \<le> n"
proof (induction v arbitrary: n rule: dec.induct)
  case (1 v)
  show ?case
  proof (cases "v > 9")
    case True
    then obtain m where n: "n = Suc m" "0 < m" using 1 by (cases n; cases "n = 1") auto
    then have "length (dec (v div 10)) \<le> m" using 1 True by simp
    then show ?thesis using n True by (simp add: dec.simps [of v])
  qed (use 1 in \<open>simp add: dec.simps\<close>)
qed

lemma dec_digits: "c \<in> set (dec v) \<Longrightarrow> \<exists>k < 10. c = 48 + of_nat k"
proof (induction v rule: dec.induct)
  case (1 v)
  show ?case
  proof (cases "v > 9")
    case True
    with 1 consider "c \<in> set (dec (v div 10))" | "c = 48 + of_nat (v mod 10)"
      by (auto simp: dec.simps [of v])
    then show ?thesis
    proof cases
      case 2
      have "v mod 10 < 10" by simp
      with 2 show ?thesis by blast
    qed (use 1 True in blast)
  next
    case False
    then have "v < 10" "c = 48 + of_nat v" using 1 by (auto simp: dec.simps [of v])
    then show ?thesis by blast
  qed
qed

lemma read_long: "read_long (long_text val) = val"
proof (cases "val < 0")
  case True
  then show ?thesis by (simp add: long_text_def read_long_def read_dec)
next
  case False
  obtain c r where d: "dec (nat val) = c # r" by (cases "dec (nat val)") auto
  then obtain k where k: "k < 10" "c = 48 + of_nat k" using dec_digits [of c "nat val"] by auto
  have "c \<noteq> 45"
  proof
    assume "c = 45"
    with k(2) have e: "(48 + of_nat k :: byte) = 45" by (rule subst)
    have "unat (48 + of_nat k - 48 :: byte) = unat (45 - 48 :: byte)" by (simp only: e)
    then show False using k(1) by (simp add: digit_byte')
  qed
  then show ?thesis using False read_dec [of "nat val"] by (simp add: long_text_def read_long_def d)
qed

lemma digits_loop_spec:
  "e + length (dec v) \<le> length p \<Longrightarrow>
   do { (v', e', q) \<leftarrow> digits_loop v e p; q \<leftarrow> poke q e' (48 + of_nat v'); Some (e', q) }
   = Some (e + length (dec v) - 1, take e p @ rev (dec v) @ drop (e + length (dec v)) p)"
proof (induction v arbitrary: e p rule: dec.induct)
  case (1 v)
  show ?case
  proof (cases "v > 9")
    case True
    let ?q = "p[e := 48 + of_nat (v mod 10)]"
    have e: "e + 1 + length (dec (v div 10)) \<le> length ?q"
      using 1 True by (simp add: dec.simps [of v])
    have "digits_loop v e p = digits_loop (v div 10) (e + 1) ?q"
      using True e by (subst digits_loop.simps) (simp add: poke_in)
    moreover have "take (e + 1) ?q = take e p @ [48 + of_nat (v mod 10)]"
      using e by (simp add: take_Suc_conv_app_nth)
    ultimately show ?thesis
      using 1(1) [OF True e] True e by (simp add: dec.simps [of v])
  next
    case False
    then show ?thesis
      using 1(2) by (simp add: digits_loop.simps [of v] dec.simps [of v] poke_in upd_conv_take_nth_drop)
  qed
qed

lemma reverse_loop_spec:
  "s \<noteq> [] \<Longrightarrow> reverse_loop (length a) (length a + length s - 1) (a @ s @ c) = Some (a @ rev s @ c)"
proof (induction "length s" arbitrary: a s c rule: less_induct)
  case less
  consider x where "s = [x]" | x y where "s = [x, y]" | x m y where "s = x # m @ [y]" "m \<noteq> []"
    using less.prems by (metis append_Nil append_butlast_last_id neq_Nil_conv)
  then show ?case
  proof cases
    case 1
    then show ?thesis by (simp add: reverse_loop.simps)
  next
    case 2
    then show ?thesis by (simp add: reverse_loop.simps nth_append list_update_append)
  next
    case 3
    have step: "reverse_loop (length a) (length a + length s - 1) (a @ s @ c)
      = reverse_loop (length (a @ [y])) (length (a @ [y]) + length m - 1) ((a @ [y]) @ m @ (x # c))"
      using 3 by (subst reverse_loop.simps) (simp add: nth_append list_update_append poke_in peek_def)
    also have "\<dots> = Some ((a @ [y]) @ rev m @ (x # c))"
      by (rule less.hyps) (use 3 in simp_all)
    finally show ?thesis using 3 by simp
  qed
qed

text \<open>The conversion writes its text, followed by a null byte, over the area.\<close>

lemma positive_part:
  assumes "length t + length (dec v) < length p" and "take (length t) p = t"
  shows "do { (v', e, q) \<leftarrow> digits_loop v (length t) p; q \<leftarrow> poke q e (48 + of_nat v'); q \<leftarrow> poke q (e + 1) 0;
              q \<leftarrow> reverse_loop (length t) e q; Some (e - length t, q) }
       = Some (length (dec v) - 1,
           (t @ dec v @ drop (length t + length (dec v)) p)[length t + length (dec v) := 0])"
    (is "?lhs = _")
proof -
  let ?n = "length (dec v)"
  have n: "0 < ?n" by simp
  then have e: "length t + ?n - 1 + 1 = length t + ?n" by linarith
  have "?lhs = do { (e, q) \<leftarrow> do { (v', e, q) \<leftarrow> digits_loop v (length t) p; q \<leftarrow> poke q e (48 + of_nat v'); Some (e, q) };
              q \<leftarrow> poke q (e + 1) 0; q \<leftarrow> reverse_loop (length t) e q; Some (e - length t, q) }"
    by (cases "digits_loop v (length t) p") (auto split: prod.split)
  also have "\<dots> = do { q \<leftarrow> poke (t @ rev (dec v) @ drop (length t + ?n) p) (length t + ?n) 0;
              q \<leftarrow> reverse_loop (length t) (length t + ?n - 1) q; Some (?n - 1, q) }"
    using assms n by (simp add: digits_loop_spec e del: One_nat_def)
  also have "\<dots> = do { q \<leftarrow> reverse_loop (length t) (length t + length (rev (dec v)) - 1)
                  (t @ rev (dec v) @ (drop (length t + ?n) p)[0 := 0]); Some (?n - 1, q) }"
    using assms by (simp add: poke_in list_update_append)
  also have "\<dots> = Some (?n - 1, t @ dec v @ (drop (length t + ?n) p)[0 := 0])"
    by (subst reverse_loop_spec) simp_all
  finally show ?thesis by (simp add: list_update_append)
qed

lemma long_text_length: "\<bar>val\<bar> < 2 ^ 63 \<Longrightarrow> length (long_text val) \<le> 20 \<and> 0 < length (long_text val)"
proof -
  assume "\<bar>val\<bar> < 2 ^ 63"
  then have "nat val < 10 ^ 19" "nat (- val) < 10 ^ 19" by (simp_all add: nat_less_iff)
  then have "length (dec (nat val)) \<le> 19" "length (dec (nat (- val))) \<le> 19"
    using dec_length [of _ 19] by simp_all
  then show ?thesis by (simp add: long_text_def)
qed

lemma ltostr:
  assumes val: "\<bar>val\<bar> < 2 ^ 63" and room: "length t + length (long_text val) < length p" and t: "take (length t) p = t"
  shows "LI_ltostr p (length t) val = Some (length (long_text val),
      (take (length t) p @ long_text val @ drop (length t + length (long_text val)) p)[length t + length (long_text val) := 0])"
proof (cases "val < 0")
  case False
  then have l: "long_text val = dec (nat val)" by (simp add: long_text_def)
  have n: "0 < length (dec (nat val))" by simp
  have "LI_ltostr p (length t) val = do { (k, q) \<leftarrow>
      do { (v', e, q) \<leftarrow> digits_loop (nat val) (length t) p; q \<leftarrow> poke q e (48 + of_nat v'); q \<leftarrow> poke q (e + 1) 0;
              q \<leftarrow> reverse_loop (length t) e q; Some (e - length t, q) }; Some (1 + k, q) }"
    using False by (cases "digits_loop (nat val) (length t) p") (auto simp: LI_ltostr_def split: prod.split)
  then show ?thesis using n t by (simp only: positive_part [OF room [unfolded l] t]) (simp add: l)
next
  case True
  let ?v = "nat (- val)" and ?t = "t @ [45]" and ?p = "p[length t := 45]"
  have l: "long_text val = 45 # dec ?v" using True by (simp add: long_text_def)
  have n: "0 < length (dec ?v)" by simp
  have r: "length ?t + length (dec ?v) < length ?p" using room l by simp
  have t': "take (length ?t) ?p = ?t" using t room by (simp add: take_Suc_conv_app_nth)
  have m: "val \<noteq> - (2 ^ 63)" using val by auto
  have "LI_ltostr p (length t) val = do { (k, q) \<leftarrow>
      do { (v', e, q) \<leftarrow> digits_loop ?v (length ?t) ?p; q \<leftarrow> poke q e (48 + of_nat v'); q \<leftarrow> poke q (e + 1) 0;
              q \<leftarrow> reverse_loop (length ?t) e q; Some (e - length ?t, q) }; Some (2 + k, q) }"
    using True m r
    by (cases "digits_loop ?v (length ?t) ?p") (auto simp: LI_ltostr_def poke_in split: prod.split)
  then show ?thesis using n t room by (simp only: positive_part [OF r t']) (simp add: l list_update_append)
qed

lemma append_long:
  assumes ok: "buffer_ok b" and val: "\<bar>val\<bar> < 2 ^ 63" and room: "b_size b + 96 < 2 ^ 64"
  shows "\<exists>b'. buffer_append_long junk (Some b) val = Some (0, Some b') \<and> string_ok b'
    \<and> text_of b' = text_of b @ long_text val \<and> b_size b' \<le> b_size b + 96"
proof -
  have room': "b_size b + 32 + 64 < 2 ^ 64" using room by simp
  obtain b' p where g: "grow_append junk b 32 = Some b'" "b_ptr b' = Some p" "length p = b_size b'" "0 < length p"
    "(if b_used b' = 0 then 1 else b_used b') = Suc (length (text_of b))"
    "length (text_of b) + 32 \<le> length p" "take (length (text_of b)) p = text_of b"
    "b_size b' \<le> b_size b + 32 + 64"
    using grow_text [OF ok room'] by auto
  have r: "length (text_of b) + length (long_text val) < length p"
    using long_text_length [OF val] g(6) by simp
  show ?thesis
    using g ltostr [OF val r g(7)] write_text [OF g(2,3,7) r]
    by (simp add: buffer_append_long_def buffer_prepare_append_def Let_def)
qed

text \<open>The two conversions to decimal are one.\<close>

lemma append_off_t: "buffer_append_off_t junk bp val = buffer_append_long junk bp val"
proof (cases bp)
  case (Some b)
  show ?thesis
    by (simp add: buffer_append_off_t_def buffer_append_long_def LI_ltostr_def Let_def Some
        prod.case_distrib [where h = "\<lambda>m. Option.bind m f" for f] del: bind_Some_iff)
qed (simp add: buffer_append_off_t_def buffer_append_long_def)

section \<open>Sequences of operations\<close>

datatype buffer_op = Append_text "byte list" | Append_bytes "byte list" | Append_hex "64 word" | Append_decimal int
  | Copy_text "byte list" | Copy_bytes "byte list" | Reset

text \<open>The call that an operation stands for. A text is passed with its terminator, bytes with their number.\<close>

fun exec_op :: "(nat \<Rightarrow> byte) \<Rightarrow> buffer option \<Rightarrow> buffer_op \<Rightarrow> buffer option option" where
  "exec_op junk bp (Append_text s) = do { (r, bp) \<leftarrow> buffer_append_string junk bp (Some (s @ [0])); Some bp }"
| "exec_op junk bp (Append_bytes s) = do { (r, bp) \<leftarrow> buffer_append_string_len junk bp (Some s) (length s); Some bp }"
| "exec_op junk bp (Append_hex v) = do { (r, bp) \<leftarrow> buffer_append_long_hex junk bp v; Some bp }"
| "exec_op junk bp (Append_decimal n) = do { (r, bp) \<leftarrow> buffer_append_long junk bp n; Some bp }"
| "exec_op junk bp (Copy_text s) = do { (r, bp) \<leftarrow> buffer_copy_string junk bp (Some (s @ [0])); Some bp }"
| "exec_op junk bp (Copy_bytes s) = do { (r, bp) \<leftarrow> buffer_copy_string_len junk bp (Some s) (length s); Some bp }"
| "exec_op junk bp Reset = buffer_reset bp"

fun exec_ops :: "(nat \<Rightarrow> byte) \<Rightarrow> buffer option \<Rightarrow> buffer_op list \<Rightarrow> buffer option option" where
  "exec_ops junk bp [] = Some bp"
| "exec_ops junk bp (x # ops) = do { bp \<leftarrow> exec_op junk bp x; exec_ops junk bp ops }"

text \<open>What the operation does to a string.\<close>

fun spec_op :: "byte list \<Rightarrow> buffer_op \<Rightarrow> byte list" where
  "spec_op t (Append_text s) = t @ s"
| "spec_op t (Append_bytes s) = t @ s"
| "spec_op t (Append_hex v) = t @ hex_text v (hex_digits v)"
| "spec_op t (Append_decimal n) = t @ long_text n"
| "spec_op t (Copy_text s) = s"
| "spec_op t (Copy_bytes s) = s"
| "spec_op t Reset = []"

text \<open>The arguments: a text has no null byte, a decimal is a \<open>long\<close> other than the least one. The room an operation may take.\<close>

fun op_ok :: "buffer_op \<Rightarrow> bool" where
  "op_ok (Append_text s) = (0 \<notin> set s)"
| "op_ok (Copy_text s) = (0 \<notin> set s)"
| "op_ok (Append_decimal n) = (\<bar>n\<bar> < 2 ^ 63)"
| "op_ok _ = True"

fun op_room :: "buffer_op \<Rightarrow> nat" where
  "op_room (Append_text s) = length s + 96"
| "op_room (Append_bytes s) = length s + 96"
| "op_room (Copy_text s) = length s + 96"
| "op_room (Copy_bytes s) = length s + 96"
| "op_room _ = 96"

lemma piece_dvd: "64 dvd piece n"
proof -
  have "64 dvd n + (64 - n mod 64)" by presburger
  moreover have "(64 :: nat) dvd 2 ^ 64" by simp
  ultimately show ?thesis unfolding piece_def BUFFER_PIECE_SIZE_def sz_def by (rule dvd_mod)
qed

lemma grow_dvd:
  "64 dvd b_size b \<Longrightarrow> 64 dvd b_size (grow_copy junk b n)"
  "64 dvd b_size b \<Longrightarrow> grow_append junk b n = Some b' \<Longrightarrow> 64 dvd b_size b'"
  by (auto simp: grow_copy_def grow_append_def piece_dvd Let_def split: if_splits)

lemma exec_dvd: "64 dvd b_size b \<Longrightarrow> exec_op junk (Some b) x = Some (Some b') \<Longrightarrow> 64 dvd b_size b'"
  by (cases x)
     (auto simp: buffer_append_string_def buffer_append_string_len_def buffer_append_long_hex_def buffer_append_long_def
       buffer_copy_string_def buffer_copy_string_len_def buffer_reset_def buffer_prepare_append_def with_args_def Let_def
       grow_dvd split: if_splits dest: grow_dvd)

lemma exec_op:
  assumes ok: "string_ok b" and x: "op_ok x" and room: "b_size b + op_room x < 2 ^ 64"
  shows "\<exists>b'. exec_op junk (Some b) x = Some (Some b') \<and> string_ok b' \<and> text_of b' = spec_op (text_of b) x
    \<and> b_size b' \<le> b_size b + op_room x"
proof -
  have bok: "buffer_ok b" using ok by (simp add: string_ok_def)
  show ?thesis
  proof (cases x)
    case (Append_text s)
    then show ?thesis using append_string [OF bok, of s junk "[]"] x room by auto
  next
    case (Append_bytes s)
    have r: "b_size b + length s + 65 < 2 ^ 64" using room Append_bytes by simp
    from append_string_len [OF bok le_refl this, of junk] show ?thesis
      using Append_bytes ok by (cases "length s = 0") auto
  next
    case (Append_hex v)
    then show ?thesis using append_long_hex [OF bok, of junk v] room by auto
  next
    case (Append_decimal n)
    then show ?thesis using append_long [OF bok, of n junk] x room by auto
  next
    case (Copy_text s)
    then have c: "buffer_copy_string junk (Some b) (Some (s @ 0 # [])) = buffer_copy_string_len junk (Some b) (Some (s @ 0 # [])) (length s)"
      using copy_string [OF bok, of s junk "[]"] x room by simp
    have r: "length s + 65 < 2 ^ 64" using room Copy_text by simp
    show ?thesis using copy_string_len [OF bok _ r, of "s @ 0 # []" junk] c Copy_text by auto
  next
    case (Copy_bytes s)
    have r: "length s + 65 < 2 ^ 64" using room Copy_bytes by simp
    show ?thesis using copy_string_len [OF bok le_refl r, of junk] Copy_bytes by auto
  next
    case Reset
    then show ?thesis using reset [OF bok] by auto
  qed
qed

lemma exec_ops:
  "string_ok b \<Longrightarrow> \<forall>x \<in> set ops. op_ok x \<Longrightarrow> b_size b + sum_list (List.map op_room ops) < 2 ^ 64
   \<Longrightarrow> \<exists>b'. exec_ops junk (Some b) ops = Some (Some b') \<and> string_ok b' \<and> text_of b' = foldl spec_op (text_of b) ops"
proof (induction ops arbitrary: b)
  case (Cons x ops)
  have r: "b_size b + op_room x < 2 ^ 64" using Cons.prems(3) by simp
  have x: "op_ok x" using Cons.prems(2) by simp
  obtain b1 where b1: "exec_op junk (Some b) x = Some (Some b1)" "string_ok b1" "text_of b1 = spec_op (text_of b) x"
    "b_size b1 \<le> b_size b + op_room x"
    using exec_op [OF Cons.prems(1) x r, of junk] by blast
  have "b_size b1 + sum_list (List.map op_room ops) < 2 ^ 64" using b1(4) Cons.prems(3) by simp
  then show ?case using Cons.IH [OF b1(2)] Cons.prems(2) b1(1,3) by simp
qed simp

lemma buffer_init_ok [simp]: "string_ok buffer_init" "text_of buffer_init = []" "b_size buffer_init = 0"
  by (simp_all add: buffer_init_def string_ok_def buffer_ok_def text_of_def content_def area_def)

text \<open>A text longer than the width for which room was made is written behind the area.\<close>

lemma rfill_overflow: "buffer_append_string_rfill junk (Some buffer_init) (Some (replicate 80 97 @ [0])) 1 = None"
proof -
  have "strlen (replicate 80 97 @ [0]) = Some 80" by (simp add: strlen_def takeWhile_append)
  moreover have "length (malloc junk (piece (Suc (Suc 0)))) = 64" by (simp add: piece_def BUFFER_PIECE_SIZE_def sz_def)
  ultimately show ?thesis
    by (simp add: buffer_append_string_rfill_def with_args_def grow_append_def buffer_init_def memcpy_def del: length_malloc bind_Some_iff)
qed

section \<open>Properties\<close>



text \<open>C37: A new buffer is a string: after every sequence of copies, appends, numbers in hexadecimal and decimal and
  resets it holds what the same operations make of a list of characters, whatever the allocated memory
  contained.\<close>
theorem buffer_refines_string:
  assumes "\<forall>x \<in> set ops. op_ok x" and "sum_list (List.map op_room ops) < 2 ^ 64"
  shows "\<exists>b. exec_ops junk (Some buffer_init) ops = Some (Some b) \<and> string_ok b \<and> text_of b = foldl spec_op [] ops"
  using exec_ops [of buffer_init ops junk] assms by simp

lemma buffer_refines_string_witness:
  "\<exists>b. exec_ops (\<lambda>_. 3) (Some buffer_init) [Copy_text [97], Append_decimal 0, Append_bytes [98, 99]] = Some (Some b)
    \<and> text_of b = [97, 48, 98, 99]"
  using buffer_refines_string [of "[Copy_text [97], Append_decimal 0, Append_bytes [98, 99]]" "\<lambda>_. 3"]
  by (auto simp: long_text_def dec.simps)

text \<open>A number that is appended in decimal is read back from the text: for every \<open>long\<close> but the least one,
  with its sign, into a buffer of any contents.\<close>
theorem append_long_round_trip:
  assumes "buffer_ok b" and "\<bar>val\<bar> < 2 ^ 63" and "b_size b + 96 < 2 ^ 64"
  shows "\<exists>b' t. buffer_append_long junk (Some b) val = Some (0, Some b') \<and> string_ok b'
    \<and> text_of b' = text_of b @ t \<and> read_long t = val"
  using append_long [OF assms, of junk] read_long by blast

lemma append_long_round_trip_witness:
  "\<exists>b' t. buffer_append_long (\<lambda>_. 1) (Some (as_buffer [97])) (- 120) = Some (0, Some b') \<and> string_ok b'
    \<and> text_of b' = [97] @ t \<and> read_long t = - 120"
  using append_long_round_trip [of "as_buffer [97]" "- 120" "\<lambda>_. 1"] by simp

text \<open>A number that is appended in hexadecimal is read back from the text, which consists of digits only, has an
  even length and at most sixteen of them.\<close>
theorem append_long_hex_round_trip:
  assumes "buffer_ok b" and "b_size b + 81 < 2 ^ 64"
  shows "\<exists>b' t. buffer_append_long_hex junk (Some b) v = Some (0, Some b') \<and> string_ok b' \<and> text_of b' = text_of b @ t
    \<and> read_hex t = unat v \<and> even (length t) \<and> length t \<le> 16 \<and> (\<forall>c \<in> set t. hex2int c \<noteq> 0xFF)"
proof -
  have "unat v < 16 ^ hex_digits v"
    using hex_width_bound [of v] hex_digits_bounds [of v] by (meson less_le_trans power_increasing one_le_numeral)
  then have "read_hex (hex_text v (hex_digits v)) = unat v" by (simp add: read_hex_text)
  moreover have "\<forall>c \<in> set (hex_text v (hex_digits v)). hex2int c \<noteq> 0xFF"
    using nibble_digit hex2int_bytes by (auto simp: hex_text_def)
  moreover obtain b' where "buffer_append_long_hex junk (Some b) v = Some (0, Some b')" "string_ok b'"
    "text_of b' = text_of b @ hex_text v (hex_digits v)"
    using append_long_hex [OF assms, of junk v] by blast
  ultimately show ?thesis
    using hex_digits_bounds [of v] by (intro exI [of _ b'] exI [of _ "hex_text v (hex_digits v)"]) simp
qed

lemma append_long_hex_round_trip_witness:
  "\<exists>b' t. buffer_append_long_hex (\<lambda>_. 1) (Some (as_buffer [97])) 0xBEEF = Some (0, Some b')
    \<and> text_of b' = [97] @ t \<and> read_hex t = 48879"
  using append_long_hex_round_trip [of "as_buffer [97]" "\<lambda>_. 1" "0xBEEF"] by auto

end
