(* ===== verification/Byte_Texts.thy ===== *)
theory Byte_Texts
  imports Byte_Numbers
begin

text \<open>
  buffer.c of lighttpd, fourth part: searching and comparing the strings in buffers, characters and
  their case. The C library's \<open>strcmp\<close>, \<open>strncmp\<close> and \<open>memcmp\<close> are written out as far as the code
  uses them, for equality; they fault when they read past an area. \<open>buffer_caseless_compare\<close>
  compares a machine word at a time as long as both strings are aligned and equal, and then byte by byte;
  that it computes what the second loop alone would compute is an equivalence below.
\<close>

section \<open>Comparison for equality\<close>

fun strcmp_equal :: "byte list \<Rightarrow> byte list \<Rightarrow> bool option" where
  "strcmp_equal (c # a) (d # b) = (if c \<noteq> d then Some False else if c = 0 then Some True else strcmp_equal a b)"
| "strcmp_equal _ _ = None"

fun strncmp_equal :: "byte list \<Rightarrow> byte list \<Rightarrow> nat \<Rightarrow> bool option" where
  "strncmp_equal a b 0 = Some True"
| "strncmp_equal (c # a) (d # b) (Suc n) =
     (if c \<noteq> d then Some False else if c = 0 then Some True else strncmp_equal a b n)"
| "strncmp_equal _ _ _ = None"

definition memcmp_equal :: "byte list \<Rightarrow> byte list \<Rightarrow> nat \<Rightarrow> bool option" where
  "memcmp_equal a b n = (if n \<le> length a \<and> n \<le> length b then Some (take n a = take n b) else None)"

text \<open>A pointer to a place before the area is a fault already (\<open>from_end\<close>).\<close>

definition from_end :: "buffer \<Rightarrow> nat \<Rightarrow> byte list option" where
  "from_end b len = do {
     p \<leftarrow> b_ptr b;
     if len + 1 \<le> b_used b \<and> b_used b \<le> length p then Some (drop (b_used b - 1 - len) p) else None
   }"

function search_loop :: "byte list \<Rightarrow> byte list \<Rightarrow> nat \<Rightarrow> nat \<Rightarrow> nat \<Rightarrow> nat option option" where
  "search_loop p needle len n i = (if i < n
     then do {
       e \<leftarrow> memcmp_equal (drop i p) needle len;
       if e then Some (Some i) else search_loop p needle len n (i + 1)
     }
     else Some None)"
  by auto
termination by (relation "measure (\<lambda>(p, needle, len, n, i). n - i)") auto

definition buffer_search_string_len :: "buffer option \<Rightarrow> byte list option \<Rightarrow> nat \<Rightarrow> nat option option" where
  "buffer_search_string_len bp needlep len =
     (if len = 0 then Some None
      else case needlep of None \<Rightarrow> Some None | Some needle \<Rightarrow> do {
        b \<leftarrow> bp;
        if b_used b < len then Some None
        else if b_used b - len = 0 then Some None
        else do {
          p \<leftarrow> b_ptr b;
          search_loop p needle len (b_used b - len) 0
        }
      })"

definition buffer_is_equal :: "buffer \<Rightarrow> buffer \<Rightarrow> bool option" where
  "buffer_is_equal a b =
     (if b_used a \<noteq> b_used b then Some False
      else if b_used a = 0 then Some True
      else do {
        p \<leftarrow> b_ptr a;
        q \<leftarrow> b_ptr b;
        strcmp_equal p q
      })"

text \<open>The local buffer of the next function is not a real one: its size is not set.\<close>

definition buffer_is_equal_string :: "buffer \<Rightarrow> byte list \<Rightarrow> nat \<Rightarrow> bool option" where
  "buffer_is_equal_string a s b_len =
     buffer_is_equal a \<lparr>b_ptr = Some s, b_used = sz (b_len + 1), b_size = 0\<rparr>"

definition buffer_is_equal_right_len :: "buffer \<Rightarrow> buffer \<Rightarrow> nat \<Rightarrow> bool option" where
  "buffer_is_equal_right_len b1 b2 len =
     (if len = 0 then Some True
      else if b_used b1 = 0 \<or> b_used b2 = 0 then Some False
      else if b_used b1 - 1 < len \<or> b_used b1 - 1 < len then Some False
      else do {
        p \<leftarrow> from_end b1 len;
        q \<leftarrow> from_end b2 len;
        strncmp_equal p q len
      })"

section \<open>Comparison without case\<close>

definition is_upper :: "byte \<Rightarrow> bool" where
  "is_upper c \<longleftrightarrow> 65 \<le> c \<and> c \<le> 90"

definition is_lower :: "byte \<Rightarrow> bool" where
  "is_lower c \<longleftrightarrow> 97 \<le> c \<and> c \<le> 122"

text \<open>
  The first loop: blocks of the eight bytes of a \<open>size_t\<close>. Two such words are equal when their bytes
  are. The result is the index of the first byte for the second loop.
\<close>

function word_loop :: "byte list \<Rightarrow> byte list \<Rightarrow> nat \<Rightarrow> nat \<Rightarrow> nat option" where
  "word_loop a b ndx max_ndx = (if ndx < max_ndx
     then do {
       e \<leftarrow> memcmp_equal (drop ndx a) (drop ndx b) 8;
       if \<not> e then Some ndx else word_loop a b (ndx + 8) max_ndx
     }
     else Some ndx)"
  by auto
termination by (relation "measure (\<lambda>(a, b, ndx, max_ndx). max_ndx - ndx)") auto

text \<open>The second loop: \<open>Some None\<close> when it reaches \<open>max_ndx\<close>, otherwise the difference that it returns.\<close>

function byte_loop :: "byte list \<Rightarrow> byte list \<Rightarrow> nat \<Rightarrow> nat \<Rightarrow> int option option" where
  "byte_loop a b ndx max_ndx = (if ndx < max_ndx
     then do {
       a1 \<leftarrow> peek a ndx;
       b1 \<leftarrow> peek b ndx;
       if a1 \<noteq> b1 then do {
         let a2 = (if is_upper a1 \<and> is_lower b1 then a1 OR 32 else a1);
         let b2 = (if \<not> (is_upper a1 \<and> is_lower b1) \<and> is_lower a1 \<and> is_upper b1 then b1 OR 32 else b1);
         if sint a2 - sint b2 \<noteq> 0 then Some (Some (sint a2 - sint b2))
         else byte_loop a b (ndx + 1) max_ndx
       }
       else byte_loop a b (ndx + 1) max_ndx
     }
     else Some None)"
  by auto
termination by (relation "measure (\<lambda>(a, b, ndx, max_ndx). max_ndx - ndx)") auto

text \<open>The difference of the lengths is a \<open>size_t\<close> that the return makes an \<open>int\<close> of 32 bits.\<close>

definition int_of_size :: "int \<Rightarrow> int" where
  "int_of_size n = signed_take_bit 31 n"

definition buffer_caseless_compare :: "bool \<Rightarrow> byte list \<Rightarrow> nat \<Rightarrow> byte list \<Rightarrow> nat \<Rightarrow> int option" where
  "buffer_caseless_compare aligned a a_len b b_len = do {
     ndx \<leftarrow> (if aligned
       then word_loop a b 0 (min a_len b_len - min a_len b_len mod 8)
       else Some 0);
     r \<leftarrow> byte_loop a b ndx (min a_len b_len);
     case r of Some d \<Rightarrow> Some d
     | None \<Rightarrow> Some (if a_len = b_len then 0 else int_of_size (int a_len - int b_len))
   }"

section \<open>Characters\<close>

definition light_isdigit :: "int \<Rightarrow> bool" where
  "light_isdigit c \<longleftrightarrow> c \<ge> 48 \<and> c \<le> 57"

definition light_isxdigit :: "int \<Rightarrow> bool" where
  "light_isxdigit c = (if light_isdigit c then True
     else let c = c OR 32 in c \<ge> 97 \<and> c \<le> 102)"

definition light_isalpha :: "int \<Rightarrow> bool" where
  "light_isalpha c = (let c = c OR 32 in c \<ge> 97 \<and> c \<le> 122)"

definition light_isalnum :: "int \<Rightarrow> bool" where
  "light_isalnum c \<longleftrightarrow> light_isdigit c \<or> light_isalpha c"

text \<open>The loops over the characters of a buffer, up to the null byte.\<close>

function case_loop :: "(byte \<Rightarrow> bool) \<Rightarrow> (byte \<Rightarrow> byte) \<Rightarrow> byte list \<Rightarrow> nat \<Rightarrow> byte list option" where
  "case_loop test conv p i = do {
     c \<leftarrow> peek p i;
     if c = 0 then Some p
     else do {
       p \<leftarrow> (if test c then poke p i (conv c) else Some p);
       case_loop test conv p (i + 1)
     }
   }"
  by auto
termination
  by (relation "measure (\<lambda>(test, conv, p, i). length p - i)") (auto split: if_splits)

definition buffer_to_lower :: "buffer \<Rightarrow> (int \<times> buffer) option" where
  "buffer_to_lower b = (if b_used b = 0 then Some (0, b) else do {
     p \<leftarrow> b_ptr b;
     p \<leftarrow> case_loop is_upper (\<lambda>c. c OR 32) p 0;
     Some (0, b\<lparr>b_ptr := Some p\<rparr>)
   })"

definition buffer_to_upper :: "buffer \<Rightarrow> (int \<times> buffer) option" where
  "buffer_to_upper b = (if b_used b = 0 then Some (0, b) else do {
     p \<leftarrow> b_ptr b;
     p \<leftarrow> case_loop is_lower (\<lambda>c. c AND NOT 32) p 0;
     Some (0, b\<lparr>b_ptr := Some p\<rparr>)
   })"

declare search_loop.simps [simp del] word_loop.simps [simp del] byte_loop.simps [simp del] case_loop.simps [simp del]

section \<open>Searching\<close>

lemma search_loop_spec:
  assumes "0 < n \<longrightarrow> n - 1 + len \<le> length p" and "len \<le> length needle"
  shows "search_loop p needle len n i = Some (List.find (\<lambda>j. take len (drop j p) = take len needle) [i ..< n])"
  using assms
proof (induction p needle len n i rule: search_loop.induct)
  case (1 p needle len n i)
  show ?case
  proof (cases "i < n")
    case True
    then have "memcmp_equal (drop i p) needle len = Some (take len (drop i p) = take len needle)"
      using 1(2,3) by (simp add: memcmp_equal_def)
    then show ?thesis using True 1 by (subst search_loop.simps) (simp add: upt_conv_Cons)
  qed (simp add: search_loop.simps)
qed

lemma search_string:
  assumes ok: "string_ok b" and len: "0 < len" "len \<le> length needle"
  shows "buffer_search_string_len (Some b) (Some needle) len
    = Some (List.find (\<lambda>j. take len (drop j (text_of b)) = take len needle) [0 ..< length (text_of b) + 1 - len])"
proof (cases "b_used b = 0")
  case True
  then have "text_of b = []" using ok length_text [of b] by (simp add: string_ok_def)
  then show ?thesis using True len by (simp add: buffer_search_string_len_def)
next
  case False
  obtain p rest where p: "b_ptr b = Some p" "p = text_of b @ 0 # rest" "b_used b = length (text_of b) + 1"
    using string_area [OF ok False] by metis
  let ?n = "b_used b - len"
  show ?thesis
  proof (cases "len < b_used b")
    case False
    then show ?thesis using p(3) len by (simp add: buffer_search_string_len_def)
  next
    case True
    have "search_loop p needle len ?n 0 = Some (List.find (\<lambda>j. take len (drop j p) = take len needle) [0 ..< ?n])"
      by (rule search_loop_spec) (use p len True in auto)
    also have "List.find (\<lambda>j. take len (drop j p) = take len needle) [0 ..< ?n]
        = List.find (\<lambda>j. take len (drop j (text_of b)) = take len needle) [0 ..< ?n]"
      by (rule find_cong) (use p in auto)
    finally show ?thesis using p(1,3) len by (auto simp: buffer_search_string_len_def)
  qed
qed

section \<open>Equality\<close>

lemma strcmp_equal_spec:
  "0 \<notin> set s \<Longrightarrow> 0 \<notin> set t \<Longrightarrow> strcmp_equal (s @ 0 # u) (t @ 0 # v) = Some (s = t)"
proof (induction s arbitrary: t)
  case Nil
  then show ?case by (cases t) auto
next
  case (Cons c s)
  then show ?case by (cases t) auto
qed

lemma strncmp_equal_spec:
  "0 \<notin> set s \<Longrightarrow> length s = n \<Longrightarrow> length t = n \<Longrightarrow> strncmp_equal (s @ u) (t @ v) n = Some (s = t)"
proof (induction n arbitrary: s t)
  case (Suc n)
  then show ?case by (cases s; cases t) auto
qed simp

lemma is_equal:
  assumes a: "string_ok a" "b_used a \<noteq> 0" "0 \<notin> set (text_of a)"
    and b: "string_ok b" "b_used b \<noteq> 0" "0 \<notin> set (text_of b)"
  shows "buffer_is_equal a b = Some (text_of a = text_of b)"
proof -
  obtain p pr where p: "b_ptr a = Some p" "p = text_of a @ 0 # pr" "b_used a = length (text_of a) + 1"
    using string_area [OF a(1,2)] by metis
  obtain q qr where q: "b_ptr b = Some q" "q = text_of b @ 0 # qr" "b_used b = length (text_of b) + 1"
    using string_area [OF b(1,2)] by metis
  show ?thesis
    using strcmp_equal_spec [OF a(3) b(3), of pr qr] p q a(2) by (auto simp: buffer_is_equal_def)
qed

lemma from_end:
  assumes b: "string_ok b" "b_used b \<noteq> 0" and len: "len \<le> length (text_of b)"
  shows "\<exists>rest. from_end b len = Some (drop (length (text_of b) - len) (text_of b) @ 0 # rest)"
proof -
  obtain p pr where p: "b_ptr b = Some p" "p = text_of b @ 0 # pr" "b_used b = length (text_of b) + 1"
    using string_area [OF b] by metis
  then show ?thesis using len by (auto simp: from_end_def)
qed

lemma is_equal_right:
  assumes a: "string_ok a" "b_used a \<noteq> 0" "0 \<notin> set (text_of a)" "len \<le> length (text_of a)"
    and b: "string_ok b" "b_used b \<noteq> 0" "len \<le> length (text_of b)"
  shows "buffer_is_equal_right_len a b len
    = Some (drop (length (text_of a) - len) (text_of a) = drop (length (text_of b) - len) (text_of b))"
proof (cases "len = 0")
  case False
  have ua: "b_used a = length (text_of a) + 1" using length_text [of a] a by (simp add: string_ok_def)
  obtain u where u: "from_end a len = Some (drop (length (text_of a) - len) (text_of a) @ 0 # u)"
    using from_end [OF a(1,2,4)] by blast
  obtain v where v: "from_end b len = Some (drop (length (text_of b) - len) (text_of b) @ 0 # v)"
    using from_end [OF b] by blast
  have "0 \<notin> set (drop (length (text_of a) - len) (text_of a))" using a(3) in_set_dropD by fastforce
  from strncmp_equal_spec [OF this] show ?thesis
    using False u v ua a(2,4) b(2,3) by (simp add: buffer_is_equal_right_len_def)
qed (simp add: buffer_is_equal_right_len_def)

text \<open>The second test of the lengths looks at the first buffer again: a shorter second buffer is read before its area.\<close>

lemma is_equal_right_fault:
  assumes a: "string_ok a" "len \<le> length (text_of a)" and b: "buffer_ok b" "b_used b \<noteq> 0" "b_used b \<le> len" and len: "0 < len"
  shows "buffer_is_equal_right_len a b len = None"
proof -
  have "b_used a = length (text_of a) + 1" using length_text [of a] a len by (cases "b_used a") (auto simp: string_ok_def)
  moreover have "from_end b len = None" using b by (cases "b_ptr b") (auto simp: from_end_def)
  ultimately show ?thesis using a b len by (simp add: buffer_is_equal_right_len_def)
qed

section \<open>Comparison without case, on strings\<close>

definition char_diff :: "byte \<Rightarrow> byte \<Rightarrow> int" where
  "char_diff c d = (if c = d then 0 else if is_upper c \<and> is_lower d then sint (c OR 32) - sint d
     else if is_lower c \<and> is_upper d then sint c - sint (d OR 32) else sint c - sint d)"

fun caseless :: "byte list \<Rightarrow> byte list \<Rightarrow> int" where
  "caseless (c # a) (d # b) = (if char_diff c d \<noteq> 0 then char_diff c d else caseless a b)"
| "caseless a b = int (length a) - int (length b)"

definition lower :: "byte \<Rightarrow> byte" where
  "lower c = (if is_upper c then c OR 32 else c)"

lemma block_step: "8 dvd m - n \<Longrightarrow> n < m \<Longrightarrow> n + 8 \<le> m \<and> 8 dvd m - (n + 8)" for n m :: nat
  by presburger

lemma word_loop_spec:
  assumes "ndx \<le> max_ndx" "8 dvd max_ndx - ndx" "max_ndx \<le> length a" "max_ndx \<le> length b" "take ndx a = take ndx b"
  shows "\<exists>k. word_loop a b ndx max_ndx = Some k \<and> k \<le> max_ndx \<and> take k a = take k b"
  using assms
proof (induction "max_ndx - ndx" arbitrary: ndx rule: less_induct)
  case less
  show ?case
  proof (cases "ndx < max_ndx")
    case True
    note m = block_step [OF less.prems(2) True]
    let ?e = "take 8 (drop ndx a) = take 8 (drop ndx b)"
    have "8 \<le> length a - ndx" "8 \<le> length b - ndx" using m less.prems(3,4) by linarith+
    then have e: "memcmp_equal (drop ndx a) (drop ndx b) 8 = Some ?e" by (simp add: memcmp_equal_def)
    show ?thesis
    proof (cases ?e)
      case False
      then show ?thesis using e True less.prems(5) by (subst word_loop.simps) auto
    next
      case eq: True
      have t: "take (ndx + 8) a = take (ndx + 8) b" using eq less.prems(5) by (simp add: take_add)
      have "word_loop a b ndx max_ndx = word_loop a b (ndx + 8) max_ndx"
        using True e eq by (subst word_loop.simps) simp
      moreover have "max_ndx - (ndx + 8) < max_ndx - ndx" using True by linarith
      ultimately show ?thesis using less.hyps [of "ndx + 8"] m less.prems(3,4) t by metis
    qed
  next
    case False
    then show ?thesis using less.prems(1,5) by (subst word_loop.simps) auto
  qed
qed

lemma byte_loop_spec:
  assumes "n \<le> max_ndx" "max_ndx \<le> length a" "max_ndx \<le> length b"
  shows "byte_loop a b n max_ndx
    = Some (map_option (\<lambda>i. char_diff (a ! i) (b ! i)) (List.find (\<lambda>i. char_diff (a ! i) (b ! i) \<noteq> 0) [n ..< max_ndx]))"
  using assms
proof (induction "max_ndx - n" arbitrary: n rule: less_induct)
  case less
  show ?case
  proof (cases "n < max_ndx")
    case True
    have p: "peek a n = Some (a ! n)" "peek b n = Some (b ! n)" using True less.prems by (simp_all add: peek_def)
    have step: "byte_loop a b n max_ndx = (if char_diff (a ! n) (b ! n) \<noteq> 0 then Some (Some (char_diff (a ! n) (b ! n)))
        else byte_loop a b (n + 1) max_ndx)"
      using True p by (subst byte_loop.simps) (auto simp: char_diff_def Let_def simp del: peek_Some)
    show ?thesis
      using True less.hyps [of "n + 1"] less.prems unfolding step by (simp add: upt_conv_Cons)
  next
    case False
    then show ?thesis by (subst byte_loop.simps) simp
  qed
qed

text \<open>The bytes that the word loop has passed make no difference.\<close>

lemma byte_loop_skip:
  assumes "take k a = take k b" "k \<le> max_ndx" "max_ndx \<le> length a" "max_ndx \<le> length b"
  shows "byte_loop a b k max_ndx = byte_loop a b 0 max_ndx"
proof -
  have "char_diff (a ! i) (b ! i) = 0" if "i < k" for i
    using arg_cong [OF assms(1), of "\<lambda>l. l ! i"] that by (simp add: char_diff_def)
  then have "List.find (\<lambda>i. char_diff (a ! i) (b ! i) \<noteq> 0) [0 ..< k] = None" by (simp add: find_None_iff)
  moreover have "List.find P (xs @ ys) = (case List.find P xs of None \<Rightarrow> List.find P ys | Some x \<Rightarrow> Some x)"
    for P and xs ys :: "nat list" by (induction xs) simp_all
  ultimately have "List.find (\<lambda>i. char_diff (a ! i) (b ! i) \<noteq> 0) [0 ..< max_ndx]
      = List.find (\<lambda>i. char_diff (a ! i) (b ! i) \<noteq> 0) [k ..< max_ndx]"
    using upt_add_eq_append [of 0 k "max_ndx - k"] assms(2) by simp
  then show ?thesis using assms by (simp add: byte_loop_spec)
qed

lemma caseless_find:
  "n = min (length a) (length b) \<Longrightarrow> caseless a b = (case List.find (\<lambda>i. char_diff (a ! i) (b ! i) \<noteq> 0) [0 ..< n] of
      Some i \<Rightarrow> char_diff (a ! i) (b ! i) | None \<Rightarrow> int (length a) - int (length b))"
proof (induction a b arbitrary: n rule: caseless.induct)
  case (1 c a d b)
  let ?m = "min (length a) (length b)"
  have n: "[0 ..< n] = 0 # List.map Suc [0 ..< ?m]"
    using 1(2) by (simp add: upt_conv_Cons map_Suc_upt del: upt_Suc)
  have "List.find P (List.map Suc xs) = map_option Suc (List.find (\<lambda>i. P (Suc i)) xs)" for P xs
    by (induction xs) simp_all
  then show ?case unfolding n using 1(1) [of ?m] by (simp split: option.split)
qed simp_all

lemma int_of_size_id: "- (2 ^ 31) \<le> n \<Longrightarrow> n < 2 ^ 31 \<Longrightarrow> int_of_size n = n"
  by (simp add: int_of_size_def signed_take_bit_int_eq_self)

lemma caseless_compare:
  assumes "length a < 2 ^ 31" "length b < 2 ^ 31"
  shows "buffer_caseless_compare aligned (a @ u) (length a) (b @ v) (length b) = Some (caseless a b)"
proof -
  let ?m = "min (length a) (length b)" and ?a = "a @ u" and ?b = "b @ v"
  have bl: "byte_loop ?a ?b 0 ?m = Some (map_option (\<lambda>i. char_diff (a ! i) (b ! i))
      (List.find (\<lambda>i. char_diff (a ! i) (b ! i) \<noteq> 0) [0 ..< ?m]))"
  proof -
    have f: "List.find (\<lambda>i. char_diff (?a ! i) (?b ! i) \<noteq> 0) [0 ..< ?m] = List.find (\<lambda>i. char_diff (a ! i) (b ! i) \<noteq> 0) [0 ..< ?m]"
      by (rule find_cong) (auto simp: nth_append)
    have l: "byte_loop ?a ?b 0 ?m = Some (map_option (\<lambda>i. char_diff (?a ! i) (?b ! i))
        (List.find (\<lambda>i. char_diff (a ! i) (b ! i) \<noteq> 0) [0 ..< ?m]))"
      using byte_loop_spec [of 0 ?m ?a ?b] unfolding f by simp
    show ?thesis
    proof (cases "List.find (\<lambda>i. char_diff (a ! i) (b ! i) \<noteq> 0) [0 ..< ?m]")
      case (Some i)
      then have "i < ?m" unfolding find_Some_iff by auto
      then show ?thesis unfolding l Some by (simp add: nth_append)
    qed (use l in simp)
  qed
  obtain k where k: "(if aligned then word_loop ?a ?b 0 (?m - ?m mod 8) else Some 0) = Some k"
    "k \<le> ?m" "take k ?a = take k ?b"
  proof (cases aligned)
    case True
    let ?x = "?m - ?m mod 8"
    have x: "?x \<le> ?m" by (rule diff_le_self)
    have d: "8 dvd ?x - 0" using dvd_minus_mod [of 8 ?m] by simp
    have "?x \<le> length ?a" "?x \<le> length ?b" by (rule le_trans [OF x]; simp)+
    from word_loop_spec [OF _ d this] obtain k
      where "word_loop ?a ?b 0 ?x = Some k" "k \<le> ?x" "take k ?a = take k ?b" by auto
    then show thesis using that [of k] x True by simp
  next
    case False
    then show thesis using that [of 0] by simp
  qed
  have "byte_loop ?a ?b k ?m = byte_loop ?a ?b 0 ?m"
    by (rule byte_loop_skip) (use k in auto)
  then show ?thesis
    using k(1) bl assms by (auto simp: buffer_caseless_compare_def caseless_find [OF refl] int_of_size_id split: option.split)
qed

text \<open>What the comparison means: on single bytes first.\<close>

definition byte_case :: "byte \<Rightarrow> bool" where
  "byte_case c \<longleftrightarrow> (is_upper c = (65 \<le> sint c \<and> sint c \<le> 90)) \<and> (is_lower c = (97 \<le> sint c \<and> sint c \<le> 122))
     \<and> (is_upper c \<longrightarrow> sint (c OR 32) = sint c + 32)"

lemma byte_case: "byte_case c"
  by (rule all_bytes) code_simp

lemma sint_lower: "sint (lower c) = (if 65 \<le> sint c \<and> sint c \<le> 90 then sint c + 32 else sint c)"
  using byte_case [of c] by (simp add: lower_def byte_case_def)

lemma char_diff_int: "char_diff c d = (let x = sint c; y = sint d in
    if 65 \<le> x \<and> x \<le> 90 \<and> 97 \<le> y \<and> y \<le> 122 then x + 32 - y
    else if 97 \<le> x \<and> x \<le> 122 \<and> 65 \<le> y \<and> y \<le> 90 then x - (y + 32) else x - y)"
  using byte_case [of c] byte_case [of d] by (auto simp: char_diff_def byte_case_def Let_def)

lemma char_diff_eq: "char_diff c d = 0 \<longleftrightarrow> lower c = lower d"
proof -
  have "lower c = lower d \<longleftrightarrow> sint (lower c) = sint (lower d)" by (metis scast_id scast_eq)
  then show ?thesis unfolding sint_lower char_diff_int Let_def by auto
qed

lemma caseless_eq: "caseless a b = 0 \<longleftrightarrow> List.map lower a = List.map lower b"
  by (induction a b rule: caseless.induct) (auto simp: char_diff_eq)

lemma case_loop_spec:
  "0 \<notin> set t \<Longrightarrow> case_loop test conv (u @ t @ 0 # rest) (length u)
    = Some (u @ List.map (\<lambda>c. if test c then conv c else c) t @ 0 # rest)"
proof (induction t arbitrary: u)
  case Nil
  then show ?case by (simp add: case_loop.simps peek_def)
next
  case (Cons c t)
  have "case_loop test conv (u @ (c # t) @ 0 # rest) (length u)
      = case_loop test conv ((u @ [if test c then conv c else c]) @ t @ 0 # rest) (length (u @ [if test c then conv c else c]))"
    using Cons.prems by (subst case_loop.simps) (simp add: peek_def poke_def)
  then show ?case using Cons.IH [of "u @ [if test c then conv c else c]"] Cons.prems by simp
qed

lemma to_lower:
  assumes "string_ok b" "0 \<notin> set (text_of b)"
  shows "\<exists>b'. buffer_to_lower b = Some (0, b') \<and> string_ok b' \<and> text_of b' = List.map lower (text_of b) \<and> b_used b' = b_used b"
proof (cases "b_used b = 0")
  case True
  then show ?thesis using assms length_text [of b] by (simp add: buffer_to_lower_def string_ok_def)
next
  case False
  obtain p rest where p: "b_ptr b = Some p" "p = text_of b @ 0 # rest" "b_used b = length (text_of b) + 1"
    using string_area [OF assms(1) False] by metis
  let ?t = "List.map lower (text_of b)"
  have l: "case_loop is_upper (\<lambda>c. c OR 32) p 0 = Some (?t @ 0 # rest)"
    using case_loop_spec [OF assms(2), of is_upper "\<lambda>c. c OR 32" "[]" rest] p(2) by (simp add: lower_def)
  have s: "length p = b_size b" using assms(1) p(1) by (simp add: string_ok_def buffer_ok_def)
  have "string_ok (b\<lparr>b_ptr := Some (?t @ 0 # rest)\<rparr>) \<and> text_of (b\<lparr>b_ptr := Some (?t @ 0 # rest)\<rparr>) = ?t"
    by (rule text_from_area [where p = "?t @ 0 # rest"]) (use p s in \<open>simp_all add: nth_append\<close>)
  then show ?thesis using l False p(1) by (simp add: buffer_to_lower_def)
qed

lemma light_isxdigit: "light_isxdigit (uint c) = hex_digit c"
  by (rule all_bytes [where P = "\<lambda>c. light_isxdigit (uint c) = hex_digit c"]) code_simp

section \<open>Properties\<close>

text \<open>C36: The comparison without case computes, a machine word at a time or byte by byte, the same function of
  the two strings: the difference of the first two characters that differ other than in case, or the
  difference of the lengths. It is zero exactly when the strings are equal up to case, and the memory behind
  the strings has no influence.\<close>
theorem caseless_compare_equiv:
  assumes "length a < 2 ^ 31" and "length b < 2 ^ 31"
  shows "buffer_caseless_compare aligned (a @ u) (length a) (b @ v) (length b) = Some (caseless a b)
    \<and> (caseless a b = 0 \<longleftrightarrow> List.map lower a = List.map lower b)"
  using caseless_compare [OF assms] caseless_eq by blast

lemma caseless_compare_equiv_witness:
  "buffer_caseless_compare True ([72, 111, 115, 116, 45, 65, 98, 99, 90] @ [1]) 9 ([72, 111, 115, 116, 45, 65, 98, 99, 122] @ [2]) 9 = Some 0"
proof -
  have l: "length [72, 111, 115, 116, 45, 65, 98, 99, 90 :: byte] = 9" "length [72, 111, 115, 116, 45, 65, 98, 99, 122 :: byte] = 9" by simp_all
  have z: "List.map lower [72, 111, 115, 116, 45, 65, 98, 99, 90] = List.map lower [72, 111, 115, 116, 45, 65, 98, 99, 122]"
    by (simp add: lower_def is_upper_def)
  show ?thesis
    using caseless_compare_equiv [of "[72, 111, 115, 116, 45, 65, 98, 99, 90]" "[72, 111, 115, 116, 45, 65, 98, 99, 122]" True "[1]" "[2]",
        unfolded l] z by simp
qed

text \<open>The search returns the first place where the needle begins in the text of the buffer, and nothing
  exactly when there is none.\<close>
theorem search_finds_first:
  assumes "string_ok b" and "0 < len" and "len \<le> length needle"
  shows "\<exists>r. buffer_search_string_len (Some b) (Some needle) len = Some r
    \<and> (case r of None \<Rightarrow> \<forall>i. i + len \<le> length (text_of b) \<longrightarrow> take len (drop i (text_of b)) \<noteq> take len needle
       | Some i \<Rightarrow> i + len \<le> length (text_of b) \<and> take len (drop i (text_of b)) = take len needle
           \<and> (\<forall>j < i. take len (drop j (text_of b)) \<noteq> take len needle))"
proof -
  let ?P = "\<lambda>j. take len (drop j (text_of b)) = take len needle" and ?n = "length (text_of b) + 1 - len"
  have s: "buffer_search_string_len (Some b) (Some needle) len = Some (List.find ?P [0 ..< ?n])"
    by (rule search_string [OF assms])
  show ?thesis
  proof (cases "List.find ?P [0 ..< ?n]")
    case None
    then have "\<forall>i < ?n. \<not> ?P i" unfolding find_None_iff by simp
    then have "\<forall>i. i + len \<le> length (text_of b) \<longrightarrow> \<not> ?P i" by auto
    then show ?thesis using s None by simp
  next
    case (Some i)
    then have "i < ?n" "?P i" "\<forall>j < i. \<not> ?P j" unfolding find_Some_iff by auto
    moreover from this(1) have "i + len \<le> length (text_of b)" by linarith
    ultimately show ?thesis using s Some by simp
  qed
qed

lemma search_finds_first_witness:
  "\<exists>r. buffer_search_string_len (Some (as_buffer [97, 98, 97, 98])) (Some [98]) 1 = Some r \<and> (\<forall>i. r = Some i \<longrightarrow> i + 1 \<le> 4)"
proof -
  have "string_ok (as_buffer [97, 98, 97, 98])" "0 < (1 :: nat)" "1 \<le> length [98 :: byte]" by simp_all
  from search_finds_first [OF this] obtain r where
    "buffer_search_string_len (Some (as_buffer [97, 98, 97, 98])) (Some [98]) 1 = Some r"
    "case r of None \<Rightarrow> True | Some i \<Rightarrow> i + 1 \<le> 4"
    by (auto split: option.splits)
  then show ?thesis by (intro exI [of _ r]) auto
qed

end
