(* ===== verification/Url_Codec.thy ===== *)
theory Url_Codec
  imports Byte_Numbers
begin

text \<open>
  buffer.c of lighttpd, third part: the encodings (\<open>buffer_append_string_encoded\<close> with its six tables,
  \<open>buffer_copy_string_hex\<close>) and the decoding of a URL in place (\<open>buffer_urldecode_internal\<close>). A table
  is the list of its 256 entries. The theorems compare both directions with functions on strings,
  show that one is the inverse of the other, and that the encodings do what their callers rely
  on: no markup out of the HTML encoding, no header line out of the header encoding, no null byte out of
  a URL.
\<close>

section \<open>Tables\<close>

definition encoded_chars_rel_uri_part :: "nat list" where
  "encoded_chars_rel_uri_part =
     replicate 32 1
     @ [1, 0, 1, 1, 1, 1, 1, 1, 0, 0, 0, 1, 1, 0, 0, 1]
     @ [0, 0, 0, 0, 0, 0, 0, 0, 0, 0, 1, 1, 1, 1, 1, 1]
     @ [1, 0, 0, 0, 0, 0, 0, 0, 0, 0, 0, 0, 0, 0, 0, 0]
     @ [0, 0, 0, 0, 0, 0, 0, 0, 0, 0, 0, 1, 1, 1, 1, 0]
     @ [1, 0, 0, 0, 0, 0, 0, 0, 0, 0, 0, 0, 0, 0, 0, 0]
     @ [0, 0, 0, 0, 0, 0, 0, 0, 0, 0, 0, 1, 1, 1, 1, 1]
     @ replicate 128 1"

definition encoded_chars_rel_uri :: "nat list" where
  "encoded_chars_rel_uri =
     replicate 32 1
     @ [1, 0, 1, 1, 1, 1, 1, 1, 0, 0, 0, 1, 1, 0, 0, 0]
     @ [0, 0, 0, 0, 0, 0, 0, 0, 0, 0, 1, 1, 1, 1, 1, 1]
     @ [1, 0, 0, 0, 0, 0, 0, 0, 0, 0, 0, 0, 0, 0, 0, 0]
     @ [0, 0, 0, 0, 0, 0, 0, 0, 0, 0, 0, 1, 1, 1, 1, 0]
     @ [1, 0, 0, 0, 0, 0, 0, 0, 0, 0, 0, 0, 0, 0, 0, 0]
     @ [0, 0, 0, 0, 0, 0, 0, 0, 0, 0, 0, 1, 1, 1, 1, 1]
     @ replicate 128 1"

definition encoded_chars_html :: "nat list" where
  "encoded_chars_html =
     replicate 32 1
     @ [0, 0, 0, 0, 0, 0, 1, 0, 0, 0, 0, 0, 0, 0, 0, 0]
     @ [0, 0, 0, 0, 0, 0, 0, 0, 0, 0, 0, 0, 1, 0, 1, 0]
     @ replicate 48 0
     @ [0, 0, 0, 0, 0, 0, 0, 0, 0, 0, 0, 0, 0, 0, 0, 1]
     @ replicate 128 1"

definition encoded_chars_minimal_xml :: "nat list" where
  "encoded_chars_minimal_xml =
     replicate 32 1
     @ [0, 0, 0, 0, 0, 0, 1, 0, 0, 0, 0, 0, 0, 0, 0, 0]
     @ [0, 0, 0, 0, 0, 0, 0, 0, 0, 0, 0, 0, 1, 0, 1, 0]
     @ replicate 48 0
     @ [0, 0, 0, 0, 0, 0, 0, 0, 0, 0, 0, 0, 0, 0, 0, 1]
     @ replicate 128 0"

definition encoded_chars_hex :: "nat list" where
  "encoded_chars_hex =
     replicate 256 1"

definition encoded_chars_http_header :: "nat list" where
  "encoded_chars_http_header =
     [0, 0, 0, 0, 0, 0, 0, 0, 0, 0, 1, 0, 0, 0, 0, 0]
     @ replicate 240 0"

datatype buffer_encoding_t = ENCODING_UNSET | ENCODING_REL_URI | ENCODING_REL_URI_PART | ENCODING_HTML
  | ENCODING_MINIMAL_XML | ENCODING_HEX | ENCODING_HTTP_HEADER

fun encoding_map :: "buffer_encoding_t \<Rightarrow> nat list option" where
  "encoding_map ENCODING_REL_URI = Some encoded_chars_rel_uri"
| "encoding_map ENCODING_REL_URI_PART = Some encoded_chars_rel_uri_part"
| "encoding_map ENCODING_HTML = Some encoded_chars_html"
| "encoding_map ENCODING_MINIMAL_XML = Some encoded_chars_minimal_xml"
| "encoding_map ENCODING_HEX = Some encoded_chars_hex"
| "encoding_map ENCODING_HTTP_HEADER = Some encoded_chars_http_header"
| "encoding_map ENCODING_UNSET = None"

section \<open>Encoding\<close>

text \<open>The lengths, then the characters, that stand for an encoded one.\<close>

fun encoded_length :: "buffer_encoding_t \<Rightarrow> nat" where
  "encoded_length ENCODING_REL_URI = 3"
| "encoded_length ENCODING_REL_URI_PART = 3"
| "encoded_length ENCODING_HTML = 6"
| "encoded_length ENCODING_MINIMAL_XML = 6"
| "encoded_length ENCODING_HTTP_HEADER = 2"
| "encoded_length ENCODING_HEX = 2"
| "encoded_length ENCODING_UNSET = 0"

definition hex_hi :: "byte \<Rightarrow> byte" where
  "hex_hi c = hex_chars ! unat (drop_bit 4 c AND 0x0F)"

definition hex_lo :: "byte \<Rightarrow> byte" where
  "hex_lo c = hex_chars ! unat (c AND 0x0F)"

fun encoded_char :: "buffer_encoding_t \<Rightarrow> byte \<Rightarrow> byte list" where
  "encoded_char ENCODING_REL_URI c = [37, hex_hi c, hex_lo c]"
| "encoded_char ENCODING_REL_URI_PART c = [37, hex_hi c, hex_lo c]"
| "encoded_char ENCODING_HTML c = [38, 35, 120, hex_hi c, hex_lo c, 59]"
| "encoded_char ENCODING_MINIMAL_XML c = [38, 35, 120, hex_hi c, hex_lo c, 59]"
| "encoded_char ENCODING_HEX c = [hex_hi c, hex_lo c]"
| "encoded_char ENCODING_HTTP_HEADER c = [c, 9]"
| "encoded_char ENCODING_UNSET c = []"

fun count_loop :: "buffer_encoding_t \<Rightarrow> nat list \<Rightarrow> byte list \<Rightarrow> nat \<Rightarrow> nat" where
  "count_loop e tab [] d_len = d_len"
| "count_loop e tab (c # ds) d_len =
     count_loop e tab ds (sz (if tab ! unat c \<noteq> 0 then d_len + encoded_length e else d_len + 1))"

text \<open>Successive assignments \<open>d[d_len++] = c\<close>; \<open>d\<close> points to index \<open>base\<close> of the area.\<close>

fun put_bytes :: "byte list \<Rightarrow> nat \<Rightarrow> nat \<Rightarrow> byte list \<Rightarrow> (byte list \<times> nat) option" where
  "put_bytes p base d_len [] = Some (p, d_len)"
| "put_bytes p base d_len (c # cs) = do {
     p \<leftarrow> poke p (base + d_len) c;
     put_bytes p base (d_len + 1) cs
   }"

fun encode_loop ::
    "buffer_encoding_t \<Rightarrow> nat list \<Rightarrow> byte list \<Rightarrow> byte list \<Rightarrow> nat \<Rightarrow> nat \<Rightarrow> (byte list \<times> nat) option" where
  "encode_loop e tab [] p base d_len = Some (p, d_len)"
| "encode_loop e tab (c # ds) p base d_len = do {
     (p, d_len) \<leftarrow> put_bytes p base d_len (if tab ! unat c \<noteq> 0 then encoded_char e c else [c]);
     encode_loop e tab ds p base d_len
   }"

text \<open>
  The first test reads the last used byte: with \<open>used = 0\<close> that is a byte before the area, a fault.
  An aborted call is a fault as well.
\<close>

definition buffer_append_string_encoded ::
    "(nat \<Rightarrow> byte) \<Rightarrow> buffer option \<Rightarrow> byte list option \<Rightarrow> nat \<Rightarrow> buffer_encoding_t \<Rightarrow> (int \<times> buffer option) option" where
  "buffer_append_string_encoded junk bp sp s_len encoding = with_args bp sp (\<lambda>b s. do {
     p \<leftarrow> b_ptr b;
     c \<leftarrow> (if b_used b = 0 then None else peek p (b_used b - 1));
     if c \<noteq> 0 then None
     else if s_len = 0 then Some b
     else do {
       tab \<leftarrow> encoding_map encoding;
       s \<leftarrow> (if s_len \<le> length s then Some (take s_len s) else None);
       let d_len = count_loop encoding tab s 0;
       b \<leftarrow> grow_append junk b d_len;
       p \<leftarrow> b_ptr b;
       (p, d_len) \<leftarrow> encode_loop encoding tab s p (b_used b - 1) 0;
       p \<leftarrow> poke p (b_used b + d_len - 1) 0;
       Some (b\<lparr>b_ptr := Some p, b_used := b_used b + d_len\<rparr>)
     }
   })"

text \<open>
  The hexadecimal copy of a string, of a \<open>char\<close> at a time: the shift is the arithmetic one. There is
  no test for null pointers.
\<close>

fun copy_hex_loop :: "byte list \<Rightarrow> byte list \<Rightarrow> nat \<Rightarrow> (byte list \<times> nat) option" where
  "copy_hex_loop [] p used = Some (p, used)"
| "copy_hex_loop (c # ds) p used = do {
     p \<leftarrow> poke p used (hex_chars ! unat (signed_drop_bit 4 c AND 0x0F));
     p \<leftarrow> poke p (used + 1) (hex_chars ! unat (c AND 0x0F));
     copy_hex_loop ds p (used + 2)
   }"

definition buffer_copy_string_hex ::
    "(nat \<Rightarrow> byte) \<Rightarrow> buffer option \<Rightarrow> byte list option \<Rightarrow> nat \<Rightarrow> (int \<times> buffer option) option" where
  "buffer_copy_string_hex junk bp inp in_len =
     (if sz (in_len * 2) < in_len then Some (- 1, bp)
      else do {
        let (r, bp) = buffer_prepare_copy junk bp (sz (in_len * 2 + 1));
        b \<leftarrow> bp;
        p \<leftarrow> b_ptr b;
        s \<leftarrow> (if in_len = 0 then Some [] else do { s \<leftarrow> inp; if in_len \<le> length s then Some (take in_len s) else None });
        (p, used) \<leftarrow> copy_hex_loop s p (b_used b);
        p \<leftarrow> poke p used 0;
        Some (0, Some (b\<lparr>b_ptr := Some p, b_used := used + 1\<rparr>))
      })"

section \<open>Decoding\<close>

text \<open>One character of the loop: the new area and the new \<open>src\<close>.\<close>

definition decode_char :: "bool \<Rightarrow> byte list \<Rightarrow> nat \<Rightarrow> nat \<Rightarrow> (byte list \<times> nat) option" where
  "decode_char is_query p src dst = do {
     c \<leftarrow> peek p src;
     if is_query \<and> c = 43 then do { p \<leftarrow> poke p dst 32; Some (p, src) }
     else if c = 37 then do {
       p \<leftarrow> poke p dst 37;
       c \<leftarrow> peek p (src + 1);
       let high = hex2int c;
       if high \<noteq> 0xFF then do {
         c \<leftarrow> peek p (src + 2);
         let low = hex2int c;
         if low \<noteq> 0xFF then do {
           let high = push_bit 4 high OR low;
           let high = (if high < 32 \<or> high = 127 then 95 else high);
           p \<leftarrow> poke p dst high;
           Some (p, src + 2)
         }
         else Some (p, src)
       }
       else Some (p, src)
     }
     else do { p \<leftarrow> poke p dst c; Some (p, src) }
   }"

lemma decode_char_length: "decode_char q p src dst = Some (p', src') \<Longrightarrow> length p' = length p \<and> src \<le> src'"
  by (auto simp: decode_char_def Let_def split: if_splits)

function decode_loop :: "bool \<Rightarrow> byte list \<Rightarrow> nat \<Rightarrow> nat \<Rightarrow> (byte list \<times> nat) option" where
  "decode_loop is_query p src dst = do {
     c \<leftarrow> peek p src;
     if c = 0 then Some (p, dst)
     else do {
       (p, src) \<leftarrow> decode_char is_query p src dst;
       decode_loop is_query p (src + 1) (dst + 1)
     }
   }"
  by auto
termination
  by (relation "measure (\<lambda>(q, p, src, dst). length p - src)") (auto dest!: decode_char_length)

definition buffer_urldecode_internal :: "buffer option \<Rightarrow> bool \<Rightarrow> (int \<times> buffer option) option" where
  "buffer_urldecode_internal url is_query = (case url of None \<Rightarrow> Some (- 1, None) | Some b \<Rightarrow>
     (case b_ptr b of None \<Rightarrow> Some (- 1, Some b) | Some p \<Rightarrow> do {
       (p, dst) \<leftarrow> decode_loop is_query p 0 0;
       p \<leftarrow> poke p dst 0;
       Some (0, Some (b\<lparr>b_ptr := Some p, b_used := dst + 1\<rparr>))
     }))"

definition buffer_urldecode_path :: "buffer option \<Rightarrow> (int \<times> buffer option) option" where
  "buffer_urldecode_path url = buffer_urldecode_internal url False"

definition buffer_urldecode_query :: "buffer option \<Rightarrow> (int \<times> buffer option) option" where
  "buffer_urldecode_query url = buffer_urldecode_internal url True"

declare decode_loop.simps [simp del]

section \<open>What the encoding writes\<close>

definition encoded_as :: "buffer_encoding_t \<Rightarrow> byte \<Rightarrow> byte list" where
  "encoded_as e c = (if the (encoding_map e) ! unat c \<noteq> 0 then encoded_char e c else [c])"

definition encoded :: "buffer_encoding_t \<Rightarrow> byte list \<Rightarrow> byte list" where
  "encoded e s = concat (List.map (encoded_as e) s)"

lemma encoded_simps [simp]: "encoded e [] = []" "encoded e (c # s) = encoded_as e c @ encoded e s"
  by (simp_all add: encoded_def)

lemma length_encoded_char [simp]: "length (encoded_char e c) = encoded_length e"
  by (cases e) simp_all

lemma count_loop_spec:
  "n + length (encoded e s) < 2 ^ 64 \<Longrightarrow> count_loop e (the (encoding_map e)) s n = n + length (encoded e s)"
  by (induction s arbitrary: n) (auto simp: encoded_as_def)

lemma put_bytes_spec:
  "base + n + length cs \<le> length p
   \<Longrightarrow> put_bytes p base n cs = Some (take (base + n) p @ cs @ drop (base + n + length cs) p, n + length cs)"
proof (induction cs arbitrary: p n)
  case (Cons c cs)
  have "put_bytes p base n (c # cs) = put_bytes (p[base + n := c]) base (n + 1) cs"
    using Cons.prems by (simp add: poke_in del: bind_Some_iff)
  also have "\<dots> = Some (take (base + (n + 1)) (p[base + n := c]) @ cs @ drop (base + (n + 1) + length cs) (p[base + n := c]),
      n + 1 + length cs)"
    using Cons.prems by (intro Cons.IH) simp
  finally show ?case using Cons.prems by (simp add: take_Suc_conv_app_nth)
qed simp

lemma encode_loop_spec:
  "base + n + length (encoded e s) \<le> length p
   \<Longrightarrow> encode_loop e (the (encoding_map e)) s p base n
     = Some (take (base + n) p @ encoded e s @ drop (base + n + length (encoded e s)) p, n + length (encoded e s))"
proof (induction s arbitrary: p n)
  case (Cons c s)
  let ?q = "take (base + n) p @ encoded_as e c @ drop (base + n + length (encoded_as e c)) p"
  have "encode_loop e (the (encoding_map e)) (c # s) p base n
      = encode_loop e (the (encoding_map e)) s ?q base (n + length (encoded_as e c))"
    using Cons.prems by (simp add: put_bytes_spec encoded_as_def del: bind_Some_iff)
  also have "\<dots> = Some (take (base + (n + length (encoded_as e c))) ?q @ encoded e s
      @ drop (base + (n + length (encoded_as e c)) + length (encoded e s)) ?q, n + length (encoded_as e c) + length (encoded e s))"
    using Cons.prems by (intro Cons.IH) simp
  finally show ?case using Cons.prems by (simp add: ac_simps)
qed simp

lemma append_encoded:
  assumes ok: "string_ok b" "b_used b \<noteq> 0" and e: "e \<noteq> ENCODING_UNSET" and n: "n \<le> length s"
    and room: "b_size b + length (encoded e (take n s)) + 64 < 2 ^ 64"
  shows "\<exists>b'. buffer_append_string_encoded junk (Some b) (Some s) n e = Some (0, Some b')
    \<and> string_ok b' \<and> b_used b' \<noteq> 0 \<and> text_of b' = text_of b @ encoded e (take n s)"
proof -
  obtain q rest where q: "b_ptr b = Some q" "q = text_of b @ 0 # rest" "content b = text_of b @ [0]"
    "b_used b = length (text_of b) + 1"
    using string_area [OF ok] .
  have pk: "peek q (b_used b - 1) = Some 0" using q(2,4) by (simp add: nth_append)
  let ?enc = "encoded e (take n s)"
  show ?thesis
  proof (cases "n = 0")
    case True
    then show ?thesis using ok q pk
      by (simp add: buffer_append_string_encoded_def with_args_def del: peek_Some)
  next
    case False
    obtain b' p where g: "grow_append junk b (length ?enc) = Some b'" "b_ptr b' = Some p" "length p = b_size b'"
      "0 < length p" "b_used b' = b_used b" "b_used b + length ?enc \<le> length p" "take (b_used b) p = content b"
      using grow_append_ok [OF _ room, of junk] ok(1) by (auto simp: string_ok_def)
    have t: "take (length (text_of b)) p = text_of b"
      using arg_cong [OF g(7), of "take (length (text_of b))"] q(3,4) by simp
    obtain tab where m: "encoding_map e = Some tab" using e by (cases e) simp_all
    have c: "count_loop e tab (take n s) 0 = length ?enc"
      using count_loop_spec [of 0 e "take n s"] room m by simp
    have l: "encode_loop e tab (take n s) p (length (text_of b)) 0
      = Some (take (length (text_of b)) p @ ?enc @ drop (length (text_of b) + length ?enc) p, length ?enc)"
      using encode_loop_spec [of "length (text_of b)" 0 e "take n s" p] g(6) q(4) m by simp
    have r: "length (text_of b) + length ?enc < length p" using g(6) q(4) by simp
    show ?thesis
      using False ok(2) n q(1,4) pk m c l r g(1,2,5) write_text [OF g(2,3) t r] t
      by (simp add: buffer_append_string_encoded_def with_args_def poke_in Let_def nth_append del: peek_Some)
  qed
qed

section \<open>What the decoding reads\<close>

definition unescape :: "byte \<Rightarrow> byte \<Rightarrow> byte" where
  "unescape h l = (let c = push_bit 4 (hex2int h) OR hex2int l in if c < 32 \<or> c = 127 then 95 else c)"

definition url_step :: "bool \<Rightarrow> byte \<Rightarrow> byte list \<Rightarrow> byte \<times> nat" where
  "url_step q c r = (if q \<and> c = 43 then (32, 0)
     else if c = 37 \<and> 2 \<le> length r \<and> hex_digit (r ! 0) \<and> hex_digit (r ! 1) then (unescape (r ! 0) (r ! 1), 2)
     else (c, 0))"

fun url_decode :: "bool \<Rightarrow> byte list \<Rightarrow> byte list" where
  "url_decode q [] = []"
| "url_decode q (c # r) = fst (url_step q c r) # url_decode q (drop (snd (url_step q c r)) r)"

lemma hex2int_invalid: "(hex2int c = 0xFF) = (\<not> hex_digit c)"
  using hex2int_bytes [of c] by blast

lemma no_hex_digit_0 [simp]: "\<not> hex_digit 0"
  by (simp add: hex_digit_def)

lemma nth_from: "drop src p = xs \<Longrightarrow> j < length xs \<Longrightarrow> src + j < length p \<and> p ! (src + j) = xs ! j"
  by auto

lemma decode_char_spec:
  assumes p: "drop src p = c # r @ 0 # rest" and d: "dst \<le> src"
  shows "decode_char q p src dst = Some (p[dst := fst (url_step q c r)], src + snd (url_step q c r))"
proof -
  let ?q = "p[dst := 37]"
  have c: "src < length p" "p ! src = c" using nth_from [OF p, of 0] by simp_all
  have dst: "dst < length p" using c(1) d by simp
  have "src + 1 < length p \<and> p ! (src + 1) = (r @ 0 # rest) ! 0" using nth_from [OF p, of 1] by simp
  then have n1: "peek ?q (src + 1) = Some ((r @ 0 # rest) ! 0)" using d by (simp add: peek_def)
  have n2: "peek ?q (src + 2) = Some ((r @ 0 # rest) ! 1)" if "r \<noteq> []"
  proof -
    have "2 < length (c # r @ 0 # rest)" using that by (cases r) simp_all
    from nth_from [OF p this] show ?thesis using d by (simp add: peek_def)
  qed
  consider "q \<and> c = 43" | "\<not> (q \<and> c = 43)" "c \<noteq> 37" | "\<not> (q \<and> c = 43)" "c = 37" "r = []"
    | x where "\<not> (q \<and> c = 43)" "c = 37" "r = [x]" | x y s where "\<not> (q \<and> c = 43)" "c = 37" "r = x # y # s"
    by (cases r; cases "tl r") auto
  then show ?thesis
  proof cases
    case 1
    then show ?thesis using c dst by (simp add: decode_char_def url_step_def peek_def poke_in)
  next
    case 2
    then show ?thesis using c dst by (auto simp: decode_char_def url_step_def peek_def poke_in)
  next
    case 3
    then show ?thesis using c dst n1
      by (simp add: decode_char_def url_step_def peek_def poke_in hex2int_invalid Let_def)
  next
    case (4 x)
    then show ?thesis using c dst n1 n2
      by (simp add: decode_char_def url_step_def peek_def poke_in hex2int_invalid Let_def)
  next
    case (5 x y s)
    then show ?thesis using c dst n1 n2
      by (simp add: decode_char_def url_step_def peek_def poke_in hex2int_invalid Let_def unescape_def)
  qed
qed

lemma url_step_le: "snd (url_step q c r) \<le> length r"
  by (simp add: url_step_def)

lemma decode_loop_spec:
  assumes "drop src p = t @ 0 # rest" and "0 \<notin> set t" and "dst \<le> src"
  shows "\<exists>p'. decode_loop q p src dst = Some (p', dst + length (url_decode q t)) \<and> length p' = length p
    \<and> take (dst + length (url_decode q t)) p' = take dst p @ url_decode q t \<and> dst + length (url_decode q t) < length p"
  using assms
proof (induction q t arbitrary: p src dst rule: url_decode.induct)
  case (1 q)
  then have "peek p src = Some 0" "src < length p" using nth_from [of src p "0 # rest" 0] by simp_all
  then show ?case using 1 by (simp add: decode_loop.simps)
next
  case (2 q c r)
  let ?x = "fst (url_step q c r)" and ?k = "snd (url_step q c r)"
  have d: "drop src p = c # r @ 0 # rest" using 2 by simp
  have c: "src < length p" "p ! src = c" using nth_from [OF d, of 0] by simp_all
  let ?p = "p[dst := ?x]"
  have step: "decode_loop q p src dst = decode_loop q ?p (src + ?k + 1) (dst + 1)"
    using c decode_char_spec [OF d 2(4)] 2(3) by (subst decode_loop.simps) (simp add: peek_def del: bind_Some_iff)
  have "drop (src + ?k + 1) p = drop ?k r @ 0 # rest"
    using arg_cong [OF d, of "drop (?k + 1)"] url_step_le [of q c r] by (simp add: ac_simps)
  then have d': "drop (src + ?k + 1) ?p = drop ?k r @ 0 # rest" using 2(4) by simp
  have z: "0 \<notin> set (drop ?k r)" using 2(3) in_set_dropD by fastforce
  have "dst + 1 \<le> src + ?k + 1" using 2(4) by simp
  from 2(1) [OF d' z this] have ih: "\<exists>p'. decode_loop q ?p (src + ?k + 1) (dst + 1) = Some (p', dst + 1 + length (url_decode q (drop ?k r)))
      \<and> length p' = length ?p \<and> take (dst + 1 + length (url_decode q (drop ?k r))) p' = take (dst + 1) ?p @ url_decode q (drop ?k r)
      \<and> dst + 1 + length (url_decode q (drop ?k r)) < length ?p" .
  have "take (dst + 1) ?p = take dst p @ [?x]" using c 2(4) by (simp add: take_Suc_conv_app_nth)
  then show ?case using ih unfolding step by simp
qed

lemma urldecode:
  assumes ok: "string_ok b" and u: "b_used b \<noteq> 0" and t: "0 \<notin> set (text_of b)"
  shows "\<exists>b'. buffer_urldecode_internal (Some b) q = Some (0, Some b') \<and> string_ok b'
    \<and> text_of b' = url_decode q (text_of b) \<and> b_size b' = b_size b"
proof -
  obtain p rest where p: "b_ptr b = Some p" "p = text_of b @ 0 # rest" using string_area [OF ok u] by metis
  let ?t = "url_decode q (text_of b)"
  obtain p' where l: "decode_loop q p 0 0 = Some (p', length ?t)" "length p' = length p"
    "take (length ?t) p' = ?t" "length ?t < length p"
    using decode_loop_spec [of 0 p "text_of b" rest 0 q] p(2) t by auto
  have s: "length p = b_size b" using ok p(1) by (simp add: string_ok_def buffer_ok_def)
  have "string_ok (b\<lparr>b_ptr := Some (p'[length ?t := 0]), b_used := length ?t + 1\<rparr>)
      \<and> text_of (b\<lparr>b_ptr := Some (p'[length ?t := 0]), b_used := length ?t + 1\<rparr>) = ?t"
    by (rule text_from_area [where p = "p'[length ?t := 0]"]) (use l s in simp_all)
  then show ?thesis using l p(1) by (simp add: buffer_urldecode_internal_def)
qed

section \<open>Encoding and decoding\<close>

text \<open>Every fact on single bytes that the properties need, checked on all of them at once.\<close>

definition uri_char_ok :: "byte \<Rightarrow> bool" where
  "uri_char_ok c \<longleftrightarrow> hex_digit (hex_hi c) \<and> hex_digit (hex_lo c) \<and> push_bit 4 (hex2int (hex_hi c)) OR hex2int (hex_lo c) = c"

lemma hex_pair: "uri_char_ok c"
  by (rule all_bytes) code_simp

lemma unescape_pair: "\<not> (c < 32 \<or> c = 127) \<Longrightarrow> unescape (hex_hi c) (hex_lo c) = c"
  using hex_pair [of c] by (simp add: uri_char_ok_def unescape_def)

lemma uri_reserved:
  "tab = encoded_chars_rel_uri \<or> tab = encoded_chars_rel_uri_part \<Longrightarrow> tab ! 37 \<noteq> 0 \<and> tab ! 43 \<noteq> 0"
  by (auto simp: encoded_chars_rel_uri_def encoded_chars_rel_uri_part_def nth_append)

lemma decode_encoded:
  assumes e: "e = ENCODING_REL_URI \<or> e = ENCODING_REL_URI_PART" and s: "\<forall>c \<in> set s. \<not> (c < 32 \<or> c = 127)"
  shows "url_decode q (encoded e s) = s"
  using s
proof (induction s)
  case (Cons c s)
  let ?tab = "the (encoding_map e)"
  have r: "?tab ! 37 \<noteq> 0 \<and> ?tab ! 43 \<noteq> 0" using e by (intro uri_reserved) auto
  show ?case
  proof (cases "?tab ! unat c \<noteq> 0")
    case True
    then have "encoded_as e c = [37, hex_hi c, hex_lo c]" using e by (auto simp: encoded_as_def)
    then show ?thesis
      using Cons hex_pair [of c] by (simp add: url_step_def unescape_pair uri_char_ok_def)
  next
    case False
    then have "c \<noteq> 37" "c \<noteq> 43" using r by auto
    then show ?thesis using Cons False by (simp add: encoded_as_def url_step_def)
  qed
qed simp

lemma url_decode_no_null: "0 \<notin> set t \<Longrightarrow> 0 \<notin> set (url_decode q t)"
proof (induction q t rule: url_decode.induct)
  case (2 q c r)
  have "0 \<notin> set (drop (snd (url_step q c r)) r)" using 2(2) in_set_dropD by fastforce
  then have ih: "0 \<notin> set (url_decode q (drop (snd (url_step q c r)) r))" by (rule 2(1))
  have "unescape h l \<noteq> 0" for h l by (auto simp: unescape_def Let_def)
  then have "fst (url_step q c r) \<noteq> 0" using 2(2) by (auto simp: url_step_def)
  with ih show ?case by simp
qed simp

lemma url_decode_controls:
  "c \<in> set (url_decode q t) \<Longrightarrow> c < 32 \<or> c = 127 \<Longrightarrow> c \<in> set t"
proof (induction q t rule: url_decode.induct)
  case (2 q x r)
  have u: "\<not> (unescape h l < 32 \<or> unescape h l = 127)" for h l by (auto simp: unescape_def Let_def)
  from 2(2) consider "c = fst (url_step q x r)" | "c \<in> set (url_decode q (drop (snd (url_step q x r)) r))" by auto
  then show ?case
  proof cases
    case 1
    then show ?thesis using 2(3) u by (auto simp: url_step_def split: if_splits)
  next
    case c2: 2
    from 2(1) [OF c2 2(3)] show ?thesis using in_set_dropD by fastforce
  qed
qed simp

text \<open>The entities of the HTML and XML encodings, and the continuation lines of the header encoding.\<close>

lemma hex_digit_not_markup: "hex_digit c \<Longrightarrow> c \<noteq> 60 \<and> c \<noteq> 62 \<and> c \<noteq> 38 \<and> c \<noteq> 10"
  by (auto simp: hex_digit_def)

lemma markup_tables:
  "tab = encoded_chars_html \<or> tab = encoded_chars_minimal_xml \<Longrightarrow> tab ! 60 \<noteq> 0 \<and> tab ! 62 \<noteq> 0 \<and> tab ! 38 \<noteq> 0"
  by (auto simp: encoded_chars_html_def encoded_chars_minimal_xml_def nth_append)

lemma encoded_markup:
  assumes "e = ENCODING_HTML \<or> e = ENCODING_MINIMAL_XML"
  shows "60 \<notin> set (encoded e s) \<and> 62 \<notin> set (encoded e s)"
proof (induction s)
  case (Cons c s)
  have r: "the (encoding_map e) ! 60 \<noteq> 0 \<and> the (encoding_map e) ! 62 \<noteq> 0 \<and> the (encoding_map e) ! 38 \<noteq> 0"
    using assms by (intro markup_tables) auto
  have "60 \<notin> set (encoded_char e c) \<and> 62 \<notin> set (encoded_char e c)"
    using assms hex_pair [of c] hex_digit_not_markup [of "hex_hi c"] hex_digit_not_markup [of "hex_lo c"]
    by (auto simp: uri_char_ok_def)
  moreover have "the (encoding_map e) ! unat c = 0 \<Longrightarrow> c \<noteq> 60 \<and> c \<noteq> 62" using r by auto
  ultimately show ?case using Cons by (auto simp: encoded_as_def)
qed simp

lemma header_table: "encoded_chars_http_header ! 10 \<noteq> 0"
  by (simp add: encoded_chars_http_header_def)

lemma encoded_header:
  assumes "i < length (encoded ENCODING_HTTP_HEADER s)" and "encoded ENCODING_HTTP_HEADER s ! i = 10"
  shows "Suc i < length (encoded ENCODING_HTTP_HEADER s) \<and> encoded ENCODING_HTTP_HEADER s ! Suc i = 9"
  using assms
proof (induction s arbitrary: i)
  case (Cons c s)
  show ?case
  proof (cases "encoded_chars_http_header ! unat c = 0")
    case True
    then have e: "encoded_as ENCODING_HTTP_HEADER c = [c]" by (simp add: encoded_as_def)
    have "c \<noteq> 10" using True header_table by auto
    then show ?thesis using Cons e by (cases i) auto
  next
    case False
    then have e: "encoded_as ENCODING_HTTP_HEADER c = [c, 9]" by (simp add: encoded_as_def)
    show ?thesis using Cons e by (cases i; cases "i - 1") auto
  qed
qed simp

text \<open>The hexadecimal copy.\<close>

lemma signed_hi: "hex_chars ! unat (signed_drop_bit 4 c AND 0x0F) = hex_hi (c :: byte)"
  by (rule all_bytes [where P = "\<lambda>c. hex_chars ! unat (signed_drop_bit 4 c AND 0x0F) = hex_hi c"]) code_simp

lemma copy_hex_loop_spec:
  "n + 2 * length s \<le> length p \<Longrightarrow>
   copy_hex_loop s p n = Some (take n p @ encoded ENCODING_HEX s @ drop (n + 2 * length s) p, n + 2 * length s)"
proof (induction s arbitrary: n p)
  case (Cons c s)
  let ?q = "p[n := hex_hi c, n + 1 := hex_lo c]"
  have h: "encoded_as ENCODING_HEX c = [hex_hi c, hex_lo c]"
    using unat_lt_256 [of c] by (simp add: encoded_as_def encoded_chars_hex_def)
  have "copy_hex_loop (c # s) p n = copy_hex_loop s ?q (n + 2)"
    using Cons.prems by (simp add: signed_hi hex_lo_def poke_in del: bind_Some_iff)
  also have "\<dots> = Some (take (n + 2) ?q @ encoded ENCODING_HEX s @ drop (n + 2 + 2 * length s) ?q, n + 2 + 2 * length s)"
    using Cons.prems by (intro Cons.IH) simp
  finally show ?case using Cons.prems h by (simp add: take_Suc_conv_app_nth numeral_2_eq_2)
qed simp

lemma length_encoded_hex: "length (encoded ENCODING_HEX s) = 2 * length s"
proof (induction s)
  case (Cons c s)
  then show ?case using unat_lt_256 [of c] by (simp add: encoded_as_def encoded_chars_hex_def)
qed simp

lemma copy_string_hex:
  assumes ok: "buffer_ok b" and n: "n \<le> length s" and room: "2 * n + 65 < 2 ^ 64"
  shows "\<exists>b'. buffer_copy_string_hex junk (Some b) (Some s) n = Some (0, Some b') \<and> string_ok b'
    \<and> text_of b' = encoded ENCODING_HEX (take n s)"
proof -
  define gb where "gb = grow_copy junk b (n * 2 + 1)"
  obtain p where g: "b_ptr gb = Some p" "length p = b_size gb" "n * 2 + 1 \<le> length p" "b_used gb = 0"
    using grow_copy_ok [OF ok, of "n * 2 + 1" junk] room unfolding gb_def by auto
  have z: "sz (n * 2) = n * 2" "sz (Suc (n * 2)) = Suc (n * 2)" "grow_copy junk b (Suc (n * 2)) = gb"
    using room by (simp_all add: gb_def)
  let ?enc = "encoded ENCODING_HEX (take n s)"
  have l: "copy_hex_loop (take n s) p 0 = Some (?enc @ drop (2 * n) p, 2 * n)"
    using copy_hex_loop_spec [of 0 "take n s" p] n g(3) by simp
  have e: "length ?enc = 2 * n" using n by (simp add: length_encoded_hex)
  show ?thesis
    using n g l z e write_text [OF g(1,2), of "[]" ?enc]
    by (auto simp: buffer_copy_string_hex_def buffer_prepare_copy_def Let_def)
qed

section \<open>Properties\<close>

text \<open>C39: Decoding inverts encoding: a string without control characters that is encoded for a URI into an empty
  string and then decoded in place, as a path or as a query, is the string again, for all contents of the
  memory that is allocated on the way.\<close>
theorem url_round_trip:
  assumes "string_ok b" and "text_of b = []" and "b_used b \<noteq> 0"
    and "e = ENCODING_REL_URI \<or> e = ENCODING_REL_URI_PART" and "\<forall>c \<in> set s. 32 \<le> c \<and> c \<noteq> 127"
    and "b_size b + 3 * length s + 64 < 2 ^ 64"
  shows "\<exists>b1 b2. buffer_append_string_encoded junk (Some b) (Some s) (length s) e = Some (0, Some b1)
    \<and> buffer_urldecode_internal (Some b1) q = Some (0, Some b2) \<and> string_ok b2 \<and> text_of b2 = s"
proof -
  have "length (encoded_as e c) \<le> 3" for c using assms(4) by (auto simp: encoded_as_def)
  then have len: "length (encoded e s) \<le> 3 * length s"
    by (induction s) (auto simp: add_le_mono)
  have "e \<noteq> ENCODING_UNSET" using assms(4) by auto
  from append_encoded [OF assms(1,3) this, of "length s" s junk] len assms(2,6)
  obtain b1 where b1: "buffer_append_string_encoded junk (Some b) (Some s) (length s) e = Some (0, Some b1)"
    "string_ok b1" "b_used b1 \<noteq> 0" "text_of b1 = encoded e s" by auto
  have c: "\<forall>c \<in> set s. \<not> (c < 32 \<or> c = 127)" using assms(5) by (auto simp: not_less)
  have z: "0 \<notin> set (encoded e s)"
  proof
    assume "0 \<in> set (encoded e s)"
    then obtain c where "c \<in> set s" "0 \<in> set (encoded_as e c)" by (auto simp: encoded_def)
    then show False using assms(4) c hex_pair [of c]
      by (auto simp: encoded_as_def uri_char_ok_def split: if_splits)
  qed
  show ?thesis
    using b1(1) urldecode [OF b1(2,3), of q] z decode_encoded [OF assms(4) c, of q] by (auto simp: b1(4))
qed

lemma url_round_trip_witness:
  "\<exists>b1 b2. buffer_append_string_encoded (\<lambda>_. 7) (Some (as_buffer [])) (Some [97, 37, 43, 32]) 4 ENCODING_REL_URI = Some (0, Some b1)
    \<and> buffer_urldecode_internal (Some b1) True = Some (0, Some b2) \<and> string_ok b2 \<and> text_of b2 = [97, 37, 43, 32]"
proof -
  have l: "length [97, 37, 43, 32 :: byte] = 4" by simp
  show ?thesis
    using url_round_trip [of "as_buffer []" ENCODING_REL_URI "[97, 37, 43, 32]" "\<lambda>_. 7" True, unfolded l] by simp
qed

text \<open>Decoding a URL in place stays inside its buffer for every string, however its escapes are cut off,
  and is safe for the code that follows: the text gets no null byte and no control character that was not
  there before, escaped ones become an underscore, and the buffer keeps its size.\<close>
theorem urldecode_safe:
  assumes "string_ok b" and "b_used b \<noteq> 0" and "0 \<notin> set (text_of b)"
  shows "\<exists>b'. buffer_urldecode_internal (Some b) q = Some (0, Some b') \<and> string_ok b' \<and> b_size b' = b_size b
    \<and> 0 \<notin> set (text_of b') \<and> (\<forall>c \<in> set (text_of b'). c < 32 \<or> c = 127 \<longrightarrow> c \<in> set (text_of b))"
  using urldecode [OF assms, of q] url_decode_no_null [OF assms(3), of q] url_decode_controls [of _ q "text_of b"]
  by auto

lemma urldecode_safe_witness:
  "\<exists>b'. buffer_urldecode_internal (Some (as_buffer [37, 48, 48, 97, 37, 52])) True = Some (0, Some b') \<and> string_ok b'
    \<and> 0 \<notin> set (text_of b')"
  using urldecode_safe [of "as_buffer [37, 48, 48, 97, 37, 52]" True] by auto

text \<open>What the encodings append is harmless where it goes: the HTML and the XML encoding append no angle
  bracket, and the header encoding appends no line feed that is not followed by a tab, so that no new
  header line can begin in it.\<close>
theorem encoded_text_harmless:
  assumes "string_ok b" and "b_used b \<noteq> 0" and "n \<le> length s" and "e \<noteq> ENCODING_UNSET"
    and "b_size b + length (encoded e (take n s)) + 64 < 2 ^ 64"
  shows "\<exists>b' t. buffer_append_string_encoded junk (Some b) (Some s) n e = Some (0, Some b') \<and> string_ok b'
    \<and> text_of b' = text_of b @ t
    \<and> (e \<in> {ENCODING_HTML, ENCODING_MINIMAL_XML} \<longrightarrow> 60 \<notin> set t \<and> 62 \<notin> set t)
    \<and> (e = ENCODING_HTTP_HEADER \<longrightarrow> (\<forall>i < length t. t ! i = 10 \<longrightarrow> Suc i < length t \<and> t ! Suc i = 9))"
  using append_encoded [OF assms(1,2,4,3,5), of junk] encoded_markup [of e "take n s"] encoded_header [of _ "take n s"]
  by auto

lemma encoded_text_harmless_witness:
  "\<exists>b' t. buffer_append_string_encoded (\<lambda>_. 0) (Some (as_buffer [97])) (Some [60, 98, 62]) 3 ENCODING_HTML = Some (0, Some b')
    \<and> text_of b' = 97 # t \<and> 60 \<notin> set t"
proof -
  have l: "length (encoded ENCODING_HTML (take 3 [60, 98, 62])) \<le> 18"
    by (simp add: encoded_as_def)
  show ?thesis
    using encoded_text_harmless [of "as_buffer [97]" 3 "[60, 98, 62]" ENCODING_HTML "\<lambda>_. 0"] l by auto
qed

end
