(* ===== verification/Path_Simplify.thy ===== *)
theory Path_Simplify
  imports Byte_Buffers
begin

text \<open>
  \<open>buffer_path_simplify\<close> of lighttpd's buffer.c: the function that takes \<open>..\<close>, \<open>.\<close> and empty segments
  out of the path of a request, in one pass over the characters and in place. A pointer into an area
  is an index (\<open>start\<close> is 0), a \<open>char\<close> is a signed byte, and \<open>pre\<close> holds the last two characters in
  16 bits. The flag \<open>same\<close> says that source and destination are the same buffer: then what the loop
  writes is what it later reads.

  The reference is the usual one, on lists of segments with a stack. The theorems show that the loop
  computes it, that no segment of the result can lead out of the document root, and that a second
  pass changes nothing.
\<close>

section \<open>The code\<close>

function skip_spaces :: "byte list \<Rightarrow> nat \<Rightarrow> nat option" where
  "skip_spaces s walk = do {
     c \<leftarrow> peek s walk;
     if c = 32 then skip_spaces s (walk + 1) else Some walk
   }"
  by auto
termination by (relation "measure (\<lambda>(s, walk). length s - walk)") auto

text \<open>\<open>while (out > start && *out != '/') out--;\<close>\<close>

fun back_loop :: "byte list \<Rightarrow> nat \<Rightarrow> nat option" where
  "back_loop d out = (if out > 0
     then do {
       c \<leftarrow> peek d out;
       if c \<noteq> 47 then back_loop d (out - 1) else Some out
     }
     else Some out)"

text \<open>The part of the loop that closes a segment, at a slash or at the end.\<close>

definition close_token :: "byte list \<Rightarrow> nat \<Rightarrow> nat \<Rightarrow> byte \<Rightarrow> 16 word \<Rightarrow> nat option" where
  "close_token d slash out c pre = (
     let toklen = out - slash in
     if toklen = 3 \<and> pre = 0x2E2E
     then do {
       out \<leftarrow> (if slash > 0 then back_loop d (slash - 1) else Some slash);
       Some (if c = 0 then out + 1 else out)
     }
     else if toklen = 1 \<or> pre = 0x2F2E
     then Some (if c = 0 then slash + 1 else slash)
     else Some out)"

function simplify_loop ::
    "bool \<Rightarrow> byte list \<Rightarrow> byte list \<Rightarrow> nat \<Rightarrow> nat \<Rightarrow> nat \<Rightarrow> byte \<Rightarrow> 16 word \<Rightarrow> (byte list \<times> nat) option" where
  "simplify_loop same s d slash out walk c pre = do {
     (out, slash) \<leftarrow> (if c = 47 \<or> c = 0
        then do { out \<leftarrow> close_token d slash out c pre; Some (out, out) }
        else Some (out, slash));
     if c = 0 then Some (d, out)
     else do {
       let pre1 = c;
       let pre = push_bit 8 pre OR scast pre1;
       c \<leftarrow> peek (if same then d else s) walk;
       d \<leftarrow> poke d out pre1;
       simplify_loop same s d slash (out + 1) (walk + 1) c pre
     }
   }"
  by auto
termination
  by (relation "measure (\<lambda>(same, s, d, slash, out, walk, c, pre). length (if same then d else s) - walk)") auto

definition buffer_path_simplify ::
    "(nat \<Rightarrow> byte) \<Rightarrow> bool \<Rightarrow> buffer option \<Rightarrow> buffer option \<Rightarrow> (int \<times> buffer option) option" where
  "buffer_path_simplify junk same dest src = (
     let src = (if same then dest else src) in
     case (src, dest) of
       (Some sb, Some db) \<Rightarrow> (case b_ptr sb of None \<Rightarrow> Some (- 1, dest) | Some s \<Rightarrow> do {
         db \<leftarrow> (if same then grow_append junk db 1 else Some (grow_copy junk db (sz (b_used sb + 1))));
         d \<leftarrow> b_ptr db;
         let s = (if same then d else s);
         walk \<leftarrow> skip_spaces s 0;
         pre1 \<leftarrow> peek s walk;
         c \<leftarrow> peek s (walk + 1);
         let walk = walk + 2;
         let pre = (if pre1 \<noteq> 47 then 0x2F00 OR scast pre1 else scast pre1);
         (d, out) \<leftarrow> (if pre1 \<noteq> 47 then do { d \<leftarrow> poke d 0 47; Some (d, 1) } else Some (d, 0));
         d \<leftarrow> poke d out pre1;
         let out = out + 1;
         if pre1 = 0 then Some (0, Some (db\<lparr>b_ptr := Some d, b_used := out + 1\<rparr>))
         else do {
           (d, out) \<leftarrow> simplify_loop same s d 0 out walk c pre;
           d \<leftarrow> poke d out 0;
           Some (0, Some (db\<lparr>b_ptr := Some d, b_used := out + 1\<rparr>))
         }
       })
     | _ \<Rightarrow> Some (- 1, dest))"

declare skip_spaces.simps [simp del] back_loop.simps [simp del] simplify_loop.simps [simp del]

section \<open>The reference\<close>

definition dot :: "byte list" where "dot = [46]"
definition dotdot :: "byte list" where "dotdot = [46, 46]"

fun segments :: "byte list \<Rightarrow> byte list list" where
  "segments [] = [[]]"
| "segments (c # r) = (if c = 47 then [] # segments r
     else (c # hd (segments r)) # tl (segments r))"

definition resolve :: "byte list list \<Rightarrow> byte list \<Rightarrow> byte list list" where
  "resolve st seg = (if seg = dotdot then butlast st else if seg = [] \<or> seg = dot then st else st @ [seg])"

definition flat :: "byte list list \<Rightarrow> byte list" where
  "flat st = concat (List.map (\<lambda>s. 47 # s) st)"

definition plain :: "byte list \<Rightarrow> bool" where
  "plain seg \<longleftrightarrow> seg \<noteq> [] \<and> seg \<noteq> dot \<and> seg \<noteq> dotdot"

text \<open>A path ends in a slash when its last segment is not a name.\<close>

definition simplified :: "byte list \<Rightarrow> byte list" where
  "simplified t = (
     let t = dropWhile (\<lambda>c. c = 32) t;
         segs = segments (if t \<noteq> [] \<and> hd t = 47 then tl t else t);
         st = foldl resolve [] segs
     in flat st @ (if plain (last segs) then [] else [47]))"

fun norm :: "byte list list \<Rightarrow> byte list \<Rightarrow> byte list \<Rightarrow> byte list" where
  "norm st tok [] = flat (resolve st tok) @ (if plain tok then [] else [47])"
| "norm st tok (c # r) = (if c = 47 then norm (resolve st tok) [] r else norm st (tok @ [c]) r)"

lemma segments_nonempty [simp]: "segments r \<noteq> []"
  by (cases r) auto

lemma norm_segments:
  "norm st tok r = (let segs = (tok @ hd (segments r)) # tl (segments r)
     in flat (foldl resolve st segs) @ (if plain (last segs) then [] else [47]))"
proof (induction st tok r rule: norm.induct)
  case (2 st tok c r)
  obtain g gs where "segments r = g # gs" by (cases "segments r") auto
  with 2 show ?case by (cases "c = 47") simp_all
qed (simp add: Let_def)

section \<open>The loop computes the reference\<close>

lemma flat_simps [simp]:
  "flat [] = []" "flat (st @ st') = flat st @ flat st'" "flat (seg # st) = 47 # seg @ flat st"
  by (simp_all add: flat_def)

definition pre_ok :: "16 word \<Rightarrow> byte list \<Rightarrow> bool" where
  "pre_ok pre tok \<longleftrightarrow> (tok = [] \<or> ((pre = 0x2F2E) = (tok = dot)
     \<and> (length tok = 2 \<longrightarrow> (pre = 0x2E2E) = (tok = dotdot))))
     \<and> ucast pre = (if tok = [] then 47 else last tok)"

text \<open>Two bytes in 16 bits.\<close>

lemma split16:
  "(w :: 16 word) = v \<longleftrightarrow> ucast w = (ucast v :: byte) \<and> ucast (drop_bit 8 w) = (ucast (drop_bit 8 v) :: byte)"
proof
  assume h: "ucast w = (ucast v :: byte) \<and> ucast (drop_bit 8 w) = (ucast (drop_bit 8 v) :: byte)"
  show "w = v"
  proof (rule bit_word_eqI)
    fix n assume n: "n < LENGTH(16)"
    show "bit w n = bit v n"
    proof (cases "n < 8")
      case True
      have "bit (ucast w :: byte) n = bit (ucast v :: byte) n" using h by simp
      then show ?thesis using True by (simp add: bit_ucast_iff)
    next
      case False
      have "bit (ucast (drop_bit 8 w) :: byte) (n - 8) = bit (ucast (drop_bit 8 v) :: byte) (n - 8)" using h by simp
      moreover have "n - 8 < 8" using False n by simp
      ultimately show ?thesis using False by (simp add: bit_ucast_iff bit_drop_bit_eq)
    qed
  qed
qed simp

lemma pre_low: "ucast (push_bit 8 pre OR scast x :: 16 word) = (x :: byte)"
  by (rule bit_word_eqI) (auto simp: bit_ucast_iff bit_or_iff bit_push_bit_iff bit_signed_iff dest: bit_imp_le_length)

lemma pre_high: "ucast (drop_bit 8 (push_bit 8 pre OR 0x2E :: 16 word)) = (ucast pre :: byte)"
proof (rule bit_word_eqI)
  fix n assume "n < LENGTH(8)"
  moreover have "drop_bit 8 (0x2E :: 16 word) = 0" by simp
  ultimately show "bit (ucast (drop_bit 8 (push_bit 8 pre OR 0x2E :: 16 word)) :: byte) n = bit (ucast pre :: byte) n"
    by (simp only: drop_bit_or) (auto simp: bit_ucast_iff bit_drop_bit_eq bit_push_bit_iff simp del: push_bit_numeral)
qed

lemma pre_is:
  "((push_bit 8 pre OR scast (x :: byte) :: 16 word) = 0x2F2E) = (x = 46 \<and> ucast pre = (47 :: byte))"
  "((push_bit 8 pre OR scast x :: 16 word) = 0x2E2E) = (x = 46 \<and> ucast pre = (46 :: byte))"
proof -
  have "(push_bit 8 pre OR scast x :: 16 word) = v \<longleftrightarrow> x = 46 \<and> ucast pre = (ucast (drop_bit 8 v) :: byte)"
    if "ucast v = (46 :: byte)" for v :: "16 word"
    using that pre_low [of pre x] pre_high [of pre] by (auto simp: split16 [of _ v])
  from this [of "0x2F2E"] this [of "0x2E2E"]
  show "((push_bit 8 pre OR scast x :: 16 word) = 0x2F2E) = (x = 46 \<and> ucast pre = (47 :: byte))"
    "((push_bit 8 pre OR scast x :: 16 word) = 0x2E2E) = (x = 46 \<and> ucast pre = (46 :: byte))"
    by simp_all
qed

lemma pre_ok_step:
  assumes "pre_ok pre tok" and "47 \<notin> set tok" and "c \<noteq> 47"
  shows "pre_ok (push_bit 8 pre OR scast c) (tok @ [c])"
proof -
  have "tok \<noteq> [] \<Longrightarrow> last tok \<noteq> 47" using assms(2) last_in_set [of tok] by metis
  then show ?thesis
    using assms by (auto simp: pre_ok_def pre_is pre_low dot_def dotdot_def length_Suc_conv split: if_splits)
qed

lemma pre_ok_slash: "pre_ok (push_bit 8 pre OR scast (47 :: byte)) []"
  using pre_low [of pre 47] by (simp add: pre_ok_def)

lemma back_loop_spec:
  "take (length o1 + 1 + length seg) d = o1 @ 47 # seg \<Longrightarrow> 47 \<notin> set seg
   \<Longrightarrow> length o1 + length seg < length d \<Longrightarrow> back_loop d (length o1 + length seg) = Some (length o1)"
proof (induction seg rule: rev_induct)
  case Nil
  then have "d ! length o1 = 47" using nth_take [of "length o1" "Suc (length o1)" d] by (simp add: nth_append)
  with Nil show ?case by (cases "length o1") (simp_all add: back_loop.simps)
next
  case (snoc x seg)
  have x: "d ! (length o1 + length (seg @ [x])) = x" and n: "x \<noteq> 47"
    using snoc.prems nth_take [of "length o1 + length (seg @ [x])" "length o1 + 1 + length (seg @ [x])" d]
    by (simp_all add: nth_append)
  have "take (length o1 + 1 + length seg) d = o1 @ 47 # seg"
    using arg_cong [OF snoc.prems(1), of "take (length o1 + 1 + length seg)"] by (simp add: min_def)
  with snoc have "back_loop d (length o1 + length seg) = Some (length o1)" by simp
  then show ?case using x n snoc.prems(3) by (subst back_loop.simps) simp
qed

lemma close_token_spec:
  assumes d: "take (length (flat st) + 1 + length tok) d = flat st @ 47 # tok" "length (flat st) + length tok < length d"
    and pre: "pre_ok pre tok" and st: "\<forall>seg \<in> set st. 47 \<notin> set seg"
  shows "close_token d (length (flat st)) (length (flat st) + 1 + length tok) c pre
    = Some (length (flat (resolve st tok)) + (if \<not> plain tok \<and> c = 0 then 1 else 0))"
proof (cases "tok = dotdot")
  case True
  have pre2: "pre = 0x2E2E" using pre True by (simp add: pre_ok_def dotdot_def)
  show ?thesis
  proof (cases st rule: rev_cases)
    case Nil
    with True pre2 show ?thesis by (simp add: close_token_def resolve_def plain_def dotdot_def)
  next
    case (snoc st' seg)
    have "take (length (flat st') + 1 + length seg) d = flat st' @ 47 # seg"
      using arg_cong [OF d(1), of "take (length (flat st') + 1 + length seg)"] snoc by (simp add: min_def)
    then have "back_loop d (length (flat st') + length seg) = Some (length (flat st'))"
      using snoc st d(2) by (intro back_loop_spec) auto
    with True pre2 snoc show ?thesis by (simp add: close_token_def resolve_def plain_def dotdot_def)
  qed
next
  case False
  then have "\<not> (length tok = 2 \<and> pre = 0x2E2E)" using pre by (auto simp: pre_ok_def)
  then have l: "\<not> (length (flat st) + 1 + length tok - length (flat st) = 3 \<and> pre = 0x2E2E)" by auto
  have m: "(length (flat st) + 1 + length tok - length (flat st) = 1 \<or> pre = 0x2F2E) = (tok = [] \<or> tok = dot)"
    using pre by (auto simp: pre_ok_def)
  show ?thesis
    unfolding close_token_def Let_def if_not_P [OF l] m
    using False by (simp add: resolve_def plain_def)
qed

lemma resolve_slashes:
  "\<forall>seg \<in> set st. 47 \<notin> set seg \<Longrightarrow> 47 \<notin> set tok \<Longrightarrow> \<forall>seg \<in> set (resolve st tok). 47 \<notin> set seg"
  by (auto simp: resolve_def dest: in_set_butlastD)

lemma length_flat_butlast: "length (flat (butlast st)) \<le> length (flat st)"
  by (cases st rule: rev_cases) auto

lemma length_resolve: "length (flat (resolve st tok)) \<le> length (flat st) + 1 + length tok"
  using length_flat_butlast [of st] by (auto simp: resolve_def)

lemma take_resolve:
  assumes "take (length (flat st) + 1 + length tok) d = flat st @ 47 # tok"
  shows "take (length (flat (resolve st tok))) d = flat (resolve st tok)"
    and "\<not> plain tok \<Longrightarrow> take (length (flat (resolve st tok)) + 1) d = flat (resolve st tok) @ [47]"
proof -
  have n: "take n d = take n (flat st @ 47 # tok)" if "n \<le> length (flat st) + 1 + length tok" for n
    using arg_cong [OF assms, of "take n"] that by (simp add: min_def)
  show "take (length (flat (resolve st tok))) d = flat (resolve st tok)"
    unfolding n [OF length_resolve] by (cases st rule: rev_cases) (auto simp: resolve_def)
  assume p: "\<not> plain tok"
  have "length (flat (resolve st tok)) + 1 \<le> length (flat st) + 1 + length tok"
    using p length_flat_butlast [of st] by (auto simp: resolve_def plain_def)
  from n [OF this] show "take (length (flat (resolve st tok)) + 1) d = flat (resolve st tok) @ [47]"
    using p by (cases st rule: rev_cases) (auto simp: resolve_def plain_def)
qed

lemma length_norm: "length (norm st tok r) \<le> length (flat st) + 1 + length tok + length r"
proof (induction st tok r rule: norm.induct)
  case (1 st tok)
  then show ?case
    using length_resolve [of st tok] length_flat_butlast [of st] by (auto simp: resolve_def plain_def)
next
  case (2 st tok c r)
  then show ?case using length_resolve [of st tok] by (cases "c = 47") auto
qed

lemma simplify_loop_spec:
  assumes "take (length (flat st) + 1 + length tok) d = flat st @ 47 # tok"
    and "\<forall>seg \<in> set st. 47 \<notin> set seg" "47 \<notin> set tok" "pre_ok pre tok"
    and "c # drop walk (if same then d else s) = r @ 0 # rest" "0 \<notin> set r"
    and "same \<Longrightarrow> length (flat st) + 1 + length tok \<le> walk"
    and "length (flat st) + 1 + length tok + length r < length d"
  shows "\<exists>d'. simplify_loop same s d (length (flat st)) (length (flat st) + 1 + length tok) walk c pre
      = Some (d', length (norm st tok r)) \<and> length d' = length d \<and> take (length (norm st tok r)) d' = norm st tok r"
  using assms
proof (induction r arbitrary: st tok d pre c walk)
  case Nil
  have c: "c = 0" using Nil.prems(5) by simp
  let ?k = "length (flat (resolve st tok)) + (if plain tok then 0 else 1)"
  have "close_token d (length (flat st)) (length (flat st) + 1 + length tok) c pre = Some ?k"
    using close_token_spec [OF Nil.prems(1) _ Nil.prems(4,2), of c] Nil.prems(8) c by simp
  then have "simplify_loop same s d (length (flat st)) (length (flat st) + 1 + length tok) walk c pre = Some (d, ?k)"
    using c by (subst simplify_loop.simps) simp
  moreover have "length (norm st tok []) = ?k" by simp
  moreover have "take ?k d = norm st tok []"
    using take_resolve [OF Nil.prems(1)] by (cases "plain tok") simp_all
  ultimately show ?case by simp
next
  case (Cons x r)
  let ?s = "if same then d else s" and ?out = "length (flat st) + 1 + length tok"
  have c: "c = x" "x \<noteq> 0" and w: "drop walk ?s = r @ 0 # rest" using Cons.prems(5,6) by auto
  have wl: "walk < length ?s" using w by (cases "walk < length ?s") auto
  then have w': "?s ! walk # drop (walk + 1) ?s = r @ 0 # rest" using w by (simp add: Cons_nth_drop_Suc)
  have ahead: "?s ! walk # drop (walk + 1) (if same then d[out := x] else s) = r @ 0 # rest" if "out \<le> ?out" for out
    using w' Cons.prems(7) that by (auto split: if_splits)
  let ?pre = "push_bit 8 pre OR scast x"
  show ?case
  proof (cases "x = 47")
    case False
    have "simplify_loop same s d (length (flat st)) ?out walk c pre
      = simplify_loop same s (d[?out := x]) (length (flat st)) (?out + 1) (walk + 1) (?s ! walk) ?pre"
      using False c wl Cons.prems(8)
      by (subst simplify_loop.simps, cases same) (simp_all add: poke_in peek_def Let_def del: bind_Some_iff)
    moreover have "take (length (flat st) + 1 + length (tok @ [x])) (d[?out := x]) = flat st @ 47 # (tok @ [x])"
      using Cons.prems(1,8) by (simp add: take_Suc_conv_app_nth)
    ultimately show ?thesis
      using Cons.IH [of st "tok @ [x]" "d[?out := x]" ?pre "?s ! walk" "walk + 1"]
        Cons.prems False pre_ok_step [OF Cons.prems(4,3) False] ahead [of ?out]
      by simp
  next
    case True
    let ?st = "resolve st tok" 
    let ?o = "length (flat ?st)"
    have o: "?o \<le> ?out" by (rule length_resolve)
    have sm: "same \<Longrightarrow> ?o \<le> walk" using o Cons.prems(7) by (rule order_trans)
    have "close_token d (length (flat st)) ?out c pre = Some ?o"
      using close_token_spec [OF Cons.prems(1) _ Cons.prems(4,2), of c] Cons.prems(8) c by simp
    then have "simplify_loop same s d (length (flat st)) ?out walk c pre
      = simplify_loop same s (d[?o := x]) ?o (?o + 1) (walk + 1) (?s ! walk) ?pre"
      using True c wl o Cons.prems(8)
      by (subst simplify_loop.simps, cases same) (simp_all add: poke_in peek_def Let_def del: bind_Some_iff)
    moreover have "take (?o + 1) (d[?o := x]) = flat ?st @ [47]"
      using take_resolve(1) [OF Cons.prems(1)] True o Cons.prems(8) by (simp add: take_Suc_conv_app_nth)
    ultimately show ?thesis
      using Cons.IH [of ?st "[]" "d[?o := x]" ?pre "?s ! walk" "walk + 1"]
        Cons.prems True pre_ok_slash [of pre] ahead [of ?o] o sm resolve_slashes [OF Cons.prems(2,3)]
      by (simp split del: if_split)
  qed
qed

lemma skip_spaces_spec:
  "\<forall>c \<in> set u. c = 32 \<Longrightarrow> x \<noteq> 32 \<Longrightarrow> skip_spaces (p @ u @ x # r) (length p) = Some (length p + length u)"
proof (induction u arbitrary: p)
  case Nil
  then show ?case by (simp add: skip_spaces.simps peek_def)
next
  case (Cons c u)
  then show ?case using Cons.IH [of "p @ [c]"] by (simp add: skip_spaces.simps peek_def)
qed

lemma norm_simplified:
  assumes "\<forall>c \<in> set u. c = 32" "x \<noteq> 32"
  shows "norm [] (if x = 47 then [] else [x]) r = simplified (u @ x # r)"
proof -
  have "dropWhile (\<lambda>c. c = 32) (u @ x # r) = x # r" using assms by (simp add: dropWhile_append2)
  moreover obtain g gs where "segments r = g # gs" by (cases "segments r") auto
  ultimately show ?thesis by (simp add: simplified_def norm_segments)
qed

lemma simplified_pass:
  assumes s: "if same then s = d else True" "s = t @ 0 # rest" and t: "0 \<notin> set t" "dropWhile (\<lambda>c. c = 32) t \<noteq> []"
    and room: "length t + 2 \<le> length d"
  shows "\<exists>d'. do {
         walk \<leftarrow> skip_spaces s 0;
         pre1 \<leftarrow> peek s walk;
         c \<leftarrow> peek s (walk + 1);
         let walk = walk + 2;
         let pre = (if pre1 \<noteq> 47 then 0x2F00 OR scast pre1 else scast pre1);
         (d, out) \<leftarrow> (if pre1 \<noteq> 47 then do { d \<leftarrow> poke d 0 47; Some (d, 1) } else Some (d, 0));
         d \<leftarrow> poke d out pre1;
         let out = out + 1;
         if pre1 = 0 then Some (0, Some (db\<lparr>b_ptr := Some d, b_used := out + 1\<rparr>))
         else do {
           (d, out) \<leftarrow> simplify_loop same s d 0 out walk c pre;
           d \<leftarrow> poke d out 0;
           Some (0, Some (db\<lparr>b_ptr := Some d, b_used := out + 1\<rparr>))
         }
       } = Some (0 :: int, Some (db\<lparr>b_ptr := Some (d'[length (simplified t) := 0]), b_used := length (simplified t) + 1\<rparr>))
     \<and> length d' = length d \<and> take (length (simplified t)) d' = simplified t \<and> length (simplified t) < length d"
proof -
  obtain x r where xr: "dropWhile (\<lambda>c. c = 32) t = x # r" using t(2) by (cases "dropWhile (\<lambda>c. c = 32) t") auto
  define u where "u = takeWhile (\<lambda>c. c = 32) t"
  have u: "t = u @ x # r" "\<forall>c \<in> set u. c = 32" "x \<noteq> 32"
    using takeWhile_dropWhile_id [of "\<lambda>c. c = 32" t] hd_dropWhile [OF t(2)] xr
    by (simp_all add: u_def) (auto dest: set_takeWhileD)
  have k: "skip_spaces s 0 = Some (length u)"
    using skip_spaces_spec [OF u(2,3), of "[]" "r @ 0 # rest"] s(2) u(1) by simp
  obtain c q where c: "r @ 0 # rest = c # q" by (cases "r @ 0 # rest") auto
  have pk: "peek s (length u) = Some x" "peek s (length u + 1) = Some c"
    using s(2) u(1) c by (simp_all add: peek_def nth_append)
  have x: "x \<noteq> 0" "0 \<notin> set r" using t(1) u(1) by auto
  have w: "c # drop (length u + 2) s = r @ 0 # rest" using s(2) u(1) c by simp
  let ?tok = "if x = 47 then [] else [x]"
  let ?pre = "if x \<noteq> 47 then 0x2F00 OR scast x else scast x :: 16 word"
  let ?d = "if x = 47 then d[0 := 47] else d[0 := 47, 1 := x]"
  have pre: "pre_ok ?pre ?tok"
  proof (cases "x = 47")
    case True
    then show ?thesis by (simp add: pre_ok_def)
  next
    case False
    have "pre_ok (0x2F :: 16 word) []" by (simp add: pre_ok_def)
    then have "pre_ok (push_bit 8 (0x2F :: 16 word) OR scast x) ([] @ [x])" using False by (intro pre_ok_step) auto
    then show ?thesis using False by simp
  qed
  have d0: "take (length (flat []) + 1 + length ?tok) ?d = flat [] @ 47 # ?tok"
    using room u(1) by (cases d; cases "tl d") auto
  have w': "c # drop (length u + 2) (if same then ?d else s) = r @ 0 # rest"
    using w s(1) by (auto split: if_splits)
  have room': "length (flat []) + 1 + length ?tok + length r < length ?d"
    using room u(1) by simp
  have "\<exists>d'. simplify_loop same s ?d (length (flat [])) (length (flat []) + 1 + length ?tok) (length u + 2) c ?pre
      = Some (d', length (norm [] ?tok r)) \<and> length d' = length ?d \<and> take (length (norm [] ?tok r)) d' = norm [] ?tok r"
    by (rule simplify_loop_spec [OF d0 _ _ pre w' x(2) _ room']) (simp_all split: if_split)
  then obtain d' where d': "simplify_loop same s ?d 0 (1 + length ?tok) (length u + 2) c ?pre
      = Some (d', length (simplified t))" "length d' = length d" "take (length (simplified t)) d' = simplified t"
    unfolding norm_simplified [OF u(2,3)] u(1) by auto
  have "length (simplified t) < length d"
    using length_norm [of "[]" ?tok r] room' norm_simplified [OF u(2,3), of r] u(1) by (simp split: if_splits)
  moreover have l: "0 < length d" "1 < length d" using room by linarith+
  moreover have "poke d 0 c = Some (d[0 := c])" "poke (d[0 := 47]) 1 c = Some (d[0 := 47, 1 := c])" for c
    using l by (simp_all add: poke_def)
  moreover have "poke d' (length (simplified t)) 0 = Some (d'[length (simplified t) := 0])"
    using d' calculation(1) by (simp add: poke_def)
  ultimately show ?thesis
    using k pk x(1) d'
    by (intro exI [of _ d']) (cases "x = 47"; simp add: Let_def del: bind_Some_iff peek_Some poke_Some)
qed

text \<open>In place, and from one buffer into another.\<close>

lemma path_simplify_same:
  assumes ok: "string_ok b" and t: "0 \<notin> set (text_of b)" "dropWhile (\<lambda>c. c = 32) (text_of b) \<noteq> []"
    and room: "b_size b + 65 < 2 ^ 64"
  shows "\<exists>b'. buffer_path_simplify junk True (Some b) src = Some (0, Some b')
    \<and> string_ok b' \<and> text_of b' = simplified (text_of b)"
proof -
  have bok: "buffer_ok b" using ok by (simp add: string_ok_def)
  have u: "b_used b \<noteq> 0" using text_nonempty_used [OF bok] t(2) by (cases "text_of b") simp_all
  obtain p rest where p: "b_ptr b = Some p" "content b = text_of b @ [0]" "b_used b = length (text_of b) + 1"
    using string_area [OF ok u] by metis
  obtain b' d where g: "grow_append junk b 1 = Some b'" "b_ptr b' = Some d" "length d = b_size b'"
    "b_used b + 1 \<le> length d" "take (b_used b) d = content b"
    using grow_append_ok [OF bok, of 1 junk] room by (simp del: One_nat_def) blast
  have d: "d = text_of b @ 0 # drop (b_used b) d" using g(5) p(2) append_take_drop_id [of "b_used b" d] by simp
  obtain d' where "buffer_path_simplify junk True (Some b) src
      = Some (0, Some (b'\<lparr>b_ptr := Some (d'[length (simplified (text_of b)) := 0]), b_used := length (simplified (text_of b)) + 1\<rparr>))"
    and d': "length d' = length d" "take (length (simplified (text_of b))) d' = simplified (text_of b)"
    "length (simplified (text_of b)) < length d"
    using simplified_pass [where same = True and s = d and d = d and db = b', OF _ d t] g p
    by (auto simp: buffer_path_simplify_def Let_def simp del: bind_Some_iff)
  moreover have "string_ok (b'\<lparr>b_ptr := Some (d'[length (simplified (text_of b)) := 0]), b_used := length (simplified (text_of b)) + 1\<rparr>)
      \<and> text_of (b'\<lparr>b_ptr := Some (d'[length (simplified (text_of b)) := 0]), b_used := length (simplified (text_of b)) + 1\<rparr>)
        = simplified (text_of b)"
    by (rule text_from_area [where p = "d'[length (simplified (text_of b)) := 0]"]) (use d' g(3) in simp_all)
  ultimately show ?thesis by blast
qed

lemma path_simplify_other:
  assumes dest: "buffer_ok b" and ok: "string_ok sb"
    and t: "0 \<notin> set (text_of sb)" "dropWhile (\<lambda>c. c = 32) (text_of sb) \<noteq> []" and room: "b_used sb + 66 < 2 ^ 64"
  shows "\<exists>b'. buffer_path_simplify junk False (Some b) (Some sb) = Some (0, Some b')
    \<and> string_ok b' \<and> text_of b' = simplified (text_of sb)"
proof -
  have bok: "buffer_ok sb" using ok by (simp add: string_ok_def)
  have u: "b_used sb \<noteq> 0" using text_nonempty_used [OF bok] t(2) by (cases "text_of sb") simp_all
  obtain p rest where p: "b_ptr sb = Some p" "p = text_of sb @ 0 # rest" "b_used sb = length (text_of sb) + 1"
    using string_area [OF ok u] by metis
  let ?n = "b_used sb + 1"
  define gb where "gb = grow_copy junk b ?n"
  obtain d where g: "b_ptr gb = Some d" "length d = b_size gb" "?n \<le> length d"
    using grow_copy_ok [OF dest, of ?n junk] room unfolding gb_def by auto
  have z: "sz (Suc (b_used sb)) = Suc (b_used sb)" "grow_copy junk b (Suc (b_used sb)) = gb"
    using room by (simp_all add: gb_def)
  have l: "length (text_of sb) + 2 \<le> length d" using g(3) p(3) by simp
  let ?t = "simplified (text_of sb)"
  obtain d' where d': "length d' = length d" "take (length ?t) d' = ?t" "length ?t < length d" and
    "buffer_path_simplify junk False (Some b) (Some sb)
      = Some (0, Some (gb\<lparr>b_ptr := Some (d'[length ?t := 0]), b_used := length ?t + 1\<rparr>))"
    using simplified_pass [where same = False and s = p and d = d and db = gb, OF _ p(2) t l] g(1) p(1)
    by (auto simp: buffer_path_simplify_def Let_def z simp del: bind_Some_iff)
  moreover have "string_ok (gb\<lparr>b_ptr := Some (d'[length ?t := 0]), b_used := length ?t + 1\<rparr>)
      \<and> text_of (gb\<lparr>b_ptr := Some (d'[length ?t := 0]), b_used := length ?t + 1\<rparr>) = ?t"
    by (rule text_from_area [where p = "d'[length ?t := 0]"]) (use d' g(2) in simp_all)
  ultimately show ?thesis by blast
qed

section \<open>What a simplified path is\<close>

lemma segments_slash: "seg \<in> set (segments t) \<Longrightarrow> 47 \<notin> set seg"
proof (induction t arbitrary: seg)
  case (Cons c t)
  obtain g gs where "segments t = g # gs" by (cases "segments t") auto
  with Cons show ?case by (cases "c = 47") auto
qed simp

lemma segments_append: "47 \<notin> set seg \<Longrightarrow> segments (seg @ 47 # t) = seg # segments t"
  by (induction seg) auto

lemma segments_last: "47 \<notin> set seg \<Longrightarrow> segments seg = [seg]"
  by (induction seg) auto

lemma segments_flat:
  "\<forall>seg \<in> set st. 47 \<notin> set seg \<Longrightarrow> st \<noteq> [] \<Longrightarrow> segments (tl (flat st)) = st \<and> segments (tl (flat st @ [47])) = st @ [[]]"
proof (induction st rule: induct_list012)
  case (2 seg)
  then show ?case by (simp add: segments_last segments_append)
next
  case (3 s1 s2 st)
  then show ?case by (simp add: segments_append)
qed simp

lemma foldl_resolve:
  "\<forall>seg \<in> set segs. 47 \<notin> set seg \<Longrightarrow> \<forall>seg \<in> set st. plain seg \<and> 47 \<notin> set seg
   \<Longrightarrow> \<forall>seg \<in> set (foldl resolve st segs). plain seg \<and> 47 \<notin> set seg"
proof (induction segs arbitrary: st)
  case (Cons s segs)
  have "\<forall>seg \<in> set segs. 47 \<notin> set seg" using Cons.prems(1) by simp
  moreover have "\<forall>seg \<in> set (resolve st s). plain seg \<and> 47 \<notin> set seg"
    using Cons.prems by (auto simp: resolve_def plain_def dest: in_set_butlastD)
  ultimately show ?case unfolding foldl_Cons by (rule Cons.IH)
qed simp

lemma foldl_resolve_plain: "\<forall>seg \<in> set segs. plain seg \<Longrightarrow> foldl resolve st segs = st @ segs"
  by (induction segs arbitrary: st) (auto simp: resolve_def plain_def)

lemma simplified_form:
  obtains st where "\<forall>seg \<in> set st. plain seg \<and> 47 \<notin> set seg"
    "simplified t = flat st \<and> st \<noteq> [] \<or> simplified t = flat st @ [47]"
proof -
  define u where "u = dropWhile (\<lambda>c. c = 32) t"
  define segs where "segs = segments (if u \<noteq> [] \<and> hd u = 47 then tl u else u)"
  let ?st = "foldl resolve [] segs"
  have s: "simplified t = flat ?st @ (if plain (last segs) then [] else [47])"
    by (simp add: simplified_def Let_def u_def segs_def)
  have "\<forall>seg \<in> set ?st. plain seg \<and> 47 \<notin> set seg"
    by (rule foldl_resolve) (auto simp: segs_def dest: segments_slash)
  moreover have "?st \<noteq> []" if "plain (last segs)"
  proof -
    have "segs = butlast segs @ [last segs]" unfolding segs_def by (rule append_butlast_last_id [symmetric]) simp
    then have "?st = foldl resolve [] (butlast segs @ [last segs])" by (rule arg_cong)
    then show ?thesis using that by (simp add: resolve_def plain_def)
  qed
  ultimately show thesis using that [of ?st] s by (cases "plain (last segs)") simp_all
qed

lemma simplified_segments:
  "hd (simplified t) = 47 \<and> (\<forall>seg \<in> set (butlast (segments (tl (simplified t)))). plain seg)
   \<and> (let l = last (segments (tl (simplified t))) in l = [] \<or> plain l)"
proof -
  obtain st where st: "\<forall>seg \<in> set st. plain seg \<and> 47 \<notin> set seg"
    "simplified t = flat st \<and> st \<noteq> [] \<or> simplified t = flat st @ [47]"
    by (rule simplified_form)
  have s: "\<forall>seg \<in> set st. 47 \<notin> set seg" using st(1) by blast
  consider "simplified t = flat st" "st \<noteq> []" | "simplified t = [47]" | "simplified t = flat st @ [47]" "st \<noteq> []"
    using st(2) by (cases st) auto
  then show ?thesis
  proof cases
    case 1
    then show ?thesis using segments_flat [OF s] st(1) by (cases st) (auto dest: in_set_butlastD)
  next
    case 3
    then show ?thesis using segments_flat [OF s] st(1) by (cases st) auto
  qed simp
qed

lemma simplified_idem: "simplified (simplified t) = simplified t"
proof -
  obtain st where st: "\<forall>seg \<in> set st. plain seg \<and> 47 \<notin> set seg"
    "simplified t = flat st \<and> st \<noteq> [] \<or> simplified t = flat st @ [47]"
    by (rule simplified_form)
  have s: "\<forall>seg \<in> set st. 47 \<notin> set seg" and p: "\<forall>seg \<in> set st. plain seg" using st(1) by blast+
  have h: "simplified t \<noteq> [] \<and> hd (simplified t) = 47" using st(2) by (cases st) auto
  then have "dropWhile (\<lambda>c. c = 32) (simplified t) = simplified t" by (cases "simplified t") auto
  then have eq: "simplified (simplified t) = (let segs = segments (tl (simplified t))
     in flat (foldl resolve [] segs) @ (if plain (last segs) then [] else [47]))"
    using h by (simp add: simplified_def [of "simplified t"] Let_def)
  consider "simplified t = flat st" "st \<noteq> []" | "simplified t = [47]" | "simplified t = flat st @ [47]" "st \<noteq> []"
    using st(2) by (cases st) auto
  then show ?thesis
  proof cases
    case 1
    then show ?thesis using segments_flat [OF s] foldl_resolve_plain [OF p, of "[]"] p eq by simp
  next
    case 2
    then show ?thesis unfolding eq by (simp add: resolve_def plain_def)
  next
    case 3
    then show ?thesis using segments_flat [OF s] foldl_resolve_plain [OF p, of "[]"] eq
      by (simp add: resolve_def plain_def dotdot_def)
  qed
qed

section \<open>Properties\<close>


definition sample_path :: "byte list" where
  "sample_path = [32, 47, 97, 47, 46, 46, 47, 46, 47, 98, 47, 46, 46]"


text \<open>No segment of a path that has been simplified leads out of the document root or is redundant: the
  path begins with a slash, none of its segments is \<open>.\<close> or \<open>..\<close>, and only the last one may be empty. A
  second pass changes nothing.\<close>
theorem path_simplify_safe:
  assumes "string_ok src" and "0 \<notin> set (text_of src)" and "dropWhile (\<lambda>c. c = 32) (text_of src) \<noteq> []"
    and "b_size src + 66 < 2 ^ 64"
    and "buffer_path_simplify junk True (Some src) (Some src) = Some (r, Some b')"
  shows "hd (text_of b') = 47
    \<and> (\<forall>seg \<in> set (butlast (segments (tl (text_of b')))). seg \<noteq> [] \<and> seg \<noteq> dot \<and> seg \<noteq> dotdot)
    \<and> last (segments (tl (text_of b'))) \<noteq> dot \<and> last (segments (tl (text_of b'))) \<noteq> dotdot
    \<and> simplified (text_of b') = text_of b'"
proof -
  have eq: "text_of b' = simplified (text_of src)"
    using path_simplify_same [OF assms(1-3), of junk "Some src"] assms(4,5) by auto
  let ?s = "segments (tl (simplified (text_of src)))"
  have h: "hd (simplified (text_of src)) = 47" and p: "\<forall>seg \<in> set (butlast ?s). plain seg"
    and l: "last ?s = [] \<or> plain (last ?s)"
    using simplified_segments [of "text_of src"] unfolding Let_def by blast+
  have "\<forall>seg \<in> set (butlast ?s). seg \<noteq> [] \<and> seg \<noteq> dot \<and> seg \<noteq> dotdot" using p unfolding plain_def .
  moreover have "last ?s \<noteq> dot" "last ?s \<noteq> dotdot" using l by (auto simp: plain_def dot_def dotdot_def)
  ultimately show ?thesis unfolding eq using h simplified_idem by blast
qed

lemma path_simplify_safe_witness:
  "\<exists>r b'. buffer_path_simplify (\<lambda>_. 0) True (Some (as_buffer sample_path)) (Some (as_buffer sample_path)) = Some (r, Some b')
    \<and> last (segments (tl (text_of b'))) \<noteq> dotdot"
proof -
  have s: "string_ok (as_buffer sample_path)" "0 \<notin> set (text_of (as_buffer sample_path))"
    "dropWhile (\<lambda>c. c = 32) (text_of (as_buffer sample_path)) \<noteq> []" "b_size (as_buffer sample_path) + 66 < 2 ^ 64"
    by (simp_all add: sample_path_def)
  have "b_size (as_buffer sample_path) + 65 < 2 ^ 64" using s(4) by linarith
  from path_simplify_same [OF s(1-3) this, of "\<lambda>_. 0"] obtain b'
    where "buffer_path_simplify (\<lambda>_. 0) True (Some (as_buffer sample_path)) (Some (as_buffer sample_path)) = Some (0, Some b')"
    by blast
  with path_simplify_safe [OF s this] show ?thesis by blast
qed

text \<open>A path of nothing but spaces becomes a slash, but the length that the call records counts one byte
  more than the slash and its terminator.\<close>
theorem path_simplify_blank:
  assumes "string_ok b" and "b_used b \<noteq> 0" and "\<forall>c \<in> set (text_of b). c = 32" and "b_size b + 65 < 2 ^ 64"
  shows "\<exists>b'. buffer_path_simplify junk True (Some b) src = Some (0, Some b')
    \<and> take 2 (area b') = [47, 0] \<and> b_used b' = 3"
proof -
  have bok: "buffer_ok b" using assms(1) by (simp add: string_ok_def)
  obtain p rest where p: "b_ptr b = Some p" "content b = text_of b @ [0]" "b_used b = length (text_of b) + 1"
    using string_area [OF assms(1,2)] by metis
  obtain b' d where g: "grow_append junk b 1 = Some b'" "b_ptr b' = Some d" "length d = b_size b'"
    "b_used b + 1 \<le> length d" "take (b_used b) d = content b"
    using grow_append_ok [OF bok, of 1 junk] assms(4) by (simp del: One_nat_def) blast
  have d: "text_of b @ 0 # drop (b_used b) d = d" using g(5) p(2) append_take_drop_id [of "b_used b" d] by simp
  have "skip_spaces (text_of b @ 0 # drop (b_used b) d) 0 = Some (length (text_of b))"
    using skip_spaces_spec [OF assms(3), of 0 "[]" "drop (b_used b) d"] by simp
  then have "skip_spaces d 0 = Some (length (text_of b))" unfolding d .
  moreover have "peek (text_of b @ 0 # drop (b_used b) d) (length (text_of b)) = Some 0" by (simp add: nth_append)
  then have "peek d (length (text_of b)) = Some 0" unfolding d .
  moreover have "peek d (length (text_of b) + 1) = Some (d ! (length (text_of b) + 1))" using g(4) p(3) by simp
  moreover have "2 \<le> length d" using g(4) p(3) by linarith
  then have "poke d 0 47 = Some (d[0 := 47])" "poke (d[0 := 47]) 1 0 = Some (d[0 := 47, 1 := 0])"
    "take 2 (d[0 := 47, 1 := 0]) = [47, 0]"
    by (cases d; cases "tl d"; simp add: numeral_2_eq_2)+
  ultimately show ?thesis
    using g p(1)
    by (auto simp: buffer_path_simplify_def Let_def area_def simp del: bind_Some_iff peek_Some poke_Some)
qed

lemma path_simplify_blank_witness:
  "\<exists>b'. buffer_path_simplify (\<lambda>_. 0) True (Some (as_buffer [32, 32])) None = Some (0, Some b')
    \<and> take 2 (area b') = [47, 0] \<and> b_used b' = 3"
  by (rule path_simplify_blank) simp_all

end
