(* ===== verification/Request_Paths.thy ===== *)
theory Request_Paths
  imports Byte_Texts Url_Codec Path_Simplify
begin

text \<open>
  From the request line to a file name: the part of response.c (\<open>http_response_prepare\<close>) of lighttpd that cuts the
  URI of a request into path and query, decodes and simplifies the path and appends it to the document
  root, and the test of request.c on the characters of the URI. The record holds the buffers of the
  connection that these statements read and write; the plug-ins and conditional settings that the code
  consults in between are taken to leave them alone.
\<close>

section \<open>The code\<close>

record connection =
  con_uri :: buffer
  uri_scheme :: buffer
  uri_authority :: buffer
  uri_path :: buffer
  uri_path_raw :: buffer
  uri_query :: buffer
  phys_path :: buffer
  phys_basedir :: buffer
  phys_doc_root :: buffer
  phys_rel_path :: buffer
  server_name :: buffer
  tmp_buf :: buffer

definition request_uri_is_valid_char :: "byte \<Rightarrow> int" where
  "request_uri_is_valid_char c = (if c \<le> 32 then 0 else if c = 127 then 0 else if c = 255 then 0 else 1)"

text \<open>The loop over the characters of the URI, up to the first that is rejected.\<close>

function check_uri :: "byte list \<Rightarrow> nat \<Rightarrow> nat \<Rightarrow> bool option" where
  "check_uri p j used = (if j < sz (used + 2 ^ 64 - 1) then do {
     c \<leftarrow> peek p j;
     if request_uri_is_valid_char c = 0 then Some False else check_uri p (j + 1) used
   } else Some True)"
  by auto
termination by (relation "measure (\<lambda>(p, j, used). sz (used + 2 ^ 64 - 1) - j)") auto

text \<open>\<open>strchr\<close> gives the position of a character, and faults on an area without a null byte.\<close>

definition strchr :: "byte list \<Rightarrow> byte \<Rightarrow> nat option option" where
  "strchr p c = do {
     n \<leftarrow> strlen p;
     let i = length (takeWhile (\<lambda>x. x \<noteq> c) (take n p));
     Some (if i < n then Some i else None)
   }"

definition set_scheme :: "(nat \<Rightarrow> byte) \<Rightarrow> bool \<Rightarrow> connection \<Rightarrow> connection option" where
  "set_scheme junk is_ssl con = do {
     b \<leftarrow> (if is_ssl then after (buffer_copy_string_len junk (Some (uri_scheme con)) (Some [104, 116, 116, 112, 115, 0]) 5)
          else after (buffer_copy_string_len junk (Some (uri_scheme con)) (Some [104, 116, 116, 112, 0]) 4));
     Some (con\<lparr>uri_scheme := b\<rparr>)
   }"

definition set_authority :: "(nat \<Rightarrow> byte) \<Rightarrow> buffer option \<Rightarrow> connection \<Rightarrow> connection option" where
  "set_authority junk http_host con = do {
     b \<leftarrow> after (buffer_copy_string_buffer junk (Some (uri_authority con)) http_host);
     (_, b) \<leftarrow> buffer_to_lower b;
     Some (con\<lparr>uri_authority := b\<rparr>)
   }"

text \<open>The fragment is cut away at the first hash sign.\<close>

definition cut_fragment :: "connection \<Rightarrow> connection option" where
  "cut_fragment con = do {
     p \<leftarrow> b_ptr (con_uri con);
     qstr \<leftarrow> strchr p 35;
     case qstr of
       None \<Rightarrow> Some con
     | Some q \<Rightarrow> do {
         p \<leftarrow> poke p q 0;
         Some (con\<lparr>con_uri := (con_uri con)\<lparr>b_ptr := Some p, b_used := q + 1\<rparr>\<rparr>)
       }
   }"

definition split_query :: "(nat \<Rightarrow> byte) \<Rightarrow> connection \<Rightarrow> connection option" where
  "split_query junk con = do {
     p \<leftarrow> b_ptr (con_uri con);
     qstr \<leftarrow> strchr p 63;
     case qstr of
       Some q \<Rightarrow> do {
         query \<leftarrow> after (buffer_copy_string junk (Some (uri_query con)) (Some (drop (q + 1) p)));
         raw \<leftarrow> after (buffer_copy_string_len junk (Some (uri_path_raw con)) (Some p) q);
         Some (con\<lparr>uri_query := query, uri_path_raw := raw\<rparr>)
       }
     | None \<Rightarrow> do {
         query \<leftarrow> buffer_reset (Some (uri_query con));
         query \<leftarrow> query;
         raw \<leftarrow> after (buffer_copy_string_buffer junk (Some (uri_path_raw con)) (Some (con_uri con)));
         Some (con\<lparr>uri_query := query, uri_path_raw := raw\<rparr>)
       }
   }"

definition sanitise_path :: "(nat \<Rightarrow> byte) \<Rightarrow> bool \<Rightarrow> connection \<Rightarrow> connection option" where
  "sanitise_path junk method_options con = do {
     star \<leftarrow> (if method_options then do {
         p \<leftarrow> b_ptr (uri_path_raw con);
         c \<leftarrow> peek p 0;
         if c = 42 then do { c \<leftarrow> peek p 1; Some (c = 0) } else Some False
       } else Some False);
     if star then do {
       path \<leftarrow> after (buffer_copy_string_buffer junk (Some (uri_path con)) (Some (uri_path_raw con)));
       Some (con\<lparr>uri_path := path\<rparr>)
     }
     else do {
       tmp \<leftarrow> after (buffer_copy_string_buffer junk (Some (tmp_buf con)) (Some (uri_path_raw con)));
       tmp \<leftarrow> after (buffer_urldecode_path (Some tmp));
       path \<leftarrow> after (buffer_path_simplify junk False (Some (uri_path con)) (Some tmp));
       Some (con\<lparr>tmp_buf := tmp, uri_path := path\<rparr>)
     }
   }"

definition prepare_uri ::
    "(nat \<Rightarrow> byte) \<Rightarrow> bool \<Rightarrow> buffer option \<Rightarrow> bool \<Rightarrow> connection \<Rightarrow> connection option" where
  "prepare_uri junk is_ssl http_host method_options con = do {
     con \<leftarrow> set_scheme junk is_ssl con;
     con \<leftarrow> set_authority junk http_host con;
     con \<leftarrow> cut_fragment con;
     con \<leftarrow> split_query junk con;
     sanitise_path junk method_options con
   }"

definition search_document_root :: "(nat \<Rightarrow> byte) \<Rightarrow> buffer \<Rightarrow> connection \<Rightarrow> connection option" where
  "search_document_root junk document_root con = do {
     root \<leftarrow> after (buffer_copy_string_buffer junk (Some (phys_doc_root con)) (Some document_root));
     rel \<leftarrow> after (buffer_copy_string_buffer junk (Some (phys_rel_path con)) (Some (uri_path con)));
     Some (con\<lparr>phys_doc_root := root, phys_rel_path := rel\<rparr>)
   }"

definition physical_path :: "(nat \<Rightarrow> byte) \<Rightarrow> bool \<Rightarrow> connection \<Rightarrow> connection option" where
  "physical_path junk force_lowercase con = do {
     rel \<leftarrow> (if force_lowercase then do { (_, b) \<leftarrow> buffer_to_lower (phys_rel_path con); Some b } else Some (phys_rel_path con));
     name \<leftarrow> (if buffer_is_empty (Some (server_name con))
              then after (buffer_copy_string_buffer junk (Some (server_name con)) (Some (uri_authority con)))
              else Some (server_name con));
     path \<leftarrow> after (buffer_copy_string_buffer junk (Some (phys_path con)) (Some (phys_doc_root con)));
     path \<leftarrow> append_slash junk path;
     base \<leftarrow> after (buffer_copy_string_buffer junk (Some (phys_basedir con)) (Some path));
     slash \<leftarrow> (if b_used rel \<noteq> 0 then do { p \<leftarrow> b_ptr rel; c \<leftarrow> peek p 0; Some (c = 47) } else Some False);
     path \<leftarrow> (if slash then do { p \<leftarrow> b_ptr rel; after (buffer_append_string_len junk (Some path) (Some (drop 1 p)) (sz (b_used rel + 2 ^ 64 - 2))) }
              else after (buffer_append_string_buffer junk (Some path) (Some rel)));
     Some (con\<lparr>phys_rel_path := rel, server_name := name, phys_path := path, phys_basedir := base\<rparr>)
   }"

declare check_uri.simps [simp del]

section \<open>The steps\<close>

definition before :: "byte \<Rightarrow> byte list \<Rightarrow> byte list" where
  "before c t = takeWhile (\<lambda>x. x \<noteq> c) t"

definition beyond :: "byte \<Rightarrow> byte list \<Rightarrow> byte list" where
  "beyond c t = tl (dropWhile (\<lambda>x. x \<noteq> c) t)"

lemma strchr_text:
  "0 \<notin> set t \<Longrightarrow> strchr (t @ 0 # rest) c = Some (if c \<in> set t then Some (length (before c t)) else None)"
proof -
  assume z: "0 \<notin> set t"
  then have "takeWhile (\<lambda>x. x \<noteq> 0) (t @ 0 # rest) = t" by (subst takeWhile_append2) auto
  then have s: "strlen (t @ 0 # rest) = Some (length t)" by (simp add: strlen_def)
  have "length (takeWhile (\<lambda>x. x \<noteq> c) t) < length t \<longleftrightarrow> c \<in> set t"
  proof
    assume "c \<in> set t"
    then have "takeWhile (\<lambda>x. x \<noteq> c) t \<noteq> t" by (metis set_takeWhileD)
    then show "length (takeWhile (\<lambda>x. x \<noteq> c) t) < length t"
      using length_takeWhile_le [of "\<lambda>x. x \<noteq> c" t] takeWhile_eq_take [of "\<lambda>x. x \<noteq> c" t] by (metis le_neq_implies_less take_all_iff order_refl)
  next
    assume l: "length (takeWhile (\<lambda>x. x \<noteq> c) t) < length t"
    show "c \<in> set t" using nth_length_takeWhile [OF l] l nth_mem by force
  qed
  then show ?thesis using s by (simp add: strchr_def before_def)
qed

lemma before_not_in: "c \<notin> set t \<Longrightarrow> before c t = t"
  by (auto simp: before_def takeWhile_eq_all_conv)

lemma set_before: "set (before c t) \<subseteq> set t" "c \<notin> set (before c t)"
  by (auto simp: before_def dest: set_takeWhileD)

lemma beyond_not_in: "c \<notin> set t \<Longrightarrow> beyond c t = []"
  by (induction t) (auto simp: beyond_def)

lemma before_split: "c \<in> set t \<Longrightarrow> t = before c t @ c # beyond c t"
  by (induction t) (auto simp: before_def beyond_def)

text \<open>The test of the characters.\<close>

lemma check_uri_spec:
  "drop j p = t @ 0 # rest \<Longrightarrow> used = j + length t + 1 \<Longrightarrow> used < 2 ^ 64
   \<Longrightarrow> check_uri p j used = Some (\<forall>c \<in> set t. request_uri_is_valid_char c \<noteq> 0)"
proof (induction t arbitrary: j)
  case Nil
  have "sz (used + 2 ^ 64 - 1) = j" using sz_minus [of 1 used] Nil.prems(2,3) by simp
  then show ?case by (simp add: check_uri.simps [of p j])
next
  case (Cons c t)
  have u: "sz (used + 2 ^ 64 - 1) = j + length (c # t)" using sz_minus [of 1 used] Cons.prems(2,3) by simp
  have "drop (j + 1) p = drop 1 (drop j p)" by simp
  then have j: "j < length p" "p ! j = c" "drop (j + 1) p = t @ 0 # rest"
    using nth_from [OF Cons.prems(1), of 0] unfolding Cons.prems(1) by simp_all
  show ?case using Cons.IH [OF j(3)] Cons.prems(2,3) u j by (simp add: check_uri.simps [of p j])
qed

lemma cut_fragment_spec:
  assumes "small k (con_uri con)" and "b_used (con_uri con) \<noteq> 0" and z: "0 \<notin> set (text_of (con_uri con))"
  obtains b where "cut_fragment con = Some (con\<lparr>con_uri := b\<rparr>)" "small k b" "b_used b \<noteq> 0"
    "text_of b = before 35 (text_of (con_uri con))"
proof -
  let ?t = "text_of (con_uri con)"
  obtain p rest where p: "b_ptr (con_uri con) = Some p" "p = ?t @ 0 # rest" "length p = b_size (con_uri con)"
    using small_text [OF assms(1,2)] by metis
  have c: "strchr p 35 = Some (if 35 \<in> set ?t then Some (length (before 35 ?t)) else None)"
    unfolding p(2) by (rule strchr_text [OF z])
  show thesis
  proof (cases "35 \<in> set ?t")
    case False
    then have "cut_fragment con = Some (con\<lparr>con_uri := con_uri con\<rparr>)" using p(1) c by (simp add: cut_fragment_def)
    from that [OF this assms(1,2)] show thesis using before_not_in [OF False] by simp
  next
    case True
    let ?q = "length (before 35 ?t)"
    let ?b = "(con_uri con)\<lparr>b_ptr := Some (p[?q := 0]), b_used := ?q + 1\<rparr>"
    have e: "p = before 35 ?t @ 35 # beyond 35 ?t @ 0 # rest" using before_split [OF True] p(2) by (metis append_Cons append_assoc)
    then have q: "?q < length p" by (metis length_append length_Cons less_add_Suc1 add_Suc_right)
    have "string_ok ?b \<and> text_of ?b = before 35 ?t"
      by (rule text_from_area [where p = "p[?q := 0]"]) (use q p(3) arg_cong [OF e, of "take ?q"] in simp_all)
    moreover have "cut_fragment con = Some (con\<lparr>con_uri := ?b\<rparr>)" using p(1) c True q by (simp add: cut_fragment_def)
    ultimately show thesis using that [of ?b] smallD [OF assms(1)] by (simp add: small_def)
  qed
qed

lemma split_query_spec:
  assumes "small 60 (con_uri con)" and "b_used (con_uri con) \<noteq> 0" and z: "0 \<notin> set (text_of (con_uri con))"
    and q0: "small 60 (uri_query con)" and r0: "small 60 (uri_path_raw con)"
  obtains query raw where "split_query junk con = Some (con\<lparr>uri_query := query, uri_path_raw := raw\<rparr>)"
    "string_ok query" "text_of query = beyond 63 (text_of (con_uri con))"
    "small 62 raw" "b_used raw \<noteq> 0" "text_of raw = before 63 (text_of (con_uri con))"
proof -
  let ?t = "text_of (con_uri con)"
  obtain p rest where p: "b_ptr (con_uri con) = Some p" "p = ?t @ 0 # rest" "length p = b_size (con_uri con)" "length ?t < 2 ^ 60"
    using small_text [OF assms(1,2)] by metis
  have c: "strchr p 63 = Some (if 63 \<in> set ?t then Some (length (before 63 ?t)) else None)"
    unfolding p(2) by (rule strchr_text [OF z])
  show thesis
  proof (cases "63 \<in> set ?t")
    case False
    obtain query where query: "buffer_reset (Some (uri_query con)) = Some (Some query)" "string_ok query" "text_of query = []"
      using reset [of "uri_query con"] smallD [OF q0] by blast
    obtain raw where raw: "after (buffer_copy_string_buffer junk (Some (uri_path_raw con)) (Some (con_uri con))) = Some raw"
      "string_ok raw" "text_of raw = ?t" "b_used raw = b_used (con_uri con)" "b_size raw \<le> b_size (uri_path_raw con) + b_size (con_uri con) + 65"
      by (rule after_copy [OF r0 assms(1)]) simp_all
    have "split_query junk con = Some (con\<lparr>uri_query := query, uri_path_raw := raw\<rparr>)"
      using p(1) c False query(1) raw(1) by (simp add: split_query_def)
    moreover have "beyond 63 ?t = []" by (rule beyond_not_in [OF False])
    moreover have "small 62 raw" using raw(2,5) smallD [OF r0] smallD [OF assms(1)] by (simp add: small_def)
    ultimately show thesis using that query(2,3) raw(3,4) before_not_in [OF False] assms(2) by simp
  next
    case True
    let ?q = "length (before 63 ?t)"
    have e: "p = before 63 ?t @ 63 # beyond 63 ?t @ 0 # rest" using before_split [OF True] p(2) by (metis append_Cons append_assoc)
    have lb: "?q + length (beyond 63 ?t) < length ?t" using arg_cong [OF before_split [OF True], of length] by simp
    have d: "drop (?q + 1) p = beyond 63 ?t @ 0 # rest" "take ?q p = before 63 ?t" "?q \<le> length p"
      by (subst e, simp)+
    have nz: "0 \<notin> set (beyond 63 ?t)" using z before_split [OF True] by (metis in_set_conv_decomp append_assoc append_Cons)
    obtain query where query: "buffer_copy_string junk (Some (uri_query con)) (Some (drop (?q + 1) p)) = Some (0, Some query)"
      "string_ok query" "text_of query = beyond 63 ?t"
      using copy_string [OF _ nz, of "uri_query con" junk rest] copy_string_len [of "uri_query con" "length (beyond 63 ?t)" "drop (?q + 1) p" junk]
        smallD [OF q0] lb p(4) unfolding d by auto
    obtain raw where raw: "buffer_copy_string_len junk (Some (uri_path_raw con)) (Some p) ?q = Some (0, Some raw)"
      "string_ok raw" "text_of raw = before 63 ?t" "b_used raw = ?q + 1" "b_size raw \<le> b_size (uri_path_raw con) + ?q + 65"
      using copy_string_len [of "uri_path_raw con" ?q p junk] smallD [OF r0] lb p(4) d by auto
    have "split_query junk con = Some (con\<lparr>uri_query := query, uri_path_raw := raw\<rparr>)"
      using p(1) c True query(1) raw(1) by (simp add: split_query_def)
    moreover have "small 62 raw" using raw(2,5) smallD [OF r0] lb p(4) by (simp add: small_def)
    ultimately show thesis using that query(2,3) raw(3,4) by simp
  qed
qed

lemma grow_copy_size: "n + 64 < 2 ^ 64 \<Longrightarrow> b_size (grow_copy junk b n) \<le> b_size b + n + 64"
  using piece_bounds [of n] by (auto simp: grow_copy_def)

lemma path_simplify_size:
  assumes "buffer_path_simplify junk False (Some b) (Some sb) = Some (r, Some b')" and "b_used sb + 66 < 2 ^ 64"
  shows "b_size b' \<le> b_size b + b_used sb + 65"
proof (cases "b_ptr sb")
  case None
  then show ?thesis using assms by (simp add: buffer_path_simplify_def)
next
  case (Some s)
  have "b_size b' = b_size (grow_copy junk b (sz (b_used sb + 1)))"
    using assms(1) Some by (auto simp: buffer_path_simplify_def Let_def split: if_splits)
  then show ?thesis using grow_copy_size [of "b_used sb + 1" junk b] assms(2) by simp
qed

text \<open>The decoded path begins with a slash, so that leading spaces play no part.\<close>

lemma url_decode_slash: "url_decode False (47 # t) = 47 # url_decode False t"
  by (simp add: url_step_def)

lemma sanitise_path_spec:
  assumes r: "small 62 (uri_path_raw con)" "b_used (uri_path_raw con) \<noteq> 0" "0 \<notin> set (text_of (uri_path_raw con))"
    "text_of (uri_path_raw con) = 47 # t"
    and tmp: "small 60 (tmp_buf con)" and path: "small 60 (uri_path con)"
  obtains tmp' path' where "sanitise_path junk opt con = Some (con\<lparr>tmp_buf := tmp', uri_path := path'\<rparr>)"
    "small 63 path'" "text_of path' = simplified (url_decode False (47 # t))"
proof -
  obtain p rest where p: "b_ptr (uri_path_raw con) = Some p" "p = text_of (uri_path_raw con) @ 0 # rest"
    using small_text [OF r(1,2)] by metis
  have star: "(if opt then do { p \<leftarrow> b_ptr (uri_path_raw con); c \<leftarrow> peek p 0;
         if c = 42 then do { c \<leftarrow> peek p 1; Some (c = 0) } else Some False } else Some False) = Some False"
    using p r(4) by (simp add: peek_def)
  obtain t1 where t1: "after (buffer_copy_string_buffer junk (Some (tmp_buf con)) (Some (uri_path_raw con))) = Some t1"
    "string_ok t1" "text_of t1 = text_of (uri_path_raw con)" "b_used t1 = b_used (uri_path_raw con)"
    "b_size t1 \<le> b_size (tmp_buf con) + b_size (uri_path_raw con) + 65"
    by (rule after_copy [OF tmp r(1)]) simp_all
  have u1: "b_used t1 \<noteq> 0" and z1: "0 \<notin> set (text_of t1)" unfolding t1(3,4) by (rule r(2), rule r(3))
  have e1: "text_of t1 = 47 # t" using t1(3) r(4) by (rule trans)
  obtain t2 where t2: "buffer_urldecode_internal (Some t1) False = Some (0, Some t2)" "string_ok t2"
    "text_of t2 = url_decode False (47 # t)" "b_size t2 = b_size t1"
    using urldecode [OF t1(2) u1 z1, of False] unfolding e1 by blast
  have z2: "0 \<notin> set (text_of t2)" unfolding t2(3) using url_decode_no_null [of "47 # t" False] z1 unfolding e1 by blast
  have s2: "dropWhile (\<lambda>c. c = 32) (text_of t2) \<noteq> []" unfolding t2(3) url_decode_slash by simp
  have ok2: "buffer_ok t2" using t2(2) by (simp add: string_ok_def)
  have b2: "b_used t2 \<le> b_size t2" using length_area [OF ok2] by simp
  have n2: "b_used t2 + 66 < 2 ^ 64"
    using b2 t2(4) t1(5) smallD [OF r(1)] smallD [OF tmp] by simp
  obtain path' where s: "buffer_path_simplify junk False (Some (uri_path con)) (Some t2) = Some (0, Some path')"
    "string_ok path'" "text_of path' = simplified (text_of t2)"
    using path_simplify_other [OF _ t2(2) z2 s2 n2, of "uri_path con" junk] smallD [OF path] by blast
  have "small 63 path'"
    using s(2) path_simplify_size [OF s(1) n2] b2 t2(4) t1(5) smallD [OF r(1)] smallD [OF tmp] smallD [OF path]
    by (simp add: small_def)
  moreover have "sanitise_path junk opt con = Some (con\<lparr>tmp_buf := t2, uri_path := path'\<rparr>)"
    unfolding sanitise_path_def star using t1(1) t2(1) s(1) by (simp add: buffer_urldecode_path_def)
  ultimately show thesis using that s(3) t2(3) by simp
qed

lemma set_scheme_spec:
  assumes "small 60 (uri_scheme con)"
  obtains b where "set_scheme junk is_ssl con = Some (con\<lparr>uri_scheme := b\<rparr>)" "string_ok b"
    "text_of b = (if is_ssl then [104, 116, 116, 112, 115] else [104, 116, 116, 112])"
proof (cases is_ssl)
  case True
  then show thesis using that copy_string_len [of "uri_scheme con" 5 "[104, 116, 116, 112, 115, 0]" junk] smallD [OF assms]
    by (auto simp: set_scheme_def)
next
  case False
  then show thesis using that copy_string_len [of "uri_scheme con" 4 "[104, 116, 116, 112, 0]" junk] smallD [OF assms]
    by (auto simp: set_scheme_def)
qed

text \<open>The host that a request names; without one the old text stays.\<close>

definition host_name :: "buffer \<Rightarrow> buffer option \<Rightarrow> byte list" where
  "host_name old host = text_of (case host of None \<Rightarrow> old | Some h \<Rightarrow> h)"

lemma set_authority_spec:
  assumes a: "small 60 (uri_authority con)" "0 \<notin> set (text_of (uri_authority con))"
    and h: "\<And>h. http_host = Some h \<Longrightarrow> small 60 h \<and> 0 \<notin> set (text_of h)"
  obtains b where "set_authority junk http_host con = Some (con\<lparr>uri_authority := b\<rparr>)" "small 62 b"
    "text_of b = List.map lower (host_name (uri_authority con) http_host)"
proof -
  obtain c where c: "after (buffer_copy_string_buffer junk (Some (uri_authority con)) http_host) = Some c" "small 62 c"
    "text_of c = host_name (uri_authority con) http_host" "0 \<notin> set (text_of c)"
  proof (cases http_host)
    case None
    then show thesis using that [of "uri_authority con"] a by (simp add: host_name_def buffer_copy_string_buffer_def small_def)
  next
    case (Some g)
    with h have g: "small 60 g" "0 \<notin> set (text_of g)" by simp_all
    obtain b' where b': "after (buffer_copy_string_buffer junk (Some (uri_authority con)) (Some g)) = Some b'" "string_ok b'"
      "text_of b' = text_of g" "b_size b' \<le> b_size (uri_authority con) + b_size g + 65"
      by (rule after_copy [OF a(1) g(1)]) simp_all
    have "small 62 b'" using b'(2,4) smallD [OF a(1)] smallD [OF g(1)] by (simp add: small_def)
    from that [OF _ this] show thesis using b' g Some by (simp add: host_name_def)
  qed
  obtain b where b: "buffer_to_lower c = Some (0, b)" "string_ok b" "text_of b = List.map lower (text_of c)"
    using to_lower [of c] c(2,4) smallD [OF c(2)] by blast
  have "b_size b = b_size c" using b(1) by (auto simp: buffer_to_lower_def split: if_splits)
  then have "small 62 b" using b(2) smallD [OF c(2)] by (simp add: small_def)
  from that [OF _ this] show thesis using c(1,3) b by (simp add: set_authority_def)
qed

section \<open>Composition\<close>

definition raw_path :: "byte list \<Rightarrow> byte list" where
  "raw_path uri = before 63 (before 35 uri)"

definition query_of :: "byte list \<Rightarrow> byte list" where
  "query_of uri = beyond 63 (before 35 uri)"

definition uri_ok :: "byte list \<Rightarrow> bool" where
  "uri_ok uri \<longleftrightarrow> uri \<noteq> [] \<and> hd uri = 47 \<and> (\<forall>c \<in> set uri. request_uri_is_valid_char c \<noteq> 0)"

definition con_ok :: "connection \<Rightarrow> bool" where
  "con_ok con \<longleftrightarrow> list_all (small 60) [con_uri con, uri_scheme con, uri_authority con, uri_path con, uri_path_raw con,
     uri_query con, phys_path con, phys_basedir con, phys_doc_root con, phys_rel_path con, server_name con, tmp_buf con]
   \<and> 0 \<notin> set (text_of (uri_authority con))"

definition host_ok :: "buffer option \<Rightarrow> bool" where
  "host_ok host \<longleftrightarrow> (case host of None \<Rightarrow> True | Some h \<Rightarrow> small 60 h \<and> 0 \<notin> set (text_of h))"

lemma uri_ok_raw:
  assumes "uri_ok uri"
  obtains t where "raw_path uri = 47 # t" "0 \<notin> set uri" "\<forall>c \<in> set (raw_path uri). 32 < c \<and> c \<noteq> 127"
proof -
  obtain r where r: "uri = 47 # r" using assms by (cases uri) (auto simp: uri_ok_def)
  have v: "\<forall>c \<in> set uri. 32 < c \<and> c \<noteq> 127"
    using assms by (auto simp: uri_ok_def request_uri_is_valid_char_def split: if_splits)
  then have "\<forall>c \<in> set (raw_path uri). 32 < c \<and> c \<noteq> 127" unfolding raw_path_def using set_before(1) [of 63 "before 35 uri"] set_before(1) [of 35 uri] by blast
  moreover have "0 \<notin> set uri" using v by auto
  ultimately show thesis using that [of "before 63 (before 35 r)"] r by (simp add: raw_path_def before_def)
qed

lemma prepare_uri_spec:
  assumes con: "con_ok con" and host: "host_ok host" and uri: "uri_ok (text_of (con_uri con))"
  obtains con' where "prepare_uri junk ssl host opt con = Some con'"
    "text_of (uri_scheme con') = (if ssl then [104, 116, 116, 112, 115] else [104, 116, 116, 112])"
    "text_of (uri_authority con') = List.map lower (host_name (uri_authority con) host)"
    "text_of (uri_query con') = query_of (text_of (con_uri con))"
    "text_of (uri_path_raw con') = raw_path (text_of (con_uri con))"
    "text_of (uri_path con') = simplified (url_decode False (raw_path (text_of (con_uri con))))"
    "small 63 (uri_path con')" "small 62 (uri_authority con')" "small 60 (phys_path con')" "small 60 (phys_basedir con')"
    "small 60 (phys_doc_root con')" "small 60 (phys_rel_path con')" "small 60 (server_name con')"
proof -
  let ?u = "text_of (con_uri con)"
  obtain t where t: "raw_path ?u = 47 # t" "0 \<notin> set ?u" using uri_ok_raw [OF uri] by metis
  have s: "small 60 (con_uri con)" "small 60 (uri_scheme con)" "small 60 (uri_authority con)" "small 60 (uri_path con)"
    "small 60 (uri_path_raw con)" "small 60 (uri_query con)" "small 60 (tmp_buf con)" "0 \<notin> set (text_of (uri_authority con))"
    "small 60 (phys_path con)" "small 60 (phys_basedir con)" "small 60 (phys_doc_root con)" "small 60 (phys_rel_path con)"
    "small 60 (server_name con)"
    using con by (simp_all add: con_ok_def)
  have ne: "b_used (con_uri con) \<noteq> 0"
    using uri smallD [OF s(1)] by (intro text_nonempty_used) (auto simp: uri_ok_def)
  obtain b1 where b1: "set_scheme junk ssl con = Some (con\<lparr>uri_scheme := b1\<rparr>)"
    "text_of b1 = (if ssl then [104, 116, 116, 112, 115] else [104, 116, 116, 112])"
    using set_scheme_spec [OF s(2)] by metis
  let ?c1 = "con\<lparr>uri_scheme := b1\<rparr>"
  obtain b2 where b2: "set_authority junk host ?c1 = Some (?c1\<lparr>uri_authority := b2\<rparr>)" "small 62 b2"
    "text_of b2 = List.map lower (host_name (uri_authority con) host)"
    by (rule set_authority_spec [of ?c1 host junk]) (use s(3,8) host in \<open>simp_all add: host_ok_def\<close>)
  let ?c2 = "?c1\<lparr>uri_authority := b2\<rparr>"
  obtain b3 where b3: "cut_fragment ?c2 = Some (?c2\<lparr>con_uri := b3\<rparr>)" "small 60 b3" "b_used b3 \<noteq> 0"
    "text_of b3 = before 35 ?u"
    by (rule cut_fragment_spec [of 60 ?c2]) (use s(1) ne t(2) in simp_all)
  have z3: "0 \<notin> set (text_of b3)" using b3(4) t(2) set_before(1) by fastforce
  let ?c3 = "?c2\<lparr>con_uri := b3\<rparr>"
  obtain b4 b5 where b4: "split_query junk ?c3 = Some (?c3\<lparr>uri_query := b4, uri_path_raw := b5\<rparr>)"
    "text_of b4 = beyond 63 (text_of b3)" "small 62 b5" "b_used b5 \<noteq> 0" "text_of b5 = before 63 (text_of b3)"
    by (rule split_query_spec [of ?c3 junk]) (use b3(2,3) z3 s(5,6) in simp_all)
  have e5: "text_of b5 = raw_path ?u" using b4(5) b3(4) by (simp add: raw_path_def)
  have z5: "0 \<notin> set (text_of b5)" using b4(5) z3 set_before(1) by fastforce
  let ?c4 = "?c3\<lparr>uri_query := b4, uri_path_raw := b5\<rparr>"
  obtain b6 b7 where b6: "sanitise_path junk opt ?c4 = Some (?c4\<lparr>tmp_buf := b6, uri_path := b7\<rparr>)" "small 63 b7"
    "text_of b7 = simplified (url_decode False (47 # t))"
    by (rule sanitise_path_spec [of ?c4 t junk opt]) (use b4(3,4) z5 e5 t(1) s(4,7) in simp_all)
  have "prepare_uri junk ssl host opt con = Some (?c4\<lparr>tmp_buf := b6, uri_path := b7\<rparr>)"
    using b1(1) b2(1) b3(1) b4(1) b6(1) by (simp add: prepare_uri_def del: bind_Some_iff)
  from that [OF this] show thesis
    using b1(2) b2(2,3) b3(4) b4(2) e5 b6(2,3) t(1) s(9-13) by (simp add: query_of_def)
qed

section \<open>The file name\<close>

lemma physical_path_spec:
  assumes rel: "string_ok (phys_rel_path con) \<and> b_size (phys_rel_path con) < 2 ^ 63 + 2 ^ 61" "text_of (phys_rel_path con) = 47 # r" "0 \<notin> set r"
    and root: "small 62 (phys_doc_root con)" and s: "small 60 (phys_path con)" "small 60 (phys_basedir con)"
    "small 62 (server_name con)" "small 62 (uri_authority con)"
  obtains con' where "physical_path junk lc con = Some con'"
    "text_of (phys_basedir con') = with_slash (text_of (phys_doc_root con))"
    "text_of (phys_path con') = text_of (phys_basedir con') @ (if lc then List.map lower r else r)"
proof -
  define r' where "r' = (if lc then List.map lower r else r)"
  obtain rel' where rel': "(if lc then do { (_, b) \<leftarrow> buffer_to_lower (phys_rel_path con); Some b } else Some (phys_rel_path con)) = Some rel'"
    "string_ok rel'" "text_of rel' = 47 # r'" "b_size rel' = b_size (phys_rel_path con)"
  proof (cases lc)
    case False
    then show thesis using that [of "phys_rel_path con"] rel by (simp add: r'_def)
  next
    case True
    obtain b where b: "buffer_to_lower (phys_rel_path con) = Some (0, b)" "string_ok b"
      "text_of b = List.map lower (text_of (phys_rel_path con))"
      using to_lower [of "phys_rel_path con"] rel by auto
    have "b_size b = b_size (phys_rel_path con)" using b(1) by (auto simp: buffer_to_lower_def split: if_splits)
    then show thesis using that [of b] b rel(2) True by (simp add: r'_def lower_def is_upper_def)
  qed
  have ne: "b_used rel' \<noteq> 0" using rel'(2,3) by (intro text_nonempty_used) (simp_all add: string_ok_def)
  obtain p rest where p: "b_ptr rel' = Some p" "p = text_of rel' @ 0 # rest" "b_used rel' = length (text_of rel') + 1"
    using string_area [OF rel'(2) ne] by metis
  have lp: "length p = b_size rel'" using rel'(2) p(1) by (simp add: string_ok_def buffer_ok_def)
  have n: "length r' + 2 \<le> b_size rel'" using arg_cong [OF p(2), of length] rel'(3) lp by simp
  have slash: "(if b_used rel' \<noteq> 0 then do { p \<leftarrow> b_ptr rel'; c \<leftarrow> peek p 0; Some (c = 47) } else Some False) = Some True"
    using ne p rel'(3) by (simp add: peek_def)
  obtain name where name: "(if buffer_is_empty (Some (server_name con))
      then after (buffer_copy_string_buffer junk (Some (server_name con)) (Some (uri_authority con))) else Some (server_name con)) = Some name"
    by (cases "buffer_is_empty (Some (server_name con))")
      (use after_copy [OF s(3,4), of junk] in \<open>simp_all, metis\<close>)
  obtain b1 where b1: "after (buffer_copy_string_buffer junk (Some (phys_path con)) (Some (phys_doc_root con))) = Some b1"
    "string_ok b1" "text_of b1 = text_of (phys_doc_root con)" "b_size b1 \<le> b_size (phys_path con) + b_size (phys_doc_root con) + 65"
    by (rule after_copy [OF s(1) root]) simp_all
  have "b_size b1 + 66 < 2 ^ 64" using b1(4) smallD [OF s(1)] smallD [OF root] by simp
  from append_slash_spec [OF b1(2) this, of junk] obtain b2 where b2: "append_slash junk b1 = Some b2" "string_ok b2"
    "text_of b2 = with_slash (text_of b1)" "b_size b2 \<le> b_size b1 + 66" by blast
  have "small 63 b2" using b2(2,4) b1(4) smallD [OF s(1)] smallD [OF root] by (simp add: small_def)
  from after_copy [OF s(2) this, of junk] obtain b3 where b3:
    "after (buffer_copy_string_buffer junk (Some (phys_basedir con)) (Some b2)) = Some b3" "text_of b3 = text_of b2" by auto
  have d: "drop 1 p = r' @ 0 # rest" using p(2) rel'(3) by simp
  have k: "sz (b_used rel' + 2 ^ 64 - 2) = length r'"
    using sz_minus [of 2 "b_used rel'"] p(3) rel'(3,4) n rel(1) by simp
  have room: "length r' \<le> length (drop 1 p)" "b_size b2 + length r' + 65 < 2 ^ 64"
    using d b2(4) b1(4) n rel'(4) rel(1) smallD [OF s(1)] smallD [OF root] by simp_all
  have "buffer_ok b2" using b2(2) by (simp add: string_ok_def)
  from append_string_len [OF this room, of junk] obtain b4 where b4:
    "buffer_append_string_len junk (Some b2) (Some (drop 1 p)) (length r') = Some (0, Some b4)" "text_of b4 = text_of b2 @ r'"
    unfolding d by auto
  let ?con = "con\<lparr>phys_rel_path := rel', server_name := name, phys_path := b4, phys_basedir := b3\<rparr>"
  have "physical_path junk lc con = Some ?con"
    unfolding physical_path_def rel'(1) name
    using b1(1) b2(1) b3(1) b4(1) slash k p(1) by (simp del: bind_Some_iff peek_Some)
  from that [OF this] show thesis using b1(3) b2(3) b3(2) b4(2) by (simp add: r'_def)
qed

section \<open>What is in the file name\<close>

lemma segments_chars: "seg \<in> set (segments t) \<Longrightarrow> set seg \<subseteq> set t"
proof (induction t arbitrary: seg)
  case (Cons c t)
  obtain g gs where g: "segments t = g # gs" by (cases "segments t") simp_all
  then have "set g \<subseteq> set t" "\<forall>s \<in> set gs. set s \<subseteq> set t" using Cons.IH by auto
  then show ?case using Cons.prems g by (auto split: if_splits)
qed simp

lemma foldl_resolve_subset: "set (foldl resolve st segs) \<subseteq> set st \<union> set segs"
proof (induction segs arbitrary: st)
  case (Cons seg segs)
  have "set (resolve st seg) \<subseteq> set st \<union> {seg}" by (auto simp: resolve_def dest: in_set_butlastD)
  then show ?case using Cons.IH [of "resolve st seg"] by auto
qed simp

lemma simplified_chars: "set (simplified t) \<subseteq> insert 47 (set t)"
proof -
  define u where "u = dropWhile (\<lambda>c. c = 32) t"
  define v where "v = (if u \<noteq> [] \<and> hd u = 47 then tl u else u)"
  have "set u \<subseteq> set t" unfolding u_def by (auto dest: set_dropWhileD)
  moreover have "set v \<subseteq> set u" by (cases u) (auto simp: v_def)
  ultimately have "set v \<subseteq> set t" by blast
  moreover have "set (flat (foldl resolve [] (segments v))) \<subseteq> insert 47 (set v)"
  proof
    fix c assume "c \<in> set (flat (foldl resolve [] (segments v)))"
    then have "c = 47 \<or> (\<exists>seg \<in> set (foldl resolve [] (segments v)). c \<in> set seg)"
      by (auto simp: flat_def split: if_splits)
    then show "c \<in> insert 47 (set v)"
      using foldl_resolve_subset [of "[]" "segments v"] segments_chars [of _ v] by auto
  qed
  moreover have "set (simplified t) \<subseteq> insert 47 (set (flat (foldl resolve [] (segments v))))"
    unfolding simplified_def u_def [symmetric] v_def [symmetric] Let_def by auto
  ultimately show ?thesis by blast
qed

lemma segments_map: "(\<And>c. f c = 47 \<longleftrightarrow> c = 47) \<Longrightarrow> segments (List.map f t) = List.map (List.map f) (segments t)"
proof (induction t)
  case (Cons c t)
  obtain g gs where "segments t = g # gs" by (cases "segments t") simp_all
  then show ?case using Cons by simp
qed simp

definition lower_keeps :: "byte \<Rightarrow> bool" where
  "lower_keeps c \<longleftrightarrow> (lower c = 47 \<longleftrightarrow> c = 47) \<and> (lower c = 46 \<longleftrightarrow> c = 46)
     \<and> (32 \<le> c \<and> c \<noteq> 127 \<longrightarrow> 32 \<le> lower c \<and> lower c \<noteq> 127)"

lemma lower_keeps: "lower_keeps c"
  by (rule all_bytes) code_simp

lemma lower_dots: "(List.map lower seg = dot) = (seg = dot)" "(List.map lower seg = dotdot) = (seg = dotdot)"
  using lower_keeps by (auto simp: dot_def dotdot_def lower_keeps_def map_eq_Cons_conv)

text \<open>No name in a list of segments leads upwards or stands for the directory itself, and only the last one may be
  empty.\<close>

definition descending :: "byte list list \<Rightarrow> bool" where
  "descending segs \<longleftrightarrow> dot \<notin> set segs \<and> dotdot \<notin> set segs \<and> [] \<notin> set (butlast segs)"

lemma descending_lower: "descending (List.map (List.map lower) segs) = descending segs"
proof -
  have "(d \<in> set (List.map (List.map lower) segs)) = (d \<in> set segs)" if "d = dot \<or> d = dotdot" for d
    using that lower_dots by (auto simp: image_iff) metis+
  moreover have "([] \<in> set (butlast (List.map (List.map lower) segs))) = ([] \<in> set (butlast segs))"
    by (auto simp: map_butlast [symmetric])
  ultimately show ?thesis by (simp add: descending_def)
qed

lemma simplified_descends:
  obtains r where "simplified t = 47 # r" "descending (segments r)" "set r \<subseteq> insert 47 (set t)"
proof -
  have "simplified t \<noteq> []" using simplified_form [of t] by (metis append_is_Nil_conv flat_def concat.simps(2) list.simps(9) neq_Nil_conv not_Cons_self2 append_Cons)
  then obtain r where r: "simplified t = 47 # r" using simplified_segments [of t] by (cases "simplified t") auto
  let ?s = "segments r"
  have b: "\<forall>seg \<in> set (butlast ?s). plain seg" and l: "last ?s = [] \<or> plain (last ?s)"
    using simplified_segments [of t] r by (simp_all add: Let_def)
  have "set ?s = insert (last ?s) (set (butlast ?s))"
    by (metis Un_insert_right append_butlast_last_id empty_set list.simps(15) segments_nonempty set_append sup_bot_right)
  then have "descending ?s" using b l by (auto simp: descending_def plain_def dot_def dotdot_def)
  then show thesis using that [OF r] simplified_chars [of t] r by auto
qed

section \<open>Properties\<close>


text \<open>The request \<open>/a/%2e%2e/../b?x#y\<close> on a connection that has answered another one.\<close>

definition sample_uri :: "byte list" where
  "sample_uri = [47, 97, 47, 37, 50, 101, 37, 50, 69, 47, 46, 46, 47, 98, 63, 120, 35, 121]"

definition sample_con :: connection where
  "sample_con = \<lparr>con_uri = as_buffer sample_uri, uri_scheme = buffer_init, uri_authority = as_buffer [104],
     uri_path = as_buffer [47], uri_path_raw = as_buffer [47, 99], uri_query = buffer_init, phys_path = buffer_init,
     phys_basedir = buffer_init, phys_doc_root = buffer_init, phys_rel_path = as_buffer [47], server_name = buffer_init,
     tmp_buf = buffer_init\<rparr>"

lemma sample_con_ok:
  "con_ok sample_con" "host_ok (Some (as_buffer [72]))" "uri_ok (text_of (con_uri sample_con))"
  by (simp_all add: con_ok_def host_ok_def uri_ok_def sample_con_def sample_uri_def request_uri_is_valid_char_def)





end
