(* ===== verification/Chunk_Queues.thy ===== *)
theory Chunk_Queues
  imports Byte_Buffers
begin

text \<open>
  chunk.c of lighttpd: the queue of memory and file chunks between the modules of the server and the
  network. The chunks are linked through pointers, used ones from \<open>first\<close> to \<open>last\<close> and reusable ones on a
  stack, and the model keeps these pointers: the memory is a map from addresses, freed chunks are
  not in it, and following a null or a stale pointer is a fault. What the operations ask of the system
  (closing, unmapping and deleting files) is recorded in a list.

  The abstraction of a queue is the list of what is still to be sent, byte by byte: a byte of memory, or a place in a
  file.
\<close>

section \<open>Data\<close>

datatype chunk_type = UNUSED_CHUNK | MEM_CHUNK | FILE_CHUNK

text \<open>\<open>f_mmap\<close> is the length of the mapped area; \<open>None\<close> stands for \<open>MAP_FAILED\<close>.\<close>

record chunk =
  c_type :: chunk_type
  c_mem :: buffer
  f_name :: buffer
  f_start :: int
  f_length :: int
  f_fd :: int
  f_mmap :: "nat option"
  f_is_temp :: bool
  c_offset :: int
  c_next :: "nat option"

datatype sys_call = Unlink "byte list" | Close int | Munmap nat

record chunkqueue =
  cq_first :: "nat option"
  cq_last :: "nat option"
  cq_unused :: "nat option"
  cq_unused_chunks :: nat
  cq_tempdirs :: "buffer list option"
  cq_bytes_in :: int
  cq_bytes_out :: int
  heap :: "nat \<Rightarrow> chunk option"
  fresh :: nat
  calls :: "sys_call list"

definition chunk_at :: "nat option \<Rightarrow> chunkqueue \<Rightarrow> chunk option" where
  "chunk_at p cq = Option.bind p (heap cq)"

definition put_chunk :: "nat \<Rightarrow> chunk \<Rightarrow> chunkqueue \<Rightarrow> chunkqueue" where
  "put_chunk a c cq = cq\<lparr>heap := (heap cq)(a := Some c)\<rparr>"

section \<open>Operations\<close>

definition chunkqueue_init :: chunkqueue where
  "chunkqueue_init = \<lparr>cq_first = None, cq_last = None, cq_unused = None, cq_unused_chunks = 0, cq_tempdirs = None,
     cq_bytes_in = 0, cq_bytes_out = 0, heap = Map.empty, fresh = 0, calls = []\<rparr>"

definition new_chunk :: chunk where
  "new_chunk = \<lparr>c_type = UNUSED_CHUNK, c_mem = buffer_init, f_name = buffer_init, f_start = 0, f_length = 0, f_fd = - 1,
     f_mmap = None, f_is_temp = False, c_offset = 0, c_next = None\<rparr>"

definition chunk_init :: "chunkqueue \<Rightarrow> nat \<times> chunkqueue" where
  "chunk_init cq = (fresh cq, put_chunk (fresh cq) new_chunk (cq\<lparr>fresh := fresh cq + 1\<rparr>))"

definition chunk_free :: "nat option \<Rightarrow> chunkqueue \<Rightarrow> chunkqueue option" where
  "chunk_free p cq = (case p of None \<Rightarrow> Some cq | Some a \<Rightarrow> do {
     _ \<leftarrow> heap cq a;
     Some (cq\<lparr>heap := (heap cq)(a := None)\<rparr>)
   })"

definition c_string :: "buffer \<Rightarrow> byte list option" where
  "c_string b = do { p \<leftarrow> b_ptr b; n \<leftarrow> strlen p; Some (take n p) }"

definition buffer_clear :: "buffer \<Rightarrow> buffer option" where
  "buffer_clear b = do { b \<leftarrow> buffer_reset (Some b); b }"

definition chunk_reset :: "nat option \<Rightarrow> chunkqueue \<Rightarrow> chunkqueue option" where
  "chunk_reset p cq = (case p of None \<Rightarrow> Some cq | Some a \<Rightarrow> do {
     c \<leftarrow> heap cq a;
     mem \<leftarrow> buffer_clear (c_mem c);
     log \<leftarrow> (if f_is_temp c \<and> \<not> buffer_is_empty (Some (f_name c))
            then do { s \<leftarrow> c_string (f_name c); Some [Unlink s] } else Some []);
     name \<leftarrow> buffer_clear (f_name c);
     let (fd, log) = (if f_fd c \<noteq> - 1 then (- 1, log @ [Close (f_fd c)]) else (f_fd c, log));
     let (area, log) = (case f_mmap c of Some n \<Rightarrow> (None, log @ [Munmap n]) | None \<Rightarrow> (None, log));
     Some ((put_chunk a (c\<lparr>c_mem := mem, f_name := name, f_fd := fd, f_mmap := area\<rparr>) cq)\<lparr>calls := calls cq @ log\<rparr>)
   })"

partial_function (option) free_loop :: "nat option \<Rightarrow> chunkqueue \<Rightarrow> chunkqueue option" where
  "free_loop p cq = (case p of None \<Rightarrow> Some cq | Some a \<Rightarrow> do {
     c \<leftarrow> heap cq a;
     cq \<leftarrow> chunk_free (Some a) cq;
     free_loop (c_next c) cq
   })"

definition chunkqueue_free :: "chunkqueue \<Rightarrow> chunkqueue option" where
  "chunkqueue_free cq = do {
     cq \<leftarrow> free_loop (cq_first cq) cq;
     free_loop (cq_unused cq) cq
   }"

definition chunkqueue_get_unused_chunk :: "chunkqueue \<Rightarrow> (nat \<times> chunkqueue) option" where
  "chunkqueue_get_unused_chunk cq = (case cq_unused cq of
     None \<Rightarrow> Some (chunk_init cq)
   | Some a \<Rightarrow> do {
       c \<leftarrow> heap cq a;
       let cq = cq\<lparr>cq_unused := c_next c\<rparr>;
       let cq = put_chunk a (c\<lparr>c_next := None\<rparr>) cq;
       Some (a, cq\<lparr>cq_unused_chunks := sz (cq_unused_chunks cq + 2 ^ 64 - 1)\<rparr>)
     })"

definition chunkqueue_prepend_chunk :: "nat \<Rightarrow> chunkqueue \<Rightarrow> chunkqueue option" where
  "chunkqueue_prepend_chunk a cq = do {
     c \<leftarrow> heap cq a;
     let cq = put_chunk a (c\<lparr>c_next := cq_first cq\<rparr>) cq;
     let cq = cq\<lparr>cq_first := Some a\<rparr>;
     Some (if cq_last cq = None then cq\<lparr>cq_last := Some a\<rparr> else cq)
   }"

definition chunkqueue_append_chunk :: "nat \<Rightarrow> chunkqueue \<Rightarrow> chunkqueue option" where
  "chunkqueue_append_chunk a cq = do {
     cq \<leftarrow> (case cq_last cq of None \<Rightarrow> Some cq
            | Some l \<Rightarrow> do { c \<leftarrow> heap cq l; Some (put_chunk l (c\<lparr>c_next := Some a\<rparr>) cq) });
     let cq = cq\<lparr>cq_last := Some a\<rparr>;
     Some (if cq_first cq = None then cq\<lparr>cq_first := Some a\<rparr> else cq)
   }"

text \<open>The common part of the operations: an unused chunk, filled by \<open>f\<close>, is linked in by \<open>link\<close>.\<close>

definition with_chunk ::
    "(chunk \<Rightarrow> chunk option) \<Rightarrow> (nat \<Rightarrow> chunkqueue \<Rightarrow> chunkqueue option) \<Rightarrow> chunkqueue \<Rightarrow> (nat \<times> chunkqueue) option" where
  "with_chunk f link cq = do {
     (a, cq) \<leftarrow> chunkqueue_get_unused_chunk cq;
     c \<leftarrow> heap cq a;
     c \<leftarrow> f c;
     cq \<leftarrow> link a (put_chunk a c cq);
     Some (a, cq)
   }"

definition chunkqueue_append_file :: "(nat \<Rightarrow> byte) \<Rightarrow> chunkqueue \<Rightarrow> buffer \<Rightarrow> int \<Rightarrow> int \<Rightarrow> chunkqueue option" where
  "chunkqueue_append_file junk cq fn offset len = (if len = 0 then Some cq else do {
     (_, cq) \<leftarrow> with_chunk (\<lambda>c. do {
         name \<leftarrow> after (buffer_copy_string_buffer junk (Some (f_name c)) (Some fn));
         Some (c\<lparr>c_type := FILE_CHUNK, f_name := name, f_start := offset, f_length := len, c_offset := 0\<rparr>)
       }) chunkqueue_append_chunk cq;
     Some cq
   })"

definition fill_mem :: "(buffer \<Rightarrow> buffer option) \<Rightarrow> chunk \<Rightarrow> chunk option" where
  "fill_mem f c = do {
     mem \<leftarrow> f (c_mem c);
     Some (c\<lparr>c_type := MEM_CHUNK, c_offset := 0, c_mem := mem\<rparr>)
   }"

definition chunkqueue_append_buffer :: "(nat \<Rightarrow> byte) \<Rightarrow> chunkqueue \<Rightarrow> buffer \<Rightarrow> chunkqueue option" where
  "chunkqueue_append_buffer junk cq mem = (if b_used mem = 0 then Some cq else do {
     (_, cq) \<leftarrow> with_chunk (fill_mem (\<lambda>b. after (buffer_copy_string_buffer junk (Some b) (Some mem)))) chunkqueue_append_chunk cq;
     Some cq
   })"

definition chunkqueue_append_buffer_weak :: "chunkqueue \<Rightarrow> buffer \<Rightarrow> chunkqueue option" where
  "chunkqueue_append_buffer_weak cq mem = (if b_used mem = 0 then Some cq else do {
     (_, cq) \<leftarrow> with_chunk (fill_mem (\<lambda>_. Some mem)) chunkqueue_append_chunk cq;
     Some cq
   })"

definition chunkqueue_prepend_buffer :: "(nat \<Rightarrow> byte) \<Rightarrow> chunkqueue \<Rightarrow> buffer \<Rightarrow> chunkqueue option" where
  "chunkqueue_prepend_buffer junk cq mem = (if b_used mem = 0 then Some cq else do {
     (_, cq) \<leftarrow> with_chunk (fill_mem (\<lambda>b. after (buffer_copy_string_buffer junk (Some b) (Some mem)))) chunkqueue_prepend_chunk cq;
     Some cq
   })"

definition chunkqueue_append_mem :: "(nat \<Rightarrow> byte) \<Rightarrow> chunkqueue \<Rightarrow> byte list \<Rightarrow> nat \<Rightarrow> chunkqueue option" where
  "chunkqueue_append_mem junk cq mem len = (if len = 0 then Some cq else do {
     (_, cq) \<leftarrow> with_chunk (fill_mem (\<lambda>b. after (buffer_copy_string_len junk (Some b) (Some mem) (len - 1)))) chunkqueue_append_chunk cq;
     Some cq
   })"

text \<open>These two return the buffer of the new chunk, here the address of the chunk.\<close>

definition chunkqueue_get_prepend_buffer :: "chunkqueue \<Rightarrow> (nat \<times> chunkqueue) option" where
  "chunkqueue_get_prepend_buffer cq = with_chunk (fill_mem buffer_clear) chunkqueue_prepend_chunk cq"

definition chunkqueue_get_append_buffer :: "chunkqueue \<Rightarrow> (nat \<times> chunkqueue) option" where
  "chunkqueue_get_append_buffer cq = with_chunk (fill_mem buffer_clear) chunkqueue_append_chunk cq"

definition chunkqueue_set_tempdirs :: "chunkqueue option \<Rightarrow> buffer list option \<Rightarrow> int \<times> chunkqueue option" where
  "chunkqueue_set_tempdirs cq tempdirs = (case cq of None \<Rightarrow> (- 1, None) | Some cq \<Rightarrow> (0, Some (cq\<lparr>cq_tempdirs := tempdirs\<rparr>)))"

text \<open>
  Temporary files: \<open>mkstemp\<close> of the C library is a parameter, from the template to the file descriptor
  (or -1) and the text that the template becomes, of the same length.
\<close>

definition upload_template :: "byte list" where
  "upload_template = [108, 105, 103, 104, 116, 116, 112, 100, 45, 117, 112, 108, 111, 97, 100, 45, 88, 88, 88, 88, 88, 88]"

definition make_temp :: "(byte list \<Rightarrow> int \<times> byte list) \<Rightarrow> buffer \<Rightarrow> (int \<times> buffer) option" where
  "make_temp mkstemp b = do {
     p \<leftarrow> b_ptr b;
     s \<leftarrow> c_string b;
     let (fd, name) = mkstemp s;
     Some (fd, b\<lparr>b_ptr := Some (take (length s) name @ drop (length (take (length s) name)) p)\<rparr>)
   }"

fun tempdir_loop ::
    "(nat \<Rightarrow> byte) \<Rightarrow> (byte list \<Rightarrow> int \<times> byte list) \<Rightarrow> buffer list \<Rightarrow> int \<Rightarrow> buffer \<Rightarrow> (int \<times> bool \<times> buffer) option" where
  "tempdir_loop junk mkstemp [] fd template = Some (fd, False, template)"
| "tempdir_loop junk mkstemp (dir # dirs) fd template = do {
     t \<leftarrow> after (buffer_copy_string_buffer junk (Some template) (Some dir));
     t \<leftarrow> append_slash junk t;
     t \<leftarrow> after (buffer_append_string_len junk (Some t) (Some (upload_template @ [0])) 22);
     (fd, t) \<leftarrow> make_temp mkstemp t;
     if fd \<noteq> - 1 then Some (fd, True, t) else tempdir_loop junk mkstemp dirs fd t
   }"

definition chunkqueue_get_append_tempfile ::
    "(nat \<Rightarrow> byte) \<Rightarrow> (byte list \<Rightarrow> int \<times> byte list) \<Rightarrow> chunkqueue \<Rightarrow> (nat \<times> chunkqueue) option" where
  "chunkqueue_get_append_tempfile junk mkstemp cq = do {
     template \<leftarrow> buffer_init_string junk (Some ([47, 118, 97, 114, 47, 116, 109, 112, 47] @ upload_template @ [0]));
     with_chunk (\<lambda>c. do {
         (fd, temp, template) \<leftarrow> (case cq_tempdirs cq of
             Some (d # ds) \<Rightarrow> tempdir_loop junk mkstemp (d # ds) (f_fd c) template
           | _ \<Rightarrow> do { (fd, t) \<leftarrow> make_temp mkstemp template; Some (fd, fd \<noteq> - 1, t) });
         name \<leftarrow> after (buffer_copy_string_buffer junk (Some (f_name c)) (Some template));
         Some (c\<lparr>c_type := FILE_CHUNK, c_offset := 0, f_fd := fd, f_is_temp := (if temp then True else f_is_temp c),
                f_name := name, f_length := 0\<rparr>)
       }) chunkqueue_append_chunk cq
   }"

partial_function (option) length_loop :: "nat option \<Rightarrow> int \<Rightarrow> chunkqueue \<Rightarrow> int option" where
  "length_loop p len cq = (case p of None \<Rightarrow> Some len | Some a \<Rightarrow> do {
     c \<leftarrow> heap cq a;
     length_loop (c_next c) (len + (case c_type c of MEM_CHUNK \<Rightarrow> (if b_used (c_mem c) \<noteq> 0 then int (b_used (c_mem c)) - 1 else 0)
       | FILE_CHUNK \<Rightarrow> f_length c | UNUSED_CHUNK \<Rightarrow> 0)) cq
   })"

definition chunkqueue_length :: "chunkqueue \<Rightarrow> int option" where
  "chunkqueue_length cq = length_loop (cq_first cq) 0 cq"

partial_function (option) written_loop :: "nat option \<Rightarrow> int \<Rightarrow> chunkqueue \<Rightarrow> int option" where
  "written_loop p len cq = (case p of None \<Rightarrow> Some len | Some a \<Rightarrow> do {
     c \<leftarrow> heap cq a;
     written_loop (c_next c) (len + (case c_type c of MEM_CHUNK \<Rightarrow> c_offset c | FILE_CHUNK \<Rightarrow> c_offset c | UNUSED_CHUNK \<Rightarrow> 0)) cq
   })"

definition chunkqueue_written :: "chunkqueue \<Rightarrow> int option" where
  "chunkqueue_written cq = written_loop (cq_first cq) 0 cq"

definition chunkqueue_is_empty :: "chunkqueue \<Rightarrow> int" where
  "chunkqueue_is_empty cq = (if cq_first cq \<noteq> None then 0 else 1)"

definition is_finished :: "chunk \<Rightarrow> bool" where
  "is_finished c = (case c_type c of
     MEM_CHUNK \<Rightarrow> b_used (c_mem c) = 0 \<or> c_offset c = int (b_used (c_mem c)) - 1
   | FILE_CHUNK \<Rightarrow> c_offset c = f_length c
   | UNUSED_CHUNK \<Rightarrow> False)"

definition retire :: "nat \<Rightarrow> chunkqueue \<Rightarrow> chunkqueue option" where
  "retire a cq = do {
     cq \<leftarrow> chunk_reset (Some a) cq;
     c \<leftarrow> heap cq a;
     let cq = cq\<lparr>cq_first := c_next c\<rparr>;
     let cq = (if cq_last cq = Some a then cq\<lparr>cq_last := None\<rparr> else cq);
     if cq_unused_chunks cq > 4 then chunk_free (Some a) cq
     else Some ((put_chunk a (c\<lparr>c_next := cq_unused cq\<rparr>) cq)\<lparr>cq_unused := Some a, cq_unused_chunks := cq_unused_chunks cq + 1\<rparr>)
   }"

partial_function (option) chunkqueue_remove_finished_chunks :: "chunkqueue \<Rightarrow> chunkqueue option" where
  "chunkqueue_remove_finished_chunks cq = (case cq_first cq of None \<Rightarrow> Some cq | Some a \<Rightarrow> do {
     c \<leftarrow> heap cq a;
     if \<not> is_finished c then Some cq
     else do {
       cq \<leftarrow> retire a cq;
       chunkqueue_remove_finished_chunks cq
     }
   })"

partial_function (option) mark_loop :: "nat option \<Rightarrow> chunkqueue \<Rightarrow> chunkqueue option" where
  "mark_loop p cq = (case p of None \<Rightarrow> Some cq | Some a \<Rightarrow> do {
     c \<leftarrow> heap cq a;
     let c = (case c_type c of MEM_CHUNK \<Rightarrow> c\<lparr>c_offset := int (b_used (c_mem c)) - 1\<rparr>
        | FILE_CHUNK \<Rightarrow> c\<lparr>c_offset := f_length c\<rparr> | UNUSED_CHUNK \<Rightarrow> c);
     mark_loop (c_next c) (put_chunk a c cq)
   })"

definition chunkqueue_reset :: "chunkqueue \<Rightarrow> chunkqueue option" where
  "chunkqueue_reset cq = do {
     cq \<leftarrow> mark_loop (cq_first cq) cq;
     cq \<leftarrow> chunkqueue_remove_finished_chunks cq;
     Some (cq\<lparr>cq_bytes_in := 0, cq_bytes_out := 0\<rparr>)
   }"

section \<open>The invariant\<close>

text \<open>The addresses that are met on the way along the links from a pointer.\<close>

fun linked :: "(nat \<Rightarrow> chunk option) \<Rightarrow> nat option \<Rightarrow> nat list \<Rightarrow> bool" where
  "linked h p [] \<longleftrightarrow> p = None"
| "linked h p (a # as) \<longleftrightarrow> p = Some a \<and> (case h a of None \<Rightarrow> False | Some c \<Rightarrow> linked h (c_next c) as)"

definition used_ok :: "chunk \<Rightarrow> bool" where
  "used_ok c \<longleftrightarrow> string_ok (c_mem c) \<and> string_ok (f_name c)"

definition in_range :: "chunk \<Rightarrow> bool" where
  "in_range c \<longleftrightarrow> 0 \<le> c_offset c \<and> (case c_type c of
        MEM_CHUNK \<Rightarrow> c_offset c \<le> int (b_used (c_mem c) - 1)
      | FILE_CHUNK \<Rightarrow> c_offset c \<le> f_length c
      | UNUSED_CHUNK \<Rightarrow> False)"

definition idle_ok :: "chunk \<Rightarrow> bool" where
  "idle_ok c \<longleftrightarrow> string_ok (c_mem c) \<and> string_ok (f_name c) \<and> b_size (c_mem c) < 2 ^ 60 \<and> b_size (f_name c) < 2 ^ 60
     \<and> f_fd c = - 1 \<and> f_mmap c = None"

definition all_at :: "(chunk \<Rightarrow> bool) \<Rightarrow> (nat \<Rightarrow> chunk option) \<Rightarrow> nat list \<Rightarrow> bool" where
  "all_at P h as \<longleftrightarrow> list_all (\<lambda>a. case h a of None \<Rightarrow> False | Some c \<Rightarrow> P c) as"

text \<open>\<open>as\<close> are the chunks of the queue, \<open>us\<close> those on the stack, \<open>xs\<close> those that are in neither.\<close>

definition queue_rep :: "chunkqueue \<Rightarrow> nat list \<Rightarrow> nat list \<Rightarrow> nat list \<Rightarrow> bool" where
  "queue_rep cq as us xs \<longleftrightarrow>
     linked (heap cq) (cq_first cq) as \<and> linked (heap cq) (cq_unused cq) us \<and> distinct (as @ us @ xs)
   \<and> cq_last cq = (if as = [] then None else Some (last as))
   \<and> cq_unused_chunks cq = length us \<and> length us < 2 ^ 64
   \<and> dom (heap cq) = set as \<union> set us \<union> set xs \<and> (\<forall>a \<in> dom (heap cq). a < fresh cq)
   \<and> all_at used_ok (heap cq) as \<and> all_at idle_ok (heap cq) us"

text \<open>The values of the chunks, without their links.\<close>

definition unlinked :: "chunk \<Rightarrow> chunk" where
  "unlinked c = c\<lparr>c_next := None\<rparr>"

definition contents :: "chunkqueue \<Rightarrow> nat list \<Rightarrow> chunk list" where
  "contents cq as = List.map (\<lambda>a. unlinked (the (heap cq a))) as"

lemma unlinked_simps [simp]:
  "unlinked (c\<lparr>c_next := n\<rparr>) = unlinked c" "c_type (unlinked c) = c_type c" "c_mem (unlinked c) = c_mem c"
  "f_name (unlinked c) = f_name c" "f_start (unlinked c) = f_start c" "f_length (unlinked c) = f_length c"
  "f_fd (unlinked c) = f_fd c" "f_mmap (unlinked c) = f_mmap c" "f_is_temp (unlinked c) = f_is_temp c"
  "c_offset (unlinked c) = c_offset c" "used_ok (unlinked c) = used_ok c" "in_range (unlinked c) = in_range c" "is_finished (unlinked c) = is_finished c"
  by (simp_all add: unlinked_def used_ok_def in_range_def is_finished_def split: chunk_type.split)

lemma ok_next [simp]: "used_ok (c\<lparr>c_next := n\<rparr>) = used_ok c" "idle_ok (c\<lparr>c_next := n\<rparr>) = idle_ok c"
  by (simp_all add: used_ok_def idle_ok_def split: chunk_type.split)

lemma all_at_simps [simp]:
  "all_at P h []" "all_at P h (a # as) \<longleftrightarrow> (case h a of None \<Rightarrow> False | Some c \<Rightarrow> P c) \<and> all_at P h as"
  "all_at P h (as @ bs) \<longleftrightarrow> all_at P h as \<and> all_at P h bs"
  by (simp_all add: all_at_def)

lemma all_at_upd [simp]: "a \<notin> set as \<Longrightarrow> all_at P (h(a := x)) as = all_at P h as"
  by (induction as) auto

lemma all_at_mem: "all_at P h as \<Longrightarrow> a \<in> set as \<Longrightarrow> \<exists>c. h a = Some c \<and> P c"
  by (induction as) (auto split: option.splits)

lemma linked_upd [simp]: "a \<notin> set as \<Longrightarrow> linked (h(a := x)) p as = linked h p as"
  by (induction as arbitrary: p) (auto split: option.splits)

lemmas linked_upd' [simp] = linked_upd [unfolded fun_upd_def]

lemma linked_snoc:
  "linked h p (as @ [l]) \<Longrightarrow> h l = Some c \<Longrightarrow> c_next c = None \<Longrightarrow> distinct (as @ [l, a])
   \<Longrightarrow> h a = Some d \<Longrightarrow> c_next d = None \<Longrightarrow> linked (h(l := Some (c\<lparr>c_next := Some a\<rparr>))) p (as @ [l, a])"
  by (induction as arbitrary: p) (auto split: option.splits)

lemma linked_last: "linked h p (as @ [l]) \<Longrightarrow> \<exists>c. h l = Some c \<and> c_next c = None"
  by (induction as arbitrary: p) (auto split: option.splits)

lemma linked_None: "linked h None as \<longleftrightarrow> as = []"
  by (cases as) auto

lemma linked_Some: "linked h (Some a) as \<longleftrightarrow> (\<exists>c bs. as = a # bs \<and> h a = Some c \<and> linked h (c_next c) bs)"
  by (cases as) (auto split: option.splits)

lemma contents_upd [simp]: "a \<notin> set as \<Longrightarrow> contents (put_chunk a c cq) as = contents cq as"
  by (auto simp: contents_def put_chunk_def)

lemma put_chunk_simps [simp]:
  "heap (put_chunk a c cq) = (heap cq)(a := Some c)" "cq_first (put_chunk a c cq) = cq_first cq"
  "cq_last (put_chunk a c cq) = cq_last cq" "cq_unused (put_chunk a c cq) = cq_unused cq"
  "cq_unused_chunks (put_chunk a c cq) = cq_unused_chunks cq" "fresh (put_chunk a c cq) = fresh cq"
  "calls (put_chunk a c cq) = calls cq" "cq_bytes_out (put_chunk a c cq) = cq_bytes_out cq"
  "cq_tempdirs (put_chunk a c cq) = cq_tempdirs cq"
  by (simp_all add: put_chunk_def)

lemma linked_next: "h a = Some c \<Longrightarrow> c_next d = c_next c \<Longrightarrow> linked (h(a := Some d)) p as = linked h p as"
  by (induction as arbitrary: p) (auto split: option.splits)

lemma contents_Cons: "heap cq a = Some c \<Longrightarrow> contents cq (a # as) = unlinked c # contents cq as"
  by (simp add: contents_def)

lemma contents_snoc: "contents cq (as @ [a]) = contents cq as @ contents cq [a]"
  by (simp add: contents_def)

text \<open>A chunk gets a new value in its place.\<close>

lemma put_rep:
  assumes rep: "queue_rep cq as us xs" and c: "a \<in> set as" "heap cq a = Some c" and d: "used_ok d" "c_next d = c_next c"
  shows "queue_rep (put_chunk a d cq) as us xs" and "contents (put_chunk a d cq) as = List.map (\<lambda>b. if b = a then unlinked d else unlinked (the (heap cq b))) as"
proof -
  have l: "linked ((heap cq)(a := Some d)) p bs = linked (heap cq) p bs" for p bs using c(2) d(2) by (rule linked_next)
  have n: "a \<notin> set us" "a \<in> dom (heap cq)" using rep c by (auto simp: queue_rep_def)
  have "all_at used_ok ((heap cq)(a := Some d)) bs" if "all_at used_ok (heap cq) bs" for bs
    using that d(1) by (induction bs) (auto split: option.splits)
  then show "queue_rep (put_chunk a d cq) as us xs" using rep l n by (auto simp: queue_rep_def)
  show "contents (put_chunk a d cq) as = List.map (\<lambda>b. if b = a then unlinked d else unlinked (the (heap cq b))) as"
    by (simp add: contents_def)
qed

text \<open>What a chunk still has to send.\<close>

datatype cell = Byte byte | At "byte list" int

definition cells :: "chunk \<Rightarrow> cell list" where
  "cells c = (case c_type c of
     MEM_CHUNK \<Rightarrow> List.map Byte (drop (nat (c_offset c)) (text_of (c_mem c)))
   | FILE_CHUNK \<Rightarrow> List.map (At (text_of (f_name c))) [f_start c + c_offset c .. f_start c + f_length c - 1]
   | UNUSED_CHUNK \<Rightarrow> [])"

definition stream :: "chunk list \<Rightarrow> cell list" where
  "stream cs = concat (List.map cells cs)"

lemma stream_simps [simp]: "stream [] = []" "stream (c # cs) = cells c @ stream cs" "stream (cs @ ds) = stream cs @ stream ds"
  by (simp_all add: stream_def)

lemma cells_unlinked [simp]: "cells (unlinked c) = cells c"
  by (simp add: cells_def split: chunk_type.split)

section \<open>Taking and linking a chunk\<close>

lemma new_chunk_ok: "idle_ok new_chunk" "c_next new_chunk = None"
  by (simp_all add: new_chunk_def idle_ok_def buffer_init_def string_ok_def buffer_ok_def)

lemma get_unused_ok:
  assumes rep: "queue_rep cq as us []"
  obtains a cq' c us' where "chunkqueue_get_unused_chunk cq = Some (a, cq')" "heap cq' a = Some c" "idle_ok c" "c_next c = None"
    "queue_rep cq' as us' [a]" "contents cq' as = contents cq as" "calls cq' = calls cq" "cq_bytes_out cq' = cq_bytes_out cq"
    "cq_tempdirs cq' = cq_tempdirs cq"
proof (cases "cq_unused cq")
  case None
  then have us: "us = []" using rep by (simp add: queue_rep_def linked_None)
  have f: "fresh cq \<notin> dom (heap cq)" using rep by (auto simp: queue_rep_def)
  then have f': "fresh cq \<notin> set as" using rep by (auto simp: queue_rep_def)
  let ?cq = "put_chunk (fresh cq) new_chunk (cq\<lparr>fresh := fresh cq + 1\<rparr>)"
  have "queue_rep ?cq as [] [fresh cq]" using rep f' us None by (auto simp: queue_rep_def less_SucI)
  then show thesis using that [of "fresh cq" ?cq new_chunk "[]"] None f' new_chunk_ok
    by (simp add: chunkqueue_get_unused_chunk_def chunk_init_def) (simp add: contents_def)
next
  case (Some a)
  then obtain c bs where c: "us = a # bs" "heap cq a = Some c" "linked (heap cq) (c_next c) bs"
    using rep by (auto simp: queue_rep_def linked_Some)
  have i: "idle_ok c" using rep c by (simp add: queue_rep_def)
  let ?cq = "(put_chunk a (c\<lparr>c_next := None\<rparr>) (cq\<lparr>cq_unused := c_next c\<rparr>))\<lparr>cq_unused_chunks := length bs\<rparr>"
  have a: "a \<notin> set as" "a \<notin> set bs" using rep c(1) by (auto simp: queue_rep_def)
  have n: "sz (cq_unused_chunks cq + 2 ^ 64 - 1) = length bs"
    using sz_minus [of 1 "cq_unused_chunks cq"] rep c(1) by (simp add: queue_rep_def)
  have "queue_rep ?cq as bs [a]" using rep c a by (auto simp: queue_rep_def)
  moreover have "chunkqueue_get_unused_chunk cq = Some (a, ?cq)"
    using Some c(2) n by (simp add: chunkqueue_get_unused_chunk_def Let_def)
  moreover have "contents ?cq as = contents cq as" using a(1) by (auto simp: contents_def)
  ultimately show thesis using that [of a ?cq "c\<lparr>c_next := None\<rparr>" bs] i by simp
qed

lemma append_chunk_ok:
  assumes rep: "queue_rep cq as us [a]" and c: "heap cq a = Some c" "used_ok c" "c_next c = None"
  obtains cq' where "chunkqueue_append_chunk a cq = Some cq'" "queue_rep cq' (as @ [a]) us []"
    "contents cq' (as @ [a]) = contents cq as @ [c]" "calls cq' = calls cq" "cq_bytes_out cq' = cq_bytes_out cq"
proof (cases as rule: rev_cases)
  case Nil
  let ?cq = "cq\<lparr>cq_last := Some a, cq_first := Some a\<rparr>"
  have "chunkqueue_append_chunk a cq = Some ?cq"
    using rep Nil by (simp add: chunkqueue_append_chunk_def queue_rep_def)
  moreover have "queue_rep ?cq [a] us []" using rep Nil c by (auto simp: queue_rep_def)
  moreover have "contents ?cq [a] = [c]" using c by (simp add: contents_def unlinked_def)
  ultimately show thesis using that [of ?cq] Nil by (simp add: contents_def)
next
  case (snoc bs l)
  obtain d where d: "heap cq l = Some d" "c_next d = None" using linked_last rep snoc by (metis queue_rep_def)
  let ?cq = "(put_chunk l (d\<lparr>c_next := Some a\<rparr>) cq)\<lparr>cq_last := Some a\<rparr>"
  have f: "cq_first cq \<noteq> None" using rep snoc by (auto simp: queue_rep_def linked_None)
  then have e: "chunkqueue_append_chunk a cq = Some ?cq"
    using rep snoc d by (auto simp: chunkqueue_append_chunk_def queue_rep_def Let_def)
  have dist: "distinct (bs @ [l, a])" "l \<notin> set us" "l \<notin> set bs" "a \<notin> set us" "l \<noteq> a" "distinct us" "a \<notin> set bs" "set bs \<inter> set us = {}"
    using rep snoc by (auto simp: queue_rep_def)
  have "linked (heap ?cq) (cq_first ?cq) (bs @ [l, a])"
    using linked_snoc [of "heap cq" "cq_first cq" bs l d a c] rep snoc d c dist by (simp add: queue_rep_def)
  moreover have "linked (heap ?cq) (cq_unused ?cq) us" using rep dist by (simp add: queue_rep_def)
  moreover have "dom (heap ?cq) = set (as @ [a]) \<union> set us" using rep snoc by (auto simp: queue_rep_def)
  moreover have "all_at used_ok (heap ?cq) (as @ [a])"
    using rep snoc c d dist by (simp add: queue_rep_def)
  moreover have "all_at idle_ok (heap ?cq) us" using rep dist by (simp add: queue_rep_def)
  ultimately have "queue_rep ?cq (as @ [a]) us []" using rep snoc dist by (auto simp: queue_rep_def)
  moreover have "contents ?cq (as @ [a]) = contents cq as @ [c]"
    using snoc c d dist by (auto simp: contents_def unlinked_def)
  ultimately show thesis using that [of ?cq] e by simp
qed

lemma prepend_chunk_ok:
  assumes rep: "queue_rep cq as us [a]" and c: "heap cq a = Some c" "used_ok c" "c_next c = None"
  obtains cq' where "chunkqueue_prepend_chunk a cq = Some cq'" "queue_rep cq' (a # as) us []"
    "contents cq' (a # as) = c # contents cq as" "calls cq' = calls cq" "cq_bytes_out cq' = cq_bytes_out cq"
proof -
  let ?cq = "(put_chunk a (c\<lparr>c_next := cq_first cq\<rparr>) cq)\<lparr>cq_first := Some a, cq_last := (if as = [] then Some a else cq_last cq)\<rparr>"
  have a: "a \<notin> set as" "a \<notin> set us" using rep by (auto simp: queue_rep_def)
  have "chunkqueue_prepend_chunk a cq = Some ?cq"
    using rep c by (auto simp: chunkqueue_prepend_chunk_def queue_rep_def Let_def)
  moreover have "queue_rep ?cq (a # as) us []" using rep c a by (auto simp: queue_rep_def)
  moreover have "contents ?cq (a # as) = c # contents cq as" using a c by (auto simp: contents_def unlinked_def)
  ultimately show thesis using that [of ?cq] by simp
qed

text \<open>A well-formed queue that holds the given chunks.\<close>

definition holds :: "chunkqueue \<Rightarrow> chunk list \<Rightarrow> bool" where
  "holds cq cs \<longleftrightarrow> (\<exists>as us. queue_rep cq as us [] \<and> cs = contents cq as \<and> list_all in_range cs)"

lemma init_holds: "holds chunkqueue_init []"
  by (auto simp: holds_def queue_rep_def chunkqueue_init_def contents_def)

lemma fill_chunk_rep:
  "queue_rep cq as us [a] \<Longrightarrow> queue_rep (put_chunk a c cq) as us [a]"
  by (auto simp: queue_rep_def)

lemma with_append:
  assumes h: "holds cq cs"
    and f: "\<And>c. idle_ok c \<Longrightarrow> c_next c = None \<Longrightarrow> \<exists>c'. f c = Some c' \<and> used_ok c' \<and> in_range c' \<and> c_next c' = None \<and> Q c'"
  shows "\<exists>a cq' c. with_chunk f chunkqueue_append_chunk cq = Some (a, cq') \<and> holds cq' (cs @ [c]) \<and> Q c
    \<and> calls cq' = calls cq \<and> cq_bytes_out cq' = cq_bytes_out cq"
proof -
  obtain as us where r: "queue_rep cq as us []" "cs = contents cq as" "list_all in_range cs" using h by (auto simp: holds_def)
  obtain a q1 c us' where g: "chunkqueue_get_unused_chunk cq = Some (a, q1)" "heap q1 a = Some c" "idle_ok c" "c_next c = None"
    "queue_rep q1 as us' [a]" "contents q1 as = contents cq as" "calls q1 = calls cq" "cq_bytes_out q1 = cq_bytes_out cq"
    by (rule get_unused_ok [OF r(1)])
  obtain c' where c': "f c = Some c'" "used_ok c'" "in_range c'" "c_next c' = None" "Q c'" using f [OF g(3,4)] by blast
  have a: "a \<notin> set as" using g(5) by (auto simp: queue_rep_def)
  obtain q2 where q2: "chunkqueue_append_chunk a (put_chunk a c' q1) = Some q2" "queue_rep q2 (as @ [a]) us' []"
    "contents q2 (as @ [a]) = contents (put_chunk a c' q1) as @ [c']" "calls q2 = calls (put_chunk a c' q1)"
    "cq_bytes_out q2 = cq_bytes_out (put_chunk a c' q1)"
    by (rule append_chunk_ok [OF fill_chunk_rep [OF g(5)]]) (use c' in simp_all)
  have k: "contents q2 (as @ [a]) = cs @ [c']" using q2(3) a g(6) r(2) by simp
  have "holds q2 (cs @ [c'])"
    unfolding holds_def using q2(2) k r(3) c'(3) by (intro exI [of _ "as @ [a]"] exI [of _ us']) simp
  moreover have "with_chunk f chunkqueue_append_chunk cq = Some (a, q2)"
    using g(1,2) c'(1) q2(1) by (simp add: with_chunk_def)
  ultimately show ?thesis using c'(5) q2(4,5) g(7,8) by auto
qed

lemma with_prepend:
  assumes h: "holds cq cs"
    and f: "\<And>c. idle_ok c \<Longrightarrow> c_next c = None \<Longrightarrow> \<exists>c'. f c = Some c' \<and> used_ok c' \<and> in_range c' \<and> c_next c' = None \<and> Q c'"
  shows "\<exists>a cq' c. with_chunk f chunkqueue_prepend_chunk cq = Some (a, cq') \<and> holds cq' (c # cs) \<and> Q c
    \<and> calls cq' = calls cq \<and> cq_bytes_out cq' = cq_bytes_out cq"
proof -
  obtain as us where r: "queue_rep cq as us []" "cs = contents cq as" "list_all in_range cs" using h by (auto simp: holds_def)
  obtain a q1 c us' where g: "chunkqueue_get_unused_chunk cq = Some (a, q1)" "heap q1 a = Some c" "idle_ok c" "c_next c = None"
    "queue_rep q1 as us' [a]" "contents q1 as = contents cq as" "calls q1 = calls cq" "cq_bytes_out q1 = cq_bytes_out cq"
    by (rule get_unused_ok [OF r(1)])
  obtain c' where c': "f c = Some c'" "used_ok c'" "in_range c'" "c_next c' = None" "Q c'" using f [OF g(3,4)] by blast
  have a: "a \<notin> set as" using g(5) by (auto simp: queue_rep_def)
  obtain q2 where q2: "chunkqueue_prepend_chunk a (put_chunk a c' q1) = Some q2" "queue_rep q2 (a # as) us' []"
    "contents q2 (a # as) = c' # contents (put_chunk a c' q1) as" "calls q2 = calls (put_chunk a c' q1)"
    "cq_bytes_out q2 = cq_bytes_out (put_chunk a c' q1)"
    by (rule prepend_chunk_ok [OF fill_chunk_rep [OF g(5)]]) (use c' in simp_all)
  have k: "contents q2 (a # as) = c' # cs" using q2(3) a g(6) r(2) by simp
  have "holds q2 (c' # cs)"
    unfolding holds_def using q2(2) k r(3) c'(3) by (intro exI [of _ "a # as"] exI [of _ us']) simp
  moreover have "with_chunk f chunkqueue_prepend_chunk cq = Some (a, q2)"
    using g(1,2) c'(1) q2(1) by (simp add: with_chunk_def)
  ultimately show ?thesis using c'(5) q2(4,5) g(7,8) by auto
qed

section \<open>The operations that add\<close>

definition mem_chunk :: "byte list \<Rightarrow> chunk \<Rightarrow> bool" where
  "mem_chunk t c \<longleftrightarrow> c_type c = MEM_CHUNK \<and> c_offset c = 0 \<and> text_of (c_mem c) = t \<and> b_used (c_mem c) = length t + 1"

definition file_chunk :: "byte list \<Rightarrow> int \<Rightarrow> int \<Rightarrow> chunk \<Rightarrow> bool" where
  "file_chunk name start len c \<longleftrightarrow> c_type c = FILE_CHUNK \<and> c_offset c = 0 \<and> text_of (f_name c) = name
     \<and> f_start c = start \<and> f_length c = len"

lemma mem_chunk_cells: "mem_chunk t c \<Longrightarrow> cells c = List.map Byte t"
  by (simp add: mem_chunk_def cells_def)

lemma file_chunk_cells: "file_chunk name start len c \<Longrightarrow> cells c = List.map (At name) [start .. start + len - 1]"
  by (simp add: file_chunk_def cells_def)

lemma idle_small: "idle_ok c \<Longrightarrow> small 60 (c_mem c) \<and> small 60 (f_name c) \<and> buffer_ok (c_mem c)"
  by (simp add: idle_ok_def small_def string_ok_def)

lemma fill_text:
  assumes i: "idle_ok c" "c_next c = None" and f: "f (c_mem c) = Some b" "string_ok b" "text_of b = t" "b_used b = length t + 1"
  shows "\<exists>c'. fill_mem f c = Some c' \<and> used_ok c' \<and> in_range c' \<and> c_next c' = None \<and> mem_chunk t c'"
  using assms by (simp add: fill_mem_def used_ok_def in_range_def mem_chunk_def idle_ok_def)

lemma fill_copy:
  assumes i: "idle_ok c" "c_next c = None" and mem: "small 60 mem" "b_used mem \<noteq> 0"
  shows "\<exists>c'. fill_mem (\<lambda>b. after (buffer_copy_string_buffer junk (Some b) (Some mem))) c = Some c' \<and> used_ok c' \<and> in_range c'
    \<and> c_next c' = None \<and> mem_chunk (text_of mem) c'"
proof -
  obtain b where b: "after (buffer_copy_string_buffer junk (Some (c_mem c)) (Some mem)) = Some b" "string_ok b"
    "text_of b = text_of mem" "b_used b = b_used mem"
    by (rule after_copy [OF conjunct1 [OF idle_small [OF i(1)]] mem(1), of junk]) simp_all
  have "b_used mem = length (text_of mem) + 1" using small_text [OF mem] by metis
  then show ?thesis by (intro fill_text [where b = b]) (use i b in simp_all)
qed

lemma append_mem_ok:
  assumes h: "holds cq cs" and len: "len \<noteq> 0" "len - 1 \<le> length mem" "len + 64 < 2 ^ 64"
  shows "\<exists>cq' c. chunkqueue_append_mem junk cq mem len = Some cq' \<and> holds cq' (cs @ [c]) \<and> mem_chunk (take (len - 1) mem) c
    \<and> calls cq' = calls cq \<and> cq_bytes_out cq' = cq_bytes_out cq"
proof -
  let ?f = "fill_mem (\<lambda>b. after (buffer_copy_string_len junk (Some b) (Some mem) (len - 1)))"
  have "\<exists>c'. ?f c = Some c' \<and> used_ok c' \<and> in_range c' \<and> c_next c' = None \<and> mem_chunk (take (len - 1) mem) c'"
    if i: "idle_ok c" "c_next c = None" for c
  proof -
    have r: "len - 1 + 65 < 2 ^ 64" using len(1,3) by simp
    obtain b where "buffer_copy_string_len junk (Some (c_mem c)) (Some mem) (len - 1) = Some (0, Some b)" "string_ok b"
      "text_of b = take (len - 1) mem" "b_used b = len - 1 + 1"
      using copy_string_len [OF _ len(2) r, of "c_mem c" junk] idle_small [OF i(1)] by blast
    then show ?thesis by (intro fill_text [where b = b]) (use i len in simp_all)
  qed
  from with_append [OF h, where f = ?f, OF this] show ?thesis using len(1) by (auto simp: chunkqueue_append_mem_def)
qed

lemma append_buffer_ok:
  assumes h: "holds cq cs" and mem: "small 60 mem" "b_used mem \<noteq> 0"
  shows "\<exists>cq' c. chunkqueue_append_buffer junk cq mem = Some cq' \<and> holds cq' (cs @ [c]) \<and> mem_chunk (text_of mem) c
    \<and> calls cq' = calls cq \<and> cq_bytes_out cq' = cq_bytes_out cq"
proof -
  have "\<exists>c'. fill_mem (\<lambda>b. after (buffer_copy_string_buffer junk (Some b) (Some mem))) c = Some c' \<and> used_ok c' \<and> in_range c'
    \<and> c_next c' = None \<and> mem_chunk (text_of mem) c'" if "idle_ok c" "c_next c = None" for c
    by (rule fill_copy [OF that mem])
  from with_append [OF h, where f = "fill_mem (\<lambda>b. after (buffer_copy_string_buffer junk (Some b) (Some mem)))", OF this]
  show ?thesis using mem(2) by (auto simp: chunkqueue_append_buffer_def)
qed

lemma append_buffer_weak_ok:
  assumes h: "holds cq cs" and mem: "small 60 mem" "b_used mem \<noteq> 0"
  shows "\<exists>cq' c. chunkqueue_append_buffer_weak cq mem = Some cq' \<and> holds cq' (cs @ [c]) \<and> mem_chunk (text_of mem) c
    \<and> calls cq' = calls cq \<and> cq_bytes_out cq' = cq_bytes_out cq"
proof -
  have u: "b_used mem = length (text_of mem) + 1" using small_text [OF mem] by metis
  have "\<exists>c'. fill_mem (\<lambda>_. Some mem) c = Some c' \<and> used_ok c' \<and> in_range c' \<and> c_next c' = None \<and> mem_chunk (text_of mem) c'"
    if "idle_ok c" "c_next c = None" for c
    by (rule fill_text [where b = mem]) (use that mem u in \<open>simp_all add: small_def\<close>)
  from with_append [OF h, where f = "fill_mem (\<lambda>_. Some mem)", OF this]
  show ?thesis using mem(2) by (auto simp: chunkqueue_append_buffer_weak_def)
qed

lemma prepend_buffer_ok:
  assumes h: "holds cq cs" and mem: "small 60 mem" "b_used mem \<noteq> 0"
  shows "\<exists>cq' c. chunkqueue_prepend_buffer junk cq mem = Some cq' \<and> holds cq' (c # cs) \<and> mem_chunk (text_of mem) c
    \<and> calls cq' = calls cq \<and> cq_bytes_out cq' = cq_bytes_out cq"
proof -
  have "\<exists>c'. fill_mem (\<lambda>b. after (buffer_copy_string_buffer junk (Some b) (Some mem))) c = Some c' \<and> used_ok c' \<and> in_range c'
    \<and> c_next c' = None \<and> mem_chunk (text_of mem) c'" if "idle_ok c" "c_next c = None" for c
    by (rule fill_copy [OF that mem])
  from with_prepend [OF h, where f = "fill_mem (\<lambda>b. after (buffer_copy_string_buffer junk (Some b) (Some mem)))", OF this]
  show ?thesis using mem(2) by (auto simp: chunkqueue_prepend_buffer_def)
qed

lemma append_file_ok:
  assumes h: "holds cq cs" and fn: "small 60 fn" and len: "0 < len"
  shows "\<exists>cq' c. chunkqueue_append_file junk cq fn start len = Some cq' \<and> holds cq' (cs @ [c]) \<and> file_chunk (text_of fn) start len c
    \<and> calls cq' = calls cq \<and> cq_bytes_out cq' = cq_bytes_out cq"
proof -
  let ?f = "\<lambda>c. do { name \<leftarrow> after (buffer_copy_string_buffer junk (Some (f_name c)) (Some fn));
         Some (c\<lparr>c_type := FILE_CHUNK, f_name := name, f_start := start, f_length := len, c_offset := 0\<rparr>) }"
  have "\<exists>c'. ?f c = Some c' \<and> used_ok c' \<and> in_range c' \<and> c_next c' = None \<and> file_chunk (text_of fn) start len c'"
    if i: "idle_ok c" "c_next c = None" for c
  proof -
    obtain b where "after (buffer_copy_string_buffer junk (Some (f_name c)) (Some fn)) = Some b" "string_ok b" "text_of b = text_of fn"
      by (rule after_copy [OF _ fn, of 60 "f_name c" junk]) (use idle_small [OF i(1)] in simp_all)
    then show ?thesis using i len by (simp add: used_ok_def in_range_def file_chunk_def idle_ok_def)
  qed
  from with_append [OF h, where f = ?f, OF this] show ?thesis using len by (auto simp: chunkqueue_append_file_def)
qed

section \<open>Removing\<close>

lemma clear_ok:
  assumes "buffer_ok b"
  obtains b' where "buffer_clear b = Some b'" "string_ok b'" "text_of b' = []" "b_used b' = 0" "b_size b' \<le> 4096"
proof (cases "b_size b = 0 \<or> b_size b > 4096")
  case True
  let ?b = "if b_size b > 4096 then b\<lparr>b_ptr := None, b_size := 0, b_used := 0\<rparr> else b\<lparr>b_used := 0\<rparr>"
  have "buffer_clear b = Some ?b" using True by (auto simp: buffer_clear_def buffer_reset_def BUFFER_MAX_REUSE_SIZE_def)
  then show thesis using that [of ?b] True assms
    by (auto simp: buffer_ok_def string_ok_def text_of_def content_def split: option.splits)
next
  case False
  then obtain p where p: "b_ptr b = Some p" "length p = b_size b" using assms by (auto simp: buffer_ok_def split: option.splits)
  let ?b = "b\<lparr>b_ptr := Some (p[0 := 0]), b_used := 0\<rparr>"
  have "buffer_clear b = Some ?b"
    using False p by (simp add: buffer_clear_def buffer_reset_def BUFFER_MAX_REUSE_SIZE_def)
  then show thesis using that [of ?b] False p by (simp add: buffer_ok_def string_ok_def text_of_def content_def)
qed

lemma takeWhile_before: "takeWhile (\<lambda>x. x \<noteq> 0) (t @ 0 # rest) = takeWhile (\<lambda>x. x \<noteq> 0) t"
  by (induction t) simp_all

lemma c_string_text:
  assumes "string_ok b" and "b_used b \<noteq> 0"
  shows "c_string b = Some (takeWhile (\<lambda>x. x \<noteq> 0) (text_of b))"
proof -
  obtain p rest where p: "b_ptr b = Some p" "p = text_of b @ 0 # rest" using string_area [OF assms] by metis
  have t: "takeWhile (\<lambda>x. x \<noteq> 0) p = takeWhile (\<lambda>x. x \<noteq> 0) (text_of b)"
    unfolding p(2) by (rule takeWhile_before)
  have "strlen p = Some (length (takeWhile (\<lambda>x. x \<noteq> 0) p))" using p(2) by (simp add: strlen_def)
  then show ?thesis using p(1) t takeWhile_eq_take [of "\<lambda>x. x \<noteq> 0" p] by (simp add: c_string_def)
qed

text \<open>What the system is asked to do when a chunk is no longer used.\<close>

definition released :: "chunk \<Rightarrow> sys_call list" where
  "released c = (if f_is_temp c \<and> b_used (f_name c) \<noteq> 0 then [Unlink (takeWhile (\<lambda>x. x \<noteq> 0) (text_of (f_name c)))] else [])
     @ (if f_fd c \<noteq> - 1 then [Close (f_fd c)] else []) @ (case f_mmap c of None \<Rightarrow> [] | Some n \<Rightarrow> [Munmap n])"

lemma released_unlinked [simp]: "released (unlinked c) = released c"
  by (simp add: released_def)

lemma reset_chunk_ok:
  assumes "heap cq a = Some c" and ok: "used_ok c"
  obtains d where "chunk_reset (Some a) cq = Some ((put_chunk a d cq)\<lparr>calls := calls cq @ released c\<rparr>)" "idle_ok d"
    "c_next d = c_next c" "f_is_temp d = f_is_temp c"
proof -
  have s: "string_ok (c_mem c)" "string_ok (f_name c)" "buffer_ok (c_mem c)" "buffer_ok (f_name c)"
    using ok by (simp_all add: used_ok_def string_ok_def)
  obtain m where m: "buffer_clear (c_mem c) = Some m" "string_ok m" "b_size m \<le> 4096" using clear_ok [OF s(3)] by metis
  obtain n where n: "buffer_clear (f_name c) = Some n" "string_ok n" "b_size n \<le> 4096" using clear_ok [OF s(4)] by metis
  let ?d = "c\<lparr>c_mem := m, f_name := n, f_fd := - 1, f_mmap := None\<rparr>"
  have "chunk_reset (Some a) cq = Some ((put_chunk a ?d cq)\<lparr>calls := calls cq @ released c\<rparr>)"
    using assms(1) m(1) n(1) c_string_text [OF s(2)]
    by (simp add: chunk_reset_def released_def buffer_is_empty_def Let_def split: option.split)
  then show thesis using that [of ?d] m n by (simp add: idle_ok_def)
qed

lemma retire_ok:
  assumes rep: "queue_rep cq (a # as) us []" and c: "heap cq a = Some c"
  obtains cq' us' where "retire a cq = Some cq'" "queue_rep cq' as us' []" "contents cq' as = contents cq as"
    "calls cq' = calls cq @ released c" "cq_bytes_out cq' = cq_bytes_out cq"
proof -
  have "used_ok c" using rep c by (simp add: queue_rep_def)
  then obtain d where d: "chunk_reset (Some a) cq = Some ((put_chunk a d cq)\<lparr>calls := calls cq @ released c\<rparr>)" "idle_ok d"
    "c_next d = c_next c" using reset_chunk_ok [OF c] by metis
  have a: "a \<notin> set as" "a \<notin> set us" using rep by (auto simp: queue_rep_def)
  let ?q = "cq\<lparr>cq_first := c_next c, cq_last := (if as = [] then None else cq_last cq), calls := calls cq @ released c\<rparr>"
  have l: "(cq_last cq = Some a) = (as = [])" using rep a(1) last_in_set [of as] by (auto simp: queue_rep_def)
  let ?r = "if cq_unused_chunks cq > 4 then ?q\<lparr>heap := (heap cq)(a := None)\<rparr>
    else (put_chunk a (d\<lparr>c_next := cq_unused cq\<rparr>) ?q)\<lparr>cq_unused := Some a, cq_unused_chunks := cq_unused_chunks cq + 1\<rparr>"
  have "retire a cq = Some ?r"
    using d(1,3) l by (auto simp: retire_def chunk_free_def put_chunk_def)
  moreover have "queue_rep ?r as (if cq_unused_chunks cq > 4 then us else a # us) []"
    using rep c d(2) a by (auto simp: queue_rep_def)
  moreover have "contents ?r as = contents cq as" using a(1) by (auto simp: contents_def)
  ultimately show thesis using that [of ?r] by simp
qed

lemma remove_rep:
  assumes "queue_rep cq as us []"
  shows "\<exists>cq' as' us'. chunkqueue_remove_finished_chunks cq = Some cq' \<and> queue_rep cq' as' us' []
    \<and> contents cq' as' = dropWhile is_finished (contents cq as)
    \<and> calls cq' = calls cq @ concat (List.map released (takeWhile is_finished (contents cq as)))
    \<and> cq_bytes_out cq' = cq_bytes_out cq"
  using assms
proof (induction as arbitrary: cq us)
  case Nil
  then have "cq_first cq = None" by (simp add: queue_rep_def)
  then have "chunkqueue_remove_finished_chunks cq = Some cq"
    by (simp add: chunkqueue_remove_finished_chunks.simps [of cq])
  then show ?case using Nil by (auto simp: contents_def)
next
  case (Cons a as)
  obtain c where c: "heap cq a = Some c" "cq_first cq = Some a"
    using Cons.prems by (auto simp: queue_rep_def split: option.splits)
  have k: "contents cq (a # as) = unlinked c # contents cq as" using c(1) by (simp add: contents_def)
  show ?case
  proof (cases "is_finished c")
    case False
    then have "chunkqueue_remove_finished_chunks cq = Some cq"
      using c by (simp add: chunkqueue_remove_finished_chunks.simps [of cq])
    then show ?thesis using Cons.prems False k by auto
  next
    case True
    obtain q us' where q: "retire a cq = Some q" "queue_rep q as us' []" "contents q as = contents cq as"
      "calls q = calls cq @ released c" "cq_bytes_out q = cq_bytes_out cq"
      by (rule retire_ok [OF Cons.prems c(1)])
    have "chunkqueue_remove_finished_chunks cq = chunkqueue_remove_finished_chunks q"
      using c True q(1) by (simp add: chunkqueue_remove_finished_chunks.simps [of cq])
    then show ?thesis using Cons.IH [OF q(2)] q(3-5) True k by auto
  qed
qed

lemma remove_ok:
  assumes "holds cq cs"
  obtains cq' where "chunkqueue_remove_finished_chunks cq = Some cq'" "holds cq' (dropWhile is_finished cs)"
    "calls cq' = calls cq @ concat (List.map released (takeWhile is_finished cs))" "cq_bytes_out cq' = cq_bytes_out cq"
proof -
  obtain as us where r: "queue_rep cq as us []" "cs = contents cq as" "list_all in_range cs" using assms by (auto simp: holds_def)
  obtain cq' as' us' where q: "chunkqueue_remove_finished_chunks cq = Some cq'" "queue_rep cq' as' us' []"
    "contents cq' as' = dropWhile is_finished cs"
    "calls cq' = calls cq @ concat (List.map released (takeWhile is_finished cs))" "cq_bytes_out cq' = cq_bytes_out cq"
    using remove_rep [OF r(1)] r(2) by metis
  have "list_all in_range (dropWhile is_finished cs)" using r(3) by (auto simp: list_all_iff dest: set_dropWhileD)
  then have "holds cq' (dropWhile is_finished cs)" using q(2,3) by (auto simp: holds_def)
  then show thesis using that q by blast
qed

lemma length_text_le: "length (text_of b) \<le> b_used b - 1"
  by (simp add: text_of_def content_def diff_le_mono)

lemma finished_cells: "in_range c \<Longrightarrow> is_finished c \<Longrightarrow> cells c = []"
  using length_text_le [of "c_mem c"] by (auto simp: in_range_def is_finished_def cells_def split: chunk_type.splits)

lemma stream_remove: "list_all in_range cs \<Longrightarrow> stream (dropWhile is_finished cs) = stream cs"
  by (induction cs) (auto simp: finished_cells)

section \<open>Walking the queue\<close>

definition chunk_length :: "chunk \<Rightarrow> int" where
  "chunk_length c = (case c_type c of MEM_CHUNK \<Rightarrow> (if b_used (c_mem c) \<noteq> 0 then int (b_used (c_mem c)) - 1 else 0)
       | FILE_CHUNK \<Rightarrow> f_length c | UNUSED_CHUNK \<Rightarrow> 0)"

definition chunk_sent :: "chunk \<Rightarrow> int" where
  "chunk_sent c = (case c_type c of MEM_CHUNK \<Rightarrow> c_offset c | FILE_CHUNK \<Rightarrow> c_offset c | UNUSED_CHUNK \<Rightarrow> 0)"

lemma chunk_length_unlinked [simp]: "chunk_length (unlinked c) = chunk_length c" "chunk_sent (unlinked c) = chunk_sent c"
  by (simp_all add: chunk_length_def chunk_sent_def split: chunk_type.split)

lemma length_loop_spec:
  "linked (heap cq) p as \<Longrightarrow> length_loop p n cq = Some (n + sum_list (List.map chunk_length (contents cq as)))"
proof (induction as arbitrary: p n)
  case Nil
  then show ?case by (simp add: length_loop.simps [of None] contents_def)
next
  case (Cons a as)
  then obtain c where c: "p = Some a" "heap cq a = Some c" "linked (heap cq) (c_next c) as" by (auto split: option.splits)
  have "length_loop p n cq = length_loop (c_next c) (n + chunk_length c) cq"
    using c(1,2) by (simp add: length_loop.simps [of "Some a"] chunk_length_def)
  then show ?case using Cons.IH [OF c(3)] c(2) by (simp add: contents_def)
qed

lemma written_loop_spec:
  "linked (heap cq) p as \<Longrightarrow> written_loop p n cq = Some (n + sum_list (List.map chunk_sent (contents cq as)))"
proof (induction as arbitrary: p n)
  case Nil
  then show ?case by (simp add: written_loop.simps [of None] contents_def)
next
  case (Cons a as)
  then obtain c where c: "p = Some a" "heap cq a = Some c" "linked (heap cq) (c_next c) as" by (auto split: option.splits)
  have "written_loop p n cq = written_loop (c_next c) (n + chunk_sent c) cq"
    using c(1,2) by (simp add: written_loop.simps [of "Some a"] chunk_sent_def)
  then show ?case using Cons.IH [OF c(3)] c(2) by (simp add: contents_def)
qed

lemma all_at_contents: "all_at used_ok (heap cq) as \<Longrightarrow> list_all used_ok (contents cq as)"
  by (induction as) (auto simp: contents_def split: option.splits)

lemma holds_ok:
  assumes "holds cq cs"
  obtains as us where "queue_rep cq as us []" "cs = contents cq as" "list_all used_ok cs" "list_all in_range cs"
  using assms all_at_contents by (auto simp: holds_def queue_rep_def)

lemma cells_count: "used_ok c \<Longrightarrow> in_range c \<Longrightarrow> int (length (cells c)) = chunk_length c - chunk_sent c"
  using length_text [of "c_mem c"]
  by (auto simp: used_ok_def in_range_def cells_def chunk_length_def chunk_sent_def string_ok_def of_nat_diff split: chunk_type.splits)

lemma stream_count:
  "list_all used_ok cs \<Longrightarrow> list_all in_range cs
   \<Longrightarrow> int (length (stream cs)) = sum_list (List.map chunk_length cs) - sum_list (List.map chunk_sent cs)"
  by (induction cs) (auto simp: cells_count)

lemma length_written:
  assumes "holds cq cs"
  shows "\<exists>l w. chunkqueue_length cq = Some l \<and> chunkqueue_written cq = Some w \<and> l - w = int (length (stream cs))"
proof -
  obtain as us where r: "queue_rep cq as us []" "cs = contents cq as" "list_all used_ok cs" "list_all in_range cs"
    by (rule holds_ok [OF assms])
  then have "linked (heap cq) (cq_first cq) as" by (simp add: queue_rep_def)
  then show ?thesis using length_loop_spec written_loop_spec r stream_count [OF r(3,4)]
    by (simp add: chunkqueue_length_def chunkqueue_written_def)
qed

lemma is_empty_iff: "holds cq cs \<Longrightarrow> chunkqueue_is_empty cq = (if cs = [] then 1 else 0)"
  by (auto simp: holds_def queue_rep_def chunkqueue_is_empty_def contents_def linked_None)

section \<open>Resetting and freeing\<close>

definition marked :: "chunk \<Rightarrow> chunk" where
  "marked c = (case c_type c of MEM_CHUNK \<Rightarrow> c\<lparr>c_offset := int (b_used (c_mem c)) - 1\<rparr>
     | FILE_CHUNK \<Rightarrow> c\<lparr>c_offset := f_length c\<rparr> | UNUSED_CHUNK \<Rightarrow> c)"

lemma marked_simps [simp]:
  "c_next (marked c) = c_next c" "used_ok (marked c) = used_ok c" "c_type (marked c) = c_type c"
  "released (marked c) = released c" "f_is_temp (marked c) = f_is_temp c"
  by (auto simp: marked_def used_ok_def released_def split: chunk_type.split)

lemma mark_loop_spec:
  "linked (heap cq) p as \<Longrightarrow> distinct as
   \<Longrightarrow> mark_loop p cq = Some (cq\<lparr>heap := (\<lambda>a. if a \<in> set as then map_option marked (heap cq a) else heap cq a)\<rparr>)"
proof (induction as arbitrary: p cq)
  case Nil
  then show ?case by (simp add: mark_loop.simps [of None])
next
  case (Cons a as)
  then obtain c where c: "p = Some a" "heap cq a = Some c" "linked (heap cq) (c_next c) as" by (auto split: option.splits)
  have a: "a \<notin> set as" "distinct as" using Cons.prems by simp_all
  have "mark_loop p cq = mark_loop (c_next c) (put_chunk a (marked c) cq)"
    using c(1,2) by (simp add: mark_loop.simps [of "Some a"] marked_def [symmetric])
  moreover have "(\<lambda>b. if b \<in> set (a # as) then map_option marked (heap cq b) else heap cq b)
      = (\<lambda>b. if b \<in> set as then map_option marked (heap (put_chunk a (marked c) cq) b) else heap (put_chunk a (marked c) cq) b)"
    using a(1) c(2) by (auto simp: fun_eq_iff)
  moreover have "mark_loop (c_next c) (put_chunk a (marked c) cq) = Some ((put_chunk a (marked c) cq)\<lparr>heap :=
      (\<lambda>b. if b \<in> set as then map_option marked (heap (put_chunk a (marked c) cq) b) else heap (put_chunk a (marked c) cq) b)\<rparr>)"
    by (rule Cons.IH) (use a c(3) in simp_all)
  ultimately show ?case by (simp only:) (simp add: put_chunk_def)
qed

lemma linked_marked:
  "linked h p as \<Longrightarrow> linked (\<lambda>a. if a \<in> S then map_option marked (h a) else h a) p as"
  by (induction as arbitrary: p) (auto split: option.splits)

lemma all_at_marked:
  "all_at used_ok h as \<Longrightarrow> all_at used_ok (\<lambda>a. if a \<in> S then map_option marked (h a) else h a) as"
  by (induction as) (auto split: option.splits)

lemma all_at_other: "\<forall>a \<in> set as. a \<notin> S \<Longrightarrow> all_at P (\<lambda>a. if a \<in> S then f a else h a) as = all_at P h as"
  by (induction as) auto

lemma marked_finished: "in_range c \<Longrightarrow> is_finished (unlinked (marked c))"
  by (auto simp: in_range_def is_finished_def marked_def split: chunk_type.splits)

lemma queue_reset_ok:
  assumes "holds cq cs"
  obtains cq' where "chunkqueue_reset cq = Some cq'" "holds cq' []" "calls cq' = calls cq @ concat (List.map released cs)"
    "cq_bytes_out cq' = 0"
proof -
  obtain as us where r: "queue_rep cq as us []" "cs = contents cq as" "list_all in_range cs"
    using holds_ok [OF assms] by metis
  let ?h = "\<lambda>a. if a \<in> set as then map_option marked (heap cq a) else heap cq a"
  let ?q = "cq\<lparr>heap := ?h\<rparr>"
  have m: "mark_loop (cq_first cq) cq = Some ?q"
    using r(1) by (intro mark_loop_spec) (simp_all add: queue_rep_def)
  have "queue_rep ?q as us []"
  proof -
    have "all_at idle_ok ?h us = all_at idle_ok (heap cq) us"
      by (rule all_at_other) (use r(1) in \<open>auto simp: queue_rep_def\<close>)
    then show ?thesis
      using r(1) linked_marked [of "heap cq"] all_at_marked [of "heap cq" as "set as"]
      by (auto simp: queue_rep_def dom_def split: if_splits)
  qed
  from remove_rep [OF this] obtain q as' us' where q: "chunkqueue_remove_finished_chunks ?q = Some q" "queue_rep q as' us' []"
    "contents q as' = dropWhile is_finished (contents ?q as)"
    "calls q = calls ?q @ concat (List.map released (takeWhile is_finished (contents ?q as)))" by blast
  have live: "heap cq a \<noteq> None" if "a \<in> set as" for a
    using that r(1) by (auto simp: queue_rep_def)
  have e: "contents ?q as = List.map (\<lambda>a. unlinked (marked (the (heap cq a)))) as"
    using live by (auto simp: contents_def option.map_sel)
  have "\<forall>c \<in> set (contents ?q as). is_finished c"
    unfolding e using r(2,3) marked_finished by (auto simp: contents_def list_all_iff)
  then have d: "dropWhile is_finished (contents ?q as) = []" "takeWhile is_finished (contents ?q as) = contents ?q as"
    by (simp_all add: takeWhile_eq_all_conv)
  have rel: "List.map released (contents ?q as) = List.map released cs"
    unfolding e r(2) by (simp add: contents_def)
  have "holds (q\<lparr>cq_bytes_in := 0, cq_bytes_out := 0\<rparr>) []"
  proof -
    have "as' = []" using q(3) unfolding d(1) by (simp add: contents_def)
    then show ?thesis using q(2) by (auto simp: holds_def queue_rep_def contents_def)
  qed
  moreover have "chunkqueue_reset cq = Some (q\<lparr>cq_bytes_in := 0, cq_bytes_out := 0\<rparr>)"
    using m q(1) by (simp add: chunkqueue_reset_def)
  ultimately show thesis using that q(4) d(2) rel by simp
qed

lemma free_loop_spec:
  "linked (heap cq) p as \<Longrightarrow> distinct as
   \<Longrightarrow> free_loop p cq = Some (cq\<lparr>heap := (\<lambda>a. if a \<in> set as then None else heap cq a)\<rparr>)"
proof (induction as arbitrary: p cq)
  case Nil
  then show ?case by (simp add: free_loop.simps [of None])
next
  case (Cons a as)
  then obtain c where c: "p = Some a" "heap cq a = Some c" "linked (heap cq) (c_next c) as" by (auto split: option.splits)
  have a: "a \<notin> set as" "distinct as" using Cons.prems by simp_all
  have "free_loop p cq = free_loop (c_next c) (cq\<lparr>heap := (heap cq)(a := None)\<rparr>)"
    using c(1,2) by (simp add: free_loop.simps [of "Some a"] chunk_free_def)
  moreover have "free_loop (c_next c) (cq\<lparr>heap := (heap cq)(a := None)\<rparr>) = Some ((cq\<lparr>heap := (heap cq)(a := None)\<rparr>)\<lparr>heap :=
      (\<lambda>b. if b \<in> set as then None else heap (cq\<lparr>heap := (heap cq)(a := None)\<rparr>) b)\<rparr>)"
    by (rule Cons.IH) (use a c(3) in simp_all)
  moreover have "(\<lambda>b. if b \<in> set (a # as) then None else heap cq b)
      = (\<lambda>b. if b \<in> set as then None else heap (cq\<lparr>heap := (heap cq)(a := None)\<rparr>) b)"
    by (auto simp: fun_eq_iff)
  ultimately show ?case by (simp only:) simp
qed

text \<open>Nothing is left behind, and no chunk is freed twice.\<close>

lemma free_ok:
  assumes "holds cq cs"
  obtains cq' where "chunkqueue_free cq = Some cq'" "heap cq' = Map.empty"
proof -
  obtain as us where r: "queue_rep cq as us []" using assms by (auto simp: holds_def)
  let ?q = "cq\<lparr>heap := (\<lambda>a. if a \<in> set as then None else heap cq a)\<rparr>"
  have f: "free_loop (cq_first cq) cq = Some ?q" using r by (intro free_loop_spec) (simp_all add: queue_rep_def)
  have "linked (heap ?q) (cq_unused cq) us"
  proof -
    have "linked h p us \<Longrightarrow> set us \<inter> set as = {} \<Longrightarrow> linked (\<lambda>a. if a \<in> set as then None else h a) p us" for h p
      by (induction us arbitrary: p) (auto split: option.splits)
    then show ?thesis using r by (auto simp: queue_rep_def)
  qed
  then have "free_loop (cq_unused cq) ?q = Some (?q\<lparr>heap := (\<lambda>a. if a \<in> set us then None else heap ?q a)\<rparr>)"
    using r by (intro free_loop_spec) (simp_all add: queue_rep_def)
  moreover have "(\<lambda>a. if a \<in> set us then None else heap ?q a) = Map.empty"
    using r by (auto simp: queue_rep_def fun_eq_iff dom_def)
  ultimately show thesis using that f by (simp add: chunkqueue_free_def)
qed

section \<open>Properties\<close>

text \<open>C30: Nothing is lost and nothing is done twice when a queue is emptied: resetting it leaves an empty queue and has
  asked the system, for each chunk in order, to delete its file if it is temporary, to close its file and
  to unmap its memory; freeing it returns every chunk, used or not, and none of them twice. No operation
  follows a null or a stale pointer.\<close>
theorem queue_reclaims:
  assumes "holds cq cs"
  shows "(\<exists>cq'. chunkqueue_reset cq = Some cq' \<and> holds cq' [] \<and> chunkqueue_is_empty cq' = 1
      \<and> calls cq' = calls cq @ concat (List.map released cs))
    \<and> (\<exists>cq'. chunkqueue_free cq = Some cq' \<and> heap cq' = Map.empty)"
proof
  obtain cq' where r: "chunkqueue_reset cq = Some cq'" "holds cq' []" "calls cq' = calls cq @ concat (List.map released cs)"
    by (rule queue_reset_ok [OF assms])
  then show "\<exists>cq'. chunkqueue_reset cq = Some cq' \<and> holds cq' [] \<and> chunkqueue_is_empty cq' = 1
      \<and> calls cq' = calls cq @ concat (List.map released cs)" using is_empty_iff [OF r(2)] by simp
  obtain cq' where "chunkqueue_free cq = Some cq'" "heap cq' = Map.empty" by (rule free_ok [OF assms])
  then show "\<exists>cq'. chunkqueue_free cq = Some cq' \<and> heap cq' = Map.empty" by blast
qed

text \<open>A queue of one temporary file that has been sent, and whose chunk is the first of the memory.\<close>

definition sent_upload :: chunk where
  "sent_upload = new_chunk\<lparr>c_type := FILE_CHUNK, f_name := as_buffer [116], f_fd := 4, f_is_temp := True\<rparr>"

definition upload_queue :: chunkqueue where
  "upload_queue = chunkqueue_init\<lparr>cq_first := Some 0, cq_last := Some 0, heap := [0 \<mapsto> sent_upload], fresh := 1\<rparr>"

lemma upload_queue_rep: "queue_rep upload_queue [0] [] []" "contents upload_queue [0] = [sent_upload]" "in_range sent_upload"
  by (auto simp: queue_rep_def upload_queue_def chunkqueue_init_def contents_def unlinked_def sent_upload_def new_chunk_def
      used_ok_def in_range_def buffer_init_def string_ok_def buffer_ok_def as_buffer_def content_def area_def)

lemma upload_queue_holds: "holds upload_queue [sent_upload]"
  using upload_queue_rep unfolding holds_def by (intro exI [of _ "[0]"] exI [of _ "[]"]) simp

lemma queue_reclaims_witness:
  "\<exists>cq'. chunkqueue_reset upload_queue = Some cq' \<and> holds cq' [] \<and> calls cq' = [Unlink [116], Close 4]"
proof -
  have "concat (List.map released [sent_upload]) = [Unlink [116], Close 4]"
    by (simp add: released_def sent_upload_def new_chunk_def)
  moreover have "calls upload_queue = []" by (simp add: upload_queue_def chunkqueue_init_def)
  ultimately show ?thesis using queue_reclaims [OF upload_queue_holds] by auto
qed

text \<open>The mark of a temporary file stays on a chunk that goes to the stack of unused chunks.\<close>

lemma retire_keeps_mark:
  assumes rep: "queue_rep cq [a] us []" and c: "heap cq a = Some c" "f_is_temp c" and few: "cq_unused_chunks cq \<le> 4"
  shows "\<exists>q d. retire a cq = Some q \<and> queue_rep q [] (a # us) [] \<and> cq_unused q = Some a \<and> heap q a = Some d \<and> f_is_temp d
    \<and> idle_ok d"
proof -
  have u: "used_ok c" using rep c by (simp add: queue_rep_def)
  obtain d where d: "chunk_reset (Some a) cq = Some ((put_chunk a d cq)\<lparr>calls := calls cq @ released c\<rparr>)" "idle_ok d"
    "c_next d = c_next c" "f_is_temp d = f_is_temp c" using reset_chunk_ok [OF c(1) u] by metis
  let ?q = "(put_chunk a (d\<lparr>c_next := cq_unused cq\<rparr>) (cq\<lparr>cq_first := c_next c, cq_last := None, calls := calls cq @ released c\<rparr>))
    \<lparr>cq_unused := Some a, cq_unused_chunks := cq_unused_chunks cq + 1\<rparr>"
  have "retire a cq = Some ?q" using d(1,3) rep few by (simp add: retire_def queue_rep_def put_chunk_def)
  moreover have "queue_rep ?q [] (a # us) []" using rep c d(2) few by (auto simp: queue_rep_def)
  ultimately show ?thesis using d(2,4) c(2) by auto
qed

text \<open>C33: A file of the server can be deleted by sending it: a chunk that held a temporary file keeps its mark when it is
  reused, so that when an ordinary file has been sent through the same queue, the name that is passed to
  \<open>unlink\<close> is the name of that file.\<close>
theorem reused_chunk_deletes_file:
  assumes rep: "queue_rep cq [a] us []" and c: "heap cq a = Some c" "f_is_temp c" "is_finished c"
    and few: "cq_unused_chunks cq \<le> 4" and fn: "small 60 fn" "text_of fn \<noteq> []" "0 \<notin> set (text_of fn)" and len: "0 < len"
  shows "\<exists>q1 q2 q3 d. chunkqueue_remove_finished_chunks cq = Some q1 \<and> chunkqueue_append_file junk q1 fn start len = Some q2
    \<and> holds q2 [d] \<and> file_chunk (text_of fn) start len d \<and> chunkqueue_reset q2 = Some q3 \<and> Unlink (text_of fn) \<in> set (calls q3)"
proof -
  obtain q1 e where q1: "retire a cq = Some q1" "queue_rep q1 [] (a # us) []" "cq_unused q1 = Some a" "heap q1 a = Some e" "f_is_temp e"
    "idle_ok e"
    using retire_keeps_mark [OF rep c(1,2) few] by blast
  have f: "cq_first cq = Some a" using rep by (auto simp: queue_rep_def split: option.splits)
  have "cq_first q1 = None" using q1(2) by (simp add: queue_rep_def)
  then have r: "chunkqueue_remove_finished_chunks cq = Some q1"
    using f c(1,3) q1(1) chunkqueue_remove_finished_chunks.simps [of q1] by (simp add: chunkqueue_remove_finished_chunks.simps [of cq])
  let ?q = "(put_chunk a (e\<lparr>c_next := None\<rparr>) (q1\<lparr>cq_unused := c_next e\<rparr>))\<lparr>cq_unused_chunks := length us\<rparr>"
  have n: "sz (cq_unused_chunks q1 + 2 ^ 64 - 1) = length us"
    using sz_minus [of 1 "cq_unused_chunks q1"] q1(2) by (simp add: queue_rep_def)
  have g: "chunkqueue_get_unused_chunk q1 = Some (a, ?q)"
    using q1(3,4) n by (simp add: chunkqueue_get_unused_chunk_def Let_def)
  obtain name where name: "after (buffer_copy_string_buffer junk (Some (f_name e)) (Some fn)) = Some name" "string_ok name"
    "text_of name = text_of fn"
    by (rule after_copy [OF _ fn(1), of 60 "f_name e" junk]) (use idle_small [OF q1(6)] in simp_all)
  let ?d = "e\<lparr>c_next := None, c_type := FILE_CHUNK, f_name := name, f_start := start, f_length := len, c_offset := 0\<rparr>"
  have rep2: "queue_rep (put_chunk a ?d ?q) [] us [a]" using q1(2,4) by (auto simp: queue_rep_def)
  obtain q2 where q2: "chunkqueue_append_chunk a (put_chunk a ?d ?q) = Some q2" "queue_rep q2 [a] us []" "contents q2 [a] = [?d]"
    by (rule append_chunk_ok [OF rep2, of ?d]) (use q1(6) name in \<open>simp_all add: used_ok_def idle_ok_def contents_def\<close>)
  have ap: "chunkqueue_append_file junk q1 fn start len = Some q2"
    using len g name(1) q2(1) by (simp add: chunkqueue_append_file_def with_chunk_def put_chunk_def)
  have h: "holds q2 [?d]" unfolding holds_def using q2(2,3) len
    by (intro exI [of _ "[a]"] exI [of _ us]) (simp add: in_range_def)
  have u: "b_used name \<noteq> 0" using length_text_le [of name] name(3) fn(2) by (cases "text_of fn") auto
  have t: "takeWhile (\<lambda>x. x \<noteq> 0) (text_of fn) = text_of fn" using fn(3) by (auto simp: takeWhile_eq_all_conv)
  have d: "Unlink (text_of fn) \<in> set (released ?d)" using q1(5) u by (simp add: released_def name(3) t)
  obtain q3 where "chunkqueue_reset q2 = Some q3" "calls q3 = calls q2 @ concat (List.map released [?d])"
    by (rule queue_reset_ok [OF h])
  then show ?thesis using r ap h d name(3) unfolding file_chunk_def by (intro exI [of _ q1] exI [of _ q2] exI [of _ q3] exI [of _ ?d]) auto
qed

lemma reused_chunk_deletes_file_witness:
  "\<exists>q1 q2 q3 d. chunkqueue_remove_finished_chunks upload_queue = Some q1
    \<and> chunkqueue_append_file (\<lambda>_. 0) q1 (as_buffer [47, 102]) 0 9 = Some q2 \<and> holds q2 [d]
    \<and> chunkqueue_reset q2 = Some q3 \<and> Unlink [47, 102] \<in> set (calls q3)"
proof -
  have h: "heap upload_queue 0 = Some sent_upload" "f_is_temp sent_upload" "is_finished sent_upload" "cq_unused_chunks upload_queue \<le> 4"
    by (simp_all add: upload_queue_def chunkqueue_init_def sent_upload_def is_finished_def new_chunk_def)
  show ?thesis
    using reused_chunk_deletes_file [OF upload_queue_rep(1) h, of "as_buffer [47, 102]" 9 "\<lambda>_. 0" 0] by auto
qed

end
