(* ===== verification/Request_Reading.thy ===== *)
theory Request_Reading
  imports Chunk_Queues
begin

text \<open>
  connections.c of lighttpd: what comes in on a connection. \<open>connection_handle_read\<close> puts the bytes that are there into a new
  chunk of the read queue; \<open>connection_handle_read_state\<close> finds the empty line that ends the header of a request, across the
  borders of chunks, and collects the body that follows it, in memory or, from 64 kB on, in temporary files.

  The record holds the fields of the connection that these functions use. The system is a parameter: how many bytes it says are
  there, what \<open>read\<close> gives, whether \<open>mkstemp\<close> and \<open>open\<close> give a descriptor, and the results of the successive calls of \<open>write\<close>; what
  is written is recorded. The branches for SSL and for Windows are left out.
\<close>

section \<open>The connection\<close>

datatype con_state = CON_STATE_CONNECT | CON_STATE_REQUEST_START | CON_STATE_READ | CON_STATE_REQUEST_END | CON_STATE_READ_POST
  | CON_STATE_HANDLE_REQUEST | CON_STATE_RESPONSE_START | CON_STATE_WRITE | CON_STATE_RESPONSE_END | CON_STATE_ERROR | CON_STATE_CLOSE

datatype errno = EAGAIN | EINTR | ECONNRESET | EOTHER

record read_con =
  rc_state :: con_state
  is_readable :: bool
  read_idle_ts :: int
  http_status :: int
  keep_alive :: int
  bytes_read :: int
  read_queue :: chunkqueue
  content_queue :: chunkqueue
  request :: buffer
  content_length :: int

text \<open>What the system says about the descriptor: \<open>FIONREAD\<close> and \<open>read\<close>.\<close>

record arrival =
  available :: "int option"
  incoming :: "errno + byte list"

section \<open>Reading\<close>

definition connection_handle_read :: "(nat \<Rightarrow> byte) \<Rightarrow> arrival \<Rightarrow> read_con \<Rightarrow> (int \<times> read_con) option" where
  "connection_handle_read junk arr con = (case available arr of None \<Rightarrow> Some (- 1, con) | Some toread \<Rightarrow> do {
     (a, cq) \<leftarrow> chunkqueue_get_append_buffer (read_queue con);
     c \<leftarrow> heap cq a;
     b \<leftarrow> snd (buffer_prepare_copy junk (Some (c_mem c)) (nat (toread + 1)));
     let con = con\<lparr>read_queue := put_chunk a (c\<lparr>c_mem := b\<rparr>) cq\<rparr>;
     case incoming arr of
       Inl e \<Rightarrow> do {
         let con = con\<lparr>is_readable := False\<rparr>;
         if e = EAGAIN then Some (0, con)
         else if e = EINTR then Some (0, con\<lparr>is_readable := True\<rparr>)
         else Some (- 1, con\<lparr>rc_state := CON_STATE_ERROR\<rparr>)
       }
     | Inr data \<Rightarrow> do {
         let data = take (b_size b - 1) data;
         let len = length data;
         if len = 0 then Some (- 2, con\<lparr>is_readable := False\<rparr>)
         else do {
           let con = (if len < b_size b - 1 then con\<lparr>is_readable := False\<rparr> else con);
           p \<leftarrow> b_ptr b;
           p \<leftarrow> memcpy p 0 data len;
           p \<leftarrow> poke p len 0;
           let b = b\<lparr>b_ptr := Some p, b_used := len + 1\<rparr>;
           Some (0, con\<lparr>read_queue := put_chunk a (c\<lparr>c_mem := b\<rparr>) cq, bytes_read := bytes_read con + int len\<rparr>)
         }
       }
   })"

section \<open>Empty chunks\<close>

partial_function (option) drop_empty :: "nat option \<Rightarrow> chunkqueue \<Rightarrow> chunkqueue option" where
  "drop_empty p cq = (case p of None \<Rightarrow> Some cq | Some a \<Rightarrow> do {
     c \<leftarrow> heap cq a;
     if cq_first cq = Some a \<and> b_used (c_mem c) = 0 then do {
       let cq = cq\<lparr>cq_first := c_next c\<rparr>;
       let cq = (if cq_first cq = None then cq\<lparr>cq_last := None\<rparr> else cq);
       let cq = put_chunk a (c\<lparr>c_next := cq_unused cq\<rparr>) cq;
       let cq = cq\<lparr>cq_unused := Some a, cq_unused_chunks := sz (cq_unused_chunks cq + 1)\<rparr>;
       drop_empty (cq_first cq) cq
     }
     else case c_next c of None \<Rightarrow> drop_empty None cq | Some n \<Rightarrow> do {
       fc \<leftarrow> heap cq n;
       if b_used (c_mem fc) = 0 then do {
         let cq = put_chunk a (c\<lparr>c_next := c_next fc\<rparr>) cq;
         let cq = put_chunk n (fc\<lparr>c_next := cq_unused cq\<rparr>) cq;
         let cq = cq\<lparr>cq_unused := Some n, cq_unused_chunks := sz (cq_unused_chunks cq + 1)\<rparr>;
         let cq = (if c_next fc = None then cq\<lparr>cq_last := Some a\<rparr> else cq);
         drop_empty (c_next fc) cq
       }
       else drop_empty (Some n) cq
     }
   })"

section \<open>The end of the header\<close>

text \<open>The local variable \<open>b\<close>, a view of what is left of a chunk; its size is not set and not used.\<close>

definition rest_of :: "chunk \<Rightarrow> buffer" where
  "rest_of c = \<lparr>b_ptr = map_option (drop (nat (c_offset c))) (b_ptr (c_mem c)),
     b_used = nat ((int (b_used (c_mem c)) - c_offset c) mod 2 ^ 64), b_size = 0\<rparr>"

text \<open>\<open>strncmp(p + i, s, n) == 0\<close>\<close>

fun strncmp_eq :: "byte list \<Rightarrow> nat \<Rightarrow> byte list \<Rightarrow> nat \<Rightarrow> bool option" where
  "strncmp_eq p i s 0 = Some True"
| "strncmp_eq p i s (Suc n) = do {
     c \<leftarrow> peek p i;
     d \<leftarrow> peek s 0;
     if c \<noteq> d then Some False else if c = 0 then Some True else strncmp_eq p (i + 1) (drop 1 s) n
   }"

definition header_end :: "byte list" where
  "header_end = [13, 10, 13, 10]"

text \<open>One position of the search: the chunk with the last byte of the header and the number of its bytes up to there.\<close>

definition look_at :: "(nat \<Rightarrow> chunk option) \<Rightarrow> nat \<Rightarrow> chunk \<Rightarrow> nat \<Rightarrow> (nat \<times> int) option option" where
  "look_at h a c i = do {
     p \<leftarrow> b_ptr (rest_of c);
     ch \<leftarrow> peek p i;
     if ch \<noteq> 13 then Some None
     else do {
       let have_chars = b_used (rest_of c) - i - 1;
       if have_chars \<ge> 4 then do {
         found \<leftarrow> strncmp_eq p i (header_end @ [0]) 4;
         Some (if found then Some (a, int i + 4) else None)
       }
       else case c_next c of None \<Rightarrow> Some None | Some l \<Rightarrow> do {
         lookahead_chunk \<leftarrow> h l;
         let missing_chars = 4 - have_chars;
         if c_type lookahead_chunk = MEM_CHUNK \<and> b_used (c_mem lookahead_chunk) > missing_chars then do {
           here \<leftarrow> strncmp_eq p i (header_end @ [0]) have_chars;
           if \<not> here then Some None
           else do {
             q \<leftarrow> b_ptr (c_mem lookahead_chunk);
             there \<leftarrow> strncmp_eq q 0 (drop have_chars (header_end @ [0])) missing_chars;
             Some (if there then Some (l, int missing_chars) else None)
           }
         }
         else Some None
       }
     }
   }"

text \<open>From position \<open>i\<close> on, \<open>n\<close> positions.\<close>

fun scan_chunk :: "(nat \<Rightarrow> chunk option) \<Rightarrow> nat \<Rightarrow> chunk \<Rightarrow> nat \<Rightarrow> nat \<Rightarrow> (nat \<times> int) option option" where
  "scan_chunk h a c i 0 = Some None"
| "scan_chunk h a c i (Suc n) = do {
     r \<leftarrow> look_at h a c i;
     case r of Some x \<Rightarrow> Some (Some x) | None \<Rightarrow> scan_chunk h a c (i + 1) n
   }"

partial_function (option) search_header :: "(nat \<Rightarrow> chunk option) \<Rightarrow> nat option \<Rightarrow> (nat \<times> int) option option" where
  "search_header h p = (case p of None \<Rightarrow> Some None | Some a \<Rightarrow> do {
     c \<leftarrow> h a;
     r \<leftarrow> scan_chunk h a c 0 (b_used (rest_of c));
     case r of Some x \<Rightarrow> Some (Some x) | None \<Rightarrow> search_header h (c_next c)
   })"

partial_function (option) copy_header ::
    "(nat \<Rightarrow> byte) \<Rightarrow> nat \<Rightarrow> int \<Rightarrow> nat option \<Rightarrow> buffer \<Rightarrow> chunkqueue \<Rightarrow> (buffer \<times> chunkqueue) option" where
  "copy_header junk last_chunk last_offset p req cq = (case p of None \<Rightarrow> Some (req, cq) | Some a \<Rightarrow> do {
     c \<leftarrow> heap cq a;
     let b = rest_of c;
     let b = (if a = last_chunk then b\<lparr>b_used := nat (last_offset + 1)\<rparr> else b);
     req \<leftarrow> after (buffer_append_string_buffer junk (Some req) (Some b));
     if a = last_chunk then Some (req, put_chunk a (c\<lparr>c_offset := c_offset c + last_offset\<rparr>) cq)
     else copy_header junk last_chunk last_offset (c_next c) req
       (put_chunk a (c\<lparr>c_offset := int (b_used (c_mem c)) - 1\<rparr>) cq)
   })"

definition read_header :: "(nat \<Rightarrow> byte) \<Rightarrow> read_con \<Rightarrow> read_con option" where
  "read_header junk con = do {
     r \<leftarrow> search_header (heap (read_queue con)) (cq_first (read_queue con));
     case r of
       Some (last_chunk, last_offset) \<Rightarrow> do {
         req \<leftarrow> buffer_clear (request con);
         (req, cq) \<leftarrow> copy_header junk last_chunk last_offset (cq_first (read_queue con)) req (read_queue con);
         Some (con\<lparr>request := req, read_queue := cq, rc_state := CON_STATE_REQUEST_END\<rparr>)
       }
     | None \<Rightarrow> do {
         n \<leftarrow> chunkqueue_length (read_queue con);
         Some (if n > 64 * 1024 then con\<lparr>http_status := 414, keep_alive := 0, rc_state := CON_STATE_HANDLE_REQUEST\<rparr> else con)
       }
   }"

section \<open>The body\<close>

text \<open>Writing to temporary files: the results to come and what has been written to which descriptor.\<close>

record upload =
  write_results :: "nat \<Rightarrow> int"
  written_to :: "(int \<times> byte list) list"

definition write_file :: "int \<Rightarrow> byte list \<Rightarrow> upload \<Rightarrow> int \<times> upload" where
  "write_file fd data up = (let r = write_results up 0; up = up\<lparr>write_results := \<lambda>i. write_results up (i + 1)\<rparr> in
     if r < 0 then (- 1, up)
     else (let r = min r (int (length data)) in (r, up\<lparr>written_to := written_to up @ [(fd, take (nat r) data)]\<rparr>)))"

text \<open>The file for the next bytes: the last one if it is a temporary file that nobody has begun to read and that has room, a new
  one otherwise.\<close>

definition upload_chunk ::
    "(nat \<Rightarrow> byte) \<Rightarrow> (byte list \<Rightarrow> int \<times> byte list) \<Rightarrow> (byte list \<Rightarrow> int) \<Rightarrow> chunkqueue \<Rightarrow> (nat \<times> chunkqueue) option" where
  "upload_chunk junk mkstemp reopen dst_cq = (case cq_last dst_cq of
     None \<Rightarrow> chunkqueue_get_append_tempfile junk mkstemp dst_cq
   | Some l \<Rightarrow> do {
       d \<leftarrow> heap dst_cq l;
       if c_type d = FILE_CHUNK \<and> f_is_temp d \<and> c_offset d = 0 then
         if f_length d < 1 * 1024 * 1024 then
           if f_fd d = - 1 then do {
             name \<leftarrow> c_string (f_name d);
             Some (l, put_chunk l (d\<lparr>f_fd := reopen name\<rparr>) dst_cq)
           } else Some (l, dst_cq)
         else do {
           let dst_cq = (if f_fd d \<noteq> - 1 then (put_chunk l (d\<lparr>f_fd := - 1\<rparr>) dst_cq)\<lparr>calls := calls dst_cq @ [Close (f_fd d)]\<rparr> else dst_cq);
           chunkqueue_get_append_tempfile junk mkstemp dst_cq
         }
       else chunkqueue_get_append_tempfile junk mkstemp dst_cq
     })"

definition too_large :: "read_con \<Rightarrow> read_con" where
  "too_large con = con\<lparr>http_status := 413, keep_alive := 0, rc_state := CON_STATE_HANDLE_REQUEST\<rparr>"

text \<open>Storing \<open>data\<close> in a file; the first result says that the loop goes on.\<close>

definition store_in_file ::
    "(nat \<Rightarrow> byte) \<Rightarrow> (byte list \<Rightarrow> int \<times> byte list) \<Rightarrow> (byte list \<Rightarrow> int) \<Rightarrow> byte list \<Rightarrow> read_con \<Rightarrow> upload
     \<Rightarrow> (bool \<times> read_con \<times> upload) option" where
  "store_in_file junk mkstemp reopen data con up = do {
     (l, dst_cq) \<leftarrow> upload_chunk junk mkstemp reopen (content_queue con);
     dst_c \<leftarrow> heap dst_cq l;
     let con = con\<lparr>content_queue := dst_cq\<rparr>;
     if f_fd dst_c = - 1 then Some (False, too_large con, up)
     else do {
       let (r, up) = write_file (f_fd dst_c) data up;
       if int (length data) \<noteq> r then
         Some (False, (too_large con)\<lparr>content_queue := (put_chunk l (dst_c\<lparr>f_fd := - 1\<rparr>) dst_cq)\<lparr>calls := calls dst_cq @ [Close (f_fd dst_c)]\<rparr>\<rparr>, up)
       else do {
         let dst_c = dst_c\<lparr>f_length := f_length dst_c + int (length data)\<rparr>;
         let dst_cq = put_chunk l dst_c dst_cq;
         let dst_cq = (if cq_bytes_in dst_cq + int (length data) = content_length con
           then (put_chunk l (dst_c\<lparr>f_fd := - 1\<rparr>) dst_cq)\<lparr>calls := calls dst_cq @ [Close (f_fd dst_c)]\<rparr> else dst_cq);
         Some (True, con\<lparr>content_queue := dst_cq\<rparr>, up)
       }
     }
   }"

definition store_in_memory :: "(nat \<Rightarrow> byte) \<Rightarrow> byte list \<Rightarrow> nat \<Rightarrow> read_con \<Rightarrow> read_con option" where
  "store_in_memory junk p n con = do {
     (l, dst_cq) \<leftarrow> chunkqueue_get_append_buffer (content_queue con);
     d \<leftarrow> heap dst_cq l;
     b \<leftarrow> after (buffer_copy_string_len junk (Some (c_mem d)) (Some p) n);
     Some (con\<lparr>content_queue := put_chunk l (d\<lparr>c_mem := b\<rparr>) dst_cq\<rparr>)
   }"

definition store_body ::
    "(nat \<Rightarrow> byte) \<Rightarrow> (byte list \<Rightarrow> int \<times> byte list) \<Rightarrow> (byte list \<Rightarrow> int) \<Rightarrow> byte list \<Rightarrow> nat \<Rightarrow> read_con \<Rightarrow> upload
     \<Rightarrow> (bool \<times> read_con \<times> upload) option" where
  "store_body junk mkstemp reopen p n con up = (if content_length con > 64 * 1024
     then store_in_file junk mkstemp reopen (take n p) con up
     else do { con \<leftarrow> store_in_memory junk p n con; Some (True, con, up) })"

partial_function (option) read_post ::
    "(nat \<Rightarrow> byte) \<Rightarrow> (byte list \<Rightarrow> int \<times> byte list) \<Rightarrow> (byte list \<Rightarrow> int) \<Rightarrow> nat option \<Rightarrow> read_con \<Rightarrow> upload
     \<Rightarrow> (read_con \<times> upload) option" where
  "read_post junk mkstemp reopen p con up = (case p of None \<Rightarrow> Some (con, up) | Some a \<Rightarrow>
     if cq_bytes_in (content_queue con) = content_length con then Some (con, up)
     else do {
       c \<leftarrow> heap (read_queue con) a;
       let weWant = content_length con - cq_bytes_in (content_queue con);
       if b_used (c_mem c) = 0 then None
       else do {
         let weHave = int (b_used (c_mem c)) - c_offset c - 1;
         let toRead = (if weHave > weWant then weWant else weHave);
         p \<leftarrow> b_ptr (rest_of c);
         _ \<leftarrow> (if 0 \<le> toRead \<and> toRead \<le> int (length p) then Some () else None);
         (go_on, con, up) \<leftarrow> store_body junk mkstemp reopen p (nat toRead) con up;
         if \<not> go_on then Some (con, up)
         else do {
           let con = con\<lparr>read_queue := put_chunk a (c\<lparr>c_offset := c_offset c + toRead\<rparr>) (read_queue con),
             content_queue := (content_queue con)\<lparr>cq_bytes_in := cq_bytes_in (content_queue con) + toRead\<rparr>\<rparr>;
           read_post junk mkstemp reopen (c_next c) con up
         }
       }
     })"

section \<open>The function\<close>

definition connection_handle_read_state ::
    "(nat \<Rightarrow> byte) \<Rightarrow> (byte list \<Rightarrow> int \<times> byte list) \<Rightarrow> (byte list \<Rightarrow> int) \<Rightarrow> int \<Rightarrow> arrival \<Rightarrow> read_con \<Rightarrow> upload
     \<Rightarrow> (int \<times> read_con \<times> upload) option" where
  "connection_handle_read_state junk mkstemp reopen cur_ts arr con up = do {
     let ostate = rc_state con;
     (r, con) \<leftarrow> (if is_readable con then connection_handle_read junk arr (con\<lparr>read_idle_ts := cur_ts\<rparr>) else Some (0, con));
     if r = - 1 then Some (- 1, con, up)
     else do {
       let is_closed = (r = - 2);
       cq \<leftarrow> drop_empty (cq_first (read_queue con)) (read_queue con);
       let con = con\<lparr>read_queue := cq\<rparr>;
       (con, up) \<leftarrow> (case ostate of
           CON_STATE_READ \<Rightarrow> do { con \<leftarrow> read_header junk con; Some (con, up) }
         | CON_STATE_READ_POST \<Rightarrow> do {
             (con, up) \<leftarrow> read_post junk mkstemp reopen (cq_first (read_queue con)) con up;
             Some (if cq_bytes_in (content_queue con) = content_length con
               then con\<lparr>rc_state := CON_STATE_HANDLE_REQUEST\<rparr> else con, up)
           }
         | _ \<Rightarrow> Some (con, up));
       let con = (if is_closed \<and> ostate = rc_state con then con\<lparr>rc_state := CON_STATE_ERROR\<rparr> else con);
       cq \<leftarrow> chunkqueue_remove_finished_chunks (read_queue con);
       Some (0, con\<lparr>read_queue := cq\<rparr>, up)
     }
   }"


section \<open>The header of a text\<close>

text \<open>The number of bytes up to the first empty line, the place of a byte in a list of chunks and what is left of them
  after some bytes.\<close>

fun header_length :: "byte list \<Rightarrow> nat option" where
  "header_length [] = None"
| "header_length (x # s) = (if take 4 (x # s) = header_end then Some 4 else map_option Suc (header_length s))"

fun place :: "nat \<Rightarrow> nat list \<Rightarrow> byte list list \<Rightarrow> nat \<times> nat" where
  "place n (a # as) (t # ts) = (if n \<le> length t then (a, n) else place (n - length t) as ts)"
| "place n _ _ = (0, 0)"

fun consume :: "nat \<Rightarrow> byte list list \<Rightarrow> byte list list" where
  "consume n [] = []"
| "consume n (t # ts) = (if n < length t then drop n t # ts else consume (n - length t) ts)"

lemma concat_consume: "concat (consume n ts) = drop n (concat ts)"
  by (induction n ts rule: consume.induct) auto

lemma header_length_found: "take 4 (x # s) = header_end \<Longrightarrow> header_length (x # s) = Some 4"
  by simp

lemma header_length_next: "take 4 (x # s) \<noteq> header_end \<Longrightarrow> header_length (x # s) = map_option Suc (header_length s)"
  by simp

lemma header_length_ge: "header_length s = Some m \<Longrightarrow> 4 \<le> m"
  by (induction s arbitrary: m) (auto split: if_splits)

lemma header_length_le: "header_length s = Some m \<Longrightarrow> m \<le> length s"
proof (induction s arbitrary: m)
  case (Cons x s)
  show ?case
  proof (cases "take 4 (x # s) = header_end")
    case True
    then have "length (take 4 (x # s)) = 4" by (simp only:) (simp add: header_end_def)
    then show ?thesis using True Cons.prems by simp
  qed (use Cons in auto)
qed simp

lemma header_length_append_None: "header_length (t @ s) = None \<Longrightarrow> header_length s = None"
  by (induction t) (auto split: if_splits)

lemma header_length_append: "header_length (t @ s) = Some m \<Longrightarrow> length t + 4 \<le> m \<Longrightarrow> header_length s = Some (m - length t)"
  by (induction t arbitrary: m) (auto split: if_splits)

lemma header_length_take: "header_length s = Some m \<Longrightarrow> header_length (s @ t) = Some m"
proof (induction s arbitrary: m)
  case (Cons x s)
  have long: "take 4 (x # (s @ t)) = take 4 (x # s)" if "3 \<le> length s" using that by simp
  show ?case
  proof (cases "take 4 (x # s) = header_end")
    case True
    then have "length (take 4 (x # s)) = 4" by (simp only:) (simp add: header_end_def)
    then have "take 4 (x # (s @ t)) = header_end" using long True by simp
    from header_length_found [OF this] show ?thesis using header_length_found [OF True] Cons.prems by (simp only: append_Cons)
  next
    case False
    then obtain k where k: "header_length s = Some k" "m = Suc k" using header_length_next [OF False] Cons.prems by auto
    have "3 \<le> length s" using header_length_le [OF k(1)] header_length_ge [OF k(1)] by simp
    then have "take 4 (x # (s @ t)) \<noteq> header_end" using long False by metis
    from header_length_next [OF this] show ?thesis using Cons.IH [OF k(1)] k(2) by (simp only: append_Cons option.map)
  qed
qed simp

section \<open>The search\<close>

definition mem_only :: "chunk \<Rightarrow> bool" where
  "mem_only c \<longleftrightarrow> c_type c = MEM_CHUNK \<and> f_fd c = - 1 \<and> f_mmap c = None \<and> small 60 (f_name c) \<and> small 60 (c_mem c)"

text \<open>A chunk of the read queue of which \<open>t\<close> is left.\<close>

definition packet :: "byte list \<Rightarrow> chunk \<Rightarrow> bool" where
  "packet t c \<longleftrightarrow> mem_only c \<and> b_used (c_mem c) \<noteq> 0 \<and> in_range c \<and> drop (nat (c_offset c)) (text_of (c_mem c)) = t \<and> t \<noteq> []"

lemma packet_unlinked [simp]: "packet t (unlinked c) = packet t c"
  by (simp add: packet_def mem_only_def)

lemma packet_view:
  assumes "packet t c"
  obtains q r where "b_ptr (c_mem c) = Some q" "drop (nat (c_offset c)) q = t @ 0 # r" "b_used (rest_of c) = length t + 1"
    "int (b_used (c_mem c)) = c_offset c + int (length t) + 1" "0 \<le> c_offset c" "b_ptr (rest_of c) = Some (t @ 0 # r)"
    "length t < 2 ^ 60"
proof -
  have m: "small 60 (c_mem c)" "b_used (c_mem c) \<noteq> 0" "in_range c" "drop (nat (c_offset c)) (text_of (c_mem c)) = t" "c_type c = MEM_CHUNK"
    using assms by (auto simp: packet_def mem_only_def)
  obtain q rest where q: "b_ptr (c_mem c) = Some q" "q = text_of (c_mem c) @ 0 # rest" "b_used (c_mem c) = length (text_of (c_mem c)) + 1"
    "length (text_of (c_mem c)) < 2 ^ 60"
    by (rule small_text [OF m(1,2)])
  have o: "0 \<le> c_offset c" "nat (c_offset c) \<le> length (text_of (c_mem c))" using m(3,5) q(3) by (auto simp: in_range_def)
  have d: "drop (nat (c_offset c)) q = t @ 0 # rest" using q(2) o m(4) by simp
  have l: "int (length (text_of (c_mem c))) = c_offset c + int (length t)" using o m(4) by auto
  have u: "int (b_used (c_mem c)) - c_offset c = int (length t + 1)" "length t < 2 ^ 60" using q(3,4) l o by simp_all
  have "b_used (rest_of c) = length t + 1" unfolding rest_of_def buffer.simps u(1) using u(2) by (simp add: zmod_int nat_int del: of_nat_add)
  then show thesis using that [OF q(1) d] q l o d u(2) by (simp add: rest_of_def)
qed

lemma packet_rest: "packet t c \<Longrightarrow> b_used (rest_of c) = length t + 1"
  by (erule packet_view)

lemma strncmp_eq_spec:
  "i + n \<le> length p \<Longrightarrow> n \<le> length s \<Longrightarrow> 0 \<notin> set (take n s) \<Longrightarrow> strncmp_eq p i s n = Some (take n (drop i p) = take n s)"
proof (induction n arbitrary: i s)
  case (Suc n)
  obtain d s' where s: "s = d # s'" using Suc.prems(2) by (cases s) auto
  have p: "drop i p = p ! i # drop (Suc i) p" using Suc.prems(1) by (simp add: Cons_nth_drop_Suc)
  show ?case
    using Suc.IH [of "Suc i" s'] Suc.prems s by (auto simp: peek_def p)
qed simp

lemma header_end_take: "have \<le> 4 \<Longrightarrow> 0 \<notin> set (take have (header_end @ [0])) \<and> take have (header_end @ [0]) = take have header_end
   \<and> 0 \<notin> set (take (4 - have) (drop have (header_end @ [0]))) \<and> take (4 - have) (drop have (header_end @ [0])) = drop have header_end"
  by (auto simp: header_end_def take_Cons' drop_Cons' split: if_splits)

lemma match_split:
  assumes "length u = n" and "n \<le> 4" and "4 - n \<le> length v"
  shows "take 4 (u @ v @ w) = header_end \<longleftrightarrow> u = take n header_end \<and> take (4 - n) v = drop n header_end"
proof -
  have "take 4 (u @ v @ w) = u @ take (4 - n) v" using assms by simp
  moreover have "header_end = take n header_end @ drop n header_end" by simp
  moreover have "length (take n header_end) = n" using assms(2) by (simp add: header_end_def)
  ultimately show ?thesis using assms(1) append_eq_append_conv [of u "take n header_end"] by metis
qed

text \<open>One position. The chunks between the first and the last have to hold three bytes each.\<close>

definition roomy :: "byte list list \<Rightarrow> bool" where
  "roomy ts \<longleftrightarrow> (\<forall>t \<in> set (butlast (tl ts)). 3 \<le> length t)"

lemma look_at_spec:
  assumes c: "packet t c" and i: "i \<le> length t"
    and next_chunk: "case ts of [] \<Rightarrow> c_next c = None
      | t2 # ts' \<Rightarrow> \<exists>l d as'. c_next c = Some l \<and> as = l # as' \<and> h l = Some d \<and> packet t2 d \<and> c_offset d = 0 \<and> (ts' = [] \<or> 3 \<le> length t2)"
  shows "look_at h a c i = Some (if i < length t \<and> take 4 (drop i t @ concat ts) = header_end
    then map_option (\<lambda>(b, n). (b, int n)) (Some (place (i + 4) (a # as) (t # ts))) else None)"
proof -
  obtain q r where v: "b_ptr (rest_of c) = Some (t @ 0 # r)" "b_used (rest_of c) = length t + 1" using packet_view [OF c] by metis
  let ?p = "t @ 0 # r"
  show ?thesis
  proof (cases "i < length t \<and> t ! i = 13")
    case False
    then have "?p ! i \<noteq> 13" using i by (auto simp: nth_append)
    moreover have "\<not> (i < length t \<and> take 4 (drop i t @ concat ts) = header_end)"
      using False by (auto simp: Cons_nth_drop_Suc [symmetric] header_end_def)
    ultimately show ?thesis using v i by (simp add: look_at_def peek_def del: peek_Some)
  next
    case True
    then have ch: "peek ?p i = Some 13" by (simp add: nth_append)
    define have_chars where "have_chars = length t - i"
    have hc: "b_used (rest_of c) - i - 1 = have_chars" "0 < have_chars" using v(2) True by (simp_all add: have_chars_def)
    have u: "length (drop i t) = have_chars" by (simp add: have_chars_def)
    show ?thesis
    proof (cases "have_chars \<ge> 4")
      case four: True
      have "strncmp_eq ?p i (header_end @ [0]) 4 = Some (take 4 (drop i t) = header_end)"
        using strncmp_eq_spec [of i 4 ?p "header_end @ [0]"] header_end_take [of 4] four by (simp add: have_chars_def header_end_def)
      moreover have "take 4 (drop i t @ concat ts) = take 4 (drop i t)" using four u by simp
      moreover have "i + 4 \<le> length t" using four by (simp add: have_chars_def)
      ultimately show ?thesis using v(1) ch True hc four by (simp add: look_at_def Let_def)
    next
      case less: False
      have un: "take 4 (drop i t @ concat ts) \<noteq> header_end" if "length (concat ts) < 4 - have_chars"
      proof
        assume "take 4 (drop i t @ concat ts) = header_end"
        then have "length (take 4 (drop i t @ concat ts)) = 4" by (simp only:) (simp add: header_end_def)
        then show False using that u by simp
      qed
      show ?thesis
      proof (cases ts)
        case Nil
        then show ?thesis using next_chunk v(1) ch hc less un by (simp add: look_at_def Let_def)
      next
        case (Cons t2 ts')
        then obtain l d as' where d: "c_next c = Some l" "as = l # as'" "h l = Some d" "packet t2 d" "c_offset d = 0"
          "ts' = [] \<or> 3 \<le> length t2" using next_chunk by auto
        obtain q2 r2 where q2: "b_ptr (c_mem d) = Some q2" "q2 = t2 @ 0 # r2" "b_used (c_mem d) = length t2 + 1"
        proof -
          obtain q r where w: "b_ptr (c_mem d) = Some q" "drop (nat (c_offset d)) q = t2 @ 0 # r"
            "int (b_used (c_mem d)) = c_offset d + int (length t2) + 1"
            by (rule packet_view [OF d(4)])
          have "q = t2 @ 0 # r" "b_used (c_mem d) = length t2 + 1" using w(2,3) d(5) by simp_all
          then show thesis using that [of q r] w(1) by simp
        qed
        have ty: "c_type d = MEM_CHUNK" using d(4) by (simp add: packet_def mem_only_def)
        show ?thesis
        proof (cases "4 - have_chars \<le> length t2")
          case enough: True
          have he: "have_chars \<le> 4" using less by simp
          have l4: "have_chars \<le> length (header_end @ [0])" using he by (simp add: header_end_def)
          have il: "i + have_chars \<le> length ?p" using True by (simp add: have_chars_def)
          have t1: "take have_chars (drop i ?p) = drop i t" by (simp add: have_chars_def)
          have e1: "strncmp_eq ?p i (header_end @ [0]) have_chars = Some (drop i t = take have_chars header_end)"
            using strncmp_eq_spec [of i have_chars ?p "header_end @ [0]"] header_end_take [OF he] t1 l4 il by simp
          have l5: "0 + (4 - have_chars) \<le> length q2" "4 - have_chars \<le> length (drop have_chars (header_end @ [0]))"
            using enough q2(2) by (simp_all add: header_end_def)
          have z: "0 \<notin> set (take (4 - have_chars) (drop have_chars (header_end @ [0])))"
            "take (4 - have_chars) (drop have_chars (header_end @ [0])) = drop have_chars header_end"
            using header_end_take [OF he] by argo+
          have t2: "take (4 - have_chars) (drop 0 q2) = take (4 - have_chars) t2" using enough q2(2) by simp
          have e2: "strncmp_eq q2 0 (drop have_chars (header_end @ [0])) (4 - have_chars)
              = Some (take (4 - have_chars) t2 = drop have_chars header_end)"
            using strncmp_eq_spec [OF l5 z(1)] unfolding t2 z(2) .
          have m: "take 4 (drop i t @ concat ts) = header_end \<longleftrightarrow>
              drop i t = take have_chars header_end \<and> take (4 - have_chars) t2 = drop have_chars header_end"
            using match_split [OF u he enough, of "concat ts'"] Cons by simp
          have ar: "\<not> i + 4 \<le> length t" "i + 4 - length t = 4 - have_chars"
            using less True unfolding have_chars_def by linarith+
          have pl: "place (i + 4) (a # as) (t # ts) = (l, 4 - have_chars)"
            using ar enough Cons d(2) by simp
          show ?thesis
            unfolding m pl using v(1) ch hc less True d(1,3) ty q2(1,3) e1 e2 enough
            by (simp add: look_at_def Let_def del: place.simps)
        next
          case False
          then have "ts' = []" using d(6) hc(2) by auto
          then have "length (concat ts) < 4 - have_chars" using False Cons by simp
          from un [OF this] show ?thesis using v(1) ch hc less True d(1,3) ty q2(3) False by (simp add: look_at_def Let_def)
        qed
      qed
    qed
  qed
qed

lemma scan_chunk_spec:
  assumes c: "packet t c"
    and next_chunk: "case ts of [] \<Rightarrow> c_next c = None
      | t2 # ts' \<Rightarrow> \<exists>l d as'. c_next c = Some l \<and> as = l # as' \<and> h l = Some d \<and> packet t2 d \<and> c_offset d = 0 \<and> (ts' = [] \<or> 3 \<le> length t2)"
  shows "i + n = length t + 1 \<Longrightarrow> scan_chunk h a c i n = Some (case header_length (drop i t @ concat ts) of None \<Rightarrow> None
    | Some m \<Rightarrow> if m < length t - i + 4 then map_option (\<lambda>(b, n). (b, int n)) (Some (place (i + m) (a # as) (t # ts))) else None)"
proof (induction n arbitrary: i)
  case 0
  then show ?case by (auto dest: header_length_ge split: option.split)
next
  case (Suc n)
  then have i: "i \<le> length t" by simp
  note look = look_at_spec [OF c i next_chunk, of a]
  show ?case
  proof (cases "i < length t")
    case False
    then have "n = 0" "i = length t" using Suc.prems by simp_all
    then show ?thesis using look by (auto dest: header_length_ge split: option.split)
  next
    case True
    then have d: "drop i t = t ! i # drop (i + 1) t" by (simp add: Cons_nth_drop_Suc)
    show ?thesis
    proof (cases "take 4 (drop i t @ concat ts) = header_end")
      case found: True
      then have "header_length (drop i t @ concat ts) = Some 4" unfolding d append_Cons by (rule header_length_found)
      moreover have "look_at h a c i = Some (map_option (\<lambda>(b, n). (b, int n)) (Some (place (i + 4) (a # as) (t # ts))))"
        using look True found by (simp del: place.simps)
      ultimately show ?thesis using True by (simp del: place.simps)
    next
      case False
      then have l: "look_at h a c i = Some None" using look by simp
      have h: "header_length (drop i t @ concat ts) = map_option Suc (header_length (drop (i + 1) t @ concat ts))"
        using False unfolding d append_Cons by (rule header_length_next)
      have s: "(i + 1) + n = length t + 1" using Suc.prems by simp
      show ?thesis unfolding h using l Suc.IH [OF s] True
        by (auto split: option.split simp del: place.simps)
    qed
  qed
qed

text \<open>The chunks of a queue with the unread texts \<open>ts\<close>; only the first can have been read in part.\<close>

definition packets :: "byte list list \<Rightarrow> chunk list \<Rightarrow> bool" where
  "packets ts cs \<longleftrightarrow> list_all2 packet ts cs \<and> (\<forall>c \<in> set (tl cs). c_offset c = 0)"

lemma packets_simps [simp]:
  "packets [] cs \<longleftrightarrow> cs = []" "packets ts [] \<longleftrightarrow> ts = []"
  "packets (t # ts) (c # cs) \<longleftrightarrow> packet t c \<and> packets ts cs \<and> (\<forall>d \<in> set cs. c_offset d = 0)"
  by (cases cs; auto simp: packets_def)+

lemma search_header_spec:
  assumes "linked h p as" and "packets ts (List.map (\<lambda>a. unlinked (the (h a))) as)" and "roomy ts"
  shows "search_header h p = Some (map_option (\<lambda>n. case place n as ts of (b, k) \<Rightarrow> (b, int k)) (header_length (concat ts)))"
  using assms
proof (induction as arbitrary: p ts)
  case Nil
  then show ?case by (simp add: search_header.simps [of h None])
next
  case (Cons a as)
  obtain c where c: "p = Some a" "h a = Some c" "linked h (c_next c) as" using Cons.prems(1) by (auto split: option.splits)
  obtain t us where t: "ts = t # us" "packet t c" "packets us (List.map (\<lambda>a. unlinked (the (h a))) as)"
    "\<forall>b \<in> set as. c_offset (the (h b)) = 0"
    using Cons.prems(2) c(2) by (cases ts) auto
  have nx: "case us of [] \<Rightarrow> c_next c = None
      | t2 # ts' \<Rightarrow> \<exists>l d as'. c_next c = Some l \<and> as = l # as' \<and> h l = Some d \<and> packet t2 d \<and> c_offset d = 0 \<and> (ts' = [] \<or> 3 \<le> length t2)"
  proof (cases us)
    case Nil
    then show ?thesis using t(3) c(3) by simp
  next
    case (Cons t2 ts')
    obtain l as' where l: "as = l # as'" using t(3) Cons by (cases as) auto
    obtain d where d: "c_next c = Some l" "h l = Some d" using c(3) l by (auto split: option.splits)
    have "ts' = [] \<or> 3 \<le> length t2" using Cons.prems(3) t(1) Cons by (auto simp: roomy_def split: if_splits)
    then show ?thesis using l d t(3,4) Cons by auto
  qed
  obtain q r where v: "b_used (rest_of c) = length t + 1" using packet_view [OF t(2)] by metis
  have s: "scan_chunk h a c 0 (b_used (rest_of c)) = Some (case header_length (t @ concat us) of None \<Rightarrow> None
    | Some m \<Rightarrow> if m < length t + 4 then map_option (\<lambda>(b, n). (b, int n)) (Some (place m (a # as) (t # us))) else None)"
    using scan_chunk_spec [OF t(2) nx, of 0 "length t + 1" a] unfolding v by (simp only: drop_0 diff_zero add_0)
  have "roomy us" using Cons.prems(3) t(1) by (cases us) (auto simp: roomy_def dest: list.set_sel(2) in_set_butlastD split: if_splits)
  note IH = Cons.IH [OF c(3) t(3) this]
  show ?case
  proof (cases "header_length (t @ concat us)")
    case None
    then show ?thesis using s IH c(1,2) header_length_append_None [OF None] t(1) by (simp add: search_header.simps [of h "Some a"])
  next
    case (Some m)
    show ?thesis
    proof (cases "m < length t + 4")
      case True
      then show ?thesis using s c(1,2) t(1) Some by (simp add: search_header.simps [of h "Some a"] del: place.simps)
    next
      case False
      then have m: "length t + 4 \<le> m" by simp
      have "place m (a # as) (t # us) = place (m - length t) as us" using m by simp
      then show ?thesis using s IH c(1,2) header_length_append [OF Some m] t(1) Some False
        by (simp add: search_header.simps [of h "Some a"] del: place.simps)
    qed
  qed
qed

section \<open>Copying the header\<close>

lemma append_view:
  assumes ok: "buffer_ok req" and b: "b_ptr b = Some p" "b_used b = n + 1" and n: "0 < n" "n \<le> length p" "b_size req + n + 65 < 2 ^ 64"
  obtains req' where "after (buffer_append_string_buffer junk (Some req) (Some b)) = Some req'" "string_ok req'"
    "text_of req' = text_of req @ take n p" "b_size req' \<le> b_size req + n + 65"
proof -
  obtain req' where r: "buffer_append_string_len junk (Some req) (Some p) n = Some (0, Some req')" "string_ok req'"
    "text_of req' = text_of req @ take n p" "b_size req' \<le> b_size req + n + 65"
    using append_string_len [OF ok n(2,3), of junk] n(1) by blast
  have "buffer_append_string_buffer junk (Some req) (Some b) = Some (0, Some req')"
    using b r(1) by (simp add: buffer_append_string_buffer_def)
  from that [OF _ r(2-4)] this show thesis by simp
qed

lemma packet_not_finished: "packet t c \<Longrightarrow> \<not> is_finished c"
proof -
  assume c: "packet t c"
  obtain v: "int (b_used (c_mem c)) = c_offset c + int (length t) + 1" using packet_view [OF c] by metis
  then show ?thesis using c by (auto simp: packet_def mem_only_def is_finished_def)
qed

lemma packets_not_finished: "packets ts cs \<Longrightarrow> dropWhile is_finished cs = cs"
  by (cases cs; cases ts) (auto simp: packet_not_finished)

lemma packets_nonempty: "packets ts cs \<Longrightarrow> consume 0 ts = ts"
  by (cases ts; cases cs) (auto simp: packet_def)

lemma packets_in_range: "packets ts cs \<Longrightarrow> list_all in_range cs"
  by (auto simp: packets_def packet_def list_all2_conv_all_nth list_all_length)

lemma packet_advance:
  assumes c: "packet t c" and n: "n \<le> length t"
  defines "d \<equiv> c\<lparr>c_offset := c_offset c + int n\<rparr>"
  shows "in_range d" and "used_ok d" and "n = length t \<Longrightarrow> is_finished d" and "n < length t \<Longrightarrow> packet (drop n t) d"
    and "n = length t \<Longrightarrow> d = c\<lparr>c_offset := int (b_used (c_mem c)) - 1\<rparr>"
proof -
  obtain q where v: "int (b_used (c_mem c)) = c_offset c + int (length t) + 1" "0 \<le> c_offset c" using packet_view [OF c] by metis
  have m: "mem_only c" "b_used (c_mem c) \<noteq> 0" "drop (nat (c_offset c)) (text_of (c_mem c)) = t" using c by (auto simp: packet_def)
  show r: "in_range d" using m v n by (simp add: d_def mem_only_def in_range_def)
  show "used_ok d" using m(1) by (simp add: d_def mem_only_def used_ok_def small_def)
  show "n = length t \<Longrightarrow> is_finished d" using m v by (simp add: d_def mem_only_def is_finished_def)
  show "n = length t \<Longrightarrow> d = c\<lparr>c_offset := int (b_used (c_mem c)) - 1\<rparr>" using v by (simp add: d_def)
  show "n < length t \<Longrightarrow> packet (drop n t) d"
    using m v r by (auto simp: d_def packet_def mem_only_def nat_add_distrib add.commute)
qed

lemma place_in: "0 < n \<Longrightarrow> n \<le> length (concat ts) \<Longrightarrow> length as = length ts \<Longrightarrow> fst (place n as ts) \<in> set as"
  by (induction n as ts rule: place.induct) auto

lemma packets_length: "packets ts cs \<Longrightarrow> length ts = length cs"
  by (auto simp: packets_def dest: list_all2_lengthD)

text \<open>What stays the same in a queue whose chunks are only read.\<close>

definition same_counts :: "chunkqueue \<Rightarrow> chunkqueue \<Rightarrow> bool" where
  "same_counts cq cq' \<longleftrightarrow> cq_bytes_in cq' = cq_bytes_in cq \<and> cq_bytes_out cq' = cq_bytes_out cq \<and> cq_tempdirs cq' = cq_tempdirs cq
     \<and> cq_first cq' = cq_first cq \<and> calls cq' = calls cq \<and> cq_unused_chunks cq' = cq_unused_chunks cq"

lemma copy_header_spec:
  assumes "queue_rep cq (pre @ bs) us []" and "linked (heap cq) p bs" and "packets ts (contents cq bs)"
    and "0 < n" and "n \<le> length (concat ts)" and "place n bs ts = (last_chunk, k)"
    and "buffer_ok req" and "b_size req + 66 * length (concat ts) + 66 < 2 ^ 64"
  shows "\<exists>req' cq'. copy_header junk last_chunk (int k) p req cq = Some (req', cq') \<and> string_ok req'
    \<and> text_of req' = text_of req @ take n (concat ts) \<and> b_size req' \<le> b_size req + 66 * n
    \<and> queue_rep cq' (pre @ bs) us [] \<and> contents cq' pre = contents cq pre \<and> list_all in_range (contents cq' bs)
    \<and> packets (consume n ts) (dropWhile is_finished (contents cq' bs)) \<and> same_counts cq cq'"
  using assms
proof (induction bs arbitrary: pre p ts req cq n)
  case Nil
  then show ?case by (simp add: contents_def)
next
  case (Cons a bs)
  note rep = Cons.prems(1)
  obtain c where c: "p = Some a" "heap cq a = Some c" "linked (heap cq) (c_next c) bs"
    using Cons.prems(2) by (auto split: option.splits)
  obtain t us' where t: "ts = t # us'" "packet t c" "packets us' (contents cq bs)" "\<forall>d \<in> set (contents cq bs). c_offset d = 0"
    using Cons.prems(3) contents_Cons [OF c(2), of bs] by (cases ts) auto
  obtain r where v: "b_used (rest_of c) = length t + 1" "b_ptr (rest_of c) = Some (t @ 0 # r)" using packet_view [OF t(2)] by metis
  have ne: "t \<noteq> []" using t(2) by (simp add: packet_def)
  have dist: "a \<notin> set pre" "a \<notin> set bs" using rep by (auto simp: queue_rep_def)
  have room: "b_size req + m + 65 < 2 ^ 64" if "m \<le> length t" for m using Cons.prems(8) that t(1) by simp
  define d where "d m = c\<lparr>c_offset := c_offset c + int m\<rparr>" for m
  have put: "queue_rep (put_chunk a (d m) cq) (pre @ a # bs) us []" "contents (put_chunk a (d m) cq) pre = contents cq pre"
    "contents (put_chunk a (d m) cq) bs = contents cq bs" "heap (put_chunk a (d m) cq) a = Some (d m)" if m: "m \<le> length t" for m
    using put_rep(1) [OF rep _ c(2), of "d m"] packet_advance(2) [OF t(2) m] dist by (simp_all add: d_def)
  have counts: "same_counts cq (put_chunk a e cq)" for e by (simp add: same_counts_def put_chunk_def)
  show ?case
  proof (cases "n \<le> length t")
    case True
    then have k: "last_chunk = a" "k = n" using Cons.prems(6) t(1) by simp_all
    let ?b = "(rest_of c)\<lparr>b_used := n + 1\<rparr>"
    obtain req' where req': "after (buffer_append_string_buffer junk (Some req) (Some ?b)) = Some req'" "string_ok req'"
      "text_of req' = text_of req @ take n (t @ 0 # r)" "b_size req' \<le> b_size req + n + 65"
      by (rule append_view [OF Cons.prems(7), of ?b "t @ 0 # r" n junk]) (use v True Cons.prems(4) room in simp_all)
    have e: "copy_header junk last_chunk (int k) p req cq = Some (req', put_chunk a (d n) cq)"
      using c(1,2) k req'(1) by (simp add: copy_header.simps [of _ _ _ "Some a"] d_def nat_add_distrib)
    have ct: "contents (put_chunk a (d n) cq) (a # bs) = unlinked (d n) # contents cq bs"
      using contents_Cons [OF put(4) [OF True], of bs] put(3) [OF True] by simp
    have "packets (consume n ts) (dropWhile is_finished (contents (put_chunk a (d n) cq) (a # bs)))"
    proof (cases "n = length t")
      case all: True
      then show ?thesis unfolding ct using t(1,3) packets_not_finished [OF t(3)] packets_nonempty [OF t(3)]
        packet_advance(3) [OF t(2) True] by (simp add: d_def)
    next
      case False
      then have "packet (drop n t) (d n)" using packet_advance(4) [OF t(2) True] True by (simp add: d_def)
      then show ?thesis unfolding ct using t False True packet_not_finished [of _ "d n"] by simp
    qed
    moreover have "list_all in_range (contents (put_chunk a (d n) cq) (a # bs))"
      unfolding ct using packet_advance(1) [OF t(2) True] packets_in_range [OF t(3)] by (simp add: d_def)
    ultimately show ?thesis
      using e req' put(1,2) [OF True] True Cons.prems(4) t(1) counts by auto
  next
    case False
    have k: "place (n - length t) bs us' = (last_chunk, k)" using Cons.prems(6) t(1) False by simp
    have n: "0 < n - length t" "n - length t \<le> length (concat us')" using False Cons.prems(5) t(1) by simp_all
    have "length bs = length us'" using packets_length [OF t(3)] by (simp add: contents_def)
    from place_in [OF n this] have la: "last_chunk \<noteq> a" using k dist(2) by auto
    have tl: "length t \<le> length (t @ 0 # r)" "0 < length t" using ne by simp_all
    obtain req1 where req1: "after (buffer_append_string_buffer junk (Some req) (Some (rest_of c))) = Some req1" "string_ok req1"
      "text_of req1 = text_of req @ take (length t) (t @ 0 # r)" "b_size req1 \<le> b_size req + length t + 65"
      by (rule append_view [OF Cons.prems(7) v(2,1) tl(2,1) room [OF order_refl], of junk])
    let ?q = "put_chunk a (d (length t)) cq"
    have q: "queue_rep ?q ((pre @ [a]) @ bs) us []" using put(1) [OF order_refl] by simp
    have lq: "linked (heap ?q) (c_next c) bs" using c(3) dist by simp
    have pq: "packets us' (contents ?q bs)" using t(3) put(3) [OF order_refl] by simp
    have bq: "b_size req1 + 66 * length (concat us') + 66 < 2 ^ 64" 
    proof -
      have "length (concat ts) = length t + length (concat us')" using t(1) by simp
      then show ?thesis using Cons.prems(8) req1(4) tl(2) by linarith
    qed
    have ok1: "buffer_ok req1" using req1(2) by (simp add: string_ok_def)
    obtain req' cq' where r: "copy_header junk last_chunk (int k) (c_next c) req1 ?q = Some (req', cq')" "string_ok req'"
      "text_of req' = text_of req1 @ take (n - length t) (concat us')" "b_size req' \<le> b_size req1 + 66 * (n - length t)"
      "queue_rep cq' ((pre @ [a]) @ bs) us []" "contents cq' (pre @ [a]) = contents ?q (pre @ [a])" "list_all in_range (contents cq' bs)"
      "packets (consume (n - length t) us') (dropWhile is_finished (contents cq' bs))" "same_counts ?q cq'"
      using Cons.IH [OF q lq pq n k ok1 bq] by blast
    have e: "copy_header junk last_chunk (int k) p req cq = Some (req', cq')"
      using c(1,2) la req1(1) r(1) packet_advance(5) [OF t(2) order_refl]
      by (simp add: copy_header.simps [of _ _ _ "Some a"] d_def)
    have c': "contents cq' pre = contents cq pre" "contents cq' [a] = [unlinked (d (length t))]"
      using r(6) put(2) [OF order_refl] put(4) [OF order_refl] unfolding contents_snoc by (simp_all add: contents_def)
    have ct: "contents cq' (a # bs) = unlinked (d (length t)) # contents cq' bs" using c'(2) by (simp add: contents_def)
    have "66 * n = 66 * (n - length t) + 66 * length t" using False by simp
    then have "b_size req' \<le> b_size req + 66 * n" using r(4) req1(4) tl(2) by linarith
    moreover have "same_counts cq cq'" using r(9) counts [of "d (length t)"] by (simp add: same_counts_def)
    moreover have "text_of req' = text_of req @ take n (concat ts)" using r(3) req1(3) t(1) False by simp
    moreover have "list_all in_range (contents cq' (a # bs))"
      unfolding ct using r(7) packet_advance(1) [OF t(2) order_refl] by (simp add: d_def)
    moreover have "packets (consume n ts) (dropWhile is_finished (contents cq' (a # bs)))"
      unfolding ct using r(8) packet_advance(3) [OF t(2) order_refl refl] t(1) False by (simp add: d_def)
    ultimately show ?thesis using e r(2,5) c'(1) by auto
  qed
qed

section \<open>Removing empty chunks\<close>

lemma drop_walk:
  "linked (heap cq) p as \<Longrightarrow> \<forall>a \<in> set as. b_used (c_mem (the (heap cq a))) \<noteq> 0 \<Longrightarrow> drop_empty p cq = Some cq"
proof (induction as arbitrary: p)
  case Nil
  then show ?case by (simp add: drop_empty.simps [of None])
next
  case (Cons a as)
  obtain c where c: "p = Some a" "heap cq a = Some c" "linked (heap cq) (c_next c) as" using Cons.prems(1) by (auto split: option.splits)
  have IH: "drop_empty (c_next c) cq = Some cq" using Cons.IH [OF c(3)] Cons.prems(2) by simp
  show ?case
  proof (cases as)
    case Nil
    then show ?thesis using c IH Cons.prems(2) by (simp add: drop_empty.simps [of "Some a"])
  next
    case (Cons n as')
    then obtain fc where "c_next c = Some n" "heap cq n = Some fc" using c(3) by (auto split: option.splits)
    then show ?thesis using c IH Cons.prems(2) Cons by (simp add: drop_empty.simps [of "Some a"])
  qed
qed

lemma drop_last:
  assumes "linked (heap cq) p (as @ [l, e])" and "\<forall>a \<in> set (as @ [l]). b_used (c_mem (the (heap cq a))) \<noteq> 0"
    and "heap cq e = Some f" and "b_used (c_mem f) = 0" and "heap cq l = Some c" and "l \<noteq> e"
  shows "drop_empty p cq = Some ((put_chunk e (f\<lparr>c_next := cq_unused cq\<rparr>) (put_chunk l (c\<lparr>c_next := None\<rparr>) cq))
    \<lparr>cq_unused := Some e, cq_unused_chunks := sz (cq_unused_chunks cq + 1), cq_last := Some l\<rparr>)"
  using assms
proof (induction as arbitrary: p)
  case Nil
  then have "p = Some l" "c_next c = Some e" "c_next f = None" by auto
  then show ?case using Nil by (simp add: drop_empty.simps [of "Some l"] drop_empty.simps [of None] Let_def)
next
  case (Cons a as)
  obtain d where d: "p = Some a" "heap cq a = Some d" "linked (heap cq) (c_next d) (as @ [l, e])" using Cons.prems(1) by (auto split: option.splits)
  obtain n fc where n: "c_next d = Some n" "heap cq n = Some fc" "n \<in> set (as @ [l])"
    using d(3) by (cases as) (auto split: option.splits)
  then have "drop_empty p cq = drop_empty (c_next d) cq"
    using d Cons.prems(2) by (auto simp: drop_empty.simps [of "Some a"])
  then show ?case using Cons.IH [OF d(3)] Cons.prems(2-) by simp
qed

lemma linked_butlast:
  "linked h p (as @ [l, e]) \<Longrightarrow> distinct (as @ [l, e]) \<Longrightarrow> h l = Some c \<Longrightarrow> linked (h(l := Some (c\<lparr>c_next := None\<rparr>), e := x)) p (as @ [l])"
  by (induction as arbitrary: p) (auto split: option.splits)

lemma drop_empty_ok:
  assumes rep: "queue_rep cq (as @ es) us []" and full: "\<forall>a \<in> set as. b_used (c_mem (the (heap cq a))) \<noteq> 0"
    and es: "es = [] \<or> (\<exists>e f. es = [e] \<and> heap cq e = Some f \<and> b_used (c_mem f) = 0 \<and> idle_ok f)" and room: "length us + 1 < 2 ^ 64"
  shows "\<exists>cq' us'. drop_empty (cq_first cq) cq = Some cq' \<and> queue_rep cq' as us' [] \<and> contents cq' as = contents cq as
    \<and> cq_bytes_in cq' = cq_bytes_in cq \<and> cq_bytes_out cq' = cq_bytes_out cq \<and> calls cq' = calls cq"
proof (cases "es = []")
  case True
  then have "drop_empty (cq_first cq) cq = Some cq" using rep full by (intro drop_walk [of _ _ as]) (simp_all add: queue_rep_def)
  then show ?thesis using rep True by auto
next
  case False
  then obtain e f where e: "es = [e]" "heap cq e = Some f" "b_used (c_mem f) = 0" "idle_ok f" using es by auto
  have s: "sz (cq_unused_chunks cq + 1) = length us + 1" using rep room by (simp add: queue_rep_def)
  show ?thesis
  proof (cases as rule: rev_cases)
    case Nil
    have f: "cq_first cq = Some e" "c_next f = None" using rep Nil e by (auto simp: queue_rep_def)
    let ?q = "(put_chunk e (f\<lparr>c_next := cq_unused cq\<rparr>) (cq\<lparr>cq_first := None, cq_last := None\<rparr>))\<lparr>cq_unused := Some e, cq_unused_chunks := length us + 1\<rparr>"
    have "drop_empty (cq_first cq) cq = Some ?q"
      using e f s by (simp add: drop_empty.simps [of "Some e"] drop_empty.simps [of None] Let_def put_chunk_def)
    moreover have "queue_rep ?q as (e # us) []" using rep Nil e room by (auto simp: queue_rep_def)
    ultimately show ?thesis using Nil by (auto simp: contents_def put_chunk_def)
  next
    case (snoc bs l)
    have dist: "distinct (bs @ [l, e])" "l \<noteq> e" "l \<notin> set us" "e \<notin> set us" using rep snoc e(1) by (auto simp: queue_rep_def)
    obtain c where c: "heap cq l = Some c" "used_ok c" using rep snoc by (auto simp: queue_rep_def split: option.splits)
    have ln: "linked (heap cq) (cq_first cq) (bs @ [l, e])" using rep snoc e(1) by (simp add: queue_rep_def)
    let ?q = "(put_chunk e (f\<lparr>c_next := cq_unused cq\<rparr>) (put_chunk l (c\<lparr>c_next := None\<rparr>) cq))
      \<lparr>cq_unused := Some e, cq_unused_chunks := length us + 1, cq_last := Some l\<rparr>"
    have d: "drop_empty (cq_first cq) cq = Some ?q"
      using drop_last [OF ln _ e(2,3) c(1) dist(2)] full snoc s by simp
    have "linked (heap ?q) (cq_first ?q) (bs @ [l])" using linked_butlast [OF ln dist(1) c(1)] by simp
    moreover have "linked (heap ?q) (cq_unused ?q) (e # us)" using rep dist by (simp add: queue_rep_def)
    moreover have "all_at used_ok (heap ?q) (bs @ [l])" using rep snoc e(1) c dist by (simp add: queue_rep_def)
    moreover have "all_at idle_ok (heap ?q) (e # us)" using rep e(4) dist by (simp add: queue_rep_def)
    moreover have "dom (heap ?q) = set (bs @ [l]) \<union> set (e # us)" using rep snoc e(1) by (auto simp: queue_rep_def)
    ultimately have "queue_rep ?q (bs @ [l]) (e # us) []"
      using rep snoc e(1) dist room by (auto simp: queue_rep_def)
    moreover have "contents ?q as = contents cq as" using snoc c(1) dist by (auto simp: contents_def)
    ultimately show ?thesis using d snoc by (auto simp: put_chunk_def)
  qed
qed

section \<open>A new chunk\<close>

lemma with_chunk_counts:
  "with_chunk f chunkqueue_append_chunk cq = Some (a, cq') \<Longrightarrow> cq_bytes_in cq' = cq_bytes_in cq \<and> cq_bytes_out cq' = cq_bytes_out cq
    \<and> calls cq' = calls cq \<and> cq_tempdirs cq' = cq_tempdirs cq
    \<and> cq_unused_chunks cq' = (if cq_unused cq = None then cq_unused_chunks cq else sz (cq_unused_chunks cq + 2 ^ 64 - 1))"
  by (auto simp: with_chunk_def chunkqueue_get_unused_chunk_def chunk_init_def chunkqueue_append_chunk_def put_chunk_def Let_def
      split: option.splits)

lemma unlinked_id: "c_next c = None \<Longrightarrow> unlinked c = c"
  by (cases c) (simp add: unlinked_def)

lemma with_append_rep:
  assumes rep: "queue_rep cq as us []"
    and f: "\<And>c. idle_ok c \<Longrightarrow> c_next c = None \<Longrightarrow> \<exists>c'. f c = Some c' \<and> used_ok c' \<and> c_next c' = None \<and> Q c'"
  obtains a cq' us' c where "with_chunk f chunkqueue_append_chunk cq = Some (a, cq')" "queue_rep cq' (as @ [a]) us' []"
    "contents cq' (as @ [a]) = contents cq as @ [c]" "heap cq' a = Some c" "c_next c = None" "Q c"
    "length us' + 1 < 2 ^ 64" "cq_bytes_in cq' = cq_bytes_in cq" "cq_tempdirs cq' = cq_tempdirs cq" 
proof -
  obtain a q1 c0 us' where g: "chunkqueue_get_unused_chunk cq = Some (a, q1)" "heap q1 a = Some c0" "idle_ok c0" "c_next c0 = None"
    "queue_rep q1 as us' [a]" "contents q1 as = contents cq as"
    by (rule get_unused_ok [OF rep])
  obtain c where c: "f c0 = Some c" "used_ok c" "c_next c = None" "Q c" using f [OF g(3,4)] by blast
  have a: "a \<notin> set as" using g(5) by (auto simp: queue_rep_def)
  have h: "heap (put_chunk a c q1) a = Some c" by simp
  obtain q2 where q2: "chunkqueue_append_chunk a (put_chunk a c q1) = Some q2" "queue_rep q2 (as @ [a]) us' []"
    "contents q2 (as @ [a]) = contents (put_chunk a c q1) as @ [c]"
    by (rule append_chunk_ok [OF fill_chunk_rep [OF g(5), of c] h c(2,3)])
  have w: "with_chunk f chunkqueue_append_chunk cq = Some (a, q2)"
    using g(1,2) c(1) q2(1) by (simp add: with_chunk_def)
  obtain d where d: "heap q2 a = Some d" "c_next d = None"
    using linked_last [of "heap q2" "cq_first q2" as a] q2(2) by (auto simp: queue_rep_def)
  have "unlinked d = unlinked c" using q2(3) d(1) c(3) unfolding contents_snoc by (simp add: contents_def unlinked_def)
  then have "d = c" using unlinked_id [OF d(2)] unlinked_id [OF c(3)] by simp
  have n: "length us' = cq_unused_chunks q2" "length us = cq_unused_chunks cq" "length us < 2 ^ 64"
    "cq_unused cq = None \<longrightarrow> us = []" "cq_unused cq \<noteq> None \<longrightarrow> us \<noteq> []"
    using q2(2) rep by (auto simp: queue_rep_def linked_None)
  have "length us' + 1 < 2 ^ 64"
  proof (cases "cq_unused cq")
    case None
    then show ?thesis using with_chunk_counts [OF w] n by simp
  next
    case (Some b)
    then have p: "1 \<le> length us" using n(5) by (simp add: Suc_le_eq)
    have "sz (length us + 2 ^ 64 - 1) = length us - 1" by (rule sz_minus [OF p n(3)]) simp
    then have "length us' = length us - 1" using with_chunk_counts [OF w] n(1,2) Some by simp
    then show ?thesis using p n(3) by linarith
  qed
  then show thesis using that [of a q2 us' c] w q2(2,3) a g(6) d(1) \<open>d = c\<close> c(3,4) with_chunk_counts [OF w] by simp
qed

lemma get_append_buffer_ok:
  assumes rep: "queue_rep cq as us []"
  obtains a cq' us' c where "chunkqueue_get_append_buffer cq = Some (a, cq')" "queue_rep cq' (as @ [a]) us' []"
    "contents cq' (as @ [a]) = contents cq as @ [c]" "heap cq' a = Some c" "c_next c = None"
    "mem_only c" "b_used (c_mem c) = 0" "c_offset c = 0" "length us' + 1 < 2 ^ 64" "cq_bytes_in cq' = cq_bytes_in cq"
    "cq_tempdirs cq' = cq_tempdirs cq"
proof -
  have f: "\<exists>c'. fill_mem buffer_clear c = Some c' \<and> used_ok c' \<and> c_next c' = None \<and> (mem_only c' \<and> b_used (c_mem c') = 0 \<and> c_offset c' = 0)"
    if c: "idle_ok c" "c_next c = None" for c
  proof -
    obtain m where m: "buffer_clear (c_mem c) = Some m" "string_ok m" "b_used m = 0" "b_size m \<le> 4096"
      by (rule clear_ok [of "c_mem c"]) (use c(1) in \<open>simp_all add: idle_ok_def string_ok_def\<close>)
    then show ?thesis using c by (auto simp: fill_mem_def used_ok_def mem_only_def idle_ok_def small_def)
  qed
  show thesis
    by (rule with_append_rep [OF rep f]) (use that in \<open>auto simp: chunkqueue_get_append_buffer_def\<close>)
qed

text \<open>What a call of \<open>connection_handle_read\<close> adds to the read queue, if anything.\<close>

definition arrives :: "byte list \<Rightarrow> arrival" where
  "arrives d = \<lparr>available = Some (int (length d)), incoming = Inr d\<rparr>"

lemma handle_read_ok:
  assumes rep: "queue_rep (read_queue con) as us []" and d: "d \<noteq> []" "length d < 2 ^ 31"
  obtains a cq us' c con' where "connection_handle_read junk (arrives d) con = Some (0, con')" "read_queue con' = cq"
    "queue_rep cq (as @ [a]) us' []" "contents cq (as @ [a]) = contents (read_queue con) as @ [c]" "packet d c" "c_offset c = 0"
    "length us' + 1 < 2 ^ 64" "rc_state con' = rc_state con" "request con' = request con" "content_queue con' = content_queue con"
    "content_length con' = content_length con" "bytes_read con' = bytes_read con + int (length d)"
proof -
  obtain a q us' c where g: "chunkqueue_get_append_buffer (read_queue con) = Some (a, q)" "queue_rep q (as @ [a]) us' []"
    "contents q (as @ [a]) = contents (read_queue con) as @ [c]" "heap q a = Some c" "c_next c = None" "mem_only c" "b_used (c_mem c) = 0"
    "c_offset c = 0" "length us' + 1 < 2 ^ 64"
    by (rule get_append_buffer_ok [OF rep])
  have m: "buffer_ok (c_mem c)" "b_size (c_mem c) < 2 ^ 60" using g(6) smallD [of 60 "c_mem c"] by (auto simp: mem_only_def)
  let ?n = "nat (int (length d) + 1)"
  have n: "?n = length d + 1" "?n + 64 < 2 ^ 64" using d(2) by (simp_all add: nat_add_distrib)
  let ?b = "grow_copy junk (c_mem c) ?n"
  obtain p where p: "b_ptr ?b = Some p" "length p = b_size ?b" "?n \<le> length p" "b_used ?b = 0"
    by (rule grow_copy_ok [OF m(1) n(2), of junk]) blast
  have sz: "b_size ?b < 2 ^ 60"
    using m(2) d(2) piece_bounds [of ?n] n by (auto simp: grow_copy_def)
  have l: "length d \<le> b_size ?b - 1" "length d < length p" using p(2,3) n(1) by simp_all
  let ?m = "?b\<lparr>b_ptr := Some ((take (length ([] :: byte list)) p @ d @ drop (length ([] :: byte list) + length d) p)[length ([] :: byte list) + length d := 0]),
     b_used := Suc (length ([] :: byte list) + length d)\<rparr>"
  have w: "string_ok ?m \<and> text_of ?m = [] @ d" by (rule write_text [OF p(1,2)]) (use l in simp_all)
  let ?c = "c\<lparr>c_mem := ?m\<rparr>"
  have s: "small 60 ?m" using w sz by (simp add: small_def)
  have pk: "packet d ?c" using w s g(6,8) d(1) by (simp add: packet_def mem_only_def in_range_def)
  let ?q = "put_chunk a ?c q"
  let ?con = "(if length d < b_size ?b - 1 then con\<lparr>read_queue := put_chunk a (c\<lparr>c_mem := ?b\<rparr>) q, is_readable := False\<rparr>
      else con\<lparr>read_queue := put_chunk a (c\<lparr>c_mem := ?b\<rparr>) q\<rparr>)\<lparr>read_queue := ?q, bytes_read := bytes_read con + int (length d)\<rparr>"
  have tk: "take (b_size ?b - 1) d = d" using l(1) by simp
  have "0 < length d" using d(1) by simp
  then have l3: "\<not> b_size ?b \<le> 1" using l(1) by linarith
  have r: "connection_handle_read junk (arrives d) con = Some (0, ?con)"
    using g(1,4) p(1) l d(1) l3
    by (simp add: connection_handle_read_def arrives_def buffer_prepare_copy_def tk Let_def memcpy_in poke_in del: memcpy_Some poke_Some)
  have u: "used_ok ?c" using w g(6) by (simp add: used_ok_def mem_only_def small_def)
  have q: "queue_rep ?q (as @ [a]) us' []" by (rule put_rep(1) [OF g(2) _ g(4) u]) simp_all
  have a: "a \<notin> set as" using g(2) by (auto simp: queue_rep_def)
  have "contents ?q (as @ [a]) = contents (read_queue con) as @ [?c]"
    using g(3,5) a unfolding contents_snoc by (auto simp: contents_def unlinked_def)
  from that [OF r _ q this pk _ g(9)] show thesis using g(8) by simp
qed

section \<open>The header\<close>

text \<open>\<open>ts\<close> are the unread texts of the chunks and \<open>k\<close> bytes of the first chunk have been read.\<close>

definition skipped :: "chunk list \<Rightarrow> nat" where
  "skipped cs = (case cs of [] \<Rightarrow> 0 | c # _ \<Rightarrow> nat (c_offset c))"

definition unread :: "chunkqueue \<Rightarrow> byte list list \<Rightarrow> nat \<Rightarrow> bool" where
  "unread cq ts k \<longleftrightarrow> (\<exists>as us. queue_rep cq as us [] \<and> packets ts (contents cq as) \<and> k = skipped (contents cq as))"

lemma packet_length: "packet t c \<Longrightarrow> chunk_length c = c_offset c + int (length t) \<and> 0 \<le> c_offset c"
proof -
  assume c: "packet t c"
  obtain v: "int (b_used (c_mem c)) = c_offset c + int (length t) + 1" "0 \<le> c_offset c" using packet_view [OF c] by metis
  then show ?thesis using c by (auto simp: packet_def mem_only_def chunk_length_def)
qed

lemma later_length: "list_all2 packet ts cs \<Longrightarrow> \<forall>c \<in> set cs. c_offset c = 0
  \<Longrightarrow> sum_list (List.map chunk_length cs) = int (length (concat ts))"
  by (induction rule: list_all2_induct) (auto simp: packet_length)

lemma packets_total: "packets ts cs \<Longrightarrow> sum_list (List.map chunk_length cs) = int (skipped cs + length (concat ts))"
  by (cases ts; cases cs) (auto simp: packet_length later_length skipped_def packets_def)

lemma packets_snoc: "packets ts cs \<Longrightarrow> packet d c \<Longrightarrow> c_offset c = 0 \<Longrightarrow> packets (ts @ [d]) (cs @ [c])"
  using list_all2_appendI [of packet ts cs "[d]" "[c]"] by (cases cs) (simp_all add: packets_def)

lemma packets_used: "packets ts (contents cq as) \<Longrightarrow> \<forall>a \<in> set as. b_used (c_mem (the (heap cq a))) \<noteq> 0"
  by (force simp: packets_def contents_def list_all2_conv_all_nth packet_def in_set_conv_nth)

lemma header_place: "header_length (concat ts) = Some n \<Longrightarrow> 0 < n \<and> n \<le> length (concat ts)"
  using header_length_ge header_length_le by fastforce

definition oversized :: "read_con \<Rightarrow> read_con" where
  "oversized con = con\<lparr>http_status := 414, keep_alive := 0, rc_state := CON_STATE_HANDLE_REQUEST\<rparr>"

lemma read_header_none:
  assumes rep: "queue_rep (read_queue con) as us []" and ps: "packets ts (contents (read_queue con) as)"
    and s: "search_header (heap (read_queue con)) (cq_first (read_queue con)) = Some None"
  shows "read_header junk con = Some (if skipped (contents (read_queue con) as) + length (concat ts) > 65536 then oversized con else con)"
proof -
  have l: "linked (heap (read_queue con)) (cq_first (read_queue con)) as" using rep by (simp add: queue_rep_def)
  have "chunkqueue_length (read_queue con) = Some (int (skipped (contents (read_queue con) as) + length (concat ts)))"
    using length_loop_spec [OF l] packets_total [OF ps(1)] by (simp add: chunkqueue_length_def)
  then show ?thesis using s by (simp add: read_header_def oversized_def)
qed

lemma read_header_some:
  assumes rep: "queue_rep (read_queue con) as us []" and ps: "packets ts (contents (read_queue con) as)" "roomy ts"
    and n: "header_length (concat ts) = Some n" and req: "buffer_ok (request con)" and room: "length (concat ts) < 2 ^ 50"
  shows "\<exists>req' cq'. read_header junk con = Some (con\<lparr>request := req', read_queue := cq', rc_state := CON_STATE_REQUEST_END\<rparr>)
    \<and> string_ok req' \<and> text_of req' = take n (concat ts) \<and> queue_rep cq' as us [] \<and> list_all in_range (contents cq' as)
    \<and> packets (consume n ts) (dropWhile is_finished (contents cq' as))"
proof -
  have l: "linked (heap (read_queue con)) (cq_first (read_queue con)) as" using rep by (simp add: queue_rep_def)
  obtain b k where bk: "place n as ts = (b, k)" by (cases "place n as ts")
  have s: "search_header (heap (read_queue con)) (cq_first (read_queue con)) = Some (Some (b, int k))"
    using search_header_spec [OF l ps(1) [unfolded contents_def] ps(2)] n bk by simp
  obtain r0 where r0: "buffer_clear (request con) = Some r0" "string_ok r0" "text_of r0 = []" "b_size r0 \<le> 4096"
    by (rule clear_ok [OF req])
  have rep': "queue_rep (read_queue con) ([] @ as) us []" using rep by simp
  have ok0: "buffer_ok r0" using r0(2) by (simp add: string_ok_def)
  have sz: "b_size r0 + 66 * length (concat ts) + 66 < 2 ^ 64" using r0(4) room by simp
  obtain req' cq' where "copy_header junk b (int k) (cq_first (read_queue con)) r0 (read_queue con) = Some (req', cq')" "string_ok req'"
    "text_of req' = text_of r0 @ take n (concat ts)" "queue_rep cq' ([] @ as) us []" "list_all in_range (contents cq' as)"
    "packets (consume n ts) (dropWhile is_finished (contents cq' as))"
    using copy_header_spec [OF rep' l ps(1) _ _ bk ok0 sz, of junk] header_place [OF n] by blast
  then show ?thesis using s r0(1,3) by (auto simp: read_header_def)
qed

lemma remove_packets:
  assumes "queue_rep cq as us []" and "packets ts (dropWhile is_finished (contents cq as))"
  obtains cq' where "chunkqueue_remove_finished_chunks cq = Some cq'" "unread cq' ts (skipped (dropWhile is_finished (contents cq as)))"
  using remove_rep [OF assms(1)] assms(2) unfolding unread_def by metis

text \<open>One call with data that have come in: the data are in a new chunk when the header is looked for.\<close>

lemma read_state_reads:
  assumes q: "unread (read_queue con) ts k" and st: "is_readable con" and d: "d \<noteq> []" "length d < 2 ^ 31"
  obtains as us con2 where "queue_rep (read_queue con2) as us []" "packets (ts @ [d]) (contents (read_queue con2) as)"
    "skipped (contents (read_queue con2) as) = k" "rc_state con2 = rc_state con" "request con2 = request con"
    "content_queue con2 = content_queue con" "content_length con2 = content_length con"
    "connection_handle_read_state junk mkstemp reopen cur_ts (arrives d) con up =
      do { (con, up) \<leftarrow> (case rc_state con2 of
             CON_STATE_READ \<Rightarrow> do { con \<leftarrow> read_header junk con2; Some (con, up) }
           | CON_STATE_READ_POST \<Rightarrow> do {
               (con, up) \<leftarrow> read_post junk mkstemp reopen (cq_first (read_queue con2)) con2 up;
               Some (if cq_bytes_in (content_queue con) = content_length con
                 then con\<lparr>rc_state := CON_STATE_HANDLE_REQUEST\<rparr> else con, up) }
           | _ \<Rightarrow> Some (con2, up));
         cq \<leftarrow> chunkqueue_remove_finished_chunks (read_queue con); Some (0, con\<lparr>read_queue := cq\<rparr>, up) }"
proof -
  let ?con = "con\<lparr>read_idle_ts := cur_ts\<rparr>" and ?ts = "ts @ [d]"
  obtain as us where u: "queue_rep (read_queue ?con) as us []" "packets ts (contents (read_queue ?con) as)"
    "k = skipped (contents (read_queue ?con) as)" using q by (auto simp: unread_def)
  obtain a cq us' c con1 where c1: "connection_handle_read junk (arrives d) ?con = Some (0, con1)" "read_queue con1 = cq"
    "queue_rep cq (as @ [a]) us' []" "contents cq (as @ [a]) = contents (read_queue ?con) as @ [c]" "packet d c" "c_offset c = 0"
    "length us' + 1 < 2 ^ 64" "rc_state con1 = rc_state ?con" "request con1 = request ?con" "content_queue con1 = content_queue ?con"
    "content_length con1 = content_length ?con"
    by (rule handle_read_ok [OF u(1) d, of junk])
  have p1: "packets ?ts (contents cq (as @ [a]))" unfolding c1(4) by (rule packets_snoc [OF u(2) c1(5,6)])
  have k1: "skipped (contents cq (as @ [a])) = k"
    unfolding c1(4) u(3) using c1(6) by (cases "contents (read_queue ?con) as") (simp_all add: skipped_def)
  have rep1: "queue_rep cq ((as @ [a]) @ []) us' []" using c1(3) by simp
  obtain cq2 us2 where c2: "drop_empty (cq_first cq) cq = Some cq2" "queue_rep cq2 (as @ [a]) us2 []"
    "contents cq2 (as @ [a]) = contents cq (as @ [a])"
    using drop_empty_ok [OF rep1 packets_used [OF p1] _ c1(7)] by blast
  define con2 where "con2 = con1\<lparr>read_queue := cq2\<rparr>"
  have "connection_handle_read_state junk mkstemp reopen cur_ts (arrives d) con up =
      do { (con, up) \<leftarrow> (case rc_state con2 of
             CON_STATE_READ \<Rightarrow> do { con \<leftarrow> read_header junk con2; Some (con, up) }
           | CON_STATE_READ_POST \<Rightarrow> do {
               (con, up) \<leftarrow> read_post junk mkstemp reopen (cq_first (read_queue con2)) con2 up;
               Some (if cq_bytes_in (content_queue con) = content_length con
                 then con\<lparr>rc_state := CON_STATE_HANDLE_REQUEST\<rparr> else con, up) }
           | _ \<Rightarrow> Some (con2, up));
         cq \<leftarrow> chunkqueue_remove_finished_chunks (read_queue con); Some (0, con\<lparr>read_queue := cq\<rparr>, up) }"
    using st c1(1,2,8) c2(1) by (cases "rc_state con") (simp_all add: connection_handle_read_state_def con2_def Let_def)
  then show thesis using that [of con2 "as @ [a]" us2] c2 p1 k1 c1(8-11) by (simp add: con2_def)
qed

lemma read_state_unfinished:
  assumes c: "queue_rep (read_queue con2) as us []" "packets ts (contents (read_queue con2) as)" "skipped (contents (read_queue con2) as) = k"
    "rc_state con2 = CON_STATE_READ"
    and s: "search_header (heap (read_queue con2)) (cq_first (read_queue con2)) = Some None"
  shows "\<exists>con'. do { con \<leftarrow> read_header junk con2; cq \<leftarrow> chunkqueue_remove_finished_chunks (read_queue con); Some (0 :: int, con\<lparr>read_queue := cq\<rparr>, up) }
      = Some (0, con', up) \<and> unread (read_queue con') ts k \<and> request con' = request con2
    \<and> (if k + length (concat ts) > 65536 then rc_state con' = CON_STATE_HANDLE_REQUEST \<and> http_status con' = 414
       else rc_state con' = CON_STATE_READ)"
proof -
  let ?con3 = "if k + length (concat ts) > 65536 then oversized con2 else con2"
  have h: "read_header junk con2 = Some ?con3" using read_header_none [OF c(1,2) s, of junk] c(3) by simp
  have rq: "read_queue ?con3 = read_queue con2" by (simp add: oversized_def)
  obtain cq3 where "chunkqueue_remove_finished_chunks (read_queue con2) = Some cq3" "unread cq3 ts k"
    using remove_packets [OF c(1)] packets_not_finished [OF c(2)] c(2,3) by metis
  then show ?thesis unfolding h using rq c(4) by (auto simp: oversized_def)
qed

lemma read_state_header:
  assumes q: "unread (read_queue con) ts k" and st: "rc_state con = CON_STATE_READ" "is_readable con" and req: "buffer_ok (request con)"
    and d: "d \<noteq> []" "length d < 2 ^ 31" and r: "roomy (ts @ [d])" "length (concat (ts @ [d])) < 2 ^ 50"
  shows "\<exists>con'. connection_handle_read_state junk mkstemp reopen cur_ts (arrives d) con up = Some (0, con', up) \<and>
    (case header_length (concat (ts @ [d])) of
       None \<Rightarrow> unread (read_queue con') (ts @ [d]) k \<and> request con' = request con
         \<and> (if k + length (concat (ts @ [d])) > 65536 then rc_state con' = CON_STATE_HANDLE_REQUEST \<and> http_status con' = 414
            else rc_state con' = CON_STATE_READ)
     | Some n \<Rightarrow> rc_state con' = CON_STATE_REQUEST_END \<and> string_ok (request con') \<and> text_of (request con') = take n (concat (ts @ [d]))
         \<and> (\<exists>k'. unread (read_queue con') (consume n (ts @ [d])) k'))"
proof -
  let ?ts = "ts @ [d]"
  obtain as us con2 where q2: "queue_rep (read_queue con2) as us []" "packets ?ts (contents (read_queue con2) as)"
    "skipped (contents (read_queue con2) as) = k" "rc_state con2 = CON_STATE_READ" "request con2 = request con"
    and e: "connection_handle_read_state junk mkstemp reopen cur_ts (arrives d) con up =
      do { con \<leftarrow> read_header junk con2; cq \<leftarrow> chunkqueue_remove_finished_chunks (read_queue con); Some (0, con\<lparr>read_queue := cq\<rparr>, up) }"
    by (rule read_state_reads [OF q st(2) d, of junk mkstemp reopen cur_ts up]) (simp add: st(1))
  show ?thesis
  proof (cases "header_length (concat ?ts)")
    case None
    have l: "linked (heap (read_queue con2)) (cq_first (read_queue con2)) as" using q2(1) by (simp add: queue_rep_def)
    have "search_header (heap (read_queue con2)) (cq_first (read_queue con2)) = Some None"
      using search_header_spec [OF l q2(2) [unfolded contents_def] r(1)] None by simp
    from read_state_unfinished [OF q2(1-4) this, of junk up] show ?thesis unfolding None e option.case q2(5) .
  next
    case (Some n)
    have ok: "buffer_ok (request con2)" using req q2(5) by simp
    obtain req' cq' where h: "read_header junk con2 = Some (con2\<lparr>request := req', read_queue := cq', rc_state := CON_STATE_REQUEST_END\<rparr>)"
      "string_ok req'" "text_of req' = take n (concat ?ts)" "queue_rep cq' as us []"
      "packets (consume n ?ts) (dropWhile is_finished (contents cq' as))"
      using read_header_some [OF q2(1,2) r(1) Some ok r(2), of junk] by blast
    obtain cq3 where c3: "chunkqueue_remove_finished_chunks cq' = Some cq3"
      "unread cq3 (consume n ?ts) (skipped (dropWhile is_finished (contents cq' as)))"
      by (rule remove_packets [OF h(4,5)])
    have "connection_handle_read_state junk mkstemp reopen cur_ts (arrives d) con up
        = Some (0, con2\<lparr>request := req', read_queue := cq3, rc_state := CON_STATE_REQUEST_END\<rparr>, up)"
      unfolding e h(1) using c3(1) by simp
    then show ?thesis unfolding Some using c3(2) h(2,3) by auto
  qed
qed

section \<open>A header in several packets\<close>

text \<open>Each packet makes the connection readable and is followed by a call, as long as the connection is in one of the two states
  in which \<open>connection_state_machine\<close> makes it.\<close>

definition reads :: "read_con \<Rightarrow> bool" where
  "reads con \<longleftrightarrow> rc_state con = CON_STATE_READ \<or> rc_state con = CON_STATE_READ_POST"

fun receive ::
    "(nat \<Rightarrow> byte) \<Rightarrow> (byte list \<Rightarrow> int \<times> byte list) \<Rightarrow> (byte list \<Rightarrow> int) \<Rightarrow> byte list list \<Rightarrow> read_con \<times> upload \<Rightarrow> (read_con \<times> upload) option" where
  "receive junk mkstemp reopen [] s = Some s"
| "receive junk mkstemp reopen (d # ds) (con, up) = (if reads con then do {
     (_, con, up) \<leftarrow> connection_handle_read_state junk mkstemp reopen 0 (arrives d) (con\<lparr>is_readable := True\<rparr>) up;
     receive junk mkstemp reopen ds (con, up) } else Some (con, up))"

lemma receive_stops: "\<not> reads con \<Longrightarrow> receive junk mkstemp reopen ds (con, up) = Some (con, up)"
  by (cases ds) simp_all

lemma receive_append:
  "receive junk mkstemp reopen (ds @ es) s = Option.bind (receive junk mkstemp reopen ds s) (receive junk mkstemp reopen es)"
proof (induction ds arbitrary: s)
  case (Cons d ds)
  show ?case by (cases s; cases "connection_handle_read_state junk mkstemp reopen 0 (arrives d) ((fst s)\<lparr>is_readable := True\<rparr>) (snd s)")
      (auto simp: Cons.IH receive_stops)
qed simp

definition packet_sizes :: "byte list list \<Rightarrow> bool" where
  "packet_sizes ds \<longleftrightarrow> list_all (\<lambda>d. d \<noteq> [] \<and> length d < 2 ^ 31) ds"

definition reading :: "read_con \<Rightarrow> bool" where
  "reading con \<longleftrightarrow> rc_state con = CON_STATE_READ \<and> buffer_ok (request con)"

lemma roomy_prefix: "roomy (ts @ [d]) \<Longrightarrow> roomy ts"
  by (cases ts) (auto simp: roomy_def butlast_append dest: in_set_butlastD)

lemma receive_incomplete:
  assumes "unread (read_queue con) [] 0" and "reading con"
  shows "packet_sizes ds \<Longrightarrow> roomy ds \<Longrightarrow> header_length (concat ds) = None \<Longrightarrow> length (concat ds) \<le> 65536
   \<Longrightarrow> \<exists>con'. receive junk mkstemp reopen ds (con, up) = Some (con', up) \<and> unread (read_queue con') ds 0 \<and> reading con'"
proof (induction ds rule: rev_induct)
  case Nil
  then show ?case using assms by simp
next
  case (snoc d ds)
  have "header_length (concat ds) = None" using snoc.prems(3) header_length_take [of "concat ds"] by (cases "header_length (concat ds)") auto
  then obtain con1 where c1: "receive junk mkstemp reopen ds (con, up) = Some (con1, up)" "unread (read_queue con1) ds 0" "reading con1"
    using snoc.IH snoc.prems roomy_prefix by (auto simp: packet_sizes_def)
  let ?con = "con1\<lparr>is_readable := True\<rparr>"
  have c: "unread (read_queue ?con) ds 0" "rc_state ?con = CON_STATE_READ" "is_readable ?con" "buffer_ok (request ?con)"
    "d \<noteq> []" "length d < 2 ^ 31" "length (concat (ds @ [d])) < 2 ^ 50"
    using c1 snoc.prems by (auto simp: reading_def packet_sizes_def)
  obtain con' where "connection_handle_read_state junk mkstemp reopen 0 (arrives d) ?con up = Some (0, con', up)"
    "unread (read_queue con') (ds @ [d]) 0" "request con' = request ?con" "rc_state con' = CON_STATE_READ"
    using read_state_header [OF c(1-6) snoc.prems(2) c(7), of junk mkstemp reopen 0 up] snoc.prems(3,4) by auto
  then show ?case using c1(1,3) c(4) by (auto simp: receive_append reading_def reads_def)
qed

section \<open>The body\<close>

definition tempdirs_ok :: "chunkqueue \<Rightarrow> bool" where
  "tempdirs_ok cq \<longleftrightarrow> (case cq_tempdirs cq of None \<Rightarrow> True | Some ds \<Rightarrow> length ds < 2 ^ 10 \<and> list_all (small 50) ds)"

text \<open>A file chunk has a name.\<close>

definition name_ok :: "chunk \<Rightarrow> bool" where
  "name_ok c \<longleftrightarrow> (c_type c = FILE_CHUNK \<longrightarrow> b_used (f_name c) \<noteq> 0)"

definition body_rep :: "chunkqueue \<Rightarrow> nat list \<Rightarrow> nat list \<Rightarrow> bool" where
  "body_rep cq as us \<longleftrightarrow> queue_rep cq as us [] \<and> list_all in_range (contents cq as) \<and> list_all name_ok (contents cq as) \<and> tempdirs_ok cq"

text \<open>Storing \<open>n\<close> bytes keeps an invariant that says what has been stored, or it refuses the request.\<close>

definition stores ::
    "(nat \<Rightarrow> byte) \<Rightarrow> (byte list \<Rightarrow> int \<times> byte list) \<Rightarrow> (byte list \<Rightarrow> int) \<Rightarrow> (chunkqueue \<Rightarrow> upload \<Rightarrow> byte list \<Rightarrow> bool) \<Rightarrow> bool \<Rightarrow> int \<Rightarrow> bool" where
  "stores junk mkstemp reopen Inv R L \<longleftrightarrow>
     (\<forall>con up s p n. Inv (content_queue con) up s \<longrightarrow> content_length con = L \<longrightarrow> n \<le> length p \<longrightarrow> n < 2 ^ 60 \<longrightarrow>
       (\<exists>go con' up'. store_body junk mkstemp reopen p n con up = Some (go, con', up') \<and>
         (if go then \<exists>q. con' = con\<lparr>content_queue := q\<rparr> \<and> cq_bytes_in q = cq_bytes_in (content_queue con) \<and> Inv q up' (s @ take n p)
          else R \<and> (\<exists>q. con' = too_large (con\<lparr>content_queue := q\<rparr>) \<and> (\<exists>as us. body_rep q as us)))))
   \<and> (\<forall>cq up s b. Inv cq up s \<longrightarrow> Inv (cq\<lparr>cq_bytes_in := b\<rparr>) up s)"

lemma too_large_fields: "con' = too_large con \<Longrightarrow> rc_state con' = CON_STATE_HANDLE_REQUEST \<and> http_status con' = 413
   \<and> read_queue con' = read_queue con \<and> content_queue con' = content_queue con \<and> request con' = request con \<and> content_length con' = content_length con"
  by (simp add: too_large_def)

definition post_result :: "(chunkqueue \<Rightarrow> upload \<Rightarrow> byte list \<Rightarrow> bool) \<Rightarrow> bool \<Rightarrow> read_con \<Rightarrow> nat list \<Rightarrow> nat list \<Rightarrow> nat list \<Rightarrow> byte list list \<Rightarrow> byte list
    \<Rightarrow> read_con \<Rightarrow> upload \<Rightarrow> bool" where
  "post_result Inv R con pre bs us ts s con' up' \<longleftrightarrow> queue_rep (read_queue con') (pre @ bs) us []
     \<and> contents (read_queue con') pre = contents (read_queue con) pre \<and> list_all in_range (contents (read_queue con') bs)
     \<and> (\<exists>m. packets (consume m ts) (dropWhile is_finished (contents (read_queue con') bs)) \<and>
         (m = min (nat (content_length con - cq_bytes_in (content_queue con))) (length (concat ts))
            \<and> con' = con\<lparr>read_queue := read_queue con', content_queue := content_queue con'\<rparr>
            \<and> cq_bytes_in (content_queue con') = cq_bytes_in (content_queue con) + int m \<and> Inv (content_queue con') up' (s @ take m (concat ts))
          \<or> R \<and> con' = too_large (con\<lparr>read_queue := read_queue con', content_queue := content_queue con'\<rparr>)
            \<and> (\<exists>as us. body_rep (content_queue con') as us)))"

lemma read_post_spec:
  assumes st: "stores junk mkstemp reopen Inv R L"
  shows "queue_rep (read_queue con) (pre @ bs) us [] \<Longrightarrow> linked (heap (read_queue con)) p bs \<Longrightarrow> packets ts (contents (read_queue con) bs)
    \<Longrightarrow> content_length con = L \<Longrightarrow> cq_bytes_in (content_queue con) \<le> L \<Longrightarrow> Inv (content_queue con) up s
    \<Longrightarrow> \<exists>con' up'. read_post junk mkstemp reopen p con up = Some (con', up') \<and> post_result Inv R con pre bs us ts s con' up'"
proof (induction bs arbitrary: pre p ts con up s)
  case Nil
  then show ?case by (simp add: read_post.simps [of _ _ _ None] post_result_def contents_def)
next
  case (Cons a bs)
  note rep = Cons.prems(1) and L = Cons.prems(4)
  let ?b = "cq_bytes_in (content_queue con)"
  obtain c where c: "p = Some a" "heap (read_queue con) a = Some c" "linked (heap (read_queue con)) (c_next c) bs"
    using Cons.prems(2) by (auto split: option.splits)
  obtain t us' where t: "ts = t # us'" "packet t c" "packets us' (contents (read_queue con) bs)"
    "\<forall>d \<in> set (contents (read_queue con) bs). c_offset d = 0"
    using Cons.prems(3) contents_Cons [OF c(2), of bs] by (cases ts) auto
  have dist: "a \<notin> set pre" "a \<notin> set bs" using rep by (auto simp: queue_rep_def)
  show ?case
  proof (cases "?b = L")
    case True
    have "read_post junk mkstemp reopen p con up = Some (con, up)"
      using c(1) True L by (simp add: read_post.simps [of _ _ _ "Some a"])
    moreover have "post_result Inv R con pre (a # bs) us ts s con up"
      unfolding post_result_def using Cons.prems packets_nonempty [OF Cons.prems(3)] packets_not_finished [OF Cons.prems(3)]
        packets_in_range [OF Cons.prems(3)] True by (intro conjI exI [of _ "0"]) simp_all
    ultimately show ?thesis by blast
  next
    case False
    then have less: "?b < L" using Cons.prems(5) by simp
    obtain r where v: "b_ptr (rest_of c) = Some (t @ 0 # r)" "int (b_used (c_mem c)) = c_offset c + int (length t) + 1" "0 \<le> c_offset c"
      "length t < 2 ^ 60" "0 < length t"
      using packet_view [OF t(2)] t(2) by (metis packet_def length_greater_0_conv)
    define n where "n = min (length t) (nat (L - ?b))"
    define d where "d = c\<lparr>c_offset := c_offset c + int n\<rparr>"
    have n: "n \<le> length t" "n \<le> length (t @ 0 # r)" "n < 2 ^ 60" "int n \<le> L - ?b" using v(4) less by (auto simp: n_def)
    have wh: "int (b_used (c_mem c)) - c_offset c - 1 = int (length t)" using v(2) by simp
    have u0: "b_used (c_mem c) \<noteq> 0" using v(2,3) by linarith
    have tr': "(if L - ?b < int (length t) then L - ?b else int (length t)) = int n" using less by (auto simp: n_def)
    have e0: "read_post junk mkstemp reopen p con up = do { (go_on, con', up') \<leftarrow> store_body junk mkstemp reopen (t @ 0 # r) n con up;
        if \<not> go_on then Some (con', up')
        else read_post junk mkstemp reopen (c_next c) (con'\<lparr>read_queue := put_chunk a d (read_queue con'),
             content_queue := (content_queue con')\<lparr>cq_bytes_in := cq_bytes_in (content_queue con') + int n\<rparr>\<rparr>) up' }"
    proof (cases "L - ?b < int (length t)")
      case True
      then have "L - ?b = int n" "n < length t" using tr' by simp_all
      then show ?thesis
        using c(1,2) False L u0 v(1) n(2) by (simp add: read_post.simps [of _ _ _ "Some a"] Let_def wh d_def split_def cong: if_cong)
    next
      case whole: False
      then have "length t = n" using tr' by simp
      then show ?thesis
        using c(1,2) False L u0 v(1) n(2) whole by (simp add: read_post.simps [of _ _ _ "Some a"] Let_def wh d_def split_def cong: if_cong)
    qed
    obtain go con1 up1 where s1: "store_body junk mkstemp reopen (t @ 0 # r) n con up = Some (go, con1, up1)"
      "if go then \<exists>q. con1 = con\<lparr>content_queue := q\<rparr> \<and> cq_bytes_in q = ?b \<and> Inv q up1 (s @ take n (t @ 0 # r))
       else R \<and> (\<exists>q. con1 = too_large (con\<lparr>content_queue := q\<rparr>) \<and> (\<exists>as us. body_rep q as us))"
      using st Cons.prems(6) L n(2,3) unfolding stores_def by blast
    show ?thesis
    proof (cases go)
      case refused: False
      have "read_post junk mkstemp reopen p con up = Some (con1, up1)"
        unfolding e0 using s1(1) refused by simp
      moreover have "post_result Inv R con pre (a # bs) us ts s con1 up1"
      proof -
        obtain q where q: "R" "con1 = too_large (con\<lparr>content_queue := q\<rparr>)" "\<exists>as us. body_rep q as us" using s1(2) refused by auto
        have f: "read_queue con1 = read_queue con" "content_queue con1 = q" using q(2) by (simp_all add: too_large_def)
        show ?thesis unfolding post_result_def f using q packets_nonempty [OF Cons.prems(3)] packets_not_finished [OF Cons.prems(3)]
          packets_in_range [OF Cons.prems(3)] Cons.prems(3) rep by (intro conjI exI [of _ "0"]) simp_all
      qed
      ultimately show ?thesis by blast
    next
      case True
      then obtain q where q: "con1 = con\<lparr>content_queue := q\<rparr>" "cq_bytes_in q = ?b" "Inv q up1 (s @ take n t)" using s1(2) n(1) by auto
      let ?q = "q\<lparr>cq_bytes_in := ?b + int n\<rparr>" and ?rq = "put_chunk a d (read_queue con)"
      let ?con = "con\<lparr>read_queue := ?rq, content_queue := ?q\<rparr>"
      have e: "read_post junk mkstemp reopen p con up = read_post junk mkstemp reopen (c_next c) ?con up1"
        unfolding e0 using s1(1) True q(1,2) by simp
      have inv: "Inv ?q up1 (s @ take n t)" using st q(3) unfolding stores_def by blast
      have put: "queue_rep ?rq (pre @ a # bs) us []" "contents ?rq pre = contents (read_queue con) pre"
        "contents ?rq bs = contents (read_queue con) bs" "heap ?rq a = Some d"
        using put_rep(1) [OF rep _ c(2), of d] packet_advance(2) [OF t(2) n(1)] dist by (simp_all add: d_def)
      have ct: "contents ?rq (a # bs) = unlinked d # contents (read_queue con) bs" using contents_Cons [OF put(4), of bs] put(3) by simp
      show ?thesis
      proof (cases "n = length t")
        case all: True
        have IH: "queue_rep (read_queue ?con) ((pre @ [a]) @ bs) us []" "linked (heap (read_queue ?con)) (c_next c) bs"
          "packets us' (contents (read_queue ?con) bs)" "content_length ?con = L" "cq_bytes_in (content_queue ?con) \<le> L"
          "Inv (content_queue ?con) up1 (s @ t)"
          using put(1,3) c(3) dist(2) t(3) L n(4) inv all by simp_all
        obtain con' up' where r: "read_post junk mkstemp reopen (c_next c) ?con up1 = Some (con', up')"
          "post_result Inv R ?con (pre @ [a]) bs us us' (s @ t) con' up'"
          using Cons.IH [OF IH] by blast
        obtain k where R: "queue_rep (read_queue con') ((pre @ [a]) @ bs) us []" "contents (read_queue con') (pre @ [a]) = contents ?rq (pre @ [a])"
          "list_all in_range (contents (read_queue con') bs)" "packets (consume k us') (dropWhile is_finished (contents (read_queue con') bs))"
          "k = min (nat (L - (?b + int n))) (length (concat us'))
            \<and> con' = con\<lparr>read_queue := read_queue con', content_queue := content_queue con'\<rparr>
            \<and> cq_bytes_in (content_queue con') = ?b + int n + int k \<and> Inv (content_queue con') up' ((s @ t) @ take k (concat us'))
          \<or> R \<and> con' = too_large (con\<lparr>read_queue := read_queue con', content_queue := content_queue con'\<rparr>)
            \<and> (\<exists>as us. body_rep (content_queue con') as us)"
          using r(2) L by (auto simp: post_result_def)
        have c': "contents (read_queue con') pre = contents (read_queue con) pre" "contents (read_queue con') [a] = [unlinked d]"
          using R(2) put(2,4) unfolding contents_snoc by (simp_all add: contents_def)
        have ct': "contents (read_queue con') (a # bs) = unlinked d # contents (read_queue con') bs" using c'(2) by (simp add: contents_def)
        have fin: "is_finished d" "in_range d" using packet_advance(1,3) [OF t(2) n(1)] all by (simp_all add: d_def)
        have m: "min (nat (L - ?b)) (length (concat ts)) = n + min (nat (L - (?b + int n))) (length (concat us'))" using t(1) all n(4) by simp
        have "post_result Inv R con pre (a # bs) us ts s con' up'"
          unfolding post_result_def ct' L m
        proof (intro conjI exI [of _ "n + k"])
          show "queue_rep (read_queue con') (pre @ a # bs) us []" using R(1) by simp
          show "contents (read_queue con') pre = contents (read_queue con) pre" by (rule c'(1))
          show "list_all in_range (unlinked d # contents (read_queue con') bs)" using R(3) fin(2) by simp
          show "packets (consume (n + k) ts) (dropWhile is_finished (unlinked d # contents (read_queue con') bs))" using R(4) fin(1) t(1) all by simp
          show "n + k = n + min (nat (L - (?b + int n))) (length (concat us'))
            \<and> con' = con\<lparr>read_queue := read_queue con', content_queue := content_queue con'\<rparr>
            \<and> cq_bytes_in (content_queue con') = ?b + int (n + k) \<and> Inv (content_queue con') up' (s @ take (n + k) (concat ts))
            \<or> R \<and> con' = too_large (con\<lparr>read_queue := read_queue con', content_queue := content_queue con'\<rparr>)
            \<and> (\<exists>as us. body_rep (content_queue con') as us)"
          proof (rule disjE [OF R(5)], goal_cases)
            case 1
            have tk: "s @ take (n + k) (concat ts) = (s @ t) @ take k (concat us')" "?b + int (n + k) = ?b + int n + int k"
              using t(1) all by simp_all
            show ?case unfolding tk using 1 by blast
          next
            case 2
            then show ?case by blast
          qed
        qed
        then show ?thesis using e r(1) by simp
      next
        case part: False
        have full: "?b + int n = L" using part less by (auto simp: n_def)
        have stop: "read_post junk mkstemp reopen (c_next c) ?con up1 = Some (?con, up1)"
          using full L by (cases "c_next c") (simp_all add: read_post.simps)
        have pk: "packet (drop n t) d" using packet_advance(4) [OF t(2) n(1)] part n(1) by (simp add: d_def)
        have m: "min (nat (L - ?b)) (length (concat ts)) = n" using full t(1) part n(1) by simp
        have r0: "in_range d" using packet_advance(1) [OF t(2) n(1)] by (simp add: d_def)
        have "post_result Inv R con pre (a # bs) us ts s ?con up1"
          unfolding post_result_def L m
        proof (intro conjI exI [of _ n] disjI1)
          show "packets (consume n ts) (dropWhile is_finished (contents (read_queue ?con) (a # bs)))"
            using pk t part n(1) packet_not_finished [OF pk] by (simp add: ct)
          show "list_all in_range (contents (read_queue ?con) (a # bs))" using packets_in_range [OF t(3)] r0 by (simp add: ct)
          show "Inv (content_queue ?con) up1 (s @ take n (concat ts))" using inv t(1) n(1) by simp
        qed (use put(1,2) in simp_all)
        then show ?thesis using e stop by simp
      qed
    qed
  qed
qed

section \<open>Storing in memory\<close>

text \<open>The content queue holds the bytes \<open>s\<close> in memory.\<close>

definition in_memory :: "upload \<Rightarrow> chunkqueue \<Rightarrow> upload \<Rightarrow> byte list \<Rightarrow> bool" where
  "in_memory up0 cq up s \<longleftrightarrow> up = up0 \<and> (\<exists>cs. holds cq cs \<and> stream cs = List.map Byte s)"

lemma holds_counts: "holds (cq\<lparr>cq_bytes_in := b\<rparr>) cs = holds cq cs"
  by (simp add: holds_def queue_rep_def contents_def)

lemma store_in_memory_ok:
  assumes h: "holds (content_queue con) cs" and n: "n \<le> length p" "n < 2 ^ 60"
  shows "\<exists>q ds. store_in_memory junk p n con = Some (con\<lparr>content_queue := q\<rparr>) \<and> cq_bytes_in q = cq_bytes_in (content_queue con)
    \<and> holds q ds \<and> stream ds = stream cs @ List.map Byte (take n p)"
proof -
  obtain as us where r: "queue_rep (content_queue con) as us []" "cs = contents (content_queue con) as" "list_all in_range cs"
    using h by (auto simp: holds_def)
  obtain a q us' c where g: "chunkqueue_get_append_buffer (content_queue con) = Some (a, q)" "queue_rep q (as @ [a]) us' []"
    "contents q (as @ [a]) = contents (content_queue con) as @ [c]" "heap q a = Some c" "c_next c = None" "mem_only c"
    "b_used (c_mem c) = 0" "c_offset c = 0" "length us' + 1 < 2 ^ 64" "cq_bytes_in q = cq_bytes_in (content_queue con)"
    by (rule get_append_buffer_ok [OF r(1)])
  have m: "buffer_ok (c_mem c)" using g(6) smallD [of 60 "c_mem c"] by (simp add: mem_only_def)
  have n': "n + 65 < 2 ^ 64" using n(2) by simp
  obtain b where b: "buffer_copy_string_len junk (Some (c_mem c)) (Some p) n = Some (0, Some b)" "string_ok b" "text_of b = take n p"
    "b_used b = n + 1"
    using copy_string_len [OF m n(1) n', of junk] by blast
  let ?d = "c\<lparr>c_mem := b\<rparr>"
  have d: "used_ok ?d" "c_next ?d = c_next c" "in_range ?d" "cells ?d = List.map Byte (take n p)"
    using g(6,8) b by (simp_all add: used_ok_def mem_only_def small_def in_range_def cells_def)
  have a: "a \<notin> set as" using g(2) by (auto simp: queue_rep_def)
  have q: "queue_rep (put_chunk a ?d q) (as @ [a]) us' []" by (rule put_rep(1) [OF g(2) _ g(4) d(1,2)]) simp
  have k: "contents (put_chunk a ?d q) (as @ [a]) = cs @ [unlinked ?d]"
    using g(3) r(2) a unfolding contents_snoc by (simp add: contents_def)
  have "holds (put_chunk a ?d q) (cs @ [unlinked ?d])"
    unfolding holds_def using q k r(3) d(3) by (intro exI [of _ "as @ [a]"] exI [of _ us']) simp
  moreover have "store_in_memory junk p n con = Some (con\<lparr>content_queue := put_chunk a ?d q\<rparr>)"
    using g(1,4) b(1) by (simp add: store_in_memory_def)
  moreover have "cq_bytes_in (put_chunk a ?d q) = cq_bytes_in (content_queue con)" using g(10) by (simp add: put_chunk_def)
  moreover have "stream (cs @ [unlinked ?d]) = stream cs @ List.map Byte (take n p)" using d(4) by simp
  ultimately show ?thesis by blast
qed

lemma stores_in_memory:
  assumes "L \<le> 65536"
  shows "stores junk mkstemp reopen (in_memory up0) R L"
  unfolding stores_def
proof (intro conjI allI impI)
  fix con :: read_con and up :: upload and s p :: "byte list" and n
  assume a: "in_memory up0 (content_queue con) up s" "content_length con = L" "n \<le> length p" "n < 2 ^ 60"
  obtain cs where cs: "up = up0" "holds (content_queue con) cs" "stream cs = List.map Byte s" using a(1) by (auto simp: in_memory_def)
  obtain q ds where q: "store_in_memory junk p n con = Some (con\<lparr>content_queue := q\<rparr>)" "cq_bytes_in q = cq_bytes_in (content_queue con)"
    "holds q ds" "stream ds = stream cs @ List.map Byte (take n p)"
    using store_in_memory_ok [OF cs(2) a(3,4), of junk] by blast
  have "in_memory up0 q up (s @ take n p)" using q(3,4) cs by (auto simp: in_memory_def)
  moreover have "store_body junk mkstemp reopen p n con up = Some (True, con\<lparr>content_queue := q\<rparr>, up)"
    using q(1) a(2) assms by (simp add: store_body_def)
  ultimately show "\<exists>go con' up'. store_body junk mkstemp reopen p n con up = Some (go, con', up') \<and>
      (if go then \<exists>q. con' = con\<lparr>content_queue := q\<rparr> \<and> cq_bytes_in q = cq_bytes_in (content_queue con) \<and> in_memory up0 q up' (s @ take n p)
       else R \<and> (\<exists>q. con' = too_large (con\<lparr>content_queue := q\<rparr>) \<and> (\<exists>as us. body_rep q as us)))"
    using q(2) by (intro exI [of _ True] exI [of _ "con\<lparr>content_queue := q\<rparr>"] exI [of _ up]) auto
next
  fix cq up s b
  assume "in_memory up0 cq up s"
  then show "in_memory up0 (cq\<lparr>cq_bytes_in := b\<rparr>) up s" by (simp add: in_memory_def holds_counts)
qed

section \<open>Storing in files\<close>

lemma make_temp_ok:
  assumes "string_ok t" and "b_used t \<noteq> 0"
  obtains fd t' where "make_temp mkstemp t = Some (fd, t')" "string_ok t'" "b_used t' = b_used t" "b_size t' = b_size t"
    "\<exists>s. fd = fst (mkstemp s)"
proof -
  obtain p r where p: "b_ptr t = Some p" "p = text_of t @ 0 # r" "b_used t = length (text_of t) + 1"
    using string_area [OF assms] by metis
  obtain s where s: "c_string t = Some s" "length s \<le> length (text_of t)"
    using c_string_text [OF assms] length_takeWhile_le [of "\<lambda>x. x \<noteq> 0" "text_of t"] by auto
  obtain fd name where m: "mkstemp s = (fd, name)" by (cases "mkstemp s")
  define k where "k = length (take (length s) name)"
  define q where "q = take (length s) name @ drop k p"
  have k: "k \<le> length (text_of t)" using s(2) by (simp add: k_def)
  have l: "length q = length p" using k p(2) by (simp add: q_def k_def)
  have "q ! (k + (length (text_of t) - k)) = drop k p ! (length (text_of t) - k)"
    unfolding q_def k_def by (simp only: nth_append_length_plus)
  also have "\<dots> = p ! length (text_of t)" using k p(2) by (subst nth_drop) simp_all
  finally have z: "q ! length (text_of t) = 0" using k p(2) by simp
  let ?t = "t\<lparr>b_ptr := Some q\<rparr>"
  have "buffer_ok ?t" using assms(1) p(1) l by (simp add: string_ok_def buffer_ok_def)
  moreover have "take (b_used t) q = take (length (text_of t)) q @ [0]"
    using z p(2,3) l by (simp add: take_Suc_conv_app_nth)
  ultimately have "string_ok ?t" by (simp add: string_ok_def content_def area_def)
  moreover have "\<exists>s. fd = fst (mkstemp s)" using m by (intro exI [of _ s]) simp
  ultimately show thesis using that [of fd ?t] p(1) s(1) m by (simp add: make_temp_def q_def k_def)
qed

lemma append_template:
  assumes t: "string_ok t" "b_size t + 200 < 2 ^ 64"
  obtains t' where "after (buffer_append_string_len junk (Some t) (Some (upload_template @ [0])) 22) = Some t'" "string_ok t'"
    "b_used t' \<noteq> 0" "b_size t' \<le> b_size t + 87"
proof -
  have l: "length upload_template = 22" by (simp add: upload_template_def)
  then have n: "22 \<le> length (upload_template @ [0])" "b_size t + 22 + 65 < 2 ^ 64" using t(2) by simp_all
  have ok: "buffer_ok t" using t(1) by (simp add: string_ok_def)
  obtain t' where r: "buffer_append_string_len junk (Some t) (Some (upload_template @ [0])) 22 = Some (0, Some t')" "string_ok t'"
    "text_of t' = text_of t @ take 22 (upload_template @ [0])" "b_size t' \<le> b_size t + 22 + 65"
    using append_string_len [OF ok n, of junk] by auto
  have "length (text_of t') \<noteq> 0" using r(3) l by simp
  then have "b_used t' \<noteq> 0" using length_text_le [of t'] by (cases "b_used t' = 0") simp_all
  then show thesis using that [of t'] r by simp
qed

lemma tempdir_loop_ok:
  assumes "list_all (small 50) dirs" and "string_ok t" and "b_used t \<noteq> 0" and "b_size t + length dirs * 2 ^ 51 < 2 ^ 62"
  shows "\<exists>fd' tmp t'. tempdir_loop junk mkstemp dirs fd t = Some (fd', tmp, t') \<and> string_ok t' \<and> b_used t' \<noteq> 0 \<and> b_size t' < 2 ^ 62
    \<and> ((\<forall>s. fst (mkstemp s) \<noteq> - 1) \<longrightarrow> dirs \<noteq> [] \<longrightarrow> fd' \<noteq> - 1)"
  using assms
proof (induction dirs arbitrary: fd t)
  case (Cons dir dirs)
  have s: "small 62 t" "small 50 dir" using Cons.prems by (simp_all add: small_def)
  have d: "b_size dir < 2 ^ 50" using s(2) by (simp add: small_def)
  obtain t1 where t1: "after (buffer_copy_string_buffer junk (Some t) (Some dir)) = Some t1" "string_ok t1" "b_size t1 \<le> b_size t + b_size dir + 65"
    by (rule after_copy [OF s, of junk]) simp_all
  have b: "b_size t + 2 ^ 51 + length dirs * 2 ^ 51 < 2 ^ 62" using Cons.prems(4) by simp
  have r1: "b_size t1 + 66 < 2 ^ 64" using t1(3) b d by simp
  obtain t2 where t2: "append_slash junk t1 = Some t2" "string_ok t2" "b_size t2 \<le> b_size t1 + 66"
    by (rule append_slash_spec [OF t1(2) r1, of junk]) blast
  have r2: "b_size t2 + 200 < 2 ^ 64" using t2(3) t1(3) b d by simp
  obtain t3 where t3: "after (buffer_append_string_len junk (Some t2) (Some (upload_template @ [0])) 22) = Some t3" "string_ok t3"
    "b_used t3 \<noteq> 0" "b_size t3 \<le> b_size t2 + 87"
    by (rule append_template [OF t2(2) r2])
  obtain fd' t4 where t4: "make_temp mkstemp t3 = Some (fd', t4)" "string_ok t4" "b_used t4 = b_used t3" "b_size t4 = b_size t3"
    "\<exists>s. fd' = fst (mkstemp s)"
    by (rule make_temp_ok [OF t3(2,3)])
  have b4: "b_size t4 + length dirs * 2 ^ 51 < 2 ^ 62" using b t4(4) t3(4) t2(3) t1(3) d by simp
  have u4: "b_used t4 \<noteq> 0" using t4(3) t3(3) by simp
  have e: "tempdir_loop junk mkstemp (dir # dirs) fd t = (if fd' \<noteq> - 1 then Some (fd', True, t4) else tempdir_loop junk mkstemp dirs fd' t4)"
    using t1(1) t2(1) t3(1) t4(1) by simp
  show ?case
  proof (cases "fd' = - 1")
    case True
    then show ?thesis unfolding e using Cons.IH [OF _ t4(2) u4 b4, of fd'] Cons.prems(1) t4(5) by auto
  next
    case False
    then show ?thesis unfolding e using t4(2) u4 b4 by auto
  qed
qed auto

definition upload_file :: "chunk \<Rightarrow> bool" where
  "upload_file c \<longleftrightarrow> c_type c = FILE_CHUNK \<and> c_offset c = 0 \<and> 0 \<le> f_length c \<and> b_used (f_name c) \<noteq> 0"

lemma upload_file_simps [simp]: "upload_file (c\<lparr>f_fd := x\<rparr>) = upload_file c" "used_ok (c\<lparr>f_fd := x\<rparr>) = used_ok c"
  by (simp_all add: upload_file_def used_ok_def)

lemma upload_file_ok: "upload_file c \<Longrightarrow> in_range c \<and> name_ok c"
  by (simp add: upload_file_def in_range_def name_ok_def)

lemma name_ok_unlinked [simp]: "name_ok (unlinked c) = name_ok c"
  by (simp add: name_ok_def)

lemma get_append_tempfile_ok:
  assumes rep: "queue_rep cq as us []" and dirs: "tempdirs_ok cq"
  obtains a cq' us' c where "chunkqueue_get_append_tempfile junk mkstemp cq = Some (a, cq')" "queue_rep cq' (as @ [a]) us' []"
    "contents cq' (as @ [a]) = contents cq as @ [c]" "heap cq' a = Some c" "upload_file c" "cq_bytes_in cq' = cq_bytes_in cq"
    "cq_tempdirs cq' = cq_tempdirs cq" "(\<forall>s. fst (mkstemp s) \<noteq> - 1) \<longrightarrow> f_fd c \<noteq> - 1"
proof -
  define s where "s = [47, 118, 97, 114, 47, 116, 109, 112, 47] @ upload_template"
  have s: "0 \<notin> set s" "length s = 31" by (simp_all add: s_def upload_template_def)
  obtain t where t: "buffer_init_string junk (Some (s @ [0])) = Some t" "string_ok t" "b_used t \<noteq> 0" "b_size t < 2 ^ 10"
  proof -
    have i: "buffer_ok buffer_init" "length s + 65 < 2 ^ 64" "length s \<le> length (s @ 0 # [])"
      using s(2) by (simp_all add: buffer_init_def buffer_ok_def)
    obtain t where "buffer_copy_string_len junk (Some buffer_init) (Some (s @ 0 # [])) (length s) = Some (0, Some t)" "string_ok t"
      "b_used t = length s + 1" "b_size t \<le> b_size buffer_init + length s + 65"
      using copy_string_len [OF i(1,3,2), of junk] by blast
    then show thesis using that [of t] copy_string [OF i(1) s(1) i(2), of junk "[]"] s(2)
      by (simp add: buffer_init_string_def buffer_init_def)
  qed
  let ?f = "\<lambda>c. do {
         (fd, temp, template) \<leftarrow> (case cq_tempdirs cq of
             Some (d # ds) \<Rightarrow> tempdir_loop junk mkstemp (d # ds) (f_fd c) t
           | _ \<Rightarrow> do { (fd, t) \<leftarrow> make_temp mkstemp t; Some (fd, fd \<noteq> - 1, t) });
         name \<leftarrow> after (buffer_copy_string_buffer junk (Some (f_name c)) (Some template));
         Some (c\<lparr>c_type := FILE_CHUNK, c_offset := 0, f_fd := fd, f_is_temp := (if temp then True else f_is_temp c),
                f_name := name, f_length := 0\<rparr>)
       }"
  have f: "\<exists>c'. ?f c = Some c' \<and> used_ok c' \<and> c_next c' = None
    \<and> (upload_file c' \<and> ((\<forall>s. fst (mkstemp s) \<noteq> - 1) \<longrightarrow> f_fd c' \<noteq> - 1))" if c: "idle_ok c" "c_next c = None" for c
  proof -
    have "\<exists>fd tmp t'. (case cq_tempdirs cq of Some (d # ds) \<Rightarrow> tempdir_loop junk mkstemp (d # ds) (f_fd c) t
           | _ \<Rightarrow> do { (fd, t) \<leftarrow> make_temp mkstemp t; Some (fd, fd \<noteq> - 1, t) }) = Some (fd, tmp, t') \<and> string_ok t' \<and> b_used t' \<noteq> 0
           \<and> b_size t' < 2 ^ 62 \<and> ((\<forall>s. fst (mkstemp s) \<noteq> - 1) \<longrightarrow> fd \<noteq> - 1)"
    proof (cases "\<exists>d ds. cq_tempdirs cq = Some (d # ds)")
      case True
      then obtain d ds where ds: "cq_tempdirs cq = Some (d # ds)" by blast
      have l: "list_all (small 50) (d # ds)" "length (d # ds) < 2 ^ 10" using dirs ds by (simp_all add: tempdirs_ok_def)
      have "b_size t + length (d # ds) * 2 ^ 51 < 2 ^ 62" using t(4) l(2) by simp
      from tempdir_loop_ok [OF l(1) t(2,3) this, of junk mkstemp "f_fd c"] show ?thesis using ds by simp
    next
      case False
      obtain fd t' where "make_temp mkstemp t = Some (fd, t')" "string_ok t'" "b_used t' = b_used t" "b_size t' = b_size t"
        "\<exists>s. fd = fst (mkstemp s)"
        by (rule make_temp_ok [OF t(2,3)])
      then show ?thesis using False t(3,4) by (auto split: option.split list.split)
    qed
    then obtain fd tmp t' where m: "(case cq_tempdirs cq of Some (d # ds) \<Rightarrow> tempdir_loop junk mkstemp (d # ds) (f_fd c) t
           | _ \<Rightarrow> do { (fd, t) \<leftarrow> make_temp mkstemp t; Some (fd, fd \<noteq> - 1, t) }) = Some (fd, tmp, t')" "string_ok t'" "b_used t' \<noteq> 0"
           "b_size t' < 2 ^ 62" "(\<forall>s. fst (mkstemp s) \<noteq> - 1) \<longrightarrow> fd \<noteq> - 1" by blast
    have sm: "small 60 (f_name c)" "small 62 t'" using c(1) m(2,4) by (simp_all add: idle_ok_def small_def)
    obtain name where n: "after (buffer_copy_string_buffer junk (Some (f_name c)) (Some t')) = Some name" "string_ok name" "b_used name = b_used t'"
      by (rule after_copy [OF sm, of junk]) simp_all
    show ?thesis unfolding m(1) using n m(3,5) c by (simp add: used_ok_def idle_ok_def upload_file_def)
  qed
  obtain a cq' us' c where w: "with_chunk ?f chunkqueue_append_chunk cq = Some (a, cq')" "queue_rep cq' (as @ [a]) us' []"
    "contents cq' (as @ [a]) = contents cq as @ [c]" "heap cq' a = Some c" "upload_file c \<and> ((\<forall>s. fst (mkstemp s) \<noteq> - 1) \<longrightarrow> f_fd c \<noteq> - 1)" "cq_bytes_in cq' = cq_bytes_in cq"
    "cq_tempdirs cq' = cq_tempdirs cq"
    by (rule with_append_rep [OF rep f])
  have "chunkqueue_get_append_tempfile junk mkstemp cq = Some (a, cq')"
    unfolding chunkqueue_get_append_tempfile_def using t(1) w(1) by (simp add: s_def)
  from that [OF this w(2-4) _ w(6,7)] show thesis using w(5) by simp
qed

lemma body_rep_put:
  assumes "body_rep cq (as @ [l]) us" and "heap cq l = Some c" and "used_ok d" "c_next d = c_next c" "in_range d" "name_ok d"
  shows "body_rep (put_chunk l d cq) (as @ [l]) us"
proof -
  have l: "l \<notin> set as" using assms(1) by (auto simp: body_rep_def queue_rep_def)
  have "queue_rep (put_chunk l d cq) (as @ [l]) us []" by (rule put_rep(1) [of cq "as @ [l]" us "[]" l c]) (use assms in \<open>simp_all add: body_rep_def\<close>)
  moreover have "contents (put_chunk l d cq) (as @ [l]) = contents cq as @ [unlinked d]"
    using l unfolding contents_snoc by (simp add: contents_def)
  ultimately show ?thesis using assms(1,5,6) by (simp add: body_rep_def tempdirs_ok_def contents_snoc)
qed

lemma body_rep_calls [simp]: "body_rep (cq\<lparr>calls := x\<rparr>) as us = body_rep cq as us" "body_rep (cq\<lparr>cq_bytes_in := b\<rparr>) as us = body_rep cq as us"
  by (simp_all add: body_rep_def queue_rep_def contents_def tempdirs_ok_def)

text \<open>The system gives descriptors for temporary files, and its calls of \<open>write\<close> take all they are given.\<close>

definition opens :: "(byte list \<Rightarrow> int \<times> byte list) \<Rightarrow> (byte list \<Rightarrow> int) \<Rightarrow> bool" where
  "opens mkstemp reopen \<longleftrightarrow> (\<forall>s. fst (mkstemp s) \<noteq> - 1) \<and> (\<forall>s. reopen s \<noteq> - 1)"

definition disk_ok :: "(byte list \<Rightarrow> int \<times> byte list) \<Rightarrow> (byte list \<Rightarrow> int) \<Rightarrow> upload \<Rightarrow> bool" where
  "disk_ok mkstemp reopen up \<longleftrightarrow> opens mkstemp reopen \<and> (\<forall>i. 2 ^ 60 \<le> write_results up i)"

lemma upload_new:
  assumes "body_rep cq as us"
  obtains l cq' us' d where "chunkqueue_get_append_tempfile junk mkstemp cq = Some (l, cq')" "body_rep cq' (as @ [l]) us'"
    "heap cq' l = Some d" "upload_file d" "cq_bytes_in cq' = cq_bytes_in cq" "(\<forall>s. fst (mkstemp s) \<noteq> - 1) \<longrightarrow> f_fd d \<noteq> - 1"
proof -
  have r: "queue_rep cq as us []" "tempdirs_ok cq" using assms by (simp_all add: body_rep_def)
  obtain a cq' us' c where g: "chunkqueue_get_append_tempfile junk mkstemp cq = Some (a, cq')" "queue_rep cq' (as @ [a]) us' []"
    "contents cq' (as @ [a]) = contents cq as @ [c]" "heap cq' a = Some c" "upload_file c" "cq_bytes_in cq' = cq_bytes_in cq"
    "cq_tempdirs cq' = cq_tempdirs cq" "(\<forall>s. fst (mkstemp s) \<noteq> - 1) \<longrightarrow> f_fd c \<noteq> - 1"
    by (rule get_append_tempfile_ok [OF r])
  have "body_rep cq' (as @ [a]) us'" using assms g upload_file_ok [OF g(5)] by (simp add: body_rep_def tempdirs_ok_def)
  from that [OF g(1) this g(4-6,8)] show thesis .
qed

lemma upload_chunk_ok:
  assumes b: "body_rep cq as us"
  obtains l cq' as' us' d where "upload_chunk junk mkstemp reopen cq = Some (l, cq')" "body_rep cq' (as' @ [l]) us'"
    "heap cq' l = Some d" "upload_file d" "cq_bytes_in cq' = cq_bytes_in cq" "opens mkstemp reopen \<longrightarrow> f_fd d \<noteq> - 1"
proof (cases as rule: rev_cases)
  case Nil
  then have "cq_last cq = None" using b by (simp add: body_rep_def queue_rep_def)
  then have e: "upload_chunk junk mkstemp reopen cq = chunkqueue_get_append_tempfile junk mkstemp cq" by (simp add: upload_chunk_def)
  obtain l q' us' d where x: "chunkqueue_get_append_tempfile junk mkstemp cq = Some (l, q')" "body_rep q' (as @ [l]) us'"
    "heap q' l = Some d" "upload_file d" "cq_bytes_in q' = cq_bytes_in cq" "(\<forall>s. fst (mkstemp s) \<noteq> - 1) \<longrightarrow> f_fd d \<noteq> - 1"
    by (rule upload_new [OF b])
  show thesis by (rule that [OF _ x(2-5)]) (use e x(1,6) in \<open>simp_all add: opens_def\<close>)
next
  case (snoc bs l)
  have last: "cq_last cq = Some l" using b snoc by (simp add: body_rep_def queue_rep_def)
  obtain d where d: "heap cq l = Some d" "used_ok d" using b snoc by (auto simp: body_rep_def queue_rep_def split: option.splits)
  have ok: "in_range d" "name_ok d" using b snoc d(1) by (simp_all add: body_rep_def contents_def)
  show thesis
  proof (cases "c_type d = FILE_CHUNK \<and> f_is_temp d \<and> c_offset d = 0")
    case False
    then have e: "upload_chunk junk mkstemp reopen cq = chunkqueue_get_append_tempfile junk mkstemp cq"
      using last d(1) by (simp add: upload_chunk_def if_not_P)
    obtain l q' us' d where x: "chunkqueue_get_append_tempfile junk mkstemp cq = Some (l, q')" "body_rep q' (as @ [l]) us'"
    "heap q' l = Some d" "upload_file d" "cq_bytes_in q' = cq_bytes_in cq" "(\<forall>s. fst (mkstemp s) \<noteq> - 1) \<longrightarrow> f_fd d \<noteq> - 1"
    by (rule upload_new [OF b])
  show thesis by (rule that [OF _ x(2-5)]) (use e x(1,6) in \<open>simp_all add: opens_def\<close>)
  next
    case True
    then have u: "upload_file d" using ok by (simp add: upload_file_def in_range_def name_ok_def)
    have put: "body_rep (put_chunk l (d\<lparr>f_fd := x\<rparr>) cq) (bs @ [l]) us" for x
      by (rule body_rep_put [OF _ d(1)]) (use b snoc d(2) upload_file_ok [of "d\<lparr>f_fd := x\<rparr>"] u in simp_all)
    show thesis
    proof (cases "f_length d < 1 * 1024 * 1024")
      case small_file: True
      show thesis
      proof (cases "f_fd d = - 1")
        case closed: True
        have "string_ok (f_name d)" "b_used (f_name d) \<noteq> 0" using d(2) u by (simp_all add: used_ok_def upload_file_def)
        from c_string_text [OF this] obtain name where n: "c_string (f_name d) = Some name" by blast
        have "upload_chunk junk mkstemp reopen cq = Some (l, put_chunk l (d\<lparr>f_fd := reopen name\<rparr>) cq)"
          using last d(1) True small_file closed n by (simp add: upload_chunk_def)
        from that [OF this put] show thesis using u by (simp add: put_chunk_def opens_def)
      next
        case False
        then have "upload_chunk junk mkstemp reopen cq = Some (l, cq)"
          using last d(1) True small_file by (simp add: upload_chunk_def)
        from that [OF this _ d(1) u, of bs us] show thesis using b snoc False by simp
      qed
    next
      case False
      let ?q = "if f_fd d \<noteq> - 1 then (put_chunk l (d\<lparr>f_fd := - 1\<rparr>) cq)\<lparr>calls := calls cq @ [Close (f_fd d)]\<rparr> else cq"
      have q: "body_rep ?q as us" using put b snoc by simp
      have e: "upload_chunk junk mkstemp reopen cq = chunkqueue_get_append_tempfile junk mkstemp ?q"
        using last d(1) True False by (simp add: upload_chunk_def Let_def)
      have i: "cq_bytes_in ?q = cq_bytes_in cq" by (simp add: put_chunk_def)
      obtain la q' us' da where x: "chunkqueue_get_append_tempfile junk mkstemp ?q = Some (la, q')" "body_rep q' (as @ [la]) us'"
        "heap q' la = Some da" "upload_file da" "cq_bytes_in q' = cq_bytes_in ?q" "(\<forall>s. fst (mkstemp s) \<noteq> - 1) \<longrightarrow> f_fd da \<noteq> - 1"
        by (rule upload_new [OF q])
      show thesis by (rule that [OF _ x(2-4)]) (use x(1,5,6) e i in \<open>simp_all add: opens_def\<close>)
    qed
  qed
qed

text \<open>What has been written to the temporary files is \<open>w\<close>, followed by the bytes \<open>s\<close>; if \<open>F\<close> then all later writes succeed.\<close>

definition in_files :: "bool \<Rightarrow> byte list \<Rightarrow> chunkqueue \<Rightarrow> upload \<Rightarrow> byte list \<Rightarrow> bool" where
  "in_files F w cq up s \<longleftrightarrow> (\<exists>as us. body_rep cq as us) \<and> concat (List.map snd (written_to up)) = w @ s
     \<and> (F \<longrightarrow> (\<forall>i. 2 ^ 60 \<le> write_results up i))"

lemma write_file_ok:
  assumes "write_file fd data up = (r, up')"
  shows "r = int (length data) \<Longrightarrow> concat (List.map snd (written_to up')) = concat (List.map snd (written_to up)) @ data"
    and "\<forall>i. 2 ^ 60 \<le> write_results up i \<Longrightarrow> \<forall>i. 2 ^ 60 \<le> write_results up' i"
    and "\<forall>i. 2 ^ 60 \<le> write_results up i \<Longrightarrow> length data < 2 ^ 60 \<Longrightarrow> r = int (length data)"
proof -
  show "r = int (length data) \<Longrightarrow> concat (List.map snd (written_to up')) = concat (List.map snd (written_to up)) @ data"
    using assms by (auto simp: write_file_def Let_def split: if_splits)
  show "\<forall>i. 2 ^ 60 \<le> write_results up i \<Longrightarrow> \<forall>i. 2 ^ 60 \<le> write_results up' i"
    using assms by (auto simp: write_file_def Let_def split: if_splits)
  assume a: "\<forall>i. 2 ^ 60 \<le> write_results up i" "length data < 2 ^ 60"
  have "2 ^ 60 \<le> write_results up 0" "int (length data) < 2 ^ 60" using a by simp_all
  then have "\<not> write_results up 0 < 0" "min (write_results up 0) (int (length data)) = int (length data)" by simp_all
  then show "r = int (length data)" using assms by (simp add: write_file_def Let_def)
qed

lemma store_in_file_ok:
  assumes b: "in_files F w (content_queue con) up s" and len: "length data < 2 ^ 60"
  shows "\<exists>go con' up'. store_in_file junk mkstemp reopen data con up = Some (go, con', up') \<and>
     (if go then \<exists>q. con' = con\<lparr>content_queue := q\<rparr> \<and> cq_bytes_in q = cq_bytes_in (content_queue con) \<and> in_files F w q up' (s @ data)
      else \<not> (opens mkstemp reopen \<and> F) \<and> (\<exists>q. con' = too_large (con\<lparr>content_queue := q\<rparr>) \<and> (\<exists>as us. body_rep q as us)))"
proof -
  obtain as us where r: "body_rep (content_queue con) as us" "concat (List.map snd (written_to up)) = w @ s"
    "F \<longrightarrow> (\<forall>i. 2 ^ 60 \<le> write_results up i)"
    using b by (auto simp: in_files_def)
  obtain l q as' us' d where u: "upload_chunk junk mkstemp reopen (content_queue con) = Some (l, q)" "body_rep q (as' @ [l]) us'"
    "heap q l = Some d" "upload_file d" "cq_bytes_in q = cq_bytes_in (content_queue con)" "opens mkstemp reopen \<longrightarrow> f_fd d \<noteq> - 1"
    by (rule upload_chunk_ok [OF r(1)])
  show ?thesis
  proof (cases "f_fd d = - 1")
    case True
    then have e: "store_in_file junk mkstemp reopen data con up = Some (False, too_large (con\<lparr>content_queue := q\<rparr>), up)"
      using u(1,3) by (simp add: store_in_file_def)
    have f: "\<not> (opens mkstemp reopen \<and> F) \<and> (\<exists>q'. too_large (con\<lparr>content_queue := q\<rparr>) = too_large (con\<lparr>content_queue := q'\<rparr>)
        \<and> (\<exists>as us. body_rep q' as us))"
      using u(2,6) True by (intro conjI exI [of _ q] refl) blast+
    show ?thesis by (rule exI [of _ False], rule exI [of _ "too_large (con\<lparr>content_queue := q\<rparr>)"], rule exI [of _ up], rule conjI,
        rule e, subst if_False, rule f)
  next
    case open_file: False
    obtain n up' where w: "write_file (f_fd d) data up = (n, up')" by (cases "write_file (f_fd d) data up")
    show ?thesis
    proof (cases "n = int (length data)")
      case False
      then have F: "\<not> F" using write_file_ok(3) [OF w] r(3) len by blast
      let ?q' = "(put_chunk l (d\<lparr>f_fd := - 1\<rparr>) q)\<lparr>calls := calls q @ [Close (f_fd d)]\<rparr>"
      have used: "used_ok d" using u(2,3) by (auto simp: body_rep_def queue_rep_def split: option.splits)
      have "body_rep (put_chunk l (d\<lparr>f_fd := - 1\<rparr>) q) (as' @ [l]) us'"
        by (rule body_rep_put [OF u(2,3)]) (use u(4) used upload_file_ok [of "d\<lparr>f_fd := - 1\<rparr>"] in simp_all)
      then have q': "body_rep ?q' (as' @ [l]) us'" by simp
      have e: "store_in_file junk mkstemp reopen data con up = Some (False, too_large (con\<lparr>content_queue := ?q'\<rparr>), up')"
        using u(1,3) open_file w False by (simp add: store_in_file_def Let_def too_large_def)
      have f: "\<not> (opens mkstemp reopen \<and> F) \<and> (\<exists>q. too_large (con\<lparr>content_queue := ?q'\<rparr>) = too_large (con\<lparr>content_queue := q\<rparr>)
        \<and> (\<exists>as us. body_rep q as us))"
        using F q' by (intro conjI exI [of _ ?q'] refl) blast+
      show ?thesis by (rule exI [of _ False], rule exI [of _ "too_large (con\<lparr>content_queue := ?q'\<rparr>)"], rule exI [of _ up'], rule conjI,
        rule e, subst if_False, rule f)
    next
      case True
      let ?d = "d\<lparr>f_length := f_length d + int (length data)\<rparr>"
      have used: "used_ok d" using u(2,3) by (auto simp: body_rep_def queue_rep_def split: option.splits)
      have d: "upload_file ?d" "used_ok ?d" "c_next ?d = c_next d" using u(4) used by (simp_all add: upload_file_def used_ok_def)
      let ?q = "put_chunk l ?d q"
      have q: "body_rep ?q (as' @ [l]) us'" using body_rep_put [OF u(2,3) d(2,3)] upload_file_ok [OF d(1)] by simp
      let ?q' = "if cq_bytes_in ?q + int (length data) = content_length con
        then (put_chunk l (?d\<lparr>f_fd := - 1\<rparr>) ?q)\<lparr>calls := calls ?q @ [Close (f_fd ?d)]\<rparr> else ?q"
      have h: "heap ?q l = Some ?d" by simp
      have "body_rep (put_chunk l (?d\<lparr>f_fd := - 1\<rparr>) ?q) (as' @ [l]) us'"
        by (rule body_rep_put [OF q h]) (use d upload_file_ok [of "?d\<lparr>f_fd := - 1\<rparr>"] in simp_all)
      then have q': "body_rep ?q' (as' @ [l]) us'" using q by simp
      have e: "store_in_file junk mkstemp reopen data con up = Some (True, con\<lparr>content_queue := ?q'\<rparr>, up')"
        using u(1,3) open_file w True by (simp add: store_in_file_def Let_def)
      have "concat (List.map snd (written_to up')) = w @ (s @ data)" using write_file_ok(1) [OF w True] r(2) by simp
      then have "in_files F w ?q' up' (s @ data)" unfolding in_files_def using q' write_file_ok(2) [OF w] r(3) by blast
      moreover have "cq_bytes_in ?q' = cq_bytes_in (content_queue con)" using u(5) by (simp add: put_chunk_def)
      ultimately have f: "in_files F w ?q' up' (s @ data) \<and> cq_bytes_in ?q' = cq_bytes_in (content_queue con)" ..
      have "\<exists>q. con\<lparr>content_queue := ?q'\<rparr> = con\<lparr>content_queue := q\<rparr> \<and> cq_bytes_in q = cq_bytes_in (content_queue con)
          \<and> in_files F w q up' (s @ data)"
        by (rule exI [of _ ?q']) (use f in blast)
      then show ?thesis by (intro exI [of _ True] exI [of _ "con\<lparr>content_queue := ?q'\<rparr>"] exI [of _ up'] conjI e) (simp only: if_True)
    qed
  qed
qed

lemma stores_in_files:
  assumes "65536 < L"
  shows "stores junk mkstemp reopen (in_files F w) (\<not> (opens mkstemp reopen \<and> F)) L"
  unfolding stores_def
proof (intro conjI allI impI)
  fix con :: read_con and up :: upload and s p :: "byte list" and n
  assume a: "in_files F w (content_queue con) up s" "content_length con = L" "n \<le> length p" "n < 2 ^ 60"
  have e: "store_body junk mkstemp reopen p n con up = store_in_file junk mkstemp reopen (take n p) con up"
    using a(2) assms by (simp add: store_body_def)
  have l: "length (take n p) < 2 ^ 60" using a(4) by simp
  obtain go con' up' where f: "store_in_file junk mkstemp reopen (take n p) con up = Some (go, con', up')"
    "if go then \<exists>q. con' = con\<lparr>content_queue := q\<rparr> \<and> cq_bytes_in q = cq_bytes_in (content_queue con) \<and> in_files F w q up' (s @ take n p)
      else \<not> (opens mkstemp reopen \<and> F) \<and> (\<exists>q. con' = too_large (con\<lparr>content_queue := q\<rparr>) \<and> (\<exists>as us. body_rep q as us))"
    using store_in_file_ok [OF a(1) l, of junk mkstemp reopen] by blast
  show "\<exists>go con' up'. store_body junk mkstemp reopen p n con up = Some (go, con', up') \<and>
      (if go then \<exists>q. con' = con\<lparr>content_queue := q\<rparr> \<and> cq_bytes_in q = cq_bytes_in (content_queue con) \<and> in_files F w q up' (s @ take n p)
       else \<not> (opens mkstemp reopen \<and> F) \<and> (\<exists>q. con' = too_large (con\<lparr>content_queue := q\<rparr>) \<and> (\<exists>as us. body_rep q as us)))"
    unfolding e using f assms by (intro exI [of _ go] exI [of _ con'] exI [of _ up']) (cases go; simp)
next
  fix cq up s b
  assume "in_files F w cq up s"
  then show "in_files F w (cq\<lparr>cq_bytes_in := b\<rparr>) up s" by (auto simp: in_files_def)
qed

section \<open>A body in several packets\<close>

lemma read_state_body:
  assumes q: "unread (read_queue con) ts k" and st: "rc_state con = CON_STATE_READ_POST" "is_readable con" and d: "d \<noteq> []" "length d < 2 ^ 31"
    and inv: "stores junk mkstemp reopen Inv R L" "Inv (content_queue con) up s"
    and L: "content_length con = L" "cq_bytes_in (content_queue con) \<le> L"
  shows "\<exists>con' up' m. connection_handle_read_state junk mkstemp reopen cur_ts (arrives d) con up = Some (0, con', up') \<and>
    m = min (nat (L - cq_bytes_in (content_queue con))) (length (concat (ts @ [d]))) \<and>
    ((\<exists>k'. unread (read_queue con') (consume m (ts @ [d])) k') \<and> Inv (content_queue con') up' (s @ take m (concat (ts @ [d])))
       \<and> content_length con' = L \<and> cq_bytes_in (content_queue con') = cq_bytes_in (content_queue con) + int m
       \<and> rc_state con' = (if cq_bytes_in (content_queue con') = L then CON_STATE_HANDLE_REQUEST else CON_STATE_READ_POST)
     \<or> R \<and> rc_state con' = CON_STATE_HANDLE_REQUEST \<and> http_status con' = 413)"
proof -
  let ?ts = "ts @ [d]"
  obtain as us con2 where q2: "queue_rep (read_queue con2) as us []" "packets ?ts (contents (read_queue con2) as)"
    "rc_state con2 = CON_STATE_READ_POST" "content_queue con2 = content_queue con" "content_length con2 = L"
    and e: "connection_handle_read_state junk mkstemp reopen cur_ts (arrives d) con up =
      do { (con, up) \<leftarrow> read_post junk mkstemp reopen (cq_first (read_queue con2)) con2 up;
           let con = (if cq_bytes_in (content_queue con) = content_length con then con\<lparr>rc_state := CON_STATE_HANDLE_REQUEST\<rparr> else con);
           cq \<leftarrow> chunkqueue_remove_finished_chunks (read_queue con); Some (0, con\<lparr>read_queue := cq\<rparr>, up) }"
    by (rule read_state_reads [OF q st(2) d, of junk mkstemp reopen cur_ts up]) (simp add: st(1) L(1) Let_def split_def)
  define m where "m = min (nat (L - cq_bytes_in (content_queue con))) (length (concat ?ts))"
  have pre: "queue_rep (read_queue con2) ([] @ as) us []" "linked (heap (read_queue con2)) (cq_first (read_queue con2)) as"
    "cq_bytes_in (content_queue con2) \<le> L" "Inv (content_queue con2) up s"
    using q2 inv(2) L(2) by (simp_all add: queue_rep_def)
  obtain con3 up' where r: "read_post junk mkstemp reopen (cq_first (read_queue con2)) con2 up = Some (con3, up')"
    "post_result Inv R con2 [] as us ?ts s con3 up'"
    using read_post_spec [OF inv(1) pre(1,2) q2(2,5) pre(3,4)] by blast
  let ?con = "if cq_bytes_in (content_queue con3) = content_length con3 then con3\<lparr>rc_state := CON_STATE_HANDLE_REQUEST\<rparr> else con3"
  have rep: "queue_rep (read_queue con3) as us []" using r(2) by (simp add: post_result_def)
  obtain cq where cq: "chunkqueue_remove_finished_chunks (read_queue con3) = Some cq"
    "\<And>ts. packets ts (dropWhile is_finished (contents (read_queue con3) as)) \<Longrightarrow> \<exists>k'. unread cq ts k'"
    using remove_rep [OF rep] unfolding unread_def by metis
  have s: "connection_handle_read_state junk mkstemp reopen cur_ts (arrives d) con up = Some (0, ?con\<lparr>read_queue := cq\<rparr>, up')"
    unfolding e r(1) using cq(1) by simp
  have "(\<exists>k'. unread cq (consume m ?ts) k') \<and> Inv (content_queue con3) up' (s @ take m (concat ?ts)) \<and> content_length con3 = L
       \<and> cq_bytes_in (content_queue con3) = cq_bytes_in (content_queue con) + int m \<and> rc_state con3 = CON_STATE_READ_POST
     \<or> R \<and> rc_state con3 = CON_STATE_HANDLE_REQUEST \<and> http_status con3 = 413"
  proof (cases "R \<and> rc_state con3 = CON_STATE_HANDLE_REQUEST \<and> http_status con3 = 413")
    case False
    then have R: "con3 = con2\<lparr>read_queue := read_queue con3, content_queue := content_queue con3\<rparr>"
      "cq_bytes_in (content_queue con3) = cq_bytes_in (content_queue con) + int m"
      "packets (consume m ?ts) (dropWhile is_finished (contents (read_queue con3) as))" "Inv (content_queue con3) up' (s @ take m (concat ?ts))"
    proof -
      let ?x = "con2\<lparr>read_queue := read_queue con3, content_queue := content_queue con3\<rparr>"
      have nt: "\<not> (R \<and> con3 = too_large ?x \<and> X)" for X
        using False too_large_fields [of con3 ?x] by blast
      obtain m' where "packets (consume m' ?ts) (dropWhile is_finished (contents (read_queue con3) as))"
        "m' = min (nat (L - cq_bytes_in (content_queue con))) (length (concat ?ts)) \<and> con3 = ?x
          \<and> cq_bytes_in (content_queue con3) = cq_bytes_in (content_queue con) + int m' \<and> Inv (content_queue con3) up' (s @ take m' (concat ?ts))"
        using r(2) nt unfolding post_result_def q2(4,5) by blast
      then show "con3 = ?x" "cq_bytes_in (content_queue con3) = cq_bytes_in (content_queue con) + int m"
        "packets (consume m ?ts) (dropWhile is_finished (contents (read_queue con3) as))" "Inv (content_queue con3) up' (s @ take m (concat ?ts))"
        unfolding m_def by blast+
    qed
    have "rc_state con3 = rc_state con2 \<and> content_length con3 = content_length con2" by (subst (1 2) R(1)) simp
    then show ?thesis using R(2,4) cq(2) [OF R(3)] q2(3,5) by simp
  qed simp
  then show ?thesis using s by (intro exI [of _ "?con\<lparr>read_queue := cq\<rparr>"] exI [of _ up'] exI [of _ m]) (auto simp: m_def)
qed

text \<open>The bytes \<open>t\<close> of the body have come in: some are stored and the others wait in the read queue.\<close>

definition collecting :: "(chunkqueue \<Rightarrow> upload \<Rightarrow> byte list \<Rightarrow> bool) \<Rightarrow> int \<Rightarrow> byte list \<Rightarrow> read_con \<Rightarrow> upload \<Rightarrow> bool" where
  "collecting Inv L t con up \<longleftrightarrow> (\<exists>s ts k. unread (read_queue con) ts k \<and> Inv (content_queue con) up s \<and> s @ concat ts = t
     \<and> content_length con = L \<and> cq_bytes_in (content_queue con) = int (length s) \<and> int (length s) \<le> L)"

definition refused :: "read_con \<Rightarrow> bool" where
  "refused con \<longleftrightarrow> rc_state con = CON_STATE_HANDLE_REQUEST \<and> http_status con = 413"

lemma collecting_step:
  assumes c: "collecting Inv L t con up" "rc_state con = CON_STATE_READ_POST" and d: "d \<noteq> []" "length d < 2 ^ 31"
    and st: "stores junk mkstemp reopen Inv R L"
  shows "\<exists>con' up'. receive junk mkstemp reopen [d] (con, up) = Some (con', up') \<and>
    (R \<and> refused con' \<or> collecting Inv L (t @ d) con' up' \<and>
       (if int (length (t @ d)) < L then rc_state con' = CON_STATE_READ_POST
        else rc_state con' = CON_STATE_HANDLE_REQUEST \<and> (\<exists>ts k. unread (read_queue con') ts k \<and> concat ts = drop (nat L) (t @ d))
          \<and> Inv (content_queue con') up' (take (nat L) (t @ d)) \<and> cq_bytes_in (content_queue con') = L))"
proof -
  obtain s ts k where x: "unread (read_queue con) ts k" "Inv (content_queue con) up s" "s @ concat ts = t" "content_length con = L"
    "cq_bytes_in (content_queue con) = int (length s)" "int (length s) \<le> L"
    using c(1) by (auto simp: collecting_def)
  let ?con = "con\<lparr>is_readable := True\<rparr>"
  have y: "unread (read_queue ?con) ts k" "rc_state ?con = CON_STATE_READ_POST" "is_readable ?con" "Inv (content_queue ?con) up s"
    "content_length ?con = L" "cq_bytes_in (content_queue ?con) \<le> L" using x c(2) by simp_all
  obtain con' up' m where r: "connection_handle_read_state junk mkstemp reopen 0 (arrives d) ?con up = Some (0, con', up')"
    "m = min (nat (L - cq_bytes_in (content_queue ?con))) (length (concat (ts @ [d])))"
    "(\<exists>k'. unread (read_queue con') (consume m (ts @ [d])) k') \<and> Inv (content_queue con') up' (s @ take m (concat (ts @ [d])))
       \<and> content_length con' = L \<and> cq_bytes_in (content_queue con') = cq_bytes_in (content_queue ?con) + int m
       \<and> rc_state con' = (if cq_bytes_in (content_queue con') = L then CON_STATE_HANDLE_REQUEST else CON_STATE_READ_POST)
     \<or> R \<and> rc_state con' = CON_STATE_HANDLE_REQUEST \<and> http_status con' = 413"
    using read_state_body [OF y(1-3) d st y(4-6), of 0] by blast
  have e: "receive junk mkstemp reopen [d] (con, up) = Some (con', up')" using r(1) c(2) by (simp add: reads_def)
  show ?thesis
  proof (cases "R \<and> refused con'")
    case True
    then show ?thesis using e by blast
  next
    case False
    then obtain k' where z: "unread (read_queue con') (consume m (ts @ [d])) k'" "Inv (content_queue con') up' (s @ take m (concat (ts @ [d])))"
       "content_length con' = L" "cq_bytes_in (content_queue con') = int (length s) + int m"
       "rc_state con' = (if cq_bytes_in (content_queue con') = L then CON_STATE_HANDLE_REQUEST else CON_STATE_READ_POST)"
      using r(3) x(5) by (auto simp: refused_def)
    have td: "t @ d = s @ concat (ts @ [d])" using x(3) by simp
    have m: "m = min (nat L - length s) (length (t @ d) - length s)" unfolding td using r(2) x(5,6) by simp
    have cc: "concat (consume m (ts @ [d])) = drop (length s + m) (t @ d)" unfolding td concat_consume by simp
    have tk: "s @ take m (concat (ts @ [d])) = take (length s + m) (t @ d)" unfolding td by simp
    have ml: "m \<le> length (t @ d) - length s" "length s \<le> length (t @ d)" "int (length s + m) \<le> L" using m td x(6) by auto
    have "collecting Inv L (t @ d) con' up'"
      unfolding collecting_def
    proof (intro exI conjI)
      show "take (length s + m) (t @ d) @ concat (consume m (ts @ [d])) = t @ d" unfolding cc by (rule append_take_drop_id)
      have n: "length (take (length s + m) (t @ d)) = length s + m" using ml(1,2) by simp
      show "cq_bytes_in (content_queue con') = int (length (take (length s + m) (t @ d)))" unfolding n using z(4) by simp
      show "int (length (take (length s + m) (t @ d))) \<le> L" unfolding n by (rule ml(3))
      show "Inv (content_queue con') up' (take (length s + m) (t @ d))" using z(2) unfolding tk .
    qed (rule z)+
    moreover have "rc_state con' = CON_STATE_READ_POST" if "int (length (t @ d)) < L"
    proof -
      have "length s + m = length (t @ d)" using m that ml(2) by simp
      then have "int (length s) + int m \<noteq> L" using that by linarith
      then show ?thesis using z(4,5) by simp
    qed
    moreover have "rc_state con' = CON_STATE_HANDLE_REQUEST \<and> (\<exists>ts k. unread (read_queue con') ts k \<and> concat ts = drop (nat L) (t @ d))
          \<and> Inv (content_queue con') up' (take (nat L) (t @ d)) \<and> cq_bytes_in (content_queue con') = L" if "\<not> int (length (t @ d)) < L"
    proof -
      have l: "length s + m = nat L" "int (length s) + int m = L" using m that ml x(6) by auto
      then show ?thesis using z cc tk by auto
    qed
    ultimately show ?thesis using e by auto
  qed
qed

lemma collecting_waits:
  assumes c: "collecting Inv L t con up" "rc_state con = CON_STATE_READ_POST" and st: "stores junk mkstemp reopen Inv R L"
  shows "packet_sizes ds \<Longrightarrow> int (length (t @ concat ds)) < L \<Longrightarrow> \<exists>con' up'. receive junk mkstemp reopen ds (con, up) = Some (con', up')
    \<and> (R \<and> refused con' \<or> collecting Inv L (t @ concat ds) con' up' \<and> rc_state con' = CON_STATE_READ_POST)"
proof (induction ds rule: rev_induct)
  case Nil
  then show ?case using c by simp
next
  case (snoc d ds)
  have p: "packet_sizes ds" "d \<noteq> []" "length d < 2 ^ 31" "int (length (t @ concat ds)) < L" "int (length ((t @ concat ds) @ d)) < L"
    using snoc.prems by (auto simp: packet_sizes_def)
  obtain con1 up1 where r: "receive junk mkstemp reopen ds (con, up) = Some (con1, up1)"
    "R \<and> refused con1 \<or> collecting Inv L (t @ concat ds) con1 up1 \<and> rc_state con1 = CON_STATE_READ_POST"
    using snoc.IH [OF p(1,4)] by blast
  show ?case
  proof (cases "R \<and> refused con1")
    case True
    then have "\<not> reads con1" by (auto simp: refused_def reads_def)
    then show ?thesis using True r(1) by (simp add: receive_append receive_stops)
  next
    case False
    then have c1: "collecting Inv L (t @ concat ds) con1 up1" "rc_state con1 = CON_STATE_READ_POST" using r(2) by blast+
    have q: "t @ concat (ds @ [d]) = (t @ concat ds) @ d" by simp
    have n: "(int (length ((t @ concat ds) @ d)) < L) = True" using p(5) by simp
    have e: "receive junk mkstemp reopen (ds @ [d]) (con, up) = receive junk mkstemp reopen [d] (con1, up1)"
      unfolding receive_append r(1) by simp
    show ?thesis using collecting_step [OF c1 p(2,3) st] unfolding q e n if_True by blast
  qed
qed

lemma collecting_ends:
  assumes c: "collecting Inv L t con up" "rc_state con = CON_STATE_READ_POST" and st: "stores junk mkstemp reopen Inv R L"
    and p: "packet_sizes (ds @ [d])" and l: "int (length (t @ concat ds)) < L" "L \<le> int (length (t @ concat (ds @ [d])))"
  shows "\<exists>con' up'. receive junk mkstemp reopen (ds @ [d]) (con, up) = Some (con', up') \<and> rc_state con' = CON_STATE_HANDLE_REQUEST
    \<and> (R \<and> refused con' \<or> (\<exists>ts k. unread (read_queue con') ts k \<and> concat ts = drop (nat L) (t @ concat (ds @ [d])))
          \<and> Inv (content_queue con') up' (take (nat L) (t @ concat (ds @ [d]))) \<and> cq_bytes_in (content_queue con') = L)"
proof -
  have pd: "packet_sizes ds" "d \<noteq> []" "length d < 2 ^ 31" using p by (auto simp: packet_sizes_def)
  obtain con1 up1 where r: "receive junk mkstemp reopen ds (con, up) = Some (con1, up1)"
    "R \<and> refused con1 \<or> collecting Inv L (t @ concat ds) con1 up1 \<and> rc_state con1 = CON_STATE_READ_POST"
    using collecting_waits [OF c st pd(1) l(1)] by blast
  show ?thesis
  proof (cases "R \<and> refused con1")
    case True
    then have "\<not> reads con1" by (auto simp: refused_def reads_def)
    then show ?thesis using True r(1) by (auto simp: receive_append receive_stops refused_def)
  next
    case False
    then have c1: "collecting Inv L (t @ concat ds) con1 up1" "rc_state con1 = CON_STATE_READ_POST" using r(2) by blast+
    have q: "t @ concat (ds @ [d]) = (t @ concat ds) @ d" by simp
    have n: "(int (length ((t @ concat ds) @ d)) < L) = False" using l(2) by simp
    have e: "receive junk mkstemp reopen (ds @ [d]) (con, up) = receive junk mkstemp reopen [d] (con1, up1)"
      unfolding receive_append r(1) by simp
    show ?thesis using collecting_step [OF c1 pd(2,3) st] unfolding q e n if_False refused_def by blast
  qed
qed

section \<open>Properties\<close>


definition no_upload :: upload where
  "no_upload = \<lparr>write_results = \<lambda>_. 2 ^ 62, written_to = []\<rparr>"

definition new_connection :: read_con where
  "new_connection = \<lparr>rc_state = CON_STATE_READ, is_readable = False, read_idle_ts = 0, http_status = 0, keep_alive = 1,
     bytes_read = 0, read_queue = chunkqueue_init, content_queue = chunkqueue_init, request = buffer_init, content_length = 0\<rparr>"

lemma new_connection_ok: "unread (read_queue new_connection) [] 0" "reading new_connection"
  by (auto simp: unread_def new_connection_def queue_rep_def chunkqueue_init_def contents_def skipped_def reading_def buffer_init_def buffer_ok_def)


text \<open>The content queue of a request whose body has not begun.\<close>

definition no_body :: "chunkqueue \<Rightarrow> bool" where
  "no_body cq \<longleftrightarrow> (\<exists>us. queue_rep cq [] us []) \<and> tempdirs_ok cq \<and> cq_bytes_in cq = 0"


lemma no_upload_ok: "disk_ok (\<lambda>s. (5, s)) (\<lambda>_. 6) no_upload" "written_to no_upload = []"
  by (simp_all add: disk_ok_def opens_def no_upload_def)

lemma posting_ok: "unread (read_queue (new_connection\<lparr>rc_state := s, content_length := L\<rparr>)) [] 0"
  "no_body (content_queue (new_connection\<lparr>rc_state := s, content_length := L\<rparr>))"
  by (auto simp: unread_def no_body_def tempdirs_ok_def new_connection_def queue_rep_def chunkqueue_init_def contents_def skipped_def)


lemma look_at_missed:
  assumes c: "packet t c" and i: "i \<le> length t" and l: "c_next c = Some l" "h l = Some d" "packet u d" "c_offset d = 0"
    and short: "length u < 4 - (length t - i)"
  shows "look_at h a c i = Some None"
proof -
  obtain r where v: "b_used (rest_of c) = length t + 1" "b_ptr (rest_of c) = Some (t @ 0 # r)" using packet_view [OF c] by metis
  obtain w: "int (b_used (c_mem d)) = c_offset d + int (length u) + 1" by (rule packet_view [OF l(3)])
  have u: "\<not> b_used (c_mem d) > 4 - (length t - i)" using w l(4) short by linarith
  have n: "b_used (rest_of c) - i - 1 = length t - i" "\<not> length t - i \<ge> 4" using v(1) short by simp_all
  have p: "peek (t @ 0 # r) i = Some ((t @ 0 # r) ! i)" using i by (simp add: peek_def)
  show ?thesis
    using v(2) p n u l(1,2) by (cases "(t @ 0 # r) ! i = 13") (simp_all add: look_at_def Let_def del: peek_Some)
qed




end
