(* ===== verification/Network_Write.thy ===== *)
theory Network_Write
  imports Chunk_Queues
begin

text \<open>
  The way of a chunk queue to the network: the portable back end of network\_write.c and the function of network.c
  that calls a back end, drops what has been sent and keeps the traffic limits. The locale
  \<open>network_backend\<close> states what that function relies on: a back end sends a prefix of what is pending and
  advances the chunks by as much. The back end of network\_write.c is shown to be one.

  The system is a parameter: the results of the successive calls of \<open>write\<close> (a negative one is an error, a positive one is
  cut to what was offered), the files by their names, and their sizes as the file information cache has
  them. The branch for systems with \<open>mmap\<close> is modelled.
\<close>

section \<open>The back end of network\_write.c\<close>

record io =
  io_out :: "byte list"
  io_results :: "int list"

text \<open>\<open>write(fd, p, n)\<close>; without a result the connection does not take any more bytes.\<close>

definition sys_write :: "byte list \<Rightarrow> io \<Rightarrow> int \<times> io" where
  "sys_write data io = (case io_results io of
     [] \<Rightarrow> (- 1, io)
   | r # rs \<Rightarrow> (if r < 0 then (- 1, io\<lparr>io_results := rs\<rparr>)
       else (let r = min r (int (length data)) in (r, io\<lparr>io_results := rs, io_out := io_out io @ take (nat r) data\<rparr>))))"

text \<open>The bytes of an area from \<open>offset\<close> on; outside it the access faults.\<close>

definition bytes_from :: "byte list \<Rightarrow> int \<Rightarrow> int \<Rightarrow> byte list option" where
  "bytes_from p offset n = (if 0 \<le> offset \<and> 0 \<le> n \<and> offset + n \<le> int (length p)
     then Some (take (nat n) (drop (nat offset) p)) else None)"

partial_function (option) write_loop ::
    "(byte list \<Rightarrow> byte list option) \<Rightarrow> (byte list \<Rightarrow> int option) \<Rightarrow> nat option \<Rightarrow> int \<Rightarrow> chunkqueue \<Rightarrow> io \<Rightarrow> (int \<times> chunkqueue \<times> io) option" where
  "write_loop files st_size p n cq io = (case p of None \<Rightarrow> Some (n, cq, io) | Some a \<Rightarrow> do {
     c \<leftarrow> heap cq a;
     case c_type c of
       MEM_CHUNK \<Rightarrow>
         if b_used (c_mem c) = 0 then write_loop files st_size (c_next c) (n + 1) cq io
         else do {
           p \<leftarrow> b_ptr (c_mem c);
           data \<leftarrow> bytes_from p (c_offset c) (int (b_used (c_mem c)) - 1 - c_offset c);
           let (r, io) = sys_write data io;
           if r < 0 then Some (- 1, cq, io)
           else do {
             let c = c\<lparr>c_offset := c_offset c + r\<rparr>;
             let cq = (put_chunk a c cq)\<lparr>cq_bytes_out := cq_bytes_out cq + r\<rparr>;
             if c_offset c = int (b_used (c_mem c)) - 1 then write_loop files st_size (c_next c) (n + 1) cq io
             else Some (n, cq, io)
           }
         }
     | FILE_CHUNK \<Rightarrow> do {
         name \<leftarrow> c_string (f_name c);
         case st_size name of None \<Rightarrow> Some (- 1, cq, io) | Some len \<Rightarrow>
           if f_start c + c_offset c > len then Some (- 1, cq, io)
           else (case files name of None \<Rightarrow> Some (- 1, cq, io) | Some body \<Rightarrow> do {
             data \<leftarrow> bytes_from body (f_start c + c_offset c) (f_length c - c_offset c);
             let (r, io) = sys_write data io;
             if r \<le> 0 then Some (- 1, cq, io)
             else do {
               let c = c\<lparr>c_offset := c_offset c + r\<rparr>;
               let cq = (put_chunk a c cq)\<lparr>cq_bytes_out := cq_bytes_out cq + r\<rparr>;
               if c_offset c = f_length c then write_loop files st_size (c_next c) (n + 1) cq io
               else Some (n, cq, io)
             }
           })
       }
     | UNUSED_CHUNK \<Rightarrow> Some (- 1, cq, io)
   })"

definition network_write_chunkqueue_write ::
    "(byte list \<Rightarrow> byte list option) \<Rightarrow> (byte list \<Rightarrow> int option) \<Rightarrow> chunkqueue \<Rightarrow> io \<Rightarrow> (int \<times> chunkqueue \<times> io) option" where
  "network_write_chunkqueue_write files st_size cq io = write_loop files st_size (cq_first cq) 0 cq io"

section \<open>The function of network.c\<close>

text \<open>The fields of the connection and its configuration that the traffic limits read and write; \<open>corks\<close> records
  the calls that hold back and release small packets, \<open>jobs\<close> counts the entries in the list of jobs.\<close>

record traffic =
  global_kbytes_per_second :: int
  kbytes_per_second :: int
  global_bytes_per_second_cnt :: int
  bytes_written :: int
  bytes_written_cur_second :: int
  traffic_limit_reached :: bool
  in_joblist :: bool
  jobs :: nat
  corks :: "bool list"

definition joblist_append :: "traffic \<Rightarrow> traffic" where
  "joblist_append t = (if in_joblist t then t else t\<lparr>jobs := jobs t + 1\<rparr>)"

type_synonym backend = "chunkqueue \<Rightarrow> io \<Rightarrow> (int \<times> chunkqueue \<times> io) option"

definition network_write_chunkqueue ::
    "backend \<Rightarrow> traffic \<Rightarrow> chunkqueue \<Rightarrow> io \<Rightarrow> (int \<times> traffic \<times> chunkqueue \<times> io) option" where
  "network_write_chunkqueue backend t cq io =
     (if global_kbytes_per_second t \<noteq> 0 \<and> global_bytes_per_second_cnt t > global_kbytes_per_second t * 1024
      then Some (1, joblist_append (t\<lparr>traffic_limit_reached := True\<rparr>), cq, io)
      else do {
        let written = cq_bytes_out cq;
        corked \<leftarrow> (case cq_first cq of None \<Rightarrow> Some False | Some a \<Rightarrow> do { c \<leftarrow> heap cq a; Some (c_next c \<noteq> None) });
        let t = (if corked then t\<lparr>corks := corks t @ [True]\<rparr> else t);
        (ret, cq, io) \<leftarrow> backend cq io;
        (ret, cq) \<leftarrow> (if ret \<ge> 0 then do {
            cq \<leftarrow> chunkqueue_remove_finished_chunks cq;
            Some (if chunkqueue_is_empty cq \<noteq> 0 then 0 else 1, cq)
          } else Some (ret, cq));
        let t = (if corked then t\<lparr>corks := corks t @ [False]\<rparr> else t);
        let written = cq_bytes_out cq - written;
        let t = t\<lparr>bytes_written := bytes_written t + written, bytes_written_cur_second := bytes_written_cur_second t + written,
                  global_bytes_per_second_cnt := global_bytes_per_second_cnt t + written\<rparr>;
        let t = (if kbytes_per_second t \<noteq> 0 \<and> bytes_written_cur_second t > kbytes_per_second t * 1024
                 then joblist_append (t\<lparr>traffic_limit_reached := True\<rparr>) else t);
        Some (ret, t, cq, io)
      })"

section \<open>What a back end has to do\<close>

text \<open>The bytes behind the cells of a stream, and a chunk whose file is there.\<close>

fun cell_byte :: "(byte list \<Rightarrow> byte list option) \<Rightarrow> cell \<Rightarrow> byte" where
  "cell_byte files (Byte b) = b"
| "cell_byte files (At name pos) = the (files name) ! nat pos"

definition pending :: "(byte list \<Rightarrow> byte list option) \<Rightarrow> chunk list \<Rightarrow> byte list" where
  "pending files cs = List.map (cell_byte files) (stream cs)"

definition servable :: "(byte list \<Rightarrow> byte list option) \<Rightarrow> (byte list \<Rightarrow> int option) \<Rightarrow> chunk \<Rightarrow> bool" where
  "servable files st_size c \<longleftrightarrow> (c_type c = FILE_CHUNK \<longrightarrow>
     (let name = text_of (f_name c) in b_used (f_name c) \<noteq> 0 \<and> 0 \<notin> set name \<and> 0 \<le> f_start c \<and>
        (\<exists>body. files name = Some body \<and> st_size name = Some (int (length body))
           \<and> f_start c + f_length c \<le> int (length body))))"

definition outstanding :: "(byte list \<Rightarrow> byte list option) \<Rightarrow> (byte list \<Rightarrow> int option) \<Rightarrow> chunkqueue \<Rightarrow> byte list \<Rightarrow> bool" where
  "outstanding files st_size cq bs \<longleftrightarrow> (\<exists>cs. holds cq cs \<and> list_all (servable files st_size) cs \<and> bs = pending files cs)"

locale network_backend =
  fixes backend :: "chunkqueue \<Rightarrow> io \<Rightarrow> (int \<times> chunkqueue \<times> io) option"
    and files :: "byte list \<Rightarrow> byte list option"
    and st_size :: "byte list \<Rightarrow> int option"
  assumes sends: "outstanding files st_size cq bs \<Longrightarrow> \<exists>ret cq' io' sent rest. backend cq io = Some (ret, cq', io')
    \<and> outstanding files st_size cq' rest \<and> bs = sent @ rest \<and> io_out io' = io_out io @ sent
    \<and> cq_bytes_out cq' = cq_bytes_out cq + int (length sent)"
begin

text \<open>The caller passes this on and counts the bytes; when it says that the queue is empty, everything has been
  sent.\<close>

lemma write_chunkqueue:
  assumes o: "outstanding files st_size cq bs"
  shows "\<exists>ret t' cq' io' sent rest. network_write_chunkqueue backend t cq io = Some (ret, t', cq', io')
    \<and> outstanding files st_size cq' rest \<and> bs = sent @ rest \<and> io_out io' = io_out io @ sent
    \<and> bytes_written t' = bytes_written t + int (length sent)
    \<and> global_bytes_per_second_cnt t' = global_bytes_per_second_cnt t + int (length sent)
    \<and> (ret = 0 \<longrightarrow> rest = [])"
proof (cases "global_kbytes_per_second t \<noteq> 0 \<and> global_bytes_per_second_cnt t > global_kbytes_per_second t * 1024")
  case True
  then show ?thesis using o by (auto simp: network_write_chunkqueue_def joblist_append_def)
next
  case False
  obtain cs where cs: "holds cq cs" using o by (auto simp: outstanding_def)
  then obtain as us where r: "queue_rep cq as us []" by (auto simp: holds_def)
  have "\<exists>b. (case cq_first cq of None \<Rightarrow> Some False | Some a \<Rightarrow> do { c \<leftarrow> heap cq a; Some (c_next c \<noteq> None) }) = Some b"
    using r by (cases as) (auto simp: queue_rep_def split: option.splits)
  then obtain corked where corked:
    "(case cq_first cq of None \<Rightarrow> Some False | Some a \<Rightarrow> do { c \<leftarrow> heap cq a; Some (c_next c \<noteq> None) }) = Some corked" ..
  obtain ret q io' sent rest where b: "backend cq io = Some (ret, q, io')" "outstanding files st_size q rest"
    "bs = sent @ rest" "io_out io' = io_out io @ sent" "cq_bytes_out q = cq_bytes_out cq + int (length sent)"
    using sends [OF o] by blast
  obtain ds where ds: "holds q ds" "list_all (servable files st_size) ds" "rest = pending files ds"
    using b(2) by (auto simp: outstanding_def)
  obtain ret' q' where q': "(if ret \<ge> 0 then do { cq \<leftarrow> chunkqueue_remove_finished_chunks q;
            Some (if chunkqueue_is_empty cq \<noteq> 0 then 0 else 1, cq) } else Some (ret, q)) = Some (ret', q')"
    "outstanding files st_size q' rest" "cq_bytes_out q' = cq_bytes_out q" "ret' = 0 \<longrightarrow> rest = []"
  proof (cases "ret \<ge> 0")
    case True
    obtain p where p: "chunkqueue_remove_finished_chunks q = Some p" "holds p (dropWhile is_finished ds)" "cq_bytes_out p = cq_bytes_out q"
      using remove_ok [OF ds(1)] by metis
    have "list_all in_range ds" using ds(1) by (auto simp: holds_def)
    then have s: "pending files (dropWhile is_finished ds) = rest" using ds(3) by (simp add: pending_def stream_remove)
    have "list_all (servable files st_size) (dropWhile is_finished ds)"
      using ds(2) by (auto simp: list_all_iff dest: set_dropWhileD)
    then have "outstanding files st_size p rest" using p(2) s by (auto simp: outstanding_def)
    moreover have "chunkqueue_is_empty p \<noteq> 0 \<longrightarrow> rest = []"
    proof
      assume "chunkqueue_is_empty p \<noteq> 0"
      then have "dropWhile is_finished ds = []" using is_empty_iff [OF p(2)] by argo
      then show "rest = []" unfolding s [symmetric] by (simp only: pending_def stream_simps list.map)
    qed
    ultimately show thesis using that [of "if chunkqueue_is_empty p \<noteq> 0 then 0 else 1" p] True p(1,3) by auto
  next
    case neg: False
    then show thesis using that [of ret q] b(2) by simp
  qed
  show ?thesis
    unfolding network_write_chunkqueue_def
    using False corked b q'
    by (auto simp: Let_def joblist_append_def)
qed

end

section \<open>The portable back end is one\<close>

lemma sys_write_ok:
  assumes "sys_write data io = (r, io')"
  shows "io_out io' = io_out io @ take (nat r) data" and "r \<le> int (length data)" and "0 \<le> r \<or> r = - 1"
  using assms by (auto simp: sys_write_def Let_def split: list.splits if_splits)

lemma upto_drop: "drop n [a .. b] = [a + int n .. b]"
proof (induction n arbitrary: a)
  case (Suc n)
  show ?case
  proof (cases "a \<le> b")
    case True
    then show ?thesis using Suc [of "a + 1"] by (simp add: upto_rec1 ac_simps)
  next
    case False
    then show ?thesis by simp
  qed
qed simp

lemma map_nth_upto:
  assumes "0 \<le> a" and "b \<le> int (length xs)"
  shows "List.map (\<lambda>i. xs ! nat i) [a .. b - 1] = take (nat (b - a)) (drop (nat a) xs)"
proof (rule nth_equalityI)
  show "length (List.map (\<lambda>i. xs ! nat i) [a .. b - 1]) = length (take (nat (b - a)) (drop (nat a) xs))"
    using assms by simp
next
  fix i assume "i < length (List.map (\<lambda>i. xs ! nat i) [a .. b - 1])"
  then have i: "i < nat (b - a)" by simp
  then have "[a .. b - 1] ! i = a + int i" by (simp add: nth_upto)
  moreover have "nat (a + int i) = nat a + i" using assms(1) by simp
  moreover have "nat a + i < length xs" using i assms by linarith
  ultimately show "List.map (\<lambda>i. xs ! nat i) [a .. b - 1] ! i = take (nat (b - a)) (drop (nat a) xs) ! i" using i by simp
qed

definition chunk_bytes :: "(byte list \<Rightarrow> byte list option) \<Rightarrow> chunk \<Rightarrow> byte list" where
  "chunk_bytes files c = List.map (cell_byte files) (cells c)"

lemma pending_simps [simp]: "pending files [] = []" "pending files (c # cs) = chunk_bytes files c @ pending files cs"
  "pending files (cs @ ds) = pending files cs @ pending files ds"
  by (simp_all add: pending_def chunk_bytes_def)

lemma chunk_bytes_unlinked [simp]: "chunk_bytes files (unlinked c) = chunk_bytes files c"
  by (simp add: chunk_bytes_def)

lemma servable_unlinked [simp]: "servable files st (unlinked c) = servable files st c"
  by (simp add: servable_def)

lemma mem_data:
  assumes t: "c_type c = MEM_CHUNK" and u: "b_used (c_mem c) \<noteq> 0" and ok: "used_ok c" "in_range c"
  obtains p where "b_ptr (c_mem c) = Some p"
    "bytes_from p (c_offset c) (int (b_used (c_mem c)) - 1 - c_offset c) = Some (chunk_bytes files c)"
    "int (length (chunk_bytes files c)) = int (b_used (c_mem c)) - 1 - c_offset c"
proof -
  obtain p rest where p: "b_ptr (c_mem c) = Some p" "p = text_of (c_mem c) @ 0 # rest" "b_used (c_mem c) = length (text_of (c_mem c)) + 1"
    using string_area [of "c_mem c"] ok(1) u by (metis used_ok_def)
  let ?t = "text_of (c_mem c)"
  have o: "0 \<le> c_offset c" "c_offset c \<le> int (length ?t)" using ok(2) t p(3) by (simp_all add: in_range_def)
  have b: "chunk_bytes files c = drop (nat (c_offset c)) ?t" using t by (simp add: chunk_bytes_def cells_def comp_def)
  have "nat (int (b_used (c_mem c)) - 1 - c_offset c) = length ?t - nat (c_offset c)" using o p(3) by linarith
  moreover have "drop (nat (c_offset c)) p = drop (nat (c_offset c)) ?t @ 0 # rest" using o p(2) by simp
  ultimately have "take (nat (int (b_used (c_mem c)) - 1 - c_offset c)) (drop (nat (c_offset c)) p) = drop (nat (c_offset c)) ?t"
    by simp
  moreover have "c_offset c + (int (b_used (c_mem c)) - 1 - c_offset c) \<le> int (length p)" using p(2,3) by simp
  ultimately have "bytes_from p (c_offset c) (int (b_used (c_mem c)) - 1 - c_offset c) = Some (chunk_bytes files c)"
    using o p(3) b by (simp add: bytes_from_def)
  then show thesis using that [OF p(1)] b o p(3) by simp
qed

lemma file_data:
  assumes t: "c_type c = FILE_CHUNK" and ok: "used_ok c" "in_range c" and s: "servable files st_size c"
  obtains name body where "c_string (f_name c) = Some name" "st_size name = Some (int (length body))" "files name = Some body"
    "f_start c + c_offset c \<le> int (length body)"
    "bytes_from body (f_start c + c_offset c) (f_length c - c_offset c) = Some (chunk_bytes files c)"
    "int (length (chunk_bytes files c)) = f_length c - c_offset c"
proof -
  let ?n = "text_of (f_name c)"
  obtain body where n: "b_used (f_name c) \<noteq> 0" "0 \<notin> set ?n" "0 \<le> f_start c" "files ?n = Some body"
    "st_size ?n = Some (int (length body))" "f_start c + f_length c \<le> int (length body)"
    using s t by (auto simp: servable_def Let_def)
  have "takeWhile (\<lambda>x. x \<noteq> 0) ?n = ?n" using n(2) by (auto simp: takeWhile_eq_all_conv)
  then have cs: "c_string (f_name c) = Some ?n" using c_string_text [of "f_name c"] ok(1) n(1) by (simp add: used_ok_def)
  have o: "0 \<le> c_offset c" "c_offset c \<le> f_length c" using ok(2) t by (simp_all add: in_range_def)
  have b: "chunk_bytes files c = take (nat (f_length c - c_offset c)) (drop (nat (f_start c + c_offset c)) body)"
    using map_nth_upto [of "f_start c + c_offset c" "f_start c + f_length c" body] o n t
    by (simp add: chunk_bytes_def cells_def comp_def)
  have f: "bytes_from body (f_start c + c_offset c) (f_length c - c_offset c) = Some (chunk_bytes files c)"
    using o n b by (simp add: bytes_from_def)
  have "int (length (chunk_bytes files c)) = f_length c - c_offset c" using b o n by simp
  then show thesis using that [OF cs n(5,4) _ f] o n(6) by simp
qed

lemma cells_advance:
  assumes "in_range c" and "used_ok c" and "0 \<le> r" and "r \<le> int (length (cells c))"
  shows "cells (c\<lparr>c_offset := c_offset c + r\<rparr>) = drop (nat r) (cells c)" and "in_range (c\<lparr>c_offset := c_offset c + r\<rparr>)"
proof -
  have o: "0 \<le> c_offset c" using assms(1) by (simp add: in_range_def)
  have d: "drop (nat r) (drop (nat (c_offset c)) xs) = drop (nat (c_offset c + r)) xs" for xs :: "byte list"
    using o assms(3) by (simp add: nat_add_distrib add.commute)
  show "cells (c\<lparr>c_offset := c_offset c + r\<rparr>) = drop (nat r) (cells c)"
    using assms(3) d o by (simp add: cells_def drop_map upto_drop add.assoc split: chunk_type.split)
  have "int (length (cells c)) = chunk_length c - chunk_sent c" by (rule cells_count [OF assms(2,1)])
  then show "in_range (c\<lparr>c_offset := c_offset c + r\<rparr>)"
    using assms o by (auto simp: in_range_def chunk_length_def chunk_sent_def split: chunk_type.splits if_splits)
qed

text \<open>A chunk advances by what was sent from it.\<close>

lemma advance_ok:
  assumes rep: "queue_rep cq (pre @ a # bs) us []" and c: "heap cq a = Some c" "in_range c"
    and r: "0 \<le> r" "r \<le> int (length (chunk_bytes files c))"
  defines "d \<equiv> c\<lparr>c_offset := c_offset c + r\<rparr>"
  defines "q \<equiv> (put_chunk a d cq)\<lparr>cq_bytes_out := cq_bytes_out cq + r\<rparr>"
  shows "queue_rep q (pre @ a # bs) us []" and "contents q pre = contents cq pre" and "contents q bs = contents cq bs"
    and "heap q a = Some d" and "in_range d" and "chunk_bytes files d = drop (nat r) (chunk_bytes files c)"
    and "servable files st_size d = servable files st_size c"
proof -
  have u: "used_ok c" using rep c(1) by (simp add: queue_rep_def)
  have d: "used_ok d" "c_next d = c_next c" using u by (simp_all add: d_def used_ok_def)
  have dist: "a \<notin> set pre" "a \<notin> set bs" "a \<notin> set us" using rep by (auto simp: queue_rep_def)
  have l: "linked ((heap cq)(a := Some d)) p as = linked (heap cq) p as" for p as
    using c(1) d(2) by (rule linked_next)
  show "queue_rep q (pre @ a # bs) us []" using rep c(1) d l dist by (auto simp: queue_rep_def q_def)
  show "contents q pre = contents cq pre" "contents q bs = contents cq bs"
    using dist by (auto simp: contents_def q_def)
  show "heap q a = Some d" by (simp add: q_def)
  have r': "r \<le> int (length (cells c))" using r(2) by (simp add: chunk_bytes_def)
  show "in_range d" unfolding d_def by (rule cells_advance(2) [OF c(2) u r(1) r'])
  show "chunk_bytes files d = drop (nat r) (chunk_bytes files c)"
    unfolding d_def chunk_bytes_def cells_advance(1) [OF c(2) u r(1) r'] by (rule drop_map [symmetric])
  show "servable files st_size d = servable files st_size c" by (simp add: servable_def d_def)
qed

text \<open>What the loop achieves from a chunk on.\<close>

definition sends_from ::
    "(byte list \<Rightarrow> byte list option) \<Rightarrow> (byte list \<Rightarrow> int option) \<Rightarrow> nat list \<Rightarrow> nat list \<Rightarrow> nat list \<Rightarrow> chunkqueue \<Rightarrow> io
     \<Rightarrow> int \<times> chunkqueue \<times> io \<Rightarrow> bool" where
  "sends_from files st_size pre bs us cq io x \<longleftrightarrow> (case x of (ret, cq', io') \<Rightarrow>
     queue_rep cq' (pre @ bs) us [] \<and> contents cq' pre = contents cq pre
     \<and> list_all in_range (contents cq' bs) \<and> list_all (servable files st_size) (contents cq' bs)
     \<and> (\<exists>sent. pending files (contents cq bs) = sent @ pending files (contents cq' bs) \<and> io_out io' = io_out io @ sent
          \<and> cq_bytes_out cq' = cq_bytes_out cq + int (length sent)))"

lemma sends_nothing:
  "queue_rep cq (pre @ bs) us [] \<Longrightarrow> list_all in_range (contents cq bs) \<Longrightarrow> list_all (servable files st_size) (contents cq bs)
   \<Longrightarrow> io_out io' = io_out io \<Longrightarrow> sends_from files st_size pre bs us cq io (ret, cq, io')"
  by (simp add: sends_from_def)

text \<open>One chunk is advanced, and then the rest is sent or not.\<close>

lemma sends_one:
  assumes rep: "queue_rep cq (pre @ a # bs) us []" and c: "heap cq a = Some c"
    and ok: "list_all in_range (contents cq (a # bs))" "list_all (servable files st_size) (contents cq (a # bs))"
    and r: "0 \<le> r" "r \<le> int (length (chunk_bytes files c))" and out: "io_out io1 = io_out io @ take (nat r) (chunk_bytes files c)"
  defines "q \<equiv> (put_chunk a (c\<lparr>c_offset := c_offset c + r\<rparr>) cq)\<lparr>cq_bytes_out := cq_bytes_out cq + r\<rparr>"
  shows "sends_from files st_size pre (a # bs) us cq io (ret, q, io1)"
    and "r = int (length (chunk_bytes files c)) \<Longrightarrow> sends_from files st_size (pre @ [a]) bs us q io1 x
      \<Longrightarrow> sends_from files st_size pre (a # bs) us cq io x"
    and "list_all in_range (contents q bs)" and "list_all (servable files st_size) (contents q bs)"
    and "queue_rep q ((pre @ [a]) @ bs) us []"
proof -
  let ?d = "c\<lparr>c_offset := c_offset c + r\<rparr>"
  have i: "in_range c" "servable files st_size c" "list_all in_range (contents cq bs)" "list_all (servable files st_size) (contents cq bs)"
    using ok contents_Cons [OF c, of bs] by simp_all
  note a = advance_ok [OF rep c i(1) r, folded q_def]
  have k: "contents q (a # bs) = unlinked ?d # contents cq bs" using contents_Cons [OF a(4)] a(3) by simp
  have k0: "contents cq (a # bs) = unlinked c # contents cq bs" by (rule contents_Cons [OF c])
  have s: "servable files st_size ?d" using a(7) i(2) by blast
  have b: "cq_bytes_out q = cq_bytes_out cq + r" by (simp add: q_def)
  have l: "int (length (take (nat r) (chunk_bytes files c))) = r" using r by simp
  show "sends_from files st_size pre (a # bs) us cq io (ret, q, io1)"
    unfolding sends_from_def prod.case k k0
    using a(1,2,5,6) i s out b l
    by (simp add: exI [of _ "take (nat r) (chunk_bytes files c)"])
  show "list_all in_range (contents q bs)" "list_all (servable files st_size) (contents q bs)" using a(3) i by simp_all
  show "queue_rep q ((pre @ [a]) @ bs) us []" using a(1) by simp
  assume all: "r = int (length (chunk_bytes files c))" and rest: "sends_from files st_size (pre @ [a]) bs us q io1 x"
  obtain ret' q' io' where x: "x = (ret', q', io')" by (cases x)
  obtain sent where p: "queue_rep q' ((pre @ [a]) @ bs) us []" "contents q' (pre @ [a]) = contents q (pre @ [a])"
    "list_all in_range (contents q' bs)" "list_all (servable files st_size) (contents q' bs)"
    "pending files (contents q bs) = sent @ pending files (contents q' bs)" "io_out io' = io_out io1 @ sent"
    "cq_bytes_out q' = cq_bytes_out q + int (length sent)"
    using rest unfolding sends_from_def x prod.case by blast
  have p2: "contents q' pre = contents cq pre" "contents q' [a] = [unlinked ?d]"
    using p(2) a(2) k unfolding contents_snoc by (simp_all add: contents_def)
  have kq: "contents q' (a # bs) = unlinked ?d # contents q' bs" using p2(2) by (simp add: contents_def)
  have e: "chunk_bytes files ?d = []" using a(6) all by simp
  show "sends_from files st_size pre (a # bs) us cq io x"
    unfolding sends_from_def x prod.case kq k0
    using p a(3,5) s e p2(1) all out b
    by (simp add: exI [of _ "chunk_bytes files c @ sent"])
qed

lemma write_loop_ok:
  assumes "queue_rep cq (pre @ bs) us []" and "linked (heap cq) p bs"
    and "list_all in_range (contents cq bs)" and "list_all (servable files st_size) (contents cq bs)"
  shows "\<exists>x. write_loop files st_size p n cq io = Some x \<and> sends_from files st_size pre bs us cq io x"
  using assms
proof (induction bs arbitrary: pre p n cq io)
  case Nil
  then show ?case by (simp add: write_loop.simps [of _ _ None] sends_from_def contents_def)
next
  case (Cons a bs)
  note rep = Cons.prems(1) and ok = Cons.prems(3,4)
  obtain c where c: "p = Some a" "heap cq a = Some c" "linked (heap cq) (c_next c) bs"
    using Cons.prems(2) by (auto split: option.splits)
  have u: "used_ok c" using rep c(2) by (simp add: queue_rep_def)
  have i: "in_range c" "servable files st_size c" using ok contents_Cons [OF c(2), of bs] by simp_all
  note step = sends_one [OF rep c(2) ok]
  have next_chunk: "linked ((heap cq)(a := Some (c\<lparr>c_offset := o'\<rparr>))) (c_next c) bs" for o'
    using linked_next [of "heap cq" a c "c\<lparr>c_offset := o'\<rparr>" "c_next c" bs] c(2,3) by simp
  have goes_on: "\<exists>x. write_loop files st_size (c_next c) m
        ((put_chunk a (c\<lparr>c_offset := c_offset c + r\<rparr>) cq)\<lparr>cq_bytes_out := cq_bytes_out cq + r\<rparr>) io1 = Some x
      \<and> sends_from files st_size pre (a # bs) us cq io x"
    if r: "r = int (length (chunk_bytes files c))" "io_out io1 = io_out io @ take (nat r) (chunk_bytes files c)" for r m io1
  proof -
    have r0: "0 \<le> r" "r \<le> int (length (chunk_bytes files c))" using r(1) by simp_all
    let ?q = "(put_chunk a (c\<lparr>c_offset := c_offset c + r\<rparr>) cq)\<lparr>cq_bytes_out := cq_bytes_out cq + r\<rparr>"
    have "linked (heap ?q) (c_next c) bs" using next_chunk by simp
    from Cons.IH [OF step(5) [OF r0 r(2)] this step(3) [OF r0 r(2)] step(4) [OF r0 r(2)], of m io1]
    show ?thesis using step(2) [OF r0 r(2) r(1)] by blast
  qed
  show ?case
  proof (cases "c_type c")
    case UNUSED_CHUNK
    then show ?thesis using i(1) by (simp add: in_range_def)
  next
    case MEM_CHUNK
    show ?thesis
    proof (cases "b_used (c_mem c) = 0")
      case True
      then have "c_offset c = 0" using i(1) MEM_CHUNK by (simp add: in_range_def)
      moreover have "chunk_bytes files c = []"
        using MEM_CHUNK True length_text_le [of "c_mem c"] by (simp add: chunk_bytes_def cells_def)
      moreover have "(put_chunk a (c\<lparr>c_offset := 0\<rparr>) cq)\<lparr>cq_bytes_out := cq_bytes_out cq\<rparr> = cq"
        if "c_offset c = 0" using that c(2) by (simp add: put_chunk_def fun_upd_idem)
      ultimately show ?thesis using goes_on [of 0 io "n + 1"] MEM_CHUNK True c(1,2)
        by (simp add: write_loop.simps [of _ _ "Some a"])
    next
      case False
      obtain q where q: "b_ptr (c_mem c) = Some q"
        "bytes_from q (c_offset c) (int (b_used (c_mem c)) - 1 - c_offset c) = Some (chunk_bytes files c)"
        "int (length (chunk_bytes files c)) = int (b_used (c_mem c)) - 1 - c_offset c"
        using mem_data [OF MEM_CHUNK False u i(1), of files] by blast
      obtain r io1 where w: "sys_write (chunk_bytes files c) io = (r, io1)" by (cases "sys_write (chunk_bytes files c) io")
      note w' = sys_write_ok [OF w]
      show ?thesis
      proof (cases "r < 0")
        case True
        have o: "io_out io1 = io_out io" using w'(1) True by simp
        have "write_loop files st_size p n cq io = Some (- 1, cq, io1)"
          using MEM_CHUNK False c(1,2) q w True by (simp add: write_loop.simps [of _ _ "Some a"])
        then show ?thesis using sends_nothing [OF rep ok o] by blast
      next
        case pos: False
        let ?q = "(put_chunk a (c\<lparr>c_offset := c_offset c + r\<rparr>) cq)\<lparr>cq_bytes_out := cq_bytes_out cq + r\<rparr>"
        have e: "write_loop files st_size p n cq io = (if c_offset c + r = int (b_used (c_mem c)) - 1
            then write_loop files st_size (c_next c) (n + 1) ?q io1 else Some (n, ?q, io1))"
          using MEM_CHUNK False c(1,2) q w pos by (simp add: write_loop.simps [of _ _ "Some a"] Let_def)
        have r0: "0 \<le> r" using pos by simp
        show ?thesis
        proof (cases "c_offset c + r = int (b_used (c_mem c)) - 1")
          case True
          then have "r = int (length (chunk_bytes files c))" using q(3) by simp
          from goes_on [OF this w'(1), of "n + 1"] show ?thesis unfolding e if_P [OF True] .
        next
          case more: False
          from step(1) [OF r0 w'(2,1), of n] show ?thesis unfolding e if_not_P [OF more] by blast
        qed
      qed
    qed
  next
    case FILE_CHUNK
    obtain name body where f: "c_string (f_name c) = Some name" "st_size name = Some (int (length body))" "files name = Some body"
      "f_start c + c_offset c \<le> int (length body)"
      "bytes_from body (f_start c + c_offset c) (f_length c - c_offset c) = Some (chunk_bytes files c)"
      "int (length (chunk_bytes files c)) = f_length c - c_offset c"
      using file_data [OF FILE_CHUNK u i] by blast
    obtain r io1 where w: "sys_write (chunk_bytes files c) io = (r, io1)" by (cases "sys_write (chunk_bytes files c) io")
    note w' = sys_write_ok [OF w]
    show ?thesis
    proof (cases "r \<le> 0")
      case True
      have o: "io_out io1 = io_out io" using w'(1) True by simp
      have "write_loop files st_size p n cq io = Some (- 1, cq, io1)"
        using FILE_CHUNK c(1,2) f w True by (simp add: write_loop.simps [of _ _ "Some a"])
      then show ?thesis using sends_nothing [OF rep ok o] by blast
    next
      case pos: False
      let ?q = "(put_chunk a (c\<lparr>c_offset := c_offset c + r\<rparr>) cq)\<lparr>cq_bytes_out := cq_bytes_out cq + r\<rparr>"
      have e: "write_loop files st_size p n cq io = (if c_offset c + r = f_length c
          then write_loop files st_size (c_next c) (n + 1) ?q io1 else Some (n, ?q, io1))"
        using FILE_CHUNK c(1,2) f w pos by (simp add: write_loop.simps [of _ _ "Some a"] Let_def)
      have r0: "0 \<le> r" using pos by simp
      show ?thesis
      proof (cases "c_offset c + r = f_length c")
        case True
        then have "r = int (length (chunk_bytes files c))" using f(6) by simp
        from goes_on [OF this w'(1), of "n + 1"] show ?thesis unfolding e if_P [OF True] .
      next
        case more: False
        from step(1) [OF r0 w'(2,1), of n] show ?thesis unfolding e if_not_P [OF more] by blast
      qed
    qed
  qed
qed

interpretation portable: network_backend "network_write_chunkqueue_write files st_size" files st_size for files st_size
proof
  fix cq bs io
  assume "outstanding files st_size cq bs"
  then obtain as us where r: "queue_rep cq as us []" "list_all in_range (contents cq as)"
    "list_all (servable files st_size) (contents cq as)" "bs = pending files (contents cq as)"
    by (auto simp: outstanding_def holds_def)
  then have "linked (heap cq) (cq_first cq) as" by (simp add: queue_rep_def)
  then have "\<exists>x. write_loop files st_size (cq_first cq) 0 cq io = Some x \<and> sends_from files st_size [] as us cq io x"
    by (intro write_loop_ok) (use r in simp_all)
  then obtain x where
    x: "write_loop files st_size (cq_first cq) 0 cq io = Some x" "sends_from files st_size [] as us cq io x" by blast
  then show "\<exists>ret cq' io' sent rest. network_write_chunkqueue_write files st_size cq io = Some (ret, cq', io')
      \<and> outstanding files st_size cq' rest \<and> bs = sent @ rest \<and> io_out io' = io_out io @ sent
      \<and> cq_bytes_out cq' = cq_bytes_out cq + int (length sent)"
  proof -
    obtain ret q io' where p: "x = (ret, q, io')" by (cases x)
    obtain sent where s: "queue_rep q as us []" "list_all in_range (contents q as)" "list_all (servable files st_size) (contents q as)"
      "pending files (contents cq as) = sent @ pending files (contents q as)" "io_out io' = io_out io @ sent"
      "cq_bytes_out q = cq_bytes_out cq + int (length sent)"
      using x(2) unfolding p sends_from_def by auto
    have "outstanding files st_size q (pending files (contents q as))"
      unfolding outstanding_def holds_def using s(1-3) by blast
    then show ?thesis using x(1) s(4-6) r(4) p unfolding network_write_chunkqueue_write_def by blast
  qed
qed

section \<open>Appending and sending\<close>

lemma outstanding_snoc:
  assumes "holds cq' (cs @ [c])" and "list_all (servable files st_size) cs" and "servable files st_size c"
    and "chunk_bytes files c = t" and "bs = pending files cs"
  shows "outstanding files st_size cq' (bs @ t)"
  unfolding outstanding_def using assms by (intro exI [of _ "cs @ [c]"]) simp

lemma mem_chunk_sends: "mem_chunk t c \<Longrightarrow> servable files st_size c \<and> chunk_bytes files c = t"
  by (simp add: mem_chunk_def servable_def chunk_bytes_def cells_def comp_def)

text \<open>What the modules of the server do with the queue of a connection, and when the socket can be written.\<close>

datatype action = Send_mem "byte list" | Send_buffer buffer | Send_file buffer int int | Writable

fun act :: "(nat \<Rightarrow> byte) \<Rightarrow> backend \<Rightarrow> action \<Rightarrow> traffic \<times> chunkqueue \<times> io \<Rightarrow> (traffic \<times> chunkqueue \<times> io) option" where
  "act junk backend (Send_mem t) (tr, cq, io) = do { cq \<leftarrow> chunkqueue_append_mem junk cq (t @ [0]) (length t + 1); Some (tr, cq, io) }"
| "act junk backend (Send_buffer b) (tr, cq, io) = do { cq \<leftarrow> chunkqueue_append_buffer junk cq b; Some (tr, cq, io) }"
| "act junk backend (Send_file fn start len) (tr, cq, io) = do { cq \<leftarrow> chunkqueue_append_file junk cq fn start len; Some (tr, cq, io) }"
| "act junk backend Writable (tr, cq, io) = do { (_, tr, cq, io) \<leftarrow> network_write_chunkqueue backend tr cq io; Some (tr, cq, io) }"

fun run_actions :: "(nat \<Rightarrow> byte) \<Rightarrow> backend \<Rightarrow> action list \<Rightarrow> traffic \<times> chunkqueue \<times> io \<Rightarrow> (traffic \<times> chunkqueue \<times> io) option" where
  "run_actions junk backend [] s = Some s"
| "run_actions junk backend (a # as) s = do { s \<leftarrow> act junk backend a s; run_actions junk backend as s }"

fun appended :: "(byte list \<Rightarrow> byte list option) \<Rightarrow> action \<Rightarrow> byte list" where
  "appended files (Send_mem t) = t"
| "appended files (Send_buffer b) = text_of b"
| "appended files (Send_file fn start len) = take (nat len) (drop (nat start) (the (files (text_of fn))))"
| "appended files Writable = []"

fun action_ok :: "(byte list \<Rightarrow> byte list option) \<Rightarrow> (byte list \<Rightarrow> int option) \<Rightarrow> action \<Rightarrow> bool" where
  "action_ok files st_size (Send_mem t) \<longleftrightarrow> length t + 65 < 2 ^ 64"
| "action_ok files st_size (Send_buffer b) \<longleftrightarrow> small 60 b"
| "action_ok files st_size (Send_file fn start len) \<longleftrightarrow> small 60 fn \<and> text_of fn \<noteq> [] \<and> 0 \<notin> set (text_of fn) \<and> 0 \<le> start \<and> 0 \<le> len
     \<and> (case files (text_of fn) of None \<Rightarrow> False | Some body \<Rightarrow> st_size (text_of fn) = Some (int (length body)) \<and> start + len \<le> int (length body))"
| "action_ok files st_size Writable \<longleftrightarrow> True"

lemma act_ok:
  assumes o: "outstanding files st_size cq bs" and a: "action_ok files st_size a"
  shows "\<exists>tr' cq' io' rest. act junk (network_write_chunkqueue_write files st_size) a (tr, cq, io) = Some (tr', cq', io')
    \<and> outstanding files st_size cq' rest \<and> io_out io' @ rest = io_out io @ bs @ appended files a
    \<and> bytes_written tr' - bytes_written tr = int (length (io_out io')) - int (length (io_out io))"
proof -
  obtain cs where cs: "holds cq cs" "list_all (servable files st_size) cs" "bs = pending files cs" using o by (auto simp: outstanding_def)
  show ?thesis
  proof (cases a)
    case (Send_mem t)
    then have n: "length t + 1 \<noteq> 0" "length t + 1 - 1 \<le> length (t @ [0 :: byte])" "length t + 1 + 64 < 2 ^ 64" using a by simp_all
    obtain cq' c where m: "chunkqueue_append_mem junk cq (t @ [0]) (length t + 1) = Some cq'" "holds cq' (cs @ [c])" "mem_chunk t c"
      using append_mem_ok [OF cs(1) n, of junk] by auto
    have "outstanding files st_size cq' (bs @ t)"
      using outstanding_snoc [OF m(2) cs(2) _ _ cs(3)] mem_chunk_sends [OF m(3)] by blast
    then show ?thesis using Send_mem m(1) by auto
  next
    case (Send_buffer b)
    show ?thesis
    proof (cases "b_used b = 0")
      case True
      then have "text_of b = []" using length_text_le [of b] by simp
      then show ?thesis using Send_buffer True o by (simp add: chunkqueue_append_buffer_def)
    next
      case False
      obtain cq' c where m: "chunkqueue_append_buffer junk cq b = Some cq'" "holds cq' (cs @ [c])" "mem_chunk (text_of b) c"
        using append_buffer_ok [OF cs(1) _ False, of junk] a Send_buffer by auto
      have "outstanding files st_size cq' (bs @ text_of b)"
        using outstanding_snoc [OF m(2) cs(2) _ _ cs(3)] mem_chunk_sends [OF m(3)] by blast
      then show ?thesis using Send_buffer m(1) by auto
    qed
  next
    case (Send_file fn start len)
    show ?thesis
    proof (cases "len = 0")
      case True
      then show ?thesis using Send_file o by (simp add: chunkqueue_append_file_def)
    next
      case False
      then have l: "0 < len" "small 60 fn" "text_of fn \<noteq> []" "0 \<notin> set (text_of fn)" "0 \<le> start" using a Send_file by simp_all
      obtain body where body: "files (text_of fn) = Some body" "st_size (text_of fn) = Some (int (length body))" "start + len \<le> int (length body)"
        using a Send_file by (auto split: option.splits)
      obtain cq' c where m: "chunkqueue_append_file junk cq fn start len = Some cq'" "holds cq' (cs @ [c])"
        "file_chunk (text_of fn) start len c"
        using append_file_ok [OF cs(1) l(2,1)] by metis
      have "b_used (f_name c) \<noteq> 0" using length_text_le [of "f_name c"] m(3) l(3) by (cases "text_of fn") (auto simp: file_chunk_def)
      then have "servable files st_size c" using m(3) l(4,5) body by (simp add: servable_def file_chunk_def)
      moreover have "chunk_bytes files c = take (nat len) (drop (nat start) body)"
        using m(3) map_nth_upto [of start "start + len" body] l(5) body by (simp add: chunk_bytes_def cells_def file_chunk_def comp_def)
      ultimately have "outstanding files st_size cq' (bs @ take (nat len) (drop (nat start) body))"
        using outstanding_snoc [OF m(2) cs(2) _ _ cs(3)] by blast
      then show ?thesis using Send_file m(1) body(1) by auto
    qed
  next
    case Writable
    obtain ret t' cq' io' sent rest where w:
      "network_write_chunkqueue (network_write_chunkqueue_write files st_size) tr cq io = Some (ret, t', cq', io')"
      "outstanding files st_size cq' rest" "bs = sent @ rest" "io_out io' = io_out io @ sent"
      "bytes_written t' = bytes_written tr + int (length sent)"
      using portable.write_chunkqueue [OF o, of tr io] by blast
    then show ?thesis using Writable by auto
  qed
qed

lemma run_actions_ok:
  assumes "outstanding files st_size cq bs" and "list_all (action_ok files st_size) as"
  shows "\<exists>tr' cq' io' rest. run_actions junk (network_write_chunkqueue_write files st_size) as (tr, cq, io) = Some (tr', cq', io')
    \<and> outstanding files st_size cq' rest \<and> io_out io' @ rest = io_out io @ bs @ concat (List.map (appended files) as)
    \<and> bytes_written tr' - bytes_written tr = int (length (io_out io')) - int (length (io_out io))"
  using assms
proof (induction as arbitrary: tr cq io bs)
  case (Cons a as)
  obtain tr1 cq1 io1 rest where s: "act junk (network_write_chunkqueue_write files st_size) a (tr, cq, io) = Some (tr1, cq1, io1)"
    "outstanding files st_size cq1 rest" "io_out io1 @ rest = io_out io @ bs @ appended files a"
    "bytes_written tr1 - bytes_written tr = int (length (io_out io1)) - int (length (io_out io))"
    using act_ok [OF Cons.prems(1), of a junk tr io] Cons.prems(2) by auto
  obtain tr' cq' io' rest' where r: "run_actions junk (network_write_chunkqueue_write files st_size) as (tr1, cq1, io1) = Some (tr', cq', io')"
    "outstanding files st_size cq' rest'" "io_out io' @ rest' = io_out io1 @ rest @ concat (List.map (appended files) as)"
    "bytes_written tr' - bytes_written tr1 = int (length (io_out io')) - int (length (io_out io1))"
    using Cons.IH [OF s(2), of tr1 io1] Cons.prems(2) by auto
  have "io_out io' @ rest' = io_out io @ bs @ concat (List.map (appended files) (a # as))" using s(3) r(3) by simp
  then show ?case using s(1,4) r(1,2,4) by auto
qed auto

section \<open>Properties\<close>

text \<open>C28: What the modules put into the queue of a connection, memory and parts of files, goes to the network in that order,
  each byte once, whatever the socket accepts at a time, whichever calls fail in between and however the traffic
  limits are set: at every moment what has been sent followed by what is outstanding is everything that was
  appended. The counters of the connection and of the queue agree with it.\<close>
theorem network_sends_in_order:
  assumes "outstanding files st_size cq bs" and "list_all (action_ok files st_size) as"
  shows "\<exists>tr' cq' io' rest l w. run_actions junk (network_write_chunkqueue_write files st_size) as (tr, cq, io) = Some (tr', cq', io')
    \<and> io_out io' @ rest = io_out io @ bs @ concat (List.map (appended files) as)
    \<and> outstanding files st_size cq' rest
    \<and> chunkqueue_length cq' = Some l \<and> chunkqueue_written cq' = Some w \<and> l - w = int (length rest)
    \<and> bytes_written tr' - bytes_written tr = int (length (io_out io')) - int (length (io_out io))"
proof -
  obtain tr' cq' io' rest where r: "run_actions junk (network_write_chunkqueue_write files st_size) as (tr, cq, io) = Some (tr', cq', io')"
    "outstanding files st_size cq' rest" "io_out io' @ rest = io_out io @ bs @ concat (List.map (appended files) as)"
    "bytes_written tr' - bytes_written tr = int (length (io_out io')) - int (length (io_out io))"
    using run_actions_ok [OF assms, of junk tr io] by blast
  obtain cs where cs: "holds cq' cs" "rest = pending files cs" using r(2) by (auto simp: outstanding_def)
  obtain l w where "chunkqueue_length cq' = Some l" "chunkqueue_written cq' = Some w" "l - w = int (length rest)"
    using length_written [OF cs(1)] cs(2) by (auto simp: pending_def)
  then show ?thesis using r by blast
qed

definition no_limit :: traffic where
  "no_limit = \<lparr>global_kbytes_per_second = 0, kbytes_per_second = 0, global_bytes_per_second_cnt = 0, bytes_written = 0,
     bytes_written_cur_second = 0, traffic_limit_reached = False, in_joblist = False, jobs = 0, corks = []\<rparr>"

lemma init_outstanding: "outstanding files st_size chunkqueue_init []"
  unfolding outstanding_def using init_holds by (intro exI [of _ "[]"]) simp

lemma network_sends_in_order_witness:
  "\<exists>tr' cq' io' rest. run_actions (\<lambda>_. 9) (network_write_chunkqueue_write [[102] \<mapsto> [1, 2, 3, 4]] [[102] \<mapsto> 4])
      [Send_mem [72, 10], Writable, Send_file (as_buffer [102]) 1 2, Writable]
      (no_limit, chunkqueue_init, \<lparr>io_out = [], io_results = [1, 5]\<rparr>) = Some (tr', cq', io')
    \<and> io_out io' @ rest = [72, 10, 2, 3]"
proof -
  have "list_all (action_ok [[102] \<mapsto> [1, 2, 3, 4]] [[102] \<mapsto> 4]) [Send_mem [72, 10], Writable, Send_file (as_buffer [102]) 1 2, Writable]"
    by simp
  from network_sends_in_order [OF init_outstanding this, of "\<lambda>_. 9" no_limit "\<lparr>io_out = [], io_results = [1, 5]\<rparr>"]
  show ?thesis by auto
qed

end
