(* ===== verification/Reading_Safety.thy ===== *)
theory Reading_Safety
  imports Request_Reading Network_Write
begin

text \<open>
  The reading functions of connections.c never fault, whatever the packets and the results of the system calls are. Request\_Reading
  has what they do when all goes well; here the packets may be of any size, and reading may fail, end or be interrupted. The
  predicates say what the state machine of a connection relies on.
\<close>

section \<open>The search\<close>

lemma look_at_any:
  assumes c: "packet t c" and i: "i \<le> length t"
    and next_chunk: "case ts of [] \<Rightarrow> c_next c = None
      | t2 # ts' \<Rightarrow> \<exists>l d as'. c_next c = Some l \<and> as = l # as' \<and> h l = Some d \<and> packet t2 d \<and> c_offset d = 0"
  shows "\<exists>r. look_at h a c i = Some r \<and> (\<forall>b k. r = Some (b, k) \<longrightarrow>
    (\<exists>n. 0 < n \<and> n \<le> length (concat (t # ts)) \<and> place n (a # as) (t # ts) = (b, nat k) \<and> 0 \<le> k))"
proof (cases ts)
  case Nil
  have e: "take 4 (drop i t @ concat []) = header_end \<Longrightarrow> i + 4 \<le> length t"
  proof -
    assume "take 4 (drop i t @ concat []) = header_end"
    then have "length (take 4 (drop i t)) = 4" by (simp only: concat.simps append_Nil2) (simp add: header_end_def)
    then show ?thesis by simp
  qed
  have nx: "case [] of [] \<Rightarrow> c_next c = None
      | t2 # ts' \<Rightarrow> \<exists>l d as'. c_next c = Some l \<and> as = l # as' \<and> h l = Some d \<and> packet t2 d \<and> c_offset d = 0 \<and> (ts' = [] \<or> 3 \<le> length t2)"
    using next_chunk Nil by simp
  from look_at_spec [OF c i nx] e show ?thesis unfolding Nil
    by (cases "i < length t \<and> take 4 (drop i t @ concat []) = header_end") (auto simp: split_def intro!: exI [of _ "i + 4"])
next
  case (Cons t2 ts')
  have nx: "case [t2] of [] \<Rightarrow> c_next c = None
      | t2 # ts' \<Rightarrow> \<exists>l d as'. c_next c = Some l \<and> as = l # as' \<and> h l = Some d \<and> packet t2 d \<and> c_offset d = 0 \<and> (ts' = [] \<or> 3 \<le> length t2)"
    using next_chunk Cons by simp
  obtain l as' where as: "as = l # as'" using next_chunk Cons by auto
  note look = look_at_spec [OF c i nx, of a]
  show ?thesis
  proof (cases "i < length t \<and> take 4 (drop i t @ concat [t2]) = header_end")
    case False
    have "look_at h a c i = Some None" using look unfolding if_not_P [OF False] .
    then show ?thesis by simp
  next
    case True
    then have "length (take 4 (drop i t @ concat [t2])) = 4" by (simp only:) (simp add: header_end_def)
    then have "4 \<le> length (drop i t @ t2)" by (simp only: length_take concat.simps append_Nil2)
    then have n: "i + 4 \<le> length t + length t2" using True by simp
    then have p: "place (i + 4) (a # as) (t # [t2]) = place (i + 4) (a # as) (t # ts)" using as Cons
    by (cases "i + 4 \<le> length t") (auto simp: le_diff_conv)
    have r: "look_at h a c i = Some (Some (case place (i + 4) (a # as) (t # ts) of (b, n) \<Rightarrow> (b, int n)))"
      using look unfolding if_P [OF True] p option.map .
    show ?thesis unfolding r using n Cons by (auto simp: split_def simp del: place.simps intro!: exI [of _ "i + 4"])
  qed
qed

lemma scan_chunk_any:
  assumes c: "packet t c"
    and next_chunk: "case ts of [] \<Rightarrow> c_next c = None
      | t2 # ts' \<Rightarrow> \<exists>l d as'. c_next c = Some l \<and> as = l # as' \<and> h l = Some d \<and> packet t2 d \<and> c_offset d = 0"
  shows "i + n = length t + 1 \<Longrightarrow> \<exists>r. scan_chunk h a c i n = Some r \<and> (\<forall>b k. r = Some (b, k) \<longrightarrow>
    (\<exists>n. 0 < n \<and> n \<le> length (concat (t # ts)) \<and> place n (a # as) (t # ts) = (b, nat k) \<and> 0 \<le> k))"
proof (induction n arbitrary: i)
  case (Suc n)
  then have i: "i \<le> length t" by simp
  obtain r where r: "look_at h a c i = Some r" "\<forall>b k. r = Some (b, k) \<longrightarrow>
    (\<exists>n. 0 < n \<and> n \<le> length (concat (t # ts)) \<and> place n (a # as) (t # ts) = (b, nat k) \<and> 0 \<le> k)"
    using look_at_any [OF c i next_chunk, of a] by blast
  show ?case
  proof (cases r)
    case None
    have "Suc i + n = length t + 1" using Suc.prems by simp
    from Suc.IH [OF this] show ?thesis using r(1) None by simp
  next
    case (Some x)
    then show ?thesis using r by (simp del: place.simps)
  qed
qed simp

lemma search_header_any:
  assumes "linked h p as" and "packets ts (List.map (\<lambda>a. unlinked (the (h a))) as)"
  shows "\<exists>r. search_header h p = Some r \<and> (\<forall>b k. r = Some (b, k) \<longrightarrow>
    (\<exists>n. 0 < n \<and> n \<le> length (concat ts) \<and> place n as ts = (b, nat k) \<and> 0 \<le> k))"
  using assms
proof (induction as arbitrary: p ts)
  case Nil
  then show ?case by (simp add: search_header.simps [of h None])
next
  case (Cons a as)
  obtain c where c: "p = Some a" "h a = Some c" "linked h (c_next c) as" using Cons.prems(1) by (auto split: option.splits)
  obtain t us where t: "ts = t # us" "packet t c" "packets us (List.map (\<lambda>a. unlinked (the (h a))) as)"
    "\<forall>b \<in> set as. c_offset (the (h b)) = 0"
    using Cons.prems(2) c(2) by (cases ts) auto
  have nx: "case us of [] \<Rightarrow> c_next c = None
      | t2 # ts' \<Rightarrow> \<exists>l d as'. c_next c = Some l \<and> as = l # as' \<and> h l = Some d \<and> packet t2 d \<and> c_offset d = 0"
  proof (cases us)
    case Nil
    then show ?thesis using t(3) c(3) by simp
  next
    case (Cons t2 ts')
    obtain l as' where l: "as = l # as'" using t(3) Cons by (cases as) auto
    obtain d where d: "c_next c = Some l" "h l = Some d" using c(3) l by (auto split: option.splits)
    then show ?thesis using l t(3,4) Cons by auto
  qed
  have v: "0 + b_used (rest_of c) = length t + 1" using packet_rest [OF t(2)] by simp
  obtain r where r: "scan_chunk h a c 0 (b_used (rest_of c)) = Some r" "\<forall>b k. r = Some (b, k) \<longrightarrow>
    (\<exists>n. 0 < n \<and> n \<le> length (concat (t # us)) \<and> place n (a # as) (t # us) = (b, nat k) \<and> 0 \<le> k)"
    using scan_chunk_any [OF t(2) nx v, of a] by blast
  show ?case
  proof (cases r)
    case (Some x)
    have e: "search_header h p = Some (Some x)" using c(1,2) r(1) Some by (simp add: search_header.simps [of h "Some a"])
    show ?thesis unfolding t(1) by (rule exI [of _ "Some x"], rule conjI, rule e, rule r(2) [unfolded Some])
  next
    case None
    have e: "search_header h p = search_header h (c_next c)" using c(1,2) r(1) None by (simp add: search_header.simps [of h "Some a"])
    obtain r' where r': "search_header h (c_next c) = Some r'" "\<forall>b k. r' = Some (b, k) \<longrightarrow>
      (\<exists>n. 0 < n \<and> n \<le> length (concat us) \<and> place n as us = (b, nat k) \<and> 0 \<le> k)"
      using Cons.IH [OF c(3) t(3)] by blast
    have "\<exists>n. 0 < n \<and> n \<le> length (concat ts) \<and> place n (a # as) ts = (b, nat k) \<and> 0 \<le> k" if w: "r' = Some (b, k)" for b k
    proof -
      obtain n where n: "0 < n" "n \<le> length (concat us)" "place n as us = (b, nat k)" "0 \<le> k" using r'(2) [rule_format, OF w] by blast
      then show ?thesis using t(1) by (intro exI [of _ "length t + n"]) simp
    qed
    then have q: "\<forall>b k. r' = Some (b, k) \<longrightarrow> (\<exists>n. 0 < n \<and> n \<le> length (concat ts) \<and> place n (a # as) ts = (b, nat k) \<and> 0 \<le> k)" by simp
    show ?thesis unfolding e r'(1) by (rule exI [of _ r'], rule conjI, rule refl, rule q)
  qed
qed


section \<open>Reading\<close>

definition arrival_ok :: "arrival \<Rightarrow> bool" where
  "arrival_ok arr \<longleftrightarrow> (case available arr of None \<Rightarrow> True | Some n \<Rightarrow> 0 \<le> n \<and> n < 2 ^ 31)"

definition data_size :: "arrival \<Rightarrow> nat" where
  "data_size arr = (case incoming arr of Inl _ \<Rightarrow> 0 | Inr d \<Rightarrow> length d)"

text \<open>What is not touched by reading.\<close>

definition same_rest :: "read_con \<Rightarrow> read_con \<Rightarrow> bool" where
  "same_rest con con' \<longleftrightarrow> request con' = request con \<and> content_queue con' = content_queue con \<and> content_length con' = content_length con
     \<and> keep_alive con' = keep_alive con \<and> http_status con' = http_status con"

lemma same_rest_refl [simp]: "same_rest con con" by (simp add: same_rest_def)

lemma handle_read_any:
  assumes rep: "queue_rep (read_queue con) as us []" and arr: "arrival_ok arr" "available arr \<noteq> None"
  obtains r a us' c f con' where "connection_handle_read junk arr con = Some (r, con')" "queue_rep (read_queue con') (as @ [a]) us' []"
    "contents (read_queue con') (as @ [a]) = contents (read_queue con) as @ [c]" "heap (read_queue con') a = Some f" "c = unlinked f"
    "c_offset c = 0" "length us' + 1 < 2 ^ 64" "same_rest con con'"
    "in_range c \<and> b_used (c_mem c) = 0 \<and> idle_ok f \<and> rc_state con' = (if r = - 1 then CON_STATE_ERROR else rc_state con)
     \<or> r = 0 \<and> rc_state con' = rc_state con \<and> (\<exists>d. packet d c \<and> length d \<le> data_size arr)"
proof -
  note found = that
  obtain toread where tr: "available arr = Some toread" "0 \<le> toread" "toread < 2 ^ 31"
    using arr by (auto simp: arrival_ok_def)
  obtain a q us' c where g: "chunkqueue_get_append_buffer (read_queue con) = Some (a, q)" "queue_rep q (as @ [a]) us' []"
    "contents q (as @ [a]) = contents (read_queue con) as @ [c]" "heap q a = Some c" "c_next c = None" "mem_only c" "b_used (c_mem c) = 0"
    "c_offset c = 0" "length us' + 1 < 2 ^ 64"
    by (rule get_append_buffer_ok [OF rep])
  have m: "buffer_ok (c_mem c)" "b_size (c_mem c) < 2 ^ 60" using g(6) smallD [of 60 "c_mem c"] by (auto simp: mem_only_def)
  let ?n = "nat (toread + 1)"
  have n: "?n + 64 < 2 ^ 64" "?n < 2 ^ 32" using tr(2,3) by simp_all
  let ?b = "grow_copy junk (c_mem c) ?n"
  obtain p where p: "b_ptr ?b = Some p" "length p = b_size ?b" "b_used ?b = 0" "0 < length p"
    by (rule grow_copy_ok [OF m(1) n(1), of junk]) blast
  have sz: "b_size ?b < 2 ^ 60" using m(2) n piece_bounds [of ?n] by (auto simp: grow_copy_def)
  have nz: "b_size ?b \<noteq> 0" using p(2,4) by simp
  have b_ok: "string_ok ?b" using p by (simp add: string_ok_def buffer_ok_def content_def)
  let ?e = "c\<lparr>c_mem := ?b\<rparr>"
  have e: "used_ok ?e" "idle_ok ?e" "in_range ?e" "b_used (c_mem ?e) = 0" "c_next ?e = None"
    using g(5,6,8) b_ok sz p(3) by (simp_all add: used_ok_def idle_ok_def mem_only_def small_def in_range_def)
  have an: "a \<notin> set as" using g(2) by (auto simp: queue_rep_def)
  have put: "queue_rep (put_chunk a d q) (as @ [a]) us' []" "contents (put_chunk a d q) (as @ [a]) = contents (read_queue con) as @ [unlinked d]"
    if d: "used_ok d" "c_next d = None" for d
  proof -
    show "queue_rep (put_chunk a d q) (as @ [a]) us' []" by (rule put_rep(1) [OF g(2) _ g(4) d(1)]) (use d(2) g(5) in simp_all)
    show "contents (put_chunk a d q) (as @ [a]) = contents (read_queue con) as @ [unlinked d]"
      using g(3) an unfolding contents_snoc by (auto simp: contents_def)
  qed
  have h: "heap (put_chunk a d q) a = Some d" for d by simp
  have start: "connection_handle_read junk arr con = (let con = con\<lparr>read_queue := put_chunk a ?e q\<rparr>; b = ?b in
     case incoming arr of
       Inl e \<Rightarrow> do {
         let con = con\<lparr>is_readable := False\<rparr>;
         if e = EAGAIN then Some (0, con)
         else if e = EINTR then Some (0, con\<lparr>is_readable := True\<rparr>)
         else Some (- 1, con\<lparr>rc_state := CON_STATE_ERROR\<rparr>)
       }
     | Inr data \<Rightarrow> do {
         let data = take (b_size b - 1) data;
         let len = length data;
         if len = 0 then Some (- 2, con\<lparr>is_readable := False\<rparr>)
         else do {
           let con = (if len < b_size b - 1 then con\<lparr>is_readable := False\<rparr> else con);
           p \<leftarrow> b_ptr b;
           p \<leftarrow> memcpy p 0 data len;
           p \<leftarrow> poke p len 0;
           let b = b\<lparr>b_ptr := Some p, b_used := len + 1\<rparr>;
           Some (0, con\<lparr>read_queue := put_chunk a (c\<lparr>c_mem := b\<rparr>) q, bytes_read := bytes_read con + int len\<rparr>)
         }
       })"
    using g(1,4) tr(1) by (simp add: connection_handle_read_def buffer_prepare_copy_def Let_def)
  have no_data: thesis if r: "connection_handle_read junk arr con = Some (r, con')" "read_queue con' = put_chunk a ?e q" "same_rest con con'"
    "rc_state con' = (if r = - 1 then CON_STATE_ERROR else rc_state con)" for r con'
  proof -
    have rq: "queue_rep (read_queue con') (as @ [a]) us' []" "contents (read_queue con') (as @ [a]) = contents (read_queue con) as @ [unlinked ?e]"
      "heap (read_queue con') a = Some ?e"
      unfolding r(2) using put [OF e(1,5)] by simp_all
    have "in_range (unlinked ?e) \<and> b_used (c_mem (unlinked ?e)) = 0 \<and> idle_ok ?e \<and> rc_state con' = (if r = - 1 then CON_STATE_ERROR else rc_state con)"
      using e r(4) by simp
    from found [OF r(1) rq refl _ g(9) r(3) disjI1 [OF this]] show thesis using g(8) by simp
  qed
  show thesis
  proof (cases "incoming arr")
    case (Inl x)
    have x: "connection_handle_read junk arr con = Some (if x = EAGAIN \<or> x = EINTR then 0 else - 1,
       con\<lparr>read_queue := put_chunk a ?e q, is_readable := (x = EINTR), rc_state := (if x = EAGAIN \<or> x = EINTR then rc_state con else CON_STATE_ERROR)\<rparr>)"
      unfolding start Inl by (cases x) (simp_all add: Let_def)
    show thesis by (rule no_data [OF x]) (simp_all add: same_rest_def)
  next
    case (Inr data)
    define d where "d = take (b_size ?b - 1) data"
    have dl: "length d \<le> data_size arr" using Inr by (simp add: data_size_def d_def)
    show thesis
    proof (cases "d = []")
      case True
      have x: "connection_handle_read junk arr con = Some (- 2, con\<lparr>read_queue := put_chunk a ?e q, is_readable := False\<rparr>)"
        unfolding start Inr using True by (simp add: Let_def d_def)
      show thesis by (rule no_data [OF x]) (simp_all add: same_rest_def)
    next
      case False
      have l: "length d \<le> b_size ?b - 1" "length d < length p" using nz p(2) False by (auto simp: d_def)
      let ?m = "?b\<lparr>b_ptr := Some ((take (length ([] :: byte list)) p @ d @ drop (length ([] :: byte list) + length d) p)[length ([] :: byte list) + length d := 0]),
         b_used := Suc (length ([] :: byte list) + length d)\<rparr>"
      have w: "string_ok ?m \<and> text_of ?m = [] @ d" by (rule write_text [OF p(1,2)]) (use l in simp_all)
      let ?c = "c\<lparr>c_mem := ?m\<rparr>"
      have s: "small 60 ?m" using w sz by (simp add: small_def)
      have pk: "packet d ?c" using w s g(6,8) False by (simp add: packet_def mem_only_def in_range_def)
      have u: "used_ok ?c" "c_next ?c = None" using w g(5,6) by (simp_all add: used_ok_def mem_only_def small_def)
      let ?con = "(if length d < b_size ?b - 1 then con\<lparr>read_queue := put_chunk a ?e q, is_readable := False\<rparr>
          else con\<lparr>read_queue := put_chunk a ?e q\<rparr>)\<lparr>read_queue := put_chunk a ?c q, bytes_read := bytes_read con + int (length d)\<rparr>"
      have x: "connection_handle_read junk arr con = Some (0, ?con)"
        unfolding start Inr sum.case Let_def d_def [symmetric] using p(1) l False
        by (simp add: memcpy_in poke_in del: memcpy_Some poke_Some)
      have rq: "queue_rep (read_queue ?con) (as @ [a]) us' []" "contents (read_queue ?con) (as @ [a]) = contents (read_queue con) as @ [unlinked ?c]"
        "heap (read_queue ?con) a = Some ?c" using put [OF u] by simp_all
      have "(0 :: int) = 0 \<and> rc_state ?con = rc_state con \<and> (\<exists>d. packet d (unlinked ?c) \<and> length d \<le> data_size arr)" using pk dl by auto
      from found [OF x rq refl _ g(9) _ disjI2 [OF this]] show thesis using g(8) by (simp add: same_rest_def)
    qed
  qed
qed


section \<open>What the functions keep\<close>

definition waiting :: "read_con \<Rightarrow> nat \<Rightarrow> bool" where
  "waiting con n \<longleftrightarrow> (\<exists>ts k. unread (read_queue con) ts k \<and> length (concat ts) \<le> n)"

text \<open>Between a failed read and the end of the connection an empty chunk can be left in the read queue.\<close>

definition input_ok :: "read_con \<Rightarrow> nat \<Rightarrow> bool" where
  "input_ok con n \<longleftrightarrow> buffer_ok (request con) \<and> (\<exists>as us. body_rep (content_queue con) as us)
     \<and> (if rc_state con \<in> {CON_STATE_ERROR, CON_STATE_CLOSE, CON_STATE_CONNECT} then \<exists>cs. holds (read_queue con) cs else waiting con n)
     \<and> (rc_state con = CON_STATE_READ_POST \<longrightarrow> cq_bytes_in (content_queue con) \<le> content_length con)"

lemma waiting_mono: "waiting con n \<Longrightarrow> n \<le> m \<Longrightarrow> waiting con m"
  using order.trans unfolding waiting_def by blast

lemma waiting_holds: "waiting con n \<Longrightarrow> \<exists>cs. holds (read_queue con) cs"
  unfolding waiting_def unread_def holds_def using packets_in_range by blast

lemma read_header_found:
  assumes rep: "queue_rep (read_queue con) as us []" and ps: "packets ts (contents (read_queue con) as)"
    and s: "search_header (heap (read_queue con)) (cq_first (read_queue con)) = Some (Some (b, int k))"
    and n: "0 < n" "n \<le> length (concat ts)" "place n as ts = (b, k)" and req: "buffer_ok (request con)" and room: "length (concat ts) < 2 ^ 50"
  shows "\<exists>req' cq'. read_header junk con = Some (con\<lparr>request := req', read_queue := cq', rc_state := CON_STATE_REQUEST_END\<rparr>)
    \<and> string_ok req' \<and> queue_rep cq' as us [] \<and> packets (consume n ts) (dropWhile is_finished (contents cq' as))"
proof -
  have l: "linked (heap (read_queue con)) (cq_first (read_queue con)) as" using rep by (simp add: queue_rep_def)
  obtain r0 where r0: "buffer_clear (request con) = Some r0" "string_ok r0" "b_size r0 \<le> 4096"
    by (rule clear_ok [OF req])
  have rep': "queue_rep (read_queue con) ([] @ as) us []" using rep by simp
  have ok0: "buffer_ok r0" using r0(2) by (simp add: string_ok_def)
  have sz: "b_size r0 + 66 * length (concat ts) + 66 < 2 ^ 64" using r0(3) room by simp
  obtain req' cq' where "copy_header junk b (int k) (cq_first (read_queue con)) r0 (read_queue con) = Some (req', cq')" "string_ok req'"
    "queue_rep cq' ([] @ as) us []" "packets (consume n ts) (dropWhile is_finished (contents cq' as))"
    using copy_header_spec [OF rep' l ps n ok0 sz, of junk] by blast
  then show ?thesis using s r0(1) by (auto simp: read_header_def)
qed

lemma read_header_any:
  assumes rep: "queue_rep (read_queue con) as us []" and ps: "packets ts (contents (read_queue con) as)"
    and req: "buffer_ok (request con)" and room: "length (concat ts) < 2 ^ 50"
  obtains con' ts' where "read_header junk con = Some con'" "queue_rep (read_queue con') as us []"
    "packets ts' (dropWhile is_finished (contents (read_queue con') as))" "length (concat ts') \<le> length (concat ts)" "buffer_ok (request con')"
    "content_queue con' = content_queue con" "rc_state con' \<in> {rc_state con, CON_STATE_REQUEST_END, CON_STATE_HANDLE_REQUEST}"
    "rc_state con' = CON_STATE_REQUEST_END \<longrightarrow> rc_state con \<noteq> CON_STATE_REQUEST_END \<longrightarrow> length (concat ts') < length (concat ts)"
    "rc_state con' = CON_STATE_HANDLE_REQUEST \<longrightarrow> rc_state con \<noteq> CON_STATE_HANDLE_REQUEST \<longrightarrow> http_status con' = 414 \<and> keep_alive con' = 0"
proof -
  have l: "linked (heap (read_queue con)) (cq_first (read_queue con)) as" using rep by (simp add: queue_rep_def)
  obtain r where r: "search_header (heap (read_queue con)) (cq_first (read_queue con)) = Some r"
    "\<forall>b k. r = Some (b, k) \<longrightarrow> (\<exists>n. 0 < n \<and> n \<le> length (concat ts) \<and> place n as ts = (b, nat k) \<and> 0 \<le> k)"
    using search_header_any [OF l ps [unfolded contents_def]] by blast
  show thesis
  proof (cases r)
    case None
    let ?con = "if skipped (contents (read_queue con) as) + length (concat ts) > 65536 then oversized con else con"
    have "read_header junk con = Some ?con" using read_header_none [OF rep ps r(1) [unfolded None], of junk] .
    then show thesis
      by (rule that [of _ ts]) (use rep ps req packets_not_finished [OF ps] in \<open>auto simp: oversized_def\<close>)
  next
    case (Some x)
    obtain b k where x: "x = (b, k)" by (cases x)
    obtain n where n: "0 < n" "n \<le> length (concat ts)" "place n as ts = (b, nat k)" "0 \<le> k" using r(2) Some x by blast
    have s: "search_header (heap (read_queue con)) (cq_first (read_queue con)) = Some (Some (b, int (nat k)))" using r(1) Some x n(4) by simp
    obtain req' cq' where h: "read_header junk con = Some (con\<lparr>request := req', read_queue := cq', rc_state := CON_STATE_REQUEST_END\<rparr>)"
      "string_ok req'" "queue_rep cq' as us []" "packets (consume n ts) (dropWhile is_finished (contents cq' as))"
      using read_header_found [OF rep ps s n(1-3) req room, of junk] by blast
    have "length (concat (consume n ts)) < length (concat ts)" unfolding concat_consume using n(1,2) by simp
    then show thesis using that [OF h(1), of "consume n ts"] h by (simp add: string_ok_def)
  qed
qed


section \<open>The body\<close>

lemma store_in_memory_any:
  assumes b: "body_rep (content_queue con) as us" and n: "n \<le> length p" "n < 2 ^ 60"
  shows "\<exists>q as us. store_in_memory junk p n con = Some (con\<lparr>content_queue := q\<rparr>) \<and> cq_bytes_in q = cq_bytes_in (content_queue con)
    \<and> body_rep q as us"
proof -
  have rep: "queue_rep (content_queue con) as us []" using b by (simp add: body_rep_def)
  obtain a q us' c where g: "chunkqueue_get_append_buffer (content_queue con) = Some (a, q)" "queue_rep q (as @ [a]) us' []"
    "contents q (as @ [a]) = contents (content_queue con) as @ [c]" "heap q a = Some c" "c_next c = None" "mem_only c"
    "b_used (c_mem c) = 0" "c_offset c = 0" "cq_bytes_in q = cq_bytes_in (content_queue con)" "cq_tempdirs q = cq_tempdirs (content_queue con)"
    by (rule get_append_buffer_ok [OF rep])
  have m: "buffer_ok (c_mem c)" using g(6) smallD [of 60 "c_mem c"] by (simp add: mem_only_def)
  have n': "n + 65 < 2 ^ 64" using n(2) by simp
  obtain x where x: "buffer_copy_string_len junk (Some (c_mem c)) (Some p) n = Some (0, Some x)" "string_ok x" "b_used x = n + 1"
    using copy_string_len [OF m n(1) n', of junk] by blast
  let ?d = "c\<lparr>c_mem := x\<rparr>"
  have d: "used_ok ?d" "c_next ?d = c_next c" "in_range ?d" "name_ok ?d"
    using g(6,8) x by (simp_all add: used_ok_def mem_only_def small_def in_range_def name_ok_def)
  have "in_range c" "name_ok c" using g(6,8) by (simp_all add: in_range_def name_ok_def mem_only_def)
  then have "body_rep q (as @ [a]) us'" using b g(2,3,10) by (simp add: body_rep_def tempdirs_ok_def)
  then have "body_rep (put_chunk a ?d q) (as @ [a]) us'" by (rule body_rep_put [OF _ g(4) d])
  moreover have "store_in_memory junk p n con = Some (con\<lparr>content_queue := put_chunk a ?d q\<rparr>)"
    using g(1,4) x(1) by (simp add: store_in_memory_def)
  moreover have "cq_bytes_in (put_chunk a ?d q) = cq_bytes_in (content_queue con)" using g(9) by (simp add: put_chunk_def)
  ultimately show ?thesis by blast
qed

definition any_body :: "chunkqueue \<Rightarrow> upload \<Rightarrow> byte list \<Rightarrow> bool" where
  "any_body cq up s \<longleftrightarrow> (\<exists>as us. body_rep cq as us)"

lemma stores_any: "stores junk mkstemp reopen any_body True L"
  unfolding stores_def
proof (intro conjI allI impI)
  fix con :: read_con and up :: upload and s p :: "byte list" and n
  assume a: "any_body (content_queue con) up s" "content_length con = L" "n \<le> length p" "n < 2 ^ 60"
  then obtain as us where b: "body_rep (content_queue con) as us" by (auto simp: any_body_def)
  show "\<exists>go con' up'. store_body junk mkstemp reopen p n con up = Some (go, con', up') \<and>
      (if go then \<exists>q. con' = con\<lparr>content_queue := q\<rparr> \<and> cq_bytes_in q = cq_bytes_in (content_queue con) \<and> any_body q up' (s @ take n p)
       else True \<and> (\<exists>q. con' = too_large (con\<lparr>content_queue := q\<rparr>) \<and> (\<exists>as us. body_rep q as us)))"
  proof (cases "65536 < L")
    case True
    have i: "in_files False (concat (List.map snd (written_to up))) (content_queue con) up []" using b by (auto simp: in_files_def)
    have e: "store_body junk mkstemp reopen p n con up = store_in_file junk mkstemp reopen (take n p) con up"
      using a(2) True by (simp add: store_body_def)
    have l: "length (take n p) < 2 ^ 60" using a(4) by simp
    obtain go con' up' where f: "store_in_file junk mkstemp reopen (take n p) con up = Some (go, con', up')"
      "if go then \<exists>q. con' = con\<lparr>content_queue := q\<rparr> \<and> cq_bytes_in q = cq_bytes_in (content_queue con)
          \<and> in_files False (concat (List.map snd (written_to up))) q up' ([] @ take n p)
        else \<not> (opens mkstemp reopen \<and> False) \<and> (\<exists>q. con' = too_large (con\<lparr>content_queue := q\<rparr>) \<and> (\<exists>as us. body_rep q as us))"
      using store_in_file_ok [OF i l, of junk mkstemp reopen] by blast
    show ?thesis unfolding e using f
      by (intro exI [of _ go] exI [of _ con'] exI [of _ up']) (cases go; auto simp: any_body_def in_files_def)
  next
    case False
    obtain q as' us' where q: "store_in_memory junk p n con = Some (con\<lparr>content_queue := q\<rparr>)" "cq_bytes_in q = cq_bytes_in (content_queue con)"
      "body_rep q as' us'"
      using store_in_memory_any [OF b a(3,4), of junk] by blast
    have "store_body junk mkstemp reopen p n con up = Some (True, con\<lparr>content_queue := q\<rparr>, up)"
      using q(1) a(2) False by (simp add: store_body_def)
    then show ?thesis using q(2,3)
      by (intro exI [of _ True] exI [of _ "con\<lparr>content_queue := q\<rparr>"] exI [of _ up]) (auto simp: any_body_def)
  qed
next
  fix cq up s b
  assume "any_body cq up s"
  then show "any_body (cq\<lparr>cq_bytes_in := b\<rparr>) up s" by (simp add: any_body_def)
qed


lemma body_counts: "any_body cq up s \<Longrightarrow> any_body (cq\<lparr>cq_bytes_in := b\<rparr>) up' s'"
  by (simp add: any_body_def)

lemma consume_less: "length (concat (consume m ts)) \<le> length (concat ts)"
  by (simp add: concat_consume)

lemma queues_fields: "con' = con\<lparr>read_queue := a, content_queue := b\<rparr> \<Longrightarrow> rc_state con' = rc_state con \<and> request con' = request con
   \<and> content_length con' = content_length con"
  by simp

lemma read_post_any:
  assumes rep: "queue_rep (read_queue con) as us []" and ps: "packets ts (contents (read_queue con) as)"
    and b: "any_body (content_queue con) up []" "cq_bytes_in (content_queue con) \<le> content_length con"
  obtains con' up' ts' where "read_post junk mkstemp reopen (cq_first (read_queue con)) con up = Some (con', up')"
    "queue_rep (read_queue con') as us []" "packets ts' (dropWhile is_finished (contents (read_queue con') as))"
    "length (concat ts') \<le> length (concat ts)" "any_body (content_queue con') up' []" "request con' = request con"
    "rc_state con' = rc_state con \<and> cq_bytes_in (content_queue con') \<le> content_length con' \<or> rc_state con' = CON_STATE_HANDLE_REQUEST"
proof -
  have pre: "queue_rep (read_queue con) ([] @ as) us []" "linked (heap (read_queue con)) (cq_first (read_queue con)) as"
    using rep by (simp_all add: queue_rep_def)
  obtain con' up' where r: "read_post junk mkstemp reopen (cq_first (read_queue con)) con up = Some (con', up')"
    "post_result any_body True con [] as us ts [] con' up'"
    using read_post_spec [OF stores_any pre ps refl b(2,1)] by blast
  let ?x = "con\<lparr>read_queue := read_queue con', content_queue := content_queue con'\<rparr>"
  obtain m where m: "queue_rep (read_queue con') ([] @ as) us []" "packets (consume m ts) (dropWhile is_finished (contents (read_queue con') as))"
    "m = min (nat (content_length con - cq_bytes_in (content_queue con))) (length (concat ts)) \<and> con' = ?x
       \<and> cq_bytes_in (content_queue con') = cq_bytes_in (content_queue con) + int m \<and> any_body (content_queue con') up' ([] @ take m (concat ts))
     \<or> True \<and> con' = too_large ?x \<and> (\<exists>as us. body_rep (content_queue con') as us)"
    using r(2) unfolding post_result_def by blast
  have q: "queue_rep (read_queue con') as us []" using m(1) by simp
  show thesis
  proof (rule disjE [OF m(3)], goal_cases)
    case 1
    have c: "con' = ?x" using 1 by blast
    have f: "rc_state con' = rc_state con" "request con' = request con" "content_length con' = content_length con"
      using queues_fields [OF c] by blast+
    have n: "cq_bytes_in (content_queue con') \<le> content_length con'" unfolding f(3) using 1 b(2) by linarith
    have i: "any_body (content_queue con') up' []" using 1 by (simp add: any_body_def)
    show thesis by (rule that [OF r(1) q m(2) consume_less i f(2)]) (use f(1) n in blast)
  next
    case 2
    have c: "con' = too_large ?x" using 2 by blast
    have f: "rc_state con' = CON_STATE_HANDLE_REQUEST" "request con' = request con" using too_large_fields [OF c] by simp_all
    have i: "any_body (content_queue con') up' []" using 2 by (simp add: any_body_def)
    show thesis by (rule that [OF r(1) q m(2) consume_less i f(2)]) (use f(1) in blast)
  qed
qed


section \<open>The whole function\<close>

lemma feed:
  assumes w: "waiting con n" and arr: "arrival_ok arr"
  obtains r con1 where "(if is_readable con then connection_handle_read junk arr (con\<lparr>read_idle_ts := cur_ts\<rparr>) else Some (0, con)) = Some (r, con1)"
    "same_rest con con1"
    "r = - 1 \<and> (rc_state con1 = CON_STATE_ERROR \<and> (\<exists>cs. holds (read_queue con1) cs) \<or> rc_state con1 = rc_state con \<and> waiting con1 n)
     \<or> r \<noteq> - 1 \<and> rc_state con1 = rc_state con \<and> (\<exists>cq as us ts. drop_empty (cq_first (read_queue con1)) (read_queue con1) = Some cq
         \<and> queue_rep cq as us [] \<and> packets ts (contents cq as) \<and> length (concat ts) \<le> n + data_size arr)"
proof -
  note found = that
  let ?con = "con\<lparr>read_idle_ts := cur_ts\<rparr>"
  obtain ts k as us where u: "queue_rep (read_queue con) as us []" "packets ts (contents (read_queue con) as)" "length (concat ts) \<le> n"
    using w by (auto simp: waiting_def unread_def)
  have walk: "drop_empty (cq_first cq) cq = Some cq" if q: "queue_rep cq as us []" "packets ts (contents cq as)" for cq as us ts
    using q(1) packets_used [OF q(2)] by (intro drop_walk [of _ _ as]) (simp_all add: queue_rep_def)
  show thesis
  proof (cases "is_readable con")
    case False
    have "\<exists>cq as us ts. drop_empty (cq_first (read_queue con)) (read_queue con) = Some cq
         \<and> queue_rep cq as us [] \<and> packets ts (contents cq as) \<and> length (concat ts) \<le> n + data_size arr"
      by (rule exI [of _ "read_queue con"], rule exI [of _ as], rule exI [of _ us], rule exI [of _ ts])
        (use walk [OF u(1,2)] u in simp)
    then show thesis using found [of 0 con] False by simp
  next
    case readable: True
    show thesis
    proof (cases "available arr")
      case None
      have "connection_handle_read junk arr ?con = Some (- 1, ?con)" using None by (simp add: connection_handle_read_def)
      moreover have "waiting ?con n" "same_rest con ?con" using w by (simp_all add: waiting_def same_rest_def)
      ultimately show thesis using found [of "- 1" ?con] readable by simp
    next
      case (Some toread)
      have q0: "queue_rep (read_queue ?con) as us []" using u(1) by simp
      have av: "available arr \<noteq> None" using Some by simp
      obtain r a us' c f con1 where h: "connection_handle_read junk arr ?con = Some (r, con1)" "queue_rep (read_queue con1) (as @ [a]) us' []"
        "contents (read_queue con1) (as @ [a]) = contents (read_queue ?con) as @ [c]" "heap (read_queue con1) a = Some f" "c = unlinked f"
        "c_offset c = 0" "length us' + 1 < 2 ^ 64" "same_rest ?con con1"
        "in_range c \<and> b_used (c_mem c) = 0 \<and> idle_ok f \<and> rc_state con1 = (if r = - 1 then CON_STATE_ERROR else rc_state ?con)
         \<or> r = 0 \<and> rc_state con1 = rc_state ?con \<and> (\<exists>d. packet d c \<and> length d \<le> data_size arr)"
        by (rule handle_read_any [OF q0 arr av])
      have same: "same_rest con con1" using h(8) by (simp add: same_rest_def)
      let ?cq = "read_queue con1"
      have cs: "contents ?cq as = contents (read_queue con) as" using h(3) by (simp add: contents_def)
      from h(9) show thesis
      proof
        assume e: "in_range c \<and> b_used (c_mem c) = 0 \<and> idle_ok f \<and> rc_state con1 = (if r = - 1 then CON_STATE_ERROR else rc_state ?con)"
        show thesis
        proof (cases "r = - 1")
          case True
          have "holds ?cq (contents ?cq (as @ [a]))"
            unfolding holds_def using h(2,3) packets_in_range [OF u(2)] e by (intro exI [of _ "as @ [a]"] exI [of _ us']) simp
          then show thesis using found [of r con1] readable h(1) same e True by auto
        next
          case False
          have rep: "queue_rep ?cq (as @ [a]) us' []" by (rule h(2))
          have full: "\<forall>x \<in> set as. b_used (c_mem (the (heap ?cq x))) \<noteq> 0" using packets_used [of ts ?cq as] u(2) cs by simp
          have one: "[a] = [] \<or> (\<exists>e f. [a] = [e] \<and> heap ?cq e = Some f \<and> b_used (c_mem f) = 0 \<and> idle_ok f)" using h(4,5) e by simp
          obtain cq' us2 where d: "drop_empty (cq_first ?cq) ?cq = Some cq'" "queue_rep cq' as us2 []" "contents cq' as = contents ?cq as"
            using drop_empty_ok [OF rep full one h(7)] by blast
          have "\<exists>cq as us ts. drop_empty (cq_first ?cq) ?cq = Some cq
             \<and> queue_rep cq as us [] \<and> packets ts (contents cq as) \<and> length (concat ts) \<le> n + data_size arr"
            by (rule exI [of _ cq'], rule exI [of _ as], rule exI [of _ us2], rule exI [of _ ts]) (use d cs u(2,3) in simp)
          then show thesis using found [of r con1] readable h(1) same e False by simp
        qed
      next
        assume "r = 0 \<and> rc_state con1 = rc_state ?con \<and> (\<exists>d. packet d c \<and> length d \<le> data_size arr)"
        then obtain d where d: "r = 0" "rc_state con1 = rc_state con" "packet d c" "length d \<le> data_size arr" by auto
        have ps: "packets (ts @ [d]) (contents ?cq (as @ [a]))" unfolding h(3) using packets_snoc [OF _ d(3) h(6)] u(2) by simp
        have "\<exists>cq as us ts. drop_empty (cq_first ?cq) ?cq = Some cq
             \<and> queue_rep cq as us [] \<and> packets ts (contents cq as) \<and> length (concat ts) \<le> n + data_size arr"
          by (rule exI [of _ ?cq], rule exI [of _ "as @ [a]"], rule exI [of _ us'], rule exI [of _ "ts @ [d]"])
            (use walk [OF h(2) ps] h(2) ps u(3) d(4) in simp)
        then show thesis using found [of r con1] readable h(1) same d by simp
      qed
    qed
  qed
qed

lemma read_state_any:
  assumes ok: "input_ok con n" and st: "reads con" and arr: "arrival_ok arr" and n: "n + data_size arr < 2 ^ 50"
  obtains r con' up' where "connection_handle_read_state junk mkstemp reopen cur_ts arr con up = Some (r, con', up')" "input_ok con' (n + data_size arr)"
    "rc_state con' \<in> {rc_state con, CON_STATE_HANDLE_REQUEST, CON_STATE_ERROR} \<or> rc_state con = CON_STATE_READ \<and> rc_state con' = CON_STATE_REQUEST_END"
    "rc_state con = CON_STATE_READ \<longrightarrow> content_queue con' = content_queue con"
    "rc_state con = CON_STATE_READ \<longrightarrow> rc_state con' = CON_STATE_HANDLE_REQUEST \<longrightarrow> http_status con' = 414 \<and> keep_alive con' = 0"
proof -
  note found = that
  have s: "rc_state con = CON_STATE_READ \<or> rc_state con = CON_STATE_READ_POST" using st by (simp add: reads_def)
  have i: "waiting con n" "buffer_ok (request con)" "\<exists>as us. body_rep (content_queue con) as us"
    "rc_state con = CON_STATE_READ_POST \<longrightarrow> cq_bytes_in (content_queue con) \<le> content_length con"
    using ok s by (auto simp: input_ok_def)
  obtain r con1 where f: "(if is_readable con then connection_handle_read junk arr (con\<lparr>read_idle_ts := cur_ts\<rparr>) else Some (0, con)) = Some (r, con1)"
    "same_rest con con1"
    "r = - 1 \<and> (rc_state con1 = CON_STATE_ERROR \<and> (\<exists>cs. holds (read_queue con1) cs) \<or> rc_state con1 = rc_state con \<and> waiting con1 n)
     \<or> r \<noteq> - 1 \<and> rc_state con1 = rc_state con \<and> (\<exists>cq as us ts. drop_empty (cq_first (read_queue con1)) (read_queue con1) = Some cq
         \<and> queue_rep cq as us [] \<and> packets ts (contents cq as) \<and> length (concat ts) \<le> n + data_size arr)"
    by (rule feed [OF i(1) arr])
  from f(3) show thesis
  proof
    assume a: "r = - 1 \<and> (rc_state con1 = CON_STATE_ERROR \<and> (\<exists>cs. holds (read_queue con1) cs) \<or> rc_state con1 = rc_state con \<and> waiting con1 n)"
    have e: "connection_handle_read_state junk mkstemp reopen cur_ts arr con up = Some (- 1, con1, up)"
      unfolding connection_handle_read_state_def f(1) using a by simp
    have "input_ok con1 (n + data_size arr)"
      using a i f(2) s waiting_mono [of con1 n "n + data_size arr"] by (auto simp: input_ok_def same_rest_def)
    then show thesis using found [OF e] a f(2) by (auto simp: same_rest_def)
  next
    assume a: "r \<noteq> - 1 \<and> rc_state con1 = rc_state con \<and> (\<exists>cq as us ts. drop_empty (cq_first (read_queue con1)) (read_queue con1) = Some cq
         \<and> queue_rep cq as us [] \<and> packets ts (contents cq as) \<and> length (concat ts) \<le> n + data_size arr)"
    then obtain cq as us ts where q: "drop_empty (cq_first (read_queue con1)) (read_queue con1) = Some cq"
      "queue_rep cq as us []" "packets ts (contents cq as)" "length (concat ts) \<le> n + data_size arr" by blast
    let ?con2 = "con1\<lparr>read_queue := cq\<rparr>"
    have q2: "queue_rep (read_queue ?con2) as us []" "packets ts (contents (read_queue ?con2) as)" "buffer_ok (request ?con2)"
      "length (concat ts) < 2 ^ 50" "any_body (content_queue ?con2) up []"
      using q i f(2) n by (simp_all add: same_rest_def any_body_def)
    define close where "close c = (if r = - 2 \<and> rc_state con = rc_state c then c\<lparr>rc_state := CON_STATE_ERROR\<rparr> else c)" for c :: read_con
    have ending: thesis if c: "queue_rep (read_queue con3) as us []" "packets ts' (dropWhile is_finished (contents (read_queue con3) as))"
      "length (concat ts') \<le> n + data_size arr" "buffer_ok (request con3)" "any_body (content_queue con3) up' []"
      "rc_state con3 \<in> {rc_state con, CON_STATE_HANDLE_REQUEST} \<or> rc_state con = CON_STATE_READ \<and> rc_state con3 = CON_STATE_REQUEST_END"
      "rc_state con3 = CON_STATE_READ_POST \<longrightarrow> cq_bytes_in (content_queue con3) \<le> content_length con3"
      "rc_state con = CON_STATE_READ \<longrightarrow> content_queue con3 = content_queue con"
      "rc_state con = CON_STATE_READ \<longrightarrow> rc_state con3 = CON_STATE_HANDLE_REQUEST \<longrightarrow> http_status con3 = 414 \<and> keep_alive con3 = 0"
      "connection_handle_read_state junk mkstemp reopen cur_ts arr con up =
        do { cq \<leftarrow> chunkqueue_remove_finished_chunks (read_queue (close con3)); Some (0, (close con3)\<lparr>read_queue := cq\<rparr>, up') }"
      for con3 ts' up'
    proof -
      obtain cq' where cq': "chunkqueue_remove_finished_chunks (read_queue con3) = Some cq'"
        "unread cq' ts' (skipped (dropWhile is_finished (contents (read_queue con3) as)))"
        by (rule remove_packets [OF c(1,2)])
      let ?c = "(close con3)\<lparr>read_queue := cq'\<rparr>"
      have w: "waiting ?c (n + data_size arr)" using cq'(2) c(3) by (auto simp: waiting_def)
      have "input_ok ?c (n + data_size arr)"
        unfolding input_ok_def using w waiting_holds [OF w] c(4-7) by (auto simp: close_def any_body_def)
      moreover have "rc_state ?c \<in> {rc_state con, CON_STATE_HANDLE_REQUEST, CON_STATE_ERROR} \<or> rc_state con = CON_STATE_READ \<and> rc_state ?c = CON_STATE_REQUEST_END"
        using c(6) by (auto simp: close_def)
      moreover have "connection_handle_read_state junk mkstemp reopen cur_ts arr con up = Some (0, ?c, up')"
        unfolding c(10) using cq'(1) by (simp add: close_def)
      moreover have "rc_state con = CON_STATE_READ \<longrightarrow> content_queue ?c = content_queue con" using c(8) by (auto simp: close_def)
      moreover have "rc_state con = CON_STATE_READ \<longrightarrow> rc_state ?c = CON_STATE_HANDLE_REQUEST \<longrightarrow> http_status ?c = 414 \<and> keep_alive ?c = 0"
        using c(9) by (auto simp: close_def)
      ultimately show thesis using found by blast
    qed
    from s show thesis
    proof
      assume st: "rc_state con = CON_STATE_READ"
      obtain con3 ts' where h: "read_header junk ?con2 = Some con3" "queue_rep (read_queue con3) as us []"
        "packets ts' (dropWhile is_finished (contents (read_queue con3) as))" "length (concat ts') \<le> length (concat ts)" "buffer_ok (request con3)"
        "content_queue con3 = content_queue ?con2" "rc_state con3 \<in> {rc_state ?con2, CON_STATE_REQUEST_END, CON_STATE_HANDLE_REQUEST}"
        "rc_state con3 = CON_STATE_HANDLE_REQUEST \<longrightarrow> rc_state ?con2 \<noteq> CON_STATE_HANDLE_REQUEST \<longrightarrow> http_status con3 = 414 \<and> keep_alive con3 = 0"
        by (rule read_header_any [OF q2(1-4)])
      have e: "connection_handle_read_state junk mkstemp reopen cur_ts arr con up =
        do { cq \<leftarrow> chunkqueue_remove_finished_chunks (read_queue (close con3)); Some (0, (close con3)\<lparr>read_queue := cq\<rparr>, up) }"
        unfolding connection_handle_read_state_def f(1) using a q(1) h(1) st by (simp add: close_def Let_def)
      show thesis
        by (rule ending [OF h(2,3) _ h(5) _ _ _ _ _ e]) (use h(4,6-8) q(4) q2(5) a st f(2) in \<open>auto simp: same_rest_def\<close>)
    next
      assume st: "rc_state con = CON_STATE_READ_POST"
      have b: "cq_bytes_in (content_queue ?con2) \<le> content_length ?con2" using i(4) st f(2) by (simp add: same_rest_def)
      obtain con3 up' ts' where h: "read_post junk mkstemp reopen (cq_first (read_queue ?con2)) ?con2 up = Some (con3, up')"
        "queue_rep (read_queue con3) as us []" "packets ts' (dropWhile is_finished (contents (read_queue con3) as))"
        "length (concat ts') \<le> length (concat ts)" "any_body (content_queue con3) up' []" "request con3 = request ?con2"
        "rc_state con3 = rc_state ?con2 \<and> cq_bytes_in (content_queue con3) \<le> content_length con3 \<or> rc_state con3 = CON_STATE_HANDLE_REQUEST"
        by (rule read_post_any [OF q2(1,2,5) b])
      let ?c = "if cq_bytes_in (content_queue con3) = content_length con3 then con3\<lparr>rc_state := CON_STATE_HANDLE_REQUEST\<rparr> else con3"
      have e: "connection_handle_read_state junk mkstemp reopen cur_ts arr con up =
        do { cq \<leftarrow> chunkqueue_remove_finished_chunks (read_queue (close ?c)); Some (0, (close ?c)\<lparr>read_queue := cq\<rparr>, up') }"
        unfolding connection_handle_read_state_def f(1) using a q(1) h(1) st by (simp add: close_def Let_def)
      show thesis
        by (rule ending [OF _ _ _ _ _ _ _ _ _ e, of ts']) (use h(2-7) q(4) q2(3) a st in auto)
    qed
  qed
qed

end
