(* ===== verification/Connection_Pool.thy ===== *)
theory Connection_Pool
  imports Prelude
begin

text \<open>
  The table of connections of lighttpd (connections.c and base.h). The slots \<open>conn_ptr\<close> hold the addresses of all connections that have ever
  been made; the first \<open>conn_used\<close> of them are in use, and a connection knows its place, \<open>-1\<close> if it is not in use.
  \<open>conn_resets\<close> records the calls of \<open>connection_reset\<close>, which are made on a connection before it is handed out.
  Taking a connection out swaps it with the last one in use, so that the rest of the table need not move.
\<close>

section \<open>The code\<close>

record connections =
  conn_ptr :: "nat list"
  conn_used :: nat
  conn_ndx :: "nat \<Rightarrow> int"
  conn_fresh :: nat
  conn_resets :: "nat list"

definition connections_init :: connections where
  "connections_init = \<lparr>conn_ptr = [], conn_used = 0, conn_ndx = \<lambda>_. - 1, conn_fresh = 0, conn_resets = []\<rparr>"

text \<open>128 new connections at the end of the table.\<close>

definition grow_connections :: "connections \<Rightarrow> connections" where
  "grow_connections conns = conns\<lparr>conn_ptr := conn_ptr conns @ [conn_fresh conns ..< conn_fresh conns + 128],
     conn_ndx := \<lambda>a. if conn_fresh conns \<le> a \<and> a < conn_fresh conns + 128 then - 1 else conn_ndx conns a,
     conn_fresh := conn_fresh conns + 128\<rparr>"

definition connections_get_new_connection :: "connections \<Rightarrow> (nat \<times> connections) option" where
  "connections_get_new_connection conns = do {
     let conns = (if length (conn_ptr conns) = 0 then grow_connections conns
       else if length (conn_ptr conns) = conn_used conns then grow_connections conns else conns);
     if conn_used conns < length (conn_ptr conns) then
       Some (conn_ptr conns ! conn_used conns, conns\<lparr>conn_resets := conn_resets conns @ [conn_ptr conns ! conn_used conns],
         conn_ndx := (conn_ndx conns)(conn_ptr conns ! conn_used conns := int (conn_used conns)),
         conn_used := conn_used conns + 1\<rparr>)
     else None
   }"

definition connection_del :: "nat option \<Rightarrow> connections \<Rightarrow> (int \<times> connections) option" where
  "connection_del con conns = (case con of None \<Rightarrow> Some (- 1, conns) | Some a \<Rightarrow>
     if conn_ndx conns a = - 1 then Some (- 1, conns)
     else do {
       let i = nat (conn_ndx conns a);
       let last = conn_used conns - 1;
       conns \<leftarrow> (if conn_used conns = 0 then None
         else if i \<noteq> last then
           if i < length (conn_ptr conns) \<and> last < length (conn_ptr conns) then do {
             let p = (conn_ptr conns)[i := conn_ptr conns ! last, last := conn_ptr conns ! i];
             Some (conns\<lparr>conn_ptr := p, conn_ndx := ((conn_ndx conns)(p ! i := int i))(p ! last := - 1)\<rparr>)
           } else None
         else Some conns);
       Some (0, conns\<lparr>conn_used := conn_used conns - 1, conn_ndx := (conn_ndx conns)(a := - 1)\<rparr>)
     })"

section \<open>The invariant\<close>

definition in_use :: "connections \<Rightarrow> nat set" where
  "in_use conns = set (take (conn_used conns) (conn_ptr conns))"

definition pool_ok :: "connections \<Rightarrow> bool" where
  "pool_ok conns \<longleftrightarrow> distinct (conn_ptr conns) \<and> conn_used conns \<le> length (conn_ptr conns) \<and> (\<forall>a \<in> set (conn_ptr conns). a < conn_fresh conns)
     \<and> (\<forall>i < conn_used conns. conn_ndx conns (conn_ptr conns ! i) = int i)
     \<and> (\<forall>a. a \<notin> in_use conns \<longrightarrow> conn_ndx conns a = - 1)"

lemma connections_init_ok: "pool_ok connections_init" "in_use connections_init = {}"
  by (simp_all add: pool_ok_def in_use_def connections_init_def)

lemma in_use_nth: "pool_ok conns \<Longrightarrow> a \<in> in_use conns \<longleftrightarrow> (\<exists>i < conn_used conns. conn_ptr conns ! i = a)"
  by (auto simp: in_use_def pool_ok_def in_set_conv_nth)

lemma ndx_of: "pool_ok conns \<Longrightarrow> a \<in> in_use conns \<Longrightarrow> \<exists>i < conn_used conns. conn_ptr conns ! i = a \<and> conn_ndx conns a = int i"
  by (auto simp: in_use_nth) (auto simp: pool_ok_def)

lemma in_use_iff: "pool_ok conns \<Longrightarrow> a \<in> in_use conns \<longleftrightarrow> conn_ndx conns a \<noteq> - 1"
  using ndx_of by (fastforce simp: pool_ok_def)

lemma grow_ok:
  assumes "pool_ok conns"
  shows "pool_ok (grow_connections conns)" "in_use (grow_connections conns) = in_use conns"
    "conn_used (grow_connections conns) < length (conn_ptr (grow_connections conns))"
proof -
  show u: "in_use (grow_connections conns) = in_use conns" using assms by (simp add: in_use_def grow_connections_def pool_ok_def)
  show "conn_used (grow_connections conns) < length (conn_ptr (grow_connections conns))"
    using assms by (simp add: grow_connections_def pool_ok_def)
  have "conn_ndx (grow_connections conns) a = - 1" if "a \<notin> in_use conns" for a
    using assms that by (simp add: grow_connections_def pool_ok_def)
  moreover have "conn_ndx (grow_connections conns) (conn_ptr (grow_connections conns) ! i) = int i" if "i < conn_used conns" for i
  proof -
    have i: "i < length (conn_ptr conns)" using assms that by (simp add: pool_ok_def)
    have "conn_ptr conns ! i < conn_fresh conns" using assms i by (simp add: pool_ok_def)
    then have "conn_ndx (grow_connections conns) (conn_ptr (grow_connections conns) ! i) = conn_ndx conns (conn_ptr conns ! i)"
      using i by (simp add: grow_connections_def nth_append)
    then show ?thesis using assms that by (simp add: pool_ok_def)
  qed
  ultimately show "pool_ok (grow_connections conns)" unfolding pool_ok_def u
    using assms by (auto simp: grow_connections_def pool_ok_def)
qed

lemma get_new_ok:
  assumes "pool_ok conns"
  obtains a conns' where "connections_get_new_connection conns = Some (a, conns')" "pool_ok conns'" "a \<notin> in_use conns"
    "in_use conns' = insert a (in_use conns)" "conn_resets conns' = conn_resets conns @ [a]"
    "conn_fresh conns' = conn_fresh conns \<or> conn_fresh conns' = conn_fresh conns + 128" "a < conn_fresh conns'"
proof -
  define c where "c = (if length (conn_ptr conns) = 0 then grow_connections conns
       else if length (conn_ptr conns) = conn_used conns then grow_connections conns else conns)"
  have l: "conn_used conns \<le> length (conn_ptr conns)" using assms by (simp add: pool_ok_def)
  have "conn_resets (grow_connections conns) = conn_resets conns" by (simp add: grow_connections_def)
  then have r: "conn_resets c = conn_resets conns" unfolding c_def by simp
  have f: "conn_fresh c = conn_fresh conns \<or> conn_fresh c = conn_fresh conns + 128" unfolding c_def by (simp add: grow_connections_def)
  have c: "pool_ok c" "in_use c = in_use conns" "conn_used c < length (conn_ptr c)"
    using grow_ok [OF assms] assms l unfolding c_def by auto
  let ?a = "conn_ptr c ! conn_used c"
  have n: "conn_ptr c ! i \<noteq> ?a" if "i < conn_used c" for i using c(1,3) that by (simp add: pool_ok_def nth_eq_iff_index_eq)
  have l2: "?a < conn_fresh c" using c(1,3) by (simp add: pool_ok_def)
  have a: "?a \<notin> in_use c" using n unfolding in_use_nth [OF c(1)] by blast
  let ?c = "c\<lparr>conn_resets := conn_resets c @ [?a], conn_ndx := (conn_ndx c)(?a := int (conn_used c)), conn_used := conn_used c + 1\<rparr>"
  have u: "in_use ?c = insert ?a (in_use c)" using c(3) by (simp add: in_use_def take_Suc_conv_app_nth)
  have "pool_ok ?c" unfolding pool_ok_def u
    using c(1,3) n by (simp add: pool_ok_def less_Suc_eq)
  moreover have "connections_get_new_connection conns = Some (?a, ?c)"
    unfolding connections_get_new_connection_def c_def [symmetric] Let_def using c(3) by simp
  ultimately show thesis using that [of ?a ?c] c(2) a u r f l2 by simp
qed

lemma swap_take:
  assumes "i < u" "u < length xs" "distinct xs"
  shows "set (take u (xs[i := xs ! u, u := xs ! i])) = set (take (Suc u) xs) - {xs ! i}"
proof -
  have "take u (xs[i := xs ! u, u := xs ! i]) = (take u xs)[i := xs ! u]" using assms by (simp add: take_update_swap list_update_beyond)
  moreover have "set ((take u xs)[i := xs ! u]) = insert (xs ! u) (set (take u xs) - {xs ! i})"
    using assms set_update_distinct [of "take u xs" i "xs ! u"] by simp
  moreover have "xs ! u \<noteq> xs ! i" using assms by (simp add: nth_eq_iff_index_eq)
  ultimately show ?thesis using assms by (auto simp: take_Suc_conv_app_nth)
qed

lemma del_ok:
  assumes p: "pool_ok conns" and a: "a \<in> in_use conns"
  obtains conns' where "connection_del (Some a) conns = Some (0, conns')" "pool_ok conns'" "in_use conns' = in_use conns - {a}"
    "conn_resets conns' = conn_resets conns" "conn_fresh conns' = conn_fresh conns"
proof -
  obtain i where i: "i < conn_used conns" "conn_ptr conns ! i = a" "conn_ndx conns a = int i" using ndx_of [OF p a] by blast
  let ?u = "conn_used conns - 1" and ?xs = "conn_ptr conns"
  have d: "distinct ?xs" "?u < length ?xs" "i \<le> ?u" "conn_used conns = Suc ?u" using p i(1) by (auto simp: pool_ok_def)
  show thesis
  proof (cases "i = ?u")
    case True
    let ?c = "conns\<lparr>conn_used := ?u, conn_ndx := (conn_ndx conns)(a := - 1)\<rparr>"
    have t: "take (conn_used conns) ?xs = take ?u ?xs @ [a]" using d(2,4) i(2) True take_Suc_conv_app_nth [of ?u ?xs] by simp
    have n: "a \<notin> set (take ?u ?xs)" using d(1) t by (metis distinct_take not_distinct_conv_prefix)
    have u: "in_use ?c = in_use conns - {a}" using t n by (auto simp: in_use_def)
    have "conn_ptr conns ! j \<noteq> a" if "j < ?u" for j using n that d(2) by (auto simp: in_set_conv_nth)
    then have "pool_ok ?c" unfolding pool_ok_def u using p by (auto simp: pool_ok_def)
    moreover have "connection_del (Some a) conns = Some (0, ?c)" using i(3) True d(4) by (simp add: connection_del_def Let_def del: of_nat_diff One_nat_def)
    ultimately show thesis using that [of ?c] u by simp
  next
    case False
    then have l: "i < ?u" using d(3) by simp
    let ?p = "?xs[i := ?xs ! ?u, ?u := ?xs ! i]"
    let ?c = "conns\<lparr>conn_ptr := ?p, conn_used := ?u, conn_ndx := (((conn_ndx conns)(?p ! i := int i))(?p ! ?u := - 1))(a := - 1)\<rparr>"
    have pi: "?p ! i = ?xs ! ?u" "?p ! ?u = a" "length ?p = length ?xs" using l d(2) i(2) by simp_all
    have set_p: "set ?p = set ?xs" using l d(2) by (simp add: set_swap)
    have u: "in_use ?c = in_use conns - {a}" using swap_take [OF l d(2,1)] d(4) i(2) by (simp add: in_use_def)
    have "conn_ndx ?c (?p ! j) = int j" if "j < ?u" for j
    proof (cases "j = i")
      case True
      have "?xs ! ?u \<noteq> a" using i(2) l d(1,2) by (auto simp: nth_eq_iff_index_eq)
      then show ?thesis using True pi by simp
    next
      case False
      then have "?p ! j = ?xs ! j" "?xs ! j \<noteq> ?xs ! ?u" "?xs ! j \<noteq> a" using that i(2) l d(1,2) by (auto simp: nth_eq_iff_index_eq)
      then show ?thesis using p that pi(1,2) by (simp add: pool_ok_def)
    qed
    moreover have "conn_ndx ?c b = - 1" if "b \<notin> in_use conns - {a}" for b
    proof (cases "b = a")
      case False
      then have "b \<notin> in_use conns" using that by simp
      moreover have "?xs ! ?u \<in> in_use conns" unfolding in_use_nth [OF p] using d(4) by (intro exI [of _ ?u]) simp
      ultimately have "conn_ndx conns b = - 1" "b \<noteq> ?xs ! ?u" using p by (auto simp: pool_ok_def)
      then show ?thesis using pi by simp
    qed simp
    ultimately have "pool_ok ?c"
      unfolding pool_ok_def u using p d(1,2) set_p distinct_swap [of i ?xs ?u] l by (simp add: pool_ok_def)
    moreover have "connection_del (Some a) conns = Some (0, ?c)"
      using i False l d(2,4) by (simp add: connection_del_def Let_def)
    ultimately show thesis using that [of ?c] u by simp
  qed
qed

lemma del_unused: "pool_ok conns \<Longrightarrow> a \<notin> in_use conns \<Longrightarrow> connection_del (Some a) conns = Some (- 1, conns)"
  by (simp add: connection_del_def pool_ok_def)

section \<open>Sequences of operations\<close>

datatype pool_call = Open | Close_slot nat

text \<open>The table with the connections that have been opened, in order, and the set of connections as the abstract machine has it.\<close>

fun run_pool :: "pool_call list \<Rightarrow> connections \<Rightarrow> (nat list \<times> connections) option" where
  "run_pool [] conns = Some ([], conns)"
| "run_pool (Open # cs) conns = do { (a, conns) \<leftarrow> connections_get_new_connection conns; (as, conns) \<leftarrow> run_pool cs conns; Some (a # as, conns) }"
| "run_pool (Close_slot a # cs) conns = do { (_, conns) \<leftarrow> connection_del (Some a) conns; run_pool cs conns }"

fun pool_sim :: "pool_call list \<Rightarrow> nat list \<Rightarrow> nat set \<Rightarrow> nat set \<Rightarrow> bool" where
  "pool_sim [] as S T \<longleftrightarrow> as = [] \<and> T = S"
| "pool_sim (Open # cs) as S T \<longleftrightarrow> (\<exists>a bs. as = a # bs \<and> a \<notin> S \<and> pool_sim cs bs (insert a S) T)"
| "pool_sim (Close_slot a # cs) as S T \<longleftrightarrow> pool_sim cs as (S - {a}) T"

text \<open>C25: The table of connections is a set: opening gives a connection that is not in use, closing takes out exactly that
  connection, closing one that is not in use does nothing, whatever the order of the calls; and a connection that is in use is
  always found at its own place in the table. Every connection that is opened has been reset just before.\<close>
theorem pool_refines_set:
  assumes "pool_ok conns"
  shows "\<exists>as conns'. run_pool cs conns = Some (as, conns') \<and> pool_ok conns' \<and> pool_sim cs as (in_use conns) (in_use conns')
    \<and> conn_resets conns' = conn_resets conns @ as
    \<and> (\<forall>a \<in> in_use conns'. conn_ptr conns' ! nat (conn_ndx conns' a) = a)"
  using assms
proof (induction cs arbitrary: conns)
  case Nil
  then show ?case using ndx_of by fastforce
next
  case (Cons c cs)
  show ?case
  proof (cases c)
    case Open
    obtain a p where a: "connections_get_new_connection conns = Some (a, p)" "pool_ok p" "a \<notin> in_use conns" "in_use p = insert a (in_use conns)"
      "conn_resets p = conn_resets conns @ [a]" by (rule get_new_ok [OF Cons.prems])
    show ?thesis using Cons.IH [OF a(2)] Open a by auto
  next
    case (Close_slot a)
    show ?thesis
    proof (cases "a \<in> in_use conns")
      case True
      obtain p where "connection_del (Some a) conns = Some (0, p)" "pool_ok p" "in_use p = in_use conns - {a}"
        "conn_resets p = conn_resets conns" by (rule del_ok [OF Cons.prems True])
      then show ?thesis using Cons.IH [of p] Close_slot by auto
    next
      case False
      then show ?thesis using Cons.IH [OF Cons.prems] del_unused [OF Cons.prems False] Close_slot by simp
    qed
  qed
qed

theorem pool_refines_set_witness:
  "\<exists>as conns'. run_pool [Open, Open, Open, Close_slot 0, Open] connections_init = Some (as, conns') \<and> pool_ok conns'
    \<and> pool_sim [Open, Open, Open, Close_slot 0, Open] as {} (in_use conns')"
  using pool_refines_set [OF connections_init_ok(1), of "[Open, Open, Open, Close_slot 0, Open]"]
  unfolding connections_init_ok(2) by blast

end
