(* ===== verification/Connections.thy ===== *)
theory Connections
  imports Reading_Safety Connection_Pool
begin

text \<open>
  The life of a connection (connections.c): \<open>connection_state_machine\<close> drives it from the start of a request through reading,
  handling and writing to its end, \<open>connection_handle_fdevent\<close> is called when something happens at its descriptor,
  \<open>connection_reset\<close> and \<open>connection_close\<close> end a request and the connection.

  A connection is the record \<open>conn\<close>, with the fields that reading uses in \<open>rd\<close>. The server has the table of
  connections, counters and a record of the calls it makes. The functions that belong to the plug-ins, to the configuration and to the
  parser of requests are parameters (\<open>system\<close>); the handler of a request can answer differently at each call, so that
  the \<open>world\<close> has the answers to come, like the bytes that arrive and the results of writing.
\<close>

section \<open>The state\<close>

datatype handler_t = HANDLER_UNSET | HANDLER_GO_ON | HANDLER_FINISHED | HANDLER_COMEBACK | HANDLER_WAIT_FOR_EVENT | HANDLER_ERROR
  | HANDLER_WAIT_FOR_FD

record conn =
  rd :: read_con
  con_fd :: int
  con_writable :: bool
  con_finished :: bool
  con_mode :: nat
  in_error_handler :: bool
  error_handler_saved_status :: int
  conf_error_handler :: buffer
  error_handler :: buffer
  con_uri :: buffer
  con_physical :: buffer
  write_queue :: chunkqueue
  limits :: traffic
  close_timeout_ts :: int
  write_request_ts :: int
  request_start :: int
  request_count :: nat
  loops_per_request :: nat

datatype net_call = Register int | Event_in int | Event_out int | Event_del int | Unregister int | Shut int | Discard int | Close_fd int

record server =
  cur_ts :: int
  cur_fds :: int
  want_fds :: int
  con_opened :: int
  con_written :: int
  con_closed :: int
  max_conns :: nat
  fdwaitqueue :: "nat list"
  conns :: connections
  net_calls :: "net_call list"

record world =
  arrivals :: "arrival list"
  sent :: io
  uploads :: upload
  handlers :: "(conn \<Rightarrow> handler_t \<times> conn) list"

record system =
  s_junk :: "nat \<Rightarrow> byte"
  s_mkstemp :: "byte list \<Rightarrow> int \<times> byte list"
  s_reopen :: "byte list \<Rightarrow> int"
  s_backend :: backend
  s_shutdown :: "int \<Rightarrow> bool"
  s_pending :: int
  s_tempdirs :: "buffer list option"
  http_request_parse :: "conn \<Rightarrow> bool \<times> conn"
  handle_write_prepare :: "conn \<Rightarrow> int \<times> conn"
  request_done :: "conn \<Rightarrow> conn"
  plugin_close :: "conn \<Rightarrow> conn"
  plugin_reset :: "conn \<Rightarrow> conn"
  config_setup :: "conn \<Rightarrow> conn"

abbreviation state_of :: "conn \<Rightarrow> con_state" where
  "state_of con \<equiv> rc_state (rd con)"

definition connection_set_state :: "con_state \<Rightarrow> conn \<Rightarrow> conn" where
  "connection_set_state st con = con\<lparr>rd := (rd con)\<lparr>rc_state := st\<rparr>\<rparr>"

definition net :: "net_call list \<Rightarrow> server \<Rightarrow> server" where
  "net cs srv = srv\<lparr>net_calls := net_calls srv @ cs\<rparr>"

section \<open>A new connection, the end of a request and of a connection\<close>

definition connection_init :: "system \<Rightarrow> conn option" where
  "connection_init sys = do {
     bq \<leftarrow> snd (chunkqueue_set_tempdirs (Some chunkqueue_init) (s_tempdirs sys));
     Some (config_setup sys \<lparr>rd = \<lparr>rc_state = CON_STATE_CONNECT, is_readable = False, read_idle_ts = 0, http_status = 0, keep_alive = 0, bytes_read = 0,
         read_queue = chunkqueue_init, content_queue = bq, request = buffer_init, content_length = 0\<rparr>,
       con_fd = 0, con_writable = False, con_finished = False, con_mode = 0, in_error_handler = False, error_handler_saved_status = 0,
       conf_error_handler = buffer_init, error_handler = buffer_init, con_uri = buffer_init, con_physical = buffer_init, write_queue = chunkqueue_init,
       limits = \<lparr>global_kbytes_per_second = 0, kbytes_per_second = 0, global_bytes_per_second_cnt = 0, bytes_written = 0, bytes_written_cur_second = 0,
         traffic_limit_reached = False, in_joblist = False, jobs = 0, corks = []\<rparr>,
       close_timeout_ts = 0, write_request_ts = 0, request_start = 0, request_count = 0, loops_per_request = 0\<rparr>)
   }"

definition connection_reset :: "system \<Rightarrow> conn \<Rightarrow> conn option" where
  "connection_reset sys con = do {
     let con = plugin_reset sys con;
     let con = con\<lparr>rd := (rd con)\<lparr>is_readable := True, http_status := 0, bytes_read := 0\<rparr>, con_writable := True, con_finished := False,
       limits := (limits con)\<lparr>bytes_written := 0, bytes_written_cur_second := 0\<rparr>, loops_per_request := 0, con_mode := 0\<rparr>;
     uri \<leftarrow> buffer_clear (con_uri con);
     req \<leftarrow> buffer_clear (request (rd con));
     path \<leftarrow> buffer_clear (con_physical con);
     eh \<leftarrow> buffer_clear (error_handler con);
     let con = con\<lparr>con_uri := uri, rd := (rd con)\<lparr>request := req, content_length := 0\<rparr>, con_physical := path, error_handler := eh\<rparr>;
     wq \<leftarrow> chunkqueue_reset (write_queue con);
     bq \<leftarrow> chunkqueue_reset (content_queue (rd con));
     let con = con\<lparr>write_queue := wq, rd := (rd con)\<lparr>content_queue := bq\<rparr>, in_error_handler := False\<rparr>;
     Some (config_setup sys con)
   }"

definition connection_close :: "nat \<Rightarrow> conn \<Rightarrow> server \<Rightarrow> (conn \<times> server) option" where
  "connection_close self con srv = do {
     let srv = net [Event_del (con_fd con), Unregister (con_fd con), Close_fd (con_fd con)] srv;
     let srv = srv\<lparr>cur_fds := cur_fds srv - 1\<rparr>;
     (_, p) \<leftarrow> connection_del (Some self) (conns srv);
     Some (connection_set_state CON_STATE_CONNECT con, srv\<lparr>conns := p\<rparr>)
   }"

section \<open>Writing\<close>

definition append_job :: "conn \<Rightarrow> conn" where
  "append_job con = con\<lparr>limits := joblist_append (limits con)\<rparr>"

definition connection_handle_write :: "system \<Rightarrow> conn \<Rightarrow> world \<Rightarrow> (int \<times> conn \<times> world) option" where
  "connection_handle_write sys con w = do {
     (ret, t, wq, io) \<leftarrow> network_write_chunkqueue (s_backend sys) (limits con) (write_queue con) (sent w);
     let con = con\<lparr>limits := t, write_queue := wq\<rparr>;
     let con = (if ret = 0 then if con_finished con then append_job (connection_set_state CON_STATE_RESPONSE_END con) else con
       else if ret = - 1 then append_job (connection_set_state CON_STATE_ERROR con)
       else if ret = - 2 then append_job (connection_set_state CON_STATE_ERROR con)
       else if ret = 1 then con\<lparr>con_writable := False\<rparr>
       else con);
     Some (0, con, w\<lparr>sent := io\<rparr>)
   }"

text \<open>The part that \<open>connection_state_machine\<close> and \<open>connection_handle_fdevent\<close> have in common.\<close>

definition write_if_writable :: "system \<Rightarrow> conn \<Rightarrow> server \<Rightarrow> world \<Rightarrow> (conn \<times> world) option" where
  "write_if_writable sys con srv w = (if chunkqueue_is_empty (write_queue con) = 0 \<and> con_writable con then do {
     (r, con, w) \<leftarrow> connection_handle_write sys con w;
     Some (if r = - 1 then connection_set_state CON_STATE_ERROR con
       else if state_of con = CON_STATE_WRITE then con\<lparr>write_request_ts := cur_ts srv\<rparr> else con, w)
   } else Some (con, w))"

section \<open>Reading\<close>

text \<open>The system is only asked for more when the connection is readable; when nothing has come in, reading would block.\<close>

definition nothing :: arrival where
  "nothing = \<lparr>available = Some 0, incoming = Inl EAGAIN\<rparr>"

definition next_arrival :: "conn \<Rightarrow> world \<Rightarrow> arrival \<times> world" where
  "next_arrival con w = (if is_readable (rd con)
     then case arrivals w of [] \<Rightarrow> (nothing, w) | a # as \<Rightarrow> (a, w\<lparr>arrivals := as\<rparr>) else (nothing, w))"

definition handle_read :: "system \<Rightarrow> conn \<Rightarrow> server \<Rightarrow> world \<Rightarrow> (conn \<times> world) option" where
  "handle_read sys con srv w = do {
     let (arr, w) = next_arrival con w;
     (_, r, up) \<leftarrow> connection_handle_read_state (s_junk sys) (s_mkstemp sys) (s_reopen sys) (cur_ts srv) arr (rd con) (uploads w);
     Some (con\<lparr>rd := r\<rparr>, w\<lparr>uploads := up\<rparr>)
   }"

section \<open>Handling the request\<close>

definition http_response_prepare :: "conn \<Rightarrow> world \<Rightarrow> handler_t \<times> conn \<times> world" where
  "http_response_prepare con w = (case handlers w of [] \<Rightarrow> (HANDLER_WAIT_FOR_EVENT, con, w)
     | h # hs \<Rightarrow> (let (r, con) = h con in (r, con, w\<lparr>handlers := hs\<rparr>)))"

text \<open>The handler has finished; the first result says that the error handler is to be called.\<close>

definition handler_finished :: "system \<Rightarrow> conn \<Rightarrow> (bool \<times> conn) option" where
  "handler_finished sys con = do {
     let failed = (http_status (rd con) = 404 \<or> http_status (rd con) = 403);
     if con_mode con = 0 \<and> failed \<and> \<not> in_error_handler con
        \<and> (\<not> buffer_is_empty (Some (conf_error_handler con)) \<or> \<not> buffer_is_empty (Some (error_handler con))) then do {
       let con = con\<lparr>error_handler_saved_status := http_status (rd con), rd := (rd con)\<lparr>http_status := 0\<rparr>\<rparr>;
       uri \<leftarrow> (if buffer_is_empty (Some (error_handler con))
         then after (buffer_copy_string_buffer (s_junk sys) (Some (con_uri con)) (Some (conf_error_handler con)))
         else after (buffer_copy_string_buffer (s_junk sys) (Some (con_uri con)) (Some (error_handler con))));
       path \<leftarrow> buffer_clear (con_physical con);
       let con = con\<lparr>con_uri := uri, con_physical := path, in_error_handler := True\<rparr>;
       Some (True, connection_set_state CON_STATE_HANDLE_REQUEST con)
     }
     else do {
       let con = (if con_mode con = 0 \<and> failed \<and> in_error_handler con
         then con\<lparr>rd := (rd con)\<lparr>http_status := error_handler_saved_status con\<rparr>\<rparr> else con);
       let con = (if http_status (rd con) = 0 then con\<lparr>rd := (rd con)\<lparr>http_status := 200\<rparr>\<rparr> else con);
       Some (False, connection_set_state CON_STATE_RESPONSE_START con)
     }
   }"

definition handle_request :: "system \<Rightarrow> nat \<Rightarrow> conn \<Rightarrow> server \<Rightarrow> world \<Rightarrow> (bool \<times> conn \<times> server \<times> world) option" where
  "handle_request sys self con srv w = (let (r, con, w) = http_response_prepare con w in
     case r of
       HANDLER_FINISHED \<Rightarrow> do { (again, con) \<leftarrow> handler_finished sys con; Some (again, con, srv, w) }
     | HANDLER_WAIT_FOR_FD \<Rightarrow> Some (False, connection_set_state CON_STATE_HANDLE_REQUEST con,
         srv\<lparr>want_fds := want_fds srv + 1, fdwaitqueue := fdwaitqueue srv @ [self]\<rparr>, w)
     | HANDLER_COMEBACK \<Rightarrow> Some (True, connection_set_state CON_STATE_HANDLE_REQUEST con, srv, w)
     | HANDLER_WAIT_FOR_EVENT \<Rightarrow> Some (False, connection_set_state CON_STATE_HANDLE_REQUEST con, srv, w)
     | HANDLER_ERROR \<Rightarrow> Some (False, connection_set_state CON_STATE_ERROR con, srv, w)
     | _ \<Rightarrow> Some (False, con, srv, w))"

section \<open>The other states\<close>

definition request_starts :: "conn \<Rightarrow> server \<Rightarrow> conn" where
  "request_starts con srv = connection_set_state CON_STATE_READ (con\<lparr>request_start := cur_ts srv, rd := (rd con)\<lparr>read_idle_ts := cur_ts srv\<rparr>,
     request_count := request_count con + 1, loops_per_request := 0\<rparr>)"

definition request_ends :: "system \<Rightarrow> conn \<Rightarrow> conn" where
  "request_ends sys con = (let (more, con) = http_request_parse sys con in
     connection_set_state (if more then CON_STATE_READ_POST else CON_STATE_HANDLE_REQUEST) con)"

definition response_starts :: "system \<Rightarrow> conn \<Rightarrow> conn" where
  "response_starts sys con = (let (r, con) = handle_write_prepare sys con in
     connection_set_state (if r = - 1 then CON_STATE_ERROR else CON_STATE_WRITE) con)"

definition response_ends :: "system \<Rightarrow> nat \<Rightarrow> conn \<Rightarrow> server \<Rightarrow> (conn \<times> server) option" where
  "response_ends sys self con srv = do {
     let con = request_done sys con;
     let srv = srv\<lparr>con_written := con_written srv + 1\<rparr>;
     (con, srv) \<leftarrow> (if keep_alive (rd con) \<noteq> 0 then Some (connection_set_state CON_STATE_REQUEST_START con, srv)
       else do {
         (con, srv) \<leftarrow> connection_close self (plugin_close sys con) srv;
         Some (con, srv\<lparr>con_closed := con_closed srv + 1\<rparr>)
       });
     con \<leftarrow> connection_reset sys con;
     Some (con, srv)
   }"

definition not_connected :: "conn \<Rightarrow> conn option" where
  "not_connected con = do {
     rq \<leftarrow> chunkqueue_reset (read_queue (rd con));
     Some (con\<lparr>rd := (rd con)\<lparr>read_queue := rq\<rparr>, request_count := 0\<rparr>)
   }"

definition closing :: "system \<Rightarrow> nat \<Rightarrow> conn \<Rightarrow> server \<Rightarrow> (conn \<times> server) option" where
  "closing sys self con srv = do {
     let (con, srv) = (if keep_alive (rd con) \<noteq> 0
       then if s_pending sys > 0 then (con, net [Discard (con_fd con)] srv) else (con\<lparr>close_timeout_ts := 0\<rparr>, srv)
       else (con\<lparr>close_timeout_ts := 0\<rparr>, srv));
     if cur_ts srv - close_timeout_ts con > 1 then connection_close self con srv else Some (con, srv)
   }"

definition connection_fails :: "system \<Rightarrow> nat \<Rightarrow> conn \<Rightarrow> server \<Rightarrow> (conn \<times> server) option" where
  "connection_fails sys self con srv = do {
     let con = (if http_status (rd con) \<noteq> 0 then request_done sys con else con);
     let con = (if con_mode con = 0 then con else plugin_close sys con);
     con \<leftarrow> connection_reset sys con;
     let srv = (if keep_alive (rd con) = 1 then net [Shut (con_fd con)] srv else srv);
     (con, srv) \<leftarrow> (if keep_alive (rd con) = 1 \<and> s_shutdown sys (con_fd con)
       then Some (connection_set_state CON_STATE_CLOSE (con\<lparr>close_timeout_ts := cur_ts srv\<rparr>), srv)
       else connection_close self con srv);
     Some (con\<lparr>rd := (rd con)\<lparr>keep_alive := 0\<rparr>\<rparr>, srv\<lparr>con_closed := con_closed srv + 1\<rparr>)
   }"

section \<open>The state machine\<close>

text \<open>One turn of the loop; the first result stands for \<open>done == -1\<close>.\<close>

definition connection_step :: "system \<Rightarrow> nat \<Rightarrow> conn \<times> server \<times> world \<Rightarrow> (bool \<times> conn \<times> server \<times> world) option" where
  "connection_step sys self s = (case s of (con, srv, w) \<Rightarrow>
     case state_of con of
       CON_STATE_REQUEST_START \<Rightarrow> Some (False, request_starts con srv, srv, w)
     | CON_STATE_REQUEST_END \<Rightarrow> Some (False, request_ends sys con, srv, w)
     | CON_STATE_HANDLE_REQUEST \<Rightarrow> handle_request sys self con srv w
     | CON_STATE_RESPONSE_START \<Rightarrow> Some (False, response_starts sys con, srv, w)
     | CON_STATE_RESPONSE_END \<Rightarrow> do { (con, srv) \<leftarrow> response_ends sys self con srv; Some (False, con, srv, w) }
     | CON_STATE_CONNECT \<Rightarrow> do { con \<leftarrow> not_connected con; Some (False, con, srv, w) }
     | CON_STATE_CLOSE \<Rightarrow> do { (con, srv) \<leftarrow> closing sys self con srv; Some (False, con, srv, w) }
     | CON_STATE_READ_POST \<Rightarrow> do { (con, w) \<leftarrow> handle_read sys con srv w; Some (False, con, srv, w) }
     | CON_STATE_READ \<Rightarrow> do { (con, w) \<leftarrow> handle_read sys con srv w; Some (False, con, srv, w) }
     | CON_STATE_WRITE \<Rightarrow> do { (con, w) \<leftarrow> write_if_writable sys con srv w; Some (False, con, srv, w) }
     | CON_STATE_ERROR \<Rightarrow> do { (con, srv) \<leftarrow> connection_fails sys self con srv; Some (False, con, srv, w) })"

partial_function (option) connection_loop :: "system \<Rightarrow> nat \<Rightarrow> conn \<times> server \<times> world \<Rightarrow> (conn \<times> server \<times> world) option" where
  "connection_loop sys self s = do {
     (again, s') \<leftarrow> connection_step sys self s;
     if again then connection_loop sys self s'
     else if state_of (fst s) = state_of (fst s') then Some s'
     else connection_loop sys self s'
   }"

definition watch :: "conn \<Rightarrow> server \<Rightarrow> server" where
  "watch con srv = (if state_of con \<in> {CON_STATE_READ_POST, CON_STATE_READ, CON_STATE_CLOSE} then net [Event_in (con_fd con)] srv
     else if state_of con = CON_STATE_WRITE \<and> chunkqueue_is_empty (write_queue con) = 0 \<and> \<not> con_writable con
       \<and> \<not> traffic_limit_reached (limits con) then net [Event_out (con_fd con)] srv
     else net [Event_del (con_fd con)] srv)"

definition connection_state_machine :: "system \<Rightarrow> nat \<Rightarrow> conn \<times> server \<times> world \<Rightarrow> (conn \<times> server \<times> world) option" where
  "connection_state_machine sys self s = do {
     (con, srv, w) \<leftarrow> connection_loop sys self s;
     Some (con, watch con srv, w)
   }"

section \<open>An event at the descriptor\<close>

record revents =
  ev_in :: bool
  ev_out :: bool
  ev_hup :: bool
  ev_err :: bool
  ev_other :: bool

text \<open>What the events say about the connection.\<close>

definition take_events :: "revents \<Rightarrow> conn \<Rightarrow> conn" where
  "take_events ev con = (
     let con = (if ev_in ev then con\<lparr>rd := (rd con)\<lparr>is_readable := True\<rparr>\<rparr> else con);
         con = (if ev_out ev then con\<lparr>con_writable := True\<rparr> else con)
     in if ev_hup ev \<or> ev_err ev \<or> ev_other ev then
         if ev_hup ev then
           if state_of con = CON_STATE_CLOSE then con\<lparr>close_timeout_ts := 0\<rparr>
           else connection_set_state CON_STATE_ERROR con
         else if ev_err ev then connection_set_state CON_STATE_ERROR con
         else con
       else con)"

definition connection_handle_fdevent :: "system \<Rightarrow> revents \<Rightarrow> conn \<times> server \<times> world \<Rightarrow> (conn \<times> server \<times> world) option" where
  "connection_handle_fdevent sys ev s = (case s of (con, srv, w) \<Rightarrow> do {
     let con = take_events ev (append_job con);
     (con, w) \<leftarrow> (if state_of con = CON_STATE_READ \<or> state_of con = CON_STATE_READ_POST then handle_read sys con srv w else Some (con, w));
     (con, w) \<leftarrow> (if state_of con = CON_STATE_WRITE then write_if_writable sys con srv w else Some (con, w));
     let (con, srv) = (if state_of con = CON_STATE_CLOSE then
         if s_pending sys > 0 then (con, net [Discard (con_fd con)] srv) else (con\<lparr>close_timeout_ts := 0\<rparr>, srv)
       else (con, srv));
     Some (con, srv, w)
   })"

section \<open>Resetting a queue\<close>

lemma chunk_reset_tempdirs: "chunk_reset p cq = Some cq' \<Longrightarrow> cq_tempdirs cq' = cq_tempdirs cq"
  by (auto simp: chunk_reset_def put_chunk_def Let_def split: option.splits if_splits)

lemma retire_tempdirs: "retire a cq = Some cq' \<Longrightarrow> cq_tempdirs cq' = cq_tempdirs cq"
  by (auto simp: retire_def put_chunk_def Let_def chunk_free_def dest!: chunk_reset_tempdirs split: option.splits if_splits)

lemma remove_tempdirs:
  assumes "chunkqueue_remove_finished_chunks cq = Some cq'"
  shows "cq_tempdirs cq' = cq_tempdirs cq"
proof (rule chunkqueue_remove_finished_chunks.raw_induct [OF _ assms, where P = "\<lambda>cq cq'. cq_tempdirs cq' = cq_tempdirs cq"])
  fix f :: "chunkqueue \<Rightarrow> chunkqueue option" and cq cq'
  assume "\<And>x y. f x = Some y \<Longrightarrow> cq_tempdirs y = cq_tempdirs x"
    and "(case cq_first cq of None \<Rightarrow> Some cq | Some a \<Rightarrow> do { c \<leftarrow> heap cq a;
       if \<not> is_finished c then Some cq else do { cq \<leftarrow> retire a cq; f cq } }) = Some cq'"
  then show "cq_tempdirs cq' = cq_tempdirs cq" using retire_tempdirs by (force split: option.splits if_splits)
qed

lemma mark_tempdirs:
  assumes "mark_loop p cq = Some cq'"
  shows "cq_tempdirs cq' = cq_tempdirs cq"
proof (rule mark_loop.raw_induct [OF _ assms, where P = "\<lambda>p cq cq'. cq_tempdirs cq' = cq_tempdirs cq"])
  fix f :: "nat option \<Rightarrow> chunkqueue \<Rightarrow> chunkqueue option" and p cq cq'
  assume a: "\<And>x y z. f x y = Some z \<Longrightarrow> cq_tempdirs z = cq_tempdirs y"
    and b: "(case p of None \<Rightarrow> Some cq | Some a \<Rightarrow> do {
       c \<leftarrow> heap cq a;
       let c = (case c_type c of MEM_CHUNK \<Rightarrow> c\<lparr>c_offset := int (b_used (c_mem c)) - 1\<rparr>
          | FILE_CHUNK \<Rightarrow> c\<lparr>c_offset := f_length c\<rparr> | UNUSED_CHUNK \<Rightarrow> c);
       f (c_next c) (put_chunk a c cq) }) = Some cq'"
  show "cq_tempdirs cq' = cq_tempdirs cq"
  proof (cases p)
    case (Some x)
    then obtain q h where "f q (put_chunk x h cq) = Some cq'" using b by (auto simp: Let_def)
    from a [OF this] show ?thesis by (simp add: put_chunk_def)
  qed (use b in simp)
qed

lemma reset_tempdirs: "chunkqueue_reset cq = Some cq' \<Longrightarrow> cq_tempdirs cq' = cq_tempdirs cq \<and> cq_bytes_in cq' = 0"
  by (auto simp: chunkqueue_reset_def dest!: mark_tempdirs remove_tempdirs)

lemma body_reset:
  assumes "body_rep cq as us"
  obtains cq' as' us' where "chunkqueue_reset cq = Some cq'" "body_rep cq' as' us'" "cq_bytes_in cq' = 0"
proof -
  have "holds cq (contents cq as)" using assms by (auto simp: holds_def body_rep_def)
  then obtain cq' where r: "chunkqueue_reset cq = Some cq'" "holds cq' []" by (rule queue_reset_ok)
  then obtain as' us' where q: "queue_rep cq' as' us' []" "contents cq' as' = []" by (auto simp: holds_def)
  then have "body_rep cq' as' us'" using assms reset_tempdirs [OF r(1)] by (simp add: body_rep_def tempdirs_ok_def)
  then show thesis using that r(1) reset_tempdirs [OF r(1)] by blast
qed

section \<open>What holds of a connection\<close>

type_synonym file_reader = "byte list \<Rightarrow> byte list option"
type_synonym file_sizes = "byte list \<Rightarrow> int option"

text \<open>The queues are well formed, the response can be served, and at most \<open>n\<close> bytes wait in the read queue.\<close>

definition conn_ok :: "file_reader \<Rightarrow> file_sizes \<Rightarrow> conn \<Rightarrow> nat \<Rightarrow> bool" where
  "conn_ok files st_size con n \<longleftrightarrow> input_ok (rd con) n \<and> (\<exists>bs. outstanding files st_size (write_queue con) bs)
     \<and> buffer_ok (con_uri con) \<and> buffer_ok (con_physical con) \<and> small 60 (error_handler con) \<and> small 60 (conf_error_handler con)"

text \<open>What the functions of the plug-ins, the configuration and the parser have to do: they leave the state and the descriptor alone
  and keep the connection well formed; the configuration does not touch the body, only the server takes from the read queue, and a body that is to be read has a length.\<close>

definition keeps :: "file_reader \<Rightarrow> file_sizes \<Rightarrow> (conn \<Rightarrow> conn) \<Rightarrow> bool" where
  "keeps files st_size f \<longleftrightarrow> (\<forall>con n. conn_ok files st_size con n \<longrightarrow>
     conn_ok files st_size (f con) n \<and> state_of (f con) = state_of con \<and> con_fd (f con) = con_fd con)"

definition sys_ok :: "file_reader \<Rightarrow> file_sizes \<Rightarrow> system \<Rightarrow> bool" where
  "sys_ok files st_size sys \<longleftrightarrow> network_backend (s_backend sys) files st_size
     \<and> keeps files st_size (plugin_reset sys) \<and> keeps files st_size (plugin_close sys) \<and> keeps files st_size (request_done sys)
     \<and> keeps files st_size (config_setup sys) \<and> keeps files st_size (\<lambda>c. snd (handle_write_prepare sys c))
     \<and> keeps files st_size (\<lambda>c. snd (http_request_parse sys c))
     \<and> (case s_tempdirs sys of None \<Rightarrow> True | Some ds \<Rightarrow> length ds < 2 ^ 10 \<and> list_all (small 50) ds)
     \<and> (\<forall>con. content_queue (rd (config_setup sys con)) = content_queue (rd con))
     \<and> (\<forall>con. read_queue (rd (config_setup sys con)) = read_queue (rd con)) \<and> (\<forall>con. read_queue (rd (plugin_reset sys con)) = read_queue (rd con))
     \<and> (\<forall>con. fst (http_request_parse sys con) \<longrightarrow> cq_bytes_in (content_queue (rd con)) = 0 \<longrightarrow> (let c = rd (snd (http_request_parse sys con)) in cq_bytes_in (content_queue c) \<le> content_length c))"

abbreviation ended :: "con_state \<Rightarrow> bool" where
  "ended st \<equiv> st \<in> {CON_STATE_ERROR, CON_STATE_CLOSE, CON_STATE_CONNECT}"

lemma state_set [simp]: "state_of (connection_set_state st con) = st" "con_fd (connection_set_state st con) = con_fd con"
  by (simp_all add: connection_set_state_def)

lemma set_state_ok:
  assumes "conn_ok files st_size con n" and "ended st \<or> \<not> ended (state_of con)"
    and "st = CON_STATE_READ_POST \<longrightarrow> cq_bytes_in (content_queue (rd con)) \<le> content_length (rd con)"
  shows "conn_ok files st_size (connection_set_state st con) n"
proof -
  have w: "waiting ((rd con)\<lparr>rc_state := st\<rparr>) n = waiting (rd con) n" by (simp add: waiting_def)
  have h: "\<exists>cs. holds (read_queue (rd con)) cs" using assms(1) waiting_holds [of "rd con" n]
    by (auto simp: conn_ok_def input_ok_def split: if_splits)
  show ?thesis using assms w h by (auto simp: conn_ok_def connection_set_state_def input_ok_def)
qed

lemma conn_ok_mono: "conn_ok files st_size con n \<Longrightarrow> n \<le> m \<Longrightarrow> conn_ok files st_size con m"
  using waiting_mono by (auto simp: conn_ok_def input_ok_def)

lemma keepsD: "keeps files st_size f \<Longrightarrow> conn_ok files st_size con n \<Longrightarrow>
    conn_ok files st_size (f con) n \<and> state_of (f con) = state_of con \<and> con_fd (f con) = con_fd con"
  by (simp add: keeps_def)

text \<open>Fields that the predicate does not mention.\<close>

lemma conn_ok_simps [simp]:
  "conn_ok files st_size (con\<lparr>limits := t\<rparr>) n = conn_ok files st_size con n"
  "conn_ok files st_size (con\<lparr>close_timeout_ts := x\<rparr>) n = conn_ok files st_size con n"
  "conn_ok files st_size (con\<lparr>write_request_ts := x\<rparr>) n = conn_ok files st_size con n"
  "conn_ok files st_size (con\<lparr>request_start := x\<rparr>) n = conn_ok files st_size con n"
  "conn_ok files st_size (con\<lparr>request_count := m\<rparr>) n = conn_ok files st_size con n"
  "conn_ok files st_size (con\<lparr>loops_per_request := m\<rparr>) n = conn_ok files st_size con n"
  "conn_ok files st_size (con\<lparr>con_writable := b\<rparr>) n = conn_ok files st_size con n"
  "conn_ok files st_size (con\<lparr>con_finished := b\<rparr>) n = conn_ok files st_size con n"
  "conn_ok files st_size (con\<lparr>con_mode := m\<rparr>) n = conn_ok files st_size con n"
  "conn_ok files st_size (con\<lparr>in_error_handler := b\<rparr>) n = conn_ok files st_size con n"
  "conn_ok files st_size (con\<lparr>error_handler_saved_status := x\<rparr>) n = conn_ok files st_size con n"
  by (simp_all add: conn_ok_def)

lemma input_ok_simps [simp]:
  "input_ok (c\<lparr>is_readable := b\<rparr>) n = input_ok c n" "input_ok (c\<lparr>read_idle_ts := x\<rparr>) n = input_ok c n"
  "input_ok (c\<lparr>http_status := x\<rparr>) n = input_ok c n" "input_ok (c\<lparr>keep_alive := x\<rparr>) n = input_ok c n"
  "input_ok (c\<lparr>bytes_read := x\<rparr>) n = input_ok c n"
  by (simp_all add: input_ok_def waiting_def)

lemma conn_ok_rd: "input_ok (f (rd con)) n = input_ok (rd con) n \<Longrightarrow> conn_ok files st_size (con\<lparr>rd := f (rd con)\<rparr>) n = conn_ok files st_size con n"
  by (simp add: conn_ok_def)


section \<open>The parts of a turn\<close>

lemma clear_small:
  assumes "buffer_ok b"
  obtains b' where "buffer_clear b = Some b'" "buffer_ok b'" "small 60 b'"
proof -
  obtain b' where "buffer_clear b = Some b'" "string_ok b'" "b_size b' \<le> 4096" by (rule clear_ok [OF assms])
  then show thesis using that [of b'] by (simp add: string_ok_def small_def)
qed

lemma connection_reset_ok:
  assumes c: "conn_ok files st_size con n" and sys: "sys_ok files st_size sys"
  obtains con' where "connection_reset sys con = Some con'" "conn_ok files st_size con' n" "state_of con' = state_of con" "con_fd con' = con_fd con"
    "cq_bytes_in (content_queue (rd con')) = 0" "read_queue (rd con') = read_queue (rd con)"
proof -
  let ?c1 = "plugin_reset sys con"
  have k1: "conn_ok files st_size ?c1 n" "state_of ?c1 = state_of con" "con_fd ?c1 = con_fd con"
    using keepsD [OF _ c] sys by (simp_all add: sys_ok_def)
  let ?c2 = "?c1\<lparr>rd := (rd ?c1)\<lparr>is_readable := True, http_status := 0, bytes_read := 0\<rparr>, con_writable := True, con_finished := False,
       limits := (limits ?c1)\<lparr>bytes_written := 0, bytes_written_cur_second := 0\<rparr>, loops_per_request := 0, con_mode := 0\<rparr>"
  have b: "buffer_ok (con_uri ?c2)" "buffer_ok (request (rd ?c2))" "buffer_ok (con_physical ?c2)" "buffer_ok (error_handler ?c2)"
    "small 60 (conf_error_handler ?c2)"
    using k1(1) by (auto simp: conn_ok_def input_ok_def dest: smallD)
  obtain uri where uri: "buffer_clear (con_uri ?c2) = Some uri" "buffer_ok uri" by (rule clear_small [OF b(1)])
  obtain req where req: "buffer_clear (request (rd ?c2)) = Some req" "buffer_ok req" by (rule clear_small [OF b(2)])
  obtain path where path: "buffer_clear (con_physical ?c2) = Some path" "buffer_ok path" by (rule clear_small [OF b(3)])
  obtain eh where eh: "buffer_clear (error_handler ?c2) = Some eh" "small 60 eh" by (rule clear_small [OF b(4)])
  obtain cs where "holds (write_queue ?c2) cs" using k1(1) by (auto simp: conn_ok_def outstanding_def)
  then obtain wq where wq: "chunkqueue_reset (write_queue ?c2) = Some wq" "holds wq []" by (rule queue_reset_ok)
  obtain as us where "body_rep (content_queue (rd ?c2)) as us" using k1(1) by (auto simp: conn_ok_def input_ok_def)
  then obtain bq as' us' where bq: "chunkqueue_reset (content_queue (rd ?c2)) = Some bq" "body_rep bq as' us'" "cq_bytes_in bq = 0" by (rule body_reset)
  let ?c3 = "?c2\<lparr>con_uri := uri, rd := (rd ?c2)\<lparr>request := req, content_length := 0\<rparr>, con_physical := path, error_handler := eh\<rparr>"
  let ?c4 = "?c3\<lparr>write_queue := wq, rd := (rd ?c3)\<lparr>content_queue := bq\<rparr>, in_error_handler := False\<rparr>"
  have o: "\<exists>bs. outstanding files st_size wq bs" using wq(2) unfolding outstanding_def by (intro exI [of _ "pending files []"] exI [of _ "[]"]) simp
  have i: "input_ok (rd ?c4) n" using k1(1) req(2) bq(2,3) by (auto simp: conn_ok_def input_ok_def waiting_def)
  have k4: "conn_ok files st_size ?c4 n" using i o uri(2) path(2) eh(2) b(5) by (simp add: conn_ok_def)
  have f: "state_of ?c4 = state_of con" "con_fd ?c4 = con_fd con" using k1(2,3) by simp_all
  have e: "connection_reset sys con = Some (config_setup sys ?c4)"
    using uri(1) req(1) path(1) eh(1) wq(1) bq(1) by (simp add: connection_reset_def Let_def)
  have "conn_ok files st_size (config_setup sys ?c4) n \<and> state_of (config_setup sys ?c4) = state_of ?c4 \<and> con_fd (config_setup sys ?c4) = con_fd ?c4"
    using keepsD [OF _ k4] sys by (simp add: sys_ok_def)
  moreover have "content_queue (rd (config_setup sys ?c4)) = bq" using sys by (simp add: sys_ok_def)
  moreover have "read_queue (rd (config_setup sys ?c4)) = read_queue (rd con)" using sys by (simp add: sys_ok_def)
  ultimately show thesis using that [OF e] f bq(3) by simp
qed

text \<open>The descriptors that have been closed.\<close>

fun closes :: "net_call list \<Rightarrow> int list" where
  "closes [] = []"
| "closes (Close_fd fd # cs) = fd # closes cs"
| "closes (_ # cs) = closes cs"

lemma closes_append [simp]: "closes (cs @ ds) = closes cs @ closes ds"
  by (induction cs rule: closes.induct) simp_all

lemma net_simps [simp]: "net_calls (net cs srv) = net_calls srv @ cs" "conns (net cs srv) = conns srv" "cur_ts (net cs srv) = cur_ts srv"
  "fdwaitqueue (net cs srv) = fdwaitqueue srv"
  by (simp_all add: net_def)

lemma close_ok:
  assumes c: "conn_ok files st_size con n" and p: "pool_ok (conns srv)" "self \<in> in_use (conns srv)"
  obtains srv' where "connection_close self con srv = Some (connection_set_state CON_STATE_CONNECT con, srv')"
    "conn_ok files st_size (connection_set_state CON_STATE_CONNECT con) n" "pool_ok (conns srv')" "in_use (conns srv') = in_use (conns srv) - {self}"
    "net_calls srv' = net_calls srv @ [Event_del (con_fd con), Unregister (con_fd con), Close_fd (con_fd con)]" "cur_ts srv' = cur_ts srv"
    "conn_fresh (conns srv') = conn_fresh (conns srv)"
proof -
  obtain q where q: "connection_del (Some self) (conns srv) = Some (0, q)" "pool_ok q" "in_use q = in_use (conns srv) - {self}"
    "conn_fresh q = conn_fresh (conns srv)"
    by (rule del_ok [OF p])
  show thesis by (rule that [of "(net [Event_del (con_fd con), Unregister (con_fd con), Close_fd (con_fd con)] srv)
      \<lparr>cur_fds := cur_fds srv - 1, conns := q\<rparr>"])
    (use q set_state_ok [OF c, of CON_STATE_CONNECT] in \<open>simp_all add: connection_close_def Let_def net_def\<close>)
qed

lemma write_ok:
  assumes c: "conn_ok files st_size con n" "state_of con = CON_STATE_WRITE" and sys: "sys_ok files st_size sys"
  obtains con' w' where "write_if_writable sys con srv w = Some (con', w')" "conn_ok files st_size con' n" "con_fd con' = con_fd con"
    "state_of con' \<in> {CON_STATE_WRITE, CON_STATE_RESPONSE_END, CON_STATE_ERROR}" "handlers w' = handlers w" "arrivals w' = arrivals w"
proof (cases "chunkqueue_is_empty (write_queue con) = 0 \<and> con_writable con")
  case False
  have "write_if_writable sys con srv w = Some (con, w)" unfolding write_if_writable_def if_not_P [OF False] ..
  then show thesis using that [of con w] c by simp
next
  case True
  note found = that
  obtain bs where o: "outstanding files st_size (write_queue con) bs" using c(1) by (auto simp: conn_ok_def)
  have nb: "network_backend (s_backend sys) files st_size" using sys by (simp add: sys_ok_def)
  obtain ret t wq io rest where r: "network_write_chunkqueue (s_backend sys) (limits con) (write_queue con) (sent w) = Some (ret, t, wq, io)"
    "outstanding files st_size wq rest"
    using network_backend.write_chunkqueue [OF nb o, of "limits con" "sent w"] by blast
  let ?con = "con\<lparr>limits := t, write_queue := wq\<rparr>"
  let ?con2 = "if ret = 0 then if con_finished ?con then append_job (connection_set_state CON_STATE_RESPONSE_END ?con) else ?con
       else if ret = - 1 then append_job (connection_set_state CON_STATE_ERROR ?con)
       else if ret = - 2 then append_job (connection_set_state CON_STATE_ERROR ?con)
       else if ret = 1 then ?con\<lparr>con_writable := False\<rparr> else ?con"
  let ?con3 = "if state_of ?con2 = CON_STATE_WRITE then ?con2\<lparr>write_request_ts := cur_ts srv\<rparr> else ?con2"
  have e: "write_if_writable sys con srv w = Some (?con3, w\<lparr>sent := io\<rparr>)"
    using True r(1) by (simp add: write_if_writable_def connection_handle_write_def Let_def)
  have k: "conn_ok files st_size ?con n" "state_of ?con = CON_STATE_WRITE" using c r(2) by (auto simp: conn_ok_def)
  have "conn_ok files st_size (connection_set_state st ?con) n" if "st \<noteq> CON_STATE_READ_POST" for st
    by (rule set_state_ok [OF k(1)]) (use k(2) that in simp_all)
  then have "conn_ok files st_size ?con2 n" using k(1) by (simp add: append_job_def del: state_set)
  then have "conn_ok files st_size ?con3 n" by simp
  moreover have "con_fd ?con3 = con_fd con" "state_of ?con3 \<in> {CON_STATE_WRITE, CON_STATE_RESPONSE_END, CON_STATE_ERROR}"
    using c(2) by (auto simp: append_job_def connection_set_state_def)
  ultimately show thesis using found [OF e] by simp
qed


definition bytes_to_come :: "world \<Rightarrow> nat" where
  "bytes_to_come w = sum_list (List.map data_size (arrivals w))"

lemma read_ok:
  assumes c: "conn_ok files st_size con n" "state_of con = CON_STATE_READ \<or> state_of con = CON_STATE_READ_POST"
    and w: "list_all arrival_ok (arrivals w)" "n + bytes_to_come w < 2 ^ 50"
  obtains con' w' m where "handle_read sys con srv w = Some (con', w')" "conn_ok files st_size con' m" "m + bytes_to_come w' \<le> n + bytes_to_come w"
    "list_all arrival_ok (arrivals w')" "handlers w' = handlers w" "con_fd con' = con_fd con"
    "state_of con' \<in> {state_of con, CON_STATE_HANDLE_REQUEST, CON_STATE_ERROR} \<or> state_of con = CON_STATE_READ \<and> state_of con' = CON_STATE_REQUEST_END"
    "state_of con = CON_STATE_READ \<longrightarrow> content_queue (rd con') = content_queue (rd con)"
    "state_of con = CON_STATE_READ \<longrightarrow> state_of con' = CON_STATE_HANDLE_REQUEST \<longrightarrow> http_status (rd con') = 414 \<and> keep_alive (rd con') = 0"
proof -
  obtain arr w1 where a: "next_arrival con w = (arr, w1)" by (cases "next_arrival con w")
  have b: "arrival_ok arr" "list_all arrival_ok (arrivals w1)" "handlers w1 = handlers w" "uploads w1 = uploads w"
    "data_size arr + bytes_to_come w1 = bytes_to_come w"
    using a w(1) by (auto simp: next_arrival_def nothing_def arrival_ok_def data_size_def bytes_to_come_def split: if_splits list.splits)
  have i: "input_ok (rd con) n" "reads (rd con)" "n + data_size arr < 2 ^ 50" using c w(2) b(5) by (auto simp: conn_ok_def reads_def)
  obtain r rc up where r: "connection_handle_read_state (s_junk sys) (s_mkstemp sys) (s_reopen sys) (cur_ts srv) arr (rd con) (uploads w1) = Some (r, rc, up)"
    "input_ok rc (n + data_size arr)"
    "rc_state rc \<in> {rc_state (rd con), CON_STATE_HANDLE_REQUEST, CON_STATE_ERROR} \<or> rc_state (rd con) = CON_STATE_READ \<and> rc_state rc = CON_STATE_REQUEST_END"
    "rc_state (rd con) = CON_STATE_READ \<longrightarrow> content_queue rc = content_queue (rd con)"
    "rc_state (rd con) = CON_STATE_READ \<longrightarrow> rc_state rc = CON_STATE_HANDLE_REQUEST \<longrightarrow> http_status rc = 414 \<and> keep_alive rc = 0"
    by (rule read_state_any [OF i(1,2) b(1) i(3)])
  have e: "handle_read sys con srv w = Some (con\<lparr>rd := rc\<rparr>, w1\<lparr>uploads := up\<rparr>)"
    using a r(1) b(4) by (simp add: handle_read_def)
  show thesis
    by (rule that [OF e, of "n + data_size arr"]) (use c(1) r(2-5) b in \<open>auto simp: conn_ok_def bytes_to_come_def\<close>)
qed

lemma handler_finished_ok:
  assumes c: "conn_ok files st_size con n" "state_of con = CON_STATE_HANDLE_REQUEST"
  obtains again con' where "handler_finished sys con = Some (again, con')" "conn_ok files st_size con' n" "con_fd con' = con_fd con"
    "state_of con' = (if again then CON_STATE_HANDLE_REQUEST else CON_STATE_RESPONSE_START)"
proof -
  note found = that
  let ?failed = "http_status (rd con) = 404 \<or> http_status (rd con) = 403"
  show thesis
  proof (cases "con_mode con = 0 \<and> ?failed \<and> \<not> in_error_handler con
        \<and> (\<not> buffer_is_empty (Some (conf_error_handler con)) \<or> \<not> buffer_is_empty (Some (error_handler con)))")
    case True
    let ?src = "if buffer_is_empty (Some (error_handler con)) then conf_error_handler con else error_handler con"
    have b: "buffer_ok (con_uri con)" "buffer_ok (con_physical con)" "string_ok ?src" "b_size ?src + 66 < 2 ^ 64"
      using c(1) by (auto simp: conn_ok_def dest: smallD)
    obtain uri where u: "buffer_copy_string_buffer (s_junk sys) (Some (con_uri con)) (Some ?src) = Some (0, Some uri)" "string_ok uri"
      by (rule copy_buffer [OF b(1,3,4), of "s_junk sys"])
    have uri: "after (buffer_copy_string_buffer (s_junk sys) (Some (con_uri con)) (Some ?src)) = Some uri" "buffer_ok uri"
      unfolding u(1) using u(2) by (simp_all add: after_def string_ok_def)
    obtain path where path: "buffer_clear (con_physical con) = Some path" "buffer_ok path" by (rule clear_small [OF b(2)])
    let ?con = "connection_set_state CON_STATE_HANDLE_REQUEST (con\<lparr>error_handler_saved_status := http_status (rd con), rd := (rd con)\<lparr>http_status := 0\<rparr>,
      con_uri := uri, con_physical := path, in_error_handler := True\<rparr>)"
    have e: "handler_finished sys con = Some (True, ?con)"
      unfolding handler_finished_def Let_def if_P [OF True] using uri(1) path(1) by (auto split: if_splits)
    have "conn_ok files st_size ?con n" using c uri(2) path(2) by (simp add: conn_ok_def connection_set_state_def input_ok_def waiting_def)
    then show thesis using found [OF e] by simp
  next
    case False
    let ?con = "if con_mode con = 0 \<and> ?failed \<and> in_error_handler con
         then con\<lparr>rd := (rd con)\<lparr>http_status := error_handler_saved_status con\<rparr>\<rparr> else con"
    let ?con2 = "if http_status (rd ?con) = 0 then ?con\<lparr>rd := (rd ?con)\<lparr>http_status := 200\<rparr>\<rparr> else ?con"
    have e: "handler_finished sys con = Some (False, connection_set_state CON_STATE_RESPONSE_START ?con2)"
      unfolding handler_finished_def Let_def if_not_P [OF False] ..
    have k: "conn_ok files st_size ?con2 n" "state_of ?con2 = CON_STATE_HANDLE_REQUEST" using c by (simp_all add: conn_ok_def)
    have "conn_ok files st_size (connection_set_state CON_STATE_RESPONSE_START ?con2) n" by (rule set_state_ok [OF k(1)]) (use k(2) in simp_all)
    moreover have "con_fd (connection_set_state CON_STATE_RESPONSE_START ?con2) = con_fd con" by simp
    ultimately show thesis by (rule found [OF e]) simp
  qed
qed

lemma handle_ok:
  assumes c: "conn_ok files st_size con n" "state_of con = CON_STATE_HANDLE_REQUEST"
    and h: "\<forall>h \<in> set (handlers w). keeps files st_size (\<lambda>c. snd (h c))"
  obtains again con' srv' w' where "handle_request sys self con srv w = Some (again, con', srv', w')" "conn_ok files st_size con' n" "con_fd con' = con_fd con"
    "state_of con' \<in> {CON_STATE_HANDLE_REQUEST, CON_STATE_RESPONSE_START, CON_STATE_ERROR}" "arrivals w' = arrivals w"
    "again \<or> state_of con' \<noteq> CON_STATE_HANDLE_REQUEST \<longrightarrow> length (handlers w') < length (handlers w)" "set (handlers w') \<subseteq> set (handlers w)"
    "length (handlers w') \<le> length (handlers w)" "conns srv' = conns srv" "net_calls srv' = net_calls srv" "again \<longrightarrow> state_of con' = CON_STATE_HANDLE_REQUEST"
    "cur_ts srv' = cur_ts srv"
proof (cases "handlers w")
  case Nil
  note found = that
  have e: "handle_request sys self con srv w = Some (False, connection_set_state CON_STATE_HANDLE_REQUEST con, srv, w)"
    using Nil by (simp add: handle_request_def http_response_prepare_def)
  have "conn_ok files st_size (connection_set_state CON_STATE_HANDLE_REQUEST con) n" by (rule set_state_ok [OF c(1)]) (use c(2) in simp_all)
  then show thesis by (rule found [OF e]) (use c(2) in simp_all)
next
  case (Cons f fs)
  note found = that
  obtain r con1 where f: "f con = (r, con1)" by (cases "f con")
  let ?w = "w\<lparr>handlers := fs\<rparr>"
  have "keeps files st_size (\<lambda>c. snd (f c))" using h Cons by simp
  from keepsD [OF this c(1)] have k: "conn_ok files st_size con1 n" "state_of con1 = CON_STATE_HANDLE_REQUEST" "con_fd con1 = con_fd con"
    using f c(2) by simp_all
  have set_ok: "conn_ok files st_size (connection_set_state st con1) n" if "st \<noteq> CON_STATE_READ_POST" for st
    by (rule set_state_ok [OF k(1)]) (use k(2) that in simp_all)
  have p: "http_response_prepare con w = (r, con1, ?w)" using Cons f by (simp add: http_response_prepare_def)
  have fin: thesis if e: "handle_request sys self con srv w = Some (again, con', srv', ?w)" "conn_ok files st_size con' n" "con_fd con' = con_fd con"
    "state_of con' \<in> {CON_STATE_HANDLE_REQUEST, CON_STATE_RESPONSE_START, CON_STATE_ERROR}" "conns srv' = conns srv" "net_calls srv' = net_calls srv"
    "again \<longrightarrow> state_of con' = CON_STATE_HANDLE_REQUEST" "cur_ts srv' = cur_ts srv" for again con' srv'
    by (rule found [OF e(1-4) _ _ _ _ e(5-8)]) (use Cons in auto)
  show thesis
  proof (cases "r = HANDLER_FINISHED")
    case True
    obtain again con' where "handler_finished sys con1 = Some (again, con')" "conn_ok files st_size con' n" "con_fd con' = con_fd con1"
      "state_of con' = (if again then CON_STATE_HANDLE_REQUEST else CON_STATE_RESPONSE_START)"
      by (rule handler_finished_ok [OF k(1,2)])
    then show thesis using fin [of again con' srv] True p k(3) by (auto simp: handle_request_def split: if_splits)
  next
    case False
    let ?again = "r = HANDLER_COMEBACK"
    let ?con = "if r \<in> {HANDLER_WAIT_FOR_FD, HANDLER_COMEBACK, HANDLER_WAIT_FOR_EVENT} then connection_set_state CON_STATE_HANDLE_REQUEST con1
      else if r = HANDLER_ERROR then connection_set_state CON_STATE_ERROR con1 else con1"
    let ?srv = "if r = HANDLER_WAIT_FOR_FD then srv\<lparr>want_fds := want_fds srv + 1, fdwaitqueue := fdwaitqueue srv @ [self]\<rparr> else srv"
    have e: "handle_request sys self con srv w = Some (?again, ?con, ?srv, ?w)"
      using False p by (cases r) (simp_all add: handle_request_def)
    show thesis by (rule fin [OF e]) (use k set_ok in auto)
  qed
qed

lemma connection_init_ok:
  assumes sys: "sys_ok files st_size sys"
  obtains con where "connection_init sys = Some con" "conn_ok files st_size con 0" "state_of con = CON_STATE_CONNECT" "waiting (rd con) 0"
proof -
  let ?bq = "chunkqueue_init\<lparr>cq_tempdirs := s_tempdirs sys\<rparr>"
  have q: "queue_rep chunkqueue_init [] [] []" "contents chunkqueue_init [] = []" by (simp_all add: queue_rep_def chunkqueue_init_def contents_def)
  have b: "\<exists>as us. body_rep ?bq as us"
    by (rule exI [of _ "[]"], rule exI [of _ "[]"])
      (use sys in \<open>simp add: body_rep_def tempdirs_ok_def sys_ok_def queue_rep_def chunkqueue_init_def contents_def split: option.splits\<close>)
  have h: "holds chunkqueue_init []" unfolding holds_def using q by (intro exI [of _ "[] :: nat list"] conjI) auto
  then have r: "\<exists>cs. holds chunkqueue_init cs" by blast
  have o: "\<exists>bs. outstanding files st_size chunkqueue_init bs" unfolding outstanding_def using h by (intro exI [of _ "pending files []"] exI [of _ "[]"]) simp
  have u: "unread chunkqueue_init [] 0" unfolding unread_def
    by (rule exI [of _ "[]"], rule exI [of _ "[]"]) (use q in \<open>simp add: skipped_def\<close>)
  obtain con0 where e: "connection_init sys = Some (config_setup sys con0)"
    and f: "rc_state (rd con0) = CON_STATE_CONNECT" "read_queue (rd con0) = chunkqueue_init" "content_queue (rd con0) = ?bq" "request (rd con0) = buffer_init"
      "write_queue con0 = chunkqueue_init" "con_uri con0 = buffer_init" "con_physical con0 = buffer_init" "error_handler con0 = buffer_init"
      "conf_error_handler con0 = buffer_init"
    by (simp add: connection_init_def chunkqueue_set_tempdirs_def)
  have ib: "buffer_ok buffer_init" by (simp add: buffer_ok_def buffer_init_def)
  have "input_ok (rd con0) 0" unfolding input_ok_def f using b r ib by simp
  then have k: "conn_ok files st_size con0 0" unfolding conn_ok_def f using o ib by simp
  have "keeps files st_size (config_setup sys)" "read_queue (rd (config_setup sys con0)) = read_queue (rd con0)" using sys by (simp_all add: sys_ok_def)
  then have "conn_ok files st_size (config_setup sys con0) 0" "state_of (config_setup sys con0) = CON_STATE_CONNECT" "waiting (rd (config_setup sys con0)) 0"
    using keepsD [OF _ k] f(1,2) u waiting_def [of "rd (config_setup sys con0)" 0] by auto
  then show thesis by (rule that [OF e])
qed

end
