(* ===== verification/Connection_Machine.thy ===== *)
theory Connection_Machine
  imports Connections
begin

text \<open>
  The state machine of a connection as a whole. \<open>machine_ok\<close> is what holds before and after every run, \<open>turn\<close> what one turn of the loop
  may do: which state follows which, which calls it makes, and the measure that makes the loop end.
\<close>

section \<open>The diagram\<close>

text \<open>The arrows of doc/state.dot, and the two that the code has beyond them.\<close>

definition documented :: "(con_state \<times> con_state) set" where
  "documented = {(CON_STATE_CONNECT, CON_STATE_REQUEST_START), (CON_STATE_REQUEST_START, CON_STATE_READ), (CON_STATE_READ, CON_STATE_REQUEST_END),
     (CON_STATE_REQUEST_END, CON_STATE_HANDLE_REQUEST), (CON_STATE_HANDLE_REQUEST, CON_STATE_RESPONSE_START), (CON_STATE_RESPONSE_START, CON_STATE_WRITE),
     (CON_STATE_WRITE, CON_STATE_RESPONSE_END), (CON_STATE_RESPONSE_END, CON_STATE_CONNECT), (CON_STATE_REQUEST_END, CON_STATE_READ_POST),
     (CON_STATE_READ_POST, CON_STATE_HANDLE_REQUEST), (CON_STATE_RESPONSE_END, CON_STATE_REQUEST_START), (CON_STATE_HANDLE_REQUEST, CON_STATE_HANDLE_REQUEST),
     (CON_STATE_ERROR, CON_STATE_CLOSE), (CON_STATE_CLOSE, CON_STATE_CONNECT), (CON_STATE_ERROR, CON_STATE_CONNECT), (CON_STATE_HANDLE_REQUEST, CON_STATE_ERROR),
     (CON_STATE_READ, CON_STATE_ERROR), (CON_STATE_READ_POST, CON_STATE_ERROR), (CON_STATE_WRITE, CON_STATE_ERROR)}"

definition undocumented :: "(con_state \<times> con_state) set" where
  "undocumented = {(CON_STATE_READ, CON_STATE_HANDLE_REQUEST), (CON_STATE_RESPONSE_START, CON_STATE_ERROR)}"

fun rank :: "con_state \<Rightarrow> nat" where
  "rank CON_STATE_RESPONSE_START = 10"
| "rank CON_STATE_WRITE = 9"
| "rank CON_STATE_RESPONSE_END = 8"
| "rank CON_STATE_REQUEST_START = 7"
| "rank CON_STATE_READ = 6"
| "rank CON_STATE_REQUEST_END = 5"
| "rank CON_STATE_READ_POST = 4"
| "rank CON_STATE_HANDLE_REQUEST = 3"
| "rank CON_STATE_ERROR = 2"
| "rank CON_STATE_CLOSE = 1"
| "rank CON_STATE_CONNECT = 0"

section \<open>The invariant and the turns\<close>

type_synonym machine = "conn \<times> server \<times> world"

definition no_body :: "conn \<Rightarrow> bool" where
  "no_body con \<longleftrightarrow> (state_of con \<in> {CON_STATE_REQUEST_START, CON_STATE_READ, CON_STATE_REQUEST_END} \<longrightarrow> cq_bytes_in (content_queue (rd con)) = 0)"

definition machine_ok :: "file_reader \<Rightarrow> file_sizes \<Rightarrow> nat \<Rightarrow> machine \<Rightarrow> bool" where
  "machine_ok files st_size self s \<longleftrightarrow> (case s of (con, srv, w) \<Rightarrow>
     (\<exists>n. conn_ok files st_size con n \<and> n + bytes_to_come w < 2 ^ 50) \<and> list_all arrival_ok (arrivals w)
     \<and> (\<forall>h \<in> set (handlers w). keeps files st_size (\<lambda>c. snd (h c)))
     \<and> pool_ok (conns srv) \<and> (self \<in> in_use (conns srv) \<longleftrightarrow> state_of con \<noteq> CON_STATE_CONNECT)
     \<and> cur_ts srv > 1 \<and> (state_of con = CON_STATE_CLOSE \<longrightarrow> keep_alive (rd con) = 0) \<and> no_body con)"

fun is_discard :: "net_call \<Rightarrow> bool" where
  "is_discard (Discard _) = True"
| "is_discard _ = False"

text \<open>Descriptors that have been registered.\<close>

fun registered :: "net_call list \<Rightarrow> int list" where
  "registered [] = []"
| "registered (Register fd # cs) = fd # registered cs"
| "registered (_ # cs) = registered cs"

lemma registered_append [simp]: "registered (cs @ ds) = registered cs @ registered ds"
  by (induction cs rule: registered.induct) simp_all

text \<open>The calls of a part of a run: nothing that has come in is thrown away, nothing is registered, the table of connections
  does not grow, and the descriptor is closed when the connection ends.\<close>

definition called :: "int \<Rightarrow> con_state \<Rightarrow> con_state \<Rightarrow> server \<Rightarrow> server \<Rightarrow> bool" where
  "called fd st st' srv srv' \<longleftrightarrow> conn_fresh (conns srv') = conn_fresh (conns srv) \<and> (\<exists>cs. net_calls srv' = net_calls srv @ cs \<and> filter is_discard cs = [] \<and> registered cs = []
     \<and> closes cs = (if st' = CON_STATE_CONNECT \<and> st \<noteq> CON_STATE_CONNECT then [fd] else []))"

text \<open>Where a run may stop.\<close>

definition resting :: "con_state set" where
  "resting = {CON_STATE_READ, CON_STATE_READ_POST, CON_STATE_HANDLE_REQUEST, CON_STATE_WRITE, CON_STATE_CONNECT}"

definition turn :: "nat \<Rightarrow> bool \<Rightarrow> machine \<Rightarrow> machine \<Rightarrow> bool" where
  "turn self again s s' \<longleftrightarrow> (case s of (con, srv, w) \<Rightarrow> case s' of (con', srv', w') \<Rightarrow>
     con_fd con' = con_fd con \<and> cur_ts srv' = cur_ts srv
     \<and> (state_of con' \<noteq> state_of con \<longrightarrow> (state_of con, state_of con') \<in> documented \<union> undocumented)
     \<and> called (con_fd con) (state_of con) (state_of con') srv srv'
     \<and> in_use (conns srv') = in_use (conns srv) - (if state_of con' = CON_STATE_CONNECT then {self} else {})
     \<and> length (handlers w') \<le> length (handlers w)
     \<and> (again \<or> state_of con' \<noteq> state_of con \<longrightarrow>
         length (handlers w') < length (handlers w) \<or> length (handlers w') = length (handlers w) \<and> rank (state_of con') < rank (state_of con))
     \<and> (again \<longrightarrow> state_of con' = CON_STATE_HANDLE_REQUEST)
     \<and> (state_of con = CON_STATE_CONNECT \<longrightarrow> state_of con' = CON_STATE_CONNECT \<and> waiting (rd con') 0)
     \<and> (state_of con = CON_STATE_READ \<longrightarrow> state_of con' = CON_STATE_HANDLE_REQUEST \<longrightarrow> http_status (rd con') = 414 \<and> keep_alive (rd con') = 0)
     \<and> (state_of con' = state_of con \<longrightarrow> state_of con \<in> resting))"

lemma called_same: "net_calls srv' = net_calls srv \<Longrightarrow> conns srv' = conns srv \<Longrightarrow> st' = CON_STATE_CONNECT \<longrightarrow> st = CON_STATE_CONNECT \<Longrightarrow> called fd st st' srv srv'"
  by (auto simp: called_def)

lemma called_close:
  assumes "net_calls srv' = net_calls srv @ cs @ [Event_del fd, Unregister fd, Close_fd fd]" "st \<noteq> CON_STATE_CONNECT"
    "filter is_discard cs = []" "closes cs = []" "registered cs = []" "conn_fresh (conns srv') = conn_fresh (conns srv)"
  shows "called fd st CON_STATE_CONNECT srv srv'"
  unfolding called_def using assms by (intro conjI exI [of _ "cs @ [Event_del fd, Unregister fd, Close_fd fd]"]) simp_all

section \<open>The single states\<close>

lemma request_starts_ok:
  assumes "conn_ok files st_size con n" "state_of con = CON_STATE_REQUEST_START"
  shows "conn_ok files st_size (request_starts con srv) n" "state_of (request_starts con srv) = CON_STATE_READ"
    "con_fd (request_starts con srv) = con_fd con"
proof -
  let ?con = "con\<lparr>request_start := cur_ts srv, rd := (rd con)\<lparr>read_idle_ts := cur_ts srv\<rparr>,
     request_count := request_count con + 1, loops_per_request := 0\<rparr>"
  have "conn_ok files st_size ?con n" using assms(1) by (simp add: conn_ok_def)
  then have "conn_ok files st_size (connection_set_state CON_STATE_READ ?con) n" by (rule set_state_ok) (use assms(2) in simp_all)
  then show "conn_ok files st_size (request_starts con srv) n" by (simp add: request_starts_def)
qed (simp_all add: request_starts_def)

lemma request_ends_ok:
  assumes "conn_ok files st_size con n" "state_of con = CON_STATE_REQUEST_END" "no_body con" and sys: "sys_ok files st_size sys"
  shows "conn_ok files st_size (request_ends sys con) n \<and> con_fd (request_ends sys con) = con_fd con
    \<and> state_of (request_ends sys con) \<in> {CON_STATE_READ_POST, CON_STATE_HANDLE_REQUEST}"
proof -
  obtain more con' where p: "http_request_parse sys con = (more, con')" by (cases "http_request_parse sys con")
  have "keeps files st_size (\<lambda>c. snd (http_request_parse sys c))" using sys by (simp add: sys_ok_def)
  from keepsD [OF this assms(1)] have k: "conn_ok files st_size con' n" "state_of con' = CON_STATE_REQUEST_END" "con_fd con' = con_fd con"
    using p assms(2) by simp_all
  have "\<forall>con. fst (http_request_parse sys con) \<longrightarrow> cq_bytes_in (content_queue (rd con)) = 0 \<longrightarrow>
      (let c = rd (snd (http_request_parse sys con)) in cq_bytes_in (content_queue c) \<le> content_length c)"
    using sys unfolding sys_ok_def by blast
  then have m: "more \<longrightarrow> cq_bytes_in (content_queue (rd con')) \<le> content_length (rd con')" using p assms(2,3) by (auto simp: Let_def no_body_def dest: spec [of _ con])
  have e: "request_ends sys con = connection_set_state (if more then CON_STATE_READ_POST else CON_STATE_HANDLE_REQUEST) con'"
    by (simp add: request_ends_def p)
  have "conn_ok files st_size (request_ends sys con) n" unfolding e
    by (rule set_state_ok [OF k(1)]) (use k(2) m in \<open>simp_all split: if_splits\<close>)
  then show ?thesis using e k(3) by simp
qed

lemma response_starts_ok:
  assumes "conn_ok files st_size con n" "state_of con = CON_STATE_RESPONSE_START" and sys: "sys_ok files st_size sys"
  shows "conn_ok files st_size (response_starts sys con) n \<and> con_fd (response_starts sys con) = con_fd con
    \<and> state_of (response_starts sys con) \<in> {CON_STATE_ERROR, CON_STATE_WRITE}"
proof -
  obtain r con' where p: "handle_write_prepare sys con = (r, con')" by (cases "handle_write_prepare sys con")
  have "keeps files st_size (\<lambda>c. snd (handle_write_prepare sys c))" using sys by (simp add: sys_ok_def)
  from keepsD [OF this assms(1)] have k: "conn_ok files st_size con' n" "state_of con' = CON_STATE_RESPONSE_START" "con_fd con' = con_fd con"
    using p assms(2) by simp_all
  have e: "response_starts sys con = connection_set_state (if r = - 1 then CON_STATE_ERROR else CON_STATE_WRITE) con'"
    by (simp add: response_starts_def p)
  have "conn_ok files st_size (response_starts sys con) n" unfolding e by (rule set_state_ok [OF k(1)]) (use k(2) in simp_all)
  then show ?thesis using e k(3) by simp
qed

lemma response_ends_ok:
  assumes c: "conn_ok files st_size con n" "state_of con = CON_STATE_RESPONSE_END" and sys: "sys_ok files st_size sys"
    and p: "pool_ok (conns srv)" "self \<in> in_use (conns srv)"
  obtains con' srv' where "response_ends sys self con srv = Some (con', srv')" "conn_ok files st_size con' n" "con_fd con' = con_fd con"
    "pool_ok (conns srv')" "cur_ts srv' = cur_ts srv" "state_of con' \<in> {CON_STATE_REQUEST_START, CON_STATE_CONNECT}"
    "called (con_fd con) (state_of con) (state_of con') srv srv'" "no_body con'"
    "in_use (conns srv') = in_use (conns srv) - (if state_of con' = CON_STATE_CONNECT then {self} else {})"
proof -
  note found = that
  have f: "keeps files st_size (request_done sys)" "keeps files st_size (plugin_close sys)" using sys by (simp_all add: sys_ok_def)
  let ?con = "request_done sys con" and ?srv = "srv\<lparr>con_written := con_written srv + 1\<rparr>"
  have k: "conn_ok files st_size ?con n" "state_of ?con = CON_STATE_RESPONSE_END" "con_fd ?con = con_fd con" using keepsD [OF f(1) c(1)] c(2) by simp_all
  show thesis
  proof (cases "keep_alive (rd ?con) \<noteq> 0")
    case True
    have "conn_ok files st_size (connection_set_state CON_STATE_REQUEST_START ?con) n" by (rule set_state_ok [OF k(1)]) (use k(2) in simp_all)
    from connection_reset_ok [OF this sys] obtain con' where r: "connection_reset sys (connection_set_state CON_STATE_REQUEST_START ?con) = Some con'"
      "conn_ok files st_size con' n" "state_of con' = CON_STATE_REQUEST_START" "con_fd con' = con_fd con"
      "cq_bytes_in (content_queue (rd con')) = 0" using k(3) by auto
    have e: "response_ends sys self con srv = Some (con', ?srv)" using True r(1) by (simp add: response_ends_def Let_def)
    show thesis by (rule found [OF e r(2,4)]) (use r(3,5) p in \<open>simp_all add: called_same no_body_def\<close>)
  next
    case False
    have k': "conn_ok files st_size (plugin_close sys ?con) n" "con_fd (plugin_close sys ?con) = con_fd con" using keepsD [OF f(2) k(1)] k(3) by simp_all
    have p': "pool_ok (conns ?srv)" "self \<in> in_use (conns ?srv)" using p by simp_all
    obtain srv' where d: "connection_close self (plugin_close sys ?con) ?srv = Some (connection_set_state CON_STATE_CONNECT (plugin_close sys ?con), srv')"
      "conn_ok files st_size (connection_set_state CON_STATE_CONNECT (plugin_close sys ?con)) n" "pool_ok (conns srv')"
      "in_use (conns srv') = in_use (conns ?srv) - {self}"
      "net_calls srv' = net_calls ?srv @ [Event_del (con_fd (plugin_close sys ?con)), Unregister (con_fd (plugin_close sys ?con)), Close_fd (con_fd (plugin_close sys ?con))]"
      "cur_ts srv' = cur_ts ?srv" "conn_fresh (conns srv') = conn_fresh (conns ?srv)"
      by (rule close_ok [OF k'(1) p'])
    from connection_reset_ok [OF d(2) sys] obtain con' where r: "connection_reset sys (connection_set_state CON_STATE_CONNECT (plugin_close sys ?con)) = Some con'"
      "conn_ok files st_size con' n" "state_of con' = CON_STATE_CONNECT" "con_fd con' = con_fd con"
      "cq_bytes_in (content_queue (rd con')) = 0" using k'(2) by auto
    have e: "response_ends sys self con srv = Some (con', srv'\<lparr>con_closed := con_closed srv' + 1\<rparr>)"
      using False r(1) d(1) by (simp add: response_ends_def Let_def)
    have "called (con_fd con) (state_of con) CON_STATE_CONNECT srv (srv'\<lparr>con_closed := con_closed srv' + 1\<rparr>)"
      by (rule called_close [of _ _ "[]"]) (use d(5,7) k'(2) c(2) in simp_all)
    then show thesis using found [OF e r(2,4)] r(3,5) d(3,4,6) by (simp add: no_body_def)
  qed
qed

lemma closing_ok:
  assumes c: "conn_ok files st_size con n" "state_of con = CON_STATE_CLOSE" "keep_alive (rd con) = 0" and t: "cur_ts srv > 1"
    and p: "pool_ok (conns srv)" "self \<in> in_use (conns srv)"
  obtains con' srv' where "closing sys self con srv = Some (con', srv')" "conn_ok files st_size con' n" "con_fd con' = con_fd con"
    "state_of con' = CON_STATE_CONNECT" "pool_ok (conns srv')" "cur_ts srv' = cur_ts srv" "called (con_fd con) (state_of con) CON_STATE_CONNECT srv srv'"
    "in_use (conns srv') = in_use (conns srv) - {self}"
proof -
  let ?con = "con\<lparr>close_timeout_ts := 0\<rparr>"
  have k: "conn_ok files st_size ?con n" using c(1) by simp
  obtain srv' where d: "connection_close self ?con srv = Some (connection_set_state CON_STATE_CONNECT ?con, srv')"
    "conn_ok files st_size (connection_set_state CON_STATE_CONNECT ?con) n" "pool_ok (conns srv')" "in_use (conns srv') = in_use (conns srv) - {self}"
    "net_calls srv' = net_calls srv @ [Event_del (con_fd ?con), Unregister (con_fd ?con), Close_fd (con_fd ?con)]" "cur_ts srv' = cur_ts srv"
    "conn_fresh (conns srv') = conn_fresh (conns srv)"
    by (rule close_ok [OF k p])
  have e: "closing sys self con srv = Some (connection_set_state CON_STATE_CONNECT ?con, srv')"
    using c(3) t d(1) by (simp add: closing_def)
  have "called (con_fd con) (state_of con) CON_STATE_CONNECT srv srv'" by (rule called_close [of _ _ "[]"]) (use d(5,7) c(2) in simp_all)
  then show thesis using that [OF e d(2)] d(3,4,6) by simp
qed

lemma connection_fails_ok:
  assumes c: "conn_ok files st_size con n" "state_of con = CON_STATE_ERROR" and sys: "sys_ok files st_size sys"
    and p: "pool_ok (conns srv)" "self \<in> in_use (conns srv)"
  obtains con' srv' where "connection_fails sys self con srv = Some (con', srv')" "conn_ok files st_size con' n" "con_fd con' = con_fd con"
    "state_of con' \<in> {CON_STATE_CLOSE, CON_STATE_CONNECT}" "keep_alive (rd con') = 0" "pool_ok (conns srv')" "cur_ts srv' = cur_ts srv"
    "called (con_fd con) (state_of con) (state_of con') srv srv'"
    "in_use (conns srv') = in_use (conns srv) - (if state_of con' = CON_STATE_CONNECT then {self} else {})"
proof -
  note found = that
  have f: "keeps files st_size (request_done sys)" "keeps files st_size (plugin_close sys)" using sys by (simp_all add: sys_ok_def)
  let ?c1 = "if http_status (rd con) \<noteq> 0 then request_done sys con else con"
  have k1: "conn_ok files st_size ?c1 n \<and> state_of ?c1 = CON_STATE_ERROR \<and> con_fd ?c1 = con_fd con" using keepsD [OF f(1) c(1)] c by simp
  let ?c2 = "if con_mode ?c1 = 0 then ?c1 else plugin_close sys ?c1"
  have k2: "conn_ok files st_size ?c2 n" "state_of ?c2 = CON_STATE_ERROR" "con_fd ?c2 = con_fd con"
    using keepsD [OF f(2) conjunct1 [OF k1]] k1 by simp_all
  obtain c3 where r: "connection_reset sys ?c2 = Some c3" "conn_ok files st_size c3 n" "state_of c3 = state_of ?c2" "con_fd c3 = con_fd ?c2"
    by (rule connection_reset_ok [OF k2(1) sys])
  define cs where "cs = (if keep_alive (rd c3) = 1 then [Shut (con_fd con)] else [])"
  have sh: "(if keep_alive (rd c3) = 1 then net [Shut (con_fd c3)] srv else srv) = net cs srv"
    using r(4) k2(3) by (simp add: cs_def net_def)
  have cs: "filter is_discard cs = []" "closes cs = []" "registered cs = []" by (simp_all add: cs_def)
  have unroll: "connection_fails sys self con srv = do {
      (con, srv) \<leftarrow> (if keep_alive (rd c3) = 1 \<and> s_shutdown sys (con_fd c3)
        then Some (connection_set_state CON_STATE_CLOSE (c3\<lparr>close_timeout_ts := cur_ts (net cs srv)\<rparr>), net cs srv)
        else connection_close self c3 (net cs srv));
      Some (con\<lparr>rd := (rd con)\<lparr>keep_alive := 0\<rparr>\<rparr>, srv\<lparr>con_closed := con_closed srv + 1\<rparr>) }"
    unfolding connection_fails_def Let_def r(1) Option.bind.bind_lunit sh ..
  have ka: "conn_ok files st_size (con\<lparr>rd := (rd con)\<lparr>keep_alive := 0\<rparr>\<rparr>) n = conn_ok files st_size con n" for con by (rule conn_ok_rd) simp
  show thesis
  proof (cases "keep_alive (rd c3) = 1 \<and> s_shutdown sys (con_fd c3)")
    case True
    let ?c4 = "connection_set_state CON_STATE_CLOSE (c3\<lparr>close_timeout_ts := cur_ts (net cs srv)\<rparr>)"
    have k4: "conn_ok files st_size ?c4 n" by (rule set_state_ok) (use r(2) in simp_all)
    have e: "connection_fails sys self con srv = Some (?c4\<lparr>rd := (rd ?c4)\<lparr>keep_alive := 0\<rparr>\<rparr>, (net cs srv)\<lparr>con_closed := con_closed (net cs srv) + 1\<rparr>)"
      unfolding unroll if_P [OF True] by simp
    have "called (con_fd con) (state_of con) CON_STATE_CLOSE srv ((net cs srv)\<lparr>con_closed := con_closed (net cs srv) + 1\<rparr>)"
      unfolding called_def by (intro conjI exI [of _ cs]) (use cs in simp_all)
    then show thesis using found [OF e iffD2 [OF ka k4]] r(4) k2(3) p by simp
  next
    case False
    have p': "pool_ok (conns (net cs srv))" "self \<in> in_use (conns (net cs srv))" using p by simp_all
    let ?c4 = "connection_set_state CON_STATE_CONNECT c3"
    obtain srv' where d: "connection_close self c3 (net cs srv) = Some (?c4, srv')"
      "conn_ok files st_size ?c4 n" "pool_ok (conns srv')" "in_use (conns srv') = in_use (conns (net cs srv)) - {self}"
      "net_calls srv' = net_calls (net cs srv) @ [Event_del (con_fd c3), Unregister (con_fd c3), Close_fd (con_fd c3)]" "cur_ts srv' = cur_ts (net cs srv)"
      "conn_fresh (conns srv') = conn_fresh (conns (net cs srv))"
      by (rule close_ok [OF r(2) p'])
    have e: "connection_fails sys self con srv = Some (?c4\<lparr>rd := (rd ?c4)\<lparr>keep_alive := 0\<rparr>\<rparr>, srv'\<lparr>con_closed := con_closed srv' + 1\<rparr>)"
      unfolding unroll if_not_P [OF False] d(1) by simp
    have "called (con_fd con) (state_of con) CON_STATE_CONNECT srv (srv'\<lparr>con_closed := con_closed srv' + 1\<rparr>)"
      by (rule called_close [of _ _ cs]) (use cs d(5,7) r(4) k2(3) c(2) in simp_all)
    then show thesis using found [OF e iffD2 [OF ka d(2)]] d(3,4,6) r(4) k2(3) by simp
  qed
qed

lemma not_connected_ok:
  assumes c: "conn_ok files st_size con n" "state_of con = CON_STATE_CONNECT"
  obtains con' where "not_connected con = Some con'" "conn_ok files st_size con' n" "con_fd con' = con_fd con" "state_of con' = CON_STATE_CONNECT"
    "waiting (rd con') 0"
proof -
  obtain cs where "holds (read_queue (rd con)) cs" using c by (auto simp: conn_ok_def input_ok_def)
  then obtain rq where r: "chunkqueue_reset (read_queue (rd con)) = Some rq" "holds rq []" by (rule queue_reset_ok)
  obtain as us where q: "queue_rep rq as us []" "contents rq as = []" using r(2) by (auto simp: holds_def)
  have "unread rq [] 0" unfolding unread_def by (rule exI [of _ as], rule exI [of _ us]) (use q in \<open>simp add: skipped_def\<close>)
  then have w: "waiting ((rd con)\<lparr>read_queue := rq\<rparr>) 0" using waiting_def by fastforce
  show thesis
    by (rule that [of "con\<lparr>rd := (rd con)\<lparr>read_queue := rq\<rparr>, request_count := 0\<rparr>"])
      (use c r w in \<open>auto simp: not_connected_def conn_ok_def input_ok_def\<close>)
qed

section \<open>One turn\<close>

lemma turnI:
  assumes "machine_ok files st_size self (con, srv, w)" and "con_fd con' = con_fd con"
    and "state_of con' = state_of con \<or> (state_of con, state_of con') \<in> documented \<union> undocumented" "called (con_fd con) (state_of con) (state_of con') srv srv'"
    and "in_use (conns srv') = in_use (conns srv) - (if state_of con' = CON_STATE_CONNECT then {self} else {})"
    and "length (handlers w') \<le> length (handlers w)" "again \<longrightarrow> state_of con' = CON_STATE_HANDLE_REQUEST"
    and "again \<or> state_of con' \<noteq> state_of con \<longrightarrow>
         length (handlers w') < length (handlers w) \<or> length (handlers w') = length (handlers w) \<and> rank (state_of con') < rank (state_of con)"
    and "state_of con = CON_STATE_CONNECT \<longrightarrow> state_of con' = CON_STATE_CONNECT \<and> waiting (rd con') 0"
    and "state_of con = CON_STATE_READ \<longrightarrow> state_of con' = CON_STATE_HANDLE_REQUEST \<longrightarrow> http_status (rd con') = 414 \<and> keep_alive (rd con') = 0"
    and "state_of con' = state_of con \<longrightarrow> state_of con \<in> resting"
    and "conn_ok files st_size con' m" "m + bytes_to_come w' < 2 ^ 50" "list_all arrival_ok (arrivals w')" "set (handlers w') \<subseteq> set (handlers w)"
    and "pool_ok (conns srv')" "cur_ts srv' = cur_ts srv" "state_of con' = CON_STATE_CLOSE \<longrightarrow> keep_alive (rd con') = 0" "no_body con'"
  shows "machine_ok files st_size self (con', srv', w') \<and> turn self again (con, srv, w) (con', srv', w')"
proof
  have "self \<in> in_use (conns srv') \<longleftrightarrow> state_of con' \<noteq> CON_STATE_CONNECT" using assms(1,5,9) by (auto simp: machine_ok_def)
  then show "machine_ok files st_size self (con', srv', w')" using assms(1,12-19) by (auto simp: machine_ok_def)
  show "turn self again (con, srv, w) (con', srv', w')" using assms(2-11,17) unfolding turn_def by auto
qed

lemma turn_ok:
  assumes m: "machine_ok files st_size self (con, srv, w)" and sys: "sys_ok files st_size sys"
  obtains again con' srv' w' where "connection_step sys self (con, srv, w) = Some (again, con', srv', w')"
    "machine_ok files st_size self (con', srv', w')" "turn self again (con, srv, w) (con', srv', w')"
proof -
  obtain n where n: "conn_ok files st_size con n" "n + bytes_to_come w < 2 ^ 50" using m by (auto simp: machine_ok_def)
  have w: "list_all arrival_ok (arrivals w)" "\<forall>h \<in> set (handlers w). keeps files st_size (\<lambda>c. snd (h c))" "cur_ts srv > 1" "no_body con"
    and p: "pool_ok (conns srv)" "self \<in> in_use (conns srv) \<longleftrightarrow> state_of con \<noteq> CON_STATE_CONNECT"
    and ka: "state_of con = CON_STATE_CLOSE \<longrightarrow> keep_alive (rd con) = 0"
    using m by (auto simp: machine_ok_def)
  note found = that
  have fin: thesis if s: "connection_step sys self (con, srv, w) = Some (again, con', srv', w')"
    "machine_ok files st_size self (con', srv', w') \<and> turn self again (con, srv, w) (con', srv', w')" for again con' srv' w'
    by (rule found [OF s(1) conjunct1 [OF s(2)] conjunct2 [OF s(2)]])
  show thesis
  proof (cases "state_of con")
    case CON_STATE_REQUEST_START
    note k = request_starts_ok [OF n(1) this, of srv]
    show thesis by (rule fin [of False "request_starts con srv" srv w, OF _ turnI [OF m k(3) _ _ _ _ _ _ _ _ _ k(1) n(2) w(1) _ p(1)]])
      (use k CON_STATE_REQUEST_START w(4) in \<open>simp_all add: connection_step_def documented_def called_same no_body_def resting_def request_starts_def connection_set_state_def\<close>)
  next
    case CON_STATE_READ
    obtain con' w' m' where r: "handle_read sys con srv w = Some (con', w')" "conn_ok files st_size con' m'" "m' + bytes_to_come w' \<le> n + bytes_to_come w"
      "list_all arrival_ok (arrivals w')" "handlers w' = handlers w" "con_fd con' = con_fd con"
      "state_of con' \<in> {state_of con, CON_STATE_HANDLE_REQUEST, CON_STATE_ERROR} \<or> state_of con = CON_STATE_READ \<and> state_of con' = CON_STATE_REQUEST_END"
      "state_of con = CON_STATE_READ \<longrightarrow> content_queue (rd con') = content_queue (rd con)"
      "state_of con = CON_STATE_READ \<longrightarrow> state_of con' = CON_STATE_HANDLE_REQUEST \<longrightarrow> http_status (rd con') = 414 \<and> keep_alive (rd con') = 0"
      by (rule read_ok [OF n(1) disjI1 [OF CON_STATE_READ] w(1) n(2)])
    have b: "m' + bytes_to_come w' < 2 ^ 50" using r(3) n(2) by linarith
    show thesis by (rule fin [of False con' srv w', OF _ turnI [OF m r(6) _ _ _ _ _ _ _ r(9) _ r(2) b r(4) _ p(1)]])
      (use r(1,5,7,8) CON_STATE_READ w(4) in \<open>auto simp: connection_step_def documented_def undocumented_def called_same no_body_def resting_def\<close>)
  next
    case CON_STATE_REQUEST_END
    note k = request_ends_ok [OF n(1) this w(4) sys]
    show thesis by (rule fin [of False "request_ends sys con" srv w, OF _ turnI [OF m _ _ _ _ _ _ _ _ _ _ conjunct1 [OF k] n(2) w(1) _ p(1)]])
      (use k CON_STATE_REQUEST_END in \<open>auto simp: connection_step_def documented_def called_same no_body_def resting_def\<close>)
  next
    case CON_STATE_READ_POST
    obtain con' w' m' where r: "handle_read sys con srv w = Some (con', w')" "conn_ok files st_size con' m'" "m' + bytes_to_come w' \<le> n + bytes_to_come w"
      "list_all arrival_ok (arrivals w')" "handlers w' = handlers w" "con_fd con' = con_fd con"
      "state_of con' \<in> {state_of con, CON_STATE_HANDLE_REQUEST, CON_STATE_ERROR} \<or> state_of con = CON_STATE_READ \<and> state_of con' = CON_STATE_REQUEST_END"
      "state_of con = CON_STATE_READ \<longrightarrow> content_queue (rd con') = content_queue (rd con)"
      "state_of con = CON_STATE_READ \<longrightarrow> state_of con' = CON_STATE_HANDLE_REQUEST \<longrightarrow> http_status (rd con') = 414 \<and> keep_alive (rd con') = 0"
      by (rule read_ok [OF n(1) disjI2 [OF CON_STATE_READ_POST] w(1) n(2)])
    have b: "m' + bytes_to_come w' < 2 ^ 50" using r(3) n(2) by linarith
    show thesis by (rule fin [of False con' srv w', OF _ turnI [OF m r(6) _ _ _ _ _ _ _ _ _ r(2) b r(4) _ p(1)]])
      (use r(1,5,7) CON_STATE_READ_POST in \<open>auto simp: connection_step_def documented_def called_same no_body_def resting_def\<close>)
  next
    case CON_STATE_HANDLE_REQUEST
    obtain again con' srv' w' where h: "handle_request sys self con srv w = Some (again, con', srv', w')" "conn_ok files st_size con' n" "con_fd con' = con_fd con"
      "state_of con' \<in> {CON_STATE_HANDLE_REQUEST, CON_STATE_RESPONSE_START, CON_STATE_ERROR}" "arrivals w' = arrivals w"
      "again \<or> state_of con' \<noteq> CON_STATE_HANDLE_REQUEST \<longrightarrow> length (handlers w') < length (handlers w)" "set (handlers w') \<subseteq> set (handlers w)"
      "length (handlers w') \<le> length (handlers w)" "conns srv' = conns srv" "net_calls srv' = net_calls srv" "again \<longrightarrow> state_of con' = CON_STATE_HANDLE_REQUEST"
      "cur_ts srv' = cur_ts srv"
      by (rule handle_ok [OF n(1) CON_STATE_HANDLE_REQUEST w(2)])
    have b: "n + bytes_to_come w' < 2 ^ 50" using n(2) h(5) by (simp add: bytes_to_come_def)
    show thesis by (rule fin [of again con' srv' w', OF _ turnI [OF m h(3) _ _ _ h(8,11) _ _ _ _ h(2) b _ h(7)]])
      (use h(1,4-6,9,10,12) CON_STATE_HANDLE_REQUEST w(1) p(1) in \<open>auto simp: connection_step_def documented_def called_same no_body_def resting_def\<close>)
  next
    case CON_STATE_RESPONSE_START
    note k = response_starts_ok [OF n(1) this sys]
    show thesis by (rule fin [of False "response_starts sys con" srv w, OF _ turnI [OF m _ _ _ _ _ _ _ _ _ _ conjunct1 [OF k] n(2) w(1) _ p(1)]])
      (use k CON_STATE_RESPONSE_START in \<open>auto simp: connection_step_def documented_def undocumented_def called_same no_body_def resting_def\<close>)
  next
    case CON_STATE_WRITE
    obtain con' w' where r: "write_if_writable sys con srv w = Some (con', w')" "conn_ok files st_size con' n" "con_fd con' = con_fd con"
      "state_of con' \<in> {CON_STATE_WRITE, CON_STATE_RESPONSE_END, CON_STATE_ERROR}" "handlers w' = handlers w" "arrivals w' = arrivals w"
      by (rule write_ok [OF n(1) CON_STATE_WRITE sys])
    have b: "n + bytes_to_come w' < 2 ^ 50" using n(2) r(6) by (simp add: bytes_to_come_def)
    show thesis by (rule fin [of False con' srv w', OF _ turnI [OF m r(3) _ _ _ _ _ _ _ _ _ r(2) b _ _ p(1)]])
      (use r(1,4-6) CON_STATE_WRITE w(1) in \<open>auto simp: connection_step_def documented_def called_same no_body_def resting_def\<close>)
  next
    case CON_STATE_RESPONSE_END
    have self: "self \<in> in_use (conns srv)" using p(2) CON_STATE_RESPONSE_END by simp
    obtain con' srv' where r: "response_ends sys self con srv = Some (con', srv')" "conn_ok files st_size con' n" "con_fd con' = con_fd con"
      "pool_ok (conns srv')" "cur_ts srv' = cur_ts srv" "state_of con' \<in> {CON_STATE_REQUEST_START, CON_STATE_CONNECT}"
      "called (con_fd con) (state_of con) (state_of con') srv srv'" "no_body con'"
      "in_use (conns srv') = in_use (conns srv) - (if state_of con' = CON_STATE_CONNECT then {self} else {})"
      by (rule response_ends_ok [OF n(1) CON_STATE_RESPONSE_END sys p(1) self])
    show thesis by (rule fin [of False con' srv' w, OF _ turnI [OF m r(3) _ r(7,9) _ _ _ _ _ _ r(2) n(2) w(1) _ r(4,5) _ r(8)]])
      (use r(1,6) CON_STATE_RESPONSE_END in \<open>auto simp: connection_step_def documented_def resting_def\<close>)
  next
    case CON_STATE_CONNECT
    obtain con' where r: "not_connected con = Some con'" "conn_ok files st_size con' n" "con_fd con' = con_fd con" "state_of con' = CON_STATE_CONNECT"
      "waiting (rd con') 0"
      by (rule not_connected_ok [OF n(1) CON_STATE_CONNECT])
    show thesis by (rule fin [of False con' srv w, OF _ turnI [OF m r(3) _ _ _ _ _ _ _ _ _ r(2) n(2) w(1) _ p(1)]])
      (use r(1,4,5) CON_STATE_CONNECT p(2) in \<open>simp_all add: connection_step_def called_same no_body_def resting_def\<close>)
  next
    case CON_STATE_CLOSE
    have self: "self \<in> in_use (conns srv)" and k0: "keep_alive (rd con) = 0" using p(2) ka CON_STATE_CLOSE by simp_all
    obtain con' srv' where r: "closing sys self con srv = Some (con', srv')" "conn_ok files st_size con' n" "con_fd con' = con_fd con"
      "state_of con' = CON_STATE_CONNECT" "pool_ok (conns srv')" "cur_ts srv' = cur_ts srv" "called (con_fd con) (state_of con) CON_STATE_CONNECT srv srv'"
      "in_use (conns srv') = in_use (conns srv) - {self}"
      by (rule closing_ok [OF n(1) CON_STATE_CLOSE k0 w(3) p(1) self])
    show thesis by (rule fin [of False con' srv' w, OF _ turnI [OF m r(3) _ _ _ _ _ _ _ _ _ r(2) n(2) w(1) _ r(5,6)]])
      (use r(1,4,7,8) CON_STATE_CLOSE in \<open>simp_all add: connection_step_def documented_def no_body_def resting_def\<close>)
  next
    case CON_STATE_ERROR
    have self: "self \<in> in_use (conns srv)" using p(2) CON_STATE_ERROR by simp
    obtain con' srv' where r: "connection_fails sys self con srv = Some (con', srv')" "conn_ok files st_size con' n" "con_fd con' = con_fd con"
      "state_of con' \<in> {CON_STATE_CLOSE, CON_STATE_CONNECT}" "keep_alive (rd con') = 0" "pool_ok (conns srv')" "cur_ts srv' = cur_ts srv"
      "called (con_fd con) (state_of con) (state_of con') srv srv'"
      "in_use (conns srv') = in_use (conns srv) - (if state_of con' = CON_STATE_CONNECT then {self} else {})"
      by (rule connection_fails_ok [OF n(1) CON_STATE_ERROR sys p(1) self])
    show thesis by (rule fin [of False con' srv' w, OF _ turnI [OF m r(3) _ r(8,9) _ _ _ _ _ _ r(2) n(2) w(1) _ r(6,7)]])
      (use r(1,4,5) CON_STATE_ERROR in \<open>auto simp: connection_step_def documented_def no_body_def resting_def\<close>)
  qed
qed

section \<open>A run\<close>

definition run :: "nat \<Rightarrow> machine \<Rightarrow> machine \<Rightarrow> bool" where
  "run self s s' \<longleftrightarrow> (case s of (con, srv, w) \<Rightarrow> case s' of (con', srv', w') \<Rightarrow>
     con_fd con' = con_fd con \<and> called (con_fd con) (state_of con) (state_of con') srv srv'
     \<and> in_use (conns srv') = in_use (conns srv) - (if state_of con' = CON_STATE_CONNECT then {self} else {})
     \<and> cur_ts srv' = cur_ts srv
     \<and> state_of con' \<in> resting \<and> (state_of con' = CON_STATE_CONNECT \<longrightarrow> waiting (rd con') 0)
     \<and> (ended (state_of con) \<longrightarrow> state_of con' = CON_STATE_CONNECT))"

lemma called_trans:
  assumes "called fd st st' srv srv'" "called fd st' st'' srv' srv''" "st' = CON_STATE_CONNECT \<longrightarrow> st'' = CON_STATE_CONNECT"
    "st = CON_STATE_CONNECT \<longrightarrow> st' = CON_STATE_CONNECT"
  shows "called fd st st'' srv srv''"
proof -
  obtain cs where cs: "net_calls srv' = net_calls srv @ cs" "filter is_discard cs = [] \<and> registered cs = []"
    "closes cs = (if st' = CON_STATE_CONNECT \<and> st \<noteq> CON_STATE_CONNECT then [fd] else [])" using assms(1) by (auto simp: called_def)
  obtain ds where ds: "net_calls srv'' = net_calls srv' @ ds" "filter is_discard ds = [] \<and> registered ds = []"
    "closes ds = (if st'' = CON_STATE_CONNECT \<and> st' \<noteq> CON_STATE_CONNECT then [fd] else [])" using assms(2) by (auto simp: called_def)
  have n: "net_calls srv'' = net_calls srv @ cs @ ds" "filter is_discard (cs @ ds) = []" "registered (cs @ ds) = []" using cs(1,2) ds(1,2) by simp_all
  have "closes (cs @ ds) = (if st'' = CON_STATE_CONNECT \<and> st \<noteq> CON_STATE_CONNECT then [fd] else [])"
    unfolding closes_append cs(3) ds(3) using assms(3,4) by (cases "st = CON_STATE_CONNECT"; cases "st' = CON_STATE_CONNECT") simp_all
  moreover have "conn_fresh (conns srv'') = conn_fresh (conns srv)" using assms(1,2) by (simp add: called_def)
  ultimately show ?thesis using n unfolding called_def by (intro conjI exI [of _ "cs @ ds"])
qed

lemma turn_run:
  assumes t: "turn self again s s'" and r: "run self s' s''"
  shows "run self s s''"
proof -
  obtain con srv w con' srv' w' con'' srv'' w'' where s: "s = (con, srv, w)" "s' = (con', srv', w')" "s'' = (con'', srv'', w'')"
    by (cases s, cases s', cases s'')
  have ts: "cur_ts srv'' = cur_ts srv" using t r s by (simp add: turn_def run_def)
  have t1: "con_fd con' = con_fd con" "state_of con' \<noteq> state_of con \<longrightarrow> (state_of con, state_of con') \<in> documented \<union> undocumented"
    "called (con_fd con) (state_of con) (state_of con') srv srv'"
    "in_use (conns srv') = in_use (conns srv) - (if state_of con' = CON_STATE_CONNECT then {self} else {})"
    "state_of con = CON_STATE_CONNECT \<longrightarrow> state_of con' = CON_STATE_CONNECT"
    using t s by (simp_all add: turn_def)
  have r1: "con_fd con'' = con_fd con'" "called (con_fd con') (state_of con') (state_of con'') srv' srv''"
    "in_use (conns srv'') = in_use (conns srv') - (if state_of con'' = CON_STATE_CONNECT then {self} else {})"
    "state_of con'' \<in> resting" "state_of con'' = CON_STATE_CONNECT \<longrightarrow> waiting (rd con'') 0"
    "ended (state_of con') \<longrightarrow> state_of con'' = CON_STATE_CONNECT"
    using r s by (simp_all add: run_def)
  have c: "state_of con' = CON_STATE_CONNECT \<longrightarrow> state_of con'' = CON_STATE_CONNECT" using r1(6) by simp
  have e: "ended (state_of con) \<longrightarrow> ended (state_of con')" using t1(2,5) by (auto simp: documented_def undocumented_def)
  have "called (con_fd con) (state_of con) (state_of con'') srv srv''" by (rule called_trans [OF t1(3) r1(2) [unfolded t1(1)] c t1(5)])
  then show ?thesis unfolding run_def s prod.case using ts t1(1,4) r1(1,3-6) c e by auto
qed

lemma turn_rests:
  assumes t: "turn self False (con, srv, w) (con', srv', w')" and "state_of con' = state_of con"
  shows "run self (con, srv, w) (con', srv', w')"
  using assms by (auto simp: turn_def run_def resting_def)

lemma loop_ok:
  assumes "machine_ok files st_size self s" and sys: "sys_ok files st_size sys"
  shows "\<exists>s'. connection_loop sys self s = Some s' \<and> machine_ok files st_size self s' \<and> run self s s'"
  using assms(1)
proof (induction s rule: wf_induct [OF wf_measures [of "[\<lambda>s. length (handlers (snd (snd s))), \<lambda>s. rank (state_of (fst s))]"]])
  case (1 s)
  obtain con srv w where s: "s = (con, srv, w)" by (cases s)
  obtain again con' srv' w' where t: "connection_step sys self (con, srv, w) = Some (again, con', srv', w')"
    "machine_ok files st_size self (con', srv', w')" "turn self again (con, srv, w) (con', srv', w')"
    using turn_ok [OF 1(2) [unfolded s] sys] .
  show ?case
  proof (cases "again \<or> state_of con' \<noteq> state_of con")
    case True
    then have "((con', srv', w'), s) \<in> measures [\<lambda>s. length (handlers (snd (snd s))), \<lambda>s. rank (state_of (fst s))]"
      using t(3) s by (auto simp: turn_def)
    then obtain s' where s': "connection_loop sys self (con', srv', w') = Some s'" "machine_ok files st_size self s'" "run self (con', srv', w') s'"
      using 1(1) t(2) by blast
    have "connection_loop sys self s = Some s'" using True t(1) s'(1) unfolding s by (subst connection_loop.simps) auto
    then show ?thesis using s'(2) turn_run [OF t(3) s'(3)] s by blast
  next
    case False
    then have e: "connection_loop sys self s = Some (con', srv', w')" using t(1) unfolding s by (subst connection_loop.simps) simp
    have "run self s (con', srv', w')" unfolding s by (rule turn_rests) (use t(3) False in auto)
    then show ?thesis using e t(2) by blast
  qed
qed

section \<open>Events\<close>

lemma take_events_ok:
  assumes c: "conn_ok files st_size con n" "state_of con \<noteq> CON_STATE_CLOSE"
  shows "conn_ok files st_size (take_events ev (append_job con)) n" "con_fd (take_events ev (append_job con)) = con_fd con"
    "state_of (take_events ev (append_job con)) \<in> {state_of con, CON_STATE_ERROR}"
    "content_queue (rd (take_events ev (append_job con))) = content_queue (rd con)"
proof -
  let ?a = "append_job con"
  let ?b = "if ev_in ev then ?a\<lparr>rd := (rd ?a)\<lparr>is_readable := True\<rparr>\<rparr> else ?a"
  let ?c = "if ev_out ev then ?b\<lparr>con_writable := True\<rparr> else ?b"
  have a: "conn_ok files st_size ?a n" using c(1) by (simp add: append_job_def)
  have "conn_ok files st_size (?a\<lparr>rd := (rd ?a)\<lparr>is_readable := True\<rparr>\<rparr>) n" by (rule iffD2 [OF conn_ok_rd a]) simp
  then have b: "conn_ok files st_size ?c n" using a by simp
  have f: "state_of ?c = state_of con" "con_fd ?c = con_fd con" "content_queue (rd ?c) = content_queue (rd con)" by (simp_all add: append_job_def)
  have e: "conn_ok files st_size (connection_set_state CON_STATE_ERROR ?c) n" by (rule set_state_ok [OF b]) simp_all
  have t: "take_events ev ?a = (if ev_hup ev \<or> ev_err ev then connection_set_state CON_STATE_ERROR ?c else ?c)"
    using f(1) c(2) by (cases "ev_hup ev"; cases "ev_err ev"; cases "ev_other ev") (simp_all add: take_events_def Let_def split del: if_split)
  show "conn_ok files st_size (take_events ev ?a) n" unfolding t by (cases "ev_hup ev \<or> ev_err ev") (simp_all only: if_True if_False b e)
  show "con_fd (take_events ev ?a) = con_fd con" "state_of (take_events ev ?a) \<in> {state_of con, CON_STATE_ERROR}"
    "content_queue (rd (take_events ev ?a)) = content_queue (rd con)"
    unfolding t by (simp_all add: f connection_set_state_def append_job_def)
qed

lemma fdevent_ok:
  assumes m: "machine_ok files st_size self (con, srv, w)" and sys: "sys_ok files st_size sys"
    and st: "state_of con \<noteq> CON_STATE_CONNECT" "state_of con \<noteq> CON_STATE_CLOSE"
  obtains con' w' where "connection_handle_fdevent sys ev (con, srv, w) = Some (con', srv, w')" "machine_ok files st_size self (con', srv, w')"
    "con_fd con' = con_fd con" "state_of con' \<noteq> CON_STATE_CONNECT" "state_of con' \<noteq> CON_STATE_CLOSE"
proof -
  note found = that
  obtain n where n: "conn_ok files st_size con n" "n + bytes_to_come w < 2 ^ 50" using m by (auto simp: machine_ok_def)
  have w: "list_all arrival_ok (arrivals w)" "no_body con" using m by (auto simp: machine_ok_def)
  let ?c = "take_events ev (append_job con)"
  note k = take_events_ok [OF n(1) st(2), of ev]
  have fin: thesis if e: "connection_handle_fdevent sys ev (con, srv, w) = Some (con', srv, w')" and c: "conn_ok files st_size con' m"
    "m + bytes_to_come w' < 2 ^ 50" "list_all arrival_ok (arrivals w')" "handlers w' = handlers w" "con_fd con' = con_fd con"
    "state_of con' \<noteq> CON_STATE_CONNECT" "state_of con' \<noteq> CON_STATE_CLOSE" "no_body con'" for con' w' m
  proof -
    have "\<exists>n. conn_ok files st_size con' n \<and> n + bytes_to_come w' < 2 ^ 50" by (rule exI [of _ m], rule conjI, rule c(1), rule c(2))
    then have "machine_ok files st_size self (con', srv, w')" using m st c(3-8) by (simp add: machine_ok_def)
    then show thesis by (rule found [OF e _ c(5-7)])
  qed
  consider "state_of ?c = CON_STATE_READ \<or> state_of ?c = CON_STATE_READ_POST" | "state_of ?c = CON_STATE_WRITE"
    | "state_of ?c \<notin> {CON_STATE_READ, CON_STATE_READ_POST, CON_STATE_WRITE}" by auto
  then show thesis
  proof cases
    case 1
    obtain con' w' m' where r: "handle_read sys ?c srv w = Some (con', w')" "conn_ok files st_size con' m'" "m' + bytes_to_come w' \<le> n + bytes_to_come w"
      "list_all arrival_ok (arrivals w')" "handlers w' = handlers w" "con_fd con' = con_fd ?c"
      "state_of con' \<in> {state_of ?c, CON_STATE_HANDLE_REQUEST, CON_STATE_ERROR} \<or> state_of ?c = CON_STATE_READ \<and> state_of con' = CON_STATE_REQUEST_END"
      "state_of ?c = CON_STATE_READ \<longrightarrow> content_queue (rd con') = content_queue (rd ?c)"
      by (rule read_ok [OF k(1) 1 w(1) n(2)])
    have s: "state_of con' \<notin> {CON_STATE_WRITE, CON_STATE_CLOSE, CON_STATE_CONNECT}" using r(7) 1 by auto
    have e: "connection_handle_fdevent sys ev (con, srv, w) = Some (con', srv, w')" using 1 r(1) s by (simp add: connection_handle_fdevent_def Let_def)
    have b: "no_body con'" using r(7,8) 1 k(3,4) w(2) by (auto simp: no_body_def)
    show thesis by (rule fin [OF e r(2) _ r(4,5) _ _ _ b]) (use r(3,6) n(2) s k(2) in simp_all)
  next
    case 2
    obtain con' w' where r: "write_if_writable sys ?c srv w = Some (con', w')" "conn_ok files st_size con' n" "con_fd con' = con_fd ?c"
      "state_of con' \<in> {CON_STATE_WRITE, CON_STATE_RESPONSE_END, CON_STATE_ERROR}" "handlers w' = handlers w" "arrivals w' = arrivals w"
      by (rule write_ok [OF k(1) 2 sys])
    have e: "connection_handle_fdevent sys ev (con, srv, w) = Some (con', srv, w')" using 2 r(1,4) by (auto simp: connection_handle_fdevent_def Let_def)
    show thesis by (rule fin [OF e r(2)]) (use r(3-6) n(2) w(1) k(2) in \<open>auto simp: no_body_def bytes_to_come_def\<close>)
  next
    case 3
    have s: "state_of ?c \<noteq> CON_STATE_CLOSE" using k(3) st(2) by auto
    have e: "connection_handle_fdevent sys ev (con, srv, w) = Some (?c, srv, w)" using 3 s by (simp add: connection_handle_fdevent_def Let_def)
    have b: "no_body ?c" using k(3,4) w(2) by (auto simp: no_body_def)
    show thesis by (rule fin [OF e k(1) n(2) w(1) _ k(2) _ s b]) (use k(3) st in auto)
  qed
qed

section \<open>Properties\<close>

lemma watch_calls:
  obtains e where "net_calls (watch con srv) = net_calls srv @ [e]" "e = Event_in (con_fd con) \<longleftrightarrow> state_of con \<in> {CON_STATE_READ_POST, CON_STATE_READ, CON_STATE_CLOSE}"
    "e \<in> {Event_in (con_fd con), Event_out (con_fd con), Event_del (con_fd con)}"
  by (cases "state_of con \<in> {CON_STATE_READ_POST, CON_STATE_READ, CON_STATE_CLOSE}";
      cases "state_of con = CON_STATE_WRITE \<and> chunkqueue_is_empty (write_queue con) = 0 \<and> \<not> con_writable con \<and> \<not> traffic_limit_reached (limits con)")
    (auto simp: watch_def)

lemma watch_simps [simp]: "conns (watch con srv) = conns srv" "cur_ts (watch con srv) = cur_ts srv"
  by (simp_all add: watch_def)

lemma machine_run:
  assumes m: "machine_ok files st_size self (con, srv, w)" and sys: "sys_ok files st_size sys"
  obtains con' srv' w' cs e where "connection_state_machine sys self (con, srv, w) = Some (con', srv', w')" "machine_ok files st_size self (con', srv', w')"
    "con_fd con' = con_fd con" "state_of con' \<in> resting" "net_calls srv' = net_calls srv @ cs @ [e]" "filter is_discard cs = []"
    "closes cs = (if state_of con' = CON_STATE_CONNECT \<and> state_of con \<noteq> CON_STATE_CONNECT then [con_fd con] else [])"
    "e = Event_in (con_fd con) \<longleftrightarrow> state_of con' \<in> {CON_STATE_READ, CON_STATE_READ_POST}"
    "e \<in> {Event_in (con_fd con), Event_out (con_fd con), Event_del (con_fd con)}"
    "in_use (conns srv') = in_use (conns srv) - (if state_of con' = CON_STATE_CONNECT then {self} else {})"
    "state_of con' = CON_STATE_CONNECT \<longrightarrow> waiting (rd con') 0" "ended (state_of con) \<longrightarrow> state_of con' = CON_STATE_CONNECT" "cur_ts srv' = cur_ts srv"
    "registered cs = []" "conn_fresh (conns srv') = conn_fresh (conns srv)"
proof -
  obtain con' srv' w' where l: "connection_loop sys self (con, srv, w) = Some (con', srv', w')" "machine_ok files st_size self (con', srv', w')"
    "run self (con, srv, w) (con', srv', w')" using loop_ok [OF m sys] by auto
  have r: "con_fd con' = con_fd con" "called (con_fd con) (state_of con) (state_of con') srv srv'"
    "in_use (conns srv') = in_use (conns srv) - (if state_of con' = CON_STATE_CONNECT then {self} else {})"
    "state_of con' \<in> resting" "state_of con' = CON_STATE_CONNECT \<longrightarrow> waiting (rd con') 0" "ended (state_of con) \<longrightarrow> state_of con' = CON_STATE_CONNECT"
    "cur_ts srv' = cur_ts srv"
    using l(3) unfolding run_def prod.case by blast+
  have fr: "conn_fresh (conns srv') = conn_fresh (conns srv)" using r(2) by (simp add: called_def)
  obtain cs where cs: "net_calls srv' = net_calls srv @ cs" "filter is_discard cs = [] \<and> registered cs = []"
    "closes cs = (if state_of con' = CON_STATE_CONNECT \<and> state_of con \<noteq> CON_STATE_CONNECT then [con_fd con] else [])"
    using r(2) unfolding called_def by blast
  obtain e where e: "net_calls (watch con' srv') = net_calls srv' @ [e]" "e = Event_in (con_fd con') \<longleftrightarrow> state_of con' \<in> {CON_STATE_READ_POST, CON_STATE_READ, CON_STATE_CLOSE}"
    "e \<in> {Event_in (con_fd con'), Event_out (con_fd con'), Event_del (con_fd con')}" by (rule watch_calls)
  have m': "machine_ok files st_size self (con', watch con' srv', w')" using l(2) by (simp add: machine_ok_def)
  have f: "connection_state_machine sys self (con, srv, w) = Some (con', watch con' srv', w')" using l(1) by (simp add: connection_state_machine_def)
  show thesis
    by (rule that [OF f m' r(1,4) _ conjunct1 [OF cs(2)] cs(3)]) (use e cs(1,2) fr r in \<open>auto simp: resting_def\<close>)
qed


text \<open>C20: Every turn of the state machine follows an arrow of the diagram doc/state.dot or stays where it is, with two exceptions that the diagram
  does not have: a request whose header is too long goes from reading straight to its handler, with status 414 and without keeping the connection
  alive, and a response that cannot be prepared is an error.\<close>
theorem turns_follow_diagram:
  assumes "machine_ok files st_size self (con, srv, w)" "sys_ok files st_size sys"
  shows "\<exists>again con' srv' w'. connection_step sys self (con, srv, w) = Some (again, con', srv', w')
    \<and> (state_of con' = state_of con \<or> (state_of con, state_of con') \<in> documented
       \<or> state_of con = CON_STATE_READ \<and> state_of con' = CON_STATE_HANDLE_REQUEST \<and> http_status (rd con') = 414 \<and> keep_alive (rd con') = 0
       \<or> state_of con = CON_STATE_RESPONSE_START \<and> state_of con' = CON_STATE_ERROR)"
proof -
  obtain again con' srv' w' where s: "connection_step sys self (con, srv, w) = Some (again, con', srv', w')"
    "machine_ok files st_size self (con', srv', w')" "turn self again (con, srv, w) (con', srv', w')" by (rule turn_ok [OF assms])
  have "state_of con' \<noteq> state_of con \<longrightarrow> (state_of con, state_of con') \<in> documented \<union> undocumented"
    "state_of con = CON_STATE_READ \<longrightarrow> state_of con' = CON_STATE_HANDLE_REQUEST \<longrightarrow> http_status (rd con') = 414 \<and> keep_alive (rd con') = 0"
    using s(3) by (simp_all add: turn_def)
  then show ?thesis using s(1) unfolding undocumented_def by blast
qed

text \<open>C21: A connection that has failed is closed in the same run. The state \<open>CON_STATE_CLOSE\<close>, in which the server is to wait after
  \<open>shutdown\<close> and throw away what the client still sends, has no effect: nothing is thrown away, however much is pending, and the
  descriptor is closed at once.\<close>
theorem failed_connection_never_lingers:
  assumes "machine_ok files st_size self (con, srv, w)" "sys_ok files st_size sys" and "state_of con = CON_STATE_ERROR"
  shows "\<exists>con' srv' w' cs. connection_state_machine sys self (con, srv, w) = Some (con', srv', w') \<and> state_of con' = CON_STATE_CONNECT
    \<and> net_calls srv' = net_calls srv @ cs \<and> filter is_discard cs = [] \<and> closes cs = [con_fd con]
    \<and> in_use (conns srv') = in_use (conns srv) - {self}"
proof -
  obtain con' srv' w' cs e where r: "connection_state_machine sys self (con, srv, w) = Some (con', srv', w')"
    "net_calls srv' = net_calls srv @ cs @ [e]" "filter is_discard cs = []"
    "closes cs = (if state_of con' = CON_STATE_CONNECT \<and> state_of con \<noteq> CON_STATE_CONNECT then [con_fd con] else [])"
    "e \<in> {Event_in (con_fd con), Event_out (con_fd con), Event_del (con_fd con)}"
    "in_use (conns srv') = in_use (conns srv) - (if state_of con' = CON_STATE_CONNECT then {self} else {})"
    "ended (state_of con) \<longrightarrow> state_of con' = CON_STATE_CONNECT"
    by (rule machine_run [OF assms(1,2)])
  have "filter is_discard (cs @ [e]) = []" "closes (cs @ [e]) = [con_fd con]" using r(3-5,7) assms(3) by auto
  then show ?thesis using r(1,2,6,7) assms(3) by auto
qed

text \<open>The handler asks to be called again; nothing counts how often.\<close>

lemma comeback_step:
  assumes "state_of con = CON_STATE_HANDLE_REQUEST" "handlers w = (\<lambda>c. (HANDLER_COMEBACK, c)) # hs"
  shows "connection_step sys self (con, srv, w) = Some (True, con, srv, w\<lparr>handlers := hs\<rparr>)"
proof -
  have "connection_set_state CON_STATE_HANDLE_REQUEST con = con" using assms(1) by (simp add: connection_set_state_def)
  then show ?thesis using assms by (simp add: connection_step_def handle_request_def http_response_prepare_def)
qed

text \<open>\<open>loops_per_request\<close>, which base.h calls a protection against requests that are handled again and again, protects from nothing:
  a handler that wants to be called \<open>k\<close> times more is called \<open>k\<close> times more, for every \<open>k\<close>, and the counter stays as it is.\<close>
theorem comebacks_not_counted:
  assumes "state_of con = CON_STATE_HANDLE_REQUEST" "handlers w = replicate k (\<lambda>c. (HANDLER_COMEBACK, c))"
  shows "connection_loop sys self (con, srv, w) = Some (con, srv, w\<lparr>handlers := []\<rparr>)"
  using assms(2)
proof (induction k arbitrary: w)
  case 0
  have "connection_set_state CON_STATE_HANDLE_REQUEST con = con" using assms(1) by (simp add: connection_set_state_def)
  then have "connection_step sys self (con, srv, w) = Some (False, con, srv, w)"
    using 0 assms(1) by (simp add: connection_step_def handle_request_def http_response_prepare_def)
  moreover have "w\<lparr>handlers := []\<rparr> = w" using 0 by simp
  ultimately show ?case by (subst connection_loop.simps) simp
next
  case (Suc k)
  then have "handlers w = (\<lambda>c. (HANDLER_COMEBACK, c)) # replicate k (\<lambda>c. (HANDLER_COMEBACK, c))" by simp
  from comeback_step [OF assms(1) this] Suc.IH [of "w\<lparr>handlers := replicate k (\<lambda>c. (HANDLER_COMEBACK, c))\<rparr>"]
  show ?case by (subst connection_loop.simps) simp
qed

lemma handler_fails_again:
  assumes "in_error_handler con" "con_mode con = 0" "http_status (rd con) = 403 \<or> http_status (rd con) = 404" "error_handler_saved_status con \<noteq> 0"
  obtains con' where "handler_finished sys con = Some (False, con')" "http_status (rd con') = error_handler_saved_status con" "state_of con' = CON_STATE_RESPONSE_START"
proof -
  let ?con = "con\<lparr>rd := (rd con)\<lparr>http_status := error_handler_saved_status con\<rparr>\<rparr>"
  have "handler_finished sys con = Some (False, connection_set_state CON_STATE_RESPONSE_START ?con)"
    using assms by (auto simp: handler_finished_def Let_def)
  then show thesis by (rule that) (simp_all add: connection_set_state_def)
qed

text \<open>C22: The page for errors is asked for once. When a request ends with 404 or 403, the address of the page replaces the one of the request, the
  status is set aside and the handlers are called again; if they have nothing either, the client gets the status of
  its own request, and not another round.\<close>
theorem error_page_once:
  assumes "conn_ok files st_size con n" "con_mode con = 0" "http_status (rd con) = 403 \<or> http_status (rd con) = 404" "\<not> in_error_handler con"
    and page: "page = (if buffer_is_empty (Some (error_handler con)) then conf_error_handler con else error_handler con)" "\<not> buffer_is_empty (Some page)"
  shows "\<exists>con1. handler_finished sys con = Some (True, con1) \<and> state_of con1 = CON_STATE_HANDLE_REQUEST \<and> text_of (con_uri con1) = text_of page
    \<and> http_status (rd con1) = 0 \<and> in_error_handler con1
    \<and> (\<forall>con2 :: conn. in_error_handler con2 \<and> error_handler_saved_status con2 = error_handler_saved_status con1 \<and> con_mode con2 = 0
          \<and> (http_status (rd con2) = 403 \<or> http_status (rd con2) = 404) \<longrightarrow>
        (\<exists>con3. handler_finished sys con2 = Some (False, con3) \<and> http_status (rd con3) = http_status (rd con) \<and> state_of con3 = CON_STATE_RESPONSE_START))"
proof -
  have b: "buffer_ok (con_uri con)" "buffer_ok (con_physical con)" "string_ok page" "b_size page + 66 < 2 ^ 64"
    using assms(1) unfolding page(1) by (auto simp: conn_ok_def dest: smallD)
  obtain uri where u: "buffer_copy_string_buffer (s_junk sys) (Some (con_uri con)) (Some page) = Some (0, Some uri)" "text_of uri = text_of page"
    by (rule copy_buffer [OF b(1,3,4), of "s_junk sys"])
  obtain path where path: "buffer_clear (con_physical con) = Some path" by (rule clear_small [OF b(2)])
  let ?con = "connection_set_state CON_STATE_HANDLE_REQUEST (con\<lparr>error_handler_saved_status := http_status (rd con), rd := (rd con)\<lparr>http_status := 0\<rparr>,
      con_uri := uri, con_physical := path, in_error_handler := True\<rparr>)"
  have p: "con_mode con = 0 \<and> (http_status (rd con) = 404 \<or> http_status (rd con) = 403) \<and> \<not> in_error_handler con
      \<and> (\<not> buffer_is_empty (Some (conf_error_handler con)) \<or> \<not> buffer_is_empty (Some (error_handler con)))"
    using assms(2-4) page by (auto split: if_splits)
  have e: "handler_finished sys con = Some (True, ?con)"
    unfolding handler_finished_def Let_def if_P [OF p] using u(1) path page(1) by (auto simp: after_def split: if_splits)
  show ?thesis
  proof (rule exI [of _ ?con], intro conjI allI impI)
    fix con2 :: conn
    assume a: "in_error_handler con2 \<and> error_handler_saved_status con2 = error_handler_saved_status ?con \<and> con_mode con2 = 0
      \<and> (http_status (rd con2) = 403 \<or> http_status (rd con2) = 404)"
    then have a': "in_error_handler con2" "con_mode con2 = 0" "http_status (rd con2) = 403 \<or> http_status (rd con2) = 404"
      "error_handler_saved_status con2 = http_status (rd con)" by (simp_all add: connection_set_state_def)
    have "error_handler_saved_status con2 \<noteq> 0" using a'(4) assms(3) by auto
    then obtain con3 where "handler_finished sys con2 = Some (False, con3)" "http_status (rd con3) = error_handler_saved_status con2"
      "state_of con3 = CON_STATE_RESPONSE_START" by (rule handler_fails_again [OF a'(1-3)])
    then show "\<exists>con3. handler_finished sys con2 = Some (False, con3) \<and> http_status (rd con3) = http_status (rd con) \<and> state_of con3 = CON_STATE_RESPONSE_START"
      using a'(4) by auto
  qed (use e u(2) in \<open>simp_all add: connection_set_state_def\<close>)
qed

section \<open>A concrete connection\<close>

text \<open>A server without plug-ins, and a client that sends a request of one line.\<close>

definition sample_system :: system where
  "sample_system = \<lparr>s_junk = \<lambda>_. 7, s_mkstemp = \<lambda>t. (- 1, t), s_reopen = \<lambda>_. - 1, s_backend = network_write_chunkqueue_write (\<lambda>_. None) (\<lambda>_. None),
     s_shutdown = \<lambda>_. True, s_pending = 100, s_tempdirs = None, http_request_parse = \<lambda>con. (False, con), handle_write_prepare = \<lambda>con. (0, con),
     request_done = \<lambda>con. con, plugin_close = \<lambda>con. con, plugin_reset = \<lambda>con. con, config_setup = \<lambda>con. con\<rparr>"

definition sample_conn :: "con_state \<Rightarrow> conn" where
  "sample_conn st = (case connection_init sample_system of Some con \<Rightarrow>
     (connection_set_state st con)\<lparr>con_fd := 5, conf_error_handler := as_buffer [47, 101]\<rparr> | None \<Rightarrow> undefined)"

definition sample_server :: server where
  "sample_server = \<lparr>cur_ts = 100, cur_fds = 1, want_fds = 0, con_opened = 1, con_written = 0, con_closed = 0, max_conns = 10, fdwaitqueue = [],
     conns = (case connections_get_new_connection connections_init of Some (_, p) \<Rightarrow> p | None \<Rightarrow> connections_init), net_calls = []\<rparr>"

definition sample_world :: "(conn \<Rightarrow> handler_t \<times> conn) list \<Rightarrow> world" where
  "sample_world hs = \<lparr>arrivals = [\<lparr>available = Some 6, incoming = Inr [71, 13, 10, 13, 10, 66]\<rparr>], sent = \<lparr>io_out = [], io_results = []\<rparr>,
     uploads = no_upload, handlers = hs\<rparr>"

lemma keeps_id [simp]: "keeps files st_size (\<lambda>con. con)" by (simp add: keeps_def)

lemma sample_system_ok: "sys_ok (\<lambda>_. None) (\<lambda>_. None) sample_system"
  by (simp add: sys_ok_def sample_system_def portable.network_backend_axioms)

lemma reopen_ok:
  assumes "conn_ok files st_size con n" "waiting (rd con) 0" "st \<noteq> CON_STATE_READ_POST"
  shows "conn_ok files st_size (connection_set_state st con) 0"
proof -
  have "waiting ((rd con)\<lparr>rc_state := st\<rparr>) 0" using assms(2) by (simp add: waiting_def)
  moreover have "\<exists>cs. holds (read_queue (rd con)) cs" by (rule waiting_holds [OF assms(2)])
  ultimately show ?thesis using assms(1,3) by (auto simp: conn_ok_def connection_set_state_def input_ok_def)
qed

lemma sample_conn_ok:
  assumes "st \<noteq> CON_STATE_READ_POST"
  shows "conn_ok (\<lambda>_. None) (\<lambda>_. None) (sample_conn st) 0" "state_of (sample_conn st) = st" "cq_bytes_in (content_queue (rd (sample_conn st))) = 0"
    "keep_alive (rd (sample_conn st)) = 0" "con_mode (sample_conn st) = 0" "\<not> in_error_handler (sample_conn st)" "con_fd (sample_conn st) = 5"
    "conf_error_handler (sample_conn st) = as_buffer [47, 101]" "error_handler (sample_conn st) = buffer_init"
proof -
  obtain con where c: "connection_init sample_system = Some con" "conn_ok (\<lambda>_. None) (\<lambda>_. None) con 0" "state_of con = CON_STATE_CONNECT" "waiting (rd con) 0"
    by (rule connection_init_ok [OF sample_system_ok])
  have "conn_ok (\<lambda>_. None) (\<lambda>_. None) (connection_set_state st con) 0" by (rule reopen_ok [OF c(2,4) assms])
  then show "conn_ok (\<lambda>_. None) (\<lambda>_. None) (sample_conn st) 0" using c(1) by (simp add: sample_conn_def conn_ok_def)
  show "state_of (sample_conn st) = st" "con_fd (sample_conn st) = 5" using c(1) by (simp_all add: sample_conn_def)
  show "cq_bytes_in (content_queue (rd (sample_conn st))) = 0" "keep_alive (rd (sample_conn st)) = 0" "con_mode (sample_conn st) = 0"
    "\<not> in_error_handler (sample_conn st)" "conf_error_handler (sample_conn st) = as_buffer [47, 101]" "error_handler (sample_conn st) = buffer_init"
    by (simp_all add: sample_conn_def connection_init_def chunkqueue_set_tempdirs_def sample_system_def connection_set_state_def chunkqueue_init_def)
qed

lemma sample_machine_ok:
  assumes "st \<noteq> CON_STATE_READ_POST" "st \<noteq> CON_STATE_CONNECT" "\<forall>h \<in> set hs. keeps (\<lambda>_. None) (\<lambda>_. None) (\<lambda>c. snd (h c))"
  shows "machine_ok (\<lambda>_. None) (\<lambda>_. None) 0 (sample_conn st, sample_server, sample_world hs)"
proof -
  obtain a p where p: "connections_get_new_connection connections_init = Some (a, p)" "pool_ok p" "in_use p = insert a (in_use connections_init)"
    by (rule get_new_ok [OF connections_init_ok(1)])
  have "connections_get_new_connection connections_init = Some (0, snd (the (connections_get_new_connection connections_init)))"
    by (simp add: connections_get_new_connection_def connections_init_def grow_connections_def Let_def nth_append)
  then have "0 \<in> in_use p" "conns sample_server = p" using p(1,3) by (simp_all add: sample_server_def)
  moreover have "list_all arrival_ok (arrivals (sample_world hs))" "bytes_to_come (sample_world hs) = 6"
    by (simp_all add: sample_world_def arrival_ok_def bytes_to_come_def data_size_def)
  moreover have "\<exists>n. conn_ok (\<lambda>_. None) (\<lambda>_. None) (sample_conn st) n \<and> n + bytes_to_come (sample_world hs) < 2 ^ 50"
    using sample_conn_ok(1) [OF assms(1)] calculation(4) by (intro exI [of _ 0]) simp
  moreover have "no_body (sample_conn st)" "state_of (sample_conn st) = CON_STATE_CLOSE \<longrightarrow> keep_alive (rd (sample_conn st)) = 0"
    using sample_conn_ok(3,4) [OF assms(1)] by (simp_all add: no_body_def)
  moreover have "state_of (sample_conn st) \<noteq> CON_STATE_CONNECT" using sample_conn_ok(2) [OF assms(1)] assms(2) by simp
  moreover have "cur_ts sample_server > 1" "handlers (sample_world hs) = hs" by (simp_all add: sample_server_def sample_world_def)
  ultimately show ?thesis unfolding machine_ok_def prod.case using p(2) assms(3) by simp
qed


theorem turns_follow_diagram_witness:
  "\<exists>again con' srv' w'. connection_step sample_system 0 (sample_conn CON_STATE_READ, sample_server, sample_world []) = Some (again, con', srv', w')"
proof -
  have m: "machine_ok (\<lambda>_. None) (\<lambda>_. None) 0 (sample_conn CON_STATE_READ, sample_server, sample_world [])"
    by (rule sample_machine_ok) simp_all
  then show ?thesis using turns_follow_diagram [OF m sample_system_ok] by blast
qed

theorem failed_connection_never_lingers_witness:
  "\<exists>con' srv' w' cs. connection_state_machine sample_system 0 (sample_conn CON_STATE_ERROR, sample_server, sample_world []) = Some (con', srv', w')
    \<and> s_pending sample_system = 100 \<and> net_calls srv' = cs \<and> filter is_discard cs = [] \<and> closes cs = [5]"
proof -
  have m: "machine_ok (\<lambda>_. None) (\<lambda>_. None) 0 (sample_conn CON_STATE_ERROR, sample_server, sample_world [])"
    by (rule sample_machine_ok) simp_all
  have "state_of (sample_conn CON_STATE_ERROR) = CON_STATE_ERROR" "con_fd (sample_conn CON_STATE_ERROR) = 5" by (rule sample_conn_ok, simp)+
  then show ?thesis using failed_connection_never_lingers [OF m sample_system_ok] by (auto simp: sample_server_def sample_system_def)
qed

theorem comebacks_not_counted_witness:
  "connection_loop sample_system 0 (sample_conn CON_STATE_HANDLE_REQUEST, sample_server, sample_world (replicate 1000 (\<lambda>c. (HANDLER_COMEBACK, c))))
    = Some (sample_conn CON_STATE_HANDLE_REQUEST, sample_server, sample_world [])"
proof -
  have s: "state_of (sample_conn CON_STATE_HANDLE_REQUEST) = CON_STATE_HANDLE_REQUEST" by (rule sample_conn_ok) simp
  have h: "handlers (sample_world (replicate 1000 (\<lambda>c. (HANDLER_COMEBACK, c)))) = replicate 1000 (\<lambda>c. (HANDLER_COMEBACK, c))"
    by (simp add: sample_world_def)
  from comebacks_not_counted [OF s h, of sample_system 0 sample_server] show ?thesis by (simp add: sample_world_def)
qed

theorem error_page_once_witness:
  "\<exists>con1. handler_finished sample_system ((sample_conn CON_STATE_HANDLE_REQUEST)\<lparr>rd := (rd (sample_conn CON_STATE_HANDLE_REQUEST))\<lparr>http_status := 404\<rparr>\<rparr>) = Some (True, con1)
    \<and> text_of (con_uri con1) = [47, 101] \<and> in_error_handler con1"
proof -
  let ?con = "(sample_conn CON_STATE_HANDLE_REQUEST)\<lparr>rd := (rd (sample_conn CON_STATE_HANDLE_REQUEST))\<lparr>http_status := 404\<rparr>\<rparr>"
  have n: "CON_STATE_HANDLE_REQUEST \<noteq> CON_STATE_READ_POST" by simp
  note c = sample_conn_ok [OF n]
  have k: "conn_ok (\<lambda>_. None) (\<lambda>_. None) ?con 0" using c(1) by (simp add: conn_ok_def)
  have m: "con_mode ?con = 0" "http_status (rd ?con) = 403 \<or> http_status (rd ?con) = 404" "\<not> in_error_handler ?con" using c(5,6) by simp_all
  have p: "as_buffer [47, 101] = (if buffer_is_empty (Some (error_handler ?con)) then conf_error_handler ?con else error_handler ?con)"
    "\<not> buffer_is_empty (Some (as_buffer [47, 101]))"
    using c(8,9) by (simp_all add: buffer_is_empty_def buffer_init_def as_buffer_def)
  show ?thesis using error_page_once [OF k m p, of sample_system] by auto
qed

end
