(* ===== verification/Connection_Table.thy ===== *)
theory Connection_Table
  imports Connection_Machine "HOL-Library.Multiset"
begin

text \<open>
  The server with all its connections: \<open>connection_accept\<close> and the event handler of the server socket (connections.c, network.c), which take in new
  clients, and the calls that the main loop makes for the connections that exist. The table joins the slots of Connection\_Pool with the
  connections of Connections.
\<close>

section \<open>Taking in clients\<close>

record table =
  t_srv :: server
  t_con :: "nat \<Rightarrow> conn"
  t_world :: "nat \<Rightarrow> world"

text \<open>A client: what \<open>accept\<close> gives, whether its descriptor can be made non-blocking, and what will happen to the connection.\<close>

record client =
  accepted :: "int option"
  fcntl_set :: bool
  client_world :: world

definition empty_world :: world where
  "empty_world = \<lparr>arrivals = [], sent = \<lparr>io_out = [], io_results = []\<rparr>, uploads = no_upload, handlers = []\<rparr>"

text \<open>The slots that the table has got beyond \<open>p\<close> hold new connections.\<close>

definition new_slots :: "system \<Rightarrow> connections \<Rightarrow> connections \<Rightarrow> table \<Rightarrow> table option" where
  "new_slots sys p p' t = (if conn_fresh p < conn_fresh p' then do {
       con \<leftarrow> connection_init sys;
       Some (t\<lparr>t_con := \<lambda>b. if conn_fresh p \<le> b \<and> b < conn_fresh p' then con else t_con t b,
         t_world := \<lambda>b. if conn_fresh p \<le> b \<and> b < conn_fresh p' then empty_world else t_world t b\<rparr>)
     } else Some t)"

definition connection_accept :: "system \<Rightarrow> client \<Rightarrow> table \<Rightarrow> (nat option \<times> table) option" where
  "connection_accept sys c t = (
     if conn_used (conns (t_srv t)) \<ge> max_conns (t_srv t) then Some (None, t)
     else case accepted c of None \<Rightarrow> Some (None, t)
     | Some cnt \<Rightarrow> do {
         let srv = (t_srv t)\<lparr>cur_fds := cur_fds (t_srv t) + 1, con_opened := con_opened (t_srv t) + 1\<rparr>;
         (a, p) \<leftarrow> connections_get_new_connection (conns srv);
         t \<leftarrow> new_slots sys (conns srv) p t;
         con \<leftarrow> connection_reset sys (t_con t a);
         let con = con\<lparr>con_fd := cnt\<rparr>;
         let srv = net [Register cnt] (srv\<lparr>conns := p\<rparr>);
         let con = connection_set_state CON_STATE_REQUEST_START con;
         let t = t\<lparr>t_srv := srv, t_con := (t_con t)(a := con), t_world := (t_world t)(a := client_world c)\<rparr>;
         Some (if fcntl_set c then Some a else None, t)
       })"

definition run_machine :: "system \<Rightarrow> nat \<Rightarrow> table \<Rightarrow> table option" where
  "run_machine sys a t = do {
     (con, srv, w) \<leftarrow> connection_state_machine sys a (t_con t a, t_srv t, t_world t a);
     Some (t\<lparr>t_srv := srv, t_con := (t_con t)(a := con), t_world := (t_world t)(a := w)\<rparr>)
   }"

text \<open>Without a client \<open>accept\<close> gives nothing, and the loop ends.\<close>

fun accept_loop :: "system \<Rightarrow> nat \<Rightarrow> client list \<Rightarrow> table \<Rightarrow> table option" where
  "accept_loop sys 0 cs t = Some t"
| "accept_loop sys (Suc loops) [] t = Some t"
| "accept_loop sys (Suc loops) (c # cs) t = do {
     (r, t) \<leftarrow> connection_accept sys c t;
     case r of None \<Rightarrow> Some t | Some a \<Rightarrow> do { t \<leftarrow> run_machine sys a t; accept_loop sys loops cs t }
   }"

definition network_server_handle_fdevent :: "system \<Rightarrow> bool \<Rightarrow> client list \<Rightarrow> table \<Rightarrow> (handler_t \<times> table) option" where
  "network_server_handle_fdevent sys only_in cs t = (if \<not> only_in then Some (HANDLER_ERROR, t)
     else do { t \<leftarrow> accept_loop sys 100 cs t; Some (HANDLER_GO_ON, t) })"

section \<open>The calls of the main loop\<close>

text \<open>An event at the server socket, an event at a connection that is registered, and a turn of the list of jobs or of those that wait
  for descriptors.\<close>

datatype server_call = Clients bool "client list" | Event nat revents | Job nat

definition handle_call :: "system \<Rightarrow> server_call \<Rightarrow> table \<Rightarrow> table option" where
  "handle_call sys call t = (case call of
     Clients only_in cs \<Rightarrow> do { (_, t) \<leftarrow> network_server_handle_fdevent sys only_in cs t; Some t }
   | Event a ev \<Rightarrow> if a \<in> in_use (conns (t_srv t)) then do {
         (con, srv, w) \<leftarrow> connection_handle_fdevent sys ev (t_con t a, t_srv t, t_world t a);
         Some (t\<lparr>t_srv := srv, t_con := (t_con t)(a := con), t_world := (t_world t)(a := w)\<rparr>)
       } else Some t
   | Job a \<Rightarrow> if a < conn_fresh (conns (t_srv t)) then run_machine sys a t else Some t)"

fun serve :: "system \<Rightarrow> server_call list \<Rightarrow> table \<Rightarrow> table option" where
  "serve sys [] t = Some t"
| "serve sys (c # cs) t = do { t \<leftarrow> handle_call sys c t; serve sys cs t }"

section \<open>The invariant\<close>

definition open_fds :: "table \<Rightarrow> int multiset" where
  "open_fds t = image_mset (\<lambda>a. con_fd (t_con t a)) (mset_set (in_use (conns (t_srv t))))"

definition slot_ok :: "file_reader \<Rightarrow> file_sizes \<Rightarrow> table \<Rightarrow> nat \<Rightarrow> bool" where
  "slot_ok files st_size t a \<longleftrightarrow> machine_ok files st_size a (t_con t a, t_srv t, t_world t a)
     \<and> state_of (t_con t a) \<noteq> CON_STATE_CLOSE \<and> (state_of (t_con t a) = CON_STATE_CONNECT \<longrightarrow> waiting (rd (t_con t a)) 0)"

definition table_ok :: "file_reader \<Rightarrow> file_sizes \<Rightarrow> table \<Rightarrow> bool" where
  "table_ok files st_size t \<longleftrightarrow> pool_ok (conns (t_srv t)) \<and> cur_ts (t_srv t) > 1
     \<and> (\<forall>a < conn_fresh (conns (t_srv t)). slot_ok files st_size t a)
     \<and> mset (registered (net_calls (t_srv t))) = mset (closes (net_calls (t_srv t))) + open_fds t"

definition client_ok :: "file_reader \<Rightarrow> file_sizes \<Rightarrow> client \<Rightarrow> bool" where
  "client_ok files st_size c \<longleftrightarrow> list_all arrival_ok (arrivals (client_world c)) \<and> bytes_to_come (client_world c) < 2 ^ 50
     \<and> (\<forall>h \<in> set (handlers (client_world c)). keeps files st_size (\<lambda>c. snd (h c)))"

definition call_ok :: "file_reader \<Rightarrow> file_sizes \<Rightarrow> server_call \<Rightarrow> bool" where
  "call_ok files st_size call \<longleftrightarrow> (case call of Clients _ cs \<Rightarrow> list_all (client_ok files st_size) cs | _ \<Rightarrow> True)"

lemma finite_in_use [simp]: "finite (in_use p)" by (simp add: in_use_def)

lemma in_use_fresh: "pool_ok p \<Longrightarrow> a \<in> in_use p \<Longrightarrow> a < conn_fresh p"
  by (auto simp: pool_ok_def in_use_def dest: in_set_takeD)

text \<open>The others do not notice what happens to a connection.\<close>

lemma machine_ok_other:
  assumes "machine_ok files st_size b (con, srv, w)" "pool_ok (conns srv')" "cur_ts srv' = cur_ts srv" "b \<in> in_use (conns srv') \<longleftrightarrow> b \<in> in_use (conns srv)"
  shows "machine_ok files st_size b (con, srv', w)"
  using assms by (simp add: machine_ok_def)

lemma open_fds_cong:
  assumes "in_use (conns srv') = in_use (conns (t_srv t))" "\<And>b. b \<in> in_use (conns srv') \<Longrightarrow> con_fd (f b) = con_fd (t_con t b)"
  shows "open_fds (t\<lparr>t_srv := srv', t_con := f, t_world := g\<rparr>) = open_fds t"
proof -
  have "image_mset (\<lambda>a. con_fd (f a)) (mset_set (in_use (conns srv'))) = image_mset (\<lambda>a. con_fd (t_con t a)) (mset_set (in_use (conns srv')))"
    by (rule image_mset_cong) (use assms(2) in simp)
  then show ?thesis by (simp add: open_fds_def assms(1))
qed

lemma slot_update:
  assumes t: "table_ok files st_size t" and a: "a < conn_fresh (conns (t_srv t))"
    and m: "machine_ok files st_size a (con, srv, w)" "con_fd con = con_fd (t_con t a)" "state_of con \<noteq> CON_STATE_CLOSE"
      "state_of con = CON_STATE_CONNECT \<longrightarrow> waiting (rd con) 0"
    and u: "in_use (conns srv) = in_use (conns (t_srv t)) - (if state_of con = CON_STATE_CONNECT then {a} else {})"
      "conn_fresh (conns srv) = conn_fresh (conns (t_srv t))" "cur_ts srv = cur_ts (t_srv t)"
    and n: "net_calls srv = net_calls (t_srv t) @ cs" "registered cs = []"
      "closes cs = (if state_of con = CON_STATE_CONNECT \<and> state_of (t_con t a) \<noteq> CON_STATE_CONNECT then [con_fd con] else [])"
  shows "table_ok files st_size (t\<lparr>t_srv := srv, t_con := (t_con t)(a := con), t_world := (t_world t)(a := w)\<rparr>)"
proof -
  let ?t = "t\<lparr>t_srv := srv, t_con := (t_con t)(a := con), t_world := (t_world t)(a := w)\<rparr>"
  have p: "pool_ok (conns srv)" using m(1) by (simp add: machine_ok_def)
  have slots: "slot_ok files st_size t b" if "b < conn_fresh (conns (t_srv t))" for b using t that by (simp add: table_ok_def)
  have used: "a \<in> in_use (conns (t_srv t)) \<longleftrightarrow> state_of (t_con t a) \<noteq> CON_STATE_CONNECT"
    using slots [OF a] by (simp add: slot_ok_def machine_ok_def)
  have "slot_ok files st_size ?t b" if "b < conn_fresh (conns srv)" for b
  proof (cases "b = a")
    case True
    then show ?thesis using m by (simp add: slot_ok_def)
  next
    case False
    have s: "slot_ok files st_size t b" using slots that u(2) by simp
    then have "machine_ok files st_size b (t_con t b, srv, t_world t b)"
      by (intro machine_ok_other [OF _ p u(3)]) (use u(1) False in \<open>simp_all add: slot_ok_def\<close>)
    then show ?thesis using s False by (simp add: slot_ok_def)
  qed
  moreover have "mset (registered (net_calls srv)) = mset (closes (net_calls srv)) + open_fds ?t"
  proof (cases "state_of con = CON_STATE_CONNECT \<and> state_of (t_con t a) \<noteq> CON_STATE_CONNECT")
    case True
    let ?A = "in_use (conns (t_srv t))"
    have "?A = insert a (?A - {a})" using used True by blast
    then have "mset_set ?A = add_mset a (mset_set (?A - {a}))" by (metis finite_in_use finite_Diff mset_set.insert Diff_iff singletonI)
    then have "open_fds t = add_mset (con_fd con) (image_mset (\<lambda>a. con_fd (t_con t a)) (mset_set (?A - {a})))"
      unfolding open_fds_def using m(2) by simp
    also have "image_mset (\<lambda>a. con_fd (t_con t a)) (mset_set (?A - {a})) = open_fds ?t"
    proof -
      have "image_mset (\<lambda>a. con_fd (t_con t a)) (mset_set (?A - {a})) = image_mset (\<lambda>b. con_fd (((t_con t)(a := con)) b)) (mset_set (?A - {a}))"
        by (rule image_mset_cong) simp
      then show ?thesis using u(1) True by (simp add: open_fds_def)
    qed
    finally show ?thesis using t n True by (simp add: table_ok_def)
  next
    case False
    have "open_fds ?t = open_fds t"
    proof (rule open_fds_cong)
      show "in_use (conns srv) = in_use (conns (t_srv t))" using u(1) used False by (cases "state_of con = CON_STATE_CONNECT") simp_all
    qed (use m(2) in simp)
    moreover have "closes cs = []" using n(3) False by simp
    ultimately show ?thesis using t n(1,2) by (simp add: table_ok_def)
  qed
  ultimately show ?thesis using p u(3) t by (simp add: table_ok_def)
qed

lemma run_machine_ok:
  assumes t: "table_ok files st_size t" and a: "a < conn_fresh (conns (t_srv t))" and sys: "sys_ok files st_size sys"
  obtains t' where "run_machine sys a t = Some t'" "table_ok files st_size t'"
proof -
  have m: "machine_ok files st_size a (t_con t a, t_srv t, t_world t a)" using t a by (simp add: table_ok_def slot_ok_def)
  obtain con srv w cs e where r: "connection_state_machine sys a (t_con t a, t_srv t, t_world t a) = Some (con, srv, w)" "machine_ok files st_size a (con, srv, w)"
    "con_fd con = con_fd (t_con t a)" "state_of con \<in> resting" "net_calls srv = net_calls (t_srv t) @ cs @ [e]"
    "closes cs = (if state_of con = CON_STATE_CONNECT \<and> state_of (t_con t a) \<noteq> CON_STATE_CONNECT then [con_fd (t_con t a)] else [])"
    "e \<in> {Event_in (con_fd (t_con t a)), Event_out (con_fd (t_con t a)), Event_del (con_fd (t_con t a))}"
    "in_use (conns srv) = in_use (conns (t_srv t)) - (if state_of con = CON_STATE_CONNECT then {a} else {})"
    "state_of con = CON_STATE_CONNECT \<longrightarrow> waiting (rd con) 0" "cur_ts srv = cur_ts (t_srv t)" "registered cs = []"
    "conn_fresh (conns srv) = conn_fresh (conns (t_srv t))"
    by (rule machine_run [OF m sys])
  have s: "state_of con \<noteq> CON_STATE_CLOSE" using r(4) by (auto simp: resting_def)
  have e: "registered (cs @ [e]) = []" "closes (cs @ [e]) = (if state_of con = CON_STATE_CONNECT \<and> state_of (t_con t a) \<noteq> CON_STATE_CONNECT then [con_fd con] else [])"
    using r(3,6,7,11) by auto
  have "run_machine sys a t = Some (t\<lparr>t_srv := srv, t_con := (t_con t)(a := con), t_world := (t_world t)(a := w)\<rparr>)"
    using r(1) by (simp add: run_machine_def)
  moreover have "table_ok files st_size (t\<lparr>t_srv := srv, t_con := (t_con t)(a := con), t_world := (t_world t)(a := w)\<rparr>)"
    by (rule slot_update [OF t a r(2,3) s r(9,8,12,10,5) e])
  ultimately show thesis by (rule that)
qed

lemma event_ok:
  assumes t: "table_ok files st_size t" and a: "a \<in> in_use (conns (t_srv t))" and sys: "sys_ok files st_size sys"
  obtains con srv w where "connection_handle_fdevent sys ev (t_con t a, t_srv t, t_world t a) = Some (con, srv, w)"
    "table_ok files st_size (t\<lparr>t_srv := srv, t_con := (t_con t)(a := con), t_world := (t_world t)(a := w)\<rparr>)"
proof -
  have l: "a < conn_fresh (conns (t_srv t))" using in_use_fresh a t by (simp add: table_ok_def)
  have m: "machine_ok files st_size a (t_con t a, t_srv t, t_world t a)" "state_of (t_con t a) \<noteq> CON_STATE_CONNECT" "state_of (t_con t a) \<noteq> CON_STATE_CLOSE"
    using t l a by (auto simp: table_ok_def slot_ok_def machine_ok_def)
  obtain con w where r: "connection_handle_fdevent sys ev (t_con t a, t_srv t, t_world t a) = Some (con, t_srv t, w)" "machine_ok files st_size a (con, t_srv t, w)"
    "con_fd con = con_fd (t_con t a)" "state_of con \<noteq> CON_STATE_CONNECT" "state_of con \<noteq> CON_STATE_CLOSE"
    by (rule fdevent_ok [OF m(1) sys m(2,3)])
  show thesis by (rule that [OF r(1) slot_update [OF t l r(2,3,5), of "[]"]]) (use r(4) in simp_all)
qed

section \<open>New connections\<close>

text \<open>A connection that is not in use.\<close>

definition idle :: "file_reader \<Rightarrow> file_sizes \<Rightarrow> conn \<Rightarrow> bool" where
  "idle files st_size con \<longleftrightarrow> state_of con = CON_STATE_CONNECT \<and> waiting (rd con) 0 \<and> (\<exists>n. conn_ok files st_size con n)"

lemma slot_idle:
  assumes "slot_ok files st_size t a" "a \<notin> in_use (conns (t_srv t))"
  shows "idle files st_size (t_con t a)"
  using assms by (auto simp: slot_ok_def machine_ok_def idle_def)

lemma idle_slot:
  assumes "idle files st_size con" "pool_ok (conns srv)" "cur_ts srv > 1" "a \<notin> in_use (conns srv)" "w = empty_world"
  shows "machine_ok files st_size a (con, srv, w) \<and> state_of con \<noteq> CON_STATE_CLOSE \<and> (state_of con = CON_STATE_CONNECT \<longrightarrow> waiting (rd con) 0)"
proof -
  obtain n where "conn_ok files st_size con n" using assms(1) by (auto simp: idle_def)
  then have "conn_ok files st_size con 0" using assms(1) by (simp add: idle_def conn_ok_def input_ok_def)
  then have "\<exists>n. conn_ok files st_size con n \<and> n + bytes_to_come w < 2 ^ 50"
    using assms(5) by (intro exI [of _ 0]) (simp add: empty_world_def bytes_to_come_def)
  then show ?thesis using assms unfolding machine_ok_def prod.case by (simp add: idle_def no_body_def empty_world_def)
qed

lemma new_slots_ok:
  assumes t: "table_ok files st_size t" and sys: "sys_ok files st_size sys"
    and p: "conn_fresh p = conn_fresh (conns (t_srv t)) \<or> conn_fresh p = conn_fresh (conns (t_srv t)) + 128"
  obtains t' where "new_slots sys (conns (t_srv t)) p t = Some t'" "t_srv t' = t_srv t" "\<forall>b < conn_fresh p. slot_ok files st_size t' b"
    "\<forall>b \<in> in_use (conns (t_srv t)). t_con t' b = t_con t b"
proof (cases "conn_fresh p = conn_fresh (conns (t_srv t))")
  case True
  then have "new_slots sys (conns (t_srv t)) p t = Some t" by (simp add: new_slots_def)
  then show thesis by (rule that) (use t True in \<open>simp_all add: table_ok_def\<close>)
next
  case False
  note found = that
  let ?f = "conn_fresh (conns (t_srv t))"
  have f: "conn_fresh p = ?f + 128" using p False by simp
  obtain con where c: "connection_init sys = Some con" "conn_ok files st_size con 0" "state_of con = CON_STATE_CONNECT" "waiting (rd con) 0"
    by (rule connection_init_ok [OF sys])
  let ?t = "t\<lparr>t_con := \<lambda>b. if ?f \<le> b \<and> b < conn_fresh p then con else t_con t b,
         t_world := \<lambda>b. if ?f \<le> b \<and> b < conn_fresh p then empty_world else t_world t b\<rparr>"
  have e: "new_slots sys (conns (t_srv t)) p t = Some ?t" using c(1) f by (simp add: new_slots_def)
  have i: "idle files st_size con" using c by (auto simp: idle_def)
  have used: "b < ?f" if "b \<in> in_use (conns (t_srv t))" for b using t in_use_fresh that by (simp add: table_ok_def)
  have "slot_ok files st_size ?t b" if "b < conn_fresh p" for b
  proof (cases "b < ?f")
    case True
    then have "slot_ok files st_size t b" using t by (simp add: table_ok_def)
    then show ?thesis using True by (simp add: slot_ok_def)
  next
    case False
    have "b \<notin> in_use (conns (t_srv t))" using used False by blast
    from idle_slot [OF i _ _ this refl] show ?thesis using t that False by (simp add: slot_ok_def table_ok_def)
  qed
  then show thesis using found [OF e] used by fastforce
qed

lemma accept_ok:
  assumes t: "table_ok files st_size t" and sys: "sys_ok files st_size sys" and c: "client_ok files st_size c"
  obtains r t' where "connection_accept sys c t = Some (r, t')" "table_ok files st_size t'" "\<forall>a. r = Some a \<longrightarrow> a < conn_fresh (conns (t_srv t'))"
proof (cases "conn_used (conns (t_srv t)) \<ge> max_conns (t_srv t) \<or> accepted c = None")
  case True
  then have "connection_accept sys c t = Some (None, t)" by (auto simp: connection_accept_def)
  then show thesis by (rule that) (use t in simp_all)
next
  case False
  note found = that
  obtain cnt where cnt: "accepted c = Some cnt" using False by blast
  have p0: "pool_ok (conns (t_srv t))" "cur_ts (t_srv t) > 1" using t by (simp_all add: table_ok_def)
  obtain a p where p: "connections_get_new_connection (conns (t_srv t)) = Some (a, p)" "pool_ok p" "a \<notin> in_use (conns (t_srv t))"
    "in_use p = insert a (in_use (conns (t_srv t)))" "conn_fresh p = conn_fresh (conns (t_srv t)) \<or> conn_fresh p = conn_fresh (conns (t_srv t)) + 128"
    "a < conn_fresh p"
    by (rule get_new_ok [OF p0(1)])
  obtain t1 where n: "new_slots sys (conns (t_srv t)) p t = Some t1" "t_srv t1 = t_srv t" "\<forall>b < conn_fresh p. slot_ok files st_size t1 b"
    "\<forall>b \<in> in_use (conns (t_srv t)). t_con t1 b = t_con t b"
    by (rule new_slots_ok [OF t sys p(5)])
  have i: "idle files st_size (t_con t1 a)" using slot_idle [OF n(3) [rule_format, OF p(6)]] p(3) n(2) by simp
  then obtain k where "conn_ok files st_size (t_con t1 a) k" by (auto simp: idle_def)
  from connection_reset_ok [OF this sys] obtain con where r: "connection_reset sys (t_con t1 a) = Some con" "conn_ok files st_size con k"
    "cq_bytes_in (content_queue (rd con)) = 0" "read_queue (rd con) = read_queue (rd (t_con t1 a))" by metis
  have w: "waiting (rd con) 0" using i r(4) by (simp add: idle_def waiting_def)
  let ?con = "connection_set_state CON_STATE_REQUEST_START (con\<lparr>con_fd := cnt\<rparr>)"
  let ?srv = "net [Register cnt] ((t_srv t)\<lparr>cur_fds := cur_fds (t_srv t) + 1, con_opened := con_opened (t_srv t) + 1, conns := p\<rparr>)"
  let ?t = "t1\<lparr>t_srv := ?srv, t_con := (t_con t1)(a := ?con), t_world := (t_world t1)(a := client_world c)\<rparr>"
  have e: "connection_accept sys c t = Some (if fcntl_set c then Some a else None, ?t)"
    using False cnt p(1) n(1) r(1) by (simp add: connection_accept_def Let_def)
  have "conn_ok files st_size (con\<lparr>con_fd := cnt\<rparr>) k" "waiting (rd (con\<lparr>con_fd := cnt\<rparr>)) 0" using r(2) w by (simp_all add: conn_ok_def)
  then have k: "conn_ok files st_size ?con 0" by (rule reopen_ok) simp
  have nb: "no_body ?con" using r(3) by (simp add: no_body_def connection_set_state_def)
  have "\<exists>n. conn_ok files st_size ?con n \<and> n + bytes_to_come (client_world c) < 2 ^ 50"
    by (rule exI [of _ 0], rule conjI, rule k) (use c in \<open>simp add: client_ok_def\<close>)
  then have m: "machine_ok files st_size a (?con, ?srv, client_world c)"
    unfolding machine_ok_def prod.case using nb c p(2,4) p0(2) by (simp add: client_ok_def)
  have "slot_ok files st_size ?t b" if "b < conn_fresh p" for b
  proof (cases "b = a")
    case True
    then show ?thesis using m by (simp add: slot_ok_def)
  next
    case False
    have s: "slot_ok files st_size t1 b" using n(3) that by simp
    have s1: "machine_ok files st_size b (t_con t1 b, t_srv t1, t_world t1 b)" using s by (simp add: slot_ok_def)
    have s2: "pool_ok (conns ?srv)" "cur_ts ?srv = cur_ts (t_srv t1)" "b \<in> in_use (conns ?srv) \<longleftrightarrow> b \<in> in_use (conns (t_srv t1))"
      using p(2,4) n(2) False by simp_all
    have "machine_ok files st_size b (t_con t1 b, ?srv, t_world t1 b)" by (rule machine_ok_other [OF s1 s2])
    then show ?thesis using s False by (simp add: slot_ok_def)
  qed
  moreover have "open_fds ?t = add_mset cnt (open_fds t)"
  proof -
    have "image_mset (\<lambda>b. con_fd (((t_con t1)(a := ?con)) b)) (mset_set (in_use (conns (t_srv t)))) = image_mset (\<lambda>b. con_fd (t_con t b)) (mset_set (in_use (conns (t_srv t))))"
      by (rule image_mset_cong) (use p(3) n(4) in auto)
    then show ?thesis using p(3,4) by (simp add: open_fds_def)
  qed
  moreover have "conns ?srv = p" by simp
  ultimately have "table_ok files st_size ?t" using t p(2) by (simp add: table_ok_def)
  then show thesis by (rule found [OF e]) (use p(6) in \<open>simp split: if_splits\<close>)
qed

lemma accept_loop_ok:
  assumes sys: "sys_ok files st_size sys" and "table_ok files st_size t" "list_all (client_ok files st_size) cs"
  shows "\<exists>t'. accept_loop sys loops cs t = Some t' \<and> table_ok files st_size t'"
  using assms(2,3)
proof (induction cs arbitrary: loops t)
  case Nil
  then show ?case by (cases loops) simp_all
next
  case (Cons c cs)
  show ?case
  proof (cases loops)
    case 0
    then show ?thesis using Cons.prems by simp
  next
    case (Suc l)
    have c: "client_ok files st_size c" "list_all (client_ok files st_size) cs" using Cons.prems(2) by simp_all
    obtain r t1 where r: "connection_accept sys c t = Some (r, t1)" "table_ok files st_size t1" "\<forall>a. r = Some a \<longrightarrow> a < conn_fresh (conns (t_srv t1))"
      by (rule accept_ok [OF Cons.prems(1) sys c(1)])
    show ?thesis
    proof (cases r)
      case None
      then show ?thesis using Suc r by simp
    next
      case (Some a)
      obtain t2 where "run_machine sys a t1 = Some t2" "table_ok files st_size t2" by (rule run_machine_ok [OF r(2) r(3) [rule_format, OF Some] sys])
      then show ?thesis using Suc r Some Cons.IH [of t2 l] c(2) by simp
    qed
  qed
qed

lemma handle_call_ok:
  assumes t: "table_ok files st_size t" and sys: "sys_ok files st_size sys" and c: "call_ok files st_size call"
  shows "\<exists>t'. handle_call sys call t = Some t' \<and> table_ok files st_size t'"
proof (cases call)
  case (Clients only_in cs)
  then have "list_all (client_ok files st_size) cs" using c by (simp add: call_ok_def)
  then show ?thesis using Clients t accept_loop_ok [OF sys t, of cs 100]
    by (cases only_in) (auto simp: handle_call_def network_server_handle_fdevent_def)
next
  case (Event a ev)
  show ?thesis
  proof (cases "a \<in> in_use (conns (t_srv t))")
    case True
    obtain con srv w where "connection_handle_fdevent sys ev (t_con t a, t_srv t, t_world t a) = Some (con, srv, w)"
      "table_ok files st_size (t\<lparr>t_srv := srv, t_con := (t_con t)(a := con), t_world := (t_world t)(a := w)\<rparr>)"
      by (rule event_ok [OF t True sys])
    then show ?thesis using Event True by (simp add: handle_call_def)
  qed (use Event t in \<open>simp add: handle_call_def\<close>)
next
  case (Job a)
  show ?thesis
  proof (cases "a < conn_fresh (conns (t_srv t))")
    case True
    obtain t' where "run_machine sys a t = Some t'" "table_ok files st_size t'" by (rule run_machine_ok [OF t True sys])
    then show ?thesis using Job True by (simp add: handle_call_def)
  qed (use Job t in \<open>simp add: handle_call_def\<close>)
qed

section \<open>The life of the server\<close>

text \<open>The server before its first client.\<close>

definition server_start :: "nat \<Rightarrow> int \<Rightarrow> table" where
  "server_start n ts = \<lparr>t_srv = \<lparr>cur_ts = ts, cur_fds = 0, want_fds = 0, con_opened = 0, con_written = 0, con_closed = 0, max_conns = n, fdwaitqueue = [],
     conns = connections_init, net_calls = []\<rparr>, t_con = \<lambda>_. undefined, t_world = \<lambda>_. undefined\<rparr>"

lemma server_start_ok: "ts > 1 \<Longrightarrow> table_ok files st_size (server_start n ts)"
  using connections_init_ok by (simp add: table_ok_def server_start_def open_fds_def) (simp add: connections_init_def)

lemma serve_ok:
  assumes "sys_ok files st_size sys" "table_ok files st_size t" "list_all (call_ok files st_size) reqs"
  shows "\<exists>t'. serve sys reqs t = Some t' \<and> table_ok files st_size t'"
  using assms(2,3)
proof (induction reqs arbitrary: t)
  case (Cons c reqs)
  have c: "call_ok files st_size c" "list_all (call_ok files st_size) reqs" using Cons.prems(2) by simp_all
  obtain t1 where "handle_call sys c t = Some t1" "table_ok files st_size t1" using handle_call_ok [OF Cons.prems(1) assms(1) c(1)] by blast
  then show ?case using Cons.IH c(2) by simp
qed simp

text \<open>C19: Over the whole life of the server no descriptor is lost and none is closed twice. Whatever clients come, whatever they send, whatever events and
  jobs there are, in any order, the server does not fault and every turn of it comes to an end; the descriptors it has taken in are, each as often as it was
  given out, those that it has closed and those of the connections in its table; and every connection of the table is at its own place.\<close>
theorem descriptors_accounted:
  assumes "sys_ok files st_size sys" "list_all (call_ok files st_size) reqs" "ts > 1"
  shows "\<exists>t. serve sys reqs (server_start n ts) = Some t
    \<and> mset (registered (net_calls (t_srv t))) = mset (closes (net_calls (t_srv t))) + image_mset (\<lambda>a. con_fd (t_con t a)) (mset_set (in_use (conns (t_srv t))))
    \<and> (\<forall>a \<in> in_use (conns (t_srv t)). conn_ptr (conns (t_srv t)) ! nat (conn_ndx (conns (t_srv t)) a) = a \<and> state_of (t_con t a) \<noteq> CON_STATE_CONNECT)"
proof -
  obtain t where t: "serve sys reqs (server_start n ts) = Some t" "table_ok files st_size t"
    using serve_ok [OF assms(1) server_start_ok [OF assms(3)] assms(2)] by blast
  have p: "pool_ok (conns (t_srv t))" using t(2) by (simp add: table_ok_def)
  have "state_of (t_con t a) \<noteq> CON_STATE_CONNECT" if "a \<in> in_use (conns (t_srv t))" for a
    using t(2) in_use_fresh [OF p that] that by (auto simp: table_ok_def slot_ok_def machine_ok_def)
  moreover have "conn_ptr (conns (t_srv t)) ! nat (conn_ndx (conns (t_srv t)) a) = a" if "a \<in> in_use (conns (t_srv t))" for a
    using ndx_of [OF p that] by auto
  ultimately show ?thesis using t by (auto simp: table_ok_def open_fds_def)
qed

text \<open>Two clients, one of which sends a request, an event and a job.\<close>
theorem descriptors_accounted_witness:
  "\<exists>t. serve sample_system [Clients True [\<lparr>accepted = Some 5, fcntl_set = True, client_world = sample_world [\<lambda>c. (HANDLER_FINISHED, c)]\<rparr>,
      \<lparr>accepted = Some 6, fcntl_set = True, client_world = empty_world\<rparr>], Event 1 \<lparr>ev_in = True, ev_out = False, ev_hup = True, ev_err = False, ev_other = False\<rparr>, Job 1]
      (server_start 10 100) = Some t
    \<and> mset (registered (net_calls (t_srv t))) = mset (closes (net_calls (t_srv t))) + image_mset (\<lambda>a. con_fd (t_con t a)) (mset_set (in_use (conns (t_srv t))))"
proof -
  have "client_ok (\<lambda>_. None) (\<lambda>_. None) \<lparr>accepted = Some 5, fcntl_set = True, client_world = sample_world [\<lambda>c. (HANDLER_FINISHED, c)]\<rparr>"
    "client_ok (\<lambda>_. None) (\<lambda>_. None) \<lparr>accepted = Some 6, fcntl_set = True, client_world = empty_world\<rparr>"
    by (simp_all add: client_ok_def sample_world_def empty_world_def bytes_to_come_def arrival_ok_def data_size_def)
  then have c: "list_all (call_ok (\<lambda>_. None) (\<lambda>_. None)) [Clients True [\<lparr>accepted = Some 5, fcntl_set = True, client_world = sample_world [\<lambda>c. (HANDLER_FINISHED, c)]\<rparr>,
      \<lparr>accepted = Some 6, fcntl_set = True, client_world = empty_world\<rparr>], Event 1 \<lparr>ev_in = True, ev_out = False, ev_hup = True, ev_err = False, ev_other = False\<rparr>, Job 1]"
    by (simp add: call_ok_def)
  have ts: "(100 :: int) > 1" by simp
  show ?thesis using descriptors_accounted [OF sample_system_ok c ts, of 10] by blast
qed

end
