(* ===== verification/Http_Chunks.thy ===== *)
theory Http_Chunks
  imports Network_Write Byte_Numbers
begin

text \<open>
  http\_chunk.c of lighttpd: the body of a response on its way into the chunk queue of the connection, as it is or in the
  chunked transfer encoding of HTTP 1.1, where each piece is preceded by a line with its length in hexadecimal and
  followed by an end of line, and an empty piece ends the body. The record holds the three things of the
  connection and the server that the functions use. A reader of the encoding is the reference for the theorems.
\<close>

section \<open>The code\<close>

record http_con =
  hc_chunked :: bool
  hc_queue :: chunkqueue
  hc_tmp :: buffer

definition CRLF :: "byte list" where "CRLF = [13, 10]"

text \<open>The number of digits, at most eight, and the digits from the last to the first.\<close>

function count_digits :: "nat \<Rightarrow> 64 word \<Rightarrow> nat" where
  "count_digits i len = (if i < 8 \<and> len \<noteq> 0 then count_digits (i + 1) (drop_bit 4 len) else i)"
  by auto
termination by (relation "measure (\<lambda>(i, len). 8 - i)") auto

definition len_digit :: "64 word \<Rightarrow> byte" where
  "len_digit len = ucast (len AND 0xF) + (if len AND 0xF \<le> 9 then 48 else 97 - 10)"

fun digits_back :: "nat \<Rightarrow> 64 word \<Rightarrow> byte list \<Rightarrow> byte list option" where
  "digits_back 0 len p = Some p"
| "digits_back (Suc j) len p = do { p \<leftarrow> poke p j (len_digit len); digits_back j (drop_bit 4 len) p }"

definition http_chunk_append_len :: "(nat \<Rightarrow> byte) \<Rightarrow> http_con \<Rightarrow> 64 word \<Rightarrow> http_con option" where
  "http_chunk_append_len junk con len = do {
     b \<leftarrow> (if len = 0 then after (buffer_copy_string_len junk (Some (hc_tmp con)) (Some [48, 0]) 1)
          else do {
            let i = count_digits 0 len;
            b \<leftarrow> snd (buffer_prepare_copy junk (Some (hc_tmp con)) (i + 1));
            p \<leftarrow> b_ptr b;
            p \<leftarrow> digits_back i len p;
            p \<leftarrow> poke p i 0;
            Some (b\<lparr>b_ptr := Some p, b_used := i + 1\<rparr>)
          });
     b \<leftarrow> after (buffer_append_string_len junk (Some b) (Some (CRLF @ [0])) 2);
     cq \<leftarrow> chunkqueue_append_buffer junk (hc_queue con) b;
     Some (con\<lparr>hc_queue := cq, hc_tmp := b\<rparr>)
   }"

definition append_crlf :: "(nat \<Rightarrow> byte) \<Rightarrow> http_con \<Rightarrow> http_con option" where
  "append_crlf junk con = do {
     cq \<leftarrow> chunkqueue_append_mem junk (hc_queue con) (CRLF @ [0]) (2 + 1);
     Some (con\<lparr>hc_queue := cq\<rparr>)
   }"

definition http_chunk_append_file ::
    "(nat \<Rightarrow> byte) \<Rightarrow> http_con option \<Rightarrow> buffer \<Rightarrow> int \<Rightarrow> int \<Rightarrow> (int \<times> http_con option) option" where
  "http_chunk_append_file junk con fn offset len = (case con of None \<Rightarrow> Some (- 1, None) | Some con \<Rightarrow> do {
     con \<leftarrow> (if hc_chunked con then http_chunk_append_len junk con (word_of_int len) else Some con);
     cq \<leftarrow> chunkqueue_append_file junk (hc_queue con) fn offset len;
     let con = con\<lparr>hc_queue := cq\<rparr>;
     con \<leftarrow> (if hc_chunked con \<and> len > 0 then append_crlf junk con else Some con);
     Some (0, Some con)
   })"

definition http_chunk_append_buffer ::
    "(nat \<Rightarrow> byte) \<Rightarrow> http_con option \<Rightarrow> buffer \<Rightarrow> (int \<times> http_con option) option" where
  "http_chunk_append_buffer junk con mem = (case con of None \<Rightarrow> Some (- 1, None) | Some con \<Rightarrow> do {
     con \<leftarrow> (if hc_chunked con then http_chunk_append_len junk con (of_nat (b_used mem) - 1) else Some con);
     cq \<leftarrow> chunkqueue_append_buffer junk (hc_queue con) mem;
     let con = con\<lparr>hc_queue := cq\<rparr>;
     con \<leftarrow> (if hc_chunked con \<and> b_used mem > 0 then append_crlf junk con else Some con);
     Some (0, Some con)
   })"

definition http_chunk_append_mem ::
    "(nat \<Rightarrow> byte) \<Rightarrow> http_con option \<Rightarrow> byte list \<Rightarrow> nat \<Rightarrow> (int \<times> http_con option) option" where
  "http_chunk_append_mem junk con mem len = (case con of None \<Rightarrow> Some (- 1, None) | Some con \<Rightarrow>
     if len = 0 then do {
       cq \<leftarrow> (if hc_chunked con then chunkqueue_append_mem junk (hc_queue con) ([48] @ CRLF @ CRLF @ [0]) (5 + 1)
             else chunkqueue_append_mem junk (hc_queue con) [0] 1);
       Some (0, Some (con\<lparr>hc_queue := cq\<rparr>))
     }
     else do {
       con \<leftarrow> (if hc_chunked con then http_chunk_append_len junk con (of_nat (len - 1)) else Some con);
       cq \<leftarrow> chunkqueue_append_mem junk (hc_queue con) mem len;
       let con = con\<lparr>hc_queue := cq\<rparr>;
       con \<leftarrow> (if hc_chunked con then append_crlf junk con else Some con);
       Some (0, Some con)
     })"

definition http_chunkqueue_length :: "http_con option \<Rightarrow> int option" where
  "http_chunkqueue_length con = (case con of None \<Rightarrow> Some 0 | Some con \<Rightarrow> chunkqueue_length (hc_queue con))"

declare count_digits.simps [simp del]

section \<open>The line with the length\<close>

definition size_line :: "64 word \<Rightarrow> byte list" where
  "size_line v = (if v = 0 then [48] else hex_text v (min 8 (hex_width v))) @ CRLF"

lemma count_digits_spec: "count_digits i v = (if i < 8 then min 8 (i + hex_width v) else i)"
proof (induction i v rule: count_digits.induct)
  case (1 i v)
  show ?case
  proof (cases "i < 8 \<and> v \<noteq> 0")
    case True
    then have "count_digits i v = count_digits (i + 1) (drop_bit 4 v)" by (simp add: count_digits.simps [of i v])
    then show ?thesis using 1 [OF True] True by (simp add: hex_width.simps [of v])
  next
    case False
    then show ?thesis by (auto simp: count_digits.simps [of i v] hex_width.simps [of 0])
  qed
qed

lemma len_digit_nibble: "len_digit (drop_bit (4 * k) v) = nibble v k"
proof -
  define n where "n = unat (drop_bit (4 * k) v AND 0xF)"
  have "drop_bit (4 * k) v AND 0xF = take_bit 4 (drop_bit (4 * k) v)" by (simp add: take_bit_eq_mask mask_eq_exp_minus_1)
  then have "n = unat (drop_bit (4 * k) v) mod 2 ^ 4" unfolding n_def by (simp only: unsigned_take_bit_eq) (simp add: take_bit_eq_mod)
  then have n: "n < 16" by simp
  have w: "drop_bit (4 * k) v AND 0xF = word_of_nat n" by (simp add: n_def)
  have "list_all (\<lambda>m. (ucast (word_of_nat m :: 64 word) :: byte) + (if (word_of_nat m :: 64 word) \<le> 9 then 48 else 97 - 10) = hex_chars ! m)
      [0 ..< 16]"
    by (simp add: upt_rec hex_chars_def)
  then have "(ucast (word_of_nat n :: 64 word) :: byte) + (if (word_of_nat n :: 64 word) \<le> 9 then 48 else 97 - 10) = hex_chars ! n"
    using n unfolding list_all_iff by (metis atLeastLessThan_iff set_upt zero_le)
  moreover have u: "unat (drop_bit (4 * k) v AND 0xF) = n" by (simp only: n_def)
  ultimately show ?thesis unfolding len_digit_def nibble_def u w by (simp only:)
qed

lemma digits_back_spec:
  "n \<le> length p \<Longrightarrow> digits_back n (drop_bit (4 * k) v) p = Some (List.map (nibble v) (rev [k ..< k + n]) @ drop n p)"
proof (induction n arbitrary: k p)
  case (Suc n)
  have d: "drop_bit 4 (drop_bit (4 * k) v) = drop_bit (4 * (k + 1)) v" by (simp add: ac_simps)
  have "digits_back (Suc n) (drop_bit (4 * k) v) p = digits_back n (drop_bit (4 * (k + 1)) v) (p[n := nibble v k])"
    using Suc.prems by (simp add: poke_in len_digit_nibble d del: bind_Some_iff)
  also have "\<dots> = Some (List.map (nibble v) (rev [k + 1 ..< k + 1 + n]) @ drop n (p[n := nibble v k]))"
    using Suc.prems by (intro Suc.IH) simp
  also have "drop n (p[n := nibble v k]) = nibble v k # drop (Suc n) p"
    using Suc.prems by (simp add: drop_update_swap [symmetric] Cons_nth_drop_Suc [symmetric])
  also have "[k ..< k + Suc n] = k # [k + 1 ..< k + 1 + n]" by (simp add: upt_conv_Cons)
  ultimately show ?case by simp
qed simp

section \<open>The functions\<close>

text \<open>The buffer for the line is empty or has room for every line.\<close>

definition tmp_ok :: "buffer \<Rightarrow> bool" where
  "tmp_ok b \<longleftrightarrow> small 60 b \<and> (b_size b = 0 \<or> 64 \<le> b_size b)"

definition con_holds :: "(byte list \<Rightarrow> byte list option) \<Rightarrow> (byte list \<Rightarrow> int option) \<Rightarrow> http_con \<Rightarrow> byte list \<Rightarrow> bool" where
  "con_holds files st_size con bs \<longleftrightarrow> outstanding files st_size (hc_queue con) bs \<and> tmp_ok (hc_tmp con)"

lemma grow_copy_tmp:
  assumes "tmp_ok b" and "0 < n" and "n \<le> 10"
  obtains p where "b_ptr (grow_copy junk b n) = Some p" "length p = b_size (grow_copy junk b n)" "64 \<le> length p"
    "b_size (grow_copy junk b n) < 2 ^ 60" "buffer_ok (grow_copy junk b n)"
proof -
  have ok: "buffer_ok b" "b_size b < 2 ^ 60" using assms(1) smallD [of 60 b] by (auto simp: tmp_ok_def)
  have n: "n + 64 < 2 ^ 64" using assms(3) by simp
  obtain p where p: "b_ptr (grow_copy junk b n) = Some p" "length p = b_size (grow_copy junk b n)" "b_used (grow_copy junk b n) = 0"
    using grow_copy_ok [OF ok(1) n] by metis
  have "piece n = 64" using assms(2,3) by (simp add: piece_def BUFFER_PIECE_SIZE_def)
  then have s: "64 \<le> b_size (grow_copy junk b n) \<and> b_size (grow_copy junk b n) < 2 ^ 60"
    using assms ok(2) by (auto simp: grow_copy_def tmp_ok_def)
  have "buffer_ok (grow_copy junk b n)" using p s by (simp add: buffer_ok_def)
  then show thesis using that p s by simp
qed

lemma append_crlf_text:
  assumes b: "string_ok b" "64 \<le> b_size b" "b_used b \<noteq> 0" "length (text_of b) \<le> 10"
  obtains b' where "after (buffer_append_string_len junk (Some b) (Some (CRLF @ [0])) 2) = Some b'" "string_ok b'"
    "text_of b' = text_of b @ CRLF" "b_size b' = b_size b"
proof -
  obtain p where p: "b_ptr b = Some p" "take (length (text_of b)) p = text_of b" "b_used b = length (text_of b) + 1" "length p = b_size b"
  proof -
    obtain p rest where q: "b_ptr b = Some p" "p = text_of b @ 0 # rest" "b_used b = length (text_of b) + 1"
      using string_area [OF b(1,3)] by metis
    then show thesis using that [of p] b(1) arg_cong [OF q(2), of "take (length (text_of b))"] by (simp add: string_ok_def buffer_ok_def)
  qed
  have r: "length (text_of b) + 2 < length p" using b(2,4) p(4) by simp
  have g: "grow_append junk b (sz (2 + 1)) = Some b" using b(2,4) p(3) by (simp add: grow_append_def sz_def)
  let ?b = "b\<lparr>b_ptr := Some ((take (length (text_of b)) p @ CRLF @ drop (length (text_of b) + 2) p)[length (text_of b) + 2 := 0]),
              b_used := Suc (length (text_of b) + 2)\<rparr>"
  have "after (buffer_append_string_len junk (Some b) (Some (CRLF @ [0])) 2) = Some ?b"
    using g p r by (simp add: buffer_append_string_len_def with_args_def CRLF_def poke_in memcpy_in del: memcpy_Some poke_Some)
  moreover have "string_ok ?b \<and> text_of ?b = text_of b @ CRLF"
    using write_text [OF p(1,4,2), of CRLF] r by (simp add: CRLF_def)
  ultimately show thesis using that [of ?b] by simp
qed

lemma outstanding_append_mem:
  assumes o: "outstanding files st_size cq bs" and n: "length t + 65 < 2 ^ 64"
  obtains cq' where "chunkqueue_append_mem junk cq (t @ 0 # r) (length t + 1) = Some cq'" "outstanding files st_size cq' (bs @ t)"
proof -
  obtain cs where cs: "holds cq cs" "list_all (servable files st_size) cs" "bs = pending files cs" using o by (auto simp: outstanding_def)
  have n': "length t + 1 \<noteq> 0" "length t + 1 - 1 \<le> length (t @ 0 # r)" "length t + 1 + 64 < 2 ^ 64" using n by simp_all
  obtain cq' c where m: "chunkqueue_append_mem junk cq (t @ 0 # r) (length t + 1) = Some cq'" "holds cq' (cs @ [c])" "mem_chunk t c"
    using append_mem_ok [OF cs(1) n', of junk] by auto
  then show thesis using that outstanding_snoc [OF m(2) cs(2) _ _ cs(3)] mem_chunk_sends [OF m(3)] by blast
qed

lemma outstanding_append_buffer:
  assumes o: "outstanding files st_size cq bs" and b: "small 60 b"
  obtains cq' where "chunkqueue_append_buffer junk cq b = Some cq'" "outstanding files st_size cq' (bs @ text_of b)"
  using act_ok [OF o, of "Send_buffer b" junk no_limit "\<lparr>io_out = [], io_results = []\<rparr>"] b that by force

lemma append_len_ok:
  assumes h: "con_holds files st_size con bs"
  obtains con' where "http_chunk_append_len junk con v = Some con'" "con_holds files st_size con' (bs @ size_line v)"
    "hc_chunked con' = hc_chunked con"
proof -
  have t: "tmp_ok (hc_tmp con)" and o: "outstanding files st_size (hc_queue con) bs" using h by (simp_all add: con_holds_def)
  let ?d = "if v = 0 then [48] else hex_text v (min 8 (hex_width v))"
  obtain b where b: "(if v = 0 then after (buffer_copy_string_len junk (Some (hc_tmp con)) (Some [48, 0]) 1)
          else do {
            let i = count_digits 0 v;
            b \<leftarrow> snd (buffer_prepare_copy junk (Some (hc_tmp con)) (i + 1));
            p \<leftarrow> b_ptr b;
            p \<leftarrow> digits_back i v p;
            p \<leftarrow> poke p i 0;
            Some (b\<lparr>b_ptr := Some p, b_used := i + 1\<rparr>)
          }) = Some b" "string_ok b" "text_of b = ?d" "64 \<le> b_size b" "b_size b < 2 ^ 60" "b_used b \<noteq> 0"
  proof (cases "v = 0")
    case True
    obtain p where g: "b_ptr (grow_copy junk (hc_tmp con) 2) = Some p" "length p = b_size (grow_copy junk (hc_tmp con) 2)" "64 \<le> length p"
      "b_size (grow_copy junk (hc_tmp con) 2) < 2 ^ 60"
      by (rule grow_copy_tmp [OF t, of 2 junk]) simp_all
    let ?b = "(grow_copy junk (hc_tmp con) 2)\<lparr>b_ptr := Some (([48] @ drop 1 p)[1 := 0]), b_used := Suc 1\<rparr>"
    have z: "sz (Suc (Suc 0)) = 2" by (simp add: sz_def)
    have e: "after (buffer_copy_string_len junk (Some (hc_tmp con)) (Some [48, 0]) 1) = Some ?b"
      using g by (simp add: buffer_copy_string_len_def with_args_def sz_def numeral_2_eq_2 [symmetric] del: One_nat_def)
        (simp add: after_def)
    have "string_ok ?b \<and> text_of ?b = [48]"
      using write_text [of "grow_copy junk (hc_tmp con) 2" p "[]" "[48]"] g by simp
    then show thesis using that [of ?b] e g True by simp
  next
    case False
    let ?i = "min 8 (hex_width v)"
    have i: "count_digits 0 v = ?i" by (simp add: count_digits_spec)
    obtain p where g: "b_ptr (grow_copy junk (hc_tmp con) (?i + 1)) = Some p"
      "length p = b_size (grow_copy junk (hc_tmp con) (?i + 1))" "64 \<le> length p"
      "b_size (grow_copy junk (hc_tmp con) (?i + 1)) < 2 ^ 60"
      by (rule grow_copy_tmp [OF t, of "?i + 1" junk]) simp_all
    have il: "?i \<le> length p" "?i < length p" using g(3) by simp_all
    have d: "digits_back ?i v p = Some (hex_text v ?i @ drop ?i p)"
      using digits_back_spec [OF il(1), of 0 v] by (simp add: hex_text_def)
    let ?b = "(grow_copy junk (hc_tmp con) (?i + 1))\<lparr>b_ptr := Some ((hex_text v ?i @ drop ?i p)[?i := 0]), b_used := ?i + 1\<rparr>"
    have "string_ok ?b \<and> text_of ?b = hex_text v ?i"
      using write_text [OF g(1,2), of "[]" "hex_text v ?i"] il by simp
    then show thesis using that [of ?b] False g il d i
      by (simp add: buffer_prepare_copy_def Let_def poke_in del: poke_Some)
  qed
  have l: "length (text_of b) \<le> 10" unfolding b(3) by (simp add: min_le_iff_disj)
  obtain b2 where b2: "after (buffer_append_string_len junk (Some b) (Some (CRLF @ [0])) 2) = Some b2" "string_ok b2"
    "text_of b2 = text_of b @ CRLF" "b_size b2 = b_size b"
    by (rule append_crlf_text [OF b(2,4,6) l])
  have s: "small 60 b2" "tmp_ok b2" using b2(2,4) b(4,5) by (simp_all add: small_def tmp_ok_def)
  obtain cq where cq: "chunkqueue_append_buffer junk (hc_queue con) b2 = Some cq" "outstanding files st_size cq (bs @ text_of b2)"
    by (rule outstanding_append_buffer [OF o s(1)])
  have "http_chunk_append_len junk con v = Some (con\<lparr>hc_queue := cq, hc_tmp := b2\<rparr>)"
    unfolding http_chunk_append_len_def b(1) using b2(1) cq(1) by simp
  from that [OF this] show thesis using cq(2) s(2) b2(3) b(3) by (simp add: con_holds_def size_line_def)
qed

section \<open>Reading the chunked encoding\<close>

definition encode_chunk :: "byte list \<Rightarrow> byte list" where
  "encode_chunk t = size_line (of_nat (length t)) @ t @ CRLF"

definition last_chunk :: "byte list" where
  "last_chunk = [48] @ CRLF @ CRLF"

text \<open>A body is a number in hexadecimal, an end of line, that many bytes, an end of line, and the rest of the body; or
  zero, an end of line and an empty line.\<close>

function dechunk :: "byte list \<Rightarrow> byte list option" where
  "dechunk s = (let ds = takeWhile hex_digit s; r = drop (length ds) s; n = read_hex ds in
     if ds = [] \<or> take 2 r \<noteq> CRLF then None
     else if n = 0 then (if drop 2 r = CRLF then Some [] else None)
     else if length r < n + 4 \<or> take 2 (drop (n + 2) r) \<noteq> CRLF then None
     else map_option (\<lambda>d. take n (drop 2 r) @ d) (dechunk (drop (n + 4) r)))"
  by auto
termination by (relation "measure length") (auto simp: Let_def)

declare dechunk.simps [simp del]

lemma crlf_not_hex: "\<not> hex_digit 13"
  by (simp add: hex_digit_def)

lemma all_hex_text: "\<forall>c \<in> set (hex_text v n). hex_digit c"
  by (auto simp: hex_text_def nibble_digit)

lemma takeWhile_line: "takeWhile hex_digit (size_line v @ s) = (if v = 0 then [48] else hex_text v (min 8 (hex_width v)))"
proof -
  have "\<forall>c \<in> set (if v = 0 then [48] else hex_text v (min 8 (hex_width v))). hex_digit c"
    using all_hex_text by (simp add: hex_digit_def)
  then show ?thesis using crlf_not_hex by (auto simp: size_line_def CRLF_def)
qed

lemma read_line: "read_hex (takeWhile hex_digit (size_line v @ s)) = unat v mod 2 ^ 32"
proof (cases "v = 0")
  case True
  then show ?thesis by (simp add: takeWhile_line read_hex_def hex2int_def)
next
  case False
  show ?thesis
  proof (cases "hex_width v \<le> 8")
    case True
    have "(16 :: nat) ^ hex_width v \<le> 16 ^ 8" using True by (intro power_increasing) simp_all
    then have "unat v < 2 ^ 32" using hex_width_bound [of v] by simp
    then show ?thesis using False True hex_width_bound [of v] by (simp add: takeWhile_line read_hex_text min_absorb2)
  next
    case False
    then show ?thesis using \<open>v \<noteq> 0\<close> by (simp add: takeWhile_line read_hex_text min_absorb1)
  qed
qed

lemma size_line_digits:
  obtains ds where "size_line v = ds @ CRLF" "list_all hex_digit ds" "1 \<le> length ds" "length ds \<le> 8" "read_hex ds = unat v mod 2 ^ 32"
proof -
  define ds where "ds = (if v = 0 then [48] else hex_text v (min 8 (hex_width v)))"
  have "hex_width v \<noteq> 0" if "v \<noteq> 0" using that by (simp only: hex_width.simps [of v]) simp
  then have "v \<noteq> 0 \<Longrightarrow> 1 \<le> min 8 (hex_width v)" by (simp add: Suc_le_eq)
  then have "1 \<le> length ds \<and> length ds \<le> 8" unfolding ds_def by (simp only: length_hex_text split: if_splits) simp
  moreover have "takeWhile hex_digit (size_line v @ []) = ds" unfolding takeWhile_line ds_def ..
  moreover have "list_all hex_digit ds" using all_hex_text by (simp add: ds_def list_all_iff hex_digit_def)
  ultimately show thesis using that [of ds] read_line [of v "[]"] by (simp add: size_line_def ds_def)
qed

lemma dechunk_encode:
  assumes t: "t \<noteq> []" and n: "length t < 2 ^ 32"
  shows "dechunk (encode_chunk t @ s) = map_option (\<lambda>d. t @ d) (dechunk s)"
proof -
  let ?v = "of_nat (length t) :: 64 word"
  let ?ds = "if ?v = 0 then [48] else hex_text ?v (min 8 (hex_width ?v))"
  have u: "unat ?v = length t" using n by (simp add: unsigned_of_nat take_bit_nat_eq_self)
  then have v: "?v \<noteq> 0" using t by (metis length_0_conv unsigned_0)
  have w: "hex_width ?v \<noteq> 0"
  proof
    assume "hex_width ?v = 0"
    then show False using hex_width_bound [of ?v] u t by simp
  qed
  then have ne: "hex_text ?v (min 8 (hex_width ?v)) \<noteq> []" by (metis length_hex_text list.size(3) min_def zero_neq_numeral)
  have e: "encode_chunk t @ s = size_line ?v @ t @ CRLF @ s" by (simp add: encode_chunk_def)
  have tw: "takeWhile hex_digit (encode_chunk t @ s) = hex_text ?v (min 8 (hex_width ?v))"
    unfolding e takeWhile_line using v by simp
  have r: "drop (length (hex_text ?v (min 8 (hex_width ?v)))) (encode_chunk t @ s) = CRLF @ t @ CRLF @ s"
    unfolding e size_line_def using v by simp
  have rd: "read_hex (hex_text ?v (min 8 (hex_width ?v))) = length t"
    using read_line [of ?v "t @ CRLF @ s"] takeWhile_line [of ?v "t @ CRLF @ s"] v u n by simp
  have d: "drop (length t + 4) (CRLF @ t @ CRLF @ s) = s" "take 2 (CRLF @ t @ CRLF @ s) = CRLF" "drop 2 (CRLF @ t @ CRLF @ s) = t @ CRLF @ s"
    "drop (length t + 2) (CRLF @ t @ CRLF @ s) = CRLF @ s" "take 2 (CRLF @ s) = CRLF" "length (CRLF @ t @ CRLF @ s) = length t + 4 + length s"
    by (simp_all add: CRLF_def numeral_2_eq_2 eval_nat_numeral)
  have "dechunk (encode_chunk t @ s) = map_option (\<lambda>d. take (length t) (t @ CRLF @ s) @ d) (dechunk s)"
    unfolding dechunk.simps [of "encode_chunk t @ s"] tw Let_def r rd d using ne t by simp
  then show ?thesis by simp
qed

lemma dechunk_last: "dechunk last_chunk = Some []"
proof -
  have "takeWhile hex_digit last_chunk = [48]" by (simp add: last_chunk_def CRLF_def hex_digit_def)
  moreover have "read_hex [48] = 0" by (simp add: read_hex_def hex2int_def)
  ultimately show ?thesis unfolding dechunk.simps [of last_chunk] by (simp add: last_chunk_def CRLF_def)
qed

lemma dechunk_body:
  "\<forall>t \<in> set ts. t \<noteq> [] \<and> length t < 2 ^ 32 \<Longrightarrow> dechunk (concat (List.map encode_chunk ts) @ last_chunk) = Some (concat ts)"
  by (induction ts) (simp_all add: dechunk_last dechunk_encode)

section \<open>A response\<close>

fun respond ::
    "(nat \<Rightarrow> byte) \<Rightarrow> backend \<Rightarrow> action \<Rightarrow> traffic \<times> http_con \<times> io \<Rightarrow> (traffic \<times> http_con \<times> io) option" where
  "respond junk backend (Send_mem t) (tr, con, io) = do {
     (_, con) \<leftarrow> http_chunk_append_mem junk (Some con) (t @ [0]) (length t + 1); con \<leftarrow> con; Some (tr, con, io) }"
| "respond junk backend (Send_buffer b) (tr, con, io) = do {
     (_, con) \<leftarrow> http_chunk_append_buffer junk (Some con) b; con \<leftarrow> con; Some (tr, con, io) }"
| "respond junk backend (Send_file fn start len) (tr, con, io) = do {
     (_, con) \<leftarrow> http_chunk_append_file junk (Some con) fn start len; con \<leftarrow> con; Some (tr, con, io) }"
| "respond junk backend Writable (tr, con, io) = do {
     (_, tr, cq, io) \<leftarrow> network_write_chunkqueue backend tr (hc_queue con) io; Some (tr, con\<lparr>hc_queue := cq\<rparr>, io) }"

fun respond_all ::
    "(nat \<Rightarrow> byte) \<Rightarrow> backend \<Rightarrow> action list \<Rightarrow> traffic \<times> http_con \<times> io \<Rightarrow> (traffic \<times> http_con \<times> io) option" where
  "respond_all junk backend [] s = do {
     (tr, con, io) \<leftarrow> Some s;
     (_, con) \<leftarrow> http_chunk_append_mem junk (Some con) [] 0; con \<leftarrow> con; Some (tr, con, io) }"
| "respond_all junk backend (a # as) s = do { s \<leftarrow> respond junk backend a s; respond_all junk backend as s }"

definition framed :: "bool \<Rightarrow> byte list \<Rightarrow> byte list" where
  "framed chunked t = (if chunked then encode_chunk t else t)"

definition part_ok :: "(byte list \<Rightarrow> byte list option) \<Rightarrow> (byte list \<Rightarrow> int option) \<Rightarrow> action \<Rightarrow> bool" where
  "part_ok files st_size a \<longleftrightarrow> action_ok files st_size a
     \<and> (a \<noteq> Writable \<longrightarrow> appended files a \<noteq> [] \<and> length (appended files a) < 2 ^ 32)"

definition parts :: "(byte list \<Rightarrow> byte list option) \<Rightarrow> action list \<Rightarrow> byte list list" where
  "parts files as = List.map (appended files) (filter (\<lambda>a. a \<noteq> Writable) as)"

lemma append_crlf_ok:
  assumes "con_holds files st_size con bs"
  obtains con' where "append_crlf junk con = Some con'" "con_holds files st_size con' (bs @ CRLF)" "hc_chunked con' = hc_chunked con"
proof -
  have o: "outstanding files st_size (hc_queue con) bs" using assms by (simp add: con_holds_def)
  obtain cq where cq: "chunkqueue_append_mem junk (hc_queue con) (CRLF @ 0 # []) (length CRLF + 1) = Some cq"
    "outstanding files st_size cq (bs @ CRLF)"
    by (rule outstanding_append_mem [OF o, of CRLF junk "[]"]) (simp_all add: CRLF_def)
  have "length CRLF + 1 = 2 + 1" by (simp add: CRLF_def)
  then have "append_crlf junk con = Some (con\<lparr>hc_queue := cq\<rparr>)" using cq(1) unfolding append_crlf_def by (simp only: bind.simps)
  from that [OF this] show thesis using cq(2) assms by (simp add: con_holds_def)
qed

text \<open>The frame around a part, for any way to append it.\<close>

lemma frame_ok:
  assumes h: "con_holds files st_size con bs" and v: "hc_chunked con \<Longrightarrow> v = of_nat (length t)"
    and app: "\<And>cq bs. outstanding files st_size cq bs \<Longrightarrow> \<exists>cq'. app cq = Some cq' \<and> outstanding files st_size cq' (bs @ t)"
  shows "\<exists>con'. do { con \<leftarrow> (if hc_chunked con then http_chunk_append_len junk con v else Some con);
      cq \<leftarrow> app (hc_queue con);
      let con = con\<lparr>hc_queue := cq\<rparr>;
      con \<leftarrow> (if hc_chunked con then append_crlf junk con else Some con);
      Some (0 :: int, Some con) } = Some (0, Some con')
    \<and> con_holds files st_size con' (bs @ framed (hc_chunked con) t) \<and> hc_chunked con' = hc_chunked con"
proof (cases "hc_chunked con")
  case True
  obtain c1 where c1: "http_chunk_append_len junk con v = Some c1" "con_holds files st_size c1 (bs @ size_line v)" "hc_chunked c1"
    using append_len_ok [OF h, of junk v] True by metis
  obtain cq where cq: "app (hc_queue c1) = Some cq" "outstanding files st_size cq ((bs @ size_line v) @ t)"
    using app [of "hc_queue c1" "bs @ size_line v"] c1(2) by (auto simp: con_holds_def)
  have h2: "con_holds files st_size (c1\<lparr>hc_queue := cq\<rparr>) ((bs @ size_line v) @ t)" using c1(2) cq(2) by (simp add: con_holds_def)
  obtain c2 where c2: "append_crlf junk (c1\<lparr>hc_queue := cq\<rparr>) = Some c2" "con_holds files st_size c2 (((bs @ size_line v) @ t) @ CRLF)"
    "hc_chunked c2" using append_crlf_ok [OF h2, of junk] c1(3) by auto
  then show ?thesis using True c1 cq(1) v by (simp add: framed_def encode_chunk_def)
next
  case False
  obtain cq where "app (hc_queue con) = Some cq" "outstanding files st_size cq (bs @ t)"
    using app [of "hc_queue con" bs] h by (auto simp: con_holds_def)
  then show ?thesis using False h by (simp add: framed_def con_holds_def)
qed

lemma append_mem_framed:
  assumes h: "con_holds files st_size con bs" and n: "length t + 65 < 2 ^ 64"
  shows "\<exists>con'. http_chunk_append_mem junk (Some con) (t @ [0]) (length t + 1) = Some (0, Some con')
    \<and> con_holds files st_size con' (bs @ framed (hc_chunked con) t) \<and> hc_chunked con' = hc_chunked con"
proof -
  have "\<exists>cq'. chunkqueue_append_mem junk cq (t @ [0]) (length t + 1) = Some cq' \<and> outstanding files st_size cq' (bs @ t)"
    if o: "outstanding files st_size cq bs" for cq bs
    by (rule outstanding_append_mem [OF o n, of junk "[]"]) simp
  note app = this
  have e: "http_chunk_append_mem junk (Some con) (t @ [0]) (length t + 1) = do {
      con \<leftarrow> (if hc_chunked con then http_chunk_append_len junk con (of_nat (length t)) else Some con);
      cq \<leftarrow> chunkqueue_append_mem junk (hc_queue con) (t @ [0]) (length t + 1);
      let con = con\<lparr>hc_queue := cq\<rparr>;
      con \<leftarrow> (if hc_chunked con then append_crlf junk con else Some con);
      Some (0, Some con) }"
    by (simp add: http_chunk_append_mem_def)
  show ?thesis unfolding e by (rule frame_ok [OF h refl app])
qed

lemma append_buffer_framed:
  assumes h: "con_holds files st_size con bs" and b: "small 60 b" and used: "b_used b \<noteq> 0"
  shows "\<exists>con'. http_chunk_append_buffer junk (Some con) b = Some (0, Some con')
    \<and> con_holds files st_size con' (bs @ framed (hc_chunked con) (text_of b)) \<and> hc_chunked con' = hc_chunked con"
proof -
  have "\<exists>cq'. chunkqueue_append_buffer junk cq b = Some cq' \<and> outstanding files st_size cq' (bs @ text_of b)"
    if o: "outstanding files st_size cq bs" for cq bs
    by (rule outstanding_append_buffer [OF o b, of junk]) simp
  note app = this
  have v: "(of_nat (b_used b) - 1 :: 64 word) = of_nat (length (text_of b))"
    using length_text [of b] smallD [OF b] used by (simp add: of_nat_diff)
  have e: "http_chunk_append_buffer junk (Some con) b = do {
      con \<leftarrow> (if hc_chunked con then http_chunk_append_len junk con (of_nat (b_used b) - 1) else Some con);
      cq \<leftarrow> chunkqueue_append_buffer junk (hc_queue con) b;
      let con = con\<lparr>hc_queue := cq\<rparr>;
      con \<leftarrow> (if hc_chunked con then append_crlf junk con else Some con);
      Some (0, Some con) }"
    using used by (simp add: http_chunk_append_buffer_def)
  show ?thesis unfolding e by (rule frame_ok [OF h v app])
qed

lemma append_file_framed:
  assumes h: "con_holds files st_size con bs" and a: "action_ok files st_size (Send_file fn start len)" and len: "0 < len"
  shows "\<exists>con'. http_chunk_append_file junk (Some con) fn start len = Some (0, Some con')
    \<and> con_holds files st_size con' (bs @ framed (hc_chunked con) (appended files (Send_file fn start len)))
    \<and> hc_chunked con' = hc_chunked con"
proof -
  have "\<exists>cq'. chunkqueue_append_file junk cq fn start len = Some cq'
      \<and> outstanding files st_size cq' (bs @ appended files (Send_file fn start len))"
    if o: "outstanding files st_size cq bs" for cq bs
    using act_ok [OF o a, of junk no_limit "\<lparr>io_out = [], io_results = []\<rparr>"] by force
  note app = this
  have "length (appended files (Send_file fn start len)) = nat len" using a len by (auto split: option.splits)
  then have v: "(word_of_int len :: 64 word) = of_nat (length (appended files (Send_file fn start len)))"
    using len by (metis of_int_of_nat_eq int_nat_eq order_less_imp_le)
  have e: "http_chunk_append_file junk (Some con) fn start len = do {
      con \<leftarrow> (if hc_chunked con then http_chunk_append_len junk con (word_of_int len) else Some con);
      cq \<leftarrow> chunkqueue_append_file junk (hc_queue con) fn start len;
      let con = con\<lparr>hc_queue := cq\<rparr>;
      con \<leftarrow> (if hc_chunked con then append_crlf junk con else Some con);
      Some (0, Some con) }"
    using len by (simp add: http_chunk_append_file_def)
  show ?thesis unfolding e by (rule frame_ok [OF h v app])
qed

lemma respond_ok:
  assumes h: "con_holds files st_size con bs" and a: "part_ok files st_size a"
  shows "\<exists>tr' con' io' rest. respond junk (network_write_chunkqueue_write files st_size) a (tr, con, io) = Some (tr', con', io')
    \<and> con_holds files st_size con' rest \<and> hc_chunked con' = hc_chunked con
    \<and> io_out io' @ rest = io_out io @ bs @ concat (List.map (framed (hc_chunked con)) (parts files [a]))"
proof (cases a)
  case (Send_mem t)
  then have n: "length t + 65 < 2 ^ 64" using a by (simp add: part_ok_def)
  show ?thesis using append_mem_framed [OF h n, of junk] Send_mem by (auto simp: parts_def)
next
  case (Send_buffer b)
  then have b: "small 60 b" "text_of b \<noteq> []" using a by (auto simp: part_ok_def)
  moreover have "b_used b \<noteq> 0"
  proof
    assume "b_used b = 0"
    then have "length (text_of b) = 0" using length_text_le [of b] by linarith
    then show False using b(2) by (simp only: length_0_conv)
  qed
  ultimately have b: "small 60 b" "b_used b \<noteq> 0" by simp_all
  show ?thesis using append_buffer_framed [OF h b, of junk] Send_buffer by (auto simp: parts_def)
next
  case (Send_file fn start len)
  then have f: "action_ok files st_size (Send_file fn start len)" "0 < len"
    using a by (auto simp: part_ok_def intro: ccontr)
  show ?thesis using append_file_framed [OF h f, of junk] Send_file by (auto simp: parts_def simp del: appended.simps)
next
  case Writable
  have o: "outstanding files st_size (hc_queue con) bs" using h by (simp add: con_holds_def)
  obtain ret tr' cq' io' sent rest where w: "network_write_chunkqueue (network_write_chunkqueue_write files st_size) tr (hc_queue con) io
      = Some (ret, tr', cq', io')" "outstanding files st_size cq' rest" "bs = sent @ rest" "io_out io' = io_out io @ sent"
    using portable.write_chunkqueue [OF o, of tr io] by blast
  then have "respond junk (network_write_chunkqueue_write files st_size) a (tr, con, io) = Some (tr', con\<lparr>hc_queue := cq'\<rparr>, io')"
    using Writable by simp
  then show ?thesis using w h Writable by (auto simp: parts_def con_holds_def)
qed

definition body_end :: "bool \<Rightarrow> byte list" where
  "body_end chunked = (if chunked then last_chunk else [])"

lemma end_ok:
  assumes h: "con_holds files st_size con bs"
  shows "\<exists>con'. http_chunk_append_mem junk (Some con) m 0 = Some (0, Some con')
    \<and> con_holds files st_size con' (bs @ body_end (hc_chunked con)) \<and> hc_chunked con' = hc_chunked con"
proof -
  have o: "outstanding files st_size (hc_queue con) bs" using h by (simp add: con_holds_def)
  let ?t = "body_end (hc_chunked con)"
  obtain cq where cq: "chunkqueue_append_mem junk (hc_queue con) (?t @ 0 # []) (length ?t + 1) = Some cq"
    "outstanding files st_size cq (bs @ ?t)"
    by (rule outstanding_append_mem [OF o, of ?t junk "[]"]) (simp_all add: body_end_def last_chunk_def CRLF_def)
  then have "http_chunk_append_mem junk (Some con) m 0 = Some (0, Some (con\<lparr>hc_queue := cq\<rparr>))"
    by (cases "hc_chunked con") (simp_all add: http_chunk_append_mem_def body_end_def last_chunk_def CRLF_def eval_nat_numeral)
  then show ?thesis using cq(2) h by (simp add: con_holds_def)
qed

lemma respond_all_ok:
  assumes "con_holds files st_size con bs" and "list_all (part_ok files st_size) as"
  shows "\<exists>tr' con' io' rest. respond_all junk (network_write_chunkqueue_write files st_size) as (tr, con, io) = Some (tr', con', io')
    \<and> con_holds files st_size con' rest
    \<and> io_out io' @ rest = io_out io @ bs @ concat (List.map (framed (hc_chunked con)) (parts files as)) @ body_end (hc_chunked con)"
  using assms
proof (induction as arbitrary: tr con io bs)
  case Nil
  then show ?case using end_ok [OF Nil(1), of junk "[]"] by (auto simp: parts_def)
next
  case (Cons a as)
  obtain tr1 con1 io1 rest where s: "respond junk (network_write_chunkqueue_write files st_size) a (tr, con, io) = Some (tr1, con1, io1)"
    "con_holds files st_size con1 rest" "hc_chunked con1 = hc_chunked con"
    "io_out io1 @ rest = io_out io @ bs @ concat (List.map (framed (hc_chunked con)) (parts files [a]))"
    using respond_ok [OF Cons.prems(1), of a junk tr io] Cons.prems(2) by auto
  obtain tr' con' io' rest' where r: "respond_all junk (network_write_chunkqueue_write files st_size) as (tr1, con1, io1) = Some (tr', con', io')"
    "con_holds files st_size con' rest'"
    "io_out io' @ rest' = io_out io1 @ rest @ concat (List.map (framed (hc_chunked con)) (parts files as)) @ body_end (hc_chunked con)"
    using Cons.IH [OF s(2), of tr1 io1] Cons.prems(2) s(3) by auto
  have "parts files (a # as) = parts files [a] @ parts files as" by (simp add: parts_def)
  then have "io_out io' @ rest' = io_out io @ bs @ concat (List.map (framed (hc_chunked con)) (parts files (a # as))) @ body_end (hc_chunked con)"
    using s(4) r(3) by (metis append.assoc concat_append map_append)
  then show ?case using s(1) r(1,2) by auto
qed

lemma parts_small: "list_all (part_ok files st_size) as \<Longrightarrow> \<forall>t \<in> set (parts files as). t \<noteq> [] \<and> length t < 2 ^ 32"
  by (auto simp: parts_def part_ok_def list_all_iff)

lemma framed_fun: "framed True = encode_chunk" "framed False = (\<lambda>t. t)"
  by (simp_all add: framed_def fun_eq_iff)

section \<open>Properties\<close>

text \<open>C29: A response that the modules build from pieces of memory, buffers and parts of files, interleaved in any way with
  writes to the network that accept any number of bytes or fail, and then end, is received as they meant it: what has
  been sent followed by what is outstanding is, without the encoding, the pieces one after the other, and
  with it a text from which a reader of the chunked encoding gets the pieces back. The pieces are not empty
  and shorter than 4 GiB, which the encoding of the server needs.\<close>
theorem chunked_body_round_trip:
  assumes "con_holds files st_size con []" and "list_all (part_ok files st_size) as"
  shows "\<exists>tr' con' io' rest. respond_all junk (network_write_chunkqueue_write files st_size) as (tr, con, \<lparr>io_out = [], io_results = rs\<rparr>)
      = Some (tr', con', io')
    \<and> con_holds files st_size con' rest
    \<and> (if hc_chunked con then dechunk (io_out io' @ rest) = Some (concat (parts files as))
       else io_out io' @ rest = concat (parts files as))"
proof -
  obtain tr' con' io' rest where
    r: "respond_all junk (network_write_chunkqueue_write files st_size) as (tr, con, \<lparr>io_out = [], io_results = rs\<rparr>) = Some (tr', con', io')"
    "con_holds files st_size con' rest"
    "io_out io' @ rest = concat (List.map (framed (hc_chunked con)) (parts files as)) @ body_end (hc_chunked con)"
    using respond_all_ok [OF assms, of junk tr "\<lparr>io_out = [], io_results = rs\<rparr>"] by auto
  have "if hc_chunked con then dechunk (io_out io' @ rest) = Some (concat (parts files as)) else io_out io' @ rest = concat (parts files as)"
    unfolding r(3) using dechunk_body [OF parts_small [OF assms(2)]] by (simp add: framed_fun body_end_def)
  then show ?thesis using r(1,2) by blast
qed

definition init_con :: "bool \<Rightarrow> http_con" where
  "init_con chunked = \<lparr>hc_chunked = chunked, hc_queue = chunkqueue_init, hc_tmp = buffer_init\<rparr>"

lemma init_con_holds: "con_holds files st_size (init_con chunked) []"
  using init_outstanding by (simp add: con_holds_def init_con_def tmp_ok_def)

text \<open>A piece of memory and a part of a file, with a socket that takes three bytes, then fails.\<close>
theorem chunked_body_round_trip_witness:
  "\<exists>tr' con' io' rest. respond_all (\<lambda>_. 9) (network_write_chunkqueue_write [[102] \<mapsto> [1, 2, 3, 4]] [[102] \<mapsto> 4])
      [Send_mem [72, 10], Writable, Send_file (as_buffer [102]) 1 2, Writable] (no_limit, init_con True, \<lparr>io_out = [], io_results = [3, - 1]\<rparr>)
      = Some (tr', con', io')
    \<and> con_holds [[102] \<mapsto> [1, 2, 3, 4]] [[102] \<mapsto> 4] con' rest \<and> dechunk (io_out io' @ rest) = Some [72, 10, 2, 3]"
proof -
  let ?as = "[Send_mem [72, 10], Writable, Send_file (as_buffer [102]) 1 2, Writable]"
  have a: "list_all (part_ok [[102] \<mapsto> [1, 2, 3, 4]] [[102] \<mapsto> 4]) ?as" by (simp add: part_ok_def)
  have p: "concat (parts [[102] \<mapsto> [1, 2, 3, 4]] ?as) = [72, 10, 2, 3]" by (simp add: parts_def eval_nat_numeral)
  have c: "hc_chunked (init_con True)" by (simp add: init_con_def)
  show ?thesis
    using chunked_body_round_trip [OF init_con_holds a, of "\<lambda>_. 9" no_limit True "[3, - 1]"] unfolding p using c by (simp only: if_True)
qed

text \<open>The empty string handed over as memory, with its terminator, is not the empty piece that it looks like:
  it leaves in the queue exactly what the end of a body leaves, so that a reader stops there and what comes after it
  is lost.\<close>
theorem empty_piece_ends_body:
  assumes "con_holds files st_size con bs" and "hc_chunked con"
  shows "(\<exists>con'. http_chunk_append_mem junk (Some con) [0] 1 = Some (0, Some con') \<and> con_holds files st_size con' (bs @ last_chunk))
    \<and> (\<exists>con'. http_chunk_append_mem junk (Some con) [0] 0 = Some (0, Some con') \<and> con_holds files st_size con' (bs @ last_chunk))
    \<and> dechunk (last_chunk @ []) = Some []"
proof -
  have "framed True [] = last_chunk" by (simp add: framed_fun encode_chunk_def size_line_def last_chunk_def)
  then have "\<exists>con'. http_chunk_append_mem junk (Some con) [0] 1 = Some (0, Some con') \<and> con_holds files st_size con' (bs @ last_chunk)"
    using append_mem_framed [OF assms(1), of "[]" junk] assms(2) by auto
  moreover have "\<exists>con'. http_chunk_append_mem junk (Some con) [0] 0 = Some (0, Some con') \<and> con_holds files st_size con' (bs @ last_chunk)"
    using end_ok [OF assms(1), of junk "[0]"] assms(2) by (auto simp: body_end_def)
  ultimately show ?thesis using dechunk_last by simp
qed

theorem empty_piece_ends_body_witness:
  "\<exists>con'. http_chunk_append_mem (\<lambda>_. 9) (Some (init_con True)) [0] 1 = Some (0, Some con')
    \<and> con_holds Map.empty Map.empty con' ([] @ last_chunk)"
proof -
  have c: "hc_chunked (init_con True)" by (simp add: init_con_def)
  show ?thesis by (rule empty_piece_ends_body [OF init_con_holds c, THEN conjunct1])
qed

text \<open>C31: The line before a part of a file has at most eight digits, so that it gives the length of the part only modulo
  $2^{32}$: from 4 GiB on a reader is told a shorter piece than the one that follows.\<close>
theorem size_line_modulo:
  assumes "con_holds files st_size con bs" and "hc_chunked con"
    and "action_ok files st_size (Send_file fn start len)" and "0 < len"
  shows "\<exists>con' ds. http_chunk_append_file junk (Some con) fn start len = Some (0, Some con')
    \<and> con_holds files st_size con' (bs @ ds @ CRLF @ appended files (Send_file fn start len) @ CRLF)
    \<and> list_all hex_digit ds \<and> 1 \<le> length ds \<and> length ds \<le> 8 \<and> int (read_hex ds) = len mod 2 ^ 32"
proof -
  let ?t = "appended files (Send_file fn start len)"
  obtain ds where ds: "size_line (of_nat (length ?t)) = ds @ CRLF" "list_all hex_digit ds" "1 \<le> length ds" "length ds \<le> 8"
    "read_hex ds = unat (of_nat (length ?t) :: 64 word) mod 2 ^ 32"
    by (rule size_line_digits)
  obtain con' where c: "http_chunk_append_file junk (Some con) fn start len = Some (0, Some con')"
    "con_holds files st_size con' (bs @ encode_chunk ?t)"
    using append_file_framed [OF assms(1,3,4), of junk] assms(2) by (auto simp: framed_fun simp del: appended.simps)
  have n: "length ?t = nat len" using assms(3,4) by (auto split: option.splits)
  note ds(5)
  also have "unat (of_nat (length ?t) :: 64 word) mod 2 ^ 32 = nat len mod 2 ^ 64 mod 2 ^ 32"
    by (simp add: n unsigned_of_nat take_bit_eq_mod del: appended.simps)
  also have "\<dots> = nat len mod 2 ^ 32" by (intro mod_mod_cancel le_imp_power_dvd) simp
  finally have r: "int (read_hex ds) = len mod 2 ^ 32" using assms(4) by (simp add: zmod_int)
  show ?thesis
    by (intro exI [of _ con'] exI [of _ ds]) (use c ds(1-4) r in \<open>simp add: encode_chunk_def del: appended.simps\<close>)
qed

text \<open>A part of exactly 4 GiB: its line says zero, which ends the body.\<close>
theorem size_line_modulo_witness:
  "\<exists>con' ds. http_chunk_append_file (\<lambda>_. 9) (Some (init_con True)) (as_buffer [102]) 0 (2 ^ 32) = Some (0, Some con')
    \<and> con_holds [[102] \<mapsto> replicate (2 ^ 32) 7] [[102] \<mapsto> 2 ^ 32] con'
        ([] @ ds @ CRLF @ appended [[102] \<mapsto> replicate (2 ^ 32) 7] (Send_file (as_buffer [102]) 0 (2 ^ 32)) @ CRLF)
    \<and> list_all hex_digit ds \<and> 1 \<le> length ds \<and> length ds \<le> 8 \<and> int (read_hex ds) = 2 ^ 32 mod 2 ^ 32"
proof -
  have c: "hc_chunked (init_con True)" by (simp add: init_con_def)
  have "length (replicate (2 ^ 32) (7 :: byte)) = 2 ^ 32" by (simp only: length_replicate)
  then have "action_ok [[102] \<mapsto> replicate (2 ^ 32) 7] [[102] \<mapsto> 2 ^ 32] (Send_file (as_buffer [102]) 0 (2 ^ 32))"
    by (simp del: length_replicate)
  moreover have "(0 :: int) < 2 ^ 32" by simp
  ultimately show ?thesis by (rule size_line_modulo [OF init_con_holds c])
qed

end
