(* ===== verification/Key_Arrays.thy ===== *)
theory Key_Arrays
  imports Byte_Texts "HOL-Library.List_Lexorder"
begin

text \<open>
  array.c of lighttpd with its elements (data\_string.c, data\_count.c, data\_integer.c): the table
  of named values under every header list and every configuration. The elements stand in the order of
  their insertion; a second list of indices is sorted by the keys, without case, and searched by
  halving from the next power of two.

  An element holds its fields and, as a constructor, its class: the C code keeps the functions of the class
  as pointers in the element. The elements of an array are different objects. A read outside a list,
  of an empty slot or through a null pointer is a fault, and so is a failed assertion. The bytes and the
  indices of fresh memory are parameters (\<open>junk\<close>, \<open>sj\<close>), as is the alignment of the compared keys (\<open>al\<close>).
\<close>

section \<open>Elements\<close>

datatype data_type_t = TYPE_UNSET | TYPE_STRING | TYPE_COUNT | TYPE_ARRAY | TYPE_INTEGER | TYPE_FASTCGI | TYPE_CONFIG

datatype data_class = String buffer | Response buffer | Count int | Integer int

record data_unset =
  d_key :: buffer
  d_index_key :: bool
  d_class :: data_class

fun data_type :: "data_class \<Rightarrow> data_type_t" where
  "data_type (String v) = TYPE_STRING"
| "data_type (Response v) = TYPE_STRING"
| "data_type (Count n) = TYPE_COUNT"
| "data_type (Integer n) = TYPE_INTEGER"

definition data_string_init :: data_unset where
  "data_string_init = \<lparr>d_key = buffer_init, d_index_key = False, d_class = String buffer_init\<rparr>"

definition data_response_init :: data_unset where
  "data_response_init = data_string_init\<lparr>d_class := Response buffer_init\<rparr>"

definition data_count_init :: data_unset where
  "data_count_init = \<lparr>d_key = buffer_init, d_index_key = False, d_class = Count 1\<rparr>"

definition data_integer_init :: data_unset where
  "data_integer_init = \<lparr>d_key = buffer_init, d_index_key = False, d_class = Integer 0\<rparr>"

text \<open>The functions of the classes. A copy of a response is made by \<open>data_string_init\<close>: it is a plain string.\<close>

definition data_string_copy :: "(nat \<Rightarrow> byte) \<Rightarrow> data_unset \<Rightarrow> buffer \<Rightarrow> data_unset option" where
  "data_string_copy junk src v = do {
     (r, k) \<leftarrow> buffer_copy_string_buffer junk (Some buffer_init) (Some (d_key src));
     k \<leftarrow> k;
     (r, v) \<leftarrow> buffer_copy_string_buffer junk (Some buffer_init) (Some v);
     v \<leftarrow> v;
     Some \<lparr>d_key = k, d_index_key = d_index_key src, d_class = String v\<rparr>
   }"

definition data_count_copy :: "(nat \<Rightarrow> byte) \<Rightarrow> data_unset \<Rightarrow> int \<Rightarrow> data_unset option" where
  "data_count_copy junk src n = do {
     (r, k) \<leftarrow> buffer_copy_string_buffer junk (Some buffer_init) (Some (d_key src));
     k \<leftarrow> k;
     Some \<lparr>d_key = k, d_index_key = d_index_key src, d_class = Count n\<rparr>
   }"

definition data_integer_copy :: "(nat \<Rightarrow> byte) \<Rightarrow> data_unset \<Rightarrow> int \<Rightarrow> data_unset option" where
  "data_integer_copy junk src n = do {
     (r, k) \<leftarrow> buffer_copy_string_buffer junk (Some buffer_init) (Some (d_key src));
     k \<leftarrow> k;
     Some \<lparr>d_key = k, d_index_key = d_index_key src, d_class = Integer n\<rparr>
   }"

definition copy_element :: "(nat \<Rightarrow> byte) \<Rightarrow> data_unset \<Rightarrow> data_unset option" where
  "copy_element junk d = (case d_class d of
     String v \<Rightarrow> data_string_copy junk d v
   | Response v \<Rightarrow> data_string_copy junk d v
   | Count n \<Rightarrow> data_count_copy junk d n
   | Integer n \<Rightarrow> data_integer_copy junk d n)"

definition data_string_reset :: "data_unset \<Rightarrow> buffer \<Rightarrow> (buffer \<Rightarrow> data_class) \<Rightarrow> data_unset option" where
  "data_string_reset d v cls = do {
     k \<leftarrow> buffer_reset (Some (d_key d));
     k \<leftarrow> k;
     v \<leftarrow> buffer_reset (Some v);
     v \<leftarrow> v;
     Some (d\<lparr>d_key := k, d_class := cls v\<rparr>)
   }"

definition data_count_reset :: "data_unset \<Rightarrow> data_unset option" where
  "data_count_reset d = do {
     k \<leftarrow> buffer_reset (Some (d_key d));
     k \<leftarrow> k;
     Some (d\<lparr>d_key := k, d_class := Count 0\<rparr>)
   }"

definition data_integer_reset :: "data_unset \<Rightarrow> data_unset option" where
  "data_integer_reset d = do {
     k \<leftarrow> buffer_reset (Some (d_key d));
     k \<leftarrow> k;
     Some (d\<lparr>d_key := k, d_class := Integer 0\<rparr>)
   }"

definition reset_element :: "data_unset \<Rightarrow> data_unset option" where
  "reset_element d = (case d_class d of
     String v \<Rightarrow> data_string_reset d v String
   | Response v \<Rightarrow> data_string_reset d v Response
   | Count n \<Rightarrow> data_count_reset d
   | Integer n \<Rightarrow> data_integer_reset d)"

definition data_string_insert_dup :: "(nat \<Rightarrow> byte) \<Rightarrow> buffer \<Rightarrow> buffer \<Rightarrow> buffer option" where
  "data_string_insert_dup junk dst src =
     (if b_used dst \<noteq> 0 then do {
        (r, v) \<leftarrow> buffer_append_string_len junk (Some dst) (Some [44, 32, 0]) 2;
        (r, v) \<leftarrow> buffer_append_string_buffer junk v (Some src);
        v
      }
      else do {
        (r, v) \<leftarrow> buffer_copy_string_buffer junk (Some dst) (Some src);
        v
      })"

definition data_response_insert_dup :: "(nat \<Rightarrow> byte) \<Rightarrow> buffer \<Rightarrow> buffer \<Rightarrow> buffer \<Rightarrow> buffer option" where
  "data_response_insert_dup junk dst_key dst src =
     (if b_used dst \<noteq> 0 then do {
        (r, v) \<leftarrow> buffer_append_string_len junk (Some dst) (Some [13, 10, 0]) 2;
        (r, v) \<leftarrow> buffer_append_string_buffer junk v (Some dst_key);
        (r, v) \<leftarrow> buffer_append_string_len junk v (Some [58, 32, 0]) 2;
        (r, v) \<leftarrow> buffer_append_string_buffer junk v (Some src);
        v
      }
      else do {
        (r, v) \<leftarrow> buffer_copy_string_buffer junk (Some dst) (Some src);
        v
      })"

text \<open>An overflow of the signed counter is undefined: a fault.\<close>

definition data_count_insert_dup :: "int \<Rightarrow> int \<Rightarrow> int option" where
  "data_count_insert_dup dst src =
     (if - (2 ^ 31) \<le> dst + src \<and> dst + src < 2 ^ 31 then Some (dst + src) else None)"

text \<open>
  \<open>src->insert_dup(dst, src)\<close>: the class of the source decides; the destination has the same type. The result is
  the new destination.
\<close>

definition insert_dup :: "(nat \<Rightarrow> byte) \<Rightarrow> data_unset \<Rightarrow> data_unset \<Rightarrow> data_unset option" where
  "insert_dup junk dst src = (case (d_class src, d_class dst) of
     (String s, String v) \<Rightarrow> do { v \<leftarrow> data_string_insert_dup junk v s; Some (dst\<lparr>d_class := String v\<rparr>) }
   | (String s, Response v) \<Rightarrow> do { v \<leftarrow> data_string_insert_dup junk v s; Some (dst\<lparr>d_class := Response v\<rparr>) }
   | (Response s, String v) \<Rightarrow> do { v \<leftarrow> data_response_insert_dup junk (d_key dst) v s; Some (dst\<lparr>d_class := String v\<rparr>) }
   | (Response s, Response v) \<Rightarrow> do { v \<leftarrow> data_response_insert_dup junk (d_key dst) v s; Some (dst\<lparr>d_class := Response v\<rparr>) }
   | (Count s, Count n) \<Rightarrow> do { n \<leftarrow> data_count_insert_dup n s; Some (dst\<lparr>d_class := Count n\<rparr>) }
   | (Integer s, Integer n) \<Rightarrow> Some dst
   | _ \<Rightarrow> None)"

section \<open>The array\<close>

record array =
  a_data :: "data_unset option list"
  a_sorted :: "nat list"
  a_used :: nat
  a_size :: nat
  a_unique_ndx :: nat
  a_power :: nat
  a_weakref :: bool

definition item :: "'a list \<Rightarrow> nat \<Rightarrow> 'a option" where
  "item xs i = (if i < length xs then Some (xs ! i) else None)"

definition array_init :: array where
  "array_init = \<lparr>a_data = [], a_sorted = [], a_used = 0, a_size = 0, a_unique_ndx = 0, a_power = 1, a_weakref = False\<rparr>"

text \<open>A loop over slots that must not be empty, and one that leaves empty ones.\<close>

fun each_slot :: "('a \<Rightarrow> 'a option) \<Rightarrow> 'a option list \<Rightarrow> 'a option list option" where
  "each_slot f [] = Some []"
| "each_slot f (None # xs) = None"
| "each_slot f (Some x # xs) = do { y \<leftarrow> f x; ys \<leftarrow> each_slot f xs; Some (Some y # ys) }"

fun each_used_slot :: "('a \<Rightarrow> 'a option) \<Rightarrow> 'a option list \<Rightarrow> 'a option list option" where
  "each_used_slot f [] = Some []"
| "each_used_slot f (None # xs) = do { ys \<leftarrow> each_used_slot f xs; Some (None # ys) }"
| "each_used_slot f (Some x # xs) = do { y \<leftarrow> f x; ys \<leftarrow> each_used_slot f xs; Some (Some y # ys) }"

definition array_init_array :: "(nat \<Rightarrow> byte) \<Rightarrow> array \<Rightarrow> array option" where
  "array_init_array junk src =
     (if a_size src \<le> length (a_data src) \<and> a_size src \<le> length (a_sorted src)
      then do {
        d \<leftarrow> each_used_slot (copy_element junk) (take (a_size src) (a_data src));
        Some (array_init\<lparr>a_used := a_used src, a_size := a_size src, a_power := a_power src,
          a_unique_ndx := a_unique_ndx src, a_data := d, a_sorted := take (a_size src) (a_sorted src)\<rparr>)
      }
      else None)"

definition array_reset :: "array option \<Rightarrow> array option option" where
  "array_reset ap = (case ap of None \<Rightarrow> Some None | Some a \<Rightarrow> do {
     d \<leftarrow> (if \<not> a_weakref a
           then if a_used a \<le> length (a_data a)
                then do { d \<leftarrow> each_slot reset_element (take (a_used a) (a_data a)); Some (d @ drop (a_used a) (a_data a)) }
                else None
           else Some (a_data a));
     Some (Some (a\<lparr>a_data := d, a_used := 0\<rparr>))
   })"

definition array_pop :: "array \<Rightarrow> (data_unset option \<times> array) option" where
  "array_pop a = (if a_used a = 0 then None else do {
     let used = a_used a - 1;
     du \<leftarrow> item (a_data a) used;
     Some (du, a\<lparr>a_used := used, a_data := (a_data a)[used := None]\<rparr>)
   })"

text \<open>
  The search. \<open>i\<close> is halved each time; the body runs once more with 0. The result is the index of the
  element, or \<open>-1\<close>, and the position in the sorted list, which is not set for a null key.
\<close>

fun index_loop :: "bool \<Rightarrow> array \<Rightarrow> byte list \<Rightarrow> nat \<Rightarrow> nat \<Rightarrow> int \<Rightarrow> (int \<times> int) option" where
  "index_loop al a key keylen i pos = do {
     (found, pos) \<leftarrow>
       (if pos < 0 then Some (None, pos + int i)
        else if pos \<ge> int (a_used a) then Some (None, pos - int i)
        else do {
          j \<leftarrow> item (a_sorted a) (nat pos);
          slot \<leftarrow> item (a_data a) j;
          e \<leftarrow> slot;
          cmp \<leftarrow> buffer_caseless_compare al key keylen (area (d_key e)) (b_used (d_key e));
          if cmp = 0 then Some (Some j, pos)
          else if cmp < 0 then Some (None, pos - int i)
          else Some (None, pos + int i)
        });
     case found of Some j \<Rightarrow> Some (int j, pos)
     | None \<Rightarrow> if i = 0 then Some (- 1, pos) else index_loop al a key keylen (i div 2) pos
   }"

definition array_get_index :: "bool \<Rightarrow> array \<Rightarrow> byte list option \<Rightarrow> nat \<Rightarrow> (int \<times> int option) option" where
  "array_get_index al a keyp keylen = (case keyp of None \<Rightarrow> Some (- 1, None) | Some key \<Rightarrow> do {
     (ndx, pos) \<leftarrow> index_loop al a key keylen (a_power a div 2) (int (a_power a div 2));
     Some (ndx, Some pos)
   })"

definition array_get_element :: "bool \<Rightarrow> array \<Rightarrow> byte list \<Rightarrow> data_unset option option" where
  "array_get_element al a key = do {
     l \<leftarrow> strlen key;
     (ndx, pos) \<leftarrow> array_get_index al a (Some key) (l + 1);
     if ndx \<noteq> - 1 then item (a_data a) (nat ndx) else Some None
   }"

definition array_get_unused_element :: "array \<Rightarrow> data_type_t \<Rightarrow> (data_unset option \<times> array) option" where
  "array_get_unused_element a t =
     (if a_size a = 0 then Some (None, a)
      else if a_used a = a_size a then Some (None, a)
      else do {
        ds \<leftarrow> item (a_data a) (a_used a);
        case ds of Some d \<Rightarrow> Some (Some d, a\<lparr>a_data := (a_data a)[a_used a := None]\<rparr>) | None \<Rightarrow> Some (None, a)
      })"

definition INT_MAX :: nat where "INT_MAX = 2 ^ 31 - 1"

text \<open>Room for one more element; the new slots are empty, the new indices are not set.\<close>

definition array_grow :: "(nat \<Rightarrow> nat) \<Rightarrow> array \<Rightarrow> array" where
  "array_grow sj a =
     (if a_size a = 0
      then a\<lparr>a_size := 16, a_data := replicate 16 None, a_sorted := List.map sj [0 ..< 16]\<rparr>
      else if a_size a = a_used a
      then a\<lparr>a_size := a_size a + 16, a_data := take (a_used a) (a_data a) @ replicate 16 None,
             a_sorted := take (a_size a) (a_sorted a) @ List.map sj [0 ..< 16]\<rparr>
      else a)"

definition move_right :: "nat list \<Rightarrow> nat \<Rightarrow> nat \<Rightarrow> nat list option" where
  "move_right s pos ndx = (if pos \<le> ndx \<and> ndx < length s
     then Some (take (pos + 1) s @ take (ndx - pos) (drop pos s) @ drop (ndx + 1) s) else None)"

text \<open>The second half of the insertion: a new slot, and its index in the sorted order at the place that was found.\<close>

definition array_place :: "(nat \<Rightarrow> nat) \<Rightarrow> bool \<Rightarrow> array \<Rightarrow> data_unset \<Rightarrow> int \<Rightarrow> (int \<times> array) option" where
  "array_place sj al a str pos = do {
     let a = array_grow sj a;
     let n = a_used a;
     slot \<leftarrow> item (a_data a) n;
     let a = a\<lparr>a_data := (a_data a)[n := Some str], a_used := n + 1\<rparr>;
     pos \<leftarrow> (if pos \<noteq> int n
       then if pos < 0 then Some (pos + 1)
            else do {
              j \<leftarrow> item (a_sorted a) (nat pos);
              slot \<leftarrow> item (a_data a) j;
              e \<leftarrow> slot;
              cmp \<leftarrow> buffer_caseless_compare al (area (d_key str)) (b_used (d_key str)) (area (d_key e)) (b_used (d_key e));
              Some (if cmp > 0 then pos + 1 else pos)
            }
       else Some pos);
     s \<leftarrow> (if pos \<noteq> int n then move_right (a_sorted a) (nat pos) n else Some (a_sorted a));
     slot \<leftarrow> item s (nat pos);
     let a = a\<lparr>a_sorted := s[nat pos := n]\<rparr>;
     Some (0, if a_power a = n then a\<lparr>a_power := a_power a * 2\<rparr> else a)
   }"

definition array_insert_unique ::
    "(nat \<Rightarrow> byte) \<Rightarrow> (nat \<Rightarrow> nat) \<Rightarrow> bool \<Rightarrow> array \<Rightarrow> data_unset \<Rightarrow> (int \<times> array) option" where
  "array_insert_unique junk sj al a str = do {
     (a, str) \<leftarrow>
       (if b_used (d_key str) = 0 \<or> d_index_key str
        then do {
          (r, k) \<leftarrow> buffer_copy_long junk (Some (d_key str)) (int (a_unique_ndx a));
          k \<leftarrow> k;
          Some (a\<lparr>a_unique_ndx := a_unique_ndx a + 1\<rparr>, str\<lparr>d_key := k, d_index_key := True\<rparr>)
        }
        else Some (a, str));
     (ndx, rpos) \<leftarrow> array_get_index al a (b_ptr (d_key str)) (b_used (d_key str));
     let pos = (case rpos of None \<Rightarrow> 0 | Some pos \<Rightarrow> pos);
     if ndx \<noteq> - 1
     then do {
       slot \<leftarrow> item (a_data a) (nat ndx);
       old \<leftarrow> slot;
       if data_type (d_class old) = data_type (d_class str)
       then do {
         d \<leftarrow> insert_dup junk old str;
         Some (0, a\<lparr>a_data := (a_data a)[nat ndx := Some d]\<rparr>)
       }
       else Some (0, a)
     }
     else if a_used a + 1 > INT_MAX then Some (- 1, a)
     else array_place sj al a str pos
   }"

definition array_replace ::
    "(nat \<Rightarrow> byte) \<Rightarrow> (nat \<Rightarrow> nat) \<Rightarrow> bool \<Rightarrow> array \<Rightarrow> data_unset \<Rightarrow> (data_unset option \<times> array) option" where
  "array_replace junk sj al a du = do {
     (ndx, rpos) \<leftarrow> array_get_index al a (b_ptr (d_key du)) (b_used (d_key du));
     if ndx = - 1
     then do { (r, a) \<leftarrow> array_insert_unique junk sj al a du; Some (None, a) }
     else do {
       old \<leftarrow> item (a_data a) (nat ndx);
       Some (old, a\<lparr>a_data := (a_data a)[nat ndx := Some du]\<rparr>)
     }
   }"

declare index_loop.simps [simp del]

section \<open>The order of the keys\<close>

text \<open>
  Without the bytes from \<open>[\<close> to \<open>`\<close>, which stand between the upper and the lower case letters, the comparison is
  the lexicographic order of the folded characters. With them it is no order, see below.
\<close>

definition ordered_byte :: "byte \<Rightarrow> bool" where
  "ordered_byte c \<longleftrightarrow> \<not> (91 \<le> sint c \<and> sint c \<le> 96)"

definition fold_key :: "byte list \<Rightarrow> int list" where
  "fold_key s = List.map (\<lambda>c. sint (lower c)) s"

lemma folded_order:
  fixes x y :: int
  assumes "\<not> (91 \<le> x \<and> x \<le> 96)" "\<not> (91 \<le> y \<and> y \<le> 96)"
  shows "((if 65 \<le> x \<and> x \<le> 90 \<and> 97 \<le> y \<and> y \<le> 122 then x + 32 - y
      else if 97 \<le> x \<and> x \<le> 122 \<and> 65 \<le> y \<and> y \<le> 90 then x - (y + 32) else x - y) < 0)
    = ((if 65 \<le> x \<and> x \<le> 90 then x + 32 else x) < (if 65 \<le> y \<and> y \<le> 90 then y + 32 else y))"
  using assms by (cases "65 \<le> x \<and> x \<le> 90"; cases "65 \<le> y \<and> y \<le> 90"; simp; linarith)

lemma char_diff_order:
  "ordered_byte c \<Longrightarrow> ordered_byte d \<Longrightarrow>
   (char_diff c d < 0 \<longleftrightarrow> sint (lower c) < sint (lower d)) \<and> (char_diff c d = 0 \<longleftrightarrow> sint (lower c) = sint (lower d))"
proof -
  assume "ordered_byte c" "ordered_byte d"
  then have "char_diff c d < 0 \<longleftrightarrow> sint (lower c) < sint (lower d)"
    unfolding ordered_byte_def char_diff_int sint_lower Let_def by (rule folded_order)
  moreover have "lower c = lower d \<longleftrightarrow> sint (lower c) = sint (lower d)" by (metis scast_id scast_eq)
  ultimately show ?thesis using char_diff_eq by simp
qed

lemma nil_less: "([] < xs) = (xs \<noteq> [])" for xs :: "int list"
  by (cases xs) auto

lemma caseless_order:
  "\<forall>c \<in> set a. ordered_byte c \<Longrightarrow> \<forall>c \<in> set b. ordered_byte c \<Longrightarrow>
   (caseless a b < 0 \<longleftrightarrow> fold_key a < fold_key b) \<and> (caseless a b = 0 \<longleftrightarrow> fold_key a = fold_key b)"
proof (induction a b rule: caseless.induct)
  case (1 c a d b)
  have o: "char_diff c d < 0 \<longleftrightarrow> sint (lower c) < sint (lower d)" "char_diff c d = 0 \<longleftrightarrow> sint (lower c) = sint (lower d)"
    using char_diff_order [of c d] 1(2,3) by auto
  show ?case
  proof (cases "char_diff c d = 0")
    case True
    then show ?thesis using 1 o by (simp add: fold_key_def)
  next
    case False
    then show ?thesis using o by (auto simp: fold_key_def)
  qed
qed (auto simp: fold_key_def nil_less)

section \<open>Well-formed arrays\<close>

definition element_ok :: "data_unset \<Rightarrow> bool" where
  "element_ok d \<longleftrightarrow> string_ok (d_key d) \<and> b_used (d_key d) \<noteq> 0 \<and> b_used (d_key d) < 2 ^ 31
     \<and> (\<forall>c \<in> set (content (d_key d)). ordered_byte c)"

definition element_key :: "data_unset \<Rightarrow> int list" where
  "element_key d = fold_key (content (d_key d))"

definition key_at :: "array \<Rightarrow> nat \<Rightarrow> int list" where
  "key_at a j = element_key (the (a_data a ! j))"

definition order_of :: "array \<Rightarrow> nat list" where
  "order_of a = take (a_used a) (a_sorted a)"

definition array_ok :: "array \<Rightarrow> bool" where
  "array_ok a \<longleftrightarrow> length (a_data a) = a_size a \<and> length (a_sorted a) = a_size a \<and> a_used a \<le> a_size a
     \<and> a_used a \<le> a_power a \<and> (\<exists>k. a_power a = 2 ^ k)
     \<and> (\<forall>i < a_used a. \<exists>d. a_data a ! i = Some d \<and> element_ok d)
     \<and> distinct (order_of a) \<and> set (order_of a) = {..< a_used a}
     \<and> sorted_wrt (<) (List.map (key_at a) (order_of a))"

definition elements :: "array \<Rightarrow> data_unset list" where
  "elements a = List.map the (take (a_used a) (a_data a))"

lemma item_in [simp]: "i < length xs \<Longrightarrow> item xs i = Some (xs ! i)"
  by (simp add: item_def)

text \<open>The key at a place of the sorted order.\<close>

definition skey :: "array \<Rightarrow> nat \<Rightarrow> int list" where
  "skey a p = key_at a (order_of a ! p)"

lemma order_facts:
  assumes "array_ok a" "p < a_used a"
  shows "p < length (a_sorted a)" "a_sorted a ! p = order_of a ! p" "order_of a ! p < a_used a"
    "a_used a \<le> length (a_data a)" "length (order_of a) = a_used a"
proof -
  show "p < length (a_sorted a)" "a_used a \<le> length (a_data a)" "length (order_of a) = a_used a"
    "a_sorted a ! p = order_of a ! p"
    using assms by (simp_all add: array_ok_def order_of_def)
  then have "order_of a ! p \<in> set (order_of a)" using assms(2) by (metis nth_mem)
  then show "order_of a ! p < a_used a" using assms(1) by (simp add: array_ok_def)
qed

lemma skey_mono: "array_ok a \<Longrightarrow> p < q \<Longrightarrow> q < a_used a \<Longrightarrow> skey a p < skey a q"
  using sorted_wrt_nth_less [of "(<)" "List.map (key_at a) (order_of a)" p q] order_facts(5) [of a q]
  by (simp add: array_ok_def skey_def)

lemma element_at: "array_ok a \<Longrightarrow> j < a_used a \<Longrightarrow> \<exists>d. a_data a ! j = Some d \<and> element_ok d"
  by (simp add: array_ok_def)

lemma compare_key:
  assumes d: "element_ok d" and s: "length s < 2 ^ 31" "\<forall>c \<in> set s. ordered_byte c"
  shows "\<exists>r. buffer_caseless_compare al (s @ u) (length s) (area (d_key d)) (b_used (d_key d)) = Some (r :: int)
    \<and> (r < 0 \<longleftrightarrow> fold_key s < element_key d) \<and> (r = 0 \<longleftrightarrow> fold_key s = element_key d)"
proof -
  have bok: "buffer_ok (d_key d)" using d by (simp add: element_ok_def string_ok_def)
  have l: "length (content (d_key d)) = b_used (d_key d)" by (rule length_content [OF bok])
  have "area (d_key d) = content (d_key d) @ drop (b_used (d_key d)) (area (d_key d))" by (simp add: content_def)
  then have "buffer_caseless_compare al (s @ u) (length s) (area (d_key d)) (b_used (d_key d))
      = Some (caseless s (content (d_key d)))"
    using caseless_compare [OF s(1), of "content (d_key d)" al u "drop (b_used (d_key d)) (area (d_key d))"] d l
    by (simp add: element_ok_def)
  then show ?thesis using caseless_order [OF s(2), of "content (d_key d)"] d
    by (simp add: element_ok_def element_key_def)
qed

section \<open>The search\<close>

text \<open>Where a key is missing, and where it stands.\<close>

definition gap :: "array \<Rightarrow> int list \<Rightarrow> nat \<Rightarrow> bool" where
  "gap a x g \<longleftrightarrow> g \<le> a_used a \<and> (\<forall>p < g. skey a p < x) \<and> (\<forall>p. g \<le> p \<and> p < a_used a \<longrightarrow> x < skey a p)"

definition hit :: "array \<Rightarrow> int list \<Rightarrow> nat \<Rightarrow> bool" where
  "hit a x g \<longleftrightarrow> g < a_used a \<and> skey a g = x \<and> (\<forall>p < g. skey a p < x) \<and> (\<forall>p. g < p \<and> p < a_used a \<longrightarrow> x < skey a p)"

lemma gap_or_hit:
  assumes ok: "array_ok a"
  obtains g where "gap a x g" | g where "hit a x g"
proof -
  define g where "g = (LEAST p. a_used a \<le> p \<or> x \<le> skey a p)"
  have g: "a_used a \<le> g \<or> x \<le> skey a g" unfolding g_def by (rule LeastI [of _ "a_used a"]) simp
  have g_le: "g \<le> a_used a" unfolding g_def by (rule Least_le) simp
  have below: "skey a p < x" if "p < g" for p
    using not_less_Least [of p "\<lambda>p. a_used a \<le> p \<or> x \<le> skey a p"] that unfolding g_def by (simp add: not_le)
  have above: "x < skey a p" if "g < p" "p < a_used a" for p
    using skey_mono [OF ok that] g that by auto
  show thesis
  proof (cases "g < a_used a \<and> skey a g = x")
    case True
    then have "hit a x g" using below above unfolding hit_def by blast
    then show thesis by (rule that(2))
  next
    case False
    have "x < skey a p" if p: "g \<le> p" "p < a_used a" for p
    proof (cases "p = g")
      case True
      then show ?thesis using g p False by auto
    next
      case False
      then show ?thesis using above [of p] p by simp
    qed
    then have "gap a x g" using g_le below unfolding gap_def by blast
    then show thesis by (rule that(1))
  qed
qed

text \<open>One step, below the place and above it.\<close>

lemma compare_at:
  assumes ok: "array_ok a" and s: "length s < 2 ^ 31" "\<forall>c \<in> set s. ordered_byte c" and pos: "0 \<le> pos" "pos < int (a_used a)"
  shows "\<exists>r :: int. do {
      j \<leftarrow> item (a_sorted a) (nat pos);
      slot \<leftarrow> item (a_data a) j;
      e \<leftarrow> slot;
      cmp \<leftarrow> buffer_caseless_compare al (s @ u) (length s) (area (d_key e)) (b_used (d_key e));
      f j cmp } = f (order_of a ! nat pos) r
    \<and> (r < 0 \<longleftrightarrow> fold_key s < skey a (nat pos)) \<and> (r = 0 \<longleftrightarrow> fold_key s = skey a (nat pos))"
proof -
  have p: "nat pos < a_used a" using pos by linarith
  note o = order_facts [OF ok p]
  obtain d where d: "a_data a ! (order_of a ! nat pos) = Some d" "element_ok d"
    using element_at [OF ok o(3)] by blast
  have k: "skey a (nat pos) = element_key d" using d(1) by (simp add: skey_def key_at_def)
  obtain r where "buffer_caseless_compare al (s @ u) (length s) (area (d_key d)) (b_used (d_key d)) = Some r"
    "r < 0 \<longleftrightarrow> fold_key s < element_key d" "r = 0 \<longleftrightarrow> fold_key s = element_key d"
    using compare_key [OF d(2) s] by blast
  then show ?thesis using o d(1) k by (intro exI [of _ r]) (simp del: bind_Some_iff)
qed

definition next_step :: "bool \<Rightarrow> array \<Rightarrow> byte list \<Rightarrow> nat \<Rightarrow> nat \<Rightarrow> int \<Rightarrow> (int \<times> int) option" where
  "next_step al a key keylen i pos =
     (if i = 0 then Some (- 1, pos) else index_loop al a key keylen (i div 2) pos)"

lemma index_step:
  assumes ok: "array_ok a" and s: "length s < 2 ^ 31" "\<forall>c \<in> set s. ordered_byte c" and pos: "0 \<le> pos" "pos < int (a_used a)"
  obtains r :: int where "index_loop al a (s @ u) (length s) i pos =
      (if r = 0 then Some (int (order_of a ! nat pos), pos)
       else next_step al a (s @ u) (length s) i (if r < 0 then pos - int i else pos + int i))"
    "r < 0 \<longleftrightarrow> fold_key s < skey a (nat pos)" "r = 0 \<longleftrightarrow> fold_key s = skey a (nat pos)"
proof -
  obtain r :: int where r: "do {
      j \<leftarrow> item (a_sorted a) (nat pos);
      slot \<leftarrow> item (a_data a) j;
      e \<leftarrow> slot;
      cmp \<leftarrow> buffer_caseless_compare al (s @ u) (length s) (area (d_key e)) (b_used (d_key e));
      if cmp = 0 then Some (Some j, pos) else if cmp < 0 then Some (None, pos - int i) else Some (None, pos + int i) }
    = (if r = 0 then Some (Some (order_of a ! nat pos), pos) else if r < 0 then Some (None, pos - int i) else Some (None, pos + int i))"
    "r < 0 \<longleftrightarrow> fold_key s < skey a (nat pos)" "r = 0 \<longleftrightarrow> fold_key s = skey a (nat pos)"
    using compare_at [OF ok s pos, of al u
        "\<lambda>j cmp. if cmp = 0 then Some (Some j, pos) else if cmp < 0 then Some (None, pos - int i) else Some (None, pos + int i)"]
    by blast
  have "index_loop al a (s @ u) (length s) i pos =
      (if r = 0 then Some (int (order_of a ! nat pos), pos)
       else next_step al a (s @ u) (length s) i (if r < 0 then pos - int i else pos + int i))"
    using pos by (subst index_loop.simps) (simp only: r(1), simp add: next_step_def)
  from that [OF this r(2,3)] show thesis .
qed

lemma step_up:
  assumes ok: "array_ok a" and s: "length s < 2 ^ 31" "\<forall>c \<in> set s. ordered_byte c"
    and pos: "pos < int (a_used a)" "0 \<le> pos \<Longrightarrow> skey a (nat pos) < fold_key s"
  shows "index_loop al a (s @ u) (length s) i pos = next_step al a (s @ u) (length s) i (pos + int i)"
proof (cases "pos < 0")
  case True
  then show ?thesis by (subst index_loop.simps) (simp add: next_step_def)
next
  case False
  then have p: "0 \<le> pos" by simp
  obtain r :: int where r: "index_loop al a (s @ u) (length s) i pos =
      (if r = 0 then Some (int (order_of a ! nat pos), pos)
       else next_step al a (s @ u) (length s) i (if r < 0 then pos - int i else pos + int i))"
    "r < 0 \<longleftrightarrow> fold_key s < skey a (nat pos)" "r = 0 \<longleftrightarrow> fold_key s = skey a (nat pos)"
    by (rule index_step [OF ok s p pos(1)])
  then have "r \<noteq> 0" "\<not> r < 0" using pos(2) p by auto
  then show ?thesis using r(1) by simp
qed

lemma step_down:
  assumes ok: "array_ok a" and s: "length s < 2 ^ 31" "\<forall>c \<in> set s. ordered_byte c"
    and pos: "0 \<le> pos" "pos < int (a_used a) \<Longrightarrow> fold_key s < skey a (nat pos)"
  shows "index_loop al a (s @ u) (length s) i pos = next_step al a (s @ u) (length s) i (pos - int i)"
proof (cases "pos \<ge> int (a_used a)")
  case True
  then show ?thesis using pos(1) by (subst index_loop.simps) (simp add: next_step_def)
next
  case False
  then have p: "pos < int (a_used a)" by simp
  obtain r :: int where r: "index_loop al a (s @ u) (length s) i pos =
      (if r = 0 then Some (int (order_of a ! nat pos), pos)
       else next_step al a (s @ u) (length s) i (if r < 0 then pos - int i else pos + int i))"
    "r < 0 \<longleftrightarrow> fold_key s < skey a (nat pos)" "r = 0 \<longleftrightarrow> fold_key s = skey a (nat pos)"
    by (rule index_step [OF ok s pos(1) p])
  then have "r \<noteq> 0" "r < 0" using pos(2) p by auto
  then show ?thesis using r(1) by simp
qed

text \<open>A missing key: the interval that holds its place is halved until it has two elements.\<close>

lemma power_half: "(2 :: nat) ^ Suc m div 2 = 2 ^ m" by simp

lemma search_missing:
  assumes ok: "array_ok a" and s: "length s < 2 ^ 31" "\<forall>c \<in> set s. ordered_byte c" and g: "gap a (fold_key s) g"
  shows "int g \<in> {pos, pos + 1} \<Longrightarrow> index_loop al a (s @ u) (length s) 0 pos = Some (- 1, pos)"
    and "pos - 2 * 2 ^ m + 1 \<le> int g \<Longrightarrow> int g \<le> pos + 2 * 2 ^ m
      \<Longrightarrow> \<exists>pos'. index_loop al a (s @ u) (length s) (2 ^ m) pos = Some (- 1, pos') \<and> int g \<in> {pos', pos' + 1}"
proof -
  have up: "index_loop al a (s @ u) (length s) i pos = next_step al a (s @ u) (length s) i (pos + int i)"
    if "pos < int g" for i pos
  proof (rule step_up [OF ok s])
    show "pos < int (a_used a)" using that g by (simp add: gap_def)
    show "skey a (nat pos) < fold_key s" if "0 \<le> pos"
      using g \<open>pos < int g\<close> that unfolding gap_def by (metis nat_less_iff)
  qed
  have down: "index_loop al a (s @ u) (length s) i pos = next_step al a (s @ u) (length s) i (pos - int i)"
    if "int g \<le> pos" for i pos
  proof (rule step_down [OF ok s])
    show "0 \<le> pos" using that by simp
    show "fold_key s < skey a (nat pos)" if "pos < int (a_used a)"
      using g \<open>int g \<le> pos\<close> that unfolding gap_def by (metis nat_less_iff le_nat_iff of_nat_0_le_iff order_trans)
  qed
  have last: "index_loop al a (s @ u) (length s) 0 pos = Some (- 1, pos)" for pos
    using up [of pos 0] down [of pos 0] by (cases "pos < int g") (simp_all add: next_step_def)
  then show "int g \<in> {pos, pos + 1} \<Longrightarrow> index_loop al a (s @ u) (length s) 0 pos = Some (- 1, pos)" by blast
  show "pos - 2 * 2 ^ m + 1 \<le> int g \<Longrightarrow> int g \<le> pos + 2 * 2 ^ m
      \<Longrightarrow> \<exists>pos'. index_loop al a (s @ u) (length s) (2 ^ m) pos = Some (- 1, pos') \<and> int g \<in> {pos', pos' + 1}"
  proof (induction m arbitrary: pos)
    case 0
    show ?case
      using 0 up [of pos 1] down [of pos 1] last by (cases "pos < int g") (auto simp: next_step_def)
  next
    case (Suc m)
    show ?case
    proof (cases "pos < int g")
      case True
      have "index_loop al a (s @ u) (length s) (2 ^ Suc m) pos = index_loop al a (s @ u) (length s) (2 ^ m) (pos + 2 * 2 ^ m)"
        using up [OF True, of "2 ^ Suc m"] by (simp add: next_step_def)
      then show ?thesis using Suc.IH [of "pos + 2 * 2 ^ m"] Suc.prems True by simp
    next
      case False
      then have "index_loop al a (s @ u) (length s) (2 ^ Suc m) pos = index_loop al a (s @ u) (length s) (2 ^ m) (pos - 2 * 2 ^ m)"
        using down [of pos "2 ^ Suc m"] by (simp add: next_step_def)
      then show ?thesis using Suc.IH [of "pos - 2 * 2 ^ m"] Suc.prems False by simp
    qed
  qed
qed

text \<open>A key that is there: the interval is tighter, and the last position is its place.\<close>

lemma search_present:
  assumes ok: "array_ok a" and s: "length s < 2 ^ 31" "\<forall>c \<in> set s. ordered_byte c" and g: "hit a (fold_key s) g"
  shows "index_loop al a (s @ u) (length s) 0 (int g) = Some (int (order_of a ! g), int g)"
    and "pos - 2 * 2 ^ m + 1 \<le> int g \<Longrightarrow> int g \<le> pos + 2 * 2 ^ m - 1
      \<Longrightarrow> index_loop al a (s @ u) (length s) (2 ^ m) pos = Some (int (order_of a ! g), int g)"
proof -
  have up: "index_loop al a (s @ u) (length s) i pos = next_step al a (s @ u) (length s) i (pos + int i)"
    if "pos < int g" for i pos
  proof (rule step_up [OF ok s])
    show "pos < int (a_used a)" using that g by (simp add: hit_def)
    show "skey a (nat pos) < fold_key s" if "0 \<le> pos"
      using g \<open>pos < int g\<close> that unfolding hit_def by (metis nat_less_iff)
  qed
  have down: "index_loop al a (s @ u) (length s) i pos = next_step al a (s @ u) (length s) i (pos - int i)"
    if "int g < pos" for i pos
  proof (rule step_down [OF ok s])
    show "0 \<le> pos" using that by simp
    have "g < nat pos" using that by linarith
    moreover assume "pos < int (a_used a)"
    then have "nat pos < a_used a" using that by linarith
    ultimately show "fold_key s < skey a (nat pos)" using g unfolding hit_def by blast
  qed
  have found: "index_loop al a (s @ u) (length s) i (int g) = Some (int (order_of a ! g), int g)" for i
  proof -
    have p: "0 \<le> int g" "int g < int (a_used a)" using g by (simp_all add: hit_def)
    obtain r :: int where "index_loop al a (s @ u) (length s) i (int g) =
        (if r = 0 then Some (int (order_of a ! nat (int g)), int g)
         else next_step al a (s @ u) (length s) i (if r < 0 then int g - int i else int g + int i))"
      "r = 0 \<longleftrightarrow> fold_key s = skey a (nat (int g))"
      by (rule index_step [OF ok s p])
    then show ?thesis using g by (simp add: hit_def)
  qed
  then show "index_loop al a (s @ u) (length s) 0 (int g) = Some (int (order_of a ! g), int g)" .
  show "pos - 2 * 2 ^ m + 1 \<le> int g \<Longrightarrow> int g \<le> pos + 2 * 2 ^ m - 1
      \<Longrightarrow> index_loop al a (s @ u) (length s) (2 ^ m) pos = Some (int (order_of a ! g), int g)"
  proof (induction m arbitrary: pos)
    case 0
    then consider "pos = int g - 1" | "pos = int g" | "pos = int g + 1" by fastforce
    then show ?case
    proof cases
      case 1
      then show ?thesis using up [of pos 1] found [of 0] by (simp add: next_step_def)
    next
      case 2
      then show ?thesis using found [of 1] by simp
    next
      case 3
      then show ?thesis using down [of pos 1] found [of 0] by (simp add: next_step_def)
    qed
  next
    case (Suc m)
    consider "pos < int g" | "pos = int g" | "int g < pos" by linarith
    then show ?case
    proof cases
      case 1
      have "index_loop al a (s @ u) (length s) (2 ^ Suc m) pos = index_loop al a (s @ u) (length s) (2 ^ m) (pos + 2 * 2 ^ m)"
        using up [OF 1, of "2 ^ Suc m"] by (simp add: next_step_def)
      then show ?thesis using Suc.IH [of "pos + 2 * 2 ^ m"] Suc.prems 1 by simp
    next
      case 2
      then show ?thesis using found by simp
    next
      case 3
      have "index_loop al a (s @ u) (length s) (2 ^ Suc m) pos = index_loop al a (s @ u) (length s) (2 ^ m) (pos - 2 * 2 ^ m)"
        using down [OF 3, of "2 ^ Suc m"] by (simp add: next_step_def)
      then show ?thesis using Suc.IH [of "pos - 2 * 2 ^ m"] Suc.prems 3 by simp
    qed
  qed
qed

text \<open>The search from the next power of two.\<close>

lemma get_index_missing:
  assumes ok: "array_ok a" and s: "length s < 2 ^ 31" "\<forall>c \<in> set s. ordered_byte c" and g: "gap a (fold_key s) g"
  shows "\<exists>pos. array_get_index al a (Some (s @ u)) (length s) = Some (- 1, Some pos) \<and> int g \<in> {pos, pos + 1}"
proof -
  obtain k where k: "a_power a = 2 ^ k" "a_used a \<le> 2 ^ k" using ok by (auto simp: array_ok_def)
  have gu: "g \<le> 2 ^ k" using g k(2) by (simp add: gap_def)
  show ?thesis
  proof (cases k)
    case 0
    then have "int g \<in> {0, 0 + 1}" using gu by auto
    from search_missing(1) [OF ok s g this] this show ?thesis using k(1) 0 by (simp add: array_get_index_def)
  next
    case (Suc m)
    have "int g \<le> 2 * 2 ^ m" using gu Suc by (metis of_nat_le_iff of_nat_numeral of_nat_power power_Suc of_nat_mult)
    then have "(2 ^ m :: int) - 2 * 2 ^ m + 1 \<le> int g" "int g \<le> 2 ^ m + 2 * 2 ^ m"
      by (simp_all add: add_nonneg_pos order_trans [of _ 0])
    from search_missing(2) [OF ok s g this, of al u] show ?thesis
      using k(1) Suc by (auto simp: array_get_index_def)
  qed
qed

lemma get_index_present:
  assumes ok: "array_ok a" and s: "length s < 2 ^ 31" "\<forall>c \<in> set s. ordered_byte c" and g: "hit a (fold_key s) g"
  shows "array_get_index al a (Some (s @ u)) (length s) = Some (int (order_of a ! g), Some (int g))"
proof -
  obtain k where k: "a_power a = 2 ^ k" "a_used a \<le> 2 ^ k" using ok by (auto simp: array_ok_def)
  have gu: "g < 2 ^ k" using g k(2) by (simp add: hit_def)
  show ?thesis
  proof (cases k)
    case 0
    then have "g = 0" using gu by simp
    then show ?thesis using search_present(1) [OF ok s g, of al u] k(1) 0 by (simp add: array_get_index_def)
  next
    case (Suc m)
    have "int g < 2 * 2 ^ m" using gu Suc by (metis of_nat_less_iff of_nat_numeral of_nat_power power_Suc of_nat_mult)
    then have "(2 ^ m :: int) - 2 * 2 ^ m + 1 \<le> int g" "int g \<le> 2 ^ m + 2 * 2 ^ m - 1"
      by (simp_all add: add_nonneg_pos order_trans [of _ 0])
    from search_present(2) [OF ok s g this, of al u] show ?thesis
      using k(1) Suc by (simp add: array_get_index_def)
  qed
qed

section \<open>Lookup\<close>

lemma fold_key_eq: "fold_key s = fold_key t \<longleftrightarrow> List.map lower s = List.map lower t"
proof -
  have i: "inj (\<lambda>c :: byte. sint c)" by (rule injI) (metis scast_id scast_eq)
  have "fold_key s = List.map (\<lambda>c. sint c) (List.map lower s)" for s by (simp add: fold_key_def)
  then show ?thesis by (simp only: inj_map_eq_map [OF i])
qed

lemma element_key_eq: "element_ok d \<Longrightarrow> element_key d = fold_key (k @ [0]) \<longleftrightarrow> List.map lower (text_of (d_key d)) = List.map lower k"
  using content_text [of "d_key d"] by (simp add: element_ok_def element_key_def fold_key_eq)

lemma element_nth: "array_ok a \<Longrightarrow> j < a_used a \<Longrightarrow> a_data a ! j = Some (elements a ! j) \<and> element_ok (elements a ! j)"
proof -
  assume a: "array_ok a" "j < a_used a"
  obtain d where d: "a_data a ! j = Some d" "element_ok d" using element_at [OF a] by blast
  then have "elements a ! j = d" using a(2) order_facts(4) [OF a] by (simp add: elements_def)
  then show ?thesis using d by simp
qed

lemma length_elements: "array_ok a \<Longrightarrow> length (elements a) = a_used a"
  by (auto simp: elements_def array_ok_def)

lemma skey_element: "array_ok a \<Longrightarrow> p < a_used a \<Longrightarrow> skey a p = element_key (elements a ! (order_of a ! p))"
  using order_facts(3) [of a p] element_nth [of a "order_of a ! p"] by (simp add: skey_def key_at_def)

lemma every_index: "array_ok a \<Longrightarrow> j < a_used a \<Longrightarrow> \<exists>p < a_used a. order_of a ! p = j"
proof -
  assume a: "array_ok a" "j < a_used a"
  then have "j \<in> set (order_of a)" by (simp add: array_ok_def)
  then show ?thesis using order_facts(5) [OF a] by (simp add: in_set_conv_nth)
qed

lemma missing_iff:
  assumes ok: "array_ok a" and g: "gap a x g"
  shows "d \<in> set (elements a) \<Longrightarrow> element_key d \<noteq> x"
proof -
  assume "d \<in> set (elements a)"
  then obtain j where j: "j < a_used a" "d = elements a ! j"
    by (auto simp: in_set_conv_nth length_elements [OF ok])
  then obtain p where p: "p < a_used a" "order_of a ! p = j" using every_index [OF ok] by blast
  then have "skey a p < x \<or> x < skey a p" using g unfolding gap_def by (meson not_le)
  then have "skey a p \<noteq> x" by auto
  then show ?thesis using skey_element [OF ok p(1)] p(2) j(2) by simp
qed

lemma present_find:
  assumes ok: "array_ok a" and g: "hit a x g"
  shows "List.find (\<lambda>d. element_key d = x) (elements a) = Some (elements a ! (order_of a ! g))"
proof -
  have gu: "g < a_used a" "skey a g = x" using g by (simp_all add: hit_def)
  let ?j = "order_of a ! g"
  have j: "?j < a_used a" by (rule order_facts(3) [OF ok gu(1)])
  have "element_key (elements a ! i) \<noteq> x" if "i < ?j" for i
  proof -
    have iu: "i < a_used a" using that j by simp
    then obtain p where p: "p < a_used a" "order_of a ! p = i" using every_index [OF ok] by blast
    then have "p \<noteq> g" using that by auto
    then have "skey a p < x \<or> x < skey a p" using g p(1) unfolding hit_def by (meson nat_neq_iff)
    then have "skey a p \<noteq> x" by auto
    then show ?thesis using skey_element [OF ok p(1)] p(2) by simp
  qed
  moreover have "element_key (elements a ! ?j) = x" using gu(2) skey_element [OF ok gu(1)] by simp
  ultimately have "?j < length (elements a) \<and> element_key (elements a ! ?j) = x \<and> elements a ! ?j = elements a ! ?j
      \<and> (\<forall>i < ?j. element_key (elements a ! i) \<noteq> x)"
    using j length_elements [OF ok] by simp
  then show ?thesis unfolding find_Some_iff by (rule exI)
qed

lemma ordered_0 [simp]: "ordered_byte 0"
  by (simp add: ordered_byte_def)

lemma get_element:
  assumes ok: "array_ok a" and k: "0 \<notin> set k" "length k + 1 < 2 ^ 31" "\<forall>c \<in> set k. ordered_byte c"
  shows "array_get_element al a (k @ 0 # rest)
    = Some (List.find (\<lambda>d. List.map lower (text_of (d_key d)) = List.map lower k) (elements a))"
proof -
  have l: "strlen (k @ 0 # rest) = Some (length k)" using k(1) by (auto simp: strlen_def takeWhile_append)
  let ?s = "k @ [0]"
  have s: "length ?s < 2 ^ 31" "\<forall>c \<in> set ?s. ordered_byte c" using k by auto
  have f: "List.find (\<lambda>d. List.map lower (text_of (d_key d)) = List.map lower k) (elements a)
      = List.find (\<lambda>d. element_key d = fold_key ?s) (elements a)"
  proof (rule find_cong)
    fix d assume "d \<in> set (elements a)"
    then have "element_ok d" using element_nth [OF ok] by (auto simp: in_set_conv_nth length_elements [OF ok])
    then show "(List.map lower (text_of (d_key d)) = List.map lower k) = (element_key d = fold_key ?s)"
      by (simp add: element_key_eq)
  qed simp
  show ?thesis
  proof (cases rule: gap_or_hit [OF ok, of "fold_key ?s"])
    case (1 g)
    then have "List.find (\<lambda>d. element_key d = fold_key ?s) (elements a) = None"
      using missing_iff [OF ok] unfolding find_None_iff by blast
    then show ?thesis
      using get_index_missing [OF ok s 1, of al rest] f by (auto simp: array_get_element_def l)
  next
    case (2 g)
    then have gu: "g < a_used a" by (simp add: hit_def)
    have j: "order_of a ! g < a_used a" by (rule order_facts(3) [OF ok gu])
    have "item (a_data a) (order_of a ! g) = Some (Some (elements a ! (order_of a ! g)))"
      using element_nth [OF ok j] j order_facts(4) [OF ok gu] by simp
    moreover have "array_get_index al a (Some (k @ 0 # rest)) (length k + 1) = Some (int (order_of a ! g), Some (int g))"
      using get_index_present [OF ok s 2, of al rest] by simp
    ultimately show ?thesis
      unfolding f present_find [OF ok 2] by (simp add: array_get_element_def l del: bind_Some_iff)
  qed
qed

section \<open>Insertion\<close>

lemma moved:
  assumes "g \<le> n" "n < length s"
  shows "(do { s' \<leftarrow> (if int g \<noteq> int n then move_right s (nat (int g)) n else Some s);
             slot \<leftarrow> item s' (nat (int g)); f (s'[nat (int g) := n]) })
       = f (take g s @ n # drop g (take n s) @ drop (n + 1) s)"
proof (cases "g = n")
  case True
  then show ?thesis using assms by (simp add: upd_conv_take_nth_drop)
next
  case False
  then have "(take (g + 1) s @ take (n - g) (drop g s) @ drop (n + 1) s)[g := n] = take g s @ n # drop g (take n s) @ drop (n + 1) s"
    using assms by (simp add: take_Suc_conv_app_nth list_update_append drop_take)
  then show ?thesis using assms False by (simp add: move_right_def)
qed

lemma array_grow_ok:
  assumes ok: "array_ok a"
  shows "array_ok (array_grow sj a) \<and> a_used (array_grow sj a) = a_used a \<and> a_used a < a_size (array_grow sj a)
    \<and> elements (array_grow sj a) = elements a \<and> order_of (array_grow sj a) = order_of a \<and> a_power (array_grow sj a) = a_power a
    \<and> (\<forall>p < a_used a. skey (array_grow sj a) p = skey a p)"
proof -
  have lens: "length (a_data a) = a_size a" "length (a_sorted a) = a_size a" "a_used a \<le> a_size a" using ok by (simp_all add: array_ok_def)
  let ?b = "array_grow sj a"
  have u: "a_used ?b = a_used a" "a_power ?b = a_power a" by (simp_all add: array_grow_def)
  have sz: "a_used a < a_size ?b" "length (a_data ?b) = a_size ?b" "length (a_sorted ?b) = a_size ?b"
    using lens by (auto simp: array_grow_def)
  have d: "take (a_used a) (a_data ?b) = take (a_used a) (a_data a)" "order_of ?b = order_of a"
    using lens by (auto simp: array_grow_def order_of_def)
  have e: "elements ?b = elements a" using d(1) u(1) by (simp add: elements_def)
  have nth: "a_data ?b ! j = a_data a ! j" if "j < a_used a" for j
    using arg_cong [OF d(1), of "\<lambda>l. l ! j"] that by simp
  have k: "key_at ?b j = key_at a j" if "j < a_used a" for j using nth [OF that] by (simp add: key_at_def)
  have so: "set (order_of a) = {..< a_used a}" using ok by (simp add: array_ok_def)
  then have m: "List.map (key_at ?b) (order_of a) = List.map (key_at a) (order_of a)" using k by auto
  have "array_ok ?b"
    using ok u sz nth unfolding array_ok_def d(2) m by simp
  moreover have "skey ?b p = skey a p" if "p < a_used a" for p
    using k [OF order_facts(3) [OF ok that]] d(2) by (simp add: skey_def)
  ultimately show ?thesis using u sz e d by blast
qed

lemma sorted_insert:
  assumes "sorted_wrt (<) (List.map f xs)" "\<forall>p < g. f (xs ! p) < f y" "\<forall>p. g \<le> p \<and> p < length xs \<longrightarrow> f y < f (xs ! p)"
    "g \<le> length xs"
  shows "sorted_wrt (<) (List.map f (take g xs @ y # drop g xs))"
proof -
  have t: "f a < f y" if "a \<in> set (take g xs)" for a using that assms(2,4) by (auto simp: in_set_conv_nth)
  have d: "f y < f a" if "a \<in> set (drop g xs)" for a
  proof -
    obtain i where "i < length xs - g" "a = xs ! (g + i)" using \<open>a \<in> set (drop g xs)\<close> by (auto simp: in_set_conv_nth)
    then show ?thesis using assms(3,4) by simp
  qed
  have "sorted_wrt (<) (List.map f (take g xs @ drop g xs))" using assms(1) by simp
  then have s: "sorted_wrt (<) (List.map f (take g xs))" "sorted_wrt (<) (List.map f (drop g xs))"
    "\<forall>a \<in> set (take g xs). \<forall>b \<in> set (drop g xs). f a < f b"
    by (auto simp: sorted_wrt_append simp del: append_take_drop_id)
  then show ?thesis using t d by (auto simp: sorted_wrt_append)
qed

lemma array_ok_extend:
  assumes ok: "array_ok b" and room: "a_used b < a_size b" and g: "gap b (element_key str) g" and e: "element_ok str"
  defines "r \<equiv> b\<lparr>a_data := (a_data b)[a_used b := Some str], a_used := a_used b + 1,
    a_sorted := take g (a_sorted b) @ a_used b # drop g (take (a_used b) (a_sorted b)) @ drop (a_used b + 1) (a_sorted b)\<rparr>"
  shows "array_ok (if a_power b = a_used b then r\<lparr>a_power := a_power b * 2\<rparr> else r)"
    and "elements (if a_power b = a_used b then r\<lparr>a_power := a_power b * 2\<rparr> else r) = elements b @ [str]"
proof -
  let ?n = "a_used b" and ?S = "order_of b"
  let ?a = "if a_power b = ?n then r\<lparr>a_power := a_power b * 2\<rparr> else r"
  have len: "length (a_data b) = a_size b" "length (a_sorted b) = a_size b" "?n \<le> a_power b"
    using ok by (auto simp: array_ok_def)
  obtain k where k: "a_power b = 2 ^ k" using ok by (auto simp: array_ok_def)
  have S: "length ?S = ?n" "set ?S = {..< ?n}" "distinct ?S" "sorted_wrt (<) (List.map (key_at b) ?S)"
    using ok len room by (simp_all add: array_ok_def order_of_def)
  have gn: "g \<le> ?n" using g by (simp add: gap_def)
  have sel: "a_data ?a = (a_data b)[?n := Some str]" "a_used ?a = ?n + 1" "a_size ?a = a_size b"
    "a_sorted ?a = take g (a_sorted b) @ ?n # drop g (take ?n (a_sorted b)) @ drop (?n + 1) (a_sorted b)"
    "a_power ?a = (if a_power b = ?n then a_power b * 2 else a_power b)"
    by (simp_all add: r_def)
  have ord: "order_of ?a = take g ?S @ ?n # drop g ?S"
    using gn len room unfolding order_of_def sel by (simp add: min_def Suc_diff_le)
  have key_old: "key_at ?a j = key_at b j" if "j < ?n" for j using that unfolding key_at_def sel by simp
  have key_new: "key_at ?a ?n = element_key str" using room len unfolding key_at_def sel by simp
  have "List.map (key_at ?a) ?S = List.map (key_at b) ?S" using S(2) key_old by auto
  then have so: "sorted_wrt (<) (List.map (key_at ?a) ?S)" using S(4) by (rule ssubst)
  have sk: "key_at ?a (?S ! p) = skey b p" if "p < ?n" for p
    using that key_old [of "?S ! p"] order_facts(3) [OF ok that] by (simp add: skey_def)
  have sorted: "sorted_wrt (<) (List.map (key_at ?a) (order_of ?a))"
    unfolding ord
  proof (rule sorted_insert [OF so])
    show "\<forall>p < g. key_at ?a (?S ! p) < key_at ?a ?n"
      using g sk gn unfolding key_new gap_def by simp
    show "\<forall>p. g \<le> p \<and> p < length ?S \<longrightarrow> key_at ?a ?n < key_at ?a (?S ! p)"
      using g sk S(1) unfolding key_new gap_def by simp
    show "g \<le> length ?S" using gn S(1) by simp
  qed
  have "set (order_of ?a) = insert ?n (set (take g ?S @ drop g ?S))" unfolding ord by (simp del: append_take_drop_id)
  then have set: "set (order_of ?a) = {..< ?n + 1}" using S(2) by auto
  have "distinct (take g ?S @ drop g ?S)" "?n \<notin> set (take g ?S @ drop g ?S)" using S(2,3) by simp_all
  then have dist: "distinct (order_of ?a)" unfolding ord by (simp del: append_take_drop_id)
  have each: "\<forall>i < ?n + 1. \<exists>d. a_data ?a ! i = Some d \<and> element_ok d"
  proof (intro allI impI)
    fix i assume "i < ?n + 1"
    then show "\<exists>d. a_data ?a ! i = Some d \<and> element_ok d"
      using element_at [OF ok, of i] e room len unfolding sel by (cases "i = ?n") simp_all
  qed
  have pow: "\<exists>k. a_power ?a = 2 ^ k"
    unfolding sel using k by (cases "a_power b = ?n") (auto intro: exI [of _ "Suc k"])
  have le: "?n + 1 \<le> a_power ?a"
    unfolding sel using len(3) k by (cases "a_power b = ?n") auto
  show "array_ok ?a"
    unfolding array_ok_def using sorted set dist each pow le gn len room by (simp only: sel) simp
  show "elements ?a = elements b @ [str]"
    unfolding elements_def sel using len room by (simp add: take_Suc_conv_app_nth)
qed

lemma key_parts:
  assumes "element_ok d"
  obtains q u where "b_ptr (d_key d) = Some q" "q = content (d_key d) @ u" "area (d_key d) = content (d_key d) @ u"
    "b_used (d_key d) = length (content (d_key d))" "length (content (d_key d)) < 2 ^ 31"
    "\<forall>c \<in> set (content (d_key d)). ordered_byte c"
proof -
  have bok: "buffer_ok (d_key d)" using assms by (simp add: element_ok_def string_ok_def)
  have l: "length (content (d_key d)) = b_used (d_key d)" by (rule length_content [OF bok])
  obtain q where q: "b_ptr (d_key d) = Some q"
    using bok assms by (auto simp: buffer_ok_def element_ok_def split: option.splits)
  then have "q = content (d_key d) @ drop (b_used (d_key d)) q" "area (d_key d) = q" by (simp_all add: content_def area_def)
  with that [OF q] show thesis using l assms by (simp add: element_ok_def)
qed

text \<open>After the search the position is moved by one when the element there is smaller.\<close>

lemma adjust:
  assumes ok: "array_ok b" and d: "element_ok str" and g: "gap b (element_key str) g" "int g \<in> {pos, pos + 1}"
    and c: "a_sorted c = a_sorted b" "\<forall>j < a_used b. a_data c ! j = a_data b ! j" "length (a_data c) = length (a_data b)"
  shows "(if pos \<noteq> int (a_used b)
         then if pos < 0 then Some (pos + 1)
              else do {
                j \<leftarrow> item (a_sorted c) (nat pos);
                slot \<leftarrow> item (a_data c) j;
                e \<leftarrow> slot;
                cmp \<leftarrow> buffer_caseless_compare al (area (d_key str)) (b_used (d_key str)) (area (d_key e)) (b_used (d_key e));
                Some (if cmp > 0 then pos + 1 else pos)
              }
         else Some pos) = Some (int g)"
proof -
  have gn: "g \<le> a_used b" using g(1) by (simp add: gap_def)
  consider "pos = int (a_used b)" | "pos < 0" | "0 \<le> pos" "pos < int (a_used b)" using g(2) gn by fastforce
  then show ?thesis
  proof cases
    case 1
    then show ?thesis using g(2) gn by auto
  next
    case 2
    then show ?thesis using g(2) by auto
  next
    case 3
    then have p: "nat pos < a_used b" by linarith
    note o = order_facts [OF ok p]
    obtain q u where q: "area (d_key str) = content (d_key str) @ u" "b_used (d_key str) = length (content (d_key str))"
      "length (content (d_key str)) < 2 ^ 31" "\<forall>c \<in> set (content (d_key str)). ordered_byte c"
      using key_parts [OF d] by metis
    obtain e where e: "a_data b ! (order_of b ! nat pos) = Some e" "element_ok e"
      using element_at [OF ok o(3)] by blast
    have k: "skey b (nat pos) = element_key e" using e(1) by (simp add: skey_def key_at_def)
    obtain r where r: "buffer_caseless_compare al (area (d_key str)) (b_used (d_key str)) (area (d_key e)) (b_used (d_key e)) = Some r"
      "r < 0 \<longleftrightarrow> element_key str < skey b (nat pos)" "r = 0 \<longleftrightarrow> element_key str = skey b (nat pos)"
      using compare_key [OF e(2) q(3,4), of al u] unfolding q(1,2) k element_key_def [of str] by blast
    have "(if r > 0 then pos + 1 else pos) = int g"
    proof (cases "pos < int g")
      case True
      then have "nat pos < g" using 3(1) by linarith
      then have "skey b (nat pos) < element_key str" using g(1) by (simp add: gap_def)
      then have "r > 0" using r(2,3) by auto
      then show ?thesis using True g(2) by auto
    next
      case False
      then have gp: "pos = int g" using g(2) by auto
      then have "element_key str < skey b (nat pos)" using g(1) p by (simp add: gap_def)
      then have "\<not> r > 0" using r(2) by auto
      then show ?thesis using gp by simp
    qed
    moreover have "item (a_sorted c) (nat pos) = Some (order_of b ! nat pos)"
      "item (a_data c) (order_of b ! nat pos) = Some (Some e)"
      using o c e(1) by simp_all
    ultimately show ?thesis using 3 r(1) by (simp del: bind_Some_iff)
  qed
qed

lemma insert_new:
  assumes ok: "array_ok a" and d: "element_ok str" "\<not> d_index_key str" and g: "gap a (element_key str) g"
    and room: "a_used a < INT_MAX"
  shows "\<exists>a'. array_insert_unique junk sj al a str = Some (0, a') \<and> array_ok a' \<and> elements a' = elements a @ [str]"
proof -
  obtain q u where q: "b_ptr (d_key str) = Some q" "q = content (d_key str) @ u"
    "b_used (d_key str) = length (content (d_key str))"
    "length (content (d_key str)) < 2 ^ 31" "\<forall>c \<in> set (content (d_key str)). ordered_byte c"
    using key_parts [OF d(1)] by metis
  obtain pos where pos: "array_get_index al a (b_ptr (d_key str)) (b_used (d_key str)) = Some (- 1, Some pos)" "int g \<in> {pos, pos + 1}"
    using get_index_missing [OF ok q(4,5) g [unfolded element_key_def], of al u] unfolding q(1,2,3) by blast
  define b where "b = array_grow sj a"
  have b: "array_ok b" "a_used b = a_used a" "a_used b < a_size b" "elements b = elements a"
    "\<forall>p < a_used a. skey b p = skey a p"
    using array_grow_ok [OF ok, of sj] unfolding b_def by simp_all
  have gb: "gap b (element_key str) g" using g b(2,5) by (auto simp: gap_def)
  have gn: "g \<le> a_used b" using gb by (simp add: gap_def)
  have len: "length (a_data b) = a_size b" "length (a_sorted b) = a_size b" using b(1) by (auto simp: array_ok_def)
  define c where "c = b\<lparr>a_data := (a_data b)[a_used b := Some str], a_used := a_used b + 1\<rparr>"
  have c: "a_sorted c = a_sorted b" "\<forall>j < a_used b. a_data c ! j = a_data b ! j" "length (a_data c) = length (a_data b)"
    "a_power c = a_power b"
    by (simp_all add: c_def)
  note adj = adjust [OF b(1) d(1) gb pos(2) c(1-3), of al]
  let ?s = "take g (a_sorted b) @ a_used b # drop g (take (a_used b) (a_sorted b)) @ drop (a_used b + 1) (a_sorted b)"
  have mv: "(do { s' \<leftarrow> (if int g \<noteq> int (a_used b) then move_right (a_sorted c) (nat (int g)) (a_used b) else Some (a_sorted c));
      slot \<leftarrow> item s' (nat (int g)); f (s'[nat (int g) := a_used b]) }) = f ?s" for f :: "nat list \<Rightarrow> (int \<times> array) option"
    unfolding c(1) using moved [OF gn, of "a_sorted b" f] b(3) len by simp
  have used: "b_used (d_key str) \<noteq> 0" using d(1) by (simp add: element_ok_def)
  have slot: "item (a_data b) (a_used b) = Some (a_data b ! a_used b)" using b(3) len by simp
  have "array_insert_unique junk sj al a str = array_place sj al a str pos"
    using used d(2) pos(1) room by (simp add: array_insert_unique_def del: bind_Some_iff)
  also have "\<dots> = Some (0, if a_power (c\<lparr>a_sorted := ?s\<rparr>) = a_used b
      then (c\<lparr>a_sorted := ?s\<rparr>)\<lparr>a_power := a_power (c\<lparr>a_sorted := ?s\<rparr>) * 2\<rparr> else c\<lparr>a_sorted := ?s\<rparr>)"
    unfolding array_place_def b_def [symmetric] Let_def c_def [symmetric] slot bind.bind_lunit adj
    by (rule mv [of "\<lambda>s. Some (0, if a_power (c\<lparr>a_sorted := s\<rparr>) = a_used b
      then (c\<lparr>a_sorted := s\<rparr>)\<lparr>a_power := a_power (c\<lparr>a_sorted := s\<rparr>) * 2\<rparr> else c\<lparr>a_sorted := s\<rparr>)"])
  finally have fin: "array_insert_unique junk sj al a str
      = Some (0, if a_power b = a_used b then (c\<lparr>a_sorted := ?s\<rparr>)\<lparr>a_power := a_power b * 2\<rparr> else c\<lparr>a_sorted := ?s\<rparr>)"
    by (simp add: c(4))
  have eq: "c\<lparr>a_sorted := ?s\<rparr> = b\<lparr>a_data := (a_data b)[a_used b := Some str], a_used := a_used b + 1, a_sorted := ?s\<rparr>"
    by (simp add: c_def)
  from array_ok_extend [OF b(1,3) gb d(1)] show ?thesis unfolding fin eq b(4) by blast
qed

section \<open>Replacement and duplicates\<close>

lemma update_element:
  assumes ok: "array_ok a" and j: "j < a_used a" and d: "element_ok d" "element_key d = element_key (elements a ! j)"
  shows "array_ok (a\<lparr>a_data := (a_data a)[j := Some d]\<rparr>)
    \<and> elements (a\<lparr>a_data := (a_data a)[j := Some d]\<rparr>) = (elements a)[j := d]"
proof -
  let ?a = "a\<lparr>a_data := (a_data a)[j := Some d]\<rparr>"
  have l: "j < length (a_data a)" using order_facts(4) [OF ok j] j by linarith
  have k: "key_at ?a i = key_at a i" for i
    using element_nth [OF ok j] d(2) l by (cases "i = j") (simp_all add: key_at_def)
  have o: "order_of ?a = order_of a" by (simp add: order_of_def)
  have m: "List.map (key_at ?a) (order_of a) = List.map (key_at a) (order_of a)" by (simp add: k)
  have each: "\<forall>i < a_used a. \<exists>e. (a_data a)[j := Some d] ! i = Some e \<and> element_ok e"
    using element_at [OF ok] d(1) l by (auto simp: nth_list_update)
  have "array_ok ?a"
    using ok each unfolding array_ok_def o m by simp
  moreover have "elements ?a = (elements a)[j := d]"
    by (simp add: elements_def take_update_swap map_update)
  ultimately show ?thesis by simp
qed

lemma insert_dup_key: "insert_dup junk dst src = Some d \<Longrightarrow> d_key d = d_key dst \<and> d_index_key d = d_index_key dst"
  by (auto simp: insert_dup_def split: data_class.splits)

lemma index_of_present:
  assumes ok: "array_ok a" and d: "element_ok str" and g: "hit a (element_key str) g"
  shows "\<exists>j < a_used a. array_get_index al a (b_ptr (d_key str)) (b_used (d_key str)) = Some (int j, Some (int g))
    \<and> element_key (elements a ! j) = element_key str \<and> a_data a ! j = Some (elements a ! j) \<and> j < length (a_data a)"
proof -
  obtain q u where q: "b_ptr (d_key str) = Some q" "q = content (d_key str) @ u"
    "b_used (d_key str) = length (content (d_key str))"
    "length (content (d_key str)) < 2 ^ 31" "\<forall>c \<in> set (content (d_key str)). ordered_byte c"
    using key_parts [OF d] by metis
  have gu: "g < a_used a" "skey a g = element_key str" using g by (simp_all add: hit_def)
  let ?j = "order_of a ! g"
  have j: "?j < a_used a" by (rule order_facts(3) [OF ok gu(1)])
  have "array_get_index al a (b_ptr (d_key str)) (b_used (d_key str)) = Some (int ?j, Some (int g))"
    using get_index_present [OF ok q(4,5) g [unfolded element_key_def], of al u] unfolding q(1,2,3) .
  moreover have "element_key (elements a ! ?j) = element_key str" using skey_element [OF ok gu(1)] gu(2) by simp
  moreover have "?j < length (a_data a)" using order_facts(4) [OF ok gu(1)] j by linarith
  ultimately show ?thesis using j element_nth [OF ok j] by blast
qed

lemma insert_present:
  assumes ok: "array_ok a" and d: "element_ok str" "\<not> d_index_key str" and g: "hit a (element_key str) g"
  shows "\<exists>j < a_used a. element_key (elements a ! j) = element_key str
    \<and> (data_type (d_class (elements a ! j)) = data_type (d_class str) \<longrightarrow>
        (\<forall>e. insert_dup junk (elements a ! j) str = Some e \<longrightarrow>
          (\<exists>a'. array_insert_unique junk sj al a str = Some (0, a') \<and> array_ok a' \<and> elements a' = (elements a)[j := e])))
    \<and> (data_type (d_class (elements a ! j)) \<noteq> data_type (d_class str) \<longrightarrow> array_insert_unique junk sj al a str = Some (0, a))"
proof -
  obtain j where j: "j < a_used a" "array_get_index al a (b_ptr (d_key str)) (b_used (d_key str)) = Some (int j, Some (int g))"
    "element_key (elements a ! j) = element_key str" "a_data a ! j = Some (elements a ! j)" "j < length (a_data a)"
    using index_of_present [OF ok d(1) g] by blast
  have used: "b_used (d_key str) \<noteq> 0" using d(1) by (simp add: element_ok_def)
  have eq: "array_insert_unique junk sj al a str =
      (if data_type (d_class (elements a ! j)) = data_type (d_class str)
       then do { e \<leftarrow> insert_dup junk (elements a ! j) str; Some (0, a\<lparr>a_data := (a_data a)[j := Some e]\<rparr>) }
       else Some (0, a))"
    using used d(2) j(2,4,5) by (simp add: array_insert_unique_def del: bind_Some_iff)
  have "array_ok (a\<lparr>a_data := (a_data a)[j := Some e]\<rparr>) \<and> elements (a\<lparr>a_data := (a_data a)[j := Some e]\<rparr>) = (elements a)[j := e]"
    if e: "insert_dup junk (elements a ! j) str = Some e" for e
  proof (rule update_element [OF ok j(1)])
    have ej: "element_ok (elements a ! j)" using element_nth [OF ok j(1)] by simp
    show "element_ok e" "element_key e = element_key (elements a ! j)"
      using ej insert_dup_key [OF e] by (simp_all add: element_ok_def element_key_def)
  qed
  then show ?thesis using j(1,3) eq by (intro exI [of _ j]) auto
qed

lemma insert_dup_strings:
  assumes v: "string_ok v" "b_used v \<noteq> 0" and s: "string_ok s" and room: "b_size v + b_size s + 140 < 2 ^ 64"
    and dst: "d_class dst = String v" and src: "d_class src = String s"
  shows "\<exists>e v'. insert_dup junk dst src = Some e \<and> d_class e = String v' \<and> string_ok v'
    \<and> text_of v' = text_of v @ [44, 32] @ text_of s"
proof -
  have vb: "buffer_ok v" and sb: "buffer_ok s" using v s by (simp_all add: string_ok_def)
  have r1: "b_size v + 2 + 65 < 2 ^ 64" using room by simp
  obtain v1 where v1: "buffer_append_string_len junk (Some v) (Some [44, 32, 0]) 2 = Some (0, Some v1)"
    "string_ok v1" "text_of v1 = text_of v @ [44, 32]" "b_size v1 \<le> b_size v + 2 + 65"
    using append_string_len [OF vb _ r1, of "[44, 32, 0]" junk] by auto
  have "\<exists>v2. buffer_append_string_buffer junk (Some v1) (Some s) = Some (0, Some v2) \<and> string_ok v2
    \<and> text_of v2 = text_of v1 @ text_of s"
  proof (cases "b_used s = 0")
    case True
    then have "text_of s = []" using length_text [OF sb] by simp
    then show ?thesis using True v1(2) by (simp add: buffer_append_string_buffer_def)
  next
    case False
    obtain q rest where q: "b_ptr s = Some q" "q = text_of s @ 0 # rest" "b_used s = length (text_of s) + 1"
      using string_area [OF s False] by metis
    have "b_used s \<le> b_size s" using length_area [OF sb] by simp
    then have r2: "b_size v1 + length (text_of s) + 65 < 2 ^ 64" using room v1(4) q(3) by simp
    have b1: "buffer_ok v1" using v1(2) by (simp add: string_ok_def)
    have le: "length (text_of s) \<le> length q" using q(2) by simp
    from append_string_len [OF b1 le r2, of junk] obtain v2 where
      "buffer_append_string_len junk (Some v1) (Some q) (length (text_of s)) = Some (0, Some v2)"
      "length (text_of s) = 0 \<longrightarrow> v2 = v1" "length (text_of s) \<noteq> 0 \<longrightarrow> string_ok v2"
      "text_of v2 = text_of v1 @ take (length (text_of s)) q" by blast
    then show ?thesis using q v1(2) by (auto simp: buffer_append_string_buffer_def)
  qed
  then show ?thesis using v(2) v1 dst src
    by (auto simp: insert_dup_def data_string_insert_dup_def)
qed

section \<open>Filling an array\<close>

fun insert_all ::
    "(nat \<Rightarrow> byte) \<Rightarrow> (nat \<Rightarrow> nat) \<Rightarrow> bool \<Rightarrow> array \<Rightarrow> data_unset list \<Rightarrow> array option" where
  "insert_all junk sj al a [] = Some a"
| "insert_all junk sj al a (d # ds) = do { (r, a) \<leftarrow> array_insert_unique junk sj al a d; insert_all junk sj al a ds }"

definition name_of :: "data_unset \<Rightarrow> byte list" where
  "name_of d = List.map lower (text_of (d_key d))"

lemma element_key_name: "element_ok d \<Longrightarrow> element_ok e \<Longrightarrow> element_key d = element_key e \<longleftrightarrow> name_of d = name_of e"
proof -
  assume d: "element_ok d" and e: "element_ok e"
  have "content (d_key e) = text_of (d_key e) @ [0]" using e content_text by (simp add: element_ok_def)
  then have "element_key e = fold_key (text_of (d_key e) @ [0])" by (simp add: element_key_def)
  then show ?thesis using element_key_eq [OF d] by (simp add: name_of_def)
qed

lemma elements_ok: "array_ok a \<Longrightarrow> d \<in> set (elements a) \<Longrightarrow> element_ok d"
  using element_nth [of a] by (auto simp: in_set_conv_nth length_elements)

lemma array_init_ok: "array_ok array_init \<and> elements array_init = []"
  by (auto simp: array_init_def array_ok_def order_of_def elements_def intro: exI [of _ 0])

lemma insert_all_ok:
  assumes "array_ok a" "\<forall>d \<in> set ds. element_ok d \<and> \<not> d_index_key d" "distinct (List.map name_of (elements a @ ds))"
    "a_used a + length ds \<le> INT_MAX"
  shows "\<exists>a'. insert_all junk sj al a ds = Some a' \<and> array_ok a' \<and> elements a' = elements a @ ds"
  using assms
proof (induction ds arbitrary: a)
  case (Cons d ds)
  have d: "element_ok d" "\<not> d_index_key d" using Cons.prems(2) by auto
  have new: "element_key e \<noteq> element_key d" if e: "e \<in> set (elements a)" for e
  proof -
    have "name_of e \<in> name_of ` set (elements a)" using e by (rule imageI)
    moreover have "name_of d \<notin> name_of ` set (elements a)" using Cons.prems(3) by simp
    ultimately have "name_of e \<noteq> name_of d" by metis
    then show ?thesis using element_key_name [OF elements_ok [OF Cons.prems(1) e] d(1)] by simp
  qed
  obtain g where g: "gap a (element_key d) g"
  proof (cases rule: gap_or_hit [OF Cons.prems(1), of "element_key d"])
    case (2 g)
    obtain j where "j < a_used a" "element_key (elements a ! j) = element_key d"
      using index_of_present [OF Cons.prems(1) d(1) 2] by blast
    then show ?thesis using new [of "elements a ! j"] length_elements [OF Cons.prems(1)] by simp
  qed
  have room: "a_used a < INT_MAX" using Cons.prems(4) by simp
  obtain a1 where a1: "array_insert_unique junk sj al a d = Some (0, a1)" "array_ok a1" "elements a1 = elements a @ [d]"
    using insert_new [OF Cons.prems(1) d g room] by blast
  have u: "a_used a1 = a_used a + 1"
    using length_elements [OF a1(2)] length_elements [OF Cons.prems(1)] a1(3) by simp
  show ?case
    using Cons.IH [OF a1(2)] Cons.prems(2-4) a1 u by simp
qed simp

lemma keys_unique:
  assumes ok: "array_ok a" and ij: "i < a_used a" "j < a_used a" and eq: "element_key (elements a ! i) = element_key (elements a ! j)"
  shows "i = j"
proof -
  obtain p q where p: "p < a_used a" "order_of a ! p = i" and q: "q < a_used a" "order_of a ! q = j"
    using every_index [OF ok] ij by metis
  have "skey a p = skey a q" using skey_element [OF ok p(1)] skey_element [OF ok q(1)] p(2) q(2) eq by simp
  then have "p = q" using skey_mono [OF ok, of p q] skey_mono [OF ok, of q p] p(1) q(1) by (cases p q rule: linorder_cases) auto
  then show ?thesis using p(2) q(2) by simp
qed

text \<open>An element with a name and a text, for the instances below.\<close>

definition named :: "byte list \<Rightarrow> byte list \<Rightarrow> data_unset" where
  "named k v = \<lparr>d_key = as_buffer k, d_index_key = False, d_class = String (as_buffer v)\<rparr>"

lemma named [simp]: "d_key (named k v) = as_buffer k" "d_index_key (named k v) = False"
  "d_class (named k v) = String (as_buffer v)" "name_of (named k v) = List.map lower k"
  by (simp_all add: named_def name_of_def)

lemma content_as_buffer [simp]: "content (as_buffer k) = k @ [0]"
  by (simp add: as_buffer_def content_def area_def)

lemma named_ok: "length k + 1 < 2 ^ 31 \<Longrightarrow> \<forall>c \<in> set k. ordered_byte c \<Longrightarrow> element_ok (named k v)"
  by (auto simp: element_ok_def)

section \<open>Properties\<close>

text \<open>C34: An array is a table from names, taken without case, to elements: filled with elements of different names
  it holds them in the order of their insertion, its search order stays sorted, and the search by halving
  finds exactly the element with the name asked for, and none when there is none. (Names
  without the characters between \<open>Z\<close> and \<open>a\<close>.)\<close>
theorem array_is_table:
  assumes "\<forall>d \<in> set ds. element_ok d \<and> \<not> d_index_key d" and "distinct (List.map name_of ds)" and "length ds \<le> INT_MAX"
    and "0 \<notin> set k" and "length k + 1 < 2 ^ 31" and "\<forall>c \<in> set k. ordered_byte c"
  shows "\<exists>a. insert_all junk sj al array_init ds = Some a \<and> array_ok a \<and> elements a = ds
    \<and> array_get_element al' a (k @ 0 # rest) = Some (List.find (\<lambda>d. name_of d = List.map lower k) ds)"
proof -
  have i: "array_ok array_init" "elements array_init = []" "a_used array_init = 0"
    using array_init_ok by (simp_all add: array_init_def)
  obtain a where a: "insert_all junk sj al array_init ds = Some a" "array_ok a" "elements a = ds"
    using insert_all_ok [OF i(1) assms(1), of junk sj al] i(2,3) assms(2,3) by auto
  then show ?thesis using get_element [OF a(2) assms(4-6), of al' rest] by (simp add: name_of_def)
qed

lemma array_is_table_witness:
  "\<exists>a. insert_all (\<lambda>_. 0) (\<lambda>_. 9) True array_init [named [72, 111, 115, 116] [97], named [65, 103, 101] [98]] = Some a
    \<and> array_get_element False a [104, 79, 83, 84, 0] = Some (Some (named [72, 111, 115, 116] [97]))"
proof -
  let ?ds = "[named [72, 111, 115, 116] [97], named [65, 103, 101] [98]]"
  have ok: "\<forall>d \<in> set ?ds. element_ok d \<and> \<not> d_index_key d"
    by (simp add: named_ok ordered_byte_def)
  have k: "\<forall>c \<in> set [104, 79, 83, 84 :: byte]. ordered_byte c" by (simp add: ordered_byte_def)
  have d: "distinct (List.map name_of ?ds)" by (simp add: lower_def is_upper_def)
  have z: "(0 :: byte) \<notin> set [104, 79, 83, 84]" "length [104, 79, 83, 84 :: byte] + 1 < 2 ^ 31" "length ?ds \<le> INT_MAX"
    by (simp_all add: INT_MAX_def)
  show ?thesis
    using array_is_table [OF ok d z(3,1,2) k, of "\<lambda>_. 0" "\<lambda>_. 9" True False "[]"] by (auto simp: lower_def is_upper_def)
qed

text \<open>A text that is inserted under a name that the array already has is appended to the text there,
  after a comma and a space, and nothing else changes: this is how repeated header lines are
  joined.\<close>
theorem array_joins_duplicates:
  assumes "array_ok a" and "j < a_used a" and "element_ok str" and "\<not> d_index_key str" and "name_of str = name_of (elements a ! j)"
    and "d_class (elements a ! j) = String v" and "string_ok v" and "b_used v \<noteq> 0"
    and "d_class str = String s" and "string_ok s" and "b_size v + b_size s + 140 < 2 ^ 64"
  shows "\<exists>a' v'. array_insert_unique junk sj al a str = Some (0, a') \<and> array_ok a'
    \<and> elements a' = (elements a)[j := (elements a ! j)\<lparr>d_class := String v'\<rparr>]
    \<and> text_of v' = text_of v @ [44, 32] @ text_of s"
proof -
  have ej: "element_ok (elements a ! j)" using element_nth [OF assms(1,2)] by simp
  have key: "element_key (elements a ! j) = element_key str" using element_key_name [OF ej assms(3)] assms(5) by simp
  obtain g where g: "hit a (element_key str) g"
  proof (cases rule: gap_or_hit [OF assms(1), of "element_key str"])
    case (1 g)
    then show ?thesis using missing_iff [OF assms(1) 1, of "elements a ! j"] key assms(2) length_elements [OF assms(1)] by simp
  qed
  obtain i where i: "i < a_used a" "element_key (elements a ! i) = element_key str"
    "data_type (d_class (elements a ! i)) = data_type (d_class str) \<longrightarrow>
        (\<forall>e. insert_dup junk (elements a ! i) str = Some e \<longrightarrow>
          (\<exists>a'. array_insert_unique junk sj al a str = Some (0, a') \<and> array_ok a' \<and> elements a' = (elements a)[i := e]))"
    using insert_present [OF assms(1,3,4) g, of junk sj al] by blast
  have ij: "i = j" using keys_unique [OF assms(1) i(1) assms(2)] i(2) key by simp
  obtain e v' where e: "insert_dup junk (elements a ! j) str = Some e" "d_class e = String v'" "text_of v' = text_of v @ [44, 32] @ text_of s"
    using insert_dup_strings [OF assms(7,8,10,11,6,9), of junk] by blast
  have "e = (elements a ! j)\<lparr>d_class := String v'\<rparr>"
    using insert_dup_key [OF e(1)] e(2) by (cases e; cases "elements a ! j") simp
  then show ?thesis using i(3) ij e assms(6,9) by auto
qed

lemma array_joins_duplicates_witness:
  "\<exists>a a' v'. insert_all (\<lambda>_. 0) (\<lambda>_. 9) True array_init [named [65] [97]] = Some a
    \<and> array_insert_unique (\<lambda>_. 0) (\<lambda>_. 9) True a (named [65] [98]) = Some (0, a')
    \<and> text_of v' = [97, 44, 32, 98] \<and> elements a' = [named [65] [97]\<lparr>d_class := String v'\<rparr>]"
proof -
  have ok: "\<forall>d \<in> set [named [65] [97]]. element_ok d \<and> \<not> d_index_key d" and ok': "element_ok (named [65] [98])"
    by (simp_all add: named_ok ordered_byte_def)
  obtain a where a: "insert_all (\<lambda>_. 0) (\<lambda>_. 9) True array_init [named [65] [97]] = Some a" "array_ok a" "elements a = [named [65] [97]]"
    using insert_all_ok [OF _ ok, of array_init "\<lambda>_. 0" "\<lambda>_. 9" True] array_init_ok by (auto simp: array_init_def INT_MAX_def)
  have u: "0 < a_used a" using length_elements [OF a(2)] a(3) by simp
  show ?thesis
    using array_joins_duplicates [OF a(2) u ok', of "as_buffer [97]" "as_buffer [98]" "\<lambda>_. 0" "\<lambda>_. 9" True] a(1,3) by auto
qed

lemma compare_short:
  "length a < 2 ^ 31 \<Longrightarrow> length b < 2 ^ 31 \<Longrightarrow> m = length a \<Longrightarrow> n = length b
   \<Longrightarrow> buffer_caseless_compare al a m b n = Some (caseless a b)"
  using caseless_compare [of a b al "[]" "[]"] by simp


text \<open>Removing the last element leaves its index in the search order: the next search reads an empty slot.\<close>

lemma array_pop_fault:
  "do {
     a \<leftarrow> insert_all (\<lambda>_. 0) (\<lambda>_. 0) False array_init [named [98] [49], named [97] [50]];
     (d, a) \<leftarrow> array_pop a;
     array_get_element False a [98, 0]
   } = None"
  by (simp add: array_init_def named_def as_buffer_def area_def elements_def
    array_insert_unique_def array_place_def array_grow_def array_get_index_def array_get_element_def array_pop_def
    move_right_def item_def INT_MAX_def strlen_def compare_short char_diff_def is_upper_def is_lower_def
    index_loop.simps [of _ _ _ _ 0] index_loop.simps [of _ _ _ _ "Suc 0"] index_loop.simps [of _ _ _ _ 2] Let_def del: bind_Some_iff)

end
