(* ===== verification/Buffer_Arrays.thy ===== *)
theory Buffer_Arrays
  imports Byte_Buffers
begin

text \<open>
  The array of buffers in lighttpd's buffer.c: slots that keep their buffers for reuse when the array is
  reset. A buffer that is handed out is named by the index of its slot; the contents of fresh slots are set
  to null pointers by the code, so no parameter stands for them.
\<close>

record buffer_array =
  ba_ptr :: "buffer option list"
  ba_used :: nat
  ba_size :: nat

definition buffer_array_init :: buffer_array where
  "buffer_array_init = \<lparr>ba_ptr = [], ba_used = 0, ba_size = 0\<rparr>"

text \<open>The loop over the first slots; a null pointer in a slot is left alone by \<open>buffer_reset\<close>.\<close>

fun reset_slots :: "nat \<Rightarrow> buffer option list \<Rightarrow> buffer option list option" where
  "reset_slots 0 bs = Some bs"
| "reset_slots (Suc n) [] = None"
| "reset_slots (Suc n) (b # bs) = do { b \<leftarrow> buffer_reset b; bs \<leftarrow> reset_slots n bs; Some (b # bs) }"

definition buffer_array_reset :: "buffer_array option \<Rightarrow> buffer_array option option" where
  "buffer_array_reset ap = (case ap of None \<Rightarrow> Some None | Some a \<Rightarrow> do {
     bs \<leftarrow> reset_slots (ba_used a) (ba_ptr a);
     Some (Some (a\<lparr>ba_ptr := bs, ba_used := 0\<rparr>))
   })"

definition buffer_array_append_get_buffer :: "buffer_array \<Rightarrow> (nat \<times> buffer_array) option" where
  "buffer_array_append_get_buffer a = do {
     let a = (if ba_size a = 0
       then a\<lparr>ba_size := 16, ba_ptr := replicate 16 None\<rparr>
       else if ba_size a = ba_used a
       then a\<lparr>ba_size := ba_size a + 16, ba_ptr := take (ba_used a) (ba_ptr a) @ replicate 16 None\<rparr>
       else a);
     let n = ba_used a;
     slot \<leftarrow> (if n < length (ba_ptr a) then Some (ba_ptr a ! n) else None);
     let b = (case slot of None \<Rightarrow> buffer_init | Some b \<Rightarrow> b);
     Some (n, a\<lparr>ba_ptr := (ba_ptr a)[n := Some (b\<lparr>b_used := 0\<rparr>)], ba_used := n + 1\<rparr>)
   }"

definition buffer_array_ok :: "buffer_array \<Rightarrow> bool" where
  "buffer_array_ok a \<longleftrightarrow> length (ba_ptr a) = ba_size a \<and> ba_used a \<le> ba_size a
     \<and> (\<forall>i < ba_used a. ba_ptr a ! i \<noteq> None) \<and> (\<forall>b. Some b \<in> set (ba_ptr a) \<longrightarrow> buffer_ok b)"

lemma reset_slots_ok:
  "n \<le> length bs \<Longrightarrow> \<forall>b. Some b \<in> set bs \<longrightarrow> buffer_ok b
   \<Longrightarrow> \<exists>bs'. reset_slots n bs = Some bs' \<and> length bs' = length bs \<and> (\<forall>b. Some b \<in> set bs' \<longrightarrow> buffer_ok b)"
proof (induction bs arbitrary: n)
  case (Cons b bs)
  show ?case
  proof (cases n)
    case 0
    then show ?thesis using Cons.prems by simp
  next
    case (Suc m)
    obtain bs' where bs': "reset_slots m bs = Some bs'" "length bs' = length bs" "\<forall>b. Some b \<in> set bs' \<longrightarrow> buffer_ok b"
      using Cons.IH [of m] Cons.prems Suc by auto
    show ?thesis
    proof (cases b)
      case None
      then show ?thesis using bs' Suc by (simp add: buffer_reset_def)
    next
      case (Some c)
      then have "buffer_ok c" using Cons.prems(2) by simp
      from reset [OF this] obtain c' where "buffer_reset b = Some (Some c')" "buffer_ok c'"
        unfolding Some by (auto simp: string_ok_def)
      then show ?thesis using bs' Suc by auto
    qed
  qed
qed simp

lemma buffer_array_init_ok: "buffer_array_ok buffer_array_init"
  by (simp add: buffer_array_ok_def buffer_array_init_def)

lemma buffer_array_reset_ok:
  "buffer_array_ok a \<Longrightarrow> \<exists>a'. buffer_array_reset (Some a) = Some (Some a') \<and> buffer_array_ok a' \<and> ba_used a' = 0"
  using reset_slots_ok [of "ba_used a" "ba_ptr a"] by (auto simp: buffer_array_ok_def buffer_array_reset_def)

lemma used_0_ok: "buffer_ok b \<Longrightarrow> buffer_ok (b\<lparr>b_used := 0\<rparr>)"
  by (auto simp: buffer_ok_def split: option.splits)

lemma empty_ok: "buffer_ok buffer_init"
  by (simp add: buffer_init_def buffer_ok_def)

lemma append_get_ok:
  assumes ok: "buffer_array_ok a"
  shows "\<exists>a' b. buffer_array_append_get_buffer a = Some (ba_used a, a') \<and> buffer_array_ok a' \<and> ba_used a' = ba_used a + 1
    \<and> ba_ptr a' ! ba_used a = Some b \<and> b_used b = 0 \<and> (\<forall>i < ba_used a. ba_ptr a' ! i = ba_ptr a ! i)"
proof -
  define g where "g = (if ba_size a = 0 then a\<lparr>ba_size := 16, ba_ptr := replicate 16 None\<rparr>
     else if ba_size a = ba_used a
     then a\<lparr>ba_size := ba_size a + 16, ba_ptr := take (ba_used a) (ba_ptr a) @ replicate 16 None\<rparr> else a)"
  have l: "length (ba_ptr a) = ba_size a" "ba_used a \<le> ba_size a" using ok by (simp_all add: buffer_array_ok_def)
  have g: "ba_used g = ba_used a" "ba_used a < length (ba_ptr g)" "length (ba_ptr g) = ba_size g"
    "\<forall>i < ba_used a. ba_ptr g ! i = ba_ptr a ! i" "set (ba_ptr g) \<subseteq> insert None (set (ba_ptr a))"
    using l by (auto simp: g_def nth_append dest: in_set_takeD)
  define b where "b = (case ba_ptr g ! ba_used a of None \<Rightarrow> buffer_init | Some b \<Rightarrow> b)\<lparr>b_used := 0\<rparr>"
  have bok: "buffer_ok b"
  proof (cases "ba_ptr g ! ba_used a")
    case None
    then show ?thesis by (simp add: b_def used_0_ok empty_ok)
  next
    case (Some c)
    then have "Some c \<in> set (ba_ptr g)" using g(2) nth_mem by metis
    then have "Some c \<in> set (ba_ptr a)" using g(5) by blast
    then show ?thesis using ok Some by (simp add: b_def used_0_ok buffer_array_ok_def)
  qed
  let ?a = "g\<lparr>ba_ptr := (ba_ptr g)[ba_used a := Some b], ba_used := ba_used a + 1\<rparr>"
  have "buffer_array_append_get_buffer a = Some (ba_used a, ?a)"
    unfolding buffer_array_append_get_buffer_def g_def [symmetric] Let_def g(1) using g(2) by (simp add: b_def)
  moreover have "buffer_array_ok ?a"
  proof -
    have "ba_ptr ?a ! i \<noteq> None" if "i < ba_used a + 1" for i
      using that g(2,4) ok by (cases "i = ba_used a") (simp_all add: buffer_array_ok_def)
    moreover have "buffer_ok c" if "Some c \<in> set ((ba_ptr g)[ba_used a := Some b])" for c
      using that bok g(5) ok set_update_subset_insert [of "ba_ptr g" "ba_used a" "Some b"]
      by (auto simp: buffer_array_ok_def)
    ultimately show ?thesis using g(2,3) by (simp add: buffer_array_ok_def)
  qed
  moreover have "b_used b = 0" by (simp add: b_def)
  ultimately show ?thesis using g(2,4) by (intro exI [of _ ?a] exI [of _ b]) auto
qed

end
