(* ===== verification/Bit_Sets.thy ===== *)
theory Bit_Sets
  imports Byte_Buffers
begin

text \<open>
  bitset.c of lighttpd: a set of small numbers in an array of 64-bit words. The bits are a list of words, an
  access to a number that is not below \<open>nbits\<close> aborts (\<open>None\<close>). The theorems relate the operations to
  those on sets of numbers.
\<close>

record bitset =
  bs_bits :: "64 word list"
  bs_nbits :: nat

definition BITSET_BITS :: nat where "BITSET_BITS = 8 * 8"

definition BITSET_MASK :: "nat \<Rightarrow> 64 word" where
  "BITSET_MASK pos = push_bit (pos mod BITSET_BITS) 1"

definition BITSET_USED :: "nat \<Rightarrow> nat" where
  "BITSET_USED nbits = sz (nbits + (BITSET_BITS - 1)) div BITSET_BITS"

definition bitset_init :: "nat \<Rightarrow> bitset" where
  "bitset_init nbits = \<lparr>bs_bits = replicate (BITSET_USED nbits) 0, bs_nbits = nbits\<rparr>"

definition bitset_reset :: "bitset \<Rightarrow> bitset" where
  "bitset_reset s = s\<lparr>bs_bits := replicate (BITSET_USED (bs_nbits s)) 0 @ drop (BITSET_USED (bs_nbits s)) (bs_bits s)\<rparr>"

text \<open>The macro \<open>BITSET_WORD\<close>, read and assigned.\<close>

definition bitset_word :: "bitset \<Rightarrow> nat \<Rightarrow> 64 word option" where
  "bitset_word s pos = (if pos div BITSET_BITS < length (bs_bits s) then Some (bs_bits s ! (pos div BITSET_BITS)) else None)"

definition put_word :: "bitset \<Rightarrow> nat \<Rightarrow> 64 word \<Rightarrow> bitset" where
  "put_word s pos w = s\<lparr>bs_bits := (bs_bits s)[pos div BITSET_BITS := w]\<rparr>"

definition bitset_clear_bit :: "bitset \<Rightarrow> nat \<Rightarrow> bitset option" where
  "bitset_clear_bit s pos = (if pos \<ge> bs_nbits s then None else do {
     w \<leftarrow> bitset_word s pos;
     Some (put_word s pos (w AND NOT (BITSET_MASK pos)))
   })"

definition bitset_set_bit :: "bitset \<Rightarrow> nat \<Rightarrow> bitset option" where
  "bitset_set_bit s pos = (if pos \<ge> bs_nbits s then None else do {
     w \<leftarrow> bitset_word s pos;
     Some (put_word s pos (w OR BITSET_MASK pos))
   })"

definition bitset_test_bit :: "bitset \<Rightarrow> nat \<Rightarrow> bool option" where
  "bitset_test_bit s pos = (if pos \<ge> bs_nbits s then None else do {
     w \<leftarrow> bitset_word s pos;
     Some (w AND BITSET_MASK pos \<noteq> 0)
   })"

section \<open>As sets\<close>

definition bitset_ok :: "bitset \<Rightarrow> bool" where
  "bitset_ok s \<longleftrightarrow> length (bs_bits s) = BITSET_USED (bs_nbits s) \<and> bs_nbits s + 63 < 2 ^ 64"

definition members :: "bitset \<Rightarrow> nat set" where
  "members s = {n. n < bs_nbits s \<and> bit (bs_bits s ! (n div 64)) (n mod 64)}"

lemma bitset_room: "bitset_ok s \<Longrightarrow> n < bs_nbits s \<Longrightarrow> n div 64 < length (bs_bits s)"
  by (simp add: bitset_ok_def BITSET_USED_def BITSET_BITS_def)

lemma bit_mask: "bit (BITSET_MASK n) j \<longleftrightarrow> j = n mod 64"
  by (auto simp: BITSET_MASK_def BITSET_BITS_def bit_exp_iff)

lemma mask_test: "(w AND BITSET_MASK n \<noteq> 0) = bit w (n mod 64)"
proof -
  have "(w AND BITSET_MASK n = 0) = (\<forall>j. \<not> (bit w j \<and> j = n mod 64))"
    by (simp only: bit_eq_iff [of _ 0] bit_and_iff bit_mask bit_0_eq bot_apply bot_bool_def) (auto dest: spec [of _ "n mod 64"])
  then show ?thesis by blast
qed

lemma same_place: "n div 64 = m div 64 \<Longrightarrow> n mod 64 = m mod 64 \<Longrightarrow> n = (m :: nat)"
  by (metis div_mult_mod_eq)

lemma set_bit_ok:
  assumes "bitset_ok s" "n < bs_nbits s"
  shows "\<exists>s'. bitset_set_bit s n = Some s' \<and> bitset_ok s' \<and> bs_nbits s' = bs_nbits s \<and> members s' = insert n (members s)"
  using assms bitset_room [OF assms] bitset_room [OF assms(1)]
  by (auto simp: bitset_set_bit_def bitset_word_def put_word_def bitset_ok_def members_def BITSET_BITS_def
      nth_list_update bit_or_iff bit_mask split: if_splits dest: same_place)

lemma clear_bit_ok:
  assumes "bitset_ok s" "n < bs_nbits s"
  shows "\<exists>s'. bitset_clear_bit s n = Some s' \<and> bitset_ok s' \<and> bs_nbits s' = bs_nbits s \<and> members s' = members s - {n}"
  using assms bitset_room [OF assms] bitset_room [OF assms(1)]
  by (auto simp: bitset_clear_bit_def bitset_word_def put_word_def bitset_ok_def members_def BITSET_BITS_def
      nth_list_update bit_and_iff bit_not_iff bit_mask split: if_splits dest: same_place)

lemma test_bit_ok:
  assumes "bitset_ok s" "n < bs_nbits s"
  shows "bitset_test_bit s n = Some (n \<in> members s)"
  using assms bitset_room [OF assms]
  by (simp add: bitset_test_bit_def bitset_word_def BITSET_BITS_def mask_test members_def)

lemma init_ok: "n + 63 < 2 ^ 64 \<Longrightarrow> bitset_ok (bitset_init n) \<and> members (bitset_init n) = {}"
  by (auto simp: bitset_init_def bitset_ok_def members_def BITSET_USED_def BITSET_BITS_def)

lemma reset_ok: "bitset_ok s \<Longrightarrow> bitset_ok (bitset_reset s) \<and> bs_nbits (bitset_reset s) = bs_nbits s \<and> members (bitset_reset s) = {}"
  using bitset_room [of s] by (auto simp: bitset_reset_def bitset_ok_def members_def)

text \<open>A script of operations, and what it does to a set of numbers below a bound.\<close>

datatype bit_op = Set_bit nat | Clear_bit nat | Reset_bits

fun run_bit :: "bitset \<Rightarrow> bit_op list \<Rightarrow> bitset option" where
  "run_bit s [] = Some s"
| "run_bit s (Set_bit n # ops) = do { s \<leftarrow> bitset_set_bit s n; run_bit s ops }"
| "run_bit s (Clear_bit n # ops) = do { s \<leftarrow> bitset_clear_bit s n; run_bit s ops }"
| "run_bit s (Reset_bits # ops) = run_bit (bitset_reset s) ops"

fun run_set :: "nat \<Rightarrow> nat set \<Rightarrow> bit_op list \<Rightarrow> nat set option" where
  "run_set k A [] = Some A"
| "run_set k A (Set_bit n # ops) = (if n < k then run_set k (insert n A) ops else None)"
| "run_set k A (Clear_bit n # ops) = (if n < k then run_set k (A - {n}) ops else None)"
| "run_set k A (Reset_bits # ops) = run_set k {} ops"

lemma run_bit_refines:
  "bitset_ok s \<Longrightarrow> case run_set (bs_nbits s) (members s) ops of
      None \<Rightarrow> run_bit s ops = None
    | Some A \<Rightarrow> \<exists>s'. run_bit s ops = Some s' \<and> bitset_ok s' \<and> bs_nbits s' = bs_nbits s \<and> members s' = A"
proof (induction ops arbitrary: s)
  case (Cons op ops)
  show ?case
  proof (cases op)
    case (Set_bit n)
    show ?thesis
    proof (cases "n < bs_nbits s")
      case True
      obtain s' where s': "bitset_set_bit s n = Some s'" "bitset_ok s'" "bs_nbits s' = bs_nbits s" "members s' = insert n (members s)"
        using set_bit_ok [OF Cons.prems True] by blast
      show ?thesis using Cons.IH [OF s'(2)] s' True Set_bit by (simp split: option.splits)
    next
      case False
      then show ?thesis using Set_bit by (simp add: bitset_set_bit_def)
    qed
  next
    case (Clear_bit n)
    show ?thesis
    proof (cases "n < bs_nbits s")
      case True
      obtain s' where s': "bitset_clear_bit s n = Some s'" "bitset_ok s'" "bs_nbits s' = bs_nbits s" "members s' = members s - {n}"
        using clear_bit_ok [OF Cons.prems True] by blast
      show ?thesis using Cons.IH [OF s'(2)] s' True Clear_bit by (simp split: option.splits)
    next
      case False
      then show ?thesis using Clear_bit by (simp add: bitset_clear_bit_def)
    qed
  next
    case Reset_bits
    show ?thesis
      using Cons.IH [of "bitset_reset s"] reset_ok [OF Cons.prems] Reset_bits by (simp split: option.splits)
  qed
qed simp

section \<open>Properties\<close>

text \<open>A bit set is a set: after every sequence of operations the test of a number says whether it is in the
  set that the same sequence makes of sets, and the sequence aborts exactly when one of its numbers is not
  below the size.\<close>
theorem bitset_refines_set:
  assumes "n + 63 < 2 ^ 64" and "k < n"
  shows "(case run_set n {} ops of None \<Rightarrow> run_bit (bitset_init n) ops = None
    | Some A \<Rightarrow> \<exists>s. run_bit (bitset_init n) ops = Some s \<and> bitset_test_bit s k = Some (k \<in> A))"
proof -
  have i: "bitset_ok (bitset_init n)" "members (bitset_init n) = {}" "bs_nbits (bitset_init n) = n"
    using init_ok [OF assms(1)] by (simp_all add: bitset_init_def)
  show ?thesis
  proof (cases "run_set n {} ops")
    case None
    then show ?thesis using run_bit_refines [OF i(1), of ops] i by simp
  next
    case (Some A)
    then obtain s where "run_bit (bitset_init n) ops = Some s" "bitset_ok s" "bs_nbits s = n" "members s = A"
      using run_bit_refines [OF i(1), of ops] i by auto
    then show ?thesis using test_bit_ok [of s k] assms(2) Some by simp
  qed
qed

lemma bitset_refines_set_witness:
  "\<exists>s. run_bit (bitset_init 100) [Set_bit 70, Set_bit 6, Clear_bit 6] = Some s \<and> bitset_test_bit s 6 = Some False"
  using bitset_refines_set [of 100 6 "[Set_bit 70, Set_bit 6, Clear_bit 6]"] by simp

end
