(* ===== verification/Spec2Isabelle.thy ===== *)
theory Spec2Isabelle
  imports Core_Properties Queues Memory_Partitions Time_Management Task_Control Event_Objects Kernel_Init System_Properties
    Stat_Cache Request_Paths Connection_Table Http_Chunks Key_Arrays Buffer_Arrays Bit_Sets
begin

text \<open>
  The repository is a collection of programs. This development verifies two of them: the real-time
  kernel uC/OS-II (src/vimprojects/collectedsrc/UCOS/ucosii), whole, and the
  web server lighttpd 1.4.20 (src/vimprojects/lighttpd-1.4.20/src), whose annotated sources are the
  main C program of the repository: its layer of data structures, the way of a request from the network and on to the
  name of a file, and the way of a response to the network. Paths below are relative to these two directories.

  \<^bold>\<open>How C is modelled.\<close> A structure is a record, an enumeration a datatype, a function a definition that takes
  the state it reads and returns the state it writes. A function that can dereference a pointer to
  nothing, read or write outside an array or fail an assertion returns an option, and \<open>None\<close> is that fault; every theorem
  that gives \<open>Some\<close> therefore says that the code does not fault. Early returns are
  branches in the order of the code. Machine integers are words where a wrap-around can matter; sizes are natural numbers,
  with \<open>mod 2 ^ 64\<close> where the code adds to a \<open>size_t\<close>. Loops are structural recursions or have a measure.
  What fresh memory holds is a parameter, for all values of which the theorems hold.

  \<^bold>\<open>Part 1: the kernel.\<close> The state is one record, \<open>os\<close> (Kernel\_State), with a field for each global variable of
  include/UCOS\_II.H and the kernel files; pointers are addresses into the four pools of control blocks or into application
  memory. A task switch is the change of \<open>OSTCBCur\<close> and \<open>OSPrioCur\<close>; a service that waits is
  cut in two at its call of \<open>OSSched\<close>, into a first part with outcome \<open>Blocked\<close> and a part
  \<open>..._resume\<close> that runs when the task runs again.

  \<^item> Prelude, Kernel\_Config: integer types, constants of samples/ex2l/OS\_CFG.H and UCOS\_II.H.
  \<^item> Priority\_Table: the bit maps of kernel/OS\_CORE.C; the locale \<open>priority_set\<close> and its interpretation on them.
  \<^item> Kernel\_State, Kernel\_Core: kernel/OS\_CORE.C, arch/OS\_CPU\_C.C and arch/OS\_CPU\_A.ASM:
    scheduler, interrupt entry and exit, tick, control blocks and wait lists.
  \<^item> Kernel\_Inv, Scheduling, Task\_Lists, Task\_Table: the invariants \<open>kinv\<close> (scheduling data),
    \<open>tinv\<close> (lists of control blocks) and \<open>einv\<close>, and their preservation by the functions of OS\_CORE.C.
  \<^item> Event\_Contract: the locales \<open>event_post\<close> and \<open>event_pend\<close>, the contract of all services that post to and wait for an event,
    interpreted on semaphores, mailboxes and queues (five interpretations).
  \<^item> Semaphores, Mailboxes, Queues, Ring\_Buffer, Event\_Objects: kernel/OS\_SEM.C, OS\_MBOX.C, OS\_Q.C. The locale \<open>message_queue\<close> is
    interpreted on the circular buffer.
  \<^item> Memory\_Partitions: kernel/OS\_MEM.C, with the locale \<open>block_pool\<close>.
  \<^item> Time\_Management, Tasks, Task\_Control: kernel/OS\_TIME.C, OS\_TASK.C and the first stack frame of a task.
  \<^item> Kernel\_Init: \<open>OSInit\<close>, \<open>OSStart\<close>, the idle and the statistics task.
  \<^item> Kernel\_System, System\_Inv, System\_Steps, System\_Properties: the kernel as a transition system of calls, ticks and
    returns from waits, its invariant, and what holds in every reachable state: the task that runs has the highest
    priority of the ready ones, no step faults, no task is lost, and the units of a semaphore are conserved.
  \<^item> Core\_Properties: the properties of scheduler, interrupt exit and tick. Sample\_State: one concrete state, at
    which the theorems are applied.

  Assumptions of Part 1: the compiler port of arch (16-bit integers, far pointers of 4 bytes), one level of
  interrupts per step of the transition system, hooks that leave the kernel's variables alone (they are
  empty in the port). The theorems on single services assume task level (no interrupt, scheduler not locked) where
  the manual of the service does; what happens otherwise is stated apart. The
  transition system covers semaphores, mailboxes, delays and tasks; queues and partitions have their own theorems.

  \<^bold>\<open>Part 2: lighttpd.\<close>

  \<^item> Byte\_Buffers, Byte\_Numbers, Byte\_Texts, Url\_Codec, Path\_Simplify, Buffer\_Arrays: buffer.c and buffer.h. A buffer is its
    allocated area, a list of bytes, with \<open>used\<close> and \<open>size\<close>; \<open>buffer_ok\<close> is its well-formedness and \<open>text_of\<close> the string it holds.
    Byte\_Buffers has allocation, copies and appends, Byte\_Numbers numbers in decimal and hexadecimal and the
    refinement of sequences of operations to strings, Byte\_Texts searching and comparing, Url\_Codec the six encodings and the
    decoding of URLs, Path\_Simplify the removal of \<open>..\<close> from a path, against a reference on lists of segments.
  \<^item> Key\_Arrays: array.c, data\_string.c, data\_count.c and data\_integer.c. The invariant \<open>array_ok\<close> says that the index list is
    sorted by the keys without case; the halving search is proved correct under it and the array refines a table.
  \<^item> Splay\_Trees: splaytree.c, as a map from keys, with exact subtree sizes; the locale \<open>keyed_index\<close> and its interpretation.
    Stat\_Cache: hash, lookup, cleanup and release of stat\_cache.c, over that locale.
  \<^item> Bit\_Sets: bitset.c, refined to sets of numbers.
  \<^item> Request\_Paths: the part of request.c that checks the characters of a URI and the parts of response.c that take it apart,
    decode and simplify the path, and build the name of the file below the document root, composed as the server composes
    them; plug-ins that run in between are taken to leave these buffers alone.
  \<^item> Chunk\_Queues: chunk.c. The chunks of a queue are linked through addresses in an explicit memory; \<open>queue_rep\<close> says that the
    queue and its stack of unused chunks are two separate lists without a cycle, \<open>holds\<close> gives the chunks from first to last. The
    calls \<open>unlink\<close>, \<open>close\<close> and \<open>munmap\<close> are recorded; \<open>mkstemp\<close> is a parameter.
  \<^item> Network\_Write: the back end of network\_write.c and \<open>network_write_chunkqueue\<close> of network.c. The locale
    \<open>network_backend\<close> is the contract between them: a back end sends a prefix of what is outstanding, advances the chunks by as
    much and counts it. The client's lemma is proved in the locale, which is interpreted on the portable back end. The
    results of \<open>write\<close> are a parameter, so that the theorems hold for every sequence of partial writes and failures; the files and
    their sizes are parameters too, and a file that is being sent does not change.
  \<^item> Request\_Reading: \<open>connection_handle_read\<close> and \<open>connection_handle_read_state\<close> of connections.c. The record \<open>read_con\<close> has
    the fields of the connection that they use; \<open>unread\<close> says what is left in the read queue. What has arrived, the descriptors that
    \<open>mkstemp\<close> and \<open>open\<close> give and the results of \<open>write\<close> are parameters. The theorems are about sequences of packets
    (\<open>receive\<close>): the header is found and copied whatever the borders of the packets are, and the body is collected, in memory or in
    files. For the header the packets between the first and the last must have three bytes or more (\<open>roomy\<close>); a property shows
    what happens to a request without this. The contract of the two ways to store a body is \<open>stores\<close>, proved for each.
    Reading\_Safety shows that the reading states neither fault nor read beyond the body for any packets whatsoever, and keep
    an invariant of the connection.
  \<^item> Connection\_Pool: the table of connections of connections.c, refined to a set.
  \<^item> Connections, Connection\_Machine: the life of a connection. \<open>connection_step\<close> is one turn of the state machine, with a
    definition per state; \<open>connection_loop\<close> is its loop, a partial function that is proved to return; \<open>connection_handle_fdevent\<close>
    is what an event does. The record \<open>system\<close> has what is a parameter: the plug-ins, the configuration, the parser of requests, the making of
    the response header, the back end; \<open>sys_ok\<close> is what is asked of them. The record \<open>world\<close> has what is to come: bytes, results of
    \<open>write\<close>, answers of the handlers. \<open>machine_ok\<close> is the invariant, \<open>turn\<close> what one turn may do and why the loop ends: with each
    turn an answer of a handler is used up or the rank of the state falls.
  \<^item> Connection\_Table: accepting clients and the calls of the main loop for all connections, in any order; \<open>table_ok\<close> accounts for
    every descriptor.
  \<^item> Http\_Chunks: http\_chunk.c, with a reader of the chunked encoding as the reference.

  The parts call each other like the files do: the state machine reads with Request\_Reading, writes with Network\_Write and gives its slot back to
  Connection\_Pool, stat\_cache.c uses splaytree.c, array.c uses the buffers for its keys and
  values, every text function works on the buffer of Byte\_Buffers, and a response goes from http\_chunk.c through chunk.c and
  network.c to network\_write.c: the theorems of Network\_Write and Http\_Chunks are about whole sequences of such calls.

  Bounds of Part 2: the lengths of two texts that are put together stay below \<open>2 ^ 64 - 64\<close> (the
  rounding to pieces of 64 bytes would wrap beyond), texts that are compared are shorter than \<open>2 ^ 31\<close> (the
  difference of the lengths is returned in an \<open>int\<close>), and an array has at most
  \<open>INT_MAX\<close> elements. Keys of arrays have no byte between \<open>Z\<close> and \<open>a\<close>; without this hypothesis the search
  fails, as a property of Key\_Arrays shows. Arguments of a call are different objects, except in
  \<open>buffer_path_simplify\<close>, where the flag \<open>same\<close> tells. Memory does not run out. Buffers in chunks
  are smaller than \<open>2 ^ 60\<close> bytes. On one connection less than \<open>2 ^ 50\<close> bytes arrive, and a handler asks to be called again
  finitely often (a theorem of Connection\_Machine shows that the server has no bound of its own).

  \<^bold>\<open>Not modelled.\<close> Of the kernel's directory: the sample programs and PC.C (screen and keyboard of a PC). Of lighttpd: the
  event loops and the rest of the main loop, setting up the sockets, the SSL branches, the making of the response header, the parser of request headers (its file has a part pasted into a
  comment and does not compile), the network back ends that need other system calls,
  configuration and plug-ins, which are mostly system calls and glue, the
  generated parsers and lemon.c, md5.c and crc32.c (third-party code); of the modelled files, the functions that only print or
  free, the element classes of configuration and FastCGI, the branch of \<open>buffer_path_simplify\<close> for Windows, and the calls
  of \<open>stat\<close> and of the file monitor in stat\_cache.c. Of the repository: the PalmOS sources (the headers that
  define their structures are missing), exercises, games and the programs in C++, Java and Python.
\<close>

end
